(* ===== verification/Prelude.thy ===== *)
theory Prelude
  imports Main "HOL-Library.Word" "HOL-Library.While_Combinator"
begin

text \<open>
  What every component of the development shares.

  \<^item> The \<^emph>\<open>engine monad\<close>. Engine code takes a \<open>JSContext* cx\<close>, may allocate, may
    report an error and return \<open>nullptr\<close>, and in a debug build stops at a failed
    \<open>MOZ_ASSERT\<close>; a read or write outside a \<open>mozilla::Span\<close> stops at a
    \<open>MOZ_RELEASE_ASSERT\<close> (\<open>mfbt/Span.h\<close>).  A computation of type \<open>'a eng\<close> reads the
    outcome of its allocations from an environment \<open>env\<close>, counts the allocations it
    has made, and yields a value or an \<open>err\<close>.
  \<^item> The contents of fresh memory are part of the environment, so a result that
    depends on memory the code never wrote is visible in the model.
  \<^item> \<open>for\<close> loops over an index as combinators, and one rule per combinator.
  \<^item> The judgement \<open>runs m v E Q\<close>: from every allocation count, \<open>m\<close> terminates, and
    either returns a value with \<open>Q\<close> or stops with an error with \<open>E\<close>.
\<close>

unbundle bit_operations_syntax

section \<open>Collections of facts\<close>

named_theorems runs_intros \<open>introduction rules for the judgement runs\<close>
named_theorems dval_simps \<open>values of digit lists\<close>

section \<open>Errors and the environment\<close>

type_synonym u8 = "8 word"
type_synonym u16 = "16 word"
type_synonym u32 = "32 word"
type_synonym u64 = "64 word"

text \<open>
  \<open>AssertFail\<close> is a failed \<open>MOZ_ASSERT\<close>, \<open>MOZ_RELEASE_ASSERT\<close> or a span access out of
  range; \<open>Diverges\<close> is a loop that does not end; \<open>UndefinedBehavior\<close> is an access through a pointer
  outside its array or an overflow the language does not define.  None of them is a value the C++ code
  returns: a theorem whose \<open>E\<close> excludes them says that the code cannot crash or hang.
  The other errors are the ones the code reports on \<open>cx\<close> before it returns
  \<open>nullptr\<close> or \<open>false\<close>; \<open>UserException\<close> is one thrown by script code that the engine called, and
  \<open>BadDecode\<close> and \<open>BadBuildId\<close> are the failures of \<open>JS::TranscodeResult\<close> that report nothing.
\<close>

datatype err =
    AssertFail
  | Diverges
  | UndefinedBehavior
  | OutOfMemory
  | BigIntTooLarge
  | BigIntDivisionByZero
  | BigIntNegativeExponent
  | NonIntegerNumberToBigInt
  | BigIntInvalidSyntax
  | BadRadix
  | BigIntToNumber
  | CantConvertToBigInt
  | CantConvertToPrimitive
  | ToPrimitiveNotCallable
  | ToPrimitiveReturnedObject
  | SymbolToNumber
  | SymbolToString
  | UserException
  | AllocationOverflow
  | BadDecode
  | BadBuildId

text \<open>
  The \<open>k\<close>-th allocation of a run succeeds when \<open>allocOk v k\<close>; the memory it returns
  holds \<open>junk v k i\<close> at word \<open>i\<close>.
\<close>

record env =
  allocOk :: "nat \<Rightarrow> bool"
  junk :: "nat \<Rightarrow> nat \<Rightarrow> u64"

type_synonym 'a eng = "env \<Rightarrow> nat \<Rightarrow> (err + 'a) \<times> nat"

definition returnM :: "'a \<Rightarrow> 'a eng" where
  "returnM x = (\<lambda>v k. (Inr x, k))"

definition throwM :: "err \<Rightarrow> 'a eng" where
  "throwM e = (\<lambda>v k. (Inl e, k))"

definition bindM :: "'a eng \<Rightarrow> ('a \<Rightarrow> 'b eng) \<Rightarrow> 'b eng" where
  "bindM m f = (\<lambda>v k. case m v k of (Inl e, k') \<Rightarrow> (Inl e, k') | (Inr x, k') \<Rightarrow> f x v k')"

definition mozAssert :: "bool \<Rightarrow> 'a eng \<Rightarrow> 'a eng" where
  "mozAssert b m = (if b then m else throwM AssertFail)"

lemma mozAssert_cong [fundef_cong]: "b = b' \<Longrightarrow> (b' \<Longrightarrow> m = m') \<Longrightarrow> mozAssert b m = mozAssert b' m'"
  by (simp add: mozAssert_def)

text \<open>One request to the allocator: the contents of the fresh memory, or out of memory.\<close>

definition allocM :: "(nat \<Rightarrow> u64) eng" where
  "allocM = (\<lambda>v k. if allocOk v k then (Inr (junk v k), Suc k) else (Inl OutOfMemory, Suc k))"

text \<open>\<open>while (b) s = c(s)\<close> for a body that neither allocates nor fails.\<close>

definition whileM :: "('s \<Rightarrow> bool) \<Rightarrow> ('s \<Rightarrow> 's) \<Rightarrow> 's \<Rightarrow> 's eng" where
  "whileM b c s = (case while_option b c s of None \<Rightarrow> throwM Diverges | Some s' \<Rightarrow> returnM s')"

text \<open>
  \<open>while (b) s = c(s)\<close> for a body that may allocate, fail or stop at an assertion: the loop runs on
  the state of the computation and ends at the first error.
\<close>

definition whileE :: "('s \<Rightarrow> bool) \<Rightarrow> ('s \<Rightarrow> 's eng) \<Rightarrow> 's \<Rightarrow> 's eng" where
  "whileE b c s = (\<lambda>v k.
     case while_option
       (\<lambda>(r, k). case r of Inl e \<Rightarrow> False | Inr s \<Rightarrow> b s)
       (\<lambda>(r, k). case r of Inl e \<Rightarrow> (Inl e, k) | Inr s \<Rightarrow> c s v k) (Inr s, k)
     of None \<Rightarrow> (Inl Diverges, 0) | Some res \<Rightarrow> res)"

text \<open>A local array that the code does not initialise holds whatever the stack held.\<close>

definition stackM :: "(nat \<Rightarrow> u64) eng" where
  "stackM = (\<lambda>v k. (Inr (junk v k), k))"

text \<open>\<open>for (; i < n; i++) s = body(i, s)\<close> and \<open>for (i = n - 1; i >= 0; i--) s = body(i, s)\<close>.\<close>

function forUp :: "nat \<Rightarrow> nat \<Rightarrow> (nat \<Rightarrow> 's \<Rightarrow> 's eng) \<Rightarrow> 's \<Rightarrow> 's eng" where
  "forUp i n body s = (if i < n then bindM (body i s) (forUp (Suc i) n body) else returnM s)"
  by pat_completeness auto
termination
  by (relation "measure (\<lambda>(i, n, body, s). n - i)") auto

declare forUp.simps [simp del]

primrec forDown :: "nat \<Rightarrow> (nat \<Rightarrow> 's \<Rightarrow> 's eng) \<Rightarrow> 's \<Rightarrow> 's eng" where
  "forDown 0 body s = returnM s"
| "forDown (Suc n) body s = bindM (body n s) (forDown n body)"

section \<open>The judgement\<close>

definition runs :: "'a eng \<Rightarrow> env \<Rightarrow> (err \<Rightarrow> bool) \<Rightarrow> ('a \<Rightarrow> bool) \<Rightarrow> bool" where
  "runs m v E Q \<longleftrightarrow> (\<forall>k. case fst (m v k) of Inl e \<Rightarrow> E e | Inr x \<Rightarrow> Q x)"

text \<open>The values that a computation can return; what a run returns is one of them.\<close>

definition mayReturn :: "'a eng \<Rightarrow> env \<Rightarrow> 'a \<Rightarrow> bool" where
  "mayReturn m v x \<longleftrightarrow> (\<exists>k. fst (m v k) = Inr x)"

lemma runs_mayReturn: "runs m v E Q \<Longrightarrow> runs m v E (\<lambda>x. Q x \<and> mayReturn m v x)"
  unfolding runs_def mayReturn_def by (auto split: sum.splits)

lemma mayReturn_returnM [simp]: "mayReturn (returnM x) v y \<longleftrightarrow> y = x"
  by (auto simp: mayReturn_def returnM_def)

text \<open>Running out of memory, possible only when the allocator can fail.\<close>

definition oom :: "env \<Rightarrow> err \<Rightarrow> bool" where
  "oom v e \<longleftrightarrow> e = OutOfMemory \<and> (\<exists>k. \<not> allocOk v k)"

lemma oom_OutOfMemory: "oom v OutOfMemory \<longleftrightarrow> (\<exists>k. \<not> allocOk v k)"
  by (simp add: oom_def)

lemma bindM_returnM [simp]: "bindM (returnM x) f = f x"
  by (simp add: bindM_def returnM_def)

lemma bindM_throwM [simp]: "bindM (throwM e) f = throwM e"
  by (simp add: bindM_def throwM_def)

lemma mozAssert_holds [simp]: "b \<Longrightarrow> mozAssert b m = m"
  by (simp add: mozAssert_def)

lemma bindM_if: "bindM (if b then m1 else m2) f = (if b then bindM m1 f else bindM m2 f)"
  by simp

lemma bindM_assoc: "bindM (bindM m f) g = bindM m (\<lambda>x. bindM (f x) g)"
  by (auto simp: bindM_def fun_eq_iff split: prod.splits sum.splits)

lemma runs_returnM [simp]: "runs (returnM x) v E Q \<longleftrightarrow> Q x"
  by (simp add: runs_def returnM_def)

lemma runs_throwM [simp]: "runs (throwM e) v E Q \<longleftrightarrow> E e"
  by (simp add: runs_def throwM_def)

lemma runs_allocM [runs_intros]:
  "(\<And>e. oom v e \<Longrightarrow> E e) \<Longrightarrow> (\<And>f. Q f) \<Longrightarrow> runs allocM v E Q"
  by (auto simp: runs_def allocM_def oom_def)

lemma runs_bindM:
  assumes "runs m v E R" and "\<And>x. R x \<Longrightarrow> runs (f x) v E Q"
  shows "runs (bindM m f) v E Q"
  unfolding runs_def
proof
  fix k
  show "case fst (bindM m f v k) of Inl e \<Rightarrow> E e | Inr x \<Rightarrow> Q x"
  proof (cases "m v k")
    case (Pair r k')
    have m: "case r of Inl e \<Rightarrow> E e | Inr x \<Rightarrow> R x"
      using assms(1) Pair unfolding runs_def by (metis fst_conv)
    show ?thesis
    proof (cases r)
      case (Inl e)
      then show ?thesis using m Pair by (simp add: bindM_def)
    next
      case (Inr x)
      with m have "R x" by simp
      from assms(2)[OF this] have "case fst (f x v k') of Inl e \<Rightarrow> E e | Inr x \<Rightarrow> Q x"
        unfolding runs_def by blast
      then show ?thesis using Pair Inr by (simp add: bindM_def)
    qed
  qed
qed

lemma runs_bindI [runs_intros]:
  "runs m v E (\<lambda>x. runs (f x) v E Q) \<Longrightarrow> runs (bindM m f) v E Q"
  by (rule runs_bindM)

lemma runs_weaken:
  assumes "runs m v E R" and "\<And>e. E e \<Longrightarrow> E' e" and "\<And>x. R x \<Longrightarrow> Q x"
  shows "runs m v E' Q"
  using assms unfolding runs_def by (metis (mono_tags, lifting) sum.case_eq_if)

lemma runs_weakenQ: "runs m v E R \<Longrightarrow> (\<And>x. R x \<Longrightarrow> Q x) \<Longrightarrow> runs m v E Q"
  by (rule runs_weaken)

lemma runs_if [runs_intros]:
  "(b \<Longrightarrow> runs m1 v E Q) \<Longrightarrow> (\<not> b \<Longrightarrow> runs m2 v E Q) \<Longrightarrow> runs (if b then m1 else m2) v E Q"
  by simp

lemma runs_mozAssert [runs_intros]:
  "b \<Longrightarrow> runs m v E Q \<Longrightarrow> runs (mozAssert b m) v E Q"
  by simp

lemma runs_forUp:
  assumes "I i s" and "i \<le> n"
    and step: "\<And>j s. i \<le> j \<Longrightarrow> j < n \<Longrightarrow> I j s \<Longrightarrow> runs (body j s) v E (I (Suc j))"
  shows "runs (forUp i n body s) v E (I n)"
  using assms
proof (induction i n body s rule: forUp.induct)
  case (1 i n body s)
  show ?case
  proof (cases "i < n")
    case True
    have "runs (forUp (Suc i) n body s') v E (I n)" if "I (Suc i) s'" for s'
      using 1 True that by simp
    moreover have "runs (body i s) v E (I (Suc i))"
      using 1 True by simp
    ultimately show ?thesis
      using True by (subst forUp.simps) (simp add: runs_bindM)
  next
    case False
    with 1 show ?thesis by (subst forUp.simps) simp
  qed
qed

lemma runs_forDown:
  assumes "I n s"
    and step: "\<And>j s. j < n \<Longrightarrow> I (Suc j) s \<Longrightarrow> runs (body j s) v E (I j)"
  shows "runs (forDown n body s) v E (I 0)"
  using assms
proof (induction n arbitrary: s)
  case 0
  then show ?case by simp
next
  case (Suc n)
  show ?case
    unfolding forDown.simps
    by (rule runs_bindM [OF Suc.prems(2)]) (use Suc in auto)
qed

lemma runs_forUpI:
  assumes "I i s" and "i \<le> n"
    and "\<And>j s. i \<le> j \<Longrightarrow> j < n \<Longrightarrow> I j s \<Longrightarrow> runs (body j s) v E (I (Suc j))"
    and "\<And>s. I n s \<Longrightarrow> Q s"
  shows "runs (forUp i n body s) v E Q"
  by (rule runs_weakenQ [OF runs_forUp [where I = I]]) (use assms in auto)

lemma runs_forDownI:
  assumes "I n s"
    and "\<And>j s. j < n \<Longrightarrow> I (Suc j) s \<Longrightarrow> runs (body j s) v E (I j)"
    and "\<And>s. I 0 s \<Longrightarrow> Q s"
  shows "runs (forDown n body s) v E Q"
  by (rule runs_weakenQ [OF runs_forDown [where I = I]]) (use assms in auto)

lemma runs_whileM:
  assumes "P s"
    and "\<And>s. P s \<Longrightarrow> b s \<Longrightarrow> P (c s)"
    and "\<And>s. P s \<Longrightarrow> b s \<Longrightarrow> (f (c s) :: nat) < f s"
    and "\<And>s. P s \<Longrightarrow> \<not> b s \<Longrightarrow> Q s"
  shows "runs (whileM b c s) v E Q"
proof -
  obtain t where t: "while_option b c s = Some t"
    using measure_while_option_Some [of P b c f s] assms by blast
  have "P t" using while_option_rule [OF _ t] assms by blast
  moreover have "\<not> b t" using t by (rule while_option_stop)
  ultimately show ?thesis using t assms(4) by (simp add: whileM_def)
qed

lemma runs_stackM [runs_intros]: "(\<And>f. Q f) \<Longrightarrow> runs stackM v E Q"
  by (simp add: runs_def stackM_def)

lemma runs_whileE:
  assumes "P s"
    and step: "\<And>s. P s \<Longrightarrow> b s \<Longrightarrow> runs (c s) v E (\<lambda>s'. P s' \<and> (f s' :: nat) < f s)"
    and stop: "\<And>s. P s \<Longrightarrow> \<not> b s \<Longrightarrow> Q s"
  shows "runs (whileE b c s) v E Q"
  unfolding runs_def
proof
  fix k
  let ?b = "\<lambda>(r, k). case r of Inl e \<Rightarrow> False | Inr s \<Rightarrow> b s"
  let ?c = "\<lambda>(r, k). case r of Inl e \<Rightarrow> (Inl e, k) | Inr s \<Rightarrow> c s v k"
  let ?I = "\<lambda>(r, k). case r of Inl e \<Rightarrow> E e | Inr s \<Rightarrow> P s"
  let ?f = "\<lambda>(r, k). case r of Inl e \<Rightarrow> 0 | Inr s \<Rightarrow> Suc (f s)"
  have one: "?I (?c st) \<and> ?f (?c st) < ?f st" if "?I st" "?b st" for st
  proof -
    obtain s0 k0 where st: "st = (Inr s0, k0)" using \<open>?b st\<close> by (cases st; cases "fst st") auto
    then have "runs (c s0) v E (\<lambda>s'. P s' \<and> f s' < f s0)" using that step by simp
    then have "case fst (c s0 v k0) of Inl e \<Rightarrow> E e | Inr x \<Rightarrow> P x \<and> f x < f s0"
      unfolding runs_def by blast
    then show ?thesis using st by (cases "c s0 v k0"; cases "fst (c s0 v k0)") auto
  qed
  obtain t where t: "while_option ?b ?c (Inr s, k) = Some t"
    using measure_while_option_Some [of ?I ?b ?c ?f "(Inr s, k)"] one \<open>P s\<close> by auto
  have "?I t" using while_option_rule [OF _ t, of ?I] one \<open>P s\<close> by auto
  moreover have "\<not> ?b t" using t by (rule while_option_stop)
  ultimately show "case fst (whileE b c s v k) of Inl e \<Rightarrow> E e | Inr x \<Rightarrow> Q x"
    using t stop by (cases t; cases "fst t") (auto simp: whileE_def)
qed

text \<open>The same with a counter of the turns that is no part of the state.\<close>

lemma runs_whileE_count:
  assumes "P k s"
    and step: "\<And>k s. P k s \<Longrightarrow> b s \<Longrightarrow> k < N \<and> runs (c s) v E (P (Suc k))"
    and stop: "\<And>k s. P k s \<Longrightarrow> \<not> b s \<Longrightarrow> Q s"
  shows "runs (whileE b c s) v E Q"
proof (rule runs_whileE [where P = "\<lambda>s. \<exists>k. P k s" and Q = Q and f = "\<lambda>s. LEAST j. \<exists>k. P k s \<and> j = N - k"])
  fix s
  let ?f = "\<lambda>s. LEAST j. \<exists>k. P k s \<and> j = N - k"
  assume "\<exists>k. P k s" and b: "b s"
  then have "\<exists>j k. P k s \<and> j = N - k" by blast
  then have "\<exists>k. P k s \<and> ?f s = N - k" by (rule LeastI_ex)
  then obtain k where k: "P k s" "?f s = N - k" by blast
  have "runs (c s) v E (P (Suc k))" "k < N" using step [OF k(1) b] by auto
  then show "runs (c s) v E (\<lambda>s'. (\<exists>k. P k s') \<and> ?f s' < ?f s)"
  proof (elim runs_weakenQ)
    fix s'
    assume *: "P (Suc k) s'"
    then have "?f s' \<le> N - Suc k" by (intro Least_le) blast
    then show "(\<exists>k. P k s') \<and> ?f s' < ?f s" using * k \<open>k < N\<close> by auto
  qed
next
  show "\<exists>k. P k s" using \<open>P k s\<close> by (rule exI)
next
  fix s assume "\<exists>k. P k s" and "\<not> b s"
  then show "Q s" using stop by (elim exE)
qed

lemma whileE_unfold: "whileE b c s = (if b s then bindM (c s) (whileE b c) else returnM s)"
proof (intro ext)
  fix v k
  let ?b = "\<lambda>(r, k). case r of Inl e \<Rightarrow> False | Inr s \<Rightarrow> b s"
  let ?c = "\<lambda>(r, k). case r of Inl e \<Rightarrow> (Inl e, k) | Inr s \<Rightarrow> c s v k"
  show "whileE b c s v k = (if b s then bindM (c s) (whileE b c) else returnM s) v k"
  proof (cases "b s")
    case False
    then show ?thesis by (simp add: whileE_def while_option_unfold [of ?b] returnM_def)
  next
    case True
    show ?thesis
    proof (cases "c s v k")
      case (Pair r k')
      have "whileE b c s v k = (case while_option ?b ?c (r, k') of None \<Rightarrow> (Inl Diverges, 0) | Some res \<Rightarrow> res)"
        using True Pair by (simp add: whileE_def while_option_unfold [of ?b ?c "(Inr s, k)"])
      then show ?thesis
        using True Pair by (cases r) (simp_all add: bindM_def whileE_def while_option_unfold [of ?b ?c "(Inl _, k')"])
    qed
  qed
qed

text \<open>A \<open>do\<close> loop whose condition holds at the start is the \<open>while\<close> loop.\<close>

lemma doWhile_eq: "b s \<Longrightarrow> bindM (c s) (whileE b c) = whileE b c s"
  by (simp add: whileE_unfold [of b c s])

lemma whileM_stop: "\<not> b s \<Longrightarrow> whileM b c s = returnM s"
  by (simp add: whileM_def while_option_unfold)


section \<open>Arrays behind plain pointers\<close>

text \<open>
  An array that the code reaches through a pointer has no bounds check: an access outside it is
  undefined.  Some code tests the result of an allocation and goes on without it.
\<close>

definition ptrGet :: "'a list \<Rightarrow> nat \<Rightarrow> 'a eng" where
  "ptrGet xs i = (if i < length xs then returnM (xs ! i) else throwM UndefinedBehavior)"

definition ptrSet :: "'a list \<Rightarrow> nat \<Rightarrow> 'a \<Rightarrow> 'a list eng" where
  "ptrSet xs i x = (if i < length xs then returnM (xs[i := x]) else throwM UndefinedBehavior)"

definition tryAlloc :: "bool eng" where
  "tryAlloc = (\<lambda>v k. (Inr (allocOk v k), Suc k))"

lemma ptrGet_inside [simp]: "i < length xs \<Longrightarrow> ptrGet xs i = returnM (xs ! i)"
  by (simp add: ptrGet_def)

lemma ptrSet_inside [simp]: "i < length xs \<Longrightarrow> ptrSet xs i x = returnM (xs[i := x])"
  by (simp add: ptrSet_def)

lemma runs_tryAlloc [runs_intros]: "(\<And>ok. ok \<or> \<not> (\<forall>k. allocOk v k) \<Longrightarrow> Q ok) \<Longrightarrow> runs tryAlloc v E Q"
  by (auto simp: runs_def tryAlloc_def)


end
