(* ===== verification/FloatingPoint.thy ===== *)
theory FloatingPoint
  imports Prelude
begin

text \<open>
  Doubles as bit patterns: the traits and classification functions of \<open>mfbt/FloatingPoint.h\<close> and
  the conversions of a double to an integer of \<open>js/public/Conversions.h\<close>.  A double is its 64 bits
  (\<open>BitwiseCast<uint64_t>\<close> is the identity of the model).  The number that a finite double stands
  for is a multiple of \<open>2^-1074\<close>; \<open>dscaled\<close> is that multiple, an integer, so that every property is
  stated over the integers.
\<close>

section \<open>The encoding\<close>

type_synonym double = u64

definition kExponentWidth :: nat where
  "kExponentWidth = 11"

definition kSignificandWidth :: nat where
  "kSignificandWidth = 52"

definition kExponentBias :: nat where
  "kExponentBias = 2 ^ (kExponentWidth - 1) - 1"

definition kExponentShift :: nat where
  "kExponentShift = kSignificandWidth"

definition kSignBit :: u64 where
  "kSignBit = push_bit 63 1"

definition kExponentBits :: u64 where
  "kExponentBits = push_bit kSignificandWidth (push_bit kExponentWidth 1 - 1)"

definition kSignificandBits :: u64 where
  "kSignificandBits = push_bit kSignificandWidth 1 - 1"

definition IsNaN :: "double \<Rightarrow> bool" where
  "IsNaN d \<longleftrightarrow> d AND kExponentBits = kExponentBits \<and> d AND kSignificandBits \<noteq> 0"

definition IsInfinite :: "double \<Rightarrow> bool" where
  "IsInfinite d \<longleftrightarrow> d AND NOT kSignBit = kExponentBits"

definition IsFinite :: "double \<Rightarrow> bool" where
  "IsFinite d \<longleftrightarrow> d AND kExponentBits \<noteq> kExponentBits"

definition IsNegative :: "double \<Rightarrow> bool eng" where
  "IsNegative d = mozAssert (\<not> IsNaN d) (returnM (d AND kSignBit \<noteq> 0))"

definition IsNegativeZero :: "double \<Rightarrow> bool" where
  "IsNegativeZero d \<longleftrightarrow> d = kSignBit"

definition IsPositiveZero :: "double \<Rightarrow> bool" where
  "IsPositiveZero d \<longleftrightarrow> d = 0"

definition ToZeroIfNonfinite :: "double \<Rightarrow> double" where
  "ToZeroIfNonfinite d = (if IsFinite d then d else 0)"

definition ExponentComponent :: "double \<Rightarrow> int" where
  "ExponentComponent d = int (unat (drop_bit kExponentShift (d AND kExponentBits))) - int kExponentBias"

definition PositiveInfinity :: double where
  "PositiveInfinity = kExponentBits"

definition NegativeInfinity :: double where
  "NegativeInfinity = kSignBit OR kExponentBits"

definition SpecificNaN :: "bool \<Rightarrow> u64 \<Rightarrow> double eng" where
  "SpecificNaN signbit significand =
     mozAssert (significand AND NOT kSignificandBits = 0) (
     mozAssert (significand AND kSignificandBits \<noteq> 0) (
     let result = (if signbit then kSignBit else 0) OR kExponentBits OR significand in
     mozAssert (IsNaN result) (returnM result)))"

definition MinNumberValue :: double where
  "MinNumberValue = 1"

definition UnspecifiedNaN :: "double eng" where
  "UnspecifiedNaN = SpecificNaN True kSignificandBits"

definition NumbersAreIdentical :: "double \<Rightarrow> double \<Rightarrow> bool" where
  "NumbersAreIdentical x y = (if IsNaN x then IsNaN y else x = y)"

section \<open>The number a double stands for\<close>

definition dsign :: "double \<Rightarrow> bool" where
  "dsign d \<longleftrightarrow> d AND kSignBit \<noteq> 0"

definition dexp :: "double \<Rightarrow> nat" where
  "dexp d = unat (drop_bit kExponentShift (d AND kExponentBits))"

definition dfrac :: "double \<Rightarrow> nat" where
  "dfrac d = unat (d AND kSignificandBits)"

text \<open>The magnitude in units of \<open>2^-1074\<close>: a subnormal has no implicit one.\<close>

definition dmag :: "double \<Rightarrow> nat" where
  "dmag d = (if dexp d = 0 then dfrac d else (2 ^ 52 + dfrac d) * 2 ^ (dexp d - 1))"

definition dscaled :: "double \<Rightarrow> int" where
  "dscaled d = (if dsign d then - int (dmag d) else int (dmag d))"

text \<open>\<open>d == 0\<close>, \<open>d < 0\<close> and \<open>d > 0\<close> of IEEE 754: zeroes are equal, and a NaN compares false.\<close>

definition deq0 :: "double \<Rightarrow> bool" where
  "deq0 d \<longleftrightarrow> d AND NOT kSignBit = 0"

definition dlt0 :: "double \<Rightarrow> bool" where
  "dlt0 d \<longleftrightarrow> \<not> IsNaN d \<and> dsign d \<and> \<not> deq0 d"

definition dgt0 :: "double \<Rightarrow> bool" where
  "dgt0 d \<longleftrightarrow> \<not> IsNaN d \<and> \<not> dsign d \<and> \<not> deq0 d"

text \<open>
  \<open>IsInteger(d)\<close>: finite and equal to \<open>ToInteger(d)\<close>, which is \<open>std::trunc(d)\<close> up to the sign of zero.
\<close>

definition IsInteger :: "double \<Rightarrow> bool" where
  "IsInteger d \<longleftrightarrow> IsFinite d \<and> (2 :: int) ^ 1074 dvd dscaled d"

section \<open>Conversion to an integer of fixed width\<close>

text \<open>
  \<open>ToUnsignedInteger<UnsignedInteger>(d)\<close>, for a result of up to 64 bits.  A conversion to the result
  type keeps the low bits.
\<close>

definition ToUnsignedInteger :: "double \<Rightarrow> 'w :: len word" where
  "ToUnsignedInteger d =
     (let exp = int (unat (drop_bit kExponentShift (d AND kExponentBits))) - int kExponentBias in
      if exp < 0 then 0
      else
        let exponent = nat exp;
            ResultWidth = LENGTH('w)
        in if exponent \<ge> kExponentShift + ResultWidth then 0
           else
             let result = (if exponent > kExponentShift
                   then ucast (push_bit (exponent - kExponentShift) d)
                   else ucast (drop_bit (kExponentShift - exponent) d)) :: 'w word;
                 result = (if exponent < ResultWidth
                   then (let implicitOne = push_bit exponent 1 in (result AND (implicitOne - 1)) + implicitOne)
                   else result)
             in if d AND kSignBit \<noteq> 0 then NOT result + 1 else result)"

definition ToSignedInteger :: "double \<Rightarrow> 'w :: len word" where
  "ToSignedInteger d = ToUnsignedInteger d"

definition ToInt32 :: "double \<Rightarrow> u32" where
  "ToInt32 d = ToSignedInteger d"

definition ToUint32 :: "double \<Rightarrow> u32" where
  "ToUint32 d = ToUnsignedInteger d"

definition ToInt64 :: "double \<Rightarrow> u64" where
  "ToInt64 d = ToSignedInteger d"

definition ToUint64 :: "double \<Rightarrow> u64" where
  "ToUint64 d = ToUnsignedInteger d"

definition ToInt8 :: "double \<Rightarrow> u8" where
  "ToInt8 d = ToSignedInteger d"

definition ToUint8 :: "double \<Rightarrow> u8" where
  "ToUint8 d = ToUnsignedInteger d"

definition ToInt16 :: "double \<Rightarrow> u16" where
  "ToInt16 d = ToSignedInteger d"

definition ToUint16 :: "double \<Rightarrow> u16" where
  "ToUint16 d = ToUnsignedInteger d"

section \<open>Fields\<close>

lemma kConsts: "kExponentShift = 52" "kSignificandWidth = 52" "kExponentWidth = 11" "kExponentBias = 1023"
  by (simp_all add: kExponentShift_def kSignificandWidth_def kExponentBias_def kExponentWidth_def)

lemma kSignificandBits_mask: "kSignificandBits = mask 52"
  by (simp add: kSignificandBits_def kSignificandWidth_def mask_eq_exp_minus_1)

lemma kExponentBits_mask: "kExponentBits = push_bit 52 (mask 11)"
  by (simp add: kExponentBits_def kSignificandWidth_def kExponentWidth_def mask_eq_exp_minus_1)

lemma dfrac_nat: "dfrac d = unat d mod 2 ^ 52"
  unfolding dfrac_def kSignificandBits_mask
  by (simp add: take_bit_eq_mask [symmetric] unsigned_take_bit_eq take_bit_eq_mod [of 52 "unat d"])

lemma dexp_nat: "dexp d = unat d div 2 ^ 52 mod 2 ^ 11"
proof -
  have "drop_bit 52 (d AND kExponentBits) = take_bit 11 (drop_bit 52 d)"
    unfolding kExponentBits_mask
    by (rule bit_word_eqI) (auto simp: bit_drop_bit_eq bit_and_iff bit_push_bit_iff bit_take_bit_iff bit_mask_iff bit_imp_le_length)
  then have "dexp d = unat (take_bit 11 (drop_bit 52 d))"
    by (simp only: dexp_def kExponentShift_def kSignificandWidth_def)
  also have "\<dots> = take_bit 11 (drop_bit 52 (take_bit 64 (unat d)))"
    by (simp only: unsigned_take_bit_eq unsigned_drop_bit_eq len_bit0 len_num1) simp
  also have "take_bit 64 (unat d) = unat d" using unsigned_less [of d, where ?'a = nat] by (simp add: take_bit_nat_eq_self_iff)
  finally show ?thesis by (simp only: take_bit_eq_mod drop_bit_eq_div)
qed

lemma dsign_nat: "dsign d \<longleftrightarrow> 2 ^ 63 \<le> unat d"
proof -
  have "dsign d \<longleftrightarrow> bit d 63" by (simp only: dsign_def kSignBit_def push_bit_of_1 and_exp_eq_0_iff_not_bit not_not)
  also have "\<dots> \<longleftrightarrow> bit (unat d) 63" by (simp only: bit_unsigned_iff) simp
  also have "\<dots> \<longleftrightarrow> odd (unat d div 2 ^ 63)" by (rule bit_iff_odd)
  also have "\<dots> \<longleftrightarrow> 2 ^ 63 \<le> unat d"
  proof (cases "2 ^ 63 \<le> unat d")
    case True
    then have "unat d div 2 ^ 63 = 1" using unsigned_less [of d, where ?'a = nat] by (intro div_nat_eqI) auto
    then show ?thesis using True by simp
  qed simp
  finally show ?thesis .
qed

lemma dfrac_less: "dfrac d < 2 ^ 52"
  by (simp add: dfrac_nat)

lemma dexp_less: "dexp d < 2 ^ 11"
  by (simp add: dexp_nat)

text \<open>The bits of a double are its three fields.\<close>

lemma double_fields: "unat d = (if dsign d then 2 ^ 63 else 0) + 2 ^ 52 * dexp d + dfrac d"
proof -
  obtain m where m: "unat d = (if dsign d then 2 ^ 63 else 0) + m"
    using le_Suc_ex [of "2 ^ 63" "unat d"] by (cases "dsign d") (auto simp: dsign_nat)
  then have "m < 2 ^ 63" using unsigned_less [of d, where ?'a = nat] by (cases "dsign d") (auto simp: dsign_nat)
  then have e: "m div 2 ^ 52 < 2 ^ 11" by (intro less_mult_imp_div_less) simp
  have "(2 ^ 63 + m) div 2 ^ 52 = 2 ^ 11 + m div 2 ^ 52" using div_mult_self3 [of "2 ^ 52" "2 ^ 11" m] by simp
  then have "dexp d = m div 2 ^ 52" unfolding dexp_nat m using e by (cases "dsign d") simp_all
  moreover have "dfrac d = m mod 2 ^ 52"
  proof -
    have "(2 ^ 11 * 2 ^ 52 + m) mod 2 ^ 52 = m mod 2 ^ 52" by (rule mod_mult_self3)
    then have "((if dsign d then 2 ^ 63 else 0) + m) mod 2 ^ 52 = m mod 2 ^ 52" by (cases "dsign d") simp_all
    then show ?thesis unfolding dfrac_nat m .
  qed
  ultimately have "2 ^ 52 * dexp d + dfrac d = m" by simp
  then show ?thesis using m by simp
qed

lemma unat_kExponentBits: "unat kExponentBits = (2 ^ 11 - 1) * 2 ^ 52"
  by (simp add: kExponentBits_def kSignificandWidth_def kExponentWidth_def)

text \<open>The classification functions in terms of the fields.\<close>

lemma exponent_field: "d AND kExponentBits = kExponentBits \<longleftrightarrow> dexp d = 2047"
proof -
  have *: "d AND kExponentBits = push_bit 52 (drop_bit 52 (d AND kExponentBits))"
    unfolding kExponentBits_mask by (rule bit_word_eqI) (auto simp: bit_drop_bit_eq bit_and_iff bit_push_bit_iff)
  have "drop_bit 52 kExponentBits = (2047 :: u64)" by (simp add: kExponentBits_def kSignificandWidth_def kExponentWidth_def)
  moreover have "push_bit 52 2047 = kExponentBits" by (simp add: kExponentBits_def kSignificandWidth_def kExponentWidth_def)
  ultimately have "d AND kExponentBits = kExponentBits \<longleftrightarrow> drop_bit 52 (d AND kExponentBits) = 2047"
    using * by metis
  then show ?thesis
    by (simp add: dexp_def kExponentShift_def kSignificandWidth_def word_unat_eq_iff)
qed

lemma IsFinite_iff: "IsFinite d \<longleftrightarrow> dexp d \<noteq> 2047"
  by (simp add: IsFinite_def exponent_field)

lemma IsNaN_iff: "IsNaN d \<longleftrightarrow> dexp d = 2047 \<and> dfrac d \<noteq> 0"
  by (simp add: IsNaN_def exponent_field dfrac_def unat_eq_zero)

lemma IsFinite_not_NaN: "IsFinite d \<Longrightarrow> \<not> IsNaN d"
  by (simp add: IsFinite_iff IsNaN_iff)

lemma ExponentComponent_dexp: "ExponentComponent d = int (dexp d) - 1023"
  by (simp add: ExponentComponent_def dexp_def kExponentBias_def kExponentWidth_def)

lemma bit_kSignBit: "bit kSignBit n \<longleftrightarrow> n = 63"
  unfolding kSignBit_def push_bit_of_1 by (simp only: bit_exp_iff) auto

lemma and_not_sign: "unat (d AND NOT kSignBit) = unat d mod 2 ^ 63"
proof -
  have "d AND NOT kSignBit = take_bit 63 d"
    by (rule bit_word_eqI) (auto simp: bit_and_iff bit_not_iff bit_take_bit_iff bit_kSignBit)
  then show ?thesis by (simp add: unsigned_take_bit_eq take_bit_eq_mod [of 63 "unat d"])
qed

lemma deq0_iff: "deq0 d \<longleftrightarrow> dmag d = 0"
proof -
  have "unat d mod 2 ^ 63 = 2 ^ 52 * dexp d + dfrac d"
  proof -
    have "2 ^ 52 * dexp d + dfrac d < 2 ^ 63" using dexp_less [of d] dfrac_less [of d] by simp
    then show ?thesis unfolding double_fields [of d] add.assoc by (cases "dsign d") (simp_all only: if_True if_False mod_add_self1 mod_less add_0)
  qed
  then have "deq0 d \<longleftrightarrow> dexp d = 0 \<and> dfrac d = 0"
    unfolding deq0_def using and_not_sign [of d] by (simp flip: unat_eq_zero)
  then show ?thesis by (auto simp: dmag_def)
qed

lemma dlt0_iff: "\<not> IsNaN d \<Longrightarrow> dlt0 d \<longleftrightarrow> dscaled d < 0"
  by (auto simp: dlt0_def dscaled_def deq0_iff)

lemma dgt0_iff: "\<not> IsNaN d \<Longrightarrow> dgt0 d \<longleftrightarrow> 0 < dscaled d"
  by (auto simp: dgt0_def dscaled_def deq0_iff)


section \<open>Truncation\<close>

text \<open>The integer part of a double, as ECMAScript's \<open>ToIntegerOrInfinity\<close> has it.\<close>

definition dtrunc :: "double \<Rightarrow> int" where
  "dtrunc d = (if dsign d then - int (dmag d div 2 ^ 1074) else int (dmag d div 2 ^ 1074))"

text \<open>For an exponent \<open>E\<close> the integer part of the magnitude is \<open>2^E\<close> plus the shifted fraction.\<close>

definition shiftedFrac :: "double \<Rightarrow> nat \<Rightarrow> nat" where
  "shiftedFrac d E = (if E > 52 then dfrac d * 2 ^ (E - 52) else dfrac d div 2 ^ (52 - E))"

lemma power_split: "a \<le> b \<Longrightarrow> (2 :: nat) ^ a * 2 ^ (b - a) = 2 ^ b"
  by (simp only: power_add [symmetric] le_add_diff_inverse)

lemma dmag_div:
  assumes "dexp d = E + 1023"
  shows "dmag d div 2 ^ 1074 = 2 ^ E + shiftedFrac d E"
proof (cases "E > 52")
  case True
  then have "dexp d - 1 = (E - 52) + 1074" using assms by simp
  then have "dmag d = (2 ^ 52 + dfrac d) * 2 ^ (E - 52) * 2 ^ 1074"
    using assms by (simp only: dmag_def power_add mult.assoc) simp
  then have "dmag d div 2 ^ 1074 = (2 ^ 52 + dfrac d) * 2 ^ (E - 52)" by (simp only: nonzero_mult_div_cancel_right) simp
  also have "\<dots> = 2 ^ E + dfrac d * 2 ^ (E - 52)" unfolding distrib_right using True by (simp only: power_split less_imp_le)
  finally show ?thesis using True by (simp add: shiftedFrac_def)
next
  case False
  then have e: "1074 = (52 - E) + (E + 1022)" by simp
  have "dmag d = (2 ^ 52 + dfrac d) * 2 ^ (E + 1022)" using assms by (simp add: dmag_def)
  then have "dmag d div 2 ^ 1074 = (2 ^ 52 + dfrac d) div 2 ^ (52 - E)"
    by (subst e, simp only: power_add div_mult_mult2) simp
  also have "\<dots> = (2 ^ E * 2 ^ (52 - E) + dfrac d) div 2 ^ (52 - E)" using False by (simp only: power_split not_less)
  finally show ?thesis using False by (simp add: shiftedFrac_def)
qed

lemma shiftedFrac_less: "shiftedFrac d E < 2 ^ E"
proof (cases "E > 52")
  case True
  have "dfrac d * 2 ^ (E - 52) < 2 ^ 52 * 2 ^ (E - 52)" using dfrac_less [of d] by simp
  also have "\<dots> = 2 ^ E" using True by (intro power_split) simp
  finally show ?thesis using True by (simp add: shiftedFrac_def)
next
  case False
  have "dfrac d < 2 ^ E * 2 ^ (52 - E)" using dfrac_less [of d] False power_split [of E 52] by simp
  then show ?thesis using False by (simp add: shiftedFrac_def less_mult_imp_div_less)
qed

text \<open>The shift moves the fraction into place and leaves a multiple of \<open>2^E\<close> above it.\<close>

lemma shifted_bits:
  assumes w: "LENGTH('w :: len) \<le> 64" and E: "E < 52 + LENGTH('w)"
  shows "\<exists>j. unat (if E > 52 then ucast (push_bit (E - 52) d) else ucast (drop_bit (52 - E) d) :: 'w word)
    = (j * 2 ^ E + shiftedFrac d E) mod 2 ^ LENGTH('w)"
proof -
  obtain j where j: "unat d = j * 2 ^ 52 + dfrac d"
    using dfrac_nat [of d] by (metis mult.commute mult_div_mod_eq add.commute div_mult_mod_eq)
  show ?thesis
  proof (cases "E > 52")
    case True
    have "unat (push_bit (E - 52) d) = take_bit 64 (push_bit (E - 52) (unat d))"
      by (simp only: unsigned_push_bit_eq len_bit0 len_num1) simp
    then have "unat (push_bit (E - 52) d) = unat d * 2 ^ (E - 52) mod 2 ^ 64"
      by (simp only: take_bit_eq_mod push_bit_eq_mult)
    then have "unat (ucast (push_bit (E - 52) d) :: 'w word) = unat d * 2 ^ (E - 52) mod 2 ^ 64 mod 2 ^ LENGTH('w)"
      by (simp only: unsigned_ucast_eq take_bit_eq_mod)
    also have "\<dots> = unat d * 2 ^ (E - 52) mod 2 ^ LENGTH('w)"
      using w by (intro mod_mod_cancel le_imp_power_dvd)
    also have "unat d * 2 ^ (E - 52) = j * 2 ^ E + shiftedFrac d E"
      using True j power_split [of 52 E] by (simp add: shiftedFrac_def distrib_right mult.assoc)
    finally show ?thesis using True by auto
  next
    case False
    have "unat (ucast (drop_bit (52 - E) d) :: 'w word) = unat d div 2 ^ (52 - E) mod 2 ^ LENGTH('w)"
    proof -
      have "take_bit 64 (unat d) = unat d"
        using unsigned_less [of d, where ?'a = nat] by (simp add: take_bit_nat_eq_self_iff)
      then have "unat (drop_bit (52 - E) d) = drop_bit (52 - E) (unat d)"
        by (simp only: unsigned_drop_bit_eq len_bit0 len_num1) simp
      then show ?thesis by (simp only: unsigned_ucast_eq take_bit_eq_mod drop_bit_eq_div)
    qed
    also have "unat d = j * 2 ^ E * 2 ^ (52 - E) + dfrac d" using False j power_split [of E 52] by (simp add: mult.assoc)
    finally show ?thesis using False by (auto simp: shiftedFrac_def)
  qed
qed


lemma of_nat_trunc:
  assumes w: "LENGTH('w :: len) \<le> 64" and e: "dexp d = E + 1023" and E: "E < 52 + LENGTH('w)"
    and res: "res = (if E > 52 then ucast (push_bit (E - 52) d) else ucast (drop_bit (52 - E) d) :: 'w word)"
  shows "(if E < LENGTH('w) then (res AND (push_bit E 1 - 1)) + push_bit E 1 else res)
    = (of_nat (dmag d div 2 ^ 1074) :: 'w word)"
proof -
  let ?G = "shiftedFrac d E"
  obtain j where j: "unat res = (j * 2 ^ E + ?G) mod 2 ^ LENGTH('w)"
    unfolding res using shifted_bits [where ?'w = 'w, OF w E, of d] by auto
  show ?thesis
  proof (cases "E < LENGTH('w)")
    case True
    have "res AND (push_bit E 1 - 1) = take_bit E res"
      by (simp add: take_bit_eq_mask mask_eq_exp_minus_1 push_bit_of_1)
    moreover have "unat (take_bit E res) = ?G"
    proof -
      have "unat (take_bit E res) = (j * 2 ^ E + ?G) mod 2 ^ LENGTH('w) mod 2 ^ E"
        unfolding j [symmetric] take_bit_eq_mod [of E "unat res", symmetric] by (rule unsigned_take_bit_eq)
      also have "\<dots> = (j * 2 ^ E + ?G) mod 2 ^ E" using True by (intro mod_mod_cancel le_imp_power_dvd) simp
      also have "\<dots> = ?G" using shiftedFrac_less [of d E] by simp
      finally show ?thesis .
    qed
    then have "take_bit E res = of_nat ?G" by (metis of_nat_unat ucast_id)
    ultimately show ?thesis
      using True dmag_div [OF e] by (simp add: push_bit_of_1)
  next
    case False
    have "res = of_nat (unat res)" by simp
    also have "\<dots> = (of_nat (2 ^ E + ?G) :: 'w word)"
    proof -
      have d: "(2 :: nat) ^ LENGTH('w) dvd 2 ^ E" using False by (intro le_imp_power_dvd) simp
      have drop: "(c * 2 ^ E + ?G) mod 2 ^ LENGTH('w) = ?G mod 2 ^ LENGTH('w)" for c
      proof -
        obtain q where "c * 2 ^ E = 2 ^ LENGTH('w) * q" using d by (metis dvdE dvd_mult)
        then show ?thesis by (simp only: mod_mult_self4 mult.commute add.commute mod_mult_self1)
      qed
      have "(j * 2 ^ E + ?G) mod 2 ^ LENGTH('w) = ?G mod 2 ^ LENGTH('w)"
        and "(2 ^ E + ?G) mod 2 ^ LENGTH('w) = ?G mod 2 ^ LENGTH('w)"
        using drop [of j] drop [of 1] by simp_all
      then show ?thesis unfolding word_of_nat_eq_iff take_bit_eq_mod j by simp
    qed
    finally show ?thesis using False dmag_div [OF e] by simp
  qed
qed


lemma too_large_trunc:
  assumes w: "LENGTH('w :: len) \<le> 64" and e: "dexp d = E + 1023" and E: "52 + LENGTH('w) \<le> E"
  shows "(of_nat (dmag d div 2 ^ 1074) :: 'w word) = 0"
proof -
  have "(2 :: nat) ^ LENGTH('w) dvd 2 ^ E" "(2 :: nat) ^ LENGTH('w) dvd dfrac d * 2 ^ (E - 52)"
    using E by (auto intro!: le_imp_power_dvd dvd_mult)
  moreover have "52 < E" using E len_gt_0 [where 'a = 'w] by linarith
  ultimately have "2 ^ LENGTH('w) dvd dmag d div 2 ^ 1074"
    unfolding dmag_div [OF e] shiftedFrac_def by (simp add: dvd_add)
  then show ?thesis by (simp add: word_of_nat_eq_0_iff)
qed

lemma dmag_small:
  assumes "dexp d < 1023"
  shows "dmag d < 2 ^ 1074"
proof (cases "dexp d = 0")
  case True
  have "dfrac d < 2 ^ 1074" using dfrac_less [of d] by (rule less_le_trans) (rule power_increasing, simp_all)
  then show ?thesis unfolding dmag_def if_P [OF True] .
next
  case False
  have "2 ^ 52 + dfrac d < 2 ^ 53" using dfrac_less [of d] by simp
  then have "(2 ^ 52 + dfrac d) * 2 ^ (dexp d - 1) < 2 ^ 53 * 2 ^ (dexp d - 1)" by simp
  also have "\<dots> = 2 ^ (53 + (dexp d - 1))" by (rule power_add [symmetric])
  also have "\<dots> \<le> 2 ^ 1074" using assms False by (intro power_increasing) auto
  finally show ?thesis unfolding dmag_def if_not_P [OF False] .
qed

lemma dmag_normal: "dexp d = E + 1023 \<Longrightarrow> dmag d = (2 ^ 52 + dfrac d) * 2 ^ (E + 1022)"
  by (simp add: dmag_def)

lemma ToUnsignedInteger_eq:
  assumes w: "LENGTH('w :: len) \<le> 64"
  shows "(ToUnsignedInteger d :: 'w word) = (if IsFinite d then of_int (dtrunc d) else 0)"
proof (cases "dexp d < 1023")
  case True
  have "dmag d < 2 ^ 1074" using True by (rule dmag_small)
  then have "dtrunc d = 0" by (simp only: dtrunc_def div_less) simp
  moreover have "(ToUnsignedInteger d :: 'w word) = 0"
    using True unfolding ToUnsignedInteger_def dexp_def [symmetric] unfolding kConsts Let_def by simp
  ultimately show ?thesis using True by (simp add: IsFinite_iff)
next
  case False
  define E where "E = dexp d - 1023"
  have e: "dexp d = E + 1023" using False by (simp add: E_def)
  have exp: "int (dexp d) - int 1023 = int E" using e by simp
  show ?thesis
  proof (cases "E \<ge> 52 + LENGTH('w)")
    case True
    then have "(ToUnsignedInteger d :: 'w word) = 0"
      unfolding ToUnsignedInteger_def dexp_def [symmetric] unfolding Let_def kConsts exp by simp
    moreover have "(of_int (dtrunc d) :: 'w word) = 0"
      using too_large_trunc [OF w e True] by (simp add: dtrunc_def)
    ultimately show ?thesis by simp
  next
    case small: False
    have fin: "IsFinite d" using small w e by (simp add: IsFinite_iff)
    note t = of_nat_trunc [where ?'w = 'w, OF w e _ refl]
    have "(ToUnsignedInteger d :: 'w word)
      = (if dsign d then NOT (of_nat (dmag d div 2 ^ 1074)) + 1 else of_nat (dmag d div 2 ^ 1074))"
      using small t unfolding ToUnsignedInteger_def dexp_def [symmetric] unfolding Let_def kConsts exp dsign_def nat_int by (simp only: if_False not_le of_nat_less_0_iff) simp
    then show ?thesis using fin by (simp add: dtrunc_def not_eq_complement)
  qed
qed

section \<open>Properties\<close>

text \<open>
  The conversions of a double to an 8, 16, 32 or 64-bit integer return the integer part of the
  double modulo \<open>2^w\<close>, and 0 for infinities and NaN, as ECMAScript's \<open>ToInt32\<close>, \<open>ToUint32\<close> and their
  variants require; the sign and exponent bits that the shift leaves never reach the result.
\<close>

theorem double_to_integer:
  "(ToUint32 d = (if IsFinite d then of_int (dtrunc d) else 0)) \<and> ToInt32 d = ToUint32 d \<and>
   (ToUint64 d = (if IsFinite d then of_int (dtrunc d) else 0)) \<and> ToInt64 d = ToUint64 d \<and>
   (ToUint16 d = (if IsFinite d then of_int (dtrunc d) else 0)) \<and> ToInt16 d = ToUint16 d \<and>
   (ToUint8 d = (if IsFinite d then of_int (dtrunc d) else 0)) \<and> ToInt8 d = ToUint8 d"
  unfolding ToUint32_def ToInt32_def ToUint64_def ToInt64_def ToUint16_def ToInt16_def ToUint8_def ToInt8_def
    ToSignedInteger_def
  by (simp add: ToUnsignedInteger_eq)

end
