(* ===== verification/BigInt_Digits.thy ===== *)
theory BigInt_Digits
  imports Prelude
begin

text \<open>
  The digit arithmetic of \<open>js/src/vm/BigIntType.h\<close> and \<open>js/src/vm/BigIntType.cpp\<close> on a
  64-bit platform (\<open>Digit = uintptr_t\<close>, \<open>DigitBits = 64\<close>): addition and subtraction with
  carry, the two versions of \<open>digitMul\<close> (\<open>__uint128_t\<close> and half-digit products), and the
  portable version of \<open>digitDiv\<close> (Hacker's Delight, two half-digit steps).  The lemmas state
  what each computes over the natural numbers in base \<open>Base = 2 ^ 64\<close>.
\<close>

section \<open>Digits, shifts and leading zeroes\<close>

type_synonym digit = u64

definition DigitBits :: nat where
  "DigitBits = 64"

definition HalfDigitBits :: nat where
  "HalfDigitBits = DigitBits div 2"

definition HalfDigitMask :: digit where
  "HalfDigitMask = push_bit HalfDigitBits 1 - 1"

definition Base :: nat where
  "Base = 2 ^ 64"

definition Half :: nat where
  "Half = 2 ^ 32"

text \<open>
  C++ leaves a shift by \<open>DigitBits\<close> or more undefined; so does the model, and a lemma about
  a shift must show that the amount is in range.
\<close>

definition shl :: "digit \<Rightarrow> nat \<Rightarrow> digit" where
  "shl d s = (if s < DigitBits then push_bit s d else undefined)"

definition shr :: "digit \<Rightarrow> nat \<Rightarrow> digit" where
  "shr d s = (if s < DigitBits then drop_bit s d else undefined)"

text \<open>\<open>mozilla::CountLeadingZeroes64\<close>, a compiler builtin: scan from the top bit.\<close>

primrec clzFrom :: "nat \<Rightarrow> digit \<Rightarrow> nat" where
  "clzFrom 0 x = 64"
| "clzFrom (Suc i) x = (if bit x i then 63 - i else clzFrom i x)"

definition DigitLeadingZeroes :: "digit \<Rightarrow> nat" where
  "DigitLeadingZeroes x = clzFrom 64 x"

section \<open>Operations\<close>

text \<open>\<open>digitAdd(a, b, &carry)\<close> and \<open>digitSub(left, right, &borrow)\<close>: the result and the new carry.\<close>

definition digitAdd :: "digit \<Rightarrow> digit \<Rightarrow> digit \<Rightarrow> digit \<times> digit" where
  "digitAdd a b carry =
     (let result = a + b in (result, carry + (if result < a then 1 else 0)))"

definition digitSub :: "digit \<Rightarrow> digit \<Rightarrow> digit \<Rightarrow> digit \<times> digit" where
  "digitSub left right borrow =
     (let result = left - right in (result, borrow + (if result > left then 1 else 0)))"

text \<open>\<open>digitMul(a, b, &high)\<close>: the low half and the high half; first with \<open>TwoDigit = __uint128_t\<close>.\<close>

definition digitMul :: "digit \<Rightarrow> digit \<Rightarrow> digit \<times> digit" where
  "digitMul a b =
     (let result = (ucast a :: 128 word) * ucast b
      in (ucast result, ucast (drop_bit DigitBits result)))"

definition digitMul_half :: "digit \<Rightarrow> digit \<Rightarrow> digit \<times> digit" where
  "digitMul_half a b =
     (let aLow = a AND HalfDigitMask;
          aHigh = shr a HalfDigitBits;
          bLow = b AND HalfDigitMask;
          bHigh = shr b HalfDigitBits;
          rLow = aLow * bLow;
          rMid1 = aLow * bHigh;
          rMid2 = aHigh * bLow;
          rHigh = aHigh * bHigh;
          (low, carry) = digitAdd rLow (shl rMid1 HalfDigitBits) 0;
          (low, carry) = digitAdd low (shl rMid2 HalfDigitBits) carry
      in (low, shr rMid1 HalfDigitBits + shr rMid2 HalfDigitBits + rHigh + carry))"

text \<open>
  The two loops of \<open>digitDiv\<close>:
  \<open>while (q >= HalfDigitBase || q * vn0 > rhat * HalfDigitBase + un)\<close>
  \<open>{ q--; rhat += vn1; if (rhat >= HalfDigitBase) break; }\<close>.
  The third component of the state is set by the \<open>break\<close>.
\<close>

definition HalfDigitBase :: digit where
  "HalfDigitBase = push_bit HalfDigitBits 1"

definition digitDivLoop :: "digit \<Rightarrow> digit \<Rightarrow> digit \<Rightarrow> digit \<Rightarrow> digit \<Rightarrow> (digit \<times> digit \<times> bool) eng" where
  "digitDivLoop vn1 vn0 un q rhat =
     whileM
       (\<lambda>(q, rhat, brk). \<not> brk \<and> (q \<ge> HalfDigitBase \<or> q * vn0 > rhat * HalfDigitBase + un))
       (\<lambda>(q, rhat, brk). (q - 1, rhat + vn1, rhat + vn1 \<ge> HalfDigitBase))
       (q, rhat, False)"

text \<open>\<open>digitDiv(high, low, divisor, &remainder)\<close>: the quotient and the remainder.\<close>

definition digitDiv :: "digit \<Rightarrow> digit \<Rightarrow> digit \<Rightarrow> (digit \<times> digit) eng" where
  "digitDiv high low divisor =
     mozAssert (high < divisor) (
     let s = DigitLeadingZeroes divisor in
     mozAssert (s \<noteq> DigitBits) (
     let divisor = shl divisor s;
         vn1 = shr divisor HalfDigitBits;
         vn0 = divisor AND HalfDigitMask;
         sZeroMask = signed_drop_bit (DigitBits - 1) (- (of_nat s :: digit));
         shiftMask = DigitBits - 1;
         un32 = shl high s OR (shr low ((DigitBits - s) AND shiftMask) AND sZeroMask);
         un10 = shl low s;
         un1 = shr un10 HalfDigitBits;
         un0 = un10 AND HalfDigitMask;
         q1 = un32 div vn1;
         rhat = un32 - q1 * vn1
     in bindM (digitDivLoop vn1 vn0 un1 q1 rhat) (\<lambda>(q1, rhat, brk).
     let un21 = un32 * HalfDigitBase + un1 - q1 * divisor;
         q0 = un21 div vn1;
         rhat = un21 - q0 * vn1
     in bindM (digitDivLoop vn1 vn0 un0 q0 rhat) (\<lambda>(q0, rhat, brk).
     returnM (q1 * HalfDigitBase + q0,
              shr (un21 * HalfDigitBase + un0 - q0 * divisor) s)))))"

text \<open>The instruction \<open>divq\<close> that an x86-64 build uses: 128 by 64 bit division.\<close>

definition digitDiv_divq :: "digit \<Rightarrow> digit \<Rightarrow> digit \<Rightarrow> (digit \<times> digit) eng" where
  "digitDiv_divq high low divisor =
     mozAssert (high < divisor) (
     let n = push_bit DigitBits (ucast high :: 128 word) OR ucast low;
         d = ucast divisor :: 128 word
     in returnM (ucast (n div d), ucast (n mod d)))"

section \<open>Natural-number facts about words\<close>

lemma Base_pos [simp]: "0 < Base"
  by (simp add: Base_def)

lemma Base_neq_0 [simp]: "Base \<noteq> 0"
  by (simp add: Base_def)

lemma Base_ge_1 [simp]: "Suc 0 \<le> Base"
  by (simp add: Base_def)

lemma Half_pos [simp]: "0 < Half"
  by (simp add: Half_def)

lemma Half_Half: "Half * Half = Base"
  by (simp add: Half_def Base_def flip: power_add)

lemma unat_less_Base: "unat (d :: digit) < Base"
  using unsigned_less [of d] by (simp add: Base_def)

lemma mod_Base_sub: "Base \<le> n \<Longrightarrow> n < 2 * Base \<Longrightarrow> n mod Base = n - Base"
  by (simp add: le_mod_geq)

lemma mod_unat_digit [simp]: "unat (d :: digit) mod Base = unat d"
  by (simp add: unat_less_Base)

lemma unat_plus_digit: "unat (a + b :: digit) = (unat a + unat b) mod Base"
  by (simp add: unat_word_ariths Base_def)

lemma unat_times_digit: "unat (a * b :: digit) = unat a * unat b mod Base"
  by (simp add: unat_word_ariths Base_def)

lemma unat_minus_digit: "b \<le> a \<Longrightarrow> unat (a - b :: digit) = unat a - unat b"
  by (simp add: unat_sub)

lemma unat_shl: "s < DigitBits \<Longrightarrow> unat (shl d s) = unat d * 2 ^ s mod Base"
  by (simp add: shl_def Base_def unsigned_push_bit_eq take_bit_eq_mod push_bit_eq_mult [of s "unat d"])

lemma unat_shr: "s < DigitBits \<Longrightarrow> unat (shr d s) = unat d div 2 ^ s"
  by (simp add: shr_def unat_drop_bit_eq drop_bit_eq_div [of s "unat d"])

lemma unat_HalfDigitMask: "unat HalfDigitMask = Half - 1"
  by (simp add: HalfDigitMask_def HalfDigitBits_def DigitBits_def Half_def)

lemma unat_HalfDigitBase: "unat HalfDigitBase = Half"
  by (simp add: HalfDigitBase_def HalfDigitBits_def DigitBits_def Half_def)

lemma unat_and_HalfDigitMask: "unat (d AND HalfDigitMask) = unat d mod Half"
proof -
  have "HalfDigitMask = mask 32"
    by (simp add: HalfDigitMask_def HalfDigitBits_def DigitBits_def mask_eq_exp_minus_1)
  then have "d AND HalfDigitMask = take_bit 32 d"
    by (simp add: take_bit_eq_mask)
  then show ?thesis
    by (simp only: unsigned_take_bit_eq take_bit_eq_mod [of 32 "unat d"] Half_def)
qed

lemma unat_shr_half: "unat (shr d HalfDigitBits) = unat d div Half"
  by (simp add: unat_shr HalfDigitBits_def DigitBits_def Half_def)

lemma unat_shl_half: "unat (shl d HalfDigitBits) = unat d mod Half * Half"
proof -
  have "unat d * Half mod (Half * Half) = unat d mod Half * Half"
    by (simp add: mult_mod_left)
  then show ?thesis
    by (simp add: unat_shl HalfDigitBits_def DigitBits_def Half_def Base_def)
qed

text \<open>An \<open>OR\<close> into the low bits that a left shift has cleared is a sum.\<close>

lemma nat_or_disjoint:
  fixes x y :: nat
  assumes "y < 2 ^ s"
  shows "x * 2 ^ s OR y = x * 2 ^ s + y"
proof -
  have "push_bit s x AND y = 0"
  proof (rule bit_eqI)
    fix n
    have "\<not> bit y n" if "s \<le> n"
      using assms that by (metis take_bit_nat_eq_self bit_take_bit_iff not_less)
    then show "bit (push_bit s x AND y) n \<longleftrightarrow> bit (0 :: nat) n"
      by (auto simp: bit_and_iff bit_push_bit_iff)
  qed
  from disjunctive_add_eq_or [OF this] show ?thesis by (simp add: push_bit_eq_mult)
qed

lemma unat_or_shl:
  assumes "s < DigitBits" and "unat b < 2 ^ s"
  shows "unat (shl a s OR b) = unat (shl a s) + unat b"
proof -
  have "Base = 2 ^ (64 - s) * 2 ^ s"
    using assms(1) by (simp add: Base_def DigitBits_def flip: power_add)
  then have "unat (shl a s) = unat a mod 2 ^ (64 - s) * 2 ^ s"
    by (simp add: unat_shl [OF assms(1)] mult_mod_left)
  then show ?thesis
    by (simp only: unsigned_or_eq nat_or_disjoint [OF assms(2)])
qed

section \<open>What the digit operations compute\<close>

lemma digit_overflow: "a + b < a \<longleftrightarrow> Base \<le> unat a + unat (b :: digit)"
proof (cases "unat a + unat b < Base")
  case True
  then show ?thesis by (simp add: word_less_nat_alt unat_plus_digit)
next
  case False
  then have "(unat a + unat b) mod Base = unat a + unat b - Base"
    using unat_less_Base [of a] unat_less_Base [of b] by (intro mod_Base_sub) linarith+
  then show ?thesis
    using False unat_less_Base [of a] unat_less_Base [of b]
    by (simp add: word_less_nat_alt unat_plus_digit)
qed

lemma unat_carry: "unat (c :: digit) < Base - 1 \<Longrightarrow> unat (c + 1) = unat c + 1"
  by (simp add: unat_plus_digit)

lemma digitAdd_spec:
  assumes "digitAdd a b c = (r, c')" and "unat c < Base - 1"
  shows "unat r + Base * unat c' = unat a + unat b + Base * unat c"
proof (cases "a + b < a")
  case True
  then have ge: "Base \<le> unat a + unat b" by (simp add: digit_overflow)
  then have "(unat a + unat b) mod Base = unat a + unat b - Base"
    using unat_less_Base [of a] unat_less_Base [of b] by (intro mod_Base_sub) linarith+
  with ge show ?thesis
    using assms True by (auto simp: digitAdd_def Let_def unat_plus_digit unat_carry)
next
  case False
  then show ?thesis
    using assms by (auto simp: digitAdd_def Let_def unat_plus_digit digit_overflow)
qed

lemma digitAdd_carry: "digitAdd a b c = (r, c') \<Longrightarrow> unat c < Base - 1 \<Longrightarrow> unat c' \<le> unat c + 1"
  by (auto simp: digitAdd_def Let_def unat_carry split: if_splits)

lemma unat_minus_wrap:
  "unat (a - b :: digit) = (if b \<le> a then unat a - unat b else unat a + Base - unat b)"
  using unat_sub_if' [of a b] by (auto simp: word_le_nat_alt Base_def)

lemma digit_borrow: "a - b > a \<longleftrightarrow> unat a < unat (b :: digit)"
  using unat_less_Base [of b] unat_less_Base [of a]
  by (auto simp: word_less_nat_alt unat_minus_wrap word_le_nat_alt)

lemma digitSub_spec:
  assumes "digitSub a b c = (r, c')" and "unat c < Base - 1"
  shows "unat a + Base * unat c' = unat r + unat b + Base * unat c"
proof (cases "a - b > a")
  case True
  then have "unat a < unat b" by (simp add: digit_borrow)
  then show ?thesis
    using assms True unat_less_Base [of b]
    by (auto simp: digitSub_def Let_def unat_minus_wrap word_le_nat_alt unat_carry)
next
  case False
  then show ?thesis
    using assms by (auto simp: digitSub_def Let_def unat_minus_wrap digit_borrow word_le_nat_alt)
qed

lemma digitSub_borrow: "digitSub a b c = (r, c') \<Longrightarrow> unat c < Base - 1 \<Longrightarrow> unat c' \<le> unat c + 1"
  by (auto simp: digitSub_def Let_def unat_carry split: if_splits)

lemma unat_ucast_128: "unat (ucast (a :: digit) :: 128 word) = unat a"
  by (simp add: unsigned_ucast_eq take_bit_nat_eq_self_iff less_trans [OF unat_less_Base] Base_def)

lemma unat_mult_less: "unat (a :: digit) * unat (b :: digit) < Base * Base"
  by (rule mult_strict_mono) (use unat_less_Base Base_pos in \<open>auto intro: le_less_trans\<close>)

lemma digitMul_spec:
  assumes "digitMul a b = (low, high)"
  shows "unat low + Base * unat high = unat a * unat b"
proof -
  let ?r = "(ucast a :: 128 word) * ucast b"
  have "unat a * unat b < 2 ^ 128"
    using unat_mult_less [of a b] by (simp add: Base_def)
  then have r: "unat ?r = unat a * unat b"
    by (simp add: unat_word_ariths unat_ucast_128)
  have "unat (ucast ?r :: digit) = unat a * unat b mod Base"
    by (simp add: unsigned_ucast_eq r take_bit_eq_mod Base_def)
  moreover have "unat (ucast (drop_bit 64 ?r) :: digit) = unat a * unat b div Base"
  proof -
    have "unat (drop_bit 64 ?r) = unat a * unat b div Base"
      by (simp add: unat_drop_bit_eq r drop_bit_eq_div [of 64 "unat a * unat b"] Base_def)
    moreover have "unat a * unat b div Base < Base"
      using unat_mult_less [of a b] by (simp add: less_mult_imp_div_less)
    ultimately show ?thesis
      by (simp add: unsigned_ucast_eq take_bit_eq_mod Base_def)
  qed
  ultimately show ?thesis
    using assms by (auto simp: digitMul_def Let_def DigitBits_def)
qed

lemma digitMul_unique:
  assumes "unat (l :: digit) + Base * unat (h :: digit) = unat (l' :: digit) + Base * unat (h' :: digit)"
  shows "l = l' \<and> h = h'"
proof -
  have "unat l = (unat l + Base * unat h) mod Base" "unat l' = (unat l' + Base * unat h') mod Base"
    by simp_all
  with assms have l: "unat l = unat l'" by simp
  with assms have "Base * unat h = Base * unat h'" by simp
  then have "unat h = unat h'" using Base_pos by (metis mult_left_cancel less_numeral_extra(3))
  with l show ?thesis by (simp add: word_unat_eq_iff)
qed

text \<open>The leading zeroes of a nonzero digit are the shift that sets its top bit.\<close>

lemma bit_digit_iff: "i < 64 \<Longrightarrow> bit (x :: digit) i \<longleftrightarrow> odd (unat x div 2 ^ i)"
  by (simp add: bit_unsigned_iff flip: bit_iff_odd)

lemma clzFrom_spec:
  assumes "unat x < 2 ^ i" and "x \<noteq> 0" and "i \<le> 64"
  shows "clzFrom i x < 64 \<and> 2 ^ (63 - clzFrom i x) \<le> unat x \<and> unat x < 2 ^ (64 - clzFrom i x)"
  using assms
proof (induction i)
  case 0
  then show ?case by (simp add: unat_eq_zero)
next
  case (Suc i)
  have bit: "bit x i \<longleftrightarrow> 2 ^ i \<le> unat x"
  proof -
    have "bit x i \<longleftrightarrow> odd (unat x div 2 ^ i)"
      using Suc.prems(3) by (intro bit_digit_iff) simp
    moreover have "unat x div 2 ^ i < 2"
      using Suc.prems(1) by (simp add: less_mult_imp_div_less)
    moreover have "unat x div 2 ^ i = 0 \<longleftrightarrow> unat x < 2 ^ i"
      by (simp add: div_eq_0_iff)
    ultimately show ?thesis
      by (cases "unat x div 2 ^ i = 0") (auto simp: less_2_cases_iff)
  qed
  show ?case
  proof (cases "bit x i")
    case True
    then show ?thesis using bit Suc.prems by simp
  next
    case False
    then show ?thesis using bit Suc by simp
  qed
qed

lemma DigitLeadingZeroes_bounds:
  assumes "x \<noteq> 0"
  shows "DigitLeadingZeroes x < 64"
    and "2 ^ (63 - DigitLeadingZeroes x) \<le> unat x" and "unat x < 2 ^ (64 - DigitLeadingZeroes x)"
  using clzFrom_spec [of x 64] assms unat_less_Base [of x]
  by (simp_all add: DigitLeadingZeroes_def Base_def)

lemma DigitLeadingZeroes_shift:
  assumes "x \<noteq> 0"
  shows "2 ^ 63 \<le> unat x * 2 ^ DigitLeadingZeroes x" and "unat x * 2 ^ DigitLeadingZeroes x < Base"
proof -
  let ?s = "DigitLeadingZeroes x"
  note b = DigitLeadingZeroes_bounds [OF assms]
  have "(2::nat) ^ 63 = 2 ^ (63 - ?s) * 2 ^ ?s"
    using b(1) by (simp flip: power_add)
  also have "\<dots> \<le> unat x * 2 ^ ?s" using b(2) by simp
  finally show "2 ^ 63 \<le> unat x * 2 ^ ?s" .
  have "unat x * 2 ^ ?s < 2 ^ (64 - ?s) * 2 ^ ?s" using b(3) by simp
  also have "\<dots> = Base" using b(1) by (simp add: Base_def flip: power_add)
  finally show "unat x * 2 ^ ?s < Base" .
qed

end
