(* ===== verification/BigInt_Base.thy ===== *)
theory BigInt_Base
  imports BigInt_Digits
begin

text \<open>
  The representation of \<open>JS::BigInt\<close> (\<open>js/src/vm/BigIntType.h\<close>): a sign flag and a
  little-endian array of digits, with the operations that create, copy, negate and trim a
  BigInt.  \<open>bval\<close> is the integer a BigInt stands for and \<open>wf\<close> the representation invariant
  that the code asserts (\<open>HasLeadingZeroes\<close>, no negative zero, at most \<open>MaxDigitLength\<close>
  digits).
\<close>

section \<open>Representation\<close>

record bigint =
  digits :: "digit list"
  isNegative :: bool

definition MaxBitLength :: nat where
  "MaxBitLength = 1024 * 1024"

definition MaxDigitLength :: nat where
  "MaxDigitLength = MaxBitLength div DigitBits"

text \<open>\<open>(MinCellSize - sizeof(Header)) / sizeof(Digit)\<close>: \<open>(16 - 8) / 8\<close> on a 64-bit platform.\<close>

definition InlineDigitsLength :: nat where
  "InlineDigitsLength = 1"

abbreviation digitLength :: "bigint \<Rightarrow> nat" where
  "digitLength x \<equiv> length (digits x)"

definition isZero :: "bigint \<Rightarrow> bool" where
  "isZero x \<longleftrightarrow> digitLength x = 0"

text \<open>\<open>digits()[idx]\<close> goes through \<open>mozilla::Span\<close>, which checks the index in every build.\<close>

definition digit :: "bigint \<Rightarrow> nat \<Rightarrow> digit eng" where
  "digit x idx = mozAssert (idx < digitLength x) (returnM (digits x ! idx))"

definition setDigit :: "bigint \<Rightarrow> nat \<Rightarrow> digit \<Rightarrow> bigint eng" where
  "setDigit x idx d = mozAssert (idx < digitLength x) (returnM (x\<lparr>digits := (digits x)[idx := d]\<rparr>))"

definition HasLeadingZeroes :: "bigint \<Rightarrow> bool" where
  "HasLeadingZeroes bi \<longleftrightarrow> digitLength bi > 0 \<and> digits bi ! (digitLength bi - 1) = 0"

section \<open>Creation\<close>

text \<open>
  The cell comes first; when the digits do not fit in it, a second allocation holds them.
  The digits of the result are whatever the fresh memory held.
\<close>

definition createUninitialized :: "nat \<Rightarrow> bool \<Rightarrow> bigint eng" where
  "createUninitialized len neg =
     (if len > MaxDigitLength then throwM BigIntTooLarge
      else bindM allocM (\<lambda>cell.
        if len > InlineDigitsLength
        then bindM allocM (\<lambda>heapDigits. returnM \<lparr>digits = map heapDigits [0..<len], isNegative = neg\<rparr>)
        else returnM \<lparr>digits = map cell [0..<len], isNegative = neg\<rparr>))"

definition initializeDigitsToZero :: "bigint \<Rightarrow> bigint" where
  "initializeDigitsToZero x = x\<lparr>digits := replicate (digitLength x) 0\<rparr>"

definition zero :: "bigint eng" where
  "zero = createUninitialized 0 False"

definition createFromDigit :: "digit \<Rightarrow> bool \<Rightarrow> bigint eng" where
  "createFromDigit d neg =
     mozAssert (d \<noteq> 0) (
     bindM (createUninitialized 1 neg) (\<lambda>res.
     setDigit res 0 d))"

definition one :: "bigint eng" where
  "one = createFromDigit 1 False"

definition negativeOne :: "bigint eng" where
  "negativeOne = createFromDigit 1 True"

text \<open>With \<open>DigitBits = 64\<close> the branches for 32-bit digits are dead.\<close>

definition createFromNonZeroRawUint64 :: "u64 \<Rightarrow> bool \<Rightarrow> bigint eng" where
  "createFromNonZeroRawUint64 n neg =
     mozAssert (n \<noteq> 0) (
     bindM (createUninitialized 1 neg) (\<lambda>result.
     bindM (setDigit result 0 n) (\<lambda>result.
     mozAssert (\<not> HasLeadingZeroes result) (
     returnM result))))"

definition createFromUint64 :: "u64 \<Rightarrow> bigint eng" where
  "createFromUint64 n = (if n = 0 then zero else createFromDigit n False)"

text \<open>\<open>Abs(n)\<close> of a two's complement \<open>n\<close> is an unsigned 64-bit value.\<close>

definition createFromInt64 :: "u64 \<Rightarrow> bigint eng" where
  "createFromInt64 n =
     bindM (createFromUint64 (if n <s 0 then - n else n)) (\<lambda>res.
     let res = (if n <s 0 then res\<lparr>isNegative := True\<rparr> else res) in
     mozAssert (isNegative res \<longleftrightarrow> n <s 0) (
     returnM res))"

definition copy :: "bigint \<Rightarrow> bigint eng" where
  "copy x =
     (if isZero x then zero
      else bindM (createUninitialized (digitLength x) (isNegative x)) (\<lambda>result.
        forUp 0 (digitLength x) (\<lambda>i result.
          bindM (digit x i) (\<lambda>d. setDigit result i d)) result))"

definition neg :: "bigint \<Rightarrow> bigint eng" where
  "neg x =
     (if isZero x then returnM x
      else bindM (copy x) (\<lambda>result. returnM (result\<lparr>isNegative := \<not> isNegative result\<rparr>)))"

definition absFitsInUint64 :: "bigint \<Rightarrow> bool" where
  "absFitsInUint64 x \<longleftrightarrow> digitLength x \<le> 64 div DigitBits"

definition uint64FromAbsNonZero :: "bigint \<Rightarrow> u64 eng" where
  "uint64FromAbsNonZero x = mozAssert (\<not> isZero x) (digit x 0)"

section \<open>Trimming\<close>

text \<open>\<open>nonZeroIndex + 1\<close> after the loop that walks down over zero digits.\<close>

primrec nonZeroLength :: "digit list \<Rightarrow> nat \<Rightarrow> nat" where
  "nonZeroLength ds 0 = 0"
| "nonZeroLength ds (Suc i) = (if ds ! i = 0 then nonZeroLength ds i else Suc i)"

text \<open>
  Shrinking heap digits reallocates them, which can fail; when the digits now fit in the
  cell they are copied into it.
\<close>

definition destructivelyTrimHighZeroDigits :: "bigint \<Rightarrow> bigint eng" where
  "destructivelyTrimHighZeroDigits x =
     (if isZero x then mozAssert (\<not> isNegative x) (returnM x)
      else let newLength = nonZeroLength (digits x) (digitLength x) in
        if newLength = 0 then zero
        else if newLength = digitLength x then returnM x
        else if newLength > InlineDigitsLength
          then bindM allocM (\<lambda>newdigits. returnM (x\<lparr>digits := take newLength (digits x)\<rparr>))
          else returnM (x\<lparr>digits := take newLength (digits x)\<rparr>))"

section \<open>Values of digit lists\<close>

primrec dval :: "digit list \<Rightarrow> nat" where
  "dval [] = 0"
| "dval (d # ds) = unat d + Base * dval ds"

abbreviation withSign :: "bool \<Rightarrow> nat \<Rightarrow> int" where
  "withSign s n \<equiv> (if s then - int n else int n)"

definition bval :: "bigint \<Rightarrow> int" where
  "bval x = withSign (isNegative x) (dval (digits x))"

definition wf :: "bigint \<Rightarrow> bool" where
  "wf x \<longleftrightarrow> digitLength x \<le> MaxDigitLength \<and> \<not> HasLeadingZeroes x \<and> (isZero x \<longrightarrow> \<not> isNegative x)"

lemma bval_make: "bval \<lparr>digits = ds, isNegative = s\<rparr> = withSign s (dval ds)"
  by (simp add: bval_def)

lemma dval_append: "dval (xs @ ys) = dval xs + Base ^ length xs * dval ys"
  by (induction xs) (auto simp: algebra_simps)

lemma dval_less: "dval xs < Base ^ length xs"
proof (induction xs)
  case Nil
  then show ?case by simp
next
  case (Cons d ds)
  have "unat d + Base * dval ds < Base * Suc (dval ds)"
    using unat_less_Base [of d] by simp
  also have "\<dots> \<le> Base * Base ^ length ds"
    using Cons by (intro mult_left_mono) auto
  finally show ?case by simp
qed

lemma dval_replicate_0 [simp]: "dval (replicate n 0) = 0"
  by (induction n) auto

lemma dval_take_Suc:
  "i < length xs \<Longrightarrow> dval (take (Suc i) xs) = dval (take i xs) + Base ^ i * unat (xs ! i)"
  by (simp add: take_Suc_conv_app_nth dval_append)

lemma dval_take_Suc_update:
  "i < length xs \<Longrightarrow> dval (take (Suc i) (xs[i := d])) = dval (take i xs) + Base ^ i * unat d"
  by (simp add: take_Suc_conv_app_nth dval_append)

lemma dval_take_drop: "n \<le> length xs \<Longrightarrow> dval (take n xs) + Base ^ n * dval (drop n xs) = dval xs"
  using dval_append [of "take n xs" "drop n xs"] by simp

lemma dval_drop_Suc:
  "i < length xs \<Longrightarrow> dval (drop i xs) = unat (xs ! i) + Base * dval (drop (Suc i) xs)"
  by (simp flip: Cons_nth_drop_Suc)

lemma dval_eq_imp_eq: "length xs = length ys \<Longrightarrow> dval xs = dval ys \<Longrightarrow> xs = ys"
proof (induction xs ys rule: list_induct2)
  case Nil
  then show ?case by simp
next
  case (Cons x xs y ys)
  have "unat x = (unat x + Base * dval xs) mod Base" "unat y = (unat y + Base * dval ys) mod Base"
    by simp_all
  with Cons.prems have x: "unat x = unat y" by simp
  with Cons.prems have "Base * dval xs = Base * dval ys" by simp
  then have "dval xs = dval ys" by simp
  with x Cons.IH show ?case by (simp add: word_unat_eq_iff)
qed

lemma dval_ge_top:
  assumes "xs \<noteq> []" and "xs ! (length xs - 1) \<noteq> 0"
  shows "Base ^ (length xs - 1) \<le> dval xs"
proof -
  have "xs = butlast xs @ [xs ! (length xs - 1)]"
    using assms(1) by (metis append_butlast_last_id last_conv_nth)
  then have "dval xs = dval (butlast xs) + Base ^ (length xs - 1) * unat (xs ! (length xs - 1))"
    using dval_append [of "butlast xs" "[xs ! (length xs - 1)]"] by simp
  moreover have "0 < unat (xs ! (length xs - 1))" using assms(2) by (simp add: unat_gt_0)
  then have "Base ^ (length xs - 1) * 1 \<le> Base ^ (length xs - 1) * unat (xs ! (length xs - 1))"
    by (intro mult_left_mono) auto
  ultimately show ?thesis by linarith
qed

lemma dval_eq_0_iff: "dval xs = 0 \<longleftrightarrow> (\<forall>d \<in> set xs. d = 0)"
  by (induction xs) (auto simp: unat_eq_zero)

section \<open>The representation invariant\<close>

lemma isZero_iff: "isZero x \<longleftrightarrow> digits x = []"
  by (simp add: isZero_def)

lemma wf_zero_iff:
  assumes "wf x"
  shows "dval (digits x) = 0 \<longleftrightarrow> isZero x"
proof (cases "digits x = []")
  case True
  then show ?thesis by (simp add: isZero_iff)
next
  case False
  have "0 < Base ^ (digitLength x - 1)" by simp
  also have "\<dots> \<le> dval (digits x)"
    using False assms by (intro dval_ge_top) (auto simp: wf_def HasLeadingZeroes_def)
  finally show ?thesis using False by (simp add: isZero_iff)
qed

lemma wf_bval_0: "wf x \<Longrightarrow> bval x = 0 \<longleftrightarrow> isZero x"
  using wf_zero_iff by (simp add: bval_def)

lemma wf_digits_pos: "wf x \<Longrightarrow> \<not> isZero x \<Longrightarrow> 0 < dval (digits x)"
  using wf_zero_iff by auto

lemma abs_bval: "\<bar>bval x\<bar> = int (dval (digits x))"
  by (simp add: bval_def)

lemma wf_neg_iff: "wf x \<Longrightarrow> isNegative x \<longleftrightarrow> bval x < 0"
  using wf_digits_pos by (auto simp: bval_def wf_def)

text \<open>Two canonical BigInts with the same value are the same.\<close>

lemma wf_length_unique:
  assumes "xs \<noteq> []" and "xs ! (length xs - 1) \<noteq> 0" and "dval xs = dval ys"
  shows "length xs \<le> length ys"
proof (rule ccontr)
  assume "\<not> length xs \<le> length ys"
  then have "length ys \<le> length xs - 1" by simp
  then have "Base ^ length ys \<le> Base ^ (length xs - 1)"
    by (intro power_increasing) (auto simp: Base_def)
  with dval_ge_top [OF assms(1,2)] dval_less [of ys] assms(3) show False by simp
qed

lemma wf_digits_unique:
  assumes "wf x" and "wf y" and "dval (digits x) = dval (digits y)"
  shows "digits x = digits y"
proof (cases "isZero x")
  case True
  then have "isZero y" using wf_zero_iff assms by metis
  with True show ?thesis by (simp add: isZero_iff)
next
  case False
  then have "\<not> isZero y" using wf_zero_iff assms by metis
  with False have "length (digits x) = length (digits y)"
    using assms wf_length_unique [of "digits x" "digits y"] wf_length_unique [of "digits y" "digits x"]
    by (auto simp: wf_def HasLeadingZeroes_def isZero_iff)
  with assms(3) show ?thesis by (rule dval_eq_imp_eq [rotated])
qed

lemma wf_bval_unique:
  assumes "wf x" and "wf y" and "bval x = bval y"
  shows "x = y"
proof -
  have "dval (digits x) = dval (digits y)"
    using assms(3) abs_bval by (metis of_nat_eq_iff)
  then have "digits x = digits y" using assms wf_digits_unique by blast
  moreover have "isNegative x = isNegative y" using assms wf_neg_iff by metis
  ultimately show ?thesis by simp
qed

section \<open>What creation, access and trimming do\<close>

lemma digit_in_range [simp]: "i < digitLength x \<Longrightarrow> digit x i = returnM (digits x ! i)"
  by (simp add: digit_def)

lemma setDigit_in_range [simp]:
  "i < digitLength x \<Longrightarrow> setDigit x i d = returnM (x\<lparr>digits := (digits x)[i := d]\<rparr>)"
  by (simp add: setDigit_def)

lemma runs_createUninitialized:
  assumes "\<And>e. oom v e \<Longrightarrow> E e" and "n > MaxDigitLength \<Longrightarrow> E BigIntTooLarge"
    and "\<And>ds. length ds = n \<Longrightarrow> n \<le> MaxDigitLength \<Longrightarrow> Q \<lparr>digits = ds, isNegative = s\<rparr>"
  shows "runs (createUninitialized n s) v E Q"
  unfolding createUninitialized_def
  by (auto intro!: runs_intros assms)

lemma runs_zero:
  assumes "\<And>e. oom v e \<Longrightarrow> E e" and "Q \<lparr>digits = [], isNegative = False\<rparr>"
  shows "runs zero v E Q"
  unfolding zero_def
  by (rule runs_createUninitialized) (use assms in auto)

lemma wf_empty [simp]: "wf \<lparr>digits = [], isNegative = False\<rparr>"
  by (simp add: wf_def HasLeadingZeroes_def isZero_def)

lemma wf_single [simp]: "d \<noteq> 0 \<Longrightarrow> wf \<lparr>digits = [d], isNegative = s\<rparr>"
  by (simp add: wf_def HasLeadingZeroes_def isZero_def MaxDigitLength_def MaxBitLength_def DigitBits_def)

lemma runs_createFromDigit:
  assumes "d \<noteq> 0" and "\<And>e. oom v e \<Longrightarrow> E e" and "Q \<lparr>digits = [d], isNegative = s\<rparr>"
  shows "runs (createFromDigit d s) v E Q"
  unfolding createFromDigit_def
  by (intro runs_intros runs_createUninitialized)
    (use assms in \<open>auto simp: length_Suc_conv MaxDigitLength_def MaxBitLength_def DigitBits_def\<close>)

lemma runs_createFromNonZeroRawUint64:
  assumes "n \<noteq> 0" and "\<And>e. oom v e \<Longrightarrow> E e" and "Q \<lparr>digits = [n], isNegative = s\<rparr>"
  shows "runs (createFromNonZeroRawUint64 n s) v E Q"
  unfolding createFromNonZeroRawUint64_def
  by (intro runs_intros runs_createUninitialized)
    (use assms in \<open>auto simp: length_Suc_conv MaxDigitLength_def MaxBitLength_def DigitBits_def HasLeadingZeroes_def\<close>)

text \<open>A copy is equal to the original, whatever the fresh memory held.\<close>

lemma take_Suc_update_nth: "i < length xs \<Longrightarrow> i < length ys \<Longrightarrow> take i xs = take i ys \<Longrightarrow>
    take (Suc i) (xs[i := ys ! i]) = take (Suc i) ys"
  by (simp add: take_Suc_conv_app_nth)

lemma runs_copy:
  assumes "wf x" and "\<And>e. oom v e \<Longrightarrow> E e" and "Q x"
  shows "runs (copy x) v E Q"
proof (cases "isZero x")
  case True
  then have "x = \<lparr>digits = [], isNegative = False\<rparr>" using assms(1) by (simp add: wf_def isZero_iff)
  then show ?thesis using True assms by (auto simp: copy_def intro!: runs_zero)
next
  case False
  have len: "digitLength x \<le> MaxDigitLength" using assms(1) by (simp add: wf_def)
  show ?thesis
    unfolding copy_def if_not_P [OF False]
  proof (intro runs_intros runs_createUninitialized, goal_cases)
    case (3 ds)
    show ?case
    proof (rule runs_forUpI [where I = "\<lambda>i r. isNegative r = isNegative x \<and>
          digitLength r = digitLength x \<and> take i (digits r) = take i (digits x)"])
      show "runs (bindM (digit x j) (setDigit s j)) v E (\<lambda>r. isNegative r = isNegative x \<and>
          digitLength r = digitLength x \<and> take (Suc j) (digits r) = take (Suc j) (digits x))"
        if "0 \<le> j" "j < digitLength x" "isNegative s = isNegative x \<and>
          digitLength s = digitLength x \<and> take j (digits s) = take j (digits x)" for j s
        using that by (simp add: take_Suc_update_nth)
      show "Q r" if "isNegative r = isNegative x \<and> digitLength r = digitLength x \<and>
          take (digitLength x) (digits r) = take (digitLength x) (digits x)" for r
      proof -
        have "r = x" using that by (intro bigint.equality) auto
        then show ?thesis using assms by simp
      qed
    qed (use 3 in auto)
  qed (use assms len in auto)
qed

lemma wf_neg_flip: "wf x \<Longrightarrow> \<not> isZero x \<Longrightarrow> wf (x\<lparr>isNegative := s\<rparr>)"
  by (simp add: wf_def HasLeadingZeroes_def isZero_def)

lemma runs_neg:
  assumes "wf x" and "\<And>e. oom v e \<Longrightarrow> E e" and "\<And>r. wf r \<Longrightarrow> bval r = - bval x \<Longrightarrow> Q r"
  shows "runs (neg x) v E Q"
proof (cases "isZero x")
  case True
  then show ?thesis using assms by (simp add: neg_def wf_bval_0)
next
  case False
  then have "Q (x\<lparr>isNegative := \<not> isNegative x\<rparr>)"
    using assms wf_neg_flip by (auto simp: bval_def)
  then show ?thesis
    using False assms by (auto simp: neg_def intro!: runs_intros runs_copy)
qed

lemma nonZeroLength_le: "nonZeroLength ds n \<le> n"
  by (induction n) auto

lemma nonZeroLength_top: "nonZeroLength ds n \<noteq> 0 \<Longrightarrow> ds ! (nonZeroLength ds n - 1) \<noteq> 0"
  by (induction n) auto

lemma dval_nonZeroLength: "n \<le> length ds \<Longrightarrow> dval (take (nonZeroLength ds n) ds) = dval (take n ds)"
  by (induction n) (auto simp: dval_take_Suc)

text \<open>Trimming returns the canonical BigInt of the same value; a zero result has no sign.\<close>

lemma runs_trim:
  assumes "isZero x \<longrightarrow> \<not> isNegative x" and "digitLength x \<le> MaxDigitLength"
    and "\<And>e. oom v e \<Longrightarrow> E e" and "\<And>r. wf r \<Longrightarrow> bval r = bval x \<Longrightarrow> Q r"
  shows "runs (destructivelyTrimHighZeroDigits x) v E Q"
proof (cases "isZero x")
  case True
  then show ?thesis
    using assms by (auto simp: destructivelyTrimHighZeroDigits_def wf_def HasLeadingZeroes_def isZero_def)
next
  case False
  let ?n = "nonZeroLength (digits x) (digitLength x)"
  have le: "?n \<le> digitLength x" by (rule nonZeroLength_le)
  have val: "dval (take ?n (digits x)) = dval (digits x)"
    using dval_nonZeroLength [of "digitLength x" "digits x"] by simp
  have zero: "?n = 0 \<Longrightarrow> Q \<lparr>digits = [], isNegative = False\<rparr>"
    using val by (intro assms(4)) (auto simp: bval_def)
  have trimmed: "Q (x\<lparr>digits := take ?n (digits x)\<rparr>)" if n: "?n \<noteq> 0"
  proof (rule assms(4))
    have "min (digitLength x) ?n = ?n" using le by simp
    then show "wf (x\<lparr>digits := take ?n (digits x)\<rparr>)"
      using nonZeroLength_top [OF n] le assms(2) n by (simp add: wf_def HasLeadingZeroes_def isZero_def)
    show "bval (x\<lparr>digits := take ?n (digits x)\<rparr>) = bval x"
      using val by (simp add: bval_def)
  qed
  have "x\<lparr>digits := digits x\<rparr> = x" by simp
  then show ?thesis
    using False trimmed zero assms(3) unfolding destructivelyTrimHighZeroDigits_def
    by (auto simp: Let_def intro!: runs_intros runs_zero)
qed

section \<open>Rewriting one digit of a running sum\<close>

text \<open>
  Every carry loop keeps \<open>dval (take i r) + Base ^ i * c\<close> equal to the part of the exact
  result it has seen; writing digit \<open>i\<close> and passing on the carry advances it.
\<close>

lemma carry_step:
  assumes "i < length rs" and "unat d + Base * c' = t"
  shows "dval (take (Suc i) (rs[i := d])) + Base ^ Suc i * c' = dval (take i rs) + Base ^ i * t"
  using assms(1) by (simp add: dval_take_Suc_update algebra_simps flip: assms(2))

lemma dval_take_less: "dval (take i xs) < Base ^ i"
  using dval_less [of "take i xs"]
  by (rule less_le_trans) (simp add: power_increasing Suc_leI)

section \<open>Concrete BigInts\<close>

text \<open>
  Facts that evaluate the invariant and the value of a BigInt given by its digits, and an
  environment in which every allocation succeeds and returns memory full of ones.
\<close>

lemmas wf_eval = wf_def HasLeadingZeroes_def isZero_def MaxDigitLength_def MaxBitLength_def DigitBits_def
lemmas bval_eval = bval_def Base_def

definition plenty :: env where
  "plenty = \<lparr>allocOk = \<lambda>k. True, junk = \<lambda>k i. - 1\<rparr>"

lemma oom_plenty [simp]: "\<not> oom plenty e"
  by (simp add: oom_def plenty_def)

lemma oom_plenty_fun: "oom plenty = (\<lambda>e. False)"
  by (simp add: fun_eq_iff)

end
