(* ===== verification/BigInt_AddSub.thy ===== *)
theory BigInt_AddSub
  imports BigInt_Base
begin

text \<open>
  Comparison, addition and subtraction of magnitudes and of signed values:
  \<open>absoluteCompare\<close>, \<open>absoluteAdd\<close>, \<open>absoluteSub\<close>, \<open>absoluteAddOne\<close>, \<open>absoluteSubOne\<close>,
  \<open>compare\<close>, \<open>equal\<close>, \<open>add\<close>, \<open>sub\<close>, \<open>inc\<close>, \<open>dec\<close> and \<open>bitNot\<close> of
  \<open>js/src/vm/BigIntType.cpp\<close>.
\<close>

section \<open>Comparison\<close>

primrec compareFrom :: "nat \<Rightarrow> bigint \<Rightarrow> bigint \<Rightarrow> int eng" where
  "compareFrom 0 x y = returnM 0"
| "compareFrom (Suc i) x y =
     bindM (digit x i) (\<lambda>a.
     bindM (digit y i) (\<lambda>b.
     if a = b then compareFrom i x y else returnM (if a > b then 1 else - 1)))"

definition absoluteCompare :: "bigint \<Rightarrow> bigint \<Rightarrow> int eng" where
  "absoluteCompare x y =
     mozAssert (\<not> HasLeadingZeroes x) (
     mozAssert (\<not> HasLeadingZeroes y) (
     mozAssert (\<not> isNegative x \<or> \<not> isZero x) (
     mozAssert (\<not> isNegative y \<or> \<not> isZero y) (
     let diff = int (digitLength x) - int (digitLength y) in
     if diff \<noteq> 0 then returnM (if diff < 0 then - 1 else 1)
     else compareFrom (digitLength x) x y))))"

definition compare :: "bigint \<Rightarrow> bigint \<Rightarrow> int eng" where
  "compare x y =
     mozAssert (\<not> isNegative x \<or> \<not> isZero x) (
     mozAssert (\<not> isNegative y \<or> \<not> isZero y) (
     let xSign = isNegative x in
     if xSign \<noteq> isNegative y then returnM (if xSign then - 1 else 1)
     else if xSign then absoluteCompare y x
     else absoluteCompare x y))"

text \<open>\<open>equal\<close> without its pointer-equality shortcut, which the digits imply.\<close>

primrec equalFrom :: "nat \<Rightarrow> nat \<Rightarrow> bigint \<Rightarrow> bigint \<Rightarrow> bool eng" where
  "equalFrom 0 i lhs rhs = returnM True"
| "equalFrom (Suc n) i lhs rhs =
     bindM (digit lhs i) (\<lambda>a.
     bindM (digit rhs i) (\<lambda>b.
     if a \<noteq> b then returnM False else equalFrom n (Suc i) lhs rhs))"

definition equal :: "bigint \<Rightarrow> bigint \<Rightarrow> bool eng" where
  "equal lhs rhs =
     (if digitLength lhs \<noteq> digitLength rhs then returnM False
      else if isNegative lhs \<noteq> isNegative rhs then returnM False
      else equalFrom (digitLength lhs) 0 lhs rhs)"

definition lessThan :: "bigint \<Rightarrow> bigint \<Rightarrow> bool eng" where
  "lessThan x y = bindM (compare x y) (\<lambda>c. returnM (c < 0))"

section \<open>Magnitudes\<close>

text \<open>
  The carry loops of \<open>absoluteAdd\<close>, \<open>absoluteSub\<close>, \<open>absoluteAddOne\<close> and \<open>absoluteSubOne\<close>:
  over the digits both operands have, and over the digits of one operand.  The state is the
  result being written and the carry.
\<close>

definition addPairs :: "bigint \<Rightarrow> bigint \<Rightarrow> nat \<Rightarrow> bigint \<times> digit \<Rightarrow> (bigint \<times> digit) eng" where
  "addPairs left right n =
     forUp 0 n (\<lambda>i (result, carry).
       bindM (digit left i) (\<lambda>l.
       bindM (digit right i) (\<lambda>r.
       let (sum, newCarry) = digitAdd l r 0;
           (sum, newCarry) = digitAdd sum carry newCarry
       in bindM (setDigit result i sum) (\<lambda>result. returnM (result, newCarry)))))"

definition addCarry :: "bigint \<Rightarrow> nat \<Rightarrow> nat \<Rightarrow> bigint \<times> digit \<Rightarrow> (bigint \<times> digit) eng" where
  "addCarry left start n =
     forUp start n (\<lambda>i (result, carry).
       bindM (digit left i) (\<lambda>l.
       let (sum, newCarry) = digitAdd l carry 0
       in bindM (setDigit result i sum) (\<lambda>result. returnM (result, newCarry))))"

definition subPairs :: "bigint \<Rightarrow> bigint \<Rightarrow> nat \<Rightarrow> bigint \<times> digit \<Rightarrow> (bigint \<times> digit) eng" where
  "subPairs x y n =
     forUp 0 n (\<lambda>i (result, borrow).
       bindM (digit x i) (\<lambda>a.
       bindM (digit y i) (\<lambda>b.
       let (difference, newBorrow) = digitSub a b 0;
           (difference, newBorrow) = digitSub difference borrow newBorrow
       in bindM (setDigit result i difference) (\<lambda>result. returnM (result, newBorrow)))))"

definition subBorrow :: "bigint \<Rightarrow> nat \<Rightarrow> nat \<Rightarrow> bigint \<times> digit \<Rightarrow> (bigint \<times> digit) eng" where
  "subBorrow x start n =
     forUp start n (\<lambda>i (result, borrow).
       bindM (digit x i) (\<lambda>a.
       let (difference, newBorrow) = digitSub a borrow 0
       in bindM (setDigit result i difference) (\<lambda>result. returnM (result, newBorrow))))"

definition absoluteAdd :: "bigint \<Rightarrow> bigint \<Rightarrow> bool \<Rightarrow> bigint eng" where
  "absoluteAdd x y resultNegative =
     (let swap = digitLength x < digitLength y;
          left = if swap then y else x;
          right = if swap then x else y
      in
      if isZero left then mozAssert (isZero right) (returnM left)
      else if isZero right then
        (if resultNegative = isNegative left then returnM left else neg left)
      else if absFitsInUint64 left then
        mozAssert (absFitsInUint64 right) (
        bindM (uint64FromAbsNonZero left) (\<lambda>lhs.
        bindM (uint64FromAbsNonZero right) (\<lambda>rhs.
        let res = lhs + rhs;
            overflow = res < lhs
        in mozAssert (res \<noteq> 0 \<or> overflow) (
        let resultLength = if overflow then 2 else 1 in
        bindM (createUninitialized resultLength resultNegative) (\<lambda>result.
        bindM (setDigit result 0 res) (\<lambda>result.
        bindM (if overflow then setDigit result 1 1 else returnM result) (\<lambda>result.
        mozAssert (\<not> HasLeadingZeroes result) (
        returnM result))))))))
      else
        bindM (createUninitialized (digitLength left + 1) resultNegative) (\<lambda>result.
        bindM (addPairs left right (digitLength right) (result, 0)) (\<lambda>(result, carry).
        bindM (addCarry left (digitLength right) (digitLength left) (result, carry)) (\<lambda>(result, carry).
        bindM (setDigit result (digitLength left) carry) (\<lambda>result.
        destructivelyTrimHighZeroDigits result)))))"

definition absoluteSub :: "bigint \<Rightarrow> bigint \<Rightarrow> bool \<Rightarrow> bigint eng" where
  "absoluteSub x y resultNegative =
     mozAssert (digitLength x \<ge> digitLength y) (
     bindM (absoluteCompare x y) (\<lambda>c. mozAssert (c > 0) (
     mozAssert (\<not> isZero x) (
     if isZero y then
       (if resultNegative = isNegative x then returnM x else neg x)
     else if absFitsInUint64 x then
       mozAssert (absFitsInUint64 y) (
       bindM (uint64FromAbsNonZero x) (\<lambda>lhs.
       bindM (uint64FromAbsNonZero y) (\<lambda>rhs.
       mozAssert (lhs > rhs) (
       let res = lhs - rhs in
       mozAssert (res \<noteq> 0) (
       createFromNonZeroRawUint64 res resultNegative)))))
     else
       bindM (createUninitialized (digitLength x) resultNegative) (\<lambda>result.
       bindM (subPairs x y (digitLength y) (result, 0)) (\<lambda>(result, borrow).
       bindM (subBorrow x (digitLength y) (digitLength x) (result, borrow)) (\<lambda>(result, borrow).
       mozAssert (borrow = 0) (
       destructivelyTrimHighZeroDigits result))))))))"

text \<open>The scan for a digit that is not at maximum, with its \<open>break\<close>.\<close>

primrec allDigitsMax :: "nat \<Rightarrow> nat \<Rightarrow> bigint \<Rightarrow> bool eng" where
  "allDigitsMax 0 i x = returnM True"
| "allDigitsMax (Suc n) i x =
     bindM (digit x i) (\<lambda>d. if - 1 \<noteq> d then returnM False else allDigitsMax n (Suc i) x)"

definition absoluteAddOne :: "bigint \<Rightarrow> bool \<Rightarrow> bigint eng" where
  "absoluteAddOne x resultNegative =
     (let inputLength = digitLength x in
      bindM (allDigitsMax inputLength 0 x) (\<lambda>willOverflow.
      let resultLength = inputLength + (if willOverflow then 1 else 0) in
      bindM (createUninitialized resultLength resultNegative) (\<lambda>result.
      bindM (addCarry x 0 inputLength (result, 1)) (\<lambda>(result, carry).
      bindM (if resultLength > inputLength
             then mozAssert (carry = 1) (setDigit result inputLength 1)
             else mozAssert (carry = 0) (returnM result)) (\<lambda>result.
      destructivelyTrimHighZeroDigits result)))))"

definition absoluteSubOne :: "bigint \<Rightarrow> bool \<Rightarrow> bigint eng" where
  "absoluteSubOne x resultNegative =
     mozAssert (\<not> isZero x) (
     let len = digitLength x in
     bindM (if len = 1 then digit x 0 else returnM 0) (\<lambda>d.
     if len = 1 then (if d = 1 then zero else createFromDigit (d - 1) resultNegative)
     else
       bindM (createUninitialized len resultNegative) (\<lambda>result.
       bindM (subBorrow x 0 len (result, 1)) (\<lambda>(result, borrow).
       mozAssert (borrow = 0) (
       destructivelyTrimHighZeroDigits result)))))"

section \<open>Signed operations\<close>

definition add :: "bigint \<Rightarrow> bigint \<Rightarrow> bigint eng" where
  "add x y =
     (let xNegative = isNegative x in
      if xNegative = isNegative y then absoluteAdd x y xNegative
      else bindM (absoluteCompare x y) (\<lambda>compare.
        if compare = 0 then zero
        else if compare > 0 then absoluteSub x y xNegative
        else absoluteSub y x (\<not> xNegative)))"

definition sub :: "bigint \<Rightarrow> bigint \<Rightarrow> bigint eng" where
  "sub x y =
     (let xNegative = isNegative x in
      if xNegative \<noteq> isNegative y then absoluteAdd x y xNegative
      else bindM (absoluteCompare x y) (\<lambda>compare.
        if compare = 0 then zero
        else if compare > 0 then absoluteSub x y xNegative
        else absoluteSub y x (\<not> xNegative)))"

definition inc :: "bigint \<Rightarrow> bigint eng" where
  "inc x =
     (if isZero x then one
      else let isNeg = isNegative x in
        if isNeg then absoluteSubOne x isNeg else absoluteAddOne x isNeg)"

definition dec :: "bigint \<Rightarrow> bigint eng" where
  "dec x =
     (if isZero x then negativeOne
      else let isNeg = isNegative x in
        if isNeg then absoluteAddOne x isNeg else absoluteSubOne x isNeg)"

definition bitNot :: "bigint \<Rightarrow> bigint eng" where
  "bitNot x = (if isNegative x then absoluteSubOne x False else absoluteAddOne x True)"

section \<open>Comparison is the order of the values\<close>

lemma dval_top_less:
  assumes "a < b"
  shows "dval (take n xs) + Base ^ n * a < dval (take n ys) + Base ^ n * b"
proof -
  have "dval (take n xs) + Base ^ n * a < Base ^ n * Suc a"
    using dval_take_less [of n xs] by simp
  also have "\<dots> \<le> Base ^ n * b" using assms by (intro mult_left_mono) auto
  finally show ?thesis by simp
qed

lemma sgn_int_less [simp]: "(a :: nat) < b \<Longrightarrow> sgn (int a - int b) = - 1"
  and sgn_int_greater [simp]: "b < a \<Longrightarrow> sgn (int a - int b) = 1"
  by (simp_all add: sgn_if)

lemma runs_compareFrom:
  assumes "n \<le> digitLength x" and "n \<le> digitLength y"
  shows "runs (compareFrom n x y) v E
    (\<lambda>r. r = sgn (int (dval (take n (digits x))) - int (dval (take n (digits y)))))"
  using assms
proof (induction n)
  case 0
  then show ?case by simp
next
  case (Suc n)
  let ?a = "digits x ! n" and ?b = "digits y ! n"
  show ?case
  proof (cases ?a ?b rule: linorder_cases)
    case less
    then have "unat ?a < unat ?b" by (simp add: word_less_nat_alt)
    from dval_top_less [OF this, of n "digits x" "digits y"]
    have "dval (take (Suc n) (digits x)) < dval (take (Suc n) (digits y))"
      using Suc.prems by (simp add: dval_take_Suc)
    then show ?thesis using less Suc.prems by auto
  next
    case equal
    then show ?thesis using Suc by (simp add: dval_take_Suc)
  next
    case greater
    then have "unat ?b < unat ?a" by (simp add: word_less_nat_alt)
    from dval_top_less [OF this, of n "digits y" "digits x"]
    have "dval (take (Suc n) (digits y)) < dval (take (Suc n) (digits x))"
      using Suc.prems by (simp add: dval_take_Suc)
    then show ?thesis using greater Suc.prems by auto
  qed
qed

lemma dval_less_if_shorter:
  assumes "wf y" and "digitLength x < digitLength y"
  shows "dval (digits x) < dval (digits y)"
proof -
  have "dval (digits x) < Base ^ digitLength x" by (rule dval_less)
  also have "\<dots> \<le> Base ^ (digitLength y - 1)"
    using assms(2) by (intro power_increasing) auto
  also have "\<dots> \<le> dval (digits y)"
    using assms by (intro dval_ge_top) (auto simp: wf_def HasLeadingZeroes_def)
  finally show ?thesis .
qed

lemma runs_absoluteCompare:
  assumes "wf x" and "wf y" and "Q (sgn (int (dval (digits x)) - int (dval (digits y))))"
  shows "runs (absoluteCompare x y) v E Q"
proof -
  have asserts: "\<not> HasLeadingZeroes x" "\<not> HasLeadingZeroes y"
    "\<not> isNegative x \<or> \<not> isZero x" "\<not> isNegative y \<or> \<not> isZero y"
    using assms by (auto simp: wf_def)
  show ?thesis
  proof (cases "digitLength x" "digitLength y" rule: linorder_cases)
    case less
    then show ?thesis
      using assms asserts dval_less_if_shorter [OF assms(2) less] by (simp add: absoluteCompare_def sgn_if)
  next
    case equal
    have "runs (compareFrom (digitLength x) x y) v E Q"
      by (rule runs_weakenQ [OF runs_compareFrom]) (use equal assms in auto)
    then show ?thesis using asserts equal by (simp add: absoluteCompare_def)
  next
    case greater
    then show ?thesis
      using assms asserts dval_less_if_shorter [OF assms(1) greater] by (simp add: absoluteCompare_def sgn_if)
  qed
qed

lemma runs_compare:
  assumes "wf x" and "wf y" and "Q (sgn (bval x - bval y))"
  shows "runs (compare x y) v E Q"
proof -
  have asserts: "\<not> isNegative x \<or> \<not> isZero x" "\<not> isNegative y \<or> \<not> isZero y"
    using assms by (auto simp: wf_def)
  show ?thesis
  proof (cases "isNegative x = isNegative y")
    case True
    have "sgn (bval x - bval y) = (if isNegative x then sgn (int (dval (digits y)) - int (dval (digits x)))
        else sgn (int (dval (digits x)) - int (dval (digits y))))"
      using True by (simp add: bval_def)
    then show ?thesis
      using True asserts assms by (auto simp: compare_def intro!: runs_absoluteCompare)
  next
    case False
    have "(if isNegative x then - 1 else 1) = sgn (bval x - bval y)"
    proof (cases "isNegative x")
      case True
      then have "0 \<le> bval y" using False by (simp add: bval_def)
      moreover have "bval x < 0" using True wf_neg_iff [OF assms(1)] by simp
      ultimately show ?thesis using True by simp
    next
      case neg: False
      then have "0 \<le> bval x" by (simp add: bval_def)
      moreover have "bval y < 0" using neg False wf_neg_iff [OF assms(2)] by simp
      ultimately show ?thesis using neg by simp
    qed
    then show ?thesis using False asserts assms by (simp add: compare_def)
  qed
qed

lemma runs_equalFrom:
  assumes "i + n \<le> digitLength x" and "i + n \<le> digitLength y"
  shows "runs (equalFrom n i x y) v E
    (\<lambda>r. r \<longleftrightarrow> take n (drop i (digits x)) = take n (drop i (digits y)))"
  using assms
proof (induction n arbitrary: i)
  case 0
  then show ?case by simp
next
  case (Suc n)
  have "drop i (digits x) = digits x ! i # drop (Suc i) (digits x)"
    and "drop i (digits y) = digits y ! i # drop (Suc i) (digits y)"
    using Suc.prems by (simp_all add: Cons_nth_drop_Suc)
  then show ?case using Suc.IH [of "Suc i"] Suc.prems by simp
qed

lemma runs_equal:
  assumes "wf x" and "wf y" and "Q (bval x = bval y)"
  shows "runs (equal x y) v E Q"
proof -
  have iff: "bval x = bval y \<longleftrightarrow> x = y" using wf_bval_unique assms by auto
  show ?thesis
  proof (cases "digitLength x = digitLength y \<and> isNegative x = isNegative y")
    case True
    have "runs (equalFrom (digitLength x) 0 x y) v E Q"
    proof (rule runs_weakenQ [OF runs_equalFrom])
      fix r
      assume "r \<longleftrightarrow> take (digitLength x) (drop 0 (digits x)) = take (digitLength x) (drop 0 (digits y))"
      then have "r \<longleftrightarrow> x = y" using True by auto
      then show "Q r" using assms(3) iff by simp
    qed (use True in auto)
    then show ?thesis using True by (simp add: equal_def)
  next
    case False
    then have "x \<noteq> y" by auto
    then show ?thesis using False assms(3) iff by (auto simp: equal_def)
  qed
qed

section \<open>One step of a carry loop\<close>

lemma Base_gt_3: "3 < Base"
  by (simp add: Base_def)

lemma carry_le_1: "d + Base * c = t \<Longrightarrow> t < 2 * Base \<Longrightarrow> c \<le> (1 :: nat)"
  by (metis (no_types, lifting) Base_neq_0 Suc_1 add_lessD1 add.commute le_less_Suc_eq linorder_not_le
      mult.commute mult_less_cancel2 not_less_eq One_nat_def not_less_eq_eq)

lemma addPair_step:
  assumes 1: "digitAdd l r 0 = (s, c1)" and 2: "digitAdd s c c1 = (s', c2)" and c: "unat c \<le> 1"
  shows "unat s' + Base * unat c2 = unat l + unat r + unat c" and "unat c2 \<le> 1"
proof -
  have c1: "unat c1 \<le> 1" using digitAdd_carry [OF 1] Base_gt_3 by simp
  then have "unat c1 < Base - 1" using Base_gt_3 by linarith
  then show eq: "unat s' + Base * unat c2 = unat l + unat r + unat c"
    using digitAdd_spec [OF 1] digitAdd_spec [OF 2] Base_gt_3 by simp
  show "unat c2 \<le> 1"
    by (rule carry_le_1 [OF eq]) (use unat_less_Base [of l] unat_less_Base [of r] c in linarith)
qed

lemma addOne_step:
  assumes "digitAdd l c 0 = (s, c')"
  shows "unat s + Base * unat c' = unat l + unat c" and "unat c' \<le> 1"
  using digitAdd_spec [OF assms] digitAdd_carry [OF assms] Base_gt_3 by simp_all

lemma subPair_step:
  assumes 1: "digitSub a b 0 = (d, w1)" and 2: "digitSub d w w1 = (d', w2)" and w: "unat w \<le> 1"
  shows "unat a + Base * unat w2 = unat d' + unat b + unat w" and "unat w2 \<le> 1"
proof -
  have w1: "unat w1 \<le> 1" using digitSub_borrow [OF 1] Base_gt_3 by simp
  then have "unat w1 < Base - 1" using Base_gt_3 by linarith
  then show eq: "unat a + Base * unat w2 = unat d' + unat b + unat w"
    using digitSub_spec [OF 1] digitSub_spec [OF 2] Base_gt_3 by simp
  show "unat w2 \<le> 1"
    by (rule carry_le_1 [OF eq]) (use unat_less_Base [of d'] unat_less_Base [of b] w in linarith)
qed

lemma subOne_step:
  assumes "digitSub a w 0 = (d, w')"
  shows "unat a + Base * unat w' = unat d + unat w" and "unat w' \<le> 1"
  using digitSub_spec [OF assms] digitSub_borrow [OF assms] Base_gt_3 by simp_all

text \<open>The subtraction counterpart of \<open>carry_step\<close>.\<close>

lemma borrow_step:
  assumes "i < length rs" and "a + Base * w' = unat d + t"
  shows "dval (take (Suc i) (rs[i := d])) + Base ^ i * t = dval (take i rs) + Base ^ i * a + Base ^ Suc i * w'"
proof -
  have "Base ^ i * (a + Base * w') = Base ^ i * (unat d + t)" using assms(2) by simp
  then show ?thesis using assms(1) by (simp add: dval_take_Suc_update algebra_simps)
qed

section \<open>Addition of magnitudes\<close>

lemma absoluteAdd_swap: "digitLength x < digitLength y \<Longrightarrow> absoluteAdd x y s = absoluteAdd y x s"
  by (simp add: absoluteAdd_def Let_def)

lemma wf_fits:
  assumes "wf x" and "\<not> isZero x" and "absFitsInUint64 x"
  obtains d where "digits x = [d]" and "d \<noteq> 0"
  using assms that
  by (cases "digits x") (auto simp: absFitsInUint64_def isZero_def DigitBits_def wf_def HasLeadingZeroes_def)

lemma runs_addPairs:
  assumes len: "n \<le> digitLength L" "n \<le> digitLength R" "n \<le> digitLength r"
    and Q: "\<And>r' c. isNegative r' = isNegative r \<Longrightarrow> digitLength r' = digitLength r \<Longrightarrow> unat c \<le> 1 \<Longrightarrow>
      dval (take n (digits r')) + Base ^ n * unat c = dval (take n (digits L)) + dval (take n (digits R)) \<Longrightarrow>
      Q (r', c)"
  shows "runs (addPairs L R n (r, 0)) v E Q"
  unfolding addPairs_def
proof (rule runs_forUpI [where I = "\<lambda>i (r', c). isNegative r' = isNegative r \<and> digitLength r' = digitLength r \<and>
      unat c \<le> 1 \<and> dval (take i (digits r')) + Base ^ i * unat c = dval (take i (digits L)) + dval (take i (digits R))"],
    goal_cases)
  case (3 j st)
  obtain r' c where st: "st = (r', c)" by (cases st)
  obtain s1 c1 where a1: "digitAdd (digits L ! j) (digits R ! j) 0 = (s1, c1)" by fastforce
  obtain s2 c2 where a2: "digitAdd s1 c c1 = (s2, c2)" by fastforce
  have j: "j < digitLength L" "j < digitLength R" "j < digitLength r'" using 3 st len by auto
  have c: "unat c \<le> 1" using 3 st by simp
  have "dval (take (Suc j) ((digits r')[j := s2])) + Base ^ Suc j * unat c2
      = dval (take (Suc j) (digits L)) + dval (take (Suc j) (digits R))"
    using 3 st j carry_step [OF j(3) addPair_step(1) [OF a1 a2 c]]
    by (simp add: dval_take_Suc algebra_simps)
  then show ?case
    using 3 st j addPair_step(2) [OF a1 a2 c] by (simp add: a1 a2 del: power_Suc)
next
  case (4 st)
  then show ?case by (cases st) (simp add: Q)
qed auto

lemma runs_addCarry:
  assumes len: "i \<le> n" "n \<le> digitLength L" "n \<le> digitLength r" and c: "unat c \<le> 1"
    and Q: "\<And>r' c'. isNegative r' = isNegative r \<Longrightarrow> digitLength r' = digitLength r \<Longrightarrow> unat c' \<le> 1 \<Longrightarrow>
      dval (take n (digits r')) + Base ^ n * unat c' + dval (take i (digits L))
        = dval (take i (digits r)) + Base ^ i * unat c + dval (take n (digits L)) \<Longrightarrow>
      Q (r', c')"
  shows "runs (addCarry L i n (r, c)) v E Q"
  unfolding addCarry_def
proof (rule runs_forUpI [where I = "\<lambda>k (r', c'). isNegative r' = isNegative r \<and> digitLength r' = digitLength r \<and>
      unat c' \<le> 1 \<and> dval (take k (digits r')) + Base ^ k * unat c' + dval (take i (digits L))
        = dval (take i (digits r)) + Base ^ i * unat c + dval (take k (digits L))"],
    goal_cases)
  case (3 j st)
  obtain r' c' where st: "st = (r', c')" by (cases st)
  obtain s1 c1 where a1: "digitAdd (digits L ! j) c' 0 = (s1, c1)" by fastforce
  have j: "j < digitLength L" "j < digitLength r'" using 3 st len by auto
  have "dval (take (Suc j) ((digits r')[j := s1])) + Base ^ Suc j * unat c1 + dval (take i (digits L))
      = dval (take i (digits r)) + Base ^ i * unat c + dval (take (Suc j) (digits L))"
    using 3 st j carry_step [OF j(2) addOne_step(1) [OF a1]]
    by (simp add: dval_take_Suc algebra_simps)
  then show ?case
    using 3 st j addOne_step(2) [OF a1] by (simp add: a1 del: power_Suc)
next
  case (4 st)
  then show ?case by (cases st) (simp add: Q)
qed (use len c in auto)

lemma runs_absoluteAdd_long:
  assumes "wf x" and "wf y" and le: "digitLength y \<le> digitLength x"
    and nzy: "\<not> isZero y" and long: "\<not> absFitsInUint64 x"
    and E: "\<And>e. oom v e \<Longrightarrow> E e" "digitLength x = MaxDigitLength \<Longrightarrow> E BigIntTooLarge"
    and Q: "\<And>r. wf r \<Longrightarrow> bval r = withSign s (dval (digits x) + dval (digits y)) \<Longrightarrow> Q r"
  shows "runs (absoluteAdd x y s) v E Q"
proof -
  let ?n = "digitLength x" and ?m = "digitLength y"
  have nz: "\<not> isZero x" using le nzy by (auto simp: isZero_def)
  have not_swap: "\<not> digitLength x < digitLength y" using le by simp
  have max: "?n + 1 > MaxDigitLength \<Longrightarrow> ?n = MaxDigitLength" using assms(1) by (simp add: wf_def)
  show ?thesis
    unfolding absoluteAdd_def Let_def if_not_P [OF not_swap] if_not_P [OF nz] if_not_P [OF nzy]
      if_not_P [OF long]
  proof (intro runs_bindI runs_createUninitialized, goal_cases)
    case 1
    then show ?case by (rule E(1))
  next
    case 2
    then show ?case using max E(2) by simp
  next
    case (3 ds)
    show ?case
    proof (rule runs_addPairs, goal_cases)
      case (4 r c)
      show ?case
        unfolding prod.case
      proof (intro runs_bindI, rule runs_addCarry, goal_cases)
        case (5 r' c')
        let ?r = "r'\<lparr>digits := (digits r')[?n := c']\<rparr>"
        have r: "digitLength r' = ?n + 1" "isNegative r' = s" using 3 4 5 by simp_all
        have "dval (digits ?r) = dval (digits x) + dval (digits y)"
          using 4 5 r dval_take_Suc_update [of ?n "digits r'" c'] by simp
        then have "bval ?r = withSign s (dval (digits x) + dval (digits y))" using r by (simp add: bval_def)
        then show ?case
          using r 3 E(1) Q by (auto simp: isZero_def intro!: runs_trim)
      qed (use 3 4 le in auto)
    qed (use 3 le in auto)
  qed
qed

lemma length_1_2_cases:
  "length ds = Suc 0 \<longleftrightarrow> (\<exists>a. ds = [a])" "length ds = 2 \<longleftrightarrow> (\<exists>a b. ds = [a, b])"
  by (auto simp: length_Suc_conv numeral_2_eq_2)

lemma MaxDigitLength_ge_2: "2 < MaxDigitLength"
  by (simp add: MaxDigitLength_def MaxBitLength_def DigitBits_def)

text \<open>The \<open>uint64_t\<close> fast path: one digit each, and a second digit on overflow.\<close>

lemma runs_absoluteAdd_short:
  assumes "wf x" and "wf y" and le: "digitLength y \<le> digitLength x"
    and nz: "\<not> isZero x" and nzy: "\<not> isZero y" and short: "absFitsInUint64 x"
    and E: "\<And>e. oom v e \<Longrightarrow> E e"
    and Q: "\<And>r. wf r \<Longrightarrow> bval r = withSign s (dval (digits x) + dval (digits y)) \<Longrightarrow> Q r"
  shows "runs (absoluteAdd x y s) v E Q"
proof -
  have shorty: "absFitsInUint64 y" using short le by (simp add: absFitsInUint64_def)
  obtain a where a: "digits x = [a]" "a \<noteq> 0" using wf_fits assms by blast
  obtain b where b: "digits y = [b]" "b \<noteq> 0" using wf_fits assms shorty by blast
  have z: "\<not> isZero x" "\<not> isZero y" using a b by (auto simp: isZero_def)
  obtain c where c: "digitAdd a b 0 = (a + b, c)" by (simp add: digitAdd_def Let_def)
  have sum: "unat (a + b) + Base * (if a + b < a then 1 else 0) = unat a + unat b"
    using addOne_step(1) [OF c] c by (auto simp: digitAdd_def Let_def split: if_splits)
  have nonzero: "a + b \<noteq> 0 \<or> a + b < a"
    using sum a(2) by (auto simp: unat_eq_zero split: if_splits)
  have one: "Q \<lparr>digits = [a + b], isNegative = s\<rparr>" if "\<not> a + b < a"
    using that sum nonzero a b by (intro Q) (auto simp: bval_def)
  have two: "Q \<lparr>digits = [a + b, 1], isNegative = s\<rparr>" if "a + b < a"
    using that sum a b MaxDigitLength_ge_2
    by (intro Q) (auto simp: bval_def wf_def HasLeadingZeroes_def isZero_def)
  show ?thesis
    using a b z short shorty le nonzero
    unfolding absoluteAdd_def
    by (auto simp: Let_def uint64FromAbsNonZero_def length_1_2_cases HasLeadingZeroes_def
        intro!: runs_bindI runs_createUninitialized E one two) (use MaxDigitLength_ge_2 in auto)
qed

lemma runs_absoluteAdd:
  assumes wf: "wf x" "wf y" and E: "\<And>e. oom v e \<Longrightarrow> E e"
    and big: "digitLength x = MaxDigitLength \<or> digitLength y = MaxDigitLength \<Longrightarrow> E BigIntTooLarge"
    and Q: "\<And>r. wf r \<Longrightarrow> bval r = withSign s (dval (digits x) + dval (digits y)) \<Longrightarrow> Q r"
  shows "runs (absoluteAdd x y s) v E Q"
proof -
  have ordered: "runs (absoluteAdd a b s) v E Q"
    if "wf a" "wf b" and le: "digitLength b \<le> digitLength a"
      and big: "digitLength a = MaxDigitLength \<Longrightarrow> E BigIntTooLarge"
      and Q: "\<And>r. wf r \<Longrightarrow> bval r = withSign s (dval (digits a) + dval (digits b)) \<Longrightarrow> Q r" for a b
  proof -
    consider "isZero b" | "\<not> isZero b" "absFitsInUint64 a" | "\<not> isZero b" "\<not> absFitsInUint64 a" by blast
    then show ?thesis
    proof cases
      case 1
      have "\<not> digitLength a < digitLength b" using le by simp
      moreover have "Q a" if "isZero a \<or> s = isNegative a"
        using that 1 \<open>wf a\<close> by (intro Q) (auto simp: bval_def isZero_iff)
      moreover have "runs (neg a) v E Q" if "\<not> isZero a" "s \<noteq> isNegative a"
        using that 1 \<open>wf a\<close> by (intro runs_neg E Q) (auto simp: bval_def isZero_iff)
      ultimately show ?thesis using 1 by (auto simp: absoluteAdd_def Let_def)
    next
      case 2
      moreover have "\<not> isZero a" using 2 le by (auto simp: isZero_def)
      ultimately show ?thesis using that E by (intro runs_absoluteAdd_short) auto
    next
      case 3
      then show ?thesis using that E by (intro runs_absoluteAdd_long) auto
    qed
  qed
  show ?thesis
  proof (cases "digitLength x < digitLength y")
    case True
    then show ?thesis
      using wf big by (subst absoluteAdd_swap) (auto intro!: ordered Q simp: add.commute)
  next
    case False
    then show ?thesis using wf big by (intro ordered Q) auto
  qed
qed

section \<open>Subtraction of magnitudes\<close>

lemma runs_subPairs:
  assumes len: "n \<le> digitLength x" "n \<le> digitLength y" "n \<le> digitLength r"
    and Q: "\<And>r' w. isNegative r' = isNegative r \<Longrightarrow> digitLength r' = digitLength r \<Longrightarrow> unat w \<le> 1 \<Longrightarrow>
      dval (take n (digits x)) + Base ^ n * unat w = dval (take n (digits r')) + dval (take n (digits y)) \<Longrightarrow>
      Q (r', w)"
  shows "runs (subPairs x y n (r, 0)) v E Q"
  unfolding subPairs_def
proof (rule runs_forUpI [where I = "\<lambda>i (r', w). isNegative r' = isNegative r \<and> digitLength r' = digitLength r \<and>
      unat w \<le> 1 \<and> dval (take i (digits x)) + Base ^ i * unat w = dval (take i (digits r')) + dval (take i (digits y))"],
    goal_cases)
  case (3 j st)
  obtain r' w where st: "st = (r', w)" by (cases st)
  obtain d1 w1 where a1: "digitSub (digits x ! j) (digits y ! j) 0 = (d1, w1)" by fastforce
  obtain d2 w2 where a2: "digitSub d1 w w1 = (d2, w2)" by fastforce
  have j: "j < digitLength x" "j < digitLength y" "j < digitLength r'" using 3 st len by auto
  have w: "unat w \<le> 1" using 3 st by simp
  have "unat (digits x ! j) + Base * unat w2 = unat d2 + (unat (digits y ! j) + unat w)"
    using subPair_step(1) [OF a1 a2 w] by simp
  from borrow_step [OF j(3) this]
  have "dval (take (Suc j) (digits x)) + Base ^ Suc j * unat w2
      = dval (take (Suc j) ((digits r')[j := d2])) + dval (take (Suc j) (digits y))"
    using 3 st j by (simp add: dval_take_Suc algebra_simps)
  then show ?case
    using 3 st j subPair_step(2) [OF a1 a2 w] by (simp add: a1 a2 del: power_Suc)
next
  case (4 st)
  then show ?case by (cases st) (simp add: Q)
qed auto

lemma runs_subBorrow:
  assumes len: "i \<le> n" "n \<le> digitLength x" "n \<le> digitLength r" and w: "unat w \<le> 1"
    and Q: "\<And>r' w'. isNegative r' = isNegative r \<Longrightarrow> digitLength r' = digitLength r \<Longrightarrow> unat w' \<le> 1 \<Longrightarrow>
      dval (take n (digits x)) + Base ^ n * unat w' + dval (take i (digits r))
        = dval (take n (digits r')) + Base ^ i * unat w + dval (take i (digits x)) \<Longrightarrow>
      Q (r', w')"
  shows "runs (subBorrow x i n (r, w)) v E Q"
  unfolding subBorrow_def
proof (rule runs_forUpI [where I = "\<lambda>k (r', w'). isNegative r' = isNegative r \<and> digitLength r' = digitLength r \<and>
      unat w' \<le> 1 \<and> dval (take k (digits x)) + Base ^ k * unat w' + dval (take i (digits r))
        = dval (take k (digits r')) + Base ^ i * unat w + dval (take i (digits x))"],
    goal_cases)
  case (3 j st)
  obtain r' w' where st: "st = (r', w')" by (cases st)
  obtain d1 w1 where a1: "digitSub (digits x ! j) w' 0 = (d1, w1)" by fastforce
  have j: "j < digitLength x" "j < digitLength r'" using 3 st len by auto
  from borrow_step [OF j(2) subOne_step(1) [OF a1]]
  have "dval (take (Suc j) (digits x)) + Base ^ Suc j * unat w1 + dval (take i (digits r))
      = dval (take (Suc j) ((digits r')[j := d1])) + Base ^ i * unat w + dval (take i (digits x))"
    using 3 st j by (simp add: dval_take_Suc algebra_simps)
  then show ?case
    using 3 st j subOne_step(2) [OF a1] by (simp add: a1 del: power_Suc)
next
  case (4 st)
  then show ?case by (cases st) (simp add: Q)
qed (use len w in auto)

text \<open>A subtraction that does not go below zero ends with no borrow.\<close>

lemma no_borrow:
  assumes "a + Base ^ n * unat w = r + b" and "b \<le> a" and "r < Base ^ n"
  shows "w = 0" and "r = a - b"
proof -
  have "Base ^ n * unat w < Base ^ n * 1" using assms by linarith
  then have "unat w < 1" by (simp only: mult_less_cancel1)
  then have "unat w = 0" by simp
  then show "w = 0" by (simp add: unat_eq_zero)
  then show "r = a - b" using assms by simp
qed

lemma dval_le_imp_length:
  assumes "wf y" and "dval (digits y) < dval (digits x)"
  shows "digitLength y \<le> digitLength x"
  using dval_less_if_shorter [OF assms(1), of x] assms(2) by (meson less_asym' not_le)

lemma runs_absoluteSub_long:
  assumes wf: "wf x" "wf y" and lt: "dval (digits y) < dval (digits x)"
    and nzy: "\<not> isZero y" and long: "\<not> absFitsInUint64 x"
    and E: "\<And>e. oom v e \<Longrightarrow> E e"
    and Q: "\<And>r. wf r \<Longrightarrow> bval r = withSign s (dval (digits x) - dval (digits y)) \<Longrightarrow> Q r"
  shows "runs (absoluteSub x y s) v E Q"
proof -
  let ?n = "digitLength x" and ?m = "digitLength y"
  have le: "?m \<le> ?n" using dval_le_imp_length [OF wf(2) lt] .
  have nz: "\<not> isZero x" using le nzy by (auto simp: isZero_def)
  show ?thesis
    unfolding absoluteSub_def if_not_P [OF nzy] if_not_P [OF long] mozAssert_holds [OF le]
  proof (intro runs_bindI runs_absoluteCompare wf runs_mozAssert nz runs_createUninitialized, goal_cases)
    case 1
    then show ?case using lt by simp
  next
    case 2
    then show ?case by (rule E)
  next
    case 3
    then show ?case using wf by (simp add: wf_def)
  next
    case (4 ds)
    show ?case
    proof (rule runs_subPairs, goal_cases)
      case (4 r w)
      show ?case
        unfolding prod.case
      proof (intro runs_bindI, rule runs_subBorrow, goal_cases)
        case (5 r' w')
        have r: "digitLength r' = ?n" "isNegative r' = s" using 4 5 \<open>length ds = ?n\<close> by simp_all
        have "dval (digits x) + Base ^ ?n * unat w' = dval (digits r') + dval (digits y)"
          using 4 5 r by simp
        from no_borrow [OF this less_imp_le [OF lt] dval_less [of "digits r'", unfolded r(1)]]
        have w': "w' = 0" and "dval (digits r') = dval (digits x) - dval (digits y)" .
        then have "bval r' = withSign s (dval (digits x) - dval (digits y))" using r by (simp add: bval_def)
        then show ?case
          using r E Q nz wf w' by (auto simp: isZero_def wf_def intro!: runs_trim)
      qed (use 4 le \<open>length ds = ?n\<close> in auto)
    qed (use 4 le in auto)
  qed
qed

lemma runs_absoluteSub:
  assumes wf: "wf x" "wf y" and lt: "dval (digits y) < dval (digits x)"
    and E: "\<And>e. oom v e \<Longrightarrow> E e"
    and Q: "\<And>r. wf r \<Longrightarrow> bval r = withSign s (dval (digits x) - dval (digits y)) \<Longrightarrow> Q r"
  shows "runs (absoluteSub x y s) v E Q"
proof -
  have le: "digitLength y \<le> digitLength x" using dval_le_imp_length [OF wf(2) lt] .
  have nz: "\<not> isZero x" using lt by (auto simp: isZero_iff)
  consider "isZero y" | "\<not> isZero y" "absFitsInUint64 x" | "\<not> isZero y" "\<not> absFitsInUint64 x" by blast
  then show ?thesis
  proof cases
    case 1
    have "Q x" if "s = isNegative x"
      using that 1 wf by (intro Q) (auto simp: bval_def isZero_iff)
    moreover have "runs (neg x) v E Q" if "s \<noteq> isNegative x"
      using that 1 wf by (intro runs_neg E Q) (auto simp: bval_def isZero_iff)
    ultimately show ?thesis
      using 1 nz le lt wf by (auto simp: absoluteSub_def intro!: runs_bindI runs_absoluteCompare)
  next
    case 2
    then have shorty: "absFitsInUint64 y" using le by (simp add: absFitsInUint64_def)
    obtain a where a: "digits x = [a]" "a \<noteq> 0" using wf_fits wf(1) nz 2 by blast
    obtain b where b: "digits y = [b]" "b \<noteq> 0" using wf_fits wf(2) shorty 2 by blast
    have ba: "b < a" using lt a b by (simp add: word_less_nat_alt)
    then have ba': "uint b < uint a" by (simp only: word_less_def)
    from ba have diff: "unat (a - b) = unat a - unat b" by (simp add: unat_sub)
    have "a - b \<noteq> 0" using ba by auto
    moreover have "Q \<lparr>digits = [a - b], isNegative = s\<rparr>"
      using \<open>a - b \<noteq> 0\<close> diff a b by (intro Q) (auto simp: bval_def)
    ultimately show ?thesis
      using 2 a b ba ba' nz wf shorty lt unfolding absoluteSub_def
      by (auto simp: uint64FromAbsNonZero_def Let_def intro!: runs_bindI runs_absoluteCompare
          runs_createFromNonZeroRawUint64 E)
  next
    case 3
    then show ?thesis using wf lt E Q by (intro runs_absoluteSub_long) auto
  qed
qed

section \<open>Adding and subtracting one\<close>

lemma unat_max_digit: "unat (- 1 :: digit) = Base - 1"
  by (simp add: unsigned_minus_1_eq_mask mask_eq_exp_minus_1 Base_def)

lemma digit_not_max:
  assumes "(d :: digit) \<noteq> - 1"
  shows "unat d + 1 < Base"
proof -
  have "unat d \<noteq> unat (- 1 :: digit)" using assms by (simp only: word_unat_eq_iff not_False_eq_True)
  then show ?thesis using unat_less_Base [of d] unfolding unat_max_digit by linarith
qed

lemma dval_all_max:
  "dval ds + 1 \<le> Base ^ length ds \<and> (dval ds + 1 = Base ^ length ds \<longleftrightarrow> (\<forall>d \<in> set ds. d = - 1))"
proof (induction ds)
  case Nil
  then show ?case by simp
next
  case (Cons d ds)
  have split: "dval (d # ds) + 1 + Base * (Base ^ length ds - (dval ds + 1)) + (Base - (unat d + 1))
      = Base ^ length (d # ds)"
  proof -
    obtain k where "Base ^ length ds = dval ds + 1 + k" using Cons le_Suc_ex by blast
    then show ?thesis using unat_less_Base [of d] by (simp add: algebra_simps)
  qed
  have d: "d = - 1 \<longleftrightarrow> Base - (unat d + 1) = 0"
    by (cases "d = - 1") (use digit_not_max [of d] unat_max_digit in auto)
  have ds: "(\<forall>d \<in> set ds. d = - 1) \<longleftrightarrow> Base * (Base ^ length ds - (dval ds + 1)) = 0"
    using Cons by auto
  have "(\<forall>e \<in> set (d # ds). e = - 1) \<longleftrightarrow>
      Base * (Base ^ length ds - (dval ds + 1)) = 0 \<and> Base - (unat d + 1) = 0"
    using d ds by auto
  then show ?case using split by linarith
qed

lemma runs_allDigitsMax:
  assumes "i + n \<le> digitLength x"
  shows "runs (allDigitsMax n i x) v E (\<lambda>r. r \<longleftrightarrow> (\<forall>d \<in> set (take n (drop i (digits x))). d = - 1))"
  using assms
proof (induction n arbitrary: i)
  case 0
  then show ?case by simp
next
  case (Suc n)
  have "drop i (digits x) = digits x ! i # drop (Suc i) (digits x)"
    using Suc.prems by (simp add: Cons_nth_drop_Suc)
  then show ?case using Suc.IH [of "Suc i"] Suc.prems by (cases "digits x ! i = - 1") auto
qed

lemma runs_absoluteAddOne:
  assumes len: "digitLength x \<le> MaxDigitLength"
    and E: "\<And>e. oom v e \<Longrightarrow> E e" "dval (digits x) + 1 = Base ^ MaxDigitLength \<Longrightarrow> E BigIntTooLarge"
    and Q: "\<And>r. wf r \<Longrightarrow> bval r = withSign s (dval (digits x) + 1) \<Longrightarrow> Q r"
  shows "runs (absoluteAddOne x s) v E Q"
proof -
  let ?n = "digitLength x" and ?X = "dval (digits x)"
  have over: "(\<forall>d \<in> set (digits x). d = - 1) \<longleftrightarrow> ?X + 1 = Base ^ ?n" and le: "?X + 1 \<le> Base ^ ?n"
    using dval_all_max [of "digits x"] by simp_all
  show ?thesis
    unfolding absoluteAddOne_def Let_def
  proof (intro runs_bindI, rule runs_weakenQ [OF runs_allDigitsMax], goal_cases)
    case 1
    then show ?case by simp
  next
    case (2 b)
    then have b: "b \<longleftrightarrow> ?X + 1 = Base ^ ?n" using over by simp
    show ?case
    proof (intro runs_bindI runs_createUninitialized, goal_cases)
      case 1
      then show ?case by (rule E)
    next
      case 2
      then have "?n = MaxDigitLength \<and> b" using len by (cases b) auto
      then show ?case using b E(2) by simp
    next
      case (3 ds)
      show ?case
      proof (rule runs_addCarry, goal_cases)
        case (5 r c)
        have r: "digitLength r = ?n + (if b then 1 else 0)" "isNegative r = s" using 3 5 by simp_all
        have eq: "dval (take ?n (digits r)) + Base ^ ?n * unat c = ?X + 1" using 5 by simp
        have c: "c = (if b then 1 else 0)"
        proof -
          have "unat c \<le> 1" using 5 by simp
          moreover have "unat c \<noteq> 0 \<longleftrightarrow> b"
            using eq b le dval_take_less [of ?n "digits r"] by (cases "unat c") auto
          ultimately have "unat c = unat (if b then 1 else 0 :: digit)" by (auto split: if_splits)
          then show ?thesis by (simp only: word_unat_eq_iff)
        qed
        show ?case
        proof (cases b)
          case True
          have "dval ((digits r)[?n := 1]) = ?X + 1"
            using True r eq c dval_take_Suc_update [of ?n "digits r" 1] by simp
          then show ?thesis
            using True c r E(1) Q 3 by (auto simp: bval_def isZero_def intro!: runs_trim)
        next
          case False
          then have "dval (digits r) = ?X + 1" using r eq c by simp
          moreover have "\<not> isZero r" using calculation by (auto simp: isZero_iff)
          ultimately show ?thesis
            using False c r E(1) Q 3 by (auto simp: bval_def intro!: runs_trim)
        qed
      qed (use 3 in auto)
    qed
  qed
qed

lemma runs_absoluteSubOne:
  assumes wf: "wf x" and nz: "\<not> isZero x"
    and E: "\<And>e. oom v e \<Longrightarrow> E e"
    and Q: "\<And>r. wf r \<Longrightarrow> bval r = withSign s (dval (digits x) - 1) \<Longrightarrow> Q r"
  shows "runs (absoluteSubOne x s) v E Q"
proof (cases "digitLength x = 1")
  case True
  then have "absFitsInUint64 x" by (simp add: absFitsInUint64_def DigitBits_def)
  then obtain d where d: "digits x = [d]" "d \<noteq> 0" using wf_fits wf nz by blast
  have one: "Q \<lparr>digits = [], isNegative = False\<rparr>" if "d = 1"
    using d that by (intro Q) (auto simp: bval_def)
  have "unat (d - 1) = unat d - 1" using d by (simp add: unat_minus_one)
  then have "Q \<lparr>digits = [d - 1], isNegative = s\<rparr>" if "d \<noteq> 1"
    using d that by (intro Q) (auto simp: bval_def)
  then show ?thesis
    using True nz d one E by (auto simp: absoluteSubOne_def intro!: runs_zero runs_createFromDigit)
next
  case False
  let ?n = "digitLength x"
  have pos: "1 \<le> dval (digits x)" using wf_digits_pos [OF wf nz] by simp
  show ?thesis
    unfolding absoluteSubOne_def mozAssert_holds [OF nz] Let_def if_not_P [OF False] bindM_returnM
  proof (intro runs_bindI runs_createUninitialized, goal_cases)
    case 1
    then show ?case by (rule E)
  next
    case 2
    then show ?case using wf by (simp add: wf_def)
  next
    case (3 ds)
    show ?case
    proof (rule runs_subBorrow, goal_cases)
      case (5 r w)
      have r: "digitLength r = ?n" "isNegative r = s" using 3 5 by simp_all
      have "dval (digits x) + Base ^ ?n * unat w = dval (digits r) + 1" using 5 r by simp
      from no_borrow [OF this pos dval_less [of "digits r", unfolded r(1)]]
      have "w = 0" "dval (digits r) = dval (digits x) - 1" .
      then show ?case
        using r E Q nz 3 by (auto simp: bval_def isZero_def intro!: runs_trim)
    qed (use 3 in auto)
  qed
qed

section \<open>Signed operations\<close>

text \<open>
  The only errors are running out of memory, and \<open>BigIntTooLarge\<close> when an operand already
  has the maximal number of digits.
\<close>

definition add_error :: "env \<Rightarrow> bigint \<Rightarrow> bigint \<Rightarrow> err \<Rightarrow> bool" where
  "add_error v x y e \<longleftrightarrow> oom v e \<or>
     e = BigIntTooLarge \<and> (digitLength x = MaxDigitLength \<or> digitLength y = MaxDigitLength)"

lemma runs_add:
  assumes wf: "wf x" "wf y" and E: "\<And>e. add_error v x y e \<Longrightarrow> E e"
    and Q: "\<And>r. wf r \<Longrightarrow> bval r = bval x + bval y \<Longrightarrow> Q r"
  shows "runs (add x y) v E Q"
proof (cases "isNegative x = isNegative y")
  case True
  then show ?thesis
    using wf E Q by (auto simp: add_def add_error_def bval_def intro!: runs_absoluteAdd)
next
  case False
  then show ?thesis
    using wf E unfolding add_def Let_def add_error_def
    by (auto simp: sgn_if bval_def split: if_splits
        intro!: runs_bindI runs_absoluteCompare runs_zero runs_absoluteSub Q)
qed

lemma runs_sub:
  assumes wf: "wf x" "wf y" and E: "\<And>e. add_error v x y e \<Longrightarrow> E e"
    and Q: "\<And>r. wf r \<Longrightarrow> bval r = bval x - bval y \<Longrightarrow> Q r"
  shows "runs (sub x y) v E Q"
proof (cases "isNegative x = isNegative y")
  case False
  then show ?thesis
    using wf E Q by (auto simp: sub_def add_error_def bval_def intro!: runs_absoluteAdd)
next
  case True
  then show ?thesis
    using wf E unfolding sub_def Let_def add_error_def
    by (auto simp: sgn_if bval_def split: if_splits
        intro!: runs_bindI runs_absoluteCompare runs_zero runs_absoluteSub Q)
qed

text \<open>Adding one to a magnitude overflows only at the largest BigInt.\<close>

definition one_error :: "env \<Rightarrow> bigint \<Rightarrow> err \<Rightarrow> bool" where
  "one_error v x e \<longleftrightarrow> oom v e \<or> e = BigIntTooLarge \<and> dval (digits x) + 1 = Base ^ MaxDigitLength"

lemma runs_one: "(\<And>e. oom v e \<Longrightarrow> E e) \<Longrightarrow> (\<And>r. wf r \<Longrightarrow> bval r = 1 \<Longrightarrow> Q r) \<Longrightarrow> runs one v E Q"
  by (auto simp: one_def bval_def intro!: runs_createFromDigit)

lemma runs_negativeOne:
  "(\<And>e. oom v e \<Longrightarrow> E e) \<Longrightarrow> (\<And>r. wf r \<Longrightarrow> bval r = - 1 \<Longrightarrow> Q r) \<Longrightarrow> runs negativeOne v E Q"
  by (auto simp: negativeOne_def bval_def intro!: runs_createFromDigit)

lemma wf_digits_ge_1: "wf x \<Longrightarrow> isNegative x \<Longrightarrow> \<not> isZero x \<and> 1 \<le> dval (digits x)"
  using wf_digits_pos [of x] by (auto simp: wf_def)

lemma wf_length: "wf x \<Longrightarrow> digitLength x \<le> MaxDigitLength"
  by (simp add: wf_def)

lemma runs_inc:
  assumes wf: "wf x" and E: "\<And>e. one_error v x e \<Longrightarrow> E e"
    and Q: "\<And>r. wf r \<Longrightarrow> bval r = bval x + 1 \<Longrightarrow> Q r"
  shows "runs (inc x) v E Q"
  using wf wf_digits_ge_1 [OF wf] E wf_length [OF wf] unfolding inc_def one_error_def
  by (auto simp: Let_def bval_def of_nat_diff isZero_iff
      intro!: runs_one runs_absoluteSubOne runs_absoluteAddOne Q)

lemma runs_dec:
  assumes wf: "wf x" and E: "\<And>e. one_error v x e \<Longrightarrow> E e"
    and Q: "\<And>r. wf r \<Longrightarrow> bval r = bval x - 1 \<Longrightarrow> Q r"
  shows "runs (dec x) v E Q"
proof -
  have "1 \<le> dval (digits x)" if "\<not> isZero x" using wf_digits_pos [OF wf that] by simp
  then show ?thesis
    using wf wf_digits_ge_1 [OF wf] E wf_length [OF wf] unfolding dec_def one_error_def
    by (auto simp: Let_def bval_def of_nat_diff isZero_iff
        intro!: runs_negativeOne runs_absoluteSubOne runs_absoluteAddOne Q)
qed

lemma runs_bitNot:
  assumes wf: "wf x" and E: "\<And>e. one_error v x e \<Longrightarrow> E e"
    and Q: "\<And>r. wf r \<Longrightarrow> bval r = - bval x - 1 \<Longrightarrow> Q r"
  shows "runs (bitNot x) v E Q"
  using wf wf_digits_ge_1 [OF wf] E wf_length [OF wf] unfolding bitNot_def one_error_def
  by (auto simp: bval_def of_nat_diff isZero_iff
      intro!: runs_absoluteSubOne runs_absoluteAddOne Q)

section \<open>Properties\<close>

text \<open>
  C14. Signed addition: \<open>add\<close> returns the canonical BigInt of the exact sum, whatever the
  signs, the lengths of the operands and the contents of fresh memory; no assertion fails.  It
  fails only when memory runs out or when an operand already has the maximal number of digits.
\<close>

theorem add_correct:
  assumes "wf x" and "wf y"
  shows "runs (add x y) v (add_error v x y) (\<lambda>r. wf r \<and> bval r = bval x + bval y)"
  by (rule runs_add [OF assms]) auto

theorem add_correct_witness:
  "wf \<lparr>digits = [-1, -1], isNegative = False\<rparr> \<and> wf \<lparr>digits = [1], isNegative = False\<rparr> \<and>
   runs (add \<lparr>digits = [-1, -1], isNegative = False\<rparr> \<lparr>digits = [1], isNegative = False\<rparr>) plenty
     (add_error plenty \<lparr>digits = [-1, -1], isNegative = False\<rparr> \<lparr>digits = [1], isNegative = False\<rparr>)
     (\<lambda>r. wf r \<and> bval r = bval \<lparr>digits = [-1, -1], isNegative = False\<rparr> + bval \<lparr>digits = [1], isNegative = False\<rparr>)"
  by (intro conjI add_correct) (simp_all add: wf_eval)

text \<open>
  Signed subtraction: \<open>sub\<close> returns the canonical BigInt of the exact difference, under
  the same conditions as addition.
\<close>

theorem sub_correct:
  assumes "wf x" and "wf y"
  shows "runs (sub x y) v (add_error v x y) (\<lambda>r. wf r \<and> bval r = bval x - bval y)"
  by (rule runs_sub [OF assms]) auto

theorem sub_correct_witness:
  "wf \<lparr>digits = [0, 1], isNegative = False\<rparr> \<and> wf \<lparr>digits = [1], isNegative = False\<rparr> \<and>
   runs (sub \<lparr>digits = [0, 1], isNegative = False\<rparr> \<lparr>digits = [1], isNegative = False\<rparr>) plenty
     (add_error plenty \<lparr>digits = [0, 1], isNegative = False\<rparr> \<lparr>digits = [1], isNegative = False\<rparr>)
     (\<lambda>r. wf r \<and> bval r = bval \<lparr>digits = [0, 1], isNegative = False\<rparr> - bval \<lparr>digits = [1], isNegative = False\<rparr>)"
  by (intro conjI sub_correct) (simp_all add: wf_eval)

text \<open>
  Increment, decrement and bitwise complement: \<open>inc\<close>, \<open>dec\<close> and \<open>bitNot\<close> return the
  canonical BigInts of \<open>x + 1\<close>, \<open>x - 1\<close> and \<open>- x - 1\<close>; besides running out of memory
  they fail only on the BigInt of largest magnitude.
\<close>

theorem inc_dec_bitNot_correct:
  assumes "wf x"
  shows "runs (inc x) v (one_error v x) (\<lambda>r. wf r \<and> bval r = bval x + 1) \<and>
    runs (dec x) v (one_error v x) (\<lambda>r. wf r \<and> bval r = bval x - 1) \<and>
    runs (bitNot x) v (one_error v x) (\<lambda>r. wf r \<and> bval r = - bval x - 1)"
  using runs_inc [OF assms] runs_dec [OF assms] runs_bitNot [OF assms] by auto

theorem inc_dec_bitNot_correct_witness:
  "wf \<lparr>digits = [0, 1], isNegative = True\<rparr> \<and>
    runs (inc \<lparr>digits = [0, 1], isNegative = True\<rparr>) plenty (one_error plenty \<lparr>digits = [0, 1], isNegative = True\<rparr>)
      (\<lambda>r. wf r \<and> bval r = bval \<lparr>digits = [0, 1], isNegative = True\<rparr> + 1)"
  using inc_dec_bitNot_correct [of "\<lparr>digits = [0, 1], isNegative = True\<rparr>" plenty] by (simp add: wf_eval)

text \<open>
  C25. Comparison: \<open>compare\<close> returns the sign of the difference of the values, \<open>equal\<close> decides
  equality of the values and \<open>lessThan\<close> their order; none of them can fail.
\<close>

theorem compare_correct:
  assumes "wf x" and "wf y"
  shows "runs (compare x y) v (\<lambda>e. False) (\<lambda>r. r = sgn (bval x - bval y)) \<and>
    runs (equal x y) v (\<lambda>e. False) (\<lambda>r. r \<longleftrightarrow> bval x = bval y) \<and>
    runs (lessThan x y) v (\<lambda>e. False) (\<lambda>r. r \<longleftrightarrow> bval x < bval y)"
proof (intro conjI)
  show "runs (lessThan x y) v (\<lambda>e. False) (\<lambda>r. r \<longleftrightarrow> bval x < bval y)"
    using assms by (auto simp: lessThan_def sgn_if intro!: runs_bindI runs_compare)
qed (use assms in \<open>auto intro: runs_compare runs_equal\<close>)

theorem compare_correct_witness:
  "wf \<lparr>digits = [3, 1], isNegative = False\<rparr> \<and> wf \<lparr>digits = [4], isNegative = False\<rparr> \<and>
   runs (compare \<lparr>digits = [3, 1], isNegative = False\<rparr> \<lparr>digits = [4], isNegative = False\<rparr>) plenty
     (\<lambda>e. False) (\<lambda>r. r = 1)"
  using compare_correct [of "\<lparr>digits = [3, 1], isNegative = False\<rparr>" "\<lparr>digits = [4], isNegative = False\<rparr>" plenty]
  by (simp add: wf_eval bval_eval)

end
