(* ===== verification/BigInt_Bitwise.thy ===== *)
theory BigInt_Bitwise
  imports BigInt_AddSub
begin

text \<open>
  Bitwise operations: \<open>absoluteBitwiseOp\<close> and its four instances on magnitudes, and the signed
  \<open>bitAnd\<close>, \<open>bitXor\<close> and \<open>bitOr\<close> of \<open>js/src/vm/BigIntType.cpp\<close>.  The contract between the
  digit operation and the way the code treats the digits of the longer operand is the locale
  \<open>bitwise_op\<close>, interpreted once per instance.
\<close>

section \<open>Operations\<close>

datatype BitwiseOpKind = SymmetricTrim | SymmetricFill | AsymmetricFill

definition bitwiseLength :: "BitwiseOpKind \<Rightarrow> nat \<Rightarrow> nat \<Rightarrow> nat" where
  "bitwiseLength kind xLength yLength =
     (case kind of SymmetricTrim \<Rightarrow> min xLength yLength
      | SymmetricFill \<Rightarrow> max xLength yLength
      | AsymmetricFill \<Rightarrow> xLength)"

text \<open>The index after the second loop is what the final assertion compares.\<close>

definition absoluteBitwiseOp ::
  "BitwiseOpKind \<Rightarrow> bigint \<Rightarrow> bigint \<Rightarrow> (digit \<Rightarrow> digit \<Rightarrow> digit) \<Rightarrow> bigint eng" where
  "absoluteBitwiseOp kind x y f =
     (let xLength = digitLength x;
          yLength = digitLength y;
          numPairs = min xLength yLength;
          resultLength = bitwiseLength kind xLength yLength
      in bindM (createUninitialized resultLength False) (\<lambda>result.
      bindM (forUp 0 numPairs (\<lambda>i result.
        bindM (digit x i) (\<lambda>a. bindM (digit y i) (\<lambda>b. setDigit result i (f a b)))) result) (\<lambda>result.
      bindM (if kind \<noteq> SymmetricTrim then
               let source = (if kind = AsymmetricFill then x else if xLength = numPairs then y else x) in
               forUp numPairs resultLength (\<lambda>i result.
                 bindM (digit source i) (\<lambda>d. setDigit result i d)) result
             else returnM result) (\<lambda>result.
      mozAssert ((if kind \<noteq> SymmetricTrim then max numPairs resultLength else numPairs) = resultLength) (
      destructivelyTrimHighZeroDigits result)))))"

definition absoluteAnd :: "bigint \<Rightarrow> bigint \<Rightarrow> bigint eng" where
  "absoluteAnd x y = absoluteBitwiseOp SymmetricTrim x y (AND)"

definition absoluteOr :: "bigint \<Rightarrow> bigint \<Rightarrow> bigint eng" where
  "absoluteOr x y = absoluteBitwiseOp SymmetricFill x y (OR)"

definition absoluteAndNot :: "bigint \<Rightarrow> bigint \<Rightarrow> bigint eng" where
  "absoluteAndNot x y = absoluteBitwiseOp AsymmetricFill x y (\<lambda>a b. a AND NOT b)"

definition absoluteXor :: "bigint \<Rightarrow> bigint \<Rightarrow> bigint eng" where
  "absoluteXor x y = absoluteBitwiseOp SymmetricFill x y (XOR)"

definition bitAnd :: "bigint \<Rightarrow> bigint \<Rightarrow> bigint eng" where
  "bitAnd x y =
     (if isZero x then returnM x
      else if isZero y then returnM y
      else if \<not> isNegative x \<and> \<not> isNegative y then absoluteAnd x y
      else if isNegative x \<and> isNegative y then
        bindM (absoluteSubOne x False) (\<lambda>x1.
        bindM (absoluteSubOne y False) (\<lambda>y1.
        bindM (absoluteOr x1 y1) (\<lambda>result.
        absoluteAddOne result True)))
      else
        let pos = (if isNegative x then y else x);
            negative = (if isNegative x then x else y)
        in bindM (absoluteSubOne negative False) (\<lambda>neg1.
        absoluteAndNot pos neg1))"

definition bitXor :: "bigint \<Rightarrow> bigint \<Rightarrow> bigint eng" where
  "bitXor x y =
     (if isZero x then returnM y
      else if isZero y then returnM x
      else if \<not> isNegative x \<and> \<not> isNegative y then absoluteXor x y
      else if isNegative x \<and> isNegative y then
        bindM (absoluteSubOne x False) (\<lambda>x1.
        bindM (absoluteSubOne y False) (\<lambda>y1.
        absoluteXor x1 y1))
      else
        let pos = (if isNegative x then y else x);
            negative = (if isNegative x then x else y)
        in bindM (absoluteSubOne negative False) (\<lambda>result.
        bindM (absoluteXor result pos) (\<lambda>result.
        absoluteAddOne result True)))"

definition bitOr :: "bigint \<Rightarrow> bigint \<Rightarrow> bigint eng" where
  "bitOr x y =
     (if isZero x then returnM y
      else if isZero y then returnM x
      else
        let resultNegative = (isNegative x \<or> isNegative y) in
        if \<not> resultNegative then absoluteOr x y
        else if isNegative x \<and> isNegative y then
          bindM (absoluteSubOne x False) (\<lambda>result.
          bindM (absoluteSubOne y False) (\<lambda>y1.
          bindM (absoluteAnd result y1) (\<lambda>result.
          absoluteAddOne result resultNegative)))
        else
          let pos = (if isNegative x then y else x);
              negative = (if isNegative x then x else y)
          in bindM (absoluteSubOne negative False) (\<lambda>result.
          bindM (absoluteAndNot result pos) (\<lambda>result.
          absoluteAddOne result resultNegative)))"

section \<open>Bits of a digit list\<close>

lemma bit_cons: "bit (unat (d :: digit) + Base * x) n \<longleftrightarrow> (if n < 64 then bit d n else bit x (n - 64))"
proof -
  have "unat d + Base * x = x * 2 ^ 64 + unat d" by (simp add: Base_def)
  also have "\<dots> = push_bit 64 x OR unat d"
    using nat_or_disjoint [of "unat d" 64 x] unat_less_Base [of d] by (simp add: Base_def push_bit_eq_mult)
  finally show ?thesis by (auto simp: bit_or_iff bit_push_bit_iff bit_unsigned_iff dest: bit_imp_le_length)
qed

lemma bit_dval: "bit (dval ds) n \<longleftrightarrow> n div 64 < length ds \<and> bit (ds ! (n div 64)) (n mod 64)"
proof (induction ds arbitrary: n)
  case Nil
  then show ?case by simp
next
  case (Cons d ds)
  show ?case
  proof (cases "n < 64")
    case True
    then show ?thesis by (simp add: bit_cons)
  next
    case False
    then have "n div 64 = Suc ((n - 64) div 64)" "n mod 64 = (n - 64) mod 64"
      by (simp_all add: le_div_geq le_mod_geq)
    then show ?thesis using False Cons.IH [of "n - 64"] by (simp add: bit_cons)
  qed
qed

section \<open>The contract of a bitwise operation\<close>

text \<open>
  A digit operation \<open>f\<close> and an operation \<open>g\<close> on numbers compute the same function \<open>b\<close> of
  bits, and the kind says what \<open>b\<close> is when one operand has run out of digits.
\<close>

locale bitwise_op =
  fixes kind :: BitwiseOpKind and f :: "digit \<Rightarrow> digit \<Rightarrow> digit" and g :: "nat \<Rightarrow> nat \<Rightarrow> nat" and b :: "bool \<Rightarrow> bool \<Rightarrow> bool"
  assumes bit_f: "n < 64 \<Longrightarrow> bit (f d e) n = b (bit d n) (bit e n)"
    and bit_g: "bit (g i j) n = b (bit i n) (bit j n)"
    and b_none: "\<not> b False False"
    and b_left: "b p False = (kind \<noteq> SymmetricTrim \<and> p)"
    and b_right: "b False p = (kind = SymmetricFill \<and> p)"
begin

lemma dval_result:
  assumes len: "length rs = bitwiseLength kind (length xs) (length ys)"
    and pairs: "\<And>k. k < min (length xs) (length ys) \<Longrightarrow> rs ! k = f (xs ! k) (ys ! k)"
    and tail: "\<And>k. kind \<noteq> SymmetricTrim \<Longrightarrow> min (length xs) (length ys) \<le> k \<Longrightarrow> k < length rs \<Longrightarrow>
      rs ! k = (if kind = AsymmetricFill then xs else if length xs = min (length xs) (length ys) then ys else xs) ! k"
  shows "dval rs = g (dval xs) (dval ys)"
proof (rule bit_eqI)
  fix n :: nat
  let ?k = "n div 64" and ?m = "n mod 64"
  have m: "?m < 64" by simp
  show "bit (dval rs) n \<longleftrightarrow> bit (g (dval xs) (dval ys)) n"
  proof (cases "?k < min (length xs) (length ys)")
    case True
    then have "?k < length rs" using len by (cases kind) (auto simp: bitwiseLength_def)
    then show ?thesis using True pairs [OF True] by (simp add: bit_g bit_dval bit_f [OF m])
  next
    case False
    then show ?thesis
      using len tail [of ?k] b_none
      by (cases kind; cases "?k < length xs"; cases "?k < length ys")
        (auto simp: bit_g bit_dval b_left b_right bitwiseLength_def)
  qed
qed

lemma runs_op:
  assumes wf: "wf x" "wf y" and E: "\<And>e. oom v e \<Longrightarrow> E e"
    and Q: "\<And>r. wf r \<Longrightarrow> bval r = int (g (dval (digits x)) (dval (digits y))) \<Longrightarrow> Q r"
  shows "runs (absoluteBitwiseOp kind x y f) v E Q"
proof -
  let ?n = "min (digitLength x) (digitLength y)" and ?L = "bitwiseLength kind (digitLength x) (digitLength y)"
  let ?source = "if kind = AsymmetricFill then x else if digitLength x = ?n then y else x"
  have max: "?L \<le> MaxDigitLength"
    using wf_length [OF wf(1)] wf_length [OF wf(2)] by (cases kind) (auto simp: bitwiseLength_def)
  have n: "?n \<le> ?L" by (cases kind) (auto simp: bitwiseLength_def)
  have pairs: "runs (forUp 0 ?n (\<lambda>i r. bindM (digit x i) (\<lambda>a. bindM (digit y i) (\<lambda>b. setDigit r i (f a b)))) r) v E
      (\<lambda>r. digitLength r = ?L \<and> \<not> isNegative r \<and> (\<forall>k < ?n. digits r ! k = f (digits x ! k) (digits y ! k)))"
    if "digitLength r = ?L" "\<not> isNegative r" for r
    by (rule runs_forUpI [where I = "\<lambda>i r. digitLength r = ?L \<and> \<not> isNegative r \<and>
          (\<forall>k < i. digits r ! k = f (digits x ! k) (digits y ! k))"])
      (use that n in \<open>auto simp: nth_list_update less_Suc_eq\<close>)
  have tail: "runs (if kind \<noteq> SymmetricTrim then
        forUp ?n ?L (\<lambda>i r. bindM (digit ?source i) (\<lambda>d. setDigit r i d)) r else returnM r) v E
      (\<lambda>r. digitLength r = ?L \<and> \<not> isNegative r \<and> (\<forall>k < ?n. digits r ! k = f (digits x ! k) (digits y ! k)) \<and>
        (kind \<noteq> SymmetricTrim \<longrightarrow> (\<forall>k. ?n \<le> k \<and> k < ?L \<longrightarrow> digits r ! k = digits ?source ! k)))"
    if r: "digitLength r = ?L \<and> \<not> isNegative r \<and> (\<forall>k < ?n. digits r ! k = f (digits x ! k) (digits y ! k))" for r
  proof (rule runs_if)
    assume kind: "kind \<noteq> SymmetricTrim"
    then have src: "i < digitLength ?source" if "i < ?L" for i
      using that by (cases kind) (auto simp: bitwiseLength_def split: if_splits)
    show "runs (forUp ?n ?L (\<lambda>i r. bindM (digit ?source i) (\<lambda>d. setDigit r i d)) r) v E
      (\<lambda>r. digitLength r = ?L \<and> \<not> isNegative r \<and> (\<forall>k < ?n. digits r ! k = f (digits x ! k) (digits y ! k)) \<and>
        (kind \<noteq> SymmetricTrim \<longrightarrow> (\<forall>k. ?n \<le> k \<and> k < ?L \<longrightarrow> digits r ! k = digits ?source ! k)))"
    proof (rule runs_forUpI [where I = "\<lambda>i r. digitLength r = ?L \<and> \<not> isNegative r \<and>
          (\<forall>k < ?n. digits r ! k = f (digits x ! k) (digits y ! k)) \<and>
          (\<forall>k. ?n \<le> k \<and> k < i \<longrightarrow> digits r ! k = digits ?source ! k)"], goal_cases)
      case (3 i s)
      then show ?case using src [of i] by (auto simp: nth_list_update less_Suc_eq)
    qed (use r n in auto)
  qed (use r in auto)
  show ?thesis
    unfolding absoluteBitwiseOp_def Let_def
  proof (rule runs_bindI, rule runs_createUninitialized, goal_cases)
    case (3 ds)
    show ?case
    proof (rule runs_bindM [OF pairs], goal_cases)
      case (3 r)
      show ?case
      proof (rule runs_bindM [OF tail [OF 3]], goal_cases)
        case (1 r)
        have "dval (digits r) = g (dval (digits x)) (dval (digits y))"
          by (rule dval_result) (use 1 in auto)
        moreover have "(if kind \<noteq> SymmetricTrim then max ?n ?L else ?n) = ?L"
          by (cases kind) (auto simp: bitwiseLength_def)
        ultimately show ?case using 1 max E Q by (intro runs_mozAssert runs_trim) (auto simp: bval_def)
      qed
    qed (use 3 in auto)
  qed (use max E in auto)
qed

end
section \<open>The four instances\<close>

definition natAndNot :: "nat \<Rightarrow> nat \<Rightarrow> nat" where
  "natAndNot i j = nat (int i AND NOT (int j))"

lemma int_natAndNot: "int (natAndNot i j) = int i AND NOT (int j)"
  by (simp add: natAndNot_def)

interpretation op_and: bitwise_op SymmetricTrim "(AND)" "(AND)" "(\<and>)"
  by unfold_locales (simp_all add: bit_and_iff)

interpretation op_or: bitwise_op SymmetricFill "(OR)" "(OR)" "(\<or>)"
  by unfold_locales (simp_all add: bit_or_iff)

interpretation op_xor: bitwise_op SymmetricFill "(XOR)" "(XOR)" "(\<noteq>)"
  by unfold_locales (auto simp: bit_xor_iff)

interpretation op_andnot: bitwise_op AsymmetricFill "\<lambda>a b. a AND NOT b" natAndNot "\<lambda>p q. p \<and> \<not> q"
  by unfold_locales (auto simp: bit_and_iff bit_not_iff natAndNot_def bit_nat_iff bit_of_nat_iff_bit)

section \<open>Signed operations\<close>

text \<open>
  The only error besides lack of memory is a result whose magnitude does not fit.
\<close>

definition bit_error :: "env \<Rightarrow> int \<Rightarrow> err \<Rightarrow> bool" where
  "bit_error v z e \<longleftrightarrow> oom v e \<or> e = BigIntTooLarge \<and> int (Base ^ MaxDigitLength) \<le> \<bar>z\<bar>"

text \<open>A negative BigInt is the complement of its magnitude less one.\<close>

lemma bval_negative: "wf x \<Longrightarrow> isNegative x \<Longrightarrow> bval x = NOT (int (dval (digits x) - 1))"
  using wf_digits_ge_1 [of x] by (simp add: bval_def not_int_def of_nat_diff)

lemma bval_positive: "\<not> isNegative x \<Longrightarrow> bval x = int (dval (digits x))"
  by (simp add: bval_def)

lemma runs_subOne_abs:
  assumes "wf x" and "isNegative x" and "\<And>e. oom v e \<Longrightarrow> E e"
    and "\<And>r. wf r \<Longrightarrow> \<not> isNegative r \<Longrightarrow> dval (digits r) = dval (digits x) - 1 \<Longrightarrow> Q r"
  shows "runs (absoluteSubOne x False) v E Q"
proof (rule runs_absoluteSubOne [OF assms(1) _ assms(3)])
  show "\<not> isZero x" using assms(1,2) by (auto simp: wf_def)
  fix r
  assume r: "wf r" "bval r = withSign False (dval (digits x) - 1)"
  have "\<not> isNegative r" using r(2) wf_neg_iff [OF r(1)] by simp
  moreover have "dval (digits r) = dval (digits x) - 1" using r(2) calculation by (simp add: bval_positive)
  ultimately show "Q r" using r(1) assms(4) by blast
qed

text \<open>Adding one to a magnitude and negating it is the complement.\<close>

lemma runs_complement:
  assumes wf: "wf r" and val: "bval r = int n" and z: "z = NOT (int n)"
    and E: "\<And>e. bit_error v z e \<Longrightarrow> E e" and Q: "\<And>r. wf r \<Longrightarrow> bval r = z \<Longrightarrow> Q r"
  shows "runs (absoluteAddOne r True) v E Q"
proof -
  have n: "dval (digits r) = n" using val abs_bval [of r] by simp
  have z': "z = - int (n + 1)" using z by (simp add: not_int_def)
  show ?thesis
  proof (rule runs_absoluteAddOne, goal_cases)
    case 1
    then show ?case using wf by (rule wf_length)
  next
    case (2 e)
    then show ?case by (intro E) (simp add: bit_error_def)
  next
    case 3
    then show ?case using n z' by (intro E) (simp add: bit_error_def del: of_nat_power of_nat_add)
  next
    case (4 r)
    then show ?case using n z' by (intro Q) simp_all
  qed
qed

lemma sign_cases [case_names zero pos_pos neg_neg neg_pos pos_neg]:
  assumes "isZero x \<or> isZero y \<Longrightarrow> P"
    and "\<not> isZero x \<Longrightarrow> \<not> isZero y \<Longrightarrow> \<not> isNegative x \<Longrightarrow> \<not> isNegative y \<Longrightarrow> P"
    and "\<not> isZero x \<Longrightarrow> \<not> isZero y \<Longrightarrow> isNegative x \<Longrightarrow> isNegative y \<Longrightarrow> P"
    and "\<not> isZero x \<Longrightarrow> \<not> isZero y \<Longrightarrow> isNegative x \<Longrightarrow> \<not> isNegative y \<Longrightarrow> P"
    and "\<not> isZero x \<Longrightarrow> \<not> isZero y \<Longrightarrow> \<not> isNegative x \<Longrightarrow> isNegative y \<Longrightarrow> P"
  shows P
  using assms by blast

lemma runs_bitAnd:
  assumes wf: "wf x" "wf y" and E: "\<And>e. bit_error v (bval x AND bval y) e \<Longrightarrow> E e"
    and Q: "\<And>r. wf r \<Longrightarrow> bval r = bval x AND bval y \<Longrightarrow> Q r"
  shows "runs (bitAnd x y) v E Q"
proof -
  have oom: "E e" if "oom v e" for e using that by (intro E) (simp add: bit_error_def)
  show ?thesis
  proof (cases x y rule: sign_cases)
    case zero
    then show ?thesis
      using wf wf_bval_0 [OF wf(1)] wf_bval_0 [OF wf(2)] Q [of x] Q [of y] by (auto simp: bitAnd_def)
  next
    case pos_pos
    then show ?thesis
      using wf oom Q by (simp add: bitAnd_def absoluteAnd_def op_and.runs_op bval_positive of_nat_and_eq)
  next
    case neg_neg
    have "bval x AND bval y = NOT (int ((dval (digits x) - 1) OR (dval (digits y) - 1)))"
      using wf neg_neg by (simp add: bval_negative of_nat_or_eq)
    then show ?thesis
      using neg_neg wf oom E Q
      by (auto simp: bitAnd_def absoluteOr_def intro!: runs_bindI runs_subOne_abs op_or.runs_op runs_complement)
  next
    case neg_pos
    have "bval x AND bval y = int (natAndNot (dval (digits y)) (dval (digits x) - 1))"
      using wf neg_pos by (simp add: bval_negative bval_positive int_natAndNot and.commute)
    then show ?thesis
      using neg_pos wf oom Q
      by (auto simp: bitAnd_def absoluteAndNot_def intro!: runs_bindI runs_subOne_abs op_andnot.runs_op)
  next
    case pos_neg
    have "bval x AND bval y = int (natAndNot (dval (digits x)) (dval (digits y) - 1))"
      using wf pos_neg by (simp add: bval_negative bval_positive int_natAndNot)
    then show ?thesis
      using pos_neg wf oom Q
      by (auto simp: bitAnd_def absoluteAndNot_def intro!: runs_bindI runs_subOne_abs op_andnot.runs_op)
  qed
qed

lemma xor_not_left: "NOT a XOR b = NOT (a XOR b)" for a b :: int
  by (rule bit_eqI) (auto simp: bit_xor_iff bit_not_iff)

lemma xor_not_right: "a XOR NOT b = NOT (a XOR b)" for a b :: int
  by (rule bit_eqI) (auto simp: bit_xor_iff bit_not_iff)

lemma or_not: "a OR NOT b = NOT (b AND NOT a)" for a b :: int
  by (rule bit_eqI) (auto simp: bit_or_iff bit_and_iff bit_not_iff)

lemma runs_bitXor:
  assumes wf: "wf x" "wf y" and E: "\<And>e. bit_error v (bval x XOR bval y) e \<Longrightarrow> E e"
    and Q: "\<And>r. wf r \<Longrightarrow> bval r = bval x XOR bval y \<Longrightarrow> Q r"
  shows "runs (bitXor x y) v E Q"
proof -
  have oom: "E e" if "oom v e" for e using that by (intro E) (simp add: bit_error_def)
  show ?thesis
  proof (cases x y rule: sign_cases)
    case zero
    then show ?thesis
      using wf wf_bval_0 [OF wf(1)] wf_bval_0 [OF wf(2)] Q [of x] Q [of y] by (auto simp: bitXor_def)
  next
    case pos_pos
    then show ?thesis
      using wf oom Q by (simp add: bitXor_def absoluteXor_def op_xor.runs_op bval_positive of_nat_xor_eq)
  next
    case neg_neg
    have "bval x XOR bval y = int ((dval (digits x) - 1) XOR (dval (digits y) - 1))"
      using wf neg_neg by (simp add: bval_negative of_nat_xor_eq xor_not_left xor_not_right)
    then show ?thesis
      using neg_neg wf oom Q
      by (auto simp: bitXor_def absoluteXor_def intro!: runs_bindI runs_subOne_abs op_xor.runs_op)
  next
    case neg_pos
    have "bval x XOR bval y = NOT (int ((dval (digits x) - 1) XOR dval (digits y)))"
      using wf neg_pos by (simp add: bval_negative bval_positive of_nat_xor_eq xor_not_left)
    then show ?thesis
      using neg_pos wf oom E Q
      by (auto simp: bitXor_def absoluteXor_def intro!: runs_bindI runs_subOne_abs op_xor.runs_op runs_complement)
  next
    case pos_neg
    have "bval x XOR bval y = NOT (int ((dval (digits y) - 1) XOR dval (digits x)))"
      using wf pos_neg by (simp add: bval_negative bval_positive of_nat_xor_eq xor_not_right xor.commute)
    then show ?thesis
      using pos_neg wf oom E Q
      by (auto simp: bitXor_def absoluteXor_def intro!: runs_bindI runs_subOne_abs op_xor.runs_op runs_complement)
  qed
qed

lemma runs_bitOr:
  assumes wf: "wf x" "wf y" and E: "\<And>e. bit_error v (bval x OR bval y) e \<Longrightarrow> E e"
    and Q: "\<And>r. wf r \<Longrightarrow> bval r = bval x OR bval y \<Longrightarrow> Q r"
  shows "runs (bitOr x y) v E Q"
proof -
  have oom: "E e" if "oom v e" for e using that by (intro E) (simp add: bit_error_def)
  show ?thesis
  proof (cases x y rule: sign_cases)
    case zero
    then show ?thesis
      using wf wf_bval_0 [OF wf(1)] wf_bval_0 [OF wf(2)] Q [of x] Q [of y] by (auto simp: bitOr_def)
  next
    case pos_pos
    then show ?thesis
      using wf oom Q by (simp add: bitOr_def absoluteOr_def op_or.runs_op bval_positive of_nat_or_eq)
  next
    case neg_neg
    have "bval x OR bval y = NOT (int ((dval (digits x) - 1) AND (dval (digits y) - 1)))"
      using wf neg_neg by (simp add: bval_negative of_nat_and_eq)
    then show ?thesis
      using neg_neg wf oom E Q
      by (auto simp: bitOr_def absoluteAnd_def intro!: runs_bindI runs_subOne_abs op_and.runs_op runs_complement)
  next
    case neg_pos
    have "bval x OR bval y = NOT (int (natAndNot (dval (digits x) - 1) (dval (digits y))))"
      unfolding bval_negative [OF wf(1) neg_pos(3)] bval_positive [OF neg_pos(4)] int_natAndNot
      by (subst or.commute) (rule or_not)
    then show ?thesis
      using neg_pos wf oom E Q
      by (auto simp: bitOr_def absoluteAndNot_def intro!: runs_bindI runs_subOne_abs op_andnot.runs_op runs_complement)
  next
    case pos_neg
    have "bval x OR bval y = NOT (int (natAndNot (dval (digits y) - 1) (dval (digits x))))"
      unfolding bval_negative [OF wf(2) pos_neg(4)] bval_positive [OF pos_neg(3)] int_natAndNot by (rule or_not)
    then show ?thesis
      using pos_neg wf oom E Q
      by (auto simp: bitOr_def absoluteAndNot_def intro!: runs_bindI runs_subOne_abs op_andnot.runs_op runs_complement)
  qed
qed

section \<open>Properties\<close>

text \<open>
  C19. Bitwise operations: \<open>bitAnd\<close>, \<open>bitOr\<close> and \<open>bitXor\<close> compute the conjunction,
  disjunction and exclusive disjunction of the infinite two's complement representations, for
  every combination of signs and lengths; no digit is read or written out of range.  Besides lack of
  memory they fail only when the result does not fit in a BigInt.
\<close>

theorem bitwise_correct:
  assumes "wf x" and "wf y"
  shows "runs (bitAnd x y) v (bit_error v (bval x AND bval y)) (\<lambda>r. wf r \<and> bval r = bval x AND bval y) \<and>
    runs (bitOr x y) v (bit_error v (bval x OR bval y)) (\<lambda>r. wf r \<and> bval r = bval x OR bval y) \<and>
    runs (bitXor x y) v (bit_error v (bval x XOR bval y)) (\<lambda>r. wf r \<and> bval r = bval x XOR bval y)"
  using runs_bitAnd [OF assms] runs_bitOr [OF assms] runs_bitXor [OF assms] by auto

theorem bitwise_correct_witness:
  "wf \<lparr>digits = [6, 9], isNegative = True\<rparr> \<and> wf \<lparr>digits = [12], isNegative = False\<rparr> \<and>
   runs (bitAnd \<lparr>digits = [6, 9], isNegative = True\<rparr> \<lparr>digits = [12], isNegative = False\<rparr>) plenty
     (bit_error plenty (bval \<lparr>digits = [6, 9], isNegative = True\<rparr> AND bval \<lparr>digits = [12], isNegative = False\<rparr>))
     (\<lambda>r. wf r \<and> bval r = bval \<lparr>digits = [6, 9], isNegative = True\<rparr> AND bval \<lparr>digits = [12], isNegative = False\<rparr>)"
  using bitwise_correct [of "\<lparr>digits = [6, 9], isNegative = True\<rparr>" "\<lparr>digits = [12], isNegative = False\<rparr>" plenty]
  by (simp add: wf_eval)

end
