(* ===== verification/BigInt_Mul.thy ===== *)
theory BigInt_Mul
  imports BigInt_AddSub
begin

text \<open>
  Multiplication and exponentiation: \<open>internalMultiplyAdd\<close>, \<open>inplaceMultiplyAdd\<close>,
  \<open>multiplyAccumulate\<close>, \<open>mul\<close> and \<open>pow\<close> of \<open>js/src/vm/BigIntType.cpp\<close>, with \<open>SafeMul\<close>
  (\<open>js/src/util/CheckedArithmetic.h\<close>), \<open>IsPowerOfTwo\<close> and \<open>FloorLog2\<close>
  (\<open>mfbt/MathAlgorithms.h\<close>).  The square-and-multiply loop of \<open>pow\<close> is stated over a
  multiplier; the locale \<open>multiplier\<close> holds the law it relies on.
\<close>

section \<open>Multiplication\<close>

text \<open>
  \<open>internalMultiplyAdd(source, factor, summand, n, result)\<close>.  The source may be the result
  itself: \<open>None\<close> stands for that alias, so a digit is read from the result as it is then.
\<close>

definition multiplyAddStep ::
  "bigint option \<Rightarrow> digit \<Rightarrow> nat \<Rightarrow> bigint \<times> digit \<times> digit \<Rightarrow> (bigint \<times> digit \<times> digit) eng" where
  "multiplyAddStep source factor i =
     (\<lambda>(result, carry, high).
       bindM (case source of None \<Rightarrow> digit result i | Some s \<Rightarrow> digit s i) (\<lambda>current.
       let (current, newHigh) = digitMul current factor;
           (current, newCarry) = digitAdd current high 0;
           (current, newCarry) = digitAdd current carry newCarry
       in bindM (setDigit result i current) (\<lambda>result. returnM (result, newCarry, newHigh))))"

definition internalMultiplyAdd ::
  "bigint option \<Rightarrow> digit \<Rightarrow> digit \<Rightarrow> nat \<Rightarrow> bigint \<Rightarrow> bigint eng" where
  "internalMultiplyAdd source factor summand n result =
     mozAssert (digitLength (case source of None \<Rightarrow> result | Some s \<Rightarrow> s) \<ge> n) (
     mozAssert (digitLength result \<ge> n) (
     bindM (forUp 0 n (multiplyAddStep source factor) (result, summand, 0)) (\<lambda>(result, carry, high).
     if digitLength result > n then
       bindM (setDigit result n (carry + high)) (\<lambda>result.
       forUp (Suc n) (digitLength result) (\<lambda>i result. setDigit result i 0) result)
     else mozAssert (carry + high = 0) (returnM result))))"

definition inplaceMultiplyAdd :: "bigint \<Rightarrow> digit \<Rightarrow> digit \<Rightarrow> bigint eng" where
  "inplaceMultiplyAdd x factor summand = internalMultiplyAdd None factor summand (digitLength x) x"

text \<open>
  The second loop of \<open>multiplyAccumulate\<close> carries on until nothing is left to carry; that it
  ends at the end of the accumulator at the latest is its assertion.
\<close>

function accumulateCarry :: "bigint \<Rightarrow> nat \<Rightarrow> digit \<Rightarrow> digit \<Rightarrow> bigint eng" where
  "accumulateCarry accumulator accumulatorIndex carry high =
     (if carry \<noteq> 0 \<or> high \<noteq> 0 then
        mozAssert (accumulatorIndex < digitLength accumulator) (
        let acc = digits accumulator ! accumulatorIndex;
            (acc, newCarry) = digitAdd acc high 0;
            (acc, newCarry) = digitAdd acc carry newCarry
        in accumulateCarry (accumulator\<lparr>digits := (digits accumulator)[accumulatorIndex := acc]\<rparr>)
             (Suc accumulatorIndex) newCarry 0)
      else returnM accumulator)"
  by pat_completeness auto

termination
  by (relation "measure (\<lambda>(a, i, c, h). digitLength a - i)") auto

declare accumulateCarry.simps [simp del]

definition multiplyAccumulateStep ::
  "bigint \<Rightarrow> digit \<Rightarrow> nat \<Rightarrow> nat \<Rightarrow> bigint \<times> digit \<times> digit \<Rightarrow> (bigint \<times> digit \<times> digit) eng" where
  "multiplyAccumulateStep multiplicand multiplier start i =
     (\<lambda>(accumulator, carry, high).
       bindM (digit accumulator (start + i)) (\<lambda>acc.
       let (acc, newCarry) = digitAdd acc high 0;
           (acc, newCarry) = digitAdd acc carry newCarry
       in bindM (digit multiplicand i) (\<lambda>multiplicandDigit.
       let (low, high) = digitMul multiplier multiplicandDigit;
           (acc, newCarry) = digitAdd acc low newCarry
       in bindM (setDigit accumulator (start + i) acc) (\<lambda>accumulator.
       returnM (accumulator, newCarry, high)))))"

definition multiplyAccumulate :: "bigint \<Rightarrow> digit \<Rightarrow> bigint \<Rightarrow> nat \<Rightarrow> bigint eng" where
  "multiplyAccumulate multiplicand multiplier accumulator accumulatorIndex =
     mozAssert (digitLength accumulator > digitLength multiplicand + accumulatorIndex) (
     if multiplier = 0 then returnM accumulator
     else
       bindM (forUp 0 (digitLength multiplicand)
                (multiplyAccumulateStep multiplicand multiplier accumulatorIndex)
                (accumulator, 0, 0)) (\<lambda>(accumulator, carry, high).
       accumulateCarry accumulator (accumulatorIndex + digitLength multiplicand) carry high))"

text \<open>
  \<open>SafeMul\<close> on \<open>uint64_t\<close>: the product when it does not overflow, with the compiler's
  \<open>__builtin_mul_overflow\<close>, and the portable version for compilers without it.
\<close>

definition SafeMul :: "u64 \<Rightarrow> u64 \<Rightarrow> u64 option" where
  "SafeMul a b = (if unat a * unat b < 2 ^ 64 then Some (a * b) else None)"

definition SafeMul_portable :: "u64 \<Rightarrow> u64 \<Rightarrow> u64 option" where
  "SafeMul_portable a b =
     (let zeroes = DigitLeadingZeroes a + DigitLeadingZeroes b in
      if zeroes \<le> 62 then None
      else let half = a * shr b 1 in
        if half <s 0 then None
        else let res = half * 2 in
          if b AND 1 \<noteq> 0 then
            let res = res + a in if res < a then None else Some res
          else Some res)"

definition mul :: "bigint \<Rightarrow> bigint \<Rightarrow> bigint eng" where
  "mul x y =
     (if isZero x then returnM x
      else if isZero y then returnM y
      else
        let resultNegative = (isNegative x \<noteq> isNegative y) in
        bindM (if absFitsInUint64 x \<and> absFitsInUint64 y then
                 bindM (uint64FromAbsNonZero x) (\<lambda>lhs.
                 bindM (uint64FromAbsNonZero y) (\<lambda>rhs.
                 returnM (SafeMul lhs rhs)))
               else returnM None) (\<lambda>fast.
        case fast of
          Some res \<Rightarrow> mozAssert (res \<noteq> 0) (createFromNonZeroRawUint64 res resultNegative)
        | None \<Rightarrow>
          bindM (createUninitialized (digitLength x + digitLength y) resultNegative) (\<lambda>result.
          bindM (forUp 0 (digitLength x) (\<lambda>i result.
                   bindM (digit x i) (\<lambda>d. multiplyAccumulate y d result i))
                 (initializeDigitsToZero result)) (\<lambda>result.
          destructivelyTrimHighZeroDigits result))))"

section \<open>Exponentiation\<close>

definition IsPowerOfTwo :: "u64 \<Rightarrow> bool" where
  "IsPowerOfTwo x \<longleftrightarrow> x \<noteq> 0 \<and> x AND (x - 1) = 0"

definition FloorLog2 :: "u64 \<Rightarrow> nat" where
  "FloorLog2 aValue = 63 - DigitLeadingZeroes (aValue OR 1)"

text \<open>
  The \<open>uint64_t\<close> loop of \<open>pow\<close>.  \<open>Inl\<close> is the early return with \<open>resultInt\<close>; \<open>Inr\<close> is the
  \<open>break\<close> with the values of \<open>runningSquareInt\<close>, \<open>resultInt\<close> and \<open>n\<close> then.
\<close>

function powFast :: "u64 \<Rightarrow> u64 \<Rightarrow> nat \<Rightarrow> u64 + (u64 \<times> u64 \<times> nat)" where
  "powFast runningSquareInt resultInt n =
     (case SafeMul runningSquareInt runningSquareInt of
        None \<Rightarrow> Inr (runningSquareInt, resultInt, n)
      | Some r \<Rightarrow>
        (case (if odd n then SafeMul resultInt r else Some resultInt) of
           None \<Rightarrow> Inr (runningSquareInt, resultInt, n)
         | Some resultInt \<Rightarrow>
           if n div 2 = 0 then Inl resultInt else powFast r resultInt (n div 2)))"
  by pat_completeness auto
termination
  by (relation "measure (\<lambda>(s, r, n). n)") auto

declare powFast.simps [simp del]

text \<open>The loop on BigInts; \<open>None\<close> is a result that is still \<open>nullptr\<close>.\<close>

function powLoop :: "(bigint \<Rightarrow> bigint \<Rightarrow> bigint eng) \<Rightarrow> bigint \<Rightarrow> bigint option \<Rightarrow> nat \<Rightarrow> bigint eng" where
  "powLoop mult runningSquare result n =
     bindM (mult runningSquare runningSquare) (\<lambda>runningSquare.
     bindM (if odd n then
              (case result of
                 None \<Rightarrow> returnM (Some runningSquare)
               | Some r \<Rightarrow> bindM (mult r runningSquare) (\<lambda>r. returnM (Some r)))
            else returnM result) (\<lambda>result.
     if n div 2 = 0
     then (case result of None \<Rightarrow> throwM AssertFail | Some r \<Rightarrow> returnM r)
     else powLoop mult runningSquare result (n div 2)))"
  by pat_completeness auto
termination
  by (relation "measure (\<lambda>(m, s, r, n). n)") auto

declare powLoop.simps [simp del]

text \<open>
  \<open>n\<close> is an \<open>int\<close> below \<open>MaxBitLength\<close> (\<open>2 ^ 20\<close>), and below \<open>2 ^ 26\<close> after
  \<open>n *= int(m)\<close>, so a natural number represents it.
\<close>

definition pow :: "bigint \<Rightarrow> bigint \<Rightarrow> bigint eng" where
  "pow x y =
     (if isNegative y then throwM BigIntNegativeExponent
      else if isZero y then one
      else if isZero x then returnM x
      else
        bindM (digit x 0) (\<lambda>x0.
        bindM (digit y 0) (\<lambda>exponent.
        if digitLength x = 1 \<and> x0 = 1 then
          (if isNegative x \<and> exponent AND 1 = 0 then neg x else returnM x)
        else if digitLength y > 1 then throwM BigIntTooLarge
        else if exponent = 1 then returnM x
        else if exponent \<ge> of_nat MaxBitLength then throwM BigIntTooLarge
        else
          let n = unat exponent;
              isOddPower = odd n
          in
          if digitLength x = 1 \<and> IsPowerOfTwo x0 then
            let resultNegative = (isNegative x \<and> isOddPower);
                m = FloorLog2 x0
            in mozAssert (m < DigitBits) (
            let n = n * m;
                len = 1 + n div DigitBits
            in bindM (createUninitialized len resultNegative) (\<lambda>result.
            setDigit (initializeDigitsToZero result) (len - 1) (shl 1 (n mod DigitBits))))
          else
            let runningSquare = x;
                result = (if isOddPower then Some x else None);
                n = n div 2
            in
            if absFitsInUint64 x then
              let resultNegative = (isNegative x \<and> isOddPower) in
              bindM (uint64FromAbsNonZero x) (\<lambda>runningSquareInt.
              case powFast runningSquareInt (if isOddPower then runningSquareInt else 1) n of
                Inl resultInt \<Rightarrow> createFromNonZeroRawUint64 resultInt resultNegative
              | Inr (runningSquareInt, resultInt, n) \<Rightarrow>
                  bindM (createFromNonZeroRawUint64 runningSquareInt False) (\<lambda>runningSquare.
                  bindM (createFromNonZeroRawUint64 resultInt resultNegative) (\<lambda>result.
                  powLoop mul runningSquare (Some result) n)))
            else powLoop mul runningSquare result n)))"
section \<open>Multiplying by a digit\<close>

lemma dval_update: "i < length xs \<Longrightarrow> dval (xs[i := d]) + Base ^ i * unat (xs ! i) = dval xs + Base ^ i * unat d"
proof (induction xs arbitrary: i)
  case Nil
  then show ?case by simp
next
  case (Cons x xs)
  then show ?case
  proof (cases i)
    case (Suc j)
    have "Base * (dval (xs[j := d]) + Base ^ j * unat (xs ! j)) = Base * (dval xs + Base ^ j * unat d)"
      using Cons Suc by simp
    then show ?thesis using Suc by (simp add: algebra_simps)
  qed simp
qed

text \<open>Three additions into one digit, counting the carries.\<close>

lemma digitAdd3:
  assumes "digitAdd a b 0 = (s1, c1)" and "digitAdd s1 c c1 = (s2, c2)" and "digitAdd s2 d c2 = (s3, c3)"
  shows "unat s3 + Base * unat c3 = unat a + unat b + unat c + unat d"
proof -
  have c1: "unat c1 \<le> 1" using digitAdd_carry [OF assms(1)] Base_gt_3 by simp
  then have "unat c1 < Base - 1" using Base_gt_3 by linarith
  then have c2: "unat c2 \<le> 2" using digitAdd_carry [OF assms(2)] c1 by linarith
  have "unat c1 < Base - 1" "unat c2 < Base - 1" using c1 c2 Base_gt_3 by linarith+
  then show ?thesis
    using digitAdd_spec [OF assms(1)] digitAdd_spec [OF assms(2)] digitAdd_spec [OF assms(3)] Base_gt_3
    by simp
qed

lemma digitAdd2:
  assumes "digitAdd a b 0 = (s1, c1)" and "digitAdd s1 c c1 = (s2, c2)"
  shows "unat s2 + Base * unat c2 = unat a + unat b + unat c"
proof -
  have c1: "unat c1 \<le> 1" using digitAdd_carry [OF assms(1)] Base_gt_3 by simp
  then have "unat c1 < Base - 1" using Base_gt_3 by linarith
  then show ?thesis
    using digitAdd_spec [OF assms(1)] digitAdd_spec [OF assms(2)] Base_gt_3 by simp
qed

text \<open>The source digits still to be read are the original ones, also when source and result are one.\<close>

definition sourceDigits :: "bigint option \<Rightarrow> bigint \<Rightarrow> digit list" where
  "sourceDigits source result = digits (case source of None \<Rightarrow> result | Some s \<Rightarrow> s)"

lemma runs_multiplyAddStep:
  assumes len: "i < length S" "i < digitLength r"
    and src: "case source of None \<Rightarrow> digits r ! i = S ! i | Some s \<Rightarrow> digits s = S"
    and inv: "dval (take i (digits r)) + Base ^ i * (unat c + unat h) = unat f * dval (take i S) + t"
    and Q: "\<And>d c' h'. dval (take (Suc i) ((digits r)[i := d])) + Base ^ Suc i * (unat c' + unat h')
        = unat f * dval (take (Suc i) S) + t \<Longrightarrow> Q (r\<lparr>digits := (digits r)[i := d]\<rparr>, c', h')"
  shows "runs (multiplyAddStep source f i (r, c, h)) v E Q"
proof -
  obtain low h' where m: "digitMul (S ! i) f = (low, h')" by fastforce
  obtain s1 c1 where a1: "digitAdd low h 0 = (s1, c1)" by fastforce
  obtain s2 c2 where a2: "digitAdd s1 c c1 = (s2, c2)" by fastforce
  have "unat s2 + Base * (unat c2 + unat h') = unat (S ! i) * unat f + unat h + unat c"
    using digitAdd2 [OF a1 a2] digitMul_spec [OF m] by (simp add: algebra_simps)
  from carry_step [OF len(2) this]
  have "dval (take (Suc i) ((digits r)[i := s2])) + Base ^ Suc i * (unat c2 + unat h')
      = unat f * dval (take (Suc i) S) + t"
    using inv len by (simp add: dval_take_Suc algebra_simps)
  from Q [OF this] have "Q (r\<lparr>digits := (digits r)[i := s2]\<rparr>, c2, h')" .
  then show ?thesis
    using src len by (auto simp: multiplyAddStep_def m a1 a2 split: option.splits)
qed

lemma runs_multiplyAddLoop:
  assumes len: "n \<le> length S" "n \<le> digitLength r" and src: "sourceDigits source r = S"
    and Q: "\<And>r' c h. digitLength r' = digitLength r \<Longrightarrow> isNegative r' = isNegative r \<Longrightarrow>
      dval (take n (digits r')) + Base ^ n * (unat c + unat h) = unat f * dval (take n S) + unat t \<Longrightarrow> Q (r', c, h)"
  shows "runs (forUp 0 n (multiplyAddStep source f) (r, t, 0)) v E Q"
proof (rule runs_forUpI [where I = "\<lambda>i (r', c, h). digitLength r' = digitLength r \<and> isNegative r' = isNegative r \<and>
      (source = None \<longrightarrow> drop i (digits r') = drop i S) \<and>
      dval (take i (digits r')) + Base ^ i * (unat c + unat h) = unat f * dval (take i S) + unat t"], goal_cases)
  case (3 i st)
  obtain r' c h where st: "st = (r', c, h)" by (cases st)
  have "case source of None \<Rightarrow> digits r' ! i = S ! i | Some s \<Rightarrow> digits s = S"
  proof (cases source)
    case None
    then have "drop i (digits r') = drop i S" using 3 st by simp
    also have "drop i S = S ! i # drop (Suc i) S" using 3 len by (simp add: Cons_nth_drop_Suc)
    finally have "digits r' ! i = S ! i" by (rule nth_via_drop)
    then show ?thesis using None by simp
  qed (use src in \<open>simp add: sourceDigits_def\<close>)
  moreover have "drop (Suc i) (digits r') = drop (Suc i) S" if "drop i (digits r') = drop i S"
    using that by (metis drop_drop plus_1_eq_Suc)
  ultimately show ?case
    using 3 st len by (auto simp del: power_Suc intro!: runs_multiplyAddStep [where S = S])
next
  case (4 st)
  then show ?case by (cases st) (simp add: Q)
qed (use src in \<open>auto simp: sourceDigits_def split: option.splits\<close>)

lemma runs_clearFrom:
  assumes "n \<le> digitLength r"
    and "\<And>r'. digitLength r' = digitLength r \<Longrightarrow> isNegative r' = isNegative r \<Longrightarrow>
      dval (digits r') = dval (take n (digits r)) \<Longrightarrow> Q r'"
  shows "runs (forUp n (digitLength r) (\<lambda>i r. setDigit r i 0) r) v E Q"
proof (rule runs_forUpI [where I = "\<lambda>i r'. digitLength r' = digitLength r \<and> isNegative r' = isNegative r \<and>
      dval (take i (digits r')) = dval (take n (digits r))"], goal_cases)
  case (3 i r')
  then show ?case using assms(1) by (simp add: dval_take_Suc_update)
next
  case (4 r')
  then have t: "take (digitLength r) (digits r') = digits r'" by (metis order_refl take_all)
  from 4 have "dval (digits r') = dval (take n (digits r))" unfolding t by simp
  then show ?case using 4 assms(2) by blast
qed (use assms in auto)

text \<open>The result of \<open>internalMultiplyAdd\<close> is exact when it fits in the result's digits.\<close>

lemma multiplyAdd_bound: "unat (f :: digit) * dval S + unat (t :: digit) < Base ^ Suc (length S)"
proof -
  obtain k where "Base ^ length S = dval S + 1 + k" using dval_less [of S] less_iff_Suc_add by fastforce
  moreover have "unat f * dval S \<le> (Base - 1) * dval S" "unat t \<le> Base - 1"
    using unat_less_Base [of f] unat_less_Base [of t] by (auto intro!: mult_right_mono)
  moreover have "(Base - 1) * dval S + (Base - 1) = (Base - 1) * (dval S + 1)" by simp
  moreover have "(Base - 1) * (dval S + 1) < Base * (dval S + 1)"
    using Base_pos by (intro mult_strict_right_mono) linarith+
  moreover have "Base * (dval S + 1) \<le> Base * Base ^ length S" using dval_less [of S] by (intro mult_left_mono) auto
  ultimately show ?thesis unfolding power_Suc by linarith
qed

lemma unat_carry_high:
  assumes "unat c + unat h < Base"
  shows "unat (c + h :: digit) = unat c + unat h"
  using assms by (simp add: unat_plus_digit)

lemma runs_internalMultiplyAdd:
  assumes len: "n \<le> length S" "n \<le> digitLength r" and src: "sourceDigits source r = S"
    and fits: "unat f * dval (take n S) + unat t < Base ^ digitLength r"
    and Q: "\<And>r'. digitLength r' = digitLength r \<Longrightarrow> isNegative r' = isNegative r \<Longrightarrow>
      dval (digits r') = unat f * dval (take n S) + unat t \<Longrightarrow> Q r'"
  shows "runs (internalMultiplyAdd source f t n r) v E Q"
proof -
  have src_len: "digitLength (case source of None \<Rightarrow> r | Some s \<Rightarrow> s) \<ge> n"
    using src len(1) by (simp add: sourceDigits_def)
  show ?thesis
    unfolding internalMultiplyAdd_def mozAssert_holds [OF src_len] mozAssert_holds [OF len(2)]
  proof (intro runs_bindI runs_multiplyAddLoop [OF len src], goal_cases)
    case (1 r' c h)
    let ?T = "unat f * dval (take n S) + unat t"
    have "?T < Base ^ n * Base"
      using multiplyAdd_bound [of f "take n S" t] len(1) by (simp add: mult.commute)
    then have "Base ^ n * (unat c + unat h) < Base ^ n * Base" using 1(3) by linarith
    then have ch: "unat (c + h) = unat c + unat h" by (intro unat_carry_high) simp
    show ?case
    proof (cases "digitLength r' > n")
      case True
      let ?r = "r'\<lparr>digits := (digits r')[n := c + h]\<rparr>"
      have "dval (take (Suc n) ((digits r')[n := c + h])) = ?T"
        using True 1(3) by (simp add: dval_take_Suc_update ch)
      then have "runs (forUp (Suc n) (digitLength ?r) (\<lambda>i r. setDigit r i 0) ?r) v E Q"
        using True 1(1,2) Q by (intro runs_clearFrom) auto
      then show ?thesis using True by simp
    next
      case False
      then have n: "n = digitLength r'" using len(2) 1(1) by simp
      then have "Base ^ digitLength r = Base ^ n" using 1(1) by simp
      then have "Base ^ n * (unat c + unat h) < Base ^ n" using 1(3) fits by linarith
      then have "unat c + unat h = 0" by simp
      then have "c + h = 0" using ch by (simp add: unat_eq_zero)
      then show ?thesis using n 1 Q \<open>unat c + unat h = 0\<close> by simp
    qed
  qed
qed

section \<open>Multiplication\<close>

lemma runs_accumulateCarry:
  assumes "i \<le> digitLength acc" and "dval (digits acc) + Base ^ i * (unat c + unat h) < Base ^ digitLength acc"
    and "\<And>r. digitLength r = digitLength acc \<Longrightarrow> isNegative r = isNegative acc \<Longrightarrow>
      dval (digits r) = dval (digits acc) + Base ^ i * (unat c + unat h) \<Longrightarrow> Q r"
  shows "runs (accumulateCarry acc i c h) v E Q"
  using assms
proof (induction acc i c h rule: accumulateCarry.induct)
  case (1 acc i c h)
  show ?case
  proof (cases "c = 0 \<and> h = 0")
    case True
    then show ?thesis using "1.prems"(3) [of acc] by (subst accumulateCarry.simps) simp
  next
    case False
    have i: "i < digitLength acc"
    proof (rule ccontr)
      assume "\<not> i < digitLength acc"
      then have "digitLength acc = i" using "1.prems"(1) by simp
      then have "Base ^ i * (unat c + unat h) < Base ^ i" using "1.prems"(2) by (metis add_lessD1 add.commute)
      then have "unat c + unat h = 0" by simp
      then show False using False by (simp add: unat_eq_zero)
    qed
    obtain s1 c1 where a1: "digitAdd (digits acc ! i) h 0 = (s1, c1)" by fastforce
    obtain s2 c2 where a2: "digitAdd s1 c c1 = (s2, c2)" by fastforce
    let ?acc = "acc\<lparr>digits := (digits acc)[i := s2]\<rparr>"
    have "Base ^ i * (unat s2 + Base * unat c2) = Base ^ i * (unat (digits acc ! i) + unat h + unat c)"
      using digitAdd2 [OF a1 a2] by simp
    then have val: "dval (digits ?acc) + Base ^ Suc i * (unat c2 + unat (0 :: digit))
        = dval (digits acc) + Base ^ i * (unat c + unat h)"
      using dval_update [OF i, of s2] by (simp add: algebra_simps)
    have "runs (accumulateCarry ?acc (Suc i) c2 0) v E Q"
    proof (rule "1.IH" [OF _ i refl a1 [symmetric] _ a2 [symmetric]])
      show "dval (digits ?acc) + Base ^ Suc i * (unat c2 + unat (0 :: digit)) < Base ^ digitLength ?acc"
        using "1.prems"(2) val by simp
      show "Q r" if "digitLength r = digitLength ?acc" "isNegative r = isNegative ?acc"
        "dval (digits r) = dval (digits ?acc) + Base ^ Suc i * (unat c2 + unat (0 :: digit))" for r
        using that val by (intro "1.prems"(3)) simp_all
    qed (use False i in auto)
    then show ?thesis
      using False i by (subst accumulateCarry.simps) (auto simp: a1 a2)
  qed
qed

lemma runs_multiplyAccumulateLoop:
  assumes len: "a + digitLength M < digitLength acc"
    and Q: "\<And>r c h. digitLength r = digitLength acc \<Longrightarrow> isNegative r = isNegative acc \<Longrightarrow>
      dval (digits r) + Base ^ (a + digitLength M) * (unat c + unat h)
        = dval (digits acc) + Base ^ a * (unat m * dval (digits M)) \<Longrightarrow> Q (r, c, h)"
  shows "runs (forUp 0 (digitLength M) (multiplyAccumulateStep M m a) (acc, 0, 0)) v E Q"
proof (rule runs_forUpI [where I = "\<lambda>i (r, c, h). digitLength r = digitLength acc \<and> isNegative r = isNegative acc \<and>
      dval (digits r) + Base ^ (a + i) * (unat c + unat h)
        = dval (digits acc) + Base ^ a * (unat m * dval (take i (digits M)))"], goal_cases)
  case (3 i st)
  obtain r c h where st: "st = (r, c, h)" by (cases st)
  have i: "a + i < digitLength r" "i < digitLength M" using 3 st len by auto
  obtain s1 c1 where a1: "digitAdd (digits r ! (a + i)) h 0 = (s1, c1)" by fastforce
  obtain s2 c2 where a2: "digitAdd s1 c c1 = (s2, c2)" by fastforce
  obtain low high where m: "digitMul m (digits M ! i) = (low, high)" by fastforce
  obtain s3 c3 where a3: "digitAdd s2 low c2 = (s3, c3)" by fastforce
  have "Base ^ (a + i) * (unat s3 + Base * (unat c3 + unat high))
      = Base ^ (a + i) * (unat (digits r ! (a + i)) + unat h + unat c + unat m * unat (digits M ! i))"
    using digitAdd3 [OF a1 a2 a3] digitMul_spec [OF m]
    by (intro arg_cong [where f = "(*) (Base ^ (a + i))"]) (simp add: algebra_simps)
  then have "dval ((digits r)[a + i := s3]) + Base ^ (a + Suc i) * (unat c3 + unat high)
      = dval (digits acc) + Base ^ a * (unat m * dval (take (Suc i) (digits M)))"
    using dval_update [OF i(1), of s3] 3 st i by (simp add: dval_take_Suc power_add algebra_simps)
  then show ?case
    using 3 st i by (simp add: multiplyAccumulateStep_def a1 a2 a3 m del: add_Suc_right power_Suc)
next
  case (4 st)
  then show ?case by (cases st) (simp add: Q)
qed auto

lemma runs_multiplyAccumulate:
  assumes len: "digitLength M + a < digitLength acc"
    and fits: "dval (digits acc) + Base ^ a * (unat m * dval (digits M)) < Base ^ digitLength acc"
    and Q: "\<And>r. digitLength r = digitLength acc \<Longrightarrow> isNegative r = isNegative acc \<Longrightarrow>
      dval (digits r) = dval (digits acc) + Base ^ a * (unat m * dval (digits M)) \<Longrightarrow> Q r"
  shows "runs (multiplyAccumulate M m acc a) v E Q"
proof (cases "m = 0")
  case True
  then show ?thesis using len Q [of acc] by (simp add: multiplyAccumulate_def)
next
  case False
  show ?thesis
    unfolding multiplyAccumulate_def mozAssert_holds [OF len] if_not_P [OF False]
  proof (intro runs_bindI runs_multiplyAccumulateLoop, goal_cases)
    case (2 r c h)
    show ?case
      unfolding prod.case
      by (rule runs_accumulateCarry) (use 2 len fits Q in auto)
  qed (use len in simp)
qed

lemma SafeMul_Some: "SafeMul a b = Some r \<Longrightarrow> unat r = unat a * unat b"
  by (auto simp: SafeMul_def unat_times_digit Base_def split: if_splits)

lemma SafeMul_None: "SafeMul a b = None \<Longrightarrow> Base \<le> unat a * unat b"
  by (auto simp: SafeMul_def Base_def split: if_splits)

lemma isNegative_initialize [simp]: "isNegative (initializeDigitsToZero x) = isNegative x"
  and digitLength_initialize [simp]: "digitLength (initializeDigitsToZero x) = digitLength x"
  and dval_initialize [simp]: "dval (digits (initializeDigitsToZero x)) = 0"
  by (simp_all add: initializeDigitsToZero_def)

lemma dval_mult_less: "dval xs * dval ys < Base ^ (length xs + length ys)"
  unfolding power_add by (rule mult_strict_mono) (use dval_less in \<open>auto intro: le_less_trans\<close>)

text \<open>The schoolbook loop: after \<open>i\<close> rounds the accumulator holds the low \<open>i\<close> digits of \<open>x\<close> times \<open>y\<close>.\<close>

lemma runs_mulLoop:
  assumes len: "digitLength acc = digitLength x + digitLength y" and zero: "dval (digits acc) = 0"
    and Q: "\<And>r. digitLength r = digitLength acc \<Longrightarrow> isNegative r = isNegative acc \<Longrightarrow>
      dval (digits r) = dval (digits x) * dval (digits y) \<Longrightarrow> Q r"
  shows "runs (forUp 0 (digitLength x) (\<lambda>i r. bindM (digit x i) (\<lambda>d. multiplyAccumulate y d r i)) acc) v E Q"
proof (rule runs_forUpI [where I = "\<lambda>i r. digitLength r = digitLength acc \<and> isNegative r = isNegative acc \<and>
      dval (digits r) = dval (take i (digits x)) * dval (digits y)"], goal_cases)
  case (3 i r)
  have val: "dval (digits r) + Base ^ i * (unat (digits x ! i) * dval (digits y))
      = dval (take (Suc i) (digits x)) * dval (digits y)"
    using 3 by (simp add: dval_take_Suc algebra_simps)
  have "dval (take (Suc i) (digits x)) * dval (digits y) < Base ^ (length (take (Suc i) (digits x)) + digitLength y)"
    by (rule dval_mult_less)
  also have "\<dots> \<le> Base ^ digitLength r"
    using 3 len by (intro power_increasing) auto
  finally have "runs (multiplyAccumulate y (digits x ! i) r i) v E
      (\<lambda>r. digitLength r = digitLength acc \<and> isNegative r = isNegative acc \<and>
        dval (digits r) = dval (take (Suc i) (digits x)) * dval (digits y))"
    using 3 len val by (intro runs_multiplyAccumulate) auto
  then show ?case using 3 by simp
qed (use len zero Q in auto)

text \<open>
  The product of two nonzero magnitudes is too large when their digits together exceed the
  maximal number of digits.
\<close>

definition mul_error :: "env \<Rightarrow> bigint \<Rightarrow> bigint \<Rightarrow> err \<Rightarrow> bool" where
  "mul_error v x y e \<longleftrightarrow> oom v e \<or>
     e = BigIntTooLarge \<and> \<not> isZero x \<and> \<not> isZero y \<and> digitLength x + digitLength y > MaxDigitLength"

lemma runs_mul_long:
  assumes wf: "wf x" "wf y" and nz: "\<not> isZero x" "\<not> isZero y"
    and E: "\<And>e. mul_error v x y e \<Longrightarrow> E e"
    and Q: "\<And>r. wf r \<Longrightarrow> bval r = withSign s (dval (digits x) * dval (digits y)) \<Longrightarrow> Q r"
  shows "runs (bindM (createUninitialized (digitLength x + digitLength y) s) (\<lambda>result.
      bindM (forUp 0 (digitLength x) (\<lambda>i result. bindM (digit x i) (\<lambda>d. multiplyAccumulate y d result i))
        (initializeDigitsToZero result)) (\<lambda>result.
      destructivelyTrimHighZeroDigits result))) v E Q"
proof (intro runs_bindI runs_createUninitialized, goal_cases)
  case (3 ds)
  show ?case
    by (rule runs_mulLoop)
      (use 3 nz E Q in \<open>auto simp: mul_error_def isZero_def bval_def intro!: runs_trim\<close>)
qed (use E nz in \<open>auto simp: mul_error_def\<close>)

lemma bval_mult: "withSign (isNegative x \<noteq> isNegative y) (dval (digits x) * dval (digits y)) = bval x * bval y"
  by (simp add: bval_def)

lemma runs_mul:
  assumes wf: "wf x" "wf y" and E: "\<And>e. mul_error v x y e \<Longrightarrow> E e"
    and Q: "\<And>r. wf r \<Longrightarrow> bval r = bval x * bval y \<Longrightarrow> Q r"
  shows "runs (mul x y) v E Q"
proof (cases "isZero x \<or> isZero y")
  case True
  then show ?thesis
    using wf Q [of x] Q [of y] wf_bval_0 [OF wf(1)] wf_bval_0 [OF wf(2)] by (auto simp: mul_def)
next
  case False
  let ?s = "isNegative x \<noteq> isNegative y"
  have nz: "\<not> isZero x" "\<not> isZero y" using False by auto
  have long: "runs (bindM (createUninitialized (digitLength x + digitLength y) ?s) (\<lambda>result.
      bindM (forUp 0 (digitLength x) (\<lambda>i result. bindM (digit x i) (\<lambda>d. multiplyAccumulate y d result i))
        (initializeDigitsToZero result)) (\<lambda>result.
      destructivelyTrimHighZeroDigits result))) v E Q"
    by (rule runs_mul_long [OF wf nz]) (use E Q bval_mult [of x y] in simp_all)
  show ?thesis
  proof (cases "absFitsInUint64 x \<and> absFitsInUint64 y")
    case True
    obtain a where a: "digits x = [a]" "a \<noteq> 0" using wf_fits wf(1) nz True by blast
    obtain b where b: "digits y = [b]" "b \<noteq> 0" using wf_fits wf(2) nz True by blast
    have fast: "runs (createFromNonZeroRawUint64 r ?s) v E Q \<and> r \<noteq> 0" if "SafeMul a b = Some r" for r
    proof -
      have r: "unat r = unat a * unat b" using SafeMul_Some [OF that] .
      then have "r \<noteq> 0" using a b by (auto simp: unat_eq_zero [symmetric])
      moreover have "Q \<lparr>digits = [r], isNegative = ?s\<rparr>"
        using calculation r a b bval_mult [of x y] by (intro Q) (auto simp: bval_def)
      ultimately show ?thesis using E by (auto simp: mul_error_def intro!: runs_createFromNonZeroRawUint64)
    qed
    show ?thesis
      using True nz a b fast long
      by (auto simp: mul_def uint64FromAbsNonZero_def Let_def split: option.splits)
  next
    case False
    then show ?thesis using nz long by (auto simp: mul_def Let_def)
  qed
qed

section \<open>Exponentiation\<close>

text \<open>\<open>FloorLog2\<close> of a nonzero digit is the index of its top bit.\<close>

lemma unat_or_1: "unat (x OR 1 :: digit) = (if even (unat x) then unat x + 1 else unat x)"
proof -
  have "unat (x OR 1) = unat x OR 1" by (simp only: unsigned_or_eq unsigned_1)
  also have "\<dots> = unat x + of_bool (even (unat x))" by (rule or_one_eq)
  finally show ?thesis by (auto split: if_splits)
qed

lemma FloorLog2_bounds:
  assumes "x \<noteq> 0"
  shows "2 ^ FloorLog2 x \<le> unat x" and "unat x < 2 ^ Suc (FloorLog2 x)" and "FloorLog2 x < 64"
proof -
  have nz: "x OR 1 \<noteq> 0" using unat_or_1 [of x] by (auto split: if_splits)
  let ?m = "FloorLog2 x"
  have "Suc ?m = 64 - DigitLeadingZeroes (x OR 1)"
    using DigitLeadingZeroes_bounds(1) [OF nz] by (simp add: FloorLog2_def)
  then have lo: "2 ^ ?m \<le> unat (x OR 1)" and hi: "unat (x OR 1) < 2 ^ Suc ?m"
    using DigitLeadingZeroes_bounds(2,3) [OF nz] by (simp_all add: FloorLog2_def)
  show "unat x < 2 ^ Suc ?m" using hi unat_or_1 [of x] by (auto split: if_splits)
  show "2 ^ ?m \<le> unat x"
  proof (cases "even (unat x)")
    case True
    have "unat x + 1 \<noteq> 2 ^ ?m"
    proof
      assume eq: "unat x + 1 = 2 ^ ?m"
      then have "odd (2 ^ ?m :: nat)" using True by (metis even_plus_one_iff)
      then have "?m = 0" by simp
      with eq assms show False by (simp add: unat_eq_zero)
    qed
    then show ?thesis using lo True unat_or_1 [of x] by simp
  qed (use lo unat_or_1 [of x] in simp)
  show "?m < 64" by (simp add: FloorLog2_def)
qed

lemma bit_top:
  assumes "2 ^ m \<le> unat (x :: digit)" and "unat x < 2 ^ Suc m" and "m < 64"
  shows "bit x m"
proof -
  have "bit x m \<longleftrightarrow> odd (unat x div 2 ^ m)" using assms(3) by (rule bit_digit_iff)
  moreover have "unat x div 2 ^ m = 1" using assms(1,2) by (simp add: div_nat_eqI)
  ultimately show ?thesis by simp
qed

lemma IsPowerOfTwo_FloorLog2:
  assumes "IsPowerOfTwo x"
  shows "unat x = 2 ^ FloorLog2 x"
proof (rule ccontr)
  assume neq: "unat x \<noteq> 2 ^ FloorLog2 x"
  let ?m = "FloorLog2 x"
  have nz: "x \<noteq> 0" and land: "x AND (x - 1) = 0" using assms by (simp_all add: IsPowerOfTwo_def)
  note b = FloorLog2_bounds [OF nz]
  have "unat (x - 1) = unat x - 1" using nz by (simp add: unat_minus_one)
  then have "2 ^ ?m \<le> unat (x - 1)" "unat (x - 1) < 2 ^ Suc ?m" using b neq by linarith+
  then have "bit (x - 1) ?m" using b(3) by (rule bit_top)
  moreover have "bit x ?m" using b by (rule bit_top)
  ultimately have "bit (x AND (x - 1)) ?m" by (simp add: bit_and_iff)
  then show False by (simp add: land)
qed

lemma powFast_spec:
  assumes "S \<noteq> 0" and "R \<noteq> 0" and "0 < n"
  shows "case powFast S R n of
      Inl r \<Rightarrow> r \<noteq> 0 \<and> unat r = unat R * unat S ^ (2 * n)
    | Inr (S', R', n') \<Rightarrow> S' \<noteq> 0 \<and> R' \<noteq> 0 \<and> 0 < n' \<and> unat R' * unat S' ^ (2 * n') = unat R * unat S ^ (2 * n)"
  using assms
proof (induction S R n rule: powFast.induct)
  case (1 S R n)
  show ?case
  proof (cases "SafeMul S S")
    case None
    then show ?thesis using 1 by (subst powFast.simps) simp
  next
    case (Some r)
    have r: "unat r = unat S ^ 2" using SafeMul_Some [OF Some] by (simp add: power2_eq_square)
    then have rnz: "r \<noteq> 0" using "1.prems"(1) by (auto simp: unat_eq_zero [symmetric])
    show ?thesis
    proof (cases "if odd n then SafeMul R r else Some R")
      case None
      then show ?thesis using 1 Some by (subst powFast.simps) simp
    next
      case S2: (Some R')
      have R': "unat R' = unat R * unat S ^ (2 * (n mod 2))"
        using S2 r by (cases "odd n") (auto dest: SafeMul_Some simp: odd_iff_mod_2_eq_one)
      then have R'nz: "R' \<noteq> 0" using "1.prems" by (auto simp: unat_eq_zero [symmetric])
      have eq: "unat R' * unat r ^ (2 * (n div 2)) = unat R * unat S ^ (2 * n)"
      proof -
        have "2 * n = 2 * (n mod 2) + 2 * (2 * (n div 2))" by presburger
        then have "unat S ^ (2 * n) = unat S ^ (2 * (n mod 2)) * (unat S ^ 2) ^ (2 * (n div 2))"
          by (metis power_add power_mult)
        then show ?thesis using r R' by simp
      qed
      show ?thesis
      proof (cases "n div 2 = 0")
        case True
        then have "2 * (n mod 2) = 2 * n" by presburger
        then show ?thesis using True Some S2 R' R'nz by (subst powFast.simps) simp
      next
        case False
        then have "0 < n div 2" by simp
        note IH = "1.IH" [OF Some S2 False rnz R'nz this, unfolded eq]
        show ?thesis
          using IH unfolding powFast.simps [of S R n] Some S2 option.case if_not_P [OF False] .
      qed
    qed
  qed
qed

text \<open>
  What the square-and-multiply loop asks of a multiplication: it is exact, and can fail only
  by running out of memory or when the product reaches a limit.
\<close>

definition limit_error :: "nat \<Rightarrow> env \<Rightarrow> int \<Rightarrow> err \<Rightarrow> bool" where
  "limit_error limit v z e \<longleftrightarrow> oom v e \<or> e = BigIntTooLarge \<and> int limit \<le> \<bar>z\<bar>"

locale multiplier =
  fixes mult :: "bigint \<Rightarrow> bigint \<Rightarrow> bigint eng" and limit :: nat
  assumes exact: "wf x \<Longrightarrow> wf y \<Longrightarrow> (\<And>e. limit_error limit v (bval x * bval y) e \<Longrightarrow> E e) \<Longrightarrow>
    (\<And>r. wf r \<Longrightarrow> bval r = bval x * bval y \<Longrightarrow> Q r) \<Longrightarrow> runs (mult x y) v E Q"
begin

lemma limit_error_mono: "limit_error limit v a e \<Longrightarrow> \<bar>a\<bar> \<le> \<bar>b\<bar> \<Longrightarrow> limit_error limit v b e"
  by (auto simp: limit_error_def)

lemma abs_le_mult: "(b :: int) \<noteq> 0 \<Longrightarrow> \<bar>a\<bar> \<le> \<bar>a * b\<bar>"
  using mult_left_mono [of 1 "\<bar>b\<bar>" "\<bar>a\<bar>"] by (simp add: abs_mult)

lemma runs_powLoop:
  assumes "wf S" and "bval S \<noteq> 0" and "case R of None \<Rightarrow> N = 1 | Some r \<Rightarrow> wf r \<and> bval r = N \<and> N \<noteq> 0"
    and "0 < n"
    and "\<And>e. limit_error limit v (N * bval S ^ (2 * n)) e \<Longrightarrow> E e"
    and "\<And>r. wf r \<Longrightarrow> bval r = N * bval S ^ (2 * n) \<Longrightarrow> Q r"
  shows "runs (powLoop mult S R n) v E Q"
  using assms
proof (induction n arbitrary: S R N rule: less_induct)
  case (less n)
  have N: "N \<noteq> 0" using less.prems(3) by (cases R) auto
  have total: "N * bval S ^ (2 * n) = (N * (bval S ^ 2) ^ (n mod 2)) * (bval S ^ 2) ^ (2 * (n div 2))"
  proof -
    have "2 * n = 2 * (n mod 2) + 2 * (2 * (n div 2))" by presburger
    then have "bval S ^ (2 * n) = (bval S ^ 2) ^ (n mod 2) * (bval S ^ 2) ^ (2 * (n div 2))"
      by (metis power_add power_mult)
    then show ?thesis by simp
  qed
  have "bval S ^ (2 * n) = bval S ^ 2 * (bval S ^ 2) ^ (n - 1)"
    using less.prems(4) by (cases n) (simp_all add: power_mult power2_eq_square)
  then have sq: "\<bar>bval S * bval S\<bar> \<le> \<bar>N * bval S ^ (2 * n)\<bar>"
    using abs_le_mult [of "N * (bval S ^ 2) ^ (n - 1)" "bval S ^ 2"] N less.prems(2)
    by (simp add: power2_eq_square ac_simps)
  show ?case
  proof (subst powLoop.simps, intro runs_bindI exact, goal_cases)
    case (4 S')
    have S': "wf S'" "bval S' = bval S ^ 2" using 4 by (simp_all add: power2_eq_square)
    have rest: "runs (if n div 2 = 0 then (case R' of None \<Rightarrow> throwM AssertFail | Some r \<Rightarrow> returnM r)
        else powLoop mult S' R' (n div 2)) v E Q"
      if R': "case R' of None \<Rightarrow> N' = 1 \<and> n div 2 \<noteq> 0 | Some r \<Rightarrow> wf r \<and> bval r = N' \<and> N' \<noteq> 0"
        and N': "N' = N * (bval S ^ 2) ^ (n mod 2)" for R' N'
    proof (cases "n div 2 = 0")
      case True
      then obtain r where "R' = Some r" using R' by (cases R') auto
      then show ?thesis using True R' N' total less.prems(6) by simp
    next
      case False
      have eq: "N' * bval S' ^ (2 * (n div 2)) = N * bval S ^ (2 * n)"
        unfolding N' S'(2) by (rule total [symmetric])
      have "runs (powLoop mult S' R' (n div 2)) v E Q"
      proof (rule less.IH [where N = N'], goal_cases)
        case 4
        then show ?case using R' by (cases R') auto
      qed (use False S' less.prems eq in simp_all)
      then show ?thesis using False by simp
    qed
    show ?case
    proof (cases "odd n")
      case True
      then have n: "n mod 2 = 1" by (simp add: odd_iff_mod_2_eq_one)
      show ?thesis
      proof (cases R)
        case None
        then show ?thesis
          using True S' n less.prems rest [of "bval S'" "Some S'"] by simp
      next
        case (Some r)
        have "\<bar>bval r * bval S'\<bar> \<le> \<bar>N * bval S ^ (2 * n)\<bar>"
          using total n Some less.prems(2,3) S' abs_le_mult [of "(bval S ^ 2) ^ (2 * (n div 2))" "N * bval S ^ 2"]
          by simp
        then have mult: "runs (mult r S') v E (\<lambda>r. wf r \<and> bval r = N * bval S ^ 2)"
          using Some S' less.prems(3) by (intro exact less.prems(5)) (auto intro: limit_error_mono)
        have continue: "runs (if n div 2 = 0 then returnM r' else powLoop mult S' (Some r') (n div 2)) v E Q"
          if "wf r' \<and> bval r' = N * bval S ^ 2" for r'
        proof (rule rest [where N' = "N * bval S ^ 2" and R' = "Some r'", unfolded option.case])
          show "wf r' \<and> bval r' = N * bval S ^ 2 \<and> N * bval S ^ 2 \<noteq> 0"
            using that N less.prems(2) by simp
        qed (simp add: n)
        show ?thesis
          unfolding Some option.case if_P [OF True]
        proof (rule runs_bindM [OF mult], goal_cases)
          case (1 r')
          then show ?case using continue [OF 1] by (cases "n div 2 = 0") simp_all
        qed
      qed
    next
      case False
      then have n: "n mod 2 = 0" "n div 2 \<noteq> 0" using less.prems(4) by presburger+
      then show ?thesis using False rest [of N R] less.prems(3) by (auto split: option.splits)
    qed
  next
    case (3 e)
    then show ?case by (rule less.prems(5) [OF limit_error_mono [OF _ sq]])
  qed (use less.prems in simp_all)
qed

end

text \<open>The multiplication of BigInts meets the contract: a product that is too large for its digits is large.\<close>

lemma mul_error_limit:
  assumes "wf x" and "wf y" and "mul_error v x y e"
  shows "limit_error (Base ^ (MaxDigitLength - 1)) v (bval x * bval y) e"
proof (cases "oom v e")
  case False
  then have e: "e = BigIntTooLarge" and nz: "\<not> isZero x" "\<not> isZero y"
    and len: "digitLength x + digitLength y > MaxDigitLength"
    using assms(3) by (auto simp: mul_error_def)
  have "Base ^ (MaxDigitLength - 1) \<le> Base ^ ((digitLength x - 1) + (digitLength y - 1))"
    using len nz by (intro power_increasing) (auto simp: isZero_iff)
  also have "\<dots> \<le> dval (digits x) * dval (digits y)"
    unfolding power_add using assms(1,2) nz
    by (intro mult_le_mono dval_ge_top) (auto simp: isZero_iff wf_def HasLeadingZeroes_def)
  finally have "int (Base ^ (MaxDigitLength - 1)) \<le> int (dval (digits x) * dval (digits y))"
    by (rule zle_int [THEN iffD2])
  then show ?thesis using e by (simp add: limit_error_def abs_mult abs_bval)
qed (simp add: limit_error_def)

interpretation bigint_mul: multiplier mul "Base ^ (MaxDigitLength - 1)"
proof (unfold_locales, goal_cases)
  case (1 x y v E Q)
  show ?case by (rule runs_mul) (use 1 mul_error_limit in blast)+
qed

definition pow_error :: "env \<Rightarrow> bigint \<Rightarrow> bigint \<Rightarrow> err \<Rightarrow> bool" where
  "pow_error v x y e \<longleftrightarrow> oom v e \<or>
     e = BigIntNegativeExponent \<and> bval y < 0 \<or>
     e = BigIntTooLarge \<and> int (Base ^ (MaxDigitLength - 1)) \<le> \<bar>bval x ^ nat (bval y)\<bar>"

lemma MaxBitLength_digits: "MaxBitLength = 64 * MaxDigitLength"
  by (simp add: MaxDigitLength_def MaxBitLength_def DigitBits_def)

lemma MaxBitLength_less_Base: "MaxBitLength < Base"
  by (simp add: MaxBitLength_def Base_def)

lemma unat_MaxBitLength: "unat (of_nat MaxBitLength :: digit) = MaxBitLength"
  by (simp add: MaxBitLength_def)

lemma Base_power: "Base ^ k = 2 ^ (64 * k)"
  unfolding Base_def by (rule power_mult [symmetric])

lemma big_power:
  assumes "2 \<le> b" and "MaxBitLength \<le> n"
  shows "Base ^ (MaxDigitLength - 1) \<le> b ^ n"
proof -
  have "64 * (MaxDigitLength - 1) \<le> n" using assms(2) by (simp add: MaxBitLength_digits)
  then have "(2 :: nat) ^ (64 * (MaxDigitLength - 1)) \<le> 2 ^ n" by (rule power_increasing) simp
  also have "\<dots> \<le> b ^ n" using assms(1) by (intro power_mono) auto
  finally show ?thesis unfolding Base_power .
qed

lemma wf_ge_2:
  assumes "wf x" and "\<not> isZero x" and "\<not> (digitLength x = 1 \<and> digits x ! 0 = 1)"
  shows "2 \<le> dval (digits x)"
proof (cases "digitLength x = 1")
  case True
  then obtain d where d: "digits x = [d]" by (auto simp: length_Suc_conv)
  with assms have "d \<noteq> 0" "d \<noteq> 1" by (auto simp: wf_def HasLeadingZeroes_def)
  then have "unat d \<noteq> unat (0 :: digit)" "unat d \<noteq> unat (1 :: digit)"
    unfolding word_unat_eq_iff by blast+
  then show ?thesis using d by simp
next
  case False
  then have "Base ^ 1 \<le> Base ^ (digitLength x - 1)"
    using assms(2) by (intro power_increasing) (auto simp: isZero_iff simp flip: length_greater_0_conv)
  also have "\<dots> \<le> dval (digits x)"
    using assms by (intro dval_ge_top) (auto simp: isZero_iff wf_def HasLeadingZeroes_def)
  finally show ?thesis using Base_gt_3 by simp
qed

lemma abs_power_bval: "\<bar>bval x ^ n\<bar> = int (dval (digits x) ^ n)"
  by (simp add: power_abs abs_bval)

lemma bval_power: "bval x ^ n = withSign (isNegative x \<and> odd n) (dval (digits x) ^ n)"
  by (simp add: bval_def)

text \<open>The fast path \<open>(2\<^sup>m)\<^sup>n\<close>.\<close>

lemma unat_shl_1: "s < 64 \<Longrightarrow> unat (shl 1 s) = 2 ^ s"
proof -
  assume s: "s < 64"
  then have "(2 :: nat) ^ s < 2 ^ 64" by (intro power_strict_increasing) auto
  then show ?thesis using s unfolding Base_def by (simp only: unat_shl DigitBits_def Base_def unsigned_1 mult_1 mod_less)
qed

lemma dval_one_digit: "i < n \<Longrightarrow> dval ((replicate n 0)[i := d]) = Base ^ i * unat d"
  using dval_update [of i "replicate n 0" d] by simp

lemma wf_one_digit: "Suc i = n \<Longrightarrow> n \<le> MaxDigitLength \<Longrightarrow> d \<noteq> 0 \<Longrightarrow> wf \<lparr>digits = (replicate n 0)[i := d], isNegative = s\<rparr>"
  by (auto simp: wf_def HasLeadingZeroes_def isZero_def simp del: replicate_Suc)

lemma dval_single_bit:
  assumes "length ds = k div 64 + 1"
  shows "dval ((replicate (length ds) 0)[k div 64 := shl 1 (k mod 64)]) = 2 ^ k"
proof -
  have "dval ((replicate (length ds) 0)[k div 64 := shl 1 (k mod 64)]) = Base ^ (k div 64) * unat (shl 1 (k mod 64))"
    by (rule dval_one_digit) (simp add: assms)
  also have "\<dots> = 2 ^ (64 * (k div 64)) * 2 ^ (k mod 64)"
    by (simp add: unat_shl_1 Base_power)
  also have "\<dots> = 2 ^ k" by (simp only: power_add [symmetric] mult_div_mod_eq)
  finally show ?thesis .
qed

lemma runs_single_bit:
  assumes E: "\<And>e. oom v e \<Longrightarrow> E e" "Base ^ MaxDigitLength \<le> 2 ^ k \<Longrightarrow> E BigIntTooLarge"
    and Q: "\<And>r. wf r \<Longrightarrow> bval r = withSign s (2 ^ k) \<Longrightarrow> Q r"
  shows "runs (bindM (createUninitialized (1 + k div DigitBits) s) (\<lambda>result.
    setDigit (initializeDigitsToZero result) (1 + k div DigitBits - 1) (shl 1 (k mod DigitBits)))) v E Q"
proof (intro runs_bindI runs_createUninitialized, goal_cases)
  case 2
  then have "64 * MaxDigitLength \<le> k" by (simp add: DigitBits_def)
  then have "(2 :: nat) ^ (64 * MaxDigitLength) \<le> 2 ^ k" by (rule power_increasing) simp
  then show ?case by (intro E(2)) (simp only: Base_power)
next
  case (3 ds)
  let ?ds = "(replicate (length ds) 0)[k div 64 := shl 1 (k mod 64)]"
  have len: "length ds = k div 64 + 1" using 3 by (simp add: DigitBits_def)
  have "shl 1 (k mod 64) \<noteq> 0" using unat_shl_1 [of "k mod 64"] by auto
  then have "Q \<lparr>digits = ?ds, isNegative = s\<rparr>"
    using dval_single_bit [OF len] 3(2) len by (intro Q wf_one_digit) (auto simp: bval_def DigitBits_def)
  then show ?case using 3 len by (simp add: initializeDigitsToZero_def DigitBits_def del: replicate_Suc)
qed (use E in auto)

text \<open>The general case: the \<open>uint64_t\<close> loop, then the BigInt loop.\<close>

lemma runs_powFast:
  assumes wf: "wf x" and nz: "\<not> isZero x" and short: "absFitsInUint64 x" and n: "2 \<le> n"
    and E: "\<And>e. limit_error (Base ^ (MaxDigitLength - 1)) v (bval x ^ n) e \<Longrightarrow> E e"
    and Q: "\<And>r. wf r \<Longrightarrow> bval r = bval x ^ n \<Longrightarrow> Q r"
  shows "runs (bindM (uint64FromAbsNonZero x) (\<lambda>s.
      case powFast s (if odd n then s else 1) (n div 2) of
        Inl resultInt \<Rightarrow> createFromNonZeroRawUint64 resultInt (isNegative x \<and> odd n)
      | Inr (s, resultInt, n') \<Rightarrow>
          bindM (createFromNonZeroRawUint64 s False) (\<lambda>runningSquare.
          bindM (createFromNonZeroRawUint64 resultInt (isNegative x \<and> odd n)) (\<lambda>result.
          powLoop mul runningSquare (Some result) n')))) v E Q"
proof -
  obtain a where a: "digits x = [a]" "a \<noteq> 0" using wf_fits wf nz short by blast
  let ?R = "if odd n then a else 1" and ?neg = "isNegative x \<and> odd n"
  have total: "unat ?R * unat a ^ (2 * (n div 2)) = unat a ^ n"
  proof -
    have "n = n mod 2 + 2 * (n div 2)" by presburger
    then have "unat a ^ n = unat a ^ (n mod 2) * unat a ^ (2 * (n div 2))" by (metis power_add)
    then show ?thesis by (auto simp: odd_iff_mod_2_eq_one even_iff_mod_2_eq_zero)
  qed
  have x: "bval x ^ n = withSign ?neg (unat a ^ n)" using bval_power [of x n] a by simp
  have oom: "E e" if "oom v e" for e using that by (intro E) (simp add: limit_error_def)
  have "?R \<noteq> 0" "0 < n div 2" using a(2) n by auto
  note spec = powFast_spec [OF a(2) this, unfolded total]
  show ?thesis
  proof (cases "powFast a ?R (n div 2)")
    case (Inl r)
    then have "r \<noteq> 0" "unat r = unat a ^ n" using spec by simp_all
    then have "Q \<lparr>digits = [r], isNegative = ?neg\<rparr>"
      by (intro Q) (simp_all add: bval_def a(1))
    then show ?thesis
      using a nz Inl \<open>r \<noteq> 0\<close> oom
      by (simp add: uint64FromAbsNonZero_def runs_createFromNonZeroRawUint64)
  next
    case (Inr t)
    obtain s r m where t: "t = (s, r, m)" by (cases t)
    have srm: "s \<noteq> 0" "r \<noteq> 0" "0 < m" "unat r * unat s ^ (2 * m) = unat a ^ n" using spec Inr t by simp_all
    let ?S = "\<lparr>digits = [s], isNegative = False\<rparr>" and ?r = "\<lparr>digits = [r], isNegative = ?neg\<rparr>"
    have nonzero: "bval ?S \<noteq> 0" "bval ?r \<noteq> 0" using srm(1,2) by (simp_all add: wf_bval_0 isZero_iff)
    have "bval ?r * bval ?S ^ (2 * m) = bval x ^ n"
      unfolding x by (simp add: bval_def flip: srm(4))
    then have "runs (powLoop mul ?S (Some ?r) m) v E Q"
      using nonzero srm(1-3) E Q by (intro bigint_mul.runs_powLoop [where N = "bval ?r"]) simp_all
    then show ?thesis
      using a nz Inr t srm(1,2) oom
      by (simp add: uint64FromAbsNonZero_def) (intro runs_bindI runs_createFromNonZeroRawUint64; simp)
  qed
qed

lemma runs_powLong:
  assumes wf: "wf x" and nz: "\<not> isZero x" and n: "2 \<le> n"
    and E: "\<And>e. limit_error (Base ^ (MaxDigitLength - 1)) v (bval x ^ n) e \<Longrightarrow> E e"
    and Q: "\<And>r. wf r \<Longrightarrow> bval r = bval x ^ n \<Longrightarrow> Q r"
  shows "runs (powLoop mul x (if odd n then Some x else None) (n div 2)) v E Q"
proof -
  let ?N = "if odd n then bval x else 1"
  have "bval x \<noteq> 0" using wf nz wf_bval_0 by simp
  moreover have "?N * bval x ^ (2 * (n div 2)) = bval x ^ n"
  proof -
    have "n = n mod 2 + 2 * (n div 2)" by presburger
    then have "bval x ^ n = bval x ^ (n mod 2) * bval x ^ (2 * (n div 2))" by (metis power_add)
    then show ?thesis by (auto simp: odd_iff_mod_2_eq_one even_iff_mod_2_eq_zero)
  qed
  ultimately show ?thesis
    using wf n E Q by (intro bigint_mul.runs_powLoop [where N = ?N]) auto
qed

lemma wf_digit_0: "wf y \<Longrightarrow> digitLength y = 1 \<Longrightarrow> digits y = [digits y ! 0]"
  by (auto simp: length_Suc_conv)

lemma runs_pow:
  assumes wf: "wf x" "wf y" and E: "\<And>e. pow_error v x y e \<Longrightarrow> E e"
    and Q: "\<And>r. wf r \<Longrightarrow> 0 \<le> bval y \<Longrightarrow> bval r = bval x ^ nat (bval y) \<Longrightarrow> Q r"
  shows "runs (pow x y) v E Q"
proof -
  have oom: "E e" if "oom v e" for e using that by (intro E) (simp add: pow_error_def)
  consider "isNegative y" | "\<not> isNegative y" "isZero y" | "\<not> isNegative y" "\<not> isZero y" "isZero x"
    | "\<not> isNegative y" "\<not> isZero y" "\<not> isZero x" by blast
  then show ?thesis
  proof cases
    case 1
    then have "bval y < 0" using wf_neg_iff wf by blast
    then have "E BigIntNegativeExponent" by (intro E) (simp add: pow_error_def)
    then show ?thesis using 1 by (simp add: pow_def)
  next
    case 2
    then have "bval y = 0" using wf_bval_0 wf by blast
    then show ?thesis using 2 oom Q by (auto simp: pow_def intro!: runs_one)
  next
    case 3
    then have "bval x = 0" "bval y \<noteq> 0" "0 \<le> bval y"
      using wf_bval_0 wf_neg_iff wf by (auto simp: not_less)
    then show ?thesis using 3 Q [of x] wf by (simp add: pow_def)
  next
    case 4
    let ?x0 = "digits x ! 0" and ?y0 = "digits y ! 0" and ?X = "dval (digits x)" and ?Y = "dval (digits y)"
    have y: "bval y = int ?Y" "0 \<le> bval y" "nat (bval y) = ?Y" using 4 by (simp_all add: bval_def)
    have Ypos: "0 < ?Y" using wf_digits_pos wf 4 by blast
    have reads: "0 < digitLength x" "0 < digitLength y" using 4 by (simp_all add: isZero_iff)
    have Y0: "?Y = unat ?y0 + Base * dval (tl (digits y))"
      using reads by (cases "digits y") auto
    have even_y: "?y0 AND 1 = 0 \<longleftrightarrow> even ?Y"
    proof -
      have "even Base" by (simp add: Base_def)
      then have ev: "even ?Y \<longleftrightarrow> even (unat ?y0)" using Y0 by simp
      have "?y0 AND 1 = 0 \<longleftrightarrow> unat (?y0 AND 1) = 0" by (simp add: unat_eq_zero)
      also have "unat (?y0 AND 1) = unat ?y0 AND 1" by (simp only: unsigned_and_eq unsigned_1)
      also have "unat ?y0 AND 1 = unat ?y0 mod 2" by (rule and_one_eq)
      also have "unat ?y0 mod 2 = 0 \<longleftrightarrow> even (unat ?y0)" by (simp add: even_iff_mod_2_eq_zero)
      finally show ?thesis using ev by simp
    qed
    have large: "E BigIntTooLarge" if "2 \<le> ?X" "MaxBitLength \<le> ?Y"
      using big_power [OF that, THEN zle_int [THEN iffD2]] y(3) abs_power_bval [of x ?Y]
      by (intro E) (simp add: pow_error_def)
    have limit: "E e" if "limit_error (Base ^ (MaxDigitLength - 1)) v (bval x ^ ?Y) e" for e
      using that y by (intro E) (auto simp: limit_error_def pow_error_def)
    have Q': "Q r" if "wf r" "bval r = bval x ^ ?Y" for r using that y by (intro Q) simp_all
    note unfold = pow_def if_not_P [OF 4(1)] if_not_P [OF 4(2)] if_not_P [OF 4(3)]
      digit_in_range [OF reads(1)] digit_in_range [OF reads(2)] bindM_returnM
    show ?thesis
    proof (cases "digitLength x = 1 \<and> ?x0 = 1")
      case True
      then have X: "?X = 1" using wf_digit_0 [OF wf(1)] by (metis dval.simps mult_0_right add.right_neutral unsigned_1)
      then have "bval x ^ ?Y = withSign (isNegative x \<and> odd ?Y) 1" using bval_power [of x ?Y] by simp
      moreover have "bval x = withSign (isNegative x) 1" using X by (simp add: bval_def)
      ultimately show ?thesis
        using True 4 reads even_y wf(1) oom by (auto simp: pow_def intro!: runs_neg Q')
    next
      case not1: False
      have X2: "2 \<le> ?X" using wf_ge_2 [OF wf(1)] 4 not1 by blast
      show ?thesis
      proof (cases "digitLength y = 1")
        case False
        then have "Base ^ 1 \<le> Base ^ (digitLength y - 1)" using reads Base_pos by (intro power_increasing) linarith+
        also have "\<dots> \<le> ?Y" using 4 wf by (intro dval_ge_top) (auto simp: isZero_iff wf_def HasLeadingZeroes_def)
        finally have "E BigIntTooLarge" using MaxBitLength_less_Base X2 by (intro large) auto
        moreover have "digitLength y > 1" using False reads by linarith
        ultimately show ?thesis unfolding unfold if_not_P [OF not1] by simp
      next
        case True
        then have Y: "?Y = unat ?y0" using wf_digit_0 [OF wf(2)] by (metis dval.simps mult_0_right add.right_neutral)
        let ?m = "FloorLog2 ?x0" and ?neg = "isNegative x \<and> odd (unat ?y0)"
        have fast: "runs (bindM (createUninitialized (1 + ?Y * ?m div DigitBits) ?neg) (\<lambda>result.
            setDigit (initializeDigitsToZero result) (1 + ?Y * ?m div DigitBits - 1)
              (shl 1 (?Y * ?m mod DigitBits)))) v E Q"
          if pow2: "digitLength x = 1" "IsPowerOfTwo ?x0"
        proof -
          have "?X = 2 ^ ?m"
            using wf_digit_0 [OF wf(1) pow2(1)] IsPowerOfTwo_FloorLog2 [OF pow2(2)]
            by (metis dval.simps mult_0_right add.right_neutral)
          then have X: "?X ^ ?Y = 2 ^ (?Y * ?m)" by (simp add: mult.commute flip: power_mult)
          show ?thesis
          proof (rule runs_single_bit, goal_cases)
            case 2
            have "Base ^ (MaxDigitLength - 1) \<le> Base ^ MaxDigitLength" by (intro power_increasing) simp_all
            with 2 have "Base ^ (MaxDigitLength - 1) \<le> ?X ^ ?Y" using X by linarith
            from zle_int [THEN iffD2, OF this] show ?case
              by (intro limit) (simp only: limit_error_def abs_power_bval simp_thms)
          qed (use oom Q' X Y bval_power [of x ?Y] in auto)
        qed
        have "runs (pow x y) v E Q" if n: "?y0 \<noteq> 1" "?Y < MaxBitLength"
        proof -
          have "?Y \<noteq> 1" using n(1) Y word_unat_eq_iff [of ?y0 1] by simp
          then have "2 \<le> ?Y" using Ypos by linarith
          note long = runs_powLong [OF wf(1) 4(3) this, where v = v and E = E and Q = Q, OF limit Q']
            and short = runs_powFast [OF wf(1) 4(3) _ this, where v = v and E = E and Q = Q, OF _ limit Q']
          have small: "\<not> of_nat MaxBitLength \<le> ?y0"
            using n(2) Y by (simp add: word_le_nat_alt unat_MaxBitLength)
          have m: "?m < DigitBits" by (simp add: FloorLog2_def DigitBits_def)
          have one: "\<not> digitLength y > 1" using True by simp
          show ?thesis
            unfolding unfold if_not_P [OF not1] if_not_P [OF one] if_not_P [OF n(1)] if_not_P [OF small]
              Let_def mozAssert_holds [OF m] Y [symmetric]
          proof (intro runs_if, goal_cases)
            case 1
            then show ?case using fast unfolding Y [symmetric] by blast
          next
            case 2
            then show ?case by (intro short)
          next
            case 3
            then show ?case by (intro long)
          qed
        qed
        moreover have "runs (pow x y) v E Q" if "?y0 = 1"
          using that True Y wf(1) Q' [of x] unfolding unfold if_not_P [OF not1] by simp
        moreover have "runs (pow x y) v E Q" if n: "?y0 \<noteq> 1" "MaxBitLength \<le> ?Y"
        proof -
          have "of_nat MaxBitLength \<le> ?y0"
            using n(2) Y by (simp add: word_le_nat_alt unat_MaxBitLength)
          then show ?thesis using n True large X2 unfolding unfold if_not_P [OF not1] by simp
        qed
        ultimately show ?thesis by (cases "?Y < MaxBitLength") auto
      qed
    qed
  qed
qed

section \<open>The portable overflow check\<close>

lemma word_sless_0_iff: "(w :: digit) <s 0 \<longleftrightarrow> 2 ^ 63 \<le> unat w"
proof -
  have "w <s 0 \<longleftrightarrow> bit w 63" by (simp add: word_sless_alt bit_last_iff [of w, symmetric])
  also have "\<dots> \<longleftrightarrow> odd (unat w div 2 ^ 63)" by (rule bit_digit_iff) simp
  also have "\<dots> \<longleftrightarrow> 2 ^ 63 \<le> unat w"
  proof -
    have "unat w div 2 ^ 63 < 2" using unat_less_Base [of w] by (simp add: Base_def less_mult_imp_div_less)
    moreover have "unat w div 2 ^ 63 = 0 \<longleftrightarrow> unat w < 2 ^ 63" by (simp add: div_eq_0_iff)
    ultimately show ?thesis by (cases "unat w div 2 ^ 63 = 0") (auto simp: less_2_cases_iff)
  qed
  finally show ?thesis .
qed

lemma and_1_nonzero: "(w :: digit) AND 1 \<noteq> 0 \<longleftrightarrow> odd (unat w)"
proof -
  have "w AND 1 = 0 \<longleftrightarrow> unat (w AND 1) = 0" by (simp add: unat_eq_zero)
  also have "unat (w AND 1) = unat w AND 1" by (simp only: unsigned_and_eq unsigned_1)
  also have "unat w AND 1 = unat w mod 2" by (rule and_one_eq)
  finally show ?thesis by (auto simp: odd_iff_mod_2_eq_one even_iff_mod_2_eq_zero)
qed

lemma SafeMul_portable_exact:
  assumes "a \<noteq> 0" and "b \<noteq> 0"
  shows "SafeMul_portable a b = SafeMul a b"
proof -
  let ?z = "DigitLeadingZeroes a + DigitLeadingZeroes b"
  note A = DigitLeadingZeroes_bounds [OF assms(1)] and B = DigitLeadingZeroes_bounds [OF assms(2)]
  show ?thesis
  proof (cases "?z \<le> 62")
    case True
    have "(2 :: nat) ^ 64 \<le> 2 ^ ((63 - DigitLeadingZeroes a) + (63 - DigitLeadingZeroes b))"
      using True A(1) B(1) by (intro power_increasing) auto
    also have "\<dots> \<le> unat a * unat b" unfolding power_add using A(2) B(2) by (intro mult_le_mono) auto
    finally show ?thesis using True by (simp add: SafeMul_portable_def SafeMul_def)
  next
    case False
    have "unat a * unat b < 2 ^ (64 - DigitLeadingZeroes a) * 2 ^ (64 - DigitLeadingZeroes b)"
      using A(3) B(3) by (intro mult_strict_mono) auto
    also have "\<dots> \<le> (2 :: nat) ^ 65"
      unfolding power_add [symmetric] using False A(1) B(1) by (intro power_increasing) auto
    finally have less: "unat a * unat b < 2 * Base" by (simp add: Base_def)
    define half where "half = a * shr b 1"
    have b: "unat (shr b 1) = unat b div 2" using unat_shr [of 1 b] by (simp add: DigitBits_def)
    have split: "unat a * unat b = 2 * (unat a * (unat b div 2)) + unat a * (unat b mod 2)"
    proof -
      have "unat b = 2 * (unat b div 2) + unat b mod 2" by simp
      then have "unat a * unat b = unat a * (2 * (unat b div 2) + unat b mod 2)" by presburger
      then show ?thesis by (simp only: distrib_left mult.left_commute)
    qed
    then have "unat a * (unat b div 2) < Base" using less by linarith
    note half_less = this
    have fold: "a * shr b (Suc 0) = half" by (simp add: half_def)
    have half: "unat half = unat a * (unat b div 2)"
      unfolding half_def unat_times_digit b using half_less by (rule mod_less)
    have neg: "half <s 0 \<longleftrightarrow> Base \<le> 2 * unat half"
      by (simp add: word_sless_0_iff Base_def)
    show ?thesis
    proof (cases "half <s 0")
      case True
      then have "Base \<le> unat a * unat b" using neg half split by linarith
      then show ?thesis
        using False True by (simp add: SafeMul_portable_def SafeMul_def Base_def Let_def fold)
    next
      case pos: False
      then have dbl: "unat (half * 2) = 2 * unat half"
        using neg by (simp add: unat_times_digit)
      have odd_b: "b AND 1 \<noteq> 0 \<longleftrightarrow> unat b mod 2 = 1"
        by (simp only: and_1_nonzero odd_iff_mod_2_eq_one)
      show ?thesis
      proof (cases "b AND 1 = 0")
        case True
        then have val: "unat a * unat b = unat (half * 2)" using odd_b split half dbl by auto
        then have "half * 2 = a * b" by (simp add: word_unat_eq_iff unat_times_digit unat_less_Base)
        then show ?thesis
          using False pos True val unat_less_Base [of "half * 2"]
          by (simp add: SafeMul_portable_def SafeMul_def Base_def Let_def fold)
      next
        case odd: False
        then have val: "unat a * unat b = unat (half * 2) + unat a" using odd_b split half dbl by auto
        then have eq: "half * 2 + a = a * b"
          by (simp add: word_unat_eq_iff unat_times_digit [of a b] unat_plus_digit)
        have "half * 2 + a < a \<longleftrightarrow> Base \<le> unat a * unat b"
          using digit_overflow [of a "half * 2"] val by (simp add: add.commute)
        then show ?thesis
          using False pos odd eq
          by (auto simp: SafeMul_portable_def SafeMul_def Base_def Let_def fold)
      qed
    qed
  qed
qed

section \<open>Properties\<close>

text \<open>
  C10. Multiplication: the schoolbook loop with its carry propagation never leaves the
  accumulator, and \<open>mul\<close> returns the canonical BigInt of the exact product.  It fails only when
  memory runs out or when the digits of the operands together exceed the maximal length.
\<close>

theorem mul_correct:
  assumes "wf x" and "wf y"
  shows "runs (mul x y) v (mul_error v x y) (\<lambda>r. wf r \<and> bval r = bval x * bval y)"
  by (rule runs_mul [OF assms]) auto

theorem mul_correct_witness:
  "wf \<lparr>digits = [5, 7], isNegative = True\<rparr> \<and> wf \<lparr>digits = [-1], isNegative = False\<rparr> \<and>
   runs (mul \<lparr>digits = [5, 7], isNegative = True\<rparr> \<lparr>digits = [-1], isNegative = False\<rparr>) plenty
     (mul_error plenty \<lparr>digits = [5, 7], isNegative = True\<rparr> \<lparr>digits = [-1], isNegative = False\<rparr>)
     (\<lambda>r. wf r \<and> bval r = bval \<lparr>digits = [5, 7], isNegative = True\<rparr> * bval \<lparr>digits = [-1], isNegative = False\<rparr>)"
  by (intro conjI mul_correct) (simp_all add: wf_eval)

text \<open>
  C13. Exponentiation: \<open>pow\<close> returns the canonical BigInt of \<open>x\<close> to the power \<open>y\<close> through
  every path (trivial bases, powers of two, the \<open>uint64_t\<close> loop with its recovery on overflow, the
  BigInt loop).  A negative exponent, and only that, is reported as such; the result is reported
  too large only when its magnitude has at least \<open>MaxDigitLength\<close> digits.
\<close>

theorem pow_correct:
  assumes "wf x" and "wf y"
  shows "runs (pow x y) v (pow_error v x y) (\<lambda>r. wf r \<and> 0 \<le> bval y \<and> bval r = bval x ^ nat (bval y))"
  by (rule runs_pow [OF assms]) auto

theorem pow_correct_witness:
  "wf \<lparr>digits = [10], isNegative = True\<rparr> \<and> wf \<lparr>digits = [41], isNegative = False\<rparr> \<and>
   runs (pow \<lparr>digits = [10], isNegative = True\<rparr> \<lparr>digits = [41], isNegative = False\<rparr>) plenty
     (pow_error plenty \<lparr>digits = [10], isNegative = True\<rparr> \<lparr>digits = [41], isNegative = False\<rparr>)
     (\<lambda>r. wf r \<and> 0 \<le> bval \<lparr>digits = [41], isNegative = False\<rparr> \<and>
        bval r = bval \<lparr>digits = [10], isNegative = True\<rparr> ^ nat (bval \<lparr>digits = [41], isNegative = False\<rparr>))"
  by (intro conjI pow_correct) (simp_all add: wf_eval)

text \<open>
  The portable overflow-checked multiplication (Hacker's Delight, section 2-13) agrees with the
  exact check on all nonzero operands: the same operands overflow, and the products are equal.
\<close>

theorem SafeMul_portable_equiv:
  assumes "a \<noteq> 0" and "b \<noteq> 0"
  shows "SafeMul_portable a b = SafeMul a b"
  using assms by (rule SafeMul_portable_exact)

theorem SafeMul_portable_equiv_witness:
  "(3 :: u64) \<noteq> 0 \<and> (- 1 :: u64) \<noteq> 0 \<and> SafeMul_portable 3 (- 1) = SafeMul 3 (- 1)"
  using SafeMul_portable_equiv [of 3 "- 1"] by simp

end
