(* ===== verification/BigInt_DigitDiv.thy ===== *)
theory BigInt_DigitDiv
  imports BigInt_Digits
begin

text \<open>
  The two hard digit operations are exact: \<open>digitMul_half\<close> computes the same two digits as the
  \<open>__uint128_t\<close> version, and \<open>digitDiv\<close> (Warren's two-step division by a normalised divisor)
  returns the quotient and the remainder that the instruction \<open>divq\<close> returns.
\<close>

section \<open>Half-digit multiplication\<close>

lemma unat_mult_halves:
  assumes "unat (a :: digit) < Half" and "unat b < Half"
  shows "unat (a * b) = unat a * unat b"
proof -
  have "unat a * unat b < Half * Half"
    using assms by (intro mult_strict_mono) auto
  then show ?thesis by (simp add: unat_times_digit Half_Half)
qed

lemma unat_half_low: "unat (a AND HalfDigitMask) < Half"
  by (simp add: unat_and_HalfDigitMask)

lemma unat_half_high: "unat (shr a HalfDigitBits) < Half"
  using unat_less_Base [of a] by (simp add: unat_shr_half less_mult_imp_div_less Half_Half)

lemma half_products:
  fixes a b H :: nat
  shows "(a mod H) * (b mod H) + H * ((a mod H) * (b div H)) + H * ((a div H) * (b mod H))
         + H * H * ((a div H) * (b div H)) = a * b"
proof -
  have "a * b = (a mod H + H * (a div H)) * (b mod H + H * (b div H))" by simp
  then show ?thesis by (simp only: algebra_simps)
qed

lemma digitMul_half_spec:
  assumes "digitMul_half a b = (low, high)"
  shows "unat low + Base * unat high = unat a * unat b"
proof -
  define rL where "rL = (a AND HalfDigitMask) * (b AND HalfDigitMask)"
  define m1 where "m1 = (a AND HalfDigitMask) * shr b HalfDigitBits"
  define m2 where "m2 = shr a HalfDigitBits * (b AND HalfDigitMask)"
  define rH where "rH = shr a HalfDigitBits * shr b HalfDigitBits"
  obtain l1 c1 where 1: "digitAdd rL (shl m1 HalfDigitBits) 0 = (l1, c1)" by fastforce
  obtain l2 c2 where 2: "digitAdd l1 (shl m2 HalfDigitBits) c1 = (l2, c2)" by fastforce
  have low: "low = l2" and high: "high = shr m1 HalfDigitBits + shr m2 HalfDigitBits + rH + c2"
    using assms 1 2 by (auto simp: digitMul_half_def Let_def rL_def m1_def m2_def rH_def)
  have Base3: "3 < Base" by (simp add: Base_def)
  have c1: "unat c1 \<le> 1" using digitAdd_carry [OF 1] Base3 by simp
  then have "unat c1 < Base - 1" using Base3 by linarith
  then have c2: "unat c2 \<le> 2" using digitAdd_carry [OF 2] c1 by simp
  define hi where "hi = unat m1 div Half + unat m2 div Half + unat rH + unat c2"
  have sums: "unat l2 + Base * unat c2 = unat rL + unat m1 mod Half * Half + unat m2 mod Half * Half"
    using digitAdd_spec [OF 1] digitAdd_spec [OF 2] c1 Base3 by (simp add: unat_shl_half)
  have "unat l2 + Base * hi = (unat l2 + Base * unat c2) + Base * (unat m1 div Half + unat m2 div Half + unat rH)"
    by (simp add: hi_def algebra_simps)
  also have "\<dots> = unat rL + Half * (unat m1 mod Half + Half * (unat m1 div Half))
      + Half * (unat m2 mod Half + Half * (unat m2 div Half)) + Half * Half * unat rH"
    unfolding sums by (simp only: Half_Half [symmetric] algebra_simps)
  also have "\<dots> = unat rL + Half * unat m1 + Half * unat m2 + Half * Half * unat rH"
    by simp
  also have "\<dots> = unat a * unat b"
    unfolding rL_def m1_def m2_def rH_def
    by (simp only: unat_mult_halves [OF unat_half_low unat_half_low]
        unat_mult_halves [OF unat_half_low unat_half_high]
        unat_mult_halves [OF unat_half_high unat_half_low]
        unat_mult_halves [OF unat_half_high unat_half_high]
        unat_and_HalfDigitMask unat_shr_half half_products)
  finally have total: "unat l2 + Base * hi = unat a * unat b" .
  then have "Base * hi < Base * Base" using unat_mult_less [of a b] by linarith
  then have "hi < Base" by simp
  moreover have "unat high = hi mod Base"
    unfolding high hi_def by (simp add: unat_plus_digit mod_simps unat_shr_half)
  ultimately show ?thesis using total low by simp
qed

lemma digitMul_half_eq: "digitMul_half a b = digitMul a b"
proof -
  obtain l h l' h' where "digitMul_half a b = (l, h)" "digitMul a b = (l', h')" by fastforce
  then show ?thesis
    using digitMul_unique digitMul_half_spec digitMul_spec by metis
qed

section \<open>One step of the division\<close>

text \<open>
  A step divides \<open>u * Half + un\<close> by a normalised two-half-digit divisor \<open>v\<close>, where \<open>u < v\<close>.
  The loop keeps \<open>q * vn1 + rhat = u\<close> and never lets \<open>q\<close> fall below the true quotient.
\<close>

definition half_step :: "digit \<Rightarrow> digit \<Rightarrow> digit \<Rightarrow> nat \<Rightarrow> nat \<Rightarrow> bool" where
  "half_step vn1 vn0 un u v \<longleftrightarrow>
     v = unat vn1 * Half + unat vn0 \<and> unat vn0 < Half \<and> Half \<le> 2 * unat vn1 \<and> unat vn1 < Half \<and>
     unat un < Half \<and> u < v"

fun half_inv :: "digit \<Rightarrow> nat \<Rightarrow> nat \<Rightarrow> digit \<times> digit \<times> bool \<Rightarrow> bool" where
  "half_inv vn1 u qt (q, rhat, brk) \<longleftrightarrow>
     unat q * unat vn1 + unat rhat = u \<and> qt \<le> unat q \<and> unat q \<le> Half + 1 \<and>
     (if brk then Half \<le> unat rhat \<and> unat q \<le> Half else unat rhat < Half)"

lemma half_step_vn1_pos: "half_step vn1 vn0 un u v \<Longrightarrow> 0 < unat vn1"
  by (cases "unat vn1") (auto simp: half_step_def Half_def)

lemma half_step_num_less:
  assumes "half_step vn1 vn0 un u v"
  shows "u * Half + unat un < v * Half"
proof -
  have "u * Half + unat un < Suc u * Half" using assms by (simp add: half_step_def)
  also have "\<dots> \<le> v * Half" using assms by (intro mult_right_mono) (auto simp: half_step_def)
  finally show ?thesis .
qed

lemma half_step_quot_less: "half_step vn1 vn0 un u v \<Longrightarrow> (u * Half + unat un) div v < Half"
  by (metis half_step_num_less less_mult_imp_div_less mult.commute)

lemma half_step_expand:
  "half_step vn1 vn0 un u v \<Longrightarrow> q * v = (q * unat vn1) * Half + q * unat vn0"
  by (simp add: half_step_def algebra_simps)

lemma unat_trial_product:
  assumes "half_step vn1 vn0 un u v" and "unat q \<le> Half + 1"
  shows "unat (q * vn0) = unat q * unat vn0"
proof -
  have "unat q * unat vn0 \<le> (Half + 1) * (Half - 1)"
    using assms by (intro mult_mono) (auto simp: half_step_def)
  also have "\<dots> < Base" by (simp add: Half_def Base_def)
  finally show ?thesis by (simp add: unat_times_digit)
qed

lemma unat_two_halves:
  assumes "unat a < Half" and "unat b < Half"
  shows "unat (a * HalfDigitBase + b) = unat a * Half + unat b"
proof -
  have "unat a * Half + unat b < Suc (unat a) * Half" using assms by simp
  also have "\<dots> \<le> Half * Half" using assms by (intro mult_right_mono) auto
  finally have "unat a * Half + unat b < Base" by (simp add: Half_Half)
  then show ?thesis
    by (simp add: unat_plus_digit unat_times_digit unat_HalfDigitBase mod_simps)
qed

lemma half_inv_start:
  assumes "half_step vn1 vn0 un u v" and q: "unat q = u div unat vn1" and rhat: "unat rhat = u mod unat vn1"
  shows "half_inv vn1 u ((u * Half + unat un) div v) (q, rhat, False)"
proof -
  note pre = assms(1) [unfolded half_step_def] and pos = half_step_vn1_pos [OF assms(1)]
  have "u < unat vn1 * (Half + 2)" using pre by (simp add: algebra_simps)
  then have "unat q < Half + 2" using q by (simp add: less_mult_imp_div_less mult.commute)
  moreover have "(u * Half + unat un) div v \<le> (u * Half + unat un) div (unat vn1 * Half)"
    using pos pre by (intro div_le_mono2) auto
  moreover have "(u * Half + unat un) div (unat vn1 * Half) = u div unat vn1"
    using pre by (simp add: div_mult2_eq mult.commute [of "unat vn1"])
  moreover have "unat rhat < Half"
    using rhat pre pos by (metis less_trans mod_less_divisor)
  ultimately show ?thesis using q rhat by simp
qed

lemma half_inv_above:
  assumes "half_step vn1 vn0 un u v" and "half_inv vn1 u ((u * Half + unat un) div v) (q, rhat, False)"
    and b: "HalfDigitBase \<le> q \<or> rhat * HalfDigitBase + un < q * vn0"
  shows "(u * Half + unat un) div v < unat q"
proof (cases "HalfDigitBase \<le> q")
  case True
  then show ?thesis
    using half_step_quot_less [OF assms(1)] by (simp add: word_le_nat_alt unat_HalfDigitBase)
next
  case False
  have inv: "unat q * unat vn1 + unat rhat = u" "unat q \<le> Half + 1" "unat rhat < Half"
    using assms(2) by simp_all
  have "unat rhat * Half + unat un < unat q * unat vn0"
    using False b inv assms(1)
    by (simp add: word_less_nat_alt unat_trial_product [OF assms(1)] unat_two_halves half_step_def)
  then have "u * Half + unat un < unat q * v"
    unfolding half_step_expand [OF assms(1)] by (simp flip: inv(1) add: algebra_simps)
  then show ?thesis by (simp add: less_mult_imp_div_less)
qed

lemma half_inv_step:
  assumes "half_step vn1 vn0 un u v" and inv: "half_inv vn1 u ((u * Half + unat un) div v) (q, rhat, False)"
    and "HalfDigitBase \<le> q \<or> rhat * HalfDigitBase + un < q * vn0"
  shows "half_inv vn1 u ((u * Half + unat un) div v) (q - 1, rhat + vn1, HalfDigitBase \<le> rhat + vn1)"
    and "unat (q - 1) < unat q"
proof -
  have above: "(u * Half + unat un) div v < unat q" using half_inv_above [OF assms] .
  then have "q \<noteq> 0" by auto
  with above have q1: "unat (q - 1) = unat q - 1" "0 < unat q"
    by (auto simp: unat_minus_one)
  have "unat rhat + unat vn1 < Base"
    using inv assms(1) by (simp add: Half_def Base_def half_step_def)
  then have r1: "unat (rhat + vn1) = unat rhat + unat vn1" by (simp add: unat_plus_digit)
  have "(unat q - 1) * unat vn1 + (unat rhat + unat vn1) = u"
    using inv q1(2) by (cases "unat q") simp_all
  with q1 r1 inv above
  show "half_inv vn1 u ((u * Half + unat un) div v) (q - 1, rhat + vn1, HalfDigitBase \<le> rhat + vn1)"
    by (auto simp: word_le_nat_alt unat_HalfDigitBase)
  show "unat (q - 1) < unat q" using q1 by simp
qed

lemma half_inv_exit:
  assumes "half_step vn1 vn0 un u v" and inv: "half_inv vn1 u ((u * Half + unat un) div v) (q, rhat, brk)"
    and b: "\<not> (\<not> brk \<and> (HalfDigitBase \<le> q \<or> rhat * HalfDigitBase + un < q * vn0))"
  shows "unat q = (u * Half + unat un) div v"
proof -
  have "unat q * unat vn0 \<le> unat rhat * Half + unat un"
  proof (cases brk)
    case True
    then have "unat q * unat vn0 \<le> Half * unat rhat"
      using inv assms(1) by (intro mult_mono) (auto simp: half_step_def)
    then show ?thesis by (simp add: mult.commute)
  next
    case False
    then show ?thesis
      using b inv assms(1) by (simp add: half_step_def word_less_nat_alt unat_trial_product [OF assms(1)] unat_two_halves)
  qed
  moreover have "unat q * unat vn1 + unat rhat = u" using inv by simp
  ultimately have "unat q * v \<le> u * Half + unat un"
    unfolding half_step_expand [OF assms(1)] by (auto simp: algebra_simps)
  then have "unat q \<le> (u * Half + unat un) div v"
    using assms(1) by (simp add: less_eq_div_iff_mult_less_eq half_step_def)
  with inv show ?thesis by simp
qed

lemma runs_digitDivLoop:
  assumes "half_step vn1 vn0 un u v" and "unat q = u div unat vn1" and "unat rhat = u mod unat vn1"
  shows "runs (digitDivLoop vn1 vn0 un q rhat) e E (\<lambda>(q, rhat, brk). unat q = (u * Half + unat un) div v)"
  unfolding digitDivLoop_def
proof (rule runs_whileM [where P = "half_inv vn1 u ((u * Half + unat un) div v)"
      and f = "\<lambda>(q, rhat, brk). unat q"], goal_cases)
  case 1
  show ?case by (rule half_inv_start [OF assms])
next
  case (2 s)
  then show ?case
    using half_inv_step(1) [OF assms(1), of "fst s" "fst (snd s)"]
    by (cases s) (simp del: half_inv.simps)
next
  case (3 s)
  then show ?case
    using half_inv_step(2) [OF assms(1), of "fst s" "fst (snd s)"]
    by (cases s) (simp del: half_inv.simps)
next
  case (4 s)
  then show ?case
    using half_inv_exit [OF assms(1), of "fst s" "fst (snd s)" "snd (snd s)"]
    by (cases s) (simp del: half_inv.simps)
qed

section \<open>Division of two digits by one\<close>

text \<open>The dividend is shifted by the leading zeroes of the divisor across the two digits.\<close>

lemma sZeroMask_cases:
  assumes "s < 64"
  shows "signed_drop_bit 63 (- (of_nat s :: digit)) = (if s = 0 then 0 else - 1)"
proof (cases "s = 0")
  case True
  then show ?thesis by simp
next
  case False
  have "sint (- (of_nat s :: digit)) = - int s"
  proof -
    have "- (of_nat s :: digit) = word_of_int (- int s)" by simp
    then show ?thesis
      using assms by (simp only: signed_of_int) (simp add: signed_take_bit_int_eq_self)
  qed
  then have "sint (signed_drop_bit 63 (- (of_nat s :: digit))) = - int s div 2 ^ 63"
    by (simp add: sint_signed_drop_bit_eq drop_bit_eq_div)
  also have "\<dots> = - 1"
    using False assms by (simp add: zdiv_zminus1_eq_if)
  finally have "sint (signed_drop_bit 63 (- (of_nat s :: digit))) = sint (- 1 :: digit)"
    by simp
  then have "signed_drop_bit 63 (- (of_nat s :: digit)) = - 1" by (rule signed_word_eqI)
  then show ?thesis by (simp only: if_not_P [OF False])
qed

text \<open>Shifting the two-digit dividend left by \<open>s\<close> over three digits, of which the top is zero.\<close>

definition shiftedHigh :: "digit \<Rightarrow> digit \<Rightarrow> nat \<Rightarrow> digit" where
  "shiftedHigh high low s =
     shl high s OR (shr low ((DigitBits - s) AND (DigitBits - 1))
       AND signed_drop_bit (DigitBits - 1) (- (of_nat s :: digit)))"

lemma shiftedHigh_spec:
  assumes s: "s < 64" and fits: "unat high * 2 ^ s < Base"
  shows "unat (shiftedHigh high low s) * Base + unat (shl low s) = (unat high * Base + unat low) * 2 ^ s"
proof (cases "s = 0")
  case True
  then show ?thesis
    by (simp add: shiftedHigh_def sZeroMask_cases DigitBits_def shl_def)
next
  case False
  have and63: "(64 - s) AND 63 = 64 - s"
  proof -
    have "(63 :: nat) = mask 6" by (simp add: mask_eq_exp_minus_1)
    then have "(64 - s) AND 63 = take_bit 6 (64 - s)" by (simp only: take_bit_eq_mask)
    also have "\<dots> = 64 - s" using False by (intro take_bit_nat_eq_self) simp
    finally show ?thesis .
  qed
  have shr: "unat (shr low (64 - s)) = unat low div 2 ^ (64 - s)"
    using False by (simp add: unat_shr DigitBits_def)
  have B: "Base = 2 ^ (64 - s) * 2 ^ s" using s by (simp add: Base_def flip: power_add)
  have "unat low div 2 ^ (64 - s) < 2 ^ s"
    using unat_less_Base [of low] by (simp add: B less_mult_imp_div_less mult.commute)
  then have "unat (shiftedHigh high low s) = unat high * 2 ^ s + unat low div 2 ^ (64 - s)"
    using s False fits
    by (simp add: shiftedHigh_def sZeroMask_cases and63 unat_or_shl unat_shl shr DigitBits_def)
  moreover have "unat (shl low s) = unat low mod 2 ^ (64 - s) * 2 ^ s"
    using s by (simp add: unat_shl DigitBits_def B mult_mod_left)
  ultimately have "unat (shiftedHigh high low s) * Base + unat (shl low s) =
      unat high * 2 ^ s * Base + (2 ^ (64 - s) * (unat low div 2 ^ (64 - s)) + unat low mod 2 ^ (64 - s)) * 2 ^ s"
    by (simp only: B algebra_simps)
  then show ?thesis by (simp add: algebra_simps)
qed

lemma of_nat_Half: "HalfDigitBase = of_nat Half"
  by (simp add: word_unat_eq_iff unat_HalfDigitBase Half_def)

lemma unat_residue:
  assumes q: "unat q = (unat u * Half + unat un) div unat d" and "d \<noteq> 0"
  shows "unat (u * HalfDigitBase + un - q * d) = (unat u * Half + unat un) mod unat d"
proof -
  let ?A = "unat u * Half + unat un"
  have "u * HalfDigitBase + un = of_nat ?A" by (simp add: of_nat_Half)
  moreover have "q * d = of_nat (?A div unat d * unat d)" by (simp flip: q)
  moreover have "?A div unat d * unat d \<le> ?A" by simp
  ultimately have w: "u * HalfDigitBase + un - q * d = of_nat (?A mod unat d)"
    by (simp only: minus_div_mult_eq_mod flip: of_nat_diff)
  have "?A mod unat d < unat d" using assms(2) by (simp add: unat_gt_0)
  also have "\<dots> < 2 ^ 64" using unat_less_Base [of d] by (simp add: Base_def)
  finally show ?thesis by (simp add: w unat_of_nat)
qed

lemma unat_trial_quot: "unat (u div vn1) = unat u div unat (vn1 :: digit)"
  by (rule unat_div)

lemma unat_trial_rem: "unat (u - u div vn1 * vn1) = unat u mod unat (vn1 :: digit)"
  by (simp add: minus_div_mult_eq_mod unat_mod)

text \<open>A normalised divisor, split in halves, meets the premises of a step.\<close>

lemma half_step_normalised:
  assumes "2 ^ 63 \<le> unat d" and "unat un < Half" and "unat u < unat d"
  shows "half_step (shr d HalfDigitBits) (d AND HalfDigitMask) un (unat u) (unat d)"
proof -
  have "2 ^ 63 div Half \<le> unat d div Half" using assms(1) by (rule div_le_mono)
  then show ?thesis
    using assms unat_less_Base [of d]
    by (simp add: half_step_def unat_shr_half unat_and_HalfDigitMask Half_def Base_def)
qed

lemma runs_half_division:
  assumes "2 ^ 63 \<le> unat d" and "unat un < Half" and "unat u < unat d"
  shows "runs (digitDivLoop (shr d HalfDigitBits) (d AND HalfDigitMask) un
                (u div shr d HalfDigitBits)
                (u - u div shr d HalfDigitBits * shr d HalfDigitBits)) e E
           (\<lambda>(q, rhat, brk). unat q = (unat u * Half + unat un) div unat d)"
  by (rule runs_digitDivLoop [OF half_step_normalised [OF assms] unat_trial_quot unat_trial_rem])

lemma two_half_steps:
  fixes u un1 un0 d :: nat
  assumes "0 < d"
  shows "((u * Half + un1) div d) * Half + (((u * Half + un1) mod d) * Half + un0) div d
           = (u * Base + (un1 * Half + un0)) div d"
    and "(((u * Half + un1) mod d) * Half + un0) mod d = (u * Base + (un1 * Half + un0)) mod d"
proof -
  let ?A = "u * Half + un1"
  have "u * Base + (un1 * Half + un0) = ?A * Half + un0"
    by (simp add: Half_Half [symmetric] algebra_simps)
  also have "?A * Half = (?A div d * Half) * d + ?A mod d * Half"
    by (metis add_mult_distrib div_mult_mod_eq mult.assoc mult.commute)
  finally have e: "u * Base + (un1 * Half + un0) = (?A mod d * Half + un0) + (?A div d * Half) * d"
    by simp
  show "(?A div d) * Half + (?A mod d * Half + un0) div d = (u * Base + (un1 * Half + un0)) div d"
    unfolding e using assms by simp
  show "(?A mod d * Half + un0) mod d = (u * Base + (un1 * Half + un0)) mod d"
    unfolding e by simp
qed

text \<open>
  The part of \<open>digitDiv\<close> after the normalisation: two half-digit steps divide the three half
  digits \<open>u\<close>, \<open>un1\<close>, \<open>un0\<close> by \<open>d\<close>.
\<close>

definition digitDivSteps :: "digit \<Rightarrow> digit \<Rightarrow> digit \<Rightarrow> digit \<Rightarrow> nat \<Rightarrow> (digit \<times> digit) eng" where
  "digitDivSteps u un1 un0 d s =
     bindM (digitDivLoop (shr d HalfDigitBits) (d AND HalfDigitMask) un1 (u div shr d HalfDigitBits)
             (u - u div shr d HalfDigitBits * shr d HalfDigitBits)) (\<lambda>(q1, rhat, brk).
     let un21 = u * HalfDigitBase + un1 - q1 * d
     in bindM (digitDivLoop (shr d HalfDigitBits) (d AND HalfDigitMask) un0 (un21 div shr d HalfDigitBits)
                (un21 - un21 div shr d HalfDigitBits * shr d HalfDigitBits)) (\<lambda>(q0, rhat, brk).
     returnM (q1 * HalfDigitBase + q0, shr (un21 * HalfDigitBase + un0 - q0 * d) s)))"

lemma runs_digitDivSteps:
  assumes dn: "2 ^ 63 \<le> unat d" and un1: "unat un1 < Half" and un0: "unat un0 < Half"
    and u: "unat u < unat d" and s: "s < 64"
  shows "runs (digitDivSteps u un1 un0 d s) e E (\<lambda>(q, r).
     unat q = (unat u * Base + (unat un1 * Half + unat un0)) div unat d \<and>
     unat r = (unat u * Base + (unat un1 * Half + unat un0)) mod unat d div 2 ^ s)"
  unfolding digitDivSteps_def
proof (rule runs_bindM [OF runs_half_division [OF dn un1 u]], clarsimp simp: Let_def, goal_cases)
  case (1 q1)
  have d0: "d \<noteq> 0" "0 < unat d" using dn by auto
  note r1 = unat_residue [OF 1 d0(1)]
  have q1: "unat q1 < Half"
    using half_step_quot_less [OF half_step_normalised [OF dn un1 u]] 1 by simp
  have less: "unat (u * HalfDigitBase + un1 - q1 * d) < unat d" using d0 by (simp add: r1)
  show ?case
  proof (rule runs_bindM [OF runs_half_division [OF dn un0 less]], clarsimp, goal_cases)
    case (1 q0)
    note r0 = unat_residue [OF 1 d0(1)]
    have q0: "unat q0 < Half"
      using half_step_quot_less [OF half_step_normalised [OF dn un0 less]] 1 by simp
    have "unat (q1 * HalfDigitBase + q0) = unat q1 * Half + unat q0"
      by (rule unat_two_halves [OF q1 q0])
    then show ?case
      using two_half_steps [OF d0(2), of "unat u" "unat un1" "unat un0"] s
      by (simp only: r0 r1 1 \<open>unat q1 = _\<close> unat_shr DigitBits_def)
  qed
qed

text \<open>The normalisation: \<open>digitDiv\<close> runs the two steps on the shifted operands.\<close>

lemma digitDiv_steps:
  assumes "unat high < unat divisor" and "s = DigitLeadingZeroes divisor"
  shows "digitDiv high low divisor =
    digitDivSteps (shiftedHigh high low s) (shr (shl low s) HalfDigitBits)
      (shl low s AND HalfDigitMask) (shl divisor s) s"
proof -
  have "divisor \<noteq> 0" using assms by auto
  then have "s < 64" using DigitLeadingZeroes_bounds(1) assms(2) by simp
  then show ?thesis
    using assms(1) unfolding digitDiv_def digitDivSteps_def assms(2)
    by (simp add: Let_def word_less_nat_alt shiftedHigh_def DigitBits_def)
qed

lemma runs_digitDiv:
  assumes "unat high < unat divisor"
  shows "runs (digitDiv high low divisor) e E (\<lambda>(q, r).
     unat q = (unat high * Base + unat low) div unat divisor \<and>
     unat r = (unat high * Base + unat low) mod unat divisor)"
proof -
  define s where "s = DigitLeadingZeroes divisor"
  define d where "d = shl divisor s"
  define u where "u = shiftedHigh high low s"
  define N where "N = unat high * Base + unat low"
  have "divisor \<noteq> 0" using assms by auto
  note norm = DigitLeadingZeroes_shift [OF this, folded s_def] DigitLeadingZeroes_bounds(1) [OF this, folded s_def]
  have s: "s < 64" using norm by simp
  have d: "unat d = unat divisor * 2 ^ s"
    using norm s by (simp add: d_def unat_shl DigitBits_def)
  have "unat high * 2 ^ s < unat d" using assms by (simp add: d)
  then have "unat high * 2 ^ s < Base" using unat_less_Base [of d] by simp
  note top = shiftedHigh_spec [OF s this, of low, folded u_def N_def]
  have "N < Suc (unat high) * Base" using unat_less_Base [of low] by (simp add: N_def)
  also have "\<dots> \<le> unat divisor * Base" using assms by (intro mult_right_mono) auto
  finally have "N * 2 ^ s < unat d * Base" by (simp add: d)
  then have "unat u * Base < unat d * Base" using top by linarith
  then have u: "unat u < unat d" by simp
  have "unat (shr (shl low s) HalfDigitBits) * Half + unat (shl low s AND HalfDigitMask) = unat (shl low s)"
    by (simp add: unat_shr_half unat_and_HalfDigitMask)
  then have total: "unat u * Base + (unat (shr (shl low s) HalfDigitBits) * Half
      + unat (shl low s AND HalfDigitMask)) = N * 2 ^ s"
    using top by simp
  show ?thesis
    unfolding digitDiv_steps [OF assms s_def] d_def [symmetric] u_def [symmetric] N_def [symmetric]
    by (rule runs_weakenQ [OF runs_digitDivSteps [OF _ unat_half_high unat_half_low u s]])
      (use norm d in \<open>auto simp: total mult_mod_left [symmetric]\<close>)
qed

section \<open>The instruction divq\<close>

lemma unat_ucast_64: "unat (ucast (w :: 128 word) :: digit) = unat w mod Base"
  by (simp add: unsigned_ucast_eq take_bit_eq_mod Base_def)

lemma digitDiv_divq_value:
  assumes "unat high < unat divisor"
  shows "\<exists>q r. digitDiv_divq high low divisor = returnM (q, r) \<and>
     unat q = (unat high * Base + unat low) div unat divisor \<and>
     unat r = (unat high * Base + unat low) mod unat divisor"
proof -
  define n :: "128 word" where "n = push_bit DigitBits (ucast high) OR ucast low"
  have pb: "unat (push_bit DigitBits (ucast high :: 128 word)) = unat high * 2 ^ 64"
    using unat_less_Base [of high]
    by (simp add: DigitBits_def unsigned_push_bit_eq unat_ucast_128 take_bit_eq_mod
        push_bit_eq_mult [of 64 "unat high"] Base_def)
  have n: "unat n = unat high * Base + unat low"
    unfolding n_def unsigned_or_eq pb unat_ucast_128 Base_def
    by (rule nat_or_disjoint) (use unat_less_Base [of low] in \<open>simp add: Base_def\<close>)
  have "unat n < Suc (unat high) * Base" using unat_less_Base [of low] by (simp add: n)
  also have "\<dots> \<le> unat divisor * Base" using assms by (intro mult_right_mono) auto
  finally have q: "unat n div unat divisor < Base"
    by (simp add: less_mult_imp_div_less mult.commute)
  have "0 < unat divisor" using assms by simp
  then have "unat n mod unat divisor < Base"
    using unat_less_Base [of divisor] by (meson less_trans mod_less_divisor)
  with q have "unat (ucast (n div ucast divisor) :: digit) = unat n div unat divisor"
    and "unat (ucast (n mod ucast divisor) :: digit) = unat n mod unat divisor"
    by (simp_all only: unat_ucast_64 unat_div unat_mod unat_ucast_128 mod_less)
  moreover have "digitDiv_divq high low divisor =
      returnM (ucast (n div ucast divisor), ucast (n mod ucast divisor))"
    using assms by (simp add: digitDiv_divq_def word_less_nat_alt Let_def n_def)
  ultimately show ?thesis using n by simp blast
qed

section \<open>Properties\<close>

text \<open>
  C18. The portable two-digit by one-digit division \<open>digitDiv\<close> (Knuth's algorithm on half
  digits, with its two correction loops) terminates, passes its assertions, and returns the
  exact quotient and remainder whenever the high digit is below the divisor.
\<close>

theorem digitDiv_correct:
  assumes "high < divisor"
  shows "runs (digitDiv high low divisor) v (\<lambda>e. False) (\<lambda>(q, r).
     unat q = (unat high * Base + unat low) div unat divisor \<and>
     unat r = (unat high * Base + unat low) mod unat divisor)"
  using assms by (intro runs_digitDiv) (simp add: word_less_nat_alt)

theorem digitDiv_correct_witness:
  "(2 :: digit) < 3 \<and>
   runs (digitDiv 2 5 3) \<lparr>allocOk = \<lambda>k. True, junk = \<lambda>k i. 0\<rparr> (\<lambda>e. False) (\<lambda>(q, r).
     unat q = (unat (2 :: digit) * Base + unat (5 :: digit)) div unat (3 :: digit) \<and>
     unat r = (unat (2 :: digit) * Base + unat (5 :: digit)) mod unat (3 :: digit))"
  using digitDiv_correct [of 2 3 5] by simp


text \<open>
  The portable double-width multiplication on half digits computes the same two digits as
  the 128-bit multiplication that the code uses where the compiler has \<open>__uint128_t\<close>.
\<close>

theorem digitMul_portable_equiv: "digitMul_half a b = digitMul a b"
  by (rule digitMul_half_eq)

end
