(* ===== verification/BigInt_Div.thy ===== *)
theory BigInt_Div
  imports BigInt_Mul BigInt_DigitDiv "HOL-Library.Signed_Division"
begin

text \<open>
  Division: \<open>absoluteDivWithDigitDivisor\<close>, the in-place helpers, Knuth's algorithm D in
  \<open>absoluteDivWithBigIntDivisor\<close>, and \<open>div\<close> and \<open>mod\<close> (here \<open>div_bi\<close> and \<open>mod_bi\<close>) of \<open>js/src/vm/BigIntType.cpp\<close>.
\<close>

section \<open>Division by a digit\<close>

text \<open>
  The argument \<open>quotient\<close>: \<open>Nothing()\<close>, an empty handle, or a handle on the dividend itself.
  The result is the quotient, if one was asked for, and the remainder.
\<close>

datatype quotientArg = NoQuotient | EmptyQuotient | SameAsDividend

definition divDigitStep :: "bigint option \<Rightarrow> digit \<Rightarrow> nat \<Rightarrow> bigint \<times> digit \<Rightarrow> (bigint \<times> digit) eng" where
  "divDigitStep dividend divisor i =
     (\<lambda>(quot, remainder).
       bindM (case dividend of None \<Rightarrow> digit quot i | Some x \<Rightarrow> digit x i) (\<lambda>d.
       bindM (digitDiv remainder d divisor) (\<lambda>(q, remainder).
       bindM (setDigit quot i q) (\<lambda>quot.
       returnM (quot, remainder)))))"

definition absoluteDivWithDigitDivisor ::
  "bigint \<Rightarrow> digit \<Rightarrow> quotientArg \<Rightarrow> bool \<Rightarrow> (bigint option \<times> digit) eng" where
  "absoluteDivWithDigitDivisor x divisor quotientA quotientNegative =
     mozAssert (divisor \<noteq> 0) (
     mozAssert (\<not> isZero x) (
     if divisor = 1 then
       (if quotientA = NoQuotient then returnM (None, 0)
        else bindM (if isNegative x = quotientNegative then returnM x else neg x) (\<lambda>q. returnM (Some q, 0)))
     else
       let len = digitLength x in
       (case quotientA of
          NoQuotient \<Rightarrow>
            bindM (forDown len (\<lambda>i remainder.
              bindM (digit x i) (\<lambda>d.
              bindM (digitDiv remainder d divisor) (\<lambda>(q, remainder). returnM remainder))) 0) (\<lambda>remainder.
            returnM (None, remainder))
        | EmptyQuotient \<Rightarrow>
            bindM (createUninitialized len quotientNegative) (\<lambda>q.
            bindM (forDown len (divDigitStep (Some x) divisor) (q, 0)) (\<lambda>(q, remainder).
            returnM (Some q, remainder)))
        | SameAsDividend \<Rightarrow>
            bindM (forDown len (divDigitStep None divisor) (x, 0)) (\<lambda>(q, remainder).
            returnM (Some q, remainder)))))"

section \<open>In-place helpers\<close>

definition absoluteInplaceAdd :: "bigint \<Rightarrow> bigint \<Rightarrow> nat \<Rightarrow> (bigint \<times> digit) eng" where
  "absoluteInplaceAdd this summand startIndex =
     (let n = digitLength summand in
      mozAssert (digitLength this > startIndex) (
      mozAssert (digitLength this - startIndex \<ge> n) (
      forUp 0 n (\<lambda>i (this, carry).
        bindM (digit this (startIndex + i)) (\<lambda>a.
        bindM (digit summand i) (\<lambda>b.
        let (sum, newCarry) = digitAdd a b 0;
            (sum, newCarry) = digitAdd sum carry newCarry
        in bindM (setDigit this (startIndex + i) sum) (\<lambda>this. returnM (this, newCarry)))))
        (this, 0))))"

definition absoluteInplaceSub :: "bigint \<Rightarrow> bigint \<Rightarrow> nat \<Rightarrow> (bigint \<times> digit) eng" where
  "absoluteInplaceSub this subtrahend startIndex =
     (let n = digitLength subtrahend in
      mozAssert (digitLength this > startIndex) (
      mozAssert (digitLength this - startIndex \<ge> n) (
      forUp 0 n (\<lambda>i (this, borrow).
        bindM (digit this (startIndex + i)) (\<lambda>a.
        bindM (digit subtrahend i) (\<lambda>b.
        let (difference, newBorrow) = digitSub a b 0;
            (difference, newBorrow) = digitSub difference borrow newBorrow
        in bindM (setDigit this (startIndex + i) difference) (\<lambda>this. returnM (this, newBorrow)))))
        (this, 0))))"

definition productGreaterThan :: "digit \<Rightarrow> digit \<Rightarrow> digit \<Rightarrow> digit \<Rightarrow> bool" where
  "productGreaterThan factor1 factor2 high low =
     (let (resultLow, resultHigh) = digitMul factor1 factor2
      in resultHigh > high \<or> resultHigh = high \<and> resultLow > low)"

definition inplaceRightShiftLowZeroBits :: "bigint \<Rightarrow> nat \<Rightarrow> bigint eng" where
  "inplaceRightShiftLowZeroBits this shift =
     mozAssert (shift < DigitBits) (
     bindM (digit this 0) (\<lambda>d0.
     mozAssert (d0 AND (shl 1 shift - 1) = 0) (
     if shift = 0 then returnM this
     else
       let last = digitLength this - 1 in
       bindM (forUp 0 last (\<lambda>i (this, carry).
         bindM (digit this (i + 1)) (\<lambda>d.
         bindM (setDigit this i (shl d (DigitBits - shift) OR carry)) (\<lambda>this.
         returnM (this, shr d shift)))) (this, shr d0 shift)) (\<lambda>(this, carry).
       setDigit this last carry))))"

datatype LeftShiftMode = SameSizeResult | AlwaysAddOneDigit

definition absoluteLeftShiftAlwaysCopy :: "bigint \<Rightarrow> nat \<Rightarrow> LeftShiftMode \<Rightarrow> bigint eng" where
  "absoluteLeftShiftAlwaysCopy x shift mode =
     mozAssert (shift < DigitBits) (
     mozAssert (\<not> isZero x) (
     let n = digitLength x;
         resultLength = (if mode = AlwaysAddOneDigit then n + 1 else n)
     in bindM (createUninitialized resultLength (isNegative x)) (\<lambda>result.
     if shift = 0 then
       bindM (forUp 0 n (\<lambda>i result. bindM (digit x i) (\<lambda>d. setDigit result i d)) result) (\<lambda>result.
       if mode = AlwaysAddOneDigit then setDigit result n 0 else returnM result)
     else
       bindM (forUp 0 n (\<lambda>i (result, carry).
         bindM (digit x i) (\<lambda>d.
         bindM (setDigit result i (shl d shift OR carry)) (\<lambda>result.
         returnM (result, shr d (DigitBits - shift))))) (result, 0)) (\<lambda>(result, carry).
       if mode = AlwaysAddOneDigit then setDigit result n carry
       else mozAssert (carry = 0) (returnM result)))))"

section \<open>Algorithm D\<close>

text \<open>
  The loop that corrects the estimate \<open>qhat\<close>; the third component of the state is set by the
  \<open>break\<close> on overflow of \<open>rhat\<close>.
\<close>

definition qhatLoop :: "digit \<Rightarrow> digit \<Rightarrow> digit \<Rightarrow> digit \<Rightarrow> digit \<Rightarrow> (digit \<times> digit \<times> bool) eng" where
  "qhatLoop vn1 vn2 ujn2 qhat rhat =
     whileM
       (\<lambda>(qhat, rhat, brk). \<not> brk \<and> productGreaterThan qhat vn2 rhat ujn2)
       (\<lambda>(qhat, rhat, brk). (qhat - 1, rhat + vn1, rhat + vn1 < rhat))
       (qhat, rhat, False)"

text \<open>D3: the estimate of one quotient digit, from \<open>u\<close> and the shifted divisor \<open>v\<close>.\<close>

definition estimateQhat :: "bigint \<Rightarrow> bigint \<Rightarrow> nat \<Rightarrow> nat \<Rightarrow> digit eng" where
  "estimateQhat u v n j =
     bindM (digit v (n - 1)) (\<lambda>vn1.
     bindM (digit u (j + n)) (\<lambda>ujn.
     if ujn \<noteq> vn1 then
       bindM (digit u (j + n - 1)) (\<lambda>ujn1.
       bindM (digitDiv ujn ujn1 vn1) (\<lambda>(qhat, rhat).
       bindM (digit v (n - 2)) (\<lambda>vn2.
       bindM (digit u (j + n - 2)) (\<lambda>ujn2.
       bindM (qhatLoop vn1 vn2 ujn2 qhat rhat) (\<lambda>(qhat, rhat, brk).
       returnM qhat)))))
     else returnM (- 1)))"

text \<open>D4: subtract \<open>qhat * v\<close>, and undo one subtraction when there was a borrow.\<close>

definition divStep ::
  "bigint \<Rightarrow> nat \<Rightarrow> nat \<Rightarrow> bigint option \<times> bigint \<times> bigint \<Rightarrow> (bigint option \<times> bigint \<times> bigint) eng" where
  "divStep v n j =
     (\<lambda>(q, u, qhatv).
       bindM (estimateQhat u v n j) (\<lambda>qhat.
       bindM (internalMultiplyAdd (Some v) qhat 0 n qhatv) (\<lambda>qhatv.
       bindM (absoluteInplaceSub u qhatv j) (\<lambda>(u, c).
       bindM (if c \<noteq> 0 then
                bindM (absoluteInplaceAdd u v j) (\<lambda>(u, c).
                bindM (digit u (j + n)) (\<lambda>d.
                bindM (setDigit u (j + n) (d + c)) (\<lambda>u.
                returnM (u, qhat - 1))))
              else returnM (u, qhat)) (\<lambda>(u, qhat).
       bindM (case q of None \<Rightarrow> returnM None
              | Some q \<Rightarrow> bindM (setDigit q j qhat) (\<lambda>q. returnM (Some q))) (\<lambda>q.
       returnM (q, u, qhatv)))))))"

text \<open>
  The flags say whether the caller asked for the quotient and for the remainder.  The code hands
  out \<open>q\<close> and not the BigInt that trimming returned: they are the same object unless all digits
  are zero, when trimming returns a fresh zero and leaves \<open>q\<close> as it is.
\<close>

definition absoluteDivWithBigIntDivisor ::
  "bigint \<Rightarrow> bigint \<Rightarrow> bool \<Rightarrow> bool \<Rightarrow> bool \<Rightarrow> (bigint option \<times> bigint option) eng" where
  "absoluteDivWithBigIntDivisor dividend divisor wantQuotient wantRemainder isNeg =
     mozAssert (digitLength divisor \<ge> 2) (
     mozAssert (digitLength dividend \<ge> digitLength divisor) (
     let n = digitLength divisor;
         m = digitLength dividend - n
     in bindM (if wantQuotient then bindM (createUninitialized (m + 1) isNeg) (\<lambda>q. returnM (Some q))
               else returnM None) (\<lambda>q.
     bindM (createUninitialized (n + 1) isNeg) (\<lambda>qhatv.
     bindM (digit divisor (n - 1)) (\<lambda>lastDigit.
     let shift = DigitLeadingZeroes lastDigit in
     bindM (if shift > 0 then absoluteLeftShiftAlwaysCopy divisor shift SameSizeResult
            else returnM divisor) (\<lambda>shiftedDivisor.
     bindM (absoluteLeftShiftAlwaysCopy dividend shift AlwaysAddOneDigit) (\<lambda>u.
     bindM (forDown (m + 1) (divStep shiftedDivisor n) (q, u, qhatv)) (\<lambda>(q, u, qhatv).
     bindM (case q of None \<Rightarrow> returnM None
            | Some q \<Rightarrow>
                bindM (destructivelyTrimHighZeroDigits q) (\<lambda>bi.
                returnM (Some (if isZero bi then q else bi)))) (\<lambda>q.
     bindM (if wantRemainder then bindM (inplaceRightShiftLowZeroBits u shift) (\<lambda>u. returnM (Some u))
            else returnM None) (\<lambda>r.
     returnM (q, r)))))))))))"

section \<open>Signed division\<close>

definition div_bi :: "bigint \<Rightarrow> bigint \<Rightarrow> bigint eng" where
  "div_bi x y =
     (if isZero y then throwM BigIntDivisionByZero
      else if isZero x then returnM x
      else bindM (absoluteCompare x y) (\<lambda>c.
        if c < 0 then zero
        else
          let resultNegative = (isNegative x \<noteq> isNegative y) in
          bindM (digit y 0) (\<lambda>divisor.
          if digitLength y = 1 \<and> divisor = 1 then
            (if resultNegative = isNegative x then returnM x else neg x)
          else
            bindM (if digitLength y = 1
                   then bindM (absoluteDivWithDigitDivisor x divisor EmptyQuotient resultNegative)
                          (\<lambda>(quot, remainder). returnM quot)
                   else bindM (absoluteDivWithBigIntDivisor x y True False resultNegative)
                          (\<lambda>(quot, remainder). returnM quot)) (\<lambda>quot.
            case quot of None \<Rightarrow> throwM AssertFail
            | Some quot \<Rightarrow> destructivelyTrimHighZeroDigits quot))))"

definition mod_bi :: "bigint \<Rightarrow> bigint \<Rightarrow> bigint eng" where
  "mod_bi x y =
     (if isZero y then throwM BigIntDivisionByZero
      else if isZero x then returnM x
      else bindM (absoluteCompare x y) (\<lambda>c.
        if c < 0 then returnM x
        else if digitLength y = 1 then
          bindM (digit y 0) (\<lambda>divisor.
          if divisor = 1 then zero
          else
            bindM (absoluteDivWithDigitDivisor x divisor NoQuotient False) (\<lambda>(q, remainderDigit).
            if remainderDigit = 0 then zero else createFromDigit remainderDigit (isNegative x)))
        else
          bindM (absoluteDivWithBigIntDivisor x y False True (isNegative x)) (\<lambda>(q, remainder).
          case remainder of None \<Rightarrow> throwM AssertFail
          | Some remainder \<Rightarrow> destructivelyTrimHighZeroDigits remainder)))"

section \<open>Division by a digit is exact\<close>

lemma drop_update_Suc: "i < length xs \<Longrightarrow> drop i (xs[i := d]) = d # drop (Suc i) xs"
  by (simp add: drop_update_swap Cons_nth_drop_Suc [symmetric])

lemma div_digit_step:
  assumes "(r * B + a) div d = q" and "(r * B + a) mod d = r'" and "X = Y * d + (r :: nat)"
  shows "a + B * X = (q + B * Y) * d + r'"
proof -
  have "r * B + a = q * d + r'" using assms(1,2) by (metis div_mult_mod_eq)
  then show ?thesis using assms(3) by (simp add: algebra_simps)
qed

lemma runs_divDigitLoop:
  assumes d: "d \<noteq> 0" and len: "length X = digitLength q" and src: "sourceDigits dividend q = X"
    and Q: "\<And>q' r. digitLength q' = digitLength q \<Longrightarrow> isNegative q' = isNegative q \<Longrightarrow>
      unat r < unat d \<Longrightarrow> dval X = dval (digits q') * unat d + unat r \<Longrightarrow> Q (q', r)"
  shows "runs (forDown (length X) (divDigitStep dividend d) (q, 0)) v E Q"
proof (rule runs_forDownI [where I = "\<lambda>i (q', r). digitLength q' = digitLength q \<and> isNegative q' = isNegative q \<and>
      (dividend = None \<longrightarrow> take i (digits q') = take i X) \<and>
      unat r < unat d \<and> dval (drop i X) = dval (drop i (digits q')) * unat d + unat r"], goal_cases)
  case 1
  then show ?case using d len src by (auto simp: sourceDigits_def unat_gt_0)
next
  case (2 j st)
  obtain q' r where st: "st = (q', r)" by (cases st)
  have j: "j < length X" "j < digitLength q'" using 2 st len by auto
  have dig: "(case dividend of None \<Rightarrow> digit q' j | Some x \<Rightarrow> digit x j) = returnM (X ! j)"
  proof (cases dividend)
    case None
    then have "take (Suc j) (digits q') = take (Suc j) X" using 2 st by simp
    then have "digits q' ! j = X ! j" by (metis lessI nth_take)
    then show ?thesis using None j by simp
  next
    case (Some x)
    then have "digits x = X" using src by (simp add: sourceDigits_def)
    then show ?thesis using Some j by auto
  qed
  have r: "unat r < unat d" using 2 st by simp
  have step: "digitLength (q'\<lparr>digits := (digits q')[j := p]\<rparr>) = digitLength q \<and>
      isNegative q' = isNegative q \<and>
      (dividend = None \<longrightarrow> take j ((digits q')[j := p]) = take j X) \<and>
      unat r' < unat d \<and> dval (drop j X) = dval (drop j ((digits q')[j := p])) * unat d + unat r'"
    if p: "unat p = (unat r * Base + unat (X ! j)) div unat d" "unat r' = (unat r * Base + unat (X ! j)) mod unat d"
    for p r'
  proof -
    have "dval (drop j X) = (unat p + Base * dval (drop (Suc j) (digits q'))) * unat d + unat r'"
      unfolding dval_drop_Suc [OF j(1)]
      by (rule div_digit_step [where r = "unat r"]) (use p 2 st in auto)
    moreover have "take j (digits q') = take j X" if "dividend = None"
    proof -
      have "take j (take (Suc j) (digits q')) = take j (take (Suc j) X)" using that 2 st by simp
      then show ?thesis by (simp add: min_def)
    qed
    ultimately show ?thesis
      using 2 st p r j by (auto simp: drop_update_Suc)
  qed
  show ?case
    unfolding divDigitStep_def st prod.case dig bindM_returnM
  proof (rule runs_bindM [OF runs_digitDiv [OF r]], goal_cases)
    case (1 pr)
    then obtain p r' where pr: "pr = (p, r')" "unat p = (unat r * Base + unat (X ! j)) div unat d"
      "unat r' = (unat r * Base + unat (X ! j)) mod unat d" by (cases pr) auto
    from step [OF pr(2,3)] show ?case using j pr(1) by simp
  qed
next
  case (3 st)
  then show ?case by (cases st) (simp add: Q)
qed

lemma mod_digit_step: "(a + B * X) mod d = (X mod d * B + a) mod (d :: nat)"
proof -
  have "(X mod d * B) mod d = (B * X) mod d" by (simp only: mod_mult_right_eq mult.commute [of "X mod d"])
  then show ?thesis by (metis add.commute mod_add_left_eq)
qed

lemma runs_divDigitRemainder:
  assumes d: "d \<noteq> 0"
    and Q: "\<And>r. unat r = dval (digits x) mod unat d \<Longrightarrow> Q r"
  shows "runs (forDown (digitLength x) (\<lambda>i remainder.
      bindM (digit x i) (\<lambda>e. bindM (digitDiv remainder e d) (\<lambda>(q, remainder). returnM remainder))) 0) v E Q"
proof (rule runs_forDownI [where I = "\<lambda>i r. unat r = dval (drop i (digits x)) mod unat d"], goal_cases)
  case (2 j r)
  have "0 < unat d" using d by (simp add: unat_gt_0)
  then have r: "unat r < unat d" using 2 by simp
  have "dval (drop j (digits x)) mod unat d = (unat r * Base + unat (digits x ! j)) mod unat d"
    unfolding 2(2) dval_drop_Suc [OF 2(1)] by (rule mod_digit_step)
  then show ?case
    using 2(1) by (auto intro!: runs_bindI runs_weakenQ [OF runs_digitDiv [OF r]])
qed (use Q in auto)

text \<open>
  The contract of \<open>absoluteDivWithDigitDivisor\<close>: \<open>x = quotient * divisor + remainder\<close> with
  \<open>remainder < divisor\<close>; the quotient keeps the dividend's length and may have leading zeroes.
\<close>

lemma runs_absoluteDivWithDigitDivisor_quotient:
  assumes wf: "wf x" and nz: "\<not> isZero x" "d \<noteq> 0" and arg: "a = EmptyQuotient \<or> a = SameAsDividend \<and> s = isNegative x"
    and E: "\<And>e. oom v e \<Longrightarrow> E e"
    and Q: "\<And>q r. 0 < digitLength q \<Longrightarrow> digitLength q \<le> digitLength x \<Longrightarrow> isNegative q = s \<Longrightarrow>
      dval (digits q) = dval (digits x) div unat d \<Longrightarrow>
      unat r = dval (digits x) mod unat d \<Longrightarrow> Q (Some q, r)"
  shows "runs (absoluteDivWithDigitDivisor x d a s) v E Q"
proof (cases "d = 1")
  case True
  have "runs (neg x) v E (\<lambda>r. Q (Some r, 0))" if "isNegative x \<noteq> s"
  proof -
    have "Q (Some (x\<lparr>isNegative := s\<rparr>), 0)" using True nz by (intro Q) (auto simp: isZero_iff)
    moreover have "x\<lparr>isNegative := s\<rparr> = x\<lparr>isNegative := \<not> isNegative x\<rparr>" using that by auto
    ultimately show ?thesis
      using wf nz E unfolding neg_def by (auto intro!: runs_bindI runs_copy)
  qed
  moreover have "Q (Some x, 0)" if "isNegative x = s"
    using that True nz by (intro Q) (auto simp: isZero_iff)
  ultimately show ?thesis
    using True nz arg by (auto simp: absoluteDivWithDigitDivisor_def intro!: runs_bindI)
next
  case False
  have done1: "Q (Some q, r)" if "digitLength q = digitLength x" "isNegative q = s" "unat r < unat d"
    "dval (digits x) = dval (digits q) * unat d + unat r" for q r
    using that nz by (intro Q) (auto simp: isZero_iff simp flip: length_greater_0_conv)
  have len: "digitLength x \<le> MaxDigitLength" using wf by (rule wf_length)
  show ?thesis
  proof (cases "a = EmptyQuotient")
    case True
    show ?thesis
      using True False nz E len done1
      by (auto simp: absoluteDivWithDigitDivisor_def sourceDigits_def Let_def
          intro!: runs_bindI runs_createUninitialized runs_divDigitLoop)
  next
    case empty: False
    then have "a = SameAsDividend" "s = isNegative x" using arg by auto
    then show ?thesis
      using False nz done1
      by (auto simp: absoluteDivWithDigitDivisor_def sourceDigits_def Let_def intro!: runs_bindI runs_divDigitLoop)
  qed
qed

lemma runs_absoluteDivWithDigitDivisor_remainder:
  assumes nz: "\<not> isZero x" "d \<noteq> 0" and Q: "\<And>r. unat r = dval (digits x) mod unat d \<Longrightarrow> Q (None, r)"
  shows "runs (absoluteDivWithDigitDivisor x d NoQuotient s) v E Q"
  using nz Q [of 0] Q
  by (auto simp: absoluteDivWithDigitDivisor_def intro!: runs_bindI runs_divDigitRemainder)

section \<open>Shifting by less than a digit\<close>

lemma unat_shl_exact: "s < 64 \<Longrightarrow> unat (shl d s) + Base * (unat d div 2 ^ (64 - s)) = unat d * 2 ^ s"
proof -
  assume s: "s < 64"
  then have B: "Base = 2 ^ (64 - s) * 2 ^ s" by (simp add: Base_def flip: power_add)
  have "unat (shl d s) = unat d mod 2 ^ (64 - s) * 2 ^ s"
    using s by (simp only: unat_shl DigitBits_def B mult_mod_left)
  then have "unat (shl d s) + Base * (unat d div 2 ^ (64 - s))
      = (unat d div 2 ^ (64 - s) * 2 ^ (64 - s) + unat d mod 2 ^ (64 - s)) * 2 ^ s"
    unfolding B by (simp only: distrib_left distrib_right ac_simps)
  then show ?thesis by (simp only: div_mult_mod_eq)
qed

lemma unat_shl_or:
  assumes "0 < s" "s < 64" and "unat c < 2 ^ s"
  shows "unat (shl d s OR c) + Base * unat (shr d (64 - s)) = unat d * 2 ^ s + unat c"
  using assms unat_shl_exact [of s d] unat_or_shl [of s c d] unat_shr [of "64 - s" d]
  by (simp add: DigitBits_def)

lemma shr_less: "0 < s \<Longrightarrow> s < 64 \<Longrightarrow> unat (shr d (64 - s)) < 2 ^ s"
proof -
  assume s: "0 < s" "s < 64"
  have "unat d < 2 ^ s * 2 ^ (64 - s)"
    using unat_less_Base [of d] s by (simp add: Base_def flip: power_add)
  then show ?thesis using s by (simp add: unat_shr DigitBits_def less_mult_imp_div_less)
qed

lemma runs_leftShiftLoop:
  assumes s: "0 < s" "s < 64" and len: "digitLength x \<le> digitLength r"
    and Q: "\<And>r' c. digitLength r' = digitLength r \<Longrightarrow> isNegative r' = isNegative r \<Longrightarrow>
      dval (take (digitLength x) (digits r')) + Base ^ digitLength x * unat c = dval (digits x) * 2 ^ s \<Longrightarrow> Q (r', c)"
  shows "runs (forUp 0 (digitLength x) (\<lambda>i (r, carry).
      bindM (digit x i) (\<lambda>d. bindM (setDigit r i (shl d s OR carry)) (\<lambda>r.
      returnM (r, shr d (DigitBits - s))))) (r, 0)) v E Q"
proof (rule runs_forUpI [where I = "\<lambda>i (r', c). digitLength r' = digitLength r \<and> isNegative r' = isNegative r \<and>
      unat c < 2 ^ s \<and> dval (take i (digits r')) + Base ^ i * unat c = dval (take i (digits x)) * 2 ^ s"], goal_cases)
  case (3 i st)
  obtain r' c where st: "st = (r', c)" by (cases st)
  have i: "i < digitLength x" "i < digitLength r'" and c: "unat c < 2 ^ s" using 3 st len by auto
  let ?d = "digits x ! i"
  have "dval (take (Suc i) ((digits r')[i := shl ?d s OR c])) + Base ^ Suc i * unat (shr ?d (64 - s))
      = dval (take (Suc i) (digits x)) * 2 ^ s"
    using carry_step [OF i(2) unat_shl_or [OF s c]] 3 st i by (simp add: dval_take_Suc algebra_simps)
  then show ?case using 3 st i shr_less [OF s] by (simp add: DigitBits_def del: power_Suc)
next
  case (4 st)
  then show ?case by (cases st) (simp add: Q)
qed auto

lemma runs_absoluteLeftShiftAlwaysCopy:
  assumes s: "s < 64" and nz: "\<not> isZero x" and len: "digitLength x \<le> MaxDigitLength"
    and fits: "mode = SameSizeResult \<Longrightarrow> dval (digits x) * 2 ^ s < Base ^ digitLength x"
    and E: "\<And>e. oom v e \<Longrightarrow> E e" "mode = AlwaysAddOneDigit \<Longrightarrow> digitLength x = MaxDigitLength \<Longrightarrow> E BigIntTooLarge"
    and Q: "\<And>r. digitLength r = digitLength x + (if mode = AlwaysAddOneDigit then 1 else 0) \<Longrightarrow>
      digitLength r \<le> MaxDigitLength \<Longrightarrow> isNegative r = isNegative x \<Longrightarrow> dval (digits r) = dval (digits x) * 2 ^ s \<Longrightarrow> Q r"
  shows "runs (absoluteLeftShiftAlwaysCopy x s mode) v E Q"
proof -
  let ?n = "digitLength x" and ?L = "if mode = AlwaysAddOneDigit then digitLength x + 1 else digitLength x"
  have s': "s < DigitBits" using s by (simp add: DigitBits_def)
  have finish: "runs (if mode = AlwaysAddOneDigit then setDigit r ?n c
      else mozAssert (c = 0) (returnM r)) v E Q"
    if r: "digitLength r = ?L" "?L \<le> MaxDigitLength" "isNegative r = isNegative x"
      "dval (take ?n (digits r)) + Base ^ ?n * unat c = dval (digits x) * 2 ^ s" for r c
  proof (cases mode)
    case SameSizeResult
    then have "Base ^ ?n * unat c < Base ^ ?n" using fits r(4) by linarith
    then have "unat c = 0" by simp
    then show ?thesis using SameSizeResult r by (auto simp: unat_eq_zero intro: Q)
  next
    case AlwaysAddOneDigit
    then have "dval ((digits r)[?n := c]) = dval (digits x) * 2 ^ s"
      using r dval_take_Suc_update [of ?n "digits r" c] by simp
    then show ?thesis using AlwaysAddOneDigit r by (auto intro: Q)
  qed
  show ?thesis
    unfolding absoluteLeftShiftAlwaysCopy_def mozAssert_holds [OF s'] mozAssert_holds [OF nz] Let_def
  proof (intro runs_bindI runs_createUninitialized, goal_cases)
    case 2
    then show ?case using len E(2) by (auto split: if_splits)
  next
    case (3 ds)
    show ?case
    proof (cases "s = 0")
      case True
      have "runs (forUp 0 ?n (\<lambda>i r. bindM (digit x i) (\<lambda>d. setDigit r i d)) \<lparr>digits = ds, isNegative = isNegative x\<rparr>) v E
          (\<lambda>r. digitLength r = ?L \<and> isNegative r = isNegative x \<and> take ?n (digits r) = digits x)"
        by (rule runs_forUpI [where I = "\<lambda>i r. digitLength r = ?L \<and> isNegative r = isNegative x \<and>
              take i (digits r) = take i (digits x)"])
          (use 3 in \<open>auto simp: take_Suc_update_nth\<close>)
      then show ?thesis
        unfolding if_P [OF True] using finish [where c = 0] True 3(2)
        by (auto intro!: runs_bindI elim!: runs_weakenQ)
    next
      case False
      then have "0 < s" by simp
      then show ?thesis
        unfolding if_not_P [OF False] using 3 finish s
        by (intro runs_bindI runs_leftShiftLoop) auto
    qed
  qed (use E in auto)
qed

lemma unat_and_low_mask: "s < 64 \<Longrightarrow> unat (d AND (shl 1 s - 1)) = unat d mod 2 ^ s"
proof -
  assume "s < 64"
  then have "shl 1 s - 1 = (mask s :: digit)"
    by (simp add: shl_def DigitBits_def mask_eq_exp_minus_1 push_bit_of_1)
  then have "unat (d AND (shl 1 s - 1)) = unat (take_bit s d)" by (simp add: take_bit_eq_mask)
  then show ?thesis by (simp add: unsigned_take_bit_eq take_bit_eq_mod [of s "unat d"])
qed

lemma shiftRight_step:
  assumes s: "0 < s" "s < 64" and c: "unat c < 2 ^ (64 - s)"
  shows "2 ^ s * (unat (shl d (64 - s) OR c) + Base * unat (shr d s)) = 2 ^ s * unat c + Base * unat d"
proof -
  have "unat (shl d (64 - s) OR c) + Base * unat (shr d s) = unat d * 2 ^ (64 - s) + unat c"
    using unat_shl_or [of "64 - s" c d] s c by simp
  moreover have "Base = 2 ^ s * 2 ^ (64 - s)" using s by (simp add: Base_def flip: power_add)
  ultimately show ?thesis by (simp add: algebra_simps)
qed

lemma drop_eq_split:
  "drop i xs = drop i ys \<Longrightarrow> i < length xs \<Longrightarrow> i < length ys \<Longrightarrow> xs ! i = ys ! i \<and> drop (Suc i) xs = drop (Suc i) ys"
  by (metis Cons_nth_drop_Suc list.inject)

lemma runs_rightShiftLoop:
  assumes s: "0 < s" "s < 64" and ne: "digits x \<noteq> []" and low: "unat (digits x ! 0) mod 2 ^ s = 0"
    and Q: "\<And>r c. digitLength r = digitLength x \<Longrightarrow> isNegative r = isNegative x \<Longrightarrow>
      2 ^ s * (dval (take (digitLength x - 1) (digits r)) + Base ^ (digitLength x - 1) * unat c) = dval (digits x) \<Longrightarrow>
      Q (r, c)"
  shows "runs (forUp 0 (digitLength x - 1) (\<lambda>i (this, carry).
      bindM (digit this (i + 1)) (\<lambda>d. bindM (setDigit this i (shl d (DigitBits - s) OR carry)) (\<lambda>this.
      returnM (this, shr d s)))) (x, shr (digits x ! 0) s)) v E Q"
proof (rule runs_forUpI [where I = "\<lambda>i (r, c). digitLength r = digitLength x \<and> isNegative r = isNegative x \<and>
      drop (Suc i) (digits r) = drop (Suc i) (digits x) \<and> unat c < 2 ^ (64 - s) \<and>
      2 ^ s * (dval (take i (digits r)) + Base ^ i * unat c) = dval (take (Suc i) (digits x))"], goal_cases)
  case 1
  have "unat (shr (digits x ! 0) s) < 2 ^ (64 - s)" using shr_less [of "64 - s" "digits x ! 0"] s by simp
  moreover have "2 ^ s * unat (shr (digits x ! 0) s) = unat (digits x ! 0)"
    using low s by (simp add: unat_shr DigitBits_def mod_eq_0_iff_dvd)
  ultimately show ?case using ne by (simp add: dval_take_Suc)
next
  case (3 i st)
  obtain r c where st: "st = (r, c)" by (cases st)
  have i: "i < digitLength r" "Suc i < digitLength r" "Suc i < digitLength x" using 3 st by auto
  have c: "unat c < 2 ^ (64 - s)" using 3 st by simp
  let ?d = "digits x ! Suc i"
  have "drop (Suc i) (digits r) = drop (Suc i) (digits x)" using 3 st by simp
  from drop_eq_split [OF this i(2,3)]
  have d: "digits r ! Suc i = ?d" and rest: "drop (Suc (Suc i)) (digits r) = drop (Suc (Suc i)) (digits x)"
    by simp_all
  have "2 ^ s * (dval (take (Suc i) ((digits r)[i := shl ?d (64 - s) OR c])) + Base ^ Suc i * unat (shr ?d s))
      = 2 ^ s * (dval (take i (digits r)) + Base ^ i * (unat (shl ?d (64 - s) OR c) + Base * unat (shr ?d s)))"
    using carry_step [OF i(1) refl, of "shl ?d (64 - s) OR c" "unat (shr ?d s)"] by simp
  also have "\<dots> = 2 ^ s * (dval (take i (digits r)) + Base ^ i * unat c) + Base ^ i * (Base * unat ?d)"
    using arg_cong [OF shiftRight_step [OF s c, of ?d], of "\<lambda>t. Base ^ i * t"] by (simp add: algebra_simps)
  also have "\<dots> = dval (take (Suc (Suc i)) (digits x))"
    using 3 st i by (simp add: dval_take_Suc [of "Suc i"])
  finally show ?case
    using 3 st i d rest shr_less [of "64 - s" ?d] s by (simp add: DigitBits_def del: power_Suc)
next
  case (4 st)
  then show ?case using ne Q by (cases st) simp
qed simp

lemma dval_drop_div: "dval (drop j xs) = dval xs div Base ^ j"
proof (cases "j \<le> length xs")
  case True
  then have "dval xs = dval (take j xs) + Base ^ j * dval (drop j xs)" using dval_take_drop by metis
  then show ?thesis using dval_take_less [of j xs] by simp
next
  case False
  then have "Base ^ length xs \<le> Base ^ j" by (intro power_increasing) auto
  then show ?thesis using dval_less [of xs] False by simp
qed

lemma dval_take_mod: "dval (take j xs) = dval xs mod Base ^ j"
proof (cases "j \<le> length xs")
  case True
  then have "dval xs = dval (take j xs) + Base ^ j * dval (drop j xs)" using dval_take_drop by metis
  then show ?thesis using dval_take_less [of j xs] by simp
next
  case False
  then have "Base ^ length xs \<le> Base ^ j" by (intro power_increasing) auto
  then show ?thesis using dval_less [of xs] False by simp
qed

lemma runs_inplaceRightShiftLowZeroBits:
  assumes s: "s < 64" and ne: "digits x \<noteq> []" and val: "dval (digits x) = X * 2 ^ s"
    and Q: "\<And>r. digitLength r = digitLength x \<Longrightarrow> isNegative r = isNegative x \<Longrightarrow> dval (digits r) = X \<Longrightarrow> Q r"
  shows "runs (inplaceRightShiftLowZeroBits x s) v E Q"
proof -
  let ?d = "digits x ! 0" and ?last = "digitLength x - 1"
  have B: "Base = 2 ^ (64 - s) * 2 ^ s" using s by (simp add: Base_def flip: power_add)
  have "unat ?d = dval (take (Suc 0) (digits x))" using ne by (cases "digits x") simp_all
  also have "\<dots> = X * 2 ^ s mod (2 ^ (64 - s) * 2 ^ s)" using dval_take_mod [of "Suc 0" "digits x"] val B by simp
  finally have low: "unat ?d mod 2 ^ s = 0" by (simp add: mult_mod_left)
  then have assert: "?d AND (shl 1 s - 1) = 0" using unat_and_low_mask [OF s, of ?d] by (simp add: unat_eq_zero)
  have s': "s < DigitBits" using s by (simp add: DigitBits_def)
  have ne': "0 < digitLength x" using ne by simp
  show ?thesis
  proof (cases "s = 0")
    case True
    then show ?thesis using s' ne' assert val Q [of x] by (simp add: inplaceRightShiftLowZeroBits_def)
  next
    case False
    then have pos: "0 < s" by simp
    show ?thesis
      unfolding inplaceRightShiftLowZeroBits_def mozAssert_holds [OF s'] digit_in_range [OF ne'] bindM_returnM
        mozAssert_holds [OF assert] if_not_P [OF False] Let_def
    proof (intro runs_bindI runs_rightShiftLoop [OF pos s ne low], goal_cases)
      case (1 r c)
      have "dval ((digits r)[?last := c]) = dval (take ?last (digits r)) + Base ^ ?last * unat c"
        using 1 ne' dval_take_Suc_update [of ?last "digits r" c] by simp
      moreover have "2 ^ s * (dval (take ?last (digits r)) + Base ^ ?last * unat c) = 2 ^ s * X"
        using 1 val by (simp add: mult.commute)
      ultimately have "dval ((digits r)[?last := c]) = X" by simp
      then show ?case using 1 ne' Q by simp
    qed
  qed
qed

section \<open>In-place addition and subtraction\<close>

lemma runs_absoluteInplaceAdd:
  assumes len: "j < digitLength u" "j + digitLength y \<le> digitLength u"
    and Q: "\<And>r c. digitLength r = digitLength u \<Longrightarrow> isNegative r = isNegative u \<Longrightarrow>
      drop (j + digitLength y) (digits r) = drop (j + digitLength y) (digits u) \<Longrightarrow> unat c \<le> 1 \<Longrightarrow>
      dval (digits r) + Base ^ (j + digitLength y) * unat c = dval (digits u) + Base ^ j * dval (digits y) \<Longrightarrow> Q (r, c)"
  shows "runs (absoluteInplaceAdd u y j) v E Q"
proof -
  have asserts: "digitLength u > j" "digitLength u - j \<ge> digitLength y" using len by auto
  show ?thesis
    unfolding absoluteInplaceAdd_def Let_def mozAssert_holds [OF asserts(1)] mozAssert_holds [OF asserts(2)]
  proof (rule runs_forUpI [where I = "\<lambda>i (r, c). digitLength r = digitLength u \<and> isNegative r = isNegative u \<and>
        drop (j + i) (digits r) = drop (j + i) (digits u) \<and> unat c \<le> 1 \<and>
        dval (digits r) + Base ^ (j + i) * unat c = dval (digits u) + Base ^ j * dval (take i (digits y))"], goal_cases)
    case (3 i st)
    obtain r c where st: "st = (r, c)" by (cases st)
    have i: "j + i < digitLength r" "j + i < digitLength u" "i < digitLength y" using 3 st len by auto
    have c: "unat c \<le> 1" using 3 st by simp
    obtain s1 c1 where a1: "digitAdd (digits r ! (j + i)) (digits y ! i) 0 = (s1, c1)" by fastforce
    obtain s2 c2 where a2: "digitAdd s1 c c1 = (s2, c2)" by fastforce
    have "drop (j + i) (digits r) = drop (j + i) (digits u)" using 3 st by simp
    from drop_eq_split [OF this i(1,2)]
    have rest: "drop (j + Suc i) (digits r) = drop (j + Suc i) (digits u)" by simp
    have "Base ^ (j + i) * (unat s2 + Base * unat c2)
        = Base ^ (j + i) * (unat (digits r ! (j + i)) + unat (digits y ! i) + unat c)"
      using addPair_step(1) [OF a1 a2 c] by simp
    then have "dval ((digits r)[j + i := s2]) + Base ^ (j + Suc i) * unat c2
        = dval (digits u) + Base ^ j * dval (take (Suc i) (digits y))"
      using dval_update [OF i(1), of s2] 3 st i by (simp add: dval_take_Suc power_add algebra_simps)
    then show ?case
      using 3 st i rest addPair_step(2) [OF a1 a2 c] by (simp add: a1 a2 del: add_Suc_right power_Suc)
  next
    case (4 st)
    then show ?case by (cases st) (simp add: Q)
  qed auto
qed

lemma runs_absoluteInplaceSub:
  assumes len: "j < digitLength u" "j + digitLength y \<le> digitLength u"
    and Q: "\<And>r c. digitLength r = digitLength u \<Longrightarrow> isNegative r = isNegative u \<Longrightarrow>
      drop (j + digitLength y) (digits r) = drop (j + digitLength y) (digits u) \<Longrightarrow> unat c \<le> 1 \<Longrightarrow>
      dval (digits r) + Base ^ j * dval (digits y) = dval (digits u) + Base ^ (j + digitLength y) * unat c \<Longrightarrow> Q (r, c)"
  shows "runs (absoluteInplaceSub u y j) v E Q"
proof -
  have asserts: "digitLength u > j" "digitLength u - j \<ge> digitLength y" using len by auto
  show ?thesis
    unfolding absoluteInplaceSub_def Let_def mozAssert_holds [OF asserts(1)] mozAssert_holds [OF asserts(2)]
  proof (rule runs_forUpI [where I = "\<lambda>i (r, c). digitLength r = digitLength u \<and> isNegative r = isNegative u \<and>
        drop (j + i) (digits r) = drop (j + i) (digits u) \<and> unat c \<le> 1 \<and>
        dval (digits r) + Base ^ j * dval (take i (digits y)) = dval (digits u) + Base ^ (j + i) * unat c"], goal_cases)
    case (3 i st)
    obtain r c where st: "st = (r, c)" by (cases st)
    have i: "j + i < digitLength r" "j + i < digitLength u" "i < digitLength y" using 3 st len by auto
    have c: "unat c \<le> 1" using 3 st by simp
    obtain s1 c1 where a1: "digitSub (digits r ! (j + i)) (digits y ! i) 0 = (s1, c1)" by fastforce
    obtain s2 c2 where a2: "digitSub s1 c c1 = (s2, c2)" by fastforce
    have "drop (j + i) (digits r) = drop (j + i) (digits u)" using 3 st by simp
    from drop_eq_split [OF this i(1,2)]
    have rest: "drop (j + Suc i) (digits r) = drop (j + Suc i) (digits u)" by simp
    have "Base ^ (j + i) * (unat (digits r ! (j + i)) + Base * unat c2)
        = Base ^ (j + i) * (unat s2 + unat (digits y ! i) + unat c)"
      using subPair_step(1) [OF a1 a2 c] by simp
    then have "dval ((digits r)[j + i := s2]) + Base ^ j * dval (take (Suc i) (digits y))
        = dval (digits u) + Base ^ (j + Suc i) * unat c2"
      using dval_update [OF i(1), of s2] 3 st i by (simp add: dval_take_Suc power_add algebra_simps)
    then show ?case
      using 3 st i rest subPair_step(2) [OF a1 a2 c] by (simp add: a1 a2 del: add_Suc_right power_Suc)
  next
    case (4 st)
    then show ?case by (cases st) (simp add: Q)
  qed auto
qed

section \<open>The estimate of a quotient digit\<close>

lemma productGreaterThan_iff:
  "productGreaterThan a b h l \<longleftrightarrow> unat a * unat b > Base * unat h + unat l"
proof -
  obtain rl rh where m: "digitMul a b = (rl, rh)" by fastforce
  have eq: "unat a * unat b = unat rl + Base * unat rh" using digitMul_spec [OF m] by simp
  have "productGreaterThan a b h l \<longleftrightarrow> unat h < unat rh \<or> unat rh = unat h \<and> unat l < unat rl"
    by (simp add: productGreaterThan_def m word_less_nat_alt word_unat_eq_iff)
  also have "\<dots> \<longleftrightarrow> unat rl + Base * unat rh > Base * unat h + unat l"
  proof (cases "unat rh" "unat h" rule: linorder_cases)
    case less
    then have "Base * Suc (unat rh) \<le> Base * unat h" by (intro mult_left_mono) auto
    then show ?thesis using less unat_less_Base [of rl] by simp
  next
    case greater
    then have "Base * Suc (unat h) \<le> Base * unat rh" by (intro mult_left_mono) auto
    then show ?thesis using greater unat_less_Base [of l] by simp
  qed auto
  finally show ?thesis using eq by simp
qed

text \<open>
  With \<open>V2\<close> the top two digits of the divisor and \<open>W2\<close> the top three of the dividend, the
  loop stops with an estimate that is at least the true digit \<open>q\<close> and whose product with \<open>V2\<close> is
  at most \<open>W2\<close>.
\<close>

lemma runs_qhatLoop:
  assumes start: "unat qhat * unat vn1 + unat rhat = N" and vn1: "0 < unat vn1"
    and lower: "q * (unat vn1 * Base + unat vn2) \<le> N * Base + unat u2" "q \<le> unat qhat"
    and Q: "\<And>qhat' rhat' b. q \<le> unat qhat' \<Longrightarrow>
      unat qhat' * (unat vn1 * Base + unat vn2) \<le> N * Base + unat u2 \<Longrightarrow> Q (qhat', rhat', b)"
  shows "runs (qhatLoop vn1 vn2 u2 qhat rhat) v E Q"
  unfolding qhatLoop_def
proof (rule runs_whileM [where f = "\<lambda>(p, r, b). unat p" and P = "\<lambda>(p, r, b). q \<le> unat p \<and>
      (if b then unat p * (unat vn1 * Base + unat vn2) \<le> N * Base + unat u2 else unat p * unat vn1 + unat r = N)"],
    goal_cases)
  case 1
  then show ?case using start lower by simp
next
  have step: "q < unat p \<and> q \<le> unat p - 1 \<and> unat (p - 1) = unat p - 1"
    if inv: "q \<le> unat p" "unat p * unat vn1 + unat r = N" and test: "productGreaterThan p vn2 r u2" for p r
  proof -
    have "unat p * (unat vn1 * Base + unat vn2) > N * Base + unat u2"
      using test unfolding inv(2) [symmetric] by (simp add: productGreaterThan_iff algebra_simps)
    then have "q * (unat vn1 * Base + unat vn2) < unat p * (unat vn1 * Base + unat vn2)" using lower(1) by linarith
    then have "q < unat p" by simp
    moreover have "p \<noteq> 0" using calculation by auto
    ultimately show ?thesis by (auto simp: unat_minus_one)
  qed
  {
    case (2 s)
    obtain p r b where s: "s = (p, r, b)" by (cases s)
    have inv: "q \<le> unat p" "unat p * unat vn1 + unat r = N" "productGreaterThan p vn2 r u2" using 2 s by auto
    note st = step [OF inv]
    have "(unat p - 1) * unat vn1 + (unat r + unat vn1) = N"
      using inv(2) st by (cases "unat p") auto
    then have N: "unat (p - 1) * unat vn1 + (unat r + unat vn1) = N" using st by simp
    show ?case
    proof (cases "r + vn1 < r")
      case False
      then have "unat (r + vn1) = unat r + unat vn1" by (simp add: digit_overflow unat_plus_digit)
      then show ?thesis using False s st N by simp
    next
      case True
      then have "Base * Base \<le> (unat r + unat vn1) * Base"
        by (intro mult_right_mono) (simp_all add: digit_overflow)
      moreover have "unat (p - 1) * unat vn2 < Base * Base" by (rule unat_mult_less)
      moreover have "N * Base = unat (p - 1) * (unat vn1 * Base) + (unat r + unat vn1) * Base"
        unfolding N [symmetric] by (simp add: algebra_simps)
      ultimately have "unat (p - 1) * (unat vn1 * Base) + unat (p - 1) * unat vn2 \<le> N * Base + unat u2" by linarith
      then show ?thesis using True s st by (simp add: distrib_left)
    qed
  next
    case (3 s)
    obtain p r b where s: "s = (p, r, b)" by (cases s)
    have inv: "q \<le> unat p" "unat p * unat vn1 + unat r = N" "productGreaterThan p vn2 r u2" using 3 s by auto
    from step [OF inv] show ?case using s by simp
  next
    case (4 s)
    obtain p r b where s: "s = (p, r, b)" by (cases s)
    have "unat p * (unat vn1 * Base + unat vn2) \<le> N * Base + unat u2"
    proof (cases b)
      case True
      then show ?thesis using 4 s by simp
    next
      case False
      then have "unat p * unat vn1 + unat r = N" "unat p * unat vn2 \<le> Base * unat r + unat u2"
        using 4 s by (auto simp: productGreaterThan_iff)
      then show ?thesis by (auto simp: algebra_simps)
    qed
    then show ?case using 4 s Q by simp
  }
qed

text \<open>
  The situation at the head of step \<open>j\<close>: the divisor \<open>v\<close> is normalised, and the digits of \<open>u\<close>
  above \<open>j\<close> are a remainder.
\<close>

definition knuth_window :: "bigint \<Rightarrow> bigint \<Rightarrow> nat \<Rightarrow> nat \<Rightarrow> bool" where
  "knuth_window u v n j \<longleftrightarrow> digitLength v = n \<and> 2 \<le> n \<and> Base \<le> 2 * unat (digits v ! (n - 1)) \<and>
     j + n < digitLength u \<and> dval (drop (Suc j) (digits u)) < dval (digits v)"

lemma dval_split_top2:
  assumes "length vs = k + 2"
  shows "dval vs = dval (take k vs) + Base ^ k * (unat (vs ! (k + 1)) * Base + unat (vs ! k))"
proof -
  have "dval (drop k vs) = unat (vs ! k) + Base * (unat (vs ! (k + 1)) + Base * dval (drop (k + 2) vs))"
    using assms by (simp add: dval_drop_Suc)
  then show ?thesis using dval_take_drop [of k vs] assms by (simp add: algebra_simps)
qed

lemma estimate_lower:
  fixes q :: nat
  assumes "q * (Vl + P * V2) \<le> Wl + P * W2" and "Wl < P"
  shows "q * V2 \<le> W2"
proof -
  have "q * (P * V2) \<le> q * (Vl + P * V2)" by (intro mult_left_mono) simp_all
  moreover have "P * (q * V2) = q * (P * V2)" by (simp add: ac_simps)
  ultimately have "P * (q * V2) \<le> Wl + P * W2" using assms(1) by linarith
  also have "\<dots> < P * Suc W2" using assms(2) by simp
  finally show ?thesis by (simp only: mult_less_cancel1 less_Suc_eq_le)
qed

lemma estimate_upper:
  fixes p :: nat
  assumes "p * V2 \<le> W2" and "Vl < P" and "p < B" and "B * P \<le> Vl + P * V2"
  shows "p \<le> (Wl + P * W2) div (Vl + P * V2) + 1"
proof -
  let ?V = "Vl + P * V2" and ?W = "Wl + P * W2"
  have "0 < P" "0 < B" using assms(2,3) by auto
  then have V: "0 < ?V" using assms(4) by (metis gr0I mult_pos_pos not_less)
  have "p * ?V = p * Vl + P * (p * V2)" by (simp add: algebra_simps)
  also have "\<dots> \<le> p * P + P * W2" using assms(1,2) by (intro add_mono mult_left_mono) auto
  also have "\<dots> < B * P + P * W2" using assms(3) \<open>0 < P\<close> by simp
  also have "\<dots> \<le> ?V + ?W" using assms(4) by simp
  also have "\<dots> < ?V + ?V * Suc (?W div ?V)" using V by (simp add: dividend_less_times_div)
  also have "\<dots> = (?W div ?V + 2) * ?V" by (simp add: algebra_simps)
  finally have "p < ?W div ?V + 2" by (simp only: mult_less_cancel2)
  then show ?thesis by simp
qed

text \<open>When the top digits agree the estimate \<open>B - 1\<close> is right, or one too large.\<close>

lemma estimate_max:
  fixes B :: nat
  assumes "B \<le> 2 * a" and "2 \<le> B" and "V < P * (a + 1)" and "P * (B * a) \<le> W" and "0 < V"
  shows "B - 1 \<le> W div V + 1"
proof -
  obtain b where b: "B = b + 2" using assms(2) by (metis add.commute le_Suc_ex)
  have "b * (a + 1) \<le> B * a" using assms(1) by (simp add: b)
  then have "P * (b * (a + 1)) \<le> P * (B * a)" by (rule mult_left_mono) simp
  moreover have "b * V \<le> b * (P * (a + 1))" using assms(3) by (intro mult_left_mono) auto
  ultimately have "b * V \<le> W" using assms(4) by (simp add: algebra_simps)
  then have "b \<le> W div V" using assms(5) by (simp add: less_eq_div_iff_mult_less_eq)
  then show ?thesis using b by simp
qed

text \<open>The parts of the window: top digits, the digits below them, and nothing above.\<close>

lemma knuth_window_parts:
  assumes "knuth_window u v n j"
  defines "k \<equiv> n - 2"
  obtains Vl Wl where "Vl < Base ^ k" and "Wl < Base ^ k"
    and "dval (digits v) = Vl + Base ^ k * (unat (digits v ! (n - 1)) * Base + unat (digits v ! (n - 2)))"
    and "dval (drop j (digits u)) = Wl + Base ^ k *
      ((unat (digits u ! (j + n)) * Base + unat (digits u ! (j + n - 1))) * Base + unat (digits u ! (j + n - 2)))"
    and "unat (digits u ! (j + n)) \<le> unat (digits v ! (n - 1))"
    and "dval (drop (j + n + 1) (digits u)) = 0"
proof -
  let ?u = "digits u" and ?v = "digits v"
  have n: "n = k + 2" "length ?v = k + 2" and len: "j + k + 2 < length ?u"
    and rem: "dval (drop (Suc j) ?u) < dval ?v"
    using assms by (auto simp: knuth_window_def)
  have V: "dval ?v = dval (take k ?v) + Base ^ k * (unat (?v ! (k + 1)) * Base + unat (?v ! k))"
    using n(2) by (rule dval_split_top2)
  have top: "dval (drop (j + k + 2) ?u) = unat (?u ! (j + k + 2)) + Base * dval (drop (Suc (j + k + 2)) ?u)"
    using len by (rule dval_drop_Suc)
  have "dval (drop (j + 1) ?u) div Base ^ (k + 1) = dval (drop (k + 1) (drop (j + 1) ?u))"
    by (simp only: dval_drop_div)
  also have "\<dots> = dval (drop (j + k + 2) ?u)" by (simp add: add.commute)
  finally have "dval (drop (j + k + 2) ?u) * Base ^ (k + 1) \<le> dval (drop (j + 1) ?u)"
    by (metis div_times_less_eq_dividend)
  also have "\<dots> < dval ?v" using rem by simp
  also have "\<dots> < Suc (unat (?v ! (k + 1))) * Base ^ (k + 1)"
  proof -
    have "dval (take k ?v) + Base ^ k * unat (?v ! k) < Base ^ k * Suc (unat (?v ! k))"
      using dval_take_less [of k ?v] by simp
    also have "\<dots> \<le> Base ^ k * Base" using unat_less_Base [of "?v ! k"] by (intro mult_left_mono) auto
    finally show ?thesis using V by (simp add: algebra_simps)
  qed
  finally have "dval (drop (j + k + 2) ?u) < Suc (unat (?v ! (k + 1)))" by (simp only: mult_less_cancel2)
  then have le: "dval (drop (j + k + 2) ?u) \<le> unat (?v ! (k + 1))" by simp
  then have "unat (?u ! (j + k + 2)) + Base * dval (drop (Suc (j + k + 2)) ?u) < Base"
    using top unat_less_Base [of "?v ! (k + 1)"] by linarith
  then have zero: "dval (drop (Suc (j + k + 2)) ?u) = 0" by (cases "dval (drop (Suc (j + k + 2)) ?u)") auto
  have "dval (drop (j + k) ?u) = unat (?u ! (j + k)) + Base * (unat (?u ! (j + k + 1)) + Base * unat (?u ! (j + k + 2)))"
    using len top zero by (simp add: dval_drop_Suc)
  moreover have "dval (drop j ?u) = dval (take k (drop j ?u)) + Base ^ k * dval (drop (j + k) ?u)"
    using dval_take_drop [of k "drop j ?u"] len by (simp add: add.commute)
  ultimately have W: "dval (drop j ?u) = dval (take k (drop j ?u)) + Base ^ k *
      ((unat (?u ! (j + k + 2)) * Base + unat (?u ! (j + k + 1))) * Base + unat (?u ! (j + k)))"
    by (simp add: algebra_simps)
  show thesis
  proof (rule that [of "dval (take k ?v)" "dval (take k (drop j ?u))"])
    show "unat (?u ! (j + n)) \<le> unat (?v ! (n - 1))" using le top zero n(1) by simp
  qed (use V W zero dval_take_less n(1) in simp_all)
qed

lemma runs_estimateQhat:
  assumes win: "knuth_window u v n j"
    and Q: "\<And>p. dval (drop j (digits u)) div dval (digits v) \<le> unat p \<Longrightarrow>
      unat p \<le> dval (drop j (digits u)) div dval (digits v) + 1 \<Longrightarrow> Q p"
  shows "runs (estimateQhat u v n j) env E Q"
proof -
  let ?vn1 = "digits v ! (n - 1)" and ?vn2 = "digits v ! (n - 2)"
  let ?un = "digits u ! (j + n)" and ?un1 = "digits u ! (j + n - 1)" and ?un2 = "digits u ! (j + n - 2)"
  let ?V = "dval (digits v)" and ?W = "dval (drop j (digits u))" and ?P = "Base ^ (n - 2)"
  let ?V2 = "unat ?vn1 * Base + unat ?vn2" and ?W2 = "(unat ?un * Base + unat ?un1) * Base + unat ?un2"
  obtain Vl Wl where parts: "Vl < ?P" "Wl < ?P" "?V = Vl + ?P * ?V2" "?W = Wl + ?P * ?W2" "unat ?un \<le> unat ?vn1"
    using knuth_window_parts [OF win] by metis
  have n: "digitLength v = n" "2 \<le> n" "j + n < digitLength u" and half: "Base \<le> 2 * unat ?vn1"
    using win by (auto simp: knuth_window_def)
  have reads: "n - 1 < digitLength v" "n - 2 < digitLength v" "j + n - 1 < digitLength u" "j + n - 2 < digitLength u"
    using n by auto
  have vn1: "0 < unat ?vn1" using half Base_pos by linarith
  have big: "Base * ?P \<le> ?V"
  proof -
    have "?P * (1 * Base) \<le> ?P * (unat ?vn1 * Base)" using vn1 by (intro mult_left_mono mult_right_mono) auto
    moreover have "?P * (1 * Base) = Base * ?P" by simp
    moreover have "?P * ?V2 = ?P * (unat ?vn1 * Base) + ?P * unat ?vn2" by (rule distrib_left)
    ultimately show ?thesis using parts(3) by linarith
  qed
  have Vpos: "0 < ?V" using big Base_pos by (metis gr0I mult_pos_pos not_less zero_less_power)
  have "?W div ?V * ?V \<le> ?W" by (rule div_times_less_eq_dividend)
  then have lower: "?W div ?V * ?V2 \<le> ?W2"
    using estimate_lower [OF _ parts(2)] unfolding parts(3,4) by blast
  have W_less: "?W < Base * ?V"
  proof -
    have "dval (drop (Suc j) (digits u)) < ?V" using win by (simp add: knuth_window_def)
    then have "Base * Suc (dval (drop (Suc j) (digits u))) \<le> Base * ?V" by (intro mult_left_mono) auto
    then show ?thesis using n unat_less_Base [of "digits u ! j"] by (simp add: dval_drop_Suc)
  qed
  show ?thesis
  proof (cases "?un = ?vn1")
    case True
    have "?V < ?P * Base * (unat ?vn1 + 1)"
    proof -
      have "Vl + ?P * unat ?vn2 < ?P * Suc (unat ?vn2)" using parts(1) by simp
      also have "\<dots> \<le> ?P * Base" using unat_less_Base [of ?vn2] by (intro mult_left_mono) auto
      finally show ?thesis unfolding parts(3) by (simp add: algebra_simps)
    qed
    moreover have "?P * Base * (Base * unat ?vn1) \<le> ?W"
      unfolding parts(4) True by (simp add: algebra_simps)
    ultimately have "Base - 1 \<le> ?W div ?V + 1"
      using half Base_gt_3 Vpos by (intro estimate_max [where P = "?P * Base" and a = "unat ?vn1"]) auto
    moreover have "?W div ?V < Base" using W_less by (simp add: less_mult_imp_div_less)
    ultimately have "Q (- 1)" by (intro Q) (auto simp: unat_max_digit)
    then show ?thesis using True reads n by (simp add: estimateQhat_def)
  next
    case False
    then have "unat ?un \<noteq> unat ?vn1" unfolding word_unat_eq_iff .
    then have lt: "unat ?un < unat ?vn1" using parts(5) by simp
    have after: "runs (bindM (qhatLoop ?vn1 ?vn2 ?un2 p r) (\<lambda>(qhat, rhat, brk). returnM qhat)) env E Q"
      if p: "unat p = (unat ?un * Base + unat ?un1) div unat ?vn1"
        and r: "unat r = (unat ?un * Base + unat ?un1) mod unat ?vn1" for p r
    proof (intro runs_bindI runs_qhatLoop [where q = "?W div ?V" and N = "unat ?un * Base + unat ?un1"], goal_cases)
      case 4
      have "?W div ?V * (unat ?vn1 * Base) < (unat ?un * Base + unat ?un1 + 1) * Base"
        using lower unat_less_Base [of ?un2] by (simp add: algebra_simps)
      then have "?W div ?V * unat ?vn1 < unat ?un * Base + unat ?un1 + 1"
        by (simp only: mult.assoc [symmetric] mult_less_cancel2)
      then show ?case using p vn1 by (simp add: less_eq_div_iff_mult_less_eq)
    next
      case (5 p' r' b)
      have "unat p' \<le> ?W div ?V + 1"
        unfolding parts(3,4)
        by (rule estimate_upper [where B = Base]) (use 5 parts(1) unat_less_Base big in \<open>auto simp: parts(3)\<close>)
      then show ?case using 5 Q by simp
    qed (use p r vn1 lower in simp_all)
    show ?thesis
      unfolding estimateQhat_def digit_in_range [OF reads(1)] digit_in_range [OF n(3)] bindM_returnM
        digit_in_range [OF reads(2)] digit_in_range [OF reads(3)] digit_in_range [OF reads(4)]
        if_P [OF False]
      by (rule runs_bindM [OF runs_digitDiv [OF lt]]) (use after in auto)
  qed
qed

section \<open>One step of algorithm D\<close>

lemma dval_less_if_top_zero: "dval (drop k xs) = 0 \<Longrightarrow> dval xs < Base ^ k"
  using dval_drop_div [of k xs] by (simp add: div_eq_0_iff)

lemma drop_later: "drop i xs = drop i ys \<Longrightarrow> i \<le> k \<Longrightarrow> drop k xs = drop k ys"
  by (metis drop_drop le_add_diff_inverse2)

text \<open>Without a borrow the estimate was right; with one it was one too large.\<close>

lemma borrow_estimate:
  fixes A D V p :: nat
  assumes est: "A div D div V \<le> p" "p \<le> A div D div V + 1" and D: "0 < D" and V: "0 < V"
    and sub: "U1 + D * (p * V) = A + T * c" and top: "U1 < T" and c: "c \<le> 1"
  shows "c = 0 \<Longrightarrow> p = A div D div V" and "c \<noteq> 0 \<Longrightarrow> p = A div D div V + 1"
proof -
  show "p = A div D div V" if "c = 0"
  proof -
    have "p * V * D \<le> A" using sub that by (simp add: ac_simps)
    then have "p * V \<le> A div D" using D by (simp add: less_eq_div_iff_mult_less_eq)
    then have "p \<le> A div D div V" using V by (simp add: less_eq_div_iff_mult_less_eq)
    then show ?thesis using est by simp
  qed
  show "p = A div D div V + 1" if "c \<noteq> 0"
  proof -
    have "c = 1" using that c by simp
    then have "A < p * V * D" using sub top by (simp add: ac_simps)
    then have "A div D < p * V" using D by (simp add: less_mult_imp_div_less)
    then have "A div D div V < p" by (rule less_mult_imp_div_less)
    then show ?thesis using est by simp
  qed
qed

lemma times_div_le: "D * (A div D div V * V) \<le> (A :: nat)"
proof -
  have "A div D div V * V \<le> A div D" by (rule div_times_less_eq_dividend)
  then have "D * (A div D div V * V) \<le> D * (A div D)" by (intro mult_left_mono) simp_all
  then show ?thesis using times_div_less_eq_dividend [of D A] by linarith
qed

lemma wrap_add:
  obtains k where "unat (a + b :: digit) + Base * k = unat a + unat b" and "k = 0 \<or> k = 1"
proof (cases "a + b < a")
  case True
  then have "unat (a + b) + Base * 1 = unat a + unat b"
    using unat_less_Base [of a] unat_less_Base [of b] by (simp add: unat_plus_digit digit_overflow mod_Base_sub)
  then show ?thesis using that by blast
next
  case False
  then have "unat (a + b) + Base * 0 = unat a + unat b" by (simp add: unat_plus_digit digit_overflow)
  then show ?thesis using that by blast
qed

lemma runs_addBack:
  assumes len: "digitLength v = n" "0 < n" "j + n < digitLength u" and top: "dval (drop (j + n + 1) (digits u)) = 0"
    and sum: "dval (digits u) + Base ^ j * dval (digits v) = R + Base ^ (j + n + 1)"
    and Q: "\<And>u'. digitLength u' = digitLength u \<Longrightarrow> isNegative u' = isNegative u \<Longrightarrow> dval (digits u') = R \<Longrightarrow> Q (u', x)"
  shows "runs (bindM (absoluteInplaceAdd u v j) (\<lambda>(u, c).
      bindM (digit u (j + n)) (\<lambda>d. bindM (setDigit u (j + n) (d + c)) (\<lambda>u.
      returnM (u, x))))) env E Q"
proof (intro runs_bindI runs_absoluteInplaceAdd, goal_cases)
  case (3 r c)
  let ?d = "digits r ! (j + n)"
  have r: "j + n < digitLength r" using 3 len by simp
  obtain k where k: "unat (?d + c) + Base * k = unat ?d + unat c" "k = 0 \<or> k = 1" by (rule wrap_add)
  let ?u = "r\<lparr>digits := (digits r)[j + n := ?d + c]\<rparr>"
  have "drop (j + n + 1) (digits r) = drop (j + n + 1) (digits u)"
    by (rule drop_later [of "j + n"]) (use 3 len in auto)
  then have zero: "dval (digits ?u) < Base ^ (j + n + 1)"
    using top by (intro dval_less_if_top_zero) simp
  have "Base ^ (j + n) * (unat (?d + c) + Base * k) = Base ^ (j + n) * (unat ?d + unat c)"
    by (simp only: k(1))
  then have "Base ^ (j + n) * unat (?d + c) + Base ^ (j + n + 1) * k = Base ^ (j + n) * unat ?d + Base ^ (j + n) * unat c"
    by (simp add: distrib_left ac_simps)
  moreover have "dval (digits r) + Base ^ (j + n) * unat c = R + Base ^ (j + n + 1)"
    using 3(5) sum unfolding len(1) by linarith
  moreover have "dval (digits ?u) + Base ^ (j + n) * unat ?d = dval (digits r) + Base ^ (j + n) * unat (?d + c)"
    using dval_update [OF r, of "?d + c"] by simp
  ultimately have "dval (digits ?u) + Base ^ (j + n + 1) * k = R + Base ^ (j + n + 1)" by linarith
  then have "dval (digits ?u) = R" using k(2) zero by auto
  then have "Q (?u, x)" using 3 Q by simp
  then show ?case using r by simp
qed (use len in auto)

lemma runs_divStep:
  assumes win: "knuth_window u v n j" and lenq: "digitLength qhatv = n + 1"
    and q: "\<And>x. q = Some x \<Longrightarrow> j < digitLength x"
    and Q: "\<And>u' p qhatv'. digitLength u' = digitLength u \<Longrightarrow> isNegative u' = isNegative u \<Longrightarrow> digitLength qhatv' = n + 1 \<Longrightarrow>
      unat p = dval (drop j (digits u)) div dval (digits v) \<Longrightarrow>
      dval (digits u') + Base ^ j * (unat p * dval (digits v)) = dval (digits u) \<Longrightarrow>
      Q (map_option (\<lambda>x. x\<lparr>digits := (digits x)[j := p]\<rparr>) q, u', qhatv')"
  shows "runs (divStep v n j (q, u, qhatv)) env E Q"
proof -
  let ?V = "dval (digits v)" and ?W = "dval (drop j (digits u))" and ?A = "dval (digits u)"
  have n: "digitLength v = n" "2 \<le> n" "j + n < digitLength u" using win by (auto simp: knuth_window_def)
  have top: "dval (drop (j + n + 1) (digits u)) = 0" using knuth_window_parts [OF win] by metis
  have W: "?W = ?A div Base ^ j" by (rule dval_drop_div)
  have V: "0 < ?V" using win by (auto simp: knuth_window_def)
  have le: "Base ^ j * (?W div ?V * ?V) \<le> ?A" unfolding W by (rule times_div_le)
  have finish: "runs (bindM (case q of None \<Rightarrow> returnM None
        | Some x \<Rightarrow> bindM (setDigit x j p) (\<lambda>x. returnM (Some x))) (\<lambda>q. returnM (q, u', qv))) env E Q"
    if "digitLength u' = digitLength u" "isNegative u' = isNegative u" "digitLength qv = n + 1"
      "unat p = ?W div ?V" "dval (digits u') + Base ^ j * (unat p * ?V) = ?A" for u' p qv
    using Q [OF that] q by (cases q) auto
  show ?thesis
    unfolding divStep_def prod.case
  proof (rule runs_bindI, rule runs_estimateQhat [OF win], goal_cases)
    case est: (1 p)
    show ?case
    proof (rule runs_bindI, rule runs_internalMultiplyAdd [where S = "digits v"], goal_cases)
      case 4
      then show ?case using multiplyAdd_bound [of p "digits v" 0] n lenq by simp
    next
      case qv: (5 qv)
      then have val: "dval (digits qv) = unat p * ?V" "digitLength qv = n + 1" using n lenq by simp_all
      show ?case
      proof (rule runs_bindI, rule runs_absoluteInplaceSub, goal_cases)
        case sub: (3 u1 c)
        have "drop (j + n + 1) (digits u1) = drop (j + n + 1) (digits u)" using sub val by simp
        then have top1: "dval (drop (j + n + 1) (digits u1)) = 0" using top by simp
        have eq: "dval (digits u1) + Base ^ j * (unat p * ?V) = ?A + Base ^ (j + n + 1) * unat c"
          using sub val by simp
        note digit = borrow_estimate [OF est [unfolded W] _ V eq dval_less_if_top_zero [OF top1] sub(4)]
        show ?case
        proof (cases "c = 0")
          case True
          then have "unat p = ?W div ?V" using digit(1) W by simp
          then show ?thesis using True sub val eq finish [of u1 qv p] by simp
        next
          case False
          then have p: "unat p = ?W div ?V + 1" using digit(2) W by (simp add: unat_eq_zero)
          then have "p \<noteq> 0" by auto
          then have p': "unat (p - 1) = ?W div ?V" using p by (simp add: unat_minus_one)
          have c: "unat c = 1" using False sub(4) by (cases "unat c") (auto simp: unat_eq_zero)
          define R where "R = ?A - Base ^ j * (?W div ?V * ?V)"
          have A: "?A = R + Base ^ j * (?W div ?V * ?V)" using le by (simp add: R_def)
          have "Base ^ j * (unat p * ?V) = Base ^ j * (?W div ?V * ?V) + Base ^ j * ?V"
            unfolding p by (simp add: distrib_left distrib_right)
          then have sum: "dval (digits u1) + Base ^ j * ?V = R + Base ^ (j + n + 1)"
            using eq A unfolding c by linarith
          have restored: "dval (digits u') + Base ^ j * (unat (p - 1) * ?V) = ?A" if "dval (digits u') = R" for u'
            using that A p' by simp
          show ?thesis
            unfolding prod.case if_P [OF False]
            by (rule runs_bindI, rule runs_addBack [OF n(1) _ _ top1 sum])
              (use n sub val p' restored finish in auto)
        qed
      qed (use n val in auto)
    qed (use n lenq in \<open>auto simp: sourceDigits_def\<close>)
  qed
qed

section \<open>Algorithm D is exact\<close>

lemma window_remainder:
  fixes A D V :: nat
  assumes "U + D * (A div D div V * V) = A" and "0 < V" and "0 < D"
  shows "U div D < V"
proof -
  let ?W = "A div D"
  have "D * (?W div V * V) + D * (?W mod V) = D * ?W" by (metis distrib_left div_mult_mod_eq)
  moreover have "A = D * ?W + A mod D" by simp
  ultimately have "U = D * (?W mod V) + A mod D" using assms(1) by linarith
  then have "U div D = ?W mod V" using assms(3) by simp
  then show ?thesis using assms(2) by simp
qed

lemma runs_divLoop:
  assumes v: "digitLength v = n" "2 \<le> n" "Base \<le> 2 * unat (digits v ! (n - 1))"
    and u: "digitLength u = m + n + 1" "dval (drop (m + 1) (digits u)) < dval (digits v)"
    and qv: "digitLength qhatv = n + 1" and q: "\<And>x. q = Some x \<Longrightarrow> digitLength x = m + 1"
    and Q: "\<And>q' u' qhatv'. digitLength u' = digitLength u \<Longrightarrow> isNegative u' = isNegative u \<Longrightarrow>
      dval (digits u') = dval (digits u) mod dval (digits v) \<Longrightarrow>
      rel_option (\<lambda>x x'. digitLength x' = digitLength x \<and> isNegative x' = isNegative x \<and>
        dval (digits x') = dval (digits u) div dval (digits v)) q q' \<Longrightarrow> Q (q', u', qhatv')"
  shows "runs (forDown (m + 1) (divStep v n) (q, u, qhatv)) env E Q"
proof (rule runs_forDownI [where I = "\<lambda>j (q', u', qhatv'). digitLength u' = digitLength u \<and>
      isNegative u' = isNegative u \<and> digitLength qhatv' = n + 1 \<and> dval (drop j (digits u')) < dval (digits v) \<and>
      (\<exists>N. dval (digits u) = N * dval (digits v) * Base ^ j + dval (digits u') \<and>
        rel_option (\<lambda>x x'. digitLength x' = digitLength x \<and> isNegative x' = isNegative x \<and>
          dval (drop j (digits x')) = N) q q')"], goal_cases)
  case 1
  have "rel_option (\<lambda>x x'. digitLength x' = digitLength x \<and> isNegative x' = isNegative x \<and>
      dval (drop (m + 1) (digits x')) = 0) q q"
    using q by (cases q) auto
  then show ?case using u qv by (auto intro!: exI [of _ "0 :: nat"])
next
  case (2 j st)
  obtain q' u' qhatv' where st: "st = (q', u', qhatv')" by (cases st)
  obtain N where N: "dval (digits u) = N * dval (digits v) * Base ^ Suc j + dval (digits u')"
    "rel_option (\<lambda>x x'. digitLength x' = digitLength x \<and> isNegative x' = isNegative x \<and>
        dval (drop (Suc j) (digits x')) = N) q q'" using 2 st by auto
  have win: "knuth_window u' v n j" using 2 st v u by (simp add: knuth_window_def)
  have V: "0 < dval (digits v)" using u(2) by simp
  show ?case
    unfolding st
  proof (rule runs_divStep [OF win], goal_cases)
    case 1
    then show ?case using 2 st by simp
  next
    case (2 x)
    then show ?case using N(2) q \<open>j < m + 1\<close> by (cases q) auto
  next
    case (3 u'' p qhatv'')
    have "dval (digits u'') div Base ^ j < dval (digits v)"
      by (rule window_remainder [where A = "dval (digits u')"]) (use 3 V in \<open>simp_all add: dval_drop_div\<close>)
    moreover have "dval (digits u) = (unat p + Base * N) * dval (digits v) * Base ^ j + dval (digits u'')"
      using N(1) 3(5) by (simp add: algebra_simps)
    moreover have "rel_option (\<lambda>x x'. digitLength x' = digitLength x \<and> isNegative x' = isNegative x \<and>
        dval (drop j (digits x')) = unat p + Base * N) q (map_option (\<lambda>x. x\<lparr>digits := (digits x)[j := p]\<rparr>) q')"
      using N(2) q \<open>j < m + 1\<close> by (cases q; cases q') (auto simp: drop_update_Suc)
    ultimately show ?case using 2 st 3 by (auto simp: dval_drop_div [of j "digits u''"])
  qed
next
  case (3 st)
  obtain q' u' qhatv' where st: "st = (q', u', qhatv')" by (cases st)
  obtain N where N: "dval (digits u) = N * dval (digits v) + dval (digits u')" "dval (digits u') < dval (digits v)"
    "rel_option (\<lambda>x x'. digitLength x' = digitLength x \<and> isNegative x' = isNegative x \<and> dval (digits x') = N) q q'"
    using 3 st by auto
  then have "dval (digits u) div dval (digits v) = N" "dval (digits u) mod dval (digits v) = dval (digits u')"
    by auto
  then show ?case using st N(3) 3 by (auto intro!: Q)
qed

text \<open>Normalisation: shifting by the leading zeroes of the top digit sets the top bit of the divisor.\<close>

lemma normalised_top:
  assumes "length vs = k + 1" and "2 ^ 63 * Base ^ k \<le> dval vs"
  shows "Base \<le> 2 * unat (vs ! k)"
proof -
  note assms(2)
  also have "dval vs = dval (take k vs) + Base ^ k * unat (vs ! k)"
    using dval_take_Suc [of k vs] assms(1) by simp
  also have "\<dots> < Base ^ k * Suc (unat (vs ! k))" using dval_take_less [of k vs] by simp
  also have "\<dots> = Suc (unat (vs ! k)) * Base ^ k" by (rule mult.commute)
  finally have "2 ^ 63 < Suc (unat (vs ! k))" by (simp only: mult_less_cancel2)
  then have "2 ^ 63 \<le> unat (vs ! k)" by simp
  then show ?thesis by (simp add: Base_def)
qed

lemma shift_bounds:
  assumes "length vs = k + 1" and "vs ! k \<noteq> 0"
  defines "s \<equiv> DigitLeadingZeroes (vs ! k)"
  shows "2 ^ 63 * Base ^ k \<le> dval vs * 2 ^ s" and "dval vs * 2 ^ s < Base ^ length vs" and "s < 64"
proof -
  note b = DigitLeadingZeroes_shift [OF assms(2), folded s_def] DigitLeadingZeroes_bounds [OF assms(2), folded s_def]
  have V: "dval vs = dval (take k vs) + Base ^ k * unat (vs ! k)"
    using dval_take_Suc [of k vs] assms(1) by simp
  have "2 ^ 63 * Base ^ k \<le> unat (vs ! k) * 2 ^ s * Base ^ k" using b(1) by (rule mult_right_mono) simp
  also have "\<dots> \<le> dval vs * 2 ^ s" unfolding V by (simp add: algebra_simps)
  finally show "2 ^ 63 * Base ^ k \<le> dval vs * 2 ^ s" .
  have "dval vs < Base ^ k * Suc (unat (vs ! k))" unfolding V using dval_take_less [of k vs] by simp
  also have "\<dots> \<le> Base ^ k * 2 ^ (64 - s)" using b(5) by (intro mult_left_mono) auto
  finally have "dval vs * 2 ^ s < Base ^ k * 2 ^ (64 - s) * 2 ^ s" by simp
  also have "\<dots> = Base ^ length vs"
    using b(3) assms(1) by (simp add: Base_def mult.assoc flip: power_add)
  finally show "dval vs * 2 ^ s < Base ^ length vs" .
  show "s < 64" by (rule b(3))
qed

lemma runs_trimQuotient:
  assumes len: "0 < digitLength q" "digitLength q \<le> MaxDigitLength" and E: "\<And>e. oom v e \<Longrightarrow> E e"
    and Q: "\<And>r. 0 < digitLength r \<Longrightarrow> digitLength r \<le> MaxDigitLength \<Longrightarrow> bval r = bval q \<Longrightarrow> Q (Some r)"
  shows "runs (bindM (destructivelyTrimHighZeroDigits q) (\<lambda>bi. returnM (Some (if isZero bi then q else bi)))) v E Q"
  using assms by (auto simp: isZero_def wf_def intro!: runs_bindI runs_trim)

text \<open>
  The contract of \<open>absoluteDivWithBigIntDivisor\<close>.  The shifted copy of the dividend has one
  digit more than the dividend, so a dividend of maximal length is reported as too large.
\<close>

lemma runs_absoluteDivWithBigIntDivisor:
  assumes wf: "wf x" "wf y" and len: "2 \<le> digitLength y" "digitLength y \<le> digitLength x"
    and E: "\<And>e. oom v e \<Longrightarrow> E e" "digitLength x = MaxDigitLength \<Longrightarrow> E BigIntTooLarge"
    and Q: "\<And>q r. rel_option (\<lambda>_ q. 0 < digitLength q \<and> digitLength q \<le> MaxDigitLength \<and>
        bval q = withSign s (dval (digits x) div dval (digits y))) (if wantQ then Some () else None) q \<Longrightarrow>
      rel_option (\<lambda>_ r. 0 < digitLength r \<and> digitLength r \<le> MaxDigitLength \<and>
        bval r = withSign (isNegative x) (dval (digits x) mod dval (digits y))) (if wantR then Some () else None) r \<Longrightarrow>
      Q (q, r)"
  shows "runs (absoluteDivWithBigIntDivisor x y wantQ wantR s) v E Q"
proof -
  let ?n = "digitLength y" and ?m = "digitLength x - digitLength y"
  let ?top = "digits y ! (?n - 1)" and ?X = "dval (digits x)" and ?Y = "dval (digits y)"
  let ?s = "DigitLeadingZeroes ?top"
  have nz: "\<not> isZero x" "\<not> isZero y" using len by (auto simp: isZero_def)
  have top: "?top \<noteq> 0" "?n - 1 < ?n" using wf(2) len by (auto simp: wf_def HasLeadingZeroes_def)
  have max: "digitLength x \<le> MaxDigitLength" "?n \<le> MaxDigitLength" using wf by (simp_all add: wf_length)
  note b = shift_bounds [of "digits y" "?n - 1", OF _ top(1)]
  have shift: "2 ^ 63 * Base ^ (?n - 1) \<le> ?Y * 2 ^ ?s" "?Y * 2 ^ ?s < Base ^ ?n" "?s < 64"
    using b len by simp_all
  have main: "runs (forDown (?m + 1) (divStep d ?n) (q, u, qv)) v E (\<lambda>(q', u', qv').
      digitLength u' = digitLength x + 1 \<and> isNegative u' = isNegative x \<and> dval (digits u') = ?X mod ?Y * 2 ^ ?s \<and>
      rel_option (\<lambda>x x'. digitLength x' = digitLength x \<and> isNegative x' = isNegative x \<and> dval (digits x') = ?X div ?Y) q q')"
    if d: "digitLength d = ?n" "dval (digits d) = ?Y * 2 ^ ?s"
      and u: "digitLength u = digitLength x + 1" "isNegative u = isNegative x" "dval (digits u) = ?X * 2 ^ ?s"
      and q: "\<And>x. q = Some x \<Longrightarrow> digitLength x = ?m + 1" and qv: "digitLength qv = ?n + 1" for d u q qv
  proof (rule runs_divLoop, goal_cases)
    case 3
    then show ?case using normalised_top [of "digits d" "?n - 1"] d shift len by simp
  next
    case 5
    have "?X * 2 ^ ?s < Base ^ (digitLength x) * 2 ^ 63"
      using dval_less [of "digits x"] shift(3) by (intro mult_less_le_imp_less power_increasing) auto
    also have "Base ^ digitLength x = Base ^ (?n - 1) * Base ^ (?m + 1)"
    proof -
      have "digitLength x = (?n - 1) + (?m + 1)" using len by simp
      then show ?thesis by (rule trans [OF arg_cong [where f = "(^) Base"] power_add])
    qed
    also have "\<dots> * 2 ^ 63 = 2 ^ 63 * Base ^ (?n - 1) * Base ^ (?m + 1)" by (simp only: ac_simps)
    also have "\<dots> \<le> dval (digits d) * Base ^ (?m + 1)" unfolding d(2) using shift(1) by (rule mult_right_mono) simp
    finally show ?case unfolding dval_drop_div u(3) by (rule less_mult_imp_div_less)
  qed (use d u q qv len in \<open>auto simp: mult_mod_left elim: option.rel_mono_strong\<close>)
  have rest: "runs (bindM (forDown (?m + 1) (divStep d ?n) (q, u, qv)) (\<lambda>(q, u, qhatv).
      bindM (case q of None \<Rightarrow> returnM None
             | Some q \<Rightarrow> bindM (destructivelyTrimHighZeroDigits q) (\<lambda>bi.
                 returnM (Some (if isZero bi then q else bi)))) (\<lambda>q.
      bindM (if wantR then bindM (inplaceRightShiftLowZeroBits u ?s) (\<lambda>u. returnM (Some u)) else returnM None) (\<lambda>r.
      returnM (q, r))))) v E Q"
    if d: "digitLength d = ?n" "dval (digits d) = ?Y * 2 ^ ?s"
      and u: "digitLength u = digitLength x + 1" "isNegative u = isNegative x" "dval (digits u) = ?X * 2 ^ ?s"
      and q: "rel_option (\<lambda>_ q. digitLength q = ?m + 1 \<and> isNegative q = s) (if wantQ then Some () else None) q"
      and qv: "digitLength qv = ?n + 1" and notmax: "digitLength x + 1 \<le> MaxDigitLength" for d u q qv
  proof (rule runs_bindM [OF main], goal_cases)
    case (8 st)
    obtain q' u' qv' where st: "st = (q', u', qv')" by (cases st)
    have u': "digitLength u' = digitLength x + 1" "isNegative u' = isNegative x" "dval (digits u') = ?X mod ?Y * 2 ^ ?s"
      and q': "rel_option (\<lambda>x x'. digitLength x' = digitLength x \<and> isNegative x' = isNegative x \<and>
        dval (digits x') = ?X div ?Y) q q'" using 8 st by auto
    have rem: "runs (bindM (if wantR then bindM (inplaceRightShiftLowZeroBits u' ?s) (\<lambda>u. returnM (Some u))
        else returnM None) (\<lambda>r. returnM (q'', r))) v E Q"
      if "rel_option (\<lambda>_ q. 0 < digitLength q \<and> digitLength q \<le> MaxDigitLength \<and>
        bval q = withSign s (?X div ?Y)) (if wantQ then Some () else None) q''" for q''
      using that u' notmax shift(3)
      by (auto simp: bval_def intro!: runs_bindI runs_inplaceRightShiftLowZeroBits Q)
    show ?case
    proof (cases wantQ)
      case True
      then obtain a a' where a: "q = Some a" "q' = Some a'" "digitLength a' = ?m + 1" "isNegative a' = s"
        "dval (digits a') = ?X div ?Y" using q q' by (cases q; cases q') auto
      have "bval a' = withSign s (?X div ?Y)" using a by (simp add: bval_def)
      then show ?thesis
        using st a True E(1) len max rem unfolding st prod.case a(2) option.case
        by (intro runs_bindI [of "bindM _ _"] runs_trimQuotient) auto
    next
      case False
      then have "q' = None" using q q' by (cases q; cases q') auto
      then show ?thesis using st rem False by simp
    qed
  qed (use d u qv q in \<open>auto split: if_splits\<close>)
  have asserts: "digitLength y \<ge> 2" "digitLength x \<ge> digitLength y" using len by auto
  have fromQ: "runs (bindM (createUninitialized (?n + 1) s) (\<lambda>qhatv.
      bindM (digit y (?n - 1)) (\<lambda>lastDigit.
      let shift = DigitLeadingZeroes lastDigit in
      bindM (if shift > 0 then absoluteLeftShiftAlwaysCopy y shift SameSizeResult else returnM y) (\<lambda>shiftedDivisor.
      bindM (absoluteLeftShiftAlwaysCopy x shift AlwaysAddOneDigit) (\<lambda>u.
      bindM (forDown (?m + 1) (divStep shiftedDivisor ?n) (q, u, qhatv)) (\<lambda>(q, u, qhatv).
      bindM (case q of None \<Rightarrow> returnM None
             | Some q \<Rightarrow> bindM (destructivelyTrimHighZeroDigits q) (\<lambda>bi.
                 returnM (Some (if isZero bi then q else bi)))) (\<lambda>q.
      bindM (if wantR then bindM (inplaceRightShiftLowZeroBits u shift) (\<lambda>u. returnM (Some u)) else returnM None) (\<lambda>r.
      returnM (q, r))))))))) v E Q"
    if q: "rel_option (\<lambda>_ q. digitLength q = ?m + 1 \<and> isNegative q = s) (if wantQ then Some () else None) q" for q
    unfolding Let_def digit_in_range [OF top(2)] bindM_returnM
  proof (rule runs_bindI, rule runs_createUninitialized, goal_cases)
    case 2
    then show ?case using max len E(2) by simp
  next
    case (3 qv)
    have "runs (if ?s > 0 then absoluteLeftShiftAlwaysCopy y ?s SameSizeResult else returnM y) v E
        (\<lambda>d. digitLength d = ?n \<and> dval (digits d) = ?Y * 2 ^ ?s)"
      using shift nz max E(1) by (auto intro!: runs_absoluteLeftShiftAlwaysCopy)
    then show ?case
    proof (rule runs_bindM, goal_cases)
      case d: (1 d)
      show ?case
      proof (rule runs_bindI, rule runs_absoluteLeftShiftAlwaysCopy, goal_cases)
        case (7 u)
        then show ?case using d q 3 max by (intro rest) auto
      qed (use shift nz max E in auto)
    qed
  qed (use E in auto)
  have "runs (if wantQ then bindM (createUninitialized (?m + 1) s) (\<lambda>q. returnM (Some q)) else returnM None) v E
      (rel_option (\<lambda>_ q. digitLength q = ?m + 1 \<and> isNegative q = s) (if wantQ then Some () else None))"
    using E(1) max len by (auto intro!: runs_bindI runs_createUninitialized)
  from runs_bindM [OF this fromQ] show ?thesis
    unfolding absoluteDivWithBigIntDivisor_def mozAssert_holds [OF asserts(1)] mozAssert_holds [OF asserts(2)] Let_def .
qed

section \<open>Signed division\<close>

definition div_error :: "env \<Rightarrow> bigint \<Rightarrow> bigint \<Rightarrow> err \<Rightarrow> bool" where
  "div_error v x y e \<longleftrightarrow> oom v e \<or> e = BigIntDivisionByZero \<and> bval y = 0 \<or>
     e = BigIntTooLarge \<and> digitLength x = MaxDigitLength \<and> 2 \<le> digitLength y"

lemma sdiv_magnitudes:
  "withSign a x sdiv withSign b y = withSign (a \<noteq> b) (x div y)"
  by (auto simp: signed_divide_int_def sgn_if zdiv_int)

lemma smod_magnitudes: "withSign a x smod withSign b y = withSign a (x mod y)"
  by (auto simp: smod_int_alt_def sgn_if zmod_int)

lemma bval_sdiv: "bval x sdiv bval y = withSign (isNegative x \<noteq> isNegative y) (dval (digits x) div dval (digits y))"
  unfolding bval_def by (rule sdiv_magnitudes)

lemma bval_smod: "bval x smod bval y = withSign (isNegative x) (dval (digits x) mod dval (digits y))"
  unfolding bval_def by (rule smod_magnitudes)

lemma runs_div:
  assumes wf: "wf x" "wf y" and E: "\<And>e. div_error v x y e \<Longrightarrow> E e"
    and Q: "\<And>r. wf r \<Longrightarrow> bval y \<noteq> 0 \<Longrightarrow> bval r = bval x sdiv bval y \<Longrightarrow> Q r"
  shows "runs (div_bi x y) v E Q"
proof -
  let ?X = "dval (digits x)" and ?Y = "dval (digits y)" and ?s = "isNegative x \<noteq> isNegative y"
  have oom: "E e" if "oom v e" for e using that by (intro E) (simp add: div_error_def)
  consider "isZero y" | "\<not> isZero y" "isZero x" | "\<not> isZero y" "\<not> isZero x" "?X < ?Y"
    | "\<not> isZero y" "\<not> isZero x" "?Y \<le> ?X" by linarith
  then show ?thesis
  proof cases
    case 1
    then have "E BigIntDivisionByZero" using wf_bval_0 [OF wf(2)] by (intro E) (simp add: div_error_def)
    then show ?thesis using 1 by (simp add: div_bi_def)
  next
    case 2
    then have "bval x = 0" "bval y \<noteq> 0" using wf_bval_0 wf by blast+
    then show ?thesis using 2 wf Q [of x] by (simp add: div_bi_def)
  next
    case 3
    then have "Q \<lparr>digits = [], isNegative = False\<rparr>"
      using wf wf_bval_0 [OF wf(2)] by (intro Q) (auto simp: bval_sdiv bval_make)
    then show ?thesis using 3 wf oom
      by (auto simp: div_bi_def intro!: runs_bindI runs_absoluteCompare runs_zero)
  next
    case 4
    have y: "bval y \<noteq> 0" "0 < digitLength y" using 4 wf_bval_0 [OF wf(2)] by (simp_all add: isZero_iff)
    have nonneg: "\<not> sgn (int ?X - int ?Y) < 0" using 4 by simp
    have trim: "runs (destructivelyTrimHighZeroDigits q) v E Q"
      if "0 < digitLength q" "digitLength q \<le> MaxDigitLength" "bval q = withSign ?s (?X div ?Y)" for q
      using that oom Q y by (auto simp: bval_sdiv isZero_def intro!: runs_trim)
    note unfold = div_bi_def if_not_P [OF 4(1)] if_not_P [OF 4(2)]
    have compare: "runs (absoluteCompare x y) v E (\<lambda>c. \<not> c < 0)"
      using wf nonneg by (rule runs_absoluteCompare)
    show ?thesis
    proof (cases "digitLength y = 1")
      case True
      then have d: "digits y = [digits y ! 0]" by (rule wf_digit_0 [OF wf(2)])
      let ?d = "digits y ! 0"
      have Yd: "?Y = unat ?d" by (subst d) simp
      then have "?d \<noteq> 0" using wf_digits_pos [OF wf(2) 4(1)] by auto
      have one: "runs (if ?s = isNegative x then returnM x else neg x) v E Q" if "?d = 1"
      proof -
        have "bval y = withSign (isNegative y) 1" using Yd that by (simp add: bval_def)
        then have "bval x sdiv bval y = (if isNegative y then - bval x else bval x)" by simp
        then show ?thesis using wf(1) y(1) oom by (auto intro!: runs_neg Q)
      qed
      have "runs (bindM (absoluteDivWithDigitDivisor x ?d EmptyQuotient ?s) (\<lambda>(quot, remainder). returnM quot)) v E
          (\<lambda>q. \<exists>a. q = Some a \<and> 0 < digitLength a \<and> digitLength a \<le> MaxDigitLength \<and> bval a = withSign ?s (?X div ?Y))"
        using wf 4(2) \<open>?d \<noteq> 0\<close> oom wf_length [OF wf(1)] Yd
        by (intro runs_bindI runs_absoluteDivWithDigitDivisor_quotient) (auto simp: bval_def)
      then have "runs (bindM (bindM (absoluteDivWithDigitDivisor x ?d EmptyQuotient ?s)
          (\<lambda>(quot, remainder). returnM quot)) (\<lambda>quot. case quot of None \<Rightarrow> throwM AssertFail
          | Some quot \<Rightarrow> destructivelyTrimHighZeroDigits quot)) v E Q"
        by (rule runs_bindM) (use trim in auto)
      note long = this
      show ?thesis
        unfolding unfold
      proof (rule runs_bindM [OF compare], goal_cases)
        case (1 c)
        show ?case
          unfolding if_not_P [OF 1] Let_def digit_in_range [OF y(2)] bindM_returnM if_P [OF True]
          using one long by (intro runs_if) auto
      qed
    next
      case False
      then have two: "2 \<le> digitLength y" using y by linarith
      have "digitLength y \<le> digitLength x" using dval_less_if_shorter [OF wf(2), of x] 4 by (meson not_less)
      then have "runs (bindM (absoluteDivWithBigIntDivisor x y True False ?s) (\<lambda>(quot, remainder). returnM quot)) v E
          (\<lambda>q. \<exists>a. q = Some a \<and> 0 < digitLength a \<and> digitLength a \<le> MaxDigitLength \<and> bval a = withSign ?s (?X div ?Y))"
        using wf two oom E
        by (intro runs_bindI runs_absoluteDivWithBigIntDivisor) (auto simp: div_error_def option_rel_Some1)
      then have "runs (bindM (bindM (absoluteDivWithBigIntDivisor x y True False ?s)
          (\<lambda>(quot, remainder). returnM quot)) (\<lambda>quot. case quot of None \<Rightarrow> throwM AssertFail
          | Some quot \<Rightarrow> destructivelyTrimHighZeroDigits quot)) v E Q"
        by (rule runs_bindM) (use trim in auto)
      note long = this
      have "\<not> (digitLength y = 1 \<and> digits y ! 0 = 1)" using False by simp
      note skip = if_not_P [OF this] if_not_P [OF False]
      show ?thesis
        unfolding unfold
      proof (rule runs_bindM [OF compare], goal_cases)
        case (1 c)
        show ?case
          unfolding if_not_P [OF 1] Let_def digit_in_range [OF y(2)] bindM_returnM skip
          by (rule long)
      qed
    qed
  qed
qed

lemma runs_mod:
  assumes wf: "wf x" "wf y" and E: "\<And>e. div_error v x y e \<Longrightarrow> E e"
    and Q: "\<And>r. wf r \<Longrightarrow> bval y \<noteq> 0 \<Longrightarrow> bval r = bval x smod bval y \<Longrightarrow> Q r"
  shows "runs (mod_bi x y) v E Q"
proof -
  let ?X = "dval (digits x)" and ?Y = "dval (digits y)"
  have oom: "E e" if "oom v e" for e using that by (intro E) (simp add: div_error_def)
  consider "isZero y" | "\<not> isZero y" "isZero x" | "\<not> isZero y" "\<not> isZero x" "?X < ?Y"
    | "\<not> isZero y" "\<not> isZero x" "?Y \<le> ?X" by linarith
  then show ?thesis
  proof cases
    case 1
    then have "E BigIntDivisionByZero" using wf_bval_0 [OF wf(2)] by (intro E) (simp add: div_error_def)
    then show ?thesis using 1 by (simp add: mod_bi_def)
  next
    case 2
    then have "bval x = 0" "bval y \<noteq> 0" using wf_bval_0 wf by blast+
    then show ?thesis using 2 wf Q [of x] by (simp add: mod_bi_def)
  next
    case 3
    then have "Q x"
      using wf wf_bval_0 [OF wf(2)] by (intro Q) (auto simp: bval_smod, auto simp: bval_def)
    then show ?thesis using 3 wf
      by (auto simp: mod_bi_def intro!: runs_bindI runs_absoluteCompare)
  next
    case 4
    have y: "bval y \<noteq> 0" "0 < digitLength y" using 4 wf_bval_0 [OF wf(2)] by (simp_all add: isZero_iff)
    have nonneg: "\<not> sgn (int ?X - int ?Y) < 0" using 4 by simp
    note unfold = mod_bi_def if_not_P [OF 4(1)] if_not_P [OF 4(2)]
    have compare: "runs (absoluteCompare x y) v E (\<lambda>c. \<not> c < 0)"
      using wf nonneg by (rule runs_absoluteCompare)
    have zero: "Q \<lparr>digits = [], isNegative = False\<rparr>" if "?X mod ?Y = 0"
      using that y(1) by (intro Q) (simp_all add: bval_smod bval_make)
    show ?thesis
    proof (cases "digitLength y = 1")
      case True
      then have d: "digits y = [digits y ! 0]" by (rule wf_digit_0 [OF wf(2)])
      let ?d = "digits y ! 0"
      have Yd: "?Y = unat ?d" by (subst d) simp
      then have dnz: "?d \<noteq> 0" using wf_digits_pos [OF wf(2) 4(1)] by auto
      have digit: "Q \<lparr>digits = [r], isNegative = isNegative x\<rparr>" if "r \<noteq> 0" "unat r = ?X mod ?Y" for r
        using that y(1) by (intro Q) (simp_all add: bval_smod bval_make)
      have "runs (bindM (absoluteDivWithDigitDivisor x ?d NoQuotient False) (\<lambda>(q, remainderDigit).
          if remainderDigit = 0 then zero else createFromDigit remainderDigit (isNegative x))) v E Q"
        using 4(2) dnz Yd zero digit oom
        by (intro runs_bindI runs_absoluteDivWithDigitDivisor_remainder)
          (auto intro!: runs_zero runs_createFromDigit)
      moreover have "runs BigInt_Base.zero v E Q" if "?d = 1"
        using that Yd zero oom by (auto intro!: runs_zero)
      ultimately show ?thesis
        unfolding unfold
        by (intro runs_bindM [OF compare]) (simp add: y(2) True)
    next
      case False
      then have two: "2 \<le> digitLength y" using y by linarith
      have "digitLength y \<le> digitLength x" using dval_less_if_shorter [OF wf(2), of x] 4 by (meson not_less)
      then have "runs (absoluteDivWithBigIntDivisor x y False True (isNegative x)) v E
          (\<lambda>(q, r). \<exists>a. r = Some a \<and> 0 < digitLength a \<and> digitLength a \<le> MaxDigitLength \<and>
            bval a = withSign (isNegative x) (?X mod ?Y))"
        using wf two oom E
        by (intro runs_absoluteDivWithBigIntDivisor) (auto simp: div_error_def option_rel_Some1)
      then have "runs (bindM (absoluteDivWithBigIntDivisor x y False True (isNegative x))
          (\<lambda>(q, remainder). case remainder of None \<Rightarrow> throwM AssertFail
          | Some remainder \<Rightarrow> destructivelyTrimHighZeroDigits remainder)) v E Q"
      proof (rule runs_bindM, goal_cases)
        case (1 st)
        then show ?case using oom Q y by (cases st) (auto simp: bval_smod isZero_def intro!: runs_trim)
      qed
      then show ?thesis
        unfolding unfold
        by (intro runs_bindM [OF compare]) (use False in simp)
    qed
  qed
qed

section \<open>Properties\<close>

text \<open>
  C4. Division: \<open>div\<close> returns the canonical BigInt of the quotient rounded towards zero, by
  single-digit division or by Knuth's algorithm D with its estimate, multiply-and-subtract and
  add-back steps; no assertion fails and no digit is read or written out of range.  Division by
  zero, and only that, is reported as such; the only other errors are lack of memory, and a
  dividend of maximal length over a divisor of two digits or more.
\<close>

theorem div_correct:
  assumes "wf x" and "wf y"
  shows "runs (div_bi x y) v (div_error v x y) (\<lambda>r. wf r \<and> bval y \<noteq> 0 \<and> bval r = bval x sdiv bval y)"
  by (rule runs_div [OF assms]) auto

theorem div_correct_witness:
  "wf \<lparr>digits = [3, 0, 9], isNegative = True\<rparr> \<and> wf \<lparr>digits = [7, 2], isNegative = False\<rparr> \<and>
   runs (div_bi \<lparr>digits = [3, 0, 9], isNegative = True\<rparr> \<lparr>digits = [7, 2], isNegative = False\<rparr>) plenty
     (div_error plenty \<lparr>digits = [3, 0, 9], isNegative = True\<rparr> \<lparr>digits = [7, 2], isNegative = False\<rparr>)
     (\<lambda>r. wf r \<and> bval \<lparr>digits = [7, 2], isNegative = False\<rparr> \<noteq> 0 \<and>
        bval r = bval \<lparr>digits = [3, 0, 9], isNegative = True\<rparr> sdiv bval \<lparr>digits = [7, 2], isNegative = False\<rparr>)"
  by (intro conjI div_correct) (simp_all add: wf_eval)

text \<open>
  C9. Remainder: \<open>mod\<close> returns the canonical BigInt of \<open>x - y * (x / y)\<close> with the quotient
  rounded towards zero, so a nonzero remainder has the sign of the dividend; the errors are
  those of division.
\<close>

theorem mod_correct:
  assumes "wf x" and "wf y"
  shows "runs (mod_bi x y) v (div_error v x y) (\<lambda>r. wf r \<and> bval y \<noteq> 0 \<and> bval r = bval x smod bval y)"
  by (rule runs_mod [OF assms]) auto

theorem mod_correct_witness:
  "wf \<lparr>digits = [3, 0, 9], isNegative = True\<rparr> \<and> wf \<lparr>digits = [7, 2], isNegative = False\<rparr> \<and>
   runs (mod_bi \<lparr>digits = [3, 0, 9], isNegative = True\<rparr> \<lparr>digits = [7, 2], isNegative = False\<rparr>) plenty
     (div_error plenty \<lparr>digits = [3, 0, 9], isNegative = True\<rparr> \<lparr>digits = [7, 2], isNegative = False\<rparr>)
     (\<lambda>r. wf r \<and> bval \<lparr>digits = [7, 2], isNegative = False\<rparr> \<noteq> 0 \<and>
        bval r = bval \<lparr>digits = [3, 0, 9], isNegative = True\<rparr> smod bval \<lparr>digits = [7, 2], isNegative = False\<rparr>)"
  by (intro conjI mod_correct) (simp_all add: wf_eval)

end
