(* ===== verification/BigInt_Shift.thy ===== *)
theory BigInt_Shift
  imports BigInt_Div
begin

text \<open>
  Shifts: \<open>lshByAbsolute\<close>, \<open>rshByMaximum\<close>, \<open>rshByAbsolute\<close>, \<open>lsh\<close> and \<open>rsh\<close> of
  \<open>js/src/vm/BigIntType.cpp\<close>.  A right shift that rounds down reads a digit it never wrote in
  one case; the last section shows it.
\<close>

section \<open>Operations\<close>

definition lshByAbsolute :: "bigint \<Rightarrow> bigint \<Rightarrow> bigint eng" where
  "lshByAbsolute x y =
     (if isZero x \<or> isZero y then returnM x
      else bindM (digit y 0) (\<lambda>shift.
        if digitLength y > 1 \<or> shift > of_nat MaxBitLength then throwM BigIntTooLarge
        else
          let digitShift = unat (shift div of_nat DigitBits);
              bitsShift = unat (shift mod of_nat DigitBits);
              len = digitLength x
          in bindM (digit x (len - 1)) (\<lambda>msd.
          let grow = (bitsShift \<noteq> 0 \<and> shr msd (DigitBits - bitsShift) \<noteq> 0);
              resultLength = len + digitShift + (if grow then 1 else 0)
          in bindM (createUninitialized resultLength (isNegative x)) (\<lambda>result.
          bindM (forUp 0 digitShift (\<lambda>i result. setDigit result i 0) result) (\<lambda>result.
          if bitsShift = 0 then
            forUp digitShift resultLength (\<lambda>i result.
              bindM (digit x (i - digitShift)) (\<lambda>d. setDigit result i d)) result
          else
            bindM (forUp 0 len (\<lambda>j (result, carry).
              bindM (digit x j) (\<lambda>d.
              bindM (setDigit result (digitShift + j) (shl d bitsShift OR carry)) (\<lambda>result.
              returnM (result, shr d (DigitBits - bitsShift))))) (result, 0)) (\<lambda>(result, carry).
            if grow then setDigit result (digitShift + len) carry
            else mozAssert (carry = 0) (returnM result)))))))"

definition rshByMaximum :: "bool \<Rightarrow> bigint eng" where
  "rshByMaximum isNeg = (if isNeg then negativeOne else zero)"

text \<open>The scan of the digits that are shifted out whole, with its \<open>break\<close>.\<close>

primrec anyDigitSet :: "nat \<Rightarrow> nat \<Rightarrow> bigint \<Rightarrow> bool eng" where
  "anyDigitSet 0 i x = returnM False"
| "anyDigitSet (Suc n) i x =
     bindM (digit x i) (\<lambda>d. if d \<noteq> 0 then returnM True else anyDigitSet n (Suc i) x)"

definition rshRoundsDown :: "bigint \<Rightarrow> nat \<Rightarrow> nat \<Rightarrow> bool eng" where
  "rshRoundsDown x digitShift bitsShift =
     (if isNegative x then
        let mask = shl 1 bitsShift - 1 in
        bindM (digit x digitShift) (\<lambda>d.
        if d AND mask \<noteq> 0 then returnM True else anyDigitSet digitShift 0 x)
      else returnM False)"

text \<open>The copy loops: whole digits, or with bits carried from the digit above.\<close>

definition rshCopy :: "bigint \<Rightarrow> nat \<Rightarrow> nat \<Rightarrow> bigint \<Rightarrow> bigint eng" where
  "rshCopy x digitShift bitsShift result =
     (let len = digitLength x in
      if bitsShift = 0 then
        forUp digitShift len (\<lambda>i result.
          bindM (digit x i) (\<lambda>d. setDigit result (i - digitShift) d)) result
      else
        bindM (digit x digitShift) (\<lambda>d0.
        let last = len - digitShift - 1 in
        bindM (forUp 0 last (\<lambda>i (result, carry).
          bindM (digit x (i + digitShift + 1)) (\<lambda>d.
          bindM (setDigit result i (shl d (DigitBits - bitsShift) OR carry)) (\<lambda>result.
          returnM (result, shr d bitsShift)))) (result, shr d0 bitsShift)) (\<lambda>(result, carry).
        setDigit result last carry)))"

definition rshByAbsolute :: "bigint \<Rightarrow> bigint \<Rightarrow> bigint eng" where
  "rshByAbsolute x y =
     (if isZero x \<or> isZero y then returnM x
      else bindM (digit y 0) (\<lambda>shift.
        if digitLength y > 1 \<or> shift \<ge> of_nat MaxBitLength then rshByMaximum (isNegative x)
        else
          let len = digitLength x;
              digitShift = unat (shift div of_nat DigitBits);
              bitsShift = unat (shift mod of_nat DigitBits)
          in if len \<le> digitShift then rshByMaximum (isNegative x)
          else
            bindM (rshRoundsDown x digitShift bitsShift) (\<lambda>mustRoundDown.
            bindM (digit x (len - 1)) (\<lambda>msd.
            let resultLength = len - digitShift + (if mustRoundDown \<and> bitsShift = 0 \<and> msd = - 1 then 1 else 0)
            in mozAssert (resultLength \<le> len) (
            bindM (createUninitialized resultLength (isNegative x)) (\<lambda>result.
            bindM (rshCopy x digitShift bitsShift result) (\<lambda>result.
            if mustRoundDown then mozAssert (isNegative x) (absoluteAddOne result (isNegative x))
            else destructivelyTrimHighZeroDigits result))))))) "

definition lsh :: "bigint \<Rightarrow> bigint \<Rightarrow> bigint eng" where
  "lsh x y = (if isNegative y then rshByAbsolute x y else lshByAbsolute x y)"

definition rsh :: "bigint \<Rightarrow> bigint \<Rightarrow> bigint eng" where
  "rsh x y = (if isNegative y then lshByAbsolute x y else rshByAbsolute x y)"

section \<open>Left shift\<close>

text \<open>The amount of a shift that the code handles digit by digit.\<close>

lemma shift_split:
  "unat (shift div of_nat DigitBits :: digit) = unat shift div 64"
  "unat (shift mod of_nat DigitBits :: digit) = unat shift mod 64"
  by (simp_all add: DigitBits_def unat_div unat_mod)

lemma power_shift: "2 ^ n = Base ^ (n div 64) * (2 :: nat) ^ (n mod 64)"
  unfolding Base_power by (simp flip: power_add)

lemma wf_if_large:
  assumes "0 < digitLength r" and "digitLength r \<le> MaxDigitLength" and "Base ^ (digitLength r - 1) \<le> dval (digits r)"
  shows "wf r"
proof -
  let ?k = "digitLength r - 1"
  have "dval (digits r) = dval (take ?k (digits r)) + Base ^ ?k * unat (digits r ! ?k)"
    using dval_take_Suc [of ?k "digits r"] assms(1) by simp
  then have "digits r ! ?k \<noteq> 0"
    using assms(3) dval_take_less [of ?k "digits r"] by auto
  then show ?thesis using assms(1,2) by (simp add: wf_def HasLeadingZeroes_def isZero_def)
qed

lemma runs_lowZeroes:
  assumes "n \<le> digitLength r"
    and "\<And>r'. digitLength r' = digitLength r \<Longrightarrow> isNegative r' = isNegative r \<Longrightarrow> dval (take n (digits r')) = 0 \<Longrightarrow> Q r'"
  shows "runs (forUp 0 n (\<lambda>i r. setDigit r i 0) r) v E Q"
  by (rule runs_forUpI [where I = "\<lambda>i r'. digitLength r' = digitLength r \<and> isNegative r' = isNegative r \<and>
        dval (take i (digits r')) = 0"])
    (use assms in \<open>auto simp: dval_take_Suc_update\<close>)

lemma runs_lshDigits:
  assumes len: "digitLength r = s + digitLength x" and low: "dval (take s (digits r)) = 0"
    and Q: "\<And>r'. digitLength r' = digitLength r \<Longrightarrow> isNegative r' = isNegative r \<Longrightarrow>
      dval (digits r') = dval (digits x) * Base ^ s \<Longrightarrow> Q r'"
  shows "runs (forUp s (digitLength r) (\<lambda>i r. bindM (digit x (i - s)) (\<lambda>d. setDigit r i d)) r) v E Q"
proof (rule runs_forUpI [where I = "\<lambda>i r'. digitLength r' = digitLength r \<and> isNegative r' = isNegative r \<and>
      dval (take i (digits r')) = dval (take (i - s) (digits x)) * Base ^ s"], goal_cases)
  case (3 i r')
  then have "Suc i - s = Suc (i - s)" and i: "i - s < digitLength x" "i < digitLength r'" using len by auto
  moreover have "Base ^ (i - s) * Base ^ s = Base ^ i" using 3 by (simp flip: power_add)
  ultimately have "dval (take (Suc i) ((digits r')[i := digits x ! (i - s)]))
      = dval (take (Suc i - s) (digits x)) * Base ^ s"
    using 3 by (simp add: dval_take_Suc_update dval_take_Suc algebra_simps)
  then show ?case using 3 i by simp
next
  case (4 r')
  then have "dval (digits r') = dval (digits x) * Base ^ s" using len by (metis add_diff_cancel_left' order_refl take_all)
  then show ?case using 4 Q by simp
qed (use len low in auto)

lemma runs_lshBits:
  assumes b: "0 < b" "b < 64" and len: "s + digitLength x \<le> digitLength r" and low: "dval (take s (digits r)) = 0"
    and Q: "\<And>r' c. digitLength r' = digitLength r \<Longrightarrow> isNegative r' = isNegative r \<Longrightarrow>
      c = (if digits x = [] then 0 else shr (digits x ! (digitLength x - 1)) (64 - b)) \<Longrightarrow>
      dval (take (s + digitLength x) (digits r')) + Base ^ (s + digitLength x) * unat c
        = dval (digits x) * 2 ^ b * Base ^ s \<Longrightarrow> Q (r', c)"
  shows "runs (forUp 0 (digitLength x) (\<lambda>j (r, carry).
      bindM (digit x j) (\<lambda>d. bindM (setDigit r (s + j) (shl d b OR carry)) (\<lambda>r.
      returnM (r, shr d (DigitBits - b))))) (r, 0)) v E Q"
proof (rule runs_forUpI [where I = "\<lambda>i (r', c). digitLength r' = digitLength r \<and> isNegative r' = isNegative r \<and>
      unat c < 2 ^ b \<and> c = (if i = 0 then 0 else shr (digits x ! (i - 1)) (64 - b)) \<and>
      dval (take (s + i) (digits r')) + Base ^ (s + i) * unat c = dval (take i (digits x)) * 2 ^ b * Base ^ s"], goal_cases)
  case (3 i st)
  obtain r' c where st: "st = (r', c)" by (cases st)
  have i: "i < digitLength x" "s + i < digitLength r'" and c: "unat c < 2 ^ b" using 3 st len by auto
  let ?d = "digits x ! i"
  have inv: "dval (take (s + i) (digits r')) + Base ^ (s + i) * unat c = dval (take i (digits x)) * 2 ^ b * Base ^ s"
    using 3 st by auto
  have "dval (take (Suc (s + i)) ((digits r')[s + i := shl ?d b OR c])) + Base ^ Suc (s + i) * unat (shr ?d (64 - b))
      = dval (take (Suc i) (digits x)) * 2 ^ b * Base ^ s"
    using carry_step [OF i(2) unat_shl_or [OF b c, of ?d]] inv i(1) by (simp add: dval_take_Suc power_add algebra_simps)
  then show ?case using 3 st i shr_less [OF b] by (simp add: DigitBits_def del: power_Suc)
next
  case (4 st)
  then show ?case by (cases st) (auto simp: Q)
qed (use low in auto)
definition lsh_error :: "env \<Rightarrow> bigint \<Rightarrow> nat \<Rightarrow> err \<Rightarrow> bool" where
  "lsh_error v x n e \<longleftrightarrow> oom v e \<or> e = BigIntTooLarge \<and> Base ^ MaxDigitLength \<le> dval (digits x) * 2 ^ n"

text \<open>The length the code allocates is the exact length of the result.\<close>

lemma lsh_length:
  assumes "wf x" and "\<not> isZero x" and b: "b < 64"
  defines "grow \<equiv> b \<noteq> 0 \<and> shr (digits x ! (digitLength x - 1)) (64 - b) \<noteq> 0"
  shows "Base ^ (digitLength x + s + (if grow then 1 else 0) - 1) \<le> dval (digits x) * 2 ^ b * Base ^ s"
proof -
  let ?k = "digitLength x - 1" and ?t = "digits x ! (digitLength x - 1)"
  have k: "digitLength x = Suc ?k" using assms(2) by (simp add: isZero_iff)
  have X: "dval (digits x) = dval (take ?k (digits x)) + Base ^ ?k * unat ?t"
    using dval_take_Suc [of ?k "digits x"] k by simp
  have "Base ^ (?k + (if grow then 1 else 0)) \<le> dval (digits x) * 2 ^ b"
  proof (cases grow)
    case True
    then have "unat ?t div 2 ^ (64 - b) \<noteq> 0" using b unat_shr [of "64 - b" ?t] by (auto simp: grow_def DigitBits_def unat_eq_zero [symmetric])
    then have "2 ^ (64 - b) \<le> unat ?t" by (simp add: div_eq_0_iff not_less)
    then have "2 ^ (64 - b) * 2 ^ b \<le> unat ?t * 2 ^ b" by (rule mult_right_mono) simp
    then have "Base \<le> unat ?t * 2 ^ b" using b by (simp add: Base_def flip: power_add)
    then have "Base ^ ?k * Base \<le> Base ^ ?k * (unat ?t * 2 ^ b)" by (rule mult_left_mono) simp
    also have "\<dots> \<le> dval (digits x) * 2 ^ b" unfolding X by (simp add: algebra_simps)
    finally show ?thesis using True by (simp add: mult.commute)
  next
    case False
    have "Base ^ ?k \<le> dval (digits x)"
      using assms(1,2) by (intro dval_ge_top) (auto simp: isZero_iff wf_def HasLeadingZeroes_def)
    also have "\<dots> \<le> dval (digits x) * 2 ^ b" by simp
    finally show ?thesis using False by simp
  qed
  then have "Base ^ (?k + (if grow then 1 else 0)) * Base ^ s \<le> dval (digits x) * 2 ^ b * Base ^ s"
    by (rule mult_right_mono) simp
  moreover have "digitLength x + s + (if grow then 1 else 0) - 1 = ?k + (if grow then 1 else 0) + s" using k by simp
  ultimately show ?thesis by (simp only: power_add)
qed

lemma big_shift:
  assumes "0 < X" and "MaxBitLength \<le> n"
  shows "Base ^ MaxDigitLength \<le> X * 2 ^ n"
proof -
  have "64 * MaxDigitLength \<le> n" using assms(2) by (simp add: MaxBitLength_digits)
  then have "(2 :: nat) ^ (64 * MaxDigitLength) \<le> 2 ^ n" by (rule power_increasing) simp
  also have "\<dots> \<le> X * 2 ^ n" using assms(1) by simp
  finally show ?thesis unfolding Base_power .
qed

text \<open>A shift amount is either one digit, or at least \<open>MaxBitLength\<close>.\<close>

lemma shift_amount:
  assumes "wf y" and "\<not> isZero y" and "digitLength y \<noteq> 1"
  shows "MaxBitLength < dval (digits y)" and "1 < digitLength y"
proof -
  show "1 < digitLength y" using assms by (cases "digitLength y") (auto simp: isZero_def)
  then have "Base ^ 1 \<le> Base ^ (digitLength y - 1)" by (intro power_increasing) simp_all
  also have "\<dots> \<le> dval (digits y)"
    using assms by (intro dval_ge_top) (auto simp: isZero_iff wf_def HasLeadingZeroes_def)
  finally show "MaxBitLength < dval (digits y)" using MaxBitLength_less_Base by simp
qed

lemma runs_lshCore:
  assumes wf: "wf x" and nz: "\<not> isZero x"
    and E: "\<And>e. lsh_error v x n e \<Longrightarrow> E e"
    and Q: "\<And>r. wf r \<Longrightarrow> bval r = withSign (isNegative x) (dval (digits x) * 2 ^ n) \<Longrightarrow> Q r"
  defines "grow \<equiv> n mod 64 \<noteq> 0 \<and> shr (digits x ! (digitLength x - 1)) (DigitBits - n mod 64) \<noteq> 0"
  defines "L \<equiv> digitLength x + n div 64 + (if grow then 1 else 0)"
  shows "runs (bindM (createUninitialized L (isNegative x)) (\<lambda>result.
      bindM (forUp 0 (n div 64) (\<lambda>i result. setDigit result i 0) result) (\<lambda>result.
      if n mod 64 = 0 then
        forUp (n div 64) L (\<lambda>i result. bindM (digit x (i - n div 64)) (\<lambda>d. setDigit result i d)) result
      else
        bindM (forUp 0 (digitLength x) (\<lambda>j (result, carry).
          bindM (digit x j) (\<lambda>d. bindM (setDigit result (n div 64 + j) (shl d (n mod 64) OR carry)) (\<lambda>result.
          returnM (result, shr d (DigitBits - n mod 64))))) (result, 0)) (\<lambda>(result, carry).
        if grow then setDigit result (n div 64 + digitLength x) carry
        else mozAssert (carry = 0) (returnM result))))) v E Q"
proof -
  let ?s = "n div 64" and ?b = "n mod 64" and ?X = "dval (digits x)"
  have total: "?X * 2 ^ ?b * Base ^ ?s = ?X * 2 ^ n" unfolding power_shift [of n] by simp
  have len: "Base ^ (L - 1) \<le> ?X * 2 ^ n"
    using lsh_length [OF wf nz, of ?b ?s] total by (simp add: L_def grow_def DigitBits_def)
  have Lpos: "0 < L" using nz by (simp add: L_def isZero_iff)
  have fin: "Q r" if "digitLength r = L" "L \<le> MaxDigitLength" "isNegative r = isNegative x" "dval (digits r) = ?X * 2 ^ n" for r
    using that len Lpos by (intro Q wf_if_large) (auto simp: bval_def)
  show ?thesis
  proof (rule runs_bindI, rule runs_createUninitialized, goal_cases)
    case 2
    then have "Base ^ MaxDigitLength \<le> Base ^ (L - 1)" by (intro power_increasing) auto
    then show ?case using len by (intro E) (auto simp: lsh_error_def)
  next
    case (3 ds)
    show ?case
    proof (rule runs_bindI, rule runs_lowZeroes, goal_cases)
      case r: (2 r)
      have lenr: "digitLength r = L" "isNegative r = isNegative x" using r 3 by simp_all
      show ?case
      proof (cases "?b = 0")
        case True
        then have "L = ?s + digitLength x" by (simp add: L_def grow_def)
        then have "runs (forUp ?s (digitLength r) (\<lambda>i r. bindM (digit x (i - ?s)) (\<lambda>d. setDigit r i d)) r) v E Q"
          using lenr r 3 total True by (intro runs_lshDigits fin) auto
        then show ?thesis using True lenr by simp
      next
        case False
        show ?thesis
          unfolding if_not_P [OF False]
        proof (rule runs_bindI, rule runs_lshBits, goal_cases)
          case (5 r' c)
          have c: "c \<noteq> 0 \<longleftrightarrow> grow" using 5(3) nz False by (auto simp: isZero_iff grow_def DigitBits_def)
          have r': "digitLength r' = L" "isNegative r' = isNegative x" using 5 lenr by simp_all
          show ?case
          proof (cases grow)
            case True
            let ?i = "?s + digitLength x"
            have "dval ((digits r')[?i := c]) = ?X * 2 ^ n"
              using 5(4) total r' True dval_take_Suc_update [of ?i "digits r'" c] by (simp add: L_def add.commute)
            then show ?thesis using True r' 3 by (simp add: L_def add.commute fin)
          next
            case False
            then have "dval (digits r') = ?X * 2 ^ n" using 5(4) total r' c by (simp add: L_def add.commute)
            then show ?thesis using False c r' 3 by (simp add: fin)
          qed
        qed (use False lenr r in \<open>auto simp: L_def\<close>)
      qed
    qed (use 3 in \<open>auto simp: L_def\<close>)
  qed (use E in \<open>auto simp: lsh_error_def\<close>)
qed

lemma runs_lshByAbsolute:
  assumes wf: "wf x" "wf y" and E: "\<And>e. lsh_error v x (dval (digits y)) e \<Longrightarrow> E e"
    and Q: "\<And>r. wf r \<Longrightarrow> bval r = withSign (isNegative x) (dval (digits x) * 2 ^ dval (digits y)) \<Longrightarrow> Q r"
  shows "runs (lshByAbsolute x y) v E Q"
proof (cases "isZero x \<or> isZero y")
  case True
  then have "Q x" using wf wf_zero_iff [OF wf(1)] wf_zero_iff [OF wf(2)] by (intro Q) (auto simp: bval_def)
  then show ?thesis using True by (simp add: lshByAbsolute_def)
next
  case False
  let ?n = "dval (digits y)"
  have nz: "\<not> isZero x" "\<not> isZero y" "0 < dval (digits x)" using False wf_digits_pos wf by auto
  have reads: "0 < digitLength y" "digitLength x - 1 < digitLength x" using nz by (simp_all add: isZero_iff)
  have large: "E BigIntTooLarge" if "MaxBitLength \<le> ?n"
    using big_shift [OF nz(3) that] by (intro E) (simp add: lsh_error_def)
  show ?thesis
  proof (cases "digitLength y = 1")
    case True
    then have y: "?n = unat (digits y ! 0)" using wf_digit_0 [OF wf(2)] by (metis dval.simps mult_0_right add.right_neutral)
    show ?thesis
    proof (cases "digits y ! 0 > of_nat MaxBitLength")
      case big: True
      then have "MaxBitLength \<le> ?n" using y by (simp add: word_less_nat_alt unat_MaxBitLength)
      then show ?thesis using big False reads large by (simp add: lshByAbsolute_def)
    next
      case small: False
      have skip: "\<not> (digitLength y > 1 \<or> digits y ! 0 > of_nat MaxBitLength)" using True small by simp
      show ?thesis
        unfolding lshByAbsolute_def if_not_P [OF False] digit_in_range [OF reads(1)] digit_in_range [OF reads(2)]
          bindM_returnM if_not_P [OF skip] Let_def shift_split y [symmetric]
        by (rule runs_lshCore [OF wf(1) nz(1) E Q])
    qed
  next
    case long: False
    note amount = shift_amount [OF wf(2) nz(2) long]
    then show ?thesis using False reads large by (simp add: lshByAbsolute_def)
  qed
qed

section \<open>Right shift\<close>

lemma runs_anyDigitSet:
  assumes "i + n \<le> digitLength x"
  shows "runs (anyDigitSet n i x) v E (\<lambda>r. r \<longleftrightarrow> (\<exists>d \<in> set (take n (drop i (digits x))). d \<noteq> 0))"
  using assms
proof (induction n arbitrary: i)
  case 0
  then show ?case by simp
next
  case (Suc n)
  have "drop i (digits x) = digits x ! i # drop (Suc i) (digits x)"
    using Suc.prems by (simp add: Cons_nth_drop_Suc)
  then show ?case using Suc.IH [of "Suc i"] Suc.prems by (cases "digits x ! i = 0") auto
qed

text \<open>The bits that a right shift drops.\<close>

lemma shifted_out:
  assumes "s < length xs" and "b < 64"
  shows "dval xs mod (Base ^ s * 2 ^ b) = 0 \<longleftrightarrow> (\<forall>d \<in> set (take s xs). d = 0) \<and> unat (xs ! s) mod 2 ^ b = 0"
proof -
  have B: "Base = 2 ^ (64 - b) * 2 ^ b" using assms(2) by (simp add: Base_def flip: power_add)
  let ?D = "dval (drop s xs)"
  have "?D = unat (xs ! s) + 2 ^ b * (2 ^ (64 - b) * dval (drop (Suc s) xs))"
    unfolding dval_drop_Suc [OF assms(1)] by (simp add: B)
  then have D: "?D mod 2 ^ b = unat (xs ! s) mod 2 ^ b" by simp
  have "dval xs mod (Base ^ s * 2 ^ b) = dval (take s xs) + Base ^ s * (?D mod 2 ^ b)"
    using mod_mult2_eq [of "dval xs" "Base ^ s" "2 ^ b"] by (simp add: dval_drop_div dval_take_mod)
  then show ?thesis using D dval_eq_0_iff [of "take s xs"] by simp
qed

lemma runs_rshRoundsDown:
  assumes "s < digitLength x" and "b < 64"
    and "Q (isNegative x \<and> dval (digits x) mod (Base ^ s * 2 ^ b) \<noteq> 0)"
  shows "runs (rshRoundsDown x s b) v E Q"
proof (cases "isNegative x")
  case True
  note out = shifted_out [OF assms(1,2)]
  have mask: "digits x ! s AND (shl 1 b - 1) = 0 \<longleftrightarrow> unat (digits x ! s) mod 2 ^ b = 0"
    using unat_and_low_mask [OF assms(2), of "digits x ! s"] by (metis unat_eq_zero unsigned_0)
  show ?thesis
  proof (cases "unat (digits x ! s) mod 2 ^ b = 0")
    case zero: True
    have "runs (anyDigitSet s 0 x) v E Q"
      by (rule runs_weakenQ [OF runs_anyDigitSet]) (use assms True zero out in auto)
    then show ?thesis using True zero mask assms(1) by (simp add: rshRoundsDown_def)
  next
    case False
    then have "Q True" using assms(3) True out by simp
    then show ?thesis using True False mask assms(1) by (simp add: rshRoundsDown_def)
  qed
next
  case False
  then show ?thesis using assms(3) by (simp add: rshRoundsDown_def)
qed

lemma div_add_multiple: "(a + P * 2 ^ b * d) div 2 ^ b = a div 2 ^ b + P * (d :: nat)"
proof -
  have "a + P * 2 ^ b * d = a + 2 ^ b * (P * d)" by simp
  then show ?thesis by (simp only: div_mult_self2 power_not_zero zero_neq_numeral not_False_eq_True add.commute)
qed

lemma runs_rshBits:
  assumes b: "0 < b" "b < 64" and s: "s < digitLength x" and len: "digitLength r = digitLength x - s"
    and Q: "\<And>r'. digitLength r' = digitLength r \<Longrightarrow> isNegative r' = isNegative r \<Longrightarrow>
      dval (digits r') = dval (drop s (digits x)) div 2 ^ b \<Longrightarrow> Q r'"
  shows "runs (bindM (forUp 0 (digitLength x - s - 1) (\<lambda>i (result, carry).
          bindM (digit x (i + s + 1)) (\<lambda>d.
          bindM (setDigit result i (shl d (DigitBits - b) OR carry)) (\<lambda>result.
          returnM (result, shr d b)))) (r, shr (digits x ! s) b)) (\<lambda>(result, carry).
        setDigit result (digitLength x - s - 1) carry)) v E Q"
proof (rule runs_bindI, rule runs_forUpI [where I = "\<lambda>i (r', c). digitLength r' = digitLength r \<and> isNegative r' = isNegative r \<and>
      unat c < 2 ^ (64 - b) \<and>
      dval (take i (digits r')) + Base ^ i * unat c = dval (take (Suc i) (drop s (digits x))) div 2 ^ b"], goal_cases)
  case 1
  have "take (Suc 0) (drop s (digits x)) = [digits x ! s]"
    using s by (simp add: take_Suc_conv_app_nth)
  then show ?case using shr_less [of "64 - b" "digits x ! s"] b by (simp add: unat_shr DigitBits_def)
next
  case (3 i st)
  obtain r' c where st: "st = (r', c)" by (cases st)
  have i: "i < digitLength r'" "Suc i < length (drop s (digits x))" "i + s + 1 < digitLength x" using 3 st len s by auto
  have c: "unat c < 2 ^ (64 - b)" using 3 st by simp
  let ?d = "digits x ! (i + s + 1)"
  have d: "drop s (digits x) ! Suc i = ?d" using i by (simp add: ac_simps)
  have B: "Base ^ Suc i = Base ^ i * 2 ^ (64 - b) * 2 ^ b" using b by (simp add: Base_def flip: power_add)
  have "dval (take (Suc (Suc i)) (drop s (digits x))) div 2 ^ b
      = dval (take (Suc i) (drop s (digits x))) div 2 ^ b + Base ^ i * 2 ^ (64 - b) * unat ?d"
    unfolding dval_take_Suc [OF i(2)] d B by (rule div_add_multiple)
  moreover have "unat (shl ?d (64 - b) OR c) + Base * unat (shr ?d b) = unat ?d * 2 ^ (64 - b) + unat c"
    using unat_shl_or [of "64 - b" c ?d] b c by simp
  from carry_step [OF i(1) this]
  have "dval (take (Suc i) ((digits r')[i := shl ?d (64 - b) OR c])) + Base ^ Suc i * unat (shr ?d b)
      = dval (take i (digits r')) + Base ^ i * unat c + Base ^ i * 2 ^ (64 - b) * unat ?d"
    by (simp add: algebra_simps)
  ultimately have "dval (take (Suc i) ((digits r')[i := shl ?d (64 - b) OR c])) + Base ^ Suc i * unat (shr ?d b)
      = dval (take (Suc (Suc i)) (drop s (digits x))) div 2 ^ b" using 3 st by simp
  then show ?case
    using 3 st i shr_less [of "64 - b" ?d] b by (simp add: DigitBits_def del: power_Suc)
next
  case (4 st)
  obtain r' c where st: "st = (r', c)" by (cases st)
  let ?l = "digitLength x - s - 1"
  have l: "?l < digitLength r'" "Suc ?l = digitLength r'" "Suc ?l = length (drop s (digits x))" using 4 st len s by auto
  have "dval ((digits r')[?l := c]) = dval (take (Suc ?l) ((digits r')[?l := c]))" using l by simp
  also have "\<dots> = dval (drop s (digits x)) div 2 ^ b"
    using 4 st l dval_take_Suc_update [OF l(1), of c] by simp
  finally show ?case using 4 st l Q by simp
qed (use s in auto)

lemma runs_rshDigits:
  assumes s: "s < digitLength x" and len: "digitLength x - s \<le> digitLength r"
    and Q: "\<And>r'. digitLength r' = digitLength r \<Longrightarrow> isNegative r' = isNegative r \<Longrightarrow>
      digits r' = drop s (digits x) @ drop (digitLength x - s) (digits r) \<Longrightarrow> Q r'"
  shows "runs (forUp s (digitLength x) (\<lambda>i r. bindM (digit x i) (\<lambda>d. setDigit r (i - s) d)) r) v E Q"
proof (rule runs_forUpI [where I = "\<lambda>i r'. digitLength r' = digitLength r \<and> isNegative r' = isNegative r \<and>
      digits r' = take (i - s) (drop s (digits x)) @ drop (i - s) (digits r)"], goal_cases)
  case (3 i r')
  then have i: "i - s < digitLength r" "i - s < length (drop s (digits x))" "Suc i - s = Suc (i - s)" using len by auto
  have "drop s (digits x) ! (i - s) = digits x ! i" using 3 by simp
  then have "take (Suc (i - s)) (drop s (digits x)) = take (i - s) (drop s (digits x)) @ [digits x ! i]"
    using i(2) by (simp add: take_Suc_conv_app_nth)
  moreover have "drop (i - s) (digits r) = digits r ! (i - s) # drop (Suc (i - s)) (digits r)"
    using i(1) by (simp add: Cons_nth_drop_Suc)
  ultimately show ?case using 3 i by (simp add: list_update_append min_def)
next
  case (4 r')
  then show ?case using len by (intro Q) auto
qed (use s in auto)

lemma runs_rshCopy:
  assumes s: "s < digitLength x" and b: "b < 64" and len: "digitLength r = digitLength x - s"
    and Q: "\<And>r'. digitLength r' = digitLength r \<Longrightarrow> isNegative r' = isNegative r \<Longrightarrow>
      dval (digits r') = dval (digits x) div (Base ^ s * 2 ^ b) \<Longrightarrow> Q r'"
  shows "runs (rshCopy x s b r) v E Q"
proof -
  have val: "dval (drop s (digits x)) div 2 ^ b = dval (digits x) div (Base ^ s * 2 ^ b)"
    by (simp add: dval_drop_div div_mult2_eq)
  show ?thesis
  proof (cases "b = 0")
    case True
    have "runs (forUp s (digitLength x) (\<lambda>i r. bindM (digit x i) (\<lambda>d. setDigit r (i - s) d)) r) v E Q"
      by (rule runs_rshDigits [OF s]) (use Q val True len in auto)
    then show ?thesis using True by (simp add: rshCopy_def)
  next
    case False
    then have "0 < b" by simp
    from runs_rshBits [OF this b s len, of Q v E] show ?thesis
      using False s Q val by (simp add: rshCopy_def Let_def)
  qed
qed

text \<open>
  The case in which the code allocates one digit more than it writes: a negative number whose top
  digit is at maximum, shifted by whole digits, that must be rounded down.
\<close>

definition unwrittenDigit :: "bigint \<Rightarrow> nat \<Rightarrow> bool" where
  "unwrittenDigit x n \<longleftrightarrow> isNegative x \<and> n mod 64 = 0 \<and> n div 64 < digitLength x \<and>
     digits x ! (digitLength x - 1) = - 1 \<and> dval (digits x) mod 2 ^ n \<noteq> 0"

lemma floor_shift:
  "withSign s X div 2 ^ n = withSign s (X div 2 ^ n + (if s \<and> X mod 2 ^ n \<noteq> 0 then 1 else 0))"
proof -
  have "int X div 2 ^ n = int (X div 2 ^ n)" "int X mod 2 ^ n = int (X mod 2 ^ n)"
    by (simp_all add: zdiv_int zmod_int)
  then show ?thesis using zdiv_zminus1_eq_if [of "2 ^ n" "int X"] by auto
qed

lemma runs_rshByMaximum:
  assumes wf: "wf x" and nz: "\<not> isZero x" and far: "digitLength x \<le> n div 64"
    and E: "\<And>e. oom v e \<Longrightarrow> E e" and Q: "\<And>r. wf r \<Longrightarrow> bval r = bval x div 2 ^ n \<Longrightarrow> Q r"
  shows "runs (rshByMaximum (isNegative x)) v E Q"
proof -
  have "dval (digits x) < Base ^ digitLength x" by (rule dval_less)
  also have "\<dots> \<le> Base ^ (n div 64)" using far by (intro power_increasing) simp_all
  also have "\<dots> \<le> 2 ^ n" unfolding power_shift [of n] by simp
  finally have "dval (digits x) < 2 ^ n" .
  then have "bval x div 2 ^ n = (if isNegative x then - 1 else 0)"
    unfolding bval_def floor_shift using wf_digits_pos [OF wf nz] by simp
  then show ?thesis
    using E Q by (auto simp: rshByMaximum_def bval_make intro!: runs_negativeOne runs_zero)
qed

lemma runs_rshCore:
  assumes wf: "wf x" and nz: "\<not> isZero x" and near: "n div 64 < digitLength x" and n: "0 < n"
    and ok: "\<not> unwrittenDigit x n"
    and E: "\<And>e. oom v e \<Longrightarrow> E e" and Q: "\<And>r. wf r \<Longrightarrow> bval r = bval x div 2 ^ n \<Longrightarrow> Q r"
  shows "runs (bindM (rshRoundsDown x (n div 64) (n mod 64)) (\<lambda>mustRoundDown.
      let resultLength = digitLength x - n div 64 +
            (if mustRoundDown \<and> n mod 64 = 0 \<and> digits x ! (digitLength x - 1) = - 1 then 1 else 0)
      in mozAssert (resultLength \<le> digitLength x) (
      bindM (createUninitialized resultLength (isNegative x)) (\<lambda>result.
      bindM (rshCopy x (n div 64) (n mod 64) result) (\<lambda>result.
      if mustRoundDown then mozAssert (isNegative x) (absoluteAddOne result (isNegative x))
      else destructivelyTrimHighZeroDigits result))))) v E Q"
proof (rule runs_bindI, rule runs_rshRoundsDown [OF near], goal_cases)
  case 2
  let ?s = "n div 64" and ?b = "n mod 64" and ?X = "dval (digits x)"
  have total: "Base ^ ?s * 2 ^ ?b = 2 ^ n" by (rule power_shift [symmetric])
  let ?m = "isNegative x \<and> ?X mod (Base ^ ?s * 2 ^ ?b) \<noteq> 0"
  have len: "digitLength x - ?s + (if ?m \<and> ?b = 0 \<and> digits x ! (digitLength x - 1) = - 1 then 1 else 0)
      = digitLength x - ?s"
    using ok near unfolding total by (auto simp: unwrittenDigit_def)
  have max: "digitLength x \<le> MaxDigitLength" using wf by (rule wf_length)
  have half: "?X div 2 ^ n + 1 < Base ^ MaxDigitLength"
  proof -
    have "?X div 2 ^ n * 2 \<le> ?X div 2 ^ n * 2 ^ n" using n by (intro mult_left_mono) (cases n, auto)
    also have "\<dots> \<le> ?X" by (rule div_times_less_eq_dividend)
    also have "\<dots> < Base ^ digitLength x" by (rule dval_less)
    also have "\<dots> \<le> Base ^ MaxDigitLength" using max by (intro power_increasing) simp_all
    finally have "?X div 2 ^ n * 2 < Base ^ MaxDigitLength" .
    moreover have "Base ^ 1 \<le> Base ^ MaxDigitLength"
      using MaxDigitLength_ge_2 by (intro power_increasing) simp_all
    ultimately show ?thesis using Base_gt_3 by simp
  qed
  show ?case
    unfolding Let_def len
  proof (intro runs_mozAssert, simp, rule runs_bindI, rule runs_createUninitialized, goal_cases)
    case (3 ds)
    show ?case
    proof (rule runs_bindI, rule runs_rshCopy [OF near], goal_cases)
      case (3 r)
      have r: "digitLength r = digitLength x - ?s" "isNegative r = isNegative x" "dval (digits r) = ?X div 2 ^ n"
        using 3 \<open>length ds = digitLength x - ?s\<close> total by simp_all
      show ?case
      proof (cases ?m)
        case True
        then have "isNegative x" "?X mod 2 ^ n \<noteq> 0" unfolding total by auto
        then have "bval x div 2 ^ n = withSign (isNegative x) (dval (digits r) + 1)"
          unfolding bval_def floor_shift r by simp
        then show ?thesis
          unfolding if_P [OF True] using True r max half E Q
          by (intro runs_mozAssert runs_absoluteAddOne) auto
      next
        case False
        then have "bval x div 2 ^ n = bval r"
          unfolding bval_def floor_shift r total by auto
        then show ?thesis
          unfolding if_not_P [OF False] using r max near E Q
          by (intro runs_trim) (auto simp: isZero_def simp flip: length_greater_0_conv)
      qed
    qed (use 3 in auto)
  qed (use E max in auto)
qed simp

lemma runs_rshByAbsolute:
  assumes wf: "wf x" "wf y" and ok: "\<not> unwrittenDigit x (dval (digits y))"
    and E: "\<And>e. oom v e \<Longrightarrow> E e" and Q: "\<And>r. wf r \<Longrightarrow> bval r = bval x div 2 ^ dval (digits y) \<Longrightarrow> Q r"
  shows "runs (rshByAbsolute x y) v E Q"
proof (cases "isZero x \<or> isZero y")
  case True
  then have "Q x" using wf wf_zero_iff [OF wf(1)] wf_zero_iff [OF wf(2)] by (intro Q) (auto simp: bval_def)
  then show ?thesis using True by (simp add: rshByAbsolute_def)
next
  case False
  let ?n = "dval (digits y)"
  have nz: "\<not> isZero x" "\<not> isZero y" "0 < ?n" using False wf_digits_pos wf by auto
  have reads: "0 < digitLength y" "digitLength x - 1 < digitLength x" using nz by (simp_all add: isZero_iff)
  have max: "runs (rshByMaximum (isNegative x)) v E Q" if "MaxBitLength \<le> ?n"
  proof -
    have "MaxDigitLength \<le> ?n div 64" using that by (simp add: MaxBitLength_digits)
    then show ?thesis using wf_length [OF wf(1)] E Q by (intro runs_rshByMaximum [OF wf(1) nz(1)]) auto
  qed
  show ?thesis
  proof (cases "digitLength y = 1 \<and> \<not> digits y ! 0 \<ge> of_nat MaxBitLength")
    case True
    then have y: "?n = unat (digits y ! 0)" using wf_digit_0 [OF wf(2)] by (metis dval.simps mult_0_right add.right_neutral)
    have skip: "\<not> (digitLength y > 1 \<or> digits y ! 0 \<ge> of_nat MaxBitLength)" using True by simp
    show ?thesis
      unfolding rshByAbsolute_def if_not_P [OF False] digit_in_range [OF reads(1)] digit_in_range [OF reads(2)]
        bindM_returnM if_not_P [OF skip] Let_def shift_split y [symmetric]
      by (intro runs_if runs_rshByMaximum [OF wf(1) nz(1) _ E Q] runs_rshCore [unfolded Let_def, OF wf(1) nz(1) _ nz(3) ok E Q])
        auto
  next
    case long: False
    have "MaxBitLength \<le> ?n"
    proof (cases "digitLength y = 1")
      case True
      then have "?n = unat (digits y ! 0)" using wf_digit_0 [OF wf(2)] by (metis dval.simps mult_0_right add.right_neutral)
      then show ?thesis using long True by (simp add: word_le_nat_alt unat_MaxBitLength)
    next
      case False
      then show ?thesis using shift_amount [OF wf(2) nz(2)] by simp
    qed
    moreover have "digitLength y > 1 \<or> digits y ! 0 \<ge> of_nat MaxBitLength"
      using long shift_amount(2) [OF wf(2) nz(2)] by auto
    ultimately show ?thesis using False reads max by (simp add: rshByAbsolute_def)
  qed
qed

section \<open>Signed shifts\<close>

text \<open>What the language asks of a shift: multiplication by a power of two, or division rounded down.\<close>

definition shiftInt :: "int \<Rightarrow> int \<Rightarrow> int" where
  "shiftInt x y = (if 0 \<le> y then x * 2 ^ nat y else x div 2 ^ nat (- y))"

definition shift_error :: "env \<Rightarrow> int \<Rightarrow> int \<Rightarrow> err \<Rightarrow> bool" where
  "shift_error v x y e \<longleftrightarrow> oom v e \<or>
     e = BigIntTooLarge \<and> 0 \<le> y \<and> int (Base ^ MaxDigitLength) \<le> \<bar>shiftInt x y\<bar>"

lemma lsh_error_shift: "lsh_error v x n e \<Longrightarrow> shift_error v (bval x) (int n) e"
  by (auto simp: lsh_error_def shift_error_def shiftInt_def abs_mult abs_bval
      dest!: zle_int [THEN iffD2])

lemma bval_lsh: "withSign (isNegative x) (dval (digits x) * 2 ^ n) = shiftInt (bval x) (int n)"
  by (simp add: shiftInt_def bval_def)

lemma shift_right_cases: "bval x div 2 ^ n = shiftInt (bval x) (- int n)"
  by (cases "n = 0") (simp_all add: shiftInt_def)

lemma runs_lsh:
  assumes wf: "wf x" "wf y" and ok: "bval y < 0 \<Longrightarrow> \<not> unwrittenDigit x (nat (- bval y))"
    and E: "\<And>e. shift_error v (bval x) (bval y) e \<Longrightarrow> E e"
    and Q: "\<And>r. wf r \<Longrightarrow> bval r = shiftInt (bval x) (bval y) \<Longrightarrow> Q r"
  shows "runs (lsh x y) v E Q"
proof (cases "isNegative y")
  case True
  then have y: "bval y = - int (dval (digits y))" by (simp add: bval_def)
  have neg: "bval y < 0" using True wf_neg_iff [OF wf(2)] by (rule iffD1 [rotated])
  have ok': "\<not> unwrittenDigit x (dval (digits y))" using ok [OF neg] y by simp
  have "runs (rshByAbsolute x y) v E Q"
    by (rule runs_rshByAbsolute [OF wf ok'])
      (use E Q y in \<open>auto simp only: shift_error_def shift_right_cases\<close>)
  then show ?thesis using True by (simp add: lsh_def)
next
  case False
  then have y: "bval y = int (dval (digits y))" by (simp add: bval_def)
  have "runs (lshByAbsolute x y) v E Q"
    by (rule runs_lshByAbsolute [OF wf]) (use E Q y lsh_error_shift in \<open>auto simp only: bval_lsh\<close>)
  then show ?thesis using False by (simp add: lsh_def)
qed

lemma runs_rsh:
  assumes wf: "wf x" "wf y" and ok: "0 \<le> bval y \<Longrightarrow> \<not> unwrittenDigit x (nat (bval y))"
    and E: "\<And>e. shift_error v (bval x) (- bval y) e \<Longrightarrow> E e"
    and Q: "\<And>r. wf r \<Longrightarrow> bval r = shiftInt (bval x) (- bval y) \<Longrightarrow> Q r"
  shows "runs (rsh x y) v E Q"
proof (cases "isNegative y")
  case True
  then have y: "- bval y = int (dval (digits y))" by (simp add: bval_def)
  have "runs (lshByAbsolute x y) v E Q"
    by (rule runs_lshByAbsolute [OF wf]) (use E Q y lsh_error_shift in \<open>auto simp only: bval_lsh\<close>)
  then show ?thesis using True by (simp add: rsh_def)
next
  case False
  then have y: "bval y = int (dval (digits y))" by (simp add: bval_def)
  have ok': "\<not> unwrittenDigit x (dval (digits y))" using ok y by simp
  have "runs (rshByAbsolute x y) v E Q"
    by (rule runs_rshByAbsolute [OF wf ok'])
      (use E Q y in \<open>auto simp only: shift_error_def shift_right_cases\<close>)
  then show ?thesis using False by (simp add: rsh_def)
qed

section \<open>The digit that is never written\<close>

text \<open>
  In an environment whose fresh memory is filled with \<open>J\<close>, the copy loop leaves \<open>J\<close> in the top digit of
  the result, and adding one to the magnitude may carry into it.
\<close>

definition filledWith :: "u64 \<Rightarrow> env" where
  "filledWith J = \<lparr>allocOk = \<lambda>k. True, junk = \<lambda>k i. J\<rparr>"

lemma runs_createFilled:
  assumes "n \<le> MaxDigitLength" and "Q \<lparr>digits = replicate n J, isNegative = s\<rparr>"
  shows "runs (createUninitialized n s) (filledWith J) E Q"
proof -
  have "map (\<lambda>i. J) [0..<n] = replicate n J" by (simp add: map_replicate_const)
  then show ?thesis
    using assms by (auto simp: createUninitialized_def runs_def bindM_def allocM_def returnM_def filledWith_def)
qed

lemma runs_rshUnwritten:
  assumes wf: "wf x" "wf y" and y: "bval y = int n" and un: "unwrittenDigit x n" and J: "J \<noteq> - 1"
    and Q: "\<And>r. wf r \<Longrightarrow> bval r = bval x div 2 ^ n - int (Base ^ (digitLength x - n div 64)) * uint J \<Longrightarrow> Q r"
  shows "runs (rsh x y) (filledWith J) E Q"
proof -
  let ?s = "n div 64" and ?X = "dval (digits x)"
  let ?k = "digitLength x - ?s"
  have u: "isNegative x" "n mod 64 = 0" "?s < digitLength x" "digits x ! (digitLength x - 1) = - 1" "?X mod 2 ^ n \<noteq> 0"
    using un by (simp_all add: unwrittenDigit_def)
  have n: "0 < n" using u(5) by (cases n) auto
  have s: "0 < ?s" using n u(2) by (cases "n div 64 = 0") auto
  have pos: "\<not> isNegative y" "n = dval (digits y)" using y n by (auto simp: bval_def split: if_splits)
  have nz: "\<not> (isZero x \<or> isZero y)" using u(3) pos(2) n by (auto simp: isZero_def)
  have max: "digitLength x \<le> MaxDigitLength" using wf(1) by (rule wf_length)
  have small: "n < MaxBitLength" using u(2,3) max by (simp add: MaxBitLength_digits)
  have one: "digitLength y = 1" using shift_amount(1) [OF wf(2)] nz small pos(2) by fastforce
  then have d: "n = unat (digits y ! 0)" using wf_digit_0 [OF wf(2)] pos(2) by (metis dval.simps mult_0_right add.right_neutral)
  have skip: "\<not> (digitLength y > 1 \<or> digits y ! 0 \<ge> of_nat MaxBitLength)"
    using one small d by (simp add: word_le_nat_alt unat_MaxBitLength)
  have near: "\<not> digitLength x \<le> ?s" using u(3) by simp
  have reads: "0 < digitLength y" "digitLength x - 1 < digitLength x" using one u(3) by auto
  have total: "Base ^ ?s * 2 ^ (n mod 64) = 2 ^ n" by (rule power_shift [symmetric])
  have D: "dval (drop ?s (digits x)) = ?X div 2 ^ n" using total u(2) by (simp add: dval_drop_div)
  have top: "?X div 2 ^ n + Base ^ ?k * unat J + 1 < Base ^ MaxDigitLength"
  proof -
    have "Suc (unat J) < Base" using digit_not_max [OF J] by simp
    have "dval (drop ?s (digits x)) < Base ^ ?k" using dval_less [of "drop ?s (digits x)"] by simp
    then have "?X div 2 ^ n + Base ^ ?k * unat J + 1 \<le> Base ^ ?k * Suc (unat J)" unfolding D by simp
    also have "\<dots> < Base ^ ?k * Base" using \<open>Suc (unat J) < Base\<close> by (rule mult_strict_left_mono) simp
    also have "\<dots> = Base ^ Suc ?k" by simp
    also have "\<dots> \<le> Base ^ MaxDigitLength" using max s u(3) by (intro power_increasing) auto
    finally show ?thesis .
  qed
  have floor: "bval x div 2 ^ n - int (Base ^ ?k) * uint J = withSign True (?X div 2 ^ n + Base ^ ?k * unat J + 1)"
  proof -
    have "bval x div 2 ^ n = - int (?X div 2 ^ n + 1)" unfolding bval_def floor_shift using u(1,5) by simp
    moreover have "int (Base ^ ?k) * uint J = int (Base ^ ?k * unat J)" by (simp only: of_nat_mult uint_nat)
    ultimately show ?thesis by (simp only: if_True of_nat_add)
  qed
  have core: "runs (bindM (rshRoundsDown x ?s (n mod 64)) (\<lambda>mustRoundDown.
      let resultLength = ?k + (if mustRoundDown \<and> n mod 64 = 0 \<and> digits x ! (digitLength x - 1) = - 1 then 1 else 0)
      in mozAssert (resultLength \<le> digitLength x) (
      bindM (createUninitialized resultLength (isNegative x)) (\<lambda>result.
      bindM (rshCopy x ?s (n mod 64) result) (\<lambda>result.
      if mustRoundDown then mozAssert (isNegative x) (absoluteAddOne result (isNegative x))
      else destructivelyTrimHighZeroDigits result))))) (filledWith J) E Q"
  proof (rule runs_bindI, rule runs_rshRoundsDown [OF u(3)], goal_cases)
    case 2
    have one_left: "drop ?k (replicate (Suc ?k) J) = [J]" by (subst drop_replicate) (simp add: Suc_diff_le)
    have must: "isNegative x \<and> ?X mod (Base ^ ?s * 2 ^ (n mod 64)) \<noteq> 0" using u(1,5) total by simp
    have "runs (rshCopy x ?s 0 \<lparr>digits = replicate (Suc ?k) J, isNegative = True\<rparr>) (filledWith J) E
        (\<lambda>r. runs (absoluteAddOne r True) (filledWith J) E Q)"
      unfolding rshCopy_def Let_def if_P [OF refl]
    proof (rule runs_rshDigits [OF u(3)], goal_cases)
      case (2 r)
      have "digits r = drop ?s (digits x) @ [J]" using 2(3) one_left by (simp del: replicate_Suc)
      then have "dval (digits r) = ?X div 2 ^ n + Base ^ ?k * unat J" using D by (simp add: dval_append)
      moreover have "digitLength r \<le> MaxDigitLength" using 2(1) max s u(3) by simp
      ultimately show ?case
        using top floor by (intro runs_absoluteAddOne Q) (auto simp: oom_def filledWith_def)
    qed simp
    then show ?case
      using must u s max by (auto simp: Let_def intro!: runs_mozAssert runs_createFilled runs_bindI)
  qed simp
  have pos0: "\<not> isNegative y" by (rule pos(1))
  show ?thesis
    unfolding rsh_def if_not_P [OF pos0] rshByAbsolute_def if_not_P [OF nz] digit_in_range [OF reads(1)]
      digit_in_range [OF reads(2)] bindM_returnM if_not_P [OF skip] Let_def shift_split d [symmetric] if_not_P [OF near]
    by (rule core [unfolded Let_def])
qed

section \<open>Properties\<close>

text \<open>
  Left shift: \<open>x << y\<close> is the canonical BigInt of \<open>x * 2 ^ y\<close>, and for negative \<open>y\<close> of
  \<open>x / 2 ^ (- y)\<close> rounded down, when the rounding does not hit the unwritten digit.  Besides lack of memory the
  only error is \<open>BigIntTooLarge\<close>, reported only when the result has more than the maximal number
  of digits.
\<close>

theorem lsh_correct:
  assumes "wf x" and "wf y" and "bval y < 0 \<Longrightarrow> \<not> unwrittenDigit x (nat (- bval y))"
  shows "runs (lsh x y) v (shift_error v (bval x) (bval y)) (\<lambda>r. wf r \<and> bval r = shiftInt (bval x) (bval y))"
  by (rule runs_lsh) (use assms in auto)

theorem lsh_correct_witness:
  "wf \<lparr>digits = [3, 5], isNegative = True\<rparr> \<and> wf \<lparr>digits = [70], isNegative = False\<rparr> \<and>
   runs (lsh \<lparr>digits = [3, 5], isNegative = True\<rparr> \<lparr>digits = [70], isNegative = False\<rparr>) plenty
     (shift_error plenty (bval \<lparr>digits = [3, 5], isNegative = True\<rparr>) (bval \<lparr>digits = [70], isNegative = False\<rparr>))
     (\<lambda>r. wf r \<and> bval r =
        shiftInt (bval \<lparr>digits = [3, 5], isNegative = True\<rparr>) (bval \<lparr>digits = [70], isNegative = False\<rparr>))"
  by (intro conjI lsh_correct) (simp_all add: wf_eval bval_make)

text \<open>
  C22. Right shift: \<open>x >> y\<close> is the canonical BigInt of \<open>x / 2 ^ y\<close> rounded down (and of
  \<open>x * 2 ^ (- y)\<close> for negative \<open>y\<close>), for every \<open>x\<close> and \<open>y\<close> outside the case in which the
  code leaves a digit of its result unwritten.
\<close>

theorem rsh_correct:
  assumes "wf x" and "wf y" and "0 \<le> bval y \<Longrightarrow> \<not> unwrittenDigit x (nat (bval y))"
  shows "runs (rsh x y) v (shift_error v (bval x) (- bval y)) (\<lambda>r. wf r \<and> bval r = shiftInt (bval x) (- bval y))"
  by (rule runs_rsh) (use assms in auto)

theorem rsh_correct_witness:
  "wf \<lparr>digits = [3, 5], isNegative = True\<rparr> \<and> wf \<lparr>digits = [64], isNegative = False\<rparr> \<and>
   \<not> unwrittenDigit \<lparr>digits = [3, 5], isNegative = True\<rparr> 64 \<and>
   runs (rsh \<lparr>digits = [3, 5], isNegative = True\<rparr> \<lparr>digits = [64], isNegative = False\<rparr>) plenty
     (shift_error plenty (bval \<lparr>digits = [3, 5], isNegative = True\<rparr>) (- bval \<lparr>digits = [64], isNegative = False\<rparr>))
     (\<lambda>r. wf r \<and> bval r =
        shiftInt (bval \<lparr>digits = [3, 5], isNegative = True\<rparr>) (- bval \<lparr>digits = [64], isNegative = False\<rparr>))"
  by (intro conjI rsh_correct) (simp_all add: wf_eval bval_make unwrittenDigit_def)

text \<open>
  C23. The case left out by the right shift: there the result is wrong unless fresh memory happens to be
  zero.  When fresh memory holds \<open>J\<close> in every word (any \<open>J\<close> but the maximum), \<open>x >> y\<close> is the exact result less
  \<open>J\<close> times the weight of the digit that the code allocates and never writes; so any two fillings of
  the memory give different results.
\<close>

theorem rsh_depends_on_fresh_memory:
  assumes "wf x" and "wf y" and "0 \<le> bval y" and "unwrittenDigit x (nat (bval y))" and "J \<noteq> - 1"
  shows "runs (rsh x y) (filledWith J) (\<lambda>e. False)
    (\<lambda>r. wf r \<and> bval r = shiftInt (bval x) (- bval y) - int (Base ^ (digitLength x - nat (bval y) div 64)) * uint J)"
proof -
  have y: "bval y = int (nat (bval y))" using assms(3) by simp
  have "shiftInt (bval x) (- bval y) = bval x div 2 ^ nat (bval y)"
    by (metis shift_right_cases y)
  then show ?thesis by (intro runs_rshUnwritten [OF assms(1,2) y assms(4,5)]) simp
qed

theorem rsh_depends_on_fresh_memory_witness:
  "runs (rsh \<lparr>digits = [- 1, - 1], isNegative = True\<rparr> \<lparr>digits = [64], isNegative = False\<rparr>) (filledWith 41) (\<lambda>e. False)
    (\<lambda>r. wf r \<and> bval r = shiftInt (bval \<lparr>digits = [- 1, - 1], isNegative = True\<rparr>) (- 64) - 2 ^ 64 * 41)"
  using rsh_depends_on_fresh_memory [of "\<lparr>digits = [- 1, - 1], isNegative = True\<rparr>" "\<lparr>digits = [64], isNegative = False\<rparr>" 41]
  by (simp add: wf_def HasLeadingZeroes_def isZero_def MaxDigitLength_def MaxBitLength_def DigitBits_def unwrittenDigit_def
      bval_make Base_def unsigned_minus_1_eq_mask mask_eq_exp_minus_1)

end
