(* ===== verification/BigInt_TwosComplement.thy ===== *)
theory BigInt_TwosComplement
  imports BigInt_Bitwise BigInt_Shift
begin

text \<open>
  Conversions to fixed-width integers: \<open>toInt64\<close>, \<open>toUint64\<close>, \<open>isInt64\<close>,
  \<open>truncateAndSubFromPowerOfTwo\<close>, \<open>asUintN\<close> and \<open>asIntN\<close> of \<open>js/src/vm/BigIntType.cpp\<close>.
  Widths in bits are \<open>uint64_t\<close> values and only compared, divided and subtracted from larger ones, so natural
  numbers represent them.
\<close>

section \<open>Operations\<close>

definition toUint64 :: "bigint \<Rightarrow> u64 eng" where
  "toUint64 x =
     (if isZero x then returnM 0
      else bindM (uint64FromAbsNonZero x) (\<lambda>digit.
        returnM (if isNegative x then NOT (digit - 1) else digit)))"

text \<open>\<open>WrapToSigned\<close> reads the same 64 bits as a signed number.\<close>

definition toInt64 :: "bigint \<Rightarrow> u64 eng" where
  "toInt64 x = toUint64 x"

definition isInt64 :: "bigint \<Rightarrow> u64 option eng" where
  "isInt64 x =
     (if \<not> absFitsInUint64 x then returnM None
      else if isZero x then returnM (Some 0)
      else bindM (uint64FromAbsNonZero x) (\<lambda>magnitude.
        let Int64MinMagnitude = push_bit 63 1 in
        returnM (if isNegative x then
                   (if magnitude \<le> Int64MinMagnitude
                    then Some (if magnitude = Int64MinMagnitude then push_bit 63 1 else - magnitude)
                    else None)
                 else if magnitude \<le> Int64MinMagnitude - 1 then Some magnitude
                 else None)))"

definition CeilDiv :: "nat \<Rightarrow> nat \<Rightarrow> nat eng" where
  "CeilDiv numerator denominator = mozAssert (numerator \<noteq> 0) (returnM (1 + (numerator - 1) div denominator))"

text \<open>Zero minus the low digits of \<open>x\<close>, with leading zeroes simulated.\<close>

definition negateDigits :: "bigint \<Rightarrow> nat \<Rightarrow> nat \<Rightarrow> bigint \<times> digit \<Rightarrow> (bigint \<times> digit) eng" where
  "negateDigits x start n =
     forUp start n (\<lambda>i (result, borrow).
       bindM (digit x i) (\<lambda>d.
       let (difference, newBorrow) = digitSub 0 d 0;
           (difference, newBorrow) = digitSub difference borrow newBorrow
       in bindM (setDigit result i difference) (\<lambda>result. returnM (result, newBorrow))))"

definition negateZeroes :: "nat \<Rightarrow> nat \<Rightarrow> bigint \<times> digit \<Rightarrow> (bigint \<times> digit) eng" where
  "negateZeroes start n =
     forUp start n (\<lambda>i (result, borrow).
       let (difference, newBorrow) = digitSub 0 borrow 0
       in bindM (setDigit result i difference) (\<lambda>result. returnM (result, newBorrow)))"

definition negateMSD :: "digit \<Rightarrow> digit \<Rightarrow> nat \<Rightarrow> digit eng" where
  "negateMSD xMSD borrow bits =
     (if bits mod DigitBits = 0 then
        let (resultMSD, newBorrow) = digitSub 0 xMSD 0;
            (resultMSD, newBorrow) = digitSub resultMSD borrow newBorrow
        in returnM resultMSD
      else
        let drop = DigitBits - bits mod DigitBits;
            xMSD = shr (shl xMSD drop) drop;
            minuendMSD = shl 1 (DigitBits - drop);
            (resultMSD, newBorrow) = digitSub minuendMSD xMSD 0;
            (resultMSD, newBorrow) = digitSub resultMSD borrow newBorrow
        in mozAssert (newBorrow = 0) (returnM (resultMSD AND (minuendMSD - 1))))"

definition truncateAndSubFromPowerOfTwo :: "bigint \<Rightarrow> nat \<Rightarrow> bool \<Rightarrow> bigint eng" where
  "truncateAndSubFromPowerOfTwo x bits resultNegative =
     mozAssert (bits \<noteq> 0) (
     mozAssert (\<not> isZero x) (
     if bits > MaxBitLength then throwM BigIntTooLarge
     else
       bindM (CeilDiv bits DigitBits) (\<lambda>resultLength.
       bindM (createUninitialized resultLength resultNegative) (\<lambda>result.
       let xLength = digitLength x in
       bindM (negateDigits x 0 (min (resultLength - 1) xLength) (result, 0)) (\<lambda>(result, borrow).
       bindM (negateZeroes xLength (resultLength - 1) (result, borrow)) (\<lambda>(result, borrow).
       bindM (if resultLength \<le> xLength then digit x (resultLength - 1) else returnM 0) (\<lambda>xMSD.
       bindM (negateMSD xMSD borrow bits) (\<lambda>resultMSD.
       bindM (setDigit result (resultLength - 1) resultMSD) (\<lambda>result.
       destructivelyTrimHighZeroDigits result)))))))))"

text \<open>The loop that trims high digits that are zero under the mask, and the loop that copies the rest.\<close>

primrec trimMasked :: "bigint \<Rightarrow> nat \<Rightarrow> digit \<Rightarrow> (nat \<times> digit) eng" where
  "trimMasked x 0 msk = returnM (0, msk)"
| "trimMasked x (Suc n) msk =
     bindM (digit x n) (\<lambda>d. if d AND msk \<noteq> 0 then returnM (Suc n, msk) else trimMasked x n (- 1))"

definition copyMasked :: "bigint \<Rightarrow> nat \<Rightarrow> bigint \<times> digit \<Rightarrow> (bigint \<times> digit) eng" where
  "copyMasked x len =
     forDown len (\<lambda>i (res, mask).
       bindM (digit x i) (\<lambda>d.
       bindM (setDigit res i (d AND mask)) (\<lambda>res. returnM (res, - 1))))"

definition bitLength :: "bigint \<Rightarrow> nat eng" where
  "bitLength x =
     bindM (digit x (digitLength x - 1)) (\<lambda>msd.
     let msdBits = DigitBits - DigitLeadingZeroes msd in
     returnM (msdBits + (digitLength x - 1) * DigitBits))"

definition asUintN :: "bigint \<Rightarrow> nat \<Rightarrow> bigint eng" where
  "asUintN x bits =
     (if isZero x then returnM x
      else if bits = 0 then zero
      else if isNegative x then truncateAndSubFromPowerOfTwo x bits False
      else if bits \<le> 64 then
        bindM (toUint64 x) (\<lambda>u64.
        let mask = shr (- 1) (64 - bits) in
        createFromUint64 (u64 AND mask))
      else if bits \<ge> MaxBitLength then returnM x
      else bindM (bitLength x) (\<lambda>bitLen.
        if bits \<ge> bitLen then returnM x
        else
          bindM (CeilDiv bits DigitBits) (\<lambda>len.
          mozAssert (len \<ge> 2) (
          mozAssert (len \<le> digitLength x) (
          let highDigitBits = (bits - 1) mod DigitBits + 1;
              highDigitMask = shr (- 1) (DigitBits - highDigitBits)
          in bindM (trimMasked x len highDigitMask) (\<lambda>(len, mask).
          bindM (createUninitialized len False) (\<lambda>res.
          bindM (copyMasked x len (res, mask)) (\<lambda>(res, mask).
          returnM res))))))))"

definition asIntN :: "bigint \<Rightarrow> nat \<Rightarrow> bigint eng" where
  "asIntN x bits =
     (if isZero x then returnM x
      else if bits = 0 then zero
      else if bits = 64 then bindM (toInt64 x) createFromInt64
      else if bits > MaxBitLength then returnM x
      else
        bindM (digit x (digitLength x - 1)) (\<lambda>msd.
        bindM (bitLength x) (\<lambda>bitLen.
        if bits > bitLen then returnM x
        else
          let signBit = shl 1 ((bits - 1) mod DigitBits) in
          if bits = bitLen \<and> msd < signBit then returnM x
          else
            bindM (asUintN x bits) (\<lambda>modulus.
            bindM (CeilDiv bits DigitBits) (\<lambda>len.
            if digitLength modulus = len then
              mozAssert (\<not> isZero modulus) (
              bindM (digit modulus (digitLength modulus - 1)) (\<lambda>d.
              if d AND signBit \<noteq> 0 then truncateAndSubFromPowerOfTwo modulus bits True
              else returnM modulus))
            else returnM modulus)))))"

section \<open>Sixty-four bits\<close>

lemma dval_mod_Base: "0 < length ds \<Longrightarrow> dval ds mod Base = unat (ds ! 0)"
  by (cases ds) simp_all

lemma of_nat_dval: "0 < length ds \<Longrightarrow> (of_nat (dval ds) :: u64) = ds ! 0"
proof -
  assume "0 < length ds"
  from dval_mod_Base [OF this] have "unat (of_nat (dval ds) :: u64) = unat (ds ! 0)"
    by (simp add: unat_of_nat Base_def)
  then show ?thesis by (simp only: word_unat_eq_iff)
qed

lemma runs_toUint64:
  assumes wf: "wf x" and Q: "Q (of_int (bval x))"
  shows "runs (toUint64 x) v E Q"
proof (cases "isZero x")
  case True
  then have "bval x = 0" using wf wf_bval_0 by blast
  then show ?thesis using True Q by (simp add: toUint64_def)
next
  case False
  let ?d = "digits x ! 0"
  have len: "0 < digitLength x" using False by (simp add: isZero_iff)
  have "NOT (?d - 1) = - ?d" by (simp add: not_eq_complement)
  then show ?thesis
    using False len Q of_nat_dval [OF len]
    by (simp add: toUint64_def uint64FromAbsNonZero_def bval_def split: if_splits)
qed

lemma unat_push_bit_63: "unat (push_bit 63 1 :: u64) = 2 ^ 63"
  by simp

lemma int64_range:
  "- (2 ^ 63) \<le> withSign s n \<and> withSign s n < 2 ^ 63 \<longleftrightarrow> (if s then n \<le> 2 ^ 63 else n < 2 ^ 63)"
  by auto

lemma runs_isInt64:
  assumes wf: "wf x"
    and Q: "Q (if - (2 ^ 63) \<le> bval x \<and> bval x < 2 ^ 63 then Some (of_int (bval x)) else None)"
  shows "runs (isInt64 x) v E Q"
proof (cases "absFitsInUint64 x")
  case False
  then have len: "1 < digitLength x" by (simp add: absFitsInUint64_def DigitBits_def)
  then have "Base ^ 1 \<le> Base ^ (digitLength x - 1)" by (intro power_increasing) simp_all
  also have "\<dots> \<le> dval (digits x)"
    using wf len by (intro dval_ge_top) (auto simp: wf_def HasLeadingZeroes_def)
  finally have "2 ^ 64 \<le> int (dval (digits x))" by (simp add: Base_def)
  then have "Q None" using Q by (auto simp: bval_def split: if_splits)
  then show ?thesis using False by (simp add: isInt64_def)
next
  case fits: True
  show ?thesis
  proof (cases "isZero x")
    case True
    then have "bval x = 0" using wf wf_bval_0 by blast
    then show ?thesis using True fits Q by (simp add: isInt64_def)
  next
    case False
    then obtain d where d: "digits x = [d]" "d \<noteq> 0" using wf_fits wf fits by blast
    have val: "bval x = withSign (isNegative x) (unat d)" using d by (simp add: bval_def)
    have le: "d \<le> push_bit 63 1 \<longleftrightarrow> unat d \<le> 2 ^ 63" "d \<le> push_bit 63 1 - 1 \<longleftrightarrow> unat d < 2 ^ 63"
      by (auto simp: word_le_nat_alt)
    have eq: "d = push_bit 63 1 \<longleftrightarrow> unat d = 2 ^ 63" using word_unat_eq_iff [of d "push_bit 63 1"] by simp
    have range: "- (2 ^ 63) \<le> bval x \<and> bval x < 2 ^ 63 \<longleftrightarrow> (if isNegative x then unat d \<le> 2 ^ 63 else unat d < 2 ^ 63)"
      unfolding val by (rule int64_range)
    have neg: "(of_int (- int (unat d)) :: u64) = (if d = push_bit 63 1 then push_bit 63 1 else - d)" by simp
    have res: "(if isNegative x then
                   (if d \<le> push_bit 63 1
                    then Some (if d = push_bit 63 1 then push_bit 63 1 else - d) else None)
                 else if d \<le> push_bit 63 1 - 1 then Some d else None)
        = (if - (2 ^ 63) \<le> bval x \<and> bval x < 2 ^ 63 then Some (of_int (bval x)) else None)"
      unfolding range le using eq unfolding val neg by auto
    have u: "uint64FromAbsNonZero x = returnM d" using False d by (simp add: uint64FromAbsNonZero_def)
    show ?thesis
      using Q fits False unfolding res [symmetric] isInt64_def u Let_def by (simp only: bindM_returnM runs_returnM if_False not_True_eq_False)
  qed
qed


section \<open>Subtraction from a power of two\<close>

lemma runs_CeilDiv: "0 < n \<Longrightarrow> Q (1 + (n - 1) div d) \<Longrightarrow> runs (CeilDiv n d) v E Q"
  by (simp add: CeilDiv_def)

text \<open>Bits are counted in whole digits below the top one, which holds between 1 and 64 of them.\<close>

lemma bits_split:
  fixes bits :: nat
  assumes "0 < bits"
  obtains k b where "bits = 64 * k + b" "0 < b" "b \<le> 64" "(bits - 1) div 64 = k" "(bits - 1) mod 64 = b - 1"
proof -
  obtain n where n: "bits = Suc n" using assms by (cases bits) auto
  have "bits = 64 * (n div 64) + Suc (n mod 64)" using n by simp
  moreover have "Suc (n mod 64) \<le> 64" by (simp add: Suc_leI)
  ultimately show thesis using n that [of "n div 64" "Suc (n mod 64)"] by simp
qed

lemma top_bits:
  fixes k b :: nat
  assumes "0 < b" "b \<le> 64"
  shows "(64 * k + b - 1) div 64 = k" "(64 * k + b - 1) mod 64 = b - 1"
proof -
  obtain c where "b = Suc c" using assms by (cases b) auto
  then show "(64 * k + b - 1) div 64 = k" "(64 * k + b - 1) mod 64 = b - 1" using assms by simp_all
qed

lemma power_digits: "2 ^ (64 * k + b) = Base ^ k * (2 :: nat) ^ b"
  by (simp add: Base_def power_add power_mult)

lemma dval_mod_bits:
  assumes "b \<le> 64"
  shows "dval xs mod 2 ^ (64 * k + b)
    = dval (take k xs) + Base ^ k * (unat (if k < length xs then xs ! k else 0) mod 2 ^ b)"
proof -
  have top: "dval (drop k xs) mod 2 ^ b = unat (if k < length xs then xs ! k else 0) mod 2 ^ b"
  proof (cases "k < length xs")
    case True
    have "2 ^ b dvd Base" unfolding Base_def using assms by (rule le_imp_power_dvd)
    then show ?thesis using True dval_drop_Suc [OF True] by (simp add: mod_eq_0_iff_dvd mod_add_eq [symmetric])
  next
    case False
    then show ?thesis by simp
  qed
  have "dval xs mod (Base ^ k * 2 ^ b) = Base ^ k * (dval xs div Base ^ k mod 2 ^ b) + dval xs mod Base ^ k"
    by (rule mod_mult2_eq)
  then show ?thesis
    unfolding power_digits by (simp only: top add.commute flip: dval_drop_div dval_take_mod)
qed

lemma runs_negateMSD:
  assumes b: "0 < b" "b \<le> 64" and c: "unat c \<le> 1"
    and Q: "\<And>r. unat r < 2 ^ b \<Longrightarrow> unat c + unat r + unat d mod 2 ^ b \<in> {0, 2 ^ b} \<Longrightarrow> Q r"
  shows "runs (negateMSD d c (64 * k + b)) v E Q"
proof (cases "b = 64")
  case True
  obtain s1 c1 where a1: "digitSub 0 d 0 = (s1, c1)" by fastforce
  obtain s2 c2 where a2: "digitSub s1 c c1 = (s2, c2)" by fastforce
  have "unat c2 = 0 \<or> unat c2 = 1" "Base * unat c2 = unat s2 + unat d + unat c"
    using subPair_step [OF a1 a2 c] by auto
  moreover have "unat d mod 2 ^ b = unat d" "2 ^ b = Base" using True mod_unat_digit [of d] by (simp_all add: Base_def)
  ultimately have "Q s2"
    using unat_less_Base [of s2] by (intro Q) auto
  then show ?thesis using True by (simp add: negateMSD_def DigitBits_def a1 a2)
next
  case False
  then have b: "0 < b" "b < 64" using b by auto
  let ?x = "shr (shl d (64 - b)) (64 - b)"
  have "unat ?x = unat d * 2 ^ (64 - b) mod 2 ^ (b + (64 - b)) div 2 ^ (64 - b)"
    using b by (simp add: unat_shr unat_shl DigitBits_def Base_def)
  then have x: "unat ?x = unat d mod 2 ^ b"
    by (simp only: power_add mult_mod_left [symmetric]) simp
  then have xl: "unat ?x < 2 ^ b" by simp
  have p: "(2 :: nat) ^ b < Base" using b unfolding Base_def by (intro power_strict_increasing) auto
  then have m: "unat (shl 1 b) = 2 ^ b" using b by (simp add: unat_shl DigitBits_def)
  obtain s1 c1 where a1: "digitSub (shl 1 b) ?x 0 = (s1, c1)" by fastforce
  obtain s2 c2 where a2: "digitSub s1 c c1 = (s2, c2)" by fastforce
  have s: "unat c2 = 0 \<or> unat c2 = 1" "2 ^ b + Base * unat c2 = unat s2 + unat ?x + unat c"
    using subPair_step [OF a1 a2 c] m by auto
  then have c2: "c2 = 0" using unat_less_Base [of s2] xl c by (auto simp: unat_eq_zero)
  then have sum: "2 ^ b = unat s2 + unat d mod 2 ^ b + unat c" using s x by simp
  have r: "unat (s2 AND (shl 1 b - 1)) = unat s2 mod 2 ^ b" by (rule unat_and_low_mask [OF b(2)])
  have "Q (s2 AND (shl 1 b - 1))"
  proof (rule Q)
    show "unat (s2 AND (shl 1 b - 1)) < 2 ^ b" unfolding r by simp
    show "unat c + unat (s2 AND (shl 1 b - 1)) + unat d mod 2 ^ b \<in> {0, 2 ^ b}"
    proof (cases "unat s2 = 2 ^ b")
      case True
      then show ?thesis using sum unfolding r by simp
    next
      case False
      then have "unat s2 < 2 ^ b" using sum by linarith
      then show ?thesis using sum unfolding r by simp
    qed
  qed
  then show ?thesis using b c2 by (simp add: negateMSD_def DigitBits_def a1 a2)
qed


text \<open>The digits below the top one: after \<open>i\<close> of them, borrow \<open>c\<close> is what their sum with \<open>x\<close> carries.\<close>

abbreviation negatedTo :: "bigint \<Rightarrow> bigint \<Rightarrow> nat \<Rightarrow> bigint \<times> digit \<Rightarrow> bool" where
  "negatedTo x r0 i \<equiv> \<lambda>(r, c). digitLength r = digitLength r0 \<and> isNegative r = isNegative r0 \<and> unat c \<le> 1 \<and>
     dval (take i (digits r)) + dval (take i (digits x)) = Base ^ i * unat c"

lemma runs_negateDigits:
  assumes n: "n \<le> digitLength x" "n \<le> digitLength r0"
  shows "runs (negateDigits x 0 n (r0, 0)) v E (negatedTo x r0 n)"
  unfolding negateDigits_def
proof (rule runs_forUp [where I = "negatedTo x r0"], goal_cases)
  case (3 i st)
  obtain r c where st: "st = (r, c)" by (cases st)
  have i: "i < digitLength r" "i < digitLength x" and c: "unat c \<le> 1" using 3 st n by auto
  obtain s1 c1 where a1: "digitSub 0 (digits x ! i) 0 = (s1, c1)" by fastforce
  obtain s2 c2 where a2: "digitSub s1 c c1 = (s2, c2)" by fastforce
  have "Base ^ i * (Base * unat c2) = Base ^ i * (unat s2 + unat (digits x ! i) + unat c)"
    using subPair_step(1) [OF a1 a2 c] by simp
  then have "dval (take (Suc i) ((digits r)[i := s2])) + dval (take (Suc i) (digits x)) = Base ^ Suc i * unat c2"
    using 3 st i by (simp add: dval_take_Suc_update dval_take_Suc algebra_simps)
  then show ?case
    using 3 st i subPair_step(2) [OF a1 a2 c] by (simp add: a1 a2 del: power_Suc)
qed auto

lemma runs_negateZeroes:
  assumes r0: "negatedTo x r0 m st" and m: "digitLength x \<le> n \<Longrightarrow> m = digitLength x" "n < digitLength x \<Longrightarrow> m = n"
    and n: "n \<le> digitLength r0"
  shows "runs (negateZeroes (digitLength x) n st) v E (negatedTo x r0 n)"
proof (cases "digitLength x \<le> n")
  case False
  then show ?thesis using r0 m(2) unfolding negateZeroes_def by (subst forUp.simps) simp
next
  case True
  show ?thesis
    unfolding negateZeroes_def
  proof (rule runs_forUp [where I = "negatedTo x r0"], goal_cases)
    case 1
    then show ?case using r0 m(1) [OF True] by simp
  next
    case (3 i st)
    obtain r c where st: "st = (r, c)" by (cases st)
    have i: "i < digitLength r" "digitLength x \<le> i" and c: "unat c \<le> 1" using 3 st n by auto
    obtain s1 c1 where a1: "digitSub 0 c 0 = (s1, c1)" by fastforce
    have "Base * unat c1 = unat s1 + unat c" "unat c1 \<le> 1"
      using digitSub_spec [OF a1] digitSub_borrow [OF a1] by (simp_all add: Base_def)
    then have s: "Base ^ i * (Base * unat c1) = Base ^ i * (unat s1 + unat c)" "unat c1 \<le> 1" by simp_all
    then have "dval (take (Suc i) ((digits r)[i := s1])) + dval (take (Suc i) (digits x)) = Base ^ Suc i * unat c1"
      using 3 st i by (simp add: dval_take_Suc_update algebra_simps)
    then show ?case
      using 3 st i s(2) by (simp add: a1 del: power_Suc)
  qed (use True in auto)
qed

lemma sum_power_mod:
  assumes "R + X \<in> {0, M :: nat}" and "R < M"
  shows "R = (M - X) mod M"
  using assms by auto

lemma runs_truncateAndSubFromPowerOfTwo:
  assumes bits: "0 < bits" and nz: "\<not> isZero x"
    and E: "\<And>e. oom v e \<Longrightarrow> E e" "MaxBitLength < bits \<Longrightarrow> E BigIntTooLarge"
    and Q: "\<And>r. bits \<le> MaxBitLength \<Longrightarrow> wf r \<Longrightarrow>
      bval r = withSign s ((2 ^ bits - dval (digits x) mod 2 ^ bits) mod 2 ^ bits) \<Longrightarrow> Q r"
  shows "runs (truncateAndSubFromPowerOfTwo x bits s) v E Q"
proof (cases "MaxBitLength < bits")
  case True
  then show ?thesis using assms by (simp add: truncateAndSubFromPowerOfTwo_def)
next
  case False
  obtain k b where kb: "bits = 64 * k + b" "0 < b" "b \<le> 64" "(bits - 1) div 64 = k"
    using bits_split [OF bits] by metis
  have len: "Suc k \<le> MaxDigitLength"
    using False kb by (simp add: MaxDigitLength_def MaxBitLength_def DigitBits_def)
  have "runs (bindM (createUninitialized (Suc k) s) (\<lambda>result.
       bindM (negateDigits x 0 (min k (digitLength x)) (result, 0)) (\<lambda>(result, borrow).
       bindM (negateZeroes (digitLength x) k (result, borrow)) (\<lambda>(result, borrow).
       bindM (if Suc k \<le> digitLength x then digit x k else returnM 0) (\<lambda>xMSD.
       bindM (negateMSD xMSD borrow bits) (\<lambda>resultMSD.
       bindM (setDigit result k resultMSD) (\<lambda>result.
       destructivelyTrimHighZeroDigits result))))))) v E Q"
  proof (rule runs_bindI, rule runs_createUninitialized, goal_cases)
    case (3 ds)
    let ?r0 = "\<lparr>digits = ds, isNegative = s\<rparr>" and ?d = "if k < digitLength x then digits x ! k else 0"
    show ?case
    proof (rule runs_bindM [OF runs_negateDigits [of _ _ ?r0]], goal_cases)
      case (3 st1)
      obtain r1 c1 where st1: "st1 = (r1, c1)" by (cases st1)
      show ?case
        unfolding st1 prod.case
      proof (rule runs_bindM [OF runs_negateZeroes [OF 3 [unfolded st1]]], goal_cases)
        case (4 st)
        obtain r c where st: "st = (r, c)" by (cases st)
        have msd: "(if Suc k \<le> digitLength x then digit x k else returnM 0) = returnM ?d" by simp
        have rc: "length (digits r) = Suc k" "isNegative r = s" "unat c \<le> 1"
          "dval (take k (digits r)) + dval (take k (digits x)) = Base ^ k * unat c"
          using 4 st \<open>length ds = Suc k\<close> by auto
        show ?case
          unfolding st prod.case msd bindM_returnM kb(1)
        proof (rule runs_bindI, rule runs_negateMSD [OF kb(2,3) rc(3)], goal_cases)
          case (1 d)
          let ?R = "dval (take k (digits r)) + Base ^ k * unat d" and ?X = "dval (digits x) mod 2 ^ bits"
          have "?R + ?X = Base ^ k * (unat c + unat d + unat ?d mod 2 ^ b)"
            using rc(4) dval_mod_bits [OF kb(3), of "digits x" k] kb(1) by (simp add: algebra_simps)
          then have sum: "?R + ?X \<in> {0, 2 ^ bits}" using 1(2) by (auto simp: kb(1) power_digits)
          have "?R < Base ^ k * Suc (unat d)" using dval_take_less [of k "digits r"] by simp
          also have "\<dots> \<le> Base ^ k * 2 ^ b" using 1(1) by (intro mult_left_mono) auto
          finally have "?R = (2 ^ bits - ?X) mod 2 ^ bits"
            using sum by (intro sum_power_mod) (simp_all add: kb(1) power_digits)
          moreover have "dval ((digits r)[k := d]) = ?R"
            using rc(1) dval_take_Suc_update [of k "digits r" d] by simp
          ultimately show ?case
            using rc E False len by (auto simp: bval_def isZero_iff intro!: runs_trim Q)
        qed
      qed (use \<open>length ds = Suc k\<close> in auto)
    qed (use \<open>length ds = Suc k\<close> in auto)
  qed (use E len in auto)
  moreover have "CeilDiv bits DigitBits = returnM (Suc k)" using bits kb(4) by (simp add: CeilDiv_def DigitBits_def)
  moreover have "bits \<noteq> 0" using bits by simp
  ultimately show ?thesis
    unfolding truncateAndSubFromPowerOfTwo_def using nz False
    by (simp only: mozAssert_holds not_False_eq_True if_False bindM_returnM Let_def diff_Suc_1)
qed


section \<open>Unsigned truncation\<close>

lemma runs_createFromUint64:
  assumes "\<And>e. oom v e \<Longrightarrow> E e" and "\<And>r. wf r \<Longrightarrow> bval r = int (unat n) \<Longrightarrow> Q r"
  shows "runs (createFromUint64 n) v E Q"
  unfolding createFromUint64_def
  by (intro runs_if runs_zero runs_createFromDigit assms) (auto simp: bval_make)

lemma neg_mod_nat:
  assumes "0 < M"
  shows "(- int X) mod int M = int ((M - X mod M) mod M)"
proof (cases "X mod M = 0")
  case True
  then have "int X mod int M = 0" by (simp flip: zmod_int)
  then show ?thesis using True by (simp add: zmod_zminus1_eq_if)
next
  case False
  have "int X mod int M = int (X mod M)" by (rule zmod_int [symmetric])
  moreover have "(M - X mod M) mod M = M - X mod M" using False assms by (intro mod_less) simp
  moreover have "X mod M < M" using assms by simp
  ultimately show ?thesis using False by (simp add: zmod_zminus1_eq_if of_nat_diff less_imp_le)
qed

lemma neg_mod_power: "(- int X) mod 2 ^ n = int ((2 ^ n - X mod 2 ^ n) mod 2 ^ n)"
  using neg_mod_nat [of "2 ^ n" X] by simp

lemma unat_and_ones:
  assumes "0 < n" "n \<le> 64"
  shows "unat (d AND shr (- 1) (64 - n)) = unat d mod 2 ^ n"
proof -
  have "shr (- 1 :: digit) (64 - n) = mask n"
    using assms by (intro bit_word_eqI) (auto simp: shr_def DigitBits_def bit_drop_bit_eq bit_mask_iff)
  then have "unat (d AND shr (- 1) (64 - n)) = unat (take_bit n d)" by (simp add: take_bit_eq_mask)
  then show ?thesis by (simp add: unsigned_take_bit_eq take_bit_eq_mod [of n "unat d"])
qed

lemma dval_less_max: "wf x \<Longrightarrow> MaxBitLength \<le> n \<Longrightarrow> dval (digits x) < 2 ^ n"
proof -
  assume "wf x" "MaxBitLength \<le> n"
  then have "64 * digitLength x \<le> n"
    by (simp add: wf_def MaxDigitLength_def MaxBitLength_def DigitBits_def)
  then have "(2 :: nat) ^ (64 * digitLength x) \<le> 2 ^ n" by (rule power_increasing) simp
  then show ?thesis using dval_less [of "digits x"] by (simp add: Base_def power_mult)
qed

lemma runs_bitLength:
  assumes wf: "wf x" and nz: "\<not> isZero x"
    and Q: "\<And>b. 0 < b \<Longrightarrow> b \<le> 64 \<Longrightarrow> 2 ^ (b - 1) \<le> unat (digits x ! (digitLength x - 1)) \<Longrightarrow>
      dval (digits x) < 2 ^ (b + (digitLength x - 1) * 64) \<Longrightarrow> Q (b + (digitLength x - 1) * 64)"
  shows "runs (bitLength x) v E Q"
proof -
  let ?k = "digitLength x - 1" and ?d = "digits x ! (digitLength x - 1)"
  have k: "?k < digitLength x" "Suc ?k = digitLength x" using nz by (simp_all add: isZero_iff)
  have d: "?d \<noteq> 0" using wf k by (auto simp: wf_def HasLeadingZeroes_def)
  note b = DigitLeadingZeroes_bounds [OF d]
  let ?b = "64 - DigitLeadingZeroes ?d"
  have "dval (digits x) = dval (take ?k (digits x)) + Base ^ ?k * unat ?d"
    using dval_take_Suc [OF k(1)] k(2) by simp
  also have "\<dots> < Base ^ ?k * Suc (unat ?d)" using dval_take_less [of ?k "digits x"] by simp
  also have "\<dots> \<le> Base ^ ?k * 2 ^ ?b" using b(3) by (intro mult_left_mono) auto
  also have "\<dots> = 2 ^ (?b + ?k * 64)" using power_digits [of ?k ?b] by (simp only: ac_simps)
  finally have "dval (digits x) < 2 ^ (?b + ?k * 64)" .
  then have "Q (?b + ?k * 64)" using b by (intro Q) auto
  then show ?thesis using k(1) by (simp add: bitLength_def DigitBits_def)
qed

definition maskedVal :: "digit list \<Rightarrow> nat \<Rightarrow> digit \<Rightarrow> nat" where
  "maskedVal ds n m = (if n = 0 then 0 else dval (take (n - 1) ds) + Base ^ (n - 1) * unat (ds ! (n - 1) AND m))"

lemma runs_trimMasked:
  assumes "n \<le> digitLength x"
    and "\<And>n' m'. n' \<le> n \<Longrightarrow> maskedVal (digits x) n' m' = maskedVal (digits x) n m \<Longrightarrow>
      (0 < n' \<Longrightarrow> digits x ! (n' - 1) AND m' \<noteq> 0) \<Longrightarrow> Q (n', m')"
  shows "runs (trimMasked x n m) v E Q"
  using assms
proof (induction n arbitrary: m)
  case 0
  then show ?case by simp
next
  case (Suc n)
  have n: "n < digitLength x" using Suc.prems by simp
  show ?case
  proof (cases "digits x ! n AND m = 0")
    case True
    have "dval (take n (digits x)) = maskedVal (digits x) n (- 1)"
      using dval_take_Suc [of "n - 1" "digits x"] n by (cases n) (simp_all add: maskedVal_def)
    then have val: "maskedVal (digits x) (Suc n) m = maskedVal (digits x) n (- 1)"
      using True by (simp add: maskedVal_def)
    have "runs (trimMasked x n (- 1)) v E Q"
      using Suc.prems val n by (intro Suc.IH) (auto simp: le_Suc_eq)
    then show ?thesis using True n by simp
  next
    case False
    then show ?thesis using Suc.prems n by simp
  qed
qed


lemma runs_copyMasked:
  assumes n: "0 < n" "n \<le> digitLength x" "digitLength r0 = n"
    and Q: "\<And>m'. Q (r0\<lparr>digits := take (n - 1) (digits x) @ [digits x ! (n - 1) AND m]\<rparr>, m')"
  shows "runs (copyMasked x n (r0, m)) v E Q"
  unfolding copyMasked_def
proof (rule runs_forDownI [where I = "\<lambda>j (r, m'). isNegative r = isNegative r0 \<and> digitLength r = n \<and>
      m' = (if j = n then m else - 1) \<and>
      drop j (digits r) = drop j (take (n - 1) (digits x) @ [digits x ! (n - 1) AND m])"], goal_cases)
  case (2 j st)
  obtain r m' where st: "st = (r, m')" by (cases st)
  have j: "j < digitLength x" "j < digitLength r" using 2 st n by auto
  let ?L = "take (n - 1) (digits x) @ [digits x ! (n - 1) AND m]"
  have L: "j < length ?L" using 2 n by simp
  have "digits x ! j AND m' = ?L ! j"
    using 2 st n by (cases "j = n - 1") (auto simp: nth_append)
  moreover have "drop (Suc j) (digits r) = drop (Suc j) ?L" using 2 st by simp
  ultimately have "drop j ((digits r)[j := digits x ! j AND m']) = drop j ?L"
    by (simp only: drop_update_Suc [OF j(2)] Cons_nth_drop_Suc [OF L])
  then show ?case using 2 st j by simp
next
  case (3 st)
  obtain r m' where st: "st = (r, m')" by (cases st)
  have "r = r0\<lparr>digits := take (n - 1) (digits x) @ [digits x ! (n - 1) AND m]\<rparr>"
    using 3 st by (intro bigint.equality) auto
  then show ?case using Q st by simp
qed (use n in auto)

lemma runs_asUintN:
  assumes wf: "wf x" and E: "\<And>e. oom v e \<Longrightarrow> E e" "bval x < 0 \<Longrightarrow> MaxBitLength < bits \<Longrightarrow> E BigIntTooLarge"
    and Q: "\<And>r. wf r \<Longrightarrow> bval r = bval x mod 2 ^ bits \<Longrightarrow> Q r"
  shows "runs (asUintN x bits) v E Q"
proof (cases "isZero x \<or> bits = 0")
  case True
  then have "bval x mod 2 ^ bits = 0" using wf_bval_0 [OF wf] by auto
  then have "Q \<lparr>digits = [], isNegative = False\<rparr>" "isZero x \<Longrightarrow> Q x"
    using wf wf_bval_0 [OF wf] by (auto intro!: Q simp: bval_make)
  then show ?thesis using True E(1) by (auto simp: asUintN_def intro!: runs_zero)
next
  case nz: False
  then have bits: "0 < bits" by simp
  show ?thesis
  proof (cases "isNegative x")
    case True
    then have "bval x < 0" using wf wf_neg_iff by blast
    moreover have "bval x mod 2 ^ bits = int ((2 ^ bits - dval (digits x) mod 2 ^ bits) mod 2 ^ bits)"
      using True neg_mod_power by (simp add: bval_def)
    ultimately have "runs (truncateAndSubFromPowerOfTwo x bits False) v E Q"
      using nz bits E Q by (intro runs_truncateAndSubFromPowerOfTwo) auto
    then show ?thesis using nz True by (simp add: asUintN_def)
  next
    case pos: False
    let ?X = "dval (digits x)"
    have val: "bval x mod 2 ^ bits = int (?X mod 2 ^ bits)" using pos by (simp add: bval_def zmod_int)
    have self: "Q x" if "?X < 2 ^ bits" using that pos by (intro Q wf) (simp add: val, simp add: bval_def)
    consider "bits \<le> 64" | "64 < bits" "MaxBitLength \<le> bits" | "64 < bits" "bits < MaxBitLength" by linarith
    then show ?thesis
    proof cases
      case 1
      have "?X mod 2 ^ 64 mod 2 ^ bits = ?X mod 2 ^ bits" using 1 by (intro mod_mod_cancel le_imp_power_dvd)
      then have "unat (of_int (bval x) :: u64) mod 2 ^ bits = ?X mod 2 ^ bits"
        using pos by (simp add: bval_def unat_of_nat)
      then have "runs (bindM (toUint64 x) (\<lambda>u64. createFromUint64 (u64 AND shr (- 1) (64 - bits)))) v E Q"
        using 1 bits E Q val by (intro runs_bindI runs_toUint64 wf runs_createFromUint64) (auto simp: unat_and_ones)
      then show ?thesis using 1 nz pos by (simp add: asUintN_def)
    next
      case 2
      then have "Q x" using wf by (intro self dval_less_max)
      then show ?thesis using 2 nz pos by (simp add: asUintN_def)
    next
      case 3
      obtain k b where kb: "bits = 64 * k + b" "0 < b" "b \<le> 64" "(bits - 1) div 64 = k" "(bits - 1) mod 64 = b - 1"
        using bits_split [OF bits] by metis
      have k: "0 < k" using 3 kb by (cases k) auto
      let ?m = "shr (- 1) (64 - b)"
      have "runs (bindM (trimMasked x (Suc k) ?m) (\<lambda>(len, mask).
          bindM (createUninitialized len False) (\<lambda>res.
          bindM (copyMasked x len (res, mask)) (\<lambda>(res, mask). returnM res)))) v E Q"
        if kx: "Suc k \<le> digitLength x"
      proof (rule runs_bindI, rule runs_trimMasked [OF kx], goal_cases)
        case (1 n m)
        have "unat (digits x ! k AND ?m) = unat (digits x ! k) mod 2 ^ b" using kb by (intro unat_and_ones)
        then have mval: "maskedVal (digits x) n m = ?X mod 2 ^ bits"
          using 1(2) kx dval_mod_bits [OF kb(3), of "digits x" k] by (simp add: maskedVal_def kb(1))
        have nM: "n \<le> MaxDigitLength" using 1(1) kx wf by (simp add: wf_def)
        show ?case
          unfolding prod.case
        proof (rule runs_bindI, rule runs_createUninitialized, goal_cases)
          case (3 ds)
          show ?case
          proof (cases "n = 0")
            case True
            then show ?thesis using mval 3 by (auto simp: copyMasked_def maskedVal_def val bval_make intro!: Q)
          next
            case False
            then have "Q \<lparr>digits = take (n - 1) (digits x) @ [digits x ! (n - 1) AND m], isNegative = False\<rparr>"
              using mval 1(1) 1(3) kx nM
              by (intro Q) (auto simp: val bval_make dval_append maskedVal_def wf_def HasLeadingZeroes_def isZero_def nth_append)
            then show ?thesis using False 1(1) kx 3 by (intro runs_bindI runs_copyMasked) auto
          qed
        qed (use E nM in auto)
      qed
      note main = this
      have "runs (bindM (bitLength x) (\<lambda>bitLen. if bits \<ge> bitLen then returnM x
        else bindM (CeilDiv bits 64) (\<lambda>len.
          mozAssert (len \<ge> 2) (mozAssert (len \<le> digitLength x) (
          bindM (trimMasked x len ?m) (\<lambda>(len, mask).
          bindM (createUninitialized len False) (\<lambda>res.
          bindM (copyMasked x len (res, mask)) (\<lambda>(res, mask). returnM res)))))))) v E Q"
      proof (rule runs_bindI, rule runs_bitLength, goal_cases)
        case (3 c)
        let ?bl = "c + (digitLength x - 1) * 64"
        show ?case
        proof (cases "bits \<ge> ?bl")
          case True
          have "?X < 2 ^ bits" by (rule less_le_trans [OF 3(4) power_increasing [OF True]]) simp
          then show ?thesis using True self by simp
        next
          case False
          then have "64 * k + b < 64 * digitLength x" using 3(2) nz kb(1) by (cases "digitLength x") (auto simp: isZero_iff)
          then have "Suc k \<le> digitLength x" by simp
          moreover have "CeilDiv bits 64 = returnM (Suc k)" using bits kb(4) by (simp add: CeilDiv_def)
          ultimately show ?thesis using False main k by simp
        qed
      qed (use wf nz in auto)
      moreover have hb: "64 - ((bits - 1) mod 64 + 1) = 64 - b" using kb(2,5) by simp
      ultimately show ?thesis unfolding asUintN_def Let_def DigitBits_def hb using 3 nz pos by simp
    qed
  qed
qed


section \<open>Signed truncation\<close>

text \<open>\<open>BigInt.asIntN\<close> of the ECMAScript specification: the value as a two's complement number of \<open>bits\<close> bits.\<close>

definition signedWrap :: "nat \<Rightarrow> int \<Rightarrow> int" where
  "signedWrap bits n = (if bits = 0 then 0 else signed_take_bit (bits - 1) n)"

lemma signedWrap_self: "0 < bits \<Longrightarrow> \<bar>n\<bar> < 2 ^ (bits - 1) \<Longrightarrow> signedWrap bits n = n"
  by (simp add: signedWrap_def signed_take_bit_int_eq_self abs_less_iff)

lemma signedWrap_mod:
  assumes "0 < bits" and m: "int M = n mod 2 ^ bits"
  shows "signedWrap bits n = (if bit M (bits - 1) then int M - 2 ^ bits else int M)"
proof -
  have "int M = take_bit bits n" using m by (simp add: take_bit_eq_mod)
  moreover from this have "bit n (bits - 1) \<longleftrightarrow> bit M (bits - 1)"
    using assms(1) by (metis bit_of_nat_iff_bit bit_take_bit_iff diff_less zero_less_one)
  ultimately show ?thesis
    using assms(1) by (simp add: signedWrap_def signed_take_bit_eq_take_bit_minus)
qed

lemma sint_of_int_wrap: "sint (of_int n :: u64) = signedWrap 64 n"
  by (simp add: signedWrap_def signed_of_int)

lemma sint_cases: "sint (n :: u64) = int (unat n) - (if n <s 0 then 2 ^ 64 else 0)"
proof -
  have "sint n = take_bit 64 (uint n) - 2 ^ 64 * of_bool (bit (uint n) 63)"
    by (simp add: sint_uint signed_take_bit_eq_take_bit_minus)
  moreover have "take_bit 64 (uint n) = uint n" using uint_lt2p [of n] by (simp add: take_bit_int_eq_self)
  ultimately have s: "sint n = uint n - 2 ^ 64 * of_bool (bit (uint n) 63)" by simp
  have "n <s 0 \<longleftrightarrow> sint n < 0" by (simp add: word_sless_alt)
  then show ?thesis using s uint_lt2p [of n] by (cases "bit (uint n) 63") auto
qed

lemma runs_createFromInt64:
  assumes E: "\<And>e. oom v e \<Longrightarrow> E e" and Q: "\<And>r. wf r \<Longrightarrow> bval r = sint n \<Longrightarrow> Q r"
  shows "runs (createFromInt64 n) v E Q"
proof (cases "n <s 0")
  case False
  then have "sint n = int (unat n)" by (simp add: sint_cases)
  then have "runs (bindM (createFromUint64 n) (\<lambda>res. mozAssert (\<not> isNegative res) (returnM res))) v E Q"
    using E Q wf_neg_iff by (intro runs_bindI runs_createFromUint64) force+
  then show ?thesis using False by (simp add: createFromInt64_def)
next
  case True
  then have n: "n \<noteq> 0" by auto
  have "sint n = - int (unat (- n))"
    using True n unat_minus_wrap [of 0 n] unat_less_Base [of n] by (simp add: sint_cases Base_def)
  then have "runs (bindM (createFromDigit (- n) False) (\<lambda>res. returnM (res\<lparr>isNegative := True\<rparr>))) v E Q"
    using E Q n by (intro runs_bindI runs_createFromDigit) (auto simp: bval_make)
  then show ?thesis using True n by (simp add: createFromInt64_def createFromUint64_def)
qed


text \<open>The bit that \<open>asIntN\<close> looks at is the sign bit of the truncated value.\<close>

lemma sign_bit_test:
  assumes kb: "bits = 64 * k + b" "0 < b" "b \<le> 64" and M: "dval ds < 2 ^ bits"
    and top: "0 < length ds \<Longrightarrow> ds ! (length ds - 1) \<noteq> 0"
  shows "length ds \<le> Suc k"
    and "bit (dval ds) (bits - 1) \<longleftrightarrow> length ds = Suc k \<and> ds ! k AND shl 1 (b - 1) \<noteq> 0"
proof -
  show len: "length ds \<le> Suc k"
  proof (rule ccontr)
    assume long: "\<not> length ds \<le> Suc k"
    then have "Base ^ Suc k \<le> Base ^ (length ds - 1)" by (intro power_increasing) auto
    also have "\<dots> \<le> dval ds" using long top by (intro dval_ge_top) (auto simp flip: length_greater_0_conv)
    finally have "Base ^ Suc k < 2 ^ bits" using M by simp
    moreover have "(2 :: nat) ^ bits \<le> 2 ^ (64 * k + 64)" using kb by (intro power_increasing) auto
    ultimately show False unfolding power_digits by (simp add: Base_def mult.commute)
  qed
  have pos: "(bits - 1) div 64 = k" "(bits - 1) mod 64 = b - 1" using top_bits [OF kb(2,3)] kb(1) by simp_all
  have "b - 1 < 64" using kb by simp
  then have "ds ! k AND shl 1 (b - 1) \<noteq> 0 \<longleftrightarrow> bit (ds ! k) (b - 1)"
    by (simp add: shl_def DigitBits_def and_exp_eq_0_iff_not_bit push_bit_of_1)
  then show "bit (dval ds) (bits - 1) \<longleftrightarrow> length ds = Suc k \<and> ds ! k AND shl 1 (b - 1) \<noteq> 0"
    using len unfolding bit_dval pos by auto
qed

lemma runs_asIntN:
  assumes wf: "wf x" and E: "\<And>e. oom v e \<Longrightarrow> E e"
    and Q: "\<And>r. wf r \<Longrightarrow> bval r = signedWrap bits (bval x) \<Longrightarrow> Q r"
  shows "runs (asIntN x bits) v E Q"
proof (cases "isZero x \<or> bits = 0")
  case True
  then have "signedWrap bits (bval x) = 0" using wf_bval_0 [OF wf] by (auto simp: signedWrap_def)
  then have "Q \<lparr>digits = [], isNegative = False\<rparr>" "isZero x \<Longrightarrow> Q x"
    using wf wf_bval_0 [OF wf] by (auto intro!: Q simp: bval_make)
  then show ?thesis using True E by (auto simp: asIntN_def intro!: runs_zero)
next
  case nz: False
  then have bits: "0 < bits" by simp
  have self: "Q x" if "dval (digits x) < 2 ^ n" "n < bits" for n
  proof -
    have "dval (digits x) < 2 ^ (bits - 1)"
      using that by (intro less_le_trans [OF that(1) power_increasing]) auto
    then have "int (dval (digits x)) < int (2 ^ (bits - 1))" by (simp only: of_nat_less_iff)
    then have "\<bar>bval x\<bar> < 2 ^ (bits - 1)" by (simp add: abs_bval)
    then show ?thesis using signedWrap_self [OF bits] wf by (intro Q) auto
  qed
  consider "bits = 64" | "bits \<noteq> 64" "MaxBitLength < bits" | "bits \<noteq> 64" "bits \<le> MaxBitLength" by linarith
  then show ?thesis
  proof cases
    case 1
    have "runs (bindM (toInt64 x) createFromInt64) v E Q"
      unfolding toInt64_def using E Q 1
      by (intro runs_bindI runs_toUint64 wf runs_createFromInt64) (auto simp: sint_of_int_wrap)
    then show ?thesis using 1 nz by (simp add: asIntN_def)
  next
    case 2
    then have "Q x" using dval_less_max [OF wf order_refl] self by blast
    then show ?thesis using 2 nz by (simp add: asIntN_def)
  next
    case 3
    obtain k b where kb: "bits = 64 * k + b" "0 < b" "b \<le> 64" "(bits - 1) div 64 = k" "(bits - 1) mod 64 = b - 1"
      using bits_split [OF bits] by metis
    have ceil: "CeilDiv bits 64 = returnM (Suc k)" using bits kb(4) by (simp add: CeilDiv_def)
    have top: "digit x (digitLength x - 1) = returnM (digits x ! (digitLength x - 1))"
      using nz by (simp add: isZero_iff)
    have main: "runs (bindM (asUintN x bits) (\<lambda>modulus. if digitLength modulus = Suc k then
        mozAssert (\<not> isZero modulus) (bindM (digit modulus (digitLength modulus - 1)) (\<lambda>d.
          if d AND shl 1 (b - 1) \<noteq> 0 then truncateAndSubFromPowerOfTwo modulus bits True else returnM modulus))
        else returnM modulus)) v E Q"
    proof (rule runs_bindI, rule runs_asUintN [OF wf], goal_cases)
      case (3 r)
      let ?M = "dval (digits r)"
      have "0 \<le> bval r" using 3 by simp
      then have "\<not> isNegative r" using 3(1) wf_neg_iff by fastforce
      then have m: "int ?M = bval x mod 2 ^ bits" using 3(2) by (simp add: bval_def)
      then have "int ?M < int (2 ^ bits)" by simp
      then have lt: "?M < 2 ^ bits" by (simp only: of_nat_less_iff)
      note test = sign_bit_test [OF kb(1-3) lt] and wrap = signedWrap_mod [OF bits m]
      have sb: "bit ?M (bits - 1) \<longleftrightarrow> digitLength r = Suc k \<and> digits r ! k AND shl 1 (b - 1) \<noteq> 0"
        using 3(1) by (intro test) (auto simp: wf_def HasLeadingZeroes_def)
      have keep: "Q r" if "\<not> bit ?M (bits - 1)" using that 3 m wrap by (intro Q) auto
      have wrapped: "runs (truncateAndSubFromPowerOfTwo r bits True) v E Q" if set: "bit ?M (bits - 1)"
      proof (rule runs_truncateAndSubFromPowerOfTwo)
        show "\<not> isZero r" using set by (auto simp: isZero_iff)
        have "?M \<noteq> 0" using set by (metis bit_0_eq bot_apply bot_bool_def)
        then have "(2 ^ bits - ?M mod 2 ^ bits) mod 2 ^ bits = 2 ^ bits - ?M" using lt by simp
        then show "Q q" if "wf q" "bval q = withSign True ((2 ^ bits - ?M mod 2 ^ bits) mod 2 ^ bits)" for q
          using that lt wrap set by (intro Q) (auto simp: of_nat_diff less_imp_le)
      qed (use bits E \<open>bits \<le> MaxBitLength\<close> in auto)
      show ?case using keep wrapped sb by (auto simp: isZero_def)
    qed (use E \<open>bits \<le> MaxBitLength\<close> in auto)
    have "runs (bindM (bitLength x) (\<lambda>bitLen. if bits > bitLen then returnM x
        else if bits = bitLen \<and> digits x ! (digitLength x - 1) < shl 1 (b - 1) then returnM x
        else bindM (asUintN x bits) (\<lambda>modulus. if digitLength modulus = Suc k then
        mozAssert (\<not> isZero modulus) (bindM (digit modulus (digitLength modulus - 1)) (\<lambda>d.
          if d AND shl 1 (b - 1) \<noteq> 0 then truncateAndSubFromPowerOfTwo modulus bits True else returnM modulus))
        else returnM modulus))) v E Q"
    proof (rule runs_bindI, rule runs_bitLength, goal_cases)
      case (3 c)
      have "\<not> digits x ! (digitLength x - 1) < shl 1 (b - 1)" if "bits = c + (digitLength x - 1) * 64"
      proof -
        have "c = b" using top_bits(2) [OF 3(1,2)] that kb(2,5) 3(1) by (simp add: ac_simps)
        moreover have "(2 :: nat) ^ (b - 1) < Base" using kb(3) unfolding Base_def by (intro power_strict_increasing) auto
        ultimately show ?thesis
          using 3(3) kb(3) by (simp add: word_less_nat_alt unat_shl DigitBits_def not_less)
      qed
      then show ?case using self [OF 3(4)] main by (auto simp del: One_nat_def)
    qed (use wf nz in auto)
    then show ?thesis
      unfolding asIntN_def DigitBits_def Let_def ceil top kb(5) bindM_returnM using 3 nz by simp
  qed
qed


section \<open>Properties\<close>

text \<open>
  C20. \<open>BigInt::asUintN\<close> returns the canonical BigInt of \<open>x mod 2^bits\<close> for every width and both
  signs; it stops only when memory runs out or, for a negative \<open>x\<close>, when the width exceeds
  \<open>MaxBitLength\<close>.  No assertion fails.
\<close>

theorem asUintN_correct:
  assumes "wf x"
  shows "runs (asUintN x bits) v
    (\<lambda>e. oom v e \<or> e = BigIntTooLarge \<and> bval x < 0 \<and> MaxBitLength < bits)
    (\<lambda>r. wf r \<and> bval r = take_bit bits (bval x))"
  using assms by (intro runs_asUintN) (auto simp: take_bit_eq_mod)

theorem asUintN_correct_witness:
  "runs (asUintN \<lparr>digits = [5, 3], isNegative = True\<rparr> 65) plenty (\<lambda>e. False)
    (\<lambda>r. wf r \<and> bval r = 2 ^ 64 - 5)"
  using asUintN_correct [of "\<lparr>digits = [5, 3], isNegative = True\<rparr>" 65 plenty]
  by (simp add: wf_eval bval_eval take_bit_eq_mod)

text \<open>
  C21. \<open>BigInt::asIntN\<close> returns the canonical BigInt of \<open>x\<close> read as a two's complement number of
  \<open>bits\<close> bits, for every width, on each of its paths, and stops only when memory runs out: the
  call of \<open>truncateAndSubFromPowerOfTwo\<close> never reports a BigInt too large.
\<close>

theorem asIntN_correct:
  assumes "wf x"
  shows "runs (asIntN x bits) v (oom v)
    (\<lambda>r. wf r \<and> bval r = (if bits = 0 then 0 else signed_take_bit (bits - 1) (bval x)))"
  using assms by (intro runs_asIntN) (auto simp: signedWrap_def)

theorem asIntN_correct_witness:
  "runs (asIntN \<lparr>digits = [0, 3], isNegative = False\<rparr> 65) plenty (\<lambda>e. False)
    (\<lambda>r. wf r \<and> bval r = - (2 ^ 64))"
proof -
  have x: "wf \<lparr>digits = [0, 3], isNegative = False\<rparr>" "bval \<lparr>digits = [0, 3], isNegative = False\<rparr> = 3 * 2 ^ 64"
    by (simp_all add: wf_eval bval_eval)
  have "signed_take_bit 64 (3 * 2 ^ 64 :: int) = - (2 ^ 64)"
    by (simp add: signed_take_bit_eq_take_bit_shift take_bit_eq_mod)
  then show ?thesis
    using asIntN_correct [OF x(1), of 65 plenty] unfolding x(2) by (simp add: oom_plenty_fun)
qed

text \<open>
  C24. \<open>BigInt::toUint64\<close> and \<open>toInt64\<close> reduce modulo \<open>2^64\<close> (to the unsigned and the two's
  complement range), \<open>isInt64\<close> answers exactly when the value fits, with that value, and
  \<open>createFromInt64\<close> and \<open>createFromUint64\<close> build the canonical BigInt of the value they are given.
\<close>

theorem int64_conversions:
  assumes "wf x"
  shows "runs (toUint64 x) v E (\<lambda>u. uint u = bval x mod 2 ^ 64) \<and>
    runs (toInt64 x) v E (\<lambda>u. sint u = signed_take_bit 63 (bval x)) \<and>
    runs (isInt64 x) v E (\<lambda>res.
      if - (2 ^ 63) \<le> bval x \<and> bval x < 2 ^ 63 then \<exists>u. res = Some u \<and> sint u = bval x else res = None) \<and>
    runs (createFromInt64 n) v (oom v) (\<lambda>r. wf r \<and> bval r = sint n) \<and>
    runs (createFromUint64 n) v (oom v) (\<lambda>r. wf r \<and> bval r = uint n)"
proof (intro conjI)
  have "uint (of_int (bval x) :: u64) = bval x mod 2 ^ 64" by (simp add: uint_word_of_int)
  then show "runs (toUint64 x) v E (\<lambda>u. uint u = bval x mod 2 ^ 64)" using assms by (intro runs_toUint64)
  show "runs (toInt64 x) v E (\<lambda>u. sint u = signed_take_bit 63 (bval x))"
    unfolding toInt64_def using assms by (intro runs_toUint64) (simp_all add: signed_of_int)
  have "signed_take_bit 63 (bval x) = bval x" if "- (2 ^ 63) \<le> bval x" "bval x < 2 ^ 63"
    using that by (intro signed_take_bit_int_eq_self)
  then show "runs (isInt64 x) v E (\<lambda>res.
      if - (2 ^ 63) \<le> bval x \<and> bval x < 2 ^ 63 then \<exists>u. res = Some u \<and> sint u = bval x else res = None)"
    using assms by (intro runs_isInt64) (simp_all add: signed_of_int)
qed (auto intro!: runs_createFromInt64 runs_createFromUint64)

theorem int64_conversions_witness:
  "runs (toUint64 \<lparr>digits = [1], isNegative = True\<rparr>) plenty (\<lambda>e. False) (\<lambda>u. uint u = 2 ^ 64 - 1) \<and>
   runs (toInt64 \<lparr>digits = [1], isNegative = True\<rparr>) plenty (\<lambda>e. False) (\<lambda>u. sint u = - 1)"
  using int64_conversions [of "\<lparr>digits = [1], isNegative = True\<rparr>" plenty "\<lambda>e. False"]
  by (simp add: wf_eval bval_eval)

end
