(* ===== verification/BigInt_Double.thy ===== *)
theory BigInt_Double
  imports FloatingPoint BigInt_TwosComplement
begin

text \<open>
  BigInts and doubles (\<open>js/src/vm/BigIntType.cpp\<close>): \<open>createFromDouble\<close> and \<open>NumberToBigInt\<close>,
  \<open>numberValue\<close>, which rounds to the nearest double with ties to even, and the comparisons of a
  BigInt with a double.  The value of a double is \<open>dscaled\<close>, an integer in units of \<open>2^-1074\<close>.
\<close>

section \<open>From a double\<close>

text \<open>
  With \<open>DigitBits = 64\<close> the loop that stores the rest of the mantissa writes at most one digit and
  leaves.
\<close>

definition createFromDouble :: "double \<Rightarrow> bigint eng" where
  "createFromDouble d =
     mozAssert (IsInteger d) (
     if deq0 d then zero
     else
       let exponent = ExponentComponent d in
       mozAssert (exponent \<ge> 0) (
       let exponent = nat exponent;
           len = exponent div DigitBits + 1 in
       bindM (createUninitialized len (dlt0 d)) (\<lambda>result.
       let mantissa = (d AND kSignificandBits) OR shl 1 kSignificandWidth;
           mantissaTopBit = kSignificandWidth;
           msdTopBit = exponent mod DigitBits in
       bindM (if msdTopBit < mantissaTopBit
              then let remainingMantissaBits = mantissaTopBit - msdTopBit in
                returnM (shr mantissa remainingMantissaBits, shl mantissa (64 - remainingMantissaBits))
              else mozAssert (msdTopBit \<ge> mantissaTopBit) (
                returnM (shl mantissa (msdTopBit - mantissaTopBit), 0))) (\<lambda>(dg, mantissa).
       mozAssert (dg \<noteq> 0) (
       bindM (setDigit result (len - 1) dg) (\<lambda>result.
       bindM (if mantissa \<noteq> 0
              then mozAssert (len - 1 > 0) (
                bindM (setDigit result (len - 2) mantissa) (\<lambda>result. returnM (result, len - 2)))
              else returnM (result, len - 1)) (\<lambda>(result, len).
       forDown len (\<lambda>i result. setDigit result i 0) result)))))))"

definition NumberToBigInt :: "double \<Rightarrow> bigint eng" where
  "NumberToBigInt d = (if \<not> IsInteger d then throwM NonIntegerNumberToBigInt else createFromDouble d)"

section \<open>To a double\<close>

text \<open>
  The loops of \<open>numberValue\<close> and of \<open>compare\<close> that look for a nonzero digit below position \<open>n\<close>.
\<close>

primrec lowDigitSet :: "bigint \<Rightarrow> nat \<Rightarrow> bool eng" where
  "lowDigitSet x 0 = returnM False"
| "lowDigitSet x (Suc n) = bindM (digit x n) (\<lambda>d. if d \<noteq> 0 then returnM True else lowDigitSet x n)"

text \<open>
  C++'s \<open>double(n)\<close> for an \<open>n\<close> that a double represents exactly; the code converts integers up to
  \<open>2^53\<close> only.  Negation flips the sign bit.
\<close>

definition doubleFromUint64 :: "u64 \<Rightarrow> double" where
  "doubleFromUint64 n =
     (if n = 0 then 0
      else let e = 63 - DigitLeadingZeroes n in
        push_bit 52 (of_nat (e + 1023)) OR
        ((if e \<le> 52 then push_bit (52 - e) n else drop_bit (e - 52) n) AND kSignificandBits))"

definition negateDouble :: "double \<Rightarrow> double" where
  "negateDouble d = d XOR kSignBit"

text \<open>
  The mantissa shifted to the top of 64 bits (52 bits, the extra bit and what lies below it), the
  digit with the extra bit, and the bits of that digit below it.
\<close>

definition shiftedMantissaOf :: "bigint \<Rightarrow> nat \<Rightarrow> (u64 \<times> nat \<times> digit) eng" where
  "shiftedMantissaOf x msdLeadingZeroes =
     (let len = digitLength x;
          msdIgnoredBits = msdLeadingZeroes + 1;
          msdIncludedBits = DigitBits - msdIgnoredBits;
          BitsNeededForShiftedMantissa = kSignificandWidth + 1 in
      bindM (digit x (len - 1)) (\<lambda>msd.
      let shiftedMantissa = (if msdIncludedBits = 0 then 0 else shl msd (64 - msdIncludedBits)) in
      if msdIncludedBits \<ge> BitsNeededForShiftedMantissa
      then
        let countOfBitsInDigitBelowExtraBit = DigitBits - BitsNeededForShiftedMantissa - msdIgnoredBits in
        returnM (shiftedMantissa, len - 1, msd AND (shl 1 countOfBitsInDigitBelowExtraBit - 1))
      else
        mozAssert (len \<ge> 2) (
        bindM (digit x (len - 2)) (\<lambda>second.
        let countOfBitsInSecondDigitBelowExtraBit = msdIncludedBits + DigitBits - BitsNeededForShiftedMantissa in
        returnM (shiftedMantissa OR shr second msdIncludedBits, len - 2,
          shl second (DigitBits - countOfBitsInSecondDigitBelowExtraBit))))))"

definition LeastSignificantBit :: u64 where
  "LeastSignificantBit = shl 1 (64 - kSignificandWidth)"

definition ExtraBit :: u64 where
  "ExtraBit = shr LeastSignificantBit 1"

definition shouldRoundUp :: "bigint \<Rightarrow> u64 \<Rightarrow> nat \<Rightarrow> digit \<Rightarrow> bool eng" where
  "shouldRoundUp x shiftedMantissa digitContainingExtraBit bitsBeneathExtraBit =
     (if shiftedMantissa AND ExtraBit \<noteq> 0
      then if shiftedMantissa AND LeastSignificantBit \<noteq> 0 then returnM True
        else if bitsBeneathExtraBit \<noteq> 0 then returnM True
        else lowDigitSet x digitContainingExtraBit
      else returnM False)"

definition infinityOf :: "bigint \<Rightarrow> double" where
  "infinityOf x = (if isNegative x then NegativeInfinity else PositiveInfinity)"

definition assembleDouble :: "bigint \<Rightarrow> nat \<Rightarrow> u64 \<Rightarrow> double" where
  "assembleDouble x exponent shiftedMantissa =
     (let significandBits = shr shiftedMantissa (64 - kSignificandWidth);
          signBit = shl (if isNegative x then 1 else 0) (kExponentWidth + kSignificandWidth);
          exponentBits = shl (of_nat (exponent + kExponentBias)) kExponentShift in
      signBit OR exponentBits OR significandBits)"

definition numberValue :: "bigint \<Rightarrow> double eng" where
  "numberValue x =
     (if isZero x then returnM 0
      else
        mozAssert (digitLength x > 0) (
        bindM (if absFitsInUint64 x
               then bindM (uint64FromAbsNonZero x) (\<lambda>magnitude.
                 returnM (magnitude \<le> shl 1 (kSignificandWidth + 1), magnitude))
               else returnM (False, 0)) (\<lambda>(fast, magnitude).
        if fast
        then returnM (if isNegative x then negateDouble (doubleFromUint64 magnitude) else doubleFromUint64 magnitude)
        else
          let len = digitLength x in
          bindM (digit x (len - 1)) (\<lambda>msd.
          let msdLeadingZeroes = DigitLeadingZeroes msd;
              exponent = len * DigitBits - msdLeadingZeroes - 1 in
          if exponent > kExponentBias then returnM (infinityOf x)
          else
            bindM (shiftedMantissaOf x msdLeadingZeroes) (\<lambda>(shiftedMantissa, digitContainingExtraBit, bitsBeneath).
            bindM (shouldRoundUp x shiftedMantissa digitContainingExtraBit bitsBeneath) (\<lambda>up.
            if up
            then
              let before = shiftedMantissa;
                  shiftedMantissa = shiftedMantissa + ExtraBit;
                  exponent = (if shiftedMantissa < before then exponent + 1 else exponent) in
              if shiftedMantissa < before \<and> exponent > kExponentBias then returnM (infinityOf x)
              else returnM (assembleDouble x exponent shiftedMantissa)
            else returnM (assembleDouble x exponent shiftedMantissa)))))))"

section \<open>Comparison\<close>

text \<open>
  \<open>x\<close>'s high 64 bits, whether the digit that ends them has a nonzero bit left, and the number of
  digits below.
\<close>

definition xHighBits :: "bigint \<Rightarrow> digit \<Rightarrow> nat \<Rightarrow> nat \<Rightarrow> (u64 \<times> bool \<times> nat) eng" where
  "xHighBits x xMSD shift xBitLength =
     (let xBitsFilled = DigitBits - shift;
          xHigh64Bits = shl xMSD (64 - xBitsFilled);
          xLength = digitLength x - 1 in
      if xBitsFilled < min xBitLength 64
      then
        mozAssert (xLength \<ge> 1) (
        bindM (digit x (xLength - 1)) (\<lambda>second.
        let neededBits = 64 - xBitsFilled in
        returnM (xHigh64Bits OR shr second (DigitBits - neededBits), shl second neededBits \<noteq> 0, xLength - 1)))
      else returnM (xHigh64Bits, False, xLength))"

definition compareDouble :: "bigint \<Rightarrow> double \<Rightarrow> int eng" where
  "compareDouble x y =
     (let LessThan = - 1; Equal = 0; GreaterThan = 1;
          xNegative = isNegative x;
          smaller = (if xNegative then GreaterThan else LessThan);
          greater = (if xNegative then LessThan else GreaterThan) in
      mozAssert (\<not> IsNaN y) (
      if \<not> IsFinite y then returnM (if dgt0 y then LessThan else GreaterThan)
      else if isZero x then returnM (if deq0 y then Equal else if dgt0 y then LessThan else GreaterThan)
      else if deq0 y then returnM greater
      else if xNegative \<noteq> dlt0 y then returnM greater
      else
        let exponent = ExponentComponent y in
        if exponent < 0 then returnM greater
        else
          let xLength = digitLength x in
          mozAssert (xLength > 0) (
          bindM (digit x (xLength - 1)) (\<lambda>xMSD.
          let shift = DigitLeadingZeroes xMSD;
              xBitLength = xLength * DigitBits - shift;
              yBitLength = nat exponent + 1 in
          if xBitLength < yBitLength then returnM smaller
          else if xBitLength > yBitLength then returnM greater
          else
            let significandBits = y AND kSignificandBits;
                yHigh64Bits = shl (shl 1 kSignificandWidth OR significandBits) (64 - kSignificandWidth - 1) in
            bindM (xHighBits x xMSD shift xBitLength) (\<lambda>(xHigh64Bits, xHasNonZeroLeftoverBits, xLength).
            if yHigh64Bits > xHigh64Bits then returnM smaller
            else if xHigh64Bits > yHigh64Bits then returnM greater
            else if xHasNonZeroLeftoverBits then returnM greater
            else bindM (lowDigitSet x xLength) (\<lambda>set. returnM (if set then greater else Equal)))))))"

definition equalDouble :: "bigint \<Rightarrow> double \<Rightarrow> bool eng" where
  "equalDouble lhs rhs =
     (if IsNaN rhs then returnM False
      else bindM (compareDouble lhs rhs) (\<lambda>c. returnM (c = 0)))"

text \<open>\<open>lessThan(BigInt*, double)\<close> and \<open>lessThan(double, BigInt*)\<close>: \<open>Nothing()\<close> when the double is a NaN.\<close>

definition lessThanBigIntDouble :: "bigint \<Rightarrow> double \<Rightarrow> bool option eng" where
  "lessThanBigIntDouble lhs rhs =
     (if IsNaN rhs then returnM None
      else bindM (compareDouble lhs rhs) (\<lambda>c. returnM (Some (c < 0))))"

definition lessThanDoubleBigInt :: "double \<Rightarrow> bigint \<Rightarrow> bool option eng" where
  "lessThanDoubleBigInt lhs rhs =
     (if IsNaN lhs then returnM None
      else bindM (compareDouble rhs lhs) (\<lambda>c. returnM (Some (- c < 0))))"

section \<open>Correctness of the conversion from a double\<close>

lemma runs_fillZeroes:
  "n \<le> digitLength r \<Longrightarrow> Q (r\<lparr>digits := replicate n 0 @ drop n (digits r)\<rparr>) \<Longrightarrow>
    runs (forDown n (\<lambda>i r. setDigit r i 0) r) v E Q"
proof (induction n arbitrary: r)
  case 0
  then show ?case by simp
next
  case (Suc n)
  let ?r = "r\<lparr>digits := (digits r)[n := 0]\<rparr>"
  have "replicate n 0 @ drop n (digits ?r) = replicate (Suc n) 0 @ drop (Suc n) (digits r)"
    using Suc.prems(1) by (simp add: drop_update_swap replicate_app_Cons_same flip: Cons_nth_drop_Suc)
  then have "runs (forDown n (\<lambda>i r. setDigit r i 0) ?r) v E Q"
    using Suc by (intro Suc.IH) simp_all
  then show ?case using Suc.prems(1) by simp
qed

lemma unat_mantissa: "unat ((d AND kSignificandBits) OR shl 1 kSignificandWidth) = 2 ^ 52 + dfrac d"
proof -
  have "unat (shl 1 52 OR (d AND kSignificandBits)) = unat (shl 1 52 :: u64) + unat (d AND kSignificandBits)"
    using dfrac_less [of d] by (intro unat_or_shl) (simp_all add: DigitBits_def dfrac_def)
  then show ?thesis by (simp add: dfrac_def kConsts unat_shl DigitBits_def Base_def or.commute)
qed

text \<open>
  The top digit and the rest of the mantissa, for a leading bit at position \<open>64 * k + b\<close>: together
  they are the integer \<open>N\<close> whose \<open>2^52\<close>-fold is the mantissa \<open>M\<close> shifted by the exponent.
\<close>

lemma mantissa_split:
  fixes M N :: nat
  assumes M: "2 ^ 52 \<le> M" "M < 2 ^ 53" and N: "N * 2 ^ 52 = M * 2 ^ (64 * k + b)" and b: "b < 52"
  shows "k = 0 \<Longrightarrow> M mod 2 ^ (52 - b) = 0 \<and> N = M div 2 ^ (52 - b)"
    and "0 < k \<Longrightarrow> N = Base ^ (k - 1) * (M mod 2 ^ (52 - b) * 2 ^ (12 + b) + Base * (M div 2 ^ (52 - b)))"
proof -
  have p: "(2 :: nat) ^ 52 = 2 ^ b * 2 ^ (52 - b)" using b power_split [of b 52] by simp
  assume "k = 0"
  then have "(N * 2 ^ (52 - b)) * 2 ^ b = M * 2 ^ b" using N p by (simp add: ac_simps)
  then have "M = N * 2 ^ (52 - b)" by simp
  then show "M mod 2 ^ (52 - b) = 0 \<and> N = M div 2 ^ (52 - b)" by simp
next
  assume k: "0 < k"
  have pB: "Base = 2 ^ (12 + b) * 2 ^ (52 - b)"
    using b unfolding Base_def by (simp flip: power_add)
  have "M mod 2 ^ (52 - b) * 2 ^ (12 + b) + Base * (M div 2 ^ (52 - b))
      = 2 ^ (12 + b) * (M mod 2 ^ (52 - b) + 2 ^ (52 - b) * (M div 2 ^ (52 - b)))"
    unfolding pB by (simp only: distrib_left ac_simps)
  also have "\<dots> = 2 ^ (12 + b) * M" by simp
  finally have v: "M mod 2 ^ (52 - b) * 2 ^ (12 + b) + Base * (M div 2 ^ (52 - b)) = 2 ^ (12 + b) * M" .
  have "64 * k + b = 64 * (k - 1) + (12 + b) + 52" using k by simp
  then have "(2 :: nat) ^ (64 * k + b) = 2 ^ (64 * (k - 1)) * 2 ^ (12 + b) * 2 ^ 52" by (simp only: power_add)
  then have "N * 2 ^ 52 = (Base ^ (k - 1) * (2 ^ (12 + b) * M)) * 2 ^ 52"
    unfolding N Base_def power_mult by (simp only: ac_simps)
  then show "N = Base ^ (k - 1) * (M mod 2 ^ (52 - b) * 2 ^ (12 + b) + Base * (M div 2 ^ (52 - b)))"
    unfolding v by (simp only: mult_cancel2) simp
qed

lemma mantissa_shift:
  fixes M N :: nat
  assumes N: "N * 2 ^ 52 = M * 2 ^ (64 * k + b)" and b: "52 \<le> b"
  shows "N = Base ^ k * (M * 2 ^ (b - 52))"
proof -
  have "(2 :: nat) ^ (64 * k + b) = Base ^ k * 2 ^ (b - 52) * 2 ^ 52"
    using b by (simp only: power_digits mult.assoc power_add [symmetric] le_add_diff_inverse2)
  then have "N * 2 ^ 52 = (Base ^ k * (M * 2 ^ (b - 52))) * 2 ^ 52" unfolding N by (simp only: ac_simps)
  then show ?thesis by (simp only: mult_cancel2) simp
qed


lemma integer_double:
  assumes "IsInteger d" and "\<not> deq0 d"
  obtains E N where "dexp d = E + 1023" and "E \<le> 1023" and "N * 2 ^ 52 = (2 ^ 52 + dfrac d) * 2 ^ E"
    and "dscaled d = withSign (dlt0 d) N * 2 ^ 1074"
proof -
  have dvd: "(2 :: nat) ^ 1074 dvd dmag d"
  proof -
    have "int (2 ^ 1074) dvd int (dmag d)"
      using assms(1) unfolding IsInteger_def dscaled_def of_nat_power of_nat_numeral by (metis dvd_minus_iff)
    then show ?thesis by (simp only: int_dvd_int_iff)
  qed
  have "\<not> dexp d < 1023"
    using dmag_small [of d] dvd assms(2) by (metis deq0_iff dvd_imp_le not_le neq0_conv)
  then obtain E where e: "dexp d = E + 1023" by (metis add.commute le_Suc_ex not_less)
  have fin: "IsFinite d" using assms(1) by (simp add: IsInteger_def)
  have "E \<le> 1023" using e dexp_less [of d] fin by (simp add: IsFinite_iff)
  obtain N where N: "dmag d = N * 2 ^ 1074" using dvd by (metis dvdE mult.commute)
  have "(1074 :: nat) = 52 + 1022" by simp
  then have "N * 2 ^ 52 * 2 ^ 1022 = (2 ^ 52 + dfrac d) * 2 ^ E * 2 ^ 1022"
    using N dmag_normal [OF e] by (simp only: power_add mult.assoc)
  then have "N * 2 ^ 52 = (2 ^ 52 + dfrac d) * 2 ^ E" by (simp only: mult_cancel2) simp
  moreover have "dscaled d = withSign (dlt0 d) N * 2 ^ 1074"
    using assms(2) IsFinite_not_NaN [OF fin] unfolding dscaled_def dlt0_def N by (simp only: of_nat_mult of_nat_power) simp
  ultimately show thesis using that e \<open>E \<le> 1023\<close> by blast
qed

lemma wf_top: "0 < length ds \<Longrightarrow> length ds \<le> MaxDigitLength \<Longrightarrow> last ds \<noteq> 0 \<Longrightarrow> wf \<lparr>digits = ds, isNegative = s\<rparr>"
  by (auto simp: wf_def HasLeadingZeroes_def isZero_def last_conv_nth)

lemma dval_zeroes_append: "dval (replicate k 0 @ ds) = Base ^ k * dval ds"
  by (simp add: dval_append)

text \<open>
  Storing a top digit \<open>dg\<close> and, when there is more of the mantissa, the digit \<open>low\<close> below it, then
  zeroes.
\<close>

lemma runs_storeMantissa:
  assumes len: "length ds = Suc k" and dg: "dg \<noteq> 0" and low: "low \<noteq> 0 \<Longrightarrow> 0 < k"
    and Q: "low = 0 \<Longrightarrow> Q \<lparr>digits = replicate k 0 @ [dg], isNegative = s\<rparr>"
      "0 < k \<Longrightarrow> low \<noteq> 0 \<Longrightarrow> Q \<lparr>digits = replicate (k - 1) 0 @ [low, dg], isNegative = s\<rparr>"
  shows "runs (bindM (setDigit \<lparr>digits = ds, isNegative = s\<rparr> (Suc k - 1) dg) (\<lambda>result.
       bindM (if low \<noteq> 0
              then mozAssert (Suc k - 1 > 0) (
                bindM (setDigit result (Suc k - 2) low) (\<lambda>result. returnM (result, Suc k - 2)))
              else returnM (result, Suc k - 1)) (\<lambda>(result, len).
       forDown len (\<lambda>i result. setDigit result i 0) result))) v E Q"
proof (cases "low = 0")
  case True
  have "drop k (ds[k := dg]) = [dg]" using len by (simp add: drop_update_swap flip: Cons_nth_drop_Suc)
  then show ?thesis using True Q(1) len by (auto intro!: runs_fillZeroes)
next
  case False
  then obtain j where j: "k = Suc j" using low by (cases k) auto
  have "drop j (ds[Suc j := dg, j := low]) = [low, dg]"
    using len j by (simp add: drop_update_swap flip: Cons_nth_drop_Suc)
  then show ?thesis using False Q(2) len j by (auto intro!: runs_fillZeroes)
qed

lemma runs_createFromDouble:
  assumes int: "IsInteger d" and E: "\<And>e. oom v e \<Longrightarrow> E e"
    and Q: "\<And>r. wf r \<Longrightarrow> bval r * 2 ^ 1074 = dscaled d \<Longrightarrow> Q r"
  shows "runs (createFromDouble d) v E Q"
proof (cases "deq0 d")
  case True
  then have "runs zero v E Q" using E by (intro runs_zero Q) (simp_all add: bval_def dscaled_def deq0_iff)
  then show ?thesis using True int by (simp add: createFromDouble_def)
next
  case False
  obtain X N where X: "dexp d = X + 1023" "X \<le> 1023" and N: "N * 2 ^ 52 = (2 ^ 52 + dfrac d) * 2 ^ X"
    and val: "dscaled d = withSign (dlt0 d) N * 2 ^ 1074"
    using integer_double [OF int False] by metis
  define k b where "k = X div 64" and "b = X mod 64"
  have X64: "X = 64 * k + b" and b: "b < 64" by (simp_all add: k_def b_def)
  let ?m = "(d AND kSignificandBits) OR shl 1 kSignificandWidth" and ?M = "2 ^ 52 + dfrac d"
  have M: "unat ?m = ?M" "2 ^ 52 \<le> ?M" "?M < 2 ^ 53" using unat_mantissa [of d] dfrac_less [of d] by auto
  have k: "Suc k \<le> MaxDigitLength" using X(2) by (simp add: k_def MaxDigitLength_def MaxBitLength_def DigitBits_def)
  have fin: "Q \<lparr>digits = ds, isNegative = dlt0 d\<rparr>"
    if "dval ds = N" "0 < length ds" "length ds \<le> Suc k" "last ds \<noteq> 0" for ds
    using that k val by (intro Q wf_top) (auto simp: bval_make)
  define dg low where "dg = (if b < 52 then shr ?m (52 - b) else shl ?m (b - 52))"
    and "low = (if b < 52 then shl ?m (12 + b) else 0)"
  have dl: "dg \<noteq> 0 \<and> (k = 0 \<longrightarrow> low = 0 \<and> N = unat dg) \<and> (0 < k \<longrightarrow> N = Base ^ (k - 1) * (unat low + Base * unat dg))"
  proof (cases "b < 52")
    case True
    have dg': "unat dg = ?M div 2 ^ (52 - b)" using True M(1) by (simp add: dg_def unat_shr DigitBits_def)
    have base: "Base = 2 ^ (52 - b) * 2 ^ (12 + b)" using True unfolding Base_def by (simp flip: power_add)
    have "unat low = ?M * 2 ^ (12 + b) mod Base"
      using True unat_shl [of "12 + b" ?m] unfolding M(1) by (simp add: low_def DigitBits_def)
    then have low': "unat low = ?M mod 2 ^ (52 - b) * 2 ^ (12 + b)" by (simp only: base mult_mod_left)
    have "2 ^ (52 - b) \<le> ?M" using M(2) power_increasing [of "52 - b" 52 "2 :: nat"] by linarith
    then have "dg \<noteq> 0" using dg' by (simp add: div_greater_zero_iff flip: unat_gt_0)
    then show ?thesis
      using mantissa_split [OF M(2,3) N [unfolded X64] True] dg' low' by (auto simp flip: unat_eq_zero)
  next
    case False
    have "?M * 2 ^ (b - 52) < 2 ^ 53 * 2 ^ (b - 52)" using M(3) by simp
    also have "\<dots> \<le> Base" unfolding Base_def power_add [symmetric] using b by (intro power_increasing) auto
    finally have "unat dg = ?M * 2 ^ (b - 52)" using False b M(1) by (simp add: dg_def unat_shl DigitBits_def)
    moreover have "N = Base ^ k * (?M * 2 ^ (b - 52))"
      using False by (intro mantissa_shift [OF N [unfolded X64]]) simp
    moreover have "Base ^ k = Base ^ (k - 1) * Base" if "0 < k" using that by (simp add: power_eq_if)
    ultimately show ?thesis using False M(2) by (auto simp: low_def simp flip: unat_gt_0)
  qed
  have "runs (bindM (setDigit \<lparr>digits = ds, isNegative = dlt0 d\<rparr> (Suc k - 1) dg) (\<lambda>result.
       bindM (if low \<noteq> 0
              then mozAssert (Suc k - 1 > 0) (
                bindM (setDigit result (Suc k - 2) low) (\<lambda>result. returnM (result, Suc k - 2)))
              else returnM (result, Suc k - 1)) (\<lambda>(result, len).
       forDown len (\<lambda>i result. setDigit result i 0) result))) v E Q" if "length ds = Suc k" for ds
  proof (rule runs_storeMantissa [OF that])
    show "Q \<lparr>digits = replicate k 0 @ [dg], isNegative = dlt0 d\<rparr>" if "low = 0"
      using dl that by (intro fin) (cases k, auto simp: dval_zeroes_append)
    show "Q \<lparr>digits = replicate (k - 1) 0 @ [low, dg], isNegative = dlt0 d\<rparr>" if "0 < k" "low \<noteq> 0"
      using dl that by (intro fin) (auto simp: dval_zeroes_append)
  qed (use dl in auto)
  note store = this
  have nat_exp: "nat (ExponentComponent d) = X" "0 \<le> ExponentComponent d"
    using X(1) by (simp_all add: ExponentComponent_dexp)
  show ?thesis
    unfolding createFromDouble_def
  proof (simp only: int False nat_exp Let_def if_False mozAssert_holds DigitBits_def
      k_def [symmetric] b_def [symmetric] Suc_eq_plus1 [symmetric], rule runs_bindI, rule runs_createUninitialized, goal_cases)
    case (3 ds)
    have "(if b < kSignificandWidth
        then returnM (shr ?m (kSignificandWidth - b), shl ?m (64 - (kSignificandWidth - b)))
        else mozAssert (kSignificandWidth \<le> b) (returnM (shl ?m (b - kSignificandWidth), 0))) = returnM (dg, low)"
      by (auto simp: dg_def low_def kConsts)
    then show ?case using store [OF 3(1)] dl by (simp only: bindM_returnM prod.case mozAssert_holds not_False_eq_True)
  qed (use E k in auto)
qed


section \<open>The leading digits of a BigInt\<close>

lemma lowDigitSet_eq: "n \<le> digitLength x \<Longrightarrow> lowDigitSet x n = returnM (dval (take n (digits x)) \<noteq> 0)"
  by (induction n) (auto simp: dval_take_Suc unat_eq_zero)

lemma topDigit:
  assumes "wf x" and "\<not> isZero x"
  obtains k m where "digitLength x = Suc k" and "m \<le> 63"
    and "DigitLeadingZeroes (digits x ! k) = 63 - m"
    and "2 ^ m \<le> unat (digits x ! k)" and "unat (digits x ! k) < 2 ^ (m + 1)"
    and "dval (digits x) = dval (take k (digits x)) + Base ^ k * unat (digits x ! k)"
    and "2 ^ (64 * k + m) \<le> dval (digits x)" and "dval (digits x) < 2 ^ (64 * k + m + 1)"
proof -
  obtain k where k: "digitLength x = Suc k" using assms(2) by (cases "digitLength x") (auto simp: isZero_def)
  let ?d = "digits x ! k"
  have d: "?d \<noteq> 0" using assms(1) k by (auto simp: wf_def HasLeadingZeroes_def)
  note b = DigitLeadingZeroes_bounds [OF d]
  define m where "m = 63 - DigitLeadingZeroes ?d"
  have m: "m \<le> 63" "DigitLeadingZeroes ?d = 63 - m" "64 - DigitLeadingZeroes ?d = m + 1"
    using b(1) by (simp_all add: m_def)
  have lo: "2 ^ m \<le> unat ?d" and hi: "unat ?d < 2 ^ (m + 1)" using b(2,3) m(3) by (simp_all add: m_def)
  have X: "dval (digits x) = dval (take k (digits x)) + Base ^ k * unat ?d"
    using dval_take_Suc [of k "digits x"] k by simp
  have "Base ^ k * 2 ^ m \<le> dval (digits x)" unfolding X using lo by (simp add: trans_le_add2)
  moreover have "dval (digits x) < Base ^ k * 2 ^ (m + 1)"
  proof -
    have "dval (digits x) < Base ^ k * Suc (unat ?d)" unfolding X using dval_take_less [of k "digits x"] by simp
    also have "\<dots> \<le> Base ^ k * 2 ^ (m + 1)" using hi by (intro mult_left_mono) auto
    finally show ?thesis .
  qed
  ultimately show thesis
    using that [of k m] k m(1,2) lo hi X by (simp only: power_digits add.assoc)
qed

text \<open>The two leading digits of a BigInt with at least two.\<close>

lemma dval_top2:
  assumes "digitLength x = Suc (Suc j)"
  shows "dval (digits x) = dval (take j (digits x))
    + Base ^ j * (unat (digits x ! j) + Base * unat (digits x ! Suc j))"
  using dval_take_Suc [of "Suc j" "digits x"] dval_take_Suc [of j "digits x"] assms
  by (simp add: algebra_simps)

section \<open>Correctness of the comparison\<close>

text \<open>
  The high 64 bits of \<open>x\<close> shifted up to a full digit, with a remainder that is nonzero exactly when
  the code finds a bit left over.
\<close>

lemma shifted_digit_split:
  fixes D :: nat
  assumes "z \<le> 64"
  shows "D * 2 ^ z = D div 2 ^ (64 - z) * Base + D * 2 ^ z mod Base"
    and "D * 2 ^ z mod Base = D mod 2 ^ (64 - z) * 2 ^ z"
proof -
  have B: "Base = 2 ^ (64 - z) * 2 ^ z" unfolding Base_def using assms by (simp flip: power_add)
  have "D * 2 ^ z div Base = D div 2 ^ (64 - z)" unfolding B by simp
  then show "D * 2 ^ z = D div 2 ^ (64 - z) * Base + D * 2 ^ z mod Base" by (metis div_mult_mod_eq)
  show "D * 2 ^ z mod Base = D mod 2 ^ (64 - z) * 2 ^ z" unfolding B by (rule mult_mod_left [symmetric])
qed

lemma runs_xHighBits:
  assumes len: "digitLength x = Suc k" and m: "m \<le> 63"
    and msd: "unat (digits x ! k) < 2 ^ (m + 1)"
    and X: "dval (digits x) = dval (take k (digits x)) + Base ^ k * unat (digits x ! k)"
    and Q: "\<And>H left n rest. n \<le> k \<Longrightarrow> dval (digits x) * 2 ^ (63 - m) = Base ^ k * unat H + rest \<Longrightarrow>
      rest < Base ^ k \<Longrightarrow> rest \<noteq> 0 \<longleftrightarrow> left \<or> dval (take n (digits x)) \<noteq> 0 \<Longrightarrow> Q (H, left, n)"
  shows "runs (xHighBits x (digits x ! k) (63 - m) (64 * k + m + 1)) v E Q"
proof -
  let ?d = "digits x ! k" and ?z = "63 - m"
  have filled: "64 - ?z = m + 1" "64 - (m + 1) = ?z" using m by simp_all
  have "unat ?d * 2 ^ ?z < 2 ^ (m + 1) * 2 ^ ?z" using msd by simp
  also have "\<dots> = Base" unfolding Base_def power_add [symmetric] using m by simp
  finally have H: "unat (shl ?d ?z) = unat ?d * 2 ^ ?z" using m by (simp add: unat_shl DigitBits_def)
  show ?thesis
  proof (cases "m < 63 \<and> 0 < k")
    case False
    have "Q (shl ?d ?z, False, k)"
    proof (rule Q)
      show "dval (digits x) * 2 ^ ?z = Base ^ k * unat (shl ?d ?z) + dval (take k (digits x))"
        unfolding X H using False m by (cases "k = 0") simp_all
      show "dval (take k (digits x)) < Base ^ k" by (rule dval_take_less)
    qed simp_all
    then show ?thesis using False m len unfolding xHighBits_def Let_def DigitBits_def filled by auto
  next
    case True
    then obtain j where j: "k = Suc j" by (cases k) auto
    let ?s = "digits x ! j" and ?L = "dval (take j (digits x))"
    let ?r = "?L * 2 ^ ?z + Base ^ j * (unat ?s * 2 ^ ?z mod Base)"
    have z: "?z \<le> 64" by simp
    note split = shifted_digit_split [OF z, of "unat ?s", unfolded filled(1)]
    have B: "Base = 2 ^ (m + 1) * 2 ^ ?z" using m unfolding Base_def by (simp flip: power_add)
    have shr: "unat (shr ?s (m + 1)) = unat ?s div 2 ^ (m + 1)"
      using True by (simp add: unat_shr DigitBits_def)
    have "unat ?s div 2 ^ (m + 1) < 2 ^ ?z"
    proof (rule less_mult_imp_div_less)
      show "unat ?s < 2 ^ ?z * 2 ^ (m + 1)" using unat_less_Base [of ?s] B by (simp add: mult.commute)
    qed
    then have HH: "unat (shl ?d ?z OR shr ?s (m + 1)) = unat ?d * 2 ^ ?z + unat ?s div 2 ^ (m + 1)"
      using H shr by (subst unat_or_shl) (simp_all add: DigitBits_def)
    have left: "shl ?s ?z \<noteq> 0 \<longleftrightarrow> unat ?s * 2 ^ ?z mod Base \<noteq> 0"
      using z by (simp add: unat_shl DigitBits_def flip: unat_eq_zero)
    have "Q (shl ?d ?z OR shr ?s (m + 1), shl ?s ?z \<noteq> 0, j)"
    proof (rule Q)
      have "dval (digits x) * 2 ^ ?z = ?L * 2 ^ ?z + Base ^ j * (unat ?s * 2 ^ ?z) + Base ^ k * (unat ?d * 2 ^ ?z)"
        using dval_top2 [of x j] len j by (simp add: algebra_simps)
      also have "\<dots> = ?L * 2 ^ ?z + Base ^ j * (unat ?s div 2 ^ (m + 1) * Base + unat ?s * 2 ^ ?z mod Base)
          + Base ^ k * (unat ?d * 2 ^ ?z)"
        using split(1) by simp
      also have "\<dots> = Base ^ k * unat (shl ?d ?z OR shr ?s (m + 1)) + ?r"
        unfolding HH unfolding j by (simp add: algebra_simps)
      finally show "dval (digits x) * 2 ^ ?z = Base ^ k * unat (shl ?d ?z OR shr ?s (m + 1)) + ?r" .
      have "unat ?s * 2 ^ ?z mod Base + 2 ^ ?z \<le> Base"
      proof -
        have "Suc (unat ?s mod 2 ^ (m + 1)) * 2 ^ ?z \<le> 2 ^ (m + 1) * 2 ^ ?z"
          by (intro mult_right_mono Suc_leI) simp_all
        then show ?thesis using split(2) B by simp
      qed
      then have "Base ^ j * (unat ?s * 2 ^ ?z mod Base + 2 ^ ?z) \<le> Base ^ j * Base" by (rule mult_left_mono) simp
      moreover have "?L * 2 ^ ?z < Base ^ j * 2 ^ ?z" using dval_take_less [of j "digits x"] by simp
      ultimately have "?r < Base ^ j * Base" by (simp only: distrib_left)
      then show "?r < Base ^ k" unfolding j by (simp add: ac_simps)
    qed (use j left in auto)
    then show ?thesis
      using True m len j unfolding xHighBits_def Let_def DigitBits_def filled by auto
  qed
qed


text \<open>The order of two magnitudes, in units of \<open>U\<close>, given their leading bits.\<close>

definition natOrder :: "nat \<Rightarrow> nat \<Rightarrow> int" where
  "natOrder a b = sgn (int a - int b)"

lemma natOrder_cases: "natOrder a b = (if a < b then - 1 else if a = b then 0 else 1)"
  by (simp add: natOrder_def)

lemma natOrder_mult: "0 < c \<Longrightarrow> natOrder (a * c) (b * c) = natOrder a b"
  by (simp add: natOrder_cases)

lemma natOrder_digits:
  assumes "rest < B"
  shows "natOrder (B * h + rest) (B * y) = (if h < y then - 1 else if y < h \<or> rest \<noteq> 0 then 1 else 0)"
proof -
  have "B * h + rest < B * y" if "h < y"
  proof -
    have "B * h + rest < B * Suc h" using assms by simp
    also have "\<dots> \<le> B * y" using that by (intro mult_left_mono) auto
    finally show ?thesis .
  qed
  moreover have "B * y < B * h + rest" if "y < h"
    using that assms by (intro trans_less_add1) (simp add: gr_implies_not0)
  ultimately show ?thesis by (cases h y rule: linorder_cases) (simp_all add: natOrder_cases)
qed

lemma dmag_bounds:
  assumes "dexp d = E + 1023"
  shows "2 ^ E * 2 ^ 1074 \<le> dmag d" and "dmag d < 2 ^ (E + 1) * 2 ^ 1074"
proof -
  have M: "2 ^ 52 \<le> 2 ^ 52 + dfrac d" "2 ^ 52 + dfrac d < 2 ^ 53" using dfrac_less [of d] by auto
  have e: "E + 1074 = 52 + (E + 1022)" "E + 1 + 1074 = 53 + (E + 1022)" by simp_all
  show "2 ^ E * 2 ^ 1074 \<le> dmag d"
    unfolding dmag_normal [OF assms] power_add [symmetric] e unfolding power_add [of _ 52]
    using M(1) by (rule mult_right_mono) simp
  show "dmag d < 2 ^ (E + 1) * 2 ^ 1074"
    unfolding dmag_normal [OF assms] power_add [symmetric] e unfolding power_add [of _ 53]
    using M(2) by (rule mult_strict_right_mono) simp
qed

lemma unat_yHigh:
  "unat (shl (shl 1 kSignificandWidth OR (y AND kSignificandBits)) (64 - kSignificandWidth - 1))
    = (2 ^ 52 + dfrac y) * 2 ^ 11"
proof -
  have "(2 ^ 52 + dfrac y) * 2 ^ 11 < Base" using dfrac_less [of y] unfolding Base_def by simp
  then show ?thesis
    using unat_mantissa [of y] by (simp add: unat_shl DigitBits_def kConsts or.commute)
qed

text \<open>Equal bit lengths: the comparison of the shifted magnitudes decides.\<close>

lemma natOrder_high:
  assumes X: "X * 2 ^ (63 - m) = Base ^ k * H + rest" and m: "m \<le> 63" and y: "dexp y = 64 * k + m + 1023"
  shows "natOrder (X * 2 ^ 1074) (dmag y) = natOrder (Base ^ k * H + rest) (Base ^ k * ((2 ^ 52 + dfrac y) * 2 ^ 11))"
proof -
  have u: "(1074 :: nat) = 52 + 1022" by simp
  have "natOrder (X * 2 ^ 1074) (dmag y) = natOrder (X * 2 ^ 52 * 2 ^ 1022) ((2 ^ 52 + dfrac y) * 2 ^ (64 * k + m) * 2 ^ 1022)"
    unfolding dmag_normal [OF y] by (subst u) (simp only: power_add mult.assoc)
  also have "\<dots> = natOrder (X * 2 ^ 52) ((2 ^ 52 + dfrac y) * 2 ^ (64 * k + m))"
    by (rule natOrder_mult) (rule zero_less_power, simp)
  also have "\<dots> = natOrder (X * 2 ^ 52 * 2 ^ (74 - m)) ((2 ^ 52 + dfrac y) * 2 ^ (64 * k + m) * 2 ^ (74 - m))"
    by (rule natOrder_mult [symmetric]) simp
  also have "X * 2 ^ 52 * 2 ^ (74 - m) = X * 2 ^ (63 - m) * 2 ^ 63"
    using m by (simp only: mult.assoc power_add [symmetric]) simp
  also have "(2 ^ 52 + dfrac y) * 2 ^ (64 * k + m) * 2 ^ (74 - m) = Base ^ k * ((2 ^ 52 + dfrac y) * 2 ^ 11) * 2 ^ 63"
  proof -
    have "(2 :: nat) ^ (64 * k + m) * 2 ^ (74 - m) = 2 ^ (64 * k) * 2 ^ 11 * 2 ^ 63"
      using m by (simp only: power_add [symmetric]) simp
    then show ?thesis unfolding Base_def power_mult [symmetric] by (simp only: ac_simps)
  qed
  also have "natOrder (X * 2 ^ (63 - m) * 2 ^ 63) (Base ^ k * ((2 ^ 52 + dfrac y) * 2 ^ 11) * 2 ^ 63)
      = natOrder (X * 2 ^ (63 - m)) (Base ^ k * ((2 ^ 52 + dfrac y) * 2 ^ 11))"
    by (rule natOrder_mult) simp
  finally show ?thesis unfolding X .
qed

text \<open>The specification: the sign of the difference; an infinity exceeds every BigInt.\<close>

definition doubleOrder :: "bigint \<Rightarrow> double \<Rightarrow> int" where
  "doubleOrder x y =
     (if IsFinite y then sgn (bval x * 2 ^ 1074 - dscaled y) else if dsign y then 1 else - 1)"

lemma doubleOrder_same_sign:
  assumes "IsFinite y" and "isNegative x = dsign y"
  shows "doubleOrder x y
    = (if isNegative x then - natOrder (dval (digits x) * 2 ^ 1074) (dmag y) else natOrder (dval (digits x) * 2 ^ 1074) (dmag y))"
proof -
  define U :: nat where "U = 2 ^ 1074"
  have U: "int U = 2 ^ 1074" unfolding U_def by (rule of_nat_power [of 2, unfolded of_nat_numeral])
  have neg: "sgn (- a) = - sgn a" for a :: int by (rule sgn_minus)
  have "sgn (- int a * int U - - int b) = - sgn (int a * int U - int b)" for a b
    using neg [of "int a * int U - int b"] by simp
  then show ?thesis
    using assms unfolding doubleOrder_def natOrder_def dscaled_def bval_def U [symmetric] U_def [symmetric] of_nat_mult by auto
qed


lemma dscaled_pos_neg:
  assumes "\<not> deq0 y"
  shows "dscaled y < 0 \<longleftrightarrow> dsign y" and "0 < dscaled y \<longleftrightarrow> \<not> dsign y"
  using assms by (auto simp: dscaled_def deq0_iff)

lemma doubleOrder_other_sign:
  assumes "wf x" and "IsFinite y" and "\<not> isZero x" and "deq0 y \<or> isNegative x \<noteq> dsign y"
  shows "doubleOrder x y = (if isNegative x then - 1 else 1)"
proof -
  have "bval x \<noteq> 0" "bval x < 0 \<longleftrightarrow> isNegative x" using assms(1,3) wf_bval_0 wf_neg_iff by auto
  then have s: "sgn (bval x * 2 ^ 1074) = (if isNegative x then - 1 else 1)"
    unfolding sgn_mult by (cases "isNegative x") auto
  have "dscaled y = 0 \<or> (dscaled y < 0 \<longleftrightarrow> \<not> isNegative x)"
    using assms(4) dscaled_pos_neg [of y] by (cases "deq0 y") (auto simp: dscaled_def deq0_iff)
  then have "sgn (bval x * 2 ^ 1074 - dscaled y) = sgn (bval x * 2 ^ 1074)"
    using s by (cases "isNegative x") (auto simp: sgn_if split: if_splits)
  then show ?thesis using s assms(2) by (simp add: doubleOrder_def)
qed

lemma runs_compareDouble:
  assumes wf: "wf x" and nan: "\<not> IsNaN y" and Q: "Q (doubleOrder x y)"
  shows "runs (compareDouble x y) v E Q"
proof -
  consider "\<not> IsFinite y" | "IsFinite y" "isZero x" | "IsFinite y" "\<not> isZero x" "deq0 y \<or> isNegative x \<noteq> dsign y"
    | "IsFinite y" "\<not> isZero x" "\<not> deq0 y" "isNegative x = dsign y"
    by blast
  then show ?thesis
  proof cases
    case 1
    then have "\<not> deq0 y" by (auto simp: IsFinite_iff deq0_iff dmag_def)
    then show ?thesis using 1 nan Q by (auto simp: compareDouble_def doubleOrder_def dgt0_def Let_def split: if_splits)
  next
    case 2
    then have "bval x = 0" using wf wf_bval_0 by simp
    then have "doubleOrder x y = - sgn (dscaled y)" using 2 by (simp add: doubleOrder_def sgn_minus)
    moreover have "deq0 y \<Longrightarrow> dscaled y = 0" by (simp add: dscaled_def deq0_iff)
    ultimately have "Q (if deq0 y then 0 else if dsign y then 1 else - 1)"
      using Q dscaled_pos_neg [of y] by (cases "deq0 y"; cases "dsign y") auto
    then show ?thesis using 2 nan by (auto simp: compareDouble_def dgt0_def Let_def split: if_splits)
  next
    case 3
    then have "Q (if isNegative x then - 1 else 1)" using Q doubleOrder_other_sign [OF wf] by simp
    then show ?thesis using 3 nan unfolding compareDouble_def Let_def dlt0_def by auto
  next
    case 4
    let ?X = "dval (digits x)" and ?n = "isNegative x"
    have res: "Q (if ?n then - natOrder (?X * 2 ^ 1074) (dmag y) else natOrder (?X * 2 ^ 1074) (dmag y))"
      using Q doubleOrder_same_sign [OF 4(1,4)] by simp
    have less: "Q (if ?n then 1 else - 1)" if "?X * 2 ^ 1074 < dmag y"
    proof -
      have "natOrder (?X * 2 ^ 1074) (dmag y) = - 1" using that by (simp only: natOrder_cases if_True)
      then show ?thesis using res by (simp only: minus_minus)
    qed
    have greater: "Q (if ?n then - 1 else 1)" if "dmag y < ?X * 2 ^ 1074"
    proof -
      have "natOrder (?X * 2 ^ 1074) (dmag y) = 1" using that by (simp only: natOrder_cases order.asym if_False less_imp_neq) auto
      then show ?thesis using res by (simp only: minus_minus)
    qed
    obtain k m where k: "digitLength x = Suc k" and m: "m \<le> 63" and clz: "DigitLeadingZeroes (digits x ! k) = 63 - m"
      and msd: "unat (digits x ! k) < 2 ^ (m + 1)"
      and X: "?X = dval (take k (digits x)) + Base ^ k * unat (digits x ! k)"
      and lo: "2 ^ (64 * k + m) \<le> ?X" and hi: "?X < 2 ^ (64 * k + m + 1)"
      using topDigit [OF wf 4(2)] by metis
    have bits: "Suc k * 64 - (63 - m) = 64 * k + m + 1" using m by simp
    show ?thesis
    proof (cases "ExponentComponent y < 0")
      case True
      have "dmag y < 2 ^ 1074" using True by (intro dmag_small) (simp add: ExponentComponent_dexp)
      also have "2 ^ 1074 = 1 * (2 ^ 1074 :: nat)" by (rule mult_1 [symmetric])
      also have "\<dots> \<le> ?X * 2 ^ 1074" using lo by (intro mult_right_mono) (auto intro: order.trans [rotated])
      finally have "Q (if ?n then - 1 else 1)" by (rule greater)
      then show ?thesis using True 4 nan unfolding compareDouble_def Let_def dlt0_def by auto
    next
      case False
      define e where "e = dexp y - 1023"
      have e: "dexp y = e + 1023" "nat (ExponentComponent y) = e"
        using False by (auto simp: ExponentComponent_dexp e_def)
      let ?y = "shl (shl 1 kSignificandWidth OR (y AND kSignificandBits)) (64 - kSignificandWidth - 1)"
      let ?s = "if ?n then 1 else - 1" and ?g = "if ?n then - 1 else 1"
      have rest: "runs (compareDouble x y) v E Q = runs
          (if 64 * k + m + 1 < e + 1 then returnM ?s
          else if 64 * k + m + 1 > e + 1 then returnM ?g
          else bindM (xHighBits x (digits x ! k) (63 - m) (64 * k + m + 1)) (\<lambda>(xHigh64Bits, left, xLength).
            if ?y > xHigh64Bits then returnM ?s
            else if xHigh64Bits > ?y then returnM ?g
            else if left then returnM ?g
            else bindM (lowDigitSet x xLength) (\<lambda>set. returnM (if set then ?g else 0)))) v E Q"
        using False 4 nan k e(2) unfolding compareDouble_def Let_def dlt0_def DigitBits_def
        by (simp only: k bits clz diff_Suc_1 digit_in_range lessI bindM_returnM if_False not_False_eq_True
            mozAssert_holds zero_less_Suc simp_thms if_True)
      consider "64 * k + m < e" | "e < 64 * k + m" | "e = 64 * k + m" by linarith
      then show ?thesis
      proof cases
        case 1
        have "?X < 2 ^ e" using hi 1 power_increasing [of "64 * k + m + 1" e "2 :: nat"] by simp
        then have "?X * 2 ^ 1074 < 2 ^ e * 2 ^ 1074" by (rule mult_strict_right_mono) (rule zero_less_power, simp)
        then have "Q (if ?n then 1 else - 1)" using dmag_bounds(1) [OF e(1)] by (intro less) (rule less_le_trans)
        then show ?thesis using rest 1 by simp
      next
        case 2
        have "2 ^ (e + 1) \<le> ?X" using lo 2 power_increasing [of "e + 1" "64 * k + m" "2 :: nat"] by simp
        then have "2 ^ (e + 1) * 2 ^ 1074 \<le> ?X * 2 ^ 1074" by (rule mult_right_mono) (rule zero_le)
        then have "Q (if ?n then - 1 else 1)" using dmag_bounds(2) [OF e(1)] by (intro greater) (rule less_le_trans)
        then show ?thesis using rest 2 by simp
      next
        case 3
        have high: "runs (xHighBits x (digits x ! k) (63 - m) (64 * k + m + 1)) v E (\<lambda>(xHigh64Bits, left, xLength).
            runs (if ?y > xHigh64Bits then returnM ?s
            else if xHigh64Bits > ?y then returnM ?g
            else if left then returnM ?g
            else bindM (lowDigitSet x xLength) (\<lambda>set. returnM (if set then ?g else 0))) v E Q)"
        proof (rule runs_xHighBits [OF k m msd X], goal_cases)
          case (1 H left n r)
          note ord = natOrder_high [OF 1(2) m e(1) [unfolded 3]] natOrder_digits [OF 1(3)]
          have "natOrder (?X * 2 ^ 1074) (dmag y)
              = (if unat H < unat ?y then - 1 else if unat ?y < unat H \<or> r \<noteq> 0 then 1 else 0)"
            unfolding ord unat_yHigh ..
          then have "Q (if ?n then - (if unat H < unat ?y then - 1 else if unat ?y < unat H \<or> r \<noteq> 0 then 1 else 0)
              else (if unat H < unat ?y then - 1 else if unat ?y < unat H \<or> r \<noteq> 0 then 1 else 0))"
            using res by (simp only:)
          then show ?case
            using 1(1,4) k by (auto simp: lowDigitSet_eq word_less_nat_alt split: if_splits)
        qed
        show ?thesis using rest 3 high by (simp add: runs_bindI split_def)
      qed
    qed
  qed
qed


section \<open>Correctness of the conversion to a double\<close>

text \<open>
  The specification: the finite double nearest to the integer \<open>n\<close>, and on a tie one with an even
  fraction.
\<close>

definition nearestEven :: "int \<Rightarrow> double \<Rightarrow> bool" where
  "nearestEven n d \<longleftrightarrow> IsFinite d \<and>
     (\<forall>d'. IsFinite d' \<longrightarrow> \<bar>dscaled d - n * 2 ^ 1074\<bar> \<le> \<bar>dscaled d' - n * 2 ^ 1074\<bar>) \<and>
     (\<forall>d'. IsFinite d' \<and> dscaled d' \<noteq> dscaled d \<and> \<bar>dscaled d - n * 2 ^ 1074\<bar> = \<bar>dscaled d' - n * 2 ^ 1074\<bar>
       \<longrightarrow> even (dfrac d))"

lemma fields_unique:
  assumes "unat d = (if s then 2 ^ 63 else 0) + 2 ^ 52 * e + f" and "e < 2 ^ 11" and "f < 2 ^ 52"
  shows "dsign d = s" and "dexp d = e" and "dfrac d = f"
proof -
  note uni = double_fields [of d] assms(1)
  have lt: "2 ^ 52 * dexp d + dfrac d < 2 ^ 63" "2 ^ 52 * e + f < 2 ^ 63"
    using dexp_less [of d] dfrac_less [of d] assms(2,3) by simp_all
  show s: "dsign d = s" using uni lt by (cases s; cases "dsign d") simp_all
  then have eq: "2 ^ 52 * dexp d + dfrac d = 2 ^ 52 * e + f" using uni by (cases s) simp_all
  have "(2 ^ 52 * dexp d + dfrac d) div 2 ^ 52 = dexp d" "(2 ^ 52 * e + f) div 2 ^ 52 = e"
    using dfrac_less [of d] assms(3) by simp_all
  then show "dexp d = e" using eq by metis
  then show "dfrac d = f" using eq by simp
qed

lemma unat_or_disjoint:
  assumes "t < 64" and "unat b < 2 ^ t" and "unat a * 2 ^ t < Base"
  shows "unat (shl a t OR b) = unat a * 2 ^ t + unat b"
  using assms by (simp add: unat_or_shl unat_shl DigitBits_def)

lemma assembled_fields:
  assumes "e < 2 ^ 11" and "unat f < 2 ^ 52"
    and d: "d = shl (if s then 1 else 0) 63 OR shl (of_nat e) 52 OR f"
  shows "dsign d = s" and "dexp d = e" and "dfrac d = unat f"
proof -
  have e: "unat (of_nat e :: u64) = e" using assms(1) by (simp add: unat_of_nat)
  have "e * 2 ^ 52 < Base" using assms(1) by (simp add: Base_def)
  then have low: "unat (shl (of_nat e) 52 OR f) = e * 2 ^ 52 + unat f"
    using assms(2) e by (subst unat_or_disjoint) simp_all
  moreover have "e * 2 ^ 52 + unat f < 2 ^ 63" using assms(1,2) by simp
  ultimately have "unat (shl (if s then 1 else 0) 63 OR (shl (of_nat e) 52 OR f))
      = unat (if s then 1 else 0 :: u64) * 2 ^ 63 + (e * 2 ^ 52 + unat f)"
    by (subst unat_or_disjoint) (simp_all add: Base_def)
  then have "unat d = (if s then 2 ^ 63 else 0) + 2 ^ 52 * e + unat f"
    unfolding d or.assoc by (cases s) simp_all
  from fields_unique [OF this assms(1,2)]
  show "dsign d = s" "dexp d = e" "dfrac d = unat f" .
qed

lemma assembleDouble_fields:
  assumes "e \<le> 1023"
  shows "dsign (assembleDouble x e sm) = isNegative x" and "dexp (assembleDouble x e sm) = e + 1023"
    and "dfrac (assembleDouble x e sm) = unat sm div 2 ^ 12"
proof -
  have f: "unat (shr sm 12) = unat sm div 2 ^ 12" by (simp add: unat_shr DigitBits_def)
  moreover have "unat sm div 2 ^ 12 < 2 ^ 52"
    using unat_less_Base [of sm] unfolding Base_def by (intro less_mult_imp_div_less) simp
  moreover have "assembleDouble x e sm = shl (if isNegative x then 1 else 0) 63 OR shl (of_nat (e + 1023)) 52 OR shr sm 12"
    by (simp add: assembleDouble_def kConsts)
  moreover have "e + 1023 < 2 ^ 11" using assms by simp
  ultimately show "dsign (assembleDouble x e sm) = isNegative x" "dexp (assembleDouble x e sm) = e + 1023"
    "dfrac (assembleDouble x e sm) = unat sm div 2 ^ 12"
    using assembled_fields [of "e + 1023" "shr sm 12" "assembleDouble x e sm" "isNegative x"] by metis+
qed

text \<open>The fast path converts exactly.\<close>

lemma doubleFromUint64_fields:
  assumes "n \<noteq> 0" and "unat n \<le> 2 ^ 53"
  shows "\<not> dsign (doubleFromUint64 n)" and "dmag (doubleFromUint64 n) = unat n * 2 ^ 1074"
    and "IsFinite (doubleFromUint64 n)"
proof -
  note b = DigitLeadingZeroes_bounds [OF assms(1)]
  define e where "e = 63 - DigitLeadingZeroes n"
  have "e + 1 = 64 - DigitLeadingZeroes n" using b(1) by (simp add: e_def)
  then have lo: "2 ^ e \<le> unat n" and hi: "unat n < 2 ^ (e + 1)" using b(2,3) by (simp_all only: e_def)
  have e53: "e \<le> 53"
  proof (rule ccontr)
    assume "\<not> e \<le> 53"
    then have "(2 :: nat) ^ 54 \<le> 2 ^ e" by (intro power_increasing) auto
    with lo assms(2) show False by simp
  qed
  define w where "w = (if e \<le> 52 then push_bit (52 - e) n else drop_bit (e - 52) n)"
  have w: "unat w * 2 ^ e = unat n * 2 ^ 52 \<and> 2 ^ 52 \<le> unat w \<and> unat w < 2 ^ 53"
  proof (cases "e \<le> 52")
    case True
    have p: "(2 :: nat) ^ e * 2 ^ (52 - e) = 2 ^ 52" "(2 :: nat) ^ (e + 1) * 2 ^ (52 - e) = 2 ^ 53"
      using True by (simp_all flip: power_add)
    have "2 ^ 52 \<le> unat n * 2 ^ (52 - e)" "unat n * 2 ^ (52 - e) < 2 ^ 53"
      using lo hi unfolding p [symmetric] by simp_all
    moreover from this have "unat (push_bit (52 - e) n) = unat n * 2 ^ (52 - e)"
      using unat_shl [of "52 - e" n] by (simp add: shl_def DigitBits_def Base_def)
    ultimately show ?thesis using True p(1) by (simp add: w_def mult.assoc mult.commute [of "2 ^ (52 - e)"])
  next
    case False
    then have "e = 53" using e53 by simp
    then have "unat n = 2 ^ 53" using lo assms(2) by simp
    moreover have "unat (drop_bit 1 n) = unat n div 2" using unat_shr [of 1 n] by (simp add: shr_def DigitBits_def)
    ultimately show ?thesis using \<open>e = 53\<close> by (simp add: w_def)
  qed
  let ?d = "doubleFromUint64 n"
  have "unat (w AND kSignificandBits) = unat w mod 2 ^ 52" using dfrac_nat [of w] by (simp add: dfrac_def)
  also have "\<dots> = unat w - 2 ^ 52" using w by (subst le_mod_geq) (auto intro!: mod_less)
  finally have f: "unat (w AND kSignificandBits) = unat w - 2 ^ 52" .
  have d: "?d = shl (if False then 1 else 0) 63 OR shl (of_nat (e + 1023)) 52 OR (w AND kSignificandBits)"
    using assms(1) by (simp add: doubleFromUint64_def Let_def shl_def DigitBits_def w_def e_def)
  have small: "e + 1023 < 2 ^ 11" "unat (w AND kSignificandBits) < 2 ^ 52" using e53 f w by auto
  note fields = assembled_fields [OF small d]
  show "\<not> dsign ?d" using fields(1) by simp
  show "IsFinite ?d" using fields(2) e53 by (simp add: IsFinite_iff)
  have "dmag ?d = unat w * 2 ^ (e + 1022)" using dmag_normal [OF fields(2)] fields(3) f w by simp
  also have "\<dots> = unat n * 2 ^ 52 * 2 ^ 1022" using w by (simp only: power_add mult.assoc [symmetric])
  also have "\<dots> = unat n * 2 ^ 1074" by (simp only: mult.assoc power_add [symmetric]) simp
  finally show "dmag ?d = unat n * 2 ^ 1074" .
qed

lemma negateDouble_fields:
  assumes "\<not> dsign d"
  shows "dsign (negateDouble d)" and "dmag (negateDouble d) = dmag d" and "IsFinite (negateDouble d) = IsFinite d"
proof -
  have lt: "unat d < 2 ^ 63" using assms by (simp add: dsign_nat)
  have "d XOR kSignBit = kSignBit OR d"
  proof (rule bit_word_eqI)
    fix n
    assume "n < LENGTH(64)"
    have "\<not> bit d 63" using lt by (simp add: bit_digit_iff)
    then show "bit (d XOR kSignBit) n = bit (kSignBit OR d) n" by (auto simp: bit_xor_iff bit_or_iff bit_kSignBit)
  qed
  then have "unat (negateDouble d) = unat (shl 1 63 OR d)" by (simp add: negateDouble_def kSignBit_def shl_def DigitBits_def)
  also have "\<dots> = 2 ^ 63 + unat d" using lt by (subst unat_or_disjoint) (simp_all add: Base_def)
  finally have "unat (negateDouble d) = (if True then 2 ^ 63 else 0) + 2 ^ 52 * dexp d + dfrac d"
    using double_fields [of d] assms by simp
  from fields_unique [OF this dexp_less dfrac_less]
  show "dsign (negateDouble d)" "dmag (negateDouble d) = dmag d" "IsFinite (negateDouble d) = IsFinite d"
    by (simp_all add: dmag_def IsFinite_iff)
qed


text \<open>
  The shifted mantissa holds the 53 bits below the leading one (the last of them the extra bit), and
  the code sees a nonzero bit below exactly when there is one.
\<close>

lemma unat_msdShift:
  assumes "m \<le> 63" and "2 ^ m \<le> unat d" and "unat d < 2 ^ (m + 1)"
  shows "unat (if m = 0 then 0 else shl d (64 - m)) = (unat d - 2 ^ m) * 2 ^ (64 - m)"
proof (cases "m = 0")
  case True
  then show ?thesis using assms by simp
next
  case False
  let ?t = "unat d - 2 ^ m"
  have B: "Base = 2 ^ m * 2 ^ (64 - m)" using assms(1) unfolding Base_def by (simp flip: power_add)
  have "unat (shl d (64 - m)) = (2 ^ m + ?t) * 2 ^ (64 - m) mod Base"
    using False assms by (simp add: unat_shl DigitBits_def)
  also have "\<dots> = ?t * 2 ^ (64 - m) mod Base" unfolding distrib_right B by simp
  also have "?t * 2 ^ (64 - m) mod Base = ?t * 2 ^ (64 - m)" unfolding B using assms(2,3) by (intro mod_less) simp
  finally show ?thesis using False by simp
qed

lemma div_mod_digits:
  assumes "L < Base ^ k"
  shows "(L + Base ^ k * D) div (Base ^ k * c) = D div c"
    and "0 < c \<Longrightarrow> (L + Base ^ k * D) mod (Base ^ k * c) \<noteq> 0 \<longleftrightarrow> D mod c \<noteq> 0 \<or> L \<noteq> 0"
proof -
  have "(L + Base ^ k * D) div Base ^ k = D" "(L + Base ^ k * D) mod Base ^ k = L" using assms by simp_all
  then show "(L + Base ^ k * D) div (Base ^ k * c) = D div c"
    "0 < c \<Longrightarrow> (L + Base ^ k * D) mod (Base ^ k * c) \<noteq> 0 \<longleftrightarrow> D mod c \<noteq> 0 \<or> L \<noteq> 0"
    by (simp_all add: div_mult2_eq mod_mult2_eq)
qed

lemma runs_shiftedMantissaOf:
  assumes len: "digitLength x = Suc k" and m: "m \<le> 63" and E: "53 \<le> 64 * k + m"
    and lo: "2 ^ m \<le> unat (digits x ! k)" and hi: "unat (digits x ! k) < 2 ^ (m + 1)"
    and X: "dval (digits x) = dval (take k (digits x)) + Base ^ k * unat (digits x ! k)"
    and Q: "\<And>sm n bits. n \<le> k \<Longrightarrow> 2 ^ 53 + unat sm div 2 ^ 11 = dval (digits x) div 2 ^ (64 * k + m - 53) \<Longrightarrow>
      dval (digits x) mod 2 ^ (64 * k + m - 53) \<noteq> 0 \<longleftrightarrow> bits \<noteq> 0 \<or> dval (take n (digits x)) \<noteq> 0 \<Longrightarrow> Q (sm, n, bits)"
  shows "runs (shiftedMantissaOf x (63 - m)) v E' Q"
proof -
  let ?d = "digits x ! k" and ?sm = "if m = 0 then 0 else shl (digits x ! k) (64 - m)"
  have cs: "64 - (63 - m + 1) = m" "64 - (52 + 1) - (63 - m + 1) = m - 53" using m by simp_all
  obtain t where t: "unat ?d = 2 ^ m + t" "t < 2 ^ m" using lo hi le_Suc_ex by fastforce
  have sm: "unat ?sm = t * 2 ^ (64 - m)" using unat_msdShift [OF m lo hi] t by simp
  show ?thesis
  proof (cases "53 \<le> m")
    case True
    have p: "(2 :: nat) ^ m = 2 ^ 53 * 2 ^ (m - 53)" "(2 :: nat) ^ 11 = 2 ^ (64 - m) * 2 ^ (m - 53)"
      using True m by (simp_all only: power_add [symmetric]) simp_all
    have "(2 :: nat) ^ (64 * k + m - 53) = 2 ^ (64 * k + (m - 53))" using True by simp
    then have pow: "(2 :: nat) ^ (64 * k + m - 53) = Base ^ k * 2 ^ (m - 53)" unfolding power_digits .
    have mask: "unat (?d AND (shl 1 (m - 53) - 1)) = unat ?d mod 2 ^ (m - 53)"
    proof -
      have "m - 53 < 64" using m by simp
      then have "?d AND (shl 1 (m - 53) - 1) = take_bit (m - 53) ?d"
        by (simp add: shl_def DigitBits_def take_bit_eq_mask mask_eq_exp_minus_1)
      then show ?thesis by (simp add: unsigned_take_bit_eq take_bit_eq_mod [of "m - 53" "unat ?d"])
    qed
    have "Q (?sm, k, ?d AND (shl 1 (m - 53) - 1))"
    proof (rule Q)
      have "unat ?sm div 2 ^ 11 = t div 2 ^ (m - 53)" unfolding sm p(2) by (simp add: mult.commute)
      moreover have "unat ?d div 2 ^ (m - 53) = 2 ^ 53 + t div 2 ^ (m - 53)" unfolding t(1) p(1) by simp
      ultimately show "2 ^ 53 + unat ?sm div 2 ^ 11 = dval (digits x) div 2 ^ (64 * k + m - 53)"
        unfolding pow X by (simp only: div_mod_digits(1) [OF dval_take_less])
      show "dval (digits x) mod 2 ^ (64 * k + m - 53) \<noteq> 0 \<longleftrightarrow>
          ?d AND (shl 1 (m - 53) - 1) \<noteq> 0 \<or> dval (take k (digits x)) \<noteq> 0"
        unfolding pow X unat_eq_zero [symmetric] mask by (rule div_mod_digits(2) [OF dval_take_less]) simp
    qed simp
    then show ?thesis
      using True len unfolding shiftedMantissaOf_def Let_def DigitBits_def kConsts cs by simp
  next
    case False
    then obtain j where j: "k = Suc j" using E by (cases k) auto
    let ?s = "digits x ! j" and ?L = "dval (take j (digits x))"
    have c: "64 - (m + 64 - (52 + 1)) = 53 - m" using False by simp
    have "64 * k + m - 53 = 64 * j + (m + 11)" using False unfolding j by simp
    then have pow: "(2 :: nat) ^ (64 * k + m - 53) = Base ^ j * 2 ^ (m + 11)" by (simp only: power_digits)
    have X2: "dval (digits x) = ?L + Base ^ j * (unat ?s + Base * unat ?d)" using dval_top2 [of x j] len j by simp
    have B: "Base = 2 ^ (53 - m) * 2 ^ (m + 11)" "Base = 2 ^ (64 - m) * 2 ^ m" "(2 :: nat) ^ (64 - m) = 2 ^ (53 - m) * 2 ^ 11"
      using False unfolding Base_def power_add [symmetric] by simp_all
    have shr: "unat (shr ?s m) = unat ?s div 2 ^ m" using m by (simp add: unat_shr DigitBits_def)
    have "unat (?sm OR shr ?s m) = t * 2 ^ (64 - m) + unat ?s div 2 ^ m"
    proof (cases "m = 0")
      case True
      then show ?thesis using t(2) shr by simp
    next
      case False
      have "unat ?s div 2 ^ m < 2 ^ (64 - m)" using unat_less_Base [of ?s] B(2) by (intro less_mult_imp_div_less) simp
      then have "unat (shl ?d (64 - m) OR shr ?s m) = unat (shl ?d (64 - m)) + unat (shr ?s m)"
        using False shr by (intro unat_or_shl) (simp_all add: DigitBits_def)
      then show ?thesis using False sm shr by simp
    qed
    also have "(t * 2 ^ (64 - m) + unat ?s div 2 ^ m) div 2 ^ 11 = t * 2 ^ (53 - m) + unat ?s div 2 ^ (m + 11)"
      unfolding B(3) by (simp add: mult.assoc [symmetric] power_add flip: div_mult2_eq)
    finally have high: "unat (?sm OR shr ?s m) div 2 ^ 11 = t * 2 ^ (53 - m) + unat ?s div 2 ^ (m + 11)" .
    let ?D = "unat ?s + Base * unat ?d"
    have D: "?D div 2 ^ (m + 11) = 2 ^ 53 + (t * 2 ^ (53 - m) + unat ?s div 2 ^ (m + 11))" "?D mod 2 ^ (m + 11) = unat ?s mod 2 ^ (m + 11)"
    proof -
      have p: "(2 :: nat) ^ 53 = 2 ^ (53 - m) * 2 ^ m" using False by (simp flip: power_add)
      have "?D = unat ?s + (2 ^ 53 + t * 2 ^ (53 - m)) * 2 ^ (m + 11)"
        unfolding B(1) t(1) p by (simp only: distrib_right distrib_left ac_simps)
      then show "?D div 2 ^ (m + 11) = 2 ^ 53 + (t * 2 ^ (53 - m) + unat ?s div 2 ^ (m + 11))"
        "?D mod 2 ^ (m + 11) = unat ?s mod 2 ^ (m + 11)" by simp_all
    qed
    have bits: "shl ?s (53 - m) \<noteq> 0 \<longleftrightarrow> unat ?s mod 2 ^ (m + 11) \<noteq> 0"
    proof -
      have "64 - (53 - m) = m + 11" using False by simp
      then have "unat (shl ?s (53 - m)) = unat ?s mod 2 ^ (m + 11) * 2 ^ (53 - m)"
        using shifted_digit_split(2) [of "53 - m" "unat ?s"] by (simp add: unat_shl DigitBits_def)
      then show ?thesis by (simp flip: unat_eq_zero)
    qed
    have "Q (?sm OR shr ?s m, j, shl ?s (53 - m))"
    proof (rule Q)
      show "2 ^ 53 + unat (?sm OR shr ?s m) div 2 ^ 11 = dval (digits x) div 2 ^ (64 * k + m - 53)"
        unfolding pow X2 high by (simp only: div_mod_digits(1) [OF dval_take_less] D)
      show "dval (digits x) mod 2 ^ (64 * k + m - 53) \<noteq> 0 \<longleftrightarrow> shl ?s (53 - m) \<noteq> 0 \<or> ?L \<noteq> 0"
        unfolding pow X2 bits D(2) [symmetric] by (rule div_mod_digits(2) [OF dval_take_less]) simp
    qed (use j in simp)
    then show ?thesis
      using False len j unfolding shiftedMantissaOf_def Let_def DigitBits_def kConsts cs c by (cases "m = 0") simp_all
  qed
qed


text \<open>Rounding a number between two multiples of \<open>C\<close> to the nearer, on a tie to the even one.\<close>

definition roundQuotient :: "nat \<Rightarrow> nat \<Rightarrow> nat" where
  "roundQuotient Y C =
     (let q = Y div C; r = Y mod C in if C < 2 * r \<or> 2 * r = C \<and> odd q then q + 1 else q)"

lemma roundQuotient_nearest:
  fixes Y C j :: nat
  assumes "0 < C"
  defines "Q \<equiv> roundQuotient Y C"
  shows "\<bar>int (Q * C) - int Y\<bar> \<le> \<bar>int (j * C) - int Y\<bar>"
    and "\<bar>int (Q * C) - int Y\<bar> = \<bar>int (j * C) - int Y\<bar> \<Longrightarrow> j \<noteq> Q \<Longrightarrow> even Q"
proof -
  define q r where "q = Y div C" and "r = Y mod C"
  have Y: "Y = q * C + r" and r: "r < C" using assms(1) by (simp_all add: q_def r_def)
  have Q: "Q = (if C < 2 * r \<or> 2 * r = C \<and> odd q then q + 1 else q)"
    by (simp add: Q_def roundQuotient_def q_def r_def Let_def)
  have qC: "(q + 1) * C = q * C + C" by simp
  have dist: "\<bar>int (Q * C) - int Y\<bar> = (if Q = q then int r else int C - int r)"
    using Q Y r qC by (cases "Q = q") (auto simp del: of_nat_mult mult_Suc split: if_splits)
  have keep: "Q = q \<Longrightarrow> 2 * r < C \<or> 2 * r = C \<and> even q" and up: "Q \<noteq> q \<Longrightarrow> Q = q + 1 \<and> (C < 2 * r \<or> 2 * r = C \<and> odd q)"
    using Q by (auto split: if_splits)
  define D where "D = \<bar>int (j * C) - int Y\<bar>"
  have at: "j = q \<Longrightarrow> D = int r" "j = q + 1 \<Longrightarrow> D = int C - int r"
    using Y r qC by (auto simp: D_def simp del: of_nat_mult mult_Suc)
  have far: "int C < D \<or> int C + int r \<le> D" if "j \<noteq> q" "j \<noteq> q + 1"
  proof (cases "j < q")
    case True
    then have "j * C + C \<le> q * C" using mult_le_mono1 [of "Suc j" q C] by simp
    then show ?thesis using Y unfolding D_def by linarith
  next
    case False
    then have "q * C + 2 * C \<le> j * C" using that mult_le_mono1 [of "q + 2" j C] by simp
    then show ?thesis using Y r unfolding D_def by linarith
  qed
  define e where "e = \<bar>int (Q * C) - int Y\<bar>"
  have e: "Q = q \<Longrightarrow> e = int r" "Q \<noteq> q \<Longrightarrow> e = int C - int r" unfolding e_def dist by simp_all
  have "e \<le> int r" "e \<le> int C - int r" using e keep up by (cases "Q = q"; force)+
  then have "e \<le> D" "j \<noteq> q \<Longrightarrow> j \<noteq> q + 1 \<Longrightarrow> e \<noteq> D"
    using at far r by (cases "j = q"; cases "j = q + 1"; force)+
  moreover have "even Q" if "e = D" "j \<noteq> Q" "j = q \<or> j = q + 1"
  proof (cases "Q = q")
    case True
    then have "j = q + 1" using that by simp
    then have "2 * r = C" using at(2) e(1) [OF True] that(1) by linarith
    then show ?thesis using keep [OF True] True by simp
  next
    case False
    then have "j = q" using up that by blast
    then have "2 * r = C" using at(1) e(2) [OF False] that(1) by linarith
    then show ?thesis using up [OF False] by simp
  qed
  ultimately show "\<bar>int (Q * C) - int Y\<bar> \<le> \<bar>int (j * C) - int Y\<bar>"
    and "\<bar>int (Q * C) - int Y\<bar> = \<bar>int (j * C) - int Y\<bar> \<Longrightarrow> j \<noteq> Q \<Longrightarrow> even Q"
    unfolding e_def [symmetric] D_def [symmetric] by blast+
qed

lemma dmag_exp_less:
  assumes "dexp d < e"
  shows "dmag d < 2 ^ 52 * 2 ^ (e - 1)"
proof (cases "dexp d = 0")
  case True
  have "dfrac d < 2 ^ 52 * 1" using dfrac_less [of d] by simp
  also have "\<dots> \<le> 2 ^ 52 * 2 ^ (e - 1)" by (intro mult_left_mono one_le_power) simp_all
  finally show ?thesis unfolding dmag_def if_P [OF True] .
next
  case False
  have "2 ^ 52 + dfrac d < 2 ^ 53" using dfrac_less [of d] by simp
  then have "(2 ^ 52 + dfrac d) * 2 ^ (dexp d - 1) < 2 ^ 53 * 2 ^ (dexp d - 1)" by simp
  also have "\<dots> \<le> 2 ^ 52 * 2 ^ (e - 1)"
    unfolding power_add [symmetric] using assms False by (intro power_increasing) auto
  finally show ?thesis unfolding dmag_def if_not_P [OF False] .
qed

lemma dmag_multiple_or_small: "(\<exists>j. dmag d = j * 2 ^ (E + 1022)) \<or> dmag d < 2 ^ 52 * 2 ^ (E + 1022)"
proof (cases "dexp d < E + 1023")
  case True
  then show ?thesis using dmag_exp_less [OF True] by (simp add: add.commute)
next
  case False
  then have "(2 :: nat) ^ (dexp d - 1) = 2 ^ (dexp d - 1 - (E + 1022)) * 2 ^ (E + 1022)"
    by (simp only: power_add [symmetric]) simp
  then have "dmag d = ((2 ^ 52 + dfrac d) * 2 ^ (dexp d - 1 - (E + 1022))) * 2 ^ (E + 1022)"
    using False by (simp only: dmag_def mult.assoc) simp
  then show ?thesis by blast
qed

text \<open>
  A double with the magnitude of the rounded quotient is the nearest one: every double is a multiple
  of the spacing \<open>2^(E + 1022)\<close>, or lies below \<open>2^E\<close>, and is then farther away than \<open>2^E\<close> itself.
\<close>

lemma rounded_nearestEven:
  assumes lo: "2 ^ E \<le> X" and n: "n = withSign s X" and sd: "dsign d = s" and fin: "IsFinite d"
    and mag: "dmag d = roundQuotient (X * 2 ^ 1074) (2 ^ (E + 1022)) * 2 ^ (E + 1022)"
    and ev: "even (roundQuotient (X * 2 ^ 1074) (2 ^ (E + 1022))) \<Longrightarrow> even (dfrac d)"
  shows "nearestEven n d"
proof -
  define U C Y where "U = (2 :: nat) ^ 1074" and "C = (2 :: nat) ^ (E + 1022)" and "Y = X * U"
  let ?Q = "roundQuotient Y C"
  have U: "(2 :: int) ^ 1074 = int U" by (simp only: U_def of_nat_power of_nat_numeral)
  have C: "0 < C" unfolding C_def by (rule zero_less_power) simp
  have "2 ^ 52 * C = 2 ^ E * U"
  proof -
    have "52 + (E + 1022) = E + 1074" by simp
    then show ?thesis unfolding C_def U_def power_add [symmetric] by (simp only:)
  qed
  then have lowC: "2 ^ 52 * C \<le> Y" unfolding Y_def using lo by simp
  have mag: "dmag d = ?Q * C" using mag by (simp only: U_def C_def Y_def)
  note near = roundQuotient_nearest [OF C, of Y]
  have main: "\<bar>int (dmag d) - int Y\<bar> \<le> \<bar>(if dsign d' = s then int (dmag d') else - int (dmag d')) - int Y\<bar> \<and>
      (\<bar>int (dmag d) - int Y\<bar> = \<bar>(if dsign d' = s then int (dmag d') else - int (dmag d')) - int Y\<bar> \<longrightarrow>
       (if dsign d' = s then int (dmag d') else - int (dmag d')) \<noteq> int (dmag d) \<longrightarrow> even ?Q)" for d'
  proof -
    consider (multiple) j where "dsign d' = s" "dmag d' = j * C" | (small) "dsign d' = s" "dmag d' < 2 ^ 52 * C"
      | (opposite) "dsign d' \<noteq> s"
      using dmag_multiple_or_small [of d' E, folded C_def] by blast
    then show ?thesis
    proof cases
      case multiple
      then show ?thesis using near [of j] unfolding mag by (auto simp del: of_nat_mult)
    next
      case small
      then have "\<bar>int (2 ^ 52 * C) - int Y\<bar> < \<bar>int (dmag d') - int Y\<bar>" using lowC by linarith
      then have "\<bar>int (?Q * C) - int Y\<bar> < \<bar>int (dmag d') - int Y\<bar>" using near(1) [of "2 ^ 52"] by linarith
      then show ?thesis using small(1) unfolding mag by (simp only: if_True) auto
    next
      case opposite
      show ?thesis
      proof (cases "dmag d' = 0")
        case True
        then show ?thesis using opposite near [of 0] unfolding mag by (auto simp del: of_nat_mult)
      next
        case False
        then have "\<bar>int (0 * C) - int Y\<bar> < \<bar>- int (dmag d') - int Y\<bar>" by simp
        then have "\<bar>int (?Q * C) - int Y\<bar> < \<bar>- int (dmag d') - int Y\<bar>" using near(1) [of 0] by linarith
        then show ?thesis using opposite unfolding mag by (simp only: if_False) auto
      qed
    qed
  qed
  have d1: "\<bar>dscaled d - n * 2 ^ 1074\<bar> = \<bar>int (dmag d) - int Y\<bar>"
    unfolding n U dscaled_def Y_def using sd by (cases s) simp_all
  have d2: "\<bar>dscaled d' - n * 2 ^ 1074\<bar> = \<bar>(if dsign d' = s then int (dmag d') else - int (dmag d')) - int Y\<bar>" for d'
  proof -
    have "\<bar>- int a - int b\<bar> = int a + int b" "\<bar>int a + int b\<bar> = int a + int b" for a b by linarith+
    then show ?thesis unfolding n U dscaled_def Y_def by (cases s; cases "dsign d'") (simp_all flip: of_nat_mult)
  qed
  have d3: "dscaled d' \<noteq> dscaled d \<longleftrightarrow> (if dsign d' = s then int (dmag d') else - int (dmag d')) \<noteq> int (dmag d)" for d'
    unfolding dscaled_def using sd by (cases s; cases "dsign d'") auto
  have d4: "even ?Q \<Longrightarrow> even (dfrac d)" using ev by (simp only: U_def C_def Y_def)
  show ?thesis
    unfolding nearestEven_def
  proof (intro conjI allI impI, rule fin)
    fix d'
    show "\<bar>dscaled d - n * 2 ^ 1074\<bar> \<le> \<bar>dscaled d' - n * 2 ^ 1074\<bar>" unfolding d1 d2 [of d'] using main [of d'] ..
  next
    fix d'
    assume "IsFinite d' \<and> dscaled d' \<noteq> dscaled d \<and> \<bar>dscaled d - n * 2 ^ 1074\<bar> = \<bar>dscaled d' - n * 2 ^ 1074\<bar>"
    then show "even (dfrac d)" using main [of d'] d4 unfolding d1 d2 [of d'] d3 [of d'] by blast
  qed
qed


lemma roundQuotient_scale: "0 < W \<Longrightarrow> roundQuotient (X * W) (c * W) = roundQuotient X c"
proof -
  assume W: "0 < W"
  have "c * W < 2 * (X mod c * W) \<longleftrightarrow> c < 2 * (X mod c)" "2 * (X mod c * W) = c * W \<longleftrightarrow> 2 * (X mod c) = c"
    using W by (simp_all add: mult.assoc [symmetric])
  then show ?thesis
    using W by (simp add: roundQuotient_def Let_def flip: mult_mod_left)
qed

lemma roundQuotient_half:
  assumes "0 < h"
  shows "roundQuotient X (2 * h)
    = X div h div 2 + (if odd (X div h) \<and> (odd (X div h div 2) \<or> X mod h \<noteq> 0) then 1 else 0)"
proof -
  let ?b = "X div h mod 2" and ?t = "X mod h"
  have "X div (2 * h) = X div h div 2" by (simp only: mult.commute [of 2] div_mult2_eq)
  moreover have "X mod (2 * h) = h * ?b + ?t" by (simp only: mult.commute [of 2] mod_mult2_eq)
  moreover have "?t < h" using assms by simp
  ultimately show ?thesis
    by (cases "odd (X div h)") (auto simp: roundQuotient_def Let_def odd_iff_mod_2_eq_one)
qed

text \<open>The code's decision to round up, and what adding the extra bit does to the mantissa.\<close>

lemma and_bit: "n < 64 \<Longrightarrow> (d AND push_bit n 1 \<noteq> 0) \<longleftrightarrow> odd (unat (d :: u64) div 2 ^ n)"
  by (simp add: push_bit_of_1 and_exp_eq_0_iff_not_bit bit_digit_iff)

lemma ExtraBit_push: "ExtraBit = push_bit 11 1" and LeastSignificantBit_push: "LeastSignificantBit = push_bit 12 1"
  by (simp_all add: ExtraBit_def LeastSignificantBit_def kConsts shl_def shr_def DigitBits_def)

lemma shouldRoundUp_eq:
  assumes "n \<le> digitLength x"
  shows "shouldRoundUp x sm n bits = returnM (odd (unat sm div 2 ^ 11) \<and>
    (odd (unat sm div 2 ^ 11 div 2) \<or> bits \<noteq> 0 \<or> dval (take n (digits x)) \<noteq> 0))"
proof -
  have "unat sm div 2 ^ 11 div 2 = unat sm div 2 ^ 12" by (simp only: div_mult2_eq [symmetric]) simp
  then show ?thesis
    unfolding shouldRoundUp_def using lowDigitSet_eq [OF assms] and_bit [of 11 sm] and_bit [of 12 sm]
    unfolding ExtraBit_push LeastSignificantBit_push by auto
qed

lemma mantissa_up:
  assumes "odd (unat sm div 2 ^ 11)"
  shows "sm + ExtraBit < sm \<longleftrightarrow> unat sm div 2 ^ 12 + 1 = 2 ^ 52"
    and "sm + ExtraBit < sm \<Longrightarrow> unat (sm + ExtraBit) div 2 ^ 12 = 0"
    and "\<not> sm + ExtraBit < sm \<Longrightarrow> unat (sm + ExtraBit) div 2 ^ 12 = unat sm div 2 ^ 12 + 1"
proof -
  have x: "unat ExtraBit = 2048" by (simp add: ExtraBit_push)
  have lt: "unat sm < 2 ^ 64" using unat_less_Base [of sm] by (simp only: Base_def)
  have ov: "sm + ExtraBit < sm \<longleftrightarrow> 2 ^ 64 \<le> unat sm + 2048" using digit_overflow [of sm ExtraBit] x by (simp only: Base_def)
  have "odd (unat sm div 2048)" using assms by simp
  then obtain g where g: "unat sm div 2048 = 2 * g + 1" by (rule oddE)
  have sm: "unat sm = 2048 * (2 * g + 1) + unat sm mod 2048" using g mult_div_mod_eq [of 2048 "unat sm"] by simp
  have div: "unat sm div 2 ^ 12 = g" using sm by (subst sm) (simp add: algebra_simps)
  have m: "unat sm mod 2048 < 2048" by simp
  show "sm + ExtraBit < sm \<longleftrightarrow> unat sm div 2 ^ 12 + 1 = 2 ^ 52" 
  proof -
    obtain r where r: "unat sm = 2048 + 4096 * g + r" "r < 2048" using sm m by simp
    have "2 ^ 64 \<le> unat sm + 2048 \<longleftrightarrow> 2 ^ 52 \<le> g + 1" "g + 1 \<le> 2 ^ 52"
      using r lt by (simp_all, linarith+)
    then show ?thesis unfolding ov div by linarith
  qed
  have sum: "unat (sm + ExtraBit) = (unat sm + 2048) mod 2 ^ 64" unfolding unat_plus_digit x Base_def ..
  show "unat (sm + ExtraBit) div 2 ^ 12 = 0" if "sm + ExtraBit < sm"
  proof -
    have "unat sm + 2048 - 2 ^ 64 < 2048" using lt by simp
    moreover have "(unat sm + 2048) mod 2 ^ 64 = unat sm + 2048 - 2 ^ 64"
      using that ov lt by (subst le_mod_geq) auto
    ultimately show ?thesis unfolding sum by simp
  qed
  show "unat (sm + ExtraBit) div 2 ^ 12 = unat sm div 2 ^ 12 + 1" if "\<not> sm + ExtraBit < sm"
  proof -
    have "(unat sm + 2048) mod 2 ^ 64 = unat sm + 2048" using that ov by (intro mod_less) simp
    also have "\<dots> = 4096 * (g + 1) + unat sm mod 2048" using sm by simp
    finally show ?thesis unfolding sum div by simp
  qed
qed


text \<open>
  Magnitudes from \<open>2^1024 - 2^970\<close> on, the middle between the largest double and \<open>2^1024\<close>, round to
  an infinity.
\<close>

definition doubleLimit :: nat where
  "doubleLimit = 2 ^ 1024 - 2 ^ 970"

definition roundedTo :: "bigint \<Rightarrow> double \<Rightarrow> bool" where
  "roundedTo x d \<longleftrightarrow>
     (if \<bar>bval x\<bar> < int doubleLimit then nearestEven (bval x) d \<and> (dsign d \<longleftrightarrow> bval x < 0)
      else d = (if bval x < 0 then NegativeInfinity else PositiveInfinity))"

lemma exact_nearestEven: "IsFinite d \<Longrightarrow> dscaled d = n * 2 ^ 1074 \<Longrightarrow> nearestEven n d"
  unfolding nearestEven_def by auto

lemma half_bounds:
  fixes n :: nat
  assumes "n < 2 ^ 54"
  shows "n div 2 + n mod 2 \<le> 2 ^ 53" and "2 ^ 53 \<le> n div 2 + n mod 2 \<Longrightarrow> 2 ^ 54 - 1 \<le> n"
proof -
  obtain a b where "n = 2 * a + b" "b < 2" by (metis div_mod_decomp mult.commute mod_less_divisor zero_less_numeral)
  moreover from this have "n div 2 = a" "n mod 2 = b" by simp_all
  ultimately show "n div 2 + n mod 2 \<le> 2 ^ 53" "2 ^ 53 \<le> n div 2 + n mod 2 \<Longrightarrow> 2 ^ 54 - 1 \<le> n"
    using assms by simp_all
qed

lemma roundQuotient_top:
  assumes "0 < h" and "X < 2 ^ 54 * h"
  shows "roundQuotient X (2 * h) \<le> 2 ^ 53" and "roundQuotient X (2 * h) = 2 ^ 53 \<longleftrightarrow> 2 ^ 54 * h - h \<le> X"
proof -
  let ?H = "X div h"
  have H: "?H < 2 ^ 54" using assms by (intro less_mult_imp_div_less) simp
  have "2 ^ 54 * h - h = (2 ^ 54 - 1) * h" by (simp add: diff_mult_distrib)
  then have ge: "2 ^ 54 * h - h \<le> X \<longleftrightarrow> 2 ^ 54 - 1 \<le> ?H" using less_eq_div_iff_mult_less_eq [OF assms(1)] by simp
  have "roundQuotient X (2 * h) \<le> ?H div 2 + ?H mod 2"
    unfolding roundQuotient_half [OF assms(1)] by (auto simp: odd_iff_mod_2_eq_one)
  then show "roundQuotient X (2 * h) \<le> 2 ^ 53" using half_bounds(1) [OF H] by linarith
  show "roundQuotient X (2 * h) = 2 ^ 53 \<longleftrightarrow> 2 ^ 54 * h - h \<le> X"
  proof
    assume "roundQuotient X (2 * h) = 2 ^ 53"
    then have "2 ^ 53 \<le> ?H div 2 + ?H mod 2" using \<open>roundQuotient X (2 * h) \<le> ?H div 2 + ?H mod 2\<close> by simp
    then show "2 ^ 54 * h - h \<le> X" unfolding ge using half_bounds(2) [OF H] by blast
  next
    assume "2 ^ 54 * h - h \<le> X"
    then have "?H = 2 * (2 ^ 53 - 1) + 1" using H unfolding ge by simp
    then show "roundQuotient X (2 * h) = 2 ^ 53" unfolding roundQuotient_half [OF assms(1)] by simp
  qed
qed

lemma doubleLimit_cases:
  assumes "2 ^ E \<le> X" and "X < 2 ^ (E + 1)" and "53 \<le> E"
  shows "E < 1023 \<Longrightarrow> X < doubleLimit" and "1023 < E \<Longrightarrow> doubleLimit \<le> X"
    and "E = 1023 \<Longrightarrow> doubleLimit \<le> X \<longleftrightarrow> roundQuotient (X * 2 ^ 1074) (2 ^ (E + 1022)) = 2 ^ 53"
    and "roundQuotient (X * 2 ^ 1074) (2 ^ (E + 1022)) \<le> 2 ^ 53"
proof -
  define T where "T = (2 :: nat) ^ 970"
  have p: "(2 :: nat) ^ 1024 = 2 ^ 54 * T" "(2 :: nat) ^ 1023 = 2 ^ 53 * T"
    unfolding T_def by (simp_all only: power_add [symmetric]) simp_all
  have L: "doubleLimit = 2 ^ 54 * T - T" unfolding doubleLimit_def p T_def ..
  have T: "0 < T" unfolding T_def by (rule zero_less_power) simp
  have "(2 :: nat) ^ 53 + 1 \<le> 2 ^ 54" by simp
  then have "(2 ^ 53 + 1) * T \<le> 2 ^ 54 * T" by (rule mult_right_mono) simp
  then have half: "2 ^ 53 * T \<le> doubleLimit" "doubleLimit \<le> 2 ^ 54 * T" unfolding L by simp_all
  show "X < doubleLimit" if "E < 1023"
  proof -
    have "(2 :: nat) ^ (E + 1) \<le> 2 ^ 1023" using that by (intro power_increasing) auto
    then show ?thesis using assms(2) half(1) p(2) by linarith
  qed
  show "doubleLimit \<le> X" if "1023 < E"
  proof -
    have "(2 :: nat) ^ 1024 \<le> 2 ^ E" using that by (intro power_increasing) auto
    then show ?thesis using assms(1) half(2) p(1) by linarith
  qed
  define h where "h = (2 :: nat) ^ (E - 53)"
  have h: "0 < h" "X < 2 ^ 54 * h"
    using assms(2,3) unfolding h_def power_add [symmetric] by simp_all
  have "E + 1022 = 1 + (E - 53) + 1074" using assms(3) by simp
  then have "(2 :: nat) ^ (E + 1022) = 2 * h * 2 ^ 1074" unfolding h_def by (simp only: power_add power_one_right)
  then have q: "roundQuotient (X * 2 ^ 1074) (2 ^ (E + 1022)) = roundQuotient X (2 * h)"
    by (simp only: roundQuotient_scale zero_less_power zero_less_numeral)
  show "roundQuotient (X * 2 ^ 1074) (2 ^ (E + 1022)) \<le> 2 ^ 53"
    unfolding q using h by (rule roundQuotient_top)
  show "doubleLimit \<le> X \<longleftrightarrow> roundQuotient (X * 2 ^ 1074) (2 ^ (E + 1022)) = 2 ^ 53" if "E = 1023"
  proof -
    have "h = T" unfolding h_def T_def that by simp
    then show ?thesis unfolding q L using roundQuotient_top(2) [OF h] by simp
  qed
qed


lemma roundedTo_infinity: "wf x \<Longrightarrow> doubleLimit \<le> dval (digits x) \<Longrightarrow> roundedTo x (infinityOf x)"
  by (simp add: roundedTo_def abs_bval infinityOf_def wf_neg_iff del: of_nat_less_iff flip: of_nat_less_iff)

lemma roundedTo_assembled:
  assumes wf: "wf x" and lo: "2 ^ E \<le> dval (digits x)" and e: "e \<le> 1023" and lim: "dval (digits x) < doubleLimit"
    and mag: "(2 ^ 52 + unat sm div 2 ^ 12) * 2 ^ (e + 1022)
      = roundQuotient (dval (digits x) * 2 ^ 1074) (2 ^ (E + 1022)) * 2 ^ (E + 1022)"
    and ev: "even (roundQuotient (dval (digits x) * 2 ^ 1074) (2 ^ (E + 1022))) \<Longrightarrow> even (unat sm div 2 ^ 12)"
  shows "roundedTo x (assembleDouble x e sm)"
proof -
  let ?d = "assembleDouble x e sm"
  note f = assembleDouble_fields [OF e, of x sm]
  have "nearestEven (bval x) ?d"
  proof (rule rounded_nearestEven [OF lo])
    show "bval x = withSign (isNegative x) (dval (digits x))" by (rule bval_def)
    show "dmag ?d = roundQuotient (dval (digits x) * 2 ^ 1074) (2 ^ (E + 1022)) * 2 ^ (E + 1022)"
      unfolding dmag_normal [OF f(2)] f(3) by (rule mag)
  qed (use f e ev in \<open>simp_all add: IsFinite_iff\<close>)
  then show ?thesis using lim f(1) wf_neg_iff [OF wf] by (simp add: roundedTo_def abs_bval)
qed

lemma runs_numberValue_slow:
  assumes wf: "wf x" and k: "digitLength x = Suc k" and m: "m \<le> 63"
    and clz: "DigitLeadingZeroes (digits x ! k) = 63 - m"
    and top: "2 ^ m \<le> unat (digits x ! k)" "unat (digits x ! k) < 2 ^ (m + 1)"
    and X: "dval (digits x) = dval (take k (digits x)) + Base ^ k * unat (digits x ! k)"
    and lo: "2 ^ (64 * k + m) \<le> dval (digits x)" and hi: "dval (digits x) < 2 ^ (64 * k + m + 1)"
    and E: "E = 64 * k + m" "53 \<le> E" "E \<le> 1023"
  shows "runs (bindM (shiftedMantissaOf x (63 - m)) (\<lambda>(sm, n, bits).
      bindM (shouldRoundUp x sm n bits) (\<lambda>up.
      if up
      then
        let before = sm;
            sm = sm + ExtraBit;
            exponent = (if sm < before then E + 1 else E) in
        if sm < before \<and> exponent > 1023 then returnM (infinityOf x)
        else returnM (assembleDouble x exponent sm)
      else returnM (assembleDouble x E sm)))) v F (roundedTo x)"
proof (rule runs_bindI, rule runs_shiftedMantissaOf [OF k m], goal_cases)
  case (5 sm n bits)
  let ?X = "dval (digits x)"
  let ?Q = "roundQuotient (?X * 2 ^ 1074) (2 ^ (E + 1022))"
  let ?h = "(2 :: nat) ^ (E - 53)" and ?S = "unat sm div 2 ^ 12"
  let ?up = "odd (unat sm div 2 ^ 11) \<and> (odd (unat sm div 2 ^ 11 div 2) \<or> bits \<noteq> 0 \<or> dval (take n (digits x)) \<noteq> 0)"
  have S: "unat sm div 2 ^ 11 div 2 = ?S" by (simp only: div_mult2_eq [symmetric]) simp
  have H: "?X div ?h = 2 ^ 53 + unat sm div 2 ^ 11" using 5(2) E(1) by simp
  have "E + 1022 = 1 + (E - 53) + 1074" using E(2) by simp
  then have "(2 :: nat) ^ (E + 1022) = 2 * ?h * 2 ^ 1074" by (simp only: power_add power_one_right)
  then have "?Q = roundQuotient ?X (2 * ?h)" by (simp only: roundQuotient_scale zero_less_power zero_less_numeral)
  also have "\<dots> = 2 ^ 52 + ?S + (if ?up then 1 else 0)"
  proof -
    have "(2 ^ 53 + unat sm div 2 ^ 11) div 2 = 2 ^ 52 + ?S" unfolding S [symmetric] by simp
    moreover have "odd (2 ^ 53 + unat sm div 2 ^ 11) = odd (unat sm div 2 ^ 11)" by simp
    moreover have "odd (2 ^ 52 + ?S) = odd ?S" by simp
    ultimately show ?thesis
      unfolding roundQuotient_half [of ?h, OF zero_less_power [OF zero_less_numeral]] H
      using 5(3) E(1) S by (simp only: add.assoc)
  qed
  finally have Q: "?Q = 2 ^ 52 + ?S + (if ?up then 1 else 0)" .
  have word: "unat w div 2 ^ 12 < 2 ^ 52" for w :: u64
    using unat_less_Base [of w] unfolding Base_def by (intro less_mult_imp_div_less) simp
  note lim = doubleLimit_cases [OF lo [folded E(1)] hi [folded E(1)] E(2)]
  have same: "roundedTo x (assembleDouble x E w)" if w: "?Q = 2 ^ 52 + unat w div 2 ^ 12" for w
  proof (rule roundedTo_assembled [OF wf lo [folded E(1)] E(3)])
    have "?Q \<noteq> 2 ^ 53" using w word [of w] by simp
    then show "?X < doubleLimit" using lim(1,3) E(3) by (cases "E = 1023") auto
    show "even ?Q \<Longrightarrow> even (unat w div 2 ^ 12)" unfolding w by simp
  qed (simp only: w)
  have over: "roundedTo x (if E + 1 > 1023 then infinityOf x else assembleDouble x (E + 1) w)"
    if Q53: "?Q = 2 ^ 53" and w: "unat w div 2 ^ 12 = 0" for w
  proof (cases "E = 1023")
    case True
    then show ?thesis using roundedTo_infinity [OF wf] lim(3) Q53 by simp
  next
    case False
    have "roundedTo x (assembleDouble x (E + 1) w)"
    proof (rule roundedTo_assembled [OF wf lo [folded E(1)]])
      show "(2 ^ 52 + unat w div 2 ^ 12) * 2 ^ (E + 1 + 1022) = ?Q * 2 ^ (E + 1022)"
        unfolding Q53 w by (simp add: power_add)
    qed (use False E(3) lim(1) w in auto)
    then show ?thesis using False E(3) by simp
  qed
  have eq: "shouldRoundUp x sm n bits = returnM ?up" using 5(1) k by (intro shouldRoundUp_eq) simp
  show ?case
    unfolding prod.case eq bindM_returnM
  proof (rule runs_if, goal_cases)
    case 1
    note u = mantissa_up [OF conjunct1 [OF 1]]
    show ?case
    proof (cases "sm + ExtraBit < sm")
      case True
      have "?Q = 2 ^ 53" using Q 1 u(1) True by simp
      from over [OF this u(2) [OF True]] show ?thesis using True by (simp add: Let_def split: if_splits)
    next
      case False
      have "roundedTo x (assembleDouble x E (sm + ExtraBit))" using Q 1 u(3) [OF False] by (intro same) simp
      then show ?thesis using False by (simp add: Let_def)
    qed
  next
    case 2
    then have "roundedTo x (assembleDouble x E sm)" using Q by (intro same) simp
    then show ?case by simp
  qed
qed (use top X E in auto)


lemma roundedTo_exact:
  assumes wf: "wf x" and lim: "dval (digits x) < doubleLimit"
    and d: "IsFinite d" "dsign d = isNegative x" "dmag d = dval (digits x) * 2 ^ 1074"
  shows "roundedTo x d"
proof -
  define U where "U = (2 :: nat) ^ 1074"
  have U: "(2 :: int) ^ 1074 = int U" by (simp only: U_def of_nat_power of_nat_numeral)
  have "dscaled d = bval x * 2 ^ 1074"
    unfolding dscaled_def bval_def d(2) d(3) U U_def [symmetric] by simp
  with d(1) have "nearestEven (bval x) d" by (rule exact_nearestEven)
  then show ?thesis using lim d(2) wf_neg_iff [OF wf] by (simp add: roundedTo_def abs_bval)
qed

lemma small_doubleLimit: "n \<le> 2 ^ 53 \<Longrightarrow> n < doubleLimit"
proof -
  assume "n \<le> 2 ^ 53"
  also have "(2 :: nat) ^ 53 < 2 ^ 1024 - 2 ^ 970" by simp
  finally show ?thesis by (simp only: doubleLimit_def)
qed

lemma runs_numberValue:
  assumes wf: "wf x" and Q: "\<And>d. roundedTo x d \<Longrightarrow> Q d"
  shows "runs (numberValue x) v F Q"
proof -
  have "runs (numberValue x) v F (roundedTo x)"
  proof (cases "isZero x")
    case True
    have "dexp 0 = 0" "dfrac 0 = 0" "\<not> dsign 0" by (simp_all add: dexp_nat dfrac_nat dsign_nat)
    then have "roundedTo x 0"
      using True wf small_doubleLimit [of 0]
      by (intro roundedTo_exact) (auto simp: wf_def isZero_iff IsFinite_iff dmag_def)
    then show ?thesis using True by (simp add: numberValue_def)
  next
    case False
    let ?X = "dval (digits x)"
    obtain k m where k: "digitLength x = Suc k" and m: "m \<le> 63" and clz: "DigitLeadingZeroes (digits x ! k) = 63 - m"
      and top: "2 ^ m \<le> unat (digits x ! k)" "unat (digits x ! k) < 2 ^ (m + 1)"
      and X: "?X = dval (take k (digits x)) + Base ^ k * unat (digits x ! k)"
      and lo: "2 ^ (64 * k + m) \<le> ?X" and hi: "?X < 2 ^ (64 * k + m + 1)"
      using topDigit [OF wf False] by metis
    define E where "E = 64 * k + m"
    have exponent: "Suc k * 64 - (63 - m) - 1 = E" using m by (simp add: E_def)
    have le53: "w \<le> shl 1 53 \<longleftrightarrow> unat w \<le> 2 ^ 53" for w :: u64
      by (simp add: word_le_nat_alt unat_shl DigitBits_def Base_def)
    have slow: "runs (bindM (digit x (digitLength x - 1)) (\<lambda>msd.
          let msdLeadingZeroes = DigitLeadingZeroes msd;
              exponent = digitLength x * DigitBits - msdLeadingZeroes - 1 in
          if exponent > kExponentBias then returnM (infinityOf x)
          else
            bindM (shiftedMantissaOf x msdLeadingZeroes) (\<lambda>(shiftedMantissa, digitContainingExtraBit, bitsBeneath).
            bindM (shouldRoundUp x shiftedMantissa digitContainingExtraBit bitsBeneath) (\<lambda>up.
            if up
            then
              let before = shiftedMantissa;
                  shiftedMantissa = shiftedMantissa + ExtraBit;
                  exponent = (if shiftedMantissa < before then exponent + 1 else exponent) in
              if shiftedMantissa < before \<and> exponent > kExponentBias then returnM (infinityOf x)
              else returnM (assembleDouble x exponent shiftedMantissa)
            else returnM (assembleDouble x exponent shiftedMantissa))))) v F (roundedTo x)"
      if "2 ^ 53 < ?X"
    proof -
      have "53 \<le> E"
      proof (rule ccontr)
        assume "\<not> 53 \<le> E"
        then have "(2 :: nat) ^ (E + 1) \<le> 2 ^ 53" by (intro power_increasing) auto
        then show False using hi that by (simp only: E_def [symmetric])
      qed
      then have "runs (if E > 1023 then returnM (infinityOf x)
          else bindM (shiftedMantissaOf x (63 - m)) (\<lambda>(sm, n, bits).
            bindM (shouldRoundUp x sm n bits) (\<lambda>up.
            if up
            then
              let before = sm;
                  sm = sm + ExtraBit;
                  exponent = (if sm < before then E + 1 else E) in
              if sm < before \<and> exponent > 1023 then returnM (infinityOf x)
              else returnM (assembleDouble x exponent sm)
            else returnM (assembleDouble x E sm)))) v F (roundedTo x)"
        using runs_numberValue_slow [OF wf k m clz top X lo hi E_def]
          roundedTo_infinity [OF wf] doubleLimit_cases(2) [OF lo [folded E_def] hi [folded E_def]]
        by (cases "E > 1023") simp_all
      then show ?thesis
        unfolding k diff_Suc_1 digit_in_range [of k x, unfolded k, OF lessI] bindM_returnM Let_def clz DigitBits_def kConsts exponent .
    qed
    have fast: "runs (if magnitude \<le> shl 1 (kSignificandWidth + 1)
        then returnM (if isNegative x then negateDouble (doubleFromUint64 magnitude) else doubleFromUint64 magnitude)
        else returnM 0) v F (roundedTo x)" if "k = 0" "magnitude = digits x ! 0" "?X \<le> 2 ^ 53" for magnitude
    proof -
      have "magnitude \<noteq> 0" and mag: "unat magnitude = ?X" using that X top by auto
      note f = doubleFromUint64_fields [OF this(1)] negateDouble_fields
      have "roundedTo x (if isNegative x then negateDouble (doubleFromUint64 magnitude) else doubleFromUint64 magnitude)"
        using f that(3) unfolding mag by (intro roundedTo_exact [OF wf small_doubleLimit]) auto
      then show ?thesis using that(3) by (simp add: kConsts le53 mag)
    qed
    show ?thesis
    proof (cases "k = 0 \<and> ?X \<le> 2 ^ 53")
      case True
      then have "unat (digits x ! 0) = ?X" using X by simp
      then show ?thesis
        using True False k fast [OF conjunct1 [OF True] refl]
        by (simp add: numberValue_def absFitsInUint64_def uint64FromAbsNonZero_def DigitBits_def kConsts le53)
    next
      case big: False
      have gt: "2 ^ 53 < ?X"
      proof (cases "k = 0")
        case False
        then have "(2 :: nat) ^ 54 \<le> 2 ^ (64 * k + m)" by (intro power_increasing) auto
        then show ?thesis using lo by simp
      qed (use big in simp)
      have "(if absFitsInUint64 x
          then bindM (uint64FromAbsNonZero x) (\<lambda>magnitude. returnM (magnitude \<le> shl 1 (kSignificandWidth + 1), magnitude))
          else returnM (False, 0)) = returnM (False, if k = 0 then digits x ! 0 else 0)"
        using big False k X
        by (auto simp: absFitsInUint64_def uint64FromAbsNonZero_def DigitBits_def kConsts le53)
      then show ?thesis
        using False k slow [OF gt] unfolding numberValue_def by (simp only: if_False mozAssert_holds zero_less_Suc bindM_returnM prod.case Let_def)
    qed
  qed
  then show ?thesis using Q by (rule runs_weakenQ)
qed


section \<open>Round trip\<close>

lemma dmag_exp_le:
  assumes "dmag a = dmag b"
  shows "dexp b \<le> dexp a"
proof (rule ccontr)
  assume "\<not> dexp b \<le> dexp a"
  then have "dexp a < dexp b" by simp
  then have "dmag a < 2 ^ 52 * 2 ^ (dexp b - 1)" and "dexp b \<noteq> 0" by (rule dmag_exp_less) (use \<open>dexp a < dexp b\<close> in simp)
  moreover have "2 ^ 52 * 2 ^ (dexp b - 1) \<le> (2 ^ 52 + dfrac b) * 2 ^ (dexp b - 1)" by (intro mult_right_mono) simp_all
  ultimately show False using assms by (simp only: dmag_def [of b] if_False)
qed

text \<open>The number determines the double, but for the sign of zero.\<close>

lemma dscaled_inj:
  assumes "dscaled a = dscaled b" and "\<not> deq0 a"
  shows "a = b"
proof -
  have mag: "dmag a = dmag b" using assms(1) by (auto simp: dscaled_def split: if_splits)
  then have sd: "dsign a = dsign b" using assms by (auto simp: dscaled_def deq0_iff split: if_splits)
  have e: "dexp a = dexp b" using dmag_exp_le [OF mag] dmag_exp_le [OF mag [symmetric]] by simp
  then have "dfrac a = dfrac b" using mag by (simp add: dmag_def split: if_splits)
  then have "unat a = unat b" using double_fields [of a] double_fields [of b] sd e by simp
  then show ?thesis by (simp add: word_unat_eq_iff)
qed

lemma finite_below_limit:
  assumes "IsFinite d" and "dmag d = N * 2 ^ 1074"
  shows "N < doubleLimit"
proof -
  define T where "T = (2 :: nat) ^ 970"
  have T: "0 < T" unfolding T_def by (rule zero_less_power) simp
  have "(2 :: nat) ^ 1024 = 2 ^ 54 * T" unfolding T_def by (simp only: power_add [symmetric]) simp
  then have L: "doubleLimit = 2 ^ 54 * T - T" unfolding doubleLimit_def T_def by (simp only:)
  have "dexp d \<le> 2046" using assms(1) dexp_less [of d] by (simp add: IsFinite_iff)
  then have "(2 :: nat) ^ (dexp d - 1) \<le> 2 ^ 2045" by (intro power_increasing) auto
  also have "(2 :: nat) ^ 2045 = 2 * T * 2 ^ 1074"
    unfolding T_def by (simp only: power_add [symmetric] power_Suc [symmetric]) simp
  finally have p: "(2 :: nat) ^ (dexp d - 1) \<le> 2 * T * 2 ^ 1074" .
  have "2 ^ 52 + dfrac d \<le> 2 ^ 53 - 1" using dfrac_less [of d] by simp
  then have "dmag d \<le> (2 ^ 53 - 1) * (2 * T * 2 ^ 1074)"
  proof (cases "dexp d = 0")
    case True
    have "dfrac d * 1 \<le> (2 ^ 53 - 1) * (2 * T * 2 ^ 1074)"
      using dfrac_less [of d] T by (intro mult_le_mono) (simp_all add: Suc_le_eq)
    then show ?thesis unfolding dmag_def if_P [OF True] mult_1_right .
  next
    case False
    then show ?thesis using p \<open>2 ^ 52 + dfrac d \<le> 2 ^ 53 - 1\<close> by (simp only: dmag_def if_False) (intro mult_le_mono)
  qed
  then have "N * 2 ^ 1074 \<le> (2 ^ 53 - 1) * (2 * T) * 2 ^ 1074" unfolding assms(2) by (simp only: mult.assoc)
  then have "N \<le> (2 ^ 53 - 1) * (2 * T)" by (simp only: mult_le_cancel2) simp
  then show ?thesis unfolding L using T by simp
qed

section \<open>Properties\<close>

text \<open>
  \<open>NumberToBigInt\<close> converts exactly the integer-valued doubles, each to the canonical BigInt of
  its value, reports the others (fractions, infinities, NaN) with its own error, and otherwise stops
  only when memory runs out.  No assertion fails.
\<close>

theorem NumberToBigInt_correct:
  "runs (NumberToBigInt d) v
    (\<lambda>e. oom v e \<and> IsInteger d \<or> e = NonIntegerNumberToBigInt \<and> \<not> IsInteger d)
    (\<lambda>r. IsInteger d \<and> wf r \<and> bval r * 2 ^ 1074 = dscaled d)"
  unfolding NumberToBigInt_def by (auto intro: runs_createFromDouble)

text \<open>
  C26. \<open>BigInt::numberValue\<close> always returns the double nearest to the BigInt, on a tie the one with an
  even significand, with the sign of the BigInt, and the infinity of that sign for magnitudes of at
  least \<open>2^1024 - 2^970\<close>.  No assertion fails on any path.
\<close>

theorem numberValue_correct:
  assumes "wf x"
  shows "runs (numberValue x) v (\<lambda>e. False) (\<lambda>d.
    if \<bar>bval x\<bar> < int doubleLimit then nearestEven (bval x) d \<and> (dsign d \<longleftrightarrow> bval x < 0)
    else d = (if bval x < 0 then NegativeInfinity else PositiveInfinity))"
  using assms by (intro runs_numberValue) (auto simp: roundedTo_def)

theorem numberValue_correct_witness:
  "runs (numberValue \<lparr>digits = [1, 1], isNegative = True\<rparr>) plenty (\<lambda>e. False)
    (\<lambda>d. nearestEven (- (2 ^ 64) - 1) d \<and> dsign d)"
proof -
  have x: "wf \<lparr>digits = [1, 1], isNegative = True\<rparr>" "bval \<lparr>digits = [1, 1], isNegative = True\<rparr> = - (2 ^ 64) - 1"
    by (simp_all add: wf_eval bval_eval)
  have "\<bar>- (2 ^ 64) - 1 :: int\<bar> < int doubleLimit"
  proof -
    have "(2 :: int) ^ 64 + 1 < int (2 ^ 1024 - 2 ^ 970)" by simp
    then show ?thesis unfolding doubleLimit_def by simp
  qed
  then show ?thesis using numberValue_correct [OF x(1), of plenty] unfolding x(2) by simp
qed

text \<open>
  C27. \<open>BigInt::compare(BigInt*, double)\<close> returns the sign of the exact difference, with infinities
  beyond every BigInt; \<open>equal\<close> and the two \<open>lessThan\<close> of a BigInt and a double agree with it, and a NaN
  is never equal and leaves the order undefined.
\<close>

theorem compareDouble_correct:
  assumes "wf x"
  shows "(IsNaN y \<or> runs (compareDouble x y) v (\<lambda>e. False) (\<lambda>c. c = doubleOrder x y)) \<and>
    runs (equalDouble x y) v (\<lambda>e. False) (\<lambda>b. b \<longleftrightarrow> \<not> IsNaN y \<and> doubleOrder x y = 0) \<and>
    runs (lessThanBigIntDouble x y) v (\<lambda>e. False) (\<lambda>b. b = (if IsNaN y then None else Some (doubleOrder x y < 0))) \<and>
    runs (lessThanDoubleBigInt y x) v (\<lambda>e. False) (\<lambda>b. b = (if IsNaN y then None else Some (doubleOrder x y > 0)))"
  unfolding equalDouble_def lessThanBigIntDouble_def lessThanDoubleBigInt_def
  using assms by (cases "IsNaN y") (auto intro!: runs_intros runs_compareDouble)

theorem compareDouble_correct_witness:
  "runs (compareDouble \<lparr>digits = [7], isNegative = True\<rparr> PositiveInfinity) plenty (\<lambda>e. False) (\<lambda>c. c = - 1)"
proof -
  have inf: "unat PositiveInfinity = 2047 * 2 ^ 52" using unat_kExponentBits by (simp add: PositiveInfinity_def)
  then have d: "dexp PositiveInfinity = 2047" "dfrac PositiveInfinity = 0" "\<not> dsign PositiveInfinity"
    by (simp_all add: dexp_nat dfrac_nat dsign_nat)
  have "doubleOrder \<lparr>digits = [7], isNegative = True\<rparr> PositiveInfinity = - 1" "\<not> IsNaN PositiveInfinity"
    using d by (simp_all add: doubleOrder_def IsFinite_iff IsNaN_iff)
  then show ?thesis
    using compareDouble_correct [of "\<lparr>digits = [7], isNegative = True\<rparr>" PositiveInfinity plenty]
    by (simp add: wf_eval)
qed

text \<open>
  Converting an integer-valued double to a BigInt and back gives the same double, except that a
  negative zero comes back as zero.
\<close>

theorem double_roundtrip:
  assumes "IsInteger d"
  shows "runs (bindM (createFromDouble d) numberValue) v (oom v)
    (\<lambda>d'. if deq0 d then dscaled d' = 0 else d' = d)"
proof (rule runs_bindI, rule runs_createFromDouble [OF assms])
  fix r
  assume r: "wf r" "bval r * 2 ^ 1074 = dscaled d"
  have fin: "IsFinite d" using assms by (simp add: IsInteger_def)
  have "dmag d = dval (digits r) * 2 ^ 1074"
  proof -
    have "\<bar>dscaled d\<bar> = int (dmag d)" by (simp add: dscaled_def)
    then have "int (dmag d) = \<bar>bval r\<bar> * 2 ^ 1074" unfolding r(2) [symmetric] abs_mult by simp
    also have "\<dots> = int (dval (digits r) * 2 ^ 1074)" unfolding abs_bval of_nat_mult of_nat_power of_nat_numeral ..
    finally show ?thesis by (simp only: of_nat_eq_iff)
  qed
  then have "\<bar>bval r\<bar> < int doubleLimit" using finite_below_limit [OF fin] by (simp add: abs_bval)
  then have "dscaled d' = dscaled d" if "roundedTo r d'" for d'
  proof -
    have "nearestEven (bval r) d'" using that \<open>\<bar>bval r\<bar> < int doubleLimit\<close> by (simp add: roundedTo_def)
    then have "\<bar>dscaled d' - dscaled d\<bar> \<le> \<bar>dscaled d - dscaled d\<bar>" using fin unfolding nearestEven_def r(2) by blast
    then show ?thesis by simp
  qed
  then show "runs (numberValue r) v (oom v) (\<lambda>d'. if deq0 d then dscaled d' = 0 else d' = d)"
  proof (intro runs_numberValue [OF r(1)])
    fix d'
    assume "roundedTo r d'"
    then have "dscaled d' = dscaled d" by (rule \<open>\<And>d'. roundedTo r d' \<Longrightarrow> dscaled d' = dscaled d\<close>)
    moreover have "deq0 d \<Longrightarrow> dscaled d = 0" by (simp add: dscaled_def deq0_iff)
    ultimately show "if deq0 d then dscaled d' = 0 else d' = d" using dscaled_inj [of d d'] by auto
  qed
qed

theorem double_roundtrip_witness:
  "runs (bindM (createFromDouble 0x43F0000000000000) numberValue) plenty (\<lambda>e. False) (\<lambda>d'. d' = 0x43F0000000000000)"
proof -
  let ?d = "0x43F0000000000000 :: double"
  have f: "dexp ?d = 1087" "dfrac ?d = 0" "\<not> dsign ?d" by (simp_all add: dexp_nat dfrac_nat dsign_nat)
  then have mag: "dmag ?d = 2 ^ 52 * 2 ^ 1086" by (simp only: dmag_def) simp
  have "(2 :: nat) ^ 1074 dvd 2 ^ 52 * 2 ^ 1086" by (intro dvd_mult le_imp_power_dvd) simp
  then have "int (2 ^ 1074) dvd int (dmag ?d)" unfolding mag by (simp only: int_dvd_int_iff)
  then have "IsInteger ?d" unfolding IsInteger_def dscaled_def of_nat_power of_nat_numeral using f by (simp add: IsFinite_iff)
  moreover have "\<not> deq0 ?d" unfolding deq0_iff mag by simp
  ultimately show ?thesis using double_roundtrip [of ?d plenty] by (simp add: oom_plenty_fun)
qed

end
