(* ===== verification/BigInt_ToString.thy ===== *)
theory BigInt_ToString
  imports BigInt_TwosComplement
begin

text \<open>
  The text of a BigInt: \<open>calculateMaximumCharactersRequired\<close>, \<open>toStringBasePowerOfTwo\<close>,
  \<open>toStringSingleDigitBaseTen\<close>, \<open>toStringGeneric\<close> and \<open>toString\<close> of
  \<open>js/src/vm/BigIntType.cpp\<close>, with \<open>Int32ToString\<close> (\<open>js/src/jsnum.cpp\<close>) and
  \<open>BackfillIndexInCharBuffer\<close> (\<open>js/src/vm/JSAtom-inl.h\<close>).  A buffer is a list of characters with
  a write position that moves down; a write at position 0 stops at the assertion.  The properties
  compare every path with \<open>toText\<close>, the numeral as ECMAScript specifies it.
\<close>

section \<open>Tables and buffers\<close>

type_synonym jschars = "u16 list"

definition maxBitsPerCharTable :: "nat list" where
  "maxBitsPerCharTable =
     [0, 0, 32, 51, 64, 75, 83, 90, 96,
      102, 107, 111, 115, 119, 122, 126, 128,
      131, 134, 136, 139, 141, 143, 145, 147,
      149, 151, 153, 154, 156, 158, 159, 160,
      162, 163, 165, 166]"

definition bitsPerCharTableShift :: nat where
  "bitsPerCharTableShift = 5"

definition bitsPerCharTableMultiplier :: nat where
  "bitsPerCharTableMultiplier = 2 ^ bitsPerCharTableShift"

definition radixDigits :: jschars where
  "radixDigits = map of_char ''0123456789abcdefghijklmnopqrstuvwxyz''"

definition minusChar :: u16 where
  "minusChar = of_char (CHR ''-'')"

text \<open>\<open>JSString::MAX_LENGTH\<close>, that is \<open>js::MaxStringLength\<close>.\<close>

definition MAX_LENGTH :: nat where
  "MAX_LENGTH = 2 ^ 30 - 2"

text \<open>\<open>buf[--pos] = c\<close> after \<open>MOZ_ASSERT(pos)\<close>.\<close>

definition writeBack :: "u16 \<Rightarrow> jschars \<times> nat \<Rightarrow> (jschars \<times> nat) eng" where
  "writeBack c = (\<lambda>(buf, pos). mozAssert (pos > 0) (returnM (buf[pos - 1 := c], pos - 1)))"

text \<open>The characters of a fresh buffer are what the memory held.\<close>

definition charBuffer :: "(nat \<Rightarrow> u64) \<Rightarrow> nat \<Rightarrow> jschars" where
  "charBuffer mem n = map (\<lambda>i. ucast (mem i)) [0..<n]"

definition NewStringCopyN :: "jschars \<Rightarrow> jschars eng" where
  "NewStringCopyN s = bindM allocM (\<lambda>mem. returnM s)"

text \<open>\<open>mozilla::CountTrailingZeroes32\<close>, a compiler builtin: scan from the lowest bit.\<close>

primrec ctzFrom :: "nat \<Rightarrow> u32 \<Rightarrow> nat" where
  "ctzFrom 0 x = 32"
| "ctzFrom (Suc n) x = (if bit x (31 - n) then 31 - n else ctzFrom n x)"

definition CountTrailingZeroes32 :: "u32 \<Rightarrow> nat" where
  "CountTrailingZeroes32 x = ctzFrom 32 x"

definition calculateMaximumCharactersRequired :: "bigint \<Rightarrow> nat \<Rightarrow> nat eng" where
  "calculateMaximumCharactersRequired x radix =
     mozAssert (\<not> isZero x) (
     mozAssert (radix \<ge> 2 \<and> radix \<le> 36) (
     let len = digitLength x in
     bindM (digit x (len - 1)) (\<lambda>lastDigit.
     let bitLength = len * DigitBits - DigitLeadingZeroes lastDigit;
         maxBitsPerChar = maxBitsPerCharTable ! radix
     in bindM (CeilDiv (bitsPerCharTableMultiplier * bitLength) (maxBitsPerChar - 1)) (\<lambda>n.
     returnM (n + (if isNegative x then 1 else 0))))))"

section \<open>Powers of two\<close>

text \<open>One digit below the top one: the character that straddles two digits, then whole characters.\<close>

definition powerOfTwoChars ::
  "nat \<Rightarrow> digit \<Rightarrow> (jschars \<times> nat) \<times> digit \<times> nat \<Rightarrow> ((jschars \<times> nat) \<times> digit \<times> nat) eng" where
  "powerOfTwoChars bitsPerChar charMask =
     whileE (\<lambda>(out, d, availableBits). availableBits \<ge> bitsPerChar)
       (\<lambda>(out, d, availableBits).
         bindM (writeBack (radixDigits ! unat (d AND charMask)) out) (\<lambda>out.
         returnM (out, shr d bitsPerChar, availableBits - bitsPerChar)))"

definition powerOfTwoDigit ::
  "bigint \<Rightarrow> nat \<Rightarrow> digit \<Rightarrow> nat \<Rightarrow> (jschars \<times> nat) \<times> digit \<times> nat \<Rightarrow> ((jschars \<times> nat) \<times> digit \<times> nat) eng" where
  "powerOfTwoDigit x bitsPerChar charMask i =
     (\<lambda>(out, d, availableBits).
       bindM (digit x i) (\<lambda>newDigit.
       let current = (d OR shl newDigit availableBits) AND charMask in
       bindM (writeBack (radixDigits ! unat current) out) (\<lambda>out.
       let consumedBits = bitsPerChar - availableBits in
       powerOfTwoChars bitsPerChar charMask (out, shr newDigit consumedBits, DigitBits - consumedBits))))"

text \<open>The characters that are left of the most significant digit.\<close>

definition powerOfTwoRest :: "nat \<Rightarrow> digit \<Rightarrow> (jschars \<times> nat) \<times> digit \<Rightarrow> ((jschars \<times> nat) \<times> digit) eng" where
  "powerOfTwoRest bitsPerChar charMask =
     whileE (\<lambda>(out, d). d \<noteq> 0)
       (\<lambda>(out, d).
         bindM (writeBack (radixDigits ! unat (d AND charMask)) out) (\<lambda>out.
         returnM (out, shr d bitsPerChar)))"

definition toStringBasePowerOfTwo :: "bigint \<Rightarrow> nat \<Rightarrow> jschars eng" where
  "toStringBasePowerOfTwo x radix =
     mozAssert (IsPowerOfTwo (of_nat radix)) (
     mozAssert (radix \<ge> 2 \<and> radix \<le> 32) (
     mozAssert (\<not> isZero x) (
     let len = digitLength x;
         sign = isNegative x;
         bitsPerChar = CountTrailingZeroes32 (of_nat radix);
         charMask = of_nat (radix - 1)
     in bindM (digit x (len - 1)) (\<lambda>msd.
     let bitLength = len * DigitBits - DigitLeadingZeroes msd in
     bindM (CeilDiv bitLength bitsPerChar) (\<lambda>chars.
     let charsRequired = chars + (if sign then 1 else 0) in
     if charsRequired > MAX_LENGTH then throwM OutOfMemory
     else
       bindM allocM (\<lambda>mem.
       bindM (forUp 0 (len - 1) (powerOfTwoDigit x bitsPerChar charMask)
                ((charBuffer mem charsRequired, charsRequired), 0, 0)) (\<lambda>(out, d, availableBits).
       let current = (d OR shl msd availableBits) AND charMask in
       bindM (writeBack (radixDigits ! unat current) out) (\<lambda>out.
       bindM (powerOfTwoRest bitsPerChar charMask (out, shr msd (bitsPerChar - availableBits))) (\<lambda>(out, d).
       bindM (if sign then writeBack minusChar out else returnM out) (\<lambda>(buf, pos).
       mozAssert (pos = 0) (
       NewStringCopyN buf)))))))))))"

section \<open>Decimal digits of a machine integer\<close>

text \<open>
  \<open>BackfillIndexInCharBuffer(index, end)\<close>: decimal digits written downwards from \<open>end\<close>; a
  \<open>RangedPtr\<close> stops at an assertion when it leaves the buffer.
\<close>

definition backfillStep :: "(jschars \<times> nat) \<times> u32 \<Rightarrow> ((jschars \<times> nat) \<times> u32) eng" where
  "backfillStep = (\<lambda>(out, index).
     bindM (writeBack (of_char (CHR ''0'') + ucast (index mod 10)) out) (\<lambda>out.
     returnM (out, index div 10)))"

definition BackfillIndexInCharBuffer :: "u32 \<Rightarrow> jschars \<times> nat \<Rightarrow> (jschars \<times> nat) eng" where
  "BackfillIndexInCharBuffer index out =
     mozAssert (snd out \<ge> 10) (
     bindM (bindM (backfillStep (out, index)) (whileE (\<lambda>(out, index). index > 0) backfillStep)) (\<lambda>(out, index).
     returnM out))"

text \<open>
  The static strings and the number cache return a string that an earlier call of the same
  function built for the same number, so only the path that builds one is modelled.  The buffer
  has room for \<open>JSFatInlineString::MAX_LENGTH_LATIN1\<close> (24) characters and a terminating zero.
\<close>

definition Int32ToString :: "u32 \<Rightarrow> jschars eng" where
  "Int32ToString si =
     bindM stackM (\<lambda>mem.
     let ui = (if si <s 0 then - si else si);
         size = 25;
         end' = size - 1;
         buffer = (charBuffer mem size)[end' := 0]
     in bindM (BackfillIndexInCharBuffer ui (buffer, end')) (\<lambda>out.
     bindM (if si <s 0 then writeBack minusChar out else returnM out) (\<lambda>(buffer, start).
     bindM allocM (\<lambda>str.
     returnM (take (end' - start) (drop start buffer))))))"

definition toStringSingleDigitBaseTen :: "digit \<Rightarrow> bool \<Rightarrow> jschars eng" where
  "toStringSingleDigitBaseTen d isNeg =
     (if d \<le> 2 ^ 31 - 1 then
        let val = ucast d :: u32 in Int32ToString (if isNeg then - val else val)
      else
        mozAssert (d \<noteq> 0) (
        bindM stackM (\<lambda>mem.
        let maxLength = 21 in
        bindM (whileE (\<lambda>(out, d). d \<noteq> 0)
          (\<lambda>(out, d). bindM (writeBack (radixDigits ! unat (d mod 10)) out) (\<lambda>out. returnM (out, d div 10)))
          ((charBuffer mem maxLength, maxLength), d)) (\<lambda>((buf, writePos), d).
        mozAssert (writePos < maxLength) (
        mozAssert (buf ! writePos \<noteq> of_char (CHR ''0'')) (
        bindM (if isNeg then writeBack minusChar (buf, writePos) else returnM (buf, writePos)) (\<lambda>(buf, writePos).
        mozAssert (writePos < maxLength) (
        NewStringCopyN (drop writePos buf)))))))))"

section \<open>Any radix\<close>

definition MaxPowerInDigit :: "nat \<Rightarrow> digit eng" where
  "MaxPowerInDigit radix =
     whileM (\<lambda>result. result < (- 1) div of_nat radix) (\<lambda>result. result * of_nat radix) 1"

definition MaxExponentInDigit :: "nat \<Rightarrow> nat eng" where
  "MaxExponentInDigit radix =
     bindM (whileM (\<lambda>(exp, result). result < (- 1 :: digit) div of_nat radix)
       (\<lambda>(exp, result). (exp + 1, result * of_nat radix)) (0, 1)) (\<lambda>(exp, result).
     returnM exp)"

text \<open>The entry of \<open>toStringInfo\<close> for a radix.\<close>

record RadixInfo =
  maxPowerInDigit :: digit
  maxExponentInDigit :: nat

definition toStringInfo :: "nat \<Rightarrow> RadixInfo eng" where
  "toStringInfo radix =
     (if radix < 2 then returnM \<lparr>maxPowerInDigit = 0, maxExponentInDigit = 0\<rparr>
      else bindM (MaxPowerInDigit radix) (\<lambda>maxPower.
        bindM (MaxExponentInDigit radix) (\<lambda>maxExponent.
        returnM \<lparr>maxPowerInDigit = maxPower, maxExponentInDigit = maxExponent\<rparr>)))"

definition writeChunk :: "nat \<Rightarrow> nat \<Rightarrow> (jschars \<times> nat) \<times> digit \<Rightarrow> ((jschars \<times> nat) \<times> digit) eng" where
  "writeChunk radix chunkChars =
     forUp 0 chunkChars (\<lambda>i (out, chunk).
       bindM (writeBack (radixDigits ! unat (chunk mod of_nat radix)) out) (\<lambda>out.
       returnM (out, chunk div of_nat radix)))"

text \<open>
  One round of the \<open>do\<close> loop: divide \<open>dividend\<close>, write the remainder.  The first round allocates
  \<open>rest\<close> (\<open>EmptyQuotient\<close>), later ones divide in place (\<open>SameAsDividend\<close>).
\<close>

definition chunkRound ::
  "nat \<Rightarrow> RadixInfo \<Rightarrow> quotientArg \<Rightarrow> bigint \<times> (jschars \<times> nat) \<times> nat \<Rightarrow> (bigint \<times> (jschars \<times> nat) \<times> nat) eng" where
  "chunkRound radix info quot =
     (\<lambda>(dividend, out, nonZeroDigit).
       bindM (absoluteDivWithDigitDivisor dividend (maxPowerInDigit info) quot (isNegative dividend)) (\<lambda>(rest, chunk).
       case rest of None \<Rightarrow> throwM AssertFail
       | Some rest \<Rightarrow>
           bindM (writeChunk radix (maxExponentInDigit info) (out, chunk)) (\<lambda>(out, chunk).
           mozAssert (chunk = 0) (
           bindM (digit rest nonZeroDigit) (\<lambda>d.
           let nonZeroDigit = (if d = 0 then nonZeroDigit - 1 else nonZeroDigit) in
           bindM (digit rest nonZeroDigit) (\<lambda>d.
           mozAssert (d \<noteq> 0) (returnM (rest, out, nonZeroDigit))))))))"

definition lastDigitStep :: "nat \<Rightarrow> (jschars \<times> nat) \<times> digit \<Rightarrow> ((jschars \<times> nat) \<times> digit) eng" where
  "lastDigitStep radix =
     (\<lambda>(out, lastDigit).
       bindM (writeBack (radixDigits ! unat (lastDigit mod of_nat radix)) out) (\<lambda>out.
       returnM (out, lastDigit div of_nat radix)))"

definition toStringGeneric :: "bigint \<Rightarrow> nat \<Rightarrow> jschars eng" where
  "toStringGeneric x radix =
     mozAssert (radix \<ge> 2 \<and> radix \<le> 36) (
     mozAssert (\<not> isZero x) (
     bindM (calculateMaximumCharactersRequired x radix) (\<lambda>maximumCharactersRequired.
     if maximumCharactersRequired > MAX_LENGTH then throwM OutOfMemory
     else
       bindM allocM (\<lambda>mem.
       let len = digitLength x;
           out = (charBuffer mem maximumCharactersRequired, maximumCharactersRequired)
       in bindM (if len = 1 then bindM (digit x 0) (\<lambda>lastDigit. returnM (out, lastDigit))
          else
            bindM (toStringInfo radix) (\<lambda>info.
            let nonZeroDigit = len - 1 in
            bindM (digit x nonZeroDigit) (\<lambda>d.
            mozAssert (d \<noteq> 0) (
            bindM (bindM (chunkRound radix info EmptyQuotient (x, out, nonZeroDigit))
                     (whileE (\<lambda>(rest, out, nonZeroDigit). nonZeroDigit > 0) (chunkRound radix info SameAsDividend)))
              (\<lambda>(rest, out, nonZeroDigit).
            bindM (digit rest 0) (\<lambda>lastDigit. returnM (out, lastDigit))))))) (\<lambda>(out, lastDigit).
       bindM (bindM (lastDigitStep radix (out, lastDigit))
                (whileE (\<lambda>(out, lastDigit). lastDigit > 0) (lastDigitStep radix))) (\<lambda>((buf, writePos), lastDigit).
       mozAssert (writePos < maximumCharactersRequired) (
       bindM (whileM (\<lambda>writePos. writePos + 1 < maximumCharactersRequired \<and> buf ! writePos = of_char (CHR ''0'')) Suc writePos) (\<lambda>writePos.
       bindM (if isNegative x then writeBack minusChar (buf, writePos) else returnM (buf, writePos)) (\<lambda>(buf, writePos).
       mozAssert (writePos < maximumCharactersRequired) (
       NewStringCopyN (drop writePos buf)))))))))))"

section \<open>Dispatch\<close>

text \<open>With \<open>allowGC = false\<close> the generic path is not tried: the code returns \<open>nullptr\<close>, the result \<open>None\<close>.\<close>

definition toString :: "bool \<Rightarrow> bigint \<Rightarrow> nat \<Rightarrow> jschars option eng" where
  "toString allowGC x radix =
     mozAssert (2 \<le> radix \<and> radix \<le> 36) (
     if isZero x then returnM (Some [of_char (CHR ''0'')])
     else if IsPowerOfTwo (of_nat radix) then
       bindM (toStringBasePowerOfTwo x radix) (\<lambda>s. returnM (Some s))
     else if radix = 10 \<and> digitLength x = 1 then
       bindM (digit x 0) (\<lambda>d. bindM (toStringSingleDigitBaseTen d (isNegative x)) (\<lambda>s. returnM (Some s)))
     else if \<not> allowGC then returnM None
     else bindM (toStringGeneric x radix) (\<lambda>s. returnM (Some s)))"


section \<open>The numeral of a number\<close>

text \<open>
  \<open>lowDigits r L n\<close>: the \<open>L\<close> lowest digits of \<open>n\<close> in base \<open>r\<close>, lowest first.  \<open>posDigits r n\<close>: all of
  them, without leading zeroes.  \<open>toText r z\<close>: the numeral of \<open>z\<close>, as \<open>BigInt::toString\<close> of the
  ECMAScript specification has it.
\<close>

definition lowDigits :: "nat \<Rightarrow> nat \<Rightarrow> nat \<Rightarrow> nat list" where
  "lowDigits r L n = map (\<lambda>i. n div r ^ i mod r) [0..<L]"

function posDigits :: "nat \<Rightarrow> nat \<Rightarrow> nat list" where
  "posDigits r n = (if r < 2 \<or> n = 0 then [] else n mod r # posDigits r (n div r))"
  by pat_completeness auto
termination
  by (relation "measure snd") auto

declare posDigits.simps [simp del]

abbreviation charOf :: "nat \<Rightarrow> u16" where
  "charOf n \<equiv> radixDigits ! n"

definition toText :: "nat \<Rightarrow> int \<Rightarrow> jschars" where
  "toText r z =
     (if z = 0 then [of_char (CHR ''0'')]
      else (if z < 0 then [minusChar] else []) @ rev (map charOf (posDigits r (nat \<bar>z\<bar>))))"

lemma lowDigits_Suc: "lowDigits r (Suc L) n = lowDigits r L n @ [n div r ^ L mod r]"
  by (simp add: lowDigits_def)

lemma lowDigits_0 [simp]: "lowDigits r 0 n = []"
  by (simp add: lowDigits_def)

lemma length_lowDigits [simp]: "length (lowDigits r L n) = L"
  by (simp add: lowDigits_def)

lemma lowDigits_Cons: "lowDigits r (Suc L) n = n mod r # lowDigits r L (n div r)"
proof -
  have "[0..<Suc L] = 0 # map Suc [0..<L]" by (simp only: upt_conv_Cons map_Suc_upt zero_less_Suc)
  then show ?thesis by (simp add: lowDigits_def div_mult2_eq)
qed

lemma posDigits_eq:
  assumes "2 \<le> r"
  shows "n < r ^ L \<Longrightarrow> (0 < L \<Longrightarrow> r ^ (L - 1) \<le> n) \<Longrightarrow> posDigits r n = lowDigits r L n"
proof (induction L arbitrary: n)
  case 0
  then show ?case by (simp add: posDigits.simps)
next
  case (Suc L)
  have "n \<noteq> 0"
  proof
    assume "n = 0"
    then have "r ^ L = 0" using Suc.prems by simp
    then show False using assms by simp
  qed
  moreover have "n div r < r ^ L"
    using Suc.prems(1) by (simp add: less_mult_imp_div_less mult.commute)
  moreover have "r ^ (L - 1) \<le> n div r" if "0 < L"
  proof -
    have "r * r ^ (L - 1) \<le> n" using Suc.prems(2) that by (cases L) auto
    then have "r * r ^ (L - 1) div r \<le> n div r" by (rule div_le_mono)
    then show ?thesis using assms by simp
  qed
  ultimately show ?case
    using assms Suc.IH [of "n div r"] by (simp add: posDigits.simps [of r n] lowDigits_Cons)
qed

text \<open>The number of digits, and its relation to powers of the base.\<close>

lemma posDigits_bounds:
  assumes "2 \<le> r"
  shows "n < r ^ length (posDigits r n)" and "0 < n \<Longrightarrow> r ^ (length (posDigits r n) - 1) \<le> n"
proof -
  have "n < r ^ length (posDigits r n) \<and> (0 < n \<longrightarrow> r ^ (length (posDigits r n) - 1) \<le> n)"
    using assms
  proof (induction r n rule: posDigits.induct)
    case (1 r n)
    show ?case
    proof (cases "n = 0")
      case True
      then show ?thesis by (simp add: posDigits.simps)
    next
      case False
      let ?L = "length (posDigits r (n div r))"
      have IH: "n div r < r ^ ?L" "0 < n div r \<longrightarrow> r ^ (?L - 1) \<le> n div r" using 1 False by auto
      have L: "length (posDigits r n) = Suc ?L" using 1(2) False by (simp add: posDigits.simps [of r n])
      have "n div r + 1 \<le> r ^ ?L" using IH by simp
      then have "(n div r + 1) * r \<le> r ^ ?L * r" by (rule mult_right_mono) simp
      with dividend_less_div_times [of r n] 1(2) have up: "n < r ^ Suc ?L" by (simp add: power_Suc2 del: power_Suc)
      have "r ^ ?L \<le> n"
      proof (cases "n div r = 0")
        case True
        then have "?L = 0" by (simp add: posDigits.simps)
        then show ?thesis using False by simp
      next
        case ge: False
        then have pos: "0 < ?L" using 1(2) by (subst posDigits.simps) simp
        have "r ^ (?L - 1) * r \<le> n div r * r" using IH ge by (intro mult_right_mono) auto
        also have "\<dots> \<le> n" by simp
        finally show ?thesis using pos by (cases ?L) (auto simp: mult.commute)
      qed
      with up L show ?thesis by simp
    qed
  qed
  then show "n < r ^ length (posDigits r n)" and "0 < n \<Longrightarrow> r ^ (length (posDigits r n) - 1) \<le> n" by auto
qed

lemma less_length_posDigits:
  assumes "2 \<le> r" and "r ^ L \<le> n"
  shows "L < length (posDigits r n)"
proof -
  have "r ^ L < r ^ length (posDigits r n)" using assms posDigits_bounds(1) le_less_trans by blast
  then show ?thesis using assms(1) by (simp add: power_less_imp_less_exp)
qed

lemma length_posDigits_le:
  assumes "2 \<le> r" and "n < r ^ L"
  shows "length (posDigits r n) \<le> L"
proof (rule ccontr)
  assume "\<not> ?thesis"
  then have L: "L \<le> length (posDigits r n) - 1" "0 < n"
    by (auto simp: posDigits.simps [of r 0] intro: Nat.gr0I)
  have "r ^ L \<le> r ^ (length (posDigits r n) - 1)" using assms(1) L by (intro power_increasing) auto
  then show False using assms(2) posDigits_bounds(2) [OF assms(1) L(2)] by linarith
qed

lemma toText_nonzero:
  "0 < n \<Longrightarrow> toText r (withSign s n) = (if s then [minusChar] else []) @ rev (map charOf (posDigits r n))"
  by (simp add: toText_def)

section \<open>Writing digits\<close>

text \<open>
  The \<open>N\<close> characters of the buffer in front of \<open>rest\<close> end with the \<open>L\<close> lowest digits of \<open>X\<close>.
\<close>

definition printedBefore :: "jschars \<Rightarrow> nat \<Rightarrow> nat \<Rightarrow> nat \<Rightarrow> nat \<Rightarrow> jschars \<times> nat \<Rightarrow> bool" where
  "printedBefore rest N r X L = (\<lambda>(buf, pos). length buf = N + length rest \<and> pos + L = N \<and>
     drop pos buf = rev (map charOf (lowDigits r L X)) @ rest)"

abbreviation printed :: "nat \<Rightarrow> nat \<Rightarrow> nat \<Rightarrow> nat \<Rightarrow> jschars \<times> nat \<Rightarrow> bool" where
  "printed \<equiv> printedBefore []"

lemma printed_start [simp]: "printed N r X 0 (charBuffer mem N, N)"
  by (simp add: printedBefore_def charBuffer_def)

lemma runs_writeBack:
  assumes "0 < pos" "pos \<le> length buf"
    and "\<And>buf'. length buf' = length buf \<Longrightarrow> drop (pos - 1) buf' = c # drop pos buf \<Longrightarrow> Q (buf', pos - 1)"
  shows "runs (writeBack c (buf, pos)) v E Q"
proof -
  have "drop (pos - 1) (buf[pos - 1 := c]) = c # drop pos buf"
    using assms(1,2) by (simp add: drop_update_Suc)
  then show ?thesis using assms by (simp add: writeBack_def)
qed

lemma runs_printed:
  assumes out: "printedBefore rest N r X L out" and "L < N" and d: "d = X div r ^ L mod r"
    and Q: "\<And>out. printedBefore rest N r X (Suc L) out \<Longrightarrow> Q out"
  shows "runs (writeBack (charOf d) out) v E Q"
proof (cases out)
  case (Pair buf pos)
  show ?thesis
    unfolding Pair using assms Pair
    by (intro runs_writeBack Q) (auto simp: printedBefore_def lowDigits_Suc)
qed

text \<open>The sign is written in front of the digits.\<close>

lemma runs_sign:
  assumes out: "printedBefore rest N r X L out" and "s \<Longrightarrow> L < N"
    and Q: "\<And>buf pos. length buf = N + length rest \<Longrightarrow> pos + L + (if s then 1 else 0) = N \<Longrightarrow>
      drop pos buf = (if s then [minusChar] else []) @ rev (map charOf (lowDigits r L X)) @ rest \<Longrightarrow> Q (buf, pos)"
  shows "runs (if s then writeBack minusChar out else returnM out) v E Q"
proof (cases out)
  case (Pair buf pos)
  show ?thesis
    unfolding Pair using assms Pair
    by (intro runs_if runs_writeBack) (auto simp: printedBefore_def)
qed

text \<open>
  Every loop that writes the digits of what is left of a number: \<open>val\<close> reads the machine integer
  of the state, which one round divides by the radix.
\<close>

lemma runs_digitLoop:
  fixes val :: "'d \<Rightarrow> nat"
  assumes r: "2 \<le> r" and N: "length (posDigits r X) \<le> N"
    and b: "\<And>out d. b (out, d) \<longleftrightarrow> val d \<noteq> 0"
    and c: "\<And>out d. c (out, d) = bindM (writeBack (ch d) out) (\<lambda>out. returnM (out, nxt d))"
    and ch: "\<And>d. ch d = charOf (val d mod r)" and nxt: "\<And>d. val (nxt d) = val d div r"
    and start: "printedBefore rest N r X L out" "val d = X div r ^ L" "0 < L \<Longrightarrow> r ^ (L - 1) \<le> X"
    and Q: "\<And>out d. printedBefore rest N r X (length (posDigits r X)) out \<Longrightarrow> val d = 0 \<Longrightarrow> Q (out, d)"
  shows "runs (whileE b c (out, d)) v E Q"
proof (rule runs_whileE [where P = "\<lambda>(out, d). \<exists>L. printedBefore rest N r X L out \<and> val d = X div r ^ L \<and>
      (0 < L \<longrightarrow> r ^ (L - 1) \<le> X)" and f = "\<lambda>(out, d). val d"], goal_cases)
  case 1
  then show ?case using start by auto
next
  case (2 s)
  obtain out d where s: "s = (out, d)" by (cases s)
  obtain L where L: "printedBefore rest N r X L out" "val d = X div r ^ L" using 2 s by auto
  have nz: "0 < val d" using 2 s b by simp
  then have pw: "r ^ L \<le> X" using L(2) by (simp add: div_greater_zero_iff)
  have room: "L < N" using less_length_posDigits [OF r pw] N by simp
  have "val (nxt d) = X div r ^ Suc L" by (simp add: nxt L(2) power_Suc2 div_mult2_eq del: power_Suc)
  moreover have "val (nxt d) < val d" using nz r by (simp add: nxt)
  moreover have "val d mod r = X div r ^ L mod r" using L(2) by simp
  ultimately show ?case
    unfolding s c ch using pw
    by (intro runs_bindI runs_printed [OF L(1) room]) (auto intro!: exI [of _ "Suc L"])
next
  case (3 s)
  obtain out d where s: "s = (out, d)" by (cases s)
  obtain L where L: "printedBefore rest N r X L out" "val d = X div r ^ L" "0 < L \<longrightarrow> r ^ (L - 1) \<le> X"
    using 3 s by auto
  have v: "val d = 0" using 3 s b by simp
  then have "X < r ^ L" using L(2) r by (simp add: div_eq_0_iff)
  then have "length (posDigits r X) = L" using L(3) r by (simp add: posDigits_eq)
  then show ?case using L(1) s v Q by simp
qed

section \<open>Radix a power of two\<close>

text \<open>Windows of bits of a number.\<close>

lemma window_shift: "c \<le> m \<Longrightarrow> (X div 2 ^ k mod 2 ^ m) div 2 ^ c = X div 2 ^ (k + c) mod (2 :: nat) ^ (m - c)"
  using drop_bit_take_bit [of c m "drop_bit k X"]
  by (simp add: take_bit_eq_mod drop_bit_eq_div power_add div_mult2_eq)

lemma window_mod: "c \<le> m \<Longrightarrow> (X div 2 ^ k mod 2 ^ m) mod 2 ^ c = X div 2 ^ k mod (2 :: nat) ^ c"
  by (simp add: le_imp_power_dvd mod_mod_cancel)

lemma window_join:
  assumes "a \<le> 64"
  shows "(Y div 2 ^ a mod 2 ^ 64) * 2 ^ a mod 2 ^ 64 + Y mod 2 ^ a = Y mod (2 :: nat) ^ 64"
proof -
  have p: "(2 :: nat) ^ 64 = 2 ^ (64 - a) * 2 ^ a" using assms by (simp flip: power_add)
  have "(Y div 2 ^ a mod 2 ^ 64) * 2 ^ a mod (2 ^ (64 - a) * 2 ^ a) = Y div 2 ^ a mod 2 ^ (64 - a) * 2 ^ a"
  proof -
    have "Y div 2 ^ a mod 2 ^ 64 mod 2 ^ (64 - a) = Y div 2 ^ a mod 2 ^ (64 - a)"
      by (intro mod_mod_cancel le_imp_power_dvd) simp
    then show ?thesis by (simp only: mult_mod_left [symmetric])
  qed
  then show ?thesis
    using mod_mult2_eq [of Y "2 ^ a" "2 ^ (64 - a)"] unfolding p by (simp add: mult.commute)
qed

lemma unat_digit_window:
  assumes "i < length ds"
  shows "unat (ds ! i) = dval ds div 2 ^ (64 * i) mod 2 ^ 64"
proof -
  have "dval (drop i ds) mod Base = unat (ds ! i)" using assms dval_mod_Base [of "drop i ds"] by simp
  then show ?thesis by (simp add: dval_drop_div Base_def power_mult)
qed

lemma unat_straddle:
  assumes "a < 64" and "unat d = Y mod 2 ^ a" and "unat n = Y div 2 ^ a mod 2 ^ 64"
  shows "unat (d OR shl n a) = Y mod 2 ^ 64"
proof -
  have "unat (shl n a OR d) = unat (shl n a) + unat d"
    using assms by (intro unat_or_shl) (simp_all add: DigitBits_def)
  then show ?thesis
    using assms window_join [of a Y] by (simp add: or.commute unat_shl DigitBits_def Base_def)
qed

lemma unat_charMask:
  assumes "b < 64"
  shows "unat (d AND of_nat (2 ^ b - 1) :: digit) = unat d mod 2 ^ b"
proof -
  have "(of_nat (2 ^ b - 1) :: digit) = mask b" by (simp add: mask_eq_exp_minus_1 of_nat_diff)
  then show ?thesis by (simp add: unsigned_take_bit_eq take_bit_eq_mod [of b "unat d"] flip: take_bit_eq_mask)
qed

lemma radix_cases:
  assumes "2 \<le> r" "r \<le> (36 :: nat)"
  shows "r = 2 \<or> r = 3 \<or> r = 4 \<or> r = 5 \<or> r = 6 \<or> r = 7 \<or> r = 8 \<or> r = 9
       \<or> r = 10 \<or> r = 11 \<or> r = 12 \<or> r = 13 \<or> r = 14 \<or> r = 15 \<or> r = 16
       \<or> r = 17 \<or> r = 18 \<or> r = 19 \<or> r = 20 \<or> r = 21 \<or> r = 22 \<or> r = 23
       \<or> r = 24 \<or> r = 25 \<or> r = 26 \<or> r = 27 \<or> r = 28 \<or> r = 29 \<or> r = 30
       \<or> r = 31 \<or> r = 32 \<or> r = 33 \<or> r = 34 \<or> r = 35 \<or> r = 36"
  using assms by presburger

lemma power_two_digits:
  assumes "2 \<le> r" "r \<le> 36" and "IsPowerOfTwo (of_nat r)"
  obtains b where "0 < b" "b \<le> 5" "r = 2 ^ b" "CountTrailingZeroes32 (of_nat r) = b"
proof -
  have "r = 2 ^ 1 \<or> r = 2 ^ 2 \<or> r = 2 ^ 3 \<or> r = 2 ^ 4 \<or> r = 2 ^ 5"
    using radix_cases [OF assms(1,2)] assms(3) by (elim disjE) (simp_all add: IsPowerOfTwo_def)
  moreover have "CountTrailingZeroes32 2 = 1" "CountTrailingZeroes32 4 = 2" "CountTrailingZeroes32 8 = 3"
    "CountTrailingZeroes32 16 = 4" "CountTrailingZeroes32 32 = 5"
    by (simp_all add: CountTrailingZeroes32_def eval_nat_numeral)
  ultimately show thesis
    using that [of 1] that [of 2] that [of 3] that [of 4] that [of 5] by (elim disjE) simp_all
qed


text \<open>
  Between two characters: \<open>L\<close> of them are written, and \<open>d\<close> holds the next \<open>a\<close> bits of \<open>X\<close>, up to
  bit \<open>k\<close>.
\<close>

definition powInv :: "nat \<Rightarrow> nat \<Rightarrow> nat \<Rightarrow> nat \<Rightarrow> (jschars \<times> nat) \<times> digit \<times> nat \<Rightarrow> bool" where
  "powInv N b X k = (\<lambda>(out, d, a). \<exists>L. printed N (2 ^ b) X L out \<and> L * b + a = k \<and>
     unat d = X div 2 ^ (L * b) mod 2 ^ a)"

lemma power_two_power: "((2 :: nat) ^ b) ^ L = 2 ^ (L * b)"
  by (simp add: power_mult [symmetric] mult.commute)

lemma two_le_power: "0 < b \<Longrightarrow> 2 \<le> (2 :: nat) ^ b"
  by (cases b) auto

lemma room_for_char:
  assumes "0 < b" and "length (posDigits (2 ^ b) X) \<le> N" and "2 ^ (L * b) \<le> X"
  shows "L < N"
  using less_length_posDigits [OF two_le_power [OF assms(1)], of L X] assms by (simp add: power_two_power)

lemma runs_powerOfTwoChars:
  assumes b: "0 < b" "b \<le> 5" and N: "length (posDigits (2 ^ b) X) \<le> N" and X: "2 ^ k \<le> X"
    and inv: "powInv N b X k st"
  shows "runs (powerOfTwoChars b (of_nat (2 ^ b - 1)) st) v E (\<lambda>(out, d, a). powInv N b X k (out, d, a) \<and> a < b)"
  unfolding powerOfTwoChars_def
proof (rule runs_whileE [where P = "powInv N b X k" and f = "\<lambda>(out, d, a). a"], goal_cases)
  case (2 s)
  obtain out d a where s: "s = (out, d, a)" by (cases s) auto
  obtain L where L: "printed N (2 ^ b) X L out" "L * b + a = k" "unat d = X div 2 ^ (L * b) mod 2 ^ a"
    using 2 s by (auto simp: powInv_def)
  have a: "b \<le> a" and b64: "b < 64" using 2 s b by simp_all
  have "2 ^ (L * b) \<le> (2 :: nat) ^ k" using L(2) by (intro power_increasing) auto
  then have room: "L < N" using room_for_char b N X by (meson le_trans)
  have c: "unat (d AND of_nat (2 ^ b - 1)) = X div (2 ^ b) ^ L mod 2 ^ b"
    unfolding unat_charMask [OF b64] L(3) power_two_power by (rule window_mod [OF a])
  have "unat (shr d b) = X div 2 ^ (Suc L * b) mod 2 ^ (a - b)"
    using b a by (simp add: unat_shr DigitBits_def L(3) window_shift add.commute)
  moreover have "Suc L * b + (a - b) = k" using L(2) a by simp
  ultimately have "powInv N b X k (out', shr d b, a - b)" if "printed N (2 ^ b) X (Suc L) out'" for out'
    unfolding powInv_def using that by blast
  then show ?case
    unfolding s prod.case using b a
    by (intro runs_bindI runs_printed [OF L(1) room c]) auto
qed (use inv in auto)

lemma runs_powerOfTwoDigit:
  assumes b: "0 < b" "b \<le> 5" and N: "length (posDigits (2 ^ b) (dval (digits x))) \<le> N"
    and i: "i < digitLength x" and X: "2 ^ (64 * Suc i) \<le> dval (digits x)"
    and inv: "powInv N b (dval (digits x)) (64 * i) (out, d, a)" and a: "a < b"
  shows "runs (powerOfTwoDigit x b (of_nat (2 ^ b - 1)) i (out, d, a)) v E
    (\<lambda>(out, d, a). powInv N b (dval (digits x)) (64 * Suc i) (out, d, a) \<and> a < b)"
proof -
  let ?X = "dval (digits x)" and ?n = "digits x ! i"
  have b64: "b < 64" using b by simp
  obtain L where L: "printed N (2 ^ b) ?X L out" "L * b + a = 64 * i" "unat d = ?X div 2 ^ (L * b) mod 2 ^ a"
    using inv by (auto simp: powInv_def)
  have n: "unat ?n = ?X div 2 ^ (L * b) div 2 ^ a mod 2 ^ 64"
    unfolding unat_digit_window [OF i] L(2) [symmetric] by (simp add: power_add div_mult2_eq)
  have "unat (d OR shl ?n a) = ?X div 2 ^ (L * b) mod 2 ^ 64"
    using a b L(3) n by (intro unat_straddle) auto
  then have c: "unat ((d OR shl ?n a) AND of_nat (2 ^ b - 1)) = ?X div (2 ^ b) ^ L mod 2 ^ b"
    unfolding unat_charMask [OF b64] power_two_power using b window_mod [of b 64 ?X "L * b"] by simp
  have "2 ^ (L * b) \<le> (2 :: nat) ^ (64 * Suc i)" using L(2) by (intro power_increasing) auto
  then have room: "L < N" using room_for_char b N X by (meson le_trans)
  have ba: "b - a < DigitBits" "b - a \<le> 64" using b by (simp_all add: DigitBits_def)
  have e: "64 * i + (b - a) = Suc L * b" using L(2) a by simp
  have "unat (shr ?n (b - a)) = ?X div 2 ^ (Suc L * b) mod 2 ^ (64 - (b - a))"
    unfolding unat_shr [OF ba(1)] unat_digit_window [OF i] window_shift [OF ba(2)] e by (rule refl)
  moreover have "Suc L * b + (64 - (b - a)) = 64 * Suc i" using L(2) a b by simp
  ultimately have next': "powInv N b ?X (64 * Suc i) (out', shr ?n (b - a), 64 - (b - a))"
    if "printed N (2 ^ b) ?X (Suc L) out'" for out'
    unfolding powInv_def using that by blast
  show ?thesis
    unfolding powerOfTwoDigit_def prod.case digit_in_range [OF i] bindM_returnM Let_def DigitBits_def
    by (intro runs_bindI runs_printed [OF L(1) room c] runs_powerOfTwoChars b N X next')
qed


lemma runs_powerOfTwoRest:
  assumes b: "0 < b" "b \<le> 5" and N: "length (posDigits (2 ^ b) X) \<le> N"
    and start: "printed N (2 ^ b) X L out" "unat d = X div 2 ^ (L * b)" "0 < L" "2 ^ ((L - 1) * b) \<le> X"
    and Q: "\<And>out d. printed N (2 ^ b) X (length (posDigits (2 ^ b) X)) out \<Longrightarrow> Q (out, d)"
  shows "runs (powerOfTwoRest b (of_nat (2 ^ b - 1)) (out, d)) v E Q"
  unfolding powerOfTwoRest_def
proof (rule runs_digitLoop [where val = unat and r = "2 ^ b" and X = X and N = N and L = L and rest = "[]"
      and ch = "\<lambda>d. charOf (unat (d AND of_nat (2 ^ b - 1)))" and nxt = "\<lambda>d. shr d b"], goal_cases)
  case (5 d)
  then show ?case using b by (simp only: unat_charMask)
qed (use assms two_le_power in \<open>auto simp: power_two_power unat_shr DigitBits_def unat_gt_0\<close>)

text \<open>The characters counted in advance are exactly the ones that are written.\<close>

lemma count_chars:
  assumes b: "0 < b" and X: "2 ^ (l - 1) \<le> X" "X < 2 ^ l" "0 < l"
  shows "1 + (l - 1) div b = length (posDigits (2 ^ b) X)"
proof -
  let ?q = "(l - 1) div b"
  have "?q * b \<le> l - 1" by simp
  then have p: "(2 :: nat) ^ (?q * b) \<le> 2 ^ (l - 1)" by (intro power_increasing) auto
  have "(2 ^ b) ^ ?q \<le> X" unfolding power_two_power by (rule le_trans [OF p X(1)])
  then have "?q < length (posDigits (2 ^ b) X)"
    by (intro less_length_posDigits two_le_power b)
  moreover have "l \<le> Suc ?q * b"
    using dividend_less_div_times [OF b, of "l - 1"] X(3) by simp
  then have "(2 :: nat) ^ l \<le> 2 ^ (Suc ?q * b)" by (intro power_increasing) auto
  then have "length (posDigits (2 ^ b) X) \<le> Suc ?q"
    using X(2) by (intro length_posDigits_le two_le_power b) (simp only: power_two_power)
  ultimately show ?thesis by simp
qed

lemma bitLength_bounds:
  assumes wf: "wf x" and nz: "\<not> isZero x"
  defines "l \<equiv> digitLength x * 64 - DigitLeadingZeroes (digits x ! (digitLength x - 1))"
  shows "0 < l" "l \<le> 64 * digitLength x" "2 ^ (l - 1) \<le> dval (digits x)" "dval (digits x) < 2 ^ l"
proof -
  let ?k = "digitLength x - 1" and ?d = "digits x ! (digitLength x - 1)"
  have k: "?k < digitLength x" "Suc ?k = digitLength x" using nz by (simp_all add: isZero_iff)
  have d: "?d \<noteq> 0" using wf k by (auto simp: wf_def HasLeadingZeroes_def)
  note b = DigitLeadingZeroes_bounds [OF d]
  let ?b = "64 - DigitLeadingZeroes ?d"
  have l: "l = 64 * ?k + ?b" using k b(1) unfolding l_def by linarith
  show "0 < l" "l \<le> 64 * digitLength x" using l b(1) k by auto
  have dv: "dval (digits x) = dval (take ?k (digits x)) + Base ^ ?k * unat ?d"
    using dval_take_Suc [OF k(1)] k(2) by simp
  also have "\<dots> < Base ^ ?k * Suc (unat ?d)" using dval_take_less [of ?k "digits x"] by simp
  also have "\<dots> \<le> Base ^ ?k * 2 ^ ?b" using b(3) by (intro mult_left_mono) auto
  finally show "dval (digits x) < 2 ^ l" unfolding l power_digits .
  have l1: "l - 1 = 64 * ?k + (63 - DigitLeadingZeroes ?d)" using l b(1) by linarith
  have "Base ^ ?k * 2 ^ (63 - DigitLeadingZeroes ?d) \<le> Base ^ ?k * unat ?d" using b(2) by (intro mult_left_mono) auto
  then show "2 ^ (l - 1) \<le> dval (digits x)" unfolding l1 power_digits dv by (rule trans_le_add2)
qed


lemma runs_NewStringCopyN: "(\<And>e. oom v e \<Longrightarrow> E e) \<Longrightarrow> Q s \<Longrightarrow> runs (NewStringCopyN s) v E Q"
  unfolding NewStringCopyN_def by (intro runs_intros) auto

lemma runs_toStringBasePowerOfTwo:
  assumes wf: "wf x" and nz: "\<not> isZero x" and r: "2 \<le> r" "r \<le> 36" "IsPowerOfTwo (of_nat r)"
    and E: "\<And>e. oom v e \<Longrightarrow> E e" and Q: "Q (toText r (bval x))"
  shows "runs (toStringBasePowerOfTwo x r) v E Q"
proof -
  obtain b where b: "0 < b" "b \<le> 5" "r = 2 ^ b" "CountTrailingZeroes32 (of_nat r) = b"
    using power_two_digits [OF r] .
  have "r \<le> 2 ^ 5" unfolding b(3) using b(2) by (intro power_increasing) auto
  then have r32: "2 \<le> r \<and> r \<le> 32" using r by simp
  let ?X = "dval (digits x)" and ?k = "digitLength x - 1" and ?s = "if isNegative x then 1 else 0 :: nat"
  let ?l = "digitLength x * 64 - DigitLeadingZeroes (digits x ! ?k)"
  let ?C = "length (posDigits (2 ^ b) ?X)" and ?m = "of_nat (2 ^ b - 1) :: digit"
  note l = bitLength_bounds [OF wf nz]
  have k: "?k < digitLength x" using nz by (simp add: isZero_iff)
  have ceil: "CeilDiv ?l b = returnM ?C"
    using count_chars [OF b(1) l(3,4,1)] l(1) by (simp add: CeilDiv_def)
  have "?C \<le> ?l"
    using l(4) by (intro length_posDigits_le two_le_power b(1)) (rule less_le_trans, assumption, rule power_mono [OF two_le_power [OF b(1)]], simp)
  then have small: "\<not> ?C + ?s > MAX_LENGTH"
    using l(2) wf by (auto simp: wf_def MaxDigitLength_def MaxBitLength_def DigitBits_def MAX_LENGTH_def)
  have X: "2 ^ (64 * ?k) \<le> ?X"
    using wf nz dval_ge_top [of "digits x"] by (simp add: wf_def HasLeadingZeroes_def isZero_iff Base_def power_mult)
  have "runs (bindM allocM (\<lambda>mem.
       bindM (forUp 0 ?k (powerOfTwoDigit x b ?m) ((charBuffer mem (?C + ?s), ?C + ?s), 0, 0)) (\<lambda>(out, d, availableBits).
       bindM (writeBack (charOf (unat ((d OR shl (digits x ! ?k) availableBits) AND ?m))) out) (\<lambda>out.
       bindM (powerOfTwoRest b ?m (out, shr (digits x ! ?k) (b - availableBits))) (\<lambda>(out, d).
       bindM (if isNegative x then writeBack minusChar out else returnM out) (\<lambda>(buf, pos).
       mozAssert (pos = 0) (NewStringCopyN buf))))))) v E Q"
  proof (rule runs_bindI, rule runs_allocM, use E in blast, rule runs_bindI,
      rule runs_forUpI [where I = "\<lambda>i (out, d, a). powInv (?C + ?s) b ?X (64 * i) (out, d, a) \<and> a < b"], goal_cases)
    case 1
    then show ?case using b(1) by (auto simp: powInv_def intro!: exI [of _ 0])
  next
    case (3 mem i st)
    obtain out d a where st: "st = (out, d, a)" by (cases st) auto
    have "(2 :: nat) ^ (64 * Suc i) \<le> 2 ^ (64 * ?k)" using 3 by (intro power_increasing) auto
    then have "2 ^ (64 * Suc i) \<le> ?X" using X by (rule le_trans)
    then show ?case
      unfolding st using 3 st b k by (intro runs_powerOfTwoDigit) auto
  next
    case (4 mem st)
    obtain out d a where st: "st = (out, d, a)" by (cases st) auto
    let ?n = "digits x ! ?k"
    have a: "a < b" using 4 st by simp
    obtain L where L: "printed (?C + ?s) (2 ^ b) ?X L out" "L * b + a = 64 * ?k" "unat d = ?X div 2 ^ (L * b) mod 2 ^ a"
      using 4 st by (auto simp: powInv_def)
    have n: "unat ?n = ?X div 2 ^ (L * b) div 2 ^ a mod 2 ^ 64"
      unfolding unat_digit_window [OF k] L(2) [symmetric] by (simp add: power_add div_mult2_eq)
    have b64: "b < 64" using b by simp
    have "unat (d OR shl ?n a) = ?X div 2 ^ (L * b) mod 2 ^ 64"
      using a b L(3) n by (intro unat_straddle) auto
    then have c: "unat ((d OR shl ?n a) AND ?m) = ?X div (2 ^ b) ^ L mod 2 ^ b"
      unfolding unat_charMask [OF b64] power_two_power using b window_mod [of b 64 ?X "L * b"] by simp
    have "2 ^ (L * b) \<le> (2 :: nat) ^ (64 * ?k)" using L(2) by (intro power_increasing) auto
    then have pw: "2 ^ (L * b) \<le> ?X" using X by (rule le_trans)
    have room: "L < ?C + ?s" by (rule room_for_char [OF b(1) _ pw]) simp
    have top: "unat ?n = ?X div 2 ^ (64 * ?k)"
      using nz dval_drop_div [of ?k "digits x"] dval_drop_Suc [OF k]
      by (simp add: Base_def power_mult isZero_iff)
    have ba: "b - a < DigitBits" using b by (simp add: DigitBits_def)
    have e: "64 * ?k + (b - a) = Suc L * b" using L(2) a by simp
    have rest: "unat (shr ?n (b - a)) = ?X div 2 ^ (Suc L * b)"
      unfolding unat_shr [OF ba] top e [symmetric] power_add div_mult2_eq by (rule refl)
    show ?case
      unfolding st prod.case
    proof (rule runs_bindI, rule runs_printed [OF L(1) room c], rule runs_bindI, goal_cases)
      case (1 out)
      show ?case
      proof (rule runs_powerOfTwoRest [OF b(1,2) _ 1 rest], goal_cases)
        case (4 out d)
        have "toText r (bval x) = (if isNegative x then [minusChar] else []) @ rev (map charOf (posDigits (2 ^ b) ?X))"
          using wf_digits_pos [OF wf nz] toText_nonzero unfolding bval_def b(3) by blast
        moreover have "lowDigits (2 ^ b) ?C ?X = posDigits (2 ^ b) ?X"
          using posDigits_bounds [OF two_le_power [OF b(1)], of ?X] wf_digits_pos [OF wf nz] two_le_power [OF b(1)]
          by (intro posDigits_eq [symmetric]) auto
        ultimately show ?case
          unfolding prod.case using 4 Q E
          by (intro runs_bindI runs_sign [OF 4]) (auto intro!: runs_intros runs_NewStringCopyN)
      qed (use pw in auto)
    qed
  qed simp
  then show ?thesis
    unfolding toStringBasePowerOfTwo_def mozAssert_holds [OF r(3)] mozAssert_holds [OF r32] mozAssert_holds [OF nz]
      Let_def digit_in_range [OF k] bindM_returnM DigitBits_def b(4) ceil if_not_P [OF small]
    unfolding b(3) .
qed


section \<open>Decimal numerals of machine integers\<close>

lemma charOf_decimal: "d < 10 \<Longrightarrow> charOf d = of_char (CHR ''0'') + of_nat d"
proof -
  assume "d < 10"
  then have "d = 0 \<or> d = 1 \<or> d = 2 \<or> d = 3 \<or> d = 4 \<or> d = 5 \<or> d = 6 \<or> d = 7 \<or> d = 8 \<or> d = 9" by presburger
  then show ?thesis by (elim disjE) (simp_all add: radixDigits_def)
qed

lemma posDigits_low:
  assumes "2 \<le> r" "0 < n"
  shows "lowDigits r (length (posDigits r n)) n = posDigits r n"
  using posDigits_bounds [OF assms(1), of n] assms by (intro posDigits_eq [symmetric]) auto

lemma length_decimal: "n < 10 ^ L \<Longrightarrow> length (posDigits 10 n) \<le> L"
  by (rule length_posDigits_le) simp_all

lemma runs_BackfillIndexInCharBuffer:
  assumes i: "0 < index" and buf: "length buf = N + length rest" "drop N buf = rest" "10 \<le> N"
    and Q: "\<And>out. printedBefore rest N 10 (unat index) (length (posDigits 10 (unat index))) out \<Longrightarrow> Q out"
  shows "runs (BackfillIndexInCharBuffer index (buf, N)) v E Q"
proof -
  have "unat index < 2 ^ 32" using unsigned_less [of index] by simp
  then have len: "length (posDigits 10 (unat index)) \<le> N" using length_decimal [of "unat index" 10] buf(3) by simp
  have ch: "of_char (CHR ''0'') + ucast (d mod 10) = charOf (unat d mod 10)" for d :: u32
  proof -
    have "unat (d mod 10) = unat d mod 10" by (simp add: unat_mod_distrib)
    moreover from this have "(ucast (d mod 10) :: u16) = of_nat (unat d mod 10)" by (metis of_nat_unat)
    ultimately show ?thesis using charOf_decimal [of "unat d mod 10"] by simp
  qed
  have "runs (whileE (\<lambda>(out, index). 0 < index) backfillStep ((buf, N), index)) v E
      (\<lambda>s. runs (case s of (out, index) \<Rightarrow> returnM out) v E Q)"
  proof (rule runs_digitLoop [where val = unat and r = 10 and X = "unat index" and N = N and L = 0 and rest = rest
        and nxt = "\<lambda>d. d div 10" and ch = "\<lambda>d. of_char (CHR ''0'') + ucast (d mod 10)"], goal_cases)
    case (5 d)
    then show ?case by (rule ch)
  qed (use len buf Q in \<open>auto simp: backfillStep_def printedBefore_def unat_div_distrib unat_gt_0 word_neq_0_conv\<close>)
  then show ?thesis
    using i buf(3) by (simp add: BackfillIndexInCharBuffer_def doWhile_eq runs_bindI)
qed


lemma sint32_cases: "sint (si :: u32) = int (unat si) - (if si <s 0 then 2 ^ 32 else 0)"
proof -
  have "sint si = take_bit 32 (uint si) - 2 ^ 32 * of_bool (bit (uint si) 31)"
    by (simp add: sint_uint signed_take_bit_eq_take_bit_minus)
  moreover have "take_bit 32 (uint si) = uint si" using uint_lt2p [of si] by (simp add: take_bit_int_eq_self)
  ultimately have s: "sint si = uint si - 2 ^ 32 * of_bool (bit (uint si) 31)" by simp
  have "si <s 0 \<longleftrightarrow> sint si < 0" by (simp add: word_sless_alt)
  then show ?thesis using s uint_lt2p [of si] by (cases "bit (uint si) 31") auto
qed

lemma sint32_range: "- (2 ^ 31) \<le> sint (si :: u32)" "sint (si :: u32) < 2 ^ 31"
  using sint_range_size [of si] by (simp_all add: word_size)

lemma uint32_minus: "si \<noteq> 0 \<Longrightarrow> int (unat (- si :: u32)) = 2 ^ 32 - int (unat si)"
  using uint_lt2p [of si] by (simp add: uint_word_ariths zmod_zminus1_eq_if unsigned_eq_0_iff)

lemma sint_magnitude:
  fixes si :: u32
  assumes "si \<noteq> 0"
  shows "sint si = withSign (si <s 0) (unat (if si <s 0 then - si else si))"
    and "0 < unat (if si <s 0 then - si else si)" and "unat (if si <s 0 then - si else si) \<le> 2 ^ 31"
proof -
  note c = sint32_cases [of si] and m = uint32_minus [OF assms]
  show "sint si = withSign (si <s 0) (unat (if si <s 0 then - si else si))" unfolding c if_distrib [of unat] using m by auto
  show "0 < unat (if si <s 0 then - si else si)" using assms by (simp add: unat_gt_0)
  show "unat (if si <s 0 then - si else si) \<le> 2 ^ 31" using c m sint32_range [of si] by (auto simp del: of_nat_unat split: if_splits)
qed

lemma sint_small:
  assumes "unat (w :: u32) < 2 ^ 31" and "w \<noteq> 0"
  shows "sint (if s then - w else w) = withSign s (unat w)"
  using assms sint32_cases [of w] sint32_cases [of "- w"] uint32_minus [OF assms(2)]
    sint32_range [of w] sint32_range [of "- w"]
  by (auto simp del: of_nat_unat split: if_splits)

lemma runs_Int32ToString:
  assumes si: "si \<noteq> 0" and E: "\<And>e. oom v e \<Longrightarrow> E e" and Q: "Q (toText 10 (sint si))"
  shows "runs (Int32ToString si) v E Q"
proof -
  let ?ui = "if si <s 0 then - si else si"
  let ?C = "length (posDigits 10 (unat ?ui))"
  note m = sint_magnitude [OF si]
  have len: "?C \<le> 10" using m(3) by (intro length_decimal) simp
  have txt1: "toText 10 (sint si) = (if si <s 0 then [minusChar] else []) @ rev (map charOf (lowDigits 10 ?C (unat ?ui)))"
    unfolding m(1) toText_nonzero [OF m(2)] using m(2) by (simp only: posDigits_low)
  have "runs (bindM (BackfillIndexInCharBuffer ?ui ((charBuffer mem 25)[24 := 0], 24)) (\<lambda>out.
     bindM (if si <s 0 then writeBack minusChar out else returnM out) (\<lambda>(buffer, start).
     bindM allocM (\<lambda>str. returnM (take (24 - start) (drop start buffer)))))) v E Q" for mem
  proof (rule runs_bindI, rule runs_BackfillIndexInCharBuffer [where rest = "[0]"], goal_cases)
    case 1
    then show ?case using m(2) by (simp only: word_less_nat_alt unsigned_0)
  next
    case (5 out)
    show ?case
    proof (rule runs_bindI, rule runs_sign [OF 5], goal_cases)
      case (2 buf pos)
      have n: "24 - pos = length (toText 10 (sint si))" unfolding txt1 using 2(2) by auto
      have "take (24 - pos) (drop pos buf) = toText 10 (sint si)"
        unfolding n 2(3) append_assoc [symmetric] txt1 [symmetric] by simp
      then show ?case using E Q by (auto intro!: runs_intros)
    qed (use len in simp)
  qed (auto simp: charBuffer_def drop_update_swap eval_nat_numeral)
  moreover have e: "(25 :: nat) - 1 = 24" by simp
  ultimately show ?thesis unfolding Int32ToString_def Let_def e by (intro runs_bindI [of stackM] runs_stackM)
qed

text \<open>The first character of a numeral is not a zero.\<close>

lemma posDigits_last: "2 \<le> r \<Longrightarrow> 0 < n \<Longrightarrow> 0 < last (posDigits r n) \<and> last (posDigits r n) < r"
proof (induction r n rule: posDigits.induct)
  case (1 r n)
  show ?case
  proof (cases "n div r = 0")
    case True
    then have "n < r" using 1 by (simp add: div_eq_0_iff)
    then show ?thesis using 1 True by (simp add: posDigits.simps)
  next
    case False
    moreover from this have "posDigits r (n div r) \<noteq> []" using 1 by (subst posDigits.simps) simp
    ultimately show ?thesis using 1 by (simp add: posDigits.simps [of r n])
  qed
qed

lemma charOf_nonzero: "0 < d \<Longrightarrow> d < 36 \<Longrightarrow> charOf d \<noteq> of_char (CHR ''0'')"
proof
  assume d: "0 < d" "d < 36" and eq: "charOf d = of_char (CHR ''0'')"
  have "distinct radixDigits" "length radixDigits = 36" by (simp_all add: radixDigits_def)
  moreover have "charOf 0 = of_char (CHR ''0'')" by (simp add: radixDigits_def)
  ultimately show False using d eq nth_eq_iff_index_eq [of radixDigits d 0] by simp
qed

lemma printed_top:
  assumes out: "printedBefore rest N r X (length (posDigits r X)) (buf, pos)" and r: "2 \<le> r" "r \<le> 36" and X: "0 < X"
  shows "pos < N" and "buf ! pos \<noteq> of_char (CHR ''0'')"
proof -
  let ?p = "posDigits r X"
  have ne: "?p \<noteq> []" using r X by (subst posDigits.simps) simp
  then show pos: "pos < N" using out by (auto simp: printedBefore_def)
  then have "pos < length buf" using out by (simp add: printedBefore_def)
  then have "buf ! pos = hd (drop pos buf)" by (rule hd_drop_conv_nth [symmetric])
  also have "\<dots> = charOf (last ?p)"
    using out ne posDigits_low [OF r(1) X] by (simp add: printedBefore_def hd_append hd_rev last_map)
  finally show "buf ! pos \<noteq> of_char (CHR ''0'')" using charOf_nonzero posDigits_last [OF r(1) X] r(2) by simp
qed

lemma runs_toStringSingleDigitBaseTen:
  assumes d: "d \<noteq> 0" and E: "\<And>e. oom v e \<Longrightarrow> E e" and Q: "Q (toText 10 (withSign s (unat d)))"
  shows "runs (toStringSingleDigitBaseTen d s) v E Q"
proof (cases "d \<le> 2 ^ 31 - 1")
  case True
  let ?v = "ucast d :: u32"
  have dl: "unat d < 2 ^ 31" using True by (simp add: word_le_nat_alt)
  then have v: "unat ?v = unat d" by (simp add: unsigned_ucast_eq take_bit_nat_eq_self_iff)
  then have nz: "?v \<noteq> 0" using d by (metis unat_eq_zero)
  have "sint (if s then - ?v else ?v) = withSign s (unat d)" using sint_small [of ?v s] nz dl v by simp
  then have "runs (Int32ToString (if s then - ?v else ?v)) v E Q" using nz Q E by (intro runs_Int32ToString) auto
  then show ?thesis using True by (simp add: toStringSingleDigitBaseTen_def Let_def)
next
  case False
  let ?C = "length (posDigits 10 (unat d))"
  have pos: "0 < unat d" using d by (simp add: unat_gt_0)
  have len: "?C \<le> 20" using unat_less_Base [of d] by (intro length_decimal) (simp add: Base_def)
  have txt1: "toText 10 (withSign s (unat d)) = (if s then [minusChar] else []) @ rev (map charOf (lowDigits 10 ?C (unat d)))"
    unfolding toText_nonzero [OF pos] using pos by (simp only: posDigits_low)
  have "runs (whileE (\<lambda>(out, d). d \<noteq> 0)
      (\<lambda>(out, d). bindM (writeBack (charOf (unat (d mod 10))) out) (\<lambda>out. returnM (out, d div 10)))
      ((charBuffer mem 21, 21), d)) v E (\<lambda>(out, d'). printed 21 10 (unat d) ?C out)" for mem
    by (rule runs_digitLoop [where val = unat and r = 10 and X = "unat d" and N = 21 and L = 0 and rest = "[]"
        and nxt = "\<lambda>d. d div 10" and ch = "\<lambda>d. charOf (unat (d mod 10))"])
      (use len in \<open>auto simp: unat_div_distrib unat_mod_distrib unat_gt_0\<close>)
  note loop = this
  show ?thesis
    unfolding toStringSingleDigitBaseTen_def if_not_P [OF False] mozAssert_holds [OF d] Let_def
  proof (rule runs_bindI, rule runs_stackM, rule runs_bindM [OF loop], goal_cases)
    case (1 mem st)
    obtain buf p d' where st: "st = ((buf, p), d')" by (cases st) auto
    then have out: "printed 21 10 (unat d) ?C (buf, p)" using 1 by simp
    note top = printed_top [OF out _ _ pos, simplified]
    show ?case
      unfolding st prod.case using top
    proof (intro runs_mozAssert, goal_cases)
      case 3
      show ?case
      proof (rule runs_bindI, rule runs_sign [OF out], goal_cases)
        case (2 buf p)
        have "0 < ?C" using less_length_posDigits [of 10 0 "unat d"] pos by simp
        then have "p < 21" using 2(2) by linarith
        then show ?case using 2 E Q txt1 by (auto intro!: runs_intros runs_NewStringCopyN)
      qed (use len in simp)
    qed auto
  qed
qed


section \<open>Any radix\<close>

text \<open>
  The table brackets \<open>32 * log2 radix\<close>: the \<open>2\<close>-power below it bounds the characters of a number, the
  one above it the digits that a text needs.
\<close>

lemma maxBitsPerCharTable_bounds:
  assumes "2 \<le> r" "r \<le> 36"
  shows "2 ^ (maxBitsPerCharTable ! r - 1) \<le> r ^ 32 \<and> r ^ 32 \<le> 2 ^ (maxBitsPerCharTable ! r) \<and>
    32 \<le> maxBitsPerCharTable ! r \<and> maxBitsPerCharTable ! r \<le> 166"
  using radix_cases [OF assms] by (elim disjE) (simp_all add: maxBitsPerCharTable_def)

lemma unat_radix: "r \<le> 36 \<Longrightarrow> unat (of_nat r :: digit) = r"
  by (simp add: unat_of_nat)

lemma ceil_times:
  assumes "0 < (n :: nat)" "0 < t"
  shows "n \<le> (1 + (n - 1) div t) * t"
  using dividend_less_div_times [OF assms(2), of "n - 1"] assms(1) by simp

lemma char_count_enough:
  assumes r: "2 \<le> r" "r \<le> 36" and l: "0 < l" "X < 2 ^ l"
  shows "length (posDigits r X) \<le> 1 + (32 * l - 1) div (maxBitsPerCharTable ! r - 1)"
proof (rule length_posDigits_le [OF r(1)])
  let ?t = "maxBitsPerCharTable ! r - 1" let ?c = "1 + (32 * l - 1) div ?t"
  note t = maxBitsPerCharTable_bounds [OF r]
  have "32 * l \<le> ?c * ?t" using l t by (intro ceil_times) auto
  then have "(2 :: nat) ^ (l * 32) \<le> 2 ^ (?t * ?c)" by (intro power_increasing) (auto simp: mult.commute)
  also have "\<dots> = (2 ^ ?t) ^ ?c" by (rule power_mult)
  also have "\<dots> \<le> (r ^ 32) ^ ?c" using t by (intro power_mono) auto
  also have "\<dots> = (r ^ ?c) ^ 32" by (simp only: power_mult [symmetric] mult.commute)
  finally have "(2 ^ l) ^ 32 \<le> (r ^ ?c) ^ 32" by (simp only: power_mult)
  then have "2 ^ l \<le> r ^ ?c" using power_le_imp_le_base [of "2 ^ l" 31 "r ^ ?c"] by simp
  then show "X < r ^ ?c" using l(2) by simp
qed

lemma runs_calculateMaximumCharactersRequired:
  assumes wf: "wf x" and nz: "\<not> isZero x" and r: "2 \<le> r" "r \<le> 36"
    and Q: "\<And>n. length (posDigits r (dval (digits x))) \<le> n \<Longrightarrow> n < MAX_LENGTH \<Longrightarrow> Q (n + (if isNegative x then 1 else 0))"
  shows "runs (calculateMaximumCharactersRequired x r) v E Q"
proof -
  let ?k = "digitLength x - 1"
  let ?l = "digitLength x * 64 - DigitLeadingZeroes (digits x ! ?k)"
  let ?n = "1 + (32 * ?l - 1) div (maxBitsPerCharTable ! r - 1)"
  note l = bitLength_bounds [OF wf nz]
  have k: "?k < digitLength x" using nz by (simp add: isZero_iff)
  have "?n \<le> 1 + (32 * ?l - 1)" by (intro add_mono div_le_dividend) simp
  moreover have "?l \<le> 64 * 16384"
    using wf by (intro le_trans [OF l(2)]) (simp add: wf_def MaxDigitLength_def MaxBitLength_def DigitBits_def)
  moreover have "MAX_LENGTH = 1073741822" by (simp add: MAX_LENGTH_def)
  ultimately have "?n < MAX_LENGTH" by linarith
  then have "Q (?n + (if isNegative x then 1 else 0))" using char_count_enough [OF r l(1,4)] by (intro Q)
  moreover have "32 * ?l \<noteq> 0" using l(1) by simp
  ultimately show ?thesis
    using nz r unfolding calculateMaximumCharactersRequired_def Let_def digit_in_range [OF k] bindM_returnM
      DigitBits_def bitsPerCharTableMultiplier_def bitsPerCharTableShift_def CeilDiv_def
    by simp
qed

text \<open>The largest power of the radix that \<open>toStringInfo\<close> holds, with its exponent.\<close>

definition chunkExponent :: "nat \<Rightarrow> nat" where
  "chunkExponent r = (LEAST e. (2 ^ 64 - 1) div r \<le> r ^ e)"

lemma chunkExponent_reached:
  assumes r: "2 \<le> r"
  shows "(2 ^ 64 - 1) div r \<le> r ^ chunkExponent r" "e < chunkExponent r \<Longrightarrow> r ^ e < (2 ^ 64 - 1) div r"
proof -
  have "(2 ^ 64 - 1) div r \<le> (2 :: nat) ^ 64" by (rule le_trans [OF div_le_dividend]) simp
  also have "\<dots> \<le> r ^ 64" using r by (intro power_mono) auto
  finally show "(2 ^ 64 - 1) div r \<le> r ^ chunkExponent r" unfolding chunkExponent_def by (rule LeastI)
  show "e < chunkExponent r \<Longrightarrow> r ^ e < (2 ^ 64 - 1) div r"
    unfolding chunkExponent_def using not_less_Least not_le by blast
qed

lemma chunkExponent_pos:
  assumes r: "2 \<le> r" "r \<le> 36"
  shows "0 < chunkExponent r"
proof (rule ccontr)
  assume "\<not> 0 < chunkExponent r"
  then have "(2 ^ 64 - 1) div r \<le> 1" using chunkExponent_reached(1) [OF r(1)] by simp
  moreover have "(2 ^ 64 - 1) div 36 \<le> (2 ^ 64 - 1) div r" using r by (intro div_le_mono2) auto
  ultimately show False by simp
qed

lemma power_in_digit:
  assumes r: "2 \<le> r" and e: "e \<le> chunkExponent r"
  shows "r ^ e < 2 ^ 64"
proof (cases e)
  case 0
  then show ?thesis by simp
next
  case (Suc f)
  then have "r ^ f < (2 ^ 64 - 1) div r" using chunkExponent_reached(2) [OF r] e by simp
  then have "r ^ f * r \<le> (2 ^ 64 - 1) div r * r" by (intro mult_right_mono) auto
  also have "\<dots> \<le> 2 ^ 64 - 1" by simp
  finally show ?thesis using Suc by (simp add: mult.commute)
qed


lemma unat_max_div: "0 < r \<Longrightarrow> r \<le> 36 \<Longrightarrow> unat ((- 1 :: digit) div of_nat r) = (2 ^ 64 - 1) div r"
  by (simp add: unat_div_distrib unat_radix unsigned_minus_1_eq_mask mask_eq_exp_minus_1)

text \<open>One more multiplication stays below \<open>2^64\<close>, and nears the bound.\<close>

lemma power_step:
  assumes r: "2 \<le> r" "r \<le> 36" and d: "unat d = r ^ e" "\<forall>f < e. r ^ f < (2 ^ 64 - 1) div r"
    and less: "d < (- 1 :: digit) div of_nat r"
  shows "unat (d * of_nat r) = r ^ Suc e" "\<forall>f < Suc e. r ^ f < (2 ^ 64 - 1) div r" "unat d < unat (d * of_nat r)"
proof -
  have lt: "r ^ e < (2 ^ 64 - 1) div r"
    using less d(1) unat_max_div r by (simp add: word_less_nat_alt)
  then have "r ^ e * r \<le> (2 ^ 64 - 1) div r * r" by (intro mult_right_mono) auto
  also have "\<dots> \<le> 2 ^ 64 - 1" by simp
  finally have small: "r ^ e * r < Base" by (simp add: Base_def)
  show u: "unat (d * of_nat r) = r ^ Suc e"
    using small by (simp add: unat_times_digit unat_radix r d(1) mult.commute)
  show "\<forall>f < Suc e. r ^ f < (2 ^ 64 - 1) div r" using d(2) lt by (auto simp: less_Suc_eq)
  show "unat d < unat (d * of_nat r)" unfolding u d(1) using r by (intro power_strict_increasing) auto
qed

lemma power_stop:
  assumes r: "2 \<le> r" "r \<le> 36" and d: "unat d = r ^ e" "\<forall>f < e. r ^ f < (2 ^ 64 - 1) div r"
    and stop: "\<not> d < (- 1 :: digit) div of_nat r"
  shows "e = chunkExponent r"
proof -
  have "(2 ^ 64 - 1) div r \<le> r ^ e" using stop d(1) unat_max_div r by (simp add: word_less_nat_alt not_less)
  then have "chunkExponent r \<le> e" unfolding chunkExponent_def by (rule Least_le)
  moreover have "\<not> chunkExponent r < e" using d(2) chunkExponent_reached(1) [OF r(1)] by (auto simp: not_less)
  ultimately show ?thesis by simp
qed

lemma runs_MaxPowerInDigit:
  assumes r: "2 \<le> r" "r \<le> 36" and Q: "\<And>d. unat d = r ^ chunkExponent r \<Longrightarrow> Q d"
  shows "runs (MaxPowerInDigit r) v E Q"
  unfolding MaxPowerInDigit_def
proof (rule runs_whileM [where P = "\<lambda>d. \<exists>e. unat d = r ^ e \<and> (\<forall>f < e. r ^ f < (2 ^ 64 - 1) div r)"
      and f = "\<lambda>d. 2 ^ 64 - unat d"], goal_cases)
  case 1
  show ?case by (intro exI [of _ 0]) simp
next
  case (2 d)
  then show ?case using power_step [OF r] by blast
next
  case (3 d)
  then have "unat d < unat (d * of_nat r)" using power_step(3) [OF r] by blast
  then show ?case using unat_less_Base [of "d * of_nat r"] by (simp add: Base_def)
next
  case (4 d)
  then show ?case using power_stop [OF r] Q by blast
qed

lemma runs_MaxExponentInDigit:
  assumes r: "2 \<le> r" "r \<le> 36" and Q: "Q (chunkExponent r)"
  shows "runs (MaxExponentInDigit r) v E Q"
  unfolding MaxExponentInDigit_def
proof (rule runs_bindI, rule runs_whileM [where P = "\<lambda>(e, d). unat d = r ^ e \<and> (\<forall>f < e. r ^ f < (2 ^ 64 - 1) div r)"
      and f = "\<lambda>(e, d). 2 ^ 64 - unat d"], goal_cases)
  case (2 st)
  obtain e d where st: "st = (e, d)" by (cases st)
  show ?case using power_step(1,2) [OF r, of d e] 2 st by simp
next
  case (3 st)
  obtain e d where st: "st = (e, d)" by (cases st)
  have "unat d < unat (d * of_nat r)" using power_step(3) [OF r, of d e] 3 st by simp
  then show ?case using st unat_less_Base [of "d * of_nat r"] by (simp add: Base_def)
next
  case (4 st)
  then show ?case using power_stop [OF r] Q by (cases st) auto
qed simp

lemma runs_toStringInfo:
  assumes r: "2 \<le> r" "r \<le> 36"
    and Q: "\<And>d. unat d = r ^ chunkExponent r \<Longrightarrow> Q \<lparr>maxPowerInDigit = d, maxExponentInDigit = chunkExponent r\<rparr>"
  shows "runs (toStringInfo r) v E Q"
  using r Q unfolding toStringInfo_def
  by (auto intro!: runs_bindI runs_MaxPowerInDigit runs_MaxExponentInDigit)

text \<open>The characters of one chunk.\<close>

lemma chunk_digit:
  assumes "i < e"
  shows "(Y mod r ^ e) div r ^ i mod r = Y div r ^ i mod (r :: nat)"
proof -
  have "e = i + Suc (e - Suc i)" using assms by simp
  then have p: "r ^ e = r ^ i * (r * r ^ (e - Suc i))" by (metis power_Suc power_add)
  show ?thesis
  proof (cases "r = 0")
    case False
    have "(Y mod r ^ e) div r ^ i = Y div r ^ i mod (r * r ^ (e - Suc i))"
      unfolding p mod_mult2_eq using False by simp
    then show ?thesis by (simp add: mod_mod_cancel)
  qed (use assms in \<open>simp add: power_0_left\<close>)
qed

lemma runs_writeChunk:
  assumes r: "2 \<le> r" "r \<le> 36" and out: "printed N r X L out" and room: "L + e \<le> N"
    and c: "unat c = X div r ^ L mod r ^ e"
    and Q: "\<And>out. printed N r X (L + e) out \<Longrightarrow> Q (out, 0)"
  shows "runs (writeChunk r e (out, c)) v E Q"
  unfolding writeChunk_def
proof (rule runs_forUpI [where I = "\<lambda>i (out, c). printed N r X (L + i) out \<and> unat c = X div r ^ L mod r ^ e div r ^ i"],
    goal_cases)
  case (3 i st)
  obtain out c where st: "st = (out, c)" by (cases st)
  have out: "printed N r X (L + i) out" and uc: "unat c = X div r ^ L mod r ^ e div r ^ i" using 3 st by auto
  have d: "unat (c mod of_nat r) = X div r ^ (L + i) mod r"
    using chunk_digit [of i e "X div r ^ L" r] 3 r
    by (simp add: unat_mod_distrib unat_radix uc power_add div_mult2_eq)
  have "unat (c div of_nat r) = X div r ^ L mod r ^ e div r ^ Suc i"
    by (simp add: unat_div_distrib unat_radix r uc power_Suc2 div_mult2_eq del: power_Suc)
  then show ?case
    unfolding st prod.case using 3 room by (intro runs_bindI runs_printed [OF out _ d]) auto
next
  case (4 st)
  obtain out c where st: "st = (out, c)" by (cases st)
  have "c = 0" using 4 st r by (simp add: unat_eq_zero [symmetric])
  then show ?case using 4 st Q by simp
qed (use out c in auto)


text \<open>A division by a digit above 1 keeps the number of digits, in place or not.\<close>

lemma runs_divideChunk:
  assumes nz: "\<not> isZero x" "d \<noteq> 0" "d \<noteq> 1" and len: "digitLength x \<le> MaxDigitLength"
    and arg: "a = EmptyQuotient \<or> a = SameAsDividend" and E: "\<And>e. oom v e \<Longrightarrow> E e"
    and Q: "\<And>q r. digitLength q = digitLength x \<Longrightarrow> isNegative q = isNegative x \<Longrightarrow>
      dval (digits q) = dval (digits x) div unat d \<Longrightarrow> unat r = dval (digits x) mod unat d \<Longrightarrow> Q (Some q, r)"
  shows "runs (absoluteDivWithDigitDivisor x d a (isNegative x)) v E Q"
proof -
  have done1: "Q (Some q, r)" if "digitLength q = digitLength x" "isNegative q = isNegative x" "unat r < unat d"
    "dval (digits x) = dval (digits q) * unat d + unat r" for q r
    using that by (intro Q) auto
  from arg show ?thesis
  proof
    assume "a = EmptyQuotient"
    then show ?thesis
      using nz E len done1
      by (auto simp: absoluteDivWithDigitDivisor_def sourceDigits_def Let_def
          intro!: runs_bindI runs_createUninitialized runs_divDigitLoop)
  next
    assume "a = SameAsDividend"
    then show ?thesis
      using nz done1
      by (auto simp: absoluteDivWithDigitDivisor_def sourceDigits_def Let_def intro!: runs_bindI runs_divDigitLoop)
  qed
qed

lemma top_digit_zero:
  assumes n: "n < length ds" and lt: "dval ds < Base ^ Suc n"
  shows "ds ! n = 0 \<longleftrightarrow> dval ds < Base ^ n"
proof -
  have "dval (drop (Suc n) ds) = 0" using lt by (simp add: dval_drop_div del: power_Suc)
  then have "dval (drop n ds) = unat (ds ! n)" using dval_drop_Suc [OF n] by simp
  then have "unat (ds ! n) = dval ds div Base ^ n" by (simp add: dval_drop_div)
  then have "unat (ds ! n) = 0 \<longleftrightarrow> dval ds < Base ^ n" by (simp add: div_eq_0_iff)
  then show ?thesis by (simp add: unat_eq_zero)
qed

lemma divide_keeps_digit:
  assumes n: "0 < n" and X: "Base ^ n \<le> X" and D: "0 < D" "D < Base"
  shows "Base ^ (n - 1) \<le> X div D"
proof -
  have "Base ^ (n - 1) * D \<le> Base ^ (n - 1) * Base" using D by (intro mult_left_mono) auto
  also have "\<dots> = Base ^ n" using n by (cases n) (auto simp: mult.commute)
  also note X
  finally have "Base ^ (n - 1) * D div D \<le> X div D" by (rule div_le_mono)
  then show ?thesis using D(1) by simp
qed

definition chunkInv :: "nat \<Rightarrow> nat \<Rightarrow> bigint \<Rightarrow> bigint \<times> (jschars \<times> nat) \<times> nat \<Rightarrow> bool" where
  "chunkInv N r x = (\<lambda>(rest, out, n). \<exists>L. printed N r (dval (digits x)) L out \<and>
     dval (digits rest) = dval (digits x) div r ^ L \<and> digitLength rest = digitLength x \<and>
     isNegative rest = isNegative x \<and> n < digitLength x \<and>
     Base ^ n \<le> dval (digits rest) \<and> dval (digits rest) < Base ^ Suc n)"

lemma runs_chunkRound:
  assumes r: "2 \<le> r" "r \<le> 36" and D: "unat D = r ^ chunkExponent r"
    and N: "length (posDigits r (dval (digits x))) \<le> N" and len: "digitLength x \<le> MaxDigitLength"
    and inv: "chunkInv N r x (y, out, n)" and n: "0 < n"
    and arg: "a = EmptyQuotient \<or> a = SameAsDividend" and E: "\<And>e. oom v e \<Longrightarrow> E e"
    and Q: "\<And>q out m. chunkInv N r x (q, out, m) \<Longrightarrow> dval (digits q) < dval (digits y) \<Longrightarrow> Q (q, out, m)"
  shows "runs (chunkRound r \<lparr>maxPowerInDigit = D, maxExponentInDigit = chunkExponent r\<rparr> a (y, out, n)) v E Q"
proof -
  let ?X = "dval (digits x)" and ?e = "chunkExponent r"
  obtain L where L: "printed N r ?X L out" "dval (digits y) = ?X div r ^ L" "digitLength y = digitLength x"
    "isNegative y = isNegative x" "n < digitLength x" "Base ^ n \<le> dval (digits y)" "dval (digits y) < Base ^ Suc n"
    using inv by (auto simp: chunkInv_def)
  have "r ^ 1 \<le> r ^ ?e" using chunkExponent_pos [OF r] r by (intro power_increasing) auto
  then have D2: "2 \<le> unat D" using r D by simp
  then have Dnz: "D \<noteq> 0" "D \<noteq> 1" by auto
  have nz: "\<not> isZero y" using L(3,5) unfolding isZero_def by linarith
  show ?thesis
    unfolding chunkRound_def prod.case RadixInfo.simps
  proof (rule runs_bindI, rule runs_divideChunk [OF nz Dnz], goal_cases)
    case (4 q c)
    have qv: "dval (digits q) = ?X div r ^ (L + ?e)" unfolding 4(3) L(2) D by (simp add: power_add div_mult2_eq)
    have keep: "Base ^ (n - 1) \<le> dval (digits q)"
      unfolding 4(3) using L(6) n D2 unat_less_Base by (intro divide_keeps_digit) auto
    then have "0 < dval (digits q)" by (rule less_le_trans [rotated]) simp
    then have "r ^ (L + ?e) \<le> ?X" unfolding qv by (simp add: div_greater_zero_iff)
    then have room: "L + ?e \<le> N" using less_length_posDigits [OF r(1)] N by (meson le_trans less_imp_le)
    have q: "dval (digits q) < dval (digits y)"
      unfolding 4(3) using D2 L(6) by (intro div_less_dividend) (auto intro: less_le_trans [of 0 "Base ^ n"])
    then have lt: "dval (digits q) < Base ^ Suc n" using L(7) by simp
    have ql: "digitLength q = digitLength x" "n < digitLength q" "n - 1 < digitLength q" using 4 L by auto
    note top = top_digit_zero [OF ql(2) lt]
    show ?case
      unfolding prod.case option.case
    proof (rule runs_bindI, rule runs_writeChunk [OF r L(1) room], use 4(4) L(2) D in simp, goal_cases)
      case (1 out')
      let ?m = "if digits q ! n = 0 then n - 1 else n"
      have "Suc (n - 1) = n" using n by simp
      then have m: "Base ^ ?m \<le> dval (digits q)" "dval (digits q) < Base ^ Suc ?m" "?m < digitLength q"
        using top keep lt ql n by (auto simp: not_less simp del: power_Suc)
      then have "digits q ! ?m \<noteq> 0" using top_digit_zero [OF m(3,2)] by simp
      moreover have "chunkInv N r x (q, out', ?m)"
        unfolding chunkInv_def using 1 qv m ql 4 L by auto
      ultimately show ?case using Q q ql m(3) by (simp add: Let_def)
    qed
  qed (use arg len L E in auto)
qed


lemma runs_chunks:
  assumes wf: "wf x" and r: "2 \<le> r" "r \<le> 36" and D: "unat D = r ^ chunkExponent r"
    and N: "length (posDigits r (dval (digits x))) \<le> N" and len: "1 < digitLength x"
    and E: "\<And>e. oom v e \<Longrightarrow> E e" and out: "printed N r (dval (digits x)) 0 out"
    and Q: "\<And>q out. chunkInv N r x (q, out, 0) \<Longrightarrow> Q (q, out, 0)"
  shows "runs (bindM (chunkRound r \<lparr>maxPowerInDigit = D, maxExponentInDigit = chunkExponent r\<rparr> EmptyQuotient
        (x, out, digitLength x - 1))
      (whileE (\<lambda>(rest, out, n). n > 0)
        (chunkRound r \<lparr>maxPowerInDigit = D, maxExponentInDigit = chunkExponent r\<rparr> SameAsDividend))) v E Q"
proof (rule runs_bindI, rule runs_chunkRound [OF r D N], goal_cases)
  case 1
  then show ?case using wf by (simp add: wf_def)
next
  case 2
  have "Base ^ (digitLength x - 1) \<le> dval (digits x)"
    using wf len by (intro dval_ge_top) (auto simp: wf_def HasLeadingZeroes_def)
  moreover have "Suc (digitLength x - 1) = digitLength x" using len by simp
  then have "dval (digits x) < Base ^ Suc (digitLength x - 1)" using dval_less [of "digits x"] by (simp only:)
  ultimately show ?case using out len by (auto simp: chunkInv_def simp del: power_Suc intro!: exI [of _ 0])
next
  case (6 q out n)
  show ?case
  proof (rule runs_whileE [where P = "chunkInv N r x" and f = "\<lambda>(q, out, n). dval (digits q)"], goal_cases)
    case (2 s)
    obtain q out n where s: "s = (q, out, n)" by (cases s)
    show ?case
      unfolding s using 2 s wf E by (intro runs_chunkRound [OF r D N]) (auto simp: wf_def)
  next
    case (3 s)
    then show ?case using Q by (cases s) auto
  qed (use 6 in auto)
qed (use len E in auto)

lemma runs_lastDigits:
  assumes r: "2 \<le> r" "r \<le> 36" and N: "length (posDigits r X) \<le> N"
    and out: "printed N r X L out" "unat d = X div r ^ L" and d: "0 < unat d"
    and Q: "\<And>out d. printed N r X (length (posDigits r X)) out \<Longrightarrow> Q (out, d)"
  shows "runs (bindM (lastDigitStep r (out, d)) (whileE (\<lambda>(out, d). d > 0) (lastDigitStep r))) v E Q"
proof -
  have "r ^ L \<le> X" using d out(2) by (simp add: div_greater_zero_iff)
  moreover have "r ^ (L - 1) \<le> r ^ L" using r by (intro power_increasing) auto
  ultimately have p: "r ^ (L - 1) \<le> X" by simp
  have "runs (whileE (\<lambda>(out, d). d > 0) (lastDigitStep r) (out, d)) v E Q"
    by (rule runs_digitLoop [where val = unat and r = r and X = X and N = N and L = L and rest = "[]"
        and nxt = "\<lambda>d. d div of_nat r" and ch = "\<lambda>d. charOf (unat (d mod of_nat r))"])
      (use assms p in \<open>auto simp: lastDigitStep_def unat_div_distrib unat_mod_distrib unat_radix unat_gt_0 word_neq_0_conv\<close>)
  then show ?thesis using d by (simp add: doWhile_eq unat_gt_0 word_neq_0_conv)
qed

lemma runs_toStringGeneric:
  assumes wf: "wf x" and nz: "\<not> isZero x" and r: "2 \<le> r" "r \<le> 36"
    and E: "\<And>e. oom v e \<Longrightarrow> E e" and Q: "Q (toText r (bval x))"
  shows "runs (toStringGeneric x r) v E Q"
proof -
  let ?X = "dval (digits x)" let ?C = "length (posDigits r ?X)"
  have pos: "0 < ?X" using wf_digits_pos [OF wf nz] .
  have k: "0 < digitLength x" using nz by (simp add: isZero_iff)
  have txt1: "toText r (bval x) = (if isNegative x then [minusChar] else []) @ rev (map charOf (lowDigits r ?C ?X))"
    unfolding bval_def toText_nonzero [OF pos] posDigits_low [OF r(1) pos] ..
  have C: "0 < ?C" using less_length_posDigits [of r 0 ?X] pos r by simp
  have r': "2 \<le> r \<and> r \<le> 36" using r by simp
  have lastDigit: "runs (if digitLength x = 1 then bindM (digit x 0) (\<lambda>lastDigit. returnM (out, lastDigit))
          else
            bindM (toStringInfo r) (\<lambda>info.
            bindM (digit x (digitLength x - 1)) (\<lambda>d.
            mozAssert (d \<noteq> 0) (
            bindM (bindM (chunkRound r info EmptyQuotient (x, out, digitLength x - 1))
                     (whileE (\<lambda>(rest, out, nonZeroDigit). nonZeroDigit > 0) (chunkRound r info SameAsDividend)))
              (\<lambda>(rest, out, nonZeroDigit).
            bindM (digit rest 0) (\<lambda>lastDigit. returnM (out, lastDigit))))))) v E
        (\<lambda>(out, d). 0 < unat d \<and> (\<exists>L. printed N r ?X L out \<and> unat d = ?X div r ^ L))"
    if out: "printed N r ?X 0 out" and N: "?C \<le> N" for out N
  proof (cases "digitLength x = 1")
    case True
    then obtain d where d: "digits x = [d]" by (auto simp: length_Suc_conv)
    then show ?thesis using out pos by (auto intro!: exI [of _ 0])
  next
    case False
    have top: "digits x ! (digitLength x - 1) \<noteq> 0" using wf k by (simp add: wf_def HasLeadingZeroes_def)
    show ?thesis
      unfolding if_not_P [OF False]
    proof (rule runs_bindI, rule runs_toStringInfo [OF r], goal_cases)
      case (1 D)
      have "runs (case st of (rest, out, nonZeroDigit) \<Rightarrow> bindM (digit rest 0) (\<lambda>lastDigit. returnM (out, lastDigit))) v E
          (\<lambda>(out, d). 0 < unat d \<and> (\<exists>L. printed N r ?X L out \<and> unat d = ?X div r ^ L))"
        if st: "st = (q, out, 0)" and inv: "chunkInv N r x (q, out, 0)" for st q out
      proof -
        have q: "0 < digitLength q" "0 < dval (digits q)" "dval (digits q) < Base"
          using inv k by (auto simp: chunkInv_def)
        then have "unat (digits q ! 0) = dval (digits q)" using dval_mod_Base [of "digits q"] by simp
        then show ?thesis using st q inv by (auto simp: chunkInv_def)
      qed
      note rest = this
      have last: "digit x (digitLength x - 1) = returnM (digits x ! (digitLength x - 1))" using k by simp
      show ?case
        unfolding last bindM_returnM mozAssert_holds [OF top]
      proof (rule runs_bindI, rule runs_chunks [OF wf r 1 N], goal_cases)
        case 1
        then show ?case using False k by linarith
      next
        case (4 q out)
        show ?case by (rule rest [OF refl 4])
      qed (use E out in auto)
    qed
  qed
  have finish: "runs (mozAssert (writePos < M) (
       bindM (whileM (\<lambda>writePos. writePos + 1 < M \<and> buf ! writePos = of_char (CHR ''0'')) Suc writePos) (\<lambda>writePos.
       bindM (if isNegative x then writeBack minusChar (buf, writePos) else returnM (buf, writePos)) (\<lambda>(buf, writePos).
       mozAssert (writePos < M) (
       NewStringCopyN (drop writePos buf)))))) v E Q"
    if out: "printed M r ?X ?C (buf, writePos)" and room: "isNegative x \<Longrightarrow> ?C < M" for buf writePos M
  proof -
    note top = printed_top [OF out r pos]
    have skip: "whileM (\<lambda>writePos. writePos + 1 < M \<and> buf ! writePos = of_char (CHR ''0'')) Suc writePos = returnM writePos"
      using top by (intro whileM_stop) simp
    show ?thesis
      unfolding skip bindM_returnM mozAssert_holds [OF top(1)]
    proof (rule runs_bindI, rule runs_sign [OF out room], assumption, goal_cases)
      case (1 buf p)
      have "p < M" using 1(2) C by linarith
      then show ?case using 1 E Q txt1 by (auto intro!: runs_intros runs_NewStringCopyN)
    qed
  qed
  show ?thesis
    unfolding toStringGeneric_def mozAssert_holds [OF r'] mozAssert_holds [OF nz] Let_def
  proof (rule runs_bindI, rule runs_calculateMaximumCharactersRequired [OF wf nz r], goal_cases)
    case (1 n)
    let ?N = "n + (if isNegative x then 1 else 0)"
    have small: "\<not> MAX_LENGTH < ?N" using 1(2) by simp
    have N: "?C \<le> ?N" using 1(1) by simp
    show ?case
      unfolding if_not_P [OF small]
    proof (rule runs_bindI, rule runs_allocM, use E in blast, rule runs_bindM [OF lastDigit [OF printed_start N]], goal_cases)
      case (1 mem st)
      obtain out d where st: "st = (out, d)" by (cases st)
      obtain L where L: "printed ?N r ?X L out" "unat d = ?X div r ^ L" "0 < unat d" using 1 st by auto
      show ?case
        unfolding st prod.case
      proof (rule runs_bindI, rule runs_lastDigits [OF r N L], goal_cases)
        case (1 out d)
        obtain buf p where out: "out = (buf, p)" by (cases out)
        show ?case
          unfolding out prod.case using 1 out \<open>?C \<le> n\<close> by (intro finish) simp_all
      qed
    qed
  qed
qed


lemma runs_toString:
  assumes wf: "wf x" and r: "2 \<le> r" "r \<le> 36" and E: "\<And>e. oom v e \<Longrightarrow> E e"
    and Q: "Q (Some (toText r (bval x)))"
    and none: "\<not> gc \<Longrightarrow> \<not> IsPowerOfTwo (of_nat r) \<Longrightarrow> (r = 10 \<Longrightarrow> 1 < digitLength x) \<Longrightarrow> Q None"
  shows "runs (toString gc x r) v E Q"
proof (cases "isZero x")
  case True
  then have "bval x = 0" using wf_bval_0 [OF wf] by simp
  then show ?thesis using True r Q by (simp add: toString_def toText_def)
next
  case nz: False
  then have k: "0 < digitLength x" by (simp add: isZero_iff)
  have r': "2 \<le> r \<and> r \<le> 36" using r by simp
  show ?thesis
    unfolding toString_def mozAssert_holds [OF r'] if_not_P [OF nz]
  proof (intro runs_if, goal_cases)
    case 1
    then show ?case using wf nz r E Q by (auto intro!: runs_bindI runs_toStringBasePowerOfTwo)
  next
    case 2
    then obtain d where d: "digits x = [d]" "d \<noteq> 0"
      using wf nz by (auto simp: length_Suc_conv wf_def HasLeadingZeroes_def)
    then have "bval x = withSign (isNegative x) (unat d)" by (simp add: bval_def)
    then show ?case using 2 d E Q by (auto intro!: runs_bindI runs_toStringSingleDigitBaseTen)
  next
    case 3
    have "1 < digitLength x" if "r = 10" using 3(2) that k by linarith
    then show ?case using 3 none by simp
  next
    case 4
    then show ?case using wf nz r E Q by (auto intro!: runs_bindI runs_toStringGeneric)
  qed
qed

section \<open>Properties\<close>

text \<open>
  C15. \<open>BigInt::toString\<close> returns the numeral of the value in every radix from 2 to 36, on each of
  its paths (shifting bits out for powers of two, one machine integer, chunks of digits); it never
  writes outside its buffer, each loop ends, and it stops only when memory runs out.
\<close>

theorem toString_correct:
  assumes "wf x" and "2 \<le> radix" and "radix \<le> 36"
  shows "runs (toString True x radix) v (oom v) (\<lambda>s. s = Some (toText radix (bval x)))"
  using assms by (intro runs_toString) auto

theorem toString_correct_witness:
  "runs (toString True \<lparr>digits = [0, 1], isNegative = True\<rparr> 10) plenty (\<lambda>e. False)
    (\<lambda>s. s = Some (toText 10 (- (2 ^ 64))))"
  using toString_correct [of "\<lparr>digits = [0, 1], isNegative = True\<rparr>" 10 plenty]
  by (simp add: wf_eval bval_eval oom_plenty_fun)

text \<open>
  Without garbage collection \<open>BigInt::toString\<close> either returns the same numeral or gives up, and
  it gives up only for a radix that is not a power of two, and in radix 10 only on two digits or more.
\<close>

theorem toString_no_gc:
  assumes "wf x" and "2 \<le> radix" and "radix \<le> 36"
  shows "runs (toString False x radix) v (oom v) (\<lambda>s. case s of Some t \<Rightarrow> t = toText radix (bval x)
    | None \<Rightarrow> \<not> IsPowerOfTwo (of_nat radix) \<and> (radix = 10 \<longrightarrow> 1 < digitLength x))"
  using assms by (intro runs_toString) auto

theorem toString_no_gc_witness:
  "runs (toString False \<lparr>digits = [255], isNegative = False\<rparr> 16) plenty (\<lambda>e. False)
    (\<lambda>s. s = Some (toText 16 255))"
proof -
  have p: "IsPowerOfTwo (of_nat 16)" by (simp add: IsPowerOfTwo_def)
  have x: "wf \<lparr>digits = [255], isNegative = False\<rparr>" "bval \<lparr>digits = [255], isNegative = False\<rparr> = 255"
    by (simp_all add: wf_eval bval_eval)
  show ?thesis
    by (rule runs_weaken [OF toString_no_gc [OF x(1), of 16]]) (use p x in \<open>auto simp: oom_plenty split: option.splits\<close>)
qed

text \<open>
  \<open>calculateMaximumCharactersRequired\<close> never returns less than the characters of the numeral and
  its sign, although it only looks at the bit length and at a table of rounded logarithms.
\<close>

theorem calculateMaximumCharactersRequired_enough:
  assumes "wf x" and "\<not> isZero x" and "2 \<le> radix" and "radix \<le> 36"
  shows "runs (calculateMaximumCharactersRequired x radix) v E
    (\<lambda>n. length (toText radix (bval x)) \<le> n \<and> n \<le> MAX_LENGTH)"
proof (rule runs_calculateMaximumCharactersRequired [OF assms])
  fix n assume n: "length (posDigits radix (dval (digits x))) \<le> n" "n < MAX_LENGTH"
  have "toText radix (bval x) = (if isNegative x then [minusChar] else []) @ rev (map charOf (posDigits radix (dval (digits x))))"
    unfolding bval_def using wf_digits_pos [OF assms(1,2)] by (rule toText_nonzero)
  then show "length (toText radix (bval x)) \<le> n + (if isNegative x then 1 else 0) \<and>
      n + (if isNegative x then 1 else 0) \<le> MAX_LENGTH" using n by auto
qed

theorem calculateMaximumCharactersRequired_enough_witness:
  "runs (calculateMaximumCharactersRequired \<lparr>digits = [7, 1], isNegative = True\<rparr> 7) plenty (\<lambda>e. False)
    (\<lambda>n. length (toText 7 (- (2 ^ 64) - 7)) \<le> n \<and> n \<le> MAX_LENGTH)"
  using calculateMaximumCharactersRequired_enough [of "\<lparr>digits = [7, 1], isNegative = True\<rparr>" 7 plenty]
  by (simp add: wf_eval bval_eval)

end
