(* ===== verification/BigInt_Parse.thy ===== *)
theory BigInt_Parse
  imports BigInt_ToString
begin

text \<open>
  BigInt literals and strings: \<open>calculateMaximumDigitsRequired\<close>, \<open>parseLiteralDigits\<close>,
  \<open>parseLiteral\<close>, \<open>literalIsZero\<close>, \<open>ParseStringBigIntLiteral\<close>, \<open>StringToBigInt\<close> and
  \<open>ParseBigIntLiteral\<close> of \<open>js/src/vm/BigIntType.cpp\<close>, with \<open>unicode::IsSpace\<close>
  (\<open>js/src/util/Unicode.h\<close>).  A parser returns \<open>None\<close> when the code sets \<open>*haveParseError\<close>.  The
  properties relate the parsers to the value of a digit string and to \<open>toString\<close>.
\<close>

section \<open>Operations\<close>

definition calculateMaximumDigitsRequired :: "nat \<Rightarrow> nat \<Rightarrow> nat eng" where
  "calculateMaximumDigitsRequired radix charcount =
     mozAssert (2 \<le> radix \<and> radix \<le> 36) (
     let bitsPerChar = maxBitsPerCharTable ! radix in
     mozAssert (charcount > 0) (
     mozAssert (charcount \<le> (2 ^ 64 - 1) div bitsPerChar) (
     bindM (CeilDiv (charcount * bitsPerChar) (DigitBits * bitsPerCharTableMultiplier)) (\<lambda>n.
     if n > MaxDigitLength then throwM OutOfMemory else returnM n))))"

text \<open>\<open>while (start[0] == '0')\<close>, up to the end of the characters.\<close>

primrec skipLeadingZeroes :: "jschars \<Rightarrow> jschars" where
  "skipLeadingZeroes [] = []"
| "skipLeadingZeroes (c # cs) = (if c = of_char (CHR ''0'') then skipLeadingZeroes cs else c # cs)"

text \<open>The limits are computed in \<open>unsigned\<close> arithmetic: for a radix below 10, \<open>radix - 10\<close> wraps around.\<close>

definition charDigit :: "nat \<Rightarrow> u16 \<Rightarrow> u32 option" where
  "charDigit radix ch =
     (let limit0 = of_char (CHR ''0'') + min (of_nat radix) 10;
          limita = of_char (CHR ''a'') + (of_nat radix - 10);
          limitA = of_char (CHR ''A'') + (of_nat radix - 10);
          c = ucast ch :: u32
      in if c \<ge> of_char (CHR ''0'') \<and> c < limit0 then Some (c - of_char (CHR ''0''))
         else if c \<ge> of_char (CHR ''a'') \<and> c < limita then Some (c - of_char (CHR ''a'') + 10)
         else if c \<ge> of_char (CHR ''A'') \<and> c < limitA then Some (c - of_char (CHR ''A'') + 10)
         else None)"

primrec parseDigitsLoop :: "nat \<Rightarrow> jschars \<Rightarrow> bigint \<Rightarrow> bigint option eng" where
  "parseDigitsLoop radix [] result = returnM (Some result)"
| "parseDigitsLoop radix (c # cs) result =
     (case charDigit radix c of
        None \<Rightarrow> returnM None
      | Some d \<Rightarrow> bindM (inplaceMultiplyAdd result (of_nat radix) (ucast d)) (parseDigitsLoop radix cs))"

definition parseLiteralDigits :: "jschars \<Rightarrow> nat \<Rightarrow> bool \<Rightarrow> bigint option eng" where
  "parseLiteralDigits chars radix isNeg =
     mozAssert (chars \<noteq> []) (
     let rest = skipLeadingZeroes chars in
     if rest = [] then bindM zero (\<lambda>z. returnM (Some z))
     else
       bindM (calculateMaximumDigitsRequired radix (length rest)) (\<lambda>len.
       bindM (createUninitialized len isNeg) (\<lambda>result.
       let result = initializeDigitsToZero result in
       bindM (parseDigitsLoop radix rest result) (\<lambda>parsed.
       case parsed of
         None \<Rightarrow> returnM None
       | Some result \<Rightarrow> bindM (destructivelyTrimHighZeroDigits result) (\<lambda>r. returnM (Some r))))))"

definition parseLiteral :: "jschars \<Rightarrow> bigint option eng" where
  "parseLiteral chars =
     mozAssert (chars \<noteq> []) (
     if length chars > 2 \<and> chars ! 0 = of_char (CHR ''0'') then
       (if chars ! 1 = of_char (CHR ''b'') \<or> chars ! 1 = of_char (CHR ''B'')
        then parseLiteralDigits (drop 2 chars) 2 False
        else if chars ! 1 = of_char (CHR ''x'') \<or> chars ! 1 = of_char (CHR ''X'')
        then parseLiteralDigits (drop 2 chars) 16 False
        else if chars ! 1 = of_char (CHR ''o'') \<or> chars ! 1 = of_char (CHR ''O'')
        then parseLiteralDigits (drop 2 chars) 8 False
        else parseLiteralDigits chars 10 False)
     else parseLiteralDigits chars 10 False)"

definition literalIsZeroNoRadix :: "jschars \<Rightarrow> bool eng" where
  "literalIsZeroNoRadix chars = mozAssert (chars \<noteq> []) (returnM (skipLeadingZeroes chars = []))"

definition literalIsZero :: "jschars \<Rightarrow> bool eng" where
  "literalIsZero chars =
     mozAssert (chars \<noteq> []) (
     if length chars > 2 \<and> chars ! 0 = of_char (CHR ''0'') \<and>
        chars ! 1 \<in> set (map of_char ''bBxXoO'')
     then literalIsZeroNoRadix (drop 2 chars)
     else literalIsZeroNoRadix chars)"

text \<open>
  \<open>unicode::IsSpace(char16_t)\<close>: the table \<open>js_isspace\<close> below 128, no-break space, and the code units
  whose \<open>CharacterInfo\<close> carries the \<open>SPACE\<close> flag.
\<close>

definition IsSpace :: "u16 \<Rightarrow> bool" where
  "IsSpace ch \<longleftrightarrow>
     (if ch < 128 then ch \<in> {9, 10, 11, 12, 13, 32}
      else if ch = 0xA0 then True
      else ch \<in> {0x1680, 0x2000, 0x2001, 0x2002, 0x2003, 0x2004, 0x2005, 0x2006, 0x2007, 0x2008, 0x2009,
        0x200A, 0x2028, 0x2029, 0x202F, 0x205F, 0x3000, 0xFEFF})"

text \<open>Moving \<open>start\<close> up and \<open>end\<close> down over space.\<close>

definition trimSpace :: "jschars \<Rightarrow> jschars" where
  "trimSpace cs = rev (dropWhile IsSpace (rev (dropWhile IsSpace cs)))"

definition ParseStringBigIntLiteral :: "jschars \<Rightarrow> bigint option eng" where
  "ParseStringBigIntLiteral str =
     (let chars = trimSpace str in
      if chars = [] then bindM zero (\<lambda>z. returnM (Some z))
      else if length chars > 1 \<and> chars ! 0 = of_char (CHR ''+'') then parseLiteralDigits (drop 1 chars) 10 False
      else if length chars > 1 \<and> chars ! 0 = of_char (CHR ''-'') then parseLiteralDigits (drop 1 chars) 10 True
      else parseLiteral chars)"

text \<open>
  A rope is linearised first, and the characters are copied when they could move; either may run out
  of memory.  \<open>None\<close> is the null result of a syntax error.
\<close>

definition StringToBigInt :: "bool \<Rightarrow> bool \<Rightarrow> jschars \<Rightarrow> bigint option eng" where
  "StringToBigInt isRope needsCopy str =
     bindM (if isRope then bindM allocM (\<lambda>mem. returnM ()) else returnM ()) (\<lambda>linear.
     bindM (if needsCopy then bindM allocM (\<lambda>mem. returnM ()) else returnM ()) (\<lambda>chars.
     ParseStringBigIntLiteral str))"

definition ParseBigIntLiteral :: "jschars \<Rightarrow> bigint option eng" where
  "ParseBigIntLiteral chars = parseLiteral chars"

definition BigIntLiteralIsZero :: "jschars \<Rightarrow> bool eng" where
  "BigIntLiteralIsZero chars = literalIsZero chars"

section \<open>The value of a digit string\<close>

text \<open>
  What the text of a number in base \<open>r\<close> stands for; \<open>None\<close> when a character is not a digit.
\<close>

definition lowerDigits :: string where
  "lowerDigits = ''0123456789abcdefghijklmnopqrstuvwxyz''"

definition upperDigits :: string where
  "upperDigits = ''0123456789ABCDEFGHIJKLMNOPQRSTUVWXYZ''"

text \<open>The value of a digit in base \<open>r\<close>: its place among the first \<open>r\<close> characters of either alphabet.\<close>

definition digitValue :: "nat \<Rightarrow> u16 \<Rightarrow> nat option" where
  "digitValue r c = List.find (\<lambda>d. c = of_char (lowerDigits ! d) \<or> c = of_char (upperDigits ! d)) [0..<r]"

fun textValue :: "nat \<Rightarrow> nat \<Rightarrow> jschars \<Rightarrow> nat option" where
  "textValue r acc [] = Some acc"
| "textValue r acc (c # cs) =
     (case digitValue r c of None \<Rightarrow> None | Some d \<Rightarrow> textValue r (acc * r + d) cs)"


section \<open>Characters\<close>

lemma unat_u16_u32: "unat (ucast (c :: u16) :: u32) = unat c"
  using unsigned_less [of c, where ?'a = nat] by (simp add: unsigned_ucast_eq take_bit_nat_eq_self_iff)

lemma charDigit_nat:
  assumes "2 \<le> r" "r \<le> 36" and n: "unat ch = n"
  shows "charDigit r ch =
    (if 48 \<le> n \<and> n < 48 + min r 10 then Some (of_nat (n - 48))
     else if 97 \<le> n \<and> n < r + 87 then Some (of_nat (n - 87))
     else if 65 \<le> n \<and> n < r + 55 then Some (of_nat (n - 55))
     else None)"
proof -
  have c: "(ucast ch :: u32) = of_nat n" unfolding n [symmetric] by simp
  have u: "unat (of_nat n :: u32) = n" using unat_u16_u32 [of ch] n c by simp
  have lim: "unat (48 + min (of_nat r) 10 :: u32) = 48 + min r 10"
    "unat (97 + (of_nat r - 10) :: u32) = r + 87" "unat (65 + (of_nat r - 10) :: u32) = r + 55"
    using radix_cases [OF assms(1,2)] by (elim disjE; simp)+
  have sub: "48 \<le> n \<Longrightarrow> of_nat n - 48 = (of_nat (n - 48) :: u32)"
    "97 \<le> n \<Longrightarrow> of_nat n - 97 + 10 = (of_nat (n - 87) :: u32)"
    "65 \<le> n \<Longrightarrow> of_nat n - 65 + 10 = (of_nat (n - 55) :: u32)"
    by (simp_all add: of_nat_diff)
  show ?thesis
    unfolding charDigit_def Let_def c word_le_nat_alt word_less_nat_alt u
    using lim sub by simp
qed

text \<open>\<open>charDigit\<close> finds the value of every digit.\<close>

lemma unat_digitChars:
  assumes "d < 36"
  shows "unat (of_char (lowerDigits ! d) :: u16) = (if d < 10 then 48 + d else 87 + d)"
    and "unat (of_char (upperDigits ! d) :: u16) = (if d < 10 then 48 + d else 55 + d)"
proof -
  have "d = 0 \<or> d = 1 \<or> 2 \<le> d \<and> d \<le> 36" using assms by linarith
  then show "unat (of_char (lowerDigits ! d) :: u16) = (if d < 10 then 48 + d else 87 + d)"
    and "unat (of_char (upperDigits ! d) :: u16) = (if d < 10 then 48 + d else 55 + d)"
    using assms radix_cases [of d] by (elim disjE; simp add: lowerDigits_def upperDigits_def)+
qed

lemma digitValue_charDigit:
  assumes r: "2 \<le> r" "r \<le> 36"
  shows "digitValue r ch = map_option unat (charDigit r ch)"
proof -
  obtain n where n: "unat ch = n" by simp
  have "n < 2 ^ 16" using n unsigned_less [of ch, where ?'a = nat] by simp
  then have u: "unat (of_nat (n - m) :: u32) = n - m" for m by (simp add: unat_of_nat del: of_nat_diff)
  have place: "(ch = of_char (lowerDigits ! d) \<or> ch = of_char (upperDigits ! d)) \<longleftrightarrow>
      (if d < 10 then n = 48 + d else n = 87 + d \<or> n = 55 + d)" if "d < r" for d
    using that r unat_digitChars [of d] n by (auto simp: word_unat_eq_iff)
  have one: "digitValue r ch = Some d" if "d < r" "if d < 10 then n = 48 + d else n = 87 + d \<or> n = 55 + d" for d
  proof -
    have "(\<exists>i < length [0..<r]. (ch = of_char (lowerDigits ! ([0..<r] ! i)) \<or> ch = of_char (upperDigits ! ([0..<r] ! i))) \<and>
        d = [0..<r] ! i \<and>
        (\<forall>j < i. \<not> (ch = of_char (lowerDigits ! ([0..<r] ! j)) \<or> ch = of_char (upperDigits ! ([0..<r] ! j)))))"
      using that place r(2) by (intro exI [of _ d]) (auto split: if_splits)
    then show ?thesis unfolding digitValue_def find_Some_iff .
  qed
  have none: "digitValue r ch = None" if "\<forall>d < r. \<not> (if d < 10 then n = 48 + d else n = 87 + d \<or> n = 55 + d)"
    unfolding digitValue_def find_None_iff using that place by auto
  consider "48 \<le> n" "n < 48 + min r 10" | "97 \<le> n" "n < r + 87" | "65 \<le> n" "n < r + 55"
    | (no) "\<not> (48 \<le> n \<and> n < 48 + min r 10)" "\<not> (97 \<le> n \<and> n < r + 87)" "\<not> (65 \<le> n \<and> n < r + 55)" by blast
  then show ?thesis
  proof cases
    case 1
    then have "digitValue r ch = Some (n - 48)" by (intro one) auto
    then show ?thesis using 1 u [of 48] by (simp add: charDigit_nat [OF r n] del: of_nat_diff)
  next
    case 2
    then have "digitValue r ch = Some (n - 87)" using r by (intro one) auto
    then show ?thesis using 2 u [of 87] by (simp add: charDigit_nat [OF r n] del: of_nat_diff)
  next
    case 3
    then have "digitValue r ch = Some (n - 55)" using r by (intro one) auto
    then show ?thesis using 3 u [of 55] r by (simp add: charDigit_nat [OF r n] del: of_nat_diff)
  next
    case no
    then have "digitValue r ch = None" by (intro none) (auto split: if_splits)
    then show ?thesis unfolding charDigit_nat [OF r n] if_not_P [OF no(1)] if_not_P [OF no(2)] if_not_P [OF no(3)] by simp
  qed
qed

lemma textValue_Cons:
  "2 \<le> r \<Longrightarrow> r \<le> 36 \<Longrightarrow> textValue r acc (c # cs) =
     (case charDigit r c of None \<Rightarrow> None | Some d \<Rightarrow> textValue r (acc * r + unat d) cs)"
  by (simp add: digitValue_charDigit split: option.split)

declare textValue.simps(2) [simp del]

lemma charDigit_less:
  assumes "2 \<le> r" "r \<le> 36" and "charDigit r ch = Some d"
  shows "unat d < r"
proof -
  obtain n where n: "unat ch = n" by simp
  have "m < r \<Longrightarrow> unat (of_nat m :: u32) < r" for m
    by (rule le_less_trans [of _ m]) (simp_all add: unat_of_nat)
  then show ?thesis
    using assms(3) unfolding charDigit_nat [OF assms(1,2) n] by (auto simp del: of_nat_diff split: if_splits)
qed

lemma charDigit_charOf:
  assumes "2 \<le> r" "r \<le> 36" and "d < r"
  shows "\<exists>w. charDigit r (charOf d) = Some w \<and> unat w = d"
proof -
  have "d = 0 \<or> d = 1 \<or> 2 \<le> d" by linarith
  moreover have "unat (charOf d) = (if d < 10 then 48 + d else 87 + d)" if "2 \<le> d"
  proof -
    have d: "d \<le> 36" "d \<noteq> 36" using assms by auto
    show ?thesis using radix_cases [OF that d(1)] d(2) by (elim disjE) (simp_all add: radixDigits_def)
  qed
  moreover have "unat (charOf 0) = 48" "unat (charOf 1) = 49" by (simp_all add: radixDigits_def)
  ultimately have u: "unat (charOf d) = (if d < 10 then 48 + d else 87 + d)" by auto
  show ?thesis using assms unfolding charDigit_nat [OF assms(1,2) u] by (auto simp: unat_of_nat)
qed


section \<open>Digit strings\<close>

lemma textValue_less:
  assumes r: "2 \<le> r" "r \<le> 36"
  shows "textValue r acc cs = Some n \<Longrightarrow> acc < r ^ k \<Longrightarrow> n < r ^ (k + length cs)"
proof (induction cs arbitrary: acc k)
  case Nil
  then show ?case by simp
next
  case (Cons c cs)
  from Cons.prems obtain d where d: "charDigit r c = Some d" "textValue r (acc * r + unat d) cs = Some n"
    by (auto simp: textValue_Cons [OF r] split: option.splits)
  have "acc * r + unat d < (acc + 1) * r" using charDigit_less [OF r d(1)] by simp
  also have "\<dots> \<le> r ^ k * r" using Cons.prems(2) by (intro mult_right_mono) auto
  finally show ?case using Cons.IH [OF d(2), of "Suc k"] by (simp add: mult.commute)
qed

lemma textValue_skip: "2 \<le> r \<Longrightarrow> r \<le> 36 \<Longrightarrow> textValue r 0 (skipLeadingZeroes cs) = textValue r 0 cs"
proof (induction cs)
  case (Cons c cs)
  have "charDigit r (of_char (CHR ''0'')) = Some 0" using Cons.prems charDigit_nat [of r "of_char (CHR ''0'')" 48] by simp
  then show ?case using Cons by (simp add: textValue_Cons)
qed simp

lemma skipLeadingZeroes_Nil: "2 \<le> r \<Longrightarrow> r \<le> 36 \<Longrightarrow> skipLeadingZeroes cs = [] \<Longrightarrow> textValue r 0 cs = Some 0"
  using textValue_skip [of r cs] by simp

lemma length_skipLeadingZeroes: "length (skipLeadingZeroes cs) \<le> length cs"
  by (induction cs) auto

text \<open>The digits required for a text, as the code counts them, hold every number of that length.\<close>

definition digitsFor :: "nat \<Rightarrow> nat \<Rightarrow> nat" where
  "digitsFor r n = 1 + (n * maxBitsPerCharTable ! r - 1) div (64 * 32)"

lemma digitsFor_enough:
  assumes r: "2 \<le> r" "r \<le> 36" and n: "0 < n"
  shows "r ^ n \<le> Base ^ digitsFor r n"
proof -
  let ?t = "maxBitsPerCharTable ! r" let ?N = "digitsFor r n"
  note t = maxBitsPerCharTable_bounds [OF r]
  have "n * ?t \<le> ?N * (64 * 32)" unfolding digitsFor_def using n t by (intro ceil_times) auto
  then have le: "(2 :: nat) ^ (?t * n) \<le> 2 ^ (64 * ?N * 32)" by (intro power_increasing) (auto simp: ac_simps)
  have "(r ^ n) ^ 32 = (r ^ 32) ^ n" by (simp only: power_mult [symmetric] mult.commute)
  also have "\<dots> \<le> (2 ^ ?t) ^ n" using t by (intro power_mono) auto
  also have "\<dots> = 2 ^ (?t * n)" by (simp only: power_mult)
  also note le
  also have "(2 :: nat) ^ (64 * ?N * 32) = (Base ^ ?N) ^ 32" by (simp only: Base_def power_mult)
  finally show ?thesis using power_le_imp_le_base [of "r ^ n" 31 "Base ^ ?N"] by simp
qed

lemma runs_calculateMaximumDigitsRequired:
  assumes r: "2 \<le> r" "r \<le> 36" and n: "0 < n" "n \<le> MAX_LENGTH"
    and E: "digitsFor r n > MaxDigitLength \<Longrightarrow> E OutOfMemory"
    and Q: "digitsFor r n \<le> MaxDigitLength \<Longrightarrow> Q (digitsFor r n)"
  shows "runs (calculateMaximumDigitsRequired r n) v E Q"
proof -
  note t = maxBitsPerCharTable_bounds [OF r]
  have "n * maxBitsPerCharTable ! r \<le> MAX_LENGTH * 166" using n t by (intro mult_mono) auto
  also have "\<dots> \<le> 2 ^ 64 - 1" by (simp add: MAX_LENGTH_def)
  finally have "n * maxBitsPerCharTable ! r div maxBitsPerCharTable ! r \<le> (2 ^ 64 - 1) div maxBitsPerCharTable ! r"
    by (rule div_le_mono)
  then have le: "n \<le> (2 ^ 64 - 1) div maxBitsPerCharTable ! r" using t by simp
  have r': "2 \<le> r \<and> r \<le> 36" using r by simp
  have ceil: "CeilDiv (n * maxBitsPerCharTable ! r) (64 * 32) = returnM (digitsFor r n)"
    using n t by (simp add: CeilDiv_def digitsFor_def)
  have m: "DigitBits * bitsPerCharTableMultiplier = 64 * 32"
    by (simp add: DigitBits_def bitsPerCharTableMultiplier_def bitsPerCharTableShift_def)
  show ?thesis
    unfolding calculateMaximumDigitsRequired_def Let_def mozAssert_holds [OF r'] mozAssert_holds [OF n(1)]
      mozAssert_holds [OF le] m ceil bindM_returnM
    using E Q by (intro runs_if) auto
qed

lemma runs_parseDigitsLoop:
  assumes r: "2 \<le> r" "r \<le> 36"
    and Q: "\<And>x'. digitLength x' = digitLength x \<Longrightarrow> isNegative x' = isNegative x \<Longrightarrow>
      textValue r (dval (digits x)) cs = Some (dval (digits x')) \<Longrightarrow> Q (Some x')"
    and none: "textValue r (dval (digits x)) cs = None \<Longrightarrow> Q None"
    and small: "dval (digits x) < r ^ k" "r ^ (k + length cs) \<le> Base ^ digitLength x"
  shows "runs (parseDigitsLoop r cs x) v E Q"
  using Q none small
proof (induction cs arbitrary: x k)
  case Nil
  then show ?case by simp
next
  case (Cons c cs)
  show ?case
  proof (cases "charDigit r c")
    case None
    then show ?thesis using Cons.prems by (simp add: textValue_Cons [OF r])
  next
    case (Some d)
    let ?v = "dval (digits x)"
    have dr: "unat d < r" using charDigit_less [OF r Some] .
    have "?v * r + unat d < (?v + 1) * r" using dr by simp
    also have "\<dots> \<le> r ^ k * r" using Cons.prems(3) by (intro mult_right_mono) auto
    finally have v': "?v * r + unat d < r ^ Suc k" by (simp add: mult.commute)
    also have "\<dots> \<le> r ^ (k + length (c # cs))" using r by (intro power_increasing) auto
    finally have fits: "?v * r + unat d < Base ^ digitLength x" using Cons.prems(4) by simp
    have ud: "unat (ucast d :: digit) = unat d"
      using dr r by (simp add: unsigned_ucast_eq take_bit_nat_eq_self_iff)
    have "runs (inplaceMultiplyAdd x (of_nat r) (ucast d)) v E (\<lambda>x'. runs (parseDigitsLoop r cs x') v E Q)"
      unfolding inplaceMultiplyAdd_def
    proof (rule runs_internalMultiplyAdd [where S = "digits x"], goal_cases)
      case (5 y)
      have y: "dval (digits y) = ?v * r + unat d" using 5(3) r ud by (simp add: unat_radix mult.commute)
      show ?case
      proof (rule Cons.IH [where k = "Suc k"], goal_cases)
        case (1 z)
        then show ?case using Cons.prems(1) [of z] 5 y Some by (simp add: textValue_Cons [OF r])
      next
        case 2
        then show ?case using Cons.prems(2) y Some by (simp add: textValue_Cons [OF r])
      qed (use v' y 5 Cons.prems(4) in auto)
    qed (use fits r ud in \<open>auto simp: sourceDigits_def unat_radix mult.commute\<close>)
    then show ?thesis using Some by (simp add: runs_bindI)
  qed
qed


text \<open>A text too long for the digits that a BigInt can have, by the count of the code.\<close>

definition tooLong :: "nat \<Rightarrow> jschars \<Rightarrow> bool" where
  "tooLong r cs \<longleftrightarrow> skipLeadingZeroes cs \<noteq> [] \<and> digitsFor r (length (skipLeadingZeroes cs)) > MaxDigitLength"

lemma runs_parseLiteralDigits:
  assumes r: "2 \<le> r" "r \<le> 36" and cs: "cs \<noteq> []" "length cs \<le> MAX_LENGTH"
    and E: "\<And>e. oom v e \<Longrightarrow> E e" "tooLong r cs \<Longrightarrow> E OutOfMemory"
    and Q: "\<And>x n. textValue r 0 cs = Some n \<Longrightarrow> wf x \<Longrightarrow> bval x = withSign s n \<Longrightarrow> Q (Some x)"
    and none: "textValue r 0 cs = None \<Longrightarrow> Q None"
  shows "runs (parseLiteralDigits cs r s) v E Q"
proof (cases "skipLeadingZeroes cs = []")
  case True
  have "Q (Some \<lparr>digits = [], isNegative = False\<rparr>)"
    using skipLeadingZeroes_Nil [OF r True] by (intro Q) (auto simp: bval_make)
  then show ?thesis
    using True cs(1) E(1) by (auto simp: parseLiteralDigits_def intro!: runs_bindI runs_zero)
next
  case False
  let ?cs = "skipLeadingZeroes cs" let ?n = "length ?cs"
  have n: "0 < ?n" "?n \<le> MAX_LENGTH" using False cs(2) length_skipLeadingZeroes [of cs] by auto
  note skip = textValue_skip [OF r, of cs]
  show ?thesis
    unfolding parseLiteralDigits_def mozAssert_holds [OF cs(1)] Let_def if_not_P [OF False]
  proof (rule runs_bindI, rule runs_calculateMaximumDigitsRequired [OF r n], goal_cases)
    case 1
    then show ?case using E(2) False by (simp add: tooLong_def)
  next
    case 2
    let ?N = "digitsFor r ?n"
    have Npos: "0 < ?N" by (simp add: digitsFor_def)
    show ?case
    proof (rule runs_bindI, rule runs_createUninitialized, goal_cases)
      case (3 ds)
      let ?z = "initializeDigitsToZero \<lparr>digits = ds, isNegative = s\<rparr>"
      have z: "digitLength ?z = ?N" "isNegative ?z = s" "dval (digits ?z) = 0"
        using 3 by (simp_all add: initializeDigitsToZero_def)
      show ?case
      proof (rule runs_bindI, rule runs_parseDigitsLoop [OF r, where k = 0], goal_cases)
        case (1 y)
        have val: "textValue r 0 cs = Some (dval (digits y))" using 1(3) z(3) skip by simp
        have "bval y = withSign s (dval (digits y))" using 1(2) z(2) by (simp add: bval_def)
        moreover have "\<not> isZero y" using 1(1) z(1) Npos unfolding isZero_def by linarith
        ultimately show ?case
          using 1(1) z(1) 2 E Q [OF val] by (auto intro!: runs_bindI runs_trim)
      next
        case 2
        then show ?case using none skip z(3) by simp
      qed (use digitsFor_enough [OF r n(1)] z in auto)
    qed (use E 2 in auto)
  qed
qed

text \<open>The radix that a literal's prefix selects, and its digits.\<close>

definition literalParts :: "jschars \<Rightarrow> nat \<times> jschars" where
  "literalParts cs =
     (if length cs > 2 \<and> cs ! 0 = of_char (CHR ''0'') then
        (if cs ! 1 = of_char (CHR ''b'') \<or> cs ! 1 = of_char (CHR ''B'') then (2, drop 2 cs)
         else if cs ! 1 = of_char (CHR ''x'') \<or> cs ! 1 = of_char (CHR ''X'') then (16, drop 2 cs)
         else if cs ! 1 = of_char (CHR ''o'') \<or> cs ! 1 = of_char (CHR ''O'') then (8, drop 2 cs)
         else (10, cs))
      else (10, cs))"

definition literalValue :: "jschars \<Rightarrow> nat option" where
  "literalValue cs = (case literalParts cs of (r, ds) \<Rightarrow> textValue r 0 ds)"

definition literalTooLong :: "jschars \<Rightarrow> bool" where
  "literalTooLong cs = (case literalParts cs of (r, ds) \<Rightarrow> tooLong r ds)"

lemma literalParts_wf:
  assumes "cs \<noteq> []" and "literalParts cs = (r, ds)"
  shows "2 \<le> r" "r \<le> 36" "ds \<noteq> []" "length ds \<le> length cs"
  using assms by (auto simp: literalParts_def split: if_splits)

lemma parseLiteral_parts:
  "cs \<noteq> [] \<Longrightarrow> parseLiteral cs = (case literalParts cs of (r, ds) \<Rightarrow> parseLiteralDigits ds r False)"
  by (simp add: parseLiteral_def literalParts_def)

lemma runs_parseLiteral:
  assumes cs: "cs \<noteq> []" "length cs \<le> MAX_LENGTH"
    and E: "\<And>e. oom v e \<Longrightarrow> E e" "literalTooLong cs \<Longrightarrow> E OutOfMemory"
    and Q: "\<And>x n. literalValue cs = Some n \<Longrightarrow> wf x \<Longrightarrow> bval x = int n \<Longrightarrow> Q (Some x)"
    and none: "literalValue cs = None \<Longrightarrow> Q None"
  shows "runs (parseLiteral cs) v E Q"
proof -
  obtain r ds where p: "literalParts cs = (r, ds)" by fastforce
  note w = literalParts_wf [OF cs(1) p]
  show ?thesis
    unfolding parseLiteral_parts [OF cs(1)] p prod.case
    using w cs(2) E Q none p
    by (intro runs_parseLiteralDigits) (auto simp: literalValue_def literalTooLong_def)
qed

lemma textValue_pos: "0 < acc \<Longrightarrow> 2 \<le> r \<Longrightarrow> r \<le> 36 \<Longrightarrow> textValue r acc cs = Some n \<Longrightarrow> 0 < n"
proof (induction cs arbitrary: acc)
  case (Cons c cs)
  then obtain d where d: "charDigit r c = Some d" "textValue r (acc * r + unat d) cs = Some n"
    by (auto simp: textValue_Cons split: option.splits)
  then show ?case using Cons by (intro Cons.IH [OF _ _ _ d(2)]) auto
qed simp

lemma charDigit_zero:
  assumes r: "2 \<le> r" "r \<le> 36" and d: "charDigit r c = Some d" "unat d = 0"
  shows "c = of_char (CHR ''0'')"
proof -
  obtain n where n: "unat c = n" by simp
  have "n < 2 ^ 16" using n unsigned_less [of c, where ?'a = nat] by simp
  then have u: "unat (of_nat (n - m) :: u32) = n - m" for m by (simp add: unat_of_nat del: of_nat_diff)
  have "n = 48" using d u unfolding charDigit_nat [OF r n] by (auto simp del: of_nat_diff split: if_splits)
  then show ?thesis using n by (simp add: word_unat_eq_iff)
qed

lemma textValue_zero_iff:
  assumes r: "2 \<le> r" "r \<le> 36" and v: "textValue r 0 cs = Some n"
  shows "n = 0 \<longleftrightarrow> skipLeadingZeroes cs = []"
proof (cases "skipLeadingZeroes cs")
  case Nil
  then show ?thesis using skipLeadingZeroes_Nil [OF r] v by simp
next
  case (Cons c rest)
  have "c \<noteq> of_char (CHR ''0'')" using Cons by (induction cs) (auto split: if_splits)
  moreover obtain d where d: "charDigit r c = Some d" "textValue r (unat d) rest = Some n"
    using textValue_skip [OF r, of cs] v Cons by (auto simp: textValue_Cons [OF r] split: option.splits)
  ultimately have "0 < unat d" using charDigit_zero [OF r d(1)] by auto
  then have "0 < n" using textValue_pos r d(2) by blast
  then show ?thesis using Cons by simp
qed


lemma literalIsZero_parts: "cs \<noteq> [] \<Longrightarrow> literalIsZero cs = literalIsZeroNoRadix (snd (literalParts cs))"
  by (auto simp: literalIsZero_def literalParts_def)

section \<open>Reading back what was printed\<close>

lemma textValue_lowDigits:
  assumes r: "2 \<le> r" "r \<le> 36"
  shows "textValue r acc (rev (map charOf (lowDigits r L n))) = Some (acc * r ^ L + n mod r ^ L)"
proof (induction L arbitrary: acc)
  case 0
  then show ?case by simp
next
  case (Suc L)
  let ?d = "n div r ^ L mod r"
  have "?d < r" using r by simp
  then obtain w where w: "charDigit r (charOf ?d) = Some w" "unat w = ?d" using charDigit_charOf [OF r] by blast
  have "n mod (r ^ L * r) = r ^ L * ?d + n mod r ^ L" by (rule mod_mult2_eq)
  then have "(acc * r + ?d) * r ^ L + n mod r ^ L = acc * r ^ Suc L + n mod r ^ Suc L"
    by (simp add: algebra_simps)
  then show ?case using w Suc [of "acc * r + ?d"] by (simp add: lowDigits_Suc textValue_Cons [OF r])
qed

lemma textValue_numeral:
  assumes "2 \<le> r" "r \<le> 36" and "0 < n"
  shows "textValue r 0 (rev (map charOf (posDigits r n))) = Some n"
  using textValue_lowDigits [OF assms(1,2), of 0 "length (posDigits r n)" n] posDigits_low [OF assms(1,3)]
    posDigits_bounds(1) [OF assms(1), of n]
  by simp

lemma charOf_in: "d < 36 \<Longrightarrow> charOf d \<in> set radixDigits"
  by (rule nth_mem) (simp add: radixDigits_def)

lemma IsSpace_charOf: "d < 36 \<Longrightarrow> \<not> IsSpace (charOf d)"
proof -
  have "\<forall>c \<in> set radixDigits. \<not> IsSpace c" by (simp add: radixDigits_def IsSpace_def)
  then show "d < 36 \<Longrightarrow> \<not> IsSpace (charOf d)" using charOf_in by blast
qed

lemma posDigits_less: "2 \<le> r \<Longrightarrow> d \<in> set (posDigits r n) \<Longrightarrow> d < r"
proof (induction r n rule: posDigits.induct)
  case (1 r n)
  then show ?case by (cases "n = 0") (auto simp: posDigits.simps [of r n] posDigits.simps [of r 0])
qed

lemma trimSpace_id: "(\<And>c. c \<in> set cs \<Longrightarrow> \<not> IsSpace c) \<Longrightarrow> trimSpace cs = cs"
proof -
  have d: "dropWhile IsSpace xs = xs" if "\<And>c. c \<in> set xs \<Longrightarrow> \<not> IsSpace c" for xs
    using that by (cases xs) auto
  assume "\<And>c. c \<in> set cs \<Longrightarrow> \<not> IsSpace c"
  then show ?thesis using d [of cs] d [of "rev cs"] by (simp add: trimSpace_def)
qed

lemma toText_no_space:
  assumes r: "2 \<le> r" "r \<le> 36" and c: "c \<in> set (toText r z)"
  shows "\<not> IsSpace c"
proof -
  have "c = of_char (CHR ''0'') \<or> c = minusChar \<or> (\<exists>d \<in> set (posDigits r (nat \<bar>z\<bar>)). c = charOf d)"
    using c by (auto simp: toText_def split: if_splits)
  moreover have "\<not> IsSpace (of_char (CHR ''0''))" "\<not> IsSpace minusChar" by (simp_all add: minusChar_def IsSpace_def)
  moreover have "\<not> IsSpace (charOf d)" if "d \<in> set (posDigits r (nat \<bar>z\<bar>))" for d
    using posDigits_less [OF r(1) that] r by (intro IsSpace_charOf) simp
  ultimately show ?thesis by blast
qed

lemma charOf_sign: "d < 36 \<Longrightarrow> charOf d \<noteq> of_char (CHR ''+'') \<and> charOf d \<noteq> of_char (CHR ''-'')"
proof -
  have "\<forall>c \<in> set radixDigits. c \<noteq> of_char (CHR ''+'') \<and> c \<noteq> of_char (CHR ''-'')" by (simp add: radixDigits_def)
  then show "d < 36 \<Longrightarrow> charOf d \<noteq> of_char (CHR ''+'') \<and> charOf d \<noteq> of_char (CHR ''-'')" using charOf_in by blast
qed

text \<open>The decimal text of a nonzero number starts with a digit other than zero.\<close>

lemma decimal_first:
  assumes "0 < n"
  obtains d ds where "rev (map charOf (posDigits 10 n)) = charOf d # ds" "0 < d" "d < 10"
proof -
  have "posDigits 10 n \<noteq> []" using assms by (subst posDigits.simps) simp
  then have "rev (map charOf (posDigits 10 n)) = charOf (last (posDigits 10 n)) # tl (rev (map charOf (posDigits 10 n)))"
    by (cases "posDigits 10 n" rule: rev_cases) auto
  then show thesis using that posDigits_last [of 10 n] assms by auto
qed

lemma skip_decimal: "0 < n \<Longrightarrow> skipLeadingZeroes (rev (map charOf (posDigits 10 n))) = rev (map charOf (posDigits 10 n))"
proof -
  assume "0 < n"
  then obtain d ds where d: "rev (map charOf (posDigits 10 n)) = charOf d # ds" "0 < d" "d < 10" by (rule decimal_first)
  then show ?thesis using charOf_nonzero [of d] unfolding d by simp
qed

lemma tooLong_decimal: "0 < n \<Longrightarrow> tooLong 10 (rev (map charOf (posDigits 10 n))) \<Longrightarrow> 313592 < length (posDigits 10 n)"
proof (rule ccontr)
  assume n: "0 < n" and t: "tooLong 10 (rev (map charOf (posDigits 10 n)))" and "\<not> 313592 < length (posDigits 10 n)"
  then have "length (posDigits 10 n) * 107 - 1 \<le> 33554431" by simp
  then have "(length (posDigits 10 n) * 107 - 1) div (64 * 32) \<le> 33554431 div (64 * 32)" by (rule div_le_mono)
  then have "digitsFor 10 (length (posDigits 10 n)) \<le> 16384" by (simp add: digitsFor_def maxBitsPerCharTable_def)
  then show False using t unfolding tooLong_def skip_decimal [OF n]
    by (simp add: MaxDigitLength_def MaxBitLength_def DigitBits_def)
qed

lemma length_decimal_wf: "wf x \<Longrightarrow> length (posDigits 10 (dval (digits x))) \<le> MAX_LENGTH"
proof -
  assume wf: "wf x"
  have "dval (digits x) < 2 ^ MaxBitLength" using dval_less_max [OF wf order_refl] .
  also have "\<dots> \<le> 10 ^ MaxBitLength" by (rule power_mono) simp_all
  finally have "length (posDigits 10 (dval (digits x))) \<le> MaxBitLength" by (rule length_decimal)
  then show ?thesis by (simp add: MaxBitLength_def MAX_LENGTH_def)
qed

lemma runs_ParseStringBigIntLiteral_toText:
  assumes wf: "wf x" and E: "\<And>e. oom v e \<Longrightarrow> E e" "313592 < length (toText 10 (bval x)) \<Longrightarrow> E OutOfMemory" and Q: "Q (Some x)"
  shows "runs (ParseStringBigIntLiteral (toText 10 (bval x))) v E Q"
proof (cases "isZero x")
  case True
  then have z: "x = \<lparr>digits = [], isNegative = False\<rparr>" using wf by (simp add: wf_def isZero_iff)
  then have t: "toText 10 (bval x) = [of_char (CHR ''0'')]" by (simp add: bval_make toText_def)
  have "trimSpace [of_char (CHR ''0'')] = [of_char (CHR ''0'')]" by (rule trimSpace_id) (simp add: IsSpace_def)
  then show ?thesis
    unfolding t using E Q z
    by (auto simp: ParseStringBigIntLiteral_def parseLiteral_def parseLiteralDigits_def intro!: runs_bindI runs_zero)
next
  case nz: False
  let ?X = "dval (digits x)" let ?t = "rev (map charOf (posDigits 10 ?X))"
  have pos: "0 < ?X" using wf_digits_pos [OF wf nz] .
  have t: "toText 10 (bval x) = (if isNegative x then [minusChar] else []) @ ?t"
    unfolding bval_def using pos by (rule toText_nonzero)
  have trim: "trimSpace (toText 10 (bval x)) = toText 10 (bval x)" by (intro trimSpace_id toText_no_space) auto
  obtain d ds where d: "?t = charOf d # ds" "0 < d" "d < 10" using decimal_first [OF pos] .
  have len: "length ?t \<le> MAX_LENGTH" using length_decimal_wf [OF wf] by simp
  have tl: "E OutOfMemory" if "tooLong 10 ?t" using that tooLong_decimal [OF pos] E(2) t by simp
  have val: "textValue 10 0 ?t = Some ?X" using pos by (intro textValue_numeral) auto
  have same: "y = x" if "wf y" "bval y = withSign (isNegative x) n" "textValue 10 0 ?t = Some n" for y n
    using that val wf by (intro wf_bval_unique) (auto simp: bval_def)
  have main: "runs (parseLiteralDigits ?t 10 (isNegative x)) v E Q"
    using E(1) tl same Q val len d(1) by (intro runs_parseLiteralDigits) auto
  show ?thesis
  proof (cases "isNegative x")
    case True
    have "minusChar = of_char (CHR ''-'')" "minusChar \<noteq> of_char (CHR ''+'')" by (simp_all add: minusChar_def)
    then show ?thesis
      using main True trim d(1) by (simp add: ParseStringBigIntLiteral_def t)
  next
    case False
    have "literalParts ?t = (10, ?t)" unfolding d literalParts_def using charOf_nonzero [of d] d by simp
    then have "parseLiteral ?t = parseLiteralDigits ?t 10 False" using d(1) by (simp add: parseLiteral_parts)
    then show ?thesis
      using main False trim d charOf_sign [of d] by (simp add: ParseStringBigIntLiteral_def t)
  qed
qed


lemma runs_mayAlloc:
  "(\<And>e. oom v e \<Longrightarrow> E e) \<Longrightarrow> Q () \<Longrightarrow> runs (if b then bindM allocM (\<lambda>mem. returnM ()) else returnM ()) v E Q"
  by (auto intro!: runs_intros)

section \<open>Whole strings\<close>

text \<open>
  What a string stands for: space around it is ignored, the empty string is 0, a decimal number may
  have a sign and a number with a prefix may not.
\<close>

definition stringValue :: "jschars \<Rightarrow> int option" where
  "stringValue str =
     (let cs = trimSpace str in
      if cs = [] then Some 0
      else if length cs > 1 \<and> cs ! 0 = of_char (CHR ''+'') then map_option int (textValue 10 0 (drop 1 cs))
      else if length cs > 1 \<and> cs ! 0 = of_char (CHR ''-'') then map_option (\<lambda>n. - int n) (textValue 10 0 (drop 1 cs))
      else map_option int (literalValue cs))"

definition stringTooLong :: "jschars \<Rightarrow> bool" where
  "stringTooLong str =
     (let cs = trimSpace str in
      cs \<noteq> [] \<and>
      (if length cs > 1 \<and> (cs ! 0 = of_char (CHR ''+'') \<or> cs ! 0 = of_char (CHR ''-'')) then tooLong 10 (drop 1 cs)
       else literalTooLong cs))"

lemma length_trimSpace: "length (trimSpace cs) \<le> length cs"
  unfolding trimSpace_def by (metis length_dropWhile_le length_rev order.trans)

lemma runs_ParseStringBigIntLiteral:
  assumes len: "length str \<le> MAX_LENGTH"
    and E: "\<And>e. oom v e \<Longrightarrow> E e" "stringTooLong str \<Longrightarrow> E OutOfMemory"
    and Q: "\<And>x. wf x \<Longrightarrow> stringValue str = Some (bval x) \<Longrightarrow> Q (Some x)"
    and none: "stringValue str = None \<Longrightarrow> Q None"
  shows "runs (ParseStringBigIntLiteral str) v E Q"
proof -
  let ?cs = "trimSpace str"
  have l: "length ?cs \<le> MAX_LENGTH" using length_trimSpace [of str] len by simp
  consider "?cs = []" | (plus) "?cs \<noteq> []" "length ?cs > 1 \<and> ?cs ! 0 = of_char (CHR ''+'')"
    | (minus) "?cs \<noteq> []" "\<not> (length ?cs > 1 \<and> ?cs ! 0 = of_char (CHR ''+''))" "length ?cs > 1 \<and> ?cs ! 0 = of_char (CHR ''-'')"
    | (literal) "?cs \<noteq> []" "\<not> (length ?cs > 1 \<and> ?cs ! 0 = of_char (CHR ''+''))" "\<not> (length ?cs > 1 \<and> ?cs ! 0 = of_char (CHR ''-''))"
    by blast
  then show ?thesis
  proof cases
    case 1
    then show ?thesis
      using E Q [of "\<lparr>digits = [], isNegative = False\<rparr>"]
      by (auto simp: ParseStringBigIntLiteral_def Let_def stringValue_def bval_make intro!: runs_bindI runs_zero)
  next
    case plus
    have "runs (parseLiteralDigits (drop 1 ?cs) 10 False) v E Q"
      using plus E Q none l
      by (intro runs_parseLiteralDigits) (auto simp: stringValue_def stringTooLong_def Let_def)
    then show ?thesis using plus by (simp add: ParseStringBigIntLiteral_def Let_def)
  next
    case minus
    have "runs (parseLiteralDigits (drop 1 ?cs) 10 True) v E Q"
      using minus E Q none l
      by (intro runs_parseLiteralDigits) (auto simp: stringValue_def stringTooLong_def Let_def)
    then show ?thesis unfolding ParseStringBigIntLiteral_def Let_def if_not_P [OF minus(1)] if_not_P [OF minus(2)] if_P [OF minus(3)] .
  next
    case literal
    have v: "stringValue str = map_option int (literalValue ?cs)"
      unfolding stringValue_def Let_def if_not_P [OF literal(1)] if_not_P [OF literal(2)] if_not_P [OF literal(3)] ..
    have t: "stringTooLong str = literalTooLong ?cs" using literal by (auto simp: stringTooLong_def Let_def)
    have "runs (parseLiteral ?cs) v E Q"
      using literal E Q none l v t by (intro runs_parseLiteral) auto
    then show ?thesis
      unfolding ParseStringBigIntLiteral_def Let_def if_not_P [OF literal(1)] if_not_P [OF literal(2)] if_not_P [OF literal(3)] .
  qed
qed

lemma runs_StringToBigInt:
  assumes "length str \<le> MAX_LENGTH"
    and "\<And>e. oom v e \<Longrightarrow> E e" "stringTooLong str \<Longrightarrow> E OutOfMemory"
    and "\<And>x. wf x \<Longrightarrow> stringValue str = Some (bval x) \<Longrightarrow> Q (Some x)"
    and "stringValue str = None \<Longrightarrow> Q None"
  shows "runs (StringToBigInt isRope needsCopy str) v E Q"
  unfolding StringToBigInt_def using assms
  by (intro runs_bindI runs_mayAlloc runs_ParseStringBigIntLiteral) auto

section \<open>Properties\<close>

text \<open>
  C16. Round trip: \<open>StringToBigInt\<close> reads the decimal text that \<open>BigInt::toString\<close> prints back as the
  same BigInt, for every BigInt and either kind of string.  Besides running out of memory, it can
  only refuse a text of more than 313592 characters, for which the code counts more digits than a
  BigInt may have.
\<close>

theorem string_roundtrip:
  assumes "wf x"
  shows "runs (bindM (toString True x 10) (\<lambda>s. case s of None \<Rightarrow> throwM AssertFail | Some t \<Rightarrow> StringToBigInt isRope needsCopy t)) v
    (\<lambda>e. oom v e \<or> e = OutOfMemory \<and> 313592 < length (toText 10 (bval x)))
    (\<lambda>r. r = Some x)"
proof (rule runs_bindI, rule runs_toString [OF assms], goal_cases)
  case 4
  show ?case
    unfolding option.case StringToBigInt_def
    by (intro runs_bindI runs_mayAlloc runs_ParseStringBigIntLiteral_toText [OF assms]) auto
qed auto

theorem string_roundtrip_witness:
  "runs (bindM (toString True \<lparr>digits = [0, 1], isNegative = True\<rparr> 10)
      (\<lambda>s. case s of None \<Rightarrow> throwM AssertFail | Some t \<Rightarrow> StringToBigInt True False t)) plenty
    (\<lambda>e. e = OutOfMemory \<and> 313592 < length (toText 10 (bval \<lparr>digits = [0, 1], isNegative = True\<rparr>)))
    (\<lambda>r. r = Some \<lparr>digits = [0, 1], isNegative = True\<rparr>)"
  using string_roundtrip [of "\<lparr>digits = [0, 1], isNegative = True\<rparr>" True False plenty]
  by (simp add: wf_eval)

text \<open>
  C17. \<open>BigInt::parseLiteral\<close> (and \<open>ParseBigIntLiteral\<close>) returns the canonical BigInt of the value of
  the literal in the radix of its prefix, or reports a parse error exactly when a character is not a
  digit of that radix; the digits counted in advance always suffice.  The value of a digit is its place
  in the alphabets \<open>lowerDigits\<close> and \<open>upperDigits\<close>, which the code does not have.
\<close>

theorem parseLiteral_correct:
  assumes "cs \<noteq> []" and "length cs \<le> MAX_LENGTH"
  shows "runs (ParseBigIntLiteral cs) v
    (\<lambda>e. oom v e \<or> e = OutOfMemory \<and> literalTooLong cs)
    (\<lambda>res. case res of None \<Rightarrow> literalValue cs = None
      | Some x \<Rightarrow> wf x \<and> literalValue cs = Some (nat (bval x)) \<and> 0 \<le> bval x)"
  unfolding ParseBigIntLiteral_def using assms by (intro runs_parseLiteral) auto

theorem parseLiteral_correct_witness:
  "runs (ParseBigIntLiteral (map of_char ''0xfF'')) plenty (\<lambda>e. False)
    (\<lambda>res. \<exists>x. res = Some x \<and> bval x = 255)"
proof -
  have parts: "literalParts (map of_char ''0xfF'') = (16, map of_char ''fF'')" by (simp add: literalParts_def)
  have v: "literalValue (map of_char ''0xfF'') = Some 255"
    unfolding literalValue_def parts by (simp add: textValue_Cons charDigit_def)
  have "\<not> literalTooLong (map of_char ''0xfF'')"
    unfolding literalTooLong_def parts
    by (simp add: tooLong_def digitsFor_def maxBitsPerCharTable_def MaxDigitLength_def MaxBitLength_def DigitBits_def)
  then show ?thesis
    by (intro runs_weaken [OF parseLiteral_correct [of "map of_char ''0xfF''" plenty]])
      (use v in \<open>auto simp: MAX_LENGTH_def split: option.splits\<close>)
qed

text \<open>
  \<open>BigIntLiteralIsZero\<close>, which the parser uses to fold a condition without building the BigInt,
  agrees with the value of every well-formed literal.
\<close>

theorem literalIsZero_agrees:
  assumes "cs \<noteq> []" and "literalValue cs = Some n"
  shows "runs (BigIntLiteralIsZero cs) v E (\<lambda>z. z \<longleftrightarrow> n = 0)"
proof -
  obtain r ds where p: "literalParts cs = (r, ds)" by fastforce
  note w = literalParts_wf [OF assms(1) p]
  have "n = 0 \<longleftrightarrow> skipLeadingZeroes ds = []"
    using assms(2) p w by (intro textValue_zero_iff) (auto simp: literalValue_def)
  then show ?thesis
    using w p by (simp add: BigIntLiteralIsZero_def literalIsZero_parts [OF assms(1)] literalIsZeroNoRadix_def)
qed

theorem literalIsZero_agrees_witness:
  "runs (BigIntLiteralIsZero (map of_char ''0b00'')) plenty (\<lambda>e. False) (\<lambda>z. z)"
proof -
  have parts: "literalParts (map of_char ''0b00'') = (2, map of_char ''00'')" by (simp add: literalParts_def)
  have "literalValue (map of_char ''0b00'') = Some 0" unfolding literalValue_def parts by (simp add: textValue_Cons charDigit_def)
  then show ?thesis
    using literalIsZero_agrees [of "map of_char ''0b00''" 0 plenty "\<lambda>e. False"] by simp
qed

text \<open>
  \<open>StringToBigInt\<close> returns the canonical BigInt of the number a string stands for (space around
  it is ignored, the empty string is 0, decimal numbers may have a sign, numbers with a prefix may
  not), and null exactly for the strings that are not numbers; it stops only when memory runs out or
  the digits are too many.
\<close>

theorem StringToBigInt_correct:
  assumes "length str \<le> MAX_LENGTH"
  shows "runs (StringToBigInt isRope needsCopy str) v
    (\<lambda>e. oom v e \<or> e = OutOfMemory \<and> stringTooLong str)
    (\<lambda>res. stringValue str = map_option bval res \<and> (case res of None \<Rightarrow> True | Some x \<Rightarrow> wf x))"
  using assms by (intro runs_StringToBigInt) auto

theorem StringToBigInt_correct_witness:
  "runs (StringToBigInt True True (map of_char '' -12 '')) plenty (\<lambda>e. False)
    (\<lambda>res. \<exists>x. res = Some x \<and> bval x = - 12)"
proof -
  have t: "trimSpace (map of_char '' -12 '') = map of_char ''-12''" by (simp add: trimSpace_def IsSpace_def)
  have v: "stringValue (map of_char '' -12 '') = Some (- 12)"
    unfolding stringValue_def Let_def t by (simp add: textValue_Cons charDigit_def)
  have "\<not> stringTooLong (map of_char '' -12 '')"
    unfolding stringTooLong_def Let_def t
    by (simp add: tooLong_def digitsFor_def maxBitsPerCharTable_def MaxDigitLength_def MaxBitLength_def DigitBits_def)
  then show ?thesis
    by (intro runs_weaken [OF StringToBigInt_correct [of "map of_char '' -12 ''" True True plenty]])
      (use v in \<open>auto simp: MAX_LENGTH_def split: option.splits\<close>)
qed

end
