(* ===== verification/BigInt_Value.thy ===== *)
theory BigInt_Value
  imports BigInt_Double BigInt_Parse BigInt_Div BigInt_Mul BigInt_Bitwise BigInt_Shift
begin

text \<open>
  BigInts among the values of JavaScript: \<open>ToPrimitive\<close> (\<open>js/src/vm/JSObject.cpp\<close>), and of
  \<open>js/src/vm/BigIntType.cpp\<close> the operators on values (\<open>addValue\<close> and its variants), \<open>ToBigInt\<close>, the
  equality and order of a BigInt and any value, and the public functions that read a BigInt from
  characters.  What running script code does (property lookup, calls) is the parameter \<open>scripts\<close>.
\<close>

section \<open>Values\<close>

text \<open>A string: its characters, whether it is a rope, and whether its characters could move.\<close>

record jsstring =
  chars :: jschars
  isRope :: bool
  needsCopy :: bool

datatype jsvalue =
    UndefinedValue
  | NullValue
  | BooleanValue bool
  | Int32Value u32
  | DoubleValue double
  | StringValue jsstring
  | SymbolValue nat
  | BigIntValue bigint
  | ObjectValue nat

fun isBigInt :: "jsvalue \<Rightarrow> bool" where
  "isBigInt (BigIntValue x) = True"
| "isBigInt _ = False"

fun isObject :: "jsvalue \<Rightarrow> bool" where
  "isObject (ObjectValue obj) = True"
| "isObject _ = False"

fun isNumber :: "jsvalue \<Rightarrow> bool" where
  "isNumber (Int32Value i) = True"
| "isNumber (DoubleValue d) = True"
| "isNumber _ = False"

fun toBigInt :: "jsvalue \<Rightarrow> bigint eng" where
  "toBigInt (BigIntValue x) = returnM x"
| "toBigInt _ = throwM AssertFail"

text \<open>\<open>double(i)\<close> of an \<open>int32_t\<close> is exact.\<close>

definition doubleFromInt32 :: "u32 \<Rightarrow> double" where
  "doubleFromInt32 i =
     (if i <s 0 then negateDouble (doubleFromUint64 (ucast (- i))) else doubleFromUint64 (ucast i))"

fun toNumber :: "jsvalue \<Rightarrow> double eng" where
  "toNumber (Int32Value i) = returnM (doubleFromInt32 i)"
| "toNumber (DoubleValue d) = returnM d"
| "toNumber _ = throwM AssertFail"

text \<open>\<open>setNumber(double)\<close> and \<open>mozilla::NumberIsInt32\<close>: an integer in range, but for negative zero.\<close>

definition NumberEqualsInt32 :: "double \<Rightarrow> u32 option" where
  "NumberEqualsInt32 d =
     (if \<not> IsFinite d then None
      else if - (2 ^ 31) * 2 ^ 1074 \<le> dscaled d \<and> dscaled d \<le> (2 ^ 31 - 1) * 2 ^ 1074
      then let possible = dtrunc d in
        if possible * 2 ^ 1074 = dscaled d then Some (of_int possible) else None
      else None)"

definition NumberIsInt32 :: "double \<Rightarrow> u32 option" where
  "NumberIsInt32 d = (if IsNegativeZero d then None else NumberEqualsInt32 d)"

definition NumberValue :: "double \<Rightarrow> jsvalue" where
  "NumberValue d = (case NumberIsInt32 d of Some i \<Rightarrow> Int32Value i | None \<Rightarrow> DoubleValue d)"

section \<open>Primitive values\<close>

datatype JSType = JSTYPE_UNDEFINED | JSTYPE_STRING | JSTYPE_NUMBER

datatype propkey = toPrimitiveKey | toStringKey | valueOfKey

text \<open>
  What script code and the object model provide: property lookup (which can run getters), which
  values are callable, calls, the wrapped value of \<open>String\<close> and \<open>Number\<close> objects, and
  \<open>HasNativeMethodPure\<close>.
\<close>

record scripts =
  getProperty :: "nat \<Rightarrow> propkey \<Rightarrow> jsvalue eng"
  isCallable :: "jsvalue \<Rightarrow> bool"
  call :: "jsvalue \<Rightarrow> jsvalue \<Rightarrow> jsvalue list \<Rightarrow> jsvalue eng"
  stringObject :: "nat \<Rightarrow> jsstring option"
  numberObject :: "nat \<Rightarrow> double option"
  hasNativeMethod :: "nat \<Rightarrow> propkey \<Rightarrow> bool"
  typeName :: "JSType \<Rightarrow> jsstring"

definition MaybeCallMethod :: "scripts \<Rightarrow> nat \<Rightarrow> propkey \<Rightarrow> jsvalue eng" where
  "MaybeCallMethod S obj key =
     bindM (getProperty S obj key) (\<lambda>vp.
     if \<not> isCallable S vp then returnM (ObjectValue obj)
     else call S vp (ObjectValue obj) [])"

text \<open>With the hint \<open>JSTYPE_STRING\<close> the report makes an atom of the class name first.\<close>

definition ReportCantConvert :: "err \<Rightarrow> JSType \<Rightarrow> 'a eng" where
  "ReportCantConvert e hint =
     bindM (if hint = JSTYPE_STRING then bindM allocM (\<lambda>mem. returnM ()) else returnM ()) (\<lambda>str. throwM e)"

text \<open>The last steps: call one method, return a primitive result, else the next.\<close>

definition orElse :: "jsvalue eng \<Rightarrow> jsvalue eng \<Rightarrow> jsvalue eng" where
  "orElse m next_method = bindM m (\<lambda>vp. if \<not> isObject vp then returnM vp else next_method)"

definition OrdinaryToPrimitive :: "scripts \<Rightarrow> nat \<Rightarrow> JSType \<Rightarrow> jsvalue eng" where
  "OrdinaryToPrimitive S obj hint =
     (if hint = JSTYPE_STRING
      then (if stringObject S obj \<noteq> None \<and> hasNativeMethod S obj toStringKey
            then returnM (StringValue (the (stringObject S obj)))
            else orElse (MaybeCallMethod S obj toStringKey)
              (orElse (MaybeCallMethod S obj valueOfKey)
              (ReportCantConvert CantConvertToPrimitive hint)))
      else (if stringObject S obj \<noteq> None \<and> hasNativeMethod S obj valueOfKey
            then returnM (StringValue (the (stringObject S obj)))
            else if numberObject S obj \<noteq> None \<and> hasNativeMethod S obj valueOfKey
            then returnM (NumberValue (the (numberObject S obj)))
            else orElse (MaybeCallMethod S obj valueOfKey)
              (orElse (MaybeCallMethod S obj toStringKey)
              (ReportCantConvert CantConvertToPrimitive hint))))"

definition ToPrimitiveSlow :: "scripts \<Rightarrow> JSType \<Rightarrow> nat \<Rightarrow> jsvalue eng" where
  "ToPrimitiveSlow S preferredType obj =
     bindM (getProperty S obj toPrimitiveKey) (\<lambda>m.
     if m \<noteq> UndefinedValue \<and> m \<noteq> NullValue
     then
       if \<not> isCallable S m then ReportCantConvert ToPrimitiveNotCallable preferredType
       else
         bindM (call S m (ObjectValue obj) [StringValue (typeName S preferredType)]) (\<lambda>vp.
         if isObject vp then ReportCantConvert ToPrimitiveReturnedObject preferredType
         else returnM vp)
     else OrdinaryToPrimitive S obj preferredType)"

definition ToPrimitive :: "scripts \<Rightarrow> JSType \<Rightarrow> jsvalue \<Rightarrow> jsvalue eng" where
  "ToPrimitive S preferredType vp =
     (case vp of ObjectValue obj \<Rightarrow> ToPrimitiveSlow S preferredType obj | _ \<Rightarrow> returnM vp)"

section \<open>Operators on values\<close>

definition ValidBigIntOperands :: "jsvalue \<Rightarrow> jsvalue \<Rightarrow> unit eng" where
  "ValidBigIntOperands lhs rhs =
     mozAssert (isBigInt lhs \<or> isBigInt rhs) (
     if \<not> isBigInt lhs \<or> \<not> isBigInt rhs then throwM BigIntToNumber else returnM ())"

text \<open>The common body of the binary and of the unary operators.\<close>

definition binaryValue :: "(bigint \<Rightarrow> bigint \<Rightarrow> bigint eng) \<Rightarrow> jsvalue \<Rightarrow> jsvalue \<Rightarrow> jsvalue eng" where
  "binaryValue operation lhs rhs =
     bindM (ValidBigIntOperands lhs rhs) (\<lambda>u.
     bindM (toBigInt lhs) (\<lambda>lhsBigInt.
     bindM (toBigInt rhs) (\<lambda>rhsBigInt.
     bindM (operation lhsBigInt rhsBigInt) (\<lambda>resBigInt.
     returnM (BigIntValue resBigInt)))))"

definition unaryValue :: "(bigint \<Rightarrow> bigint eng) \<Rightarrow> jsvalue \<Rightarrow> jsvalue eng" where
  "unaryValue operation operand =
     mozAssert (isBigInt operand) (
     bindM (toBigInt operand) (\<lambda>operandBigInt.
     bindM (operation operandBigInt) (\<lambda>resBigInt.
     returnM (BigIntValue resBigInt))))"

definition addValue :: "jsvalue \<Rightarrow> jsvalue \<Rightarrow> jsvalue eng" where
  "addValue = binaryValue add"

definition subValue :: "jsvalue \<Rightarrow> jsvalue \<Rightarrow> jsvalue eng" where
  "subValue = binaryValue sub"

definition mulValue :: "jsvalue \<Rightarrow> jsvalue \<Rightarrow> jsvalue eng" where
  "mulValue = binaryValue mul"

definition divValue :: "jsvalue \<Rightarrow> jsvalue \<Rightarrow> jsvalue eng" where
  "divValue = binaryValue div_bi"

definition modValue :: "jsvalue \<Rightarrow> jsvalue \<Rightarrow> jsvalue eng" where
  "modValue = binaryValue mod_bi"

definition powValue :: "jsvalue \<Rightarrow> jsvalue \<Rightarrow> jsvalue eng" where
  "powValue = binaryValue pow"

definition negValue :: "jsvalue \<Rightarrow> jsvalue eng" where
  "negValue = unaryValue neg"

definition incValue :: "jsvalue \<Rightarrow> jsvalue eng" where
  "incValue = unaryValue inc"

definition decValue :: "jsvalue \<Rightarrow> jsvalue eng" where
  "decValue = unaryValue dec"

definition lshValue :: "jsvalue \<Rightarrow> jsvalue \<Rightarrow> jsvalue eng" where
  "lshValue = binaryValue lsh"

definition rshValue :: "jsvalue \<Rightarrow> jsvalue \<Rightarrow> jsvalue eng" where
  "rshValue = binaryValue rsh"

definition bitAndValue :: "jsvalue \<Rightarrow> jsvalue \<Rightarrow> jsvalue eng" where
  "bitAndValue = binaryValue bitAnd"

definition bitXorValue :: "jsvalue \<Rightarrow> jsvalue \<Rightarrow> jsvalue eng" where
  "bitXorValue = binaryValue bitXor"

definition bitOrValue :: "jsvalue \<Rightarrow> jsvalue \<Rightarrow> jsvalue eng" where
  "bitOrValue = binaryValue bitOr"

definition bitNotValue :: "jsvalue \<Rightarrow> jsvalue eng" where
  "bitNotValue = unaryValue bitNot"

section \<open>Conversion to a BigInt\<close>

definition StringToBigIntOf :: "jsstring \<Rightarrow> bigint option eng" where
  "StringToBigIntOf str = StringToBigInt (isRope str) (needsCopy str) (chars str)"

definition ToBigInt :: "scripts \<Rightarrow> jsvalue \<Rightarrow> bigint eng" where
  "ToBigInt S val =
     bindM (ToPrimitive S JSTYPE_NUMBER val) (\<lambda>v.
     case v of
       BigIntValue x \<Rightarrow> returnM x
     | BooleanValue b \<Rightarrow> if b then one else zero
     | StringValue str \<Rightarrow>
         bindM (StringToBigIntOf str) (\<lambda>bi.
         case bi of None \<Rightarrow> throwM BigIntInvalidSyntax | Some x \<Rightarrow> returnM x)
     | _ \<Rightarrow> throwM CantConvertToBigInt)"

definition ToBigInt64 :: "scripts \<Rightarrow> jsvalue \<Rightarrow> u64 eng" where
  "ToBigInt64 S v = bindM (ToBigInt S v) toInt64"

definition ToBigUint64 :: "scripts \<Rightarrow> jsvalue \<Rightarrow> u64 eng" where
  "ToBigUint64 S v = bindM (ToBigInt S v) toUint64"

section \<open>Equality and order\<close>

definition equalString :: "bigint \<Rightarrow> jsstring \<Rightarrow> bool eng" where
  "equalString lhs rhs =
     bindM (StringToBigIntOf rhs) (\<lambda>rhsBigInt.
     case rhsBigInt of None \<Rightarrow> returnM False | Some r \<Rightarrow> equal lhs r)"

text \<open>
  The call on the primitive value of an object is the recursion; fuel 2 is enough, because
  \<open>ToPrimitive\<close> never returns an object.
\<close>

primrec looselyEqual :: "nat \<Rightarrow> scripts \<Rightarrow> bigint \<Rightarrow> jsvalue \<Rightarrow> bool eng" where
  "looselyEqual 0 S lhs rhs = throwM Diverges"
| "looselyEqual (Suc fuel) S lhs rhs =
     (case rhs of
        BigIntValue r \<Rightarrow> equal lhs r
      | StringValue str \<Rightarrow> equalString lhs str
      | ObjectValue obj \<Rightarrow>
          bindM (ToPrimitive S JSTYPE_UNDEFINED rhs) (\<lambda>rhsPrimitive. looselyEqual fuel S lhs rhsPrimitive)
      | _ \<Rightarrow>
          if isNumber rhs then bindM (toNumber rhs) (\<lambda>d. equalDouble lhs d) else returnM False)"

text \<open>\<open>lessThan\<close> of a BigInt and a string, either way, and of two values one of which is a BigInt.\<close>

definition lessThanBigIntString :: "bigint \<Rightarrow> jsstring \<Rightarrow> bool option eng" where
  "lessThanBigIntString lhs rhs =
     bindM (StringToBigIntOf rhs) (\<lambda>rhsBigInt.
     case rhsBigInt of None \<Rightarrow> returnM None | Some r \<Rightarrow> bindM (lessThan lhs r) (\<lambda>b. returnM (Some b)))"

definition lessThanStringBigInt :: "jsstring \<Rightarrow> bigint \<Rightarrow> bool option eng" where
  "lessThanStringBigInt lhs rhs =
     bindM (StringToBigIntOf lhs) (\<lambda>lhsBigInt.
     case lhsBigInt of None \<Rightarrow> returnM None | Some l \<Rightarrow> bindM (lessThan l rhs) (\<lambda>b. returnM (Some b)))"

definition lessThanValue :: "jsvalue \<Rightarrow> jsvalue \<Rightarrow> bool option eng" where
  "lessThanValue lhs rhs =
     (case lhs of
        BigIntValue l \<Rightarrow>
          (case rhs of
             StringValue str \<Rightarrow> lessThanBigIntString l str
           | _ \<Rightarrow>
             if isNumber rhs then bindM (toNumber rhs) (\<lambda>d. lessThanBigIntDouble l d)
             else mozAssert (isBigInt rhs) (
               bindM (toBigInt rhs) (\<lambda>r. bindM (lessThan l r) (\<lambda>b. returnM (Some b)))))
      | _ \<Rightarrow>
          mozAssert (isBigInt rhs) (
          bindM (toBigInt rhs) (\<lambda>r.
          case lhs of
            StringValue str \<Rightarrow> lessThanStringBigInt str r
          | _ \<Rightarrow> mozAssert (isNumber lhs) (bindM (toNumber lhs) (\<lambda>d. lessThanDoubleBigInt d r)))))"

section \<open>Public functions\<close>

definition StringToBigIntHelper :: "jschars \<Rightarrow> bigint eng" where
  "StringToBigIntHelper cs =
     bindM (ParseStringBigIntLiteral cs) (\<lambda>bi.
     case bi of None \<Rightarrow> throwM BigIntInvalidSyntax | Some x \<Rightarrow> returnM x)"

definition SimpleStringToBigIntHelper :: "jschars \<Rightarrow> nat \<Rightarrow> bigint option eng" where
  "SimpleStringToBigIntHelper cs radix =
     (if length cs > 1 \<and> cs ! 0 = of_char (CHR ''+'') then parseLiteralDigits (drop 1 cs) radix False
      else if length cs > 1 \<and> cs ! 0 = of_char (CHR ''-'') then parseLiteralDigits (drop 1 cs) radix True
      else parseLiteralDigits cs radix False)"

definition SimpleStringToBigInt :: "u8 list \<Rightarrow> nat \<Rightarrow> bigint eng" where
  "SimpleStringToBigInt cs radix =
     (if cs = [] then throwM BigIntInvalidSyntax
      else if radix < 2 \<or> radix > 36 then throwM BadRadix
      else
        bindM (SimpleStringToBigIntHelper (map ucast cs) radix) (\<lambda>bi.
        case bi of None \<Rightarrow> throwM BigIntInvalidSyntax | Some x \<Rightarrow> returnM x))"

section \<open>Well-formed values\<close>

fun validValue :: "jsvalue \<Rightarrow> bool" where
  "validValue (BigIntValue x) = wf x"
| "validValue (StringValue str) = (length (chars str) \<le> MAX_LENGTH)"
| "validValue _ = True"

text \<open>
  What the engine expects of script code: it ends, with a value that is well formed or an error.
\<close>

definition validScripts :: "scripts \<Rightarrow> env \<Rightarrow> (err \<Rightarrow> bool) \<Rightarrow> bool" where
  "validScripts S v E \<longleftrightarrow>
     (\<forall>obj key. runs (getProperty S obj key) v E validValue) \<and>
     (\<forall>f this args. runs (call S f this args) v E validValue) \<and>
     (\<forall>obj str. stringObject S obj = Some str \<longrightarrow> length (chars str) \<le> MAX_LENGTH)"

definition conversionErrors :: "err set" where
  "conversionErrors = {CantConvertToPrimitive, ToPrimitiveNotCallable, ToPrimitiveReturnedObject}"

definition primitiveError :: "env \<Rightarrow> (err \<Rightarrow> bool) \<Rightarrow> err \<Rightarrow> bool" where
  "primitiveError v E e \<longleftrightarrow> E e \<or> oom v e \<or> e \<in> conversionErrors"

lemma validValue_NumberValue [simp]: "validValue (NumberValue d)" "\<not> isObject (NumberValue d)"
  by (simp_all add: NumberValue_def split: option.splits)

lemma runs_ReportCantConvert:
  "(\<And>e. oom v e \<Longrightarrow> F e) \<Longrightarrow> F e \<Longrightarrow> runs (ReportCantConvert e hint) v F Q"
  unfolding ReportCantConvert_def by (auto intro!: runs_intros)

lemma runs_MaybeCallMethod:
  assumes "validScripts S v E" and "\<And>e. E e \<Longrightarrow> F e" and "\<And>r. validValue r \<Longrightarrow> Q r"
  shows "runs (MaybeCallMethod S obj key) v F Q"
  unfolding MaybeCallMethod_def
proof (rule runs_bindI, rule runs_weaken)
  show "runs (getProperty S obj key) v E validValue" using assms(1) by (simp add: validScripts_def)
  fix vp
  have "runs (call S vp (ObjectValue obj) []) v E validValue" using assms(1) by (simp add: validScripts_def)
  then show "runs (if \<not> isCallable S vp then returnM (ObjectValue obj) else call S vp (ObjectValue obj) []) v F Q"
    using assms(2,3) by (auto intro: runs_weaken)
qed (rule assms(2))

lemma runs_orElse:
  assumes "runs m v F validValue" and "runs n v F Q" and "\<And>r. validValue r \<Longrightarrow> \<not> isObject r \<Longrightarrow> Q r"
  shows "runs (orElse m n) v F Q"
  unfolding orElse_def using assms by (auto intro!: runs_bindM [where R = validValue])

lemma runs_OrdinaryToPrimitive:
  assumes S: "validScripts S v E" and F: "\<And>e. primitiveError v E e \<Longrightarrow> F e"
    and Q: "\<And>r. validValue r \<Longrightarrow> \<not> isObject r \<Longrightarrow> Q r"
  shows "runs (OrdinaryToPrimitive S obj hint) v F Q"
proof -
  have m: "runs (MaybeCallMethod S obj key) v F validValue" for key
    using F by (intro runs_MaybeCallMethod [OF S]) (auto simp: primitiveError_def)
  have r: "runs (ReportCantConvert CantConvertToPrimitive hint) v F Q"
    using F by (intro runs_ReportCantConvert) (auto simp: primitiveError_def conversionErrors_def)
  have "stringObject S obj = Some s \<Longrightarrow> Q (StringValue s)" for s using S by (intro Q) (auto simp: validScripts_def)
  then show ?thesis
    unfolding OrdinaryToPrimitive_def using m r Q by (auto intro!: runs_orElse)
qed

lemma runs_ToPrimitive:
  assumes S: "validScripts S v E" and val: "validValue val" and F: "\<And>e. primitiveError v E e \<Longrightarrow> F e"
    and Q: "\<And>r. validValue r \<Longrightarrow> \<not> isObject r \<Longrightarrow> (\<not> isObject val \<Longrightarrow> r = val) \<Longrightarrow> Q r"
  shows "runs (ToPrimitive S hint val) v F Q"
proof (cases "isObject val")
  case False
  then show ?thesis using val Q [of val] by (cases val) (simp_all add: ToPrimitive_def)
next
  case True
  then obtain obj where obj: "val = ObjectValue obj" by (cases val) auto
  have E: "\<And>e. E e \<Longrightarrow> F e" using F by (simp add: primitiveError_def)
  have "runs (ToPrimitiveSlow S hint obj) v F Q"
    unfolding ToPrimitiveSlow_def
  proof (rule runs_bindI, rule runs_weaken)
    show "runs (getProperty S obj toPrimitiveKey) v E validValue" using S by (simp add: validScripts_def)
    fix m
    have c: "runs (call S m (ObjectValue obj) [StringValue (typeName S hint)]) v E validValue"
      using S by (simp add: validScripts_def)
    have "runs (call S m (ObjectValue obj) [StringValue (typeName S hint)]) v F
        (\<lambda>vp. runs (if isObject vp then ReportCantConvert ToPrimitiveReturnedObject hint else returnM vp) v F Q)"
      by (rule runs_weaken [OF c])
        (use E Q F True obj in \<open>auto intro!: runs_if runs_ReportCantConvert simp: primitiveError_def conversionErrors_def\<close>)
    then show "runs (if m \<noteq> UndefinedValue \<and> m \<noteq> NullValue
        then if \<not> isCallable S m then ReportCantConvert ToPrimitiveNotCallable hint
          else bindM (call S m (ObjectValue obj) [StringValue (typeName S hint)])
            (\<lambda>vp. if isObject vp then ReportCantConvert ToPrimitiveReturnedObject hint else returnM vp)
        else OrdinaryToPrimitive S obj hint) v F Q"
      using F Q True
      by (intro runs_if runs_ReportCantConvert runs_bindI runs_OrdinaryToPrimitive [OF S])
        (auto simp: primitiveError_def conversionErrors_def)
  qed (rule E)
  then show ?thesis by (simp add: ToPrimitive_def obj)
qed

section \<open>Numbers\<close>

lemma dscaled_zero [simp]: "dscaled 0 = 0" and IsFinite_zero [simp]: "IsFinite 0"
proof -
  have "dexp 0 = 0" "dfrac 0 = 0" by (simp_all add: dexp_nat dfrac_nat)
  then show "dscaled 0 = 0" "IsFinite 0" by (simp_all add: dscaled_def dmag_def IsFinite_iff)
qed

lemma dscaled_withSign:
  assumes "dsign d = s" and "dmag d = n * 2 ^ 1074"
  shows "dscaled d = withSign s n * 2 ^ 1074"
proof -
  define U where "U = (2 :: nat) ^ 1074"
  have U: "(2 :: int) ^ 1074 = int U" by (simp only: U_def of_nat_power of_nat_numeral)
  show ?thesis unfolding dscaled_def assms U U_def [symmetric] by simp
qed

lemma sint_cases32: "sint (n :: u32) = int (unat n) - (if n <s 0 then 2 ^ 32 else 0)"
proof -
  have "sint n = take_bit 32 (uint n) - 2 ^ 32 * of_bool (bit (uint n) 31)"
    by (simp add: sint_uint signed_take_bit_eq_take_bit_minus)
  moreover have "take_bit 32 (uint n) = uint n" using uint_lt2p [of n] by (simp add: take_bit_int_eq_self)
  ultimately have s: "sint n = uint n - 2 ^ 32 * of_bool (bit (uint n) 31)" by simp
  have "n <s 0 \<longleftrightarrow> sint n < 0" by (simp add: word_sless_alt)
  then show ?thesis using s uint_lt2p [of n] by (cases "bit (uint n) 31") auto
qed

lemma unat_uminus32:
  assumes "i \<noteq> (0 :: u32)"
  shows "int (unat (- i)) = 2 ^ 32 - int (unat i)"
proof -
  have lt: "unat i < 2 ^ 32" "unat i \<noteq> 0" using unsigned_less [of i, where ?'a = nat] assms by (simp_all add: unat_eq_zero)
  have "(of_nat (2 ^ 32 - unat i) :: u32) = of_nat (2 ^ 32) - of_nat (unat i)" using lt by (intro of_nat_diff) simp
  also have "\<dots> = - i" by simp
  finally have "unat (- i) = unat (of_nat (2 ^ 32 - unat i) :: u32)" by (simp only:)
  also have "\<dots> = 2 ^ 32 - unat i" using lt by (simp add: unat_of_nat del: of_nat_diff)
  finally show ?thesis using lt by (simp add: of_nat_diff del: of_nat_unat)
qed

lemma doubleFromInt32_value: "IsFinite (doubleFromInt32 i) \<and> dscaled (doubleFromInt32 i) = sint i * 2 ^ 1074"
proof -
  have pos: "IsFinite (doubleFromUint64 (ucast n)) \<and> dscaled (doubleFromUint64 (ucast n)) = int (unat n) * 2 ^ 1074 \<and>
      (n \<noteq> 0 \<longrightarrow> \<not> dsign (doubleFromUint64 (ucast n)) \<and> dmag (doubleFromUint64 (ucast n)) = unat n * 2 ^ 1074)" for n :: u32
  proof (cases "n = 0")
    case True
    then show ?thesis by (simp add: doubleFromUint64_def)
  next
    case False
    have u: "unat (ucast n :: u64) = unat n"
      using unsigned_less [of n, where ?'a = nat] by (simp add: unsigned_ucast_eq take_bit_nat_eq_self_iff)
    then have "(ucast n :: u64) \<noteq> 0" "unat (ucast n :: u64) \<le> 2 ^ 53"
      using False unsigned_less [of n, where ?'a = nat] by (auto simp flip: unat_eq_zero)
    from doubleFromUint64_fields [OF this]
    have f: "\<not> dsign (doubleFromUint64 (ucast n))" "dmag (doubleFromUint64 (ucast n)) = unat n * 2 ^ 1074"
      "IsFinite (doubleFromUint64 (ucast n))" unfolding u by simp_all
    then show ?thesis using dscaled_withSign [of "doubleFromUint64 (ucast n)" False] by simp
  qed
  show ?thesis
  proof (cases "i <s 0")
    case False
    then have "int (unat i) = sint i" by (simp add: sint_cases32)
    then show ?thesis using False pos [of i] by (simp add: doubleFromInt32_def)
  next
    case True
    then have "- i \<noteq> 0" by auto
    note p = pos [of "- i"] negateDouble_fields [of "doubleFromUint64 (ucast (- i))"]
    have "- int (unat (- i)) = sint i" using True \<open>- i \<noteq> 0\<close> unat_uminus32 [of i] sint_cases32 [of i] by simp
    then show ?thesis
      using True p \<open>- i \<noteq> 0\<close> dscaled_withSign [of "negateDouble (doubleFromUint64 (ucast (- i)))" True "unat (- i)"]
      by (simp add: doubleFromInt32_def)
  qed
qed


text \<open>What a conversion returned is a primitive value that the conversion can return.\<close>

lemma runs_ToPrimitive_result:
  assumes S: "validScripts S v E" and val: "validValue val" and F: "\<And>e. primitiveError v E e \<Longrightarrow> F e"
    and Q: "\<And>r. validValue r \<Longrightarrow> \<not> isObject r \<Longrightarrow> (\<not> isObject val \<Longrightarrow> r = val) \<Longrightarrow>
      mayReturn (ToPrimitive S hint val) v r \<Longrightarrow> Q r"
  shows "runs (ToPrimitive S hint val) v F Q"
proof -
  have "runs (ToPrimitive S hint val) v F (\<lambda>r. validValue r \<and> \<not> isObject r \<and> (\<not> isObject val \<longrightarrow> r = val))"
    using F by (intro runs_ToPrimitive [OF S val]) auto
  then show ?thesis by (rule runs_weakenQ [OF runs_mayReturn]) (use Q in blast)
qed

section \<open>Operators\<close>

text \<open>
  \<open>implements pre F err f\<close>: on valid values at least one of which is a BigInt, the operator \<open>F\<close>
  refuses a mixed pair with \<open>BigIntToNumber\<close> and else returns the BigInt of \<open>f\<close>, where \<open>pre\<close> holds.
\<close>

definition implements ::
  "(bigint \<Rightarrow> bigint \<Rightarrow> bool) \<Rightarrow> (jsvalue \<Rightarrow> jsvalue \<Rightarrow> jsvalue eng) \<Rightarrow> env \<Rightarrow>
    (bigint \<Rightarrow> bigint \<Rightarrow> err \<Rightarrow> bool) \<Rightarrow> (int \<Rightarrow> int \<Rightarrow> int) \<Rightarrow> jsvalue \<Rightarrow> jsvalue \<Rightarrow> bool" where
  "implements pre F v err f l r \<longleftrightarrow>
     (case (l, r) of
        (BigIntValue x, BigIntValue y) \<Rightarrow>
          pre x y \<longrightarrow> runs (F l r) v (err x y) (\<lambda>res. \<exists>z. res = BigIntValue z \<and> wf z \<and> bval z = f (bval x) (bval y))
      | _ \<Rightarrow> runs (F l r) v (\<lambda>e. e = BigIntToNumber) (\<lambda>res. False))"

lemma implements_binaryValue:
  assumes "\<And>x y. l = BigIntValue x \<Longrightarrow> r = BigIntValue y \<Longrightarrow> pre x y \<Longrightarrow>
      runs (operation x y) v (err x y) (\<lambda>z. wf z \<and> bval z = f (bval x) (bval y))"
    and "isBigInt l \<or> isBigInt r"
  shows "implements pre (binaryValue operation) v err f l r"
proof (cases "isBigInt l \<and> isBigInt r")
  case True
  then obtain x y where lr: "l = BigIntValue x" "r = BigIntValue y" by (cases l; cases r) auto
  have "runs (operation x y) v (err x y) (\<lambda>z. runs (returnM (BigIntValue z)) v (err x y)
      (\<lambda>res. \<exists>z. res = BigIntValue z \<and> wf z \<and> bval z = f (bval x) (bval y)))" if "pre x y"
    using assms(1) [OF lr that] by (rule runs_weakenQ) simp
  then show ?thesis by (auto simp: implements_def lr binaryValue_def ValidBigIntOperands_def intro: runs_bindI)
next
  case False
  then show ?thesis using assms(2)
    by (cases l; cases r) (simp_all add: implements_def binaryValue_def ValidBigIntOperands_def)
qed

text \<open>The same for an operator with one operand, which is a BigInt.\<close>

definition implements1 ::
  "(jsvalue \<Rightarrow> jsvalue eng) \<Rightarrow> env \<Rightarrow> (bigint \<Rightarrow> err \<Rightarrow> bool) \<Rightarrow> (int \<Rightarrow> int) \<Rightarrow> jsvalue \<Rightarrow> bool" where
  "implements1 F v err f l \<longleftrightarrow>
     (case l of
        BigIntValue x \<Rightarrow> runs (F l) v (err x) (\<lambda>res. \<exists>z. res = BigIntValue z \<and> wf z \<and> bval z = f (bval x))
      | _ \<Rightarrow> True)"

lemma implements_unaryValue:
  assumes "\<And>x. l = BigIntValue x \<Longrightarrow> runs (operation x) v (err x) (\<lambda>z. wf z \<and> bval z = f (bval x))"
  shows "implements1 (unaryValue operation) v err f l"
proof (cases l)
  case (BigIntValue x)
  have "runs (operation x) v (err x) (\<lambda>z. runs (returnM (BigIntValue z)) v (err x)
      (\<lambda>res. \<exists>z. res = BigIntValue z \<and> wf z \<and> bval z = f (bval x)))"
    using assms [OF BigIntValue] by (rule runs_weakenQ) simp
  then show ?thesis by (auto simp: implements1_def BigIntValue unaryValue_def intro: runs_bindI)
qed (simp_all add: implements1_def)

section \<open>Specifications\<close>

definition primToBigInt :: "jsvalue \<Rightarrow> err + int" where
  "primToBigInt p =
     (case p of
        BigIntValue x \<Rightarrow> Inr (bval x)
      | BooleanValue b \<Rightarrow> Inr (if b then 1 else 0)
      | StringValue str \<Rightarrow> (case stringValue (chars str) of None \<Rightarrow> Inl BigIntInvalidSyntax | Some n \<Rightarrow> Inr n)
      | _ \<Rightarrow> Inl CantConvertToBigInt)"

definition tooLongError :: "jsvalue \<Rightarrow> err \<Rightarrow> bool" where
  "tooLongError p e \<longleftrightarrow> e = OutOfMemory \<and> (\<exists>str. p = StringValue str \<and> stringTooLong (chars str))"

definition looseEq :: "bigint \<Rightarrow> jsvalue \<Rightarrow> bool" where
  "looseEq x p =
     (case p of
        BigIntValue y \<Rightarrow> bval x = bval y
      | StringValue str \<Rightarrow> stringValue (chars str) = Some (bval x)
      | Int32Value i \<Rightarrow> bval x = sint i
      | DoubleValue d \<Rightarrow> \<not> IsNaN d \<and> doubleOrder x d = 0
      | _ \<Rightarrow> False)"

text \<open>The order of a BigInt and a number or string: the sign of the difference, if there is one.\<close>

definition orderValue :: "bigint \<Rightarrow> jsvalue \<Rightarrow> int option" where
  "orderValue x p =
     (case p of
        BigIntValue y \<Rightarrow> Some (sgn (bval x - bval y))
      | StringValue str \<Rightarrow> map_option (\<lambda>n. sgn (bval x - n)) (stringValue (chars str))
      | Int32Value i \<Rightarrow> Some (sgn (bval x - sint i))
      | DoubleValue d \<Rightarrow> if IsNaN d then None else Some (doubleOrder x d)
      | _ \<Rightarrow> None)"

lemma doubleOrder_int: "IsFinite d \<Longrightarrow> dscaled d = n * 2 ^ 1074 \<Longrightarrow> doubleOrder x d = sgn (bval x - n)"
proof -
  assume d: "IsFinite d" "dscaled d = n * 2 ^ 1074"
  have "bval x * 2 ^ 1074 - n * 2 ^ 1074 = (bval x - n) * 2 ^ 1074" by (simp only: left_diff_distrib)
  moreover have "sgn ((2 :: int) ^ 1074) = 1" by (simp only: sgn_pos zero_less_power zero_less_numeral)
  ultimately show ?thesis using d unfolding doubleOrder_def by (simp only: if_True sgn_mult mult_1_right)
qed

lemma doubleOrder_int32: "doubleOrder x (doubleFromInt32 i) = sgn (bval x - sint i)" "\<not> IsNaN (doubleFromInt32 i)"
  using doubleOrder_int doubleFromInt32_value IsFinite_not_NaN by auto

lemma runs_equalDouble:
  "wf x \<Longrightarrow> Q (\<not> IsNaN y \<and> doubleOrder x y = 0) \<Longrightarrow> runs (equalDouble x y) v E Q"
  unfolding equalDouble_def by (auto intro!: runs_intros runs_compareDouble split: if_splits)

lemma runs_looselyEqual_primitive:
  assumes wf: "wf x" and p: "validValue p" "\<not> isObject p"
    and E: "\<And>e. oom v e \<or> tooLongError p e \<Longrightarrow> E e" and Q: "Q (looseEq x p)"
  shows "runs (looselyEqual (Suc n) S x p) v E Q"
proof (cases p)
  case (StringValue str)
  then show ?thesis
    using wf p(1) E Q
    by (auto simp: equalString_def StringToBigIntOf_def tooLongError_def looseEq_def eq_commute [of _ "bval x"]
        intro!: runs_bindI runs_StringToBigInt runs_equal split: if_splits)
next
  case (BigIntValue y)
  then show ?thesis using wf p(1) Q by (auto simp: looseEq_def intro!: runs_equal)
next
  case (Int32Value i)
  have "sgn (bval x - sint i) = 0 \<longleftrightarrow> bval x = sint i" by (simp add: sgn_0_0)
  then show ?thesis using Int32Value wf Q doubleOrder_int32 by (auto simp: looseEq_def intro!: runs_equalDouble)
next
  case (DoubleValue d)
  then show ?thesis using wf Q by (auto simp: looseEq_def intro!: runs_equalDouble)
qed (use p(2) Q in \<open>simp_all add: looseEq_def\<close>)

lemma runs_ToBigInt_primitive:
  assumes p: "validValue p" "\<not> isObject p"
    and E: "\<And>e. oom v e \<or> tooLongError p e \<or> primToBigInt p = Inl e \<Longrightarrow> E e"
    and Q: "\<And>r. wf r \<Longrightarrow> primToBigInt p = Inr (bval r) \<Longrightarrow> Q r"
  shows "runs (ToBigInt S p) v E Q"
proof (cases p)
  case (StringValue str)
  then show ?thesis
    using p(1) E Q
    by (auto simp: ToBigInt_def ToPrimitive_def StringToBigIntOf_def tooLongError_def primToBigInt_def
        intro!: runs_bindI runs_StringToBigInt)
next
  case (BooleanValue b)
  then show ?thesis
    using E Q by (auto simp: ToBigInt_def ToPrimitive_def primToBigInt_def bval_make intro!: runs_one runs_zero)
qed (use p E Q in \<open>simp_all add: ToBigInt_def ToPrimitive_def primToBigInt_def\<close>)


lemma runs_lessThan: "wf x \<Longrightarrow> wf y \<Longrightarrow> Q (bval x < bval y) \<Longrightarrow> runs (lessThan x y) v E Q"
  by (auto simp: lessThan_def sgn_if intro!: runs_bindI runs_compare split: if_splits)

text \<open>A world in which every property is undefined, for the witnesses.\<close>

definition emptyScripts :: scripts where
  "emptyScripts = \<lparr>getProperty = \<lambda>obj key. returnM UndefinedValue, isCallable = \<lambda>x. False,
     call = \<lambda>f this args. throwM UserException, stringObject = \<lambda>obj. None, numberObject = \<lambda>obj. None,
     hasNativeMethod = \<lambda>obj key. False, typeName = \<lambda>t. \<lparr>chars = [], isRope = False, needsCopy = False\<rparr>\<rparr>"

lemma validScripts_empty: "validScripts emptyScripts v (\<lambda>e. e = UserException)"
  by (simp add: validScripts_def emptyScripts_def)


section \<open>Properties\<close>

text \<open>
  C31. The operators on values: a mixed pair is refused with \<open>BigIntToNumber\<close>, two BigInts give the
  BigInt of the exact sum, difference, product, truncated quotient, remainder, power, two's
  complement \<open>and\<close>, \<open>or\<close>, \<open>xor\<close> or shift, and one BigInt that of its negation, successor,
  predecessor or complement, under the errors of the operation only; so a value that is a BigInt stays one.  The
  shifts are stated outside the case in which the code leaves a digit of its result unwritten.
\<close>

theorem value_operators:
  assumes "validValue l" and "validValue r" and "isBigInt l \<or> isBigInt r"
  shows "implements (\<lambda>x y. True) addValue v (add_error v) (+) l r \<and>
    implements (\<lambda>x y. True) subValue v (add_error v) (-) l r \<and>
    implements (\<lambda>x y. True) mulValue v (mul_error v) (*) l r \<and>
    implements (\<lambda>x y. True) divValue v (div_error v) (sdiv) l r \<and>
    implements (\<lambda>x y. True) modValue v (div_error v) (smod) l r \<and>
    implements (\<lambda>x y. True) powValue v (pow_error v) (\<lambda>a b. a ^ nat b) l r \<and>
    implements (\<lambda>x y. True) bitAndValue v (\<lambda>x y. bit_error v (bval x AND bval y)) (AND) l r \<and>
    implements (\<lambda>x y. True) bitOrValue v (\<lambda>x y. bit_error v (bval x OR bval y)) (OR) l r \<and>
    implements (\<lambda>x y. True) bitXorValue v (\<lambda>x y. bit_error v (bval x XOR bval y)) (XOR) l r \<and>
    implements (\<lambda>x y. bval y < 0 \<longrightarrow> \<not> unwrittenDigit x (nat (- bval y))) lshValue v
      (\<lambda>x y. shift_error v (bval x) (bval y)) shiftInt l r \<and>
    implements (\<lambda>x y. 0 \<le> bval y \<longrightarrow> \<not> unwrittenDigit x (nat (bval y))) rshValue v
      (\<lambda>x y. shift_error v (bval x) (- bval y)) (\<lambda>a b. shiftInt a (- b)) l r \<and>
    implements1 negValue v (\<lambda>x. oom v) uminus l \<and>
    implements1 incValue v (one_error v) (\<lambda>a. a + 1) l \<and>
    implements1 decValue v (one_error v) (\<lambda>a. a - 1) l \<and>
    implements1 bitNotValue v (one_error v) (NOT) l"
  unfolding addValue_def subValue_def mulValue_def divValue_def modValue_def powValue_def bitAndValue_def
    bitOrValue_def bitXorValue_def lshValue_def rshValue_def negValue_def incValue_def decValue_def bitNotValue_def
  using assms
  by (intro conjI implements_binaryValue implements_unaryValue runs_add runs_sub runs_mul runs_div runs_mod runs_pow
      runs_bitAnd runs_bitOr runs_bitXor runs_lsh runs_rsh runs_neg runs_inc runs_dec runs_bitNot) (auto simp: not_int_def)

theorem value_operators_witness:
  "runs (subValue (BigIntValue \<lparr>digits = [3], isNegative = True\<rparr>) (BigIntValue \<lparr>digits = [5], isNegative = False\<rparr>)) plenty
      (\<lambda>e. False) (\<lambda>res. \<exists>z. res = BigIntValue z \<and> wf z \<and> bval z = - 8) \<and>
   runs (rshValue (BigIntValue \<lparr>digits = [3], isNegative = True\<rparr>) (BigIntValue \<lparr>digits = [5], isNegative = False\<rparr>)) plenty
      (\<lambda>e. False) (\<lambda>res. \<exists>z. res = BigIntValue z \<and> wf z \<and> bval z = - 1) \<and>
   runs (bitNotValue (BigIntValue \<lparr>digits = [3], isNegative = True\<rparr>)) plenty
      (\<lambda>e. False) (\<lambda>res. \<exists>z. res = BigIntValue z \<and> wf z \<and> bval z = 2)"
proof -
  let ?l = "BigIntValue \<lparr>digits = [3], isNegative = True\<rparr>" and ?r = "BigIntValue \<lparr>digits = [5], isNegative = False\<rparr>"
  have "validValue ?l" "validValue ?r" "isBigInt ?l \<or> isBigInt ?r" by (simp_all add: wf_eval)
  note t = value_operators [OF this, of plenty]
  have len: "MaxDigitLength = 16384" by (simp add: MaxDigitLength_def MaxBitLength_def DigitBits_def)
  have "Base ^ 1 \<le> Base ^ MaxDigitLength" using len by (intro power_increasing) simp_all
  then have "Base ^ MaxDigitLength \<noteq> 4" using Base_gt_3 by (simp add: Base_def)
  with len have e: "add_error plenty \<lparr>digits = [3], isNegative = True\<rparr> \<lparr>digits = [5], isNegative = False\<rparr> = (\<lambda>e. False)"
    "shift_error plenty (- 3) (- 5) = (\<lambda>e. False)" "one_error plenty \<lparr>digits = [3], isNegative = True\<rparr> = (\<lambda>e. False)"
    by (simp_all add: fun_eq_iff add_error_def shift_error_def one_error_def oom_plenty_fun)
  show ?thesis
    using t by (simp add: implements_def implements1_def bval_make e unwrittenDigit_def shiftInt_def)
qed

text \<open>
  C32. \<open>ToPrimitive\<close> never returns an object, whatever script code does: it returns a primitive value,
  the value itself when that is primitive already, or an error (of the script, of memory, or its own).
\<close>

theorem ToPrimitive_not_object:
  assumes "validScripts S v E" and "validValue val"
  shows "runs (ToPrimitive S hint val) v (primitiveError v E)
    (\<lambda>r. validValue r \<and> \<not> isObject r \<and> (isObject val \<or> r = val))"
  using assms by (intro runs_ToPrimitive) auto

theorem ToPrimitive_not_object_witness:
  "runs (ToPrimitive emptyScripts JSTYPE_NUMBER (ObjectValue 0)) plenty (primitiveError plenty (\<lambda>e. e = UserException))
    (\<lambda>r. \<not> isObject r)"
  by (rule runs_weakenQ [OF ToPrimitive_not_object [OF validScripts_empty]]) simp_all

text \<open>
  C33. \<open>ToBigInt\<close> of a primitive value returns the canonical BigInt of a BigInt, of a boolean, or of a
  string that is a number, reports invalid syntax for any other string, and refuses every other
  value; of an object, it returns a canonical BigInt or an error.
\<close>

theorem ToBigInt_correct:
  assumes "validScripts S v E" and "validValue val"
  shows "runs (ToBigInt S val) v
    (\<lambda>e. oom v e \<or> tooLongError val e \<or> primToBigInt val = Inl e \<or>
      isObject val \<and> (E e \<or> e \<in> conversionErrors \<or> e \<in> {OutOfMemory, BigIntInvalidSyntax, CantConvertToBigInt}))
    (\<lambda>r. wf r \<and> (isObject val \<or> primToBigInt val = Inr (bval r)))"
    (is "runs _ v ?E ?Q")
proof (cases "isObject val")
  case False
  then show ?thesis using assms(2) by (intro runs_ToBigInt_primitive) auto
next
  case True
  have prim: "runs (case r of
       BigIntValue x \<Rightarrow> returnM x
     | BooleanValue b \<Rightarrow> if b then one else zero
     | StringValue str \<Rightarrow>
         bindM (StringToBigIntOf str) (\<lambda>bi.
         case bi of None \<Rightarrow> throwM BigIntInvalidSyntax | Some x \<Rightarrow> returnM x)
     | _ \<Rightarrow> throwM CantConvertToBigInt) v ?E ?Q" if r: "validValue r" "\<not> isObject r" for r
  proof -
    have "e \<in> {OutOfMemory, BigIntInvalidSyntax, CantConvertToBigInt}" if "tooLongError r e \<or> primToBigInt r = Inl e" for e
      using that by (auto simp: tooLongError_def primToBigInt_def split: jsvalue.splits option.splits)
    then have "runs (ToBigInt S r) v ?E ?Q" using r True by (intro runs_ToBigInt_primitive) auto
    then show ?thesis using r(2) by (cases r) (simp_all add: ToBigInt_def ToPrimitive_def)
  qed
  show ?thesis
    unfolding ToBigInt_def
    by (rule runs_bindI, rule runs_ToPrimitive [OF assms]) (use prim True in \<open>auto simp: primitiveError_def\<close>)
qed

theorem ToBigInt_correct_witness:
  "runs (ToBigInt emptyScripts (BooleanValue True)) plenty (\<lambda>e. False) (\<lambda>r. wf r \<and> bval r = 1)"
  by (rule runs_weaken [OF ToBigInt_correct [OF validScripts_empty, of "BooleanValue True" plenty]])
    (auto simp: tooLongError_def primToBigInt_def)

text \<open>
  C34. Loose equality of a BigInt and any value: with fuel 2 it always returns or reports an error of
  script code, of \<open>ToPrimitive\<close> or of memory; for a primitive value the answer is equality of the
  numbers (a string counts as the number it stands for, and NaN, an unreadable string and every other
  kind of value are different from any BigInt), and for an object it is that answer for a primitive
  value that its conversion without a preferred type gave.
\<close>

theorem looselyEqual_correct:
  assumes "validScripts S v E" and "wf x" and "validValue val"
  shows "runs (looselyEqual (Suc (Suc n)) S x val) v
    (\<lambda>e. oom v e \<or> tooLongError val e \<or> isObject val \<and> (E e \<or> e \<in> conversionErrors \<or> e = OutOfMemory))
    (\<lambda>b. if isObject val
      then \<exists>p. mayReturn (ToPrimitive S JSTYPE_UNDEFINED val) v p \<and> \<not> isObject p \<and> (b \<longleftrightarrow> looseEq x p)
      else b \<longleftrightarrow> looseEq x val)"
    (is "runs _ v ?E ?Q")
proof (cases "isObject val")
  case False
  then show ?thesis using assms(2,3) by (intro runs_looselyEqual_primitive) auto
next
  case True
  then obtain obj where obj: "val = ObjectValue obj" by (cases val) auto
  have "runs (looselyEqual (Suc n) S x r) v ?E ?Q"
    if "validValue r" "\<not> isObject r" "mayReturn (ToPrimitive S JSTYPE_UNDEFINED val) v r" for r
    using that True assms(2) by (intro runs_looselyEqual_primitive) (auto simp: tooLongError_def)
  then have "runs (bindM (ToPrimitive S JSTYPE_UNDEFINED val) (looselyEqual (Suc n) S x)) v ?E ?Q"
    using True by (intro runs_bindI runs_ToPrimitive_result [OF assms(1,3)]) (auto simp: primitiveError_def)
  then show ?thesis by (simp add: obj)
qed

text \<open>A world in which every object is \<open>new Number(0)\<close>.\<close>

definition zeroObjects :: scripts where
  "zeroObjects = emptyScripts\<lparr>numberObject := \<lambda>obj. Some 0, hasNativeMethod := \<lambda>obj key. True\<rparr>"

lemma looselyEqual_correct_witness:
  "runs (looselyEqual 2 zeroObjects \<lparr>digits = [], isNegative = False\<rparr> (ObjectValue 7)) plenty
     (\<lambda>e. e = UserException \<or> e \<in> conversionErrors \<or> e = OutOfMemory) (\<lambda>b. b) \<and>
   runs (looselyEqual 2 emptyScripts \<lparr>digits = [5], isNegative = True\<rparr> (Int32Value (- 5))) plenty (\<lambda>e. False) (\<lambda>b. b)"
proof -
  have fuel: "looselyEqual 2 = looselyEqual (Suc (Suc 0))" by (simp add: numeral_2_eq_2)
  have x: "wf \<lparr>digits = [5], isNegative = True\<rparr>" "bval \<lparr>digits = [5], isNegative = True\<rparr> = - 5"
    by (simp_all add: wf_eval bval_eval)
  have "validScripts zeroObjects plenty (\<lambda>e. e = UserException)"
    by (simp add: validScripts_def zeroObjects_def emptyScripts_def)
  note obj = looselyEqual_correct [OF this wf_empty, where val = "ObjectValue 7" and n = 0]
  have "dmag 0 = 0" by (simp add: dmag_def dexp_nat dfrac_nat)
  then have "NumberValue 0 = Int32Value 0"
    by (simp add: NumberValue_def NumberIsInt32_def NumberEqualsInt32_def dtrunc_def IsNegativeZero_def kSignBit_def)
  then have prim: "ToPrimitive zeroObjects JSTYPE_UNDEFINED (ObjectValue 7) = returnM (Int32Value 0)"
    by (simp add: ToPrimitive_def ToPrimitiveSlow_def zeroObjects_def emptyScripts_def OrdinaryToPrimitive_def)
  have "runs (looselyEqual 2 zeroObjects \<lparr>digits = [], isNegative = False\<rparr> (ObjectValue 7)) plenty
     (\<lambda>e. e = UserException \<or> e \<in> conversionErrors \<or> e = OutOfMemory) (\<lambda>b. b)"
    unfolding fuel by (rule runs_weaken [OF obj]) (auto simp: prim looseEq_def bval_make oom_plenty_fun tooLongError_def)
  then show ?thesis
    using looselyEqual_correct [OF validScripts_empty x(1), where val = "Int32Value (- 5)" and n = 0 and v = plenty] fuel
    by (simp add: tooLongError_def looseEq_def x(2) oom_plenty_fun)
qed

definition comparable :: "jsvalue \<Rightarrow> bool" where
  "comparable p \<longleftrightarrow> (case p of BigIntValue y \<Rightarrow> True | Int32Value i \<Rightarrow> True | DoubleValue d \<Rightarrow> True | StringValue s \<Rightarrow> True | _ \<Rightarrow> False)"

text \<open>
  The order of a BigInt and a BigInt, number or string, on either side: \<open>lessThan\<close> answers by the
  sign of the exact difference, and leaves the order undefined for NaN and for a string that is not
  a number.
\<close>

theorem lessThanValue_correct:
  assumes "wf x" and "validValue p" and "comparable p"
  shows "runs (lessThanValue (BigIntValue x) p) v (\<lambda>e. oom v e \<or> tooLongError p e)
      (\<lambda>b. b = map_option (\<lambda>c. c < 0) (orderValue x p)) \<and>
    runs (lessThanValue p (BigIntValue x)) v (\<lambda>e. oom v e \<or> tooLongError p e)
      (\<lambda>b. b = map_option (\<lambda>c. 0 < c) (orderValue x p))"
proof (cases p)
  case (StringValue str)
  then show ?thesis
    using assms
    by (auto simp: lessThanValue_def lessThanBigIntString_def lessThanStringBigInt_def StringToBigIntOf_def tooLongError_def
        orderValue_def sgn_if intro!: runs_bindI runs_StringToBigInt runs_lessThan)
next
  case (BigIntValue y)
  then show ?thesis using assms by (auto simp: lessThanValue_def orderValue_def sgn_if intro!: runs_bindI runs_lessThan)
next
  case (Int32Value i)
  then show ?thesis
    using assms doubleOrder_int32 
    by (auto simp: lessThanValue_def orderValue_def lessThanBigIntDouble_def lessThanDoubleBigInt_def
        intro!: runs_bindI runs_compareDouble)
next
  case (DoubleValue d)
  then show ?thesis
    using assms
    by (auto simp: lessThanValue_def orderValue_def lessThanBigIntDouble_def lessThanDoubleBigInt_def
        intro!: runs_bindI runs_compareDouble)
qed (use assms(3) in \<open>simp_all add: comparable_def\<close>)

theorem lessThanValue_correct_witness:
  "runs (lessThanValue (Int32Value 7) (BigIntValue \<lparr>digits = [5], isNegative = False\<rparr>)) plenty (\<lambda>e. False) (\<lambda>b. b = Some False)"
proof -
  have x: "wf \<lparr>digits = [5], isNegative = False\<rparr>" "bval \<lparr>digits = [5], isNegative = False\<rparr> = 5"
    by (simp_all add: wf_eval bval_eval)
  show ?thesis
    using lessThanValue_correct [OF x(1), of "Int32Value 7" plenty]
    by (simp add: comparable_def tooLongError_def orderValue_def x(2) oom_plenty_fun)
qed

definition simpleValue :: "u8 list \<Rightarrow> nat \<Rightarrow> int option" where
  "simpleValue cs radix =
     (let txt = map ucast cs in
      if length txt > 1 \<and> txt ! 0 = of_char (CHR ''+'') then map_option int (textValue radix 0 (drop 1 txt))
      else if length txt > 1 \<and> txt ! 0 = of_char (CHR ''-'') then map_option (\<lambda>n. - int n) (textValue radix 0 (drop 1 txt))
      else map_option int (textValue radix 0 txt))"

text \<open>
  \<open>SimpleStringToBigInt\<close> reads a text with an optional sign in any radix from 2 to 36: an empty
  text, a bad radix and a character that is not a digit are reported as such, and any other text
  gives the canonical BigInt of its value.
\<close>

theorem SimpleStringToBigInt_correct:
  assumes "length cs \<le> MAX_LENGTH"
  shows "runs (SimpleStringToBigInt cs radix) v
    (\<lambda>e. oom v e \<or> e = BigIntInvalidSyntax \<and> (cs = [] \<or> 2 \<le> radix \<and> radix \<le> 36 \<and> simpleValue cs radix = None) \<or>
      e = BadRadix \<and> cs \<noteq> [] \<and> \<not> (2 \<le> radix \<and> radix \<le> 36) \<or> e = OutOfMemory)
    (\<lambda>r. wf r \<and> cs \<noteq> [] \<and> 2 \<le> radix \<and> radix \<le> 36 \<and> simpleValue cs radix = Some (bval r))"
    (is "runs _ v ?E ?Q")
proof (cases "cs = [] \<or> radix < 2 \<or> radix > 36")
  case True
  then show ?thesis by (auto simp: SimpleStringToBigInt_def)
next
  case False
  let ?txt = "map ucast cs :: jschars"
  have ok: "?txt \<noteq> []" "length ?txt \<le> MAX_LENGTH" "2 \<le> radix" "radix \<le> 36" using False assms by simp_all
  let ?P = "\<lambda>bi. runs (case bi of None \<Rightarrow> throwM BigIntInvalidSyntax | Some x \<Rightarrow> returnM x) v ?E ?Q"
  have parse: "runs (parseLiteralDigits t radix s) v ?E ?P"
    if "t \<noteq> []" "length t \<le> MAX_LENGTH" "simpleValue cs radix = map_option (withSign s) (textValue radix 0 t)" for t s
    using that ok False by (intro runs_parseLiteralDigits) auto
  have "runs (SimpleStringToBigIntHelper ?txt radix) v ?E ?P"
    unfolding SimpleStringToBigIntHelper_def
    using ok(1,2)
    by (intro runs_if parse) (auto simp: simpleValue_def Let_def split del: if_split cong: if_cong)
  then show ?thesis using False by (auto simp: SimpleStringToBigInt_def intro!: runs_bindI)
qed

theorem SimpleStringToBigInt_correct_witness:
  "runs (SimpleStringToBigInt (map of_char ''-zz'') 36) plenty (\<lambda>e. e = OutOfMemory) (\<lambda>r. bval r = - 1295)"
  by (rule runs_weaken [OF SimpleStringToBigInt_correct])
    (auto simp: MAX_LENGTH_def simpleValue_def textValue_Cons charDigit_def Let_def)

end
