(* ===== verification/Xdr.thy ===== *)
theory Xdr
  imports BigInt_ToString
begin

text \<open>
  XDR, the serialisation of the engine (\<open>js/src/vm/Xdr.h\<close>, \<open>js/src/vm/Xdr.cpp\<close>): the buffers, the
  coders of integers, enumerations, doubles, byte and character arrays, null-terminated strings, the
  build identifier, and \<open>XDRBigInt\<close> (\<open>js/src/vm/BigIntType.cpp\<close>).  A coder is a template on the mode;
  the model has one definition per mode.  The locale \<open>codec\<close> is the contract of such a pair.
\<close>

section \<open>Buffers\<close>

text \<open>The bytes of \<open>mozilla::LittleEndian\<close>.\<close>

primrec leBytes :: "nat \<Rightarrow> nat \<Rightarrow> u8 list" where
  "leBytes 0 n = []"
| "leBytes (Suc k) n = of_nat (n mod 256) # leBytes k (n div 256)"

primrec leValue :: "u8 list \<Rightarrow> nat" where
  "leValue [] = 0"
| "leValue (b # bs) = unat b + 256 * leValue bs"

record encoder =
  ebuffer :: "u8 list"
  ecursor :: nat

record decoder =
  drange :: "u8 list"
  dcursor :: nat

text \<open>
  \<open>XDRBuffer<XDR_ENCODE>::write(n)\<close> followed by the caller's store of the \<open>n\<close> bytes: the buffer grows
  by \<open>n\<close> uninitialised bytes and the bytes land at the cursor.
\<close>

definition writeBytes :: "u8 list \<Rightarrow> encoder \<Rightarrow> encoder eng" where
  "writeBytes bytes st =
     (let n = length bytes in
      mozAssert (n \<noteq> 0) (
      bindM allocM (\<lambda>mem.
      let grown = ebuffer st @ map (\<lambda>i. ucast (mem i)) [0..<n];
          stored = take (ecursor st) grown @ bytes @ drop (ecursor st + n) grown in
      returnM (st\<lparr>ebuffer := stored, ecursor := ecursor st + n\<rparr>))))"

text \<open>\<open>XDRBuffer<XDR_DECODE>::read(n)\<close>; the null pointer is \<open>None\<close>, and the cursor moves even then.\<close>

definition readBytes :: "nat \<Rightarrow> decoder \<Rightarrow> (u8 list option \<times> decoder) eng" where
  "readBytes n st =
     mozAssert (dcursor st < length (drange st)) (
     let c = dcursor st; st = st\<lparr>dcursor := c + n\<rparr> in
     if dcursor st > length (drange st) then returnM (None, st)
     else returnM (Some (take n (drop c (drange st))), st))"

definition orBadDecode :: "u8 list option \<times> decoder \<Rightarrow> (u8 list \<Rightarrow> 'a) \<Rightarrow> ('a \<times> decoder) eng" where
  "orBadDecode res f = (case res of (None, st) \<Rightarrow> throwM BadDecode | (Some bytes, st) \<Rightarrow> returnM (f bytes, st))"

definition peekData :: "nat \<Rightarrow> decoder \<Rightarrow> (u8 list \<times> decoder) eng" where
  "peekData n st = bindM (readBytes n st) (\<lambda>res. orBadDecode res (\<lambda>bytes. bytes))"

section \<open>Integers, enumerations and doubles\<close>

definition encodeUint8 :: "u8 \<Rightarrow> encoder \<Rightarrow> encoder eng" where
  "encodeUint8 n st = writeBytes [n] st"

definition decodeUint8 :: "decoder \<Rightarrow> (u8 \<times> decoder) eng" where
  "decodeUint8 st = bindM (readBytes 1 st) (\<lambda>res. orBadDecode res (\<lambda>bytes. bytes ! 0))"

definition encodeUint16 :: "u16 \<Rightarrow> encoder \<Rightarrow> encoder eng" where
  "encodeUint16 n st = writeBytes (leBytes 2 (unat n)) st"

definition decodeUint16 :: "decoder \<Rightarrow> (u16 \<times> decoder) eng" where
  "decodeUint16 st = bindM (readBytes 2 st) (\<lambda>res. orBadDecode res (\<lambda>bytes. of_nat (leValue bytes)))"

definition encodeUint32 :: "u32 \<Rightarrow> encoder \<Rightarrow> encoder eng" where
  "encodeUint32 n st = writeBytes (leBytes 4 (unat n)) st"

definition decodeUint32 :: "decoder \<Rightarrow> (u32 \<times> decoder) eng" where
  "decodeUint32 st = bindM (readBytes 4 st) (\<lambda>res. orBadDecode res (\<lambda>bytes. of_nat (leValue bytes)))"

definition encodeUint64 :: "u64 \<Rightarrow> encoder \<Rightarrow> encoder eng" where
  "encodeUint64 n st = writeBytes (leBytes 8 (unat n)) st"

definition decodeUint64 :: "decoder \<Rightarrow> (u64 \<times> decoder) eng" where
  "decodeUint64 st = bindM (readBytes 8 st) (\<lambda>res. orBadDecode res (\<lambda>bytes. of_nat (leValue bytes)))"

definition MAGIC :: u32 where
  "MAGIC = 0x21AB218C"

definition encodeEnum32 :: "u32 \<Rightarrow> encoder \<Rightarrow> encoder eng" where
  "encodeEnum32 val st = encodeUint32 (val XOR MAGIC) st"

definition decodeEnum32 :: "decoder \<Rightarrow> (u32 \<times> decoder) eng" where
  "decodeEnum32 st = bindM (decodeUint32 st) (\<lambda>(tmp, st). returnM (tmp XOR MAGIC, st))"

text \<open>The bits of a double are coded as they are, NaNs included.\<close>

definition encodeDouble :: "u64 \<Rightarrow> encoder \<Rightarrow> encoder eng" where
  "encodeDouble d st = encodeUint64 d st"

definition decodeDouble :: "decoder \<Rightarrow> (u64 \<times> decoder) eng" where
  "decodeDouble st = decodeUint64 st"

definition encodeMarker :: "u32 \<Rightarrow> encoder \<Rightarrow> encoder eng" where
  "encodeMarker magic st = encodeUint32 magic st"

definition decodeMarker :: "u32 \<Rightarrow> decoder \<Rightarrow> decoder eng" where
  "decodeMarker magic st =
     bindM (decodeUint32 st) (\<lambda>(actual, st).
     if actual \<noteq> magic then mozAssert False (throwM BadDecode) else returnM st)"

section \<open>Arrays\<close>

definition encodeBytes :: "u8 list \<Rightarrow> encoder \<Rightarrow> encoder eng" where
  "encodeBytes bytes st = (if length bytes = 0 then returnM st else writeBytes bytes st)"

definition decodeBytes :: "nat \<Rightarrow> decoder \<Rightarrow> (u8 list \<times> decoder) eng" where
  "decodeBytes len st =
     (if len = 0 then returnM ([], st) else bindM (readBytes len st) (\<lambda>res. orBadDecode res (\<lambda>bytes. bytes)))"

text \<open>\<open>codeChars\<close> for \<open>char\<close>, \<open>Latin1Char\<close> and \<open>Utf8Unit\<close>: one byte per character.\<close>

definition encodeChars8 :: "u8 list \<Rightarrow> encoder \<Rightarrow> encoder eng" where
  "encodeChars8 chars st = encodeBytes chars st"

definition decodeChars8 :: "nat \<Rightarrow> decoder \<Rightarrow> (u8 list \<times> decoder) eng" where
  "decodeChars8 nchars st = decodeBytes nchars st"

text \<open>\<open>codeChars(char16_t*, nchars)\<close>: the code units in little endian.\<close>

definition unitsToBytes :: "u16 list \<Rightarrow> u8 list" where
  "unitsToBytes chars = concat (map (\<lambda>c. leBytes 2 (unat c)) chars)"

fun bytesToUnits :: "u8 list \<Rightarrow> u16 list" where
  "bytesToUnits (a # b # bs) = of_nat (leValue [a, b]) # bytesToUnits bs"
| "bytesToUnits bs = []"

definition encodeChars16 :: "u16 list \<Rightarrow> encoder \<Rightarrow> encoder eng" where
  "encodeChars16 chars st = (if length chars = 0 then returnM st else writeBytes (unitsToBytes chars) st)"

definition decodeChars16 :: "nat \<Rightarrow> decoder \<Rightarrow> (u16 list \<times> decoder) eng" where
  "decodeChars16 nchars st =
     (if nchars = 0 then returnM ([], st)
      else bindM (readBytes (nchars * 2) st) (\<lambda>res. orBadDecode res bytesToUnits))"

section \<open>Null-terminated strings\<close>

text \<open>
  \<open>XDRCodeCharsZ\<close>, for either character type.  The encoder is given the memory behind a pointer and takes the
  characters before the first null (\<open>char_traits::length\<close>, which runs out of the memory if there is none).  The
  decoder returns the array it allocated, of \<open>length + 1\<close> characters computed on 32 bits: with the length
  \<open>0xFFFFFFFF\<close> it is empty, and the characters are written behind its end.
\<close>

definition encodeCharsZ :: "('c :: zero list \<Rightarrow> encoder \<Rightarrow> encoder eng) \<Rightarrow> 'c list \<Rightarrow> encoder \<Rightarrow> encoder eng" where
  "encodeCharsZ encodeChars buffer st =
     (let chars = takeWhile (\<lambda>c. c \<noteq> 0) buffer in
      if length chars = length buffer then throwM UndefinedBehavior
      else if length chars > MAX_LENGTH then throwM AllocationOverflow
      else bindM (encodeUint32 (of_nat (length chars)) st) (\<lambda>st. encodeChars chars st))"

definition decodeCharsZ :: "(nat \<Rightarrow> decoder \<Rightarrow> ('c :: zero list \<times> decoder) eng) \<Rightarrow> decoder \<Rightarrow> ('c list \<times> decoder) eng" where
  "decodeCharsZ decodeChars st =
     bindM (decodeUint32 st) (\<lambda>(len, st).
     let capacity = unat (len + 1) in
     bindM allocM (\<lambda>mem.
     bindM (decodeChars (unat len) st) (\<lambda>(chars, st).
     if unat len < capacity then returnM (chars @ [0], st) else throwM UndefinedBehavior)))"

section \<open>The build identifier\<close>

text \<open>
  \<open>VersionCheck\<close>: the build identifier comes from a callback of the embedding, so it is a parameter
  (\<open>None\<close> when the callback fails).
\<close>

definition encodeVersionCheck :: "u8 list option \<Rightarrow> encoder \<Rightarrow> encoder eng" where
  "encodeVersionCheck getBuildId st =
     (case getBuildId of None \<Rightarrow> throwM OutOfMemory | Some buildId \<Rightarrow>
      mozAssert (buildId \<noteq> []) (
      bindM (encodeUint32 (of_nat (length buildId)) st) (\<lambda>st.
      bindM (encodeUint8 8 st) (\<lambda>st.
      encodeBytes (take (unat (of_nat (length buildId) :: u32)) buildId) st))))"

definition decodeVersionCheck :: "u8 list option \<Rightarrow> decoder \<Rightarrow> decoder eng" where
  "decodeVersionCheck getBuildId st =
     (case getBuildId of None \<Rightarrow> throwM OutOfMemory | Some buildId \<Rightarrow>
      mozAssert (buildId \<noteq> []) (
      bindM (decodeUint32 st) (\<lambda>(buildIdLength, st).
      bindM (decodeUint8 st) (\<lambda>(profileSize, st).
      if unat buildIdLength \<noteq> length buildId then throwM BadBuildId
      else if profileSize \<noteq> 8 then throwM BadDecode
      else bindM allocM (\<lambda>mem.
        bindM (decodeBytes (unat buildIdLength) st) (\<lambda>(decodedBuildId, st).
        if decodedBuildId \<noteq> take (unat buildIdLength) buildId then throwM BadBuildId
        else returnM st))))))"

section \<open>BigInts\<close>

text \<open>The memory of the digits, on a little-endian platform.\<close>

definition digitsToBytes :: "digit list \<Rightarrow> u8 list" where
  "digitsToBytes ds = concat (map (\<lambda>d. leBytes 8 (unat d)) ds)"

definition bytesToDigits :: "nat \<Rightarrow> u8 list \<Rightarrow> digit list" where
  "bytesToDigits n bytes = map (\<lambda>i. of_nat (leValue (take 8 (drop (8 * i) bytes)))) [0..<n]"

definition encodeBigInt :: "bigint \<Rightarrow> encoder \<Rightarrow> encoder eng" where
  "encodeBigInt bi st =
     (let sign = (if isNegative bi then 1 else 0); sz = digitLength bi * 8 in
      mozAssert (sz \<le> 2 ^ 32 - 1) (
      let len = of_nat sz :: u32 in
      bindM (encodeUint8 sign st) (\<lambda>st.
      bindM (encodeUint32 len st) (\<lambda>st.
      mozAssert (unat len mod 8 = 0) (
      let count = unat len div 8 in
      bindM allocM (\<lambda>mem.
      let buf = take count (digits bi) in
      encodeBytes (digitsToBytes buf) st))))))"

definition decodeBigInt :: "decoder \<Rightarrow> (bigint \<times> decoder) eng" where
  "decodeBigInt st =
     bindM (decodeUint8 st) (\<lambda>(sign, st).
     bindM (decodeUint32 st) (\<lambda>(len, st).
     mozAssert (unat len mod 8 = 0) (
     let count = unat len div 8 in
     bindM allocM (\<lambda>mem.
     bindM (decodeBytes (unat len) st) (\<lambda>(buf, st).
     bindM (createUninitialized count (sign \<noteq> 0)) (\<lambda>res.
     returnM (res\<lparr>digits := bytesToDigits count buf\<rparr>, st)))))))"

section \<open>Little-endian bytes\<close>

lemma length_leBytes [simp]: "length (leBytes k n) = k"
  by (induction k arbitrary: n) auto

lemma leBytes_eq_Nil [simp]: "leBytes k n = [] \<longleftrightarrow> k = 0"
  by (cases k) auto

lemma leValue_leBytes: "n < 256 ^ k \<Longrightarrow> leValue (leBytes k n) = n"
proof (induction k arbitrary: n)
  case 0
  then show ?case by simp
next
  case (Suc k)
  have "n div 256 < 256 ^ k" using Suc.prems by (intro less_mult_imp_div_less) (simp add: mult.commute)
  then have "leValue (leBytes k (n div 256)) = n div 256" by (rule Suc.IH)
  moreover have "unat (of_nat (n mod 256) :: u8) = n mod 256" by (simp add: unat_of_nat)
  ultimately show ?case by simp
qed

lemma leValue_word:
  fixes w :: "'w :: len word"
  assumes "LENGTH('w) = 8 * k"
  shows "of_nat (leValue (leBytes k (unat w))) = w"
proof -
  have "unat w < 2 ^ LENGTH('w)" by (rule unsigned_less)
  also have "(2 :: nat) ^ LENGTH('w) = 256 ^ k" unfolding assms power_mult by simp
  finally show ?thesis by (simp add: leValue_leBytes)
qed

section \<open>The contract of a coder\<close>

definition appended :: "encoder \<Rightarrow> u8 list \<Rightarrow> encoder" where
  "appended st bytes = st\<lparr>ebuffer := ebuffer st @ bytes, ecursor := ecursor st + length bytes\<rparr>"

text \<open>The decoder stands before the bytes \<open>bs\<close>.\<close>

definition ahead :: "u8 list \<Rightarrow> decoder \<Rightarrow> bool" where
  "ahead bs st \<longleftrightarrow> dcursor st \<le> length (drange st) \<and> (\<exists>rest. drop (dcursor st) (drange st) = bs @ rest)"

definition advance :: "nat \<Rightarrow> decoder \<Rightarrow> decoder" where
  "advance n st = st\<lparr>dcursor := dcursor st + n\<rparr>"

lemma appended_Nil [simp]: "appended st [] = st"
  by (simp add: appended_def)

lemma appended_appended [simp]: "appended (appended st xs) ys = appended st (xs @ ys)"
  by (simp add: appended_def)

lemma at_end_appended: "ecursor st = length (ebuffer st) \<Longrightarrow> ecursor (appended st xs) = length (ebuffer (appended st xs))"
  by (simp add: appended_def)

lemma advance_0 [simp]: "advance 0 st = st"
  by (simp add: advance_def)

lemma advance_advance [simp]: "advance n (advance m st) = advance (m + n) st"
  by (simp add: advance_def)

lemma ahead_append: "ahead (xs @ ys) st \<Longrightarrow> ahead xs st \<and> ahead ys (advance (length xs) st)"
proof -
  assume a: "ahead (xs @ ys) st"
  then obtain rest where rest: "drop (dcursor st) (drange st) = xs @ ys @ rest" by (auto simp: ahead_def)
  then have "length (xs @ ys @ rest) = length (drange st) - dcursor st" by (metis length_drop)
  moreover have "drop (dcursor st + length xs) (drange st) = ys @ rest"
    using rest by (metis append_eq_conv_conj add.commute drop_drop)
  ultimately show ?thesis using a rest by (auto simp: ahead_def advance_def)
qed

lemma runs_writeBytes:
  assumes "bs \<noteq> []" and "ecursor st = length (ebuffer st)"
    and "\<And>e. oom v e \<Longrightarrow> E e" and "Q (appended st bs)"
  shows "runs (writeBytes bs st) v E Q"
  using assms by (auto simp: writeBytes_def appended_def intro!: runs_intros)

lemma runs_readBytes:
  assumes "bs \<noteq> []" and "ahead bs st" and "n = length bs" and "Q (Some bs, advance n st)"
  shows "runs (readBytes n st) v E Q"
proof -
  obtain rest where rest: "drop (dcursor st) (drange st) = bs @ rest" using assms(2) by (auto simp: ahead_def)
  then have "length (bs @ rest) = length (drange st) - dcursor st" by (metis length_drop)
  moreover have "0 < length bs" using assms(1) by simp
  ultimately have "dcursor st < length (drange st) \<and> dcursor st + length bs \<le> length (drange st)"
    unfolding length_append by linarith
  then show ?thesis using assms(3,4) rest by (simp add: readBytes_def advance_def Let_def)
qed

locale codec =
  fixes enc :: "'a \<Rightarrow> encoder \<Rightarrow> encoder eng" and dec :: "'k \<Rightarrow> decoder \<Rightarrow> ('a \<times> decoder) eng"
    and key :: "'a \<Rightarrow> 'k" and coded :: "'a \<Rightarrow> u8 list" and ok :: "'a \<Rightarrow> bool"
  assumes enc: "ok x \<Longrightarrow> ecursor st = length (ebuffer st) \<Longrightarrow> (\<And>e. oom v e \<Longrightarrow> E e) \<Longrightarrow>
      Q (appended st (coded x)) \<Longrightarrow> runs (enc x st) v E Q"
    and dec: "ok x \<Longrightarrow> ahead (coded x) d \<Longrightarrow> (\<And>e. oom v e \<Longrightarrow> E e) \<Longrightarrow>
      R (x, advance (length (coded x)) d) \<Longrightarrow> runs (dec (key x) d) v E R"
begin

text \<open>Decoding what was encoded, whatever surrounds it.\<close>

lemma round_trip:
  assumes "ok x" and "ecursor st = length (ebuffer st)"
  shows "runs (bindM (enc x st) (\<lambda>st'. dec (key x) \<lparr>drange = ebuffer st' @ rest, dcursor = ecursor st\<rparr>)) v (oom v)
    (\<lambda>(y, d). y = x \<and> d = \<lparr>drange = ebuffer st @ coded x @ rest, dcursor = length (ebuffer st @ coded x)\<rparr>)"
proof (rule runs_bindI, rule enc [OF assms])
  let ?d = "\<lparr>drange = ebuffer (appended st (coded x)) @ rest, dcursor = ecursor st\<rparr>"
  have "ahead (coded x) ?d" using assms(2) by (simp add: ahead_def appended_def)
  then show "runs (dec (key x) ?d) v (oom v) (\<lambda>(y, d). y = x \<and>
      d = \<lparr>drange = ebuffer st @ coded x @ rest, dcursor = length (ebuffer st @ coded x)\<rparr>)"
    using assms by (intro dec [of x]) (auto simp: advance_def appended_def)
qed simp

end

section \<open>The coders\<close>

lemmas coder_defs = orBadDecode_def

lemma runs_decodeWord:
  fixes w :: "'w :: len word"
  assumes "LENGTH('w) = 8 * k" and "ahead (leBytes k (unat w)) d" and "R (w, advance k d)"
  shows "runs (bindM (readBytes k d) (\<lambda>res. orBadDecode res (\<lambda>bytes. of_nat (leValue bytes)))) v E R"
proof -
  have "leBytes k (unat w) \<noteq> []" using assms(1) len_gt_0 [where 'a = 'w] by auto
  then show ?thesis
    using assms leValue_word [OF assms(1), of w] by (intro runs_bindI runs_readBytes [where bs = "leBytes k (unat w)"]) (simp_all add: orBadDecode_def)
qed

interpretation uint8: codec encodeUint8 "\<lambda>_ :: unit. decodeUint8" "\<lambda>_. ()" "\<lambda>n. [n]" "\<lambda>_. True"
  by unfold_locales
    (auto simp: encodeUint8_def decodeUint8_def orBadDecode_def intro!: runs_writeBytes runs_bindI runs_readBytes)

interpretation uint16: codec encodeUint16 "\<lambda>_ :: unit. decodeUint16" "\<lambda>_. ()" "\<lambda>n. leBytes 2 (unat n)" "\<lambda>_. True"
  by unfold_locales (auto simp: encodeUint16_def decodeUint16_def intro!: runs_writeBytes runs_decodeWord)

interpretation uint32: codec encodeUint32 "\<lambda>_ :: unit. decodeUint32" "\<lambda>_. ()" "\<lambda>n. leBytes 4 (unat n)" "\<lambda>_. True"
  by unfold_locales (auto simp: encodeUint32_def decodeUint32_def intro!: runs_writeBytes runs_decodeWord)

interpretation uint64: codec encodeUint64 "\<lambda>_ :: unit. decodeUint64" "\<lambda>_. ()" "\<lambda>n. leBytes 8 (unat n)" "\<lambda>_. True"
  by unfold_locales (auto simp: encodeUint64_def decodeUint64_def intro!: runs_writeBytes runs_decodeWord)

interpretation enum32: codec encodeEnum32 "\<lambda>_ :: unit. decodeEnum32" "\<lambda>_. ()" "\<lambda>n. leBytes 4 (unat (n XOR MAGIC))" "\<lambda>_. True"
  by unfold_locales
    (auto simp: encodeEnum32_def decodeEnum32_def xor.assoc intro!: uint32.enc runs_bindI uint32.dec [where x = "_ XOR MAGIC"])

interpretation double: codec encodeDouble "\<lambda>_ :: unit. decodeDouble" "\<lambda>_. ()" "\<lambda>n. leBytes 8 (unat n)" "\<lambda>_. True"
  by unfold_locales (auto simp: encodeDouble_def decodeDouble_def intro!: uint64.enc uint64.dec)

interpretation bytes: codec encodeBytes decodeBytes length "\<lambda>bs. bs" "\<lambda>_. True"
  by unfold_locales
    (auto simp: encodeBytes_def decodeBytes_def orBadDecode_def intro!: runs_writeBytes runs_bindI runs_readBytes)

interpretation chars8: codec encodeChars8 decodeChars8 length "\<lambda>bs. bs" "\<lambda>_. True"
  by unfold_locales (auto simp: encodeChars8_def decodeChars8_def intro!: bytes.enc bytes.dec)


lemma unitsToBytes_Cons: "unitsToBytes (c # cs) = leBytes 2 (unat c) @ unitsToBytes cs"
  by (simp add: unitsToBytes_def)

lemma length_unitsToBytes [simp]: "length (unitsToBytes cs) = 2 * length cs"
  by (induction cs) (simp_all add: unitsToBytes_def)

lemma unitsToBytes_eq_Nil [simp]: "unitsToBytes cs = [] \<longleftrightarrow> cs = []"
  using length_unitsToBytes [of cs] by (metis length_0_conv mult_eq_0_iff zero_neq_numeral)

lemma bytesToUnits_unitsToBytes: "bytesToUnits (unitsToBytes cs) = cs"
proof (induction cs)
  case Nil
  then show ?case by (simp add: unitsToBytes_def)
next
  case (Cons c cs)
  have two: "leBytes 2 n = [of_nat (n mod 256), of_nat (n div 256 mod 256)]" for n by (simp add: numeral_2_eq_2)
  have "of_nat (leValue (leBytes 2 (unat c))) = c" by (rule leValue_word) simp
  then show ?case using Cons unfolding unitsToBytes_Cons two by (simp only: append_Cons append_Nil bytesToUnits.simps)
qed

interpretation chars16: codec encodeChars16 decodeChars16 length unitsToBytes "\<lambda>_. True"
proof (unfold_locales, goal_cases)
  case 1
  then show ?case by (auto simp: encodeChars16_def unitsToBytes_def [of "[]"] intro!: runs_writeBytes)
next
  case (2 x d v E R)
  then show ?case
    using runs_readBytes [where bs = "unitsToBytes x"]
    by (auto simp: decodeChars16_def orBadDecode_def bytesToUnits_unitsToBytes mult.commute intro!: runs_bindI)
qed

text \<open>A null-terminated string is its length and its characters, for either kind of characters.\<close>

definition codedZ :: "('c list \<Rightarrow> u8 list) \<Rightarrow> 'c list \<Rightarrow> u8 list" where
  "codedZ coded x = leBytes 4 (length (butlast x)) @ coded (butlast x)"

definition okZ :: "'c :: zero list \<Rightarrow> bool" where
  "okZ x \<longleftrightarrow> (\<exists>s. x = s @ [0] \<and> 0 \<notin> set s \<and> length s \<le> MAX_LENGTH)"

lemma takeWhile_nonzero: "0 \<notin> set s \<Longrightarrow> takeWhile (\<lambda>c. c \<noteq> 0) (s @ 0 # after) = s"
  by (induction s) auto

lemma encodeCharsZ_cut: "0 \<notin> set s \<Longrightarrow> encodeCharsZ enc (s @ 0 # after) = encodeCharsZ enc (s @ [0])"
  by (simp add: encodeCharsZ_def takeWhile_nonzero fun_eq_iff)

lemma unat_length:
  assumes "n \<le> MAX_LENGTH"
  shows "unat (of_nat n :: u32) = n" and "unat (of_nat n + 1 :: u32) = n + 1"
proof -
  have "n < 2 ^ 32 - 1" using assms by (simp add: MAX_LENGTH_def)
  then have "unat (of_nat (n + 1) :: u32) = n + 1" "unat (of_nat n :: u32) = n"
    by (simp_all add: unat_of_nat del: of_nat_add of_nat_Suc)
  then show "unat (of_nat n :: u32) = n" "unat (of_nat n + 1 :: u32) = n + 1" by (simp_all add: add.commute)
qed

locale char_codec = codec enc dec length coded "\<lambda>_. True"
  for enc :: "'c :: zero list \<Rightarrow> encoder \<Rightarrow> encoder eng" and dec :: "nat \<Rightarrow> decoder \<Rightarrow> ('c list \<times> decoder) eng"
    and coded :: "'c list \<Rightarrow> u8 list"

sublocale char_codec \<subseteq> stringZ: codec "encodeCharsZ enc" "\<lambda>_ :: unit. decodeCharsZ dec" "\<lambda>_. ()" "codedZ coded" okZ
proof (unfold_locales, goal_cases)
  case (1 x st v E Q)
  then obtain s where s: "x = s @ [0]" "0 \<notin> set s" "length s \<le> MAX_LENGTH" by (auto simp: okZ_def)
  show ?case
    using 1 s(3) unat_length(1) [OF s(3)] unfolding encodeCharsZ_def s(1) takeWhile_nonzero [OF s(2)]
    by (auto simp: codedZ_def at_end_appended intro!: runs_bindI uint32.enc enc)
next
  case (2 x d v E R)
  then obtain s where s: "x = s @ [0]" "0 \<notin> set s" "length s \<le> MAX_LENGTH" by (auto simp: okZ_def)
  note u = unat_length [OF s(3)]
  have a: "ahead (leBytes 4 (unat (of_nat (length s) :: u32))) d" "ahead (coded s) (advance 4 d)"
    using ahead_append [OF 2(2) [unfolded codedZ_def s(1)]] u by simp_all
  have "R (s @ [0], advance (4 + length (coded s)) d)" using 2(4) by (simp add: codedZ_def s(1))
  then have "runs (dec (length s) (advance 4 d)) v E (\<lambda>y. runs (case y of (chars, st) \<Rightarrow> returnM (chars @ [0], st)) v E R)"
    using a(2) 2(3) by (intro dec) auto
  then show ?case
    unfolding decodeCharsZ_def using a(1) 2(3) u
    by (intro runs_bindI uint32.dec [where x = "of_nat (length s)"]) (auto simp: Let_def intro!: runs_intros)
qed

interpretation string8: char_codec encodeChars8 decodeChars8 "\<lambda>bs. bs" ..

interpretation string16: char_codec encodeChars16 decodeChars16 unitsToBytes ..

section \<open>BigInts and the build identifier\<close>

lemma length_digitsToBytes [simp]: "length (digitsToBytes ds) = 8 * length ds"
  by (induction ds) (simp_all add: digitsToBytes_def)

lemma bytesToDigits_digitsToBytes: "bytesToDigits (length ds) (digitsToBytes ds) = ds"
proof (rule nth_equalityI)
  fix i
  assume "i < length (bytesToDigits (length ds) (digitsToBytes ds))"
  then have i: "i < length ds" by (simp add: bytesToDigits_def)
  have "drop (8 * i) (digitsToBytes ds) = digitsToBytes (drop i ds)"
  proof -
    have "digitsToBytes ds = digitsToBytes (take i ds) @ digitsToBytes (drop i ds)"
      unfolding digitsToBytes_def by (metis append_take_drop_id concat_append map_append)
    moreover have "length (digitsToBytes (take i ds)) = 8 * i" using i by simp
    ultimately show ?thesis by simp
  qed
  also have "\<dots> = leBytes 8 (unat (ds ! i)) @ digitsToBytes (drop (Suc i) ds)"
    using i by (simp add: digitsToBytes_def flip: Cons_nth_drop_Suc)
  finally have "take 8 (drop (8 * i) (digitsToBytes ds)) = leBytes 8 (unat (ds ! i))" by simp
  moreover have "of_nat (leValue (leBytes 8 (unat (ds ! i)))) = ds ! i" by (rule leValue_word) simp
  ultimately show "bytesToDigits (length ds) (digitsToBytes ds) ! i = ds ! i" using i by (simp add: bytesToDigits_def)
qed (simp add: bytesToDigits_def)

definition codedBigInt :: "bigint \<Rightarrow> u8 list" where
  "codedBigInt x = [if isNegative x then 1 else 0] @ leBytes 4 (8 * digitLength x) @ digitsToBytes (digits x)"

lemma unat_byteLength:
  assumes "wf x"
  shows "unat (of_nat (digitLength x * 8) :: u32) = 8 * digitLength x" and "digitLength x * 8 \<le> 2 ^ 32 - 1"
proof -
  have "8 * digitLength x < 2 ^ 32"
    using assms by (simp add: wf_def MaxDigitLength_def MaxBitLength_def DigitBits_def)
  then show "unat (of_nat (digitLength x * 8) :: u32) = 8 * digitLength x" "digitLength x * 8 \<le> 2 ^ 32 - 1"
    by (simp_all add: unat_of_nat mult.commute del: of_nat_mult)
qed

interpretation bigints: codec encodeBigInt "\<lambda>_ :: unit. decodeBigInt" "\<lambda>_. ()" codedBigInt wf
proof (unfold_locales, goal_cases)
  case (1 x st v E Q)
  note u = unat_byteLength [OF 1(1)]
  have enc: "runs (encodeBytes (digitsToBytes (digits x)) (appended st ([if isNegative x then 1 else 0] @ leBytes 4 (8 * digitLength x)))) v E Q"
    using 1 by (intro bytes.enc) (auto simp: at_end_appended codedBigInt_def)
  show ?case
    unfolding encodeBigInt_def Let_def u(1)
    using 1(2,3) u(2) enc
    by (auto simp: u(1) at_end_appended simp del: of_nat_mult intro!: runs_intros uint8.enc uint32.enc split del: if_split)
next
  case (2 x d v E R)
  note u = unat_byteLength [OF 2(1)]
  let ?s = "if isNegative x then 1 else 0 :: u8" and ?l = "of_nat (digitLength x * 8) :: u32"
  have a1: "ahead [?s] d" and r1: "ahead (leBytes 4 (8 * digitLength x) @ digitsToBytes (digits x)) (advance 1 d)"
    using ahead_append [OF 2(2) [unfolded codedBigInt_def]] by simp_all
  have a2: "ahead (leBytes 4 (unat ?l)) (advance 1 d)" and a3: "ahead (digitsToBytes (digits x)) (advance 5 d)"
    using ahead_append [OF r1] unfolding u(1) by simp_all
  have len: "digitLength x \<le> MaxDigitLength" using 2(1) by (simp add: wf_def)
  have R: "R (\<lparr>digits = digits x, isNegative = isNegative x\<rparr>, advance (5 + 8 * digitLength x) d)"
    using 2(4) by (cases x) (simp add: codedBigInt_def add.assoc)
  have rest: "runs (bindM (decodeBytes (8 * digitLength x) (advance 5 d)) (\<lambda>(buf, st).
      bindM (createUninitialized (digitLength x) (?s \<noteq> 0)) (\<lambda>res.
      returnM (res\<lparr>digits := bytesToDigits (digitLength x) buf\<rparr>, st)))) v E R"
  proof (rule runs_bindI, rule bytes.dec [where x = "digitsToBytes (digits x)", unfolded length_digitsToBytes])
    show "runs (case (digitsToBytes (digits x), advance (8 * digitLength x) (advance 5 d)) of (buf, st) \<Rightarrow>
        bindM (createUninitialized (digitLength x) (?s \<noteq> 0))
          (\<lambda>res. returnM (res\<lparr>digits := bytesToDigits (digitLength x) buf\<rparr>, st))) v E R"
      using 2(3) len R by (auto simp: bytesToDigits_digitsToBytes intro!: runs_bindI runs_createUninitialized)
  qed (use a3 2(3) in auto)
  show ?case
    unfolding decodeBigInt_def
  proof (rule runs_bindI, rule uint8.dec [where x = ?s], goal_cases)
    case 4
    show ?case
      unfolding prod.case
    proof (rule runs_bindI, rule uint32.dec [where x = ?l], goal_cases)
      case 4
      show ?case
        using rest 2(3) by (auto simp: u(1) Let_def simp del: of_nat_mult intro!: runs_intros split del: if_split)
    qed (use a2 2(3) in auto)
  qed (use a1 2(3) in auto)
qed


text \<open>Reading within the range, whatever the bytes are.\<close>

definition within :: "decoder \<Rightarrow> decoder \<Rightarrow> bool" where
  "within d d' \<longleftrightarrow> drange d' = drange d \<and> dcursor d \<le> dcursor d' \<and> dcursor d' \<le> length (drange d)"

definition decodeError :: "env \<Rightarrow> err \<Rightarrow> bool" where
  "decodeError v e \<longleftrightarrow> oom v e \<or> e = BadDecode \<or> e = AssertFail"

lemma within_trans: "within a b \<Longrightarrow> within b c \<Longrightarrow> within a c"
  by (auto simp: within_def)

lemma runs_read_within:
  assumes "\<And>e. decodeError v e \<Longrightarrow> E e"
    and "\<And>bs d'. length bs = n \<Longrightarrow> within d d' \<Longrightarrow> Q (f bs, d')"
  shows "runs (bindM (readBytes n d) (\<lambda>res. orBadDecode res f)) v E Q"
  using assms by (auto simp: readBytes_def orBadDecode_def within_def decodeError_def mozAssert_def Let_def)

lemma runs_decodeBytes_within:
  assumes "\<And>e. decodeError v e \<Longrightarrow> E e" and "dcursor d \<le> length (drange d)"
    and "\<And>bs d'. length bs = n \<Longrightarrow> within d d' \<Longrightarrow> Q (bs, d')"
  shows "runs (decodeBytes n d) v E Q"
proof (cases "n = 0")
  case True
  then show ?thesis using assms(2,3) by (simp add: decodeBytes_def within_def)
next
  case False
  then show ?thesis using assms(1,3) unfolding decodeBytes_def by (auto intro!: runs_read_within)
qed

lemma runs_decodeBigInt_within:
  assumes E: "\<And>e. decodeError v e \<or> e = BigIntTooLarge \<Longrightarrow> E e"
    and Q: "\<And>x d'. digitLength x \<le> MaxDigitLength \<Longrightarrow> within d d' \<Longrightarrow> Q (x, d')"
  shows "runs (decodeBigInt d) v E Q"
proof -
  have oomE: "\<And>e. oom v e \<Longrightarrow> E e" and decE: "\<And>e. decodeError v e \<Longrightarrow> E e" using E by (auto simp: decodeError_def)
  have fin: "runs (if b then m else throwM AssertFail) v E Q"
    if "b \<Longrightarrow> runs m v E Q" for b and m :: "(bigint \<times> decoder) eng"
    using that E by (simp add: decodeError_def)
  show ?thesis
    unfolding decodeBigInt_def decodeUint8_def decodeUint32_def
  proof (rule runs_bindI, rule runs_read_within, rule decE, assumption, unfold prod.case,
      rule runs_bindI, rule runs_read_within, rule decE, assumption, unfold prod.case mozAssert_def, rule fin,
      unfold Let_def, rule runs_bindI, rule runs_allocM, rule oomE, assumption, goal_cases)
    case (1 bs1 d1 bs2 d2 mem)
    then show ?case
      using oomE decE E Q
      by (auto intro!: runs_bindI runs_decodeBytes_within runs_createUninitialized within_trans [of d d1]
          within_trans [of d1 d2] simp: within_def bytesToDigits_def)
  qed
qed

section \<open>Properties\<close>

text \<open>
  C28. Round trip of a serialised BigInt: at the end of any buffer, \<open>XDRBigInt\<close> writes bytes from which
  the decoder, whatever follows them, reads the same BigInt and stops right behind them; only
  memory can run out.
\<close>

theorem xdr_bigint_roundtrip:
  assumes "wf x" and "ecursor st = length (ebuffer st)"
  shows "runs (bindM (encodeBigInt x st) (\<lambda>st'. decodeBigInt \<lparr>drange = ebuffer st' @ rest, dcursor = ecursor st\<rparr>)) v (oom v)
    (\<lambda>(y, d). y = x \<and> d = \<lparr>drange = ebuffer st @ codedBigInt x @ rest, dcursor = length (ebuffer st @ codedBigInt x)\<rparr>)"
  using assms by (rule bigints.round_trip)

theorem xdr_bigint_roundtrip_witness:
  "runs (bindM (encodeBigInt \<lparr>digits = [7, 1], isNegative = True\<rparr> \<lparr>ebuffer = [9], ecursor = 1\<rparr>)
      (\<lambda>st'. decodeBigInt \<lparr>drange = ebuffer st' @ [3], dcursor = 1\<rparr>)) plenty (\<lambda>e. False)
    (\<lambda>(y, d). y = \<lparr>digits = [7, 1], isNegative = True\<rparr> \<and> dcursor d = 22)"
proof -
  let ?x = "\<lparr>digits = [7, 1], isNegative = True\<rparr>" and ?st = "\<lparr>ebuffer = [9], ecursor = 1\<rparr>"
  have "wf ?x" "ecursor ?st = length (ebuffer ?st)" by (simp_all add: wf_eval)
  note t = xdr_bigint_roundtrip [OF this, of "[3]" plenty]
  show ?thesis using t unfolding encoder.simps by (rule runs_weaken) (auto simp: codedBigInt_def)
qed

text \<open>
  C29. Round trip of the other coders: integers of 8, 16, 32 and 64 bits, enumerations, doubles (every
  bit pattern), byte arrays, characters of either kind, and null-terminated strings of either kind, whatever
  is behind their null, up to the maximum length come back as they were, with the decoder right behind them.
\<close>

theorem xdr_roundtrip:
  assumes "ecursor st = length (ebuffer st)"
    and "length s8 \<le> MAX_LENGTH" and "0 \<notin> set s8" and "length s16 \<le> MAX_LENGTH" and "0 \<notin> set s16"
  shows "runs (bindM (encodeUint8 a st) (\<lambda>st'. decodeUint8 \<lparr>drange = ebuffer st' @ rest, dcursor = ecursor st\<rparr>)) v (oom v)
      (\<lambda>(y, d). y = a \<and> drop (dcursor d) (drange d) = rest) \<and>
    runs (bindM (encodeUint16 b st) (\<lambda>st'. decodeUint16 \<lparr>drange = ebuffer st' @ rest, dcursor = ecursor st\<rparr>)) v (oom v)
      (\<lambda>(y, d). y = b \<and> drop (dcursor d) (drange d) = rest) \<and>
    runs (bindM (encodeUint32 c st) (\<lambda>st'. decodeUint32 \<lparr>drange = ebuffer st' @ rest, dcursor = ecursor st\<rparr>)) v (oom v)
      (\<lambda>(y, d). y = c \<and> drop (dcursor d) (drange d) = rest) \<and>
    runs (bindM (encodeUint64 f st) (\<lambda>st'. decodeUint64 \<lparr>drange = ebuffer st' @ rest, dcursor = ecursor st\<rparr>)) v (oom v)
      (\<lambda>(y, d). y = f \<and> drop (dcursor d) (drange d) = rest) \<and>
    runs (bindM (encodeEnum32 c st) (\<lambda>st'. decodeEnum32 \<lparr>drange = ebuffer st' @ rest, dcursor = ecursor st\<rparr>)) v (oom v)
      (\<lambda>(y, d). y = c \<and> drop (dcursor d) (drange d) = rest) \<and>
    runs (bindM (encodeDouble f st) (\<lambda>st'. decodeDouble \<lparr>drange = ebuffer st' @ rest, dcursor = ecursor st\<rparr>)) v (oom v)
      (\<lambda>(y, d). y = f \<and> drop (dcursor d) (drange d) = rest) \<and>
    runs (bindM (encodeBytes g st) (\<lambda>st'. decodeBytes (length g) \<lparr>drange = ebuffer st' @ rest, dcursor = ecursor st\<rparr>)) v (oom v)
      (\<lambda>(y, d). y = g \<and> drop (dcursor d) (drange d) = rest) \<and>
    runs (bindM (encodeChars8 g st) (\<lambda>st'. decodeChars8 (length g) \<lparr>drange = ebuffer st' @ rest, dcursor = ecursor st\<rparr>)) v (oom v)
      (\<lambda>(y, d). y = g \<and> drop (dcursor d) (drange d) = rest) \<and>
    runs (bindM (encodeChars16 h st) (\<lambda>st'. decodeChars16 (length h) \<lparr>drange = ebuffer st' @ rest, dcursor = ecursor st\<rparr>)) v (oom v)
      (\<lambda>(y, d). y = h \<and> drop (dcursor d) (drange d) = rest) \<and>
    runs (bindM (encodeCharsZ encodeChars8 (s8 @ 0 # more8) st) (\<lambda>st'. decodeCharsZ decodeChars8 \<lparr>drange = ebuffer st' @ rest, dcursor = ecursor st\<rparr>)) v (oom v)
      (\<lambda>(y, d). y = s8 @ [0] \<and> drop (dcursor d) (drange d) = rest) \<and>
    runs (bindM (encodeCharsZ encodeChars16 (s16 @ 0 # more16) st) (\<lambda>st'. decodeCharsZ decodeChars16 \<lparr>drange = ebuffer st' @ rest, dcursor = ecursor st\<rparr>)) v (oom v)
      (\<lambda>(y, d). y = s16 @ [0] \<and> drop (dcursor d) (drange d) = rest)"
proof -
  have z: "okZ (s8 @ [0])" "okZ (s16 @ [0])" using assms(2-5) by (auto simp: okZ_def)
  note cut = encodeCharsZ_cut [OF assms(3), of encodeChars8 more8] encodeCharsZ_cut [OF assms(5), of encodeChars16 more16]
  note rt = uint8.round_trip [OF TrueI assms(1)] uint16.round_trip [OF TrueI assms(1)] uint32.round_trip [OF TrueI assms(1)]
    uint64.round_trip [OF TrueI assms(1)] enum32.round_trip [OF TrueI assms(1)] double.round_trip [OF TrueI assms(1)]
    bytes.round_trip [OF TrueI assms(1)] chars8.round_trip [OF TrueI assms(1)] chars16.round_trip [OF TrueI assms(1)]
    string8.stringZ.round_trip [OF z(1) assms(1), folded cut] string16.stringZ.round_trip [OF z(2) assms(1), folded cut]
  show ?thesis by (intro conjI; rule runs_weakenQ, rule rt, auto)
qed

theorem xdr_roundtrip_witness:
  "runs (bindM (encodeCharsZ encodeChars16 [0x4a, 0x2603, 0, 7] \<lparr>ebuffer = [], ecursor = 0\<rparr>)
      (\<lambda>st'. decodeCharsZ decodeChars16 \<lparr>drange = ebuffer st' @ [1], dcursor = 0\<rparr>)) plenty (\<lambda>e. False)
    (\<lambda>(y, d). y = [0x4a, 0x2603, 0] \<and> drop (dcursor d) (drange d) = [1])"
  using xdr_roundtrip [of "\<lparr>ebuffer = [], ecursor = 0\<rparr>" "[]" "[0x4a, 0x2603]" 0 "[1]" plenty 0 0 0 "[]" "[]" "[]" "[7]"]
  by (simp add: MAX_LENGTH_def oom_plenty_fun)

text \<open>
  The size of the array of a null-terminated string overflows: a string whose encoded length is \<open>0xFFFFFFFF\<close>, with
  as many characters behind it, makes the decoder write past the array it allocated.
\<close>

theorem xdr_charsZ_overflow:
  assumes "ahead (leBytes 4 (2 ^ 32 - 1) @ bs) d" and "length bs = 2 ^ 32 - 1"
  shows "runs (decodeCharsZ decodeChars8 d) v (\<lambda>e. oom v e \<or> e = UndefinedBehavior) (\<lambda>_. False)"
proof -
  have u: "unat (- 1 :: u32) = 2 ^ 32 - 1" by (simp add: unsigned_minus_1_eq_mask mask_eq_exp_minus_1)
  have a: "ahead (leBytes 4 (unat (- 1 :: u32))) d" "ahead bs (advance 4 d)"
    using ahead_append [OF assms(1)] u by simp_all
  have "runs (decodeChars8 (length bs) (advance 4 d)) v (\<lambda>e. oom v e \<or> e = UndefinedBehavior) (\<lambda>_. True)"
    using a(2) by (intro chars8.dec) auto
  then have "runs (bindM (decodeChars8 (unat (- 1 :: u32)) (advance 4 d)) (\<lambda>(chars, st). throwM UndefinedBehavior)) v
      (\<lambda>e. oom v e \<or> e = UndefinedBehavior) (\<lambda>_ :: u8 list \<times> decoder. False)"
    unfolding u assms(2) [symmetric] by (rule runs_bindM) auto
  then show ?thesis
    unfolding decodeCharsZ_def
    by (intro runs_bindI uint32.dec [where x = "- 1", OF TrueI a(1)]) (auto simp: Let_def intro!: runs_intros)
qed

text \<open>
  C30. Decoding a BigInt from arbitrary bytes never reads outside the range: it fails, or returns a
  BigInt of at most \<open>MaxDigitLength\<close> digits with the cursor inside the range.
\<close>

theorem xdr_decode_bigint_safe:
  "runs (decodeBigInt d) v (\<lambda>e. oom v e \<or> e = BadDecode \<or> e = AssertFail \<or> e = BigIntTooLarge)
    (\<lambda>(x, d'). digitLength x \<le> MaxDigitLength \<and> drange d' = drange d \<and> dcursor d \<le> dcursor d' \<and> dcursor d' \<le> length (drange d))"
  by (rule runs_decodeBigInt_within) (auto simp: decodeError_def within_def)

text \<open>
  The decoder does not check the invariant of BigInts: five bytes decode to a negative zero.
\<close>

theorem xdr_bigint_not_canonical:
  "runs (decodeBigInt \<lparr>drange = [1, 0, 0, 0, 0], dcursor = 0\<rparr>) plenty (\<lambda>e. False)
    (\<lambda>(x, d). x = \<lparr>digits = [], isNegative = True\<rparr> \<and> \<not> wf x)"
  by (simp add: decodeBigInt_def decodeUint8_def decodeUint32_def readBytes_def orBadDecode_def decodeBytes_def
      createUninitialized_def bytesToDigits_def wf_def isZero_def runs_def bindM_def allocM_def plenty_def Let_def
      returnM_def InlineDigitsLength_def)


text \<open>
  A script encoded by one build is accepted by a decoder exactly when the build identifiers are
  equal: with another identifier, of the same length or not, the decoder reports \<open>BadBuildId\<close>.
\<close>

theorem xdr_version_check:
  assumes "ecursor st = length (ebuffer st)" and "own \<noteq> []" and "length own < 2 ^ 32" and "other \<noteq> []"
  shows "runs (bindM (encodeVersionCheck (Some own) st)
      (\<lambda>st'. decodeVersionCheck (Some other) \<lparr>drange = ebuffer st' @ rest, dcursor = ecursor st\<rparr>)) v
    (\<lambda>e. oom v e \<or> e = BadBuildId \<and> own \<noteq> other)
    (\<lambda>d. own = other \<and> dcursor d = length (ebuffer st) + 5 + length own)"
    (is "runs _ v ?E ?R")
proof -
  let ?l = "of_nat (length own) :: u32"
  have l: "unat ?l = length own" using assms(3) by (simp add: unat_of_nat)
  let ?c = "leBytes 4 (length own) @ [8] @ own"
  let ?d = "\<lparr>drange = ebuffer (appended st ?c) @ rest, dcursor = ecursor st\<rparr>"
  have ah: "ahead ?c ?d" using assms(1) by (simp add: ahead_def appended_def)
  have a1: "ahead (leBytes 4 (unat ?l)) ?d" and a23: "ahead ([8] @ own) (advance 4 ?d)"
    using ahead_append [OF ah] unfolding l by simp_all
  have a2: "ahead [8] (advance 4 ?d)" and a3: "ahead own (advance 5 ?d)" using ahead_append [OF a23] by simp_all
  have cmp: "runs (bindM (decodeBytes (length own) (advance 5 ?d)) (\<lambda>(decodedBuildId, st).
      if decodedBuildId \<noteq> take (length own) other then throwM BadBuildId else returnM st)) v ?E ?R"
    if "length own = length other"
    using a3 that assms(1) by (intro runs_bindI bytes.dec) (auto simp: advance_def)
  have dec: "runs (decodeVersionCheck (Some other) ?d) v ?E ?R"
    unfolding decodeVersionCheck_def option.case
  proof (intro runs_mozAssert, rule assms(4), rule runs_bindI, rule uint32.dec [where x = ?l], goal_cases)
    case 4
    show ?case
      unfolding prod.case l
    proof (rule runs_bindI, rule uint8.dec [where x = 8], goal_cases)
      case 4
      show ?case using cmp by (auto intro!: runs_if runs_bindI [OF runs_allocM])
    qed (use a2 in auto)
  qed (use a1 in auto)
  have enc: "runs (encodeBytes own (appended st (leBytes 4 (length own) @ [8]))) v ?E
      (\<lambda>st'. runs (decodeVersionCheck (Some other) \<lparr>drange = ebuffer st' @ rest, dcursor = ecursor st\<rparr>) v ?E ?R)"
    using dec assms(1) by (intro bytes.enc) (auto simp: at_end_appended)
  show ?thesis
    unfolding encodeVersionCheck_def option.case l
    using assms(1,2) enc
    by (intro runs_bindI runs_mozAssert)
      (auto simp: l at_end_appended intro!: runs_bindI uint32.enc uint8.enc)
qed

theorem xdr_version_check_witness:
  "runs (bindM (encodeVersionCheck (Some [1, 2]) \<lparr>ebuffer = [], ecursor = 0\<rparr>)
      (\<lambda>st'. decodeVersionCheck (Some [1, 3]) \<lparr>drange = ebuffer st' @ [], dcursor = 0\<rparr>)) plenty
    (\<lambda>e. e = BadBuildId) (\<lambda>d. False)"
  using xdr_version_check [of "\<lparr>ebuffer = [], ecursor = 0\<rparr>" "[1, 2]" "[1, 3]" "[]" plenty] by simp

end
