(* ===== verification/HashFunctions.thy ===== *)
theory HashFunctions
  imports Xdr
begin

text \<open>
  The hash functions of \<open>mfbt/HashFunctions.h\<close> and \<open>mfbt/HashFunctions.cpp\<close> on a 64-bit platform, and the
  hash of a BigInt.  They decide no result of the engine, only the bucket of a key.
\<close>

definition kGoldenRatioU32 :: u32 where
  "kGoldenRatioU32 = 0x9E3779B9"

definition RotateLeft5 :: "u32 \<Rightarrow> u32" where
  "RotateLeft5 aValue = push_bit 5 aValue OR drop_bit 27 aValue"

definition AddU32ToHash :: "u32 \<Rightarrow> u32 \<Rightarrow> u32" where
  "AddU32ToHash aHash aValue = kGoldenRatioU32 * (RotateLeft5 aHash XOR aValue)"

text \<open>\<open>AddToHash\<close> of an eight-byte value; smaller ones are converted to \<open>uint32_t\<close>.\<close>

definition AddUintptrToHash8 :: "u32 \<Rightarrow> u64 \<Rightarrow> u32" where
  "AddUintptrToHash8 aHash aValue = AddU32ToHash (AddU32ToHash aHash (ucast aValue)) (ucast (drop_bit 32 aValue))"

definition HashGeneric :: "u64 \<Rightarrow> u32" where
  "HashGeneric a = AddUintptrToHash8 0 a"

definition HashStringKnownLength :: "u16 list \<Rightarrow> u32" where
  "HashStringKnownLength cs = foldl (\<lambda>h c. AddU32ToHash h (ucast c)) 0 cs"

text \<open>
  \<open>HashBytes\<close>: word by word, and the size of the word is added as well, because the three arguments of
  \<open>AddToHash(hash, data, sizeof(data))\<close> are two values to add; then byte by byte, where a plain \<open>char\<close>
  is signed.
\<close>

function HashBytesFrom :: "u32 \<Rightarrow> u8 list \<Rightarrow> u32" where
  "HashBytesFrom h bs =
     (if length bs \<ge> 8
      then HashBytesFrom (AddUintptrToHash8 (AddUintptrToHash8 h (of_nat (leValue (take 8 bs)))) 8) (drop 8 bs)
      else foldl (\<lambda>h b. AddU32ToHash h (scast b)) h bs)"
  by pat_completeness auto
termination
  by (relation "measure (\<lambda>(h, bs). length bs)") auto

declare HashBytesFrom.simps [simp del]

definition HashBytes :: "u8 list \<Rightarrow> u32" where
  "HashBytes bs = HashBytesFrom 0 bs"

definition bigintHash :: "bigint \<Rightarrow> u32" where
  "bigintHash x = AddU32ToHash (HashBytes (digitsToBytes (digits x))) (if isNegative x then 1 else 0)"

text \<open>\<open>HashCodeScrambler\<close>: SipHash-1-3 under a key; its argument is a 32-bit hash code.\<close>

record scrambler =
  mK0 :: u64
  mK1 :: u64

definition RotateLeft :: "u64 \<Rightarrow> nat \<Rightarrow> u64" where
  "RotateLeft aValue aShift = push_bit aShift aValue OR drop_bit (64 - aShift) aValue"

definition sipRound :: "u64 \<times> u64 \<times> u64 \<times> u64 \<Rightarrow> u64 \<times> u64 \<times> u64 \<times> u64" where
  "sipRound =
     (\<lambda>(v0, v1, v2, v3).
       let v0 = v0 + v1; v1 = RotateLeft v1 13; v1 = v1 XOR v0; v0 = RotateLeft v0 32;
           v2 = v2 + v3; v3 = RotateLeft v3 16; v3 = v3 XOR v2;
           v0 = v0 + v3; v3 = RotateLeft v3 21; v3 = v3 XOR v0;
           v2 = v2 + v1; v1 = RotateLeft v1 17; v1 = v1 XOR v2; v2 = RotateLeft v2 32
       in (v0, v1, v2, v3))"

definition sipHash :: "scrambler \<Rightarrow> u64 \<Rightarrow> u64" where
  "sipHash hcs aM =
     (let v0 = mK0 hcs XOR 0x736f6d6570736575; v1 = mK1 hcs XOR 0x646f72616e646f6d;
          v2 = mK0 hcs XOR 0x6c7967656e657261; v3 = mK1 hcs XOR 0x7465646279746573;
          (v0, v1, v2, v3) = sipRound (v0, v1, v2, v3 XOR aM);
          (v0, v1, v2, v3) = sipRound (sipRound (sipRound (v0 XOR aM, v1, v2 XOR 0xff, v3)))
      in v0 XOR v1 XOR v2 XOR v3)"

definition scramble :: "scrambler \<Rightarrow> u32 \<Rightarrow> u32" where
  "scramble hcs aHashCode = ucast (sipHash hcs (ucast aHashCode))"

end
