(* ===== verification/OrderedHashTable.thy ===== *)
theory OrderedHashTable
  imports Prelude
begin

text \<open>
  The ordered hash table behind \<open>Map\<close> and \<open>Set\<close> (\<open>js/src/ds/OrderedHashTable.h\<close>): a vector of entries
  in insertion order, buckets that chain its elements, and the live ranges (iterators) over it, which
  the table corrects when it removes, compacts or clears.  A pointer into the data vector is an index.
  The intrusive list of ranges is a list of names, and \<open>rangeAt\<close> the memory of the ranges themselves.
\<close>

section \<open>State\<close>

text \<open>
  The parameter \<open>Ops\<close> of the template: the key of an element, the empty key, the hash (with its
  scrambler) and the comparison of keys.
\<close>

record ('t, 'k) Ops =
  getKey :: "'t \<Rightarrow> 'k"
  setKey :: "'t \<Rightarrow> 'k \<Rightarrow> 't"
  isEmpty :: "'k \<Rightarrow> bool"
  makeEmpty :: "'t \<Rightarrow> 't"
  hashOf :: "'k \<Rightarrow> u32"
  match :: "'k \<Rightarrow> 'k \<Rightarrow> bool"

record 't Data =
  element :: 't
  chain :: "nat option"

record Range =
  rangeI :: nat
  rangeCount :: nat
  valid :: bool

text \<open>
  \<open>hashTable\<close> is \<open>[]\<close> before \<open>init\<close>, where the pointer is null; \<open>data\<close> holds the constructed elements, so
  \<open>dataLength\<close> is its length, in an allocation of \<open>dataCapacity\<close>.
\<close>

record 't OrderedHashTable =
  hashTable :: "nat option list"
  data :: "'t Data list"
  dataCapacity :: nat
  liveCount :: nat
  hashShift :: nat
  ranges :: "nat list"
  nurseryRanges :: "nat list"
  rangeAt :: "nat \<Rightarrow> Range"

definition newTable :: "'t OrderedHashTable" where
  "newTable = \<lparr>hashTable = [], data = [], dataCapacity = 0, liveCount = 0, hashShift = 0,
     ranges = [], nurseryRanges = [], rangeAt = (\<lambda>r. \<lparr>rangeI = 0, rangeCount = 0, valid = False\<rparr>)\<rparr>"

definition dataLength :: "'t OrderedHashTable \<Rightarrow> nat" where
  "dataLength t = length (data t)"

section \<open>Hashing and sizes\<close>

definition kHashNumberBits :: nat where
  "kHashNumberBits = 32"

definition ScrambleHashCode :: "u32 \<Rightarrow> u32" where
  "ScrambleHashCode h = h * 0x9E3779B9"

definition prepareHash :: "('t, 'k) Ops \<Rightarrow> 'k \<Rightarrow> u32" where
  "prepareHash ops l = ScrambleHashCode (hashOf ops l)"

text \<open>The bucket of a hash code, \<open>h >> hashShift\<close>.\<close>

definition bucket :: "u32 \<Rightarrow> nat \<Rightarrow> nat" where
  "bucket h shift = unat (drop_bit shift h)"

definition initialBucketsLog2 :: nat where
  "initialBucketsLog2 = 1"

definition initialBuckets :: nat where
  "initialBuckets = 2 ^ initialBucketsLog2"

definition hashBuckets :: "'t OrderedHashTable \<Rightarrow> nat" where
  "hashBuckets t = 2 ^ (kHashNumberBits - hashShift t)"

text \<open>
  \<open>uint32_t(buckets * fillFactor())\<close> with the fill factor \<open>8.0 / 3.0\<close>: \<open>buckets\<close> is a power of two, so
  the product is the rounded constant scaled exactly and its integer part is that of \<open>8 * buckets / 3\<close>.
  The conversion of a double that does not fit is undefined.
\<close>

definition capacityFor :: "nat \<Rightarrow> nat eng" where
  "capacityFor buckets =
     (let capacity = 8 * buckets div 3 in
      if capacity < 2 ^ 32 then returnM capacity else throwM UndefinedBehavior)"

section \<open>Ranges\<close>

definition emptyAt :: "('t, 'k) Ops \<Rightarrow> 't Data list \<Rightarrow> nat \<Rightarrow> bool" where
  "emptyAt ops ds i = isEmpty ops (getKey ops (element (ds ! i)))"

definition seek :: "('t, 'k) Ops \<Rightarrow> 't OrderedHashTable \<Rightarrow> Range \<Rightarrow> Range eng" where
  "seek ops t r =
     bindM (whileM (\<lambda>i. i < dataLength t \<and> emptyAt ops (data t) i) Suc (rangeI r)) (\<lambda>i.
     returnM (r\<lparr>rangeI := i\<rparr>))"

definition onRemove :: "('t, 'k) Ops \<Rightarrow> 't OrderedHashTable \<Rightarrow> nat \<Rightarrow> Range \<Rightarrow> Range eng" where
  "onRemove ops t j r =
     mozAssert (valid r) (
     let r = (if j < rangeI r then r\<lparr>rangeCount := rangeCount r - 1\<rparr> else r) in
     if j = rangeI r then seek ops t r else returnM r)"

definition onCompact :: "Range \<Rightarrow> Range eng" where
  "onCompact r = mozAssert (valid r) (returnM (r\<lparr>rangeI := rangeCount r\<rparr>))"

definition onClear :: "Range \<Rightarrow> Range eng" where
  "onClear r = mozAssert (valid r) (returnM (r\<lparr>rangeI := 0, rangeCount := 0\<rparr>))"

definition onTableDestroyed :: "Range \<Rightarrow> Range eng" where
  "onTableDestroyed r = mozAssert (valid r) (returnM (r\<lparr>valid := False\<rparr>))"

primrec mapRanges :: "(Range \<Rightarrow> Range eng) \<Rightarrow> nat list \<Rightarrow> (nat \<Rightarrow> Range) \<Rightarrow> (nat \<Rightarrow> Range) eng" where
  "mapRanges f [] mem = returnM mem"
| "mapRanges f (r # rs) mem = bindM (f (mem r)) (\<lambda>x. mapRanges f rs (mem(r := x)))"

definition forEachRange :: "(Range \<Rightarrow> Range eng) \<Rightarrow> 't OrderedHashTable \<Rightarrow> 't OrderedHashTable eng" where
  "forEachRange f t =
     bindM (mapRanges f (ranges t) (rangeAt t)) (\<lambda>mem.
     bindM (mapRanges f (nurseryRanges t) mem) (\<lambda>mem.
     returnM (t\<lparr>rangeAt := mem\<rparr>)))"

section \<open>Table operations\<close>

text \<open>A function that returns \<open>false\<close> when an allocation fails returns the flag and the table.\<close>

definition init :: "'t OrderedHashTable \<Rightarrow> (bool \<times> 't OrderedHashTable) eng" where
  "init t =
     mozAssert (hashTable t = []) (
     let buckets = initialBuckets in
     bindM tryAlloc (\<lambda>ok.
     if \<not> ok then returnM (False, t)
     else
       bindM (capacityFor buckets) (\<lambda>capacity.
       bindM tryAlloc (\<lambda>ok.
       if \<not> ok then returnM (False, t)
       else
         let t = t\<lparr>hashTable := replicate buckets None, data := [], dataCapacity := capacity,
               liveCount := 0, hashShift := kHashNumberBits - initialBucketsLog2\<rparr> in
         mozAssert (hashBuckets t = buckets) (returnM (True, t))))))"

definition lookup :: "('t, 'k) Ops \<Rightarrow> 't OrderedHashTable \<Rightarrow> 'k \<Rightarrow> u32 \<Rightarrow> nat option eng" where
  "lookup ops t l h =
     bindM (ptrGet (hashTable t) (bucket h (hashShift t))) (\<lambda>e.
     bindM (whileE (\<lambda>(e, found). e \<noteq> None \<and> \<not> found)
       (\<lambda>(e, found).
         bindM (ptrGet (data t) (the e)) (\<lambda>d.
         if match ops (getKey ops (element d)) l then returnM (e, True)
         else returnM (chain d, False))) (e, False)) (\<lambda>(e, found).
     returnM e))"

definition count :: "'t OrderedHashTable \<Rightarrow> nat" where
  "count t = liveCount t"

definition has :: "('t, 'k) Ops \<Rightarrow> 't OrderedHashTable \<Rightarrow> 'k \<Rightarrow> bool eng" where
  "has ops t l = bindM (lookup ops t l (prepareHash ops l)) (\<lambda>e. returnM (e \<noteq> None))"

definition get :: "('t, 'k) Ops \<Rightarrow> 't OrderedHashTable \<Rightarrow> 'k \<Rightarrow> 't option eng" where
  "get ops t l =
     bindM (lookup ops t l (prepareHash ops l)) (\<lambda>e.
     case e of None \<Rightarrow> returnM None
     | Some e \<Rightarrow> bindM (ptrGet (data t) e) (\<lambda>d. returnM (Some (element d))))"

text \<open>\<open>compacted\<close> and the loops that rebuild the chains, in place and into fresh arrays.\<close>

definition compacted :: "'t OrderedHashTable \<Rightarrow> 't OrderedHashTable eng" where
  "compacted t = forEachRange onCompact t"

definition rehashStep :: "('t, 'k) Ops \<Rightarrow> nat \<Rightarrow> nat \<Rightarrow> nat option list \<times> 't Data list \<times> nat
    \<Rightarrow> (nat option list \<times> 't Data list \<times> nat) eng" where
  "rehashStep ops shift rp =
     (\<lambda>(table, ds, wp).
       bindM (ptrGet ds rp) (\<lambda>d.
       if \<not> isEmpty ops (getKey ops (element d))
       then
         let h = bucket (prepareHash ops (getKey ops (element d))) shift in
         bindM (if rp \<noteq> wp
                then bindM (ptrGet ds wp) (\<lambda>w. ptrSet ds wp (w\<lparr>element := element d\<rparr>))
                else returnM ds) (\<lambda>ds.
         bindM (ptrGet table h) (\<lambda>c.
         bindM (ptrGet ds wp) (\<lambda>w.
         bindM (ptrSet ds wp (w\<lparr>chain := c\<rparr>)) (\<lambda>ds.
         bindM (ptrSet table h (Some wp)) (\<lambda>table.
         returnM (table, ds, wp + 1))))))
       else returnM (table, ds, wp)))"

definition rehashInPlace :: "('t, 'k) Ops \<Rightarrow> 't OrderedHashTable \<Rightarrow> 't OrderedHashTable eng" where
  "rehashInPlace ops t =
     bindM (forUp 0 (dataLength t) (rehashStep ops (hashShift t))
       (replicate (hashBuckets t) None, data t, 0)) (\<lambda>(table, ds, wp).
     mozAssert (wp = liveCount t) (
     compacted (t\<lparr>hashTable := table, data := take wp ds\<rparr>)))"

definition moveStep :: "('t, 'k) Ops \<Rightarrow> nat \<Rightarrow> nat \<Rightarrow> 't Data list \<Rightarrow> nat \<Rightarrow> nat option list \<times> 't Data list
    \<Rightarrow> (nat option list \<times> 't Data list) eng" where
  "moveStep ops shift capacity ds p =
     (\<lambda>(table, newData).
       bindM (ptrGet ds p) (\<lambda>d.
       if \<not> isEmpty ops (getKey ops (element d))
       then
         let h = bucket (prepareHash ops (getKey ops (element d))) shift in
         bindM (ptrGet table h) (\<lambda>c.
         if length newData < capacity
         then
           bindM (ptrSet table h (Some (length newData))) (\<lambda>table.
           returnM (table, newData @ [\<lparr>element = element d, chain = c\<rparr>]))
         else throwM UndefinedBehavior)
       else returnM (table, newData)))"

definition rehash :: "('t, 'k) Ops \<Rightarrow> nat \<Rightarrow> 't OrderedHashTable \<Rightarrow> (bool \<times> 't OrderedHashTable) eng" where
  "rehash ops newHashShift t =
     (if newHashShift = hashShift t then bindM (rehashInPlace ops t) (\<lambda>t. returnM (True, t))
      else
        let newHashBuckets = 2 ^ (kHashNumberBits - newHashShift) in
        bindM tryAlloc (\<lambda>ok.
        if \<not> ok then returnM (False, t)
        else
          bindM (capacityFor newHashBuckets) (\<lambda>newCapacity.
          bindM tryAlloc (\<lambda>ok.
          if \<not> ok then returnM (False, t)
          else
            bindM (forUp 0 (dataLength t) (moveStep ops newHashShift newCapacity (data t))
              (replicate newHashBuckets None, [])) (\<lambda>(newHashTable, newData).
            mozAssert (length newData = liveCount t) (
            let t = t\<lparr>hashTable := newHashTable, data := newData, dataCapacity := newCapacity,
                  hashShift := newHashShift\<rparr> in
            mozAssert (hashBuckets t = newHashBuckets) (
            bindM (compacted t) (\<lambda>t. returnM (True, t)))))))))"

text \<open>The comparison with \<open>dataCapacity * 0.75\<close> in doubles is exact, as is \<open>dataLength * 0.25\<close> below.\<close>

definition put :: "('t, 'k) Ops \<Rightarrow> 't OrderedHashTable \<Rightarrow> 't \<Rightarrow> (bool \<times> 't OrderedHashTable) eng" where
  "put ops t x =
     (let h = prepareHash ops (getKey ops x) in
      bindM (lookup ops t (getKey ops x) h) (\<lambda>e.
      case e of
        Some e \<Rightarrow>
          bindM (ptrGet (data t) e) (\<lambda>d.
          bindM (ptrSet (data t) e (d\<lparr>element := x\<rparr>)) (\<lambda>ds.
          returnM (True, t\<lparr>data := ds\<rparr>)))
      | None \<Rightarrow>
          bindM (if dataLength t = dataCapacity t
                 then rehash ops (if 4 * liveCount t \<ge> 3 * dataCapacity t then hashShift t - 1 else hashShift t) t
                 else returnM (True, t)) (\<lambda>(ok, t).
          if \<not> ok then returnM (False, t)
          else
            let h = bucket h (hashShift t) in
            bindM (ptrGet (hashTable t) h) (\<lambda>c.
            if dataLength t < dataCapacity t
            then
              bindM (ptrSet (hashTable t) h (Some (dataLength t))) (\<lambda>table.
              returnM (True, t\<lparr>liveCount := liveCount t + 1, hashTable := table,
                data := data t @ [\<lparr>element = x, chain = c\<rparr>]\<rparr>))
            else throwM UndefinedBehavior))))"

text \<open>\<open>remove\<close> returns its result, \<open>*foundp\<close> and the table.\<close>

definition remove :: "('t, 'k) Ops \<Rightarrow> 't OrderedHashTable \<Rightarrow> 'k \<Rightarrow> (bool \<times> bool \<times> 't OrderedHashTable) eng" where
  "remove ops t l =
     bindM (lookup ops t l (prepareHash ops l)) (\<lambda>e.
     case e of
       None \<Rightarrow> returnM (True, False, t)
     | Some pos \<Rightarrow>
         bindM (ptrGet (data t) pos) (\<lambda>d.
         bindM (ptrSet (data t) pos (d\<lparr>element := makeEmpty ops (element d)\<rparr>)) (\<lambda>ds.
         let t = t\<lparr>liveCount := liveCount t - 1, data := ds\<rparr> in
         bindM (forEachRange (onRemove ops t pos) t) (\<lambda>t.
         if hashBuckets t > initialBuckets \<and> 4 * liveCount t < dataLength t
         then bindM (rehash ops (hashShift t + 1) t) (\<lambda>(ok, t). returnM (ok, True, t))
         else returnM (True, True, t)))))"

definition clear :: "'t OrderedHashTable \<Rightarrow> (bool \<times> 't OrderedHashTable) eng" where
  "clear t =
     bindM (if dataLength t \<noteq> 0
            then
              bindM (init (t\<lparr>hashTable := []\<rparr>)) (\<lambda>(ok, t').
              if \<not> ok then returnM (False, t'\<lparr>hashTable := hashTable t\<rparr>)
              else bindM (forEachRange onClear t') (\<lambda>t'. returnM (True, t')))
            else returnM (True, t)) (\<lambda>(ok, t).
     if \<not> ok then returnM (False, t)
     else mozAssert (hashTable t \<noteq> []) (mozAssert (dataLength t = 0) (mozAssert (liveCount t = 0)
       (returnM (True, t)))))"

text \<open>
  \<open>createRange\<close> constructs a range in the memory \<open>r\<close>, at the head of one of the lists; \<open>all\<close> is the case
  outside the nursery.  Then the copy constructor, the destructor, and the destructor of the table.
\<close>

definition createRange :: "('t, 'k) Ops \<Rightarrow> nat \<Rightarrow> bool \<Rightarrow> 't OrderedHashTable \<Rightarrow> 't OrderedHashTable eng" where
  "createRange ops r inNursery t =
     bindM (seek ops t \<lparr>rangeI = 0, rangeCount = 0, valid = True\<rparr>) (\<lambda>x.
     returnM (if inNursery then t\<lparr>nurseryRanges := r # nurseryRanges t, rangeAt := (rangeAt t)(r := x)\<rparr>
              else t\<lparr>ranges := r # ranges t, rangeAt := (rangeAt t)(r := x)\<rparr>))"

definition all :: "('t, 'k) Ops \<Rightarrow> nat \<Rightarrow> 't OrderedHashTable \<Rightarrow> 't OrderedHashTable eng" where
  "all ops r t = createRange ops r False t"

definition copyRange :: "nat \<Rightarrow> nat \<Rightarrow> 't OrderedHashTable \<Rightarrow> 't OrderedHashTable" where
  "copyRange other r t =
     t\<lparr>ranges := r # ranges t,
       rangeAt := (rangeAt t)(r := \<lparr>rangeI = rangeI (rangeAt t other), rangeCount = rangeCount (rangeAt t other), valid = True\<rparr>)\<rparr>"

definition destroyRange :: "nat \<Rightarrow> 't OrderedHashTable \<Rightarrow> 't OrderedHashTable" where
  "destroyRange r t = t\<lparr>ranges := remove1 r (ranges t), nurseryRanges := remove1 r (nurseryRanges t)\<rparr>"

definition destroyNurseryRanges :: "'t OrderedHashTable \<Rightarrow> 't OrderedHashTable" where
  "destroyNurseryRanges t = t\<lparr>nurseryRanges := []\<rparr>"

definition destroyTable :: "'t OrderedHashTable \<Rightarrow> 't OrderedHashTable eng" where
  "destroyTable t = bindM (forEachRange onTableDestroyed t) (\<lambda>t. returnM (t\<lparr>hashTable := [], data := []\<rparr>))"

text \<open>\<open>empty\<close>, \<open>front\<close> and \<open>popFront\<close> of the range \<open>r\<close>.\<close>

definition rangeEmpty :: "'t OrderedHashTable \<Rightarrow> nat \<Rightarrow> bool eng" where
  "rangeEmpty t r = mozAssert (valid (rangeAt t r)) (returnM (rangeI (rangeAt t r) \<ge> dataLength t))"

definition front :: "'t OrderedHashTable \<Rightarrow> nat \<Rightarrow> 't eng" where
  "front t r =
     bindM (rangeEmpty t r) (\<lambda>e. mozAssert (\<not> e) (
     bindM (ptrGet (data t) (rangeI (rangeAt t r))) (\<lambda>d. returnM (element d))))"

definition popFront :: "('t, 'k) Ops \<Rightarrow> 't OrderedHashTable \<Rightarrow> nat \<Rightarrow> 't OrderedHashTable eng" where
  "popFront ops t r =
     bindM (rangeEmpty t r) (\<lambda>e. mozAssert (\<not> e) (
     mozAssert (\<not> emptyAt ops (data t) (rangeI (rangeAt t r))) (
     let x = rangeAt t r in
     bindM (seek ops t (x\<lparr>rangeCount := rangeCount x + 1, rangeI := rangeI x + 1\<rparr>)) (\<lambda>x.
     returnM (t\<lparr>rangeAt := (rangeAt t)(r := x)\<rparr>)))))"

text \<open>
  A \<open>Data**\<close> points to a bucket or to the chain field of an element.  The two loops unlink an entry
  from its old chain and link it into its new one, where chains descend in memory.
\<close>

datatype slot = BucketSlot nat | ChainSlot nat

definition slotGet :: "'t OrderedHashTable \<Rightarrow> slot \<Rightarrow> nat option eng" where
  "slotGet t ep =
     (case ep of BucketSlot h \<Rightarrow> ptrGet (hashTable t) h
      | ChainSlot i \<Rightarrow> bindM (ptrGet (data t) i) (\<lambda>d. returnM (chain d)))"

definition slotSet :: "'t OrderedHashTable \<Rightarrow> slot \<Rightarrow> nat option \<Rightarrow> 't OrderedHashTable eng" where
  "slotSet t ep p =
     (case ep of BucketSlot h \<Rightarrow> bindM (ptrSet (hashTable t) h p) (\<lambda>table. returnM (t\<lparr>hashTable := table\<rparr>))
      | ChainSlot i \<Rightarrow>
          bindM (ptrGet (data t) i) (\<lambda>d.
          bindM (ptrSet (data t) i (d\<lparr>chain := p\<rparr>)) (\<lambda>ds. returnM (t\<lparr>data := ds\<rparr>))))"

definition followChain :: "'t OrderedHashTable \<Rightarrow> (nat option \<Rightarrow> bool) \<Rightarrow> slot \<Rightarrow> slot eng" where
  "followChain t continue ep =
     bindM (slotGet t ep) (\<lambda>p.
     bindM (whileE (\<lambda>(ep, p). continue p)
       (\<lambda>(ep, p).
         case p of None \<Rightarrow> throwM UndefinedBehavior
         | Some i \<Rightarrow> bindM (slotGet t (ChainSlot i)) (\<lambda>p'. returnM (ChainSlot i, p'))) (ep, p)) (\<lambda>(ep, p).
     returnM ep))"

definition relink :: "nat \<Rightarrow> nat \<Rightarrow> nat \<Rightarrow> 't OrderedHashTable \<Rightarrow> 't OrderedHashTable eng" where
  "relink entry oldHash newHash t =
     bindM (followChain t (\<lambda>p. p \<noteq> Some entry) (BucketSlot oldHash)) (\<lambda>ep.
     bindM (slotGet t (ChainSlot entry)) (\<lambda>c.
     bindM (slotSet t ep c) (\<lambda>t.
     bindM (followChain t (\<lambda>p. p \<noteq> None \<and> the p > entry) (BucketSlot newHash)) (\<lambda>ep.
     bindM (slotGet t ep) (\<lambda>c.
     bindM (slotSet t (ChainSlot entry) c) (\<lambda>t.
     slotSet t ep (Some entry)))))))"

definition rekeyFront :: "('t, 'k) Ops \<Rightarrow> 't OrderedHashTable \<Rightarrow> nat \<Rightarrow> 'k \<Rightarrow> 't OrderedHashTable eng" where
  "rekeyFront ops t r k =
     mozAssert (valid (rangeAt t r)) (
     let entry = rangeI (rangeAt t r) in
     bindM (ptrGet (data t) entry) (\<lambda>d.
     let oldHash = bucket (prepareHash ops (getKey ops (element d))) (hashShift t);
         newHash = bucket (prepareHash ops k) (hashShift t) in
     bindM (ptrSet (data t) entry (d\<lparr>element := setKey ops (element d) k\<rparr>)) (\<lambda>ds.
     let t = t\<lparr>data := ds\<rparr> in
     if newHash \<noteq> oldHash then relink entry oldHash newHash t else returnM t)))"

definition rekeyOneEntry ::
  "('t, 'k) Ops \<Rightarrow> 't OrderedHashTable \<Rightarrow> 'k \<Rightarrow> 'k \<Rightarrow> 't \<Rightarrow> 't OrderedHashTable eng" where
  "rekeyOneEntry ops t current newKey x =
     (if current = newKey then returnM t
      else
        bindM (lookup ops t current (prepareHash ops current)) (\<lambda>e.
        case e of None \<Rightarrow> returnM t
        | Some entry \<Rightarrow>
            let oldHash = bucket (prepareHash ops current) (hashShift t);
                newHash = bucket (prepareHash ops newKey) (hashShift t) in
            bindM (ptrGet (data t) entry) (\<lambda>d.
            bindM (ptrSet (data t) entry (d\<lparr>element := x\<rparr>)) (\<lambda>ds.
            relink entry oldHash newHash (t\<lparr>data := ds\<rparr>)))))"

end
