(* ===== verification/OrderedHashTable_Spec.thy ===== *)
theory OrderedHashTable_Spec
  imports OrderedHashTable
begin

text \<open>
  What the ordered hash table promises: its live elements form a list in insertion order, and a range
  divides that list into the part it has visited and the rest.  The invariant \<open>tableOk\<close>, the chains,
  and the effect of every operation on the two lists, for any hash policy (locale \<open>hash_policy\<close>).
\<close>

section \<open>The abstract view\<close>

definition full :: "('t, 'k) Ops \<Rightarrow> 't \<Rightarrow> bool" where
  "full ops x \<longleftrightarrow> \<not> isEmpty ops (getKey ops x)"

definition elements :: "'t OrderedHashTable \<Rightarrow> 't list" where
  "elements t = map element (data t)"

definition live :: "('t, 'k) Ops \<Rightarrow> 't OrderedHashTable \<Rightarrow> 't list" where
  "live ops t = filter (full ops) (elements t)"

definition visited :: "('t, 'k) Ops \<Rightarrow> 't OrderedHashTable \<Rightarrow> nat \<Rightarrow> 't list" where
  "visited ops t r = filter (full ops) (take (rangeI (rangeAt t r)) (elements t))"

definition rest :: "('t, 'k) Ops \<Rightarrow> 't OrderedHashTable \<Rightarrow> nat \<Rightarrow> 't list" where
  "rest ops t r = filter (full ops) (drop (rangeI (rangeAt t r)) (elements t))"

lemma elements_update [simp]:
  "elements (t\<lparr>rangeAt := m\<rparr>) = elements t" "elements (t\<lparr>ranges := xs\<rparr>) = elements t"
  "elements (t\<lparr>nurseryRanges := xs\<rparr>) = elements t"
  by (simp_all add: elements_def)

lemma filter_visited [simp]: "filter (full ops) (visited ops t r) = visited ops t r"
  by (simp add: visited_def)

lemma visited_rest: "visited ops t r @ rest ops t r = live ops t"
  by (simp add: visited_def rest_def live_def flip: filter_append)

section \<open>The invariant\<close>

primrec chainIs :: "'t Data list \<Rightarrow> nat option \<Rightarrow> nat list \<Rightarrow> bool" where
  "chainIs ds p [] \<longleftrightarrow> p = None"
| "chainIs ds p (j # js) \<longleftrightarrow> p = Some j \<and> j < length ds \<and> (\<forall>i \<in> set js. i < j) \<and> chainIs ds (chain (ds ! j)) js"

definition bucketOf :: "('t, 'k) Ops \<Rightarrow> nat \<Rightarrow> 't \<Rightarrow> nat" where
  "bucketOf ops shift x = bucket (prepareHash ops (getKey ops x)) shift"

text \<open>The chains of the buckets are disjoint and descend, and a live element is on the chain of its bucket.\<close>

definition disjointLists :: "nat list list \<Rightarrow> bool" where
  "disjointLists cs \<longleftrightarrow> (\<forall>h h'. h < length cs \<and> h' < length cs \<and> h \<noteq> h' \<longrightarrow> set (cs ! h) \<inter> set (cs ! h') = {})"

definition chainsAre :: "('t, 'k) Ops \<Rightarrow> nat \<Rightarrow> nat option list \<Rightarrow> 't Data list \<Rightarrow> nat list list \<Rightarrow> bool" where
  "chainsAre ops shift table ds cs \<longleftrightarrow>
     length cs = length table \<and> (\<forall>h < length table. chainIs ds (table ! h) (cs ! h)) \<and> disjointLists cs \<and>
     (\<forall>j < length ds. full ops (element (ds ! j)) \<longrightarrow> j \<in> set (cs ! bucketOf ops shift (element (ds ! j))))"

definition chainsOk :: "('t, 'k) Ops \<Rightarrow> nat \<Rightarrow> nat option list \<Rightarrow> 't Data list \<Rightarrow> bool" where
  "chainsOk ops shift table ds \<longleftrightarrow> (\<exists>cs. chainsAre ops shift table ds cs)"

definition keysDiffer :: "('t, 'k) Ops \<Rightarrow> 't list \<Rightarrow> bool" where
  "keysDiffer ops xs \<longleftrightarrow> sorted_wrt (\<lambda>x y. \<not> match ops (getKey ops x) (getKey ops y)) xs"

definition rangeOk :: "('t, 'k) Ops \<Rightarrow> 't list \<Rightarrow> Range \<Rightarrow> bool" where
  "rangeOk ops xs x \<longleftrightarrow>
     valid x \<and> rangeI x \<le> length xs \<and> (rangeI x < length xs \<longrightarrow> full ops (xs ! rangeI x)) \<and>
     rangeCount x = length (filter (full ops) (take (rangeI x) xs))"

definition rangesOk :: "('t, 'k) Ops \<Rightarrow> 't OrderedHashTable \<Rightarrow> bool" where
  "rangesOk ops t \<longleftrightarrow>
     distinct (ranges t @ nurseryRanges t) \<and>
     (\<forall>r \<in> set (ranges t @ nurseryRanges t). rangeOk ops (elements t) (rangeAt t r))"

text \<open>The sizes are tied to each other; the shift of an initialised table is between 1 and 31.\<close>

definition sizesOk :: "nat option list \<Rightarrow> 't Data list \<Rightarrow> nat \<Rightarrow> nat \<Rightarrow> bool" where
  "sizesOk table ds capacity shift \<longleftrightarrow>
     0 < shift \<and> shift \<le> 31 \<and> length table = 2 ^ (32 - shift) \<and>
     capacity = 8 * 2 ^ (32 - shift) div 3 \<and> length ds \<le> capacity"

definition tableOk :: "('t, 'k) Ops \<Rightarrow> 't OrderedHashTable \<Rightarrow> bool" where
  "tableOk ops t \<longleftrightarrow>
     sizesOk (hashTable t) (data t) (dataCapacity t) (hashShift t) \<and>
     liveCount t = length (live ops t) \<and>
     chainsOk ops (hashShift t) (hashTable t) (data t) \<and>
     keysDiffer ops (live ops t) \<and> rangesOk ops t"

section \<open>Chains\<close>

lemma bucket_less: "0 < s \<Longrightarrow> s \<le> 31 \<Longrightarrow> bucket h s < 2 ^ (32 - s)"
proof -
  assume "0 < s" "s \<le> 31"
  have "unat h < 2 ^ 32" using unsigned_less [of h, where ?'a = nat] by simp
  also have "(2::nat) ^ 32 = 2 ^ (32 - s) * 2 ^ s" using \<open>s \<le> 31\<close> by (simp flip: power_add)
  finally show ?thesis unfolding bucket_def unat_drop_bit_eq by (simp add: drop_bit_eq_div less_mult_imp_div_less)
qed

lemma bucketOf_less: "0 < s \<Longrightarrow> s \<le> 31 \<Longrightarrow> bucketOf ops s x < 2 ^ (32 - s)"
  by (simp add: bucketOf_def bucket_less)

lemma chainIs_bounded: "chainIs ds p js \<Longrightarrow> j \<in> set js \<Longrightarrow> j < length ds"
  by (induction js arbitrary: p) auto

lemma chainIs_distinct: "chainIs ds p js \<Longrightarrow> distinct js"
  by (induction js arbitrary: p) auto

lemma chainIs_cong:
  assumes "chainIs ds p js" and "\<And>j. j \<in> set js \<Longrightarrow> j < length ds \<Longrightarrow> j < length ds' \<and> chain (ds' ! j) = chain (ds ! j)"
  shows "chainIs ds' p js"
  using assms by (induction js arbitrary: p) auto

lemma chainIs_replicate: "chainIs ds None js \<longleftrightarrow> js = []"
  by (cases js) auto

lemma chainsOk_empty: "chainsOk ops s (replicate n None) []"
proof -
  show ?thesis
    unfolding chainsOk_def chainsAre_def by (intro exI [of _ "replicate n []"]) (auto simp: disjointLists_def)
qed

text \<open>Appending an element at the head of the chain of its bucket.\<close>

lemma chainsOk_push:
  assumes "chainsOk ops s table ds" and "bucketOf ops s x < length table"
  shows "chainsOk ops s (table[bucketOf ops s x := Some (length ds)])
    (ds @ [\<lparr>element = x, chain = table ! bucketOf ops s x\<rparr>])"
proof -
  let ?b = "bucketOf ops s x" and ?ds = "ds @ [\<lparr>element = x, chain = table ! bucketOf ops s x\<rparr>]"
  obtain cs where cs: "length cs = length table" "\<And>h. h < length table \<Longrightarrow> chainIs ds (table ! h) (cs ! h)"
      "disjointLists cs"
      "\<And>j. j < length ds \<Longrightarrow> full ops (element (ds ! j)) \<Longrightarrow> j \<in> set (cs ! bucketOf ops s (element (ds ! j)))"
    using assms(1) unfolding chainsOk_def chainsAre_def by blast
  have fresh: "length ds \<notin> set (cs ! h)" if "h < length table" for h
    using chainIs_bounded [OF cs(2) [OF that]] by blast
  have old: "chainIs ?ds (table ! h) (cs ! h)" if "h < length table" for h
    by (rule chainIs_cong [OF cs(2) [OF that]]) (simp add: nth_append)
  have "chainIs ?ds (table[?b := Some (length ds)] ! h) ((cs[?b := length ds # cs ! ?b]) ! h)" if h: "h < length table" for h
  proof (cases "h = ?b")
    case True
    then show ?thesis using old [OF h] h cs(1) chainIs_bounded [OF cs(2) [OF h]] by simp
  next
    case False
    then show ?thesis using old [OF h] by simp
  qed
  moreover have "disjointLists (cs[?b := length ds # cs ! ?b])"
    using fresh assms(2) cs(1,3) unfolding disjointLists_def by (auto simp: nth_list_update)
  moreover have "j \<in> set ((cs[?b := length ds # cs ! ?b]) ! bucketOf ops s (element (?ds ! j)))"
    if "j < length ?ds" "full ops (element (?ds ! j))" for j
  proof (cases "j < length ds")
    case True
    then show ?thesis using cs(1,4) that(2) assms(2) by (auto simp: nth_append nth_list_update)
  next
    case False
    then show ?thesis using that assms(2) cs(1) by (simp add: nth_append)
  qed
  ultimately show ?thesis
    unfolding chainsOk_def chainsAre_def using cs(1) by (intro exI [of _ "cs[?b := length ds # cs ! ?b]"]) auto
qed

text \<open>Replacing the element at an index, by an empty one or by one of the same bucket.\<close>

lemma chainsAre_replace:
  assumes "chainsAre ops s table ds cs" and "j < length ds"
    and "full ops x \<Longrightarrow> full ops (element (ds ! j)) \<and> bucketOf ops s x = bucketOf ops s (element (ds ! j))"
  shows "chainsAre ops s table (ds[j := (ds ! j)\<lparr>element := x\<rparr>]) cs"
proof -
  let ?ds = "ds[j := (ds ! j)\<lparr>element := x\<rparr>]"
  have "chainIs ?ds (table ! h) (cs ! h)" if "h < length table" for h
  proof -
    have "chainIs ds (table ! h) (cs ! h)" using assms(1) that by (simp add: chainsAre_def)
    then show ?thesis by (rule chainIs_cong) (use assms(2) in \<open>simp add: nth_list_update\<close>)
  qed
  moreover have "i \<in> set (cs ! bucketOf ops s (element (?ds ! i)))"
    if "i < length ?ds" "full ops (element (?ds ! i))" for i
    using assms that unfolding chainsAre_def by (auto simp: nth_list_update split: if_splits)
  ultimately show ?thesis using assms(1) unfolding chainsAre_def by auto
qed

section \<open>Ranges and the loops over them\<close>

text \<open>Where \<open>seek\<close> stops.\<close>

definition nextFull :: "('t, 'k) Ops \<Rightarrow> 't list \<Rightarrow> nat \<Rightarrow> nat" where
  "nextFull ops xs i = i + length (takeWhile (\<lambda>x. \<not> full ops x) (drop i xs))"

lemma nextFull_step: "i < length xs \<Longrightarrow> nextFull ops xs i = (if full ops (xs ! i) then i else nextFull ops xs (Suc i))"
  by (simp add: nextFull_def flip: Cons_nth_drop_Suc)

lemma nextFull_end: "length xs \<le> i \<Longrightarrow> nextFull ops xs i = i"
  by (simp add: nextFull_def)

lemma nextFull_le: "i \<le> length xs \<Longrightarrow> nextFull ops xs i \<le> length xs"
  using length_takeWhile_le [of "\<lambda>x. \<not> full ops x" "drop i xs"] by (simp add: nextFull_def)

lemma nextFull_full: "nextFull ops xs i < length xs \<Longrightarrow> full ops (xs ! nextFull ops xs i)"
proof (induction "length xs - i" arbitrary: i)
  case (Suc n)
  then show ?case by (cases "i < length xs") (auto simp: nextFull_step [of i] nextFull_end split: if_splits)
qed (simp add: nextFull_end)

lemma filter_take_nextFull: "i \<le> length xs \<Longrightarrow>
  filter (full ops) (take (nextFull ops xs i) xs) = filter (full ops) (take i xs)"
proof (induction "length xs - i" arbitrary: i)
  case (Suc n)
  then have "i < length xs" by simp
  then show ?case using Suc by (auto simp: nextFull_step take_Suc_conv_app_nth)
qed (simp add: nextFull_end)

lemma filter_drop_nextFull: "i \<le> length xs \<Longrightarrow>
  filter (full ops) (drop (nextFull ops xs i) xs) = filter (full ops) (drop i xs)"
proof (induction "length xs - i" arbitrary: i)
  case (Suc n)
  then have "i < length xs" by simp
  then show ?case using Suc by (auto simp: nextFull_step simp flip: Cons_nth_drop_Suc)
qed (simp add: nextFull_end)

lemma length_elements [simp]: "length (elements t) = dataLength t"
  by (simp add: elements_def dataLength_def)

lemma emptyAt_full: "i < dataLength t \<Longrightarrow> emptyAt ops (data t) i \<longleftrightarrow> \<not> full ops (elements t ! i)"
  by (simp add: emptyAt_def full_def elements_def dataLength_def)

lemma whileM_unfold: "whileM b c s = (if b s then whileM b c (c s) else returnM s)"
  by (simp add: whileM_def while_option_unfold [of b c s])

lemma seek_eq:
  assumes "rangeI r \<le> dataLength t"
  shows "seek ops t r = returnM (r\<lparr>rangeI := nextFull ops (elements t) (rangeI r)\<rparr>)"
proof -
  have "whileM (\<lambda>i. i < dataLength t \<and> emptyAt ops (data t) i) Suc i = returnM (nextFull ops (elements t) i)"
    if "i \<le> dataLength t" for i
    using that
  proof (induction "dataLength t - i" arbitrary: i)
    case 0
    then show ?case by (simp add: whileM_unfold [of _ _ i] nextFull_end)
  next
    case (Suc n)
    then have i: "i < dataLength t" "n = dataLength t - Suc i" by simp_all
    show ?case
      using i Suc.hyps(1) [OF i(2)]
      by (subst whileM_unfold) (simp add: emptyAt_full nextFull_step [of i])
  qed
  then show ?thesis using assms by (simp add: seek_def)
qed

lemma seek_rangeOk:
  assumes "valid r" and "rangeI r \<le> length xs" and "rangeCount r = length (filter (full ops) (take (rangeI r) xs))"
  shows "rangeOk ops xs (r\<lparr>rangeI := nextFull ops xs (rangeI r)\<rparr>)"
  using assms by (simp add: rangeOk_def nextFull_le nextFull_full filter_take_nextFull)

lemma mapRanges_eq:
  assumes "distinct rs" and "\<And>r. r \<in> set rs \<Longrightarrow> f (mem r) = returnM (g (mem r))"
  shows "mapRanges f rs mem = returnM (\<lambda>r. if r \<in> set rs then g (mem r) else mem r)"
  using assms
proof (induction rs arbitrary: mem)
  case (Cons r rs)
  have "mapRanges f rs (mem(r := g (mem r))) =
      returnM (\<lambda>r'. if r' \<in> set rs then g ((mem(r := g (mem r))) r') else (mem(r := g (mem r))) r')"
    using Cons by (intro Cons.IH) auto
  also have "(\<lambda>r'. if r' \<in> set rs then g ((mem(r := g (mem r))) r') else (mem(r := g (mem r))) r') =
      (\<lambda>r'. if r' \<in> set (r # rs) then g (mem r') else mem r')"
    using Cons.prems(1) by (auto simp: fun_eq_iff)
  finally show ?case using Cons.prems(2) by (simp del: fun_upd_apply)
qed simp

lemma forEachRange_eq:
  assumes "distinct (ranges t @ nurseryRanges t)"
    and "\<And>r. r \<in> set (ranges t @ nurseryRanges t) \<Longrightarrow> f (rangeAt t r) = returnM (g (rangeAt t r))"
  shows "forEachRange f t =
    returnM (t\<lparr>rangeAt := (\<lambda>r. if r \<in> set (ranges t @ nurseryRanges t) then g (rangeAt t r) else rangeAt t r)\<rparr>)"
proof -
  have 1: "mapRanges f (ranges t) (rangeAt t) =
      returnM (\<lambda>r. if r \<in> set (ranges t) then g (rangeAt t r) else rangeAt t r)"
    using assms by (intro mapRanges_eq) auto
  let ?m = "\<lambda>r. if r \<in> set (ranges t) then g (rangeAt t r) else rangeAt t r"
  have 2: "mapRanges f (nurseryRanges t) ?m = returnM (\<lambda>r. if r \<in> set (nurseryRanges t) then g (?m r) else ?m r)"
    using assms by (intro mapRanges_eq) auto
  have "(\<lambda>r. if r \<in> set (nurseryRanges t) then g (?m r) else ?m r) =
      (\<lambda>r. if r \<in> set (ranges t @ nurseryRanges t) then g (rangeAt t r) else rangeAt t r)"
    using assms(1) by (auto simp: fun_eq_iff)
  then show ?thesis
    unfolding forEachRange_def 1 bindM_returnM 2 by simp
qed

text \<open>Compaction: the positions become the counts; nothing a range has visited or will visit changes.\<close>

lemma compacted_eq:
  assumes "distinct (ranges t @ nurseryRanges t)"
    and "\<And>r. r \<in> set (ranges t @ nurseryRanges t) \<Longrightarrow> valid (rangeAt t r)"
  shows "compacted t = returnM (t\<lparr>rangeAt := (\<lambda>r. if r \<in> set (ranges t @ nurseryRanges t)
    then (rangeAt t r)\<lparr>rangeI := rangeCount (rangeAt t r)\<rparr> else rangeAt t r)\<rparr>)"
  unfolding compacted_def using assms by (intro forEachRange_eq) (auto simp: onCompact_def)

section \<open>Lookup\<close>

lemma lookupLoop_eq:
  assumes "chainIs (data t) p js"
  shows "whileE (\<lambda>(e, found). e \<noteq> None \<and> \<not> found)
      (\<lambda>(e, found).
        bindM (ptrGet (data t) (the e)) (\<lambda>d.
        if match ops (getKey ops (element d)) l then returnM (e, True)
        else returnM (chain d, False))) (p, False) =
    returnM (case find (\<lambda>j. match ops (getKey ops (element (data t ! j))) l) js of
      None \<Rightarrow> (None, False) | Some j \<Rightarrow> (Some j, True))"
  using assms
proof (induction js arbitrary: p)
  case Nil
  then show ?case by (subst whileE_unfold) simp
next
  case (Cons j js)
  show ?case
  proof (cases "match ops (getKey ops (element (data t ! j))) l")
    case True
    then show ?thesis
      using Cons.prems by (subst whileE_unfold) (simp, subst whileE_unfold, simp)
  next
    case False
    then show ?thesis using Cons by (subst whileE_unfold) simp
  qed
qed

lemma lookup_eq:
  assumes "chainIs (data t) (hashTable t ! bucket h (hashShift t)) js" and "bucket h (hashShift t) < length (hashTable t)"
  shows "lookup ops t l h = returnM (find (\<lambda>j. match ops (getKey ops (element (data t ! j))) l) js)"
  unfolding lookup_def ptrGet_inside [OF assms(2)] bindM_returnM lookupLoop_eq [OF assms(1)]
  by (simp split: option.split)


section \<open>Rehashing\<close>

text \<open>An operation that changes what a range has visited by \<open>f\<close>.\<close>

definition rangesMap :: "('t, 'k) Ops \<Rightarrow> ('t list \<Rightarrow> 't list) \<Rightarrow> 't OrderedHashTable \<Rightarrow> 't OrderedHashTable \<Rightarrow> bool" where
  "rangesMap ops f t t' \<longleftrightarrow>
     ranges t' = ranges t \<and> nurseryRanges t' = nurseryRanges t \<and>
     (\<forall>r \<in> set (ranges t @ nurseryRanges t). visited ops t' r = f (visited ops t r))"

lemma rangesMap_refl [simp]: "rangesMap ops (\<lambda>xs. xs) t t"
  by (simp add: rangesMap_def)

lemma rangesMap_trans: "rangesMap ops f t t' \<Longrightarrow> rangesMap ops g t' t'' \<Longrightarrow> rangesMap ops (\<lambda>xs. g (f xs)) t t''"
  by (simp add: rangesMap_def)

lemma Data_chain: "d\<lparr>chain := c\<rparr> = \<lparr>element = element (d :: 't Data), chain = c\<rparr>"
  by simp

lemma rehashStep_eq:
  assumes "rp < length ds" and "wp \<le> rp" and "bucketOf ops s (element (ds ! rp)) < length table"
  shows "rehashStep ops s rp (table, ds, wp) = returnM
    (if full ops (element (ds ! rp))
     then (table[bucketOf ops s (element (ds ! rp)) := Some wp],
       ds[wp := \<lparr>element = element (ds ! rp), chain = table ! bucketOf ops s (element (ds ! rp))\<rparr>], wp + 1)
     else (table, ds, wp))"
  using assms by (auto simp: rehashStep_def full_def bucketOf_def Let_def Data_chain)

lemma moveStep_eq:
  assumes "p < length ds" and "bucketOf ops s (element (ds ! p)) < length table" and "length nd < cap"
  shows "moveStep ops s cap ds p (table, nd) = returnM
    (if full ops (element (ds ! p))
     then (table[bucketOf ops s (element (ds ! p)) := Some (length nd)],
       nd @ [\<lparr>element = element (ds ! p), chain = table ! bucketOf ops s (element (ds ! p))\<rparr>])
     else (table, nd))"
  using assms by (simp add: moveStep_def full_def bucketOf_def Let_def)

lemma take_Suc_update: "i < length xs \<Longrightarrow> take (Suc i) (xs[i := y]) = take i xs @ [y]"
  by (simp add: take_Suc_conv_app_nth)

lemma filter_take_Suc: "i < length xs \<Longrightarrow>
  filter P (take (Suc i) xs) = filter P (take i xs) @ (if P (xs ! i) then [xs ! i] else [])"
  by (simp add: take_Suc_conv_app_nth)

text \<open>The rebuilt table: exactly the live elements, in order, with sound chains.\<close>

definition rebuilt :: "('t, 'k) Ops \<Rightarrow> nat \<Rightarrow> 't list \<Rightarrow> nat option list \<Rightarrow> 't Data list \<Rightarrow> bool" where
  "rebuilt ops s xs table ds \<longleftrightarrow>
     map element ds = filter (full ops) xs \<and> length table = 2 ^ (32 - s) \<and> chainsOk ops s table ds"

lemma rebuilt_push:
  assumes "rebuilt ops s xs table ds" and "0 < s" and "s \<le> 31" and "full ops x"
  shows "rebuilt ops s (xs @ [x]) (table[bucketOf ops s x := Some (length ds)])
    (ds @ [\<lparr>element = x, chain = table ! bucketOf ops s x\<rparr>])"
  using assms bucketOf_less [of s ops x] by (auto simp: rebuilt_def intro!: chainsOk_push)

lemma rebuilt_skip: "rebuilt ops s xs table ds \<Longrightarrow> \<not> full ops x \<Longrightarrow> rebuilt ops s (xs @ [x]) table ds"
  by (simp add: rebuilt_def)

lemma runs_rehashLoop:
  assumes s: "0 < s" "s \<le> 31" and n: "n = length ds0"
    and fin: "\<And>table ds wp. wp \<le> n \<Longrightarrow> length ds = n \<Longrightarrow> rebuilt ops s (map element ds0) table (take wp ds) \<Longrightarrow> Q (table, ds, wp)"
  shows "runs (forUp 0 n (rehashStep ops s) (replicate (2 ^ (32 - s)) None, ds0, 0)) v E Q"
proof (rule runs_forUpI [where I = "\<lambda>rp (table, ds, wp). wp \<le> rp \<and> length ds = n \<and>
    (\<forall>i. rp \<le> i \<longrightarrow> i < n \<longrightarrow> element (ds ! i) = element (ds0 ! i)) \<and>
    rebuilt ops s (take rp (map element ds0)) table (take wp ds)"], goal_cases)
  case 1
  show ?case using n by (simp add: rebuilt_def chainsOk_empty)
next
  case (3 rp st)
  obtain table ds wp where st: "st = (table, ds, wp)" by (cases st)
  let ?x = "element (ds0 ! rp)"
  from 3 st have inv: "wp \<le> rp" "length ds = n" "element (ds ! rp) = ?x"
      "\<And>i. rp \<le> i \<Longrightarrow> i < n \<Longrightarrow> element (ds ! i) = element (ds0 ! i)"
      "rebuilt ops s (take rp (map element ds0)) table (take wp ds)" by auto
  have b: "bucketOf ops s ?x < length table" using inv(5) bucketOf_less [OF s] by (simp add: rebuilt_def)
  have tk: "take (Suc rp) (map element ds0) = take rp (map element ds0) @ [?x]"
    using 3 n by (simp add: take_Suc_conv_app_nth)
  have wp: "wp < n" "length (take wp ds) = wp" using inv 3 by auto
  have step: "rehashStep ops s rp (table, ds, wp) = returnM (if full ops ?x
      then (table[bucketOf ops s ?x := Some wp], ds[wp := \<lparr>element = ?x, chain = table ! bucketOf ops s ?x\<rparr>], wp + 1)
      else (table, ds, wp))"
    using rehashStep_eq [of rp ds wp ops s table] 3 inv b by simp
  show ?case
  proof (cases "full ops ?x")
    case True
    then show ?thesis
      unfolding st step tk using rebuilt_push [OF inv(5) s True] inv wp
      by (auto simp: take_Suc_update nth_list_update)
  next
    case False
    then show ?thesis
      unfolding st step tk using rebuilt_skip [OF inv(5) False] inv by auto
  qed
qed (use n fin in auto)

lemma runs_moveLoop:
  assumes s: "0 < s" "s \<le> 31" and n: "n = length ds0" and cap: "length (filter (full ops) (map element ds0)) \<le> cap"
    and fin: "\<And>table nd. rebuilt ops s (map element ds0) table nd \<Longrightarrow> Q (table, nd)"
  shows "runs (forUp 0 n (moveStep ops s cap ds0) (replicate (2 ^ (32 - s)) None, [])) v E Q"
proof (rule runs_forUpI [where I = "\<lambda>p (table, nd). rebuilt ops s (take p (map element ds0)) table nd"], goal_cases)
  case 1
  show ?case by (simp add: rebuilt_def chainsOk_empty)
next
  case (3 p st)
  obtain table nd where st: "st = (table, nd)" by (cases st)
  let ?x = "element (ds0 ! p)"
  from 3 st have inv: "rebuilt ops s (take p (map element ds0)) table nd" by simp
  have tk: "take (Suc p) (map element ds0) = take p (map element ds0) @ [?x]"
    using 3 n by (simp add: take_Suc_conv_app_nth)
  have b: "bucketOf ops s ?x < length table" using inv bucketOf_less [OF s] by (simp add: rebuilt_def)
  show ?case
  proof (cases "full ops ?x")
    case True
    have split: "map element ds0 = take p (map element ds0) @ ?x # drop (Suc p) (map element ds0)"
      using 3 n by (metis id_take_nth_drop length_map nth_map)
    have "length nd = length (filter (full ops) (take p (map element ds0)))"
      using inv by (metis length_map rebuilt_def)
    moreover have "length (filter (full ops) (map element ds0)) =
        Suc (length (filter (full ops) (take p (map element ds0))) + length (filter (full ops) (drop (Suc p) (map element ds0))))"
      using True by (subst split) simp
    ultimately have "length nd < cap" using cap by linarith
    then show ?thesis
      unfolding st tk using moveStep_eq [of p ds0 ops s table nd cap] 3 n b True rebuilt_push [OF inv s True] by simp
  next
    case False
    have "moveStep ops s cap ds0 p (table, nd) = returnM (table, nd)"
      using 3 n False by (simp add: moveStep_def full_def)
    then show ?thesis unfolding st tk using rebuilt_skip [OF inv False] by simp
  qed
qed (use n fin in auto)


lemma rangesOk_valid: "rangesOk ops t \<Longrightarrow> r \<in> set (ranges t @ nurseryRanges t) \<Longrightarrow> valid (rangeAt t r)"
  by (simp add: rangesOk_def rangeOk_def)

lemma rangesOk_count: "rangesOk ops t \<Longrightarrow> r \<in> set (ranges t @ nurseryRanges t) \<Longrightarrow>
  rangeCount (rangeAt t r) = length (visited ops t r)"
  by (simp add: rangesOk_def rangeOk_def visited_def)

lemma take_visited: "rangesOk ops t \<Longrightarrow> r \<in> set (ranges t @ nurseryRanges t) \<Longrightarrow>
  take (rangeCount (rangeAt t r)) (live ops t) = visited ops t r"
  using visited_rest [of ops t r] rangesOk_count by (metis append_eq_conv_conj)

definition compactedTo :: "('t, 'k) Ops \<Rightarrow> 't OrderedHashTable \<Rightarrow> 't OrderedHashTable \<Rightarrow> bool" where
  "compactedTo ops t t' \<longleftrightarrow>
     tableOk ops t' \<and> live ops t' = live ops t \<and> rangesMap ops (\<lambda>xs. xs) t t' \<and> dataLength t' = liveCount t"

lemma compacted_rebuilt:
  assumes ok: "tableOk ops t" and rb: "rebuilt ops s (elements t) table ds"
    and sz: "sizesOk table ds cap s"
  shows "\<exists>t''. compacted (t\<lparr>hashTable := table, data := ds, dataCapacity := cap, hashShift := s\<rparr>) = returnM t'' \<and>
    compactedTo ops t t'' \<and> hashShift t'' = s \<and> dataCapacity t'' = cap"
proof -
  let ?t = "t\<lparr>hashTable := table, data := ds, dataCapacity := cap, hashShift := s\<rparr>"
  let ?rs = "set (ranges t @ nurseryRanges t)"
  define t'' where "t'' = ?t\<lparr>rangeAt := (\<lambda>r. if r \<in> ?rs
    then (rangeAt t r)\<lparr>rangeI := rangeCount (rangeAt t r)\<rparr> else rangeAt t r)\<rparr>"
  have rs: "rangesOk ops t" and lc: "liveCount t = length (live ops t)" and kd: "keysDiffer ops (live ops t)"
    using ok by (simp_all add: tableOk_def)
  have c: "compacted ?t = returnM t''"
    unfolding t''_def by (subst compacted_eq) (use rs rangesOk_valid [OF rs] in \<open>auto simp: rangesOk_def cong: if_cong\<close>)
  have ds: "map element ds = live ops t" and el: "elements t'' = live ops t" using rb by (simp_all add: rebuilt_def live_def t''_def elements_def)
  have all: "\<And>x. x \<in> set (live ops t) \<Longrightarrow> full ops x" by (simp add: live_def)
  have lv: "live ops t'' = live ops t" unfolding live_def [of _ t''] el using all by simp
  have flt: "filter (full ops) (take n (live ops t)) = take n (live ops t)" for n
    using all by (meson filter_True in_set_takeD)
  have vis: "visited ops t'' r = visited ops t r" if "r \<in> ?rs" for r
    using that take_visited [OF rs that] unfolding visited_def [of _ t''] el by (simp add: t''_def flt)
  have cnt: "rangeCount (rangeAt t r) \<le> length (live ops t)" if "r \<in> ?rs" for r
    using rangesOk_count [OF rs that] visited_rest [of ops t r] by (metis le_add1 length_append)
  have rok: "rangeOk ops (elements t'') (rangeAt t'' r)" if "r \<in> ?rs" for r
    unfolding el using that rangesOk_valid [OF rs that] cnt [OF that] all
    by (simp add: rangeOk_def t''_def flt nth_mem del: set_append Un_iff)
  have "tableOk ops t''"
    unfolding tableOk_def lv
  proof (intro conjI)
    show "sizesOk (hashTable t'') (data t'') (dataCapacity t'') (hashShift t'')" using sz by (simp add: t''_def)
    show "liveCount t'' = length (live ops t)" using lc by (simp add: t''_def)
    show "chainsOk ops (hashShift t'') (hashTable t'') (data t'')" using rb by (simp add: t''_def rebuilt_def)
    show "rangesOk ops t''" using rs rok by (simp add: rangesOk_def t''_def)
  qed (use kd in simp)
  moreover have "dataLength t'' = liveCount t" using ds lc by (metis dataLength_def el elements_def length_map)
  moreover have "rangesMap ops (\<lambda>xs. xs) t t''" using vis by (simp add: rangesMap_def t''_def)
  ultimately show ?thesis using c lv by (intro exI [of _ t'']) (simp add: compactedTo_def t''_def)
qed

lemma hashBuckets_eq: "hashBuckets t = 2 ^ (32 - hashShift t)"
  by (simp add: hashBuckets_def kHashNumberBits_def)

lemma capacityFor_fits: "2 \<le> s \<Longrightarrow> s \<le> 31 \<Longrightarrow> capacityFor (2 ^ (32 - s)) = returnM (8 * 2 ^ (32 - s) div 3)"
proof -
  assume "2 \<le> s" "s \<le> 31"
  then have "(2::nat) ^ (32 - s) \<le> 2 ^ 30" by (intro power_increasing) auto
  then have "8 * 2 ^ (32 - s) div 3 < (2::nat) ^ 32" by simp
  then show ?thesis unfolding capacityFor_def Let_def by simp
qed

text \<open>
  Rehashing compacts the table at the new size.  It fails only when an allocation fails, and changes
  nothing then.
\<close>

lemma runs_rehash:
  assumes ok: "tableOk ops t" and s: "s = hashShift t \<or> 2 \<le> s" "s \<le> 31"
    and fits: "liveCount t \<le> 8 * 2 ^ (32 - s) div 3"
    and Q: "\<And>t'. compactedTo ops t t' \<Longrightarrow> hashShift t' = s \<Longrightarrow> dataCapacity t' = 8 * 2 ^ (32 - s) div 3 \<Longrightarrow> Q (True, t')"
      "\<not> (\<forall>k. allocOk v k) \<Longrightarrow> Q (False, t)"
  shows "runs (rehash ops s t) v E Q"
proof -
  have sz: "sizesOk (hashTable t) (data t) (dataCapacity t) (hashShift t)" and lc: "liveCount t = length (live ops t)"
    using ok by (simp_all add: tableOk_def)
  have s0: "0 < s" using sz s by (auto simp: sizesOk_def)
  have len: "length ds = liveCount t" if "rebuilt ops s (elements t) table ds" for table ds
    using that lc unfolding rebuilt_def live_def by (metis length_map)
  show ?thesis
  proof (cases "s = hashShift t")
    case True
    have "runs (rehashInPlace ops t) v E (\<lambda>t'. Q (True, t'))"
      unfolding rehashInPlace_def hashBuckets_eq True [symmetric]
    proof (intro runs_bindI runs_rehashLoop [OF s0 s(2)], goal_cases)
      case (2 table ds wp)
      have rb: "rebuilt ops s (elements t) table (take wp ds)" using 2 by (simp add: elements_def)
      have "sizesOk table (take wp ds) (dataCapacity t) s"
        using sz rb True 2 by (auto simp: sizesOk_def rebuilt_def dataLength_def)
      from compacted_rebuilt [OF ok rb this] obtain t'' where
        "compacted (t\<lparr>hashTable := table, data := take wp ds, dataCapacity := dataCapacity t, hashShift := s\<rparr>) = returnM t''"
        "compactedTo ops t t''" "hashShift t'' = s" "dataCapacity t'' = dataCapacity t" by blast
      moreover have "t\<lparr>hashTable := table, data := take wp ds, dataCapacity := dataCapacity t, hashShift := s\<rparr> =
          t\<lparr>hashTable := table, data := take wp ds\<rparr>" using True by simp
      ultimately show ?case using len [OF rb] 2 Q(1) sz True by (simp add: sizesOk_def)
    qed (simp add: dataLength_def)
    then show ?thesis using True by (simp add: rehash_def runs_bindI)
  next
    case False
    have loop: "runs (forUp 0 (dataLength t) (moveStep ops s (8 * 2 ^ (32 - s) div 3) (data t))
        (replicate (2 ^ (32 - s)) None, [])) v E (\<lambda>st. runs (case st of (newHashTable, newData) \<Rightarrow>
        mozAssert (length newData = liveCount t) (
          let t = t\<lparr>hashTable := newHashTable, data := newData, dataCapacity := 8 * 2 ^ (32 - s) div 3, hashShift := s\<rparr> in
          mozAssert (hashBuckets t = 2 ^ (32 - s)) (bindM (compacted t) (\<lambda>t. returnM (True, t))))) v E Q)"
    proof (intro runs_moveLoop [OF s0 s(2)], goal_cases)
      case 1
      show ?case by (simp add: dataLength_def)
    next
      case 2
      show ?case using fits lc by (simp add: live_def elements_def)
    next
      case (3 table nd)
      have rb: "rebuilt ops s (elements t) table nd" using 3 by (simp add: elements_def)
      have "sizesOk table nd (8 * 2 ^ (32 - s) div 3) s"
        using rb len [OF rb] fits s0 s(2) by (simp add: sizesOk_def rebuilt_def)
      from compacted_rebuilt [OF ok rb this] show ?case using len [OF rb] Q(1) by (auto simp: hashBuckets_eq)
    qed
    have fail: "runs (returnM (False, t)) v E Q" if "ok \<or> \<not> (\<forall>k. allocOk v k)" "\<not> ok" for ok
      using Q(2) that by simp
    have two: "2 \<le> s" using s False by simp
    show ?thesis
      unfolding rehash_def Let_def kHashNumberBits_def if_not_P [OF False] capacityFor_fits [OF two s(2)] bindM_returnM
      by (intro runs_bindI runs_tryAlloc runs_if, (erule (1) fail)+, rule loop [unfolded Let_def])
  qed
qed


end
