(* ===== verification/OrderedHashTable_Ops.thy ===== *)
theory OrderedHashTable_Ops
  imports OrderedHashTable_Spec
begin

text \<open>
  The operations of the ordered hash table under a lawful hash policy: what \<open>put\<close>, \<open>remove\<close>, \<open>clear\<close> and
  the ranges do to the list of live elements and to the part of it each range has visited.
\<close>

section \<open>The effect on the live elements\<close>

definition overwrite :: "('t, 'k) Ops \<Rightarrow> 't \<Rightarrow> 't list \<Rightarrow> 't list" where
  "overwrite ops x xs = map (\<lambda>y. if match ops (getKey ops y) (getKey ops x) then x else y) xs"

definition putList :: "('t, 'k) Ops \<Rightarrow> 't \<Rightarrow> 't list \<Rightarrow> 't list" where
  "putList ops x xs =
     (if \<exists>y \<in> set xs. match ops (getKey ops y) (getKey ops x) then overwrite ops x xs else xs @ [x])"

definition removeList :: "('t, 'k) Ops \<Rightarrow> 'k \<Rightarrow> 't list \<Rightarrow> 't list" where
  "removeList ops l xs = filter (\<lambda>y. \<not> match ops (getKey ops y) l) xs"

definition getList :: "('t, 'k) Ops \<Rightarrow> 'k \<Rightarrow> 't list \<Rightarrow> 't option" where
  "getList ops l xs = find (\<lambda>y. match ops (getKey ops y) l) xs"

lemma overwrite_other: "\<forall>y \<in> set xs. \<not> match ops (getKey ops y) (getKey ops x) \<Longrightarrow> overwrite ops x xs = xs"
  unfolding overwrite_def by (rule map_idI) auto

text \<open>One position of a list replaced, seen through a filter.\<close>

lemma filter_update_keep:
  assumes "\<And>k. k < length xs \<Longrightarrow> P (xs ! k) \<Longrightarrow> M (xs ! k) \<longleftrightarrow> k = j" and "j < length xs \<Longrightarrow> P (xs ! j)" and "P x"
  shows "filter P (xs[j := x]) = map (\<lambda>y. if M y then x else y) (filter P xs)"
  using assms(1,2)
proof (induction xs arbitrary: j)
  case (Cons y ys)
  have hd: "P y \<Longrightarrow> M y \<longleftrightarrow> j = 0" and tl: "\<And>k. k < length ys \<Longrightarrow> P (ys ! k) \<Longrightarrow> M (ys ! k) \<longleftrightarrow> Suc k = j"
    using Cons.prems(1) [of 0] Cons.prems(1) [of "Suc _"] by auto
  show ?case
  proof (cases j)
    case 0
    have "filter P ys = map (\<lambda>y. if M y then x else y) (filter P ys)"
      using tl 0 by (intro sym [OF map_idI]) (auto simp: in_set_conv_nth)
    then show ?thesis using 0 hd Cons.prems(2) assms(3) by simp
  next
    case (Suc i)
    then show ?thesis using Cons.IH [of i] tl hd Cons.prems(2) by auto
  qed
qed simp

lemma filter_update_drop:
  assumes "\<And>k. k < length xs \<Longrightarrow> P (xs ! k) \<Longrightarrow> M (xs ! k) \<longleftrightarrow> k = j" and "\<not> P x"
  shows "filter P (xs[j := x]) = filter (\<lambda>y. \<not> M y) (filter P xs)"
  using assms(1)
proof (induction xs arbitrary: j)
  case (Cons y ys)
  have hd: "P y \<Longrightarrow> M y \<longleftrightarrow> j = 0" and tl: "\<And>k. k < length ys \<Longrightarrow> P (ys ! k) \<Longrightarrow> M (ys ! k) \<longleftrightarrow> Suc k = j"
    using Cons.prems(1) [of 0] Cons.prems(1) [of "Suc _"] by auto
  show ?case
  proof (cases j)
    case 0
    have "filter P ys = filter (\<lambda>y. \<not> M y) (filter P ys)"
      using tl 0 by (intro sym [OF filter_True]) (auto simp: in_set_conv_nth)
    then show ?thesis using 0 hd assms(2) by auto
  next
    case (Suc i)
    then show ?thesis using Cons.IH [of i] tl hd by auto
  qed
qed simp

lemma length_filter_update:
  assumes "j < length xs" and "P (xs ! j)" and "\<not> P x"
  shows "Suc (length (filter P (xs[j := x]))) = length (filter P xs)"
proof -
  have "length (filter P xs) = length (filter P (take j xs @ xs ! j # drop (Suc j) xs))"
    using id_take_nth_drop [OF assms(1)] by simp
  then show ?thesis using assms by (simp add: upd_conv_take_nth_drop)
qed

section \<open>Operations under a lawful hash policy\<close>

text \<open>
  What the table expects of a policy: matching is an equivalence, matching keys have one hash code, and
  no key matches the empty one but itself.
\<close>

locale hash_policy =
  fixes ops :: "('t, 'k) Ops"
  assumes match_refl: "match ops k k"
    and match_sym: "match ops k l \<Longrightarrow> match ops l k"
    and match_trans: "match ops k l \<Longrightarrow> match ops l m \<Longrightarrow> match ops k m"
    and match_hash: "match ops k l \<Longrightarrow> hashOf ops k = hashOf ops l"
    and match_isEmpty: "match ops k l \<Longrightarrow> isEmpty ops k = isEmpty ops l"
    and isEmpty_makeEmpty: "isEmpty ops (getKey ops (makeEmpty ops x))"
    and getKey_setKey: "getKey ops (setKey ops x k) = k"
begin

lemma bucketOf_match: "match ops (getKey ops x) (getKey ops y) \<Longrightarrow> bucketOf ops s x = bucketOf ops s y"
  by (simp add: bucketOf_def prepareHash_def match_hash)

lemma lookup_live:
  assumes ok: "tableOk ops t" and l: "\<not> isEmpty ops l"
  obtains (none) "lookup ops t l (prepareHash ops l) = returnM None"
      "\<And>x. x \<in> set (live ops t) \<Longrightarrow> \<not> match ops (getKey ops x) l"
  | (some) j where "lookup ops t l (prepareHash ops l) = returnM (Some j)" "j < dataLength t"
      "full ops (elements t ! j)" "match ops (getKey ops (elements t ! j)) l"
proof -
  let ?b = "bucket (prepareHash ops l) (hashShift t)"
  have sz: "0 < hashShift t" "hashShift t \<le> 31" "length (hashTable t) = 2 ^ (32 - hashShift t)"
    using ok by (simp_all add: tableOk_def sizesOk_def)
  have b: "?b < length (hashTable t)" using bucket_less [OF sz(1,2)] sz(3) by simp
  obtain cs where cs: "chainsAre ops (hashShift t) (hashTable t) (data t) cs"
    using ok by (auto simp: tableOk_def chainsOk_def)
  have ch: "chainIs (data t) (hashTable t ! ?b) (cs ! ?b)" using cs b by (simp add: chainsAre_def)
  have lk: "lookup ops t l (prepareHash ops l) =
      returnM (find (\<lambda>j. match ops (getKey ops (element (data t ! j))) l) (cs ! ?b))"
    using ch b by (rule lookup_eq)
  show ?thesis
  proof (cases "find (\<lambda>j. match ops (getKey ops (element (data t ! j))) l) (cs ! ?b)")
    case None
    have "\<not> match ops (getKey ops x) l" if x: "x \<in> set (live ops t)" for x
    proof
      assume m: "match ops (getKey ops x) l"
      obtain j where j: "j < length (data t)" "x = element (data t ! j)" "full ops x"
        using x by (auto simp: live_def elements_def in_set_conv_nth)
      have "bucketOf ops (hashShift t) x = ?b" using match_hash [OF m] by (simp add: bucketOf_def prepareHash_def)
      then have "j \<in> set (cs ! ?b)" using cs j by (auto simp: chainsAre_def)
      then show False using None m j by (auto simp: find_None_iff)
    qed
    then show ?thesis using lk None by (intro none) auto
  next
    case (Some j)
    then obtain i where i: "i < length (cs ! ?b)" "cs ! ?b ! i = j" "match ops (getKey ops (element (data t ! j))) l"
      by (auto simp: find_Some_iff)
    have j: "j < length (data t)" using chainIs_bounded [OF ch] i by auto
    show ?thesis
    proof (rule some [of j])
      show "full ops (elements t ! j)" using match_isEmpty [OF i(3)] l j by (simp add: full_def elements_def)
    qed (use lk Some i j in \<open>simp_all add: elements_def dataLength_def\<close>)
  qed
qed

text \<open>The key of a live element is found nowhere else.\<close>

lemma matches_only:
  assumes kd: "keysDiffer ops (live ops t)" and j: "j < dataLength t" "full ops (elements t ! j)"
    and m: "match ops (getKey ops (elements t ! j)) l" and k: "k < dataLength t" "full ops (elements t ! k)"
  shows "match ops (getKey ops (elements t ! k)) l \<longleftrightarrow> k = j"
proof -
  have diff: "\<not> match ops (getKey ops (elements t ! a)) (getKey ops (elements t ! b))"
    if ab: "a < b" "b < dataLength t" "full ops (elements t ! a)" "full ops (elements t ! b)" for a b
  proof -
    let ?es = "elements t"
    have "?es = take a ?es @ ?es ! a # drop (Suc a) ?es" using ab by (simp add: id_take_nth_drop)
    then have "live ops t = filter (full ops) (take a ?es) @ ?es ! a # filter (full ops) (drop (Suc a) ?es)"
      using ab(3) unfolding live_def by (metis filter.simps(2) filter_append)
    moreover have "?es ! b \<in> set (drop (Suc a) ?es)"
      using ab nth_mem [of "b - Suc a" "drop (Suc a) ?es"] by simp
    ultimately show ?thesis using kd ab(4) by (auto simp: keysDiffer_def sorted_wrt_append)
  qed
  show ?thesis
  proof
    assume mk: "match ops (getKey ops (elements t ! k)) l"
    then have "match ops (getKey ops (elements t ! k)) (getKey ops (elements t ! j))"
      using m match_sym match_trans by blast
    then show "k = j" using diff [of k j] diff [of j k] j k match_sym by (metis linorder_neqE_nat)
  qed (use m in simp)
qed

end


context hash_policy
begin

lemma full_match: "match ops (getKey ops x) (getKey ops y) \<Longrightarrow> full ops x \<longleftrightarrow> full ops y"
  by (simp add: full_def match_isEmpty)

lemma overwrite_differ:
  assumes "keysDiffer ops xs"
  shows "keysDiffer ops (overwrite ops x xs)"
proof -
  let ?F = "\<lambda>y. if match ops (getKey ops y) (getKey ops x) then x else y"
  have F: "match ops (getKey ops (?F y)) (getKey ops y)" for y using match_refl match_sym by auto
  have "\<not> match ops (getKey ops (?F y)) (getKey ops (?F z))" if "\<not> match ops (getKey ops y) (getKey ops z)" for y z
  proof
    assume "match ops (getKey ops (?F y)) (getKey ops (?F z))"
    then have "match ops (getKey ops y) (getKey ops z)"
      using F [of y] F [of z] match_sym match_trans by blast
    then show False using that by simp
  qed
  then have "sorted_wrt (\<lambda>y z. \<not> match ops (getKey ops (?F y)) (getKey ops (?F z))) xs"
    by (intro sorted_wrt_mono_rel [OF _ assms [unfolded keysDiffer_def]]) blast
  then show ?thesis by (simp only: keysDiffer_def overwrite_def sorted_wrt_map)
qed

lemma putList_differ: "keysDiffer ops xs \<Longrightarrow> keysDiffer ops (putList ops x xs)"
  by (auto simp: putList_def overwrite_differ) (auto simp: keysDiffer_def sorted_wrt_append)

lemma removeList_differ: "keysDiffer ops xs \<Longrightarrow> keysDiffer ops (removeList ops l xs)"
  by (simp add: keysDiffer_def removeList_def sorted_wrt_filter)

text \<open>A live element replaced by one with a matching key.\<close>

lemma replace_element:
  assumes ok: "tableOk ops t" and x: "full ops x" and j: "j < dataLength t" "full ops (elements t ! j)"
    and m: "match ops (getKey ops (elements t ! j)) (getKey ops x)"
  defines "t' \<equiv> t\<lparr>data := (data t)[j := (data t ! j)\<lparr>element := x\<rparr>]\<rparr>"
  shows "tableOk ops t'" and "live ops t' = overwrite ops x (live ops t)" and "rangesMap ops (overwrite ops x) t t'"
proof -
  let ?M = "\<lambda>y. match ops (getKey ops y) (getKey ops x)"
  have kd: "keysDiffer ops (live ops t)" and rs: "rangesOk ops t" using ok by (simp_all add: tableOk_def)
  have el: "elements t' = (elements t)[j := x]" by (simp add: elements_def t'_def map_update)
  have only: "?M (elements t ! k) \<longleftrightarrow> k = j" if "k < dataLength t" "full ops (elements t ! k)" for k
    using matches_only [OF kd j m] that by blast
  have upd: "filter (full ops) (take i ((elements t)[j := x])) = overwrite ops x (filter (full ops) (take i (elements t)))" for i
    unfolding overwrite_def take_update_swap
    by (rule filter_update_keep) (use only j x in auto)
  show lv: "live ops t' = overwrite ops x (live ops t)"
    using upd [of "dataLength t"] by (simp add: live_def el)
  show rm: "rangesMap ops (overwrite ops x) t t'"
    using upd by (simp add: rangesMap_def visited_def el) (simp add: t'_def)
  have fl: "full ops ((elements t)[j := x] ! i) \<longleftrightarrow> full ops (elements t ! i)" if "i < dataLength t" for i
    using that j(2) x by (cases "i = j") simp_all
  have "rangeOk ops (elements t') (rangeAt t' r)" if "r \<in> set (ranges t @ nurseryRanges t)" for r
  proof -
    have "rangeOk ops (elements t) (rangeAt t r)" using rs that by (simp add: rangesOk_def)
    then show ?thesis using fl upd by (simp add: rangeOk_def el) (simp add: t'_def overwrite_def)
  qed
  then have "rangesOk ops t'" using rs by (simp add: rangesOk_def) (simp add: t'_def)
  moreover have "chainsOk ops (hashShift t) (hashTable t) (data t')"
  proof -
    obtain cs where "chainsAre ops (hashShift t) (hashTable t) (data t) cs" using ok by (auto simp: tableOk_def chainsOk_def)
    then have "chainsAre ops (hashShift t) (hashTable t) (data t') cs"
      unfolding t'_def using j m by (simp, intro chainsAre_replace) (auto simp: dataLength_def elements_def bucketOf_match)
    then show ?thesis by (auto simp: chainsOk_def)
  qed
  ultimately show "tableOk ops t'"
    using ok lv kd overwrite_differ by (simp add: tableOk_def) (simp add: t'_def overwrite_def sizesOk_def)
qed

text \<open>A new element appended, with room for it.\<close>

lemma append_element:
  assumes ok: "tableOk ops t" and x: "full ops x" and new: "\<And>y. y \<in> set (live ops t) \<Longrightarrow> \<not> match ops (getKey ops y) (getKey ops x)"
    and room: "dataLength t < dataCapacity t"
  defines "b \<equiv> bucketOf ops (hashShift t) x"
  defines "t' \<equiv> t\<lparr>liveCount := liveCount t + 1, hashTable := (hashTable t)[b := Some (dataLength t)],
    data := data t @ [\<lparr>element = x, chain = hashTable t ! b\<rparr>]\<rparr>"
  shows "b < length (hashTable t)" and "tableOk ops t'" and "live ops t' = putList ops x (live ops t)" and "rangesMap ops (overwrite ops x) t t'"
proof -
  have rs: "rangesOk ops t" and sz: "sizesOk (hashTable t) (data t) (dataCapacity t) (hashShift t)"
    and ch: "chainsOk ops (hashShift t) (hashTable t) (data t)" using ok by (simp_all add: tableOk_def)
  show b: "b < length (hashTable t)" using sz by (simp add: sizesOk_def b_def bucketOf_less)
  have el: "elements t' = elements t @ [x]" by (simp add: elements_def t'_def)
  have upd: "filter (full ops) (take i (elements t @ [x])) = filter (full ops) (take i (elements t))" if "i \<le> dataLength t" for i
    using that by simp
  have ri: "rangeOk ops (elements t) (rangeAt t r)" "rangeI (rangeAt t r) \<le> dataLength t" if "r \<in> set (ranges t @ nurseryRanges t)" for r
    using rs that by (simp_all add: rangesOk_def rangeOk_def)
  have lv: "live ops t' = live ops t @ [x]" using x by (simp add: live_def el)
  show lp: "live ops t' = putList ops x (live ops t)" using new lv by (auto simp: putList_def)
  have vis: "visited ops t' r = visited ops t r" if "r \<in> set (ranges t @ nurseryRanges t)" for r
    using ri [OF that] upd unfolding visited_def el by (simp add: t'_def)
  have "overwrite ops x (visited ops t r) = visited ops t r" for r
    using new visited_rest [of ops t r] by (intro overwrite_other) (metis Un_iff set_append)
  then show "rangesMap ops (overwrite ops x) t t'"
    using vis by (simp add: rangesMap_def) (simp add: t'_def)
  have "rangeOk ops (elements t') (rangeAt t' r)" if "r \<in> set (ranges t @ nurseryRanges t)" for r
    using ri [OF that] x unfolding rangeOk_def el by (auto simp: t'_def nth_append)
  then have "rangesOk ops t'" using rs by (simp add: rangesOk_def) (simp add: t'_def)
  moreover have "chainsOk ops (hashShift t') (hashTable t') (data t')"
    using chainsOk_push [OF ch, of x] b by (simp add: t'_def b_def dataLength_def)
  moreover have "sizesOk (hashTable t') (data t') (dataCapacity t') (hashShift t')"
    using sz room by (simp add: sizesOk_def t'_def dataLength_def)
  ultimately show "tableOk ops t'"
    using ok lv lp putList_differ [of "live ops t" x] by (simp add: tableOk_def) (simp add: t'_def)
qed

end


lemma live_le: "tableOk ops t \<Longrightarrow> liveCount t \<le> dataLength t"
  by (simp add: tableOk_def live_def) (metis length_elements length_filter_le)

lemma grow_shift:
  assumes "4 * n \<ge> 3 * (8 * 2 ^ (32 - s) div 3 :: nat)" and "n < 2 ^ 30" and "s \<le> 31"
  shows "3 \<le> s"
proof (rule ccontr)
  assume "\<not> 3 \<le> s"
  then have "(2::nat) ^ 30 \<le> 2 ^ (32 - s)" by (intro power_increasing) auto
  then show False using assms(1,2) by simp
qed

lemma capacity_grows: "0 < s \<Longrightarrow> s \<le> 31 \<Longrightarrow> 8 * 2 ^ (32 - s) div 3 < (8 * 2 ^ (32 - (s - 1)) div 3 :: nat)"
proof -
  assume "0 < s" "s \<le> 31"
  then have "32 - (s - 1) = Suc (32 - s)" by simp
  then have "(2::nat) ^ (32 - (s - 1)) = 2 * 2 ^ (32 - s)" by simp
  moreover have "2 \<le> (2::nat) ^ (32 - s)" using \<open>s \<le> 31\<close> power_increasing [of 1 "32 - s" "2::nat"] by simp
  ultimately show ?thesis by simp
qed

context hash_policy
begin

lemma append_step:
  assumes "tableOk ops t" and "full ops x" and "\<And>y. y \<in> set (live ops t) \<Longrightarrow> \<not> match ops (getKey ops y) (getKey ops x)"
    and "dataLength t < dataCapacity t"
    and "\<And>t'. tableOk ops t' \<Longrightarrow> live ops t' = putList ops x (live ops t) \<Longrightarrow> rangesMap ops (overwrite ops x) t t' \<Longrightarrow> Q (True, t')"
  shows "runs (let h = bucket (prepareHash ops (getKey ops x)) (hashShift t) in
      bindM (ptrGet (hashTable t) h) (\<lambda>c.
      if dataLength t < dataCapacity t
      then
        bindM (ptrSet (hashTable t) h (Some (dataLength t))) (\<lambda>table.
        returnM (True, t\<lparr>liveCount := liveCount t + 1, hashTable := table,
          data := data t @ [\<lparr>element = x, chain = c\<rparr>]\<rparr>))
      else throwM UndefinedBehavior)) v E Q"
  using append_element [OF assms(1-4)] assms(4) assms(5) by (simp add: bucketOf_def Let_def)

lemma runs_put:
  assumes ok: "tableOk ops t" and x: "full ops x" and small: "length (live ops t) < 2 ^ 30"
    and Q: "\<And>t'. tableOk ops t' \<Longrightarrow> live ops t' = putList ops x (live ops t) \<Longrightarrow> rangesMap ops (overwrite ops x) t t' \<Longrightarrow> Q (True, t')"
      "\<not> (\<forall>k. allocOk v k) \<Longrightarrow> Q (False, t)"
  shows "runs (put ops t x) v E Q"
proof -
  have l: "\<not> isEmpty ops (getKey ops x)" using x by (simp add: full_def)
  have sz: "sizesOk (hashTable t) (data t) (dataCapacity t) (hashShift t)" and lc: "liveCount t = length (live ops t)"
    using ok by (simp_all add: tableOk_def)
  show ?thesis
    using ok l
  proof (cases rule: lookup_live)
    case (some j)
    have m: "\<exists>y \<in> set (live ops t). match ops (getKey ops y) (getKey ops x)"
      using some by (intro bexI [of _ "elements t ! j"]) (auto simp: live_def)
    show ?thesis
      unfolding put_def Let_def some(1) using replace_element [OF ok x some(2-4)] some(2) m Q(1)
      by (simp add: dataLength_def putList_def)
  next
    case none
    have new: "\<And>y. y \<in> set (live ops t) \<Longrightarrow> \<not> match ops (getKey ops y) (getKey ops x)" by (rule none(2))
    show ?thesis
    proof (cases "dataLength t = dataCapacity t")
      case False
      then have "dataLength t < dataCapacity t" using sz by (simp add: sizesOk_def dataLength_def)
      with ok x new have "runs (let h = bucket (prepareHash ops (getKey ops x)) (hashShift t) in
          bindM (ptrGet (hashTable t) h) (\<lambda>c.
          if dataLength t < dataCapacity t
          then
            bindM (ptrSet (hashTable t) h (Some (dataLength t))) (\<lambda>table.
            returnM (True, t\<lparr>liveCount := liveCount t + 1, hashTable := table,
              data := data t @ [\<lparr>element = x, chain = c\<rparr>]\<rparr>))
          else throwM UndefinedBehavior)) v E Q" by (rule append_step) (use Q(1) in auto)
      then show ?thesis unfolding put_def Let_def none(1) by (simp add: False)
    next
      case True
      let ?s = "if 4 * liveCount t \<ge> 3 * dataCapacity t then hashShift t - 1 else hashShift t"
      have s: "0 < hashShift t" "hashShift t \<le> 31" "dataCapacity t = 8 * 2 ^ (32 - hashShift t) div 3" using sz by (auto simp: sizesOk_def)
      have s2: "?s = hashShift t \<or> 2 \<le> ?s" "?s \<le> 31"
        using s grow_shift [of "hashShift t" "liveCount t"] small lc by auto
      have fits: "liveCount t < 8 * 2 ^ (32 - ?s) div 3"
        using s capacity_grows [OF s(1,2)] live_le [OF ok] True by auto
      have "runs (rehash ops ?s t) v E (\<lambda>st. runs (case st of (ok, t) \<Rightarrow>
          if \<not> ok then returnM (False, t)
          else
            let h = bucket (prepareHash ops (getKey ops x)) (hashShift t) in
            bindM (ptrGet (hashTable t) h) (\<lambda>c.
            if dataLength t < dataCapacity t
            then
              bindM (ptrSet (hashTable t) h (Some (dataLength t))) (\<lambda>table.
              returnM (True, t\<lparr>liveCount := liveCount t + 1, hashTable := table,
                data := data t @ [\<lparr>element = x, chain = c\<rparr>]\<rparr>))
            else throwM UndefinedBehavior)) v E Q)"
      proof (rule runs_rehash [OF ok s2], goal_cases)
        case (2 t')
        have t': "tableOk ops t'" "live ops t' = live ops t" "rangesMap ops (\<lambda>xs. xs) t t'" "dataLength t' < dataCapacity t'"
          using 2 fits by (simp_all add: compactedTo_def)
        show ?case
          unfolding prod.case
          by (simp only: not_True_eq_False if_False, rule append_step [OF t'(1) x _ t'(4)])
            (use t' new rangesMap_trans [OF t'(3)] Q(1) in auto)
      qed (use fits Q(2) in auto)
      then show ?thesis unfolding put_def Let_def none(1) using True by (simp add: runs_bindI)
    qed
  qed
qed

end


context hash_policy
begin

lemma onRemove_eq:
  assumes "valid r" and "rangeI r \<le> dataLength t"
  shows "onRemove ops t j r = returnM (let r = (if j < rangeI r then r\<lparr>rangeCount := rangeCount r - 1\<rparr> else r) in
    if j = rangeI r then r\<lparr>rangeI := nextFull ops (elements t) (rangeI r)\<rparr> else r)"
  using assms by (simp add: onRemove_def seek_eq Let_def)

text \<open>An element emptied, before the table is shrunk.\<close>

lemma empty_element:
  assumes ok: "tableOk ops t" and j: "j < dataLength t" "full ops (elements t ! j)"
    and m: "match ops (getKey ops (elements t ! j)) l"
  defines "t1 \<equiv> t\<lparr>liveCount := liveCount t - 1, data := (data t)[j := (data t ! j)\<lparr>element := makeEmpty ops (element (data t ! j))\<rparr>]\<rparr>"
  shows "\<exists>t'. forEachRange (onRemove ops t1 j) t1 = returnM t' \<and> tableOk ops t' \<and>
    live ops t' = removeList ops l (live ops t) \<and> rangesMap ops (removeList ops l) t t' \<and>
    dataLength t' = dataLength t \<and> hashShift t' = hashShift t"
proof -
  let ?M = "\<lambda>y. match ops (getKey ops y) l" and ?x = "makeEmpty ops (element (data t ! j))"
  let ?rs = "set (ranges t @ nurseryRanges t)"
  have kd: "keysDiffer ops (live ops t)" and rs: "rangesOk ops t" and lc: "liveCount t = length (live ops t)"
    using ok by (simp_all add: tableOk_def)
  have el1: "elements t1 = (elements t)[j := ?x]" by (simp add: elements_def t1_def map_update)
  have dl: "dataLength t1 = dataLength t" by (simp add: dataLength_def t1_def)
  have ex: "\<not> full ops ?x" by (simp add: full_def isEmpty_makeEmpty)
  have only: "?M (elements t ! k) \<longleftrightarrow> k = j" if "k < dataLength t" "full ops (elements t ! k)" for k
    using matches_only [OF kd j m] that by blast
  have upd: "filter (full ops) (take i (elements t1)) = removeList ops l (filter (full ops) (take i (elements t)))" for i
    unfolding removeList_def el1 take_update_swap by (rule filter_update_drop) (use only ex in auto)
  have ri: "valid (rangeAt t r)" "rangeI (rangeAt t r) \<le> dataLength t" "rangeOk ops (elements t) (rangeAt t r)" if "r \<in> ?rs" for r
    using rs that by (simp_all add: rangesOk_def rangeOk_def)
  let ?g = "\<lambda>r. let r = (if j < rangeI r then r\<lparr>rangeCount := rangeCount r - 1\<rparr> else r) in
    if j = rangeI r then r\<lparr>rangeI := nextFull ops (elements t1) (rangeI r)\<rparr> else r"
  define t' where "t' = t1\<lparr>rangeAt := (\<lambda>r. if r \<in> ?rs then ?g (rangeAt t r) else rangeAt t r)\<rparr>"
  have each: "forEachRange (onRemove ops t1 j) t1 = returnM t'"
  proof -
    have same: "ranges t1 = ranges t" "nurseryRanges t1 = nurseryRanges t" "rangeAt t1 = rangeAt t" by (simp_all add: t1_def)
    have "onRemove ops t1 j (rangeAt t1 r) = returnM (?g (rangeAt t1 r))" if "r \<in> set (ranges t1 @ nurseryRanges t1)" for r
      using ri that dl by (intro onRemove_eq) (simp_all add: same)
    moreover have "distinct (ranges t1 @ nurseryRanges t1)" using rs by (simp add: rangesOk_def same)
    ultimately show ?thesis unfolding t'_def same [symmetric] by (intro forEachRange_eq)
  qed
  have el: "elements t' = elements t1" by (simp add: elements_def t'_def)
  have lv: "live ops t' = removeList ops l (live ops t)"
    using upd [of "dataLength t"] dl by (simp add: live_def el)
  have at: "rangeAt t' r = ?g (rangeAt t r)" if "r \<in> ?rs" for r using that by (simp add: t'_def)
  have tk: "filter (full ops) (take (rangeI (rangeAt t' r)) (elements t1)) = filter (full ops) (take (rangeI (rangeAt t r)) (elements t1))"
    if "r \<in> ?rs" for r
    using ri [OF that] filter_take_nextFull [of "rangeI (rangeAt t r)" "elements t1" ops] dl by (auto simp: at [OF that] Let_def)
  have vis: "visited ops t' r = removeList ops l (visited ops t r)" if "r \<in> ?rs" for r
    using tk [OF that] upd by (simp add: visited_def el)
  have fl: "full ops ((elements t)[j := ?x] ! i) \<longleftrightarrow> full ops (elements t ! i)" if "i \<noteq> j" for i
    using that by simp
  have cnt: "rangeCount (rangeAt t' r) = length (filter (full ops) (take (rangeI (rangeAt t r)) (elements t1)))" if "r \<in> ?rs" for r
  proof (cases "j < rangeI (rangeAt t r)")
    case True
    have "Suc (length (filter (full ops) ((take (rangeI (rangeAt t r)) (elements t))[j := ?x]))) =
        length (filter (full ops) (take (rangeI (rangeAt t r)) (elements t)))"
      by (rule length_filter_update) (use True j ex ri [OF that] in auto)
    then show ?thesis
      using True ri(3) [OF that] by (simp add: at [OF that] Let_def rangeOk_def el1 take_update_swap)
  next
    case False
    then have "take (rangeI (rangeAt t r)) (elements t1) = take (rangeI (rangeAt t r)) (elements t)"
      unfolding el1 take_update_swap by (intro list_update_beyond) auto
    then show ?thesis
      using False ri(3) [OF that] by (simp add: at [OF that] Let_def rangeOk_def)
  qed
  have "rangeOk ops (elements t') (rangeAt t' r)" if "r \<in> ?rs" for r
  proof -
    have "valid (rangeAt t' r)" using ri(1) [OF that] by (simp add: at [OF that] Let_def)
    moreover have "rangeI (rangeAt t' r) \<le> dataLength t \<and>
        (rangeI (rangeAt t' r) < dataLength t \<longrightarrow> full ops (elements t1 ! rangeI (rangeAt t' r)))"
    proof (cases "j = rangeI (rangeAt t r)")
      case True
      then have "rangeI (rangeAt t' r) = nextFull ops (elements t1) (rangeI (rangeAt t r))" by (simp add: at [OF that] Let_def)
      then show ?thesis using nextFull_le [of _ "elements t1"] nextFull_full [of ops "elements t1"] ri(2) [OF that] dl by simp
    next
      case False
      then have "rangeI (rangeAt t' r) = rangeI (rangeAt t r)" by (simp add: at [OF that] Let_def)
      then show ?thesis using False ri [OF that] fl by (simp add: rangeOk_def el1)
    qed
    ultimately show ?thesis using cnt [OF that] tk [OF that] by (simp add: rangeOk_def el dl)
  qed
  then have "rangesOk ops t'" using rs by (simp add: rangesOk_def) (simp add: t'_def t1_def)
  moreover have "chainsOk ops (hashShift t) (hashTable t) (data t')"
  proof -
    obtain cs where "chainsAre ops (hashShift t) (hashTable t) (data t) cs" using ok by (auto simp: tableOk_def chainsOk_def)
    then have "chainsAre ops (hashShift t) (hashTable t) (data t') cs"
      unfolding t'_def t1_def using j ex by (simp, intro chainsAre_replace) (auto simp: dataLength_def)
    then show ?thesis by (auto simp: chainsOk_def)
  qed
  moreover have "liveCount t' = length (live ops t')"
  proof -
    have "Suc (length (filter (full ops) (elements t1))) = length (live ops t)"
      unfolding el1 live_def by (rule length_filter_update) (use j ex in auto)
    then show ?thesis using lc by (simp add: live_def [of _ t'] el) (simp add: t'_def t1_def)
  qed
  ultimately have "tableOk ops t'"
    using ok lv removeList_differ [OF kd] by (simp add: tableOk_def) (simp add: t'_def t1_def sizesOk_def)
  moreover have "rangesMap ops (removeList ops l) t t'"
    using vis by (simp add: rangesMap_def) (simp add: t'_def t1_def)
  moreover have "dataLength t' = dataLength t" "hashShift t' = hashShift t" by (simp_all add: t'_def t1_def dataLength_def)
  ultimately show ?thesis using each lv by blast
qed

text \<open>A table that shrinks has room for what is left.\<close>

lemma shrink_fits:
  assumes "4 * n < m" and "m \<le> 8 * 2 ^ (32 - s) div 3" and "s \<le> 30"
  shows "n \<le> 8 * 2 ^ (32 - (s + 1)) div (3 :: nat)"
proof -
  have "32 - s = Suc (32 - (s + 1))" using assms(3) by simp
  then have "(2::nat) ^ (32 - s) = 2 * 2 ^ (32 - (s + 1))" by simp
  then show ?thesis using assms(1,2) by simp
qed

lemma runs_remove:
  assumes ok: "tableOk ops t" and l: "\<not> isEmpty ops l"
    and Q: "\<And>ok t'. tableOk ops t' \<Longrightarrow> live ops t' = removeList ops l (live ops t) \<Longrightarrow> rangesMap ops (removeList ops l) t t' \<Longrightarrow>
      ok \<or> \<not> (\<forall>k. allocOk v k) \<Longrightarrow> Q (ok, \<exists>x \<in> set (live ops t). match ops (getKey ops x) l, t')"
  shows "runs (remove ops t l) v E Q"
  using ok l
proof (cases rule: lookup_live)
  case none
  then have "removeList ops l xs = xs" if "set xs \<subseteq> set (live ops t)" for xs
    unfolding removeList_def using that by (intro filter_True) auto
  moreover have "set (visited ops t r) \<subseteq> set (live ops t)" for r using visited_rest [of ops t r] by (metis Un_upper1 set_append)
  ultimately have "rangesMap ops (removeList ops l) t t" "removeList ops l (live ops t) = live ops t" by (auto simp: rangesMap_def)
  then show ?thesis unfolding remove_def none(1) using Q [of t True] ok none(2) by fastforce
next
  case (some j)
  have m: "\<exists>x \<in> set (live ops t). match ops (getKey ops x) l"
    using some by (intro bexI [of _ "elements t ! j"]) (auto simp: live_def)
  from empty_element [OF ok some(2-4)] obtain t' where t': "tableOk ops t'" "live ops t' = removeList ops l (live ops t)"
    "rangesMap ops (removeList ops l) t t'"
    "forEachRange (onRemove ops (t\<lparr>liveCount := liveCount t - 1, data := (data t)[j := (data t ! j)\<lparr>element := makeEmpty ops (element (data t ! j))\<rparr>]\<rparr>) j)
      (t\<lparr>liveCount := liveCount t - 1, data := (data t)[j := (data t ! j)\<lparr>element := makeEmpty ops (element (data t ! j))\<rparr>]\<rparr>) = returnM t'"
    by blast
  have fin: "runs (if hashBuckets t' > initialBuckets \<and> 4 * liveCount t' < dataLength t'
        then bindM (rehash ops (hashShift t' + 1) t') (\<lambda>(ok, t). returnM (ok, True, t))
        else returnM (True, True, t')) v E Q"
  proof (cases "hashBuckets t' > initialBuckets \<and> 4 * liveCount t' < dataLength t'")
    case True
    have sz: "sizesOk (hashTable t') (data t') (dataCapacity t') (hashShift t')" using t'(1) by (simp add: tableOk_def)
    have s: "hashShift t' \<le> 30"
    proof (rule ccontr)
      assume "\<not> hashShift t' \<le> 30"
      then have "hashShift t' = 31" using sz by (simp add: sizesOk_def)
      then show False using True by (simp add: hashBuckets_eq initialBuckets_def initialBucketsLog2_def)
    qed
    have "dataLength t' \<le> 8 * 2 ^ (32 - hashShift t') div 3" using sz by (auto simp: sizesOk_def dataLength_def)
    with True s have fits: "liveCount t' \<le> 8 * 2 ^ (32 - (hashShift t' + 1)) div 3"
      by (intro shrink_fits [of _ "dataLength t'"]) auto
    have "runs (rehash ops (hashShift t' + 1) t') v E (\<lambda>st. runs (case st of (ok, t) \<Rightarrow> returnM (ok, True, t)) v E Q)"
    proof (rule runs_rehash [OF t'(1) _ _ fits], goal_cases)
      case (3 t'')
      then have "tableOk ops t''" "live ops t'' = removeList ops l (live ops t)" "rangesMap ops (removeList ops l) t t''"
        using t' rangesMap_trans [OF t'(3), of "\<lambda>xs. xs"] by (simp_all add: compactedTo_def)
      then show ?case using Q [of t'' True] m by simp
    qed (use s sz Q [OF t'(1-3), of False] m in \<open>auto simp: sizesOk_def\<close>)
    then show ?thesis using True by (simp add: runs_bindI)
  next
    case False
    then show ?thesis using Q [OF t'(1-3), of True] m by auto
  qed
  show ?thesis
    unfolding remove_def some(1) using some(2) fin t'(4) by (simp add: dataLength_def)
qed

end


section \<open>Creation, clearing and ranges\<close>

text \<open>The table \<open>init\<close> makes, whose ranges are not yet corrected.\<close>

definition fresh :: "'t OrderedHashTable \<Rightarrow> 't OrderedHashTable" where
  "fresh t = t\<lparr>hashTable := [None, None], data := [], dataCapacity := 5, liveCount := 0, hashShift := 31\<rparr>"

lemma runs_init:
  assumes "hashTable t = []" and "Q (True, fresh t)" and "\<not> (\<forall>k. allocOk v k) \<Longrightarrow> Q (False, t)"
  shows "runs (init t) v E Q"
proof -
  have cap: "capacityFor initialBuckets = returnM 5"
    by (simp add: capacityFor_def initialBuckets_def initialBucketsLog2_def)
  have fr: "t\<lparr>hashTable := replicate initialBuckets None, data := [], dataCapacity := 5, liveCount := 0,
      hashShift := kHashNumberBits - initialBucketsLog2\<rparr> = fresh t"
    by (simp add: fresh_def initialBuckets_def initialBucketsLog2_def kHashNumberBits_def numeral_2_eq_2)
  have hb: "hashBuckets (fresh t) = initialBuckets"
    by (simp add: hashBuckets_eq fresh_def initialBuckets_def initialBucketsLog2_def)
  have fail: "runs (returnM (False, t)) v E Q" if "ok \<or> \<not> (\<forall>k. allocOk v k)" "\<not> ok" for ok
    using assms(3) that by simp
  show ?thesis
    unfolding init_def Let_def cap bindM_returnM fr hb
    by (intro runs_mozAssert runs_bindI runs_tryAlloc runs_if, rule assms(1), (erule (1) fail)+) (use assms(2) in simp_all)
qed

lemma fresh_sel [simp]:
  "hashTable (fresh t) = [None, None]" "data (fresh t) = []" "dataCapacity (fresh t) = 5" "liveCount (fresh t) = 0"
  "hashShift (fresh t) = 31" "ranges (fresh t) = ranges t" "nurseryRanges (fresh t) = nurseryRanges t"
  "rangeAt (fresh t) = rangeAt t" "elements (fresh t) = []" "live ops (fresh t) = []"
  by (simp_all add: fresh_def elements_def live_def)

lemma fresh_parts: "sizesOk [None, None] [] 5 31" "chainsOk ops s [None, None] []"
  using chainsOk_empty [of ops s 2] by (simp_all add: sizesOk_def numeral_2_eq_2)

lemma tableOk_fresh: "ranges t = [] \<Longrightarrow> nurseryRanges t = [] \<Longrightarrow> tableOk ops (fresh t)"
  by (simp add: tableOk_def fresh_parts rangesOk_def keysDiffer_def)

lemma runs_init_new:
  assumes "tableOk ops (fresh newTable) \<Longrightarrow> live ops (fresh newTable) = [] \<Longrightarrow> Q (True, fresh newTable)"
    and "\<not> (\<forall>k. allocOk v k) \<Longrightarrow> Q (False, newTable)"
  shows "runs (init newTable) v E Q"
  by (rule runs_init) (use assms tableOk_fresh [of newTable ops] in \<open>simp_all add: newTable_def\<close>)

lemma runs_clear:
  assumes ok: "tableOk ops t"
    and Q: "\<And>t'. tableOk ops t' \<Longrightarrow> live ops t' = [] \<Longrightarrow> rangesMap ops (\<lambda>xs. []) t t' \<Longrightarrow> Q (True, t')"
      "\<not> (\<forall>k. allocOk v k) \<Longrightarrow> Q (False, t)"
  shows "runs (clear t) v E Q"
proof -
  have sz: "sizesOk (hashTable t) (data t) (dataCapacity t) (hashShift t)" and rs: "rangesOk ops t"
    and lc: "liveCount t = length (live ops t)" using ok by (simp_all add: tableOk_def)
  show ?thesis
  proof (cases "dataLength t = 0")
    case True
    then have e: "elements t = []" by (simp flip: length_elements)
    then have "rangesMap ops (\<lambda>xs. []) t t" "live ops t = []" by (simp_all add: rangesMap_def visited_def live_def)
    moreover have "hashTable t \<noteq> []" using sz by (auto simp: sizesOk_def)
    ultimately show ?thesis using True Q(1) [OF ok] lc by (simp add: clear_def)
  next
    case False
    let ?t = "t\<lparr>hashTable := []\<rparr>" and ?rs = "set (ranges t @ nurseryRanges t)"
    define t' where "t' = (fresh t)\<lparr>rangeAt := (\<lambda>r. if r \<in> ?rs then (rangeAt t r)\<lparr>rangeI := 0, rangeCount := 0\<rparr> else rangeAt t r)\<rparr>"
    have fr: "fresh ?t = fresh t" by (simp add: fresh_def)
    have each: "forEachRange onClear (fresh ?t) = returnM t'"
      using forEachRange_eq [of "fresh t" onClear "\<lambda>x. x\<lparr>rangeI := 0, rangeCount := 0\<rparr>"] rs rangesOk_valid [OF rs]
      by (auto simp: fr t'_def rangesOk_def onClear_def cong: if_cong)
    have el: "elements t' = []" by (simp add: t'_def)
    have "rangesOk ops t'"
      using rs rangesOk_valid [OF rs] by (simp add: rangesOk_def rangeOk_def el) (auto simp: t'_def)
    then have t': "tableOk ops t'"
      unfolding tableOk_def using el by (simp add: live_def keysDiffer_def) (simp add: t'_def fresh_parts)
    have dl: "dataLength t' = 0" "liveCount t' = 0" "hashTable t' \<noteq> []" by (simp_all add: dataLength_def t'_def)
    have rm: "rangesMap ops (\<lambda>xs. []) t t'" by (simp add: rangesMap_def visited_def el) (simp add: t'_def)
    have "runs (init ?t) v E (\<lambda>st. runs (bindM (case st of (ok, t') \<Rightarrow>
          if \<not> ok then returnM (False, t'\<lparr>hashTable := hashTable t\<rparr>)
          else bindM (forEachRange onClear t') (\<lambda>t'. returnM (True, t')))
        (\<lambda>(ok, t). if \<not> ok then returnM (False, t)
          else mozAssert (hashTable t \<noteq> []) (mozAssert (dataLength t = 0) (mozAssert (liveCount t = 0) (returnM (True, t)))))) v E Q)"
    proof (rule runs_init, goal_cases)
      case 2
      then show ?case using each dl Q(1) [OF t' _ rm] el by (simp add: live_def)
    qed (use Q(2) in simp_all)
    then show ?thesis using False by (simp add: clear_def bindM_assoc runs_bindI)
  qed
qed

text \<open>A new range has visited nothing; the other ranges stay where they are.\<close>

lemma createRange_eq: "createRange ops r inNursery t = returnM (
    if inNursery then t\<lparr>nurseryRanges := r # nurseryRanges t,
      rangeAt := (rangeAt t)(r := \<lparr>rangeI = nextFull ops (elements t) 0, rangeCount = 0, valid = True\<rparr>)\<rparr>
    else t\<lparr>ranges := r # ranges t,
      rangeAt := (rangeAt t)(r := \<lparr>rangeI = nextFull ops (elements t) 0, rangeCount = 0, valid = True\<rparr>)\<rparr>)"
  by (simp add: createRange_def seek_eq)

lemma rangesOk_other:
  assumes "rangesOk ops t" and "elements t' = elements t"
    and "distinct (ranges t' @ nurseryRanges t')"
    and "\<And>r. r \<in> set (ranges t' @ nurseryRanges t') \<Longrightarrow>
      r \<in> set (ranges t @ nurseryRanges t) \<and> rangeAt t' r = rangeAt t r \<or> rangeOk ops (elements t) (rangeAt t' r)"
  shows "rangesOk ops t'"
  unfolding rangesOk_def assms(2)
proof (intro conjI ballI)
  fix r
  assume "r \<in> set (ranges t' @ nurseryRanges t')"
  then show "rangeOk ops (elements t) (rangeAt t' r)" using assms(4) [of r] assms(1) by (auto simp: rangesOk_def)
qed (use assms(3) in simp)

lemma tableOk_other:
  assumes "tableOk ops t" and "rangesOk ops t'" and "hashTable t' = hashTable t" and "data t' = data t"
    and "dataCapacity t' = dataCapacity t" and "liveCount t' = liveCount t" and "hashShift t' = hashShift t"
  shows "tableOk ops t'" and "live ops t' = live ops t"
  using assms by (simp_all add: tableOk_def live_def elements_def)

definition addedRange :: "('t, 'k) Ops \<Rightarrow> nat \<Rightarrow> 't list \<Rightarrow> 't OrderedHashTable \<Rightarrow> 't OrderedHashTable \<Rightarrow> bool" where
  "addedRange ops r xs t t' \<longleftrightarrow>
     tableOk ops t' \<and> live ops t' = live ops t \<and>
     set (ranges t' @ nurseryRanges t') = insert r (set (ranges t @ nurseryRanges t)) \<and> visited ops t' r = xs \<and>
     (\<forall>r' \<in> set (ranges t @ nurseryRanges t). visited ops t' r' = visited ops t r')"

lemma createRange_ok:
  assumes ok: "tableOk ops t" and r: "r \<notin> set (ranges t @ nurseryRanges t)"
  shows "\<exists>t'. createRange ops r inNursery t = returnM t' \<and> addedRange ops r [] t t'"
proof -
  let ?x = "\<lparr>rangeI = nextFull ops (elements t) 0, rangeCount = 0, valid = True\<rparr>"
  define t' where "t' = (if inNursery then t\<lparr>nurseryRanges := r # nurseryRanges t, rangeAt := (rangeAt t)(r := ?x)\<rparr>
    else t\<lparr>ranges := r # ranges t, rangeAt := (rangeAt t)(r := ?x)\<rparr>)"
  have same: "hashTable t' = hashTable t" "data t' = data t" "dataCapacity t' = dataCapacity t" "liveCount t' = liveCount t"
      "hashShift t' = hashShift t" "elements t' = elements t" "rangeAt t' = (rangeAt t)(r := ?x)"
      "set (ranges t' @ nurseryRanges t') = insert r (set (ranges t @ nurseryRanges t))"
    by (auto simp: t'_def elements_def)
  have rs: "rangesOk ops t" using ok by (simp add: tableOk_def)
  have new: "rangeOk ops (elements t) ?x"
    using seek_rangeOk [of "\<lparr>rangeI = 0, rangeCount = 0, valid = True\<rparr>" "elements t" ops] by simp
  have "rangesOk ops t'"
    using rs by (rule rangesOk_other) (use same r new rs in \<open>auto simp: t'_def rangesOk_def\<close>)
  moreover have "visited ops t' r = []"
    using filter_take_nextFull [of 0 "elements t" ops] by (simp add: visited_def same)
  moreover have "visited ops t' r' = visited ops t r'" if "r' \<in> set (ranges t @ nurseryRanges t)" for r'
    using that r by (auto simp: visited_def same)
  ultimately have "addedRange ops r [] t t'"
    using tableOk_other [OF ok _ same(1-5)] same(8) by (simp add: addedRange_def)
  then show ?thesis by (intro exI [of _ t']) (simp add: createRange_eq t'_def)
qed

lemma copyRange_ok:
  assumes ok: "tableOk ops t" and r: "r \<notin> set (ranges t @ nurseryRanges t)" and other: "other \<in> set (ranges t @ nurseryRanges t)"
  shows "addedRange ops r (visited ops t other) t (copyRange other r t)"
proof -
  let ?t' = "copyRange other r t" and ?x = "\<lparr>rangeI = rangeI (rangeAt t other), rangeCount = rangeCount (rangeAt t other), valid = True\<rparr>"
  have rs: "rangesOk ops t" using ok by (simp add: tableOk_def)
  have new: "rangeOk ops (elements t) ?x" using rs other by (simp add: rangesOk_def rangeOk_def)
  have el: "elements ?t' = elements t" by (simp add: copyRange_def elements_def)
  have "rangesOk ops ?t'"
    using rs by (rule rangesOk_other) (use el r new rs in \<open>auto simp: copyRange_def rangesOk_def\<close>)
  moreover have "visited ops ?t' r = visited ops t other" by (simp add: visited_def el) (simp add: copyRange_def)
  moreover have "visited ops ?t' r' = visited ops t r'" if "r' \<in> set (ranges t @ nurseryRanges t)" for r'
    using that r by (auto simp: visited_def el) (auto simp: copyRange_def)
  ultimately show ?thesis
    using tableOk_other [OF ok, of ?t'] by (simp add: addedRange_def) (simp add: copyRange_def)
qed

text \<open>Destroying ranges leaves the table and the other ranges alone.\<close>

lemma fewer_ranges:
  assumes ok: "tableOk ops t" and sub: "set xs \<subseteq> set (ranges t)" "set ys \<subseteq> set (nurseryRanges t)" "distinct xs" "distinct ys"
  shows "tableOk ops (t\<lparr>ranges := xs, nurseryRanges := ys\<rparr>)" and "live ops (t\<lparr>ranges := xs, nurseryRanges := ys\<rparr>) = live ops t"
    and "visited ops (t\<lparr>ranges := xs, nurseryRanges := ys\<rparr>) r = visited ops t r"
proof -
  have rs: "rangesOk ops t" using ok by (simp add: tableOk_def)
  then have "rangesOk ops (t\<lparr>ranges := xs, nurseryRanges := ys\<rparr>)"
    by (rule rangesOk_other) (use sub rs in \<open>auto simp: elements_def rangesOk_def\<close>)
  then show "tableOk ops (t\<lparr>ranges := xs, nurseryRanges := ys\<rparr>)" "live ops (t\<lparr>ranges := xs, nurseryRanges := ys\<rparr>) = live ops t"
    by (intro tableOk_other [OF ok]; simp)+
qed (simp add: visited_def elements_def)

text \<open>What a range shows, and how it moves on.\<close>

lemma rest_Nil:
  assumes "rangeOk ops (elements t) (rangeAt t r)"
  shows "rest ops t r = [] \<longleftrightarrow> dataLength t \<le> rangeI (rangeAt t r)"
proof
  assume "rest ops t r = []"
  then show "dataLength t \<le> rangeI (rangeAt t r)"
    using assms by (cases "rangeI (rangeAt t r) < dataLength t") (auto simp: rest_def rangeOk_def simp flip: Cons_nth_drop_Suc)
qed (simp add: rest_def)

lemma rangeEmpty_eq:
  assumes "tableOk ops t" and "r \<in> set (ranges t @ nurseryRanges t)"
  shows "rangeEmpty t r = returnM (rest ops t r = [])"
  using assms rest_Nil [of ops t r] by (auto simp: rangeEmpty_def tableOk_def rangesOk_def rangeOk_def)

lemma front_eq:
  assumes "tableOk ops t" and "r \<in> set (ranges t @ nurseryRanges t)" and "rest ops t r = x # xs"
  shows "front t r = returnM x"
proof -
  have ok: "rangeOk ops (elements t) (rangeAt t r)" using assms by (simp add: tableOk_def rangesOk_def)
  then have i: "rangeI (rangeAt t r) < dataLength t" using rest_Nil [OF ok] assms(3) by simp
  then have "rest ops t r = elements t ! rangeI (rangeAt t r) # filter (full ops) (drop (Suc (rangeI (rangeAt t r))) (elements t))"
    using ok by (simp add: rest_def rangeOk_def flip: Cons_nth_drop_Suc)
  then show ?thesis
    using i assms by (simp add: front_def rangeEmpty_eq) (simp add: elements_def dataLength_def)
qed

lemma popFront_ok:
  assumes ok: "tableOk ops t" and r: "r \<in> set (ranges t @ nurseryRanges t)" and x: "rest ops t r = x # xs"
  shows "\<exists>t'. popFront ops t r = returnM t' \<and> tableOk ops t' \<and> live ops t' = live ops t \<and>
    ranges t' = ranges t \<and> nurseryRanges t' = nurseryRanges t \<and>
    (\<forall>r' \<in> set (ranges t @ nurseryRanges t). visited ops t' r' = (if r' = r then visited ops t r @ [x] else visited ops t r'))"
proof -
  let ?i = "rangeI (rangeAt t r)"
  have rs: "rangesOk ops t" using ok by (simp add: tableOk_def)
  have rok: "rangeOk ops (elements t) (rangeAt t r)" using rs r by (simp add: rangesOk_def)
  have i: "?i < dataLength t" using rest_Nil [OF rok] x by simp
  have f: "full ops (elements t ! ?i)" using rok i by (simp add: rangeOk_def)
  have hd: "elements t ! ?i = x" using x i f by (simp add: rest_def flip: Cons_nth_drop_Suc)
  let ?y = "(rangeAt t r)\<lparr>rangeCount := rangeCount (rangeAt t r) + 1, rangeI := ?i + 1\<rparr>"
  let ?x = "?y\<lparr>rangeI := nextFull ops (elements t) (rangeI ?y)\<rparr>"
  define t' where "t' = t\<lparr>rangeAt := (rangeAt t)(r := ?x)\<rparr>"
  have pop: "popFront ops t r = returnM t'"
    using i f x by (simp add: popFront_def rangeEmpty_eq [OF ok r] emptyAt_full seek_eq t'_def Let_def)
  have el: "elements t' = elements t" by (simp add: t'_def elements_def)
  have tk: "filter (full ops) (take (Suc ?i) (elements t)) = filter (full ops) (take ?i (elements t)) @ [x]"
    using i f hd by (simp add: filter_take_Suc)
  have "rangeOk ops (elements t) ?x"
    by (rule seek_rangeOk) (use rok i tk in \<open>simp_all add: rangeOk_def\<close>)
  then have "rangesOk ops t'"
    using rs by (intro rangesOk_other [OF rs]) (auto simp: el t'_def rangesOk_def)
  moreover have "visited ops t' r = visited ops t r @ [x]"
    using filter_take_nextFull [of "Suc ?i" "elements t" ops] i tk by (simp add: visited_def el) (simp add: t'_def)
  moreover have "visited ops t' r' = visited ops t r'" if "r' \<noteq> r" for r'
    using that by (simp add: visited_def el) (simp add: t'_def)
  ultimately show ?thesis
    using pop tableOk_other [OF ok, of t'] by (intro exI [of _ t']) (auto simp: t'_def)
qed


end
