(* ===== verification/OrderedHashTable_Refine.thy ===== *)
theory OrderedHashTable_Refine
  imports OrderedHashTable_Ops
begin

text \<open>
  The specification of \<open>Map\<close> and \<open>Set\<close> in ECMAScript: a list of entries that only grows, in which a
  deleted entry becomes empty and keeps its place, and iterators that are positions in that list.  The
  table, which compacts and resizes its entries under its ranges, simulates it.
\<close>

section \<open>Lists with holes\<close>

primrec present :: "'t option list \<Rightarrow> 't list" where
  "present [] = []"
| "present (e # es) = (case e of None \<Rightarrow> present es | Some x \<Rightarrow> x # present es)"

lemma present_append [simp]: "present (xs @ ys) = present xs @ present ys"
  by (induction xs) (auto split: option.splits)

lemma present_map: "present (map (map_option f) es) = map f (present es)"
  by (induction es) (auto split: option.splits)

lemma present_none [simp]: "present (map (\<lambda>e. None) es) = []"
  by (induction es) auto

lemma present_replicate [simp]: "present (replicate n None) = []"
  by (induction n) auto

definition holePut :: "('t, 'k) Ops \<Rightarrow> 't \<Rightarrow> 't option list \<Rightarrow> 't option list" where
  "holePut ops x es =
     (if \<exists>y \<in> set (present es). match ops (getKey ops y) (getKey ops x)
      then map (map_option (\<lambda>y. if match ops (getKey ops y) (getKey ops x) then x else y)) es
      else es @ [Some x])"

definition holeRemove :: "('t, 'k) Ops \<Rightarrow> 'k \<Rightarrow> 't option list \<Rightarrow> 't option list" where
  "holeRemove ops l es =
     map (\<lambda>e. case e of None \<Rightarrow> None | Some y \<Rightarrow> if match ops (getKey ops y) l then None else Some y) es"

definition holeClear :: "'t option list \<Rightarrow> 't option list" where
  "holeClear es = map (\<lambda>e. None) es"

text \<open>The position of the next entry from \<open>i\<close> on, if there is one.\<close>

function holeNext :: "'t option list \<Rightarrow> nat \<Rightarrow> nat option" where
  "holeNext es i = (if i < length es then if es ! i = None then holeNext es (i + 1) else Some i else None)"
  by pat_completeness auto
termination
  by (relation "measure (\<lambda>(es, i). length es - i)") auto

declare holeNext.simps [simp del]

lemma present_put: "present (holePut ops x es) = putList ops x (present es)"
  by (simp add: holePut_def putList_def overwrite_def present_map)

lemma length_holePut: "length es \<le> length (holePut ops x es)"
  by (simp add: holePut_def)

lemma take_holePut:
  assumes "i \<le> length es"
  shows "present (take i (holePut ops x es)) = overwrite ops x (present (take i es))"
proof (cases "\<exists>y \<in> set (present es). match ops (getKey ops y) (getKey ops x)")
  case True
  then show ?thesis by (simp add: holePut_def overwrite_def take_map present_map)
next
  case False
  have "set (present (take i es)) \<subseteq> set (present es)"
    using present_append [of "take i es" "drop i es"] by (metis Un_upper1 append_take_drop_id set_append)
  then have "\<forall>y \<in> set (present (take i es)). \<not> match ops (getKey ops y) (getKey ops x)" using False by blast
  then have "overwrite ops x (present (take i es)) = present (take i es)" by (rule overwrite_other)
  then show ?thesis using False assms by (simp add: holePut_def)
qed

lemma present_remove: "present (holeRemove ops l es) = removeList ops l (present es)"
  by (induction es) (auto simp: holeRemove_def removeList_def split: option.splits)

lemma take_holeRemove: "present (take i (holeRemove ops l es)) = removeList ops l (present (take i es))"
  using present_remove [of ops l "take i es"] by (simp add: holeRemove_def take_map)

lemma length_holeRemove [simp]: "length (holeRemove ops l es) = length es"
  by (simp add: holeRemove_def)

lemma holeNext_None: "holeNext es i = None \<longleftrightarrow> present (drop i es) = []"
proof (induction es i rule: holeNext.induct)
  case (1 es i)
  then show ?case
    by (subst holeNext.simps) (auto simp: simp flip: Cons_nth_drop_Suc split: option.splits)
qed

lemma holeNext_Some:
  assumes "holeNext es i = Some j"
  shows "j < length es" and "\<exists>x. es ! j = Some x \<and> present (drop i es) = x # present (drop (Suc j) es) \<and>
    present (take (Suc j) es) = present (take i es) @ [x]"
  using assms
proof (induction es i rule: holeNext.induct)
  case (1 es i)
  have step: "holeNext es i = (if i < length es then if es ! i = None then holeNext es (i + 1) else Some i else None)"
    by (rule holeNext.simps)
  {
    case 1
    then show ?case using step "1.IH"(1) by (auto split: if_splits)
  next
    case 2
    then have i: "i < length es" using step by (auto split: if_splits)
    have tk: "present (take (Suc i) es) = present (take i es) @ present [es ! i]"
      using i by (simp only: take_Suc_conv_app_nth present_append)
    have dr: "present (drop i es) = present [es ! i] @ present (drop (Suc i) es)"
      using i by (simp split: option.split flip: Cons_nth_drop_Suc)
    show ?case
    proof (cases "es ! i")
      case None
      then show ?thesis using 2 step i "1.IH"(2) tk dr by simp
    next
      case (Some x)
      then have "j = i" using 2 step i by simp
      then show ?thesis using Some tk dr by simp
    qed
  }
qed

lemma holeNext_le: "holeNext es i = Some j \<Longrightarrow> i \<le> j"
proof (induction es i rule: holeNext.induct)
  case (1 es i)
  then show ?case by (subst (asm) (2) holeNext.simps) (auto split: if_splits)
qed

section \<open>The simulation\<close>

text \<open>A table and its ranges against a list with holes and a position for each range.\<close>

definition simulates :: "('t, 'k) Ops \<Rightarrow> 't OrderedHashTable \<Rightarrow> 't option list \<Rightarrow> (nat \<Rightarrow> nat) \<Rightarrow> bool" where
  "simulates ops t es pos \<longleftrightarrow>
     tableOk ops t \<and> live ops t = present es \<and>
     (\<forall>r \<in> set (ranges t @ nurseryRanges t). pos r \<le> length es \<and> visited ops t r = present (take (pos r) es))"

lemma simulates_rest:
  assumes "simulates ops t es pos" and "r \<in> set (ranges t @ nurseryRanges t)"
  shows "rest ops t r = present (drop (pos r) es)"
proof -
  have "visited ops t r @ rest ops t r = present (take (pos r) es) @ present (drop (pos r) es)"
    unfolding visited_rest using assms(1) by (simp add: simulates_def flip: present_append)
  then show ?thesis using assms by (auto simp: simulates_def)
qed

lemma simulates_map:
  assumes "simulates ops t es pos" and "tableOk ops t'" and "live ops t' = present es'" and "rangesMap ops f t t'"
    and "\<And>i. i \<le> length es \<Longrightarrow> i \<le> length es' \<and> present (take i es') = f (present (take i es))"
  shows "simulates ops t' es' pos"
  using assms by (auto simp: simulates_def rangesMap_def)

context hash_policy
begin

lemma simulates_put:
  assumes sim: "simulates ops t es pos" and x: "full ops x" and small: "length (present es) < 2 ^ 30"
    and Q: "\<And>t'. simulates ops t' (holePut ops x es) pos \<Longrightarrow> ranges t' = ranges t \<Longrightarrow> nurseryRanges t' = nurseryRanges t \<Longrightarrow> Q (True, t')"
      "\<not> (\<forall>k. allocOk v k) \<Longrightarrow> Q (False, t)"
  shows "runs (put ops t x) v E Q"
proof (rule runs_put [OF _ x])
  show "tableOk ops t" "length (live ops t) < 2 ^ 30" using sim small by (auto simp: simulates_def)
next
  fix t'
  assume t': "tableOk ops t'" "live ops t' = putList ops x (live ops t)" "rangesMap ops (overwrite ops x) t t'"
  have "simulates ops t' (holePut ops x es) pos"
    by (rule simulates_map [OF sim t'(1) _ t'(3)])
      (use t'(2) sim length_holePut [of es ops x] in \<open>auto simp: simulates_def present_put take_holePut\<close>)
  then show "Q (True, t')" using Q(1) t'(3) by (simp add: rangesMap_def)
qed (rule Q(2))

lemma simulates_remove:
  assumes sim: "simulates ops t es pos" and l: "\<not> isEmpty ops l"
    and Q: "\<And>ok t'. simulates ops t' (holeRemove ops l es) pos \<Longrightarrow> ranges t' = ranges t \<Longrightarrow> nurseryRanges t' = nurseryRanges t \<Longrightarrow>
      ok \<or> \<not> (\<forall>k. allocOk v k) \<Longrightarrow> Q (ok, \<exists>x \<in> set (present es). match ops (getKey ops x) l, t')"
  shows "runs (remove ops t l) v E Q"
proof -
  have lv: "live ops t = present es" using sim by (simp add: simulates_def)
  show ?thesis
  proof (rule runs_remove [OF _ l])
    fix ok t'
    assume t': "tableOk ops t'" "live ops t' = removeList ops l (live ops t)" "rangesMap ops (removeList ops l) t t'"
      "ok \<or> \<not> (\<forall>k. allocOk v k)"
    have "simulates ops t' (holeRemove ops l es) pos"
      by (rule simulates_map [OF sim t'(1) _ t'(3)]) (use t'(2) in \<open>auto simp: lv present_remove take_holeRemove\<close>)
    then show "Q (ok, \<exists>x \<in> set (live ops t). match ops (getKey ops x) l, t')"
      using Q t'(3,4) by (simp add: lv rangesMap_def)
  qed (use sim in \<open>simp add: simulates_def\<close>)
qed

lemma simulates_get:
  assumes sim: "simulates ops t es pos" and l: "\<not> isEmpty ops l"
  shows "get ops t l = returnM (getList ops l (present es))"
    and "has ops t l = returnM (\<exists>x \<in> set (present es). match ops (getKey ops x) l)"
proof -
  have ok: "tableOk ops t" and lv: "live ops t = present es" using sim by (simp_all add: simulates_def)
  have "get ops t l = returnM (getList ops l (live ops t)) \<and>
      has ops t l = returnM (\<exists>x \<in> set (live ops t). match ops (getKey ops x) l)"
    using ok l
  proof (cases rule: lookup_live)
    case none
    then have "getList ops l (live ops t) = None" by (auto simp: getList_def find_None_iff)
    then show ?thesis using none by (simp add: get_def has_def)
  next
    case (some j)
    have x: "elements t ! j \<in> set (live ops t)" using some by (simp add: live_def)
    then obtain y where y: "getList ops l (live ops t) = Some y"
      using some(4) by (cases "getList ops l (live ops t)") (auto simp: getList_def find_None_iff)
    then have "y \<in> set (live ops t)" "match ops (getKey ops y) l" by (auto simp: getList_def find_Some_iff)
    then obtain i where i: "y = elements t ! i" "i < dataLength t" "full ops y" "match ops (getKey ops y) l"
      by (auto simp: live_def in_set_conv_nth)
    have "i = j"
      using matches_only [OF _ some(2-4), of i] i ok by (auto simp: tableOk_def)
    moreover have "\<exists>x \<in> set (live ops t). match ops (getKey ops x) l" using x some(4) by blast
    ultimately show ?thesis using some y i by (simp add: get_def has_def elements_def dataLength_def)
  qed
  then show "get ops t l = returnM (getList ops l (present es))"
    and "has ops t l = returnM (\<exists>x \<in> set (present es). match ops (getKey ops x) l)" using lv by simp_all
qed

end

lemma simulates_clear:
  assumes sim: "simulates ops t es pos"
    and Q: "\<And>t'. simulates ops t' (holeClear es) pos \<Longrightarrow> ranges t' = ranges t \<Longrightarrow> nurseryRanges t' = nurseryRanges t \<Longrightarrow> Q (True, t')"
      "\<not> (\<forall>k. allocOk v k) \<Longrightarrow> Q (False, t)"
  shows "runs (clear t) v E Q"
proof (rule runs_clear)
  show "tableOk ops t" using sim by (simp add: simulates_def)
next
  fix t'
  assume t': "tableOk ops t'" "live ops t' = []" "rangesMap ops (\<lambda>xs. []) t t'"
  have "simulates ops t' (holeClear es) pos"
    by (rule simulates_map [OF sim t'(1) _ t'(3)]) (use t'(2) in \<open>auto simp: holeClear_def take_map\<close>)
  then show "Q (True, t')" using Q(1) t'(3) by (simp add: rangesMap_def)
qed (rule Q(2))

lemma simulates_count: "simulates ops t es pos \<Longrightarrow> count t = length (present es)"
  by (simp add: simulates_def tableOk_def count_def)

lemma simulates_added:
  assumes "simulates ops t es pos" and "addedRange ops r (present (take p es)) t t'" and "p \<le> length es"
    and "r \<notin> set (ranges t @ nurseryRanges t)"
  shows "simulates ops t' es (pos(r := p))"
  using assms unfolding simulates_def addedRange_def by auto

lemma simulates_fewer:
  assumes sim: "simulates ops t es pos" and "set xs \<subseteq> set (ranges t)" "set ys \<subseteq> set (nurseryRanges t)" "distinct xs" "distinct ys"
  shows "simulates ops (t\<lparr>ranges := xs, nurseryRanges := ys\<rparr>) es pos"
  using fewer_ranges [of ops t xs ys] assms unfolding simulates_def by auto

text \<open>An iterator step: the range is at its end exactly when the list has no further entry.\<close>

lemma simulates_next:
  assumes sim: "simulates ops t es pos" and r: "r \<in> set (ranges t @ nurseryRanges t)"
  shows "rangeEmpty t r = returnM (holeNext es (pos r) = None)"
    and "holeNext es (pos r) = Some j \<Longrightarrow> \<exists>x t'. es ! j = Some x \<and> front t r = returnM x \<and> popFront ops t r = returnM t' \<and>
      simulates ops t' es (pos(r := Suc j)) \<and> ranges t' = ranges t \<and> nurseryRanges t' = nurseryRanges t"
proof -
  have ok: "tableOk ops t" using sim by (simp add: simulates_def)
  have rest: "rest ops t r = present (drop (pos r) es)" using sim r by (rule simulates_rest)
  show "rangeEmpty t r = returnM (holeNext es (pos r) = None)"
    by (simp add: rangeEmpty_eq [OF ok r] holeNext_None rest)
  assume j: "holeNext es (pos r) = Some j"
  from holeNext_Some [OF this] obtain x where x: "j < length es" "es ! j = Some x"
    "rest ops t r = x # present (drop (Suc j) es)" "present (take (Suc j) es) = present (take (pos r) es) @ [x]"
    using rest by auto
  from popFront_ok [OF ok r x(3)] obtain t' where t': "popFront ops t r = returnM t'" "tableOk ops t'" "live ops t' = live ops t"
    "ranges t' = ranges t" "nurseryRanges t' = nurseryRanges t"
    "\<And>r'. r' \<in> set (ranges t @ nurseryRanges t) \<Longrightarrow> visited ops t' r' = (if r' = r then visited ops t r @ [x] else visited ops t r')"
    by blast
  have "simulates ops t' es (pos(r := Suc j))"
    using sim t' x r unfolding simulates_def by auto
  then show "\<exists>x t'. es ! j = Some x \<and> front t r = returnM x \<and> popFront ops t r = returnM t' \<and>
      simulates ops t' es (pos(r := Suc j)) \<and> ranges t' = ranges t \<and> nurseryRanges t' = nurseryRanges t"
    using front_eq [OF ok r x(3)] t' x(2) by auto
qed

end
