(* ===== verification/OrderedHashTable_Rekey.thy ===== *)
theory OrderedHashTable_Rekey
  imports OrderedHashTable_Ops
begin

text \<open>
  Rekeying: the chain surgery of \<open>rekeyFront\<close> and \<open>rekeyOneEntry\<close>, with which the garbage collector
  follows keys that moved.  The element keeps its place in the order, and no range moves.
\<close>

section \<open>Rekeying\<close>

definition linked :: "nat option list \<Rightarrow> 't Data list \<Rightarrow> nat list list \<Rightarrow> bool" where
  "linked table ds cs \<longleftrightarrow>
     length cs = length table \<and> (\<forall>h < length table. chainIs ds (table ! h) (cs ! h)) \<and> disjointLists cs"

lemma chainsAre_linked: "chainsAre ops s table ds cs \<longleftrightarrow> linked table ds cs \<and>
  (\<forall>j < length ds. full ops (element (ds ! j)) \<longrightarrow> j \<in> set (cs ! bucketOf ops s (element (ds ! j))))"
  by (auto simp: chainsAre_def linked_def)

definition slotVal :: "'t OrderedHashTable \<Rightarrow> slot \<Rightarrow> nat option" where
  "slotVal t ep = (case ep of BucketSlot h \<Rightarrow> hashTable t ! h | ChainSlot i \<Rightarrow> chain (data t ! i))"

definition slotIn :: "'t OrderedHashTable \<Rightarrow> slot \<Rightarrow> bool" where
  "slotIn t ep \<longleftrightarrow> (case ep of BucketSlot h \<Rightarrow> h < length (hashTable t) | ChainSlot i \<Rightarrow> i < length (data t))"

lemma slotGet_eq: "slotIn t ep \<Longrightarrow> slotGet t ep = returnM (slotVal t ep)"
  by (auto simp: slotIn_def slotGet_def slotVal_def split: slot.splits)

lemma followLoop_eq:
  assumes "chainIs (data t) p js" and "continue None \<Longrightarrow> \<exists>j \<in> set js. \<not> continue (Some j)"
  shows "\<exists>p'. whileE (\<lambda>(ep, p). continue p)
      (\<lambda>(ep, p).
        case p of None \<Rightarrow> throwM UndefinedBehavior
        | Some i \<Rightarrow> bindM (slotGet t (ChainSlot i)) (\<lambda>p'. returnM (ChainSlot i, p'))) (ep, p) =
    returnM (if takeWhile (\<lambda>j. continue (Some j)) js = [] then ep
      else ChainSlot (last (takeWhile (\<lambda>j. continue (Some j)) js)), p')"
  using assms
proof (induction js arbitrary: p ep)
  case Nil
  then show ?case by (subst whileE_unfold) auto
next
  case (Cons j js)
  then have j: "p = Some j" "j < length (data t)" "chainIs (data t) (chain (data t ! j)) js" by auto
  show ?case
  proof (cases "continue (Some j)")
    case True
    have "slotGet t (ChainSlot j) = returnM (chain (data t ! j))"
      using j by (simp add: slotGet_eq slotIn_def slotVal_def)
    then show ?thesis using Cons.IH [OF j(3), of "ChainSlot j"] Cons.prems(2) True j(1) by (subst whileE_unfold) auto
  next
    case False
    then show ?thesis using j(1) by (subst whileE_unfold) auto
  qed
qed

lemma followChain_eq:
  assumes "slotIn t ep" and "chainIs (data t) (slotVal t ep) js" and "continue None \<Longrightarrow> \<exists>j \<in> set js. \<not> continue (Some j)"
  shows "followChain t continue ep = returnM (if takeWhile (\<lambda>j. continue (Some j)) js = [] then ep
    else ChainSlot (last (takeWhile (\<lambda>j. continue (Some j)) js)))"
  using followLoop_eq [of t "slotVal t ep" js continue ep, OF assms(2,3)] assms(1) by (auto simp: followChain_def slotGet_eq)

lemma chainIs_append: "chainIs ds p (as @ a # js) \<Longrightarrow> chainIs ds (Some a) (a # js) \<and> (\<forall>j \<in> set as. a < j)"
  by (induction as arbitrary: p) auto

lemma chainIs_retail:
  assumes "chainIs ds p (as @ a # js)" and "chainIs ds' (chain (ds' ! a)) js'" and "a < length ds'" and "\<forall>i \<in> set js'. i < a"
    and "\<And>j. j \<in> set as \<Longrightarrow> j < length ds' \<and> chain (ds' ! j) = chain (ds ! j)"
  shows "chainIs ds' p (as @ a # js')"
  using assms(1,5)
proof (induction as arbitrary: p)
  case Nil
  then show ?case using assms by simp
next
  case (Cons b as)
  have "chainIs ds' (chain (ds ! b)) (as @ a # js')" using Cons by (intro Cons.IH) auto
  moreover have "a < b" using Cons.prems(1) by simp
  ultimately show ?case using Cons.prems assms(4) by fastforce
qed

text \<open>Writing the slot at the end of a prefix of a chain changes the tail of that chain, and no other.\<close>

lemma linked_slotSet:
  assumes lk: "linked (hashTable t) (data t) cs" and h: "h < length (hashTable t)" and ch: "cs ! h = as @ js"
    and js': "chainIs (data t) p js'" "disjointLists (cs[h := as @ js'])" "\<And>i a. i \<in> set js' \<Longrightarrow> a \<in> set as \<Longrightarrow> i < a"
  shows "\<exists>t'. slotSet t (if as = [] then BucketSlot h else ChainSlot (last as)) p = returnM t' \<and>
    linked (hashTable t') (data t') (cs[h := as @ js']) \<and> elements t' = elements t \<and>
    (\<exists>table ds. t' = t\<lparr>hashTable := table, data := ds\<rparr> \<and> length table = length (hashTable t) \<and> length ds = length (data t) \<and>
      (\<forall>j < length ds. j \<notin> set as \<longrightarrow> ds ! j = data t ! j))"
proof (cases as rule: rev_cases)
  case Nil
  let ?t = "t\<lparr>hashTable := (hashTable t)[h := p]\<rparr>"
  have "\<exists>table ds. ?t = t\<lparr>hashTable := table, data := ds\<rparr> \<and> length table = length (hashTable t) \<and> length ds = length (data t) \<and>
      (\<forall>j < length ds. j \<notin> set as \<longrightarrow> ds ! j = data t ! j)"
    by (intro exI [of _ "(hashTable t)[h := p]"] exI [of _ "data t"]) simp
  then show ?thesis
    using Nil lk h js' by (intro exI [of _ ?t]) (auto simp: slotSet_def linked_def nth_list_update elements_def)
next
  case (snoc bs a)
  have all: "\<And>k. k < length (hashTable t) \<Longrightarrow> chainIs (data t) (hashTable t ! k) (cs ! k)" "length cs = length (hashTable t)" "disjointLists cs"
    using lk by (auto simp: linked_def)
  have chh: "chainIs (data t) (hashTable t ! h) (bs @ a # js)" using all(1) [OF h] ch snoc by simp
  have a: "a < length (data t)" using chainIs_bounded [OF chh] by simp
  let ?ds = "(data t)[a := (data t ! a)\<lparr>chain := p\<rparr>]"
  have same: "chain (?ds ! j) = chain (data t ! j)" if "j \<noteq> a" for j using that by simp
  have "chainIs ?ds p js'"
    by (rule chainIs_cong [OF js'(1)]) (use js'(3) snoc same in fastforce)
  then have "chainIs ?ds (hashTable t ! h) (bs @ a # js')"
    by (intro chainIs_retail [OF chh]) (use a js'(3) snoc chainIs_append [OF chh] chainIs_bounded [OF chh] in auto)
  moreover have "chainIs ?ds (hashTable t ! k) (cs ! k)" if k: "k < length (hashTable t)" "k \<noteq> h" for k
  proof (rule chainIs_cong [OF all(1) [OF k(1)]])
    fix j
    assume "j \<in> set (cs ! k)" "j < length (data t)"
    moreover have "set (cs ! h) \<inter> set (cs ! k) = {}" using all(2,3) h k unfolding disjointLists_def by metis
    then have "a \<notin> set (cs ! k)" using ch snoc by auto
    ultimately have "j \<noteq> a" "j < length (data t)" by auto
    then show "j < length ?ds \<and> chain (?ds ! j) = chain (data t ! j)" by simp
  qed
  ultimately have "chainIs ?ds (hashTable t ! k) (cs[h := as @ js'] ! k)" if "k < length (hashTable t)" for k
    using that all(2) snoc by (cases "k = h") simp_all
  then have "linked (hashTable t) ?ds (cs[h := as @ js'])"
    using all(2) js'(2) by (simp add: linked_def)
  moreover have "map element ?ds = map element (data t)" using a by (simp add: map_update list_update_same_conv)
  moreover have "t\<lparr>data := ?ds\<rparr> = t\<lparr>hashTable := hashTable t, data := ?ds\<rparr>" by simp
  ultimately show ?thesis
    using snoc a by (intro exI [of _ "t\<lparr>data := ?ds\<rparr>"])
      (auto simp: slotSet_def elements_def nth_list_update intro!: exI [of _ "hashTable t"] exI [of _ ?ds])
qed


lemma slot_tail:
  assumes lk: "linked (hashTable t) (data t) cs" and h: "h < length (hashTable t)" and ch: "cs ! h = as @ js"
  shows "slotIn t (if as = [] then BucketSlot h else ChainSlot (last as))"
    and "chainIs (data t) (slotVal t (if as = [] then BucketSlot h else ChainSlot (last as))) js"
proof -
  have c: "chainIs (data t) (hashTable t ! h) (as @ js)" using lk h ch unfolding linked_def by metis
  have "slotIn t (if as = [] then BucketSlot h else ChainSlot (last as)) \<and>
    chainIs (data t) (slotVal t (if as = [] then BucketSlot h else ChainSlot (last as))) js"
  proof (cases as rule: rev_cases)
    case Nil
    then show ?thesis using c h by (simp add: slotIn_def slotVal_def)
  next
    case (snoc bs a)
    then show ?thesis using chainIs_append [of "data t" _ bs a js] c by (auto simp: slotIn_def slotVal_def)
  qed
  then show "slotIn t (if as = [] then BucketSlot h else ChainSlot (last as))"
    and "chainIs (data t) (slotVal t (if as = [] then BucketSlot h else ChainSlot (last as))) js" by blast+
qed

lemma descending_dropWhile:
  assumes "chainIs ds p js" and "j \<notin> set js" and "i \<in> set (dropWhile (\<lambda>i. i > j) js)"
  shows "i < j"
  using assms by (induction js arbitrary: p) (force split: if_splits)+

lemma relink_ok:
  assumes lk: "linked (hashTable t) (data t) cs" and old: "old < length (hashTable t)" and new: "new < length (hashTable t)"
    and entry: "entry \<in> set (cs ! old)"
  shows "\<exists>t' cs'. relink entry old new t = returnM t' \<and> linked (hashTable t') (data t') cs' \<and> elements t' = elements t \<and>
    entry \<in> set (cs' ! new) \<and> (\<forall>h < length (hashTable t). \<forall>j \<in> set (cs ! h). j \<noteq> entry \<longrightarrow> j \<in> set (cs' ! h)) \<and>
    (\<exists>table ds. t' = t\<lparr>hashTable := table, data := ds\<rparr> \<and> length table = length (hashTable t) \<and> length ds = length (data t))"
proof -
  have len: "length cs = length (hashTable t)" and dj: "disjointLists cs"
    and chains: "\<And>h. h < length (hashTable t) \<Longrightarrow> chainIs (data t) (hashTable t ! h) (cs ! h)"
    using lk by (simp_all add: linked_def)
  obtain as bs where sp: "cs ! old = as @ entry # bs" "entry \<notin> set as" using split_list_first [OF entry] by blast
  have ch: "chainIs (data t) (hashTable t ! old) (as @ entry # bs)" using chains [OF old] sp by simp
  have e: "entry < length (data t)" and bs: "chainIs (data t) (chain (data t ! entry)) bs" "\<forall>i \<in> set bs. i < entry" "\<forall>i \<in> set as. entry < i"
    using chainIs_append [OF ch] by auto
  have "takeWhile (\<lambda>j. j \<noteq> entry) (as @ entry # bs) = as" using sp(2) by (induction as) auto
  then have tw: "takeWhile (\<lambda>j. Some j \<noteq> Some entry) (cs ! old) = as" using sp(1) by simp
  let ?ep = "if as = [] then BucketSlot old else ChainSlot (last as)"
  have f1: "followChain t (\<lambda>p. p \<noteq> Some entry) (BucketSlot old) = returnM ?ep"
  proof -
    have "chainIs (data t) (slotVal t (BucketSlot old)) (cs ! old)" using chains [OF old] by (simp add: slotVal_def)
    from followChain_eq [OF _ this, of "\<lambda>p. p \<noteq> Some entry"] show ?thesis
      using old entry unfolding tw by (simp add: slotIn_def)
  qed
  have g1: "slotGet t (ChainSlot entry) = returnM (chain (data t ! entry))" using e by (simp add: slotGet_eq slotIn_def slotVal_def)
  let ?cs = "cs[old := as @ bs]"
  have out: "entry \<notin> set (?cs ! h)" if "h < length cs" for h
  proof (cases "h = old")
    case True
    then show ?thesis using that sp bs by auto
  next
    case False
    then have "set (cs ! h) \<inter> set (cs ! old) = {}" using dj that old len unfolding disjointLists_def by metis
    then show ?thesis using False sp by auto
  qed
  have sub: "set (?cs ! h) \<subseteq> set (cs ! h)" if "h < length cs" for h using that sp by (cases "h = old") auto
  have dj1: "disjointLists ?cs"
    unfolding disjointLists_def
  proof (intro allI impI)
    fix h h'
    assume "h < length ?cs \<and> h' < length ?cs \<and> h \<noteq> h'"
    then have "set (cs ! h) \<inter> set (cs ! h') = {}" "h < length cs" "h' < length cs" using dj unfolding disjointLists_def by simp_all
    then show "set (?cs ! h) \<inter> set (?cs ! h') = {}" using sub by blast
  qed
  obtain t1 table1 ds1 where t1: "slotSet t ?ep (chain (data t ! entry)) = returnM t1" "linked (hashTable t1) (data t1) ?cs"
    "elements t1 = elements t" "t1 = t\<lparr>hashTable := table1, data := ds1\<rparr>" "length table1 = length (hashTable t)" "length ds1 = length (data t)"
    using linked_slotSet [OF lk old sp(1) bs(1) dj1] bs by fastforce
  have new1: "new < length (hashTable t1)" and e1: "entry < length (data t1)" using t1 new e by simp_all
  define as2 where "as2 = takeWhile (\<lambda>j. entry < j) (?cs ! new)"
  define bs2 where "bs2 = dropWhile (\<lambda>j. entry < j) (?cs ! new)"
  have sp2: "?cs ! new = as2 @ bs2" by (simp add: as2_def bs2_def)
  have ch2: "chainIs (data t1) (slotVal t1 (BucketSlot new)) (?cs ! new)" using t1(2) new1 by (simp add: linked_def slotVal_def)
  let ?ep2 = "if as2 = [] then BucketSlot new else ChainSlot (last as2)"
  have f2: "followChain t1 (\<lambda>p. p \<noteq> None \<and> the p > entry) (BucketSlot new) = returnM ?ep2"
    using followChain_eq [OF _ ch2, of "\<lambda>p. p \<noteq> None \<and> the p > entry"] new1 by (simp add: slotIn_def as2_def)
  note tail = slot_tail [OF t1(2) new1 sp2]
  have lt: "i < entry" if "i \<in> set bs2" for i
    using descending_dropWhile [OF ch2 out] that new len by (simp add: bs2_def)
  have gt: "entry < i" if "i \<in> set as2" for i using that unfolding as2_def by (rule set_takeWhileD [THEN conjunct2])
  let ?ds2 = "(data t1)[entry := (data t1 ! entry)\<lparr>chain := slotVal t1 ?ep2\<rparr>]"
  let ?t2 = "t1\<lparr>data := ?ds2\<rparr>"
  have s2: "slotSet t1 (ChainSlot entry) (slotVal t1 ?ep2) = returnM ?t2" using e1 by (simp add: slotSet_def)
  have chain2: "chainIs ?ds2 p js" if "chainIs (data t1) p js" "entry \<notin> set js" for p js
    by (rule chainIs_cong [OF that(1)]) (metis length_list_update nth_list_update_neq that(2))
  have lk2: "linked (hashTable ?t2) (data ?t2) ?cs"
    using t1(2) out len t1(5) t1(4) chain2 by (auto simp: linked_def)
  have link: "chainIs (data ?t2) (Some entry) (entry # bs2)"
  proof -
    have "entry \<notin> set bs2" using lt by blast
    then show ?thesis using chain2 [OF tail(2)] lt e1 by simp
  qed
  have dj2: "disjointLists (?cs[new := as2 @ entry # bs2])"
    unfolding disjointLists_def
  proof (intro allI impI)
    fix h h'
    assume a: "h < length (?cs[new := as2 @ entry # bs2]) \<and> h' < length (?cs[new := as2 @ entry # bs2]) \<and> h \<noteq> h'"
    then have "set (?cs ! h) \<inter> set (?cs ! h') = {}" using dj1 unfolding disjointLists_def by simp
    moreover have "set (?cs[new := as2 @ entry # bs2] ! k) = (if k = new then insert entry (set (?cs ! k)) else set (?cs ! k))"
      if "k < length cs" for k using that sp2 by auto
    ultimately show "set (?cs[new := as2 @ entry # bs2] ! h) \<inter> set (?cs[new := as2 @ entry # bs2] ! h') = {}"
      using a out by (auto split: if_splits)
  qed
  have new2: "new < length (hashTable ?t2)" using new1 by simp
  obtain t3 table3 ds3 where t3: "slotSet ?t2 ?ep2 (Some entry) = returnM t3"
    "linked (hashTable t3) (data t3) (?cs[new := as2 @ entry # bs2])" "elements t3 = elements ?t2"
    "t3 = ?t2\<lparr>hashTable := table3, data := ds3\<rparr>" "length table3 = length (hashTable ?t2)" "length ds3 = length (data ?t2)"
    using linked_slotSet [OF lk2 new2 sp2 link dj2] lt gt by fastforce
  have rl: "relink entry old new t = returnM t3"
    unfolding relink_def f1 bindM_returnM g1 t1(1) f2 slotGet_eq [OF tail(1)] s2 t3(1) by (rule refl)
  have "elements ?t2 = elements t1" using e1 by (simp add: elements_def map_update list_update_same_conv)
  then have el: "elements t3 = elements t" using t3(3) t1(3) by simp
  have keep: "j \<in> set (?cs[new := as2 @ entry # bs2] ! h)" if "h < length (hashTable t)" "j \<in> set (cs ! h)" "j \<noteq> entry" for h j
  proof -
    have "j \<in> set (?cs ! h)" using that sp len by (cases "h = old") auto
    then show ?thesis using sp2 that len by (cases "h = new") auto
  qed
  have "entry \<in> set (?cs[new := as2 @ entry # bs2] ! new)" using new len by simp
  moreover have "t3 = t\<lparr>hashTable := table3, data := ds3\<rparr>" "length table3 = length (hashTable t)" "length ds3 = length (data t)"
    using t3(4-6) t1(4-6) by simp_all
  ultimately show ?thesis using rl t3(2) el keep by blast
qed


definition rekeyList :: "('t, 'k) Ops \<Rightarrow> 'k \<Rightarrow> 't \<Rightarrow> 't list \<Rightarrow> 't list" where
  "rekeyList ops l x xs = map (\<lambda>y. if match ops (getKey ops y) l then x else y) xs"

context hash_policy
begin

text \<open>A live element replaced by one with a fresh key, once its chain is corrected.\<close>

lemma rekey_element:
  assumes ok: "tableOk ops t" and x: "full ops x" and j: "j < dataLength t" "full ops (elements t ! j)"
    and m: "match ops (getKey ops (elements t ! j)) l"
    and fresh: "\<And>y. y \<in> set (live ops t) \<Longrightarrow> \<not> match ops (getKey ops y) l \<Longrightarrow> \<not> match ops (getKey ops y) (getKey ops x)"
    and t': "elements t' = (elements t)[j := x]"
      "t' = t\<lparr>hashTable := table, data := ds\<rparr>" "length table = length (hashTable t)" "chainsOk ops (hashShift t) table ds"
  shows "tableOk ops t' \<and> live ops t' = rekeyList ops l x (live ops t) \<and> rangesMap ops (rekeyList ops l x) t t'"
proof -
  let ?M = "\<lambda>y. match ops (getKey ops y) l"
  have kd: "keysDiffer ops (live ops t)" and rs: "rangesOk ops t" using ok by (simp_all add: tableOk_def)
  have only: "?M (elements t ! k) \<longleftrightarrow> k = j" if "k < dataLength t" "full ops (elements t ! k)" for k
    using matches_only [OF kd j m] that by blast
  have upd: "filter (full ops) (take i ((elements t)[j := x])) = rekeyList ops l x (filter (full ops) (take i (elements t)))" for i
    unfolding rekeyList_def take_update_swap
    by (rule filter_update_keep) (use only j x in auto)
  have lv: "live ops t' = rekeyList ops l x (live ops t)"
    using upd [of "dataLength t"] by (simp add: live_def t'(1))
  have dl: "dataLength t' = dataLength t" by (metis length_elements length_list_update t'(1))
  have fl: "full ops ((elements t)[j := x] ! i) \<longleftrightarrow> full ops (elements t ! i)" if "i < dataLength t" for i
    using that j(2) x by (cases "i = j") simp_all
  have at: "rangeAt t' = rangeAt t" "ranges t' = ranges t" "nurseryRanges t' = nurseryRanges t" using t'(2) by simp_all
  have "rangeOk ops (elements t') (rangeAt t' r)" if "r \<in> set (ranges t @ nurseryRanges t)" for r
  proof -
    have "rangeOk ops (elements t) (rangeAt t r)" using rs that by (simp add: rangesOk_def)
    then show ?thesis using fl upd by (simp add: rangeOk_def t'(1) at rekeyList_def)
  qed
  then have "rangesOk ops t'" using rs by (simp add: rangesOk_def at)
  moreover have "keysDiffer ops (live ops t')"
  proof -
    have pre: "live ops t = filter (full ops) (take j (elements t)) @ elements t ! j # filter (full ops) (drop (Suc j) (elements t))"
      unfolding live_def using id_take_nth_drop [of j "elements t"] j by (metis filter.simps(2) filter_append length_elements)
    let ?as = "filter (full ops) (take j (elements t))" and ?bs = "filter (full ops) (drop (Suc j) (elements t))"
    have other: "\<not> ?M y \<and> \<not> match ops (getKey ops y) (getKey ops x)" if "y \<in> set ?as \<union> set ?bs" for y
    proof -
      have "\<not> match ops (getKey ops y) (getKey ops (elements t ! j))"
        using kd that pre match_sym by (auto simp: keysDiffer_def sorted_wrt_append)
      then have "\<not> ?M y" using m match_sym match_trans by blast
      then show ?thesis using fresh [of y] that pre by auto
    qed
    have idl: "rekeyList ops l x xs = xs" if "\<And>y. y \<in> set xs \<Longrightarrow> \<not> ?M y" for xs
      unfolding rekeyList_def by (rule map_idI) (use that in auto)
    have "rekeyList ops l x ?as = ?as" "rekeyList ops l x ?bs = ?bs" by (intro idl; use other in blast)+
    moreover have "rekeyList ops l x (live ops t) = rekeyList ops l x ?as @ x # rekeyList ops l x ?bs"
      unfolding pre by (simp add: rekeyList_def m)
    ultimately have "live ops t' = ?as @ x # ?bs" using lv by simp
    moreover have "\<not> match ops (getKey ops x) (getKey ops y)" if "y \<in> set ?bs" for y using other [of y] that match_sym by auto
    ultimately show ?thesis using kd other unfolding pre by (auto simp: keysDiffer_def sorted_wrt_append)
  qed
  moreover have "sizesOk (hashTable t') (data t') (dataCapacity t') (hashShift t')"
    using ok t'(2,3) dl by (simp add: tableOk_def sizesOk_def dataLength_def)
  moreover have "liveCount t' = length (live ops t')" using ok lv t'(2) by (simp add: tableOk_def rekeyList_def)
  moreover have "chainsOk ops (hashShift t') (hashTable t') (data t')" using t' by simp
  moreover have "rangesMap ops (rekeyList ops l x) t t'"
    using upd by (simp add: rangesMap_def visited_def t'(1) at)
  ultimately show ?thesis using lv by (simp add: tableOk_def)
qed

lemma chains_relinked:
  assumes ok: "tableOk ops t" and j: "j < dataLength t" "full ops (elements t ! j)"
    and old: "old = bucketOf ops (hashShift t) (elements t ! j)" and new: "new = bucketOf ops (hashShift t) x"
  shows "\<exists>t' table ds. relink j old new (t\<lparr>data := (data t)[j := (data t ! j)\<lparr>element := x\<rparr>]\<rparr>) = returnM t' \<and>
    elements t' = (elements t)[j := x] \<and> t' = t\<lparr>hashTable := table, data := ds\<rparr> \<and>
    length table = length (hashTable t) \<and> chainsOk ops (hashShift t) table ds"
proof -
  let ?t = "t\<lparr>data := (data t)[j := (data t ! j)\<lparr>element := x\<rparr>]\<rparr>"
  obtain cs where cs: "chainsAre ops (hashShift t) (hashTable t) (data t) cs" using ok by (auto simp: tableOk_def chainsOk_def)
  have b: "bucketOf ops (hashShift t) y < length (hashTable t)" for y
    using ok by (simp add: tableOk_def sizesOk_def bucketOf_less)
  have jl: "j < length (data t)" using j by (simp add: dataLength_def)
  have el: "elements ?t = (elements t)[j := x]" by (simp add: elements_def map_update)
  have "linked (hashTable ?t) (data ?t) cs"
    using cs jl by (auto simp: chainsAre_linked linked_def intro: chainIs_cong [of "data t"] simp: nth_list_update)
  moreover have "j \<in> set (cs ! old)"
    using cs jl j(2) old by (auto simp: chainsAre_def elements_def)
  ultimately obtain t' cs' table ds where r: "relink j old new ?t = returnM t'" "linked (hashTable t') (data t') cs'" "elements t' = elements ?t"
    "j \<in> set (cs' ! new)" "\<And>h i. h < length (hashTable t) \<Longrightarrow> i \<in> set (cs ! h) \<Longrightarrow> i \<noteq> j \<Longrightarrow> i \<in> set (cs' ! h)"
    "t' = ?t\<lparr>hashTable := table, data := ds\<rparr>" "length table = length (hashTable ?t)" "length ds = length (data ?t)"
    using relink_ok [of ?t cs old new j] b old new by (auto 0 3)
  have es: "element (ds ! i) = (if i = j then x else element (data t ! i))" if "i < length ds" for i
  proof -
    have "elements t' ! i = (elements t)[j := x] ! i" using r(3) el by simp
    then show ?thesis using that r(6,8) jl by (simp add: elements_def nth_list_update split: if_splits)
  qed
  have "i \<in> set (cs' ! bucketOf ops (hashShift t) (element (ds ! i)))" if "i < length ds" "full ops (element (ds ! i))" for i
  proof (cases "i = j")
    case True
    then show ?thesis using es that r(4) new by simp
  next
    case False
    then have "i \<in> set (cs ! bucketOf ops (hashShift t) (element (data t ! i)))"
      using cs es that r(8) by (simp add: chainsAre_def)
    then show ?thesis using False es that r(5) [OF b] by simp
  qed
  then have "chainsOk ops (hashShift t) table ds"
    using r(2,6) by (auto simp: chainsOk_def chainsAre_linked)
  moreover have "t' = t\<lparr>hashTable := table, data := ds\<rparr>" using r(6) by simp
  ultimately show ?thesis using r(1,3,7) el by auto
qed

text \<open>The effect of the two operations: the element keeps its place, and so do the ranges.\<close>

lemma rekeyOneEntry_ok:
  assumes ok: "tableOk ops t" and l: "\<not> isEmpty ops l" and x: "full ops x" "getKey ops x = k"
    and diff: "l \<noteq> k"
    and fresh: "\<And>y. y \<in> set (live ops t) \<Longrightarrow> \<not> match ops (getKey ops y) l \<Longrightarrow> \<not> match ops (getKey ops y) k"
  shows "\<exists>t'. rekeyOneEntry ops t l k x = returnM t' \<and> tableOk ops t' \<and>
    live ops t' = rekeyList ops l x (live ops t) \<and> rangesMap ops (rekeyList ops l x) t t'"
  using ok l
proof (cases rule: lookup_live)
  case none
  then have same: "rekeyList ops l x xs = xs" if "set xs \<subseteq> set (live ops t)" for xs
    unfolding rekeyList_def using that by (intro map_idI) auto
  have "set (visited ops t r) \<subseteq> set (live ops t)" for r using visited_rest [of ops t r] by (metis Un_upper1 set_append)
  then have "rangesMap ops (rekeyList ops l x) t t" "rekeyList ops l x (live ops t) = live ops t" using same by (auto simp: rangesMap_def)
  then show ?thesis unfolding rekeyOneEntry_def none(1) using diff ok by auto
next
  case (some j)
  have old: "bucket (prepareHash ops l) (hashShift t) = bucketOf ops (hashShift t) (elements t ! j)"
    using match_hash [OF some(4)] by (simp add: bucketOf_def prepareHash_def)
  have new: "bucket (prepareHash ops k) (hashShift t) = bucketOf ops (hashShift t) x" using x by (simp add: bucketOf_def)
  obtain t' table ds where r: "relink j (bucket (prepareHash ops l) (hashShift t)) (bucket (prepareHash ops k) (hashShift t))
      (t\<lparr>data := (data t)[j := (data t ! j)\<lparr>element := x\<rparr>]\<rparr>) = returnM t'"
    "elements t' = (elements t)[j := x]" "t' = t\<lparr>hashTable := table, data := ds\<rparr>"
    "length table = length (hashTable t)" "chainsOk ops (hashShift t) table ds"
    using chains_relinked [OF ok some(2,3) old new] by blast
  have "rekeyOneEntry ops t l k x = returnM t'"
    unfolding rekeyOneEntry_def some(1) using diff some(2) r(1) by (simp add: dataLength_def Let_def)
  then show ?thesis using rekey_element [OF ok x(1) some(2-4) _ r(2-5)] fresh x(2) by blast
qed

lemma rekeyFront_ok:
  assumes ok: "tableOk ops t" and r: "r \<in> set (ranges t @ nurseryRanges t)" and rest: "rest ops t r = y # ys"
    and k: "\<not> isEmpty ops k"
    and fresh: "\<And>z. z \<in> set (live ops t) \<Longrightarrow> \<not> match ops (getKey ops z) (getKey ops y) \<Longrightarrow> \<not> match ops (getKey ops z) k"
  shows "\<exists>t'. rekeyFront ops t r k = returnM t' \<and> tableOk ops t' \<and>
    live ops t' = rekeyList ops (getKey ops y) (setKey ops y k) (live ops t) \<and>
    rangesMap ops (rekeyList ops (getKey ops y) (setKey ops y k)) t t'"
proof -
  let ?j = "rangeI (rangeAt t r)" and ?x = "setKey ops y k"
  have rok: "rangeOk ops (elements t) (rangeAt t r)" using ok r by (simp add: tableOk_def rangesOk_def)
  have j: "?j < dataLength t" using rest_Nil [OF rok] rest by simp
  have f: "full ops (elements t ! ?j)" using rok j by (simp add: rangeOk_def)
  have y: "elements t ! ?j = y" using rest j f by (simp add: rest_def flip: Cons_nth_drop_Suc)
  have x: "full ops ?x" "getKey ops ?x = k" using k by (simp_all add: full_def getKey_setKey)
  have m: "match ops (getKey ops (elements t ! ?j)) (getKey ops y)" using y match_refl by simp
  have jl: "?j < length (data t)" using j by (simp add: dataLength_def)
  have d: "element (data t ! ?j) = y" using y jl by (simp add: elements_def)
  let ?t = "t\<lparr>data := (data t)[?j := (data t ! ?j)\<lparr>element := ?x\<rparr>]\<rparr>"
  let ?old = "bucketOf ops (hashShift t) (elements t ! ?j)" and ?new = "bucketOf ops (hashShift t) ?x"
  have eq: "rekeyFront ops t r k = (if ?new \<noteq> ?old then relink ?j ?old ?new ?t else returnM ?t)"
    using rok jl x(2) by (simp add: rekeyFront_def rangeOk_def Let_def d y bucketOf_def)
  have el: "elements ?t = (elements t)[?j := ?x]" by (simp add: elements_def map_update)
  have "\<exists>t' table ds. rekeyFront ops t r k = returnM t' \<and> elements t' = (elements t)[?j := ?x] \<and>
    t' = t\<lparr>hashTable := table, data := ds\<rparr> \<and> length table = length (hashTable t) \<and> chainsOk ops (hashShift t) table ds"
  proof (cases "?new = ?old")
    case True
    obtain cs where "chainsAre ops (hashShift t) (hashTable t) (data t) cs" using ok by (auto simp: tableOk_def chainsOk_def)
    then have "chainsAre ops (hashShift t) (hashTable t) (data ?t) cs"
      using True f jl by (simp, intro chainsAre_replace) (auto simp: elements_def)
    then have "chainsOk ops (hashShift t) (hashTable t) (data ?t)" by (auto simp: chainsOk_def)
    moreover have "?t = t\<lparr>hashTable := hashTable t, data := data ?t\<rparr>" by simp
    ultimately show ?thesis using eq True el by metis
  next
    case False
    from chains_relinked [OF ok j f refl refl, of ?x] show ?thesis using eq False by auto
  qed
  then obtain t' table ds where t': "rekeyFront ops t r k = returnM t'" "elements t' = (elements t)[?j := ?x]"
    "t' = t\<lparr>hashTable := table, data := ds\<rparr>" "length table = length (hashTable t)" "chainsOk ops (hashShift t) table ds" by blast
  have "tableOk ops t' \<and> live ops t' = rekeyList ops (getKey ops y) ?x (live ops t) \<and> rangesMap ops (rekeyList ops (getKey ops y) ?x) t t'"
    by (rule rekey_element [OF ok x(1) j f m _ t'(2-5)]) (use fresh x(2) in auto)
  then show ?thesis using t'(1) by blast
qed

end


end
