(* ===== verification/HashableValue.thy ===== *)
theory HashableValue
  imports BigInt_Value HashFunctions OrderedHashTable_Refine OrderedHashTable_Rekey
begin

text \<open>
  The keys of \<open>Map\<close> and \<open>Set\<close>: \<open>HashableValue\<close> (\<open>js/src/builtin/MapObject.h\<close>, \<open>js/src/builtin/MapObject.cpp\<close>),
  its normalisation, hash and equality, and the operations \<open>MapOps\<close> and \<open>SetOps\<close> that
  \<open>js/src/ds/OrderedHashTable.h\<close> derives from a hash policy.  Equality of normalised values is
  \<open>SameValueZero\<close> of ECMAScript.
\<close>

section \<open>The bits of a value\<close>

text \<open>
  The boxing of \<open>js/public/Value.h\<close> on a 64-bit platform.  What the garbage collector and the atoms table
  know is the parameter \<open>heap\<close>: the address of an object, the stored hash of a symbol, the scrambler of
  the realm, and which cells are in the nursery.
\<close>

record heap =
  objectAddress :: "nat \<Rightarrow> u64"
  symbolHash :: "nat \<Rightarrow> u32"
  scramblerOf :: scrambler
  isNursery :: "jsvalue \<Rightarrow> bool"

definition JSVAL_TAG_SHIFT :: nat where
  "JSVAL_TAG_SHIFT = 47"

definition JSVAL_TAG_MAX_DOUBLE :: u32 where
  "JSVAL_TAG_MAX_DOUBLE = 0x1FFF0"

definition bitsFromTagAndPayload :: "u32 \<Rightarrow> u64 \<Rightarrow> u64" where
  "bitsFromTagAndPayload tag payload = push_bit JSVAL_TAG_SHIFT (ucast (JSVAL_TAG_MAX_DOUBLE OR tag)) OR payload"

definition CanonicalizedNaNBits :: double where
  "CanonicalizedNaNBits = 0x7FF8000000000000"

definition CanonicalizeNaN :: "double \<Rightarrow> double" where
  "CanonicalizeNaN d = (if IsNaN d then CanonicalizedNaNBits else d)"

text \<open>A key: a value, or the magic value \<open>JS_HASH_KEY_EMPTY\<close>, the eighth of its enumeration.\<close>

datatype hashable = Hashable jsvalue | EmptyKey

section \<open>Normalisation, hash and equality\<close>

text \<open>\<open>AtomizeString\<close>: the unique string of those characters, which may have to be allocated.\<close>

definition AtomizeString :: "jsstring \<Rightarrow> jsstring option eng" where
  "AtomizeString str = bindM tryAlloc (\<lambda>ok.
     if ok then returnM (Some (str\<lparr>isRope := False, needsCopy := False\<rparr>)) else returnM None)"

definition setValue :: "jsvalue \<Rightarrow> hashable option eng" where
  "setValue v =
     (case v of
        StringValue str \<Rightarrow>
          bindM (AtomizeString str) (\<lambda>atom.
          case atom of None \<Rightarrow> returnM None | Some str \<Rightarrow> returnM (Some (Hashable (StringValue str))))
      | DoubleValue d \<Rightarrow>
          (case NumberEqualsInt32 d of
             Some i \<Rightarrow> returnM (Some (Hashable (Int32Value i)))
           | None \<Rightarrow> returnM (Some (Hashable (DoubleValue (CanonicalizeNaN d)))))
      | _ \<Rightarrow> returnM (Some (Hashable v)))"

text \<open>
  \<open>HashValue\<close>.  The scrambler takes a 32-bit code, so only the low half of the bits of an object enters
  it.  A deleted key is never hashed; its bits are those of the magic value.
\<close>

fun HashValue :: "heap \<Rightarrow> hashable \<Rightarrow> u32" where
  "HashValue hp (Hashable (StringValue str)) = HashStringKnownLength (chars str)"
| "HashValue hp (Hashable (SymbolValue s)) = symbolHash hp s"
| "HashValue hp (Hashable (BigIntValue x)) = bigintHash x"
| "HashValue hp (Hashable (ObjectValue obj)) =
     scramble (scramblerOf hp) (ucast (bitsFromTagAndPayload 0x0c (objectAddress hp obj)))"
| "HashValue hp (Hashable (DoubleValue d)) = HashGeneric d"
| "HashValue hp (Hashable (Int32Value i)) = HashGeneric (bitsFromTagAndPayload 0x01 (ucast i))"
| "HashValue hp (Hashable (BooleanValue b)) = HashGeneric (bitsFromTagAndPayload 0x02 (if b then 1 else 0))"
| "HashValue hp (Hashable UndefinedValue) = HashGeneric (bitsFromTagAndPayload 0x03 0)"
| "HashValue hp (Hashable NullValue) = HashGeneric (bitsFromTagAndPayload 0x04 0)"
| "HashValue hp EmptyKey = HashGeneric (bitsFromTagAndPayload 0x05 7)"

text \<open>
  \<open>operator==\<close> compares the bits, and two BigInts with different bits by \<open>BigInt::equal\<close>.  A value of the model has no
  address, so which values have the same bits is an argument: values that do are the same value, and the same value
  has the same bits (atoms, symbols and objects are unique) unless it is a BigInt, which may have any number of cells.
\<close>

definition evalM :: "'a eng \<Rightarrow> 'a option" where
  "evalM m = (case fst (m \<lparr>allocOk = (\<lambda>k. False), junk = (\<lambda>k i. 0)\<rparr> 0) of Inl e \<Rightarrow> None | Inr x \<Rightarrow> Some x)"

definition operatorEq :: "(hashable \<Rightarrow> hashable \<Rightarrow> bool) \<Rightarrow> hashable \<Rightarrow> hashable \<Rightarrow> bool" where
  "operatorEq sameBits k l =
     (let b = sameBits k l in
      if \<not> b then (case (k, l) of
          (Hashable (BigIntValue x), Hashable (BigIntValue y)) \<Rightarrow> evalM (equal x y) = Some True
        | _ \<Rightarrow> False)
      else b)"

fun isBigIntKey :: "hashable \<Rightarrow> bool" where
  "isBigIntKey (Hashable (BigIntValue x)) = True"
| "isBigIntKey _ = False"

definition rawBits :: "(hashable \<Rightarrow> hashable \<Rightarrow> bool) \<Rightarrow> bool" where
  "rawBits sameBits \<longleftrightarrow> (\<forall>k l. (sameBits k l \<longrightarrow> k = l) \<and> (k = l \<and> \<not> isBigIntKey k \<longrightarrow> sameBits k l))"

text \<open>The tables of the model take any two BigInts to be different cells, so that they compare by content.\<close>

definition hashableEq :: "hashable \<Rightarrow> hashable \<Rightarrow> bool" where
  "hashableEq = operatorEq (\<lambda>k l. k = l \<and> \<not> isBigIntKey k)"

section \<open>From a policy to the operations of the table\<close>

record 'k Policy =
  policyHash :: "'k \<Rightarrow> u32"
  policyMatch :: "'k \<Rightarrow> 'k \<Rightarrow> bool"
  policyIsEmpty :: "'k \<Rightarrow> bool"
  emptyKeyOf :: "'k \<Rightarrow> 'k"

record ('k, 'v) Entry =
  entryKey :: 'k
  entryValue :: 'v

text \<open>The first argument of \<open>MapOps\<close> is the value \<open>Value()\<close>.\<close>

definition MapOps :: "'v \<Rightarrow> 'k Policy \<Rightarrow> (('k, 'v) Entry, 'k) Ops" where
  "MapOps v P = \<lparr>getKey = entryKey, setKey = (\<lambda>e k. e\<lparr>entryKey := k\<rparr>), isEmpty = policyIsEmpty P,
     makeEmpty = (\<lambda>e. \<lparr>entryKey = emptyKeyOf P (entryKey e), entryValue = v\<rparr>),
     hashOf = policyHash P, match = policyMatch P\<rparr>"

definition SetOps :: "'k Policy \<Rightarrow> ('k, 'k) Ops" where
  "SetOps P = \<lparr>getKey = (\<lambda>k. k), setKey = (\<lambda>e k. k), isEmpty = policyIsEmpty P, makeEmpty = emptyKeyOf P,
     hashOf = policyHash P, match = policyMatch P\<rparr>"

definition Hasher :: "heap \<Rightarrow> hashable Policy" where
  "Hasher hp = \<lparr>policyHash = HashValue hp, policyMatch = hashableEq, policyIsEmpty = (\<lambda>k. k = EmptyKey),
     emptyKeyOf = (\<lambda>k. EmptyKey)\<rparr>"

text \<open>The laws of a policy; they make both kinds of operations lawful.\<close>

locale key_policy =
  fixes P :: "'k Policy"
  assumes policy_refl: "policyMatch P k k"
    and policy_sym: "policyMatch P k l \<Longrightarrow> policyMatch P l k"
    and policy_trans: "policyMatch P k l \<Longrightarrow> policyMatch P l m \<Longrightarrow> policyMatch P k m"
    and policy_hash: "policyMatch P k l \<Longrightarrow> policyHash P k = policyHash P l"
    and policy_isEmpty: "policyMatch P k l \<Longrightarrow> policyIsEmpty P k = policyIsEmpty P l"
    and policy_empty: "policyIsEmpty P (emptyKeyOf P k)"

sublocale key_policy \<subseteq> map_ops: hash_policy "MapOps v P" for v
proof (unfold_locales, goal_cases)
  case (3 k l m)
  then show ?case using policy_trans [of k l m] by (simp add: MapOps_def)
qed (simp_all add: MapOps_def policy_refl policy_sym policy_hash policy_isEmpty policy_empty)

sublocale key_policy \<subseteq> set_ops: hash_policy "SetOps P"
proof (unfold_locales, goal_cases)
  case (3 k l m)
  then show ?case using policy_trans [of k l m] by (simp add: SetOps_def)
qed (simp_all add: SetOps_def policy_refl policy_sym policy_hash policy_isEmpty policy_empty)

lemma equalFrom_eq:
  "i + n \<le> digitLength x \<Longrightarrow> i + n \<le> digitLength y \<Longrightarrow>
    equalFrom n i x y = returnM (take n (drop i (digits x)) = take n (drop i (digits y)))"
proof (induction n arbitrary: i)
  case (Suc n)
  have "drop i (digits x) = digits x ! i # drop (Suc i) (digits x)"
    and "drop i (digits y) = digits y ! i # drop (Suc i) (digits y)"
    using Suc.prems by (simp_all add: Cons_nth_drop_Suc)
  then show ?case using Suc.IH [of "Suc i"] Suc.prems by simp
qed simp

lemma equal_eq: "equal x y = returnM (x = y)"
  by (auto simp: equal_def equalFrom_eq intro!: arg_cong [of _ _ returnM] bigint.equality)

lemma evalM_returnM [simp]: "evalM (returnM x) = Some x"
  by (simp add: evalM_def returnM_def)

text \<open>Whatever the cells are, \<open>operator==\<close> compares the contents.\<close>

lemma operatorEq_iff:
  assumes "rawBits sameBits"
  shows "operatorEq sameBits k l \<longleftrightarrow> k = l"
proof (cases "isBigIntKey k \<and> isBigIntKey l")
  case True
  then obtain x y where kl: "k = Hashable (BigIntValue x)" "l = Hashable (BigIntValue y)"
    by (metis isBigIntKey.elims(2))
  have "sameBits k l \<Longrightarrow> x = y" using assms kl by (auto simp: rawBits_def)
  then show ?thesis by (auto simp: operatorEq_def kl equal_eq Let_def)
next
  case False
  then have "(case (k, l) of (Hashable (BigIntValue x), Hashable (BigIntValue y)) \<Rightarrow> evalM (equal x y) = Some True | _ \<Rightarrow> False) = False"
    by (cases k rule: isBigIntKey.cases; cases l rule: isBigIntKey.cases) simp_all
  then have "operatorEq sameBits k l \<longleftrightarrow> sameBits k l" by (simp add: operatorEq_def Let_def)
  then show ?thesis using assms False by (auto simp: rawBits_def)
qed

lemma hashableEq_iff: "hashableEq k l \<longleftrightarrow> k = l"
  unfolding hashableEq_def by (rule operatorEq_iff) (simp add: rawBits_def)

interpretation hashable: key_policy "Hasher hp" for hp
  by unfold_locales (simp_all add: Hasher_def hashableEq_iff)

section \<open>SameValueZero\<close>

text \<open>The specification: NaN is itself, the zeroes are one number, other numbers are equal as numbers.\<close>

definition sameNumber :: "double \<Rightarrow> double \<Rightarrow> bool" where
  "sameNumber d e \<longleftrightarrow> IsNaN d \<and> IsNaN e \<or> IsFinite d \<and> IsFinite e \<and> dscaled d = dscaled e \<or> IsInfinite d \<and> d = e"

fun numberOf :: "jsvalue \<Rightarrow> double option" where
  "numberOf (Int32Value i) = Some (doubleFromInt32 i)"
| "numberOf (DoubleValue d) = Some d"
| "numberOf v = None"

definition SameValueZero :: "jsvalue \<Rightarrow> jsvalue \<Rightarrow> bool" where
  "SameValueZero v w \<longleftrightarrow>
     (case (numberOf v, numberOf w) of
        (Some d, Some e) \<Rightarrow> sameNumber d e
      | (None, None) \<Rightarrow>
          (case (v, w) of
             (StringValue s, StringValue t) \<Rightarrow> chars s = chars t
           | (BigIntValue x, BigIntValue y) \<Rightarrow> bval x = bval y
           | _ \<Rightarrow> v = w)
      | _ \<Rightarrow> False)"

text \<open>The key that \<open>setValue\<close> makes, when it does not run out of memory.\<close>

definition keyOf :: "jsvalue \<Rightarrow> hashable" where
  "keyOf v =
     Hashable (case v of
        StringValue str \<Rightarrow> StringValue (str\<lparr>isRope := False, needsCopy := False\<rparr>)
      | DoubleValue d \<Rightarrow> (case NumberEqualsInt32 d of Some i \<Rightarrow> Int32Value i | None \<Rightarrow> DoubleValue (CanonicalizeNaN d))
      | _ \<Rightarrow> v)"

lemma runs_setValue:
  assumes "Q (Some (keyOf v))" and "\<not> (\<forall>k. allocOk env k) \<Longrightarrow> Q None"
  shows "runs (setValue v) env E Q"
proof (cases "\<exists>str. v = StringValue str")
  case True
  then obtain str where v: "v = StringValue str" ..
  have "runs tryAlloc env E (\<lambda>ok. if ok then Q (Some (keyOf v)) else Q None)"
    by (rule runs_tryAlloc) (use assms in auto)
  then show ?thesis
    unfolding v setValue_def AtomizeString_def jsvalue.case bindM_assoc
    by (rule runs_bindI [OF runs_weakenQ]) (auto simp: keyOf_def split: if_splits)
next
  case False
  then have "setValue v = returnM (Some (keyOf v))"
    by (cases v) (auto simp: setValue_def keyOf_def split: option.split)
  then show ?thesis using assms(1) by simp
qed

lemma NumberEqualsInt32_iff: "NumberEqualsInt32 d = Some i \<longleftrightarrow> IsFinite d \<and> dscaled d = sint i * 2 ^ 1074"
proof
  assume n: "NumberEqualsInt32 d = Some i"
  then have f: "IsFinite d" "- (2 ^ 31) * 2 ^ 1074 \<le> dscaled d" "dscaled d \<le> (2 ^ 31 - 1) * 2 ^ 1074"
    "dtrunc d * 2 ^ 1074 = dscaled d" "i = of_int (dtrunc d)"
    by (auto simp: NumberEqualsInt32_def Let_def split: if_splits)
  have "- (2 ^ 31) \<le> dtrunc d" "dtrunc d \<le> 2 ^ 31 - 1"
    using f(2,3) unfolding f(4) [symmetric] by (simp_all only: mult_le_cancel_right) auto
  then have "sint (of_int (dtrunc d) :: u32) = dtrunc d"
    by (simp add: signed_of_int signed_take_bit_int_eq_self)
  then show "IsFinite d \<and> dscaled d = sint i * 2 ^ 1074" using f by simp
next
  assume a: "IsFinite d \<and> dscaled d = sint i * 2 ^ 1074"
  have r: "- (2 ^ 31) \<le> sint i" "sint i \<le> 2 ^ 31 - 1"
    using sint_greater_eq [of i] sint_less [of i] by simp_all
  have "dtrunc d = sint i"
    using a by (auto simp: dtrunc_def dscaled_def split: if_splits)
  then show "NumberEqualsInt32 d = Some i" using a r by (simp add: NumberEqualsInt32_def)
qed


lemma IsInfinite_iff: "IsInfinite d \<longleftrightarrow> \<not> IsFinite d \<and> \<not> IsNaN d"
proof -
  have k: "NOT kSignBit = kExponentBits OR kSignificandBits" "kExponentBits AND kSignificandBits = 0"
    by (simp_all add: kSignBit_def kExponentBits_def kSignificandBits_def kSignificandWidth_def kExponentWidth_def
      word_eq_iff_unsigned push_bit_eq_mult mask_eq_exp_minus_1)
  have "IsInfinite d \<longleftrightarrow> d AND kExponentBits = kExponentBits \<and> d AND kSignificandBits = 0"
  proof
    assume "IsInfinite d"
    then have i: "d AND (kExponentBits OR kSignificandBits) = kExponentBits" by (simp add: IsInfinite_def k)
    have a: "d AND kExponentBits = (d AND (kExponentBits OR kSignificandBits)) AND kExponentBits"
      and b: "d AND kSignificandBits = (d AND (kExponentBits OR kSignificandBits)) AND kSignificandBits"
      by (auto simp: bit_eq_iff bit_simps)
    then show "d AND kExponentBits = kExponentBits \<and> d AND kSignificandBits = 0" unfolding i k(2) by simp
  next
    assume "d AND kExponentBits = kExponentBits \<and> d AND kSignificandBits = 0"
    then show "IsInfinite d" unfolding IsInfinite_def k(1) bit.conj_disj_distrib by simp
  qed
  then show ?thesis by (auto simp: IsFinite_def IsNaN_def)
qed

text \<open>Two numbers have the same key exactly when they are the same number.\<close>

lemma keyOf_number:
  assumes "numberOf v = Some d" and "numberOf w = Some e"
  shows "keyOf v = keyOf w \<longleftrightarrow> sameNumber d e"
proof -
  have key: "keyOf u = keyOf (DoubleValue f)" if "numberOf u = Some f" for u f
    using that by (cases u) (auto simp: keyOf_def NumberEqualsInt32_iff doubleFromInt32_value dest: signed_word_eqI split: option.split)
  have "keyOf (DoubleValue d) = keyOf (DoubleValue e) \<longleftrightarrow> sameNumber d e"
  proof (cases "NumberEqualsInt32 d")
    case (Some i)
    then have d: "IsFinite d" "dscaled d = sint i * 2 ^ 1074" by (simp_all add: NumberEqualsInt32_iff)
    then have "NumberEqualsInt32 e = Some i \<longleftrightarrow> sameNumber d e"
      by (auto simp: NumberEqualsInt32_iff sameNumber_def IsInfinite_iff IsFinite_not_NaN)
    then show ?thesis using Some by (auto simp: keyOf_def dest: signed_word_eqI split: option.split)
  next
    case None
    show ?thesis
    proof (cases "NumberEqualsInt32 e")
      case (Some i)
      then have e: "IsFinite e" "dscaled e = sint i * 2 ^ 1074" by (simp_all add: NumberEqualsInt32_iff)
      then have "\<not> (IsFinite d \<and> dscaled d = dscaled e)" using None by (metis NumberEqualsInt32_iff option.distinct(1))
      then show ?thesis using Some None e
        by (auto simp: keyOf_def sameNumber_def IsInfinite_iff IsFinite_not_NaN)
    next
      case e: None
      have nz: "\<not> deq0 d" if "IsFinite d"
      proof
        assume "deq0 d"
        then have "NumberEqualsInt32 d = Some 0"
          using that by (simp add: NumberEqualsInt32_iff dscaled_def deq0_iff)
        then show False using None by simp
      qed
      have nan: "IsNaN CanonicalizedNaNBits"
        by (simp add: CanonicalizedNaNBits_def IsNaN_def kExponentBits_def kSignificandBits_def kSignificandWidth_def
          kExponentWidth_def push_bit_eq_mult mask_eq_exp_minus_1)
      have "CanonicalizeNaN d = CanonicalizeNaN e \<longleftrightarrow> sameNumber d e"
        using nz dscaled_inj [of d e] nan
        by (auto simp: CanonicalizeNaN_def sameNumber_def IsInfinite_iff IsFinite_not_NaN split: if_splits)
      then show ?thesis using None e by (simp add: keyOf_def)
    qed
  qed
  then show ?thesis using key [OF assms(1)] key [OF assms(2)] by simp
qed

lemma atom_eq [simp]:
  "str\<lparr>isRope := False, needsCopy := False\<rparr> = str'\<lparr>isRope := False, needsCopy := False\<rparr> \<longleftrightarrow> chars str = chars (str' :: jsstring)"
  by (cases str; cases str') simp

lemma keyOf_not_empty [simp]: "keyOf v \<noteq> EmptyKey"
  by (simp add: keyOf_def)

lemma keyOf_SameValueZero:
  assumes "validValue v" and "validValue w"
  shows "keyOf v = keyOf w \<longleftrightarrow> SameValueZero v w"
proof (cases "numberOf v = None \<or> numberOf w = None")
  case True
  have "x = y \<longleftrightarrow> bval x = bval y" if "v = BigIntValue x" "w = BigIntValue y" for x y
    using that assms wf_bval_unique by auto
  then show ?thesis
    using True
    by (cases v; cases w) (auto simp: keyOf_def SameValueZero_def split: option.splits)
next
  case False
  then show ?thesis by (auto simp: SameValueZero_def keyOf_number)
qed

text \<open>
  C37. Keys compare as SameValueZero.  \<open>HashableValue::setValue\<close> fails only when a string cannot be
  atomized; otherwise the keys it makes of two values are equal under \<open>operator==\<close> exactly when the
  values are the same under SameValueZero (NaN equals NaN, the two zeroes are one key, 1 as an int32 and 1 as
  a double are one key, strings and BigInts by content), equal keys have equal hashes, and no key is
  the deleted key.  This is so whichever cells hold the BigInts.
\<close>

theorem hashable_SameValueZero:
  assumes "validValue v" and "validValue w" and "rawBits sameBits"
  shows "runs (bindM (setValue v) (\<lambda>k. bindM (setValue w) (\<lambda>l. returnM (k, l)))) env (\<lambda>e. False)
    (\<lambda>r. case r of
        (Some k, Some l) \<Rightarrow> (operatorEq sameBits k l \<longleftrightarrow> SameValueZero v w) \<and>
          (operatorEq sameBits k l \<longrightarrow> HashValue hp k = HashValue hp l) \<and> k \<noteq> EmptyKey \<and> l \<noteq> EmptyKey
      | _ \<Rightarrow> \<not> (\<forall>n. allocOk env n))"
proof -
  have "SameValueZero v w \<longrightarrow> HashValue hp (keyOf v) = HashValue hp (keyOf w)"
    using keyOf_SameValueZero [OF assms(1,2)] by auto
  then show ?thesis
    by (auto intro!: runs_bindI runs_setValue simp: operatorEq_iff [OF assms(3)] keyOf_SameValueZero [OF assms(1,2)]
        split: option.split)
qed

text \<open>The two zeroes are one key, and two BigInts of the same value in different cells are one key.\<close>

lemma hashable_SameValueZero_witness:
  "runs (bindM (setValue (Int32Value 0)) (\<lambda>k. bindM (setValue (DoubleValue kSignBit)) (\<lambda>l. returnM (k, l)))) plenty (\<lambda>e. False)
    (\<lambda>r. case r of (Some k, Some l) \<Rightarrow> operatorEq (=) k l | _ \<Rightarrow> False) \<and>
   runs (bindM (setValue (BigIntValue \<lparr>digits = [7, 1], isNegative = True\<rparr>)) (\<lambda>k.
      bindM (setValue (BigIntValue \<lparr>digits = [7, 1], isNegative = True\<rparr>)) (\<lambda>l. returnM (k, l)))) plenty (\<lambda>e. False)
    (\<lambda>r. case r of (Some k, Some l) \<Rightarrow> operatorEq (\<lambda>k l. k = l \<and> \<not> isBigIntKey k) k l | _ \<Rightarrow> False)"
proof -
  have bits: "rawBits (=)" "rawBits (\<lambda>k l. k = l \<and> \<not> isBigIntKey k)" by (simp_all add: rawBits_def)
  have zero: "SameValueZero (Int32Value 0) (DoubleValue kSignBit)"
    by (simp add: SameValueZero_def sameNumber_def doubleFromInt32_value)
      (simp add: IsFinite_def dscaled_def dmag_def dexp_def dfrac_def kSignBit_def kExponentBits_def kSignificandBits_def
        kSignificandWidth_def kExponentWidth_def push_bit_eq_mult mask_eq_exp_minus_1)
  have same: "SameValueZero (BigIntValue \<lparr>digits = [7, 1], isNegative = True\<rparr>) (BigIntValue \<lparr>digits = [7, 1], isNegative = True\<rparr>)"
    by (simp add: SameValueZero_def)
  have fin: "runs m plenty (\<lambda>e. False) (\<lambda>r. case r of (Some k, Some l) \<Rightarrow> (eq k l \<longleftrightarrow> True) \<and>
      (eq k l \<longrightarrow> HashValue hp k = HashValue hp l) \<and> k \<noteq> EmptyKey \<and> l \<noteq> EmptyKey | _ \<Rightarrow> \<not> (\<forall>n. allocOk plenty n)) \<Longrightarrow>
    runs m plenty (\<lambda>e. False) (\<lambda>r. case r of (Some k, Some l) \<Rightarrow> eq k l | _ \<Rightarrow> False)" for m eq
    by (erule runs_weakenQ) (auto simp: plenty_def split: option.splits)
  show ?thesis
    using fin [OF hashable_SameValueZero [OF _ _ bits(1), of "Int32Value 0" "DoubleValue kSignBit" plenty, unfolded eqTrueI [OF zero]]]
      fin [OF hashable_SameValueZero [OF _ _ bits(2), of "BigIntValue \<lparr>digits = [7, 1], isNegative = True\<rparr>"
        "BigIntValue \<lparr>digits = [7, 1], isNegative = True\<rparr>" plenty, unfolded eqTrueI [OF same]]]
    by (simp add: wf_eval)
qed


end
