(* ===== verification/MapObject.thy ===== *)
theory MapObject
  imports HashableValue
begin

text \<open>
  The \<open>Map\<close> and \<open>Set\<close> objects of \<open>js/src/builtin/MapObject.cpp\<close>: a table of normalised keys, the iterator
  objects over it, and what the generational collector does to them.  The functions of the two
  classes are the same text over another table, so each is written once over a \<open>Collection\<close>.
\<close>

section \<open>State\<close>

datatype IteratorKind = Keys | Values | Entries

text \<open>
  An iterator object: \<open>RangeSlot\<close>, where \<open>None\<close> is a null or unset pointer, \<open>KindSlot\<close>, and whether the
  object is in the nursery.
\<close>

record IteratorObject =
  RangeSlot :: "nat option"
  KindSlot :: IteratorKind
  iteratorInNursery :: bool

text \<open>
  A \<open>MapObject\<close> or \<open>SetObject\<close>: its private table, where the object is, its two reserved slots, and the
  iterator objects made for it, in the order of creation; a collected one becomes \<open>None\<close>.
\<close>

record 't TableObject =
  getData :: "'t OrderedHashTable"
  insideNursery :: bool
  HasNurseryMemory :: bool
  NurseryKeys :: "jsvalue list option"
  iterators :: "IteratorObject option list"

text \<open>
  What tells the two classes apart: the table's operations, the element made of a key and the second
  argument, what an iterator writes into its result array, the tracing of the value edge, and the value that
  \<open>get\<close> reads, which a set does not have.
\<close>

record 't Collection =
  tableOps :: "('t, hashable) Ops"
  newElement :: "hashable \<Rightarrow> jsvalue \<Rightarrow> 't"
  writeResult :: "IteratorKind \<Rightarrow> 't \<Rightarrow> jsvalue list \<Rightarrow> jsvalue list"
  traceValue :: "(nat \<Rightarrow> nat) \<Rightarrow> 't \<Rightarrow> 't"
  readValue :: "('t \<Rightarrow> jsvalue) option"

fun getKeyValue :: "hashable \<Rightarrow> jsvalue" where
  "getKeyValue (Hashable v) = v"

definition forwardValue :: "(nat \<Rightarrow> nat) \<Rightarrow> jsvalue \<Rightarrow> jsvalue" where
  "forwardValue f v = (case v of ObjectValue obj \<Rightarrow> ObjectValue (f obj) | _ \<Rightarrow> v)"

definition forwardKey :: "(nat \<Rightarrow> nat) \<Rightarrow> hashable \<Rightarrow> hashable" where
  "forwardKey f k = (case k of Hashable v \<Rightarrow> Hashable (forwardValue f v) | EmptyKey \<Rightarrow> EmptyKey)"

definition writeMapResult :: "IteratorKind \<Rightarrow> (hashable, jsvalue) Entry \<Rightarrow> jsvalue list \<Rightarrow> jsvalue list" where
  "writeMapResult kind e result =
     (case kind of
        Keys \<Rightarrow> result[0 := getKeyValue (entryKey e)]
      | Values \<Rightarrow> result[1 := entryValue e]
      | Entries \<Rightarrow> result[0 := getKeyValue (entryKey e), 1 := entryValue e])"

definition MapCollection :: "heap \<Rightarrow> (hashable, jsvalue) Entry Collection" where
  "MapCollection hp = \<lparr>tableOps = MapOps UndefinedValue (Hasher hp),
     newElement = (\<lambda>k v. \<lparr>entryKey = k, entryValue = v\<rparr>), writeResult = writeMapResult,
     traceValue = (\<lambda>f e. e\<lparr>entryValue := forwardValue f (entryValue e)\<rparr>), readValue = Some entryValue\<rparr>"

definition SetCollection :: "heap \<Rightarrow> hashable Collection" where
  "SetCollection hp = \<lparr>tableOps = SetOps (Hasher hp), newElement = (\<lambda>k v. k),
     writeResult = (\<lambda>kind k result. result[0 := getKeyValue k]), traceValue = (\<lambda>f k. k),
     readValue = None\<rparr>"

section \<open>The methods\<close>

text \<open>
  A function that returns \<open>false\<close> with an exception pending returns \<open>None\<close>, or the flag, and the object as it
  leaves it.  \<open>args\<close> are the arguments of the call; one that is missing reads as \<open>undefined\<close>.
\<close>

definition argAt :: "jsvalue list \<Rightarrow> nat \<Rightarrow> jsvalue" where
  "argAt args i = (if i < length args then args ! i else UndefinedValue)"

definition ARG0_KEY :: "jsvalue list \<Rightarrow> hashable option eng" where
  "ARG0_KEY args = (if length args > 0 then setValue (args ! 0) else returnM (Some (Hashable UndefinedValue)))"

fun isGCThing :: "jsvalue \<Rightarrow> bool" where
  "isGCThing (StringValue s) = True"
| "isGCThing (SymbolValue s) = True"
| "isGCThing (BigIntValue x) = True"
| "isGCThing (ObjectValue obj) = True"
| "isGCThing _ = False"

definition WriteBarrierPostImpl :: "heap \<Rightarrow> 't TableObject \<Rightarrow> jsvalue \<Rightarrow> (bool \<times> 't TableObject) eng" where
  "WriteBarrierPostImpl hp obj keyValue =
     (if \<not> isObject keyValue \<and> \<not> isBigInt keyValue
      then mozAssert (isGCThing keyValue \<longrightarrow> \<not> isNursery hp keyValue) (returnM (True, obj))
      else if insideNursery obj then returnM (True, obj)
      else if \<not> isNursery hp keyValue then returnM (True, obj)
      else
        bindM (case NurseryKeys obj of
            Some keys \<Rightarrow> returnM (Some keys)
          | None \<Rightarrow> bindM tryAlloc (\<lambda>ok. returnM (if ok then Some [] else None))) (\<lambda>keys.
        case keys of
          None \<Rightarrow> returnM (False, obj)
        | Some keys \<Rightarrow>
            bindM tryAlloc (\<lambda>ok.
            if ok then returnM (True, obj\<lparr>NurseryKeys := Some (keys @ [keyValue])\<rparr>)
            else returnM (False, obj\<lparr>NurseryKeys := Some keys\<rparr>))))"

text \<open>\<open>create\<close>, where \<open>nursery\<close> is the allocator's choice of a place for the object.\<close>

definition TableObject_create :: "bool \<Rightarrow> 't TableObject option eng" where
  "TableObject_create nursery =
     bindM tryAlloc (\<lambda>ok.
     if \<not> ok then returnM None
     else
       bindM (init newTable) (\<lambda>(ok, table).
       if \<not> ok then returnM None
       else
         bindM tryAlloc (\<lambda>ok.
         if \<not> ok then returnM None
         else
           bindM (if nursery then tryAlloc else returnM True) (\<lambda>ok.
           if \<not> ok then returnM None
           else
             returnM (Some \<lparr>getData = table, insideNursery = nursery, HasNurseryMemory = nursery, NurseryKeys = None,
               iterators = []\<rparr>)))))"

definition TableObject_put :: "heap \<Rightarrow> 't Collection \<Rightarrow> 't TableObject \<Rightarrow> jsvalue list \<Rightarrow> (bool \<times> 't TableObject) eng" where
  "TableObject_put hp C obj args =
     bindM (ARG0_KEY args) (\<lambda>key.
     case key of
       None \<Rightarrow> returnM (False, obj)
     | Some key \<Rightarrow>
         bindM (WriteBarrierPostImpl hp obj (getKeyValue key)) (\<lambda>(ok, obj).
         if \<not> ok then returnM (False, obj)
         else
           bindM (put (tableOps C) (getData obj) (newElement C key (argAt args 1))) (\<lambda>(ok, table).
           returnM (ok, obj\<lparr>getData := table\<rparr>))))"

definition TableObject_get :: "'t Collection \<Rightarrow> 't TableObject \<Rightarrow> jsvalue \<Rightarrow> jsvalue option eng" where
  "TableObject_get C obj key =
     (case readValue C of
        None \<Rightarrow> throwM UndefinedBehavior
      | Some read \<Rightarrow>
          bindM (setValue key) (\<lambda>k.
          case k of
            None \<Rightarrow> returnM None
          | Some k \<Rightarrow>
              bindM (get (tableOps C) (getData obj) k) (\<lambda>p.
              returnM (Some (case p of Some p \<Rightarrow> read p | None \<Rightarrow> UndefinedValue)))))"

definition TableObject_has :: "'t Collection \<Rightarrow> 't TableObject \<Rightarrow> jsvalue \<Rightarrow> bool option eng" where
  "TableObject_has C obj key =
     bindM (setValue key) (\<lambda>k.
     case k of None \<Rightarrow> returnM None
     | Some k \<Rightarrow> bindM (has (tableOps C) (getData obj) k) (\<lambda>b. returnM (Some b)))"

definition TableObject_delete :: "'t Collection \<Rightarrow> 't TableObject \<Rightarrow> jsvalue list \<Rightarrow> (bool option \<times> 't TableObject) eng" where
  "TableObject_delete C obj args =
     bindM (ARG0_KEY args) (\<lambda>key.
     case key of
       None \<Rightarrow> returnM (None, obj)
     | Some key \<Rightarrow>
         bindM (remove (tableOps C) (getData obj) key) (\<lambda>(ok, found, table).
         returnM (if ok then Some found else None, obj\<lparr>getData := table\<rparr>)))"

definition TableObject_clear :: "'t TableObject \<Rightarrow> (bool \<times> 't TableObject) eng" where
  "TableObject_clear obj = bindM (clear (getData obj)) (\<lambda>(ok, table). returnM (ok, obj\<lparr>getData := table\<rparr>))"

definition TableObject_size :: "'t TableObject \<Rightarrow> nat" where
  "TableObject_size obj = count (getData obj)"

section \<open>The iterators\<close>

text \<open>The memory of a new range: an address that no live range has.\<close>

definition freshRange :: "'t OrderedHashTable \<Rightarrow> nat" where
  "freshRange t = Suc (foldr max (ranges t @ nurseryRanges t) 0)"

text \<open>
  \<open>create\<close> of the iterator classes: the prototype may have to be made, the object goes where the allocator
  likes, and when there is no room for its buffer the object is made again outside the nursery.
\<close>

definition iteratorBuffer :: "bool \<Rightarrow> bool option eng" where
  "iteratorBuffer nursery =
     bindM tryAlloc (\<lambda>ok.
     if \<not> ok then returnM None
     else
       bindM tryAlloc (\<lambda>ok.
       if \<not> ok then returnM None
       else
         bindM tryAlloc (\<lambda>ok.
         if ok then returnM (Some nursery)
         else
           bindM tryAlloc (\<lambda>ok.
           if \<not> ok then returnM None
           else bindM tryAlloc (\<lambda>ok. returnM (if ok then Some False else None))))))"

definition IteratorObject_create ::
  "'t Collection \<Rightarrow> 't TableObject \<Rightarrow> IteratorKind \<Rightarrow> bool \<Rightarrow> (nat option \<times> 't TableObject) eng" where
  "IteratorObject_create C obj kind nursery =
     bindM (iteratorBuffer nursery) (\<lambda>place.
     case place of
       None \<Rightarrow> returnM (None, obj)
     | Some nursery \<Rightarrow>
         bindM (if nursery \<and> \<not> HasNurseryMemory obj
                then bindM tryAlloc (\<lambda>ok. returnM (if ok then Some (obj\<lparr>HasNurseryMemory := True\<rparr>) else None))
                else returnM (Some obj)) (\<lambda>registered.
         case registered of
           None \<Rightarrow> returnM (None, obj)
         | Some obj \<Rightarrow>
             let buffer = freshRange (getData obj) in
             bindM (createRange (tableOps C) buffer nursery (getData obj)) (\<lambda>table.
             returnM (Some (length (iterators obj)), obj\<lparr>getData := table,
               iterators := iterators obj @ [Some \<lparr>RangeSlot = Some buffer, KindSlot = kind, iteratorInNursery = nursery\<rparr>]\<rparr>))))"

text \<open>
  \<open>next\<close> returns whether the iterator is done, the result array and the object.  An array that is too
  short for the stores fails an assertion.
\<close>

definition IteratorObject_next ::
  "'t Collection \<Rightarrow> nat \<Rightarrow> 't TableObject \<Rightarrow> nat \<Rightarrow> jsvalue list \<Rightarrow> (bool \<times> jsvalue list \<times> 't TableObject) eng" where
  "IteratorObject_next C resultLength obj i result =
     mozAssert (length result = resultLength) (
     bindM (ptrGet (iterators obj) i) (\<lambda>iterator.
     case iterator of
       None \<Rightarrow> throwM UndefinedBehavior
     | Some iterator \<Rightarrow>
         (case RangeSlot iterator of
            None \<Rightarrow> returnM (True, result, obj)
          | Some rng \<Rightarrow>
              bindM (rangeEmpty (getData obj) rng) (\<lambda>empty.
              if empty
              then returnM (True, result, obj\<lparr>getData := destroyRange rng (getData obj),
                iterators := (iterators obj)[i := Some (iterator\<lparr>RangeSlot := None\<rparr>)]\<rparr>)
              else
                bindM (front (getData obj) rng) (\<lambda>e.
                bindM (popFront (tableOps C) (getData obj) rng) (\<lambda>table.
                returnM (False, writeResult C (KindSlot iterator) e result, obj\<lparr>getData := table\<rparr>)))))))"

text \<open>\<open>finalize\<close>, for a tenured iterator that is no longer reachable.\<close>

definition IteratorObject_finalize :: "nat \<Rightarrow> 't TableObject \<Rightarrow> 't TableObject eng" where
  "IteratorObject_finalize i obj =
     bindM (ptrGet (iterators obj) i) (\<lambda>iterator.
     case iterator of
       None \<Rightarrow> throwM UndefinedBehavior
     | Some iterator \<Rightarrow>
         mozAssert (\<not> iteratorInNursery iterator) (
         let obj = obj\<lparr>iterators := (iterators obj)[i := None]\<rparr> in
         case RangeSlot iterator of
           None \<Rightarrow> returnM obj
         | Some rng \<Rightarrow>
             mozAssert (rng \<notin> set (nurseryRanges (getData obj))) (
             returnM (obj\<lparr>getData := destroyRange rng (getData obj)\<rparr>))))"

section \<open>Garbage collection\<close>

text \<open>
  A minor collection moves every reachable cell of the nursery; the parameter \<open>f\<close> is where each object goes.
  \<open>TraceKey\<close> looks at the key of the range's front entry and corrects the table when it moved.
\<close>

definition TraceKey :: "'t Collection \<Rightarrow> (nat \<Rightarrow> nat) \<Rightarrow> 't OrderedHashTable \<Rightarrow> nat \<Rightarrow> hashable \<Rightarrow> 't OrderedHashTable eng" where
  "TraceKey C f t r key =
     (let newKey = forwardKey f key in
      if newKey \<noteq> key then rekeyFront (tableOps C) t r newKey else returnM t)"

text \<open>\<open>TraceEdge\<close> on the value of the front entry.\<close>

definition traceFront :: "'t Collection \<Rightarrow> (nat \<Rightarrow> nat) \<Rightarrow> 't OrderedHashTable \<Rightarrow> nat \<Rightarrow> 't OrderedHashTable eng" where
  "traceFront C f t r =
     bindM (front t r) (\<lambda>e.
     bindM (ptrGet (data t) (rangeI (rangeAt t r))) (\<lambda>d.
     bindM (ptrSet (data t) (rangeI (rangeAt t r)) (d\<lparr>element := traceValue C f e\<rparr>)) (\<lambda>ds.
     returnM (t\<lparr>data := ds\<rparr>))))"

definition traceStep :: "'t Collection \<Rightarrow> (nat \<Rightarrow> nat) \<Rightarrow> nat \<Rightarrow> 't OrderedHashTable \<Rightarrow> 't OrderedHashTable eng" where
  "traceStep C f r t =
     bindM (front t r) (\<lambda>e.
     bindM (TraceKey C f t r (getKey (tableOps C) e)) (\<lambda>t.
     bindM (traceFront C f t r) (\<lambda>t.
     popFront (tableOps C) t r)))"

definition TableObject_trace :: "'t Collection \<Rightarrow> (nat \<Rightarrow> nat) \<Rightarrow> 't OrderedHashTable \<Rightarrow> 't OrderedHashTable eng" where
  "TableObject_trace C f t =
     (let r = freshRange t in
      bindM (all (tableOps C) r t) (\<lambda>t.
      bindM (rangeEmpty t r) (\<lambda>empty.
      bindM (whileE (\<lambda>(t, empty). \<not> empty)
        (\<lambda>(t, empty). bindM (traceStep C f r t) (\<lambda>t. bindM (rangeEmpty t r) (\<lambda>empty. returnM (t, empty))))
        (t, empty)) (\<lambda>(t, empty).
      returnM (destroyRange r t)))))"

text \<open>
  \<open>OrderedHashMap::rekeyOneEntry\<close> looks for the entry that it hands to the table; the set makes one of the new
  key.  The policy of this code matches keys by their bits; here it is the policy of the table, which differs only
  on BigInts, and \<open>forwardValue\<close> moves no BigInt, so that rekeying one does nothing.  Then \<open>OrderedHashTableRef::trace\<close>, over the keys that the write barrier recorded.
\<close>

definition rekeyEntry :: "'t Collection \<Rightarrow> hashable \<Rightarrow> hashable \<Rightarrow> 't OrderedHashTable \<Rightarrow> 't OrderedHashTable eng" where
  "rekeyEntry C current newKey t =
     bindM (get (tableOps C) t current) (\<lambda>e.
     case e of None \<Rightarrow> returnM t
     | Some e \<Rightarrow> rekeyOneEntry (tableOps C) t current newKey (setKey (tableOps C) e newKey))"

primrec rekeyNurseryKeys :: "'t Collection \<Rightarrow> (nat \<Rightarrow> nat) \<Rightarrow> jsvalue list \<Rightarrow> 't OrderedHashTable \<Rightarrow> 't OrderedHashTable eng" where
  "rekeyNurseryKeys C f [] t = returnM t"
| "rekeyNurseryKeys C f (key # keys) t =
     bindM (rekeyEntry C (Hashable key) (Hashable (forwardValue f key)) t) (rekeyNurseryKeys C f keys)"

definition OrderedHashTableRef_trace :: "'t Collection \<Rightarrow> (nat \<Rightarrow> nat) \<Rightarrow> 't TableObject \<Rightarrow> 't TableObject eng" where
  "OrderedHashTableRef_trace C f obj =
     mozAssert (\<not> insideNursery obj) (
     case NurseryKeys obj of
       None \<Rightarrow> throwM AssertFail
     | Some keys \<Rightarrow>
         bindM (rekeyNurseryKeys C f keys (getData obj)) (\<lambda>t. returnM (obj\<lparr>getData := t, NurseryKeys := None\<rparr>)))"

text \<open>\<open>objectMoved\<close> of an iterator that was in the nursery: the range is copied out of it.\<close>

definition IteratorObject_objectMoved :: "nat \<Rightarrow> 't TableObject \<Rightarrow> 't TableObject eng" where
  "IteratorObject_objectMoved i obj =
     bindM (ptrGet (iterators obj) i) (\<lambda>iterator.
     case iterator of
       None \<Rightarrow> throwM UndefinedBehavior
     | Some iterator \<Rightarrow>
         if \<not> iteratorInNursery iterator then returnM obj
         else
           let iterator = iterator\<lparr>iteratorInNursery := False\<rparr> in
           (case RangeSlot iterator of
              None \<Rightarrow> returnM (obj\<lparr>iterators := (iterators obj)[i := Some iterator]\<rparr>)
            | Some rng \<Rightarrow>
                if rng \<notin> set (nurseryRanges (getData obj))
                then returnM (obj\<lparr>iterators := (iterators obj)[i := Some iterator]\<rparr>)
                else
                  bindM tryAlloc (\<lambda>ok.
                  if \<not> ok then throwM OutOfMemory
                  else
                    let newRange = freshRange (getData obj) in
                    returnM (obj\<lparr>getData := destroyRange rng (copyRange rng newRange (getData obj)),
                      iterators := (iterators obj)[i := Some (iterator\<lparr>RangeSlot := Some newRange\<rparr>)]\<rparr>))))"

definition sweepAfterMinorGC :: "'t TableObject \<Rightarrow> 't TableObject" where
  "sweepAfterMinorGC obj = obj\<lparr>getData := destroyNurseryRanges (getData obj), HasNurseryMemory := False, insideNursery := False\<rparr>"

text \<open>
  A minor collection, as it meets one reachable object.  In the nursery the object is traced as it moves.
  Outside it the store buffer holds an \<open>OrderedHashTableRef\<close> when there are nursery keys, and one
  edge for each nursery value of the table (\<open>traceValues\<close>).  An iterator of the nursery is moved if it is
  reachable and is lost otherwise; last, the objects that \<open>Nursery::sweepMapAndSetObjects\<close> has registered
  drop the ranges that are left in the nursery.
\<close>

definition traceValues :: "'t Collection \<Rightarrow> (nat \<Rightarrow> nat) \<Rightarrow> 't OrderedHashTable \<Rightarrow> 't OrderedHashTable" where
  "traceValues C f t = t\<lparr>data := map (\<lambda>d. d\<lparr>element := traceValue C f (element d)\<rparr>) (data t)\<rparr>"

definition moveIterator :: "(nat \<Rightarrow> bool) \<Rightarrow> nat \<Rightarrow> 't TableObject \<Rightarrow> 't TableObject eng" where
  "moveIterator reachable i obj =
     (case iterators obj ! i of
        None \<Rightarrow> returnM obj
      | Some iterator \<Rightarrow>
          if iteratorInNursery iterator \<and> \<not> reachable i
          then returnM (obj\<lparr>iterators := (iterators obj)[i := None]\<rparr>)
          else IteratorObject_objectMoved i obj)"

definition minorGC :: "'t Collection \<Rightarrow> (nat \<Rightarrow> nat) \<Rightarrow> (nat \<Rightarrow> bool) \<Rightarrow> 't TableObject \<Rightarrow> 't TableObject eng" where
  "minorGC C f reachable obj =
     bindM (if insideNursery obj
            then bindM (TableObject_trace C f (getData obj)) (\<lambda>t. returnM (obj\<lparr>getData := t\<rparr>))
            else
              bindM (if NurseryKeys obj = None then returnM obj else OrderedHashTableRef_trace C f obj) (\<lambda>obj.
              returnM (obj\<lparr>getData := traceValues C f (getData obj)\<rparr>))) (\<lambda>obj.
     bindM (forUp 0 (length (iterators obj)) (moveIterator reachable) obj) (\<lambda>obj.
     returnM (if HasNurseryMemory obj then sweepAfterMinorGC obj else obj)))"


text \<open>A major collection evicts the nursery first, and finalizes the tenured iterators that are unreachable.\<close>

definition finalizeUnreachable :: "(nat \<Rightarrow> bool) \<Rightarrow> nat \<Rightarrow> 't TableObject \<Rightarrow> 't TableObject eng" where
  "finalizeUnreachable reachable i obj =
     (if iterators obj ! i \<noteq> None \<and> \<not> reachable i then IteratorObject_finalize i obj else returnM obj)"

definition collectGarbage :: "'t Collection \<Rightarrow> bool \<Rightarrow> (nat \<Rightarrow> nat) \<Rightarrow> (nat \<Rightarrow> bool) \<Rightarrow> 't TableObject \<Rightarrow> 't TableObject eng" where
  "collectGarbage C major f reachable obj =
     bindM (minorGC C f reachable obj) (\<lambda>obj.
     if major then forUp 0 (length (iterators obj)) (finalizeUnreachable reachable) obj else returnM obj)"

section \<open>Programs\<close>

text \<open>
  What a program does with a map or set, with the collections that happen in between; \<open>Next\<close> gets the result
  array of the self-hosted \<open>next\<close>.
\<close>

datatype command =
    Put "jsvalue list"
  | Get jsvalue
  | Has jsvalue
  | Delete "jsvalue list"
  | Clear
  | Size
  | Iterate IteratorKind bool
  | Next nat "jsvalue list"
  | Collect bool "nat \<Rightarrow> nat" "nat \<Rightarrow> bool"

datatype reply =
    Failed
  | Done
  | Found bool
  | Got jsvalue
  | Count nat
  | NewIterator nat
  | Result bool "jsvalue list"

definition resultLength :: "'t Collection \<Rightarrow> nat" where
  "resultLength C = (case readValue C of None \<Rightarrow> 1 | Some read \<Rightarrow> 2)"

fun runCommand :: "heap \<Rightarrow> 't Collection \<Rightarrow> command \<Rightarrow> 't TableObject \<Rightarrow> (reply \<times> 't TableObject) eng" where
  "runCommand hp C (Put args) obj =
     bindM (TableObject_put hp C obj args) (\<lambda>(ok, obj). returnM (if ok then Done else Failed, obj))"
| "runCommand hp C (Get key) obj =
     bindM (TableObject_get C obj key) (\<lambda>v. returnM (case v of Some v \<Rightarrow> Got v | None \<Rightarrow> Failed, obj))"
| "runCommand hp C (Has key) obj =
     bindM (TableObject_has C obj key) (\<lambda>b. returnM (case b of Some b \<Rightarrow> Found b | None \<Rightarrow> Failed, obj))"
| "runCommand hp C (Delete args) obj =
     bindM (TableObject_delete C obj args) (\<lambda>(b, obj). returnM (case b of Some b \<Rightarrow> Found b | None \<Rightarrow> Failed, obj))"
| "runCommand hp C Clear obj =
     bindM (TableObject_clear obj) (\<lambda>(ok, obj). returnM (if ok then Done else Failed, obj))"
| "runCommand hp C Size obj = returnM (Count (TableObject_size obj), obj)"
| "runCommand hp C (Iterate kind nursery) obj =
     bindM (IteratorObject_create C obj kind nursery) (\<lambda>(i, obj).
     returnM (case i of Some i \<Rightarrow> NewIterator i | None \<Rightarrow> Failed, obj))"
| "runCommand hp C (Next i result) obj =
     bindM (IteratorObject_next C (resultLength C) obj i result) (\<lambda>(d, result, obj). returnM (Result d result, obj))"
| "runCommand hp C (Collect major f reachable) obj =
     bindM (collectGarbage C major f reachable obj) (\<lambda>obj. returnM (Done, obj))"

primrec runCommands :: "heap \<Rightarrow> 't Collection \<Rightarrow> command list \<Rightarrow> 't TableObject \<Rightarrow> (reply list \<times> 't TableObject) eng" where
  "runCommands hp C [] obj = returnM ([], obj)"
| "runCommands hp C (c # cs) obj =
     bindM (runCommand hp C c obj) (\<lambda>(r, obj).
     bindM (runCommands hp C cs obj) (\<lambda>(rs, obj). returnM (r # rs, obj)))"

end
