(* ===== verification/MapObject_Spec.thy ===== *)
theory MapObject_Spec
  imports MapObject
begin

text \<open>
  \<open>Map\<close> and \<open>Set\<close> as ECMAScript describes them, and the relation of an object of the engine to such a
  collection.
\<close>

section \<open>ECMAScript\<close>

text \<open>
  A list of entries with empty places where entries were deleted, iterators that are positions in it
  (\<open>None\<close> when the iterator has run to its end), and the values used as keys since the nursery was
  last emptied, which is what the collector's forwarding has to keep apart.
\<close>

record Cursor =
  position :: "nat option"
  cursorKind :: IteratorKind

record ESCollection =
  entries :: "(jsvalue \<times> jsvalue) option list"
  cursors :: "Cursor option list"
  seenKeys :: "jsvalue list"

definition newCollection :: ESCollection where
  "newCollection = \<lparr>entries = [], cursors = [], seenKeys = []\<rparr>"

definition sameKey :: "jsvalue \<Rightarrow> jsvalue \<times> jsvalue \<Rightarrow> bool" where
  "sameKey k e = SameValueZero (fst e) k"

definition specPut :: "jsvalue \<Rightarrow> jsvalue \<Rightarrow> ESCollection \<Rightarrow> ESCollection" where
  "specPut k v s =
     s\<lparr>entries :=
         (if \<exists>e \<in> set (present (entries s)). sameKey k e
          then map (map_option (\<lambda>e. if sameKey k e then (fst e, v) else e)) (entries s)
          else entries s @ [Some (k, v)]),
       seenKeys := k # seenKeys s\<rparr>"

definition specDelete :: "jsvalue \<Rightarrow> ESCollection \<Rightarrow> ESCollection" where
  "specDelete k s =
     s\<lparr>entries := map (\<lambda>e. case e of None \<Rightarrow> None | Some e \<Rightarrow> if sameKey k e then None else Some e) (entries s)\<rparr>"

definition specHas :: "jsvalue \<Rightarrow> ESCollection \<Rightarrow> bool" where
  "specHas k s = (\<exists>e \<in> set (present (entries s)). sameKey k e)"

definition specGet :: "jsvalue \<Rightarrow> ESCollection \<Rightarrow> jsvalue" where
  "specGet k s = (case find (sameKey k) (present (entries s)) of Some e \<Rightarrow> snd e | None \<Rightarrow> UndefinedValue)"

text \<open>
  The representation that a key has when it is read back: the number 1 as an int32, -0 as 0.  Then what
  \<open>CreateMapIterator\<close> and \<open>CreateSetIterator\<close> yield.
\<close>

definition normalKey :: "jsvalue \<Rightarrow> jsvalue" where
  "normalKey k = getKeyValue (keyOf k)"

definition mapResult :: "IteratorKind \<Rightarrow> jsvalue \<Rightarrow> jsvalue \<Rightarrow> jsvalue list \<Rightarrow> jsvalue list" where
  "mapResult kind k v result =
     (if kind = Keys then [k, result ! 1] else if kind = Values then [result ! 0, v] else [k, v])"

definition setResult :: "IteratorKind \<Rightarrow> jsvalue \<Rightarrow> jsvalue \<Rightarrow> jsvalue list \<Rightarrow> jsvalue list" where
  "setResult kind k v result = [k]"

definition specNext :: "(IteratorKind \<Rightarrow> jsvalue \<Rightarrow> jsvalue \<Rightarrow> jsvalue list \<Rightarrow> jsvalue list) \<Rightarrow>
    nat \<Rightarrow> jsvalue list \<Rightarrow> ESCollection \<Rightarrow> reply \<times> ESCollection" where
  "specNext yields i result s =
     (case cursors s ! i of
        None \<Rightarrow> (Failed, s)
      | Some c \<Rightarrow>
          (case position c of
             None \<Rightarrow> (Result True result, s)
           | Some p \<Rightarrow>
               (case holeNext (entries s) p of
                  None \<Rightarrow> (Result True result, s\<lparr>cursors := (cursors s)[i := Some (c\<lparr>position := None\<rparr>)]\<rparr>)
                | Some j \<Rightarrow>
                    (Result False (yields (cursorKind c) (normalKey (fst (the (entries s ! j)))) (snd (the (entries s ! j))) result),
                     s\<lparr>cursors := (cursors s)[i := Some (c\<lparr>position := Some (Suc j)\<rparr>)]\<rparr>))))"

text \<open>A collection renames the cells that moved and forgets the iterators that nothing refers to.\<close>

definition forwardEntry :: "(nat \<Rightarrow> nat) \<Rightarrow> jsvalue \<times> jsvalue \<Rightarrow> jsvalue \<times> jsvalue" where
  "forwardEntry f e = (forwardValue f (fst e), forwardValue f (snd e))"

definition keepReachable :: "(nat \<Rightarrow> bool) \<Rightarrow> 'a option list \<Rightarrow> 'a option list" where
  "keepReachable reachable cs = map (\<lambda>i. if reachable i then cs ! i else None) [0..<length cs]"

definition specCollect :: "(nat \<Rightarrow> nat) \<Rightarrow> (nat \<Rightarrow> bool) \<Rightarrow> ESCollection \<Rightarrow> ESCollection" where
  "specCollect f reachable s =
     s\<lparr>entries := map (map_option (forwardEntry f)) (entries s),
       cursors := keepReachable reachable (cursors s),
       seenKeys := map (\<lambda>e. forwardValue f (fst e)) (present (entries s))\<rparr>"

fun specStep :: "(IteratorKind \<Rightarrow> jsvalue \<Rightarrow> jsvalue \<Rightarrow> jsvalue list \<Rightarrow> jsvalue list) \<Rightarrow>
    command \<Rightarrow> ESCollection \<Rightarrow> reply \<times> ESCollection" where
  "specStep yields (Put args) s = (Done, specPut (argAt args 0) (argAt args 1) s)"
| "specStep yields (Get k) s = (Got (specGet k s), s)"
| "specStep yields (Has k) s = (Found (specHas k s), s)"
| "specStep yields (Delete args) s = (Found (specHas (argAt args 0) s), specDelete (argAt args 0) s)"
| "specStep yields Clear s = (Done, s\<lparr>entries := map (\<lambda>e. None) (entries s)\<rparr>)"
| "specStep yields Size s = (Count (length (present (entries s))), s)"
| "specStep yields (Iterate kind nursery) s =
     (NewIterator (length (cursors s)), s\<lparr>cursors := cursors s @ [Some \<lparr>position = Some 0, cursorKind = kind\<rparr>]\<rparr>)"
| "specStep yields (Next i result) s = specNext yields i result s"
| "specStep yields (Collect major f reachable) s = (Done, specCollect f reachable s)"

text \<open>
  The steps of the engine: those of the specification, and where memory may run out also a reported
  failure that changes nothing visible, or that has already deleted the entry.
\<close>

fun canFail :: "command \<Rightarrow> bool" where
  "canFail (Next i result) = False"
| "canFail Size = False"
| "canFail (Collect major f reachable) = False"
| "canFail c = True"

inductive engineStep :: "bool \<Rightarrow> (IteratorKind \<Rightarrow> jsvalue \<Rightarrow> jsvalue \<Rightarrow> jsvalue list \<Rightarrow> jsvalue list) \<Rightarrow>
    command \<Rightarrow> ESCollection \<Rightarrow> reply \<Rightarrow> ESCollection \<Rightarrow> bool"
  for mayFail :: bool and yields where
  works: "specStep yields c s = (r, s') \<Longrightarrow> engineStep mayFail yields c s r s'"
| fails: "mayFail \<Longrightarrow> canFail c \<Longrightarrow> engineStep mayFail yields c s Failed s"
| fails_seen: "mayFail \<Longrightarrow> engineStep mayFail yields (Put args) s Failed (s\<lparr>seenKeys := argAt args 0 # seenKeys s\<rparr>)"
| fails_deleted: "mayFail \<Longrightarrow> specHas (argAt args 0) s \<Longrightarrow>
    engineStep mayFail yields (Delete args) s Failed (specDelete (argAt args 0) s)"

inductive engineRun :: "bool \<Rightarrow> (IteratorKind \<Rightarrow> jsvalue \<Rightarrow> jsvalue \<Rightarrow> jsvalue list \<Rightarrow> jsvalue list) \<Rightarrow>
    command list \<Rightarrow> ESCollection \<Rightarrow> reply list \<Rightarrow> ESCollection \<Rightarrow> bool"
  for mayFail :: bool and yields where
  stop: "engineRun mayFail yields [] s [] s"
| step: "engineStep mayFail yields c s r s' \<Longrightarrow> engineRun mayFail yields cs s' rs s'' \<Longrightarrow>
    engineRun mayFail yields (c # cs) s (r # rs) s''"

inductive_simps engineStep_never: "engineStep False yields c s r s'"
inductive_cases engineRun_NilE: "engineRun mayFail yields [] s rs s'"
inductive_cases engineRun_ConsE: "engineRun mayFail yields (c # cs) s rs s'"

fun specRun :: "(IteratorKind \<Rightarrow> jsvalue \<Rightarrow> jsvalue \<Rightarrow> jsvalue list \<Rightarrow> jsvalue list) \<Rightarrow>
    command list \<Rightarrow> ESCollection \<Rightarrow> reply list \<times> ESCollection" where
  "specRun yields [] s = ([], s)"
| "specRun yields (c # cs) s =
     (let (r, s) = specStep yields c s; (rs, s) = specRun yields cs s in (r # rs, s))"

text \<open>Where memory does not run out the engine has one behaviour, that of the specification.\<close>

lemma engineRun_never: "engineRun False yields cs s rs s' \<longleftrightarrow> specRun yields cs s = (rs, s')"
proof (induction cs arbitrary: s rs)
  case Nil
  show ?case by (auto elim: engineRun_NilE intro: engineRun.stop)
next
  case (Cons c cs)
  show ?case
    by (auto simp: engineStep_never Cons.IH split: prod.splits elim!: engineRun_ConsE intro!: engineRun.step)
qed

section \<open>Programs that can be\<close>

text \<open>
  What a program and the collector can do next: keys are values that exist, the entries fit, an iterator is
  stepped while something refers to it, and the forwarding moves nursery cells to new places.
\<close>

definition forwardingOk :: "heap \<Rightarrow> (nat \<Rightarrow> nat) \<Rightarrow> jsvalue list \<Rightarrow> bool" where
  "forwardingOk hp f ks \<longleftrightarrow>
     inj_on (forwardValue f) (set ks) \<and>
     (\<forall>k \<in> set ks. (\<not> isNursery hp k \<longrightarrow> forwardValue f k = k) \<and>
        (isObject k \<longrightarrow> \<not> isNursery hp (forwardValue f k)) \<and>
        (forwardValue f k = k \<or> forwardValue f k \<notin> set ks))"

fun possible :: "heap \<Rightarrow> bool \<Rightarrow> command \<Rightarrow> ESCollection \<Rightarrow> bool" where
  "possible hp isMap (Put args) s \<longleftrightarrow> validValue (argAt args 0) \<and> length (present (entries s)) < 2 ^ 30"
| "possible hp isMap (Get k) s \<longleftrightarrow> validValue k \<and> isMap"
| "possible hp isMap (Has k) s \<longleftrightarrow> validValue k"
| "possible hp isMap (Delete args) s \<longleftrightarrow> validValue (argAt args 0)"
| "possible hp isMap (Next i result) s \<longleftrightarrow>
     i < length (cursors s) \<and> cursors s ! i \<noteq> None \<and> length result = (if isMap then 2 else 1)"
| "possible hp isMap (Collect major f reachable) s \<longleftrightarrow> forwardingOk hp f (seenKeys s)"
| "possible hp isMap c s \<longleftrightarrow> True"

text \<open>A program all of whose steps are possible, whichever of the engine's behaviours it meets.\<close>

fun possibleRun :: "heap \<Rightarrow> bool \<Rightarrow> bool \<Rightarrow> (IteratorKind \<Rightarrow> jsvalue \<Rightarrow> jsvalue \<Rightarrow> jsvalue list \<Rightarrow> jsvalue list) \<Rightarrow>
    command list \<Rightarrow> ESCollection \<Rightarrow> bool" where
  "possibleRun hp mayFail isMap yields [] s = True"
| "possibleRun hp mayFail isMap yields (c # cs) s =
     (possible hp isMap c s \<and> (\<forall>r s'. engineStep mayFail yields c s r s' \<longrightarrow> possibleRun hp mayFail isMap yields cs s'))"

text \<open>Atoms and symbols are never in the nursery.\<close>

definition heapOk :: "heap \<Rightarrow> bool" where
  "heapOk hp \<longleftrightarrow> (\<forall>v. isGCThing v \<and> isNursery hp v \<longrightarrow> isObject v \<or> isBigInt v)"

end
