(* ===== verification/MapObject_Refine.thy ===== *)
theory MapObject_Refine
  imports MapObject_Spec
begin

text \<open>
  The engine's \<open>Map\<close> and \<open>Set\<close> refine those of ECMAScript, whatever the allocator and the collector do.
\<close>

section \<open>The relation\<close>

definition elementsOf :: "'t Collection \<Rightarrow> (jsvalue \<times> jsvalue) option list \<Rightarrow> 't option list" where
  "elementsOf C es = map (map_option (\<lambda>e. newElement C (keyOf (fst e)) (snd e))) es"

text \<open>An iterator that the collector may still look at owns a live range, which no other iterator has.\<close>

definition iterLive :: "'t OrderedHashTable \<Rightarrow> IteratorObject \<Rightarrow> bool" where
  "iterLive t it \<longleftrightarrow> (\<forall>r. RangeSlot it = Some r \<longrightarrow> r \<in> set (if iteratorInNursery it then nurseryRanges t else ranges t))"

definition itersOk :: "'t OrderedHashTable \<Rightarrow> IteratorObject option list \<Rightarrow> bool" where
  "itersOk t its \<longleftrightarrow>
     (\<forall>it. Some it \<in> set its \<longrightarrow> iterLive t it) \<and>
     (\<forall>i j it it' r. i < length its \<and> j < length its \<and> its ! i = Some it \<and> its ! j = Some it' \<and>
        RangeSlot it = Some r \<and> RangeSlot it' = Some r \<longrightarrow> i = j)"

definition iterAt :: "(nat \<Rightarrow> nat) \<Rightarrow> IteratorObject \<Rightarrow> Cursor \<Rightarrow> bool" where
  "iterAt pos it c \<longleftrightarrow> KindSlot it = cursorKind c \<and> position c = map_option pos (RangeSlot it)"

definition cursorsAt :: "(nat \<Rightarrow> nat) \<Rightarrow> IteratorObject option list \<Rightarrow> Cursor option list \<Rightarrow> bool" where
  "cursorsAt pos its cs \<longleftrightarrow>
     length its = length cs \<and> (\<forall>i < length cs. \<forall>c. cs ! i = Some c \<longrightarrow> (\<exists>it. its ! i = Some it \<and> iterAt pos it c))"

text \<open>The write barrier: a tenured object knows its keys that are in the nursery.\<close>

definition keysRecorded :: "heap \<Rightarrow> 't TableObject \<Rightarrow> jsvalue set \<Rightarrow> bool" where
  "keysRecorded hp obj ks \<longleftrightarrow>
     (if insideNursery obj then HasNurseryMemory obj \<and> NurseryKeys obj = None
      else \<forall>k \<in> ks. isObject k \<and> isNursery hp k \<longrightarrow> (\<exists>keys. NurseryKeys obj = Some keys \<and> k \<in> set keys))"

definition represents :: "heap \<Rightarrow> 't Collection \<Rightarrow> 't TableObject \<Rightarrow> ESCollection \<Rightarrow> bool" where
  "represents hp C obj s \<longleftrightarrow>
     (\<exists>pos. simulates (tableOps C) (getData obj) (elementsOf C (entries s)) pos \<and> cursorsAt pos (iterators obj) (cursors s)) \<and>
     itersOk (getData obj) (iterators obj) \<and>
     (nurseryRanges (getData obj) \<noteq> [] \<longrightarrow> HasNurseryMemory obj) \<and>
     keysRecorded hp obj (fst ` set (present (entries s))) \<and>
     (\<forall>k \<in> fst ` set (present (entries s)). validValue k \<and> k \<in> set (seenKeys s)) \<and>
     (\<forall>keys. NurseryKeys obj = Some keys \<longrightarrow> set keys \<subseteq> set (seenKeys s))"

definition mayFail :: "env \<Rightarrow> bool" where
  "mayFail v \<longleftrightarrow> (\<exists>k. \<not> allocOk v k)"

lemma mayFail_fold [simp]: "(\<exists>k. \<not> allocOk v k) \<longleftrightarrow> mayFail v"
  by (simp add: mayFail_def)

lemma allocOk_always [simp]: "\<not> mayFail v \<Longrightarrow> allocOk v k"
  unfolding mayFail_def by blast

lemma runs_alloc:
  assumes "runs (m True) v E Q" and "mayFail v \<Longrightarrow> runs (m False) v E Q"
  shows "runs (bindM tryAlloc m) v E Q"
proof (rule runs_bindI, rule runs_tryAlloc)
  fix ok
  assume "ok \<or> \<not> (\<forall>k. allocOk v k)"
  then show "runs (m ok) v E Q" using assms by (cases ok) auto
qed

lemma set_present: "x \<in> set (present es) \<longleftrightarrow> Some x \<in> set es"
  by (induction es) (auto split: option.splits)

lemma nth_present: "es ! i = Some x \<Longrightarrow> i < length es \<Longrightarrow> x \<in> set (present es)"
  by (metis set_present nth_mem)

lemma present_elementsOf: "present (elementsOf C es) = map (\<lambda>e. newElement C (keyOf (fst e)) (snd e)) (present es)"
  by (simp add: elementsOf_def present_map)

lemma represents_simulates:
  assumes "represents hp C obj s"
  obtains pos where "simulates (tableOps C) (getData obj) (elementsOf C (entries s)) pos" "cursorsAt pos (iterators obj) (cursors s)"
  using assms by (auto simp: represents_def)

lemma runs_ARG0_KEY:
  assumes "Q (Some (keyOf (argAt args 0)))" and "mayFail v \<Longrightarrow> Q None"
  shows "runs (ARG0_KEY args) v E Q"
proof (cases "args = []")
  case True
  then show ?thesis using assms(1) by (simp add: ARG0_KEY_def argAt_def keyOf_def)
next
  case False
  then show ?thesis
    using assms by (cases "mayFail v") (auto simp: ARG0_KEY_def argAt_def intro!: runs_setValue)
qed

lemma getKeyValue_keyOf: "isObject k \<or> isBigInt k \<Longrightarrow> getKeyValue (keyOf k) = k"
  by (cases k) (simp_all add: keyOf_def)

lemma keyOf_kind [simp]:
  "isObject (getKeyValue (keyOf k)) = isObject k" "isBigInt (getKeyValue (keyOf k)) = isBigInt k"
  by (cases k; simp add: keyOf_def split: option.split)+

lemma SameValueZero_object: "isObject k \<or> isObject l \<Longrightarrow> SameValueZero k l \<longleftrightarrow> k = l"
  by (cases k; cases l) (simp_all add: SameValueZero_def)

lemma argAt_valid: "validValue UndefinedValue"
  by simp

text \<open>What holds of both classes.\<close>

locale collection = hash_policy "tableOps C" for C :: "'t Collection" +
  fixes yields :: "IteratorKind \<Rightarrow> jsvalue \<Rightarrow> jsvalue \<Rightarrow> jsvalue list \<Rightarrow> jsvalue list"
    and isMap :: bool
  assumes match_iff: "match (tableOps C) k l \<longleftrightarrow> k = l"
    and isEmpty_iff: "isEmpty (tableOps C) k \<longleftrightarrow> k = EmptyKey"
    and getKey_new: "getKey (tableOps C) (newElement C k x) = k"
    and setKey_new: "setKey (tableOps C) (newElement C k x) l = newElement C l x"
    and trace_new: "traceValue C f (newElement C k x) = newElement C k (forwardValue f x)"
    and trace_key: "getKey (tableOps C) (traceValue C f e) = getKey (tableOps C) e"
    and write_new: "length result = resultLength C \<Longrightarrow> writeResult C kind (newElement C (Hashable w) x) result = yields kind w x result"
    and read_new: "readValue C = Some read \<Longrightarrow> read (newElement C k x) = x"
    and isMap_iff: "isMap \<longleftrightarrow> readValue C \<noteq> None"
begin

lemma full_new [simp]: "full (tableOps C) (newElement C (keyOf k) x)"
  by (simp add: full_def getKey_new isEmpty_iff)

lemma matches:
  assumes "represents hp C obj s" and "validValue k" and "e \<in> set (present (entries s))"
  shows "keyOf (fst e) = keyOf k \<longleftrightarrow> sameKey k e"
  using assms keyOf_SameValueZero [of "fst e" k] by (auto simp: represents_def sameKey_def)

lemma has_key:
  assumes "represents hp C obj s" and "validValue k"
  shows "(\<exists>x \<in> set (present (elementsOf C (entries s))). match (tableOps C) (getKey (tableOps C) x) (keyOf k)) \<longleftrightarrow> specHas k s"
  using matches [OF assms] by (simp add: present_elementsOf specHas_def match_iff getKey_new)

lemma put_elements:
  assumes "represents hp C obj s" and "validValue k"
  shows "holePut (tableOps C) (newElement C (keyOf k) x) (elementsOf C (entries s)) = elementsOf C (entries (specPut k x s))"
proof -
  have "map (map_option (\<lambda>y. if match (tableOps C) (getKey (tableOps C) y) (keyOf k) then newElement C (keyOf k) x else y))
      (elementsOf C (entries s)) =
    elementsOf C (map (map_option (\<lambda>e. if sameKey k e then (fst e, x) else e)) (entries s))"
    (is "?l = ?r")
  proof (rule nth_equalityI)
    fix i
    assume "i < length ?l"
    then have i: "i < length (entries s)" by (simp add: elementsOf_def)
    show "?l ! i = ?r ! i"
    proof (cases "entries s ! i")
      case (Some e)
      then have "e \<in> set (present (entries s))" using i by (rule nth_present)
      then show ?thesis using matches [OF assms, of e] Some i by (auto simp: elementsOf_def match_iff getKey_new)
    qed (use i in \<open>simp add: elementsOf_def\<close>)
  qed (simp add: elementsOf_def)
  then show ?thesis
    using has_key [OF assms] by (simp add: holePut_def specPut_def getKey_new specHas_def) (simp add: elementsOf_def)
qed

lemma remove_elements:
  assumes "represents hp C obj s" and "validValue k"
  shows "holeRemove (tableOps C) (keyOf k) (elementsOf C (entries s)) = elementsOf C (entries (specDelete k s))"
    (is "?l = ?r")
proof (rule nth_equalityI)
  fix i
  assume "i < length ?l"
  then have i: "i < length (entries s)" by (simp add: elementsOf_def)
  show "?l ! i = ?r ! i"
  proof (cases "entries s ! i")
    case (Some e)
    then have "e \<in> set (present (entries s))" using i by (rule nth_present)
    then show ?thesis
      using matches [OF assms, of e] Some i by (auto simp: elementsOf_def holeRemove_def specDelete_def match_iff getKey_new)
  qed (use i in \<open>simp add: elementsOf_def holeRemove_def specDelete_def\<close>)
qed (simp add: elementsOf_def specDelete_def)

end

section \<open>Operations on the table\<close>

definition refines :: "heap \<Rightarrow> 't Collection \<Rightarrow> (IteratorKind \<Rightarrow> jsvalue \<Rightarrow> jsvalue \<Rightarrow> jsvalue list \<Rightarrow> jsvalue list) \<Rightarrow>
    env \<Rightarrow> command \<Rightarrow> 't TableObject \<Rightarrow> ESCollection \<Rightarrow> bool" where
  "refines hp C yields v c obj s \<longleftrightarrow>
     runs (runCommand hp C c obj) v (oom v)
       (\<lambda>(r, obj'). \<exists>s'. engineStep (mayFail v) yields c s r s' \<and> represents hp C obj' s')"

lemma represents_seen:
  "represents hp C obj s \<Longrightarrow> represents hp C obj (s\<lparr>seenKeys := k # seenKeys s\<rparr>)"
  unfolding represents_def by (simp; blast)

lemma itersOk_cong: "ranges t' = ranges t \<Longrightarrow> nurseryRanges t' = nurseryRanges t \<Longrightarrow> itersOk t' its = itersOk t its"
  by (simp add: itersOk_def iterLive_def)

lemma keysRecorded_mono: "keysRecorded hp obj ks \<Longrightarrow> ks' \<subseteq> ks \<Longrightarrow> keysRecorded hp obj ks'"
  by (auto simp: keysRecorded_def split: if_splits)

lemma represents_table:
  assumes rep: "represents hp C obj s" and cur: "cursorsAt pos (iterators obj) (cursors s)"
    and sim: "simulates (tableOps C) t' (elementsOf C (entries s')) pos"
    and rs: "ranges t' = ranges (getData obj)" "nurseryRanges t' = nurseryRanges (getData obj)"
    and s': "cursors s' = cursors s" "set (seenKeys s) \<subseteq> set (seenKeys s')"
      "\<And>k. k \<in> fst ` set (present (entries s')) \<Longrightarrow> validValue k \<and> k \<in> set (seenKeys s')"
    and rec: "keysRecorded hp obj (fst ` set (present (entries s')))"
  shows "represents hp C (obj\<lparr>getData := t'\<rparr>) s'"
proof -
  have "itersOk t' (iterators obj)" using rep itersOk_cong [OF rs] by (simp add: represents_def)
  moreover have "keysRecorded hp (obj\<lparr>getData := t'\<rparr>) (fst ` set (present (entries s')))"
    using rec by (simp add: keysRecorded_def)
  moreover have "set keys \<subseteq> set (seenKeys s')" if "NurseryKeys obj = Some keys" for keys
    using rep s'(2) that by (auto simp: represents_def)
  ultimately show ?thesis
    using rep cur sim rs(2) s'(1,3) unfolding represents_def by auto
qed

lemma runs_barrier:
  assumes rep: "represents hp C obj s" and hp: "heapOk hp"
    and Q: "\<And>obj'. represents hp C obj' (s\<lparr>seenKeys := k # seenKeys s\<rparr>) \<Longrightarrow> getData obj' = getData obj \<Longrightarrow>
        iterators obj' = iterators obj \<Longrightarrow> keysRecorded hp obj' (insert k (fst ` set (present (entries s)))) \<Longrightarrow> Q (True, obj')"
      "\<And>obj'. represents hp C obj' (s\<lparr>seenKeys := k # seenKeys s\<rparr>) \<Longrightarrow> mayFail v \<Longrightarrow> Q (False, obj')"
  shows "runs (WriteBarrierPostImpl hp obj (getKeyValue (keyOf k))) v E Q"
proof -
  let ?k = "getKeyValue (keyOf k)" and ?K = "fst ` set (present (entries s))"
  have rec: "keysRecorded hp obj ?K" using rep by (simp add: represents_def)
  consider "\<not> isObject k" "\<not> isBigInt k" | "isObject k \<or> isBigInt k" "insideNursery obj \<or> \<not> isNursery hp k"
    | "isObject k \<or> isBigInt k" "\<not> insideNursery obj" "isNursery hp k" by blast
  then show ?thesis
  proof cases
    case 1
    then have "isGCThing ?k \<longrightarrow> \<not> isNursery hp ?k" using hp unfolding heapOk_def by (metis keyOf_kind)
    moreover have "keysRecorded hp obj (insert k ?K)" using rec 1 by (auto simp: keysRecorded_def)
    ultimately show ?thesis using 1 Q(1) [OF represents_seen [OF rep]] by (simp add: WriteBarrierPostImpl_def)
  next
    case 2
    then have "keysRecorded hp obj (insert k ?K)" using rec by (auto simp: keysRecorded_def split: if_splits)
    then show ?thesis
      using 2 Q(1) [OF represents_seen [OF rep]] by (auto simp: WriteBarrierPostImpl_def getKeyValue_keyOf)
  next
    case 3
    have k: "?k = k" using 3(1) by (rule getKeyValue_keyOf)
    let ?keys = "case NurseryKeys obj of None \<Rightarrow> [] | Some keys \<Rightarrow> keys"
    have old: "set ?keys \<subseteq> set (seenKeys s)" using rep by (cases "NurseryKeys obj") (auto simp: represents_def)
    have upd: "represents hp C (obj\<lparr>NurseryKeys := Some keys\<rparr>) (s\<lparr>seenKeys := k # seenKeys s\<rparr>)"
      and updk: "keysRecorded hp (obj\<lparr>NurseryKeys := Some keys\<rparr>) ?K"
      if "set ?keys \<subseteq> set keys" "set keys \<subseteq> insert k (set ?keys)" for keys
    proof -
      show "keysRecorded hp (obj\<lparr>NurseryKeys := Some keys\<rparr>) ?K"
        using rec 3(2) that by (force simp: keysRecorded_def)
      moreover have "set keys \<subseteq> set (k # seenKeys s)"
        unfolding list.set(2) using that(2) old by (rule subset_trans [OF _ insert_mono])
      ultimately show "represents hp C (obj\<lparr>NurseryKeys := Some keys\<rparr>) (s\<lparr>seenKeys := k # seenKeys s\<rparr>)"
        using represents_seen [OF rep, of k] unfolding represents_def by simp
    qed
    have "runs (bindM tryAlloc (\<lambda>ok.
            if ok then returnM (True, obj\<lparr>NurseryKeys := Some (?keys @ [k])\<rparr>)
            else returnM (False, obj\<lparr>NurseryKeys := Some ?keys\<rparr>))) v E Q"
    proof (rule runs_bindI, rule runs_tryAlloc)
      fix ok
      assume "ok \<or> \<not> (\<forall>k. allocOk v k)"
      then have ok: "ok \<or> mayFail v" by simp
      have "keysRecorded hp (obj\<lparr>NurseryKeys := Some (?keys @ [k])\<rparr>) (insert k ?K)"
        using updk [of "?keys @ [k]"] 3(2) by (auto simp: keysRecorded_def)
      then have "Q (True, obj\<lparr>NurseryKeys := Some (?keys @ [k])\<rparr>)" by (intro Q(1) upd) auto
      moreover have "\<not> ok \<Longrightarrow> Q (False, obj\<lparr>NurseryKeys := Some ?keys\<rparr>)" using ok by (intro Q(2) upd) auto
      ultimately show "runs (if ok then returnM (True, obj\<lparr>NurseryKeys := Some (?keys @ [k])\<rparr>)
            else returnM (False, obj\<lparr>NurseryKeys := Some ?keys\<rparr>)) v E Q" by simp
    qed
    note piece = this
    have no: "\<not> (\<not> isObject k \<and> \<not> isBigInt k)" using 3(1) by blast
    show ?thesis
    proof (cases "NurseryKeys obj")
      case (Some keys)
      then have "WriteBarrierPostImpl hp obj ?k = bindM tryAlloc (\<lambda>ok.
            if ok then returnM (True, obj\<lparr>NurseryKeys := Some (?keys @ [k])\<rparr>)
            else returnM (False, obj\<lparr>NurseryKeys := Some ?keys\<rparr>))"
        unfolding k WriteBarrierPostImpl_def if_not_P [OF no] using 3(2,3) by (simp cong: if_cong)
      then show ?thesis using piece by simp
    next
      case None
      have "runs (bindM tryAlloc (\<lambda>ok. returnM (if ok then Some [] else None))) v E (\<lambda>keys. runs (case keys of
          None \<Rightarrow> returnM (False, obj)
        | Some keys \<Rightarrow>
            bindM tryAlloc (\<lambda>ok.
            if ok then returnM (True, obj\<lparr>NurseryKeys := Some (keys @ [k])\<rparr>)
            else returnM (False, obj\<lparr>NurseryKeys := Some keys\<rparr>))) v E Q)"
        by (rule runs_bindI, rule runs_tryAlloc)
          (use piece [unfolded None option.case] Q(2) [OF represents_seen [OF rep]] in auto)
      then show ?thesis
        unfolding k WriteBarrierPostImpl_def if_not_P [OF no] using 3(2,3) None by (simp add: runs_bindI)
    qed
  qed
qed

lemma specPut_fields [simp]: "seenKeys (specPut k x s) = k # seenKeys s" "cursors (specPut k x s) = cursors s"
  by (simp_all add: specPut_def)

context collection
begin

lemma refines_put:
  assumes rep: "represents hp C obj s" and hp: "heapOk hp" and pos: "possible hp isMap (Put args) s"
  shows "refines hp C yields v (Put args) obj s"
proof -
  let ?k = "argAt args 0" and ?x = "argAt args 1"
  let ?s = "s\<lparr>seenKeys := ?k # seenKeys s\<rparr>" and ?s' = "specPut (argAt args 0) (argAt args 1) s"
  have fl: "mayFail v \<Longrightarrow> engineStep (mayFail v) yields (Put args) s Failed ?s" by (rule engineStep.fails_seen)
  have ok: "engineStep (mayFail v) yields (Put args) s Done ?s'" by (rule engineStep.works) simp
  have keys: "fst ` set (present (entries ?s')) \<subseteq> insert ?k (fst ` set (present (entries s)))"
    by (auto simp: specPut_def present_map image_iff; metis fst_conv)
  let ?Q = "\<lambda>(ok, obj'). \<exists>s'. engineStep (mayFail v) yields (Put args) s (if ok then Done else Failed) s' \<and> represents hp C obj' s'"
  have "runs (TableObject_put hp C obj args) v (oom v) ?Q"
    unfolding TableObject_put_def
  proof (rule runs_bindI, rule runs_ARG0_KEY)
    have "runs (bindM (WriteBarrierPostImpl hp obj (getKeyValue (keyOf ?k))) (\<lambda>(ok, obj).
         if \<not> ok then returnM (False, obj)
         else
           bindM (put (tableOps C) (getData obj) (newElement C (keyOf ?k) ?x)) (\<lambda>(ok, table).
           returnM (ok, obj\<lparr>getData := table\<rparr>)))) v (oom v) ?Q"
    proof (rule runs_bindI, rule runs_barrier [OF rep hp, where k = "argAt args 0"])
      fix obj'
      assume rep': "represents hp C obj' ?s" and d: "getData obj' = getData obj" "iterators obj' = iterators obj"
        and rec: "keysRecorded hp obj' (insert ?k (fst ` set (present (entries s))))"
      obtain p where sim: "simulates (tableOps C) (getData obj') (elementsOf C (entries s)) p"
        and cur: "cursorsAt p (iterators obj') (cursors s)" using rep' by (rule represents_simulates) auto
      have vk: "validValue ?k" and small: "length (present (elementsOf C (entries s))) < 2 ^ 30"
        using pos by (simp_all add: present_elementsOf)
      have "runs (put (tableOps C) (getData obj') (newElement C (keyOf ?k) ?x)) v (oom v)
          (\<lambda>(ok, table). ?Q (ok, obj'\<lparr>getData := table\<rparr>))"
      proof (rule simulates_put [OF sim full_new small])
        fix t'
        assume t': "simulates (tableOps C) t' (holePut (tableOps C) (newElement C (keyOf ?k) ?x) (elementsOf C (entries s))) p"
          "ranges t' = ranges (getData obj')" "nurseryRanges t' = nurseryRanges (getData obj')"
        have "represents hp C (obj'\<lparr>getData := t'\<rparr>) ?s'"
        proof (rule represents_table [OF rep' _ _ t'(2,3)])
          show "simulates (tableOps C) t' (elementsOf C (entries ?s')) p"
            using t'(1) put_elements [OF rep vk] by simp
          show "keysRecorded hp obj' (fst ` set (present (entries ?s')))"
            using rec keys by (rule keysRecorded_mono)
          show "validValue k \<and> k \<in> set (seenKeys ?s')" if "k \<in> fst ` set (present (entries ?s'))" for k
          proof -
            have "k = ?k \<or> k \<in> fst ` set (present (entries s))" using that keys by blast
            then show ?thesis using vk rep unfolding represents_def specPut_fields by auto
          qed
        qed (use cur in \<open>auto simp: specPut_def\<close>)
        then show "case (True, t') of (ok, table) \<Rightarrow> ?Q (ok, obj'\<lparr>getData := table\<rparr>)" using ok by auto
      next
        assume "\<not> (\<forall>k. allocOk v k)"
        then have "mayFail v" by simp
        then show "case (False, getData obj') of (ok, table) \<Rightarrow> ?Q (ok, obj'\<lparr>getData := table\<rparr>)" using fl rep' by auto
      qed
      then show "runs (case (True, obj') of (ok, obj) \<Rightarrow>
         if \<not> ok then returnM (False, obj)
         else
           bindM (put (tableOps C) (getData obj) (newElement C (keyOf ?k) ?x)) (\<lambda>(ok, table).
           returnM (ok, obj\<lparr>getData := table\<rparr>))) v (oom v) ?Q"
        by (auto intro!: runs_bindI elim!: runs_weakenQ; blast)
    qed (use fl in auto)
    then show "runs (case Some (keyOf ?k) of
       None \<Rightarrow> returnM (False, obj)
     | Some key \<Rightarrow>
         bindM (WriteBarrierPostImpl hp obj (getKeyValue key)) (\<lambda>(ok, obj).
         if \<not> ok then returnM (False, obj)
         else
           bindM (put (tableOps C) (getData obj) (newElement C key ?x)) (\<lambda>(ok, table).
           returnM (ok, obj\<lparr>getData := table\<rparr>)))) v (oom v) ?Q" by simp
  qed (use rep engineStep.fails [of "mayFail v" "Put args"] in auto)
  then show ?thesis
    unfolding refines_def by (auto intro!: runs_bindI elim!: runs_weakenQ; blast)
qed

end


lemma represents_valid: "represents hp C obj s \<Longrightarrow> k \<in> fst ` set (present (entries s)) \<Longrightarrow> validValue k \<and> k \<in> set (seenKeys s)"
  by (auto simp: represents_def)

lemma represents_recorded: "represents hp C obj s \<Longrightarrow> keysRecorded hp obj (fst ` set (present (entries s)))"
  by (simp add: represents_def)

text \<open>A step that removes entries keeps what is known of the others.\<close>

lemma represents_fewer:
  assumes rep: "represents hp C obj s" and cur: "cursorsAt pos (iterators obj) (cursors s)"
    and sim: "simulates (tableOps C) t' (elementsOf C es) pos"
    and rs: "ranges t' = ranges (getData obj)" "nurseryRanges t' = nurseryRanges (getData obj)"
    and sub: "set (present es) \<subseteq> set (present (entries s))"
  shows "represents hp C (obj\<lparr>getData := t'\<rparr>) (s\<lparr>entries := es\<rparr>)"
proof (rule represents_table [OF rep cur _ rs])
  show "keysRecorded hp obj (fst ` set (present (entries (s\<lparr>entries := es\<rparr>))))"
    using sub by (intro keysRecorded_mono [OF represents_recorded [OF rep]]) auto
  show "validValue k \<and> k \<in> set (seenKeys (s\<lparr>entries := es\<rparr>))" if "k \<in> fst ` set (present (entries (s\<lparr>entries := es\<rparr>)))" for k
    using represents_valid [OF rep, of k] sub that by auto
qed (use sim in simp_all)

context collection
begin

lemma get_has:
  assumes rep: "represents hp C obj s" and k: "validValue k"
  shows "get (tableOps C) (getData obj) (keyOf k) =
      returnM (map_option (\<lambda>e. newElement C (keyOf (fst e)) (snd e)) (find (sameKey k) (present (entries s))))"
    and "has (tableOps C) (getData obj) (keyOf k) = returnM (specHas k s)"
proof -
  obtain p where sim: "simulates (tableOps C) (getData obj) (elementsOf C (entries s)) p"
    using rep by (rule represents_simulates)
  have l: "\<not> isEmpty (tableOps C) (keyOf k)" by (simp add: isEmpty_iff)
  have "getList (tableOps C) (keyOf k) (map (\<lambda>e. newElement C (keyOf (fst e)) (snd e)) xs) =
      map_option (\<lambda>e. newElement C (keyOf (fst e)) (snd e)) (find (sameKey k) xs)"
    if "set xs \<subseteq> set (present (entries s))" for xs
    using that matches [OF rep k] by (induction xs) (simp_all add: getList_def match_iff getKey_new)
  then show "get (tableOps C) (getData obj) (keyOf k) =
      returnM (map_option (\<lambda>e. newElement C (keyOf (fst e)) (snd e)) (find (sameKey k) (present (entries s))))"
    using simulates_get(1) [OF sim l] by (simp add: present_elementsOf)
  show "has (tableOps C) (getData obj) (keyOf k) = returnM (specHas k s)"
    using simulates_get(2) [OF sim l] has_key [OF rep k] by simp
qed

lemma refines_get:
  assumes rep: "represents hp C obj s" and pos: "possible hp isMap (Get k) s"
  shows "refines hp C yields v (Get k) obj s"
proof -
  from pos have k: "validValue k" and isMap by simp_all
  then obtain read where read: "readValue C = Some read" using isMap_iff by auto
  have ok: "engineStep (mayFail v) yields (Get k) s (Got (specGet k s)) s" by (rule engineStep.works) simp
  have fl: "mayFail v \<Longrightarrow> engineStep (mayFail v) yields (Get k) s Failed s" by (rule engineStep.fails) simp_all
  have "runs (TableObject_get C obj k) v (oom v)
      (\<lambda>r. (r = Some (specGet k s)) \<or> (r = None \<and> mayFail v))"
    unfolding TableObject_get_def read
    by (auto intro!: runs_bindI runs_setValue simp: get_has(1) [OF rep k] specGet_def read_new [OF read] split: option.split)
  then show ?thesis
    unfolding refines_def using rep ok fl by (auto intro!: runs_bindI elim!: runs_weakenQ)
qed

lemma refines_has:
  assumes rep: "represents hp C obj s" and pos: "possible hp isMap (Has k) s"
  shows "refines hp C yields v (Has k) obj s"
proof -
  from pos have k: "validValue k" by simp
  have ok: "engineStep (mayFail v) yields (Has k) s (Found (specHas k s)) s" by (rule engineStep.works) simp
  have fl: "mayFail v \<Longrightarrow> engineStep (mayFail v) yields (Has k) s Failed s" by (rule engineStep.fails) simp_all
  have "runs (TableObject_has C obj k) v (oom v) (\<lambda>r. (r = Some (specHas k s)) \<or> (r = None \<and> mayFail v))"
    unfolding TableObject_has_def
    by (auto intro!: runs_bindI runs_setValue simp: get_has(2) [OF rep k])
  then show ?thesis
    unfolding refines_def using rep ok fl by (auto intro!: runs_bindI elim!: runs_weakenQ)
qed

lemma refines_size:
  assumes rep: "represents hp C obj s"
  shows "refines hp C yields v Size obj s"
proof -
  obtain p where sim: "simulates (tableOps C) (getData obj) (elementsOf C (entries s)) p"
    using rep by (rule represents_simulates)
  have "engineStep (mayFail v) yields Size s (Count (length (present (entries s)))) s" by (rule engineStep.works) simp
  then show ?thesis
    using simulates_count [OF sim] rep by (auto simp: refines_def TableObject_size_def present_elementsOf)
qed

lemma refines_delete:
  assumes rep: "represents hp C obj s" and pos: "possible hp isMap (Delete args) s"
  shows "refines hp C yields v (Delete args) obj s"
proof -
  let ?k = "argAt args 0" let ?s' = "specDelete (argAt args 0) s"
  from pos have k: "validValue ?k" by simp
  obtain p where sim: "simulates (tableOps C) (getData obj) (elementsOf C (entries s)) p"
    and cur: "cursorsAt p (iterators obj) (cursors s)" using rep by (rule represents_simulates)
  have ok: "engineStep (mayFail v) yields (Delete args) s (Found (specHas ?k s)) ?s'" by (rule engineStep.works) simp
  have fl: "mayFail v \<Longrightarrow> engineStep (mayFail v) yields (Delete args) s Failed s" by (rule engineStep.fails) simp_all
  have fd: "engineStep (mayFail v) yields (Delete args) s Failed ?s'" if "mayFail v"
  proof (cases "specHas ?k s")
    case True
    then show ?thesis using that by (intro engineStep.fails_deleted)
  next
    case False
    then have "\<forall>e. Some e \<in> set (entries s) \<longrightarrow> \<not> sameKey ?k e" by (auto simp: specHas_def set_present)
    then have "map (\<lambda>e. case e of None \<Rightarrow> None | Some e \<Rightarrow> if sameKey ?k e then None else Some e) (entries s) = entries s"
      by (intro map_idI) (auto split: option.split)
    then have "?s' = s" by (simp add: specDelete_def)
    then show ?thesis using fl that by simp
  qed
  let ?Q = "\<lambda>(b, obj'). \<exists>s'. engineStep (mayFail v) yields (Delete args) s (case b of Some b \<Rightarrow> Found b | None \<Rightarrow> Failed) s' \<and>
    represents hp C obj' s'"
  have "runs (remove (tableOps C) (getData obj) (keyOf ?k)) v (oom v)
      (\<lambda>(ok, found, table). ?Q (if ok then Some found else None, obj\<lparr>getData := table\<rparr>))"
  proof (rule simulates_remove [OF sim])
    fix b t'
    assume t': "simulates (tableOps C) t' (holeRemove (tableOps C) (keyOf ?k) (elementsOf C (entries s))) p"
      "ranges t' = ranges (getData obj)" "nurseryRanges t' = nurseryRanges (getData obj)" and "b \<or> \<not> (\<forall>k. allocOk v k)"
    then have b: "b \<or> mayFail v" by simp
    have "represents hp C (obj\<lparr>getData := t'\<rparr>) (s\<lparr>entries := entries ?s'\<rparr>)"
    proof (rule represents_fewer [OF rep cur _ t'(2,3)])
      show "simulates (tableOps C) t' (elementsOf C (entries ?s')) p" using t'(1) remove_elements [OF rep k] by simp
      show "set (present (entries ?s')) \<subseteq> set (present (entries s))"
        by (auto simp: set_present specDelete_def split: option.splits if_splits)
    qed
    moreover have "s\<lparr>entries := entries ?s'\<rparr> = ?s'" by (simp add: specDelete_def)
    ultimately show "case (b, \<exists>x\<in>set (present (elementsOf C (entries s))). match (tableOps C) (getKey (tableOps C) x) (keyOf ?k), t') of
        (ok, found, table) \<Rightarrow> ?Q (if ok then Some found else None, obj\<lparr>getData := table\<rparr>)"
      using ok fd b has_key [OF rep k] by auto
  qed (simp add: isEmpty_iff)
  then have "runs (TableObject_delete C obj args) v (oom v) ?Q"
    unfolding TableObject_delete_def
    by (intro runs_bindI runs_ARG0_KEY)
      ((auto intro!: runs_bindI elim!: runs_weakenQ; blast), use fl rep in auto)
  then show ?thesis
    unfolding refines_def by (auto intro!: runs_bindI elim!: runs_weakenQ; blast)
qed

lemma refines_clear:
  assumes rep: "represents hp C obj s"
  shows "refines hp C yields v Clear obj s"
proof -
  let ?es = "map (\<lambda>e. None) (entries s)"
  obtain p where sim: "simulates (tableOps C) (getData obj) (elementsOf C (entries s)) p"
    and cur: "cursorsAt p (iterators obj) (cursors s)" using rep by (rule represents_simulates)
  have ok: "engineStep (mayFail v) yields Clear s Done (s\<lparr>entries := ?es\<rparr>)" by (rule engineStep.works) simp
  have fl: "mayFail v \<Longrightarrow> engineStep (mayFail v) yields Clear s Failed s" by (rule engineStep.fails) simp_all
  let ?Q = "\<lambda>(ok, obj'). \<exists>s'. engineStep (mayFail v) yields Clear s (if ok then Done else Failed) s' \<and> represents hp C obj' s'"
  have "runs (clear (getData obj)) v (oom v) (\<lambda>(ok, table). ?Q (ok, obj\<lparr>getData := table\<rparr>))"
  proof (rule simulates_clear [OF sim])
    fix t'
    assume t': "simulates (tableOps C) t' (holeClear (elementsOf C (entries s))) p"
      "ranges t' = ranges (getData obj)" "nurseryRanges t' = nurseryRanges (getData obj)"
    have "elementsOf C ?es = holeClear (elementsOf C (entries s))" by (simp add: elementsOf_def holeClear_def)
    then have "represents hp C (obj\<lparr>getData := t'\<rparr>) (s\<lparr>entries := ?es\<rparr>)"
      using t' by (intro represents_fewer [OF rep cur]) (simp_all add: set_present subset_iff)
    then show "case (True, t') of (ok, table) \<Rightarrow> ?Q (ok, obj\<lparr>getData := table\<rparr>)" using ok by auto
  qed (use fl rep in auto)
  then have "runs (TableObject_clear obj) v (oom v) ?Q"
    unfolding TableObject_clear_def by (auto intro!: runs_bindI elim!: runs_weakenQ; blast)
  then show ?thesis
    unfolding refines_def by (auto intro!: runs_bindI elim!: runs_weakenQ; blast)
qed

end


section \<open>Ranges and iterators\<close>

lemma freshRange_new: "freshRange t \<notin> set (ranges t @ nurseryRanges t)"
proof -
  have "x \<le> foldr max xs 0" if "x \<in> set xs" for x :: nat and xs
    using that by (induction xs) (auto simp: max_def)
  then show ?thesis unfolding freshRange_def by (meson Suc_n_not_le_n)
qed

lemma simulates_create:
  assumes "simulates ops t es pos" and "r \<notin> set (ranges t @ nurseryRanges t)"
  obtains t' where "createRange ops r n t = returnM t'" "simulates ops t' es (pos(r := 0))"
    "ranges t' = (if n then ranges t else r # ranges t)" "nurseryRanges t' = (if n then r # nurseryRanges t else nurseryRanges t)"
proof -
  have "tableOk ops t" using assms(1) by (simp add: simulates_def)
  then obtain t' where t': "createRange ops r n t = returnM t'" "addedRange ops r [] t t'"
    using createRange_ok assms(2) by blast
  have "simulates ops t' es (pos(r := 0))" using simulates_added [OF assms(1), of r 0] t'(2) assms(2) by simp
  moreover have "ranges t' = (if n then ranges t else r # ranges t) \<and> nurseryRanges t' = (if n then r # nurseryRanges t else nurseryRanges t)"
    using t'(1) by (auto simp: createRange_eq returnM_def fun_eq_iff)
  ultimately show ?thesis using that t'(1) by blast
qed

lemma simulates_copy:
  assumes sim: "simulates ops t es pos" and r: "r \<notin> set (ranges t @ nurseryRanges t)" and other: "other \<in> set (ranges t @ nurseryRanges t)"
  shows "simulates ops (copyRange other r t) es (pos(r := pos other))"
proof -
  have ok: "tableOk ops t" and vis: "visited ops t other = present (take (pos other) es)" and le: "pos other \<le> length es"
    using sim other by (auto simp: simulates_def)
  show ?thesis using simulates_added [OF sim _ le r] copyRange_ok [OF ok r other] vis by simp
qed

lemma simulates_destroy:
  assumes sim: "simulates ops t es pos"
  shows "simulates ops (destroyRange r t) es pos"
proof -
  have "distinct (ranges t)" "distinct (nurseryRanges t)" using sim by (auto simp: simulates_def tableOk_def rangesOk_def)
  then show ?thesis
    unfolding destroyRange_def by (intro simulates_fewer [OF sim]) (auto dest: notin_set_remove1 simp: set_remove1_subset)
qed

lemma itersOk_update:
  assumes ok: "itersOk t its" and others: "\<And>j it. j < length its \<Longrightarrow> j \<noteq> i \<Longrightarrow> its ! j = Some it \<Longrightarrow> iterLive t' it"
    and new: "\<And>it. e = Some it \<Longrightarrow> iterLive t' it"
      "\<And>it r j it'. e = Some it \<Longrightarrow> RangeSlot it = Some r \<Longrightarrow> j < length its \<Longrightarrow> j \<noteq> i \<Longrightarrow> its ! j = Some it' \<Longrightarrow> RangeSlot it' \<noteq> Some r"
  shows "itersOk t' (its[i := e])"
  unfolding itersOk_def
proof (intro conjI allI impI)
  fix it
  assume "Some it \<in> set (its[i := e])"
  then obtain j where "j < length its" "its[i := e] ! j = Some it" by (auto simp: in_set_conv_nth)
  then show "iterLive t' it" using others new(1) by (cases "j = i") auto
next
  fix j k it it' r
  assume a: "j < length (its[i := e]) \<and> k < length (its[i := e]) \<and> its[i := e] ! j = Some it \<and> its[i := e] ! k = Some it' \<and>
    RangeSlot it = Some r \<and> RangeSlot it' = Some r"
  have inj: "m = n" if "m < length its" "n < length its" "its ! m = Some x" "its ! n = Some y" "RangeSlot x = Some r" "RangeSlot y = Some r"
    for m n x y using ok that unfolding itersOk_def by blast
  consider "j = i" "k = i" | "j = i" "k \<noteq> i" | "j \<noteq> i" "k = i" | "j \<noteq> i" "k \<noteq> i" by blast
  then show "j = k"
  proof cases
    case 2
    then have "e = Some it" using a by auto
    then show ?thesis using a 2 new(2) [of it r k it'] by simp
  next
    case 3
    then have "e = Some it'" using a by auto
    then show ?thesis using a 3 new(2) [of it' r j it] by simp
  next
    case 4
    then show ?thesis using a inj [of j k it it'] by simp
  qed simp
qed

lemma itersOk_append:
  assumes ok: "itersOk t its" and live: "\<And>it. Some it \<in> set its \<Longrightarrow> iterLive t' it" "iterLive t' it'"
    and r: "RangeSlot it' = Some r" "r \<notin> set (ranges t @ nurseryRanges t)"
  shows "itersOk t' (its @ [Some it'])"
proof -
  have "itersOk t (its @ [None])"
    using ok unfolding itersOk_def by (auto simp: nth_append less_Suc_eq)
  then have "itersOk t' ((its @ [None])[length its := Some it'])"
  proof (rule itersOk_update)
    fix j it
    assume "j < length (its @ [None])" "j \<noteq> length its" "(its @ [None]) ! j = Some it"
    then show "iterLive t' it" using live(1) by (auto simp: nth_append less_Suc_eq) (metis nth_mem)
  next
    fix it r' j it''
    assume "Some it' = Some it" "RangeSlot it = Some r'" "j < length (its @ [None])" "j \<noteq> length its" "(its @ [None]) ! j = Some it''"
    then have "r' = r" "Some it'' \<in> set its" using r(1) by (auto simp: nth_append less_Suc_eq) (metis nth_mem)
    then show "RangeSlot it'' \<noteq> Some r'" using ok r(2) by (auto simp: itersOk_def iterLive_def split: if_splits)
  qed (use live(2) in simp)
  then show ?thesis by simp
qed

lemma runs_iteratorBuffer:
  assumes "\<And>b. Q (Some b)" and "mayFail v \<Longrightarrow> Q None"
  shows "runs (iteratorBuffer nursery) v E Q"
  using assms by (auto simp: iteratorBuffer_def intro!: runs_alloc)

context collection
begin

lemma refines_iterate:
  assumes rep: "represents hp C obj s"
  shows "refines hp C yields v (Iterate kind nursery) obj s"
proof -
  let ?s' = "s\<lparr>cursors := cursors s @ [Some \<lparr>position = Some 0, cursorKind = kind\<rparr>]\<rparr>" and ?t = "getData obj"
  let ?r = "freshRange (getData obj)"
  obtain p where sim: "simulates (tableOps C) ?t (elementsOf C (entries s)) p"
    and cur: "cursorsAt p (iterators obj) (cursors s)" using rep by (rule represents_simulates)
  have its: "itersOk ?t (iterators obj)" using rep by (simp add: represents_def)
  have ok: "engineStep (mayFail v) yields (Iterate kind nursery) s (NewIterator (length (cursors s))) ?s'"
    by (rule engineStep.works) simp
  have fl: "mayFail v \<Longrightarrow> engineStep (mayFail v) yields (Iterate kind nursery) s Failed s" by (rule engineStep.fails) simp_all
  let ?Q = "\<lambda>(i, obj'). \<exists>s'. engineStep (mayFail v) yields (Iterate kind nursery) s
      (case i of Some i \<Rightarrow> NewIterator i | None \<Rightarrow> Failed) s' \<and> represents hp C obj' s'"
  have made: "runs (bindM (createRange (tableOps C) ?r n ?t) (\<lambda>table.
        returnM (Some (length (iterators obj)), obj\<lparr>HasNurseryMemory := h, getData := table,
               iterators := iterators obj @ [Some \<lparr>RangeSlot = Some ?r, KindSlot = kind, iteratorInNursery = n\<rparr>]\<rparr>))) v (oom v) ?Q"
    if h: "HasNurseryMemory obj \<longrightarrow> h" "n \<longrightarrow> h" for n h
  proof -
    obtain t' where t': "createRange (tableOps C) ?r n ?t = returnM t'"
        "simulates (tableOps C) t' (elementsOf C (entries s)) (p(?r := 0))"
        "ranges t' = (if n then ranges ?t else ?r # ranges ?t)" "nurseryRanges t' = (if n then ?r # nurseryRanges ?t else nurseryRanges ?t)"
      using simulates_create [OF sim freshRange_new] by metis
    let ?it = "\<lparr>RangeSlot = Some ?r, KindSlot = kind, iteratorInNursery = n\<rparr>"
    let ?obj' = "obj\<lparr>HasNurseryMemory := h, getData := t', iterators := iterators obj @ [Some ?it]\<rparr>"
    have live: "iterLive ?t it" if "Some it \<in> set (iterators obj)" for it using its that by (simp add: itersOk_def)
    then have "itersOk t' (iterators obj @ [Some ?it])"
      by (intro itersOk_append [OF its _ _ _ freshRange_new]) (fastforce simp: iterLive_def t'(3,4) split: if_splits)+
    moreover have "cursorsAt (p(?r := 0)) (iterators obj @ [Some ?it]) (cursors ?s')"
    proof -
      have "iterAt (p(?r := 0)) it c" if "Some it \<in> set (iterators obj)" "iterAt p it c" for it c
      proof -
        have "RangeSlot it \<noteq> Some ?r" using live [OF that(1)] freshRange_new [of ?t] by (auto simp: iterLive_def split: if_splits)
        then show ?thesis using that(2) by (cases "RangeSlot it") (auto simp: iterAt_def)
      qed
      then show ?thesis
        using cur unfolding cursorsAt_def by (auto simp: nth_append less_Suc_eq iterAt_def [of _ ?it]) (metis nth_mem)
    qed
    moreover have "keysRecorded hp ?obj' (fst ` set (present (entries s)))"
      using represents_recorded [OF rep] h(1) by (auto simp: keysRecorded_def split: if_splits)
    moreover have "nurseryRanges t' \<noteq> [] \<longrightarrow> h" using rep h by (auto simp: t'(4) represents_def)
    ultimately have "represents hp C ?obj' ?s'"
      using rep t'(2) unfolding represents_def by auto
    then show ?thesis using t'(1) ok cur by (auto simp: cursorsAt_def)
  qed
  have same: "obj\<lparr>HasNurseryMemory := HasNurseryMemory obj\<rparr> = obj" by simp
  have "runs (IteratorObject_create C obj kind nursery) v (oom v) ?Q"
    unfolding IteratorObject_create_def
  proof (rule runs_bindI, rule runs_iteratorBuffer)
    fix n
    show "runs (case Some n of
       None \<Rightarrow> returnM (None, obj)
     | Some nursery \<Rightarrow>
         bindM (if nursery \<and> \<not> HasNurseryMemory obj
                then bindM tryAlloc (\<lambda>ok. returnM (if ok then Some (obj\<lparr>HasNurseryMemory := True\<rparr>) else None))
                else returnM (Some obj)) (\<lambda>registered.
         case registered of
           None \<Rightarrow> returnM (None, obj)
         | Some obj \<Rightarrow>
             let buffer = freshRange (getData obj) in
             bindM (createRange (tableOps C) buffer nursery (getData obj)) (\<lambda>table.
             returnM (Some (length (iterators obj)), obj\<lparr>getData := table,
               iterators := iterators obj @ [Some \<lparr>RangeSlot = Some buffer, KindSlot = kind, iteratorInNursery = nursery\<rparr>]\<rparr>)))) v (oom v) ?Q"
    proof (cases "n \<and> \<not> HasNurseryMemory obj")
      case True
      then show ?thesis
        using made [of True n] fl rep by (auto simp: Let_def bindM_assoc intro!: runs_alloc)
    next
      case False
      then show ?thesis using made [of "HasNurseryMemory obj" n] by (auto simp: same Let_def)
    qed
  qed (use fl rep in auto)
  then show ?thesis
    unfolding refines_def by (auto intro!: runs_bindI elim!: runs_weakenQ; blast)
qed

end


lemma holeNext_map: "holeNext (map (map_option f) es) i = holeNext es i"
proof (induction es i rule: holeNext.induct)
  case (1 es i)
  then show ?case
    by (subst holeNext.simps, subst (2) holeNext.simps) auto
qed

lemma represents_iters:
  assumes rep: "represents hp C obj s" and "simulates (tableOps C) t' (elementsOf C (entries s)) p'"
    and "cursorsAt p' its' cs'" and "itersOk t' its'" and "nurseryRanges t' \<noteq> [] \<Longrightarrow> HasNurseryMemory obj"
  shows "represents hp C (obj\<lparr>getData := t', iterators := its'\<rparr>) (s\<lparr>cursors := cs'\<rparr>)"
proof -
  have "keysRecorded hp (obj\<lparr>getData := t', iterators := its'\<rparr>) (fst ` set (present (entries s)))"
    using represents_recorded [OF rep] by (simp add: keysRecorded_def)
  then show ?thesis using assms unfolding represents_def by auto
qed

text \<open>An iterator stepped, or finished: no other one has its range.\<close>

lemma iterAt_other: "iterAt p it c \<Longrightarrow> RangeSlot it \<noteq> Some r \<Longrightarrow> iterAt (p(r := x)) it c"
  by (cases "RangeSlot it") (auto simp: iterAt_def)

lemma cursorsAt_update:
  assumes cur: "cursorsAt p its cs" and i: "i < length cs" and c: "\<And>c'. c = Some c' \<Longrightarrow> \<exists>it. e = Some it \<and> iterAt p' it c'"
    and others: "\<And>j it c'. j < length cs \<Longrightarrow> j \<noteq> i \<Longrightarrow> its ! j = Some it \<Longrightarrow> iterAt p it c' \<Longrightarrow> iterAt p' it c'"
  shows "cursorsAt p' (its[i := e]) (cs[i := c])"
  unfolding cursorsAt_def
proof (intro conjI allI impI)
  fix j d
  assume "j < length (cs[i := c])" and d: "cs[i := c] ! j = Some d"
  then have j: "j < length cs" by simp
  show "\<exists>it. its[i := e] ! j = Some it \<and> iterAt p' it d"
  proof (cases "j = i")
    case True
    then show ?thesis using c d i cur by (auto simp: cursorsAt_def)
  next
    case False
    then have "cs ! j = Some d" using d by simp
    then obtain it where "its ! j = Some it" "iterAt p it d" using cur j unfolding cursorsAt_def by blast
    then show ?thesis using others [OF j False] False by auto
  qed
qed (use cur in \<open>simp add: cursorsAt_def\<close>)

lemma destroyRange_lists:
  assumes "itersOk t its" and "i < length its" and "its ! i = Some it" and "RangeSlot it = Some r"
    and "j < length its" and "j \<noteq> i" and "its ! j = Some it'"
  shows "iterLive (destroyRange r t) it'"
proof -
  have "iterLive t it'" "RangeSlot it' \<noteq> Some r" using assms unfolding itersOk_def by (metis nth_mem, metis)
  then show ?thesis by (auto simp: iterLive_def destroyRange_def)
qed

context collection
begin

lemma refines_next:
  assumes rep: "represents hp C obj s" and pos: "possible hp isMap (Next i result) s"
  shows "refines hp C yields v (Next i result) obj s"
proof -
  obtain c where i: "i < length (cursors s)" and c: "cursors s ! i = Some c" and len: "length result = resultLength C"
    using pos isMap_iff by (auto simp: resultLength_def split: option.splits)
  let ?t = "getData obj" and ?its = "iterators obj"
  obtain p where sim: "simulates (tableOps C) ?t (elementsOf C (entries s)) p"
    and cur: "cursorsAt p ?its (cursors s)" using rep by (rule represents_simulates)
  obtain it where it: "?its ! i = Some it" "iterAt p it c" and il: "i < length ?its"
    using cur i c by (auto simp: cursorsAt_def)
  have its: "itersOk ?t ?its" using rep by (simp add: represents_def)
  have other: "RangeSlot it' \<noteq> Some r" if "j < length ?its" "j \<noteq> i" "?its ! j = Some it'" "RangeSlot it = Some r" for j it' r
    using its that it(1) il unfolding itersOk_def by metis
  have live: "iterLive ?t it'" if "j < length ?its" "?its ! j = Some it'" for j it'
    using its that unfolding itersOk_def by (metis nth_mem)
  let ?next = "bindM (IteratorObject_next C (resultLength C) obj i result) (\<lambda>(d, result, obj). returnM (Result d result, obj))"
  have goal: ?thesis if "?next = returnM (r, obj')" "specNext yields i result s = (r, s')" "represents hp C obj' s'" for r obj' s'
    using that unfolding refines_def runCommand.simps by (auto intro!: engineStep.works)
  show ?thesis
  proof (cases "RangeSlot it")
    case None
    then have "position c = None" using it(2) by (simp add: iterAt_def)
    then show ?thesis using None it(1) il i c len rep by (intro goal) (simp_all add: IteratorObject_next_def specNext_def)
  next
    case (Some r)
    then have pc: "position c = Some (p r)" using it(2) by (simp add: iterAt_def)
    have r: "r \<in> set (ranges ?t @ nurseryRanges ?t)" using live [OF il it(1)] Some by (auto simp: iterLive_def split: if_splits)
    note step = simulates_next [OF sim r, unfolded elementsOf_def holeNext_map, folded elementsOf_def]
    show ?thesis
    proof (cases "holeNext (entries s) (p r)")
      case None
      let ?obj' = "obj\<lparr>getData := destroyRange r ?t, iterators := ?its[i := Some (it\<lparr>RangeSlot := None\<rparr>)]\<rparr>"
      have "represents hp C ?obj' (s\<lparr>cursors := (cursors s)[i := Some (c\<lparr>position := None\<rparr>)]\<rparr>)"
      proof (rule represents_iters [OF rep simulates_destroy [OF sim]])
        show "cursorsAt p (?its[i := Some (it\<lparr>RangeSlot := None\<rparr>)]) ((cursors s)[i := Some (c\<lparr>position := None\<rparr>)])"
          using cur i by (rule cursorsAt_update) (use it(2) in \<open>auto simp: iterAt_def\<close>)
        show "itersOk (destroyRange r ?t) (?its[i := Some (it\<lparr>RangeSlot := None\<rparr>)])"
          using its by (rule itersOk_update) (use destroyRange_lists [OF its il it(1) Some] in \<open>auto simp: iterLive_def\<close>)
        show "HasNurseryMemory obj" if "nurseryRanges (destroyRange r ?t) \<noteq> []"
          using rep that by (auto simp: represents_def destroyRange_def)
      qed
      then show ?thesis
        using Some None it(1) il i c len pc step(1) by (intro goal) (simp_all add: IteratorObject_next_def specNext_def)
    next
      case (Some j)
      obtain x t' where x: "elementsOf C (entries s) ! j = Some x" "front ?t r = returnM x" "popFront (tableOps C) ?t r = returnM t'"
        "simulates (tableOps C) t' (elementsOf C (entries s)) (p(r := Suc j))" "ranges t' = ranges ?t" "nurseryRanges t' = nurseryRanges ?t"
        using step(2) [OF Some] by blast
      have j: "j < length (entries s)" using holeNext_Some(1) [OF Some] .
      then obtain e where e: "entries s ! j = Some e" "x = newElement C (keyOf (fst e)) (snd e)"
        using x(1) by (auto simp: elementsOf_def)
      have wr: "writeResult C (KindSlot it) x result = yields (cursorKind c) (normalKey (fst e)) (snd e) result"
      proof -
        obtain w where w: "keyOf (fst e) = Hashable w" by (simp add: keyOf_def)
        then show ?thesis using write_new [OF len] it(2) by (simp add: e(2) normalKey_def iterAt_def)
      qed
      have "represents hp C (obj\<lparr>getData := t', iterators := ?its[i := ?its ! i]\<rparr>) (s\<lparr>cursors := (cursors s)[i := Some (c\<lparr>position := Some (Suc j)\<rparr>)]\<rparr>)"
      proof (rule represents_iters [OF rep x(4)])
        show "cursorsAt (p(r := Suc j)) (?its[i := ?its ! i]) ((cursors s)[i := Some (c\<lparr>position := Some (Suc j)\<rparr>)])"
        proof (rule cursorsAt_update [OF cur i])
          fix k it' c'
          assume k: "k < length (cursors s)" "k \<noteq> i" "?its ! k = Some it'" "iterAt p it' c'"
          then have "RangeSlot it' \<noteq> Some r" using other \<open>RangeSlot it = Some r\<close> cur by (auto simp: cursorsAt_def)
          then show "iterAt (p(r := Suc j)) it' c'" using k(4) by (rule iterAt_other [rotated])
        qed (use it \<open>RangeSlot it = Some r\<close> in \<open>auto simp: iterAt_def\<close>)
        show "itersOk t' (?its[i := ?its ! i])" using its itersOk_cong [OF x(5,6)] by simp
        show "HasNurseryMemory obj" if "nurseryRanges t' \<noteq> []" using rep that by (auto simp: represents_def x(6))
      qed
      then have "represents hp C (obj\<lparr>getData := t'\<rparr>) (s\<lparr>cursors := (cursors s)[i := Some (c\<lparr>position := Some (Suc j)\<rparr>)]\<rparr>)" by simp
      then show ?thesis
        using \<open>RangeSlot it = Some r\<close> Some it(1) il i c len pc step(1) x(2,3) wr e(1)
        by (intro goal) (simp_all add: IteratorObject_next_def specNext_def)
    qed
  qed
qed

end


end
