(* ===== verification/MapObject_Collect.thy ===== *)
theory MapObject_Collect
  imports MapObject_Refine OrderedHashTable_Rekey
begin

text \<open>
  A collection moves the keys and values of a table, its iterators and the object itself, and a program
  cannot tell: the object represents the same entries under their new names.
\<close>

section \<open>Elements changed in place\<close>

lemma chainsAre_map:
  assumes "\<And>x. getKey ops (h x) = getKey ops x" and "chainsAre ops s table ds cs"
  shows "chainsAre ops s table (map (\<lambda>d. d\<lparr>element := h (element d)\<rparr>) ds) cs"
  using assms by (auto simp: chainsAre_def bucketOf_def full_def intro: chainIs_cong)

lemma tableOk_map:
  assumes key: "\<And>x. getKey ops (h x) = getKey ops x" and ok: "tableOk ops t"
  defines "t' \<equiv> t\<lparr>data := map (\<lambda>d. d\<lparr>element := h (element d)\<rparr>) (data t)\<rparr>"
  shows "tableOk ops t'" and "live ops t' = map h (live ops t)" and "rangesMap ops (map h) t t'"
proof -
  have el: "elements t' = map h (elements t)" by (simp add: elements_def t'_def)
  have fl: "full ops (h x) = full ops x" for x by (simp add: full_def key)
  have fm: "filter (full ops) (map h xs) = map h (filter (full ops) xs)" for xs by (simp add: filter_map o_def fl)
  show lv: "live ops t' = map h (live ops t)" by (simp add: live_def el fm)
  show "rangesMap ops (map h) t t'"
    by (simp add: rangesMap_def visited_def el take_map fm) (simp add: t'_def)
  have "rangesOk ops t'"
    using ok by (auto simp: tableOk_def rangesOk_def rangeOk_def el fl take_map fm) (auto simp: t'_def rangesOk_def)
  moreover have "keysDiffer ops (live ops t')"
    using ok by (simp add: tableOk_def keysDiffer_def lv sorted_wrt_map key)
  moreover have "chainsOk ops (hashShift t') (hashTable t') (data t')"
    using ok chainsAre_map [of ops h, OF key] by (auto simp: tableOk_def chainsOk_def t'_def; blast)
  moreover have "sizesOk (hashTable t') (data t') (dataCapacity t') (hashShift t')"
    using ok by (simp add: tableOk_def sizesOk_def t'_def)
  ultimately show "tableOk ops t'" using ok by (simp add: tableOk_def lv) (simp add: t'_def)
qed

lemma simulates_mapped:
  assumes key: "\<And>x. getKey ops (h x) = getKey ops x" and sim: "simulates ops t es pos"
  shows "simulates ops (t\<lparr>data := map (\<lambda>d. d\<lparr>element := h (element d)\<rparr>) (data t)\<rparr>) (map (map_option h) es) pos"
proof (rule simulates_map [OF sim])
  have ok: "tableOk ops t" and lv: "live ops t = present es" using sim by (simp_all add: simulates_def)
  note m = tableOk_map [of ops h, OF key ok]
  show "tableOk ops (t\<lparr>data := map (\<lambda>d. d\<lparr>element := h (element d)\<rparr>) (data t)\<rparr>)" by (rule m(1))
  show "rangesMap ops (map h) t (t\<lparr>data := map (\<lambda>d. d\<lparr>element := h (element d)\<rparr>) (data t)\<rparr>)" by (rule m(3))
  show "live ops (t\<lparr>data := map (\<lambda>d. d\<lparr>element := h (element d)\<rparr>) (data t)\<rparr>) = present (map (map_option h) es)"
    using m(2) lv by (simp add: present_map)
qed (simp add: take_map present_map)

lemma simulates_rekeyed:
  assumes sim: "simulates ops t es pos"
    and t': "tableOk ops t'" "live ops t' = rekeyList ops l x (live ops t)" "rangesMap ops (rekeyList ops l x) t t'"
  shows "simulates ops t' (map (map_option (\<lambda>y. if match ops (getKey ops y) l then x else y)) es) pos"
proof (rule simulates_map [OF sim t'(1) _ t'(3)])
  have "live ops t = present es" using sim by (simp add: simulates_def)
  then show "live ops t' = present (map (map_option (\<lambda>y. if match ops (getKey ops y) l then x else y)) es)"
    using t'(2) by (simp add: present_map rekeyList_def)
qed (simp add: take_map present_map rekeyList_def)

section \<open>Entries forwarded in part\<close>

text \<open>The entries whose keys are in \<open>K\<close> are changed by \<open>g\<close>.\<close>

definition changed :: "(jsvalue \<times> jsvalue \<Rightarrow> jsvalue \<times> jsvalue) \<Rightarrow> hashable set \<Rightarrow> (jsvalue \<times> jsvalue) option list \<Rightarrow> (jsvalue \<times> jsvalue) option list" where
  "changed g K es = map (map_option (\<lambda>e. if keyOf (fst e) \<in> K then g e else e)) es"

lemma keyOf_forward: "keyOf (forwardValue f v) = forwardKey f (keyOf v)"
  by (cases v) (simp_all add: keyOf_def forwardValue_def forwardKey_def split: option.split)

lemma forwardKey_eq: "forwardKey f (keyOf v) = keyOf v \<longleftrightarrow> forwardValue f v = v"
  by (cases v) (simp_all add: keyOf_def forwardValue_def forwardKey_def split: option.split)

lemma keyOf_object: "isObject v \<Longrightarrow> keyOf w = keyOf v \<longleftrightarrow> w = v"
  by (cases v; cases w) (simp_all add: keyOf_def split: option.split)

lemma forwardValue_object: "forwardValue f v \<noteq> v \<Longrightarrow> isObject v"
  by (cases v) (simp_all add: forwardValue_def)

lemma forwardValue_isObject [simp]: "isObject (forwardValue f v) = isObject v"
  by (cases v) (simp_all add: forwardValue_def)

lemma validValue_forward [simp]: "validValue (forwardValue f v) = validValue v"
  by (cases v) (simp_all add: forwardValue_def)

text \<open>A key that moves goes to a place that no key has, and leaves its own.\<close>

lemma moved_fresh:
  assumes fw: "forwardingOk hp f ks" and k: "k \<in> set ks" "forwardValue f k \<noteq> k" "keyOf k \<notin> K"
    and g: "\<And>e. fst (g e) = forwardValue f (fst e)"
    and e: "Some e \<in> set (changed g K es)" and ks: "fst ` set (present es) \<subseteq> set ks"
  shows "keyOf (fst e) \<noteq> keyOf (forwardValue f k)"
proof
  assume eq: "keyOf (fst e) = keyOf (forwardValue f k)"
  have ob: "isObject k" "isObject (forwardValue f k)" using forwardValue_object [OF k(2)] by simp_all
  then have fe: "fst e = forwardValue f k" using eq keyOf_object by blast
  obtain e0 where e0: "Some e0 \<in> set es" "e = (if keyOf (fst e0) \<in> K then g e0 else e0)"
    using e by (auto simp: changed_def map_option_case split: option.splits)
  have in_ks: "fst e0 \<in> set ks" using e0(1) ks by (auto simp: set_present)
  show False
  proof (cases "keyOf (fst e0) \<in> K")
    case True
    then have "forwardValue f (fst e0) = forwardValue f k" using e0(2) g fe by simp
    then have "fst e0 = k" using fw in_ks k(1) by (auto simp: forwardingOk_def inj_on_def)
    then show False using True k(3) by simp
  next
    case False
    then have "forwardValue f k \<in> set ks" using e0(2) fe in_ks by simp
    then show False using fw k(1,2) by (auto simp: forwardingOk_def)
  qed
qed

lemma moved_gone:
  assumes fw: "forwardingOk hp f ks" and k: "k \<in> set ks" "forwardValue f k \<noteq> k" "keyOf k \<in> K"
    and g: "\<And>e. fst (g e) = forwardValue f (fst e)"
    and e: "Some e \<in> set (changed g K es)" and ks: "fst ` set (present es) \<subseteq> set ks"
  shows "keyOf (fst e) \<noteq> keyOf k"
proof
  assume eq: "keyOf (fst e) = keyOf k"
  then have fe: "fst e = k" using keyOf_object [OF forwardValue_object [OF k(2)]] by blast
  obtain e0 where e0: "Some e0 \<in> set es" "e = (if keyOf (fst e0) \<in> K then g e0 else e0)"
    using e by (auto simp: changed_def map_option_case split: option.splits)
  have in_ks: "fst e0 \<in> set ks" using e0(1) ks by (auto simp: set_present)
  have K: "keyOf (fst e0) \<in> K" using e0(2) fe k(3) by (auto split: if_splits)
  then have "forwardValue f (fst e0) = k" using e0(2) g fe by simp
  then have "fst e0 = k" using fw in_ks k(1) by (auto simp: forwardingOk_def)
  then show False using \<open>forwardValue f (fst e0) = k\<close> k(2) by simp
qed

text \<open>The entries of one key changed after those of \<open>K\<close>.\<close>

lemma changed_one:
  assumes "\<And>e. Some e \<in> set es \<Longrightarrow> keyOf (fst e) \<notin> K \<Longrightarrow> keyOf (fst e) = k \<Longrightarrow> h (Some e) = Some (g e)"
    and "\<And>e. Some e \<in> set (changed g K es) \<Longrightarrow> keyOf (fst e) \<noteq> k \<Longrightarrow> h (Some e) = Some e"
    and "h None = None" and "k \<notin> K" and "\<And>e. Some e \<in> set es \<Longrightarrow> keyOf (fst e) \<in> K \<Longrightarrow> keyOf (fst (g e)) \<noteq> k"
  shows "map h (changed g K es) = changed g (insert k K) es"
proof (rule nth_equalityI)
  fix i
  assume "i < length (map h (changed g K es))"
  then have i: "i < length es" by (simp add: changed_def)
  show "map h (changed g K es) ! i = changed g (insert k K) es ! i"
  proof (cases "es ! i")
    case None
    then show ?thesis using i assms(3) by (simp add: changed_def)
  next
    case (Some e)
    have e: "Some e \<in> set es" using i Some by (metis nth_mem)
    have c: "changed g K es ! i = Some (if keyOf (fst e) \<in> K then g e else e)" using i Some by (simp add: changed_def)
    have "i < length (changed g K es)" using i by (simp add: changed_def)
    then have m: "Some (if keyOf (fst e) \<in> K then g e else e) \<in> set (changed g K es)" using nth_mem c by metis
    show ?thesis
    proof (cases "keyOf (fst e) \<in> K")
      case True
      then show ?thesis using assms(2) [of "g e"] m c i Some assms(5) [OF e] by (simp add: changed_def)
    next
      case False
      then show ?thesis
        using assms(1) [OF e] assms(2) [of e] m c i Some by (cases "keyOf (fst e) = k") (simp_all add: changed_def)
    qed
  qed
qed (simp add: changed_def)

lemma changed_same: "(\<And>e. Some e \<in> set es \<Longrightarrow> keyOf (fst e) = k \<Longrightarrow> keyOf (fst e) \<notin> K \<Longrightarrow> g e = e) \<Longrightarrow>
    changed g (insert k K) es = changed g K es"
  unfolding changed_def by (intro map_cong refl) (auto simp: map_option_case split: option.split)

context collection
begin

lemma rekeyed_elements:
  assumes "x = newElement C k' y" and "\<And>e. Some e \<in> set ps \<Longrightarrow> keyOf (fst e) = k \<Longrightarrow> newElement C k' (snd e) = x"
  shows "map (map_option (\<lambda>y. if match (tableOps C) (getKey (tableOps C) y) k then x else y)) (elementsOf C ps) =
    map (map_option (\<lambda>e. if keyOf (fst e) = k then newElement C k' (snd e) else newElement C (keyOf (fst e)) (snd e))) ps"
  unfolding elementsOf_def map_map
proof (rule map_cong [OF refl])
  fix e
  assume e: "e \<in> set ps"
  show "(map_option (\<lambda>y. if match (tableOps C) (getKey (tableOps C) y) k then x else y) \<circ>
      map_option (\<lambda>e. newElement C (keyOf (fst e)) (snd e))) e =
    map_option (\<lambda>e. if keyOf (fst e) = k then newElement C k' (snd e) else newElement C (keyOf (fst e)) (snd e)) e"
  proof (cases e)
    case (Some e')
    then show ?thesis using assms(2) [of e'] e by (simp add: match_iff getKey_new)
  qed simp
qed

lemma same_key_same:
  assumes "simulates (tableOps C) t (elementsOf C ps) pos" and "Some e \<in> set ps" "Some e' \<in> set ps" "keyOf (fst e) = keyOf (fst e')"
  shows "newElement C (keyOf (fst e)) (snd e) = newElement C (keyOf (fst e')) (snd e')"
proof -
  let ?xs = "live (tableOps C) t"
  have kd: "keysDiffer (tableOps C) ?xs" and lv: "?xs = present (elementsOf C ps)" using assms(1) unfolding simulates_def tableOk_def by blast+
  have "newElement C (keyOf (fst e)) (snd e) \<in> set ?xs" if "Some e \<in> set ps" for e
    unfolding lv present_elementsOf set_map using that by (intro imageI) (simp add: set_present)
  then have "newElement C (keyOf (fst e)) (snd e) \<in> set ?xs" "newElement C (keyOf (fst e')) (snd e') \<in> set ?xs"
    using assms(2,3) by blast+
  then obtain i j where ij: "i < length ?xs" "?xs ! i = newElement C (keyOf (fst e)) (snd e)"
    "j < length ?xs" "?xs ! j = newElement C (keyOf (fst e')) (snd e')" by (metis in_set_conv_nth)
  then have "\<not> i < j" "\<not> j < i"
    using kd assms(4) unfolding keysDiffer_def sorted_wrt_iff_nth_less by (metis getKey_new match_iff)+
  then show ?thesis using ij by (metis nat_neq_iff)
qed

text \<open>One key that the barrier recorded.\<close>

lemma rekeyEntry_ok:
  assumes sim: "simulates (tableOps C) t (elementsOf C (changed g K es)) pos"
    and fw: "forwardingOk hp f ks" and k: "k \<in> set ks" and ks: "fst ` set (present es) \<subseteq> set ks"
    and g: "g = (\<lambda>e. (forwardValue f (fst e), snd e))"
  shows "\<exists>t'. rekeyEntry C (Hashable k) (Hashable (forwardValue f k)) t = returnM t' \<and>
    simulates (tableOps C) t' (elementsOf C (changed g (insert (Hashable k) K) es)) pos \<and>
    ranges t' = ranges t \<and> nurseryRanges t' = nurseryRanges t"
proof -
  let ?ps = "changed g K es" and ?k' = "Hashable (forwardValue f k)"
  have g_fst: "fst (g e) = forwardValue f (fst e)" for e by (simp add: g)
  have l: "\<not> isEmpty (tableOps C) (Hashable k)" by (simp add: isEmpty_iff)
  have get: "get (tableOps C) t (Hashable k) = returnM (getList (tableOps C) (Hashable k) (present (elementsOf C ?ps)))"
    using simulates_get(1) [OF sim l] .
  show ?thesis
  proof (cases "forwardValue f k = k")
    case True
    have "rekeyEntry C (Hashable k) ?k' t = returnM t"
      using True by (simp add: rekeyEntry_def get rekeyOneEntry_def split: option.split)
    moreover have "forwardValue f (fst e) = fst e" if "keyOf (fst e) = Hashable k" for e :: "jsvalue \<times> jsvalue"
      using that True forwardKey_eq [of f "fst e"] by (simp add: forwardKey_def)
    then have "changed g (insert (Hashable k) K) es = ?ps" by (intro changed_same) (simp add: g)
    ultimately show ?thesis using sim by (intro exI [of _ t]) simp
  next
    case moves: False
    have ob: "isObject k" using forwardValue_object [OF moves] .
    then have kk: "keyOf k = Hashable k" by (cases k) (simp_all add: keyOf_def)
    have kk': "keyOf (forwardValue f k) = ?k'" using ob by (cases k) (simp_all add: keyOf_def forwardValue_def)
    show ?thesis
    proof (cases "\<exists>e. Some e \<in> set ?ps \<and> keyOf (fst e) = Hashable k")
      case False
      then have "getList (tableOps C) (Hashable k) (present (elementsOf C ?ps)) = None"
        by (auto simp: getList_def find_None_iff present_elementsOf match_iff getKey_new set_present; metis fst_conv)
      then have none: "rekeyEntry C (Hashable k) ?k' t = returnM t" by (simp add: rekeyEntry_def get)
      have "changed g (insert (Hashable k) K) es = ?ps"
      proof (rule changed_same)
        fix e
        assume e: "Some e \<in> set es" "keyOf (fst e) = Hashable k" "keyOf (fst e) \<notin> K"
        then have "Some e \<in> set ?ps" by (force simp: changed_def map_option_case)
        then show "g e = e" using False e(2) by blast
      qed
      then show ?thesis using sim none by (intro exI [of _ t]) simp
    next
      case True
      then obtain e where e: "Some e \<in> set ?ps" "keyOf (fst e) = Hashable k" by blast
      have nK: "keyOf k \<notin> K"
        using moved_gone [OF fw k moves _ g_fst e(1) ks] e(2) kk by auto
      obtain e0 where e0: "getList (tableOps C) (Hashable k) (present (elementsOf C ?ps)) = Some e0"
        using e by (cases "getList (tableOps C) (Hashable k) (present (elementsOf C ?ps))")
          (auto simp: getList_def find_None_iff present_elementsOf match_iff getKey_new set_present)
      then have "e0 \<in> set (present (elementsOf C ?ps))" "getKey (tableOps C) e0 = Hashable k"
        by (auto simp: getList_def find_Some_iff match_iff)
      then obtain e1 where e1: "Some e1 \<in> set ?ps" "e0 = newElement C (keyOf (fst e1)) (snd e1)" "keyOf (fst e1) = Hashable k"
        by (auto simp: present_elementsOf set_present getKey_new)
      let ?x = "setKey (tableOps C) e0 ?k'"
      have x: "?x = newElement C ?k' (snd e1)" by (simp add: e1(2) setKey_new)
      have live: "live (tableOps C) t = present (elementsOf C ?ps)" and ok: "tableOk (tableOps C) t" using sim by (simp_all add: simulates_def)
      have fresh: "\<not> match (tableOps C) (getKey (tableOps C) y) ?k'"
        if "y \<in> set (live (tableOps C) t)" for y
        using that moved_fresh [OF fw k moves nK g_fst _ ks]
        by (auto simp: live present_elementsOf set_present match_iff getKey_new kk')
      obtain t' where t': "rekeyOneEntry (tableOps C) t (Hashable k) ?k' ?x = returnM t'" "tableOk (tableOps C) t'"
        "live (tableOps C) t' = rekeyList (tableOps C) (Hashable k) ?x (live (tableOps C) t)"
        "rangesMap (tableOps C) (rekeyList (tableOps C) (Hashable k) ?x) t t'"
        using rekeyOneEntry_ok [OF ok l, of ?x ?k'] fresh moves
        by (auto simp: x full_def getKey_new isEmpty_iff)
      have "map (map_option (\<lambda>y. if match (tableOps C) (getKey (tableOps C) y) (Hashable k) then ?x else y)) (elementsOf C ?ps) =
          map (map_option (\<lambda>e. if keyOf (fst e) = Hashable k then newElement C ?k' (snd e) else newElement C (keyOf (fst e)) (snd e))) ?ps"
      proof (rule rekeyed_elements [OF x])
        fix e'
        assume e': "Some e' \<in> set ?ps" "keyOf (fst e') = Hashable k"
        then have "newElement C (keyOf (fst e')) (snd e') = e0" using same_key_same [OF sim e'(1) e1(1)] e1 by simp
        then show "newElement C ?k' (snd e') = ?x" using e'(2) setKey_new by metis
      qed
      also have "\<dots> = elementsOf C (map (map_option (\<lambda>e. if keyOf (fst e) = Hashable k then g e else e)) ?ps)"
        by (auto simp: elementsOf_def g keyOf_forward forwardKey_def option.map_comp intro!: option.map_cong)
      also have "map (map_option (\<lambda>e. if keyOf (fst e) = Hashable k then g e else e)) ?ps = changed g (insert (Hashable k) K) es"
      proof (rule changed_one)
        fix e' assume "Some e' \<in> set es" "keyOf (fst e') \<in> K"
        then have "fst e' \<in> set ks" "fst e' \<noteq> k" using ks nK by (auto simp: set_present)
        then have "forwardValue f (fst e') \<noteq> k" using fw k by (auto simp: forwardingOk_def)
        then show "keyOf (fst (g e')) \<noteq> Hashable k" using keyOf_object [OF ob] kk by (simp add: g_fst)
      qed (use nK kk in auto)
      finally have "simulates (tableOps C) t' (elementsOf C (changed g (insert (Hashable k) K) es)) pos"
        using simulates_rekeyed [OF sim t'(2-4)] by simp
      moreover have "rekeyEntry C (Hashable k) ?k' t = returnM t'" using e0 t'(1) by (simp add: rekeyEntry_def get)
      ultimately show ?thesis using t'(4) by (auto simp: rangesMap_def)
    qed
  qed
qed

end


lemma simulates_cong:
  assumes "simulates ops t es pos" and "\<And>r. r \<in> set (ranges t @ nurseryRanges t) \<Longrightarrow> pos' r = pos r"
  shows "simulates ops t es pos'"
  using assms by (simp add: simulates_def)

section \<open>Tracing a table\<close>

text \<open>The entry in front of a range, as the data of the table.\<close>

lemma front_element:
  assumes ok: "tableOk ops t" and r: "r \<in> set (ranges t @ nurseryRanges t)" and rest: "rest ops t r = x # xs"
  shows "rangeI (rangeAt t r) < dataLength t" and "elements t ! rangeI (rangeAt t r) = x" and "full ops x"
proof -
  let ?i = "rangeI (rangeAt t r)"
  have rok: "rangeOk ops (elements t) (rangeAt t r)" using ok r by (simp add: tableOk_def rangesOk_def)
  show i: "?i < dataLength t" using rest_Nil [OF rok] rest by simp
  then have f: "full ops (elements t ! ?i)" using rok by (simp add: rangeOk_def)
  then show "elements t ! ?i = x" using rest i by (simp add: rest_def flip: Cons_nth_drop_Suc)
  then show "full ops x" using f by simp
qed

context collection
begin

lemma front_entry:
  assumes sim: "simulates (tableOps C) t (elementsOf C ps) pos" and r: "r \<in> set (ranges t @ nurseryRanges t)"
    and j: "holeNext ps (pos r) = Some j" "ps ! j = Some e"
  shows "\<exists>xs. rest (tableOps C) t r = newElement C (keyOf (fst e)) (snd e) # xs"
    and "front t r = returnM (newElement C (keyOf (fst e)) (snd e))"
proof -
  have j': "holeNext (elementsOf C ps) (pos r) = Some j" "elementsOf C ps ! j = Some (newElement C (keyOf (fst e)) (snd e))"
    using j holeNext_Some(1) [OF j(1)] by (simp_all add: elementsOf_def holeNext_map)
  show "\<exists>xs. rest (tableOps C) t r = newElement C (keyOf (fst e)) (snd e) # xs"
    using simulates_rest [OF sim r] holeNext_Some(2) [OF j'(1)] j'(2) by auto
  show "front t r = returnM (newElement C (keyOf (fst e)) (snd e))"
    using simulates_next(2) [OF sim r j'(1)] j'(2) by auto
qed

lemma TraceKey_ok:
  assumes sim: "simulates (tableOps C) t (elementsOf C ps) pos" and r: "r \<in> set (ranges t @ nurseryRanges t)"
    and j: "holeNext ps (pos r) = Some j" "ps ! j = Some e"
    and fresh: "\<And>e'. forwardValue f (fst e) \<noteq> fst e \<Longrightarrow> Some e' \<in> set ps \<Longrightarrow> keyOf (fst e') \<noteq> keyOf (forwardValue f (fst e))"
  shows "\<exists>t'. TraceKey C f t r (keyOf (fst e)) = returnM t' \<and>
    simulates (tableOps C) t' (elementsOf C (map (map_option (\<lambda>e'. if keyOf (fst e') = keyOf (fst e) then (forwardValue f (fst e'), snd e') else e')) ps)) pos \<and>
    ranges t' = ranges t \<and> nurseryRanges t' = nurseryRanges t"
proof (cases "forwardValue f (fst e) = fst e")
  case True
  have "(if keyOf (fst e') = keyOf (fst e) then (forwardValue f (fst e'), snd e') else e') = e'" for e' :: "jsvalue \<times> jsvalue"
    using True forwardKey_eq [of f "fst e"] forwardKey_eq [of f "fst e'"] by (auto simp: prod_eq_iff)
  then have "map (map_option (\<lambda>e'. if keyOf (fst e') = keyOf (fst e) then (forwardValue f (fst e'), snd e') else e')) ps = ps"
    by (simp add: option.map_id0 [unfolded id_def])
  moreover have "TraceKey C f t r (keyOf (fst e)) = returnM t" using True forwardKey_eq [of f "fst e"] by (simp add: TraceKey_def)
  ultimately show ?thesis using sim by (intro exI [of _ t]) simp
next
  case moves: False
  let ?k' = "keyOf (forwardValue f (fst e))" and ?y = "newElement C (keyOf (fst e)) (snd e)"
  have live: "live (tableOps C) t = present (elementsOf C ps)" and ok: "tableOk (tableOps C) t" using sim by (simp_all add: simulates_def)
  obtain xs where rest: "rest (tableOps C) t r = ?y # xs" using front_entry(1) [OF sim r j] by blast
  have "\<not> match (tableOps C) (getKey (tableOps C) z) ?k'" if "z \<in> set (live (tableOps C) t)" for z
    using that fresh [OF moves] by (auto simp: live present_elementsOf set_present match_iff getKey_new)
  then obtain t' where t': "rekeyFront (tableOps C) t r ?k' = returnM t'" "tableOk (tableOps C) t'"
    "live (tableOps C) t' = rekeyList (tableOps C) (keyOf (fst e)) (newElement C ?k' (snd e)) (live (tableOps C) t)"
    "rangesMap (tableOps C) (rekeyList (tableOps C) (keyOf (fst e)) (newElement C ?k' (snd e))) t t'"
    using rekeyFront_ok [OF ok r rest, of ?k'] by (auto simp: isEmpty_iff getKey_new setKey_new)
  have me: "Some e \<in> set ps" using j holeNext_Some(1) [OF j(1)] by (metis nth_mem)
  have "map (map_option (\<lambda>y. if match (tableOps C) (getKey (tableOps C) y) (keyOf (fst e)) then newElement C ?k' (snd e) else y)) (elementsOf C ps) =
      map (map_option (\<lambda>e'. if keyOf (fst e') = keyOf (fst e) then newElement C ?k' (snd e') else newElement C (keyOf (fst e')) (snd e'))) ps"
    using same_key_same [OF sim _ me] by (intro rekeyed_elements [OF refl]) (metis setKey_new)
  also have "\<dots> = elementsOf C (map (map_option (\<lambda>e'. if keyOf (fst e') = keyOf (fst e) then (forwardValue f (fst e'), snd e') else e')) ps)"
    by (auto simp: elementsOf_def keyOf_forward option.map_comp intro!: option.map_cong)
  finally have "simulates (tableOps C) t' (elementsOf C (map (map_option (\<lambda>e'. if keyOf (fst e') = keyOf (fst e) then (forwardValue f (fst e'), snd e') else e')) ps)) pos"
    using simulates_rekeyed [OF sim t'(2-4)] by simp
  moreover have "TraceKey C f t r (keyOf (fst e)) = returnM t'"
    using moves t'(1) forwardKey_eq [of f "fst e"] by (simp add: TraceKey_def keyOf_forward)
  ultimately show ?thesis using t'(4) by (auto simp: rangesMap_def)
qed

lemma traceFront_ok:
  assumes sim: "simulates (tableOps C) t (elementsOf C ps) pos" and r: "r \<in> set (ranges t @ nurseryRanges t)"
    and j: "holeNext ps (pos r) = Some j" "ps ! j = Some e"
  shows "\<exists>t'. traceFront C f t r = returnM t' \<and>
    simulates (tableOps C) t' (elementsOf C (map (map_option (\<lambda>e'. if keyOf (fst e') = keyOf (fst e) then (fst e', forwardValue f (snd e')) else e')) ps)) pos \<and>
    ranges t' = ranges t \<and> nurseryRanges t' = nurseryRanges t"
proof -
  let ?y = "newElement C (keyOf (fst e)) (snd e)" and ?x = "newElement C (keyOf (fst e)) (forwardValue f (snd e))"
  let ?i = "rangeI (rangeAt t r)"
  have live: "live (tableOps C) t = present (elementsOf C ps)" and ok: "tableOk (tableOps C) t" using sim by (simp_all add: simulates_def)
  obtain xs where rest: "rest (tableOps C) t r = ?y # xs" using front_entry(1) [OF sim r j] by blast
  note fe = front_element [OF ok r rest]
  let ?t' = "t\<lparr>data := (data t)[?i := (data t ! ?i)\<lparr>element := ?x\<rparr>]\<rparr>"
  have m: "match (tableOps C) (getKey (tableOps C) (elements t ! ?i)) (getKey (tableOps C) ?x)" by (simp add: fe(2) match_iff getKey_new)
  note rep = replace_element [OF ok full_new fe(1) _ m]
  have f: "full (tableOps C) (elements t ! ?i)" using fe by simp
  have tr: "traceFront C f t r = returnM ?t'"
    using front_entry(2) [OF sim r j] fe(1) by (simp add: traceFront_def trace_new dataLength_def)
  have me: "Some e \<in> set ps" using j holeNext_Some(1) [OF j(1)] by (metis nth_mem)
  have sim': "simulates (tableOps C) ?t' (map (map_option (\<lambda>y. if match (tableOps C) (getKey (tableOps C) y) (keyOf (fst e)) then ?x else y)) (elementsOf C ps)) pos"
  proof -
    have "overwrite (tableOps C) ?x = rekeyList (tableOps C) (keyOf (fst e)) ?x"
      by (simp add: fun_eq_iff overwrite_def rekeyList_def getKey_new)
    then show ?thesis using rep f by (intro simulates_rekeyed [OF sim]) auto
  qed
  have "map (map_option (\<lambda>y. if match (tableOps C) (getKey (tableOps C) y) (keyOf (fst e)) then ?x else y)) (elementsOf C ps) =
      elementsOf C (map (map_option (\<lambda>e'. if keyOf (fst e') = keyOf (fst e) then (fst e', forwardValue f (snd e')) else e')) ps)"
  proof -
    have "newElement C (keyOf (fst e)) (forwardValue f (snd e')) = ?x" if "Some e' \<in> set ps" "keyOf (fst e') = keyOf (fst e)" for e'
      using same_key_same [OF sim that(1) me that(2)] that(2) trace_new by metis
    then show ?thesis
      by (auto simp: elementsOf_def match_iff getKey_new option.map_comp intro!: option.map_cong)
  qed
  then show ?thesis using sim' tr by (intro exI [of _ ?t']) simp
qed

end


context collection
begin

lemma keys_apart:
  assumes sim: "simulates (tableOps C) t (elementsOf C es) pos" and j: "j < length es" "es ! j = Some e"
    and e': "e' \<in> set (present (take j es))"
  shows "keyOf (fst e') \<noteq> keyOf (fst e)"
proof -
  have "present es = present (take j es) @ present (drop j es)" by (simp flip: present_append)
  moreover have "present (drop j es) = e # present (drop (Suc j) es)" using j by (simp flip: Cons_nth_drop_Suc)
  ultimately have "present es = present (take j es) @ e # present (drop (Suc j) es)" by simp
  moreover have "keysDiffer (tableOps C) (present (elementsOf C es))"
    using sim unfolding simulates_def tableOk_def by auto
  ultimately show ?thesis
    using e' by (auto simp: keysDiffer_def present_elementsOf sorted_wrt_append sorted_wrt_map getKey_new match_iff)
qed

lemma traceStep_ok:
  assumes sim: "simulates (tableOps C) t (elementsOf C (changed (forwardEntry f) K es)) pos" and r: "r \<in> set (ranges t @ nurseryRanges t)"
    and j: "holeNext es (pos r) = Some j" "es ! j = Some e" and nK: "keyOf (fst e) \<notin> K"
    and fw: "forwardingOk hp f ks" and ks: "fst ` set (present es) \<subseteq> set ks"
  shows "\<exists>t'. traceStep C f r t = returnM t' \<and>
    simulates (tableOps C) t' (elementsOf C (changed (forwardEntry f) (insert (keyOf (fst e)) K) es)) (pos(r := Suc j)) \<and>
    ranges t' = ranges t \<and> nurseryRanges t' = nurseryRanges t"
proof -
  let ?ps = "changed (forwardEntry f) K es" and ?k = "keyOf (fst e)"
  let ?q1 = "\<lambda>e'. if keyOf (fst e') = ?k then (forwardValue f (fst e'), snd e') else e'"
  let ?q2 = "\<lambda>e'. if keyOf (fst e') = forwardKey f ?k then (fst e', forwardValue f (snd e')) else e'"
  let ?ps1 = "map (map_option ?q1) ?ps" and ?ps2 = "map (map_option ?q2) (map (map_option ?q1) ?ps)"
  have jl: "j < length es" using holeNext_Some(1) [OF j(1)] .
  have me: "Some e \<in> set es" using jl j(2) by (metis nth_mem)
  have k: "fst e \<in> set ks" using me ks by (auto simp: set_present)
  have next1: "holeNext ?ps (pos r) = Some j" "?ps ! j = Some e" using j jl nK by (simp_all add: changed_def holeNext_map)
  have g_fst: "fst (forwardEntry f e') = forwardValue f (fst e')" for e' by (simp add: forwardEntry_def)
  have fresh: "keyOf (fst e') \<noteq> keyOf (forwardValue f (fst e))"
    if "forwardValue f (fst e) \<noteq> fst e" "Some e' \<in> set ?ps" for e'
    using moved_fresh [OF fw k that(1) nK g_fst that(2) ks] .
  obtain t1 where t1: "TraceKey C f t r ?k = returnM t1" "simulates (tableOps C) t1 (elementsOf C ?ps1) pos"
      "ranges t1 = ranges t" "nurseryRanges t1 = nurseryRanges t"
    using TraceKey_ok [OF sim r next1 fresh] by blast
  have r1: "r \<in> set (ranges t1 @ nurseryRanges t1)" using r t1(3,4) by simp
  have next2: "holeNext ?ps1 (pos r) = Some j" "?ps1 ! j = Some (forwardValue f (fst e), snd e)"
  proof -
    show "holeNext ?ps1 (pos r) = Some j" using next1(1) by (simp add: holeNext_map)
    have "?ps1 ! j = map_option ?q1 (?ps ! j)" by (rule nth_map) (simp add: changed_def jl)
    then show "?ps1 ! j = Some (forwardValue f (fst e), snd e)" by (simp add: next1(2))
  qed
  obtain t2 where t2: "traceFront C f t1 r = returnM t2" "simulates (tableOps C) t2 (elementsOf C ?ps2) pos"
      "ranges t2 = ranges t1" "nurseryRanges t2 = nurseryRanges t1"
    using traceFront_ok [OF t1(2) r1 next2, of f] by (auto simp: keyOf_forward)
  have r2: "r \<in> set (ranges t2 @ nurseryRanges t2)" using r1 t2(3,4) by simp
  have next3: "holeNext (elementsOf C ?ps2) (pos r) = Some j" using next2(1) by (simp only: elementsOf_def holeNext_map)
  obtain t3 where t3: "popFront (tableOps C) t2 r = returnM t3" "simulates (tableOps C) t3 (elementsOf C ?ps2) (pos(r := Suc j))"
      "ranges t3 = ranges t2" "nurseryRanges t3 = nurseryRanges t2"
    using simulates_next(2) [OF t2(2) r2 next3] by blast
  have "?ps2 = map (map_option (?q2 \<circ> ?q1)) ?ps" by (simp add: option.map_comp)
  also have "\<dots> = changed (forwardEntry f) (insert ?k K) es"
  proof (rule changed_one)
    fix e'
    assume e': "Some e' \<in> set es" "keyOf (fst e') \<in> K"
    show "keyOf (fst (forwardEntry f e')) \<noteq> ?k"
    proof
      assume eq: "keyOf (fst (forwardEntry f e')) = ?k"
      have k': "fst e' \<in> set ks" using e'(1) ks by (auto simp: set_present)
      show False
      proof (cases "forwardValue f (fst e') = fst e'")
        case True
        then show False using eq e'(2) nK by (simp add: g_fst)
      next
        case False
        then have "isObject (forwardValue f (fst e'))" using forwardValue_object by simp
        from keyOf_object [OF this, of "fst e"] have "fst e = forwardValue f (fst e')" using eq by (simp add: g_fst)
        then show False using False fw k k' by (auto simp: forwardingOk_def)
      qed
    qed
  next
    fix e'
    assume e': "Some e' \<in> set ?ps" "keyOf (fst e') \<noteq> ?k"
    then have "keyOf (fst e') \<noteq> forwardKey f ?k"
      using fresh [of e'] forwardKey_eq [of f "fst e"] by (cases "forwardValue f (fst e) = fst e") (auto simp: keyOf_forward)
    then show "map_option (?q2 \<circ> ?q1) (Some e') = Some e'" using e'(2) by simp
  next
    fix e' :: "jsvalue \<times> jsvalue"
    assume "keyOf (fst e') = ?k"
    then show "map_option (?q2 \<circ> ?q1) (Some e') = Some (forwardEntry f e')" by (simp add: keyOf_forward forwardEntry_def)
  qed (use nK in simp_all)
  finally have "simulates (tableOps C) t3 (elementsOf C (changed (forwardEntry f) (insert ?k K) es)) (pos(r := Suc j))"
    using t3(2) by simp
  moreover have "traceStep C f r t = returnM t3"
    using front_entry(2) [OF sim r next1] t1(1) t2(1) t3(1) by (simp add: traceStep_def getKey_new)
  ultimately show ?thesis using t1(3,4) t2(3,4) t3(3,4) by (intro exI [of _ t3]) simp
qed

lemma traceLoop_ok:
  assumes "simulates (tableOps C) t (elementsOf C (changed (forwardEntry f) ((keyOf \<circ> fst) ` set (present (take (pos r) es))) es)) pos"
    and r: "r \<in> set (ranges t @ nurseryRanges t)"
    and fw: "forwardingOk hp f ks" and ks: "fst ` set (present es) \<subseteq> set ks"
    and original: "simulates (tableOps C) t0 (elementsOf C es) pos0"
  shows "\<exists>t' pos'. whileE (\<lambda>(t, empty). \<not> empty)
        (\<lambda>(t, empty). bindM (traceStep C f r t) (\<lambda>t. bindM (rangeEmpty t r) (\<lambda>empty. returnM (t, empty))))
        (t, holeNext es (pos r) = None) = returnM (t', True) \<and>
      simulates (tableOps C) t' (elementsOf C (map (map_option (forwardEntry f)) es)) pos' \<and>
      (\<forall>r'. r' \<noteq> r \<longrightarrow> pos' r' = pos r') \<and> ranges t' = ranges t \<and> nurseryRanges t' = nurseryRanges t"
  using assms(1,2)
proof (induction "length es - pos r" arbitrary: t pos rule: less_induct)
  case less
  let ?K = "\<lambda>i. (keyOf \<circ> fst) ` set (present (take i es))"
  show ?case
  proof (cases "holeNext es (pos r)")
    case None
    then have "present (drop (pos r) es) = []" by (simp add: holeNext_None)
    then have "present (take (pos r) es) = present es" by (metis append_Nil2 append_take_drop_id present_append)
    moreover have "keyOf (fst e) \<in> (keyOf \<circ> fst) ` set (present es)" if "Some e \<in> set es" for e
      using that by (simp add: image_iff) (metis set_present)
    ultimately have "changed (forwardEntry f) (?K (pos r)) es = map (map_option (forwardEntry f)) es"
      by (auto simp: changed_def intro!: map_cong option.map_cong)
    then show ?thesis using None less.prems(1) by (subst whileE_unfold) auto
  next
    case (Some j)
    obtain e where e: "j < length es" "es ! j = Some e" "present (take (Suc j) es) = present (take (pos r) es) @ [e]"
      using holeNext_Some [OF Some] by auto
    have "?K (pos r) \<subseteq> ?K j"
    proof -
      have "present (take j es) = present (take (pos r) es)"
        using e by (simp add: take_Suc_conv_app_nth)
      then show ?thesis by simp
    qed
    then have nK: "keyOf (fst e) \<notin> ?K (pos r)" using keys_apart [OF original e(1,2)] by force
    obtain t' where t': "traceStep C f r t = returnM t'"
        "simulates (tableOps C) t' (elementsOf C (changed (forwardEntry f) (insert (keyOf (fst e)) (?K (pos r))) es)) (pos(r := Suc j))"
        "ranges t' = ranges t" "nurseryRanges t' = nurseryRanges t"
      using traceStep_ok [OF less.prems Some e(2) nK fw ks] by blast
    have K: "insert (keyOf (fst e)) (?K (pos r)) = ?K ((pos(r := Suc j)) r)" using e(3) by simp
    have r': "r \<in> set (ranges t' @ nurseryRanges t')" using less.prems(2) t'(3,4) by simp
    have "pos r \<le> j" using holeNext_le [OF Some] .
    then have less': "length es - (pos(r := Suc j)) r < length es - pos r" using e(1) by simp
    have em: "rangeEmpty t' r = returnM (holeNext es ((pos(r := Suc j)) r) = None)"
      using simulates_next(1) [OF t'(2) r'] by (simp only: elementsOf_def changed_def holeNext_map)
    obtain t'' pos' where w: "whileE (\<lambda>(t, empty). \<not> empty)
        (\<lambda>(t, empty). bindM (traceStep C f r t) (\<lambda>t. bindM (rangeEmpty t r) (\<lambda>empty. returnM (t, empty))))
        (t', holeNext es ((pos(r := Suc j)) r) = None) = returnM (t'', True)"
      "simulates (tableOps C) t'' (elementsOf C (map (map_option (forwardEntry f)) es)) pos'"
      "\<forall>r'. r' \<noteq> r \<longrightarrow> pos' r' = (pos(r := Suc j)) r'" "ranges t'' = ranges t'" "nurseryRanges t'' = nurseryRanges t'"
      using less.hyps [OF less' t'(2) [unfolded K] r'] by blast
    have "whileE (\<lambda>(t, empty). \<not> empty)
        (\<lambda>(t, empty). bindM (traceStep C f r t) (\<lambda>t. bindM (rangeEmpty t r) (\<lambda>empty. returnM (t, empty))))
        (t, holeNext es (pos r) = None) = returnM (t'', True)"
      using Some t'(1) em w(1) by (subst whileE_unfold) simp
    then show ?thesis using w(2-5) t'(3,4) by (intro exI [of _ t''] exI [of _ pos']) simp
  qed
qed

lemma TableObject_trace_ok:
  assumes sim: "simulates (tableOps C) t (elementsOf C es) pos"
    and fw: "forwardingOk hp f ks" and ks: "fst ` set (present es) \<subseteq> set ks"
  shows "\<exists>t'. TableObject_trace C f t = returnM t' \<and>
    simulates (tableOps C) t' (elementsOf C (map (map_option (forwardEntry f)) es)) pos \<and>
    ranges t' = ranges t \<and> nurseryRanges t' = nurseryRanges t"
proof -
  let ?r = "freshRange t"
  obtain t1 where t1: "createRange (tableOps C) ?r False t = returnM t1"
      "simulates (tableOps C) t1 (elementsOf C es) (pos(?r := 0))" "ranges t1 = ?r # ranges t" "nurseryRanges t1 = nurseryRanges t"
    using simulates_create [OF sim freshRange_new, where n = False] by auto
  have r1: "?r \<in> set (ranges t1 @ nurseryRanges t1)" by (simp add: t1(3))
  have c0: "changed (forwardEntry f) ((keyOf \<circ> fst) ` set (present (take ((pos(?r := 0)) ?r) es))) es = es"
    by (simp add: changed_def option.map_id0 [unfolded id_def])
  have em: "rangeEmpty t1 ?r = returnM (holeNext es ((pos(?r := 0)) ?r) = None)"
    using simulates_next(1) [OF t1(2) r1] by (simp only: elementsOf_def holeNext_map)
  obtain t2 pos' where t2: "whileE (\<lambda>(t, empty). \<not> empty)
        (\<lambda>(t, empty). bindM (traceStep C f ?r t) (\<lambda>t. bindM (rangeEmpty t ?r) (\<lambda>empty. returnM (t, empty))))
        (t1, holeNext es ((pos(?r := 0)) ?r) = None) = returnM (t2, True)"
      "simulates (tableOps C) t2 (elementsOf C (map (map_option (forwardEntry f)) es)) pos'"
      "\<forall>r'. r' \<noteq> ?r \<longrightarrow> pos' r' = (pos(?r := 0)) r'" "ranges t2 = ranges t1" "nurseryRanges t2 = nurseryRanges t1"
    using traceLoop_ok [OF _ r1 fw ks sim, of "pos(?r := 0)", unfolded c0, OF t1(2)] by blast
  let ?t' = "destroyRange ?r t2"
  have lists: "ranges ?t' = ranges t" "nurseryRanges ?t' = nurseryRanges t"
    using freshRange_new [of t] t1(3,4) t2(4,5) by (simp_all add: destroyRange_def remove1_idem)
  have "simulates (tableOps C) ?t' (elementsOf C (map (map_option (forwardEntry f)) es)) pos"
  proof (rule simulates_cong [OF simulates_destroy [OF t2(2)]])
    fix r'
    assume "r' \<in> set (ranges ?t' @ nurseryRanges ?t')"
    then have "r' \<noteq> ?r" using freshRange_new [of t] lists by auto
    then show "pos r' = pos' r'" using t2(3) by simp
  qed
  moreover have "TableObject_trace C f t = returnM ?t'"
    using t1(1) em t2(1) by (simp add: TableObject_trace_def Let_def all_def)
  ultimately show ?thesis using lists by blast
qed

lemma rekeyNurseryKeys_ok:
  assumes "simulates (tableOps C) t (elementsOf C (changed g K es)) pos"
    and fw: "forwardingOk hp f ks" and "set keys \<subseteq> set ks" and ks: "fst ` set (present es) \<subseteq> set ks"
    and g: "g = (\<lambda>e. (forwardValue f (fst e), snd e))"
  shows "\<exists>t'. rekeyNurseryKeys C f keys t = returnM t' \<and>
    simulates (tableOps C) t' (elementsOf C (changed g (Hashable ` set keys \<union> K) es)) pos \<and>
    ranges t' = ranges t \<and> nurseryRanges t' = nurseryRanges t"
  using assms(1,3)
proof (induction keys arbitrary: t K)
  case (Cons k keys)
  from Cons.prems(2) have "k \<in> set ks" by simp
  then obtain t1 where t1: "rekeyEntry C (Hashable k) (Hashable (forwardValue f k)) t = returnM t1"
    "simulates (tableOps C) t1 (elementsOf C (changed g (insert (Hashable k) K) es)) pos"
    "ranges t1 = ranges t" "nurseryRanges t1 = nurseryRanges t"
    using rekeyEntry_ok [OF Cons.prems(1) fw _ ks g] by blast
  show ?case using Cons.IH [OF t1(2)] Cons.prems(2) t1 by auto
qed auto

end


section \<open>A collection\<close>

text \<open>The entries under their new names; what the flags of the object are while the collection runs.\<close>

definition forwarded :: "(nat \<Rightarrow> nat) \<Rightarrow> ESCollection \<Rightarrow> ESCollection" where
  "forwarded f s =
     s\<lparr>entries := map (map_option (forwardEntry f)) (entries s),
       seenKeys := map (\<lambda>e. forwardValue f (fst e)) (present (entries s))\<rparr>"

definition sameFlags :: "'t TableObject \<Rightarrow> 't TableObject \<Rightarrow> bool" where
  "sameFlags obj obj' \<longleftrightarrow> insideNursery obj' = insideNursery obj \<and> HasNurseryMemory obj' = HasNurseryMemory obj"

definition tenuredIters :: "nat \<Rightarrow> 't TableObject \<Rightarrow> bool" where
  "tenuredIters n obj \<longleftrightarrow> (\<forall>i < n. \<forall>it. iterators obj ! i = Some it \<longrightarrow> \<not> iteratorInNursery it)"

lemma specCollect_forwarded: "specCollect f reachable s = (forwarded f s)\<lparr>cursors := keepReachable reachable (cursors s)\<rparr>"
  by (simp add: specCollect_def forwarded_def)

lemma forwarded_keys: "fst ` set (present (entries (forwarded f s))) = forwardValue f ` fst ` set (present (entries s))"
  by (simp add: forwarded_def present_map forwardEntry_def image_image)

lemma represents_drop:
  assumes rep: "represents hp C obj s" and len: "length cs = length (cursors s)"
    and sub: "\<And>i. i < length cs \<Longrightarrow> cs ! i = None \<or> cs ! i = cursors s ! i"
  shows "represents hp C obj (s\<lparr>cursors := cs\<rparr>)"
proof -
  have "cursorsAt pos (iterators obj) cs" if "cursorsAt pos (iterators obj) (cursors s)" for pos
    using that len sub unfolding cursorsAt_def by (metis option.distinct(1))
  then show ?thesis using rep unfolding represents_def by auto
qed

lemma represents_drop_reachable:
  "represents hp C obj s \<Longrightarrow> represents hp C obj (s\<lparr>cursors := keepReachable reachable (cursors s)\<rparr>)"
  by (rule represents_drop) (auto simp: keepReachable_def)

lemma represents_None:
  assumes "represents hp C (obj\<lparr>getData := t, NurseryKeys := None\<rparr>) s" and "NurseryKeys obj = None"
  shows "represents hp C (obj\<lparr>getData := t\<rparr>) s"
proof -
  have "obj\<lparr>getData := t, NurseryKeys := None\<rparr> = obj\<lparr>getData := t\<rparr>" using assms(2) by (cases obj) simp
  then show ?thesis using assms(1) by (rule subst)
qed

context collection
begin

lemma traced:
  assumes rep: "represents hp C obj s" and fw: "forwardingOk hp f (seenKeys s)"
  shows "\<exists>obj'. (if insideNursery obj
            then bindM (TableObject_trace C f (getData obj)) (\<lambda>t. returnM (obj\<lparr>getData := t\<rparr>))
            else
              bindM (if NurseryKeys obj = None then returnM obj else OrderedHashTableRef_trace C f obj) (\<lambda>obj.
              returnM (obj\<lparr>getData := traceValues C f (getData obj)\<rparr>))) = returnM obj' \<and>
    represents hp C obj' (forwarded f s) \<and> sameFlags obj obj' \<and> iterators obj' = iterators obj \<and> NurseryKeys obj' = None"
proof -
  let ?es = "entries s" and ?t = "getData obj"
  obtain p where sim: "simulates (tableOps C) ?t (elementsOf C ?es) p"
    and cur: "cursorsAt p (iterators obj) (cursors s)" using rep by (rule represents_simulates)
  have ks: "fst ` set (present ?es) \<subseteq> set (seenKeys s)" using rep unfolding represents_def by blast
  have moved: "represents hp C (obj\<lparr>getData := t', NurseryKeys := None\<rparr>) (forwarded f s)"
    if "simulates (tableOps C) t' (elementsOf C (map (map_option (forwardEntry f)) ?es)) p" "ranges t' = ranges ?t" "nurseryRanges t' = nurseryRanges ?t"
    for t'
  proof -
    have "\<not> isNursery hp k" if "k \<in> fst ` set (present (entries (forwarded f s)))" "isObject k" for k
      using that fw ks unfolding forwarded_keys forwardingOk_def by auto
    then have "keysRecorded hp (obj\<lparr>getData := t', NurseryKeys := None\<rparr>) (fst ` set (present (entries (forwarded f s))))"
      using represents_recorded [OF rep] by (auto simp: keysRecorded_def)
    moreover have "validValue k \<and> k \<in> set (seenKeys (forwarded f s))" if "k \<in> fst ` set (present (entries (forwarded f s)))" for k
      using that rep unfolding forwarded_keys by (auto simp: represents_def forwarded_def)
    ultimately show ?thesis
      using rep cur that itersOk_cong [OF that(2,3)] unfolding represents_def by (auto simp: forwarded_def)
  qed
  show ?thesis
  proof (cases "insideNursery obj")
    case True
    then have nk: "NurseryKeys obj = None" using represents_recorded [OF rep] by (simp add: keysRecorded_def)
    obtain t' where t': "TableObject_trace C f ?t = returnM t'"
        "simulates (tableOps C) t' (elementsOf C (map (map_option (forwardEntry f)) ?es)) p" "ranges t' = ranges ?t" "nurseryRanges t' = nurseryRanges ?t"
      using TableObject_trace_ok [OF sim fw ks] by blast
    have "represents hp C (obj\<lparr>getData := t'\<rparr>) (forwarded f s)" using moved [OF t'(2-4)] nk by (rule represents_None)
    then show ?thesis using t'(1) True nk by (intro exI [of _ "obj\<lparr>getData := t'\<rparr>"]) (simp add: sameFlags_def)
  next
    case False
    let ?keys = "case NurseryKeys obj of None \<Rightarrow> [] | Some keys \<Rightarrow> keys" and ?g = "\<lambda>e. (forwardValue f (fst e), snd e)"
    let ?K = "Hashable ` set ?keys"
    have sub: "set ?keys \<subseteq> set (seenKeys s)" using rep unfolding represents_def by (cases "NurseryKeys obj") auto
    obtain t' where t': "rekeyNurseryKeys C f ?keys ?t = returnM t'" "simulates (tableOps C) t' (elementsOf C (changed ?g ?K ?es)) p"
        "ranges t' = ranges ?t" "nurseryRanges t' = nurseryRanges ?t"
    proof -
      have "changed ?g {} ?es = ?es" by (simp add: changed_def option.map_id0 [unfolded id_def])
      then have "simulates (tableOps C) ?t (elementsOf C (changed ?g {} ?es)) p" using sim by simp
      from rekeyNurseryKeys_ok [OF this fw sub ks refl] show ?thesis using that by auto
    qed
    have fixed: "forwardValue f (fst e) = fst e" if "Some e \<in> set ?es" "keyOf (fst e) \<notin> ?K" for e
    proof (cases "isObject (fst e) \<and> isNursery hp (fst e)")
      case True
      have "fst e \<in> fst ` set (present ?es)" using that(1) by (simp add: set_present)
      then obtain keys where "NurseryKeys obj = Some keys" "fst e \<in> set keys"
        using represents_recorded [OF rep] False True unfolding keysRecorded_def by auto
      moreover have "keyOf (fst e) = Hashable (fst e)" using True by (cases "fst e") (simp_all add: keyOf_def)
      ultimately show ?thesis using that(2) by auto
    next
      case False
      have "fst e \<in> set (seenKeys s)" using ks that(1) by (metis imageI set_present subsetD)
      then show ?thesis using False fw forwardValue_object [of f "fst e"] by (auto simp: forwardingOk_def)
    qed
    have "map (map_option (traceValue C f)) (elementsOf C (changed ?g ?K ?es)) = elementsOf C (map (map_option (forwardEntry f)) ?es)"
      using fixed by (auto simp: elementsOf_def changed_def trace_new forwardEntry_def option.map_comp intro!: map_cong option.map_cong)
    moreover have "simulates (tableOps C) (traceValues C f t') (map (map_option (traceValue C f)) (elementsOf C (changed ?g ?K ?es))) p"
      unfolding traceValues_def by (rule simulates_mapped [OF trace_key t'(2)])
    ultimately have "simulates (tableOps C) (traceValues C f t') (elementsOf C (map (map_option (forwardEntry f)) ?es)) p" by simp
    from moved [OF this] have rep': "represents hp C (obj\<lparr>getData := traceValues C f t', NurseryKeys := None\<rparr>) (forwarded f s)"
      using t'(3,4) by (simp add: traceValues_def)
    show ?thesis
    proof (cases "NurseryKeys obj")
      case None
      then have "t' = ?t" using t'(1) by (simp add: returnM_def fun_eq_iff)
      moreover have "represents hp C (obj\<lparr>getData := traceValues C f t'\<rparr>) (forwarded f s)" using rep' None by (rule represents_None)
      ultimately show ?thesis using False None by (intro exI [of _ "obj\<lparr>getData := traceValues C f t'\<rparr>"]) (simp add: sameFlags_def)
    next
      case (Some keys)
      then show ?thesis
        using False t'(1) rep' by (intro exI [of _ "obj\<lparr>getData := traceValues C f t', NurseryKeys := None\<rparr>"])
          (cases obj, simp add: sameFlags_def OrderedHashTableRef_trace_def)
    qed
  qed
qed

end


text \<open>One iterator of the nursery, moved or lost.\<close>

lemma itersOk_live: "itersOk t its \<Longrightarrow> j < length its \<Longrightarrow> its ! j = Some it \<Longrightarrow> iterLive t it"
  unfolding itersOk_def by (metis nth_mem)

lemma itersOk_removed:
  assumes "itersOk t its"
  shows "itersOk t (its[i := None])"
  using assms by (rule itersOk_update) (use itersOk_live [OF assms] in auto)

lemma represents_moved:
  assumes "represents hp C obj s" and "simulates (tableOps C) t' (elementsOf C (entries s)) p'"
    and "cursorsAt p' its' ((cursors s)[i := cursors s ! i])" and "itersOk t' its'" and "nurseryRanges t' \<noteq> [] \<Longrightarrow> HasNurseryMemory obj"
  shows "represents hp C (obj\<lparr>getData := t', iterators := its'\<rparr>) s"
  using represents_iters [OF assms] by simp

lemma represents_moved_same:
  assumes "represents hp C obj s" and "simulates (tableOps C) (getData obj) (elementsOf C (entries s)) p'"
    and "cursorsAt p' its' ((cursors s)[i := cursors s ! i])" and "itersOk (getData obj) its'"
  shows "represents hp C (obj\<lparr>iterators := its'\<rparr>) s"
proof -
  have "obj\<lparr>getData := getData obj, iterators := its'\<rparr> = obj\<lparr>iterators := its'\<rparr>" by (cases obj) simp
  moreover have "represents hp C (obj\<lparr>getData := getData obj, iterators := its'\<rparr>) s"
    by (rule represents_moved [OF assms]) (use assms(1) in \<open>simp add: represents_def\<close>)
  ultimately show ?thesis by (rule subst)
qed

context collection
begin

lemma moveIterator_ok:
  assumes rep: "represents hp C obj s" and i: "i < length (iterators obj)" and gone: "\<not> reachable i \<Longrightarrow> cursors s ! i = None"
  shows "runs (moveIterator reachable i obj) v (oom v) (\<lambda>obj'. represents hp C obj' s \<and> sameFlags obj obj' \<and>
    (\<exists>e. iterators obj' = (iterators obj)[i := e] \<and> (\<forall>it. e = Some it \<longrightarrow> \<not> iteratorInNursery it)))"
    (is "runs _ _ _ (\<lambda>obj'. ?good obj')")
proof -
  let ?t = "getData obj" and ?its = "iterators obj"
  obtain p where sim: "simulates (tableOps C) ?t (elementsOf C (entries s)) p"
    and cur: "cursorsAt p ?its (cursors s)" using rep by (rule represents_simulates)
  have its: "itersOk ?t ?its" and nm: "nurseryRanges ?t \<noteq> [] \<longrightarrow> HasNurseryMemory obj" using rep by (simp_all add: represents_def)
  have len: "length ?its = length (cursors s)" using cur by (simp add: cursorsAt_def)
  show ?thesis
  proof (cases "?its ! i")
    case None
    have "?its[i := None] = ?its" using None by (metis list_update_id)
    then show ?thesis using None rep by (auto simp: moveIterator_def sameFlags_def intro!: exI [of _ None])
  next
    case (Some it)
    have live: "iterLive ?t it" using itersOk_live [OF its i Some] .
    consider (lost) "iteratorInNursery it" "\<not> reachable i" | (tenured) "\<not> iteratorInNursery it"
      | (moved) "iteratorInNursery it" "reachable i" by blast
    then show ?thesis
    proof cases
      case lost
      have "represents hp C (obj\<lparr>iterators := ?its[i := None]\<rparr>) s"
      proof (rule represents_moved_same [OF rep sim _ itersOk_removed [OF its]])
        show "cursorsAt p (?its[i := None]) ((cursors s)[i := cursors s ! i])"
          by (rule cursorsAt_update [OF cur]) (use i len gone lost in auto)
      qed
      then have "?good (obj\<lparr>iterators := ?its[i := None]\<rparr>)" by (auto simp: sameFlags_def intro!: exI [of _ None])
      then show ?thesis using Some lost by (simp add: moveIterator_def)
    next
      case tenured
      then have "IteratorObject_objectMoved i obj = returnM obj" using Some i by (simp add: IteratorObject_objectMoved_def)
      moreover have "?its[i := Some it] = ?its" using Some by (metis list_update_id)
      ultimately show ?thesis using Some tenured rep by (auto simp: moveIterator_def sameFlags_def intro!: exI [of _ "Some it"])
    next
      case moved
      let ?it = "it\<lparr>iteratorInNursery := False\<rparr>"
      have step: "moveIterator reachable i obj = IteratorObject_objectMoved i obj" using Some moved by (simp add: moveIterator_def)
      show ?thesis
      proof (cases "RangeSlot it")
        case None
        have "represents hp C (obj\<lparr>iterators := ?its[i := Some ?it]\<rparr>) s"
        proof (rule represents_moved_same [OF rep sim])
          show "cursorsAt p (?its[i := Some ?it]) ((cursors s)[i := cursors s ! i])"
            by (rule cursorsAt_update [OF cur]) (use i len cur Some in \<open>auto simp: cursorsAt_def iterAt_def\<close>)
          show "itersOk ?t (?its[i := Some ?it])"
            using its by (rule itersOk_update) (use None itersOk_live [OF its] in \<open>auto simp: iterLive_def\<close>)
        qed
        then have "?good (obj\<lparr>iterators := ?its[i := Some ?it]\<rparr>)" by (auto simp: sameFlags_def intro!: exI [of _ "Some ?it"])
        then show ?thesis using step Some moved None i by (simp add: IteratorObject_objectMoved_def)
      next
        case r: (Some r)
        have rn: "r \<in> set (nurseryRanges ?t)" using live r moved(1) by (simp add: iterLive_def)
        let ?r = "freshRange ?t" and ?it' = "?it\<lparr>RangeSlot := Some (freshRange ?t)\<rparr>"
        let ?t' = "destroyRange r (copyRange r (freshRange ?t) ?t)"
        have new: "?r \<noteq> r" "?r \<notin> set (ranges ?t)" "?r \<notin> set (nurseryRanges ?t)" using freshRange_new [of ?t] rn by auto
        have sim': "simulates (tableOps C) ?t' (elementsOf C (entries s)) (p(?r := p r))"
          by (intro simulates_destroy simulates_copy [OF sim freshRange_new]) (use rn in simp)
        have others: "RangeSlot it' \<noteq> Some ?r \<and> RangeSlot it' \<noteq> Some r" if "j < length ?its" "j \<noteq> i" "?its ! j = Some it'" for j it'
        proof -
          have "iterLive ?t it'" using itersOk_live [OF its that(1,3)] .
          then have "RangeSlot it' \<noteq> Some ?r" using new by (auto simp: iterLive_def split: if_splits)
          moreover have "RangeSlot it' \<noteq> Some r" using its that Some i r unfolding itersOk_def by metis
          ultimately show ?thesis by blast
        qed
        have "represents hp C (obj\<lparr>getData := ?t', iterators := ?its[i := Some ?it']\<rparr>) s"
        proof (rule represents_moved [OF rep sim'])
          show "cursorsAt (p(?r := p r)) (?its[i := Some ?it']) ((cursors s)[i := cursors s ! i])"
          proof (rule cursorsAt_update [OF cur])
            show "i < length (cursors s)" using i len by simp
            show "\<exists>it''. Some ?it' = Some it'' \<and> iterAt (p(?r := p r)) it'' c'" if "cursors s ! i = Some c'" for c'
              using that cur Some r i len by (auto simp: cursorsAt_def iterAt_def)
            fix j it' c'
            assume "j < length (cursors s)" "j \<noteq> i" "?its ! j = Some it'" "iterAt p it' c'"
            then show "iterAt (p(?r := p r)) it' c'" using others len by (intro iterAt_other) auto
          qed
          show "itersOk ?t' (?its[i := Some ?it'])"
          proof (rule itersOk_update [OF its])
            fix j it'
            assume j: "j < length ?its" "j \<noteq> i" "?its ! j = Some it'"
            then have "iterLive ?t it'" using itersOk_live [OF its j(1,3)] by simp
            then show "iterLive ?t' it'" using others [OF j] by (auto simp: iterLive_def destroyRange_def copyRange_def)
          next
            fix it'' assume "Some ?it' = Some it''"
            then show "iterLive ?t' it''" using new(1) by (auto simp: iterLive_def destroyRange_def copyRange_def)
          next
            fix it'' r' j it'
            assume "Some ?it' = Some it''" "RangeSlot it'' = Some r'" "j < length ?its" "j \<noteq> i" "?its ! j = Some it'"
            then show "RangeSlot it' \<noteq> Some r'" using others by auto
          qed
          show "HasNurseryMemory obj" if "nurseryRanges ?t' \<noteq> []" using nm that rn by auto
        qed
        then have "?good (obj\<lparr>getData := ?t', iterators := ?its[i := Some ?it']\<rparr>)"
          by (auto simp: sameFlags_def intro!: exI [of _ "Some ?it'"])
        then show ?thesis
          unfolding step using Some moved r rn i by (auto simp: IteratorObject_objectMoved_def Let_def oom_def intro!: runs_alloc)
      qed
    qed
  qed
qed

end


lemma tenuredIters_update:
  assumes ten: "tenuredIters n obj" and upd: "iterators obj' = (iterators obj)[i := e]" and new: "\<And>it. e = Some it \<Longrightarrow> \<not> iteratorInNursery it"
  shows "tenuredIters n obj'"
proof -
  have "\<not> iteratorInNursery it" if "j < n" "iterators obj' ! j = Some it" for j it
  proof (cases "j = i \<and> i < length (iterators obj)")
    case True
    then show ?thesis using that upd new by auto
  next
    case False
    then have "iterators obj' ! j = iterators obj ! j" using upd by (cases "i < length (iterators obj)") (auto simp: list_update_beyond)
    then show ?thesis using that ten by (auto simp: tenuredIters_def)
  qed
  then show ?thesis by (simp add: tenuredIters_def)
qed

text \<open>The whole of a minor collection, and then of a major one.\<close>

context collection
begin

lemma sweep_ok:
  assumes rep: "represents hp C obj s" and ten: "tenuredIters (length (iterators obj)) obj"
    and keys: "\<And>k. k \<in> fst ` set (present (entries s)) \<Longrightarrow> isObject k \<Longrightarrow> \<not> isNursery hp k"
  defines "obj' \<equiv> if HasNurseryMemory obj then sweepAfterMinorGC obj else obj"
  shows "represents hp C obj' s \<and> nurseryRanges (getData obj') = [] \<and> iterators obj' = iterators obj"
proof (cases "HasNurseryMemory obj")
  case False
  then show ?thesis using rep by (auto simp: obj'_def represents_def)
next
  case True
  let ?t = "getData obj" let ?t' = "destroyNurseryRanges (getData obj)"
  obtain p where sim: "simulates (tableOps C) ?t (elementsOf C (entries s)) p"
    and cur: "cursorsAt p (iterators obj) (cursors s)" using rep by (rule represents_simulates)
  have its: "itersOk ?t (iterators obj)" using rep by (simp add: represents_def)
  have "simulates (tableOps C) (?t\<lparr>ranges := ranges ?t, nurseryRanges := []\<rparr>) (elementsOf C (entries s)) p"
    using sim by (intro simulates_fewer) (auto simp: simulates_def tableOk_def rangesOk_def)
  moreover have "?t\<lparr>ranges := ranges ?t, nurseryRanges := []\<rparr> = ?t'" by (cases "getData obj") (simp add: destroyNurseryRanges_def)
  ultimately have sim': "simulates (tableOps C) ?t' (elementsOf C (entries s)) p" by simp
  have "iterLive ?t' it" if mem: "Some it \<in> set (iterators obj)" for it
  proof -
    obtain i where "i < length (iterators obj)" "iterators obj ! i = Some it" using mem by (auto simp: in_set_conv_nth)
    then have "\<not> iteratorInNursery it" "iterLive ?t it" using ten itersOk_live [OF its] by (auto simp: tenuredIters_def)
    then show ?thesis by (simp add: iterLive_def destroyNurseryRanges_def)
  qed
  then have its': "itersOk ?t' (iterators obj)" using its unfolding itersOk_def by blast
  have obj': "obj' = sweepAfterMinorGC obj" using True by (simp add: obj'_def)
  have "keysRecorded hp obj' (fst ` set (present (entries s)))"
    using keys by (auto simp: obj' keysRecorded_def sweepAfterMinorGC_def)
  then show ?thesis
    using rep sim' its' cur unfolding represents_def obj' by (auto simp: sweepAfterMinorGC_def destroyNurseryRanges_def)
qed

lemma minorGC_ok:
  assumes rep: "represents hp C obj s" and fw: "forwardingOk hp f (seenKeys s)"
  shows "runs (minorGC C f reachable obj) v (oom v) (\<lambda>obj'. represents hp C obj' (specCollect f reachable s) \<and>
    nurseryRanges (getData obj') = [] \<and> tenuredIters (length (iterators obj')) obj')"
proof -
  let ?s' = "specCollect f reachable s"
  obtain obj1 where o1: "(if insideNursery obj
            then bindM (TableObject_trace C f (getData obj)) (\<lambda>t. returnM (obj\<lparr>getData := t\<rparr>))
            else
              bindM (if NurseryKeys obj = None then returnM obj else OrderedHashTableRef_trace C f obj) (\<lambda>obj.
              returnM (obj\<lparr>getData := traceValues C f (getData obj)\<rparr>))) = returnM obj1"
    and rep1: "represents hp C obj1 (forwarded f s)" and its1: "iterators obj1 = iterators obj"
    using traced [OF rep fw] by blast
  have rep1': "represents hp C obj1 ?s'" unfolding specCollect_forwarded using represents_drop_reachable [OF rep1, of reachable]
    by (simp add: forwarded_def)
  have keys: "\<not> isNursery hp k" if "k \<in> fst ` set (present (entries ?s'))" "isObject k" for k
  proof -
    have "k \<in> forwardValue f ` set (seenKeys s)"
      using that(1) rep forwarded_keys [of f s] by (auto simp: specCollect_forwarded represents_def)
    then show ?thesis using fw that(2) by (auto simp: forwardingOk_def)
  qed
  have len: "length (iterators obj1) = length (cursors s)"
    using rep1' by (auto simp: represents_def cursorsAt_def specCollect_def keepReachable_def)
  let ?n = "length (iterators obj1)"
  let ?I = "\<lambda>i obj'. represents hp C obj' ?s' \<and> length (iterators obj') = ?n \<and> tenuredIters i obj'"
  have "runs (forUp 0 ?n (moveIterator reachable) obj1) v (oom v) (?I ?n)"
  proof (rule runs_forUpI [where I = ?I])
    fix j obj'
    assume j: "j < ?n" and I: "?I j obj'"
    have gone: "cursors ?s' ! j = None" if "\<not> reachable j"
      using that j len by (simp add: specCollect_def keepReachable_def)
    show "runs (moveIterator reachable j obj') v (oom v) (?I (Suc j))"
    proof (rule runs_weakenQ [OF moveIterator_ok])
      show "represents hp C obj' ?s'" using I by simp
      fix obj''
      assume a: "represents hp C obj'' ?s' \<and> sameFlags obj' obj'' \<and>
        (\<exists>e. iterators obj'' = (iterators obj')[j := e] \<and> (\<forall>it. e = Some it \<longrightarrow> \<not> iteratorInNursery it))"
      then show "?I (Suc j) obj''" using I j by (auto simp: tenuredIters_def nth_list_update less_Suc_eq)
    qed (use I j gone in auto)
  qed (use rep1' in \<open>auto simp: tenuredIters_def\<close>)
  then have "runs (bindM (forUp 0 ?n (moveIterator reachable) obj1) (\<lambda>obj.
     returnM (if HasNurseryMemory obj then sweepAfterMinorGC obj else obj))) v (oom v)
     (\<lambda>obj'. represents hp C obj' ?s' \<and> nurseryRanges (getData obj') = [] \<and> tenuredIters (length (iterators obj')) obj')"
  proof (intro runs_bindI, elim runs_weakenQ)
    fix obj'
    assume I: "?I ?n obj'"
    have "represents hp C (if HasNurseryMemory obj' then sweepAfterMinorGC obj' else obj') ?s' \<and>
      nurseryRanges (getData (if HasNurseryMemory obj' then sweepAfterMinorGC obj' else obj')) = [] \<and>
      iterators (if HasNurseryMemory obj' then sweepAfterMinorGC obj' else obj') = iterators obj'"
      by (rule sweep_ok) (use I keys in auto)
    then show "runs (returnM (if HasNurseryMemory obj' then sweepAfterMinorGC obj' else obj')) v (oom v)
      (\<lambda>obj'. represents hp C obj' ?s' \<and> nurseryRanges (getData obj') = [] \<and> tenuredIters (length (iterators obj')) obj')"
      using I by (simp add: tenuredIters_def split del: if_split)
  qed
  then show ?thesis unfolding minorGC_def o1 by simp
qed

lemma finalizeUnreachable_ok:
  assumes rep: "represents hp C obj s" and i: "i < length (iterators obj)" and gone: "\<not> reachable i \<Longrightarrow> cursors s ! i = None"
    and nr: "nurseryRanges (getData obj) = []" and ten: "tenuredIters (length (iterators obj)) obj"
  shows "\<exists>obj'. finalizeUnreachable reachable i obj = returnM obj' \<and> represents hp C obj' s \<and> nurseryRanges (getData obj') = [] \<and>
    tenuredIters (length (iterators obj')) obj' \<and> length (iterators obj') = length (iterators obj)"
proof (cases "iterators obj ! i \<noteq> None \<and> \<not> reachable i")
  case False
  then have "finalizeUnreachable reachable i obj = returnM obj" unfolding finalizeUnreachable_def by (rule if_not_P)
  then show ?thesis using rep nr ten by blast
next
  case True
  let ?t = "getData obj" and ?its = "iterators obj"
  obtain p where sim: "simulates (tableOps C) ?t (elementsOf C (entries s)) p"
    and cur: "cursorsAt p ?its (cursors s)" using rep by (rule represents_simulates)
  have its: "itersOk ?t ?its" using rep by (simp add: represents_def)
  have len: "length ?its = length (cursors s)" using cur by (simp add: cursorsAt_def)
  obtain it where it: "?its ! i = Some it" "\<not> iteratorInNursery it" using True ten i by (auto simp: tenuredIters_def)
  have cur': "cursorsAt p (?its[i := None]) ((cursors s)[i := cursors s ! i])"
    by (rule cursorsAt_update [OF cur]) (use i len gone True in auto)
  have ten': "tenuredIters (length ?its) (obj\<lparr>getData := t, iterators := ?its[i := None]\<rparr>)" for t
    by (rule tenuredIters_update [OF ten, where i = i and e = None]) simp_all
  show ?thesis
  proof (cases "RangeSlot it")
    case None
    have "represents hp C (obj\<lparr>iterators := ?its[i := None]\<rparr>) s"
      by (rule represents_moved_same [OF rep sim cur' itersOk_removed [OF its]])
    moreover have "tenuredIters (length ?its) (obj\<lparr>iterators := ?its[i := None]\<rparr>)"
      by (rule tenuredIters_update [OF ten, where i = i and e = None]) simp_all
    ultimately show ?thesis
      using True it i None nr by (intro exI [of _ "obj\<lparr>iterators := ?its[i := None]\<rparr>"])
        (auto simp: finalizeUnreachable_def IteratorObject_finalize_def)
  next
    case (Some r)
    let ?obj' = "obj\<lparr>getData := destroyRange r ?t, iterators := ?its[i := None]\<rparr>"
    have "represents hp C ?obj' s"
    proof (rule represents_moved [OF rep simulates_destroy [OF sim] cur'])
      show "itersOk (destroyRange r ?t) (?its[i := None])"
        using its by (rule itersOk_update) (use destroyRange_lists [OF its i it(1) Some] in auto)
    qed (use nr in \<open>simp add: destroyRange_def\<close>)
    moreover have "finalizeUnreachable reachable i obj = returnM ?obj'"
      using True it i Some nr by (cases obj) (simp add: finalizeUnreachable_def IteratorObject_finalize_def Let_def)
    ultimately show ?thesis using nr ten' by (intro exI [of _ ?obj']) (simp add: destroyRange_def)
  qed
qed

lemma refines_collect:
  assumes rep: "represents hp C obj s" and pos: "possible hp isMap (Collect major f reachable) s"
  shows "refines hp C yields v (Collect major f reachable) obj s"
proof -
  let ?s' = "specCollect f reachable s"
  let ?I = "\<lambda>n obj'. represents hp C obj' ?s' \<and> nurseryRanges (getData obj') = [] \<and> tenuredIters (length (iterators obj')) obj' \<and>
    length (iterators obj') = n"
  have fw: "forwardingOk hp f (seenKeys s)" using pos by simp
  have "runs (collectGarbage C major f reachable obj) v (oom v) (\<lambda>obj'. represents hp C obj' ?s')"
    unfolding collectGarbage_def
  proof (rule runs_bindI, rule runs_weakenQ [OF minorGC_ok [OF rep fw, of reachable]])
    fix obj1
    assume o1: "represents hp C obj1 ?s' \<and> nurseryRanges (getData obj1) = [] \<and> tenuredIters (length (iterators obj1)) obj1"
    let ?n = "length (iterators obj1)"
    have n: "?n = length (cursors s)" using o1 by (auto simp: represents_def cursorsAt_def specCollect_def keepReachable_def)
    have "runs (forUp 0 ?n (finalizeUnreachable reachable) obj1) v (oom v) (\<lambda>obj'. represents hp C obj' ?s')"
    proof (rule runs_forUpI [where I = "\<lambda>i. ?I ?n"])
      fix j obj'
      assume j: "j < ?n" and I: "?I ?n obj'"
      have "cursors ?s' ! j = None" if "\<not> reachable j" using that j n by (simp add: specCollect_def keepReachable_def)
      then show "runs (finalizeUnreachable reachable j obj') v (oom v) (?I ?n)"
        using finalizeUnreachable_ok [of hp obj' ?s' j reachable] I j by auto
    qed (use o1 in auto)
    then show "runs (if major then forUp 0 (length (iterators obj1)) (finalizeUnreachable reachable) obj1 else returnM obj1) v (oom v)
      (\<lambda>obj'. represents hp C obj' ?s')" using o1 by simp
  qed
  moreover have "engineStep (mayFail v) yields (Collect major f reachable) s Done ?s'" by (rule engineStep.works) simp
  ultimately show ?thesis unfolding refines_def by (auto intro!: runs_bindI elim!: runs_weakenQ)
qed

text \<open>Every command.\<close>

theorem refines_command:
  assumes "represents hp C obj s" and "heapOk hp" and "possible hp isMap c s"
  shows "refines hp C yields v c obj s"
  using assms
  by (cases c) (auto intro: refines_put refines_get refines_has refines_delete refines_clear refines_size refines_iterate
    refines_next refines_collect)

end


end
