(* ===== verification/MapSet.thy ===== *)
theory MapSet
  imports MapObject_Collect
begin

text \<open>
  \<open>Map\<close> and \<open>Set\<close>, from the constructor on: the interpretations of the contract \<open>collection\<close> by the two
  classes, and what a program sees.
\<close>

section \<open>The two classes\<close>

lemma length_2E: "length xs = 2 \<Longrightarrow> (\<And>a b. xs = [a, b] \<Longrightarrow> P) \<Longrightarrow> P"
  by (cases xs; cases "tl xs") auto

lemma length_1E: "length xs = Suc 0 \<Longrightarrow> (\<And>a. xs = [a] \<Longrightarrow> P) \<Longrightarrow> P"
  by (cases xs) auto

interpretation map_class: collection "MapCollection hp" mapResult True for hp
proof (rule collection.intro)
  show "hash_policy (tableOps (MapCollection hp))"
    using hashable.map_ops.hash_policy_axioms by (simp add: MapCollection_def)
  show "collection_axioms (MapCollection hp) mapResult True"
  proof (unfold_locales, goal_cases)
    case (7 result kind w x)
    then have "length result = 2" by (simp add: MapCollection_def resultLength_def)
    then show ?case by (rule length_2E) (cases kind, simp_all add: MapCollection_def writeMapResult_def mapResult_def)
  qed (auto simp: MapCollection_def MapOps_def Hasher_def hashableEq_iff)
qed

interpretation set_class: collection "SetCollection hp" setResult False for hp
proof (rule collection.intro)
  show "hash_policy (tableOps (SetCollection hp))"
    using hashable.set_ops.hash_policy_axioms by (simp add: SetCollection_def)
  show "collection_axioms (SetCollection hp) setResult False"
  proof (unfold_locales, goal_cases)
    case (7 result kind w x)
    then have "length result = Suc 0" by (simp add: SetCollection_def resultLength_def)
    then show ?case by (rule length_1E) (simp add: SetCollection_def setResult_def)
  qed (auto simp: SetCollection_def SetOps_def Hasher_def hashableEq_iff)
qed

section \<open>Programs\<close>

text \<open>A program: the constructor, then the commands on the new object.\<close>

definition runProgram :: "heap \<Rightarrow> 't Collection \<Rightarrow> bool \<Rightarrow> command list \<Rightarrow> reply list option eng" where
  "runProgram hp C nursery cs =
     bindM (TableObject_create nursery) (\<lambda>obj.
     case obj of
       None \<Rightarrow> returnM None
     | Some obj \<Rightarrow> bindM (runCommands hp C cs obj) (\<lambda>(rs, obj). returnM (Some rs)))"

lemma runs_create:
  fixes C :: "'t Collection"
  assumes ok: "\<And>obj. represents hp C obj newCollection \<Longrightarrow> Q (Some obj)" and fail: "mayFail v \<Longrightarrow> Q None"
  shows "runs (TableObject_create nursery) v E Q"
proof -
  let ?obj = "\<lparr>getData = fresh newTable, insideNursery = nursery, HasNurseryMemory = nursery, NurseryKeys = None,
    iterators = []\<rparr> :: 't TableObject"
  have "represents hp C ?obj newCollection"
    if "tableOk (tableOps C) (fresh newTable)" "live (tableOps C) (fresh newTable) = []"
  proof -
    have no: "ranges (getData ?obj) = []" "nurseryRanges (getData ?obj) = []" by (simp_all add: fresh_def newTable_def)
    then have "simulates (tableOps C) (fresh newTable) (elementsOf C (entries newCollection)) pos" for pos
      using that by (simp add: simulates_def elementsOf_def newCollection_def)
    then show ?thesis
      using no by (simp add: represents_def newCollection_def itersOk_def cursorsAt_def keysRecorded_def)
  qed
  then have "runs (init newTable) v E (\<lambda>(b, t). b \<and> represents hp C (?obj\<lparr>getData := t\<rparr>) newCollection \<or> \<not> b \<and> mayFail v)"
    by (intro runs_init_new [where ops = "tableOps C"]) auto
  note table = this
  show ?thesis
    unfolding TableObject_create_def
  proof (rule runs_alloc, simp_all only: if_True if_False simp_thms, rule runs_bindI, rule runs_weakenQ [OF table])
    fix bt
    assume "case bt of (b, t) \<Rightarrow> b \<and> represents hp C (?obj\<lparr>getData := t\<rparr>) newCollection \<or> \<not> b \<and> mayFail v"
    then show "runs (case bt of (ok, table) \<Rightarrow>
       if \<not> ok then returnM None
       else
         bindM tryAlloc (\<lambda>ok.
         if \<not> ok then returnM None
         else
           bindM (if nursery then tryAlloc else returnM True) (\<lambda>ok.
           if \<not> ok then returnM None
           else
             returnM (Some \<lparr>getData = table, insideNursery = nursery, HasNurseryMemory = nursery, NurseryKeys = None,
               iterators = []\<rparr>)))) v E Q"
      using ok fail by (cases nursery) (auto intro!: runs_alloc split: prod.splits if_splits)
  qed (use fail in simp)
qed

context collection
begin

lemma runs_commands:
  assumes "represents hp C obj s" and hp: "heapOk hp" and "possibleRun hp (mayFail v) isMap yields cs s"
    and "\<And>rs obj' s'. engineRun (mayFail v) yields cs s rs s' \<Longrightarrow> represents hp C obj' s' \<Longrightarrow> Q (rs, obj')"
  shows "runs (runCommands hp C cs obj) v (oom v) Q"
  using assms(1,3,4)
proof (induction cs arbitrary: obj s Q)
  case Nil
  then show ?case by (auto intro: engineRun.stop)
next
  case (Cons c cs)
  have pc: "possible hp isMap c s" using Cons.prems(2) by simp
  have "runs (runCommand hp C c obj) v (oom v) (\<lambda>(r, obj'). \<exists>s'. engineStep (mayFail v) yields c s r s' \<and> represents hp C obj' s')"
    using refines_command [OF Cons.prems(1) hp pc, of v] by (simp add: refines_def)
  then show ?case
    unfolding runCommands.simps
  proof (intro runs_bindI, elim runs_weakenQ, clarify)
    fix r obj' s'
    assume st: "engineStep (mayFail v) yields c s r s'" and rep: "represents hp C obj' s'"
    have "possibleRun hp (mayFail v) isMap yields cs s'" using Cons.prems(2) st by simp
    then show "runs (bindM (runCommands hp C cs obj') (\<lambda>(rs, obj). returnM (r # rs, obj))) v (oom v) Q"
      by (intro runs_bindI Cons.IH [OF rep]) (auto intro!: Cons.prems(3) engineRun.step [OF st])
  qed
qed

lemma runs_program:
  assumes "heapOk hp" and "possibleRun hp (mayFail v) isMap yields cs newCollection"
    and "\<And>rs s'. engineRun (mayFail v) yields cs newCollection rs s' \<Longrightarrow> Q (Some rs)" and "mayFail v \<Longrightarrow> Q None"
  shows "runs (runProgram hp C nursery cs) v (oom v) Q"
  unfolding runProgram_def
proof (rule runs_bindI, rule runs_create [of hp C])
  fix obj
  assume "represents hp C obj newCollection"
  then show "runs (case Some obj of None \<Rightarrow> returnM None
     | Some obj \<Rightarrow> bindM (runCommands hp C cs obj) (\<lambda>(rs, obj). returnM (Some rs))) v (oom v) Q"
    using assms by (auto intro!: runs_bindI runs_commands)
qed (use assms(4) in simp)

lemma runs_replies:
  assumes "heapOk hp" and "possibleRun hp False isMap yields cs newCollection" and "\<forall>k. allocOk v k"
  shows "runs (runProgram hp C nursery cs) v (\<lambda>e. False) (\<lambda>r. r = Some (fst (specRun yields cs newCollection)))"
proof -
  have v: "mayFail v = False" unfolding mayFail_def using assms(3) by blast
  have E: "oom v = (\<lambda>e. False)" unfolding oom_def using assms(3) by blast
  have "runs (runProgram hp C nursery cs) v (oom v) (\<lambda>r. r = Some (fst (specRun yields cs newCollection)))"
  proof (rule runs_program [OF assms(1)])
    show "possibleRun hp (mayFail v) isMap yields cs newCollection" unfolding v by (rule assms(2))
    fix rs s'
    assume "engineRun (mayFail v) yields cs newCollection rs s'"
    then show "Some rs = Some (fst (specRun yields cs newCollection))" by (simp add: v engineRun_never)
  qed (simp add: v)
  then show ?thesis by (simp only: E)
qed

end

section \<open>Iteration\<close>

lemma specRun_append:
  "specRun yields (cs @ ds) s = (let (rs, s) = specRun yields cs s; (rs', s) = specRun yields ds s in (rs @ rs', s))"
  by (induction cs arbitrary: s) (simp_all add: Let_def split: prod.split)

text \<open>An iterator yields what is left of the entries, in their order, and then says that it is done.\<close>

lemma specRun_iterate:
  assumes "i < length (cursors s)" and "cursors s ! i = Some c" and "position c = Some p"
  shows "fst (specRun yields (replicate (Suc (length (present (drop p (entries s))))) (Next i result)) s) =
    map (\<lambda>e. Result False (yields (cursorKind c) (normalKey (fst e)) (snd e) result)) (present (drop p (entries s))) @ [Result True result]"
  using assms
proof (induction "present (drop p (entries s))" arbitrary: s c p)
  case Nil
  then have "holeNext (entries s) p = None" by (simp add: holeNext_None)
  then show ?case using Nil by (simp add: specNext_def flip: Nil.hyps)
next
  case (Cons e es)
  then obtain j where j: "holeNext (entries s) p = Some j" by (cases "holeNext (entries s) p") (simp_all add: holeNext_None)
  from holeNext_Some(2) [OF j] Cons.hyps(2)
  have e: "entries s ! j = Some e" "present (drop (Suc j) (entries s)) = es" by auto
  let ?s = "s\<lparr>cursors := (cursors s)[i := Some (c\<lparr>position := Some (Suc j)\<rparr>)]\<rparr>"
  have "fst (specRun yields (replicate (Suc (length (present (drop (Suc j) (entries ?s))))) (Next i result)) ?s) =
    map (\<lambda>e. Result False (yields (cursorKind (c\<lparr>position := Some (Suc j)\<rparr>)) (normalKey (fst e)) (snd e) result)) (present (drop (Suc j) (entries ?s))) @ [Result True result]"
    by (rule Cons.hyps(1)) (use e Cons.prems in simp_all)
  then have IH: "fst (specRun yields (replicate (Suc (length es)) (Next i result)) ?s) =
    map (\<lambda>e. Result False (yields (cursorKind c) (normalKey (fst e)) (snd e) result)) es @ [Result True result]"
    by (simp add: e(2) del: replicate.simps)
  have "specNext yields i result s = (Result False (yields (cursorKind c) (normalKey (fst e)) (snd e) result), ?s)"
    using j e(1) Cons.prems by (simp add: specNext_def)
  then show ?case
    using IH unfolding Cons.hyps(2) [symmetric]
    by (simp add: case_prod_unfold del: replicate.simps add: replicate.simps(2) [of "Suc (length es)"])
qed

lemma possibleRun_append:
  assumes "possibleRun hp False isMap yields cs s" and "specRun yields cs s = (rs, s')" and "possibleRun hp False isMap yields ds s'"
  shows "possibleRun hp False isMap yields (cs @ ds) s"
  using assms
proof (induction cs arbitrary: s rs)
  case (Cons c cs)
  obtain r s1 where "specStep yields c s = (r, s1)" by (cases "specStep yields c s") auto
  then show ?case using Cons by (auto simp: engineStep_never split: prod.splits)
qed simp


section \<open>What a program sees\<close>

text \<open>
  C1. The engine's \<open>Map\<close> is ECMAScript's.  A program that creates a map and sets, gets, deletes and clears
  entries, asks for the size, opens iterators and steps them, with garbage collections anywhere in
  between that move the keys, the values, the iterators and the map out of the nursery, gets the replies of
  a list of entries with holes whose iterators are positions; nothing asserts, loops or reads outside an
  array, and no iterator misses, repeats or reorders an entry when the table is rehashed, compacted, cleared
  or rekeyed under it.  Where memory can run out a command may instead report that, changing nothing (a
  deletion may have removed its entry), and a collection may crash for want of memory.
\<close>

theorem map_refines:
  assumes "heapOk hp" and "possibleRun hp (mayFail v) True mapResult cs newCollection"
  shows "runs (runProgram hp (MapCollection hp) nursery cs) v (oom v)
    (\<lambda>r. case r of None \<Rightarrow> mayFail v | Some rs \<Rightarrow> \<exists>s'. engineRun (mayFail v) mapResult cs newCollection rs s')"
  using assms by (rule map_class.runs_program) auto

text \<open>
  C11. The same of \<open>Set\<close>, which shares the table but stores keys alone: any program over a set gets replies that
  ECMAScript's set gives, whatever the collector does, up to reports that memory ran out.
\<close>

theorem set_refines:
  assumes "heapOk hp" and "possibleRun hp (mayFail v) False setResult cs newCollection"
  shows "runs (runProgram hp (SetCollection hp) nursery cs) v (oom v)
    (\<lambda>r. case r of None \<Rightarrow> mayFail v | Some rs \<Rightarrow> \<exists>s'. engineRun (mayFail v) setResult cs newCollection rs s')"
  using assms by (rule set_class.runs_program) auto

text \<open>
  Where allocations succeed a program over a map gets exactly the replies of ECMAScript, and the
  engine cannot fail: the replies do not depend on where objects live or on how their hashes come out.
\<close>

theorem map_replies:
  assumes "heapOk hp" and "possibleRun hp False True mapResult cs newCollection" and "\<forall>k. allocOk v k"
  shows "runs (runProgram hp (MapCollection hp) nursery cs) v (\<lambda>e. False) (\<lambda>r. r = Some (fst (specRun mapResult cs newCollection)))"
proof -
  show ?thesis using assms by (intro map_class.runs_replies)
qed

text \<open>
  C12. Iteration is live: after any history an iterator that has not finished yields every entry that is left, in
  insertion order and with the key as it was normalised, each once, and then says that it is done;
  no allocation is needed, and it has as many steps as there are entries left.
\<close>

theorem map_iteration_complete:
  assumes "heapOk hp" and "possibleRun hp False True mapResult cs newCollection" and "\<forall>k. allocOk v k"
    and "specRun mapResult cs newCollection = (rs, s)" and "i < length (cursors s)" and "cursors s ! i = Some c"
    and "position c = Some p" and "length result = 2"
  shows "runs (runProgram hp (MapCollection hp) nursery (cs @ replicate (Suc (length (present (drop p (entries s))))) (Next i result)))
    v (\<lambda>e. False) (\<lambda>r. r = Some (rs @
      map (\<lambda>(k, x). Result False (mapResult (cursorKind c) (normalKey k) x result)) (present (drop p (entries s))) @ [Result True result]))"
proof -
  let ?nexts = "replicate (Suc (length (present (drop p (entries s))))) (Next i result)"
  have "possibleRun hp False True mapResult (replicate n (Next i result)) s'"
    if "i < length (cursors s')" "cursors s' ! i \<noteq> None" for n s'
    using that
  proof (induction n arbitrary: s')
    case (Suc n)
    have "i < length (cursors (snd (specNext mapResult i result s'))) \<and> cursors (snd (specNext mapResult i result s')) ! i \<noteq> None"
      using Suc.prems by (auto simp: specNext_def split: option.split)
    then have "possibleRun hp False True mapResult (replicate n (Next i result)) (snd (specNext mapResult i result s'))"
      using Suc.IH by blast
    then show ?case using Suc.prems assms(8) by (auto simp: engineStep_never)
  qed simp
  then have "possibleRun hp False True mapResult ?nexts s" using assms(5,6) by blast
  then have "possibleRun hp False True mapResult (cs @ ?nexts) newCollection"
    using possibleRun_append assms(2,4) by blast
  then have "runs (runProgram hp (MapCollection hp) nursery (cs @ ?nexts)) v (\<lambda>e. False)
      (\<lambda>r. r = Some (fst (specRun mapResult (cs @ ?nexts) newCollection)))"
    using assms(1,3) by (intro map_class.runs_replies)
  moreover have "fst (specRun mapResult (cs @ ?nexts) newCollection) =
      rs @ map (\<lambda>(k, x). Result False (mapResult (cursorKind c) (normalKey k) x result)) (present (drop p (entries s))) @ [Result True result]"
    using specRun_iterate [OF assms(5-7), of mapResult result] assms(4)
    by (simp add: specRun_append case_prod_unfold del: replicate.simps)
  ultimately show ?thesis by simp
qed


section \<open>A small program\<close>

text \<open>
  An object that is a key while it is in the nursery and moves from cell 7 to cell 8 under an iterator.
\<close>

definition smallHeap :: heap where
  "smallHeap = \<lparr>objectAddress = word_of_nat, symbolHash = (\<lambda>s. 0), scramblerOf = \<lparr>mK0 = 1, mK1 = 2\<rparr>,
     isNursery = (\<lambda>v. v = ObjectValue 7)\<rparr>"

definition smallProgram :: "jsvalue list \<Rightarrow> command list" where
  "smallProgram out =
     [Put [ObjectValue 7, NullValue], Iterate Keys True, Put [BooleanValue True, NullValue], Next 0 out,
      Collect False (\<lambda>i. if i = 7 then 8 else i) (\<lambda>i. True), Has (ObjectValue 8), Delete [BooleanValue True],
      Put [Int32Value 5], Next 0 out, Next 0 out]"

lemma mayFail_plenty [simp]: "mayFail plenty = False" "allocOk plenty k"
  unfolding mayFail_def by (simp_all add: plenty_def)

lemma heapOk_small: "heapOk smallHeap"
  by (simp add: heapOk_def smallHeap_def)

lemmas small_simps = smallProgram_def smallHeap_def engineStep_never newCollection_def specPut_def specDelete_def specHas_def
  sameKey_def SameValueZero_def argAt_def specNext_def holeNext.simps forwardingOk_def specCollect_def keepReachable_def
  forwardEntry_def forwardValue_def Let_def

lemma small_possible: "possibleRun smallHeap False True mapResult (smallProgram [UndefinedValue, UndefinedValue]) newCollection"
    "possibleRun smallHeap False False setResult (smallProgram [UndefinedValue]) newCollection"
  by (simp_all add: small_simps)

lemma map_refines_witness:
  "runs (runProgram smallHeap (MapCollection smallHeap) True (smallProgram [UndefinedValue, UndefinedValue])) plenty (oom plenty)
    (\<lambda>r. case r of None \<Rightarrow> mayFail plenty | Some rs \<Rightarrow> \<exists>s'. engineRun (mayFail plenty) mapResult (smallProgram [UndefinedValue, UndefinedValue]) newCollection rs s')"
  by (rule map_refines [OF heapOk_small]) (unfold mayFail_plenty, rule small_possible)

lemma set_refines_witness:
  "runs (runProgram smallHeap (SetCollection smallHeap) True (smallProgram [UndefinedValue])) plenty (oom plenty)
    (\<lambda>r. case r of None \<Rightarrow> mayFail plenty | Some rs \<Rightarrow> \<exists>s'. engineRun (mayFail plenty) setResult (smallProgram [UndefinedValue]) newCollection rs s')"
  by (rule set_refines [OF heapOk_small]) (unfold mayFail_plenty, rule small_possible)

lemma map_replies_witness:
  "runs (runProgram smallHeap (MapCollection smallHeap) True (smallProgram [UndefinedValue, UndefinedValue])) plenty (\<lambda>e. False)
    (\<lambda>r. r = Some [Done, NewIterator 0, Done, Result False [ObjectValue 7, UndefinedValue], Done, Found True, Found True, Done,
      Result False [Int32Value 5, UndefinedValue], Result True [UndefinedValue, UndefinedValue]])"
proof -
  have "fst (specRun mapResult (smallProgram [UndefinedValue, UndefinedValue]) newCollection) = [Done, NewIterator 0, Done, Result False [ObjectValue 7, UndefinedValue],
      Done, Found True, Found True, Done, Result False [Int32Value 5, UndefinedValue], Result True [UndefinedValue, UndefinedValue]]"
    by (simp add: small_simps normalKey_def keyOf_def mapResult_def)
  then show ?thesis using map_replies [OF heapOk_small small_possible(1), of plenty True] by simp
qed

lemma map_iteration_complete_witness:
  "runs (runProgram smallHeap (MapCollection smallHeap) False ([Put [Int32Value 1, NullValue], Put [Int32Value 2], Iterate Entries True] @
      replicate 3 (Next 0 [UndefinedValue, UndefinedValue]))) plenty (\<lambda>e. False)
    (\<lambda>r. r = Some ([Done, Done, NewIterator 0] @
      [Result False [Int32Value 1, NullValue], Result False [Int32Value 2, UndefinedValue]] @ [Result True [UndefinedValue, UndefinedValue]]))"
proof -
  let ?cs = "[Put [Int32Value 1, NullValue], Put [Int32Value 2], Iterate Entries True]"
  let ?s = "\<lparr>entries = [Some (Int32Value 1, NullValue), Some (Int32Value 2, UndefinedValue)],
      cursors = [Some \<lparr>position = Some 0, cursorKind = Entries\<rparr>], seenKeys = [Int32Value 2, Int32Value 1]\<rparr>"
  have one: "\<not> SameValueZero (Int32Value 1) (Int32Value 2)"
    using doubleFromInt32_value [of 1] doubleFromInt32_value [of 2] by (auto simp: SameValueZero_def sameNumber_def IsInfinite_iff IsFinite_not_NaN)
  have can: "possibleRun smallHeap False True mapResult ?cs newCollection"
    by (simp add: engineStep_never newCollection_def specPut_def sameKey_def argAt_def one)
  have run: "specRun mapResult ?cs newCollection = ([Done, Done, NewIterator 0], ?s)"
    by (simp add: newCollection_def specPut_def sameKey_def argAt_def one)
  show ?thesis
    using map_iteration_complete [OF heapOk_small can allI [OF mayFail_plenty(2)] run, of 0
        "\<lparr>position = Some 0, cursorKind = Entries\<rparr>" 0 "[UndefinedValue, UndefinedValue]" False]
    by (simp add: mapResult_def normalKey_def keyOf_def numeral_3_eq_3)
qed


section \<open>The table under a map\<close>

abbreviation mapOps :: "heap \<Rightarrow> ((hashable, jsvalue) Entry, hashable) Ops" where
  "mapOps hp \<equiv> MapOps UndefinedValue (Hasher hp)"

text \<open>
  C38. \<open>put\<close> keeps the invariant of the table (chains that descend, are disjoint and hold each live entry
  in its bucket; sizes tied to the shift; distinct live keys; ranges in front of a live entry with the
  count of those before it), replaces the value of an equal key in place or appends the entry, and leaves every
  range in front of the same entry, also when it grows or compacts the table.  When an allocation fails it returns
  false and changes nothing.
\<close>

theorem table_put:
  assumes "tableOk (mapOps hp) t" and "entryKey x \<noteq> EmptyKey" and "length (live (mapOps hp) t) < 2 ^ 30"
  shows "runs (put (mapOps hp) t x) v (\<lambda>e. False)
    (\<lambda>(ok, t'). if ok then tableOk (mapOps hp) t' \<and> live (mapOps hp) t' = putList (mapOps hp) x (live (mapOps hp) t) \<and>
        rangesMap (mapOps hp) (overwrite (mapOps hp) x) t t'
      else mayFail v \<and> t' = t)"
  by (rule hashable.map_ops.runs_put) (use assms in \<open>simp_all add: full_def MapOps_def Hasher_def\<close>)

lemma table_put_witness:
  "runs (put (mapOps smallHeap) (fresh newTable) \<lparr>entryKey = Hashable NullValue, entryValue = NullValue\<rparr>) plenty (\<lambda>e. False)
    (\<lambda>(ok, t'). ok \<and> tableOk (mapOps smallHeap) t')"
proof -
  have "live (mapOps smallHeap) (fresh newTable) = []" by (simp add: live_def elements_def fresh_def)
  then show ?thesis
    using table_put [of smallHeap "fresh newTable" "\<lparr>entryKey = Hashable NullValue, entryValue = NullValue\<rparr>" plenty]
      tableOk_fresh [of newTable "mapOps smallHeap"]
    by (auto simp: newTable_def elim!: runs_weakenQ split: if_splits)
qed

text \<open>
  C39. \<open>remove\<close> keeps the invariant, removes the entry of that key and no other, says whether there was one,
  and moves each range past it; it returns false only when shrinking the table runs out of memory, and then
  the entry is gone all the same.
\<close>

theorem table_remove:
  assumes "tableOk (mapOps hp) t" and "l \<noteq> EmptyKey"
  shows "runs (remove (mapOps hp) t l) v (\<lambda>e. False)
    (\<lambda>(ok, found, t'). tableOk (mapOps hp) t' \<and> live (mapOps hp) t' = removeList (mapOps hp) l (live (mapOps hp) t) \<and>
      rangesMap (mapOps hp) (removeList (mapOps hp) l) t t' \<and>
      (found \<longleftrightarrow> (\<exists>x \<in> set (live (mapOps hp) t). entryKey x = l)) \<and> (ok \<or> mayFail v))"
  by (rule hashable.map_ops.runs_remove) (use assms in \<open>auto simp: MapOps_def Hasher_def hashableEq_iff\<close>)

lemma table_remove_witness:
  "runs (remove (mapOps smallHeap) (fresh newTable) (Hashable NullValue)) plenty (\<lambda>e. False) (\<lambda>(ok, found, t'). ok \<and> \<not> found)"
proof -
  have "live (mapOps smallHeap) (fresh newTable) = []" by (simp add: live_def elements_def fresh_def)
  then show ?thesis
    using table_remove [of smallHeap "fresh newTable" "Hashable NullValue" plenty] tableOk_fresh [of newTable "mapOps smallHeap"]
    by (auto simp: newTable_def elim!: runs_weakenQ)
qed

text \<open>
  C40. When a key moves, \<open>rekeyOneEntry\<close> unlinks its entry from the chain of the old hash and links it into that of
  the new one, at the place that keeps chains descending, whether or not the two are the same chain: the invariant holds,
  the entry and its place in the order stay, and the ranges still stand in front of the same entries.
\<close>

theorem table_rekey:
  assumes "tableOk (mapOps hp) t" and "l \<noteq> EmptyKey" and "k \<noteq> EmptyKey" and "l \<noteq> k"
    and "\<forall>y \<in> set (live (mapOps hp) t). entryKey y \<noteq> k"
  shows "\<exists>t'. rekeyOneEntry (mapOps hp) t l k \<lparr>entryKey = k, entryValue = x\<rparr> = returnM t' \<and> tableOk (mapOps hp) t' \<and>
    live (mapOps hp) t' = map (\<lambda>y. if entryKey y = l then \<lparr>entryKey = k, entryValue = x\<rparr> else y) (live (mapOps hp) t) \<and>
    rangesMap (mapOps hp) (map (\<lambda>y. if entryKey y = l then \<lparr>entryKey = k, entryValue = x\<rparr> else y)) t t'"
proof -
  have ops: "isEmpty (mapOps hp) = (\<lambda>k. k = EmptyKey)" "match (mapOps hp) = (\<lambda>k l. k = l)" "getKey (mapOps hp) = entryKey"
    by (simp_all add: MapOps_def Hasher_def hashableEq_iff fun_eq_iff)
  have "rekeyList (mapOps hp) l y = map (\<lambda>z. if entryKey z = l then y else z)" for y
    by (simp add: rekeyList_def ops fun_eq_iff)
  then show ?thesis
    using hashable.map_ops.rekeyOneEntry_ok [of UndefinedValue hp t l "\<lparr>entryKey = k, entryValue = x\<rparr>" k] assms
    by (simp add: full_def ops)
qed

lemma table_rekey_witness:
  "\<exists>t'. rekeyOneEntry (mapOps smallHeap) (fresh newTable) (Hashable (ObjectValue 7)) (Hashable (ObjectValue 8))
    \<lparr>entryKey = Hashable (ObjectValue 8), entryValue = NullValue\<rparr> = returnM t' \<and> tableOk (mapOps smallHeap) t'"
proof -
  have "live (mapOps smallHeap) (fresh newTable) = []" by (simp add: live_def elements_def fresh_def)
  then show ?thesis
    using table_rekey [of smallHeap "fresh newTable" "Hashable (ObjectValue 7)" "Hashable (ObjectValue 8)" NullValue]
      tableOk_fresh [of newTable "mapOps smallHeap"]
    by (auto simp: newTable_def)
qed


end
