(* ===== verification/MoveResolver.thy ===== *)
theory MoveResolver
  imports Prelude
begin

text \<open>
  The parallel-move resolver of the JIT (\<open>js/src/jit/MoveResolver.h\<close>, \<open>js/src/jit/MoveResolver.cpp\<close>) on a 64-bit
  x86, which has no register pairs: moves that are to happen at once are ordered so that they can be
  executed one after the other, with one saved value per cycle.  Last, what such a sequence means; the
  emitter itself is in \<open>MoveEmitter\<close>.
\<close>

section \<open>Operands and moves\<close>

datatype Kind = REG | FLOAT_REG | MEMORY | EFFECTIVE_ADDRESS

record MoveOperand =
  kind :: Kind
  code :: nat
  disp :: int

definition regOperand :: "nat \<Rightarrow> MoveOperand" where
  "regOperand reg = \<lparr>kind = REG, code = reg, disp = 0\<rparr>"

definition floatOperand :: "nat \<Rightarrow> MoveOperand" where
  "floatOperand reg = \<lparr>kind = FLOAT_REG, code = reg, disp = 0\<rparr>"

definition isGeneralReg :: "MoveOperand \<Rightarrow> bool" where
  "isGeneralReg a \<longleftrightarrow> kind a = REG"

definition isFloatReg :: "MoveOperand \<Rightarrow> bool" where
  "isFloatReg a \<longleftrightarrow> kind a = FLOAT_REG"

definition isMemory :: "MoveOperand \<Rightarrow> bool" where
  "isMemory a \<longleftrightarrow> kind a = MEMORY"

definition isMemoryOrEffectiveAddress :: "MoveOperand \<Rightarrow> bool" where
  "isMemoryOrEffectiveAddress a \<longleftrightarrow> kind a = MEMORY \<or> kind a = EFFECTIVE_ADDRESS"

definition addressOperand :: "nat \<Rightarrow> int \<Rightarrow> Kind \<Rightarrow> MoveOperand eng" where
  "addressOperand reg d k =
     mozAssert (k = MEMORY \<or> k = EFFECTIVE_ADDRESS)
     (returnM \<lparr>kind = (if d = 0 \<and> k = EFFECTIVE_ADDRESS then REG else k), code = reg, disp = d\<rparr>)"

text \<open>\<open>FloatRegister::encoding\<close>: the low four bits of a code are the register, the others its type.\<close>

definition RegSize :: nat where
  "RegSize = 4"

definition encoding :: "nat \<Rightarrow> nat" where
  "encoding c = c mod 2 ^ RegSize"

definition aliases :: "MoveOperand \<Rightarrow> MoveOperand \<Rightarrow> bool eng" where
  "aliases a b =
     mozAssert (isMemoryOrEffectiveAddress a \<and> isGeneralReg b \<longrightarrow> code a \<noteq> code b) (
     mozAssert (isMemoryOrEffectiveAddress b \<and> isGeneralReg a \<longrightarrow> code b \<noteq> code a) (
     if kind a \<noteq> kind b then returnM False
     else if kind a = FLOAT_REG then returnM (encoding (code a) = encoding (code b))
     else if code a \<noteq> code b then returnM False
     else if isMemoryOrEffectiveAddress a then returnM (disp a = disp b)
     else returnM True))"

definition operandEq :: "MoveOperand \<Rightarrow> MoveOperand \<Rightarrow> bool" where
  "operandEq a b =
     (if kind a \<noteq> kind b then False
      else if code a \<noteq> code b then False
      else if isMemoryOrEffectiveAddress a then disp a = disp b
      else True)"

datatype MoveType = GENERAL | INT32 | FLOAT32 | DOUBLE | SIMD128

text \<open>The slots are \<open>-1\<close> when they are not set, which the model writes \<open>None\<close>.\<close>

record MoveOp =
  moveFrom :: MoveOperand
  moveTo :: MoveOperand
  isCycleBegin :: bool
  isCycleEnd :: bool
  cycleBeginSlot :: "nat option"
  cycleEndSlot :: "nat option"
  moveType :: MoveType
  endCycleType :: MoveType

definition newMove :: "MoveOperand \<Rightarrow> MoveOperand \<Rightarrow> MoveType \<Rightarrow> MoveOp" where
  "newMove src dst ty = \<lparr>moveFrom = src, moveTo = dst, isCycleBegin = False, isCycleEnd = False,
     cycleBeginSlot = None, cycleEndSlot = None, moveType = ty, endCycleType = GENERAL\<rparr>"

definition setCycleBegin :: "MoveType \<Rightarrow> nat \<Rightarrow> MoveOp \<Rightarrow> MoveOp eng" where
  "setCycleBegin ty slot m =
     mozAssert (\<not> isCycleBegin m) (returnM (m\<lparr>isCycleBegin := True, cycleBeginSlot := Some slot, endCycleType := ty\<rparr>))"

definition setCycleEnd :: "nat \<Rightarrow> MoveOp \<Rightarrow> MoveOp eng" where
  "setCycleEnd slot m =
     mozAssert (\<not> isCycleEnd m) (returnM (m\<lparr>isCycleEnd := True, cycleEndSlot := Some slot\<rparr>))"

definition moveAliasesOperand :: "MoveOp \<Rightarrow> MoveOperand \<Rightarrow> bool eng" where
  "moveAliasesOperand m a = bindM (aliases (moveFrom m) a) (\<lambda>b. if b then returnM True else aliases (moveTo m) a)"

definition moveAliases :: "MoveOp \<Rightarrow> MoveOp \<Rightarrow> bool eng" where
  "moveAliases m other =
     bindM (moveAliasesOperand m (moveFrom other)) (\<lambda>b. if b then returnM True else moveAliasesOperand m (moveTo other))"

section \<open>The resolver\<close>

text \<open>
  \<open>pending\<close> is the inline list of moves in the order in which they were added; a move of it is named by
  its position, since it is unlinked as soon as it is used.
\<close>

record Resolver =
  orderedMoves :: "MoveOp list"
  numCycles :: nat
  curCycles :: nat
  pending :: "MoveOp list"

definition newResolver :: Resolver where
  "newResolver = \<lparr>orderedMoves = [], numCycles = 0, curCycles = 0, pending = []\<rparr>"

definition resetState :: "Resolver \<Rightarrow> Resolver" where
  "resetState r = r\<lparr>numCycles := 0, curCycles := 0\<rparr>"

definition addMove :: "MoveOperand \<Rightarrow> MoveOperand \<Rightarrow> MoveType \<Rightarrow> Resolver \<Rightarrow> (bool \<times> Resolver) eng" where
  "addMove src dst ty r =
     mozAssert (\<not> operandEq src dst) (
     bindM tryAlloc (\<lambda>ok.
     if ok then returnM (True, r\<lparr>pending := pending r @ [newMove src dst ty]\<rparr>) else returnM (False, r)))"

text \<open>
  The first move of the list, from a position on, whose source is the destination of \<open>m\<close>.  The
  search for a cycle goes on after the move that it found.
\<close>

function findCycledMove :: "MoveOp list \<Rightarrow> nat \<Rightarrow> MoveOp \<Rightarrow> nat option eng" where
  "findCycledMove ms i m =
     (if i < length ms
      then bindM (aliases (moveFrom (ms ! i)) (moveTo m)) (\<lambda>b.
        if b then returnM (Some i) else findCycledMove ms (Suc i) m)
      else returnM None)"
  by pat_completeness auto
termination
  by (relation "measure (\<lambda>(ms, i, m). length ms - i)") auto

declare findCycledMove.simps [simp del]

definition findBlockingMove :: "MoveOp list \<Rightarrow> MoveOp \<Rightarrow> nat option eng" where
  "findBlockingMove ms m = findCycledMove ms 0 m"

text \<open>
  The loop around \<open>findCycledMove\<close> that annotates the moves of the stack, from the iterator on, that end a
  cycle.
\<close>

function markCycleEnds :: "nat \<Rightarrow> MoveOp \<Rightarrow> nat \<Rightarrow> MoveOp list \<Rightarrow> MoveOp list eng" where
  "markCycleEnds cur blocking i stack =
     (if i < length stack
      then
        bindM (aliases (moveFrom (stack ! i)) (moveTo blocking)) (\<lambda>b.
        if b
        then bindM (setCycleEnd cur (stack ! i)) (\<lambda>m. markCycleEnds cur blocking (Suc i) (stack[i := m]))
        else markCycleEnds cur blocking (Suc i) stack)
      else returnM stack)"
  by pat_completeness auto
termination
  by (relation "measure (\<lambda>(cur, blocking, i, stack). length stack - i)") auto

declare markCycleEnds.simps [simp del]

definition insertAt :: "nat \<Rightarrow> 'a \<Rightarrow> 'a list \<Rightarrow> 'a list" where
  "insertAt i x xs = take i xs @ x # drop i xs"

text \<open>
  The search of \<open>addOrderedMove\<close> for an earlier move with the same source, down from \<open>i - 1\<close>.  It returns the
  vector as it is when the insertion is tried, and as the insertion leaves it.
\<close>

primrec addAfterSameSource :: "MoveOp \<Rightarrow> nat \<Rightarrow> MoveOp list \<Rightarrow> (MoveOp list \<times> MoveOp list) option eng" where
  "addAfterSameSource move 0 ms = returnM None"
| "addAfterSameSource move (Suc i) ms =
     (let existing = ms ! i;
          next = bindM (moveAliases existing move) (\<lambda>b.
            if b then returnM None else addAfterSameSource move i ms) in
      if operandEq (moveFrom existing) (moveFrom move)
      then
        bindM (aliases (moveTo existing) (moveTo move)) (\<lambda>b.
        if \<not> b \<and> moveType existing = moveType move \<and> \<not> isCycleBegin existing \<and> \<not> isCycleEnd existing
        then
          if isGeneralReg (moveTo existing) \<or> isFloatReg (moveTo existing)
          then returnM (Some (ms, insertAt (i + 1) (newMove (moveTo existing) (moveTo move) (moveType move)) ms))
          else if isGeneralReg (moveTo move) \<or> isFloatReg (moveTo move)
          then returnM (Some (ms[i := move], insertAt (i + 1) (newMove (moveTo move) (moveTo existing) (moveType move)) (ms[i := move])))
          else next
        else next)
      else next)"

definition addOrderedMove :: "MoveOp \<Rightarrow> MoveOp list \<Rightarrow> (bool \<times> MoveOp list) eng" where
  "addOrderedMove move ms =
     bindM (aliases (moveFrom move) (moveTo move)) (\<lambda>b. mozAssert (\<not> b) (
     bindM (if \<not> isMemory (moveFrom move) \<or> isCycleBegin move \<or> isCycleEnd move
            then returnM None else addAfterSameSource move (length ms) ms) (\<lambda>placed.
     bindM tryAlloc (\<lambda>ok.
     returnM (case placed of
         Some (before, after) \<Rightarrow> (ok, if ok then after else before)
       | None \<Rightarrow> (ok, if ok then ms @ [move] else ms))))))"

text \<open>One turn of the inner loop, on the pending moves, the stack and the result.\<close>

record Search =
  searchPending :: "MoveOp list"
  searchStack :: "MoveOp list"
  searchOrdered :: "MoveOp list"
  searchCycles :: nat
  searchFailed :: bool

definition removeAt :: "nat \<Rightarrow> 'a list \<Rightarrow> 'a list" where
  "removeAt i xs = take i xs @ drop (Suc i) xs"

definition searchStep :: "MoveType \<Rightarrow> Search \<Rightarrow> Search eng" where
  "searchStep rootType s =
     bindM (findBlockingMove (searchPending s) (last (searchStack s))) (\<lambda>b.
     case b of
       Some b \<Rightarrow>
         let blocking = searchPending s ! b in
         bindM (findCycledMove (searchStack s) 0 blocking) (\<lambda>cycled.
         case cycled of
           Some i \<Rightarrow>
             bindM (markCycleEnds (searchCycles s) blocking i (searchStack s)) (\<lambda>stack.
             bindM (setCycleBegin rootType (searchCycles s) blocking) (\<lambda>blocking.
             returnM (s\<lparr>searchPending := removeAt b (searchPending s), searchStack := stack @ [blocking],
               searchCycles := searchCycles s + 1\<rparr>)))
         | None \<Rightarrow>
             returnM (s\<lparr>searchPending := removeAt b (searchPending s), searchStack := searchStack s @ [blocking]\<rparr>))
     | None \<Rightarrow>
         bindM (addOrderedMove (last (searchStack s)) (searchOrdered s)) (\<lambda>(ok, ms).
         returnM (s\<lparr>searchStack := butlast (searchStack s), searchOrdered := ms, searchFailed := \<not> ok\<rparr>)))"

definition resolveStep :: "Resolver \<times> bool \<Rightarrow> (Resolver \<times> bool) eng" where
  "resolveStep = (\<lambda>(r, failed).
     let pm = last (pending r) in
     bindM (whileE (\<lambda>s. \<not> searchFailed s \<and> searchStack s \<noteq> []) (searchStep (moveType pm))
       \<lparr>searchPending = butlast (pending r), searchStack = [pm], searchOrdered = orderedMoves r,
         searchCycles = curCycles r, searchFailed = False\<rparr>) (\<lambda>s.
     if searchFailed s
     then returnM (r\<lparr>pending := searchPending s, orderedMoves := searchOrdered s, curCycles := searchCycles s\<rparr>, True)
     else returnM (r\<lparr>pending := searchPending s, orderedMoves := searchOrdered s,
       numCycles := (if numCycles r < searchCycles s then searchCycles s else numCycles r), curCycles := 0\<rparr>, False)))"

definition resolve :: "Resolver \<Rightarrow> (bool \<times> Resolver) eng" where
  "resolve r =
     bindM (whileE (\<lambda>(r, failed). \<not> failed \<and> pending r \<noteq> []) resolveStep ((resetState r)\<lparr>orderedMoves := []\<rparr>, False)) (\<lambda>(r, failed).
     returnM (\<not> failed, r\<lparr>pending := []\<rparr>))"

section \<open>Memory to memory moves\<close>

definition reorderMove :: "nat \<Rightarrow> nat \<Rightarrow> MoveOp list \<Rightarrow> MoveOp list eng" where
  "reorderMove i j ms =
     mozAssert (i \<noteq> j) (
     let shifted =
       if i < j then fold (\<lambda>k ms. ms[k := ms ! (k + 1)]) [i..<j] ms
       else fold (\<lambda>k ms. ms[k := ms ! (k - 1)]) (rev [Suc j..<Suc i]) ms in
     returnM (shifted[j := ms ! i]))"

text \<open>The two searches: for an earlier, then for a later, move that clobbers a register.\<close>

primrec findEarlierClobber :: "MoveOp list \<Rightarrow> MoveOp \<Rightarrow> nat \<Rightarrow> nat option eng" where
  "findEarlierClobber ms base 0 = returnM None"
| "findEarlierClobber ms base (Suc j) =
     bindM (moveAliases (ms ! j) base) (\<lambda>b.
     if b \<or> isCycleBegin (ms ! j) \<or> isCycleEnd (ms ! j) then returnM None
     else if isGeneralReg (moveTo (ms ! j)) then returnM (Some j)
     else findEarlierClobber ms base j)"

function findLaterClobber :: "MoveOp list \<Rightarrow> MoveOp \<Rightarrow> bool \<Rightarrow> nat \<Rightarrow> nat option eng" where
  "findLaterClobber ms base skippedRegisterUse j =
     (if j < length ms
      then
        bindM (moveAliases (ms ! j) base) (\<lambda>b.
        if b \<or> isCycleBegin (ms ! j) \<or> isCycleEnd (ms ! j) then returnM None
        else if isGeneralReg (moveTo (ms ! j)) then returnM (if skippedRegisterUse then Some j else None)
        else findLaterClobber ms base (skippedRegisterUse \<or> isGeneralReg (moveFrom (ms ! j))) (Suc j))
      else returnM None)"
  by pat_completeness auto
termination
  by (relation "measure (\<lambda>(ms, base, u, j). length ms - j)") auto

declare findLaterClobber.simps [simp del]

definition sortStep :: "nat \<times> MoveOp list \<Rightarrow> (nat \<times> MoveOp list) eng" where
  "sortStep = (\<lambda>(i, ms).
     let base = ms ! i in
     if \<not> isMemory (moveFrom base) \<or> \<not> isMemory (moveTo base) then returnM (Suc i, ms)
     else if moveType base \<noteq> GENERAL \<and> moveType base \<noteq> INT32 then returnM (Suc i, ms)
     else
       bindM (findEarlierClobber ms base i) (\<lambda>j.
       case j of
         Some j \<Rightarrow> bindM (reorderMove i j ms) (\<lambda>ms. returnM (Suc i, ms))
       | None \<Rightarrow>
           if i + 1 < length ms
           then
             bindM (findLaterClobber ms base False (i + 1)) (\<lambda>j.
             case j of
               Some j \<Rightarrow> bindM (reorderMove i j ms) (\<lambda>ms. returnM (i, ms))
             | None \<Rightarrow> returnM (Suc i, ms))
           else returnM (Suc i, ms)))"

definition sortMemoryToMemoryMoves :: "Resolver \<Rightarrow> Resolver eng" where
  "sortMemoryToMemoryMoves r =
     bindM (whileE (\<lambda>(i, ms). i < length ms) sortStep (0, orderedMoves r)) (\<lambda>(i, ms).
     returnM (r\<lparr>orderedMoves := ms\<rparr>))"

section \<open>Executing the moves\<close>

text \<open>
  Where an operand's value lives; two operands alias when they name one place.  A store gives each
  place its value, and \<open>conv ty\<close> is what a move of that type transfers of a value.  The
  emitter holds one saved value while it is in a cycle: it saves the destination of the move that begins the
  cycle, and the move that ends it reads that value in place of its source.
\<close>

definition placeOf :: "MoveOperand \<Rightarrow> Kind \<times> nat \<times> int" where
  "placeOf a =
     (kind a, if kind a = FLOAT_REG then encoding (code a) else code a, if isMemoryOrEffectiveAddress a then disp a else 0)"

type_synonym 'v places = "Kind \<times> nat \<times> int \<Rightarrow> 'v"

definition emitMove :: "(MoveType \<Rightarrow> 'v \<Rightarrow> 'v) \<Rightarrow> MoveOp \<Rightarrow> 'v places \<times> 'v option \<Rightarrow> ('v places \<times> 'v option) eng" where
  "emitMove conv m = (\<lambda>(store, saved).
     if isCycleEnd m
     then
       (case saved of
          None \<Rightarrow> throwM AssertFail
        | Some x \<Rightarrow> returnM (store(placeOf (moveTo m) := conv (moveType m) x), None))
     else
       bindM (if isCycleBegin m
              then mozAssert (saved = None) (returnM (Some (conv (endCycleType m) (store (placeOf (moveTo m))))))
              else returnM saved) (\<lambda>saved.
       returnM (store(placeOf (moveTo m) := conv (moveType m) (store (placeOf (moveFrom m)))), saved)))"

primrec emit :: "(MoveType \<Rightarrow> 'v \<Rightarrow> 'v) \<Rightarrow> MoveOp list \<Rightarrow> 'v places \<times> 'v option \<Rightarrow> ('v places \<times> 'v option) eng" where
  "emit conv [] st = returnM st"
| "emit conv (m # ms) st = bindM (emitMove conv m st) (emit conv ms)"

end
