(* ===== verification/MoveResolver_Correct.thy ===== *)
theory MoveResolver_Correct
  imports MoveResolver "HOL-Library.Multiset"
begin

text \<open>
  The resolver turns parallel moves into a sequence with the same effect; its reordering of moves that
  read one memory operand, and the later one of memory to memory moves, change nothing.
\<close>

section \<open>Aliasing\<close>

text \<open>The header's assumption: no operand is addressed through a register that is an operand.\<close>

definition operandsOk :: "MoveOperand set \<Rightarrow> bool" where
  "operandsOk A \<longleftrightarrow> (\<forall>a \<in> A. \<forall>b \<in> A. isMemoryOrEffectiveAddress a \<and> isGeneralReg b \<longrightarrow> code a \<noteq> code b)"

definition operandsOf :: "MoveOp list \<Rightarrow> MoveOperand set" where
  "operandsOf ms = moveFrom ` set ms \<union> moveTo ` set ms"

abbreviation source :: "MoveOp \<Rightarrow> Kind \<times> nat \<times> int" where
  "source m \<equiv> placeOf (moveFrom m)"

abbreviation dest :: "MoveOp \<Rightarrow> Kind \<times> nat \<times> int" where
  "dest m \<equiv> placeOf (moveTo m)"

lemma aliases_eq: "operandsOk A \<Longrightarrow> a \<in> A \<Longrightarrow> b \<in> A \<Longrightarrow> aliases a b = returnM (placeOf a = placeOf b)"
  by (auto simp: aliases_def operandsOk_def placeOf_def isMemoryOrEffectiveAddress_def isGeneralReg_def)

lemma operandEq_place: "operandEq a b \<Longrightarrow> placeOf a = placeOf b"
  by (auto simp: operandEq_def placeOf_def isMemoryOrEffectiveAddress_def split: if_splits)

lemma operandsOf_simps [simp]:
  "operandsOf [] = {}" "operandsOf (m # ms) = {moveFrom m, moveTo m} \<union> operandsOf ms"
  "operandsOf (ms @ ms') = operandsOf ms \<union> operandsOf ms'"
  by (auto simp: operandsOf_def)

lemma operandsOf_mem: "m \<in> set ms \<Longrightarrow> moveFrom m \<in> operandsOf ms \<and> moveTo m \<in> operandsOf ms"
  by (auto simp: operandsOf_def)

lemma operandsOf_nth: "i < length ms \<Longrightarrow> operandsOf ms \<subseteq> A \<Longrightarrow> moveFrom (ms ! i) \<in> A \<and> moveTo (ms ! i) \<in> A"
  using operandsOf_mem [of "ms ! i" ms] by auto

text \<open>Two moves that touch a common place.\<close>

definition touches :: "MoveOp \<Rightarrow> MoveOp \<Rightarrow> bool" where
  "touches m m' \<longleftrightarrow> {source m, dest m} \<inter> {source m', dest m'} \<noteq> {}"

lemma moveAliases_eq:
  assumes "operandsOk A" and "{moveFrom m, moveTo m, moveFrom m', moveTo m'} \<subseteq> A"
  shows "moveAliases m m' = returnM (touches m m')"
proof -
  have "moveAliasesOperand m x = returnM (source m = placeOf x \<or> dest m = placeOf x)" if "x \<in> A" for x
    using assms that by (simp add: moveAliasesOperand_def aliases_eq [OF assms(1)])
  then show ?thesis using assms(2) by (auto simp: moveAliases_def touches_def intro!: arg_cong [where f = returnM])
qed

section \<open>Searches\<close>

definition isFirst :: "(MoveOp \<Rightarrow> bool) \<Rightarrow> MoveOp list \<Rightarrow> nat \<Rightarrow> nat option \<Rightarrow> bool" where
  "isFirst p ms i r \<longleftrightarrow>
     (case r of None \<Rightarrow> \<forall>j. i \<le> j \<longrightarrow> j < length ms \<longrightarrow> \<not> p (ms ! j)
      | Some j \<Rightarrow> i \<le> j \<and> j < length ms \<and> p (ms ! j))"

lemma findCycledMove_eq:
  assumes A: "operandsOk A" and "operandsOf ms \<subseteq> A" and "moveTo m \<in> A"
  shows "\<exists>r. findCycledMove ms i m = returnM r \<and> isFirst (\<lambda>x. source x = dest m) ms i r"
  using assms(2,3)
proof (induction ms i m rule: findCycledMove.induct)
  case (1 ms i m)
  show ?case
  proof (cases "i < length ms \<and> source (ms ! i) \<noteq> dest m")
    case True
    then obtain r where r: "findCycledMove ms (Suc i) m = returnM r" "isFirst (\<lambda>x. source x = dest m) ms (Suc i) r"
      using 1 by auto
    then have "isFirst (\<lambda>x. source x = dest m) ms i r"
      using True by (auto simp: isFirst_def le_less_Suc_eq not_less_eq_eq split: option.splits) (metis le_antisym not_less_eq_eq)
    then show ?thesis
      using True r 1 operandsOf_nth [of i ms A] by (subst findCycledMove.simps) (auto simp: aliases_eq [OF A])
  next
    case False
    then show ?thesis
      using 1 operandsOf_nth [of i ms A] by (subst findCycledMove.simps) (auto simp: aliases_eq [OF A] isFirst_def)
  qed
qed

lemma markCycleEnds_none:
  assumes A: "operandsOk A" and "operandsOf ms \<subseteq> A" and "moveTo m \<in> A"
    and "\<And>j. i \<le> j \<Longrightarrow> j < length ms \<Longrightarrow> source (ms ! j) \<noteq> dest m"
  shows "markCycleEnds cur m i ms = returnM ms"
  using assms(2-)
proof (induction cur m i ms rule: markCycleEnds.induct)
  case (1 cur m i ms)
  then show ?case
    using operandsOf_nth [of i ms A] by (subst markCycleEnds.simps) (auto simp: aliases_eq [OF A])
qed

section \<open>Executing a sequence\<close>

lemma emit_append: "emit conv (ms @ ms') st = bindM (emit conv ms st) (emit conv ms')"
proof (induction ms arbitrary: st)
  case Nil
  then show ?case by (simp add: fun_eq_iff)
next
  case (Cons m ms)
  have "emit conv (ms @ ms') = (\<lambda>st. bindM (emit conv ms st) (emit conv ms'))" using Cons.IH by (rule ext)
  then show ?case by (simp add: bindM_assoc)
qed

lemma bindM_returnM_right [simp]: "bindM m returnM = m"
  by (auto simp: bindM_def returnM_def fun_eq_iff split: prod.splits sum.splits)

definition plain :: "MoveOp \<Rightarrow> bool" where
  "plain m \<longleftrightarrow> \<not> isCycleBegin m \<and> \<not> isCycleEnd m"

lemma plain_newMove [simp]: "plain (newMove a b ty)"
  by (simp add: plain_def newMove_def)

lemma newMove_sel [simp]:
  "moveFrom (newMove a b ty) = a" "moveTo (newMove a b ty) = b" "moveType (newMove a b ty) = ty"
  "isCycleBegin (newMove a b ty) = False" "isCycleEnd (newMove a b ty) = False"
  by (simp_all add: newMove_def)

lemma emitMove_plain:
  "plain m \<Longrightarrow> emitMove conv m (store, saved) = returnM (store(dest m := conv (moveType m) (store (source m))), saved)"
  by (simp add: emitMove_def plain_def)

lemma emitMove_end:
  "isCycleEnd e \<Longrightarrow> emitMove conv e (store, None) = throwM AssertFail"
  "isCycleEnd e \<Longrightarrow> emitMove conv e (store, Some x) = returnM (store(dest e := conv (moveType e) x), None)"
  by (simp_all add: emitMove_def)

lemma emitMove_begin:
  assumes "\<not> isCycleEnd e" "isCycleBegin e"
  shows "emitMove conv e (store, None) =
      returnM (store(dest e := conv (moveType e) (store (source e))), Some (conv (endCycleType e) (store (dest e))))"
    and "emitMove conv e (store, Some x) = throwM AssertFail"
  using assms by (simp_all add: emitMove_def mozAssert_def)

text \<open>A plain move commutes with every move that touches none of its places.\<close>

lemma emit_commute:
  assumes "plain m" and "\<not> touches e m"
  shows "emit conv [e, m] st = emit conv [m, e] st"
proof -
  have ne: "source e \<noteq> source m" "source e \<noteq> dest m" "dest e \<noteq> source m" "dest e \<noteq> dest m"
    using assms(2) by (auto simp: touches_def)
  obtain store saved where st: "st = (store, saved)" by (cases st)
  consider "isCycleEnd e" | "\<not> isCycleEnd e" "isCycleBegin e" | "plain e" by (auto simp: plain_def)
  then show ?thesis
  proof cases
    case 1
    then show ?thesis
      using assms(1) ne by (cases saved) (simp_all add: st emitMove_plain emitMove_end fun_upd_twist)
  next
    case 2
    then show ?thesis
      using assms(1) ne by (cases saved) (simp_all add: st emitMove_plain emitMove_begin fun_upd_twist)
  next
    case 3
    then show ?thesis
      using assms(1) ne by (simp add: st emitMove_plain fun_upd_twist)
  qed
qed

lemma emit_shift:
  assumes "plain m" and "\<forall>e \<in> set ms. \<not> touches e m"
  shows "emit conv (ms @ [m]) st = emit conv (m # ms) st"
  using assms(2)
proof (induction ms arbitrary: st)
  case Nil
  then show ?case by simp
next
  case (Cons e ms)
  have "emit conv ((e # ms) @ [m]) st = bindM (emitMove conv e st) (emit conv (ms @ [m]))" by simp
  also have "emit conv (ms @ [m]) = emit conv (m # ms)" using Cons by (intro ext) simp
  also have "bindM (emitMove conv e st) (emit conv (m # ms)) = emit conv ([e, m] @ ms) st" by simp
  also have "\<dots> = bindM (emit conv [m, e] st) (emit conv ms)"
    unfolding emit_append using emit_commute [OF assms(1), of e conv st] Cons.prems by simp
  also have "\<dots> = emit conv (m # e # ms) st" by (simp only: emit_append [symmetric] append.simps)
  finally show ?case .
qed

lemma emit_shift_others:
  assumes "\<forall>e \<in> set ms. plain e \<and> \<not> touches e m"
  shows "emit conv (ms @ [m]) st = emit conv (m # ms) st"
  using assms
proof (induction ms arbitrary: st)
  case Nil
  then show ?case by simp
next
  case (Cons e ms)
  have "emit conv ((e # ms) @ [m]) st = bindM (emitMove conv e st) (emit conv (ms @ [m]))" by simp
  also have "emit conv (ms @ [m]) = emit conv (m # ms)" using Cons by (intro ext) simp
  also have "bindM (emitMove conv e st) (emit conv (m # ms)) = emit conv ([e, m] @ ms) st" by simp
  also have "\<dots> = bindM (emit conv [m, e] st) (emit conv ms)"
    unfolding emit_append using emit_commute [of e m conv st] Cons.prems by (auto simp: touches_def)
  also have "\<dots> = emit conv (m # e # ms) st" by (simp only: emit_append [symmetric] append.simps)
  finally show ?case .
qed

section \<open>Adding a move to the result\<close>

definition orderedOk :: "MoveOperand set \<Rightarrow> MoveOp list \<Rightarrow> bool" where
  "orderedOk A ms \<longleftrightarrow> operandsOf ms \<subseteq> A \<and> (\<forall>m \<in> set ms. source m \<noteq> dest m)"

lemma orderedOk_append [simp]: "orderedOk A (ms @ ms') \<longleftrightarrow> orderedOk A ms \<and> orderedOk A ms'"
  by (auto simp: orderedOk_def)

lemma orderedOk_Cons [simp]:
  "orderedOk A (m # ms) \<longleftrightarrow> moveFrom m \<in> A \<and> moveTo m \<in> A \<and> source m \<noteq> dest m \<and> orderedOk A ms"
  by (auto simp: orderedOk_def)

lemma orderedOk_Nil [simp]: "orderedOk A []"
  by (simp add: orderedOk_def)

lemma insertAt_split: "i < length xs \<Longrightarrow> insertAt (i + 1) y (xs[i := x]) = take i xs @ [x, y] @ drop (Suc i) xs"
  by (simp add: insertAt_def take_Suc_conv_app_nth upd_conv_take_nth_drop min_def)

text \<open>A move of a type transfers the same from what such a move transferred.\<close>

definition idempotent :: "(MoveType \<Rightarrow> 'v \<Rightarrow> 'v) \<Rightarrow> bool" where
  "idempotent conv \<longleftrightarrow> (\<forall>ty v. conv ty (conv ty v) = conv ty v)"

text \<open>Two moves from one place: the second may read the destination of the first.\<close>

lemma emit_chain:
  assumes "plain e" "plain m" and "source e = source m" and "moveType e = moveType m"
    and ne: "dest e \<noteq> dest m" "dest e \<noteq> source m" "dest m \<noteq> source m"
    and conv: "idempotent conv"
  shows "emit conv [e, newMove (moveTo e) (moveTo m) (moveType m)] st = emit conv [e, m] st"
    and "emit conv [m, newMove (moveTo m) (moveTo e) (moveType m)] st = emit conv [e, m] st"
  using assms by (cases st; auto simp: emitMove_plain idempotent_def fun_upd_twist)+

lemma emit_replace:
  assumes "\<And>st. emit conv xs st = emit conv [e, m] st" and "plain m" and "\<forall>x \<in> set suffix. \<not> touches x m"
  shows "emit conv (pre @ xs @ suffix) st = emit conv ((pre @ e # suffix) @ [m]) st"
proof -
  have c: "emit conv (e # ms) = (\<lambda>st. bindM (emitMove conv e st) (emit conv ms))" for ms
    by (rule ext) simp
  have s: "emit conv (suffix @ [m]) = emit conv (m # suffix)" using emit_shift [OF assms(2,3)] by (rule ext)
  have "emit conv xs = emit conv [e, m]" using assms(1) by (rule ext)
  then have "emit conv (xs @ suffix) = emit conv ([e, m] @ suffix)" by (intro ext) (simp only: emit_append)
  then have "emit conv (xs @ suffix) = emit conv ((e # suffix) @ [m])" by (simp add: c s)
  then show ?thesis by (simp add: emit_append [of conv pre])
qed

definition addsMove :: "(MoveType \<Rightarrow> 'v \<Rightarrow> 'v) \<Rightarrow> MoveOperand set \<Rightarrow> MoveOp \<Rightarrow> MoveOp list \<Rightarrow> MoveOp list \<Rightarrow> bool" where
  "addsMove conv A m ms ms' \<longleftrightarrow>
     orderedOk A ms' \<and> mset (map dest ms') = add_mset (dest m) (mset (map dest ms)) \<and> (\<forall>st. emit conv ms' st = emit conv (ms @ [m]) st)"

lemma addAfterSameSource_ok:
  assumes A: "operandsOk A" and conv: "idempotent conv"
    and ms: "orderedOk A ms" and m: "orderedOk A [m]" "plain m"
    and "i \<le> length ms" and "\<forall>x \<in> set (drop i ms). \<not> touches x m"
  shows "\<exists>r. addAfterSameSource m i ms = returnM r \<and> (\<forall>before after. r = Some (before, after) \<longrightarrow> addsMove conv A m ms after)"
  using assms(6,7)
proof (induction i)
  case 0
  show ?case by (rule exI [where x = None]) simp
next
  case (Suc i)
  let ?e = "ms ! i" and ?pre = "take i ms" and ?suffix = "drop (Suc i) ms"
  let ?good = "\<lambda>c. \<exists>r. c = returnM r \<and> (\<forall>before after. r = Some (before, after) \<longrightarrow> addsMove conv A m ms after)"
  have i: "i < length ms" using Suc.prems by simp
  have split: "ms = ?pre @ ?e # ?suffix" using i by (simp add: id_take_nth_drop)
  have parts: "orderedOk A ?pre" "orderedOk A [?e]" "orderedOk A ?suffix"
    using ms by (subst (asm) split, simp)+
  have places: "mset (map dest ms) = mset (map dest ?pre) + add_mset (dest ?e) (mset (map dest ?suffix))"
    by (subst split) simp
  have next_ok: "?good (bindM (moveAliases ?e m) (\<lambda>b. if b then returnM None else addAfterSameSource m i ms))"
  proof -
    have "moveAliases ?e m = returnM (touches ?e m)"
      using moveAliases_eq [OF A, of ?e m] parts(2) m(1) by simp
    moreover have "?good (addAfterSameSource m i ms)" if "\<not> touches ?e m"
      using Suc.IH Suc.prems that i by (simp add: Cons_nth_drop_Suc [OF i, symmetric] del: Cons_nth_drop_Suc)
    ultimately show ?thesis by (cases "touches ?e m") (auto intro: exI [where x = None])
  qed
  show ?case
  proof (cases "operandEq (moveFrom ?e) (moveFrom m) \<and> dest ?e \<noteq> dest m \<and> moveType ?e = moveType m \<and> plain ?e")
    case False
    then show ?thesis
      using next_ok parts(2) m(1) by (auto simp: Let_def aliases_eq [OF A] plain_def)
  next
    case True
    then have src: "source ?e = source m" by (simp add: operandEq_place)
    have chain: "emit conv [?e, newMove (moveTo ?e) (moveTo m) (moveType m)] st = emit conv [?e, m] st"
      "emit conv [m, newMove (moveTo m) (moveTo ?e) (moveType m)] st = emit conv [?e, m] st" for st
      using emit_chain [of ?e m conv st] True src parts(2) m conv by auto
    have one: "addsMove conv A m ms (insertAt (i + 1) (newMove (moveTo ?e) (moveTo m) (moveType m)) ms)"
    proof -
      have "insertAt (i + 1) (newMove (moveTo ?e) (moveTo m) (moveType m)) ms =
          ?pre @ [?e, newMove (moveTo ?e) (moveTo m) (moveType m)] @ ?suffix"
        using insertAt_split [OF i, of _ ?e] by simp
      moreover have "emit conv (?pre @ [?e, newMove (moveTo ?e) (moveTo m) (moveType m)] @ ?suffix) st = emit conv (ms @ [m]) st" for st
        using emit_replace [OF chain(1) m(2) Suc.prems(2), of ?pre st] split by simp
      ultimately show ?thesis using parts m True places by (simp add: addsMove_def)
    qed
    have two: "addsMove conv A m ms (insertAt (i + 1) (newMove (moveTo m) (moveTo ?e) (moveType m)) (ms[i := m]))"
    proof -
      have "insertAt (i + 1) (newMove (moveTo m) (moveTo ?e) (moveType m)) (ms[i := m]) =
          ?pre @ [m, newMove (moveTo m) (moveTo ?e) (moveType m)] @ ?suffix"
        using insertAt_split [OF i, of _ m] by simp
      moreover have "emit conv (?pre @ [m, newMove (moveTo m) (moveTo ?e) (moveType m)] @ ?suffix) st = emit conv (ms @ [m]) st" for st
        using emit_replace [OF chain(2) m(2) Suc.prems(2), of ?pre st] split by simp
      moreover have "dest m \<noteq> dest ?e" using True by auto
      ultimately show ?thesis using parts m places by (simp add: addsMove_def)
    qed
    show ?thesis
      using True one two next_ok parts(2) m(1) by (auto simp: Let_def aliases_eq [OF A] plain_def)
  qed
qed

lemma runs_addOrderedMove:
  assumes A: "operandsOk A" and conv: "idempotent conv"
    and ms: "orderedOk A ms" and m: "orderedOk A [m]"
    and "\<And>ok ms'. if ok then addsMove conv A m ms ms' else \<not> (\<forall>k. allocOk v k) \<Longrightarrow> Q (ok, ms')"
  shows "runs (addOrderedMove m ms) v E Q"
proof -
  let ?placed = "if \<not> isMemory (moveFrom m) \<or> isCycleBegin m \<or> isCycleEnd m then returnM None else addAfterSameSource m (length ms) ms"
  have "\<exists>r. ?placed = returnM r \<and> (\<forall>before after. r = Some (before, after) \<longrightarrow> addsMove conv A m ms after)"
  proof (cases "isMemory (moveFrom m) \<and> plain m")
    case True
    then show ?thesis using addAfterSameSource_ok [OF A conv ms m, of "length ms"] by (simp add: plain_def)
  next
    case False
    then show ?thesis by (intro exI [where x = None]) (auto simp: plain_def)
  qed
  then obtain r where r: "?placed = returnM r" "\<And>before after. r = Some (before, after) \<Longrightarrow> addsMove conv A m ms after"
    by blast
  have append: "addsMove conv A m ms (ms @ [m])" using ms m by (simp add: addsMove_def)
  have al: "aliases (moveFrom m) (moveTo m) = returnM False" using m by (simp add: aliases_eq [OF A])
  have "Q (case r of Some (before, after) \<Rightarrow> (ok, if ok then after else before) | None \<Rightarrow> (ok, if ok then ms @ [m] else ms))"
    if "ok \<or> \<not> (\<forall>k. allocOk v k)" for ok
    using that append r(2) by (cases r; cases ok) (auto intro!: assms(5) simp del: not_all)
  then show ?thesis
    unfolding addOrderedMove_def al r(1) bindM_returnM by (intro runs_intros) simp_all
qed

end
