(* ===== verification/MoveResolver_Resolve.thy ===== *)
theory MoveResolver_Resolve
  imports MoveResolver_Correct
begin

text \<open>
  The search of \<open>MoveResolver::resolve\<close>: the invariant of its stack and of the moves that are left, and the
  theorem that executing the ordered moves performs the given moves at once.
\<close>

section \<open>Moves at once\<close>

definition parallelMoves :: "(MoveType \<Rightarrow> 'v \<Rightarrow> 'v) \<Rightarrow> MoveOp list \<Rightarrow> 'v places \<Rightarrow> 'v places" where
  "parallelMoves conv ms store p =
     (case find (\<lambda>m. dest m = p) ms of
        Some m \<Rightarrow> conv (moveType m) (store (source m))
      | None \<Rightarrow> store p)"

definition dests :: "MoveOp list \<Rightarrow> (Kind \<times> nat \<times> int) set" where
  "dests ms = dest ` set ms"

lemma dests_simps [simp]:
  "dests [] = {}" "dests (m # ms) = insert (dest m) (dests ms)" "dests (ms @ ms') = dests ms \<union> dests ms'"
  by (auto simp: dests_def)

lemma dests_nth [simp]: "k < length ms \<Longrightarrow> dest (ms ! k) \<in> dests ms"
  by (simp add: dests_def)

lemma parallelMoves_other: "p \<notin> dests ms \<Longrightarrow> parallelMoves conv ms store p = store p"
proof -
  assume "p \<notin> dests ms"
  then have "find (\<lambda>m. dest m = p) ms = None" by (auto simp: find_None_iff dests_def)
  then show ?thesis by (simp add: parallelMoves_def)
qed

lemma parallelMoves_dest:
  assumes "distinct (map dest ms)" and "m \<in> set ms"
  shows "parallelMoves conv ms store (dest m) = conv (moveType m) (store (source m))"
proof -
  obtain x where x: "find (\<lambda>x. dest x = dest m) ms = Some x"
    using assms(2) by (cases "find (\<lambda>x. dest x = dest m) ms") (auto simp: find_None_iff)
  then have "x \<in> set ms" "dest x = dest m" by (auto simp: find_Some_iff)
  then have "x = m" using assms by (auto simp: distinct_map inj_on_def)
  then show ?thesis using x by (simp add: parallelMoves_def)
qed

section \<open>The invariant\<close>

text \<open>The move without its annotations.\<close>

definition core :: "MoveOp \<Rightarrow> MoveOp" where
  "core m = newMove (moveFrom m) (moveTo m) (moveType m)"

text \<open>
  What the caller gives: no two moves write one place, none moves a place to itself, and operands are
  addressed through registers that are no operands.
\<close>

definition parallelOk :: "MoveOp list \<Rightarrow> bool" where
  "parallelOk ms \<longleftrightarrow> operandsOk (operandsOf ms) \<and> distinct (map dest ms) \<and> (\<forall>m \<in> set ms. source m \<noteq> dest m \<and> core m = m)"

definition movesOk :: "MoveOp list \<Rightarrow> MoveOp list \<Rightarrow> MoveOp list \<Rightarrow> bool" where
  "movesOk ms left stack \<longleftrightarrow>
     set left \<subseteq> set ms \<and> core ` set stack \<subseteq> set ms \<and> distinct (map dest (left @ stack)) \<and>
     (\<forall>m \<in> set left. source m \<notin> dests ms - dests (left @ stack))"

text \<open>
  Each move of the stack blocks the one below it.  The root ends a cycle when its source is already written
  by a move that is no longer pending, and that move begins the cycle.
\<close>

definition stackOk :: "MoveOp list \<Rightarrow> MoveOp list \<Rightarrow> MoveOp list \<Rightarrow> bool" where
  "stackOk ms left stack \<longleftrightarrow>
     (\<forall>k. Suc k < length stack \<longrightarrow> source (stack ! Suc k) = dest (stack ! k)) \<and>
     (\<forall>k < length stack. isCycleBegin (stack ! k) \<longleftrightarrow> k \<noteq> 0 \<and> dest (stack ! k) = source (stack ! 0)) \<and>
     (\<forall>k < length stack. isCycleEnd (stack ! k) \<longleftrightarrow> k = 0 \<and> source (stack ! 0) \<in> dests ms - dests left) \<and>
     (\<forall>k < length stack. isCycleBegin (stack ! k) \<longrightarrow> endCycleType (stack ! k) = moveType (stack ! 0))"

text \<open>Executing what is ordered so far: the moves that are left, and the stack, are still to be done.\<close>

definition midway :: "(MoveType \<Rightarrow> 'v \<Rightarrow> 'v) \<Rightarrow> MoveOp list \<Rightarrow> MoveOp list \<Rightarrow> MoveOp list \<Rightarrow> 'v places \<Rightarrow> 'v places \<times> 'v option" where
  "midway conv ms left stack store =
     (\<lambda>p. if p \<in> dests (left @ stack) then store p else parallelMoves conv ms store p,
      if stack \<noteq> [] \<and> source (stack ! 0) \<in> dests ms - dests (left @ stack)
      then Some (conv (moveType (stack ! 0)) (store (source (stack ! 0)))) else None)"

lemma core_sel [simp]:
  "moveFrom (core m) = moveFrom m" "moveTo (core m) = moveTo m" "moveType (core m) = moveType m"
  by (simp_all add: core_def)

lemma core_plain: "core m = m \<Longrightarrow> plain m"
  by (metis core_def plain_newMove)

section \<open>One step of the search\<close>

text \<open>A blocking move is pushed; when it closes a cycle it and the root are annotated.\<close>

definition pushed :: "nat \<Rightarrow> MoveOp \<Rightarrow> MoveOp list \<Rightarrow> MoveOp list" where
  "pushed cur m stack =
     (if source (stack ! 0) = dest m
      then stack[0 := (stack ! 0)\<lparr>isCycleEnd := True, cycleEndSlot := Some cur\<rparr>] @
        [m\<lparr>isCycleBegin := True, cycleBeginSlot := Some cur, endCycleType := moveType (stack ! 0)\<rparr>]
      else stack @ [m])"

lemma push_ok:
  assumes ms: "parallelOk ms" and ok: "movesOk ms (left1 @ m # left2) stack" "stackOk ms (left1 @ m # left2) stack"
    and ne: "stack \<noteq> []" and m: "source m = dest (last stack)"
  shows "movesOk ms (left1 @ left2) (pushed cur m stack)" and "stackOk ms (left1 @ left2) (pushed cur m stack)"
    and "mset (map dest ((left1 @ left2) @ pushed cur m stack)) = mset (map dest ((left1 @ m # left2) @ stack))"
    and "midway conv ms (left1 @ left2) (pushed cur m stack) = midway conv ms (left1 @ m # left2) stack"
proof -
  let ?stack = "pushed cur m stack"
  have len: "length ?stack = Suc (length stack)" by (simp add: pushed_def)
  have cores: "map core ?stack = map core stack @ [core m]"
    using ne by (cases stack) (auto simp: pushed_def core_def)
  have nth: "core (?stack ! k) = core ((stack @ [m]) ! k)" if "k < Suc (length stack)" for k
    using arg_cong [OF cores, of "\<lambda>xs. xs ! k"] that len by (simp add: nth_append split: if_splits)
  note parts = nth [THEN arg_cong, of _ moveFrom] nth [THEN arg_cong, of _ moveTo] nth [THEN arg_cong, of _ moveType]
  have maps: "map dest ?stack = map dest stack @ [dest m]"
    using arg_cong [OF cores, of "map dest"] by (simp add: comp_def)
  have D: "dests ?stack = insert (dest m) (dests stack)"
    using arg_cong [OF maps, of set] by (auto simp: dests_def)
  have C: "core ` set ?stack = insert (core m) (core ` set stack)"
    using arg_cong [OF cores, of set] by auto
  have m': "core m = m" "m \<in> set ms" using ms ok(1) by (auto simp: parallelOk_def movesOk_def)
  show "mset (map dest ((left1 @ left2) @ ?stack)) = mset (map dest ((left1 @ m # left2) @ stack))"
    by (simp add: maps)
  show "movesOk ms (left1 @ left2) ?stack"
    using ok(1) m' by (auto simp: movesOk_def D C maps) 
  show "midway conv ms (left1 @ left2) ?stack = midway conv ms (left1 @ m # left2) stack"
    using ne parts [of 0] len by (auto simp: midway_def D fun_eq_iff nth_append) 
  let ?n = "length stack"
  have n: "?n \<noteq> 0" using ne by simp
  have plain: "\<not> isCycleBegin m" "\<not> isCycleEnd m" using core_plain [OF m'(1)] by (auto simp: plain_def)
  have old: "?stack ! k = stack ! k" if "k < ?n" "k \<noteq> 0" for k using that by (simp add: pushed_def nth_append)
  have zero: "isCycleBegin (?stack ! 0) = isCycleBegin (stack ! 0)"
    "isCycleEnd (?stack ! 0) \<longleftrightarrow> isCycleEnd (stack ! 0) \<or> source (stack ! 0) = dest m"
    "endCycleType (?stack ! 0) = endCycleType (stack ! 0)"
    using ne by (auto simp: pushed_def nth_append)
  have new: "isCycleBegin (?stack ! ?n) \<longleftrightarrow> source (stack ! 0) = dest m" "\<not> isCycleEnd (?stack ! ?n)"
    "isCycleBegin (?stack ! ?n) \<Longrightarrow> endCycleType (?stack ! ?n) = moveType (stack ! 0)"
    using plain by (auto simp: pushed_def nth_append)
  have "source (stack ! 0) \<in> dests ms - dests (left1 @ left2) \<longleftrightarrow>
      source (stack ! 0) \<in> dests ms - dests (left1 @ m # left2) \<or> source (stack ! 0) = dest m"
  proof -
    have "dest m \<notin> dests (left1 @ left2)" using ok(1) by (auto simp: movesOk_def dests_def)
    moreover have "dest m \<in> dests ms" using m'(2) by (simp add: dests_def)
    ultimately show ?thesis by auto
  qed
  then have zero_end: "isCycleEnd (?stack ! 0) \<longleftrightarrow> source (stack ! 0) \<in> dests ms - dests (left1 @ left2)"
    using ok(2) n zero(2) by (simp add: stackOk_def)
  have src0: "source (?stack ! 0) = source (stack ! 0)" and ty0: "moveType (?stack ! 0) = moveType (stack ! 0)"
    using parts [of 0] n by (simp_all add: nth_append)
  show "stackOk ms (left1 @ left2) ?stack"
    unfolding stackOk_def len src0 ty0
  proof (intro conjI allI impI)
    fix k assume k: "Suc k < Suc ?n"
    have "last stack = stack ! k" if "Suc k = ?n" using ne that by (metis diff_Suc_1 last_conv_nth)
    then show "source (?stack ! Suc k) = dest (?stack ! k)"
      using ok(2) k parts [of k] parts [of "Suc k"] m
      by (cases "Suc k = ?n") (auto simp: stackOk_def nth_append)
  next
    fix k assume k: "k < Suc ?n"
    consider "k = 0" | "k \<noteq> 0" "k < ?n" | "k = ?n" using k by linarith
    then show "isCycleBegin (?stack ! k) \<longleftrightarrow> k \<noteq> 0 \<and> dest (?stack ! k) = source (stack ! 0)"
      using ok(2) n zero new old parts [of k] k by cases (auto simp: stackOk_def nth_append)
  next
    fix k assume k: "k < Suc ?n"
    consider "k = 0" | "k \<noteq> 0" "k < ?n" | "k = ?n" using k by linarith
    then show "isCycleEnd (?stack ! k) \<longleftrightarrow> k = 0 \<and> source (stack ! 0) \<in> dests ms - dests (left1 @ left2)"
      using ok(2) n zero_end new old by cases (auto simp: stackOk_def)
  next
    fix k assume k: "k < Suc ?n" and b: "isCycleBegin (?stack ! k)"
    consider "k = 0" | "k \<noteq> 0" "k < ?n" | "k = ?n" using k by linarith
    then show "endCycleType (?stack ! k) = moveType (stack ! 0)"
      using ok(2) n zero new old b by cases (auto simp: stackOk_def)
  qed
qed

text \<open>The last move of the stack is executed when nothing blocks it.\<close>

lemma pop_ok:
  assumes ms: "parallelOk ms" and ok: "movesOk ms left (stack @ [t])" "stackOk ms left (stack @ [t])"
    and free: "\<forall>m \<in> set left. source m \<noteq> dest t" and conv: "idempotent conv"
  shows "movesOk ms left stack" and "stackOk ms left stack"
    and "emitMove conv t (midway conv ms left (stack @ [t]) store) = returnM (midway conv ms left stack store)"
proof -
  let ?stack = "stack @ [t]" and ?n = "length stack"
  show "movesOk ms left stack" using ok(1) free by (auto simp: movesOk_def)
  have nth: "?stack ! k = stack ! k" if "k < ?n" for k using that by (simp add: nth_append)
  have chain: "source (?stack ! Suc k) = dest (?stack ! k)" if "k < ?n" for k using that ok(2) by (simp add: stackOk_def)
  have begins: "isCycleBegin (?stack ! k) \<longleftrightarrow> k \<noteq> 0 \<and> dest (?stack ! k) = source (?stack ! 0)"
    and ends: "isCycleEnd (?stack ! k) \<longleftrightarrow> k = 0 \<and> source (?stack ! 0) \<in> dests ms - dests left"
    and types: "isCycleBegin (?stack ! k) \<Longrightarrow> endCycleType (?stack ! k) = moveType (?stack ! 0)" if "k \<le> ?n" for k
    using that ok(2) by (simp_all add: stackOk_def)
  show "stackOk ms left stack"
    unfolding stackOk_def
  proof (intro conjI allI impI)
    fix k assume k: "Suc k < ?n"
    show "source (stack ! Suc k) = dest (stack ! k)" using chain [of k] nth [OF k] nth [of k] k by simp
  next
    fix k assume k: "k < ?n"
    then have 0: "?stack ! 0 = stack ! 0" "k \<le> ?n" by (auto simp: nth_append)
    show "isCycleBegin (stack ! k) \<longleftrightarrow> k \<noteq> 0 \<and> dest (stack ! k) = source (stack ! 0)"
      using begins [OF 0(2)] nth [OF k] 0(1) by simp
    show "isCycleEnd (stack ! k) \<longleftrightarrow> k = 0 \<and> source (stack ! 0) \<in> dests ms - dests left"
      using ends [OF 0(2)] nth [OF k] 0(1) by simp
    show "endCycleType (stack ! k) = moveType (stack ! 0)" if "isCycleBegin (stack ! k)"
      using types [OF 0(2)] nth [OF k] 0(1) that by simp
  qed
  have t: "core t \<in> set ms" using ok(1) by (simp add: movesOk_def)
  have target: "parallelMoves conv ms store (dest t) = conv (moveType t) (store (source t))"
    using parallelMoves_dest [OF _ t] ms by (simp add: parallelOk_def)
  have ne: "source t \<noteq> dest t" using ms t by (auto simp: parallelOk_def dest: bspec)
  have fresh: "dest t \<notin> dests left" "dest t \<notin> dests stack" using ok(1) by (auto simp: movesOk_def dests_def)
  have known: "dest t \<in> dests ms" using imageI [OF t, of dest] by (simp add: dests_def)
  let ?before = "\<lambda>p. if p \<in> dests (left @ ?stack) then store p else parallelMoves conv ms store p"
  let ?after = "\<lambda>p. if p \<in> dests (left @ stack) then store p else parallelMoves conv ms store p"
  have step: "?before(dest t := conv (moveType t) (store (source t))) = ?after"
    using fresh target by (auto simp: fun_eq_iff)
  show "emitMove conv t (midway conv ms left ?stack store) = returnM (midway conv ms left stack store)"
  proof (cases "stack = []")
    case True
    show ?thesis
    proof (cases "source t \<in> dests ms - dests left")
      case ended: True
      then have "isCycleEnd t" using ends [of 0] True by simp
      then show ?thesis
        using step ended ne True conv by (simp add: midway_def emitMove_end idempotent_def)
    next
      case not_end: False
      then have "plain t" using begins [of 0] ends [of 0] True by (simp add: plain_def)
      moreover have "?before (source t) = store (source t)"
        using not_end parallelMoves_other [of "source t" ms conv store] by auto
      ultimately show ?thesis
        using step not_end True by (auto simp: midway_def emitMove_plain)
    qed
  next
    case False
    then have n: "?n \<noteq> 0" by simp
    have "source t = dest (stack ! (?n - 1))" using chain [of "?n - 1"] n by (simp add: nth_append)
    then have "source t \<in> dests stack" using n by simp
    then have src: "?before (source t) = store (source t)" by simp
    have root: "?stack ! 0 = stack ! 0" using n by (simp add: nth_append)
    have not_end: "\<not> isCycleEnd t" using ends [of ?n] n by simp
    show ?thesis
    proof (cases "dest t = source (stack ! 0)")
      case True
      then have b: "isCycleBegin t" "endCycleType t = moveType (stack ! 0)"
        using begins [of ?n] types [of ?n] n root by simp_all
      have "?before (dest t) = store (source (stack ! 0))" using True by simp
      then show ?thesis
        using step b not_end src True False fresh known root by (simp add: midway_def emitMove_begin)
    next
      case no: False
      then have "plain t" using begins [of ?n] not_end root by (simp add: plain_def)
      then show ?thesis
        using step src no False root by (auto simp: midway_def emitMove_plain)
    qed
  qed
qed

text \<open>The state of the search between two steps, and one step.\<close>

definition searching :: "(MoveType \<Rightarrow> 'v \<Rightarrow> 'v) \<Rightarrow> MoveOp list \<Rightarrow> MoveOp list \<Rightarrow> MoveOp list \<Rightarrow> MoveOp list \<Rightarrow> bool" where
  "searching conv ms left stack ordered \<longleftrightarrow>
     movesOk ms left stack \<and> stackOk ms left stack \<and> orderedOk (operandsOf ms) ordered \<and>
     mset (map dest (left @ stack @ ordered)) = mset (map dest ms) \<and>
     (\<forall>store. emit conv ordered (store, None) = returnM (midway conv ms left stack store))"

lemma operandsOf_core: "core ` set stack \<subseteq> set ms \<Longrightarrow> operandsOf stack \<subseteq> operandsOf ms"
  unfolding operandsOf_def by (auto simp: image_subset_iff) (metis core_sel imageI)+

lemma operandsOf_mono: "set xs \<subseteq> set ms \<Longrightarrow> operandsOf xs \<subseteq> operandsOf ms"
  by (auto simp: operandsOf_def)

lemma removeAt_split: "b < length xs \<Longrightarrow> xs = take b xs @ xs ! b # drop (Suc b) xs \<and> removeAt b xs = take b xs @ drop (Suc b) xs"
  by (simp add: removeAt_def id_take_nth_drop)

lemma searching_push:
  assumes "parallelOk ms" and "searching conv ms left stack ordered" and "stack \<noteq> []" and "b < length left"
    and "source (left ! b) = dest (last stack)"
  shows "searching conv ms (removeAt b left) (pushed cur (left ! b) stack) ordered"
proof -
  have left: "left = take b left @ left ! b # drop (Suc b) left" "removeAt b left = take b left @ drop (Suc b) left"
    using removeAt_split [OF assms(4)] by simp_all
  show ?thesis
    using push_ok(1,2,3) [OF assms(1) _ _ assms(3,5), of "take b left" "drop (Suc b) left"]
      push_ok(4) [OF assms(1) _ _ assms(3,5), of "take b left" "drop (Suc b) left", where conv = conv] assms(2)
    unfolding searching_def left(1) [symmetric] left(2) [symmetric] by (simp flip: append_assoc union_assoc)
qed

lemma searching_pop:
  assumes "parallelOk ms" and conv: "idempotent conv" and s: "searching conv ms left (stack @ [t]) ordered"
    and free: "\<forall>m \<in> set left. source m \<noteq> dest t" and add: "addsMove conv (operandsOf ms) t ordered ordered'"
  shows "searching conv ms left stack ordered'"
  using pop_ok [OF assms(1) _ _ free conv] s add
  by (simp add: searching_def addsMove_def emit_append)

lemma searching_operands:
  assumes "searching conv ms left stack ordered"
  shows "operandsOf left \<subseteq> operandsOf ms" and "operandsOf stack \<subseteq> operandsOf ms" and "orderedOk (operandsOf ms) ordered"
  using assms operandsOf_core [of stack ms] operandsOf_mono [of left ms] by (auto simp: searching_def movesOk_def)

text \<open>Only the root of the stack can read what a pending move writes.\<close>

lemma cycle_at_root:
  assumes "searching conv ms left stack ordered" and "m \<in> set left" and "i < length stack" and "source (stack ! i) = dest m"
  shows "i = 0"
proof (rule ccontr)
  assume "i \<noteq> 0"
  then obtain j where j: "i = Suc j" by (cases i) auto
  then have "source (stack ! i) = dest (stack ! j)" using assms(1,3) by (auto simp: searching_def stackOk_def)
  then have "dest m \<in> dests stack" using assms(3,4) j by (simp del: dests_nth) (metis Suc_lessD dests_nth)
  moreover have "dest m \<notin> dests stack" using assms(1,2) by (auto simp: searching_def movesOk_def dests_def)
  ultimately show False by contradiction
qed

lemma searchStep_push:
  assumes ms: "parallelOk ms" and s: "searching conv ms (searchPending s) (searchStack s) (searchOrdered s)"
    and ne: "searchStack s \<noteq> []" and b: "b < length (searchPending s)"
    and found: "findBlockingMove (searchPending s) (last (searchStack s)) = returnM (Some b)"
  shows "\<exists>cycles. searchStep (moveType (searchStack s ! 0)) s =
      returnM (s\<lparr>searchPending := removeAt b (searchPending s),
        searchStack := pushed (searchCycles s) (searchPending s ! b) (searchStack s), searchCycles := cycles\<rparr>)"
proof -
  let ?P = "searchPending s" and ?S = "searchStack s" and ?A = "operandsOf ms" and ?cur = "searchCycles s"
  let ?m = "?P ! b"
  have A: "operandsOk ?A" using ms by (simp add: parallelOk_def)
  have m: "?m \<in> set ?P" "moveTo ?m \<in> ?A" using b searching_operands(1) [OF s] operandsOf_nth [OF b] by auto
  obtain r where r: "findCycledMove ?S 0 ?m = returnM r" "isFirst (\<lambda>x. source x = dest ?m) ?S 0 r"
    using findCycledMove_eq [OF A searching_operands(2) [OF s] m(2)] by blast
  show ?thesis
  proof (cases "source (?S ! 0) = dest ?m")
    case True
    have r0: "r = Some 0"
      using r(2) True ne cycle_at_root [OF s m(1)] by (cases r) (auto simp: isFirst_def)
    let ?root = "(?S ! 0)\<lparr>isCycleEnd := True, cycleEndSlot := Some ?cur\<rparr>"
    have "\<not> isCycleEnd (?S ! 0)"
      using s ne True m(1) by (auto simp: searching_def stackOk_def dests_def)
    then have e: "setCycleEnd ?cur (?S ! 0) = returnM ?root" by (simp add: setCycleEnd_def)
    have "plain ?m" using ms m(1) s by (auto simp: searching_def movesOk_def parallelOk_def intro!: core_plain)
    then have c: "setCycleBegin ty ?cur ?m = returnM (?m\<lparr>isCycleBegin := True, cycleBeginSlot := Some ?cur, endCycleType := ty\<rparr>)" for ty
      by (simp add: setCycleBegin_def plain_def)
    have al: "aliases (moveFrom (?S ! 0)) (moveTo ?m) = returnM True"
      using aliases_eq [OF A _ m(2), of "moveFrom (?S ! 0)"] operandsOf_nth [of 0 ?S ?A] searching_operands(2) [OF s] ne True by simp
    have "operandsOf (?S[0 := ?root]) \<subseteq> ?A"
      using searching_operands(2) [OF s] ne by (cases ?S) auto
    then have rest: "markCycleEnds ?cur ?m (Suc 0) (?S[0 := ?root]) = returnM (?S[0 := ?root])"
      using cycle_at_root [OF s m(1)] by (intro markCycleEnds_none [OF A _ m(2)]) auto
    have mark: "markCycleEnds ?cur ?m 0 ?S = returnM (?S[0 := ?root])"
      using ne al e rest by (subst markCycleEnds.simps) simp
    show ?thesis
      using r r0 found mark c True by (auto simp: searchStep_def pushed_def Let_def)
  next
    case False
    then have "r = None"
      using r(2) cycle_at_root [OF s m(1)] by (cases r) (auto simp: isFirst_def)
    then show ?thesis
      using r found False by (auto simp: searchStep_def pushed_def Let_def intro!: exI [where x = ?cur])
  qed
qed

definition searchOk :: "(MoveType \<Rightarrow> 'v \<Rightarrow> 'v) \<Rightarrow> MoveOp list \<Rightarrow> env \<Rightarrow> MoveType \<Rightarrow> nat \<Rightarrow> Search \<Rightarrow> bool" where
  "searchOk conv ms v ty n s \<longleftrightarrow>
     (if searchFailed s then \<not> (\<forall>k. allocOk v k)
      else searching conv ms (searchPending s) (searchStack s) (searchOrdered s) \<and> length (searchPending s) \<le> n \<and>
        (searchStack s \<noteq> [] \<longrightarrow> moveType (searchStack s ! 0) = ty))"

definition searchLeft :: "Search \<Rightarrow> nat" where
  "searchLeft s = (if searchFailed s then 0 else Suc (2 * length (searchPending s) + length (searchStack s)))"

lemma runs_searchStep:
  assumes ms: "parallelOk ms" and conv: "idempotent conv" and ok: "searchOk conv ms v ty n s"
    and go: "\<not> searchFailed s \<and> searchStack s \<noteq> []"
  shows "runs (searchStep ty s) v E (\<lambda>s'. searchOk conv ms v ty n s' \<and> searchLeft s' < searchLeft s)"
proof -
  let ?P = "searchPending s" and ?S = "searchStack s" and ?A = "operandsOf ms"
  have A: "operandsOk ?A" using ms by (simp add: parallelOk_def)
  have s: "searching conv ms ?P ?S (searchOrdered s)" and ty: "moveType (?S ! 0) = ty" and n: "length ?P \<le> n"
    using ok go by (auto simp: searchOk_def)
  have top: "last ?S \<in> set ?S" using go by simp
  then have t: "moveTo (last ?S) \<in> ?A" using searching_operands(2) [OF s] operandsOf_mem [of "last ?S" ?S] by auto
  obtain r where r: "findBlockingMove ?P (last ?S) = returnM r" "isFirst (\<lambda>x. source x = dest (last ?S)) ?P 0 r"
    using findCycledMove_eq [OF A searching_operands(1) [OF s] t] by (auto simp: findBlockingMove_def)
  show ?thesis
  proof (cases r)
    case (Some b)
    then have b: "b < length ?P" "source (?P ! b) = dest (last ?S)" using r(2) by (auto simp: isFirst_def)
    obtain cycles where step: "searchStep ty s = returnM (s\<lparr>searchPending := removeAt b ?P,
        searchStack := pushed (searchCycles s) (?P ! b) ?S, searchCycles := cycles\<rparr>)"
      using searchStep_push [OF ms s _ b(1)] r(1) Some go ty by auto
    have "moveType (pushed (searchCycles s) (?P ! b) ?S ! 0) = ty" using go ty by (cases ?S) (auto simp: pushed_def)
    moreover have "searching conv ms (removeAt b ?P) (pushed (searchCycles s) (?P ! b) ?S) (searchOrdered s)"
      using searching_push [OF ms s _ b] go by simp
    moreover have "length (removeAt b ?P) = length ?P - 1" "length (pushed (searchCycles s) (?P ! b) ?S) = Suc (length ?S)"
      using b(1) by (auto simp: removeAt_def pushed_def)
    ultimately show ?thesis
      using step go n b(1) by (auto simp: searchOk_def searchLeft_def)
  next
    case None
    then have free: "\<forall>m \<in> set ?P. source m \<noteq> dest (last ?S)"
      using r(2) by (auto simp: isFirst_def in_set_conv_nth)
    have split: "?S = butlast ?S @ [last ?S]" using go by simp
    have m: "orderedOk ?A [last ?S]"
    proof -
      have "core (last ?S) \<in> set ms" using top s by (auto simp: searching_def movesOk_def)
      then have "source (last ?S) \<noteq> dest (last ?S)" using ms by (auto simp: parallelOk_def dest: bspec)
      moreover have "moveFrom (last ?S) \<in> ?A" using searching_operands(2) [OF s] operandsOf_mem [OF top] by auto
      ultimately show ?thesis using t by simp
    qed
    have "searchOk conv ms v ty n (s\<lparr>searchStack := butlast ?S, searchOrdered := ordered, searchFailed := \<not> ok\<rparr>)
        \<and> searchLeft (s\<lparr>searchStack := butlast ?S, searchOrdered := ordered, searchFailed := \<not> ok\<rparr>) < searchLeft s"
      if "if ok then addsMove conv ?A (last ?S) (searchOrdered s) ordered else \<not> (\<forall>k. allocOk v k)" for ok ordered
    proof -
      have "searching conv ms ?P (butlast ?S) ordered" if "ok"
        using searching_pop [OF ms conv _ free, of "butlast ?S"] s split \<open>if ok then _ else _\<close> that by simp
      moreover have "moveType (butlast ?S ! 0) = ty" if "butlast ?S \<noteq> []"
        using ty that by (metis length_greater_0_conv nth_butlast)
      ultimately show ?thesis
        using that go n by (auto simp: searchOk_def searchLeft_def)
    qed
    then show ?thesis
      using r(1) None by (auto simp: searchStep_def intro!: runs_bindI runs_addOrderedMove [OF A conv searching_operands(3) [OF s] m])
  qed
qed

section \<open>The whole\<close>

lemma searching_start:
  assumes ms: "parallelOk ms" and s: "searching conv ms (left @ [m]) [] ordered"
  shows "searching conv ms left [m] ordered"
proof -
  have m: "core m = m" "m \<in> set ms" "source m \<noteq> dest m"
    using ms s by (auto simp: searching_def movesOk_def parallelOk_def)
  have "dest m \<notin> dests left" using s by (auto simp: searching_def movesOk_def dests_def)
  moreover have "source m \<notin> dests ms - dests (left @ [m])" using s by (simp add: searching_def movesOk_def)
  ultimately have "stackOk ms left [m]"
    using m core_plain [OF m(1)] by (auto simp: stackOk_def plain_def)
  moreover have "movesOk ms left [m]" using s m by (auto simp: searching_def movesOk_def)
  moreover have "midway conv ms left [m] = midway conv ms (left @ [m]) []"
    using \<open>source m \<notin> _\<close> by (auto simp: midway_def fun_eq_iff)
  ultimately show ?thesis using s by (simp add: searching_def)
qed

definition resolveOk :: "(MoveType \<Rightarrow> 'v \<Rightarrow> 'v) \<Rightarrow> MoveOp list \<Rightarrow> env \<Rightarrow> Resolver \<times> bool \<Rightarrow> bool" where
  "resolveOk conv ms v = (\<lambda>(r, failed).
     if failed then \<not> (\<forall>k. allocOk v k) else searching conv ms (pending r) [] (orderedMoves r))"

lemma runs_resolveStep:
  assumes ms: "parallelOk ms" and conv: "idempotent conv" and ok: "resolveOk conv ms v (r, failed)"
    and go: "\<not> failed \<and> pending r \<noteq> []"
  shows "runs (resolveStep (r, failed)) v E (\<lambda>(r', failed').
    resolveOk conv ms v (r', failed') \<and> (if failed' then 0 else Suc (length (pending r'))) < Suc (length (pending r)))"
proof -
  let ?pm = "last (pending r)" and ?left = "butlast (pending r)"
  let ?s = "\<lparr>searchPending = ?left, searchStack = [?pm], searchOrdered = orderedMoves r, searchCycles = curCycles r,
    searchFailed = False\<rparr>"
  have "searching conv ms (?left @ [?pm]) [] (orderedMoves r)" using ok go by (simp add: resolveOk_def)
  from searching_start [OF ms this]
  have start: "searchOk conv ms v (moveType ?pm) (length ?left) ?s" by (simp add: searchOk_def)
  have "length ?left < length (pending r)" using go by (cases "pending r") simp_all
  note less = this
  show ?thesis
    unfolding resolveStep_def prod.case Let_def
  proof (rule runs_bindI, rule runs_whileE [where P = "searchOk conv ms v (moveType ?pm) (length ?left)" and f = searchLeft])
    show "searchOk conv ms v (moveType ?pm) (length ?left) ?s" by (rule start)
    show "runs (searchStep (moveType ?pm) s) v E (\<lambda>s'. searchOk conv ms v (moveType ?pm) (length ?left) s' \<and> searchLeft s' < searchLeft s)"
      if "searchOk conv ms v (moveType ?pm) (length ?left) s" "\<not> searchFailed s \<and> searchStack s \<noteq> []" for s
      using runs_searchStep [OF ms conv that] .
  qed (use less in \<open>auto simp: searchOk_def resolveOk_def split: if_splits\<close>)
qed

lemma runs_resolve:
  assumes ms: "parallelOk ms" and conv: "idempotent conv" and r: "pending r = ms"
    and "\<And>ok r'. pending r' = [] \<Longrightarrow>
        (if ok then (\<forall>store. emit conv (orderedMoves r') (store, None) = returnM (parallelMoves conv ms store, None)) \<and>
           mset (map dest (orderedMoves r')) = mset (map dest ms) \<and> orderedOk (operandsOf ms) (orderedMoves r')
         else \<not> (\<forall>k. allocOk v k)) \<Longrightarrow> Q (ok, r')"
  shows "runs (resolve r) v E Q"
proof -
  have "midway conv ms ms [] store = (store, None)" for store
    using parallelMoves_other [of _ ms conv store] by (auto simp: midway_def fun_eq_iff)
  then have start: "resolveOk conv ms v ((resetState r)\<lparr>orderedMoves := []\<rparr>, False)"
    using ms r by (auto simp: resolveOk_def searching_def movesOk_def stackOk_def parallelOk_def resetState_def)
  show ?thesis
    unfolding resolve_def
  proof (rule runs_bindI,
      rule runs_whileE [where P = "resolveOk conv ms v" and f = "\<lambda>(r, failed). if failed then 0 else Suc (length (pending r))"])
    show "resolveOk conv ms v ((resetState r)\<lparr>orderedMoves := []\<rparr>, False)" by (rule start)
  next
    fix s assume s: "resolveOk conv ms v s" "case s of (r, failed) \<Rightarrow> \<not> failed \<and> pending r \<noteq> []"
    obtain r failed where sr: "s = (r, failed)" by (cases s)
    have "\<not> failed" "pending r \<noteq> []" "resolveOk conv ms v (r, failed)" using s sr by auto
    note step = runs_resolveStep [OF ms conv this(3) conjI [OF this(1,2)], of E]
    show "runs (resolveStep s) v E (\<lambda>s'. resolveOk conv ms v s' \<and>
        (case s' of (r, failed) \<Rightarrow> if failed then 0 else Suc (length (pending r))) <
        (case s of (r, failed) \<Rightarrow> if failed then 0 else Suc (length (pending r))))"
      by (rule runs_weakenQ [OF step [folded sr]]) (use \<open>\<not> failed\<close> sr in auto)
  next
    fix s assume s: "resolveOk conv ms v s" "\<not> (case s of (r, failed) \<Rightarrow> \<not> failed \<and> pending r \<noteq> [])"
    then show "runs (case s of (r, failed) \<Rightarrow> returnM (\<not> failed, r\<lparr>pending := []\<rparr>)) v E Q"
      by (auto simp: resolveOk_def searching_def midway_def simp del: not_all intro!: assms(4) split: if_splits)
  qed
qed

end
