(* ===== verification/MoveResolver_Sort.thy ===== *)
theory MoveResolver_Sort
  imports MoveResolver_Resolve "HOL-Library.Multiset"
begin

text \<open>
  \<open>MoveResolver::sortMemoryToMemoryMoves\<close>: the moves it shifts commute with what they pass, and each
  repetition at one index lowers the number of register writes that follow a write to memory.  Last, the
  properties of the resolver.
\<close>

section \<open>Shifting a move\<close>

lemma shift_up: "i \<le> j \<Longrightarrow> j < length ms \<Longrightarrow>
    length (fold (\<lambda>k ms. ms[k := ms ! (k + 1)]) [i..<j] ms) = length ms \<and>
    (\<forall>l < length ms. fold (\<lambda>k ms. ms[k := ms ! (k + 1)]) [i..<j] ms ! l = (if i \<le> l \<and> l < j then ms ! (l + 1) else ms ! l))"
proof (induction j)
  case 0
  then show ?case by simp
next
  case (Suc j)
  show ?case
  proof (cases "i \<le> j")
    case True
    then show ?thesis using Suc by (auto simp: nth_list_update)
  next
    case False
    then have "i = Suc j" using Suc.prems by simp
    then show ?thesis by auto
  qed
qed

lemma shift_down: "j \<le> i \<Longrightarrow> i < length ms \<Longrightarrow>
    length (fold (\<lambda>k ms. ms[k := ms ! (k - 1)]) (rev [Suc j..<Suc i]) ms) = length ms \<and>
    (\<forall>l < length ms. fold (\<lambda>k ms. ms[k := ms ! (k - 1)]) (rev [Suc j..<Suc i]) ms ! l = (if j < l \<and> l \<le> i then ms ! (l - 1) else ms ! l))"
proof (induction i arbitrary: ms)
  case 0
  then show ?case by simp
next
  case (Suc i)
  show ?case
  proof (cases "j = Suc i")
    case True
    then show ?thesis by auto
  next
    case False
    let ?ms = "ms[Suc i := ms ! i]" and ?F = "\<lambda>k ms. ms[k := ms ! (k - 1)]"
    let ?new = "fold ?F (rev [Suc j..<Suc i]) ?ms"
    have eq: "fold ?F (rev [Suc j..<Suc (Suc i)]) ms = ?new" using False Suc.prems by simp
    have "j \<le> i" "i < length ?ms" using False Suc.prems by simp_all
    then have IH: "length ?new = length ms"
      "\<And>l. l < length ms \<Longrightarrow> ?new ! l = (if j < l \<and> l \<le> i then ?ms ! (l - 1) else ?ms ! l)"
      using Suc.IH [of ?ms] by simp_all
    have "?new ! l = (if j < l \<and> l \<le> Suc i then ms ! (l - 1) else ms ! l)" if "l < length ms" for l
      using IH(2) [OF that] \<open>j \<le> i\<close> that by (cases "l = Suc i") auto
    then show ?thesis unfolding eq using IH(1) by blast
  qed
qed

lemma nth_moved_down:
  assumes "j < i" and "i < length ms" and "l < length ms"
  shows "(take j ms @ x # take (i - j) (drop j ms) @ drop (Suc i) ms) ! l =
    (if l < j then ms ! l else if l = j then x else if l \<le> i then ms ! (l - 1) else ms ! l)"
proof -
  consider "l < j" | "l = j" | "j < l" "l \<le> i" | "i < l" by linarith
  then show ?thesis
  proof cases
    case 3
    then obtain d where "l = Suc (j + d)" using less_imp_Suc_add by blast
    moreover from this have "d < i - j" using 3 by linarith
    ultimately show ?thesis using 3 assms by (simp add: nth_append)
  next
    case 4
    then obtain d where "l = Suc (i + d)" using less_imp_Suc_add by blast
    moreover have "\<not> i + d - j < i - j" "i + d - j - (i - j) = d" using assms by linarith+
    ultimately show ?thesis using 4 assms by (simp add: nth_append)
  qed (use assms in \<open>simp_all add: nth_append\<close>)
qed

lemma nth_moved_up:
  assumes "i < j" and "j < length ms" and "l < length ms"
  shows "(take i ms @ take (j - i) (drop (Suc i) ms) @ x # drop (Suc j) ms) ! l =
    (if l = j then x else if i \<le> l \<and> l < j then ms ! (l + 1) else ms ! l)"
proof -
  consider "l < i" | "i \<le> l" "l < j" | "l = j" | "j < l" by linarith
  then show ?thesis
  proof cases
    case 2
    then obtain d where "l = i + d" using le_Suc_ex by blast
    moreover from this have "d < j - i" using 2 by linarith
    ultimately show ?thesis using 2 assms by (simp add: nth_append)
  next
    case 4
    then obtain d where "l = Suc (j + d)" using less_imp_Suc_add by blast
    moreover have "\<not> Suc (j + d) - i < j - i" "Suc (j + d) - i - (j - i) = Suc d" using assms by linarith+
    ultimately show ?thesis using 4 assms by (simp add: nth_append)
  qed (use assms in \<open>simp_all add: nth_append\<close>)
qed

lemma reorderMove_down:
  assumes "j < i" and "i < length ms"
  shows "reorderMove i j ms = returnM (take j ms @ ms ! i # take (i - j) (drop j ms) @ drop (Suc i) ms)"
proof -
  let ?shifted = "fold (\<lambda>k ms. ms[k := ms ! (k - 1)]) (rev [Suc j..<Suc i]) ms"
  have s: "length ?shifted = length ms"
    "\<And>l. l < length ms \<Longrightarrow> ?shifted ! l = (if j < l \<and> l \<le> i then ms ! (l - 1) else ms ! l)"
    using shift_down [of j i ms] assms by auto
  have "?shifted[j := ms ! i] = take j ms @ ms ! i # take (i - j) (drop j ms) @ drop (Suc i) ms"
  proof (rule nth_equalityI)
    show "length (?shifted[j := ms ! i]) = length (take j ms @ ms ! i # take (i - j) (drop j ms) @ drop (Suc i) ms)"
      using assms s(1) by simp
    show "?shifted[j := ms ! i] ! l = (take j ms @ ms ! i # take (i - j) (drop j ms) @ drop (Suc i) ms) ! l"
      if "l < length (?shifted[j := ms ! i])" for l
      using that assms s(1) s(2) [of l] nth_moved_down [OF assms, of l] by (cases "l = j") simp_all
  qed
  then show ?thesis using assms by (simp add: reorderMove_def Let_def del: upt_Suc)
qed

lemma reorderMove_up:
  assumes "i < j" and "j < length ms"
  shows "reorderMove i j ms = returnM (take i ms @ take (j - i) (drop (Suc i) ms) @ ms ! i # drop (Suc j) ms)"
proof -
  let ?shifted = "fold (\<lambda>k ms. ms[k := ms ! (k + 1)]) [i..<j] ms"
  have s: "length ?shifted = length ms"
    "\<And>l. l < length ms \<Longrightarrow> ?shifted ! l = (if i \<le> l \<and> l < j then ms ! (l + 1) else ms ! l)"
    using shift_up [of i j ms] assms by auto
  have "?shifted[j := ms ! i] = take i ms @ take (j - i) (drop (Suc i) ms) @ ms ! i # drop (Suc j) ms"
  proof (rule nth_equalityI)
    show "length (?shifted[j := ms ! i]) = length (take i ms @ take (j - i) (drop (Suc i) ms) @ ms ! i # drop (Suc j) ms)"
      using assms s(1) by simp
    show "?shifted[j := ms ! i] ! l = (take i ms @ take (j - i) (drop (Suc i) ms) @ ms ! i # drop (Suc j) ms) ! l"
      if "l < length (?shifted[j := ms ! i])" for l
      using that assms s(1) s(2) [of l] nth_moved_up [OF assms, of l] by (cases "l = j") simp_all
  qed
  then show ?thesis using assms by (simp add: reorderMove_def Let_def)
qed

section \<open>The searches\<close>

definition passable :: "MoveOp \<Rightarrow> MoveOp \<Rightarrow> bool" where
  "passable base m \<longleftrightarrow> plain m \<and> \<not> touches m base"

lemma findEarlierClobber_eq:
  assumes A: "operandsOk A" and ms: "operandsOf ms \<subseteq> A" and base: "moveFrom base \<in> A" "moveTo base \<in> A" and "i \<le> length ms"
  shows "\<exists>r. findEarlierClobber ms base i = returnM r \<and>
    (\<forall>j. r = Some j \<longrightarrow> j < i \<and> (\<forall>l. j \<le> l \<longrightarrow> l < i \<longrightarrow> passable base (ms ! l)))"
  using assms(5)
proof (induction i)
  case 0
  show ?case by (rule exI [where x = None]) simp
next
  case (Suc i)
  have al: "moveAliases (ms ! i) base = returnM (touches (ms ! i) base)"
    using moveAliases_eq [OF A, of "ms ! i" base] operandsOf_nth [OF _ ms, of i] base Suc.prems by simp
  show ?case
  proof (cases "passable base (ms ! i)")
    case False
    then show ?thesis using al by (intro exI [where x = None]) (auto simp: passable_def plain_def)
  next
    case True
    show ?thesis
    proof (cases "isGeneralReg (moveTo (ms ! i))")
      case reg: True
      then show ?thesis
        using True al by (intro exI [where x = "Some i"]) (auto simp: passable_def plain_def less_Suc_eq)
    next
      case False
      obtain r where r: "findEarlierClobber ms base i = returnM r"
        "\<And>j. r = Some j \<Longrightarrow> j < i \<and> (\<forall>l. j \<le> l \<longrightarrow> l < i \<longrightarrow> passable base (ms ! l))"
        using Suc by auto
      then have "findEarlierClobber ms base (Suc i) = returnM r"
        using False True al by (simp add: passable_def plain_def)
      then show ?thesis using r(2) True by (intro exI [where x = r]) (auto simp: less_Suc_eq)
    qed
  qed
qed

lemma findLaterClobber_eq:
  assumes A: "operandsOk A" and "operandsOf ms \<subseteq> A" and "moveFrom base \<in> A" "moveTo base \<in> A"
  shows "\<exists>r. findLaterClobber ms base u i = returnM r \<and>
    (\<forall>j. r = Some j \<longrightarrow> i \<le> j \<and> j < length ms \<and> isGeneralReg (moveTo (ms ! j)) \<and>
      (\<forall>l. i \<le> l \<longrightarrow> l \<le> j \<longrightarrow> passable base (ms ! l)))"
  using assms(2-)
proof (induction ms base u i rule: findLaterClobber.induct)
  case (1 ms base u i)
  let ?found = "\<lambda>r. \<forall>j. r = Some j \<longrightarrow> i \<le> j \<and> j < length ms \<and> isGeneralReg (moveTo (ms ! j)) \<and>
      (\<forall>l. i \<le> l \<longrightarrow> l \<le> j \<longrightarrow> passable base (ms ! l))"
  show ?case
  proof (cases "i < length ms \<and> passable base (ms ! i)")
    case False
    have "moveAliases (ms ! i) base = returnM (touches (ms ! i) base)" if "i < length ms"
      using moveAliases_eq [OF A, of "ms ! i" base] operandsOf_nth [OF that 1(2)] 1(3,4) by simp
    then show ?thesis
      using False by (intro exI [where x = None]) (subst findLaterClobber.simps, auto simp: passable_def plain_def)
  next
    case True
    then have al: "moveAliases (ms ! i) base = returnM (touches (ms ! i) base)"
      using moveAliases_eq [OF A, of "ms ! i" base] operandsOf_nth [OF _ 1(2), of i] 1(3,4) by simp
    have go: "findLaterClobber ms base u i =
        (if isGeneralReg (moveTo (ms ! i)) then returnM (if u then Some i else None)
         else findLaterClobber ms base (u \<or> isGeneralReg (moveFrom (ms ! i))) (Suc i))"
      using True al by (subst findLaterClobber.simps) (auto simp: passable_def plain_def)
    show ?thesis
    proof (cases "isGeneralReg (moveTo (ms ! i))")
      case reg: True
      then have "?found (if u then Some i else None)" using True by (auto dest!: le_antisym)
      then show ?thesis using reg go by (intro exI [where x = "if u then Some i else None"]) simp
    next
      case False
      obtain r where r: "findLaterClobber ms base (u \<or> isGeneralReg (moveFrom (ms ! i))) (Suc i) = returnM r"
        "\<And>j. r = Some j \<Longrightarrow> Suc i \<le> j \<and> j < length ms \<and> isGeneralReg (moveTo (ms ! j)) \<and>
          (\<forall>l. Suc i \<le> l \<longrightarrow> l \<le> j \<longrightarrow> passable base (ms ! l))"
        using 1(1) [of "touches (ms ! i) base"] True False 1(2-4) by (auto simp: passable_def plain_def)
      have "?found r"
      proof (intro allI impI)
        fix j assume "r = Some j"
        with r(2) have j: "Suc i \<le> j" "j < length ms" "isGeneralReg (moveTo (ms ! j))"
          "\<And>l. Suc i \<le> l \<Longrightarrow> l \<le> j \<Longrightarrow> passable base (ms ! l)" by blast+
        moreover have "passable base (ms ! l)" if "i \<le> l" "l \<le> j" for l
          using j(4) that True by (cases "l = i") simp_all
        ultimately show "i \<le> j \<and> j < length ms \<and> isGeneralReg (moveTo (ms ! j)) \<and>
            (\<forall>l. i \<le> l \<longrightarrow> l \<le> j \<longrightarrow> passable base (ms ! l))" by simp
      qed
      then show ?thesis using r(1) go False by auto
    qed
  qed
qed

section \<open>Every repetition makes progress\<close>

definition regWrites :: "MoveOp list \<Rightarrow> nat" where
  "regWrites ms = length (filter (\<lambda>m. isGeneralReg (moveTo m)) ms)"

primrec inversions :: "MoveOp list \<Rightarrow> nat" where
  "inversions [] = 0"
| "inversions (m # ms) = (if isMemory (moveTo m) then regWrites ms else 0) + inversions ms"

lemma regWrites_simps [simp]:
  "regWrites [] = 0" "regWrites (m # ms) = (if isGeneralReg (moveTo m) then 1 else 0) + regWrites ms"
  "regWrites (ms @ ms') = regWrites ms + regWrites ms'"
  by (simp_all add: regWrites_def)

lemma inversions_insert:
  "\<not> isGeneralReg (moveTo b) \<Longrightarrow> inversions (xs @ b # ys) = inversions (xs @ ys) + (if isMemory (moveTo b) then regWrites ys else 0)"
  by (induction xs) auto

lemma inversions_le: "inversions ms \<le> length ms * length ms"
proof (induction ms)
  case Nil
  then show ?case by simp
next
  case (Cons m ms)
  moreover have "regWrites ms \<le> length ms" by (simp add: regWrites_def)
  ultimately show ?case by simp
qed

definition sortLeft :: "nat \<Rightarrow> nat \<times> MoveOp list \<Rightarrow> nat" where
  "sortLeft n = (\<lambda>(i, ms). (n - i) * Suc (n * n) + inversions (drop i ms))"

lemma sortLeft_next: "i < n \<Longrightarrow> length ms = n \<Longrightarrow> length ms' = n \<Longrightarrow> sortLeft n (Suc i, ms') < sortLeft n (i, ms)"
proof -
  assume i: "i < n" "length ms' = n"
  have "length (drop (Suc i) ms') * length (drop (Suc i) ms') \<le> n * n" using i by (intro mult_le_mono) simp_all
  then have "inversions (drop (Suc i) ms') < Suc (n * n)" using inversions_le [of "drop (Suc i) ms'"] by linarith
  moreover have "(n - i) * Suc (n * n) = Suc (n * n) + (n - Suc i) * Suc (n * n)"
    using i by (metis Suc_diff_Suc mult_Suc)
  ultimately show ?thesis unfolding sortLeft_def prod.case by linarith
qed

section \<open>Sorting\<close>

text \<open>A list with the same moves and the same effect.\<close>

definition sameEffect :: "(MoveType \<Rightarrow> 'v \<Rightarrow> 'v) \<Rightarrow> MoveOp list \<Rightarrow> MoveOp list \<Rightarrow> bool" where
  "sameEffect conv ms ms' \<longleftrightarrow> mset ms' = mset ms \<and> (\<forall>st. emit conv ms' st = emit conv ms st)"

lemma sameEffect_refl [simp]: "sameEffect conv ms ms"
  by (simp add: sameEffect_def)

lemma sameEffect_trans: "sameEffect conv ms ms' \<Longrightarrow> sameEffect conv ms' ms'' \<Longrightarrow> sameEffect conv ms ms''"
  by (simp add: sameEffect_def)

lemma sameEffect_length: "sameEffect conv ms ms' \<Longrightarrow> length ms' = length ms"
  by (metis sameEffect_def mset_eq_length)

lemma sameEffect_operands: "sameEffect conv ms ms' \<Longrightarrow> operandsOf ms' = operandsOf ms"
  unfolding sameEffect_def operandsOf_def by (metis mset_eq_setD)

lemma sameEffect_swap:
  assumes "\<forall>m \<in> set mid. passable base m"
  shows "sameEffect conv (pre @ mid @ base # suffix) (pre @ base # mid @ suffix)"
    and "sameEffect conv (pre @ base # mid @ suffix) (pre @ mid @ base # suffix)"
proof -
  have "emit conv (mid @ [base]) = emit conv (base # mid)"
    using assms emit_shift_others [of mid base conv] by (intro ext) (simp add: passable_def)
  then have "emit conv ((mid @ [base]) @ suffix) = emit conv ((base # mid) @ suffix)"
    by (intro ext) (simp only: emit_append)
  then have "emit conv (pre @ mid @ base # suffix) st = emit conv (pre @ base # mid @ suffix) st" for st
    by (simp add: emit_append [of conv pre])
  then show "sameEffect conv (pre @ mid @ base # suffix) (pre @ base # mid @ suffix)"
    "sameEffect conv (pre @ base # mid @ suffix) (pre @ mid @ base # suffix)"
    by (simp_all add: sameEffect_def)
qed

lemma split_down:
  assumes "j < i" and "i < length ms"
  shows "ms = take j ms @ take (i - j) (drop j ms) @ ms ! i # drop (Suc i) ms"
proof -
  have "drop j ms = take (i - j) (drop j ms) @ drop i ms"
    using assms by (metis append_take_drop_id drop_drop le_add_diff_inverse2 less_imp_le)
  then show ?thesis using assms by (metis Cons_nth_drop_Suc append_take_drop_id)
qed

lemma split_up:
  assumes "i < j" and "j < length ms"
  shows "ms = take i ms @ ms ! i # take (j - i) (drop (Suc i) ms) @ drop (Suc j) ms"
proof -
  have "drop (Suc i) ms = take (j - i) (drop (Suc i) ms) @ drop (Suc j) ms"
    using assms by (metis add_Suc_right append_take_drop_id drop_drop le_add_diff_inverse2 less_imp_le)
  then show ?thesis using assms by (metis Cons_nth_drop_Suc append_take_drop_id less_trans)
qed

lemma runs_sortStep:
  assumes A: "operandsOk (operandsOf ms)" and i: "i < length ms"
  shows "runs (sortStep (i, ms)) v E (\<lambda>(i', ms'). sameEffect conv ms ms' \<and> sortLeft (length ms) (i', ms') < sortLeft (length ms) (i, ms))"
proof -
  let ?base = "ms ! i" and ?n = "length ms"
  let ?done = "\<lambda>(i', ms'). sameEffect conv ms ms' \<and> sortLeft ?n (i', ms') < sortLeft ?n (i, ms)"
  have base: "moveFrom ?base \<in> operandsOf ms" "moveTo ?base \<in> operandsOf ms" using operandsOf_nth [OF i subset_refl] by simp_all
  have stay: "?done (Suc i, ms)" using sortLeft_next [OF i] by simp
  obtain e where e: "findEarlierClobber ms ?base i = returnM e"
    "\<And>j. e = Some j \<Longrightarrow> j < i \<and> (\<forall>l. j \<le> l \<longrightarrow> l < i \<longrightarrow> passable ?base (ms ! l))"
    using findEarlierClobber_eq [OF A subset_refl base, of i] i by auto
  obtain l where l: "findLaterClobber ms ?base False (i + 1) = returnM l"
    "\<And>j. l = Some j \<Longrightarrow> i + 1 \<le> j \<and> j < length ms \<and> isGeneralReg (moveTo (ms ! j)) \<and>
      (\<forall>k. i + 1 \<le> k \<longrightarrow> k \<le> j \<longrightarrow> passable ?base (ms ! k))"
    using findLaterClobber_eq [OF A subset_refl base, of False "i + 1"] by blast
  have down: "\<exists>ms'. reorderMove i j ms = returnM ms' \<and> ?done (Suc i, ms')" if "e = Some j" for j
  proof -
    have j: "j < i" "\<And>l. j \<le> l \<Longrightarrow> l < i \<Longrightarrow> passable ?base (ms ! l)" using e(2) [OF that] by auto
    let ?mid = "take (i - j) (drop j ms)" and ?ms = "take j ms @ ?base # take (i - j) (drop j ms) @ drop (Suc i) ms"
    have "\<forall>m \<in> set ?mid. passable ?base m" using j i by (auto simp: in_set_conv_nth)
    then have "sameEffect conv ms ?ms" using sameEffect_swap(1) split_down [OF j(1) i] by metis
    then show ?thesis
      using reorderMove_down [OF j(1) i] sortLeft_next [OF i, of ms ?ms] sameEffect_length [of conv ms ?ms] by auto
  qed
  have up: "\<exists>ms'. reorderMove i j ms = returnM ms' \<and> ?done (i, ms')" if "l = Some j" and mem: "isMemory (moveTo ?base)" for j
  proof -
    have j: "i < j" "j < length ms" "isGeneralReg (moveTo (ms ! j))" "\<And>k. i + 1 \<le> k \<Longrightarrow> k \<le> j \<Longrightarrow> passable ?base (ms ! k)"
      using l(2) [OF that(1)] by auto
    let ?mid = "take (j - i) (drop (Suc i) ms)" and ?rest = "drop (Suc j) ms"
    let ?ms = "take i ms @ ?mid @ ?base # ?rest"
    have split: "ms = take i ms @ ?base # ?mid @ ?rest" using split_up [OF j(1,2)] .
    have "\<forall>m \<in> set ?mid. passable ?base m" using j by (auto simp: in_set_conv_nth)
    then have same: "sameEffect conv ms ?ms" using sameEffect_swap(2) split by metis
    have "ms ! j \<in> set ?mid"
      using j by (auto simp: in_set_conv_nth intro!: exI [where x = "j - Suc i"])
    then have pos: "0 < regWrites ?mid" using j(3) by (auto simp: regWrites_def filter_empty_conv)
    have len: "length (take i ms) = i" using i by simp
    have before: "drop i ms = ?base # ?mid @ ?rest" using arg_cong [OF split, of "drop i"] len by simp
    have after: "drop i ?ms = ?mid @ ?base # ?rest" using len by simp
    have "\<not> isGeneralReg (moveTo ?base)" using mem by (simp add: isMemory_def isGeneralReg_def)
    then have "inversions (drop i ?ms) < inversions (drop i ms)"
      unfolding before after using mem pos by (simp add: inversions_insert)
    then have "sortLeft ?n (i, ?ms) < sortLeft ?n (i, ms)" by (simp add: sortLeft_def)
    then show ?thesis using reorderMove_up [OF j(1,2)] same by auto
  qed
  show ?thesis
  proof (cases "isMemory (moveFrom ?base) \<and> isMemory (moveTo ?base) \<and> (moveType ?base = GENERAL \<or> moveType ?base = INT32)")
    case False
    then show ?thesis using stay by (auto simp: sortStep_def Let_def)
  next
    case True
    show ?thesis
    proof (cases e)
      case (Some j)
      then show ?thesis using down [OF Some] True e(1) by (auto simp: sortStep_def Let_def)
    next
      case None
      show ?thesis
      proof (cases l)
        case (Some j)
        then show ?thesis using up [OF Some] True e(1) None l stay by (auto simp: sortStep_def Let_def)
      next
        case None
        then show ?thesis using True e(1) \<open>e = None\<close> l stay by (auto simp: sortStep_def Let_def)
      qed
    qed
  qed
qed

lemma runs_sort:
  assumes A: "operandsOk (operandsOf (orderedMoves r))"
    and "\<And>ms. sameEffect conv (orderedMoves r) ms \<Longrightarrow> Q (r\<lparr>orderedMoves := ms\<rparr>)"
  shows "runs (sortMemoryToMemoryMoves r) v E Q"
  unfolding sortMemoryToMemoryMoves_def
proof (rule runs_bindI, rule runs_whileE [where P = "\<lambda>(i, ms). sameEffect conv (orderedMoves r) ms" and f = "sortLeft (length (orderedMoves r))"])
  fix s assume s: "case s of (i, ms) \<Rightarrow> sameEffect conv (orderedMoves r) ms" "case s of (i, ms) \<Rightarrow> i < length ms"
  obtain i ms where im: "s = (i, ms)" by (cases s)
  have same: "sameEffect conv (orderedMoves r) ms" and i: "i < length ms" using s im by simp_all
  have n: "length ms = length (orderedMoves r)" using sameEffect_length [OF same] .
  have "operandsOk (operandsOf ms)" using A sameEffect_operands [OF same] by simp
  from runs_sortStep [OF this i, of v E conv]
  show "runs (sortStep s) v E (\<lambda>s'. (case s' of (i, ms) \<Rightarrow> sameEffect conv (orderedMoves r) ms) \<and>
      sortLeft (length (orderedMoves r)) s' < sortLeft (length (orderedMoves r)) s)"
    unfolding im n by (rule runs_weakenQ) (use same in \<open>auto intro: sameEffect_trans\<close>)
qed (use assms(2) in auto)

end
