(* ===== verification/MoveEmitter.thy ===== *)
theory MoveEmitter
  imports MoveResolver_Sort
begin

text \<open>
  \<open>MoveEmitterX86::emit\<close> (\<open>js/src/jit/x86-shared/MoveEmitter-x86-shared.cpp\<close>), which executes a short cycle of
  registers by exchanges, and the properties of resolver and emitter.
\<close>

section \<open>The emitter\<close>

text \<open>
  Whether the moves from \<open>i\<close> on are a cycle of registers of one kind, and how many exchanges it takes.
  A count of \<open>size_t(-1)\<close> is \<open>None\<close>; \<open>getMove\<close> asserts that its argument is in range.
\<close>

definition getMove :: "MoveOp list \<Rightarrow> nat \<Rightarrow> MoveOp eng" where
  "getMove moves i = mozAssert (i < length moves) (returnM (moves ! i))"

function characterizeFrom :: "MoveOp list \<Rightarrow> nat \<Rightarrow> nat \<Rightarrow> nat \<Rightarrow> bool \<Rightarrow> bool \<Rightarrow> (nat option \<times> bool \<times> bool) eng" where
  "characterizeFrom moves i j swapCount allGeneralRegs allFloatRegs =
     (if j < length moves
      then
        let move = moves ! j;
            allGeneralRegs = (allGeneralRegs \<and> isGeneralReg (moveTo move));
            allFloatRegs = (allFloatRegs \<and> isFloatReg (moveTo move)) in
        if \<not> allGeneralRegs \<and> \<not> allFloatRegs then returnM (None, False, False)
        else if j \<noteq> i \<and> isCycleEnd move
        then
          bindM (getMove moves (i + swapCount)) (\<lambda>move.
          bindM (getMove moves i) (\<lambda>first.
          if \<not> operandEq (moveFrom move) (moveTo first) then returnM (None, False, False)
          else returnM (Some swapCount, allGeneralRegs, allFloatRegs)))
        else
          bindM (getMove moves (j + 1)) (\<lambda>succ.
          if \<not> operandEq (moveFrom move) (moveTo succ) then returnM (None, False, False)
          else characterizeFrom moves i (j + 1) (swapCount + 1) allGeneralRegs allFloatRegs)
      else throwM AssertFail)"
  by pat_completeness auto
termination
  by (relation "measure (\<lambda>(moves, i, j, swapCount, g, f). length moves - j)") auto

declare characterizeFrom.simps [simp del]

definition characterizeCycle :: "MoveOp list \<Rightarrow> nat \<Rightarrow> (nat option \<times> bool \<times> bool) eng" where
  "characterizeCycle moves i = characterizeFrom moves i i 0 True True"

text \<open>
  \<open>xchg\<close>, and the three \<open>vxorpd\<close> on two different registers, exchange their contents; \<open>vxorpd\<close> of a register with
  itself clears it, where the model stops.
\<close>

definition exchange :: "MoveOp list \<Rightarrow> nat \<Rightarrow> 'v places \<Rightarrow> 'v places" where
  "exchange moves k store =
     (let a = placeOf (moveTo (moves ! k)); b = placeOf (moveTo (moves ! Suc k)) in
      store(a := store b, b := store a))"

definition maybeEmitOptimizedCycle ::
  "MoveOp list \<Rightarrow> nat \<Rightarrow> bool \<Rightarrow> bool \<Rightarrow> nat option \<Rightarrow> 'v places \<Rightarrow> 'v places option eng" where
  "maybeEmitOptimizedCycle moves i allGeneralRegs allFloatRegs swapCount store =
     (case swapCount of
        None \<Rightarrow> returnM None
      | Some swapCount \<Rightarrow>
          if allGeneralRegs \<and> swapCount \<le> 2
          then returnM (Some (fold (\<lambda>k. exchange moves (i + k)) [0..<swapCount] store))
          else if allFloatRegs \<and> swapCount = 1
          then mozAssert (placeOf (moveTo (moves ! i)) \<noteq> placeOf (moveTo (moves ! Suc i)))
                 (returnM (Some (exchange moves i store)))
          else returnM None)"

text \<open>\<open>inCycle_\<close> holds exactly while there is a saved value.\<close>

function emitFrom :: "(MoveType \<Rightarrow> 'v \<Rightarrow> 'v) \<Rightarrow> MoveOp list \<Rightarrow> nat \<Rightarrow> 'v places \<times> 'v option \<Rightarrow> ('v places \<times> 'v option) eng" where
  "emitFrom conv moves i st =
     (if i < length moves
      then
        let move = moves ! i in
        if isCycleEnd move \<or> \<not> isCycleBegin move then bindM (emitMove conv move st) (emitFrom conv moves (Suc i))
        else
          mozAssert (snd st = None) (
          bindM (characterizeCycle moves i) (\<lambda>(swapCount, allGeneralRegs, allFloatRegs).
          bindM (maybeEmitOptimizedCycle moves i allGeneralRegs allFloatRegs swapCount (fst st)) (\<lambda>optimized.
          case optimized of
            Some store \<Rightarrow> emitFrom conv moves (Suc (i + the swapCount)) (store, None)
          | None \<Rightarrow> bindM (emitMove conv move st) (emitFrom conv moves (Suc i)))))
      else returnM st)"
  by pat_completeness auto
termination
  by (relation "measure (\<lambda>(conv, moves, i, st). length moves - i)") auto

declare emitFrom.simps [simp del]

definition emitMoves :: "(MoveType \<Rightarrow> 'v \<Rightarrow> 'v) \<Rightarrow> Resolver \<Rightarrow> 'v places \<times> 'v option \<Rightarrow> ('v places \<times> 'v option) eng" where
  "emitMoves conv r = emitFrom conv (orderedMoves r) 0"

text \<open>\<open>CodeGenerator::visitMoveGroup\<close> (\<open>js/src/jit/CodeGenerator.cpp\<close>), whose operands are already in the form that the resolver
  uses.  \<open>sorting\<close> tells whether it was compiled for 32-bit x86 and has no scratch register to give, the one case in which
  it sorts; what is shown holds either way.\<close>

primrec addMoves :: "(MoveOperand \<times> MoveOperand \<times> MoveType) list \<Rightarrow> Resolver \<Rightarrow> (bool \<times> Resolver) eng" where
  "addMoves [] r = returnM (True, r)"
| "addMoves (m # ms) r =
     (let (src, dst, ty) = m in
      bindM (addMove src dst ty r) (\<lambda>(ok, r).
      bindM (addMoves ms r) (\<lambda>(ok', r). returnM (ok \<and> ok', r))))"

definition visitMoveGroup ::
  "(MoveType \<Rightarrow> 'v \<Rightarrow> 'v) \<Rightarrow> bool \<Rightarrow> (MoveOperand \<times> MoveOperand \<times> MoveType) list \<Rightarrow> Resolver \<Rightarrow> 'v places \<Rightarrow> ('v places option \<times> Resolver) eng" where
  "visitMoveGroup conv sorting moves r store =
     (if moves = [] then returnM (Some store, r)
      else
        bindM (addMoves moves r) (\<lambda>(added, r).
        bindM (resolve r) (\<lambda>(resolved, r).
        if \<not> added \<or> \<not> resolved then returnM (None, r)
        else
          bindM (if sorting then sortMemoryToMemoryMoves r else returnM r) (\<lambda>r.
          bindM (emitMoves conv r (store, None)) (\<lambda>(store, saved).
          mozAssert (saved = None) (returnM (Some store, r)))))))"

section \<open>Exchanges\<close>

text \<open>Moves that transfer a place as a whole: an exchange of registers is not typed.\<close>

abbreviation whole :: "MoveType \<Rightarrow> 'v \<Rightarrow> 'v" where
  "whole \<equiv> (\<lambda>ty v. v)"

lemma idempotent_whole [simp]: "idempotent whole"
  by (simp add: idempotent_def)

lemma returnM_inj [simp]: "returnM x = returnM y \<longleftrightarrow> x = y"
  by (auto simp: returnM_def dest: fun_cong)

lemma returnM_not_throwM [simp]: "throwM e \<noteq> returnM x" "returnM x \<noteq> throwM e"
  by (auto simp: returnM_def throwM_def fun_eq_iff)

text \<open>A cycle that was begun is ended, by the first move that is annotated.\<close>

lemma cycle_ends:
  "emit conv ms (store, Some x) = returnM (store', None) \<Longrightarrow>
    \<exists>n < length ms. isCycleEnd (ms ! n) \<and> (\<forall>k < n. plain (ms ! k))"
proof (induction ms arbitrary: store)
  case Nil
  then show ?case by simp
next
  case (Cons m ms)
  consider "isCycleEnd m" | "\<not> isCycleEnd m" "isCycleBegin m" | "plain m" by (auto simp: plain_def)
  then show ?case
  proof cases
    case 1
    then show ?thesis by (intro exI [where x = 0]) simp
  next
    case 2
    then show ?thesis using Cons.prems by (simp add: emitMove_begin)
  next
    case 3
    then have "emit conv ms (store(dest m := conv (moveType m) (store (source m))), Some x) = returnM (store', None)"
      using Cons.prems by (simp add: emitMove_plain)
    from Cons.IH [OF this] obtain n where "n < length ms" "isCycleEnd (ms ! n)" "\<forall>k < n. plain (ms ! k)" by blast
    then show ?thesis using 3 by (intro exI [where x = "Suc n"]) (auto simp: less_Suc_eq_0_disj)
  qed
qed

text \<open>The moves of a cycle: \<open>n\<close> of them follow the first, and each one reads what the next one writes.\<close>

definition cycleAt :: "MoveOp list \<Rightarrow> nat \<Rightarrow> nat \<Rightarrow> bool" where
  "cycleAt moves i n \<longleftrightarrow>
     0 < n \<and> i + n < length moves \<and> isCycleBegin (moves ! i) \<and> \<not> isCycleEnd (moves ! i) \<and> isCycleEnd (moves ! (i + n)) \<and>
     (\<forall>k. 0 < k \<longrightarrow> k < n \<longrightarrow> plain (moves ! (i + k)))"

lemma characterizeFrom_eq:
  assumes "cycleAt moves i n" and "j = i + swapCount" and "swapCount \<le> n"
  shows "\<exists>found g f. characterizeFrom moves i j swapCount allGeneralRegs allFloatRegs = returnM (found, g, f) \<and>
    (found \<noteq> None \<longrightarrow> found = Some n \<and>
      (\<forall>k. swapCount \<le> k \<longrightarrow> k < n \<longrightarrow> source (moves ! (i + k)) = dest (moves ! Suc (i + k))))"
  using assms
proof (induction moves i j swapCount allGeneralRegs allFloatRegs rule: characterizeFrom.induct)
  case (1 moves i j swapCount g f)
  let ?move = "moves ! j"
  let ?g = "g \<and> isGeneralReg (moveTo ?move)" and ?f = "f \<and> isFloatReg (moveTo ?move)"
  have j: "j < length moves" "i < length moves" using 1(2-4) by (auto simp: cycleAt_def)
  consider "\<not> ?g \<and> \<not> ?f" | "?g \<or> ?f" "swapCount = n" | "?g \<or> ?f" "swapCount < n" using 1(4) by linarith
  then show ?case
  proof cases
    case 1
    then show ?thesis using j by (subst characterizeFrom.simps) (auto simp: Let_def)
  next
    case 2
    then have "isCycleEnd ?move" "j \<noteq> i" using 1(2,3) by (auto simp: cycleAt_def)
    then show ?thesis
      using 2 j 1(3) by (subst characterizeFrom.simps) (auto simp: Let_def getMove_def)
  next
    case 3
    then have e: "\<not> (j \<noteq> i \<and> isCycleEnd ?move)" using 1(2,3) by (auto simp: cycleAt_def plain_def)
    have succ: "j + 1 < length moves" using 1(2,3) 3 by (auto simp: cycleAt_def)
    have go: "characterizeFrom moves i j swapCount g f =
        (if \<not> operandEq (moveFrom ?move) (moveTo (moves ! (j + 1))) then returnM (None, False, False)
         else characterizeFrom moves i (j + 1) (swapCount + 1) ?g ?f)"
      using 3 e j succ by (subst characterizeFrom.simps) (auto simp: Let_def getMove_def)
    show ?thesis
    proof (cases "operandEq (moveFrom ?move) (moveTo (moves ! (j + 1)))")
      case False
      then show ?thesis using go by (auto intro!: exI [where x = None])
    next
      case True
      obtain found g' f' where r: "characterizeFrom moves i (j + 1) (swapCount + 1) ?g ?f = returnM (found, g', f')"
        "found \<noteq> None \<Longrightarrow> found = Some n \<and>
          (\<forall>k. swapCount + 1 \<le> k \<longrightarrow> k < n \<longrightarrow> source (moves ! (i + k)) = dest (moves ! Suc (i + k)))"
      proof -
        have "\<not> (\<not> ?g \<and> \<not> ?f)" "\<not> \<not> operandEq (moveFrom ?move) (moveTo (moves ! (j + 1)))" using 3 True by auto
        from "1.IH" [OF j(1) refl refl refl this(1) e this(2)] 1(2-4) 3 that show thesis by auto
      qed
      have "source (moves ! (i + k)) = dest (moves ! Suc (i + k))" if "found \<noteq> None" "swapCount \<le> k" "k < n" for k
        using r(2) [OF that(1)] that operandEq_place [OF True] 1(3) by (cases "k = swapCount") auto
      then show ?thesis using go True r by auto
    qed
  qed
qed

text \<open>After \<open>k\<close> exchanges the next place holds what the emitter has saved.\<close>

lemma exchanges:
  assumes c: "cycleAt moves i n" and ne: "\<forall>m \<in> set moves. source m \<noteq> dest m" and "k \<le> n"
    and chain: "\<forall>k < n. source (moves ! (i + k)) = dest (moves ! Suc (i + k))"
  shows "\<exists>s. emit whole (take k (drop i moves)) (store, None) =
      returnM (s, if k = 0 then None else Some (store (dest (moves ! i)))) \<and>
    fold (\<lambda>k. exchange moves (i + k)) [0..<k] store = s(dest (moves ! (i + k)) := store (dest (moves ! i)))"
  using assms(3)
proof (induction k)
  case 0
  show ?case by (intro exI [where x = store]) simp
next
  case (Suc k)
  let ?m = "moves ! (i + k)" and ?x = "store (dest (moves ! i))"
  from Suc.IH [OF Suc_leD [OF Suc.prems]]
  obtain s where s: "emit whole (take k (drop i moves)) (store, None) = returnM (s, if k = 0 then None else Some ?x)"
    "fold (\<lambda>k. exchange moves (i + k)) [0..<k] store = s(dest ?m := ?x)"
    by blast
  have k: "k < n" "i + k < length moves" using Suc.prems c by (auto simp: cycleAt_def)
  have next_ne: "dest (moves ! Suc (i + k)) \<noteq> dest ?m" using ne chain k by (metis nth_mem)
  have take: "take (Suc k) (drop i moves) = take k (drop i moves) @ [?m]"
    using k by (simp add: take_Suc_conv_app_nth)
  have move: "emitMove whole ?m (s, if k = 0 then None else Some ?x) = returnM (s(dest ?m := s (source ?m)), Some ?x)"
  proof (cases "k = 0")
    case True
    then have "s = store" using s(1) by simp
    then show ?thesis using c True by (simp add: cycleAt_def emitMove_begin)
  next
    case False
    then show ?thesis using c k(1) by (simp add: cycleAt_def emitMove_plain)
  qed
  have "fold (\<lambda>k. exchange moves (i + k)) [0..<Suc k] store = exchange moves (i + k) (s(dest ?m := ?x))"
    using s(2) by simp
  also have "\<dots> = (s(dest ?m := s (source ?m)))(dest (moves ! (i + Suc k)) := ?x)"
    using next_ne chain k by (auto simp: exchange_def Let_def fun_eq_iff)
  finally show ?case
    using move s(1) by (auto simp: take emit_append)
qed

lemma exchanged_cycle:
  assumes c: "cycleAt moves i n" and ne: "\<forall>m \<in> set moves. source m \<noteq> dest m"
    and chain: "\<forall>k < n. source (moves ! (i + k)) = dest (moves ! Suc (i + k))"
  shows "emit whole (drop i moves) (store, None) =
    emit whole (drop (Suc (i + n)) moves) (fold (\<lambda>k. exchange moves (i + k)) [0..<n] store, None)"
proof -
  let ?e = "moves ! (i + n)"
  have n: "0 < n" "i + n < length moves" "isCycleEnd ?e" using c by (auto simp: cycleAt_def)
  have "drop i moves = take n (drop i moves) @ drop (i + n) moves" by (metis append_take_drop_id drop_drop add.commute)
  also have "drop (i + n) moves = ?e # drop (Suc (i + n)) moves" using n(2) by (simp add: Cons_nth_drop_Suc)
  finally have split: "drop i moves = take n (drop i moves) @ ?e # drop (Suc (i + n)) moves" .
  obtain s where s: "emit whole (take n (drop i moves)) (store, None) = returnM (s, Some (store (dest (moves ! i))))"
    "fold (\<lambda>k. exchange moves (i + k)) [0..<n] store = s(dest ?e := store (dest (moves ! i)))"
    using exchanges [OF c ne order_refl chain, of store] n(1) by auto
  show ?thesis
    by (subst split) (simp add: emit_append s emitMove_end n(3))
qed

section \<open>The emitter is the reference\<close>

lemma emitMove_cases: "(\<exists>st'. emitMove conv m st = returnM st') \<or> emitMove conv m st = throwM AssertFail"
  by (cases st; cases "snd st") (auto simp: emitMove_def mozAssert_def)

lemma emit_Cons_returns:
  assumes "emit conv (m # ms) st = returnM st'"
  obtains st1 where "emitMove conv m st = returnM st1" and "emit conv ms st1 = returnM st'"
  using assms emitMove_cases [of conv m st] by auto

lemma characterizeCycle_eq:
  assumes c: "cycleAt moves i n" and ne: "\<forall>m \<in> set moves. source m \<noteq> dest m"
  shows "\<exists>found g f. characterizeCycle moves i = returnM (found, g, f) \<and>
    (\<exists>res. maybeEmitOptimizedCycle moves i g f found store = returnM res \<and>
      (\<forall>store'. res = Some store' \<longrightarrow> found = Some n \<and> (\<forall>k < n. source (moves ! (i + k)) = dest (moves ! Suc (i + k))) \<and>
        store' = fold (\<lambda>k. exchange moves (i + k)) [0..<n] store))"
proof -
  obtain found g f where r: "characterizeCycle moves i = returnM (found, g, f)"
    "found \<noteq> None \<Longrightarrow> found = Some n \<and> (\<forall>k < n. source (moves ! (i + k)) = dest (moves ! Suc (i + k)))"
    using characterizeFrom_eq [OF c, of i 0 True True] by (auto simp: characterizeCycle_def)
  have "\<exists>res. maybeEmitOptimizedCycle moves i g f found store = returnM res \<and>
      (\<forall>store'. res = Some store' \<longrightarrow> found = Some n \<and> (\<forall>k < n. source (moves ! (i + k)) = dest (moves ! Suc (i + k))) \<and>
        store' = fold (\<lambda>k. exchange moves (i + k)) [0..<n] store)"
  proof (cases found)
    case None
    then show ?thesis by (simp add: maybeEmitOptimizedCycle_def)
  next
    case (Some m)
    then have n: "found = Some n" "\<forall>k < n. source (moves ! (i + k)) = dest (moves ! Suc (i + k))" using r(2) by auto
    have "dest (moves ! i) \<noteq> dest (moves ! Suc i)"
      using n(2) c ne by (metis add.right_neutral add_lessD1 cycleAt_def nth_mem)
    then show ?thesis using n by (auto simp: maybeEmitOptimizedCycle_def)
  qed
  then show ?thesis using r(1) by blast
qed

lemma emitFrom_eq:
  assumes "emit whole (drop i moves) st = returnM (store', None)" and ne: "\<forall>m \<in> set moves. source m \<noteq> dest m"
  shows "emitFrom whole moves i st = returnM (store', None)"
  using assms(1)
proof (induction "length moves - i" arbitrary: i st rule: less_induct)
  case less
  let ?m = "moves ! i"
  show ?case
  proof (cases "i < length moves")
    case False
    then show ?thesis using less.prems by (subst emitFrom.simps) simp
  next
    case True
    have "drop i moves = ?m # drop (Suc i) moves" using True by (simp add: Cons_nth_drop_Suc)
    then obtain st1 where st1: "emitMove whole ?m st = returnM st1" "emit whole (drop (Suc i) moves) st1 = returnM (store', None)"
      using less.prems emit_Cons_returns by metis
    have rest: "emitFrom whole moves (Suc i) st1 = returnM (store', None)" using less.hyps [OF _ st1(2)] True by simp
    show ?thesis
    proof (cases "isCycleEnd ?m \<or> \<not> isCycleBegin ?m")
      case True
      then show ?thesis using \<open>i < length moves\<close> st1(1) rest by (subst emitFrom.simps) (simp add: Let_def)
    next
      case False
      obtain store where st: "st = (store, None)" "snd st1 = Some (store (dest ?m))"
        using st1(1) False by (cases st; cases "snd st") (auto simp: emitMove_begin)
      obtain n where n: "n < length (drop (Suc i) moves)" "isCycleEnd (drop (Suc i) moves ! n)" "\<forall>k < n. plain (drop (Suc i) moves ! k)"
        using cycle_ends [of whole "drop (Suc i) moves" "fst st1" "store (dest ?m)"] st1(2) st(2) by (metis prod.collapse)
      have "plain (moves ! (i + k))" if "0 < k" "k < Suc n" for k
        using n(1) n(3) [rule_format, of "k - 1"] that by (cases k) auto
      then have c: "cycleAt moves i (Suc n)" using n False by (auto simp: cycleAt_def)
      obtain found g f res where r: "characterizeCycle moves i = returnM (found, g, f)"
        "maybeEmitOptimizedCycle moves i g f found store = returnM res"
        "\<And>s. res = Some s \<Longrightarrow> found = Some (Suc n) \<and> (\<forall>k < Suc n. source (moves ! (i + k)) = dest (moves ! Suc (i + k))) \<and>
          s = fold (\<lambda>k. exchange moves (i + k)) [0..<Suc n] store"
        using characterizeCycle_eq [OF c ne, of store] by auto
      show ?thesis
      proof (cases res)
        case None
        then show ?thesis
          using \<open>i < length moves\<close> False st(1) st1(1) rest r(1,2) by (subst emitFrom.simps) (simp add: Let_def)
      next
        case (Some s)
        note r3 = r(3) [OF Some]
        have "emit whole (drop (Suc (i + Suc n)) moves) (s, None) = returnM (store', None)"
          using exchanged_cycle [OF c ne, of store] r3 less.prems st(1) by simp
        then have "emitFrom whole moves (Suc (i + Suc n)) (s, None) = returnM (store', None)"
          using True by (intro less.hyps) simp_all
        then show ?thesis
          using \<open>i < length moves\<close> False st(1) r(1,2) Some r3 by (subst emitFrom.simps) (simp add: Let_def)
      qed
    qed
  qed
qed

section \<open>Move groups\<close>

definition asMove :: "MoveOperand \<times> MoveOperand \<times> MoveType \<Rightarrow> MoveOp" where
  "asMove m = (case m of (src, dst, ty) \<Rightarrow> newMove src dst ty)"

lemma core_asMove [simp]: "core (asMove m) = asMove m"
  by (simp add: asMove_def core_def split: prod.split)

lemma parallelOk_without: "parallelOk (xs @ m # ys) \<Longrightarrow> parallelOk (xs @ ys)"
  by (auto simp: parallelOk_def operandsOk_def)

lemma runs_addMoves:
  assumes "parallelOk (pending r @ map asMove moves)"
    and "\<And>ok r'. parallelOk (pending r') \<Longrightarrow> (if ok then pending r' = pending r @ map asMove moves else \<not> (\<forall>k. allocOk v k)) \<Longrightarrow> Q (ok, r')"
  shows "runs (addMoves moves r) v E Q"
  using assms
proof (induction moves arbitrary: r Q)
  case Nil
  then show ?case by simp
next
  case (Cons m moves)
  obtain src dst ty where m: "m = (src, dst, ty)" by (cases m)
  let ?new = "r\<lparr>pending := pending r @ [newMove src dst ty]\<rparr>"
  have "source (asMove m) \<noteq> dest (asMove m)" using Cons.prems(1) by (auto simp: parallelOk_def)
  then have ne: "\<not> operandEq src dst" using operandEq_place by (auto simp: m asMove_def)
  have added: "runs (bindM (addMoves moves ?new) (\<lambda>(ok', r). returnM (ok', r))) v E Q"
    using Cons.prems by (intro runs_bindI Cons.IH) (auto simp: m asMove_def)
  have lost: "runs (bindM (addMoves moves r) (\<lambda>(ok', r). returnM (False, r))) v E Q" if "\<not> (\<forall>k. allocOk v k)"
    using parallelOk_without [of "pending r" "asMove m" "map asMove moves"] Cons.prems that
    by (intro runs_bindI Cons.IH) (auto simp del: not_all)
  have "runs (bindM (if ok then returnM (True, ?new) else returnM (False, r)) (\<lambda>(ok, r).
      bindM (addMoves moves r) (\<lambda>(ok', r). returnM (ok \<and> ok', r)))) v E Q" if "ok \<or> \<not> (\<forall>k. allocOk v k)" for ok
    using added lost that by (cases ok) (simp_all del: not_all)
  note step = this
  have eq: "addMoves (m # moves) r =
      bindM tryAlloc (\<lambda>ok. bindM (if ok then returnM (True, ?new) else returnM (False, r)) (\<lambda>(ok, r).
        bindM (addMoves moves r) (\<lambda>(ok', r). returnM (ok \<and> ok', r))))"
    using ne by (simp add: m addMove_def bindM_assoc)
  show ?case unfolding eq by (rule runs_bindI, rule runs_tryAlloc, rule step)
qed

text \<open>
  C2. The parallel-move resolver is correct.  For moves with different destinations, none of them trivial, and
  addresses that are based on no moved register, \<open>resolve\<close> terminates, fails no assertion, empties the pending list and
  fails only when an allocation fails; executing the ordered moves one by one, with one saved value per cycle,
  gives every destination the original value of its source and changes nothing else, whatever the
  values that each type of move transfers.
\<close>

theorem resolve_parallel:
  assumes "parallelOk (pending r)" and "idempotent conv"
  shows "runs (resolve r) v (\<lambda>e. False) (\<lambda>(ok, r').
    pending r' = [] \<and>
    (if ok
     then (\<forall>store. emit conv (orderedMoves r') (store, None) = returnM (parallelMoves conv (pending r) store, None)) \<and>
       mset (map dest (orderedMoves r')) = mset (map dest (pending r))
     else \<exists>k. \<not> allocOk v k))"
  by (rule runs_resolve [OF assms refl]) (auto split: if_splits)

text \<open>
  C35. \<open>sortMemoryToMemoryMoves\<close> terminates, although it stays at an index after it has moved a move away from
  it, and only reorders: executing the sorted moves from any state ends as executing the moves as they were.
\<close>

theorem sort_preserves:
  assumes "operandsOk (operandsOf (orderedMoves r))"
  shows "runs (sortMemoryToMemoryMoves r) v (\<lambda>e. False) (\<lambda>r'.
    mset (orderedMoves r') = mset (orderedMoves r) \<and> pending r' = pending r \<and>
    (\<forall>st. emit conv (orderedMoves r') st = emit conv (orderedMoves r) st))"
  by (rule runs_sort [OF assms, where conv = conv]) (simp add: sameEffect_def)

text \<open>
  C6. A move group is executed as it is meant: adding its moves, resolving, sorting where the target needs it, and
  emitting, with short cycles of registers done by exchanges, performs all moves at once on whole places; the
  exchanges need no check for overlap because the resolver's cycles never repeat a register in a row.
  The emitter leaves no cycle open, and the group is given up only when an allocation fails.
\<close>

theorem visit_move_group:
  fixes store :: "'v places"
  assumes "parallelOk (map asMove moves)" and "pending r = []"
  shows "runs (visitMoveGroup whole sorting moves r store) v (\<lambda>e. False) (\<lambda>(res, r').
    pending r' = [] \<and>
    (case res of
       Some store' \<Rightarrow> store' = parallelMoves whole (map asMove moves) store
     | None \<Rightarrow> \<exists>k. \<not> allocOk v k))"
proof (cases "moves = []")
  case True
  then show ?thesis using assms by (simp add: visitMoveGroup_def parallelMoves_other fun_eq_iff)
next
  case False
  let ?ms = "map asMove moves"
  let ?Q = "\<lambda>(res, r'). pending r' = [] \<and> (case res of
       Some store' \<Rightarrow> store' = parallelMoves whole ?ms store | None \<Rightarrow> \<exists>k. \<not> allocOk v k)"
  have emitted: "runs (bindM (if sorting then sortMemoryToMemoryMoves r else returnM r) (\<lambda>r.
      bindM (emitMoves whole r (store, None)) (\<lambda>(store, saved).
      mozAssert (saved = None) (returnM (Some store, r))))) v (\<lambda>e. False) ?Q"
    if r: "pending r = []" "orderedOk (operandsOf ?ms) (orderedMoves r)"
      "emit whole (orderedMoves r) (store, None) = returnM (parallelMoves whole ?ms store, None)" for r
  proof -
    have go: "bindM (emitMoves whole (r\<lparr>orderedMoves := ms\<rparr>) (store, None)) (\<lambda>(store, saved).
        mozAssert (saved = None) (returnM (Some store, r\<lparr>orderedMoves := ms\<rparr>))) =
        returnM (Some (parallelMoves whole ?ms store), r\<lparr>orderedMoves := ms\<rparr>)"
      if "sameEffect (whole :: MoveType \<Rightarrow> 'v \<Rightarrow> 'v) (orderedMoves r) ms" for ms
    proof -
      have "set ms = set (orderedMoves r)" using that unfolding sameEffect_def by (metis mset_eq_setD)
      then have "\<forall>m \<in> set ms. source m \<noteq> dest m" using r(2) by (simp add: orderedOk_def)
      then have "emitFrom whole ms 0 (store, None) = returnM (parallelMoves whole ?ms store, None)"
        using r(3) that by (intro emitFrom_eq) (simp_all add: sameEffect_def)
      then show ?thesis by (simp add: emitMoves_def)
    qed
    have "operandsOk (operandsOf ?ms)" using assms(1) by (simp add: parallelOk_def)
    then have A: "operandsOk (operandsOf (orderedMoves r))"
      using r(2) by (auto simp: operandsOk_def orderedOk_def)
    show ?thesis
    proof (cases sorting)
      case True
      show ?thesis
        unfolding if_P [OF True] by (rule runs_bindI, rule runs_sort [OF A, where conv = whole], subst go) (simp_all add: r(1))
    next
      case False
      then show ?thesis using go [OF sameEffect_refl] r(1) by simp
    qed
  qed
  have resolved: "runs (bindM (resolve r') (\<lambda>(resolved, r). if \<not> added \<or> \<not> resolved then returnM (None, r)
      else bindM (if sorting then sortMemoryToMemoryMoves r else returnM r) (\<lambda>r.
        bindM (emitMoves whole r (store, None)) (\<lambda>(store, saved).
        mozAssert (saved = None) (returnM (Some store, r)))))) v (\<lambda>e. False) ?Q"
    if "parallelOk (pending r')" "if added then pending r' = ?ms else \<not> (\<forall>k. allocOk v k)" for added r'
  proof (rule runs_bindI, rule runs_resolve [OF that(1) idempotent_whole refl])
    fix ok and r'' :: Resolver
    assume p: "pending r'' = []"
      and o: "if ok then (\<forall>store :: 'v places. emit whole (orderedMoves r'') (store, None) = returnM (parallelMoves whole (pending r') store, None)) \<and>
        mset (map dest (orderedMoves r'')) = mset (map dest (pending r')) \<and> orderedOk (operandsOf (pending r')) (orderedMoves r'')
        else \<not> (\<forall>k. allocOk v k)"
    show "runs (case (ok, r'') of (resolved, r) \<Rightarrow> if \<not> added \<or> \<not> resolved then returnM (None, r)
        else bindM (if sorting then sortMemoryToMemoryMoves r else returnM r) (\<lambda>r.
          bindM (emitMoves whole r (store, None)) (\<lambda>(store, saved).
          mozAssert (saved = None) (returnM (Some store, r))))) v (\<lambda>e. False) ?Q"
    proof (cases "added \<and> ok")
      case True
      then have "orderedOk (operandsOf ?ms) (orderedMoves r'')"
        "emit whole (orderedMoves r'') (store, None) = returnM (parallelMoves whole ?ms store, None)"
        using o that(2) by simp_all
      from emitted [OF p this] show ?thesis using True unfolding prod.case by (subst if_not_P) simp_all
    next
      case False
      then show ?thesis using p o that(2) by (auto split: if_splits)
    qed
  qed
  show ?thesis
    unfolding visitMoveGroup_def if_not_P [OF False]
  proof (rule runs_bindI, rule runs_addMoves, goal_cases)
    case 1
    then show ?case using assms by simp
  next
    case (2 ok r')
    then show ?case unfolding prod.case by (intro resolved) (simp_all add: assms(2))
  qed
qed

section \<open>A small group\<close>

text \<open>Two registers change places, and one stack slot is copied to a register and to another slot.\<close>

definition smallGroup :: "(MoveOperand \<times> MoveOperand \<times> MoveType) list" where
  "smallGroup =
     (let slot = (\<lambda>d. \<lparr>kind = MEMORY, code = 4, disp = d\<rparr>) in
      [(regOperand 0, regOperand 1, GENERAL), (regOperand 1, regOperand 0, GENERAL),
       (slot 8, slot 16, GENERAL), (slot 8, regOperand 2, GENERAL)])"

definition smallEnv :: env where
  "smallEnv = \<lparr>allocOk = (\<lambda>k. True), junk = (\<lambda>k i. 0)\<rparr>"

lemma parallelOk_small: "parallelOk (map asMove smallGroup)"
  by (simp add: parallelOk_def operandsOk_def smallGroup_def asMove_def regOperand_def placeOf_def Let_def
      isMemoryOrEffectiveAddress_def isGeneralReg_def core_def)

lemma pending_small: "pending (newResolver\<lparr>pending := map asMove smallGroup\<rparr>) = map asMove smallGroup"
  by simp

lemma resolve_parallel_witness:
  "runs (resolve (newResolver\<lparr>pending := map asMove smallGroup\<rparr>)) smallEnv (\<lambda>e. False) (\<lambda>(ok, r').
     ok \<and> pending r' = [] \<and> length (orderedMoves r') = 4)"
proof (rule runs_weakenQ)
  show "runs (resolve (newResolver\<lparr>pending := map asMove smallGroup\<rparr>)) smallEnv (\<lambda>e. False) (\<lambda>(ok, r').
    pending r' = [] \<and>
    (if ok
     then (\<forall>store. emit (\<lambda>ty v. v :: nat) (orderedMoves r') (store, None) =
         returnM (parallelMoves (\<lambda>ty v. v) (map asMove smallGroup) store, None)) \<and>
       mset (map dest (orderedMoves r')) = mset (map dest (map asMove smallGroup))
     else \<exists>k. \<not> allocOk smallEnv k))"
    by (rule resolve_parallel [of "newResolver\<lparr>pending := map asMove smallGroup\<rparr>", unfolded pending_small])
      (simp_all add: parallelOk_small)
next
  fix res
  have "length ms = 4" if "mset (map dest ms) = mset (map dest (map asMove smallGroup))" for ms
    using mset_eq_length [OF that] by (simp add: smallGroup_def Let_def)
  moreover assume "case res of (ok, r') \<Rightarrow> pending r' = [] \<and>
    (if ok
     then (\<forall>store. emit (\<lambda>ty v. v :: nat) (orderedMoves r') (store, None) =
         returnM (parallelMoves (\<lambda>ty v. v) (map asMove smallGroup) store, None)) \<and>
       mset (map dest (orderedMoves r')) = mset (map dest (map asMove smallGroup))
     else \<exists>k. \<not> allocOk smallEnv k)"
  ultimately show "case res of (ok, r') \<Rightarrow> ok \<and> pending r' = [] \<and> length (orderedMoves r') = 4"
    by (cases res) (simp add: smallEnv_def split: if_splits)
qed

lemma sort_preserves_witness:
  "operandsOk (operandsOf (map asMove smallGroup)) \<and>
   runs (sortMemoryToMemoryMoves (newResolver\<lparr>orderedMoves := map asMove smallGroup\<rparr>)) smallEnv (\<lambda>e. False) (\<lambda>r'.
     mset (orderedMoves r') = mset (map asMove smallGroup) \<and> pending r' = [] \<and>
     (\<forall>st. emit (\<lambda>ty v. v :: nat) (orderedMoves r') st = emit (\<lambda>ty v. v) (map asMove smallGroup) st))"
  using sort_preserves [of "newResolver\<lparr>orderedMoves := map asMove smallGroup\<rparr>" smallEnv "\<lambda>ty v. v :: nat"] parallelOk_small
  by (simp add: parallelOk_def newResolver_def)

lemma visit_move_group_witness:
  "runs (visitMoveGroup (\<lambda>ty v. v) True smallGroup newResolver (\<lambda>p. fst (snd p))) smallEnv (\<lambda>e. False) (\<lambda>(res, r').
     \<exists>store. res = Some store \<and> map (\<lambda>i. store (REG, i, 0)) [0, 1, 2, 3] = [1, 0, 4, 3])"
proof (rule runs_weakenQ)
  show "runs (visitMoveGroup (\<lambda>ty v. v) True smallGroup newResolver (\<lambda>p. fst (snd p))) smallEnv (\<lambda>e. False) (\<lambda>(res, r').
    pending r' = [] \<and>
    (case res of
       Some store' \<Rightarrow> store' = parallelMoves (\<lambda>ty v. v) (map asMove smallGroup) (\<lambda>p. fst (snd p))
     | None \<Rightarrow> \<exists>k. \<not> allocOk smallEnv k))"
    by (rule visit_move_group [OF parallelOk_small]) (simp add: newResolver_def)
qed (auto simp: smallEnv_def parallelMoves_def smallGroup_def asMove_def regOperand_def placeOf_def Let_def
    isMemoryOrEffectiveAddress_def split: option.splits)

end
