(* ===== verification/MathAlgorithms.thy ===== *)
theory MathAlgorithms
  imports Prelude
begin

text \<open>
  The integer functions of \<open>mfbt/MathAlgorithms.h\<close> that containers and sorting use.
  \<open>CountLeadingZeroes32\<close> and \<open>CountLeadingZeroes64\<close> are compiler builtins: a scan from the top bit,
  at any width.
\<close>

primrec clzScan :: "nat \<Rightarrow> 'w::len word \<Rightarrow> nat" where
  "clzScan 0 x = LENGTH('w)"
| "clzScan (Suc i) x = (if bit x i then LENGTH('w) - Suc i else clzScan i x)"

definition CountLeadingZeroes :: "'w::len word \<Rightarrow> nat" where
  "CountLeadingZeroes x = clzScan (LENGTH('w)) x"

definition CeilingLog2 :: "'w::len word \<Rightarrow> nat" where
  "CeilingLog2 aValue = (if aValue \<le> 1 then 0 else LENGTH('w) - CountLeadingZeroes (aValue - 1))"

definition RoundUpPow2 :: "u64 \<Rightarrow> u64 eng" where
  "RoundUpPow2 aValue = mozAssert (aValue \<le> push_bit 63 1) (returnM (push_bit (CeilingLog2 aValue) 1))"

definition IsPowerOfTwo :: "'w::len word \<Rightarrow> bool" where
  "IsPowerOfTwo x \<longleftrightarrow> x \<noteq> 0 \<and> x AND (x - 1) = 0"

definition AbsInt32 :: "u32 \<Rightarrow> u32" where
  "AbsInt32 aValue = (if 0 \<le>s aValue then aValue else NOT aValue + 1)"

section \<open>Values\<close>

lemma bit_unat: "bit x i \<longleftrightarrow> odd (unat x div 2 ^ i)"
proof -
  have "bit (unat x) i \<longleftrightarrow> bit x i" by (auto simp: bit_unsigned_iff dest: bit_imp_le_length)
  then show ?thesis by (simp add: bit_iff_odd [of "unat x"])
qed

lemma clzScan_spec:
  fixes x :: "'w::len word"
  assumes "unat x < 2 ^ i" and "i \<le> LENGTH('w)" and "x \<noteq> 0"
  shows "\<exists>k < i. clzScan i x = LENGTH('w) - Suc k \<and> 2 ^ k \<le> unat x \<and> unat x < 2 ^ Suc k"
  using assms
proof (induction i)
  case 0
  then show ?case by (simp add: unat_eq_zero)
next
  case (Suc i)
  show ?case
  proof (cases "bit x i")
    case True
    then have "odd (unat x div 2 ^ i)" by (simp add: bit_unat)
    then have "unat x div 2 ^ i \<noteq> 0" by (cases "unat x div 2 ^ i = 0") auto
    then have "2 ^ i \<le> unat x" by (simp add: div_eq_0_iff not_less)
    with True Suc.prems show ?thesis by (intro exI [of _ i]) simp
  next
    case False
    have "even (unat x div 2 ^ i)" using False by (simp add: bit_unat)
    moreover have "unat x div 2 ^ i < 2" using Suc.prems(1) by (simp add: less_mult_imp_div_less)
    ultimately have "unat x div 2 ^ i = 0" by (auto simp: less_2_cases_iff)
    then have "unat x < 2 ^ i" by (simp add: div_eq_0_iff)
    with Suc False obtain k where "k < i" "clzScan i x = LENGTH('w) - Suc k" "2 ^ k \<le> unat x" "unat x < 2 ^ Suc k"
      by auto
    with False show ?thesis by (intro exI [of _ k]) simp
  qed
qed

lemma CeilingLog2_spec:
  fixes x :: "'w::len word"
  assumes "1 < unat x"
  obtains k where "CeilingLog2 x = Suc k" and "2 ^ k < unat x" and "unat x \<le> 2 ^ Suc k" and "k < LENGTH('w)"
proof -
  have gt: "\<not> x \<le> 1" using assms by (auto simp: word_le_nat_alt)
  then have "x \<noteq> 0" by auto
  then have u: "unat (x - 1) = unat x - 1" by (simp add: unat_minus_one)
  have "x - 1 \<noteq> 0"
  proof
    assume "x - 1 = 0"
    then have "unat x - 1 = 0" by (simp flip: u)
    then show False using assms by simp
  qed
  then obtain k where k: "k < LENGTH('w)" "CountLeadingZeroes (x - 1) = LENGTH('w) - Suc k"
    "2 ^ k \<le> unat (x - 1)" "unat (x - 1) < 2 ^ Suc k"
    using clzScan_spec [of "x - 1" "LENGTH('w)"] by (auto simp: CountLeadingZeroes_def)
  show thesis
    using gt k u assms by (intro that [of k]) (auto simp: CeilingLog2_def)
qed

lemma CeilingLog2_small: "unat x \<le> 1 \<Longrightarrow> CeilingLog2 x = 0"
  by (metis CeilingLog2_def unat_1 word_le_nat_alt)

lemma CeilingLog2_le: "unat x \<le> 2 ^ k \<Longrightarrow> CeilingLog2 x \<le> k"
proof (cases "1 < unat x")
  case True
  then obtain j where j: "CeilingLog2 x = Suc j" "2 ^ j < unat x" by (rule CeilingLog2_spec)
  assume "unat x \<le> 2 ^ k"
  with j(2) have "(2 :: nat) ^ j < 2 ^ k" by (rule less_le_trans)
  then have "j < k" by (rule power_less_imp_less_exp [rotated]) simp
  then show ?thesis using j(1) by simp
qed (simp add: CeilingLog2_small)

lemma CeilingLog2_ge: "unat x \<le> 2 ^ CeilingLog2 x"
proof (cases "1 < unat x")
  case True
  then obtain j where "CeilingLog2 x = Suc j" "unat x \<le> 2 ^ Suc j" by (rule CeilingLog2_spec)
  then show ?thesis by simp
qed (simp add: CeilingLog2_small)

lemma CeilingLog2_power:
  fixes x :: "'w::len word"
  assumes "unat x = 2 ^ k"
  shows "CeilingLog2 x = k"
proof (rule antisym)
  show "CeilingLog2 x \<le> k" using assms by (simp add: CeilingLog2_le)
  have "(2 :: nat) ^ k \<le> 2 ^ CeilingLog2 x" using CeilingLog2_ge [of x] assms by simp
  then show "k \<le> CeilingLog2 x" by simp
qed

lemma RoundUpPow2_eq:
  assumes "unat x \<le> 2 ^ k" and "k \<le> 63"
  shows "RoundUpPow2 x = returnM (push_bit (CeilingLog2 x) 1)"
proof -
  have "unat x \<le> 2 ^ 63" using assms by (meson le_trans one_le_numeral power_increasing)
  then have "x \<le> push_bit 63 1" by (simp add: word_le_nat_alt push_bit_eq_mult)
  then show ?thesis by (simp add: RoundUpPow2_def)
qed

end
