(* ===== verification/MergeSort.thy ===== *)
theory MergeSort
  imports Prelude "HOL-Library.Multiset"
begin

text \<open>
  \<open>js/src/ds/Sort.h\<close>: the stable merge sort that \<open>Array.prototype.sort\<close>, property enumeration and the
  \<open>Intl\<close> code use.  A comparator is a computation: it may fail, and \<open>*lessOrEqualp\<close> is its result.
  The arrays \<open>array\<close> and \<open>scratch\<close> are two lists behind plain pointers, so that an access outside them is
  \<open>UndefinedBehavior\<close>; a pointer into one of them is the list and an index, and a pointer that is moved is
  the index.  A loop that ends by \<open>break\<close> carries the reason in its state.

  The proofs follow the runs: \<open>interleaved\<close> describes what merging two runs can give for a comparator
  that answers anything, or (when \<open>ok\<close>) answers like a relation \<open>le\<close>.  The locale \<open>comparator\<close> is what
  \<open>MergeSort\<close> asks of its argument.
\<close>

type_synonym 'a comparator = "'a \<Rightarrow> 'a \<Rightarrow> bool eng"

definition CopyNonEmptyArray :: "'a list \<Rightarrow> nat \<Rightarrow> 'a list \<Rightarrow> nat \<Rightarrow> nat \<Rightarrow> 'a list eng" where
  "CopyNonEmptyArray dst d src s nelems =
     mozAssert (nelems \<noteq> 0)
     (let e = s + nelems;
          step = (\<lambda>(dst, d, s). bindM (ptrGet src s) (\<lambda>x. bindM (ptrSet dst d x) (\<lambda>dst.
                    returnM (dst, Suc d, Suc s))))
      in bindM (bindM (step (dst, d, s)) (whileE (\<lambda>(dst, d, s). s \<noteq> e) step))
           (\<lambda>(dst, d, s). returnM dst))"

text \<open>
  One turn of the merging loop.  The state is \<open>dst\<close> with its position, \<open>a\<close>, \<open>b\<close>, \<open>run1\<close>, \<open>run2\<close> and, once
  the loop is left, the value it gives to \<open>src\<close>.
\<close>

type_synonym 'a merging = "'a list \<times> nat \<times> nat \<times> nat \<times> nat \<times> nat \<times> nat option"

definition mergeStep :: "'a list \<Rightarrow> 'a comparator \<Rightarrow> 'a merging \<Rightarrow> 'a merging eng" where
  "mergeStep src c = (\<lambda>(dst, d, a, b, run1, run2, _).
     bindM (ptrGet src a) (\<lambda>x. bindM (ptrGet src b) (\<lambda>y. bindM (c x y) (\<lambda>lessOrEqual.
     if lessOrEqual then
       bindM (ptrSet dst d x) (\<lambda>dst. let run1 = run1 - 1 in
       returnM (dst, Suc d, Suc a, b, run1, run2, if run1 = 0 then Some b else None))
     else
       bindM (ptrSet dst d y) (\<lambda>dst. let run2 = run2 - 1 in
       returnM (dst, Suc d, a, Suc b, run1, run2, if run2 = 0 then Some a else None))))))"

fun merging :: "'a merging \<Rightarrow> bool" where
  "merging (dst, d, a, b, run1, run2, left) = (left = None)"

definition MergeArrayRuns ::
  "'a list \<Rightarrow> nat \<Rightarrow> 'a list \<Rightarrow> nat \<Rightarrow> nat \<Rightarrow> nat \<Rightarrow> 'a comparator \<Rightarrow> 'a list eng" where
  "MergeArrayRuns dst d src s run1 run2 c =
     mozAssert (1 \<le> run1) (mozAssert (1 \<le> run2)
     (let b = s + run1 in
      bindM (ptrGet src (b - 1)) (\<lambda>x. bindM (ptrGet src b) (\<lambda>y. bindM (c x y) (\<lambda>lessOrEqual.
      if \<not> lessOrEqual then
        bindM (whileE merging (mergeStep src c) (dst, d, s, b, run1, run2, None))
          (\<lambda>(dst, d, a, b, run1, run2, left).
             CopyNonEmptyArray dst d src (the left) (run1 + run2))
      else CopyNonEmptyArray dst d src s (run1 + run2))))))"

text \<open>
  \<open>MergeSort\<close>: insertion sort on chunks of \<open>INS_SORT_LIMIT\<close> elements (\<open>insertElement\<close> is the loop over
  \<open>j\<close>, \<open>sortChunks\<close> the loops over \<open>lo\<close> and \<open>i\<close>), then passes that merge pairs of runs from \<open>vec1\<close> into
  \<open>vec2\<close> (\<open>mergePass\<close> is the loop over \<open>lo\<close>).  In \<open>mergePasses\<close> the flag says whether \<open>vec1\<close> is \<open>scratch\<close>.
\<close>

definition INS_SORT_LIMIT :: nat where
  "INS_SORT_LIMIT = 3"

definition insertElement :: "'a comparator \<Rightarrow> nat \<Rightarrow> nat \<Rightarrow> 'a list \<Rightarrow> 'a list eng" where
  "insertElement c lo i array =
     bindM (whileE (\<lambda>(array, j, broke). \<not> broke)
       (\<lambda>(array, j, broke).
          bindM (ptrGet array (j - 1)) (\<lambda>x. bindM (ptrGet array j) (\<lambda>y. bindM (c x y) (\<lambda>lessOrEqual.
          if lessOrEqual then returnM (array, j, True)
          else
            bindM (ptrGet array (j - 1)) (\<lambda>tmp. bindM (ptrGet array j) (\<lambda>y.
            bindM (ptrSet array (j - 1) y) (\<lambda>array. bindM (ptrSet array j tmp) (\<lambda>array.
            let j = j - 1 in returnM (array, j, j = lo)))))))))
       (array, i, False))
     (\<lambda>(array, j, broke). returnM array)"

definition sortChunk :: "'a comparator \<Rightarrow> nat \<Rightarrow> nat \<Rightarrow> 'a list \<Rightarrow> 'a list eng" where
  "sortChunk c lo hi array =
     bindM (whileE (\<lambda>(array, i). i \<noteq> hi)
       (\<lambda>(array, i). bindM (insertElement c lo i array) (\<lambda>array. returnM (array, Suc i)))
       (array, lo + 1))
     (\<lambda>(array, i). returnM array)"

definition sortChunks :: "'a comparator \<Rightarrow> nat \<Rightarrow> 'a list \<Rightarrow> 'a list eng" where
  "sortChunks c nelems array =
     bindM (whileE (\<lambda>(array, lo). lo < nelems)
       (\<lambda>(array, lo).
          let hi = lo + INS_SORT_LIMIT; hi = (if hi \<ge> nelems then nelems else hi) in
          bindM (sortChunk c lo hi array) (\<lambda>array. returnM (array, lo + INS_SORT_LIMIT)))
       (array, 0))
     (\<lambda>(array, lo). returnM array)"

definition mergePass :: "'a comparator \<Rightarrow> nat \<Rightarrow> nat \<Rightarrow> 'a list \<Rightarrow> 'a list \<Rightarrow> 'a list eng" where
  "mergePass c nelems run vec1 vec2 =
     bindM (whileE (\<lambda>(vec2, lo, broke). \<not> broke \<and> lo < nelems)
       (\<lambda>(vec2, lo, broke).
          let hi = lo + run in
          if hi \<ge> nelems then
            bindM (CopyNonEmptyArray vec2 lo vec1 lo (nelems - lo)) (\<lambda>vec2. returnM (vec2, lo, True))
          else
            let run2 = (if run \<le> nelems - hi then run else nelems - hi) in
            bindM (MergeArrayRuns vec2 lo vec1 lo run run2 c) (\<lambda>vec2.
            returnM (vec2, lo + 2 * run, False)))
       (vec2, 0, False))
     (\<lambda>(vec2, lo, broke). returnM vec2)"

definition mergePasses ::
  "'a comparator \<Rightarrow> nat \<Rightarrow> 'a list \<Rightarrow> 'a list \<Rightarrow> ('a list \<times> 'a list \<times> bool \<times> nat) eng" where
  "mergePasses c nelems array scratch =
     whileE (\<lambda>(vec1, vec2, swapped, run). run < nelems)
       (\<lambda>(vec1, vec2, swapped, run).
          bindM (mergePass c nelems run vec1 vec2) (\<lambda>vec2.
          returnM (vec2, vec1, \<not> swapped, run * 2)))
       (array, scratch, False, INS_SORT_LIMIT)"

definition MergeSort :: "'a list \<Rightarrow> nat \<Rightarrow> 'a list \<Rightarrow> 'a comparator \<Rightarrow> ('a list \<times> 'a list) eng" where
  "MergeSort array nelems scratch c =
     (if nelems \<le> 1 then returnM (array, scratch)
      else
        bindM (sortChunks c nelems array) (\<lambda>array.
        bindM (mergePasses c nelems array scratch) (\<lambda>(vec1, vec2, swapped, run).
        if swapped then
          bindM (CopyNonEmptyArray vec2 0 vec1 0 nelems) (\<lambda>array. returnM (array, vec1))
        else returnM (vec1, vec2))))"

section \<open>What sorting promises\<close>

text \<open>
  \<open>sameClass le x y\<close>: the two compare equal.  A list is \<open>rearranged\<close> when it holds the same elements and,
  when the comparator answers like \<open>le\<close>, each class of elements that compare equal in its old order.
\<close>

definition sameClass :: "('a \<Rightarrow> 'a \<Rightarrow> bool) \<Rightarrow> 'a \<Rightarrow> 'a \<Rightarrow> bool" where
  "sameClass le x y \<longleftrightarrow> le x y \<and> le y x"

definition stableSorted :: "('a \<Rightarrow> 'a \<Rightarrow> bool) \<Rightarrow> 'a list \<Rightarrow> 'a list \<Rightarrow> bool" where
  "stableSorted le xs ys \<longleftrightarrow>
     mset ys = mset xs \<and> sorted_wrt le ys
     \<and> (\<forall>x \<in> set xs. List.filter (sameClass le x) ys = List.filter (sameClass le x) xs)"

definition totalPreorder :: "'a set \<Rightarrow> ('a \<Rightarrow> 'a \<Rightarrow> bool) \<Rightarrow> bool" where
  "totalPreorder A le \<longleftrightarrow>
     (\<forall>x \<in> A. \<forall>y \<in> A. le x y \<or> le y x)
     \<and> (\<forall>x \<in> A. \<forall>y \<in> A. \<forall>z \<in> A. le x y \<longrightarrow> le y z \<longrightarrow> le x z)"

lemma totalPreorder_trans:
  "totalPreorder A le \<Longrightarrow> x \<in> A \<Longrightarrow> y \<in> A \<Longrightarrow> z \<in> A \<Longrightarrow> le x y \<Longrightarrow> le y z \<Longrightarrow> le x z"
  unfolding totalPreorder_def by blast

lemma totalPreorder_total: "totalPreorder A le \<Longrightarrow> x \<in> A \<Longrightarrow> y \<in> A \<Longrightarrow> le x y \<or> le y x"
  unfolding totalPreorder_def by blast

lemma totalPreorder_refl: "totalPreorder A le \<Longrightarrow> x \<in> A \<Longrightarrow> le x x"
  unfolding totalPreorder_def by blast

lemma totalPreorder_subset:
  assumes "totalPreorder A le" and "B \<subseteq> A"
  shows "totalPreorder B le"
  unfolding totalPreorder_def
  using assms totalPreorder_trans [OF assms(1)] totalPreorder_total [OF assms(1)] by (meson subsetD)

section \<open>Copying\<close>

text \<open>The list with the elements from position \<open>d\<close> on replaced.\<close>

definition patch :: "'a list \<Rightarrow> nat \<Rightarrow> 'a list \<Rightarrow> 'a list" where
  "patch dst d ys = take d dst @ ys @ drop (d + length ys) dst"

lemma length_patch [simp]: "d + length ys \<le> length dst \<Longrightarrow> length (patch dst d ys) = length dst"
  by (simp add: patch_def)

lemma patch_Nil [simp]: "patch dst d [] = dst"
  by (simp add: patch_def)

lemma patch_snoc: "d + length ys < length dst \<Longrightarrow> (patch dst d ys)[d + length ys := y] = patch dst d (ys @ [y])"
  by (simp add: patch_def list_update_append min_absorb2 upd_conv_take_nth_drop
      flip: Cons_nth_drop_Suc)

lemma patch_patch:
  "d + length ys \<le> length dst \<Longrightarrow> patch (patch dst d ys) (d + length ys) zs = patch dst d (ys @ zs)"
  by (simp add: patch_def min_absorb2 ac_simps)

lemma copy_loop:
  assumes "s + k \<le> length src" and "d + k \<le> length dst"
  shows "whileE (\<lambda>(dst, d, s'). s' \<noteq> s + k)
      (\<lambda>(dst, d, s). bindM (ptrGet src s) (\<lambda>x. bindM (ptrSet dst d x) (\<lambda>dst. returnM (dst, Suc d, Suc s))))
      (dst, d, s)
    = returnM (patch dst d (take k (drop s src)), d + k, s + k)"
  using assms
proof (induction k arbitrary: dst d s)
  case 0
  then show ?case by (simp add: whileE_unfold)
next
  case (Suc k)
  have "patch (dst[d := src ! s]) (Suc d) (take k (drop (Suc s) src)) = patch dst d (take (Suc k) (drop s src))"
    using Suc.prems patch_snoc [of d "[]" dst "src ! s"] patch_patch [of d "[src ! s]" dst]
    by (simp flip: Cons_nth_drop_Suc)
  then show ?case
    using Suc.prems Suc.IH [of "Suc s" "Suc d" "dst[d := src ! s]"] by (subst whileE_unfold) simp
qed

lemma CopyNonEmptyArray_eq:
  assumes "0 < k" and "s + k \<le> length src" and "d + k \<le> length dst"
  shows "CopyNonEmptyArray dst d src s k = returnM (patch dst d (take k (drop s src)))"
proof -
  have "s \<noteq> s + k" using \<open>0 < k\<close> by simp
  then show ?thesis
    using assms(1) copy_loop [OF assms(2,3)]
    unfolding CopyNonEmptyArray_def by (subst Let_def, subst Let_def, subst doWhile_eq) simp_all
qed

section \<open>Merging two runs\<close>

inductive interleaved :: "bool \<Rightarrow> ('a \<Rightarrow> 'a \<Rightarrow> bool) \<Rightarrow> 'a list \<Rightarrow> 'a list \<Rightarrow> 'a list \<Rightarrow> bool"
  for ok :: bool and le :: "'a \<Rightarrow> 'a \<Rightarrow> bool" where
  leftDone: "interleaved ok le [] ys ys"
| rightDone: "interleaved ok le xs [] xs"
| takeLeft: "(ok \<longrightarrow> le x y) \<Longrightarrow> interleaved ok le xs (y # ys) zs \<Longrightarrow>
    interleaved ok le (x # xs) (y # ys) (x # zs)"
| takeRight: "(ok \<longrightarrow> \<not> le x y) \<Longrightarrow> interleaved ok le (x # xs) ys zs \<Longrightarrow>
    interleaved ok le (x # xs) (y # ys) (y # zs)"

lemma interleaved_mset: "interleaved ok le xs ys zs \<Longrightarrow> mset zs = mset xs + mset ys"
  by (induction rule: interleaved.induct) auto

lemma interleaved_set: "interleaved ok le xs ys zs \<Longrightarrow> set zs = set xs \<union> set ys"
  by (induction rule: interleaved.induct) auto

lemma interleaved_length: "interleaved ok le xs ys zs \<Longrightarrow> length zs = length xs + length ys"
  by (induction rule: interleaved.induct) auto

lemma interleaved_sorted:
  assumes "interleaved True le xs ys zs" and "totalPreorder A le" and "set xs \<subseteq> A" and "set ys \<subseteq> A"
    and "sorted_wrt le xs" and "sorted_wrt le ys"
  shows "sorted_wrt le zs"
  using assms
proof (induction rule: interleaved.induct)
  case (takeLeft x y xs ys zs)
  have "le x z" if "z \<in> set (x # xs) \<union> set (y # ys)" for z
    using that takeLeft.prems takeLeft.hyps(1)
      totalPreorder_trans [OF takeLeft.prems(1), of x y z] totalPreorder_refl [OF takeLeft.prems(1), of x]
    by (auto simp: subset_iff)
  with takeLeft show ?case by (auto simp: interleaved_set [OF takeLeft.hyps(2)])
next
  case (takeRight x y xs ys zs)
  then have "le y x" using totalPreorder_total [OF takeRight.prems(1), of x y] by auto
  have "le y z" if "z \<in> set (x # xs) \<union> set ys" for z
    using that takeRight.prems \<open>le y x\<close> totalPreorder_trans [OF takeRight.prems(1), of y x z] by (auto simp: subset_iff)
  with takeRight show ?case by (auto simp: interleaved_set [OF takeRight.hyps(2)])
qed simp_all

lemma interleaved_stable:
  assumes "interleaved True le xs ys zs" and "totalPreorder A le" and "set xs \<subseteq> A" and "set ys \<subseteq> A" and "e \<in> A"
    and "sorted_wrt le xs" and "sorted_wrt le ys"
  shows "List.filter (sameClass le e) zs = List.filter (sameClass le e) (xs @ ys)"
  using assms
proof (induction rule: interleaved.induct)
  case (takeRight x y xs ys zs)
  have "\<not> sameClass le e z" if "sameClass le e y" "z \<in> set (x # xs)" for z
  proof -
    have "le x z" using takeRight.prems that unfolding totalPreorder_def by (auto simp: subset_iff)
    moreover have "\<not> le x y" using takeRight.hyps by simp
    moreover have "x \<in> A" "y \<in> A" "z \<in> A" using takeRight.prems that by auto
    ultimately show ?thesis
      using that(1) takeRight.prems(1,4) unfolding sameClass_def totalPreorder_def by meson
  qed
  then have "List.filter (sameClass le e) (x # xs) = []" if "sameClass le e y"
    using that by (auto simp only: filter_empty_conv)
  then show ?case
    using takeRight.IH takeRight.prems by (cases "sameClass le e y") (auto simp: filter_empty_conv split: if_splits)
qed simp_all

section \<open>What MergeSort asks of its comparator\<close>

text \<open>
  On the elements \<open>A\<close> the comparator answers or stops with an error that \<open>E\<close> allows; when \<open>ok\<close>, its
  answers are those of a total preorder.
\<close>

locale comparator =
  fixes c :: "'a comparator" and v :: env and E :: "err \<Rightarrow> bool" and A :: "'a set" and ok :: bool
    and le :: "'a \<Rightarrow> 'a \<Rightarrow> bool"
  assumes answers: "x \<in> A \<Longrightarrow> y \<in> A \<Longrightarrow> runs (c x y) v E (\<lambda>r. ok \<longrightarrow> r = le x y)"
    and preorder: "ok \<Longrightarrow> totalPreorder A le"

text \<open>The two properties the loops maintain: \<open>rearranged\<close>, and sorted within every run of \<open>r\<close> elements.\<close>

definition rearranged :: "'a set \<Rightarrow> bool \<Rightarrow> ('a \<Rightarrow> 'a \<Rightarrow> bool) \<Rightarrow> 'a list \<Rightarrow> 'a list \<Rightarrow> bool" where
  "rearranged A ok le xs ys \<longleftrightarrow>
     mset ys = mset xs
     \<and> (ok \<longrightarrow> (\<forall>e \<in> A. List.filter (sameClass le e) ys = List.filter (sameClass le e) xs))"

definition inRuns :: "bool \<Rightarrow> ('a \<Rightarrow> 'a \<Rightarrow> bool) \<Rightarrow> nat \<Rightarrow> 'a list \<Rightarrow> bool" where
  "inRuns ok le r xs \<longleftrightarrow>
     (ok \<longrightarrow> (\<forall>i j. i < j \<longrightarrow> j < length xs \<longrightarrow> i div r = j div r \<longrightarrow> le (xs ! i) (xs ! j)))"

lemma rearranged_refl [simp]: "rearranged A ok le xs xs"
  by (simp add: rearranged_def)

lemma rearranged_trans: "rearranged A ok le xs ys \<Longrightarrow> rearranged A ok le ys zs \<Longrightarrow> rearranged A ok le xs zs"
  by (simp add: rearranged_def)

lemma rearranged_append:
  "rearranged A ok le xs ys \<Longrightarrow> rearranged A ok le xs' ys' \<Longrightarrow> rearranged A ok le (xs @ xs') (ys @ ys')"
  by (simp add: rearranged_def)

lemma rearranged_length: "rearranged A ok le xs ys \<Longrightarrow> length ys = length xs"
  by (metis rearranged_def mset_eq_length)

lemma rearranged_set: "rearranged A ok le xs ys \<Longrightarrow> set ys = set xs"
  by (metis rearranged_def mset_eq_setD)

lemma inRuns_whole: "length xs \<le> r \<Longrightarrow> inRuns ok le r xs \<longleftrightarrow> (ok \<longrightarrow> sorted_wrt le xs)"
  by (auto simp: inRuns_def sorted_wrt_iff_nth_less)

lemma inRuns_append:
  assumes "inRuns ok le r xs" and "r dvd length xs" and "0 < r" and "length ys \<le> r" and "ok \<longrightarrow> sorted_wrt le ys"
  shows "inRuns ok le r (xs @ ys)"
proof -
  obtain q where q: "length xs = q * r" using assms(2) by (auto simp: dvd_def ac_simps)
  have "j < length xs" if "i div r = j div r" "i < length xs" for i j
    using that assms(3) unfolding q by (simp flip: div_less_iff_less_mult)
  then have xs: "i < length xs \<longrightarrow> j < length xs" if "i div r = j div r" for i j using that by blast
  have ys: "sorted_wrt le ys \<Longrightarrow> i < j \<Longrightarrow> j < length ys \<Longrightarrow> le (ys ! i) (ys ! j)" for i j
    by (simp add: sorted_wrt_iff_nth_less)
  show ?thesis
    unfolding inRuns_def
  proof (intro impI allI)
    fix i j assume *: ok "i < j" "j < length (xs @ ys)" "i div r = j div r"
    show "le ((xs @ ys) ! i) ((xs @ ys) ! j)"
    proof (cases "i < length xs")
      case True
      with xs [OF *(4)] * assms(1) show ?thesis by (simp add: nth_append inRuns_def)
    next
      case False
      with * assms(5) ys [of "i - length xs" "j - length xs"] show ?thesis by (simp add: nth_append)
    qed
  qed
qed

lemma inRuns_run:
  assumes "inRuns ok le r xs" and "r dvd i" and "0 < r"
  shows "ok \<longrightarrow> sorted_wrt le (take r (drop i xs))"
proof
  assume ok
  have same: "(i + j) div r = i div r" if "j < r" for j
    using assms(2,3) that by (auto simp: dvd_def)
  show "sorted_wrt le (take r (drop i xs))"
    using assms(1) \<open>ok\<close> same by (auto simp: inRuns_def sorted_wrt_iff_nth_less)
qed

text \<open>
  The merging loop: what it has written is a beginning of an interleaving of the two runs, and any
  interleaving of what is left completes it.
\<close>

definition mergeInv ::
  "bool \<Rightarrow> ('a \<Rightarrow> 'a \<Rightarrow> bool) \<Rightarrow> 'a list \<Rightarrow> nat \<Rightarrow> 'a list \<Rightarrow> nat \<Rightarrow> nat \<Rightarrow> nat \<Rightarrow> 'a merging \<Rightarrow> bool" where
  "mergeInv ok le dst d src s run1 run2 = (\<lambda>(dst', d', a, b, r1, r2, left).
     s \<le> a \<and> a + r1 = s + run1 \<and> s + run1 \<le> b \<and> b + r2 = s + run1 + run2
     \<and> (\<exists>ms. length ms + r1 + r2 = run1 + run2 \<and> dst' = patch dst d ms \<and> d' = d + length ms
          \<and> (\<forall>zs. interleaved ok le (take r1 (drop a src)) (take r2 (drop b src)) zs \<longrightarrow>
               interleaved ok le (take run1 (drop s src)) (take run2 (drop (s + run1) src)) (ms @ zs)))
     \<and> (case left of None \<Rightarrow> 0 < r1 \<and> 0 < r2
        | Some l \<Rightarrow> r1 = 0 \<and> 0 < r2 \<and> l = b \<or> r2 = 0 \<and> 0 < r1 \<and> l = a))"

lemma take_drop_Cons: "0 < r \<Longrightarrow> i < length xs \<Longrightarrow> take r (drop i xs) = xs ! i # take (r - 1) (drop (Suc i) xs)"
  by (cases r) (simp_all flip: Cons_nth_drop_Suc)

lemma mergeInv_left:
  assumes inv: "mergeInv ok le dst d src s run1 run2 (dst', d', a, b, r1, r2, None)"
    and "s + run1 + run2 \<le> length src" and "d + run1 + run2 \<le> length dst" and le: "ok \<longrightarrow> le (src ! a) (src ! b)"
  shows "mergeInv ok le dst d src s run1 run2
    (dst'[d' := src ! a], Suc d', Suc a, b, r1 - 1, r2, if r1 - 1 = 0 then Some b else None)"
proof -
  from inv obtain ms where ms: "length ms + r1 + r2 = run1 + run2" "dst' = patch dst d ms" "d' = d + length ms"
    and I: "\<And>zs. interleaved ok le (take r1 (drop a src)) (take r2 (drop b src)) zs \<Longrightarrow>
               interleaved ok le (take run1 (drop s src)) (take run2 (drop (s + run1) src)) (ms @ zs)"
    and r: "0 < r1" "0 < r2" "s \<le> a" "a + r1 = s + run1" "s + run1 \<le> b" "b + r2 = s + run1 + run2"
    by (auto simp: mergeInv_def)
  have ab: "a < length src" "b < length src" using r assms(2) by auto
  have "interleaved ok le (take r1 (drop a src)) (take r2 (drop b src)) (src ! a # zs)"
    if "interleaved ok le (take (r1 - 1) (drop (Suc a) src)) (take r2 (drop b src)) zs" for zs
    using that le r ab by (simp add: take_drop_Cons interleaved.takeLeft)
  then have "interleaved ok le (take run1 (drop s src)) (take run2 (drop (s + run1) src)) ((ms @ [src ! a]) @ zs)"
    if "interleaved ok le (take (r1 - 1) (drop (Suc a) src)) (take r2 (drop b src)) zs" for zs
    using I that by simp
  moreover have "dst'[d' := src ! a] = patch dst d (ms @ [src ! a])"
    unfolding ms using ms(1) r assms(3) by (intro patch_snoc) simp
  ultimately show ?thesis
    using ms(1,3) r unfolding mergeInv_def by (auto intro!: exI [of _ "ms @ [src ! a]"])
qed

lemma mergeInv_right:
  assumes inv: "mergeInv ok le dst d src s run1 run2 (dst', d', a, b, r1, r2, None)"
    and "s + run1 + run2 \<le> length src" and "d + run1 + run2 \<le> length dst" and le: "ok \<longrightarrow> \<not> le (src ! a) (src ! b)"
  shows "mergeInv ok le dst d src s run1 run2
    (dst'[d' := src ! b], Suc d', a, Suc b, r1, r2 - 1, if r2 - 1 = 0 then Some a else None)"
proof -
  from inv obtain ms where ms: "length ms + r1 + r2 = run1 + run2" "dst' = patch dst d ms" "d' = d + length ms"
    and I: "\<And>zs. interleaved ok le (take r1 (drop a src)) (take r2 (drop b src)) zs \<Longrightarrow>
               interleaved ok le (take run1 (drop s src)) (take run2 (drop (s + run1) src)) (ms @ zs)"
    and r: "0 < r1" "0 < r2" "s \<le> a" "a + r1 = s + run1" "s + run1 \<le> b" "b + r2 = s + run1 + run2"
    by (auto simp: mergeInv_def)
  have ab: "a < length src" "b < length src" using r assms(2) by auto
  have "interleaved ok le (take r1 (drop a src)) (take r2 (drop b src)) (src ! b # zs)"
    if "interleaved ok le (take r1 (drop a src)) (take (r2 - 1) (drop (Suc b) src)) zs" for zs
    using that le r ab by (simp add: take_drop_Cons interleaved.takeRight)
  then have "interleaved ok le (take run1 (drop s src)) (take run2 (drop (s + run1) src)) ((ms @ [src ! b]) @ zs)"
    if "interleaved ok le (take r1 (drop a src)) (take (r2 - 1) (drop (Suc b) src)) zs" for zs
    using I that by simp
  moreover have "dst'[d' := src ! b] = patch dst d (ms @ [src ! b])"
    unfolding ms using ms(1) r assms(3) by (intro patch_snoc) simp
  ultimately show ?thesis
    using ms(1,3) r unfolding mergeInv_def by (auto intro!: exI [of _ "ms @ [src ! b]"])
qed

context comparator
begin

lemma merged:
  assumes "interleaved ok le xs ys zs" and "set xs \<subseteq> A" and "set ys \<subseteq> A"
    and "ok \<longrightarrow> sorted_wrt le xs" and "ok \<longrightarrow> sorted_wrt le ys"
  shows "rearranged A ok le (xs @ ys) zs" and "ok \<longrightarrow> sorted_wrt le zs"
  using assms preorder interleaved_sorted [of le xs ys zs A] interleaved_stable [of le xs ys zs A]
  by (auto simp: rearranged_def interleaved_mset)

lemma runs_mergeStep:
  assumes "s + run1 + run2 \<le> length src" and "d + run1 + run2 \<le> length dst"
    and A: "set (take (run1 + run2) (drop s src)) \<subseteq> A"
    and inv: "mergeInv ok le dst d src s run1 run2 (dst', d', a, b, r1, r2, None)"
  shows "runs (mergeStep src c (dst', d', a, b, r1, r2, None)) v E (\<lambda>st.
    mergeInv ok le dst d src s run1 run2 st \<and> (case st of (dst, d, a, b, r1, r2, left) \<Rightarrow> r1 + r2) < r1 + r2)"
proof -
  from inv have r: "0 < r1" "0 < r2" "s \<le> a" "a + r1 = s + run1" "s + run1 \<le> b" "b + r2 = s + run1 + run2"
    and d': "d' < length dst'"
    using assms(2) by (auto simp: mergeInv_def)
  have ab: "a < length src" "b < length src" using r assms(1) by auto
  have "src ! i \<in> A" if "s \<le> i" "i < s + run1 + run2" for i
    using A that assms(1) nth_mem [of "i - s" "take (run1 + run2) (drop s src)"] by auto
  then have "runs (c (src ! a) (src ! b)) v E (\<lambda>r. ok \<longrightarrow> r = le (src ! a) (src ! b))"
    using r by (intro answers) auto
  then show ?thesis
    using mergeInv_left [OF inv assms(1,2)] mergeInv_right [OF inv assms(1,2)] r d' ab
    by (auto simp: mergeStep_def Let_def intro!: runs_bindM [of "c (src ! a) (src ! b)"] simp del: One_nat_def)
qed

end


section \<open>Insertion sort\<close>

lemma rearranged_swap:
  assumes "0 < j" and "j < length xs" and le: "ok \<longrightarrow> \<not> le (xs ! (j - 1)) (xs ! j)"
    and pre: "ok \<longrightarrow> totalPreorder A le" and "set xs \<subseteq> A"
  shows "rearranged A ok le xs (xs[j - 1 := xs ! j, j := xs ! (j - 1)])"
proof -
  define us vs where "us = take (j - 1) xs" and "vs = drop (Suc j) xs"
  have xs: "xs = us @ xs ! (j - 1) # xs ! j # vs"
    using assms(1,2) unfolding us_def vs_def
    by (metis Cons_nth_drop_Suc Suc_diff_1 append_take_drop_id less_imp_diff_less)
  have len: "length us = j - 1" using assms(2) by (simp add: us_def)
  have "xs[j - 1 := y, j := x] = us @ y # x # vs" for x y
    using assms(1) len by (subst xs) (auto simp: list_update_append split: nat.splits)
  then have "xs[j - 1 := xs ! j, j := xs ! (j - 1)] = us @ xs ! j # xs ! (j - 1) # vs" by simp
  moreover have "rearranged A ok le (us @ xs ! (j - 1) # xs ! j # vs) (us @ xs ! j # xs ! (j - 1) # vs)"
  proof -
    have "xs ! (j - 1) \<in> A" "xs ! j \<in> A" using assms by (auto simp: subset_iff)
    then have "\<not> (sameClass le e (xs ! (j - 1)) \<and> sameClass le e (xs ! j))" if ok "e \<in> A" for e
      using totalPreorder_trans [of A le "xs ! (j - 1)" e "xs ! j"] that le pre by (auto simp: sameClass_def)
    then show ?thesis by (auto simp: rearranged_def)
  qed
  ultimately show ?thesis using xs by simp
qed

definition sortedOn :: "bool \<Rightarrow> ('a \<Rightarrow> 'a \<Rightarrow> bool) \<Rightarrow> nat \<Rightarrow> nat \<Rightarrow> 'a list \<Rightarrow> bool" where
  "sortedOn ok le lo hi xs \<longleftrightarrow> (ok \<longrightarrow> (\<forall>p q. lo \<le> p \<longrightarrow> p < q \<longrightarrow> q < hi \<longrightarrow> le (xs ! p) (xs ! q)))"

text \<open>What sorting the elements from \<open>lo\<close> to \<open>hi\<close> leaves of the rest of the array.\<close>

definition onlyWithin :: "'a set \<Rightarrow> bool \<Rightarrow> ('a \<Rightarrow> 'a \<Rightarrow> bool) \<Rightarrow> nat \<Rightarrow> nat \<Rightarrow> 'a list \<Rightarrow> 'a list \<Rightarrow> bool" where
  "onlyWithin A ok le lo hi xs ys \<longleftrightarrow> rearranged A ok le xs ys \<and> (\<forall>k. k < lo \<or> hi \<le> k \<longrightarrow> ys ! k = xs ! k)"

lemma onlyWithin_trans:
  "onlyWithin A ok le lo hi xs ys \<Longrightarrow> onlyWithin A ok le lo hi ys zs \<Longrightarrow> onlyWithin A ok le lo hi xs zs"
  by (auto simp: onlyWithin_def intro: rearranged_trans)

lemma onlyWithin_wider:
  "onlyWithin A ok le lo hi xs ys \<Longrightarrow> lo' \<le> lo \<Longrightarrow> hi \<le> hi' \<Longrightarrow> onlyWithin A ok le lo' hi' xs ys"
  by (auto simp: onlyWithin_def)

lemma onlyWithin_refl [simp]: "onlyWithin A ok le lo hi xs xs"
  by (simp add: onlyWithin_def)

lemma onlyWithin_length: "onlyWithin A ok le lo hi xs ys \<Longrightarrow> length ys = length xs"
  using rearranged_length by (auto simp: onlyWithin_def)

lemma onlyWithin_set: "onlyWithin A ok le lo hi xs ys \<Longrightarrow> set ys = set xs"
  unfolding onlyWithin_def by (elim conjE rearranged_set)

text \<open>The element at \<open>j\<close> is on its way down: the others of the chunk are sorted, and it is below those after it.\<close>

definition sortedBut :: "bool \<Rightarrow> ('a \<Rightarrow> 'a \<Rightarrow> bool) \<Rightarrow> nat \<Rightarrow> nat \<Rightarrow> nat \<Rightarrow> 'a list \<Rightarrow> bool" where
  "sortedBut ok le lo hi j xs \<longleftrightarrow>
     (ok \<longrightarrow> (\<forall>p q. lo \<le> p \<longrightarrow> p < q \<longrightarrow> q < hi \<longrightarrow> q \<noteq> j \<longrightarrow> le (xs ! p) (xs ! q)))"

lemma sortedBut_down:
  assumes "sortedBut ok le lo hi j xs" and "lo < j" and "j < hi" and "hi \<le> length xs"
    and "ok \<longrightarrow> \<not> le (xs ! (j - 1)) (xs ! j)" and pre: "ok \<longrightarrow> totalPreorder (set xs) le"
  shows "sortedBut ok le lo hi (j - 1) (xs[j - 1 := xs ! j, j := xs ! (j - 1)])"
  unfolding sortedBut_def
proof (intro impI allI)
  fix p q assume *: ok "lo \<le> p" "p < q" "q < hi" "q \<noteq> j - 1"
  have "le (xs ! j) (xs ! (j - 1))"
    using totalPreorder_total [of "set xs" le "xs ! j" "xs ! (j - 1)"] assms * by auto
  then show "le (xs[j - 1 := xs ! j, j := xs ! (j - 1)] ! p) (xs[j - 1 := xs ! j, j := xs ! (j - 1)] ! q)"
    using assms * by (auto simp: sortedBut_def nth_list_update)
qed

lemma sortedBut_stop:
  assumes "sortedBut ok le lo hi j xs" and "lo < j" and "j < hi" and "hi \<le> length xs"
    and "ok \<longrightarrow> le (xs ! (j - 1)) (xs ! j)" and pre: "ok \<longrightarrow> totalPreorder (set xs) le"
  shows "sortedOn ok le lo hi xs"
  unfolding sortedOn_def
proof (intro impI allI)
  fix p q assume *: ok "lo \<le> p" "p < q" "q < hi"
  show "le (xs ! p) (xs ! q)"
  proof (cases "q = j \<and> p \<noteq> j - 1")
    case True
    then have "le (xs ! p) (xs ! (j - 1))" using assms(1,3) * by (auto simp: sortedBut_def)
    then show ?thesis
      using True totalPreorder_trans [of "set xs" le "xs ! p" "xs ! (j - 1)" "xs ! j"] assms * by auto
  next
    case False
    then consider "q \<noteq> j" | "p = j - 1" "q = j" by blast
    then show ?thesis
    proof cases
      case 1
      then show ?thesis using assms(1) * unfolding sortedBut_def by blast
    next
      case 2
      then show ?thesis using assms(5) \<open>ok\<close> by simp
    qed
  qed
qed

context comparator
begin

lemma preorder_on: "set xs \<subseteq> A \<Longrightarrow> ok \<longrightarrow> totalPreorder (set xs) le"
  using preorder totalPreorder_subset by blast

lemma runs_insertElement:
  assumes A: "set xs \<subseteq> A" and "lo < i" and "i < length xs" and sorted: "sortedOn ok le lo i xs"
  shows "runs (insertElement c lo i xs) v E (\<lambda>ys. onlyWithin A ok le lo (Suc i) xs ys \<and> sortedOn ok le lo (Suc i) ys)"
  unfolding insertElement_def
proof (rule runs_bindM, rule runs_whileE [where f = "\<lambda>(ys, j, broke). if broke then 0 else Suc j"
      and P = "\<lambda>(ys, j, broke). onlyWithin A ok le lo (Suc i) xs ys \<and> lo \<le> j \<and> j \<le> i
        \<and> (if broke then sortedOn ok le lo (Suc i) ys else lo < j \<and> sortedBut ok le lo (Suc i) j ys)"
      and Q = "\<lambda>(ys, j, broke). onlyWithin A ok le lo (Suc i) xs ys \<and> sortedOn ok le lo (Suc i) ys"], goal_cases)
  case 1
  then show ?case using assms by (auto simp: sortedOn_def sortedBut_def less_Suc_eq)
next
  case (2 st)
  then obtain ys j where st: "st = (ys, j, False)" and within: "onlyWithin A ok le lo (Suc i) xs ys"
    and j: "lo < j" "j \<le> i" and but: "sortedBut ok le lo (Suc i) j ys"
    by (cases st) auto
  have len: "length ys = length xs" and sub: "set ys \<subseteq> A"
    using within A by (auto simp: onlyWithin_length onlyWithin_set)
  then have "ys ! (j - 1) \<in> A" "ys ! j \<in> A" and len': "j < length ys" "j - 1 < length ys"
    using j assms(3) nth_mem [of j ys] nth_mem [of "j - 1" ys] by auto
  then have "runs (c (ys ! (j - 1)) (ys ! j)) v E (\<lambda>r. ok \<longrightarrow> r = le (ys ! (j - 1)) (ys ! j))"
    by (intro answers)
  moreover have "onlyWithin A ok le lo (Suc i) xs (ys[j - 1 := ys ! j, j := ys ! (j - 1)])"
    if "ok \<longrightarrow> \<not> le (ys ! (j - 1)) (ys ! j)"
  proof (rule onlyWithin_trans [OF within])
    show "onlyWithin A ok le lo (Suc i) ys (ys[j - 1 := ys ! j, j := ys ! (j - 1)])"
      unfolding onlyWithin_def using j len' that preorder sub by (intro conjI rearranged_swap) auto
  qed
  moreover have "sortedBut ok le lo (Suc i) (j - 1) (ys[j - 1 := ys ! j, j := ys ! (j - 1)])"
    if "ok \<longrightarrow> \<not> le (ys ! (j - 1)) (ys ! j)"
    using j assms(3) len by (intro sortedBut_down [OF but _ _ _ that preorder_on [OF sub]]) auto
  moreover have "sortedOn ok le lo (Suc i) ys" if "ok \<longrightarrow> le (ys ! (j - 1)) (ys ! j)"
    using j assms(3) len by (intro sortedBut_stop [OF but _ _ _ that preorder_on [OF sub]]) auto
  moreover have "sortedOn ok le lo (Suc i) zs" if "sortedBut ok le lo (Suc i) lo zs" for zs
    using that by (auto simp: sortedOn_def sortedBut_def)
  ultimately show ?case
    using j len' within unfolding st prod.case
    by (auto simp: Let_def simp del: One_nat_def intro!: runs_bindM [of "c (ys ! (j - 1)) (ys ! j)"])
next
  case (3 st)
  then show ?case by (cases st) auto
next
  case (4 st)
  then show ?case by (cases st) auto
qed

end


lemma sortedOn_sub: "sortedOn ok le lo hi xs \<Longrightarrow> lo \<le> lo' \<Longrightarrow> hi' \<le> hi \<Longrightarrow> sortedOn ok le lo' hi' xs"
  by (auto simp: sortedOn_def)

lemma inRuns_extend:
  assumes "inRuns ok le r (take lo xs)" and "r dvd lo" and "0 < r" and "lo \<le> hi" and "hi \<le> lo + r" and "hi \<le> length xs"
    and within: "onlyWithin A ok le lo hi xs ys" and "sortedOn ok le lo hi ys"
  shows "inRuns ok le r (take hi ys)"
proof -
  have len: "length ys = length xs" by (rule onlyWithin_length [OF within])
  have "take lo ys = take lo xs"
    using within assms(4,6) len by (intro nth_equalityI) (auto simp: onlyWithin_def)
  then have "inRuns ok le r (take lo ys)" using assms(1) by simp
  moreover have "ok \<longrightarrow> sorted_wrt le (drop lo (take hi ys))"
    using assms(8) len assms(4,6) by (auto simp: sortedOn_def sorted_wrt_iff_nth_less)
  ultimately have "inRuns ok le r (take lo ys @ drop lo (take hi ys))"
    using assms len by (intro inRuns_append) (auto simp: min_absorb2)
  then show ?thesis using assms(4,6) len by (metis append_take_drop_id min.absorb1 take_take)
qed

context comparator
begin

lemma runs_sortChunk:
  assumes A: "set xs \<subseteq> A" and "lo < hi" and "hi \<le> length xs"
  shows "runs (sortChunk c lo hi xs) v E (\<lambda>ys. onlyWithin A ok le lo hi xs ys \<and> sortedOn ok le lo hi ys)"
  unfolding sortChunk_def
proof (rule runs_bindM, rule runs_whileE [where f = "\<lambda>(ys, i). hi - i"
      and P = "\<lambda>(ys, i). onlyWithin A ok le lo hi xs ys \<and> sortedOn ok le lo i ys \<and> lo < i \<and> i \<le> hi"
      and Q = "\<lambda>(ys, i). onlyWithin A ok le lo hi xs ys \<and> sortedOn ok le lo hi ys"], goal_cases)
  case 1
  then show ?case using assms by (auto simp: sortedOn_def)
next
  case (2 st)
  then obtain ys i where st: "st = (ys, i)" and within: "onlyWithin A ok le lo hi xs ys"
    and i: "lo < i" "i < hi" and sorted: "sortedOn ok le lo i ys"
    by (cases st) auto
  have "runs (insertElement c lo i ys) v E (\<lambda>zs. onlyWithin A ok le lo (Suc i) ys zs \<and> sortedOn ok le lo (Suc i) zs)"
    using A i assms(3) sorted onlyWithin_set [OF within] onlyWithin_length [OF within]
    by (intro runs_insertElement) auto
  then show ?case
    unfolding st prod.case
    by (rule runs_bindM)
      (use i onlyWithin_trans [OF within onlyWithin_wider] in auto)
qed auto

lemma runs_sortChunks:
  assumes A: "set xs \<subseteq> A" and "n = length xs"
  shows "runs (sortChunks c n xs) v E (\<lambda>ys. rearranged A ok le xs ys \<and> inRuns ok le INS_SORT_LIMIT ys)"
  unfolding sortChunks_def
proof (rule runs_bindM, rule runs_whileE [where f = "\<lambda>(ys, lo). n - lo"
      and P = "\<lambda>(ys, lo). rearranged A ok le xs ys \<and> INS_SORT_LIMIT dvd lo \<and> inRuns ok le INS_SORT_LIMIT (take lo ys)"
      and Q = "\<lambda>(ys, lo). rearranged A ok le xs ys \<and> inRuns ok le INS_SORT_LIMIT ys"], goal_cases)
  case 1
  then show ?case by (simp add: inRuns_def)
next
  case (2 st)
  then obtain ys lo where st: "st = (ys, lo)" and re: "rearranged A ok le xs ys" and lo: "lo < n" "INS_SORT_LIMIT dvd lo"
    and sorted: "inRuns ok le INS_SORT_LIMIT (take lo ys)"
    by (cases st) auto
  define hi where "hi = (if lo + INS_SORT_LIMIT \<ge> n then n else lo + INS_SORT_LIMIT)"
  have limit: "0 < INS_SORT_LIMIT" by (simp add: INS_SORT_LIMIT_def)
  have hi: "lo < hi" "hi \<le> lo + INS_SORT_LIMIT" "hi \<le> n" "hi = n \<or> hi = lo + INS_SORT_LIMIT"
    using lo limit by (auto simp: hi_def)
  have "runs (sortChunk c lo hi ys) v E (\<lambda>zs. onlyWithin A ok le lo hi ys zs \<and> sortedOn ok le lo hi zs)"
    using A hi rearranged_set [OF re] rearranged_length [OF re] assms(2) by (intro runs_sortChunk) auto
  moreover have "inRuns ok le INS_SORT_LIMIT (take (lo + INS_SORT_LIMIT) zs)"
    if within: "onlyWithin A ok le lo hi ys zs" and on: "sortedOn ok le lo hi zs" for zs
  proof -
    have "inRuns ok le INS_SORT_LIMIT (take hi zs)"
      using rearranged_length [OF re] assms(2) hi by (intro inRuns_extend [OF sorted lo(2) limit _ _ _ within on]) auto
    then show ?thesis
      using hi rearranged_length [OF re] onlyWithin_length [OF within] assms(2) by auto
  qed
  ultimately show ?case
    unfolding st prod.case Let_def hi_def [symmetric]
    by (elim runs_bindM) (use lo limit rearranged_trans [OF re] in \<open>auto simp: onlyWithin_def\<close>)
next
  case (3 st)
  then show ?case using assms(2) rearranged_length by (cases st) fastforce
qed auto

lemma runs_MergeArrayRuns:
  assumes src: "s + run1 + run2 \<le> length src" and dst: "d + run1 + run2 \<le> length dst"
    and A: "set (take (run1 + run2) (drop s src)) \<subseteq> A" and pos: "0 < run1" "0 < run2"
    and sorted: "ok \<longrightarrow> sorted_wrt le (take run1 (drop s src))" "ok \<longrightarrow> sorted_wrt le (take run2 (drop (s + run1) src))"
  shows "runs (MergeArrayRuns dst d src s run1 run2 c) v E (\<lambda>dst'. \<exists>zs. dst' = patch dst d zs
    \<and> rearranged A ok le (take (run1 + run2) (drop s src)) zs \<and> (ok \<longrightarrow> sorted_wrt le zs))"
proof -
  let ?xs = "take run1 (drop s src)" and ?ys = "take run2 (drop (s + run1) src)"
  have split: "take (run1 + run2) (drop s src) = ?xs @ ?ys"
    by (simp add: take_add ac_simps)
  have sub: "set ?xs \<subseteq> A" "set ?ys \<subseteq> A" using A unfolding split by auto
  have mem: "src ! i \<in> A" if "s \<le> i" "i < s + run1 + run2" for i
    using A that src nth_mem [of "i - s" "take (run1 + run2) (drop s src)"] by auto
  have loop: "runs (whileE merging (mergeStep src c) (dst, d, s, s + run1, run1, run2, None)) v E
      (\<lambda>st. mergeInv ok le dst d src s run1 run2 st \<and> \<not> merging st)"
  proof (rule runs_whileE [where f = "\<lambda>(dst, d, a, b, r1, r2, left). r1 + r2"
        and P = "mergeInv ok le dst d src s run1 run2"], goal_cases)
    case 1
    then show ?case using pos by (auto simp: mergeInv_def)
  next
    case (2 st)
    then show ?case
      using runs_mergeStep [OF src dst A] by (cases st) auto
  qed simp
  have first: "s + run1 - 1 < length src" "s + run1 < length src" using pos src by auto
  have "src ! (s + run1 - 1) \<in> A" "src ! (s + run1) \<in> A" using pos by (auto intro!: mem)
  then have c: "runs (c (src ! (s + run1 - 1)) (src ! (s + run1))) v E
      (\<lambda>r. ok \<longrightarrow> r = le (src ! (s + run1 - 1)) (src ! (s + run1)))"
    by (rule answers)
  have inOrder: "sorted_wrt le (take (run1 + run2) (drop s src))"
    if ok and le: "le (src ! (s + run1 - 1)) (src ! (s + run1))"
  proof -
    have "le x y" if x: "x \<in> set ?xs" and y: "y \<in> set ?ys" for x y
    proof -
      obtain i where i: "i < run1" "x = ?xs ! i" using x src by (auto simp: in_set_conv_nth)
      obtain j where j: "j < run2" "y = ?ys ! j" using y src by (auto simp: in_set_conv_nth)
      note pre = totalPreorder_trans [OF preorder [OF \<open>ok\<close>]] totalPreorder_refl [OF preorder [OF \<open>ok\<close>]]
      have "le x (src ! (s + run1 - 1))"
      proof (cases "i = run1 - 1")
        case True
        then show ?thesis using i pos src pre(2) [OF mem [of "s + run1 - 1"]] by (simp add: add_diff_assoc)
      next
        case False
        then show ?thesis
          using sorted(1) \<open>ok\<close> i src pos sorted_wrt_nth_less [of le ?xs i "run1 - 1"] by (simp add: add_diff_assoc)
      qed
      moreover have "le (src ! (s + run1)) y"
      proof (cases "j = 0")
        case True
        then show ?thesis using j pos src pre(2) [OF mem [of "s + run1"]] by simp
      next
        case False
        then show ?thesis
          using sorted(2) \<open>ok\<close> j src pos sorted_wrt_nth_less [of le ?ys 0 j] by simp
      qed
      moreover have "x \<in> A" "y \<in> A" "src ! (s + run1 - 1) \<in> A" "src ! (s + run1) \<in> A"
        using x y sub pos by (auto intro!: mem)
      ultimately show ?thesis using le pre(1) by metis
    qed
    then show ?thesis using sorted \<open>ok\<close> unfolding split by (simp add: sorted_wrt_append)
  qed
  have copy: "CopyNonEmptyArray dst d src s (run1 + run2) = returnM (patch dst d (take (run1 + run2) (drop s src)))"
    using pos src dst by (intro CopyNonEmptyArray_eq) auto
  have finish: "runs (CopyNonEmptyArray dst' d' src (the left) (r1 + r2)) v E (\<lambda>dst'. \<exists>zs. dst' = patch dst d zs
      \<and> rearranged A ok le (take (run1 + run2) (drop s src)) zs \<and> (ok \<longrightarrow> sorted_wrt le zs))"
    if inv: "mergeInv ok le dst d src s run1 run2 (dst', d', a, b, r1, r2, left)" and "left \<noteq> None" for dst' d' a b r1 r2 left
  proof -
    from that obtain l ms where l: "left = Some l" "r1 = 0 \<and> 0 < r2 \<and> l = b \<or> r2 = 0 \<and> 0 < r1 \<and> l = a"
      and ab: "s \<le> a" "a + r1 = s + run1" "s + run1 \<le> b" "b + r2 = s + run1 + run2"
      and ms: "length ms + r1 + r2 = run1 + run2" "dst' = patch dst d ms" "d' = d + length ms"
      and I: "\<And>zs. interleaved ok le (take r1 (drop a src)) (take r2 (drop b src)) zs \<Longrightarrow> interleaved ok le ?xs ?ys (ms @ zs)"
      by (auto simp: mergeInv_def)
    have "interleaved ok le (take r1 (drop a src)) (take r2 (drop b src)) (take (r1 + r2) (drop l src))"
      using l(2) by (auto intro: interleaved.leftDone interleaved.rightDone)
    note zs = I [OF this]
    have "CopyNonEmptyArray dst' d' src (the left) (r1 + r2) = returnM (patch dst' d' (take (r1 + r2) (drop l src)))"
      using l ab ms src dst by (simp, intro CopyNonEmptyArray_eq) auto
    also have "patch dst' d' (take (r1 + r2) (drop l src)) = patch dst d (ms @ take (r1 + r2) (drop l src))"
      using ms dst by (simp add: patch_patch)
    finally show ?thesis
      using merged [OF zs sub sorted] unfolding split by auto
  qed
  show ?thesis
    unfolding MergeArrayRuns_def using pos first
    apply (simp add: Let_def Suc_le_eq del: One_nat_def)
    apply (rule runs_bindM [OF c])
    apply (intro runs_if)
     apply (rule runs_bindM [OF loop])
    subgoal for r st by (cases st) (auto intro!: finish)
    subgoal for r using inOrder by (auto simp: copy)
    done
qed

end


section \<open>The passes\<close>

text \<open>A pass has filled \<open>vec2\<close> up to \<open>length zs\<close> with runs of twice the length.\<close>

definition passInv ::
  "'a set \<Rightarrow> bool \<Rightarrow> ('a \<Rightarrow> 'a \<Rightarrow> bool) \<Rightarrow> nat \<Rightarrow> 'a list \<Rightarrow> 'a list \<Rightarrow> 'a list \<Rightarrow> nat \<Rightarrow> bool" where
  "passInv A ok le run vec1 vec2 vec2' k \<longleftrightarrow>
     (\<exists>zs. vec2' = patch vec2 0 zs \<and> length zs = k \<and> rearranged A ok le (take k vec1) zs \<and> inRuns ok le (2 * run) zs)"

lemma passInv_extend:
  assumes "passInv A ok le run vec1 vec2 vec2' k" and "2 * run dvd k" and "0 < run"
    and "k + m \<le> length vec1" and "length vec2 = length vec1" and "m \<le> 2 * run"
    and ws: "rearranged A ok le (take m (drop k vec1)) ws" "ok \<longrightarrow> sorted_wrt le ws"
  shows "passInv A ok le run vec1 vec2 (patch vec2' k ws) (k + m)"
proof -
  from assms(1) obtain zs where zs: "vec2' = patch vec2 0 zs" "length zs = k" "rearranged A ok le (take k vec1) zs"
    "inRuns ok le (2 * run) zs" by (auto simp: passInv_def)
  have "length ws = m" using rearranged_length [OF ws(1)] assms(4) by simp
  moreover have "patch vec2' k ws = patch vec2 0 (zs @ ws)"
    using zs patch_patch [of 0 zs vec2 ws] assms(4,5) by simp
  moreover have "rearranged A ok le (take (k + m) vec1) (zs @ ws)"
    using rearranged_append [OF zs(3) ws(1)] by (simp add: take_add)
  moreover have "inRuns ok le (2 * run) (zs @ ws)"
    using zs assms calculation(1) by (intro inRuns_append) auto
  ultimately show ?thesis using zs(2) by (auto simp: passInv_def)
qed

context comparator
begin

lemma runs_mergePass:
  assumes A: "set vec1 \<subseteq> A" and n: "n = length vec1" "length vec2 = n" and "0 < run"
    and sorted: "inRuns ok le run vec1"
  shows "runs (mergePass c n run vec1 vec2) v E (\<lambda>ys. rearranged A ok le vec1 ys \<and> inRuns ok le (2 * run) ys)"
  unfolding mergePass_def
proof (rule runs_bindM, rule runs_whileE [where f = "\<lambda>(ys, lo, broke). if broke then 0 else Suc n - lo"
      and P = "\<lambda>(ys, lo, broke). if broke then passInv A ok le run vec1 vec2 ys n
        else 2 * run dvd lo \<and> passInv A ok le run vec1 vec2 ys (min lo n)"
      and Q = "\<lambda>(ys, lo, broke). passInv A ok le run vec1 vec2 ys n"], goal_cases)
  case 1
  then show ?case by (simp add: passInv_def inRuns_def)
next
  case (2 st)
  then obtain ys lo where st: "st = (ys, lo, False)" and lo: "2 * run dvd lo" "lo < n"
    and inv: "passInv A ok le run vec1 vec2 ys lo"
    by (cases st) (auto split: if_splits)
  have len: "length ys = n" using inv lo n by (auto simp: passInv_def)
  have sub: "set (take k (drop lo vec1)) \<subseteq> A" for k
    using A set_take_subset set_drop_subset by (metis subset_trans)
  note add = passInv_extend [OF inv lo(1) \<open>0 < run\<close>]
  have dvd: "run dvd lo" "run dvd lo + run" using lo(1) by (auto dest: dvd_mult_right)
  note seg = inRuns_run [OF sorted dvd(1) \<open>0 < run\<close>] inRuns_run [OF sorted dvd(2) \<open>0 < run\<close>]
  show ?case
  proof (cases "lo + run \<ge> n")
    case True
    have "CopyNonEmptyArray ys lo vec1 lo (n - lo) = returnM (patch ys lo (take (n - lo) (drop lo vec1)))"
      using lo n len by (intro CopyNonEmptyArray_eq) auto
    moreover have "passInv A ok le run vec1 vec2 (patch ys lo (take (n - lo) (drop lo vec1))) (lo + (n - lo))"
      using True lo n seg(1) by (intro add) auto
    ultimately show ?thesis using True lo unfolding st by (simp add: Let_def)
  next
    case False
    define run2 where "run2 = (if run \<le> n - (lo + run) then run else n - (lo + run))"
    have run2: "0 < run2" "run2 \<le> run" "lo + run + run2 \<le> n" "run2 = run \<or> lo + run + run2 = n"
      using False \<open>0 < run\<close> by (auto simp: run2_def)
    have "take run2 (drop (lo + run) vec1) = take run2 (take run (drop (lo + run) vec1))"
      using run2(2) by (simp add: min_absorb1)
    then have "ok \<longrightarrow> sorted_wrt le (take run2 (drop (lo + run) vec1))"
      using seg(2) by (metis append_take_drop_id sorted_wrt_append)
    then have "runs (MergeArrayRuns ys lo vec1 lo run run2 c) v E (\<lambda>dst'. \<exists>zs. dst' = patch ys lo zs
      \<and> rearranged A ok le (take (run + run2) (drop lo vec1)) zs \<and> (ok \<longrightarrow> sorted_wrt le zs))"
      using run2 \<open>0 < run\<close> n len seg(1) sub by (intro runs_MergeArrayRuns) auto
    moreover have "passInv A ok le run vec1 vec2 (patch ys lo zs) (min (lo + 2 * run) n)"
      if "rearranged A ok le (take (run + run2) (drop lo vec1)) zs" "ok \<longrightarrow> sorted_wrt le zs" for zs
    proof -
      have "lo + (run + run2) = min (lo + 2 * run) n" using run2 by auto
      then show ?thesis using add [of "run + run2" zs] that run2 n by simp
    qed
    ultimately show ?thesis
      using False lo \<open>0 < run\<close> unfolding st prod.case Let_def run2_def [symmetric]
      by (simp, elim runs_bindM) auto
  qed
next
  case (3 st)
  then show ?case by (cases st) (auto simp: min_def split: if_splits)
next
  case (4 st)
  then show ?case using n by (cases st) (auto simp: passInv_def patch_def)
qed

lemma runs_mergePasses:
  assumes A: "set xs \<subseteq> A" and n: "n = length xs" "length scratch = n" and "inRuns ok le INS_SORT_LIMIT xs"
  shows "runs (mergePasses c n xs scratch) v E (\<lambda>(vec1, vec2, swapped, run).
    rearranged A ok le xs vec1 \<and> (ok \<longrightarrow> sorted_wrt le vec1) \<and> length vec2 = n)"
  unfolding mergePasses_def
proof (rule runs_whileE [where f = "\<lambda>(vec1, vec2, swapped, run). n - run"
      and P = "\<lambda>(vec1, vec2, swapped, run).
        rearranged A ok le xs vec1 \<and> inRuns ok le run vec1 \<and> length vec2 = n \<and> 0 < run"], goal_cases)
  case 1
  then show ?case using assms by (simp add: INS_SORT_LIMIT_def)
next
  case (2 st)
  then obtain vec1 vec2 swapped run where st: "st = (vec1, vec2, swapped, run)" and re: "rearranged A ok le xs vec1"
    and *: "inRuns ok le run vec1" "length vec2 = n" "0 < run" "run < n"
    by (cases st) auto
  have "runs (mergePass c n run vec1 vec2) v E (\<lambda>ys. rearranged A ok le vec1 ys \<and> inRuns ok le (2 * run) ys)"
    using A n * rearranged_set [OF re] rearranged_length [OF re] by (intro runs_mergePass) auto
  then show ?case
    unfolding st prod.case
    by (rule runs_bindM)
      (use * rearranged_trans [OF re] rearranged_length [OF re] n in \<open>auto simp: mult.commute\<close>)
next
  case (3 st)
  then obtain vec1 vec2 swapped run where st: "st = (vec1, vec2, swapped, run)" and re: "rearranged A ok le xs vec1"
    and *: "inRuns ok le run vec1" "length vec2 = n" "n \<le> run"
    by (cases st) auto
  then show ?case using n rearranged_length [OF re] by (simp add: inRuns_whole)
qed

lemma runs_MergeSort:
  assumes A: "set xs \<subseteq> A" and "n = length xs" "length scratch = n"
  shows "runs (MergeSort xs n scratch c) v E (\<lambda>(ys, scratch').
    rearranged A ok le xs ys \<and> (ok \<longrightarrow> sorted_wrt le ys) \<and> length scratch' = n)"
proof (cases "n \<le> 1")
  case True
  then show ?thesis using assms by (cases xs) (auto simp: MergeSort_def)
next
  case False
  have copy: "CopyNonEmptyArray vec2 0 vec1 0 n = returnM vec1" if "length vec1 = n" "length vec2 = n" for vec1 vec2 :: "'a list"
    using that False CopyNonEmptyArray_eq [of n 0 vec1 0 vec2] by (simp add: patch_def)
  have "runs (bindM (mergePasses c n ys scratch) (\<lambda>(vec1, vec2, swapped, run).
        if swapped then bindM (CopyNonEmptyArray vec2 0 vec1 0 n) (\<lambda>array. returnM (array, vec1))
        else returnM (vec1, vec2))) v E
      (\<lambda>(zs, scratch'). rearranged A ok le xs zs \<and> (ok \<longrightarrow> sorted_wrt le zs) \<and> length scratch' = n)"
    if re: "rearranged A ok le xs ys" "inRuns ok le INS_SORT_LIMIT ys" for ys
  proof (rule runs_bindM [OF runs_mergePasses])
    show "set ys \<subseteq> A" "n = length ys" "length scratch = n" "inRuns ok le INS_SORT_LIMIT ys"
      using assms re rearranged_length [OF re(1)] rearranged_set [OF re(1)] by auto
    fix st :: "'a list \<times> 'a list \<times> bool \<times> nat"
    obtain vec1 vec2 swapped run where st: "st = (vec1, vec2, swapped, run)" by (cases st)
    assume "case st of (vec1, vec2, swapped, run) \<Rightarrow>
      rearranged A ok le ys vec1 \<and> (ok \<longrightarrow> sorted_wrt le vec1) \<and> length vec2 = n"
    then have vec: "rearranged A ok le xs vec1" "ok \<longrightarrow> sorted_wrt le vec1" "length vec2 = n"
      using rearranged_trans [OF re(1)] by (auto simp: st)
    moreover have "length vec1 = n" using rearranged_length [OF vec(1)] assms(2) by simp
    ultimately show "runs (case st of (vec1, vec2, swapped, run) \<Rightarrow>
        if swapped then bindM (CopyNonEmptyArray vec2 0 vec1 0 n) (\<lambda>array. returnM (array, vec1))
        else returnM (vec1, vec2)) v E
      (\<lambda>(zs, scratch'). rearranged A ok le xs zs \<and> (ok \<longrightarrow> sorted_wrt le zs) \<and> length scratch' = n)"
      by (simp add: st copy)
  qed
  then show ?thesis
    using False assms unfolding MergeSort_def by (simp, intro runs_bindM [OF runs_sortChunks]) auto
qed

end

section \<open>What MergeSort does\<close>

text \<open>
  C7. \<open>MergeSort\<close> is a stable sort: with a comparator that answers like a total preorder on the elements,
  and that may stop with an error, the call ends, touches nothing outside its arrays, and either
  stops with the comparator's error or leaves in \<open>array\<close> the same elements, in ascending order, those that
  compare equal in the order they had.
\<close>

theorem MergeSort_stable:
  assumes "\<forall>x \<in> set xs. \<forall>y \<in> set xs. runs (c x y) v E (\<lambda>lessOrEqual. lessOrEqual = le x y)"
    and "totalPreorder (set xs) le"
    and "length scratch = length xs"
  shows "runs (MergeSort xs (length xs) scratch c) v E (\<lambda>(ys, scratch').
    stableSorted le xs ys \<and> length scratch' = length xs)"
proof -
  have "comparator c v E (set xs) True le"
    using assms(1,2) by (intro comparator.intro) auto
  from comparator.runs_MergeSort [OF this subset_refl refl assms(3)] show ?thesis
    by (rule runs_weakenQ) (auto simp: stableSorted_def rearranged_def)
qed

text \<open>
  Whatever the comparator answers, the call ends within the arrays and the result is a rearrangement of the
  elements: an inconsistent comparator cannot lose or duplicate an element.
\<close>

theorem MergeSort_rearranges:
  assumes "\<forall>x \<in> set xs. \<forall>y \<in> set xs. runs (c x y) v E (\<lambda>_. True)" and "length scratch = length xs"
  shows "runs (MergeSort xs (length xs) scratch c) v E (\<lambda>(ys, scratch'). mset ys = mset xs \<and> length scratch' = length xs)"
proof -
  have "comparator c v E (set xs) False (\<lambda>_ _. True)"
    using assms(1) by (intro comparator.intro) auto
  from comparator.runs_MergeSort [OF this subset_refl refl assms(2)] show ?thesis
    by (rule runs_weakenQ) (auto simp: rearranged_def)
qed

text \<open>A comparator on pairs that looks at the first component only, to see the stability.\<close>

definition byFirst :: "(nat \<times> nat) comparator" where
  "byFirst a b = returnM (fst a \<le> fst b)"

lemma MergeSort_stable_witness:
  "runs (MergeSort [(3, 0), (1, 1), (3, 2), (2, 3), (1, 4)] 5 (replicate 5 (0, 0)) byFirst)
     \<lparr>allocOk = \<lambda>_. True, junk = \<lambda>_ _. 0\<rparr> (\<lambda>_. False)
     (\<lambda>(ys, scratch'). stableSorted (\<lambda>a b. fst a \<le> fst b) [(3, 0), (1, 1), (3, 2), (2, 3), (1, 4)] ys \<and> length scratch' = 5)"
  using MergeSort_stable [of "[(3, 0), (1, 1), (3, 2), (2, 3), (1, 4)]" byFirst _ _ "\<lambda>a b. fst a \<le> fst b" "replicate 5 (0, 0)"]
  by (simp add: byFirst_def totalPreorder_def eval_nat_numeral)


end
