(* ===== verification/LexicographicInt32.thy ===== *)
theory LexicographicInt32
  imports MathAlgorithms MergeSort BigInt_Value
begin

text \<open>
  The order of \<open>Array.prototype.sort\<close> without a comparison function is the order of the elements' strings.
  \<open>js/src/builtin/Array.cpp\<close> compares two int32 elements without making the strings:
  \<open>CompareLexicographicInt32\<close> scales the one with fewer decimal digits.  Here it is modelled with
  \<open>CompareChars\<close> (\<open>js/src/util/Text.h\<close>), which compares strings, and proved to give what \<open>CompareChars\<close>
  gives on the strings that \<open>Int32ToString\<close> makes.
\<close>

section \<open>Comparing strings\<close>

definition CompareChars :: "jschars \<Rightarrow> jschars \<Rightarrow> u32" where
  "CompareChars s1 s2 =
     (let n = min (length s1) (length s2) in
      case find (\<lambda>i. (ucast (s1 ! i) - ucast (s2 ! i) :: u32) \<noteq> 0) [0..<n] of
        Some i \<Rightarrow> ucast (s1 ! i) - ucast (s2 ! i)
      | None \<Rightarrow> of_nat (length s1) - of_nat (length s2))"

section \<open>Comparing int32 values\<close>

definition powersOf10 :: "u64 list" where
  "powersOf10 = [1, 10, 100, 1000, 10000, 100000, 1000000, 10000000, 100000000, 1000000000, 1000000000000]"

definition NumDigitsBase10 :: "u32 \<Rightarrow> u32 eng" where
  "NumDigitsBase10 n =
     (let log2 = of_nat (CeilingLog2 n) :: u32;
          t = drop_bit 12 (log2 * 1233) in
      bindM (ptrGet powersOf10 (unat t)) (\<lambda>p.
      returnM (t - (if ucast n < p then 1 else 0) + 1)))"

text \<open>
  Two different magnitudes: the one with fewer digits is scaled to as many digits as the other has, so that
  the product fits in 64 bits.
\<close>

definition compareMagnitudes :: "u32 \<Rightarrow> u32 \<Rightarrow> bool eng" where
  "compareMagnitudes auint buint =
     bindM (NumDigitsBase10 auint) (\<lambda>digitsa. bindM (NumDigitsBase10 buint) (\<lambda>digitsb.
     if digitsa = digitsb then returnM (auint \<le> buint)
     else if digitsb < digitsa then
       mozAssert (unat (digitsa - digitsb) < length powersOf10)
       (bindM (ptrGet powersOf10 (unat (digitsa - digitsb))) (\<lambda>p.
        returnM ((ucast auint :: u64) < ucast buint * p)))
     else
       mozAssert (unat (digitsb - digitsa) < length powersOf10)
       (bindM (ptrGet powersOf10 (unat (digitsb - digitsa))) (\<lambda>p.
        returnM ((ucast auint :: u64) * p \<le> ucast buint)))))"

fun toInt32 :: "jsvalue \<Rightarrow> u32 eng" where
  "toInt32 (Int32Value i) = returnM i"
| "toInt32 _ = throwM AssertFail"

definition CompareLexicographicInt32 :: "jsvalue comparator" where
  "CompareLexicographicInt32 a b =
     bindM (toInt32 a) (\<lambda>aint. bindM (toInt32 b) (\<lambda>bint.
     if aint = bint then returnM True
     else if aint <s 0 \<and> 0 \<le>s bint then returnM True
     else if 0 \<le>s aint \<and> bint <s 0 then returnM False
     else
       let auint = AbsInt32 aint; buint = AbsInt32 bint in compareMagnitudes auint buint))"

section \<open>The order of strings\<close>

text \<open>The order that \<open>CompareChars\<close> computes: by code units, a proper beginning first.\<close>

fun textLE :: "jschars \<Rightarrow> jschars \<Rightarrow> bool" where
  "textLE [] ys = True"
| "textLE (x # xs) [] = False"
| "textLE (x # xs) (y # ys) = (x < y \<or> x = y \<and> textLE xs ys)"

lemma textLE_refl [simp]: "textLE xs xs"
  by (induction xs) auto

lemma textLE_total: "textLE xs ys \<or> textLE ys xs"
  by (induction xs ys rule: textLE.induct) auto

lemma textLE_trans: "textLE xs ys \<Longrightarrow> textLE ys zs \<Longrightarrow> textLE xs zs"
proof (induction xs ys arbitrary: zs rule: textLE.induct)
  case (3 x xs y ys)
  then show ?case by (cases zs) auto
qed auto

lemma textLE_antisym: "textLE xs ys \<Longrightarrow> textLE ys xs \<Longrightarrow> xs = ys"
proof (induction xs ys rule: textLE.induct)
  case (1 ys)
  then show ?case by (cases ys) auto
qed auto

lemma sint_difference:
  assumes "a < 2 ^ 31" and "b < 2 ^ 31"
  shows "sint (of_nat a - of_nat b :: u32) = int a - int b"
proof -
  have "(of_nat a - of_nat b :: u32) = of_int (int a - int b)" by simp
  then have "sint (of_nat a - of_nat b :: u32) = signed_take_bit 31 (int a - int b)"
    by (simp only: signed_of_int) simp
  also have "\<dots> = int a - int b" using assms by (intro signed_take_bit_int_eq_self) simp_all
  finally show ?thesis .
qed

lemma unit_difference:
  fixes x y :: u16
  shows "(ucast x - ucast y :: u32) = 0 \<longleftrightarrow> x = y" and "sint (ucast x - ucast y :: u32) \<le> 0 \<longleftrightarrow> x \<le> y"
proof -
  have x: "unat x < 2 ^ 16" "unat y < 2 ^ 16" using unsigned_less [of x] unsigned_less [of y] by simp_all
  then have "sint (of_nat (unat x) - of_nat (unat y) :: u32) = int (unat x) - int (unat y)"
    by (intro sint_difference) auto
  then have "sint (ucast x - ucast y :: u32) = int (unat x) - int (unat y)" by (simp only: of_nat_unat)
  note s = this
  show "sint (ucast x - ucast y :: u32) \<le> 0 \<longleftrightarrow> x \<le> y" by (simp add: s word_le_def)
  show "(ucast x - ucast y :: u32) = 0 \<longleftrightarrow> x = y"
  proof
    assume "(ucast x - ucast y :: u32) = 0"
    then have "int (unat x) - int (unat y) = 0" using s by simp
    then have "unat x = unat y" by linarith
    then show "x = y" by (rule unsigned_word_eqI)
  qed simp
qed

lemma textLE_first_difference:
  assumes "\<And>j. j < i \<Longrightarrow> s1 ! j = s2 ! j" and "i < length s1" "i < length s2" and "s1 ! i \<noteq> s2 ! i"
  shows "textLE s1 s2 \<longleftrightarrow> s1 ! i < s2 ! i"
  using assms
proof (induction i arbitrary: s1 s2)
  case 0
  then show ?case by (cases s1; cases s2) auto
next
  case (Suc i)
  obtain x xs y ys where s: "s1 = x # xs" "s2 = y # ys" using Suc.prems(2,3) by (cases s1; cases s2) auto
  have "x = y" using Suc.prems(1) [of 0] s by simp
  moreover have "textLE xs ys \<longleftrightarrow> xs ! i < ys ! i"
    using Suc.prems(1) [of "Suc j" for j] Suc.prems(2-4) s by (intro Suc.IH) auto
  ultimately show ?case by (simp add: s)
qed

lemma textLE_prefix:
  assumes "\<And>j. j < min (length s1) (length s2) \<Longrightarrow> s1 ! j = s2 ! j"
  shows "textLE s1 s2 \<longleftrightarrow> length s1 \<le> length s2"
  using assms
proof (induction s1 s2 rule: textLE.induct)
  case (3 x xs y ys)
  have "x = y" using "3.prems" [of 0] by simp
  moreover have "textLE xs ys \<longleftrightarrow> length xs \<le> length ys" if "x = y"
    using "3.prems" [of "Suc j" for j] that by (intro "3.IH") auto
  ultimately show ?case by simp
qed auto

lemma CompareChars_sign:
  assumes "length s1 < 2 ^ 31" and "length s2 < 2 ^ 31"
  shows "sint (CompareChars s1 s2) \<le> 0 \<longleftrightarrow> textLE s1 s2"
proof (cases "find (\<lambda>i. (ucast (s1 ! i) - ucast (s2 ! i) :: u32) \<noteq> 0) [0..<min (length s1) (length s2)]")
  case None
  then have "s1 ! j = s2 ! j" if "j < min (length s1) (length s2)" for j
    using that unit_difference(1) by (auto simp: find_None_iff simp del: right_minus_eq)
  moreover have "sint (of_nat (length s1) - of_nat (length s2) :: u32) = int (length s1) - int (length s2)"
    using assms by (rule sint_difference)
  ultimately show ?thesis using None textLE_prefix [of s1 s2] by (simp add: CompareChars_def)
next
  case (Some i)
  then have i: "i < min (length s1) (length s2)" "s1 ! i \<noteq> s2 ! i" "\<And>j. j < i \<Longrightarrow> s1 ! j = s2 ! j"
    using unit_difference(1) by (auto simp: find_Some_iff simp del: right_minus_eq)
  then have "textLE s1 s2 \<longleftrightarrow> s1 ! i < s2 ! i" by (intro textLE_first_difference) auto
  then show ?thesis using Some i(2) by (auto simp: CompareChars_def unit_difference)
qed

lemma textLE_append_left:
  "length xs = length ys \<Longrightarrow> zs \<noteq> [] \<Longrightarrow> textLE (xs @ zs) ys \<longleftrightarrow> \<not> textLE ys xs"
  by (induction xs ys rule: list_induct2) (cases zs, auto)

lemma textLE_append_right: "length xs = length ys \<Longrightarrow> textLE xs (ys @ zs) \<longleftrightarrow> textLE xs ys"
  by (induction xs ys rule: list_induct2) auto

section \<open>Decimal strings\<close>

definition decimal :: "nat \<Rightarrow> nat \<Rightarrow> jschars" where
  "decimal L n = rev (map charOf (lowDigits 10 L n))"

lemma length_decimal_text [simp]: "length (decimal L n) = L"
  by (simp add: decimal_def)

lemma decimal_Suc: "decimal (Suc L) n = charOf (n div 10 ^ L mod 10) # decimal L n"
  by (simp add: decimal_def lowDigits_Suc)

lemma charOf_less: "a < 10 \<Longrightarrow> b < 10 \<Longrightarrow> charOf a < charOf b \<longleftrightarrow> a < b"
  by (simp add: charOf_decimal word_less_nat_alt unat_word_ariths unat_of_nat of_char_def)

lemma charOf_eq: "a < 10 \<Longrightarrow> b < 10 \<Longrightarrow> charOf a = charOf b \<longleftrightarrow> a = b"
  using charOf_less [of a b] charOf_less [of b a] by (metis less_irrefl linorder_neqE_nat)

lemma textLE_decimal: "textLE (decimal L a) (decimal L b) \<longleftrightarrow> a mod 10 ^ L \<le> b mod 10 ^ L"
proof (induction L)
  case 0
  then show ?case by (simp add: decimal_def)
next
  case (Suc L)
  have split: "n mod 10 ^ Suc L = n div 10 ^ L mod 10 * 10 ^ L + n mod 10 ^ L" for n :: nat
    by (simp add: mod_mult2_eq mult.commute [of 10])
  have "x * 10 ^ L + a mod 10 ^ L \<le> y * 10 ^ L + b mod 10 ^ L \<longleftrightarrow> x < y \<or> x = y \<and> a mod 10 ^ L \<le> b mod 10 ^ L" for x y :: nat
  proof (cases x y rule: linorder_cases)
    case less
    then have "x * 10 ^ L + 10 ^ L \<le> y * 10 ^ L" by (metis Suc_leI add.commute mult_Suc mult_le_mono1)
    moreover have "a mod 10 ^ L < 10 ^ L" by simp
    ultimately have "x * 10 ^ L + a mod 10 ^ L \<le> y * 10 ^ L + b mod 10 ^ L" by linarith
    with less show ?thesis by simp
  next
    case greater
    then have "y * 10 ^ L + 10 ^ L \<le> x * 10 ^ L" by (metis Suc_leI add.commute mult_Suc mult_le_mono1)
    moreover have "b mod 10 ^ L < 10 ^ L" by simp
    ultimately have "\<not> x * 10 ^ L + a mod 10 ^ L \<le> y * 10 ^ L + b mod 10 ^ L" by linarith
    with greater show ?thesis by simp
  qed simp
  then show ?case
    unfolding decimal_Suc textLE.simps Suc.IH split by (simp add: charOf_less charOf_eq)
qed

lemma decimal_split: "decimal (L + k) n = decimal L (n div 10 ^ k) @ decimal k n"
proof (induction L)
  case 0
  then show ?case by (simp add: decimal_def)
next
  case (Suc L)
  then show ?case by (simp add: decimal_Suc add.commute [of L] power_add div_mult2_eq del: add.commute)
qed

lemma textLE_shorter:
  "a < 10 ^ L \<Longrightarrow> b < 10 ^ (L + k) \<Longrightarrow> textLE (decimal L a) (decimal (L + k) b) \<longleftrightarrow> a * 10 ^ k \<le> b"
  by (simp add: decimal_split textLE_append_right textLE_decimal less_mult_imp_div_less power_add
      less_eq_div_iff_mult_less_eq)

lemma textLE_longer:
  assumes "a < 10 ^ (L + k)" and "b < 10 ^ L" and "0 < k"
  shows "textLE (decimal (L + k) a) (decimal L b) \<longleftrightarrow> a < b * 10 ^ k"
proof -
  have "decimal k a \<noteq> []" using assms(3) length_decimal_text [of k a] by (metis length_0_conv less_irrefl)
  then have "textLE (decimal (L + k) a) (decimal L b) \<longleftrightarrow> \<not> b \<le> a div 10 ^ k"
    using assms by (simp add: decimal_split textLE_append_left textLE_decimal less_mult_imp_div_less power_add)
  then show ?thesis by (simp add: not_le div_less_iff_less_mult)
qed


section \<open>Counting decimal digits\<close>

text \<open>\<open>NumDigitsBase10\<close> counts the digits, of zero none; it never reads past the tenth power.\<close>

lemma unat_u32_u64: "unat (ucast (c :: u32) :: u64) = unat c"
  using unsigned_less [of c, where ?'a = nat] by (simp add: unsigned_ucast_eq take_bit_nat_eq_self_iff)

lemma digits_within:
  assumes "0 < n" and "10 ^ k \<le> n" and "n < 10 ^ Suc k"
  shows "length (posDigits 10 n) = Suc k"
proof (rule antisym)
  show "length (posDigits 10 n) \<le> Suc k" using assms(3) by (rule length_decimal)
  show "Suc k \<le> length (posDigits 10 n)"
    using less_length_posDigits [of 10 k n] assms(2) by (simp add: Suc_le_eq)
qed

lemma upto_32: "k < 32 \<Longrightarrow> k = 0 \<or> k = 1 \<or> k = 2 \<or> k = 3 \<or> k = 4 \<or> k = 5 \<or> k = 6 \<or> k = 7 \<or> k = 8 \<or> k = 9
    \<or> k = 10 \<or> k = 11 \<or> k = 12 \<or> k = 13 \<or> k = 14 \<or> k = 15 \<or> k = 16 \<or> k = 17 \<or> k = 18 \<or> k = 19 \<or> k = 20
    \<or> k = 21 \<or> k = 22 \<or> k = 23 \<or> k = 24 \<or> k = 25 \<or> k = 26 \<or> k = 27 \<or> k = 28 \<or> k = 29 \<or> k = 30 \<or> k = (31 :: nat)"
  by presburger

lemma upto_10: "T < 10 \<Longrightarrow> T = 0 \<or> T = 1 \<or> T = 2 \<or> T = 3 \<or> T = 4 \<or> T = 5 \<or> T = 6 \<or> T = 7 \<or> T = 8 \<or> T = (9 :: nat)"
  by presburger

lemma powersOf10_nth:
  assumes "T < 10"
  shows "powersOf10 ! T = 10 ^ T" and "T < length powersOf10" and "unat (10 ^ T :: u64) = 10 ^ T"
  using upto_10 [OF assms] by (elim disjE; simp add: powersOf10_def)+

lemma unat_small: "n < 2 ^ 32 \<Longrightarrow> unat (of_nat n :: u32) = n"
  by (simp add: unat_of_nat)

lemma NumDigits_guess:
  assumes "k < 32"
  shows "unat (drop_bit 12 (of_nat (Suc k) * 1233 :: u32)) = Suc k * 1233 div 4096"
proof -
  have "(of_nat (Suc k) * 1233 :: u32) = of_nat (Suc k * 1233)" by simp
  also have "unat \<dots> = Suc k * 1233" using assms by (intro unat_small) simp
  finally have "unat (of_nat (Suc k) * 1233 :: u32) = Suc k * 1233" .
  then show ?thesis by (simp add: drop_bit_eq_div unat_div_distrib del: of_nat_Suc)
qed

lemma NumDigits_step:
  assumes "t = drop_bit 12 (of_nat (CeilingLog2 n) * 1233 :: u32)" and "unat t = T" and "T < 10"
    and "0 < unat n" and "unat n < 10 ^ Suc T" and "0 < T \<Longrightarrow> 10 ^ (T - 1) \<le> unat n"
  shows "NumDigitsBase10 n = returnM (of_nat (length (posDigits 10 (unat n))))"
proof -
  note p = powersOf10_nth(1,2) [OF assms(3)] and u = powersOf10_nth(3) [OF assms(3)]
  have lt: "(ucast n :: u64) < 10 ^ T \<longleftrightarrow> unat n < 10 ^ T"
    by (simp add: word_less_nat_alt u unat_u32_u64)
  have t: "t = of_nat T" using assms(2) by (metis word_nat_cases unat_of_nat of_nat_unat ucast_id)
  then have ut: "unat (of_nat T :: u32) = T" using assms(2) by simp
  show ?thesis
  proof (cases "unat n < 10 ^ T")
    case True
    then have "T \<noteq> 0" using assms(4) by (cases T) auto
    then have "length (posDigits 10 (unat n)) = T"
      using digits_within [of "unat n" "T - 1"] assms(4,6) True by simp
    then show ?thesis
      using True lt p by (simp add: NumDigitsBase10_def assms(1) [symmetric] ut t Let_def add.commute)
  next
    case False
    then have "length (posDigits 10 (unat n)) = Suc T"
      using assms(4,5) by (intro digits_within) auto
    then show ?thesis
      using False lt p by (simp add: NumDigitsBase10_def assms(1) [symmetric] ut t Let_def add.commute)
  qed
qed

lemma NumDigitsBase10_eq: "NumDigitsBase10 n = returnM (of_nat (length (posDigits 10 (unat n))))"
proof (cases "1 < unat n")
  case True
  then obtain k where k: "CeilingLog2 n = Suc k" "2 ^ k < unat n" "unat n \<le> 2 ^ Suc k" "k < 32"
    by (rule CeilingLog2_spec) simp
  define T where "T = Suc k * 1233 div 4096"
  have "T < 10 \<and> 2 ^ Suc k < (10 :: nat) ^ Suc T \<and> (0 < T \<longrightarrow> 10 ^ (T - 1) \<le> (2 :: nat) ^ k)"
    using upto_32 [OF k(4)] unfolding T_def by (elim disjE; hypsubst; simp)
  then have T: "T < 10" "2 ^ Suc k < (10 :: nat) ^ Suc T" "0 < T \<longrightarrow> 10 ^ (T - 1) \<le> (2 :: nat) ^ k" by blast+
  note u = NumDigits_guess [OF k(4), folded T_def k(1)]
  have "unat n < 10 ^ Suc T" using k(3) T(2) by (rule le_less_trans)
  moreover have "10 ^ (T - 1) \<le> unat n" if "0 < T" using T(3) k(2) that by simp
  ultimately show ?thesis using True by (intro NumDigits_step [OF refl u T(1)]) simp_all
next
  case False
  then consider "unat n = 0" | "unat n = 1" by linarith
  then show ?thesis
  proof cases
    case 1
    then have "n = 0" by (simp add: unat_eq_zero)
    then show ?thesis
      using 1 by (simp add: NumDigitsBase10_def CeilingLog2_def powersOf10_def posDigits.simps [of 10 0])
  next
    case 2
    then have "n = 1" by (metis unat_1 unsigned_word_eqI)
    moreover have "posDigits 10 1 = [1]" by (simp add: posDigits.simps [of 10 "Suc 0"] posDigits.simps [of 10 0])
    ultimately show ?thesis
      using 2 by (simp add: NumDigitsBase10_def CeilingLog2_def powersOf10_def)
  qed
qed

section \<open>The comparison\<close>

lemma AbsInt32_eq: "AbsInt32 x = (if x <s 0 then - x else x)"
proof -
  have "0 \<le>s x \<longleftrightarrow> \<not> x <s 0" by (simp add: word_sle_eq word_sless_alt not_less)
  then show ?thesis by (simp add: AbsInt32_def minus_eq_not_plus_1)
qed

lemma toText_decimal:
  assumes "0 < n"
  shows "toText 10 (withSign s n) = (if s then [minusChar] else []) @ decimal (length (posDigits 10 n)) n"
  using assms by (simp add: toText_nonzero decimal_def posDigits_low)

lemma toText_zero: "toText 10 0 = decimal 1 0"
  by (simp add: toText_def decimal_def lowDigits_def charOf_decimal)

lemma digits_difference:
  fixes m n :: nat
  assumes "n \<le> m" and "m \<le> 10"
  shows "unat (of_nat m - of_nat n :: u32) = m - n"
proof -
  have "(of_nat m - of_nat n :: u32) = of_nat (m - n)" using assms(1) by (simp add: of_nat_diff)
  then show ?thesis using assms by (simp add: unat_small del: of_nat_diff)
qed

lemma scaled_product:
  assumes "unat b < 10 ^ m" and "m + k \<le> 10" and "k < 10"
  shows "unat (ucast (b :: u32) * powersOf10 ! k :: u64) = unat b * 10 ^ k"
proof -
  have "unat b * 10 ^ k < 10 ^ m * 10 ^ k" using assms(1) by simp
  also have "(10 :: nat) ^ m * 10 ^ k = 10 ^ (m + k)" by (simp add: power_add)
  also have "(10 :: nat) ^ (m + k) \<le> 10 ^ 10" using assms(2) by (intro power_increasing) simp_all
  finally have "unat b * 10 ^ k < 2 ^ 64" by simp
  then show ?thesis
    using powersOf10_nth(1,3) [OF assms(3)] by (simp add: unat_word_ariths unat_u32_u64)
qed

lemma length_u32_digits: "length (posDigits 10 (unat (n :: u32))) \<le> 10"
proof -
  have "unat n < 2 ^ 32" using unsigned_less [of n, where ?'a = nat] by simp
  also have "(2 :: nat) ^ 32 < 10 ^ 10" by simp
  finally show ?thesis by (rule length_decimal)
qed

lemma compareMagnitudes_eq:
  assumes "unat a = 0 \<longrightarrow> unat b \<noteq> 0"
  shows "compareMagnitudes a b = returnM (textLE (decimal (max 1 (length (posDigits 10 (unat a)))) (unat a))
    (decimal (max 1 (length (posDigits 10 (unat b)))) (unat b)))"
proof -
  let ?m = "length (posDigits 10 (unat a))" and ?n = "length (posDigits 10 (unat b))"
  have small: "?m \<le> 10" "?n \<le> 10" by (rule length_u32_digits)+
  have ab: "unat a < 10 ^ ?m" "unat b < 10 ^ ?n" by (rule posDigits_bounds(1), simp)+
  have pos: "0 < length (posDigits 10 k) \<longleftrightarrow> 0 < k" for k
    by (subst posDigits.simps) simp
  show ?thesis
  proof (cases ?m ?n rule: linorder_cases)
    case equal
    then have "0 < ?m" using assms pos [of "unat a"] pos [of "unat b"] by auto
    then show ?thesis
      using equal ab by (simp add: compareMagnitudes_def NumDigitsBase10_eq textLE_decimal max_absorb2 Suc_le_eq word_le_nat_alt)
  next
    case less
    then have n: "0 < ?n" by linarith
    define k where "k = ?n - ?m"
    have k: "?m + k = ?n" "k \<le> 10" using less small by (auto simp: k_def)
    have lt: "(of_nat ?m :: u32) < of_nat ?n" "\<not> (of_nat ?n :: u32) < of_nat ?m" "(of_nat ?m :: u32) \<noteq> of_nat ?n"
      using less small by (auto simp: word_less_nat_alt unat_of_nat word_unat_eq_iff)
    have mx: "max 1 ?n = ?n" using n by (simp add: Suc_le_eq)
    have d: "unat (of_nat ?n - of_nat ?m :: u32) = k" using digits_difference [of ?m ?n] less small by (simp add: k_def)
    show ?thesis
    proof (cases "?m = 0")
      case True
      then have a: "unat a = 0" using pos [of "unat a"] by simp
      have "textLE (decimal 1 0) (decimal ?n (unat b))"
      proof -
        have e: "1 + (?n - 1) = ?n" using n by simp
        have "textLE (decimal 1 0) (decimal (1 + (?n - 1)) (unat b)) \<longleftrightarrow> 0 * 10 ^ (?n - 1) \<le> unat b"
          by (rule textLE_shorter) (simp, simp only: e ab)
        then show ?thesis by (simp only: e mult_0 zero_le simp_thms)
      qed
      moreover have "k < length powersOf10" using k by (simp add: powersOf10_def)
      moreover have "a = 0" using a by (simp add: unat_eq_zero)
      ultimately show ?thesis
        using lt d True mx by (simp add: compareMagnitudes_def NumDigitsBase10_eq)
    next
      case False
      then have "k < 10" using k small by linarith
      note p = scaled_product [OF ab(1) _ this, unfolded k(1), OF small(2)] powersOf10_nth(2) [OF this]
      have mx': "max 1 ?m = ?m" using False by (simp add: Suc_le_eq)
      have "textLE (decimal ?m (unat a)) (decimal (?m + k) (unat b)) \<longleftrightarrow> unat a * 10 ^ k \<le> unat b"
        using ab k(1) by (intro textLE_shorter) simp_all
      then show ?thesis
        using lt d p mx mx' k(1)
        by (simp add: compareMagnitudes_def NumDigitsBase10_eq word_le_nat_alt unat_u32_u64)
    qed
  next
    case greater
    then have m: "0 < ?m" by linarith
    define k where "k = ?m - ?n"
    have k: "?n + k = ?m" "k \<le> 10" "0 < k" using greater small by (auto simp: k_def)
    have lt: "(of_nat ?n :: u32) < of_nat ?m" "\<not> (of_nat ?m :: u32) < of_nat ?n" "(of_nat ?m :: u32) \<noteq> of_nat ?n"
      using greater small by (auto simp: word_less_nat_alt unat_of_nat word_unat_eq_iff)
    have mx: "max 1 ?m = ?m" using m by (simp add: Suc_le_eq)
    have d: "unat (of_nat ?m - of_nat ?n :: u32) = k" using digits_difference [of ?n ?m] greater small by (simp add: k_def)
    show ?thesis
    proof (cases "?n = 0")
      case True
      then have b: "unat b = 0" using pos [of "unat b"] by simp
      have "\<not> textLE (decimal ?m (unat a)) (decimal 1 0)"
      proof (cases "?m = 1")
        case True
        then show ?thesis using textLE_decimal [of 1 "unat a" 0] ab(1) assms b by simp
      next
        case False
        have e: "1 + (?m - 1) = ?m" using m by simp
        have "textLE (decimal (1 + (?m - 1)) (unat a)) (decimal 1 0) \<longleftrightarrow> unat a < 0 * 10 ^ (?m - 1)"
          by (rule textLE_longer) (use False m in \<open>simp_all only: e ab\<close>, simp_all)
        then show ?thesis by (simp only: e mult_0 not_less_zero simp_thms)
      qed
      moreover have "k < length powersOf10" using k by (simp add: powersOf10_def)
      moreover have "b = 0" using b by (simp add: unat_eq_zero)
      ultimately show ?thesis
        using lt d True mx by (simp add: compareMagnitudes_def NumDigitsBase10_eq)
    next
      case False
      then have "k < 10" using k small by linarith
      note p = scaled_product [OF ab(2) _ this, unfolded k(1), OF small(1)] powersOf10_nth(2) [OF this]
      have mx': "max 1 ?n = ?n" using False by (simp add: Suc_le_eq)
      have "textLE (decimal (?n + k) (unat a)) (decimal ?n (unat b)) \<longleftrightarrow> unat a < unat b * 10 ^ k"
        using ab k by (intro textLE_longer) simp_all
      then show ?thesis
        using lt d p mx mx' k(1)
        by (simp add: compareMagnitudes_def NumDigitsBase10_eq word_less_nat_alt unat_u32_u64)
    qed
  qed
qed


section \<open>The comparison is that of the strings\<close>

lemma runs_Int32ToString_any:
  assumes E: "\<And>e. oom v e \<Longrightarrow> E e" and Q: "Q (toText 10 (sint si))"
  shows "runs (Int32ToString si) v E Q"
proof (cases "si = 0")
  case True
  have stop: "whileE (\<lambda>(out, index). 0 < index) backfillStep (out, 0 :: u32) = returnM (out, 0)" for out
    by (subst whileE_unfold) simp
  have backfill: "BackfillIndexInCharBuffer 0 (buf, 24) = returnM (buf[23 := of_char (CHR ''0'')], 23)" for buf
  proof -
    have "backfillStep ((buf, 24), 0) = returnM ((buf[23 := of_char (CHR ''0'')], 23), 0)"
      by (simp add: backfillStep_def writeBack_def)
    then show ?thesis by (simp add: BackfillIndexInCharBuffer_def stop)
  qed
  have buffer: "take (Suc 0) (drop 23 ((charBuffer mem 25)[24 := 0, 23 := c])) = [c]" for mem c
  proof -
    have "drop 23 ((charBuffer mem 25)[24 := 0, 23 := c])
        = (charBuffer mem 25)[24 := 0, 23 := c] ! 23 # drop (Suc 23) ((charBuffer mem 25)[24 := 0, 23 := c])"
      by (rule Cons_nth_drop_Suc [symmetric]) (simp add: charBuffer_def)
    then show ?thesis by (simp add: charBuffer_def)
  qed
  have "runs (bindM allocM (\<lambda>str. returnM (toText 10 0))) v E Q"
    using E Q True by (auto intro!: runs_bindI runs_allocM)
  then have "runs (bindM (BackfillIndexInCharBuffer 0 ((charBuffer mem 25)[24 := 0], 24)) (\<lambda>out.
     bindM (returnM out) (\<lambda>(buffer, start).
     bindM allocM (\<lambda>str. returnM (take (24 - start) (drop start buffer)))))) v E Q" for mem
    by (simp add: backfill buffer toText_def)
  then show ?thesis
    unfolding Int32ToString_def Let_def True by (intro runs_bindI [of stackM] runs_stackM) simp
next
  case False
  then show ?thesis using E Q by (intro runs_Int32ToString)
qed

lemma textLE_sign: "0 < L \<Longrightarrow> textLE (minusChar # s) (decimal L n)" "0 < L \<Longrightarrow> \<not> textLE (decimal L n) (minusChar # s)"
proof -
  have "minusChar < charOf d" if "d < 10" for d
    using that by (simp add: charOf_decimal minusChar_def word_less_nat_alt unat_word_ariths unat_of_nat of_char_def)
  then have less: "minusChar < charOf (n div 10 ^ k mod 10)" for k by simp
  show "0 < L \<Longrightarrow> textLE (minusChar # s) (decimal L n)"
    using less by (cases L) (simp_all add: decimal_Suc)
  show "0 < L \<Longrightarrow> \<not> textLE (decimal L n) (minusChar # s)"
  proof (cases L)
    case (Suc k)
    then show ?thesis using less [of k] by (auto simp: decimal_Suc)
  qed simp
qed

lemma toText_int32:
  "toText 10 (sint si) = (if si <s 0 then [minusChar] else [])
     @ decimal (max 1 (length (posDigits 10 (unat (AbsInt32 si))))) (unat (AbsInt32 si))"
proof (cases "si = 0")
  case True
  then show ?thesis by (simp add: AbsInt32_eq toText_zero posDigits.simps [of 10 0])
next
  case False
  note m = sint_magnitude [OF False, folded AbsInt32_eq]
  have "0 < length (posDigits 10 (unat (AbsInt32 si)))" using m(2) by (subst posDigits.simps) simp
  then have "max 1 (length (posDigits 10 (unat (AbsInt32 si)))) = length (posDigits 10 (unat (AbsInt32 si)))"
    by (simp add: Suc_le_eq)
  then show ?thesis unfolding m(1) using toText_decimal [OF m(2)] by simp
qed

lemma CompareLexicographicInt32_eq:
  "CompareLexicographicInt32 (Int32Value i) (Int32Value j) = returnM (textLE (toText 10 (sint i)) (toText 10 (sint j)))"
proof -
  have sign: "0 \<le>s x \<longleftrightarrow> \<not> x <s 0" for x :: u32 by (simp add: word_sle_eq word_sless_alt not_less)
  have cons: "textLE (c # xs) (c # ys) \<longleftrightarrow> textLE xs ys" for c xs ys by simp
  have one: "0 < max 1 (n :: nat)" for n by simp
  consider "i = j" | "i \<noteq> j" "i <s 0" "\<not> j <s 0" | "i \<noteq> j" "\<not> i <s 0" "j <s 0" | "i \<noteq> j" "i <s 0 \<longleftrightarrow> j <s 0" by blast
  then show ?thesis
  proof cases
    case 1
    then show ?thesis by (simp add: CompareLexicographicInt32_def)
  next
    case 2
    then show ?thesis
      by (simp add: CompareLexicographicInt32_def sign toText_int32 textLE_sign del: textLE.simps)
  next
    case 3
    then show ?thesis
      by (simp add: CompareLexicographicInt32_def sign toText_int32 textLE_sign del: textLE.simps)
  next
    case 4
    have "unat (AbsInt32 i) = 0 \<longrightarrow> unat (AbsInt32 j) \<noteq> 0"
      using 4(1) by (auto simp: AbsInt32_eq unat_eq_zero split: if_splits)
    note c = compareMagnitudes_eq [OF this]
    show ?thesis
      using 4 c by (cases "i <s 0") (simp_all add: CompareLexicographicInt32_def sign toText_int32 cons del: textLE.simps)
  qed
qed

lemma length_toText_int32: "length (toText 10 (sint (si :: u32))) \<le> 11"
  using length_u32_digits [of "AbsInt32 si"] by (simp add: toText_int32)

text \<open>
  C5. Comparing two int32 elements without their strings gives what \<open>CompareChars\<close> gives on the strings
  that \<open>Int32ToString\<close> builds for them: the fast path of \<open>Array.prototype.sort\<close> has the order of the
  general one, for every pair of values.
\<close>

theorem lexicographic_int32:
  "runs (bindM (Int32ToString i) (\<lambda>s1. bindM (Int32ToString j) (\<lambda>s2. returnM (sint (CompareChars s1 s2) \<le> 0))))
     v (oom v) (\<lambda>lessOrEqual. CompareLexicographicInt32 (Int32Value i) (Int32Value j) = returnM lessOrEqual)"
  using length_toText_int32 [of i] length_toText_int32 [of j]
  by (intro runs_bindI runs_Int32ToString_any) (simp_all add: CompareChars_sign CompareLexicographicInt32_eq)


end
