(* ===== verification/ArraySort.thy ===== *)
theory ArraySort
  imports LexicographicInt32
begin

text \<open>
  \<open>Array.prototype.sort\<close> as far as it is native: \<open>intrinsic_ArrayNativeSort\<close> of
  \<open>js/src/builtin/Array.cpp\<close> with the functions it calls there, and the conversions of elements to numbers
  (\<open>ToNumberSlow\<close>, \<open>js/src/jsnum.cpp\<close>) and to strings (\<open>ValueToStringBufferSlow\<close>,
  \<open>js/src/util/StringBuffer.cpp\<close>).

  The array is an ordinary one: its elements are plain writable data and no prototype has indexed
  properties, so that it is the list of its elements, a hole being \<open>None\<close>.  A function argument is the
  bytecode of its body.  Parameters of the model: what script code does (\<open>scripts\<close>) and the hooks below.
  Script code runs where elements that are objects are converted, and may leave the array in any other state (of
  the same kind) for the stores that follow.
\<close>

section \<open>Elements and conversions\<close>

text \<open>
  \<open>CheckForInterrupt\<close> runs the embedding's interrupt callback and may fail.  \<open>sameString\<close> compares addresses.
  \<open>CharsToNumber\<close> and \<open>NumberToCString\<close> convert decimal numerals with the double-conversion library.
  \<open>denseElements start count\<close> is the answer of the elements of the object
  (\<open>setOrExtendDenseElements\<close>, \<open>ensureDenseElements\<close>): success, \<open>Incomplete\<close>, or a failed allocation.
  \<open>arrayAfterScripts\<close> is the array as the script code of the conversions left it.
\<close>

record sortHooks =
  CheckForInterrupt :: "unit eng"
  sameString :: "jsstring \<Rightarrow> jsstring \<Rightarrow> bool"
  CharsToNumber :: "jschars \<Rightarrow> double eng"
  NumberToCString :: "double \<Rightarrow> jschars eng"
  denseElements :: "nat \<Rightarrow> nat \<Rightarrow> bool eng"
  arrayAfterScripts :: "jsvalue option list \<Rightarrow> jsvalue option list eng"

definition ensureLinear :: "jsstring \<Rightarrow> jschars eng" where
  "ensureLinear str = bindM (if isRope str then bindM allocM (\<lambda>mem. returnM ()) else returnM ()) (\<lambda>u. returnM (chars str))"

definition CompareStrings :: "sortHooks \<Rightarrow> jsstring \<Rightarrow> jsstring \<Rightarrow> u32 eng" where
  "CompareStrings H str1 str2 =
     (if sameString H str1 str2 then returnM 0
      else bindM (ensureLinear str1) (\<lambda>linear1. bindM (ensureLinear str2) (\<lambda>linear2.
        returnM (CompareChars linear1 linear2))))"

fun toString' :: "jsvalue \<Rightarrow> jsstring eng" where
  "toString' (StringValue str) = returnM str"
| "toString' _ = throwM AssertFail"

definition CompareStringValues :: "sortHooks \<Rightarrow> jsvalue comparator" where
  "CompareStringValues H a b =
     bindM (CheckForInterrupt H) (\<lambda>u. bindM (toString' a) (\<lambda>astr. bindM (toString' b) (\<lambda>bstr.
     bindM (CompareStrings H astr bstr) (\<lambda>result. returnM (sint result \<le> 0)))))"

definition GenericNaN :: double where
  "GenericNaN = kExponentBits OR 0x8000000000000"

definition ToNumberSlow :: "scripts \<Rightarrow> sortHooks \<Rightarrow> jsvalue \<Rightarrow> double eng" where
  "ToNumberSlow S H v =
     mozAssert (\<not> isNumber v)
     (bindM (if isObject v then ToPrimitive S JSTYPE_NUMBER v else returnM v) (\<lambda>v.
      case v of
        Int32Value i \<Rightarrow> toNumber v
      | DoubleValue d \<Rightarrow> toNumber v
      | StringValue str \<Rightarrow> bindM (ensureLinear str) (CharsToNumber H)
      | BooleanValue b \<Rightarrow> returnM (if b then doubleFromUint64 1 else 0)
      | NullValue \<Rightarrow> returnM 0
      | UndefinedValue \<Rightarrow> returnM GenericNaN
      | SymbolValue s \<Rightarrow> throwM SymbolToNumber
      | BigIntValue x \<Rightarrow> throwM BigIntToNumber
      | ObjectValue obj \<Rightarrow> throwM AssertFail))"

definition ToNumber :: "scripts \<Rightarrow> sortHooks \<Rightarrow> jsvalue \<Rightarrow> double eng" where
  "ToNumber S H v = (if isNumber v then toNumber v else ToNumberSlow S H v)"

text \<open>A \<open>StringBuffer\<close> is the characters appended so far; an append asks for memory.\<close>

definition appendChars :: "jschars \<Rightarrow> jschars \<Rightarrow> jschars eng" where
  "appendChars sb s = bindM allocM (\<lambda>mem. returnM (sb @ s))"

definition NumberValueToStringBuffer :: "sortHooks \<Rightarrow> jsvalue \<Rightarrow> jschars \<Rightarrow> jschars eng" where
  "NumberValueToStringBuffer H v sb =
     (case v of
        Int32Value i \<Rightarrow> bindM (Int32ToString i) (\<lambda>cstr. appendChars sb cstr)
      | DoubleValue d \<Rightarrow> bindM (NumberToCString H d) (\<lambda>cstr. appendChars sb cstr)
      | _ \<Rightarrow> throwM AssertFail)"

definition ValueToStringBufferSlow :: "scripts \<Rightarrow> sortHooks \<Rightarrow> jsvalue \<Rightarrow> jschars \<Rightarrow> jschars eng" where
  "ValueToStringBufferSlow S H arg sb =
     bindM (ToPrimitive S JSTYPE_STRING arg) (\<lambda>v.
     case v of
       StringValue str \<Rightarrow> bindM (ensureLinear str) (appendChars sb)
     | Int32Value i \<Rightarrow> NumberValueToStringBuffer H v sb
     | DoubleValue d \<Rightarrow> NumberValueToStringBuffer H v sb
     | BooleanValue b \<Rightarrow> appendChars sb (map of_char (if b then ''true'' else ''false''))
     | NullValue \<Rightarrow> appendChars sb (map of_char ''null'')
     | SymbolValue s \<Rightarrow> throwM SymbolToString
     | BigIntValue x \<Rightarrow> bindM (toString True x 10) (\<lambda>s.
         case s of None \<Rightarrow> throwM AssertFail | Some str \<Rightarrow> appendChars sb str)
     | UndefinedValue \<Rightarrow> appendChars sb (map of_char ''undefined'')
     | ObjectValue obj \<Rightarrow> throwM AssertFail)"

definition ValueToStringBuffer :: "scripts \<Rightarrow> sortHooks \<Rightarrow> jsvalue \<Rightarrow> jschars \<Rightarrow> jschars eng" where
  "ValueToStringBuffer S H v sb =
     (case v of StringValue str \<Rightarrow> bindM (ensureLinear str) (appendChars sb)
      | _ \<Rightarrow> ValueToStringBufferSlow S H v sb)"

section \<open>Sorting by cached keys\<close>

text \<open>A key remembers the index of its element; the string keys are ranges of the shared buffer.\<close>

record SortKey =
  elementIndex :: nat

record StringifiedElement = SortKey +
  charsBegin :: nat
  charsEnd :: nat

record NumericElement = SortKey +
  dv :: double

definition vecGet :: "'a list \<Rightarrow> nat \<Rightarrow> 'a eng" where
  "vecGet vec i = mozAssert (i < length vec) (returnM (vec ! i))"

definition vecSet :: "'a list \<Rightarrow> nat \<Rightarrow> 'a \<Rightarrow> 'a list eng" where
  "vecSet vec i x = mozAssert (i < length vec) (returnM (vec[i := x]))"

definition moveStep ::
  "'z SortKey_scheme list \<times> 'a list \<times> nat \<Rightarrow> ('z SortKey_scheme list \<times> 'a list \<times> nat) eng" where
  "moveStep = (\<lambda>(keys, vec, j).
     bindM (ptrGet keys j) (\<lambda>key. let k = elementIndex key in
     bindM (ptrSet keys j (key\<lparr>elementIndex := j\<rparr>)) (\<lambda>keys.
     bindM (vecGet vec k) (\<lambda>x. bindM (vecSet vec j x) (\<lambda>vec. returnM (keys, vec, k))))))"

definition reorderStep :: "nat \<Rightarrow> 'z SortKey_scheme list \<times> 'a list \<Rightarrow> ('z SortKey_scheme list \<times> 'a list) eng" where
  "reorderStep i = (\<lambda>(keys, vec).
     bindM (ptrGet keys i) (\<lambda>key. let j = elementIndex key in
     if i = j then returnM (keys, vec)
     else
       mozAssert (j > i)
       (bindM (vecGet vec j) (\<lambda>tv.
        bindM (bindM (moveStep (keys, vec, j)) (whileE (\<lambda>(keys, vec, j). j \<noteq> i) moveStep)) (\<lambda>(keys, vec, j).
        bindM (vecSet vec i tv) (\<lambda>vec. returnM (keys, vec)))))))"

definition MergeSortByKey ::
  "'z SortKey_scheme list \<Rightarrow> nat \<Rightarrow> 'z SortKey_scheme list \<Rightarrow> 'z SortKey_scheme comparator \<Rightarrow> 'a list \<Rightarrow> 'a list eng" where
  "MergeSortByKey keys len scratch cmp vec =
     mozAssert (length vec \<ge> len)
     (bindM (MergeSort keys len scratch cmp) (\<lambda>(keys, scratch).
      bindM (forUp 0 len reorderStep (keys, vec)) (\<lambda>(keys, vec). returnM vec)))"

definition CompareSubStringValues :: "sortHooks \<Rightarrow> jschars \<Rightarrow> jschars \<Rightarrow> bool eng" where
  "CompareSubStringValues H s1 s2 =
     bindM (CheckForInterrupt H) (\<lambda>u. returnM (sint (CompareChars s1 s2) \<le> 0))"

definition SortComparatorStringifiedElements :: "sortHooks \<Rightarrow> jschars \<Rightarrow> StringifiedElement comparator" where
  "SortComparatorStringifiedElements H sb a b =
     (let lenA = charsEnd a - charsBegin a; lenB = charsEnd b - charsBegin b in
      CompareSubStringValues H (take lenA (drop (charsBegin a) sb)) (take lenB (drop (charsBegin b) sb)))"

text \<open>\<open><=\<close> on doubles is false when one is a NaN.\<close>

definition doubleLE :: "double \<Rightarrow> double \<Rightarrow> bool" where
  "doubleLE a b \<longleftrightarrow> \<not> IsNaN a \<and> \<not> IsNaN b \<and> dscaled a \<le> dscaled b"

definition ComparatorNumericLeftMinusRight :: "NumericElement comparator" where
  "ComparatorNumericLeftMinusRight a b = returnM (doubleLE (dv a) (dv b))"

definition ComparatorNumericRightMinusLeft :: "NumericElement comparator" where
  "ComparatorNumericRightMinusLeft a b = returnM (doubleLE (dv b) (dv a))"

definition ComparatorInt32LeftMinusRight :: "jsvalue comparator" where
  "ComparatorInt32LeftMinusRight a b =
     bindM (toInt32 a) (\<lambda>x. bindM (toInt32 b) (\<lambda>y. returnM (x \<le>s y)))"

definition ComparatorInt32RightMinusLeft :: "jsvalue comparator" where
  "ComparatorInt32RightMinusLeft a b =
     bindM (toInt32 b) (\<lambda>x. bindM (toInt32 a) (\<lambda>y. returnM (x \<le>s y)))"

definition SortLexicographically :: "scripts \<Rightarrow> sortHooks \<Rightarrow> jsvalue list \<Rightarrow> nat \<Rightarrow> jsvalue list eng" where
  "SortLexicographically S H vec len =
     mozAssert (length vec \<ge> len)
     (bindM allocM (\<lambda>mem.
      let strElements = replicate (2 * len) \<lparr>elementIndex = 0, charsBegin = 0, charsEnd = 0\<rparr> in
      bindM (forUp 0 len (\<lambda>i (strElements, sb, cursor).
          bindM (CheckForInterrupt H) (\<lambda>u.
          bindM (vecGet vec i) (\<lambda>x.
          bindM (ValueToStringBuffer S H x sb) (\<lambda>sb.
          bindM (vecSet strElements i \<lparr>elementIndex = i, charsBegin = cursor, charsEnd = length sb\<rparr>) (\<lambda>strElements.
          returnM (strElements, sb, length sb))))))
        (strElements, [], 0)) (\<lambda>(strElements, sb, cursor).
      MergeSortByKey (take len strElements) len (drop len strElements)
        (SortComparatorStringifiedElements H sb) vec)))"

definition SortNumerically ::
  "scripts \<Rightarrow> sortHooks \<Rightarrow> jsvalue list \<Rightarrow> nat \<Rightarrow> NumericElement comparator \<Rightarrow> jsvalue list eng" where
  "SortNumerically S H vec len cmp =
     mozAssert (length vec \<ge> len)
     (bindM allocM (\<lambda>mem.
      let numElements = replicate (2 * len) \<lparr>elementIndex = 0, dv = 0\<rparr> in
      bindM (forUp 0 len (\<lambda>i numElements.
          bindM (CheckForInterrupt H) (\<lambda>u.
          bindM (vecGet vec i) (\<lambda>x.
          bindM (ToNumber S H x) (\<lambda>dv.
          vecSet numElements i \<lparr>elementIndex = i, dv = dv\<rparr>))))
        numElements) (\<lambda>numElements.
      MergeSortByKey (take len numElements) len (drop len numElements) cmp vec)))"

section \<open>The native sort\<close>

text \<open>
  The bytecode of a comparison function, by its first operations.  \<open>MatchNumericComparator\<close> looks for
  \<open>return x - y\<close> and \<open>return y - x\<close>; the cases of a failed lazy compilation and of objects that are not
  plain interpreted functions are \<open>NotInterpreted\<close> and an error of \<open>script\<close>.
\<close>

datatype JSOp = GetArg nat | Sub | Return | OtherOp

datatype callable = Interpreted "JSOp list eng" | NotInterpreted

datatype ComparatorMatchResult = Match_None | Match_LeftMinusRight | Match_RightMinusLeft

definition MatchNumericComparator :: "callable \<Rightarrow> ComparatorMatchResult eng" where
  "MatchNumericComparator obj =
     (case obj of
        NotInterpreted \<Rightarrow> returnM Match_None
      | Interpreted getOrCreateScript \<Rightarrow> bindM getOrCreateScript (\<lambda>code.
          case code of
            GetArg arg0 # GetArg arg1 # Sub # Return # _ \<Rightarrow>
              returnM (if arg0 = 0 \<and> arg1 = 1 then Match_LeftMinusRight
                       else if arg0 = 1 \<and> arg1 = 0 then Match_RightMinusLeft
                       else Match_None)
          | _ \<Rightarrow> returnM Match_None))"

fun isString :: "jsvalue \<Rightarrow> bool" where
  "isString (StringValue str) = True"
| "isString _ = False"

fun isInt32 :: "jsvalue \<Rightarrow> bool" where
  "isInt32 (Int32Value i) = True"
| "isInt32 _ = False"

text \<open>The loop that collects the elements: \<open>vec\<close>, \<open>undefs\<close>, \<open>allStrings\<close>, \<open>allInts\<close>.\<close>

definition collectElements ::
  "sortHooks \<Rightarrow> jsvalue option list \<Rightarrow> (jsvalue list \<times> nat \<times> bool \<times> bool) eng" where
  "collectElements H obj =
     forUp 0 (length obj) (\<lambda>i (vec, undefs, allStrings, allInts).
       bindM (CheckForInterrupt H) (\<lambda>u.
       case obj ! i of
         None \<Rightarrow> returnM (vec, undefs, allStrings, allInts)
       | Some v \<Rightarrow>
           if v = UndefinedValue then returnM (vec, undefs + 1, allStrings, allInts)
           else returnM (vec @ [v], undefs, allStrings \<and> isString v, allInts \<and> isInt32 v)))
     ([], 0, True, True)"

text \<open>\<open>vec.resize(n * 2)\<close> and \<open>MergeSort(vec.begin(), n, vec.begin() + n, c)\<close>, within the reserved capacity.\<close>

definition sortInVector :: "jsvalue list \<Rightarrow> jsvalue comparator \<Rightarrow> jsvalue list eng" where
  "sortInVector vec c =
     (let n = length vec in
      bindM (MergeSort vec n (replicate n UndefinedValue) c) (\<lambda>(array, scratch). returnM array))"

definition sortElements ::
  "scripts \<Rightarrow> sortHooks \<Rightarrow> ComparatorMatchResult \<Rightarrow> jsvalue list \<Rightarrow> bool \<Rightarrow> bool \<Rightarrow> jsvalue list eng" where
  "sortElements S H cmp vec allStrings allInts =
     (case cmp of
        Match_None \<Rightarrow>
          if allStrings then sortInVector vec (CompareStringValues H)
          else if allInts then sortInVector vec CompareLexicographicInt32
          else SortLexicographically S H vec (length vec)
      | Match_LeftMinusRight \<Rightarrow>
          if allInts then sortInVector vec ComparatorInt32LeftMinusRight
          else SortNumerically S H vec (length vec) ComparatorNumericLeftMinusRight
      | Match_RightMinusLeft \<Rightarrow>
          if allInts then sortInVector vec ComparatorInt32RightMinusLeft
          else SortNumerically S H vec (length vec) ComparatorNumericRightMinusLeft)"

text \<open>
  Stores into the array: the sorted elements, the undefined values, and the deletions that leave holes, with
  their interrupt checks.  A store behind the end extends the array.
\<close>

definition storeElements :: "jsvalue option list \<Rightarrow> nat \<Rightarrow> jsvalue list \<Rightarrow> jsvalue option list" where
  "storeElements obj start vec = patch obj start (map Some vec)"

definition SetArrayElement :: "jsvalue option list \<Rightarrow> nat \<Rightarrow> jsvalue \<Rightarrow> jsvalue option list" where
  "SetArrayElement obj i v =
     (if i < length obj then obj[i := Some v] else obj @ replicate (i - length obj) None @ [Some v])"

definition SetArrayElements ::
  "sortHooks \<Rightarrow> jsvalue option list \<Rightarrow> nat \<Rightarrow> jsvalue list \<Rightarrow> jsvalue option list eng" where
  "SetArrayElements H obj start vector =
     (if vector = [] then returnM obj
      else
        bindM (denseElements H start (length vector)) (\<lambda>success.
        if success then returnM (storeElements obj start vector)
        else forUp 0 (length vector) (\<lambda>i obj. bindM (CheckForInterrupt H) (\<lambda>u.
          returnM (SetArrayElement obj (start + i) (vector ! i)))) obj))"

definition FillWithUndefined ::
  "sortHooks \<Rightarrow> jsvalue option list \<Rightarrow> nat \<Rightarrow> nat \<Rightarrow> jsvalue option list eng" where
  "FillWithUndefined H obj start cnt =
     mozAssert (start < start + cnt)
     (bindM (denseElements H start cnt) (\<lambda>success.
      if success then returnM (storeElements obj start (replicate cnt UndefinedValue))
      else forUp 0 cnt (\<lambda>i obj. bindM (CheckForInterrupt H) (\<lambda>u.
        returnM (SetArrayElement obj (start + i) UndefinedValue))) obj))"

definition sortWith ::
  "scripts \<Rightarrow> sortHooks \<Rightarrow> ComparatorMatchResult \<Rightarrow> jsvalue option list \<Rightarrow> (jsvalue option list \<times> bool) eng" where
  "sortWith S H cmp obj =
     (let len = length obj in
      if len < 2 then returnM (obj, True)
      else if len > 2 ^ 32 - 1 then throwM AllocationOverflow
      else
        bindM allocM (\<lambda>mem.
        bindM (collectElements H obj) (\<lambda>(vec, undefs, allStrings, allInts).
        let n = length vec in
        if n = 0 \<and> undefs = 0 then returnM (obj, True)
        else
          bindM (sortElements S H cmp vec allStrings allInts) (\<lambda>sorted.
          bindM (if list_ex isObject vec then arrayAfterScripts H obj else returnM obj) (\<lambda>obj.
          bindM (SetArrayElements H obj 0 sorted) (\<lambda>obj.
          bindM (if undefs > 0 then FillWithUndefined H obj n undefs else returnM obj) (\<lambda>obj.
          let n = n + undefs in
          bindM (forUp n len (\<lambda>i obj.
              bindM (CheckForInterrupt H) (\<lambda>u. returnM (obj[i := None]))) obj) (\<lambda>obj.
          returnM (obj, True)))))))))"

definition intrinsic_ArrayNativeSort ::
  "scripts \<Rightarrow> sortHooks \<Rightarrow> callable option \<Rightarrow> jsvalue option list \<Rightarrow> (jsvalue option list \<times> bool) eng" where
  "intrinsic_ArrayNativeSort S H fval obj =
     (case fval of
        Some f \<Rightarrow> bindM (MatchNumericComparator f) (\<lambda>cmp.
          if cmp = Match_None then returnM (obj, False) else sortWith S H cmp obj)
      | None \<Rightarrow> sortWith S H Match_None obj)"

section \<open>Moving every element once\<close>

text \<open>
  \<open>idx\<close> is where each position's element comes from, \<open>U\<close> the positions not reached yet, which still hold
  their old element and key; a position reached holds its new element.
\<close>

definition pending ::
  "nat \<Rightarrow> (nat \<Rightarrow> nat) \<Rightarrow> 'a list \<Rightarrow> nat \<Rightarrow> nat set \<Rightarrow> 'z SortKey_scheme list \<Rightarrow> 'a list \<Rightarrow> bool" where
  "pending n idx vec0 i U keys vec \<longleftrightarrow>
     U \<subseteq> {i..<n} \<and> length keys = n \<and> length vec = length vec0 \<and> n \<le> length vec0
     \<and> (\<forall>p < length vec0. vec ! p = (if p < n \<and> p \<notin> U then vec0 ! idx p else vec0 ! p))
     \<and> (\<forall>p < n. i \<le> p \<longrightarrow> elementIndex (keys ! p) = (if p \<in> U then idx p else p))"

lemma pending_move:
  assumes "pending n idx vec0 i U keys vec" and "j \<in> U" and "idx j \<in> U"
  shows "pending n idx vec0 i (U - {j}) (keys[j := (keys ! j)\<lparr>elementIndex := j\<rparr>]) (vec[j := vec ! idx j])"
  using assms unfolding pending_def by (auto simp: nth_list_update subset_iff)

lemma pending_finish:
  assumes "pending n idx vec0 i U keys vec" and "i \<in> U" and "x = vec0 ! idx i"
  shows "pending n idx vec0 (Suc i) (U - {i}) keys (vec[i := x])"
  using assms unfolding pending_def by (auto simp: nth_list_update subset_iff)

lemma pending_skip:
  "pending n idx vec0 i U keys vec \<Longrightarrow> i \<notin> U \<Longrightarrow> pending n idx vec0 (Suc i) U keys vec"
  unfolding pending_def by (auto simp: subset_iff) (metis le_antisym not_less_eq_eq)

text \<open>One cycle: the positions from \<open>idx i\<close> on are reached until the chain comes back to \<open>i\<close>.\<close>

lemma runs_moveCycle:
  assumes pend: "pending n idx vec0 i U keys vec" and inj: "inj_on idx {..<n}" and closed: "idx ` U \<subseteq> U"
    and i: "i \<in> U" "idx i \<noteq> i"
  shows "runs (whileE (\<lambda>(keys, vec, j). j \<noteq> i) moveStep (keys, vec, idx i)) v E (\<lambda>(keys, vec, j).
    \<exists>U'. pending n idx vec0 i U' keys vec \<and> i \<in> U' \<and> idx ` (U' - {i}) \<subseteq> U' - {i})"
proof (rule runs_whileE [where f = "\<lambda>(keys, vec, j). card {p. i \<le> p \<and> p < n \<and> elementIndex (keys ! p) \<noteq> p}"
      and P = "\<lambda>(keys, vec, j). \<exists>U'. pending n idx vec0 i U' keys vec \<and> i \<in> U' \<and> j \<in> U' \<and> U' \<subseteq> U
        \<and> idx ` (U' - {i}) \<subseteq> U' - {j}"], goal_cases)
  case 1
  have "idx p \<noteq> idx i" if "p \<in> U - {i}" for p
    using that i pend inj by (auto simp: pending_def inj_on_def subset_iff)
  then show ?case using pend closed i by (auto intro!: exI [of _ U])
next
  case (2 st)
  then obtain keys vec j U' where st: "st = (keys, vec, j)" and j: "j \<noteq> i" "j \<in> U'"
    and p: "pending n idx vec0 i U' keys vec" and U: "i \<in> U'" "U' \<subseteq> U" "idx ` (U' - {i}) \<subseteq> U' - {j}"
    by (cases st) auto
  have k: "idx j \<in> U'" "idx j \<noteq> j" using U(3) j by auto
  have len: "j < n" "i \<le> j" "idx j < n" "length keys = n" "n \<le> length vec" "elementIndex (keys ! j) = idx j"
    using p j k by (auto simp: pending_def)
  have inj': "idx q \<noteq> idx j" if "q \<in> U' - {j}" for q
    using that j p inj by (auto simp: pending_def inj_on_def subset_iff)
  let ?keys = "keys[j := (keys ! j)\<lparr>elementIndex := j\<rparr>]"
  have "{p. i \<le> p \<and> p < n \<and> elementIndex (?keys ! p) \<noteq> p} \<subset> {p. i \<le> p \<and> p < n \<and> elementIndex (keys ! p) \<noteq> p}"
  proof
    have "elementIndex (?keys ! q) = (if q = j then j else elementIndex (keys ! q))" if "q < n" for q
      using that len(4) by (simp add: nth_list_update)
    then show "{p. i \<le> p \<and> p < n \<and> elementIndex (?keys ! p) \<noteq> p} \<subseteq> {p. i \<le> p \<and> p < n \<and> elementIndex (keys ! p) \<noteq> p}"
      by (auto split: if_splits)
    have "j \<in> {p. i \<le> p \<and> p < n \<and> elementIndex (keys ! p) \<noteq> p}" using len k(2) by simp
    moreover have "j \<notin> {p. i \<le> p \<and> p < n \<and> elementIndex (?keys ! p) \<noteq> p}" using len by simp
    ultimately show "{p. i \<le> p \<and> p < n \<and> elementIndex (?keys ! p) \<noteq> p} \<noteq> {p. i \<le> p \<and> p < n \<and> elementIndex (keys ! p) \<noteq> p}"
      by metis
  qed
  then have "card {p. i \<le> p \<and> p < n \<and> elementIndex (?keys ! p) \<noteq> p} < card {p. i \<le> p \<and> p < n \<and> elementIndex (keys ! p) \<noteq> p}"
    by (intro psubset_card_mono) auto
  moreover have "pending n idx vec0 i (U' - {j}) ?keys (vec[j := vec ! idx j])"
    by (rule pending_move [OF p j(2) k(1)])
  moreover have "idx ` (U' - {j} - {i}) \<subseteq> U' - {j} - {idx j}" using U(3) inj' by auto
  moreover have "moveStep (keys, vec, j) = returnM (?keys, vec[j := vec ! idx j], idx j)"
    using len by (simp add: moveStep_def vecGet_def vecSet_def Let_def)
  moreover have "i \<in> U' - {j}" "idx j \<in> U' - {j}" "U' - {j} \<subseteq> U" using U j k by auto
  ultimately show ?case unfolding st prod.case runs_returnM by (simp, blast)
next
  case (3 st)
  then show ?case by (cases st) auto
qed

lemma runs_reorderStep:
  assumes pend: "pending n idx vec0 i U keys vec" and inj: "inj_on idx {..<n}" and closed: "idx ` U \<subseteq> U" and "i < n"
  shows "runs (reorderStep i (keys, vec)) v E (\<lambda>(keys, vec).
    \<exists>U'. pending n idx vec0 (Suc i) U' keys vec \<and> idx ` U' \<subseteq> U')"
proof (cases "elementIndex (keys ! i) = i")
  case True
  have len: "i < length keys" using pend assms(4) by (simp add: pending_def)
  have "\<exists>U'. pending n idx vec0 (Suc i) U' keys vec \<and> idx ` U' \<subseteq> U'"
  proof (cases "i \<in> U")
    case False
    then show ?thesis using pending_skip [OF pend] closed by blast
  next
    case iU: True
    then have fixed: "idx i = i" using pend True by (auto simp: pending_def)
    have "vec ! i = vec0 ! idx i" "i < length vec" using pend iU fixed by (auto simp: pending_def)
    then have "vec[i := vec0 ! idx i] = vec" by (metis list_update_id)
    then have "pending n idx vec0 (Suc i) (U - {i}) keys vec"
      using pending_finish [OF pend iU refl] by simp
    moreover have "idx p \<noteq> i" if "p \<in> U" "p \<noteq> i" for p
      using that fixed inj pend iU unfolding pending_def inj_on_def by (metis atLeastLessThan_iff lessThan_iff subsetD)
    ultimately show ?thesis using closed by (intro exI [of _ "U - {i}"]) auto
  qed
  then show ?thesis using len True by (simp add: reorderStep_def)
next
  case False
  have iU: "i \<in> U" and idx: "elementIndex (keys ! i) = idx i"
    using pend False assms(4) by (auto simp: pending_def split: if_splits)
  have ne: "idx i \<noteq> i" using False idx by simp
  have k: "idx i \<in> U" using closed iU by auto
  then have gt: "idx i > i" "idx i < length vec" "vec ! idx i = vec0 ! idx i" "i < length keys" "i < length vec"
    using pend ne assms(4) by (auto simp: pending_def)
  have loop: "bindM (moveStep (keys, vec, idx i)) (whileE (\<lambda>(keys, vec, j). j \<noteq> i) moveStep)
      = whileE (\<lambda>(keys, vec, j). j \<noteq> i) moveStep (keys, vec, idx i)"
    using ne by (intro doWhile_eq) simp
  show ?thesis
    using gt False ne
    apply (simp add: reorderStep_def idx vecGet_def loop [unfolded idx] Let_def)
    apply (rule runs_bindM [OF runs_moveCycle [OF pend inj closed iU ne]])
    apply clarify
    subgoal for keys' vec' j U'
    proof -
      assume p: "pending n idx vec0 i U' keys' vec'" "i \<in> U'" "idx ` (U' - {i}) \<subseteq> U' - {i}"
      have "i < length vec'" using p(1) assms(4) by (auto simp: pending_def)
      then have "vecSet vec' i (vec0 ! idx i) = returnM (vec'[i := vec0 ! idx i])" by (simp add: vecSet_def)
      then show ?thesis using pending_finish [OF p(1,2) refl] p(3) by auto
    qed
    done
qed

lemma runs_reorder:
  assumes keys: "length keys = n" "n \<le> length vec" and perm: "inj_on (\<lambda>p. elementIndex (keys ! p)) {..<n}"
    and range: "\<And>p. p < n \<Longrightarrow> elementIndex (keys ! p) < n"
  shows "runs (forUp 0 n reorderStep (keys, vec)) v E (\<lambda>(keys', vec').
    length vec' = length vec \<and> take n vec' = map (\<lambda>key. vec ! elementIndex key) keys \<and> drop n vec' = drop n vec)"
proof -
  let ?idx = "\<lambda>p. elementIndex (keys ! p)"
  show ?thesis
  proof (rule runs_forUpI [where I = "\<lambda>i (keys', vec'). \<exists>U. pending n ?idx vec i U keys' vec' \<and> ?idx ` U \<subseteq> U"])
    show "case (keys, vec) of (keys', vec') \<Rightarrow> \<exists>U. pending n ?idx vec 0 U keys' vec' \<and> ?idx ` U \<subseteq> U"
      using keys range by (auto simp: pending_def intro!: exI [of _ "{0..<n}"])
  next
    fix j st assume "j < n" and "case st of (keys', vec') \<Rightarrow> \<exists>U. pending n ?idx vec j U keys' vec' \<and> ?idx ` U \<subseteq> U"
    then obtain keys' vec' U where st: "st = (keys', vec')" "pending n ?idx vec j U keys' vec'" "?idx ` U \<subseteq> U"
      by (cases st) blast
    show "runs (reorderStep j st) v E (\<lambda>(keys', vec'). \<exists>U. pending n ?idx vec (Suc j) U keys' vec' \<and> ?idx ` U \<subseteq> U)"
      unfolding st(1) by (rule runs_reorderStep [OF st(2) perm st(3) \<open>j < n\<close>])
  next
    fix st assume "case st of (keys', vec') \<Rightarrow> \<exists>U. pending n ?idx vec n U keys' vec' \<and> ?idx ` U \<subseteq> U"
    then show "case st of (keys', vec') \<Rightarrow> length vec' = length vec
        \<and> take n vec' = map (\<lambda>key. vec ! elementIndex key) keys \<and> drop n vec' = drop n vec"
      using keys by (cases st) (auto simp: pending_def intro!: nth_equalityI)
  qed simp
qed


section \<open>Sorting a vector by keys\<close>

text \<open>
  \<open>ys\<close> is \<open>xs\<close> sorted by the keys \<open>ks\<close> of its elements, elements with equal keys in their old order.
\<close>

definition sortedByKeys :: "('k \<Rightarrow> 'k \<Rightarrow> bool) \<Rightarrow> 'k list \<Rightarrow> 'a list \<Rightarrow> 'a list \<Rightarrow> bool" where
  "sortedByKeys le ks xs ys \<longleftrightarrow>
     length ks = length xs \<and> (\<exists>zs. stableSorted (\<lambda>a b. le (fst a) (fst b)) (zip ks xs) zs \<and> ys = map snd zs)"

lemma stableSorted_map:
  assumes "stableSorted le xs ys" and "\<And>a b. le' (f a) (f b) \<longleftrightarrow> le a b"
  shows "stableSorted le' (map f xs) (map f ys)"
proof -
  have "List.filter (sameClass le' (f e)) (map f zs) = map f (List.filter (sameClass le e) zs)" for e zs
    by (simp add: filter_map o_def sameClass_def [abs_def] assms(2))
  then show ?thesis using assms by (auto simp: stableSorted_def sorted_wrt_map)
qed

lemma sortedByKeys_fun:
  assumes "stableSorted (\<lambda>a b. le (k a) (k b)) xs ys"
  shows "sortedByKeys le (map k xs) xs ys"
proof -
  have "stableSorted (\<lambda>a b. le (fst a) (fst b)) (map (\<lambda>x. (k x, x)) xs) (map (\<lambda>x. (k x, x)) ys)"
    by (rule stableSorted_map [OF assms]) simp
  moreover have "map (\<lambda>x. (k x, x)) xs = zip (map k xs) xs" by (induction xs) auto
  ultimately show ?thesis unfolding sortedByKeys_def by (intro conjI exI [of _ "map (\<lambda>x. (k x, x)) ys"]) (auto simp: o_def)
qed

lemma sortedByKeys_mset: "sortedByKeys le ks xs ys \<Longrightarrow> mset ys = mset xs"
proof -
  assume "sortedByKeys le ks xs ys"
  then obtain zs where "mset zs = mset (zip ks xs)" "ys = map snd zs" "length ks = length xs"
    by (auto simp: sortedByKeys_def stableSorted_def)
  then have "mset ys = image_mset snd (mset (zip ks xs))" by simp
  also have "\<dots> = mset (map snd (zip ks xs))" by simp
  also have "map snd (zip ks xs) = xs" using \<open>length ks = length xs\<close> by simp
  finally show ?thesis .
qed

lemma runs_MergeSortByKey:
  assumes cmp: "comparator c v E (set keys) ok le"
    and keys: "map elementIndex keys = [0..<n]" "length scratch = n" "n = length vec"
    and Q: "\<And>ks. mset ks = mset keys \<Longrightarrow> ok \<Longrightarrow> stableSorted le keys ks \<Longrightarrow> Q (map (\<lambda>key. vec ! elementIndex key) ks)"
      "\<And>ks. mset ks = mset keys \<Longrightarrow> \<not> ok \<Longrightarrow> Q (map (\<lambda>key. vec ! elementIndex key) ks)"
  shows "runs (MergeSortByKey keys n scratch c vec) v E Q"
proof -
  have len: "length keys = n" using keys(1) by (metis length_map length_upt diff_zero)
  have reorder: "runs (forUp 0 n reorderStep (ks, vec)) v E (\<lambda>(keys', vec'). vec' = map (\<lambda>key. vec ! elementIndex key) ks)"
    if "mset ks = mset keys" for ks
  proof -
    have ms: "mset (map elementIndex ks) = mset [0..<n]"
      using that keys(1) by (simp flip: keys(1))
    then have "distinct (map elementIndex ks)" by (metis mset_eq_imp_distinct_iff distinct_upt)
    moreover have l: "length ks = n" using that len mset_eq_length by blast
    ultimately have inj: "inj_on (\<lambda>p. elementIndex (ks ! p)) {..<n}"
      by (auto simp: inj_on_def distinct_conv_nth)
    have "set (map elementIndex ks) = {0..<n}" using mset_eq_setD [OF ms] by simp
    then have "elementIndex (ks ! p) < n" if "p < n" for p
      using that l by (metis atLeastLessThan_iff length_map nth_map nth_mem)
    then have "runs (forUp 0 n reorderStep (ks, vec)) v E (\<lambda>(keys', vec'). length vec' = length vec
        \<and> take n vec' = map (\<lambda>key. vec ! elementIndex key) ks \<and> drop n vec' = drop n vec)"
      using keys(3) by (intro runs_reorder [OF l _ inj]) auto
    then show ?thesis by (rule runs_weakenQ) (use keys(3) in auto)
  qed
  have "runs (MergeSort keys n scratch c) v E (\<lambda>(ks, scratch'). rearranged (set keys) ok le keys ks
      \<and> (ok \<longrightarrow> sorted_wrt le ks) \<and> length scratch' = n)"
    using keys(2) len by (intro comparator.runs_MergeSort [OF cmp]) auto
  then show ?thesis
    unfolding MergeSortByKey_def using keys(3)
    apply (simp, elim runs_bindM)
    apply clarify
    subgoal for ks scratch'
    proof -
      assume *: "rearranged (set keys) ok le keys ks" "ok \<longrightarrow> sorted_wrt le ks"
      then have ms: "mset ks = mset keys" by (simp add: rearranged_def)
      have "Q (map (\<lambda>key. vec ! elementIndex key) ks)"
        using Q [OF ms] * ms by (cases ok) (auto simp: stableSorted_def rearranged_def)
      then show ?thesis by (intro runs_bindM [OF reorder [OF ms, unfolded keys(3)]]) auto
    qed
    done
qed

text \<open>The keys of the elements, in order, and the result as a sort of the elements by them.\<close>

lemma keyed_result:
  assumes "stableSorted (\<lambda>a b. le (k a) (k b)) keys ks" and "map elementIndex keys = [0..<length vec]"
  shows "sortedByKeys le (map k keys) vec (map (\<lambda>key. vec ! elementIndex key) ks)"
proof -
  have len: "length keys = length vec" using assms(2) by (metis length_map length_upt diff_zero)
  have "map (\<lambda>key. vec ! elementIndex key) keys = map ((!) vec) (map elementIndex keys)" by simp
  also have "\<dots> = vec" by (simp only: assms(2) map_nth)
  finally have vec: "map (\<lambda>key. vec ! elementIndex key) keys = vec" .
  have "stableSorted (\<lambda>a b. le (fst a) (fst b)) (map (\<lambda>key. (k key, vec ! elementIndex key)) keys)
      (map (\<lambda>key. (k key, vec ! elementIndex key)) ks)"
    by (rule stableSorted_map [OF assms(1)]) simp
  moreover have "map (\<lambda>key. (k key, vec ! elementIndex key)) keys = zip (map k keys) vec"
    by (subst vec [symmetric]) (simp add: zip_map_map zip_same_conv_map)
  ultimately show ?thesis
    unfolding sortedByKeys_def using len
    by (intro conjI exI [of _ "map (\<lambda>key. (k key, vec ! elementIndex key)) ks"]) (auto simp: o_def)
qed

section \<open>Converting elements\<close>

definition hooksOk :: "sortHooks \<Rightarrow> env \<Rightarrow> (err \<Rightarrow> bool) \<Rightarrow> bool" where
  "hooksOk H v E \<longleftrightarrow>
     runs (CheckForInterrupt H) v E (\<lambda>_. True)
     \<and> (\<forall>s t. sameString H s t \<longrightarrow> chars s = chars t)
     \<and> (\<forall>s. runs (CharsToNumber H s) v E (\<lambda>_. True))
     \<and> (\<forall>d. runs (NumberToCString H d) v E (\<lambda>t. length t \<le> MAX_LENGTH))
     \<and> (\<forall>start cnt. runs (denseElements H start cnt) v E (\<lambda>_. True))
     \<and> (\<forall>obj. runs (arrayAfterScripts H obj) v E (\<lambda>_. True))"

text \<open>
  What can go wrong in a sort: the errors of scripts and of the interrupt callback, out of memory, a value
  with no conversion, and an array that is too long.
\<close>

definition sortError :: "env \<Rightarrow> (err \<Rightarrow> bool) \<Rightarrow> err \<Rightarrow> bool" where
  "sortError v E e \<longleftrightarrow>
     primitiveError v E e \<or> e \<in> {SymbolToNumber, SymbolToString, BigIntToNumber, AllocationOverflow}"

text \<open>
  The string of an element, as ECMAScript has it: of a primitive value it is fixed, that of a double being what
  the conversion library gives; of an object it is the string of a primitive value that its conversion with
  the hint for strings gives.
\<close>

fun primitiveText :: "sortHooks \<Rightarrow> env \<Rightarrow> jsvalue \<Rightarrow> jschars \<Rightarrow> bool" where
  "primitiveText H v (StringValue str) t = (t = chars str)"
| "primitiveText H v (Int32Value i) t = (t = toText 10 (sint i))"
| "primitiveText H v (DoubleValue d) t = mayReturn (NumberToCString H d) v t"
| "primitiveText H v (BooleanValue b) t = (t = map of_char (if b then ''true'' else ''false''))"
| "primitiveText H v NullValue t = (t = map of_char ''null'')"
| "primitiveText H v UndefinedValue t = (t = map of_char ''undefined'')"
| "primitiveText H v (BigIntValue x) t = (t = toText 10 (bval x))"
| "primitiveText H v (SymbolValue s) t = False"
| "primitiveText H v (ObjectValue obj) t = False"

definition textFor :: "scripts \<Rightarrow> sortHooks \<Rightarrow> env \<Rightarrow> jsvalue \<Rightarrow> jschars \<Rightarrow> bool" where
  "textFor S H v x t \<longleftrightarrow>
     (if isObject x then \<exists>p. mayReturn (ToPrimitive S JSTYPE_STRING x) v p \<and> primitiveText H v p t
      else primitiveText H v x t)"

lemma length_toText_bigint:
  assumes "wf x"
  shows "length (toText 10 (bval x)) \<le> MAX_LENGTH"
proof -
  let ?n = "nat \<bar>bval x\<bar>" and ?L = "length (digits x)"
  have len: "?L \<le> 16384" using assms by (simp add: wf_def MaxDigitLength_def MaxBitLength_def DigitBits_def)
  have "?n = dval (digits x)" by (simp add: bval_def)
  also have "\<dots> < Base ^ ?L" by (rule dval_less)
  also have "Base = (4 :: nat) ^ 32" by (simp add: Base_def)
  also have "((4 :: nat) ^ 32) ^ ?L = 4 ^ (32 * ?L)" by (rule power_mult [symmetric])
  also have "\<dots> \<le> 10 ^ (32 * ?L)" by (rule power_mono) simp_all
  finally have "length (posDigits 10 ?n) \<le> 32 * ?L" by (rule length_decimal)
  then show ?thesis using len by (auto simp: toText_def MAX_LENGTH_def)
qed

lemma runs_appendChars: "(\<And>e. oom v e \<Longrightarrow> F e) \<Longrightarrow> Q (sb @ s) \<Longrightarrow> runs (appendChars sb s) v F Q"
  by (auto simp: appendChars_def intro!: runs_intros)

lemma runs_ensureLinear: "(\<And>e. oom v e \<Longrightarrow> F e) \<Longrightarrow> Q (chars str) \<Longrightarrow> runs (ensureLinear str) v F Q"
  by (auto simp: ensureLinear_def intro!: runs_intros)

lemma sortError_simps: "oom v e \<Longrightarrow> sortError v E e" "E e \<Longrightarrow> sortError v E e" "primitiveError v E e \<Longrightarrow> sortError v E e"
  by (auto simp: sortError_def primitiveError_def)

lemma hook_result:
  assumes "runs m v E Q" and "\<And>x. Q x \<Longrightarrow> mayReturn m v x \<Longrightarrow> R x"
  shows "runs m v (sortError v E) R"
  by (rule runs_weaken [OF runs_mayReturn [OF assms(1)]]) (use assms(2) in \<open>auto simp: sortError_simps(2)\<close>)

lemma runs_hook:
  assumes "hooksOk H v E"
  shows "runs (CheckForInterrupt H) v (sortError v E) (\<lambda>_. True)"
    and "runs (CharsToNumber H s) v (sortError v E) (mayReturn (CharsToNumber H s) v)"
    and "runs (NumberToCString H d) v (sortError v E) (\<lambda>t. length t \<le> MAX_LENGTH \<and> mayReturn (NumberToCString H d) v t)"
    and "runs (denseElements H start cnt) v (sortError v E) (\<lambda>_. True)"
    and "runs (arrayAfterScripts H obj) v (sortError v E) (mayReturn (arrayAfterScripts H obj) v)"
proof -
  note h = assms [unfolded hooksOk_def]
  show "runs (CheckForInterrupt H) v (sortError v E) (\<lambda>_. True)"
    by (rule hook_result [OF h [THEN conjunct1]]) simp
  show "runs (CharsToNumber H s) v (sortError v E) (mayReturn (CharsToNumber H s) v)"
    by (rule hook_result) (use h in auto)
  show "runs (NumberToCString H d) v (sortError v E) (\<lambda>t. length t \<le> MAX_LENGTH \<and> mayReturn (NumberToCString H d) v t)"
    by (rule hook_result [where Q = "\<lambda>t. length t \<le> MAX_LENGTH"]) (use h in auto)
  show "runs (denseElements H start cnt) v (sortError v E) (\<lambda>_. True)"
    by (rule hook_result) (use h in auto)
  show "runs (arrayAfterScripts H obj) v (sortError v E) (mayReturn (arrayAfterScripts H obj) v)"
    by (rule hook_result) (use h in auto)
qed

lemma runs_NumberValueToStringBuffer:
  assumes H: "hooksOk H v E" and "isNumber x"
  shows "runs (NumberValueToStringBuffer H x sb) v (sortError v E)
    (\<lambda>sb'. \<exists>t. sb' = sb @ t \<and> length t \<le> MAX_LENGTH \<and> primitiveText H v x t)"
proof (cases x)
  case (Int32Value i)
  have "length (toText 10 (sint i)) \<le> MAX_LENGTH" using length_toText_int32 [of i] by (simp add: MAX_LENGTH_def)
  then show ?thesis
    using Int32Value by (auto simp: NumberValueToStringBuffer_def sortError_simps
        intro!: runs_bindI runs_Int32ToString_any runs_appendChars)
next
  case (DoubleValue d)
  then show ?thesis
    by (auto simp: NumberValueToStringBuffer_def sortError_simps
        intro!: runs_bindM [OF runs_hook(3) [OF H]] runs_appendChars)
qed (use assms(2) in auto)

lemma runs_appendPrimitive:
  assumes H: "hooksOk H v E" and r: "validValue r" "\<not> isObject r"
  shows "runs (case r of
       StringValue str \<Rightarrow> bindM (ensureLinear str) (appendChars sb)
     | Int32Value i \<Rightarrow> NumberValueToStringBuffer H r sb
     | DoubleValue d \<Rightarrow> NumberValueToStringBuffer H r sb
     | BooleanValue b \<Rightarrow> appendChars sb (map of_char (if b then ''true'' else ''false''))
     | NullValue \<Rightarrow> appendChars sb (map of_char ''null'')
     | SymbolValue s \<Rightarrow> throwM SymbolToString
     | BigIntValue x \<Rightarrow> bindM (toString True x 10) (\<lambda>s.
         case s of None \<Rightarrow> throwM AssertFail | Some str \<Rightarrow> appendChars sb str)
     | UndefinedValue \<Rightarrow> appendChars sb (map of_char ''undefined'')
     | ObjectValue obj \<Rightarrow> throwM AssertFail) v (sortError v E)
    (\<lambda>sb'. \<exists>t. sb' = sb @ t \<and> length t \<le> MAX_LENGTH \<and> primitiveText H v r t)"
proof (cases r)
  case (BigIntValue y)
  then show ?thesis
    using r(1) length_toText_bigint [of y] by (auto intro!: runs_bindI runs_toString runs_appendChars sortError_simps(1))
next
  case (Int32Value i)
  then show ?thesis using runs_NumberValueToStringBuffer [OF H, of r] by simp
next
  case (DoubleValue d)
  then show ?thesis using runs_NumberValueToStringBuffer [OF H, of r] by simp
next
  case (StringValue str)
  then show ?thesis using r(1) by (auto intro!: runs_bindI runs_ensureLinear runs_appendChars sortError_simps(1))
qed (use r(2) in \<open>auto simp: MAX_LENGTH_def sortError_def [of v E SymbolToString] intro!: runs_appendChars sortError_simps(1)\<close>)

lemma runs_ValueToStringBufferSlow:
  assumes S: "validScripts S v E" and H: "hooksOk H v E" and x: "validValue x"
  shows "runs (ValueToStringBufferSlow S H x sb) v (sortError v E)
    (\<lambda>sb'. \<exists>t. sb' = sb @ t \<and> length t \<le> MAX_LENGTH \<and> textFor S H v x t)"
  unfolding ValueToStringBufferSlow_def
proof (rule runs_bindI, rule runs_ToPrimitive_result [OF S x sortError_simps(3)], assumption, goal_cases)
  case (1 r)
  then have "primitiveText H v r t \<Longrightarrow> textFor S H v x t" for t by (auto simp: textFor_def)
  then show ?case by (intro runs_weakenQ [OF runs_appendPrimitive [OF H 1(1,2)]]) blast
qed

lemma runs_ValueToStringBuffer:
  assumes "validScripts S v E" and "hooksOk H v E" and "validValue x"
  shows "runs (ValueToStringBuffer S H x sb) v (sortError v E)
    (\<lambda>sb'. \<exists>t. sb' = sb @ t \<and> length t \<le> MAX_LENGTH \<and> textFor S H v x t)"
proof (cases x)
  case (StringValue str)
  then show ?thesis
    using assms(3) by (auto simp: ValueToStringBuffer_def textFor_def intro!: runs_bindI runs_ensureLinear runs_appendChars sortError_simps(1))
qed (use runs_ValueToStringBufferSlow [OF assms] in \<open>simp_all add: ValueToStringBuffer_def\<close>)

text \<open>
  The number of an element: that of a string is what the conversion library reads in its characters, and that of an
  object the number of a primitive value that its conversion with the hint for numbers gives.
\<close>

fun primitiveNumber :: "sortHooks \<Rightarrow> env \<Rightarrow> jsvalue \<Rightarrow> double \<Rightarrow> bool" where
  "primitiveNumber H v (Int32Value i) d = (d = doubleFromInt32 i)"
| "primitiveNumber H v (DoubleValue e) d = (d = e)"
| "primitiveNumber H v (BooleanValue b) d = (d = (if b then doubleFromUint64 1 else 0))"
| "primitiveNumber H v NullValue d = (d = 0)"
| "primitiveNumber H v UndefinedValue d = IsNaN d"
| "primitiveNumber H v (StringValue str) d = mayReturn (CharsToNumber H (chars str)) v d"
| "primitiveNumber H v (SymbolValue s) d = False"
| "primitiveNumber H v (BigIntValue x) d = False"
| "primitiveNumber H v (ObjectValue obj) d = False"

definition numberFor :: "scripts \<Rightarrow> sortHooks \<Rightarrow> env \<Rightarrow> jsvalue \<Rightarrow> double \<Rightarrow> bool" where
  "numberFor S H v x d \<longleftrightarrow>
     (if isObject x then \<exists>p. mayReturn (ToPrimitive S JSTYPE_NUMBER x) v p \<and> primitiveNumber H v p d
      else primitiveNumber H v x d)"

lemma IsNaN_GenericNaN: "IsNaN GenericNaN"
  by (simp add: GenericNaN_def IsNaN_def kSignificandBits_def kExponentBits_def kSignificandWidth_def kExponentWidth_def)

lemma runs_primitiveNumber:
  assumes H: "hooksOk H v E" and r: "\<not> isObject r"
  shows "runs (case r of
        Int32Value i \<Rightarrow> toNumber r
      | DoubleValue d \<Rightarrow> toNumber r
      | StringValue str \<Rightarrow> bindM (ensureLinear str) (CharsToNumber H)
      | BooleanValue b \<Rightarrow> returnM (if b then doubleFromUint64 1 else 0)
      | NullValue \<Rightarrow> returnM 0
      | UndefinedValue \<Rightarrow> returnM GenericNaN
      | SymbolValue s \<Rightarrow> throwM SymbolToNumber
      | BigIntValue x \<Rightarrow> throwM BigIntToNumber
      | ObjectValue obj \<Rightarrow> throwM AssertFail) v (sortError v E) (primitiveNumber H v r)"
  using r by (cases r)
    (auto simp: IsNaN_GenericNaN sortError_def [of v E SymbolToNumber] sortError_def [of v E BigIntToNumber]
      intro!: runs_bindI runs_ensureLinear sortError_simps(1) runs_weakenQ [OF runs_hook(2) [OF H]])

lemma runs_ToNumber:
  assumes S: "validScripts S v E" and H: "hooksOk H v E" and x: "validValue x"
  shows "runs (ToNumber S H x) v (sortError v E) (numberFor S H v x)"
proof (cases "isNumber x")
  case True
  then show ?thesis by (cases x) (auto simp: ToNumber_def numberFor_def)
next
  case False
  have "runs (ToNumberSlow S H x) v (sortError v E) (numberFor S H v x)"
  proof (cases "isObject x")
    case True
    have "runs (ToPrimitive S JSTYPE_NUMBER x) v (sortError v E)
        (\<lambda>r. \<not> isObject r \<and> mayReturn (ToPrimitive S JSTYPE_NUMBER x) v r)"
      by (rule runs_ToPrimitive_result [OF S x sortError_simps(3)]) simp_all
    then show ?thesis
      unfolding ToNumberSlow_def if_P [OF True]
      by (intro runs_mozAssert False, elim runs_bindM)
        (auto simp: numberFor_def True intro!: runs_weakenQ [OF runs_primitiveNumber [OF H]])
  next
    case obj: False
    then show ?thesis
      using runs_primitiveNumber [OF H obj] False by (simp add: ToNumberSlow_def numberFor_def [abs_def])
  qed
  then show ?thesis using False by (simp add: ToNumber_def)
qed


section \<open>The paths of the sort\<close>

lemma totalPreorder_text: "totalPreorder A (\<lambda>a b. textLE (k a) (k b))"
  using textLE_total textLE_trans by (auto simp: totalPreorder_def)

lemma totalPreorder_double: "\<forall>x \<in> A. \<not> IsNaN (k x) \<Longrightarrow> totalPreorder A (\<lambda>a b. doubleLE (k a) (k b))"
  by (auto simp: totalPreorder_def doubleLE_def)

lemma totalPreorder_flip: "totalPreorder A le \<Longrightarrow> totalPreorder A (\<lambda>a b. le b a)"
  unfolding totalPreorder_def by blast

lemma runs_sortInVector:
  assumes "\<And>x y. x \<in> set vec \<Longrightarrow> y \<in> set vec \<Longrightarrow> runs (c x y) v F (\<lambda>r. r = le (k x) (k y))"
    and "totalPreorder (set vec) (\<lambda>a b. le (k a) (k b))"
  shows "runs (sortInVector vec c) v F (sortedByKeys le (map k vec) vec)"
proof -
  have cmp: "comparator c v F (set vec) True (\<lambda>a b. le (k a) (k b))"
    using assms by (intro comparator.intro) simp_all
  have "runs (MergeSort vec (length vec) (replicate (length vec) UndefinedValue) c) v F
      (\<lambda>(ys, scratch). stableSorted (\<lambda>a b. le (k a) (k b)) vec ys)"
    by (rule runs_weakenQ [OF comparator.runs_MergeSort [OF cmp]]) (auto simp: stableSorted_def rearranged_def)
  then show ?thesis
    unfolding sortInVector_def Let_def by (rule runs_bindM) (auto intro: sortedByKeys_fun)
qed

lemma runs_CompareStringValues:
  assumes H: "hooksOk H v E" and a: "length (chars a) \<le> MAX_LENGTH" "length (chars b) \<le> MAX_LENGTH"
  shows "runs (CompareStringValues H (StringValue a) (StringValue b)) v (sortError v E) (\<lambda>r. r = textLE (chars a) (chars b))"
proof -
  have "runs (CompareStrings H a b) v (sortError v E) (\<lambda>r. (sint r \<le> 0) = textLE (chars a) (chars b))"
  proof (cases "sameString H a b")
    case True
    then show ?thesis using H by (simp add: CompareStrings_def hooksOk_def)
  next
    case False
    then show ?thesis
      using a by (auto simp: CompareStrings_def CompareChars_sign MAX_LENGTH_def
          intro!: runs_bindI runs_ensureLinear sortError_simps(1))
  qed
  then show ?thesis
    unfolding CompareStringValues_def by (auto intro!: runs_bindM [OF runs_hook(1) [OF H]] elim!: runs_bindM)
qed

definition strOf :: "jsvalue \<Rightarrow> jschars" where
  "strOf x = (case x of StringValue str \<Rightarrow> chars str | Int32Value i \<Rightarrow> toText 10 (sint i) | _ \<Rightarrow> [])"

definition intOf :: "jsvalue \<Rightarrow> double" where
  "intOf x = (case x of Int32Value i \<Rightarrow> doubleFromInt32 i | _ \<Rightarrow> 0)"

lemma isString_E: "isString x \<Longrightarrow> (\<And>str. x = StringValue str \<Longrightarrow> P) \<Longrightarrow> P"
  by (cases x) auto

lemma isInt32_E: "isInt32 x \<Longrightarrow> (\<And>i. x = Int32Value i \<Longrightarrow> P) \<Longrightarrow> P"
  by (cases x) auto

lemma sort_strings:
  assumes H: "hooksOk H v E" and vec: "\<forall>x \<in> set vec. isString x \<and> validValue x"
  shows "runs (sortInVector vec (CompareStringValues H)) v (sortError v E) (sortedByKeys textLE (map strOf vec) vec)"
proof (rule runs_sortInVector [where le = textLE and k = strOf, OF _ totalPreorder_text])
  fix x y assume "x \<in> set vec" "y \<in> set vec"
  with vec obtain s t where "x = StringValue s" "y = StringValue t" "validValue x" "validValue y"
    by (meson isString_E)
  then show "runs (CompareStringValues H x y) v (sortError v E) (\<lambda>r. r = textLE (strOf x) (strOf y))"
    using runs_CompareStringValues [OF H, of s t] by (simp add: strOf_def)
qed

lemma sort_int32_text:
  assumes "\<forall>x \<in> set vec. isInt32 x"
  shows "runs (sortInVector vec CompareLexicographicInt32) v F (sortedByKeys textLE (map strOf vec) vec)"
proof (rule runs_sortInVector [where le = textLE and k = strOf, OF _ totalPreorder_text])
  fix x y assume "x \<in> set vec" "y \<in> set vec"
  with assms obtain i j where "x = Int32Value i" "y = Int32Value j" by (meson isInt32_E)
  then show "runs (CompareLexicographicInt32 x y) v F (\<lambda>r. r = textLE (strOf x) (strOf y))"
    by (simp add: strOf_def CompareLexicographicInt32_eq)
qed

lemma doubleLE_int32: "doubleLE (doubleFromInt32 i) (doubleFromInt32 j) \<longleftrightarrow> i \<le>s j"
  by (simp add: doubleLE_def doubleFromInt32_value IsFinite_not_NaN word_sle_eq)

lemma not_NaN_int32: "isInt32 x \<Longrightarrow> \<not> IsNaN (intOf x)"
  by (erule isInt32_E) (simp add: intOf_def doubleFromInt32_value IsFinite_not_NaN)

lemma sort_int32_numeric:
  assumes "\<forall>x \<in> set vec. isInt32 x"
  shows "runs (sortInVector vec ComparatorInt32LeftMinusRight) v F (sortedByKeys doubleLE (map intOf vec) vec)"
    and "runs (sortInVector vec ComparatorInt32RightMinusLeft) v F (sortedByKeys (\<lambda>a b. doubleLE b a) (map intOf vec) vec)"
proof -
  have pre: "totalPreorder (set vec) (\<lambda>a b. doubleLE (intOf a) (intOf b))"
    using assms not_NaN_int32 by (intro totalPreorder_double) blast
  have ints: "\<exists>i j. x = Int32Value i \<and> y = Int32Value j" if "x \<in> set vec" "y \<in> set vec" for x y
    using that assms by (meson isInt32_E)
  show "runs (sortInVector vec ComparatorInt32LeftMinusRight) v F (sortedByKeys doubleLE (map intOf vec) vec)"
  proof (rule runs_sortInVector [where le = doubleLE and k = intOf, OF _ pre])
    fix x y assume "x \<in> set vec" "y \<in> set vec"
    then show "runs (ComparatorInt32LeftMinusRight x y) v F (\<lambda>r. r = doubleLE (intOf x) (intOf y))"
      using ints [of x y] by (auto simp: ComparatorInt32LeftMinusRight_def intOf_def doubleLE_int32)
  qed
  show "runs (sortInVector vec ComparatorInt32RightMinusLeft) v F (sortedByKeys (\<lambda>a b. doubleLE b a) (map intOf vec) vec)"
  proof (rule runs_sortInVector [where le = "\<lambda>a b. doubleLE b a" and k = intOf, OF _ totalPreorder_flip [OF pre]])
    fix x y assume "x \<in> set vec" "y \<in> set vec"
    then show "runs (ComparatorInt32RightMinusLeft x y) v F (\<lambda>r. r = doubleLE (intOf y) (intOf x))"
      using ints [of x y] by (auto simp: ComparatorInt32RightMinusLeft_def intOf_def doubleLE_int32)
  qed
qed

subsection \<open>By strings made once\<close>

definition elementText :: "jschars \<Rightarrow> StringifiedElement \<Rightarrow> jschars" where
  "elementText sb e = take (charsEnd e - charsBegin e) (drop (charsBegin e) sb)"

definition stringified :: "scripts \<Rightarrow> sortHooks \<Rightarrow> env \<Rightarrow> jsvalue list \<Rightarrow> nat \<Rightarrow> nat \<Rightarrow> StringifiedElement list \<times> jschars \<times> nat \<Rightarrow> bool" where
  "stringified S H v vec n i = (\<lambda>(els, sb, cursor). length els = 2 * n \<and> cursor = length sb
     \<and> (\<forall>j < i. elementIndex (els ! j) = j \<and> charsBegin (els ! j) \<le> charsEnd (els ! j) \<and> charsEnd (els ! j) \<le> length sb
          \<and> length (elementText sb (els ! j)) \<le> MAX_LENGTH \<and> textFor S H v (vec ! j) (elementText sb (els ! j))))"

lemma elementText_append:
  "charsBegin e \<le> charsEnd e \<Longrightarrow> charsEnd e \<le> length sb \<Longrightarrow> elementText (sb @ t) e = elementText sb e"
  by (simp add: elementText_def)

lemma stringified_step:
  assumes "stringified S H v vec n i (els, sb, cursor)" and "i < n" and "length t \<le> MAX_LENGTH" and "textFor S H v (vec ! i) t"
  shows "stringified S H v vec n (Suc i)
    (els[i := \<lparr>elementIndex = i, charsBegin = cursor, charsEnd = length (sb @ t)\<rparr>], sb @ t, length (sb @ t))"
  using assms unfolding stringified_def
  by (auto simp: less_Suc_eq nth_list_update elementText_append) (simp_all add: elementText_def)

lemma sort_stringified:
  assumes H: "hooksOk H v E" and els: "stringified S H v vec (length vec) (length vec) (els, sb, cursor)"
  shows "runs (MergeSortByKey (take (length vec) els) (length vec) (drop (length vec) els)
      (SortComparatorStringifiedElements H sb) vec) v (sortError v E)
    (\<lambda>ys. \<exists>ks. list_all2 (textFor S H v) vec ks \<and> sortedByKeys textLE ks vec ys)"
proof -
  let ?n = "length vec" and ?keys = "take (length vec) els"
  have len: "length els = 2 * ?n" and each: "\<And>j. j < ?n \<Longrightarrow> elementIndex (els ! j) = j
      \<and> length (elementText sb (els ! j)) \<le> MAX_LENGTH \<and> textFor S H v (vec ! j) (elementText sb (els ! j))"
    using els by (auto simp: stringified_def)
  have idx: "map elementIndex ?keys = [0..<?n]"
    using len each by (intro nth_equalityI) auto
  have texts: "list_all2 (textFor S H v) vec (map (elementText sb) ?keys)"
    using len each by (auto simp: list_all2_conv_all_nth)
  have short: "length (elementText sb e) \<le> MAX_LENGTH" if "e \<in> set ?keys" for e
    using that each len by (auto simp: in_set_conv_nth)
  have cmp: "comparator (SortComparatorStringifiedElements H sb) v (sortError v E) (set ?keys) True
      (\<lambda>a b. textLE (elementText sb a) (elementText sb b))"
  proof (rule comparator.intro)
    fix a b assume ab: "a \<in> set ?keys" "b \<in> set ?keys"
    have "length (elementText sb a) < 2 ^ 31" "length (elementText sb b) < 2 ^ 31"
      using short [OF ab(1)] short [OF ab(2)] by (simp_all add: MAX_LENGTH_def)
    from CompareChars_sign [OF this]
    show "runs (SortComparatorStringifiedElements H sb a b) v (sortError v E)
        (\<lambda>r. True \<longrightarrow> r = textLE (elementText sb a) (elementText sb b))"
      unfolding SortComparatorStringifiedElements_def CompareSubStringValues_def Let_def elementText_def [symmetric]
      by (intro runs_bindM [OF runs_hook(1) [OF H]]) simp
  qed (rule totalPreorder_text)
  show ?thesis
  proof (rule runs_MergeSortByKey [OF cmp idx])
    fix ks assume "stableSorted (\<lambda>a b. textLE (elementText sb a) (elementText sb b)) ?keys ks"
    from keyed_result [where le = textLE and k = "elementText sb", OF this idx] texts
    show "\<exists>kt. list_all2 (textFor S H v) vec kt \<and> sortedByKeys textLE kt vec (map (\<lambda>key. vec ! elementIndex key) ks)" by blast
  qed (use len in simp_all)
qed

lemma runs_SortLexicographically:
  assumes S: "validScripts S v E" and H: "hooksOk H v E" and vec: "\<forall>x \<in> set vec. validValue x"
  shows "runs (SortLexicographically S H vec (length vec)) v (sortError v E)
    (\<lambda>ys. \<exists>ks. list_all2 (textFor S H v) vec ks \<and> sortedByKeys textLE ks vec ys)"
proof -
  have step: "runs (bindM (CheckForInterrupt H) (\<lambda>u. bindM (vecGet vec i) (\<lambda>x.
      bindM (ValueToStringBuffer S H x sb) (\<lambda>sb.
      bindM (vecSet els i \<lparr>elementIndex = i, charsBegin = cursor, charsEnd = length sb\<rparr>) (\<lambda>strElements.
      returnM (strElements, sb, length sb)))))) v (sortError v E) (stringified S H v vec (length vec) (Suc i))"
    if inv: "stringified S H v vec (length vec) i (els, sb, cursor)" and i: "i < length vec" for i els sb cursor
  proof -
    have "i < length els" using inv i by (simp add: stringified_def)
    then have "runs (bindM (ValueToStringBuffer S H (vec ! i) sb) (\<lambda>sb.
        bindM (vecSet els i \<lparr>elementIndex = i, charsBegin = cursor, charsEnd = length sb\<rparr>) (\<lambda>strElements.
        returnM (strElements, sb, length sb)))) v (sortError v E) (stringified S H v vec (length vec) (Suc i))"
      using vec i stringified_step [OF inv i]
      by (intro runs_bindM [OF runs_ValueToStringBuffer [OF S H]]) (auto simp: vecSet_def)
    then show ?thesis using i by (intro runs_bindM [OF runs_hook(1) [OF H]]) (simp add: vecGet_def)
  qed
  let ?els = "replicate (2 * length vec) \<lparr>elementIndex = 0, charsBegin = 0, charsEnd = 0\<rparr>"
  have "runs (bindM (forUp 0 (length vec) (\<lambda>i (strElements, sb, cursor).
          bindM (CheckForInterrupt H) (\<lambda>u. bindM (vecGet vec i) (\<lambda>x.
          bindM (ValueToStringBuffer S H x sb) (\<lambda>sb.
          bindM (vecSet strElements i \<lparr>elementIndex = i, charsBegin = cursor, charsEnd = length sb\<rparr>) (\<lambda>strElements.
          returnM (strElements, sb, length sb))))))
        (?els, [], 0)) (\<lambda>(strElements, sb, cursor).
      MergeSortByKey (take (length vec) strElements) (length vec) (drop (length vec) strElements)
        (SortComparatorStringifiedElements H sb) vec)) v (sortError v E)
    (\<lambda>ys. \<exists>ks. list_all2 (textFor S H v) vec ks \<and> sortedByKeys textLE ks vec ys)"
  proof (rule runs_bindI, rule runs_forUpI [where I = "stringified S H v vec (length vec)"])
    show "stringified S H v vec (length vec) 0 (?els, [], 0)" by (simp add: stringified_def)
  qed (auto intro: step sort_stringified [OF H])
  then show ?thesis
    unfolding SortLexicographically_def Let_def by (auto intro!: runs_bindI runs_allocM sortError_simps(1))
qed

subsection \<open>By numbers made once\<close>

text \<open>A NaN among the keys has no place in the order: then only the elements are kept.\<close>

definition sortedByNumbers :: "(double \<Rightarrow> double \<Rightarrow> bool) \<Rightarrow> double list \<Rightarrow> 'a list \<Rightarrow> 'a list \<Rightarrow> bool" where
  "sortedByNumbers le ks xs ys \<longleftrightarrow>
     mset ys = mset xs \<and> ((\<forall>k \<in> set ks. \<not> IsNaN k) \<longrightarrow> sortedByKeys le ks xs ys)"

definition numbered :: "scripts \<Rightarrow> sortHooks \<Rightarrow> env \<Rightarrow> jsvalue list \<Rightarrow> nat \<Rightarrow> nat \<Rightarrow> NumericElement list \<Rightarrow> bool" where
  "numbered S H v vec n i els \<longleftrightarrow> length els = 2 * n
     \<and> (\<forall>j < i. elementIndex (els ! j) = j \<and> numberFor S H v (vec ! j) (dv (els ! j)))"

lemma sort_numbered:
  assumes els: "numbered S H v vec (length vec) (length vec) els"
    and c: "\<And>a b. c a b = returnM (le (dv a) (dv b))"
    and pre: "\<And>A :: NumericElement set. \<forall>x \<in> A. \<not> IsNaN (dv x) \<Longrightarrow> totalPreorder A (\<lambda>a b. le (dv a) (dv b))"
  shows "runs (MergeSortByKey (take (length vec) els) (length vec) (drop (length vec) els) c vec) v F
    (\<lambda>ys. \<exists>ks. list_all2 (numberFor S H v) vec ks \<and> sortedByNumbers le ks vec ys)"
proof -
  let ?n = "length vec" and ?keys = "take (length vec) els"
  define ok where "ok \<longleftrightarrow> (\<forall>k \<in> set (map dv ?keys). \<not> IsNaN k)"
  have len: "length els = 2 * ?n" and each: "\<And>j. j < ?n \<Longrightarrow> elementIndex (els ! j) = j \<and> numberFor S H v (vec ! j) (dv (els ! j))"
    using els by (auto simp: numbered_def)
  have idx: "map elementIndex ?keys = [0..<?n]"
    using len each by (intro nth_equalityI) auto
  have nums: "list_all2 (numberFor S H v) vec (map dv ?keys)"
    using len each by (auto simp: list_all2_conv_all_nth)
  have cmp: "comparator c v F (set ?keys) ok (\<lambda>a b. le (dv a) (dv b))"
    by (rule comparator.intro) (simp_all add: c pre ok_def)
  have perm: "mset (map (\<lambda>key. vec ! elementIndex key) ks) = mset vec" if "mset ks = mset ?keys" for ks
  proof -
    have "map (\<lambda>key. vec ! elementIndex key) ?keys = map ((!) vec) (map elementIndex ?keys)" by simp
    also have "\<dots> = vec" by (simp only: idx map_nth)
    finally have vec: "map (\<lambda>key. vec ! elementIndex key) ?keys = vec" .
    have "mset (map (\<lambda>key. vec ! elementIndex key) ks) = image_mset (\<lambda>key. vec ! elementIndex key) (mset ?keys)"
      using that by simp
    also have "\<dots> = mset (map (\<lambda>key. vec ! elementIndex key) ?keys)" by (rule mset_map [symmetric])
    finally show ?thesis unfolding vec .
  qed
  have good: "sortedByNumbers le (map dv ?keys) vec (map (\<lambda>key. vec ! elementIndex key) ks)"
    if "mset ks = mset ?keys" "ok" "stableSorted (\<lambda>a b. le (dv a) (dv b)) ?keys ks" for ks
    using keyed_result [where le = le and k = dv, OF that(3) idx] perm [OF that(1)] by (simp add: sortedByNumbers_def)
  have bad: "sortedByNumbers le (map dv ?keys) vec (map (\<lambda>key. vec ! elementIndex key) ks)"
    if "mset ks = mset ?keys" "\<not> ok" for ks
    using perm [OF that(1)] that(2) by (auto simp: sortedByNumbers_def ok_def)
  show ?thesis
    using len nums good bad by (intro runs_MergeSortByKey [OF cmp idx]) (simp, simp, blast, blast)
qed

lemma runs_SortNumerically:
  assumes S: "validScripts S v E" and H: "hooksOk H v E" and vec: "\<forall>x \<in> set vec. validValue x"
    and c: "\<And>a b. c a b = returnM (le (dv a) (dv b))"
    and pre: "\<And>A :: NumericElement set. \<forall>x \<in> A. \<not> IsNaN (dv x) \<Longrightarrow> totalPreorder A (\<lambda>a b. le (dv a) (dv b))"
  shows "runs (SortNumerically S H vec (length vec) c) v (sortError v E)
    (\<lambda>ys. \<exists>ks. list_all2 (numberFor S H v) vec ks \<and> sortedByNumbers le ks vec ys)"
proof -
  have step: "runs (bindM (CheckForInterrupt H) (\<lambda>u. bindM (vecGet vec i) (\<lambda>x. bindM (ToNumber S H x) (\<lambda>dv.
      vecSet els i \<lparr>elementIndex = i, dv = dv\<rparr>)))) v (sortError v E) (numbered S H v vec (length vec) (Suc i))"
    if inv: "numbered S H v vec (length vec) i els" and i: "i < length vec" for i els
  proof -
    have "runs (ToNumber S H (vec ! i)) v (sortError v E) (numberFor S H v (vec ! i))"
      using vec i by (intro runs_ToNumber [OF S H]) simp
    then have "runs (bindM (ToNumber S H (vec ! i)) (\<lambda>dv. vecSet els i \<lparr>elementIndex = i, dv = dv\<rparr>)) v (sortError v E)
        (numbered S H v vec (length vec) (Suc i))"
      by (rule runs_bindM) (use inv i in \<open>auto simp: vecSet_def numbered_def less_Suc_eq nth_list_update\<close>)
    then show ?thesis using i by (intro runs_bindM [OF runs_hook(1) [OF H]]) (simp add: vecGet_def)
  qed
  let ?els = "replicate (2 * length vec) \<lparr>elementIndex = 0, dv = 0\<rparr>"
  have "runs (bindM (forUp 0 (length vec) (\<lambda>i numElements.
          bindM (CheckForInterrupt H) (\<lambda>u. bindM (vecGet vec i) (\<lambda>x. bindM (ToNumber S H x) (\<lambda>dv.
          vecSet numElements i \<lparr>elementIndex = i, dv = dv\<rparr>)))) ?els) (\<lambda>numElements.
      MergeSortByKey (take (length vec) numElements) (length vec) (drop (length vec) numElements) c vec)) v (sortError v E)
    (\<lambda>ys. \<exists>ks. list_all2 (numberFor S H v) vec ks \<and> sortedByNumbers le ks vec ys)"
  proof (rule runs_bindI, rule runs_forUpI [where I = "numbered S H v vec (length vec)"])
    show "numbered S H v vec (length vec) 0 ?els" by (simp add: numbered_def)
  qed (auto intro: step sort_numbered [OF _ c pre])
  then show ?thesis
    unfolding SortNumerically_def Let_def by (auto intro!: runs_bindI runs_allocM sortError_simps(1))
qed


section \<open>The native sort\<close>

definition definedElements :: "jsvalue option list \<Rightarrow> jsvalue list" where
  "definedElements obj = List.filter (\<lambda>x. x \<noteq> UndefinedValue) (map the (List.filter (\<lambda>x. x \<noteq> None) obj))"

definition undefinedCount :: "jsvalue option list \<Rightarrow> nat" where
  "undefinedCount obj = length (List.filter (\<lambda>x. x = Some UndefinedValue) obj)"

definition holeCount :: "jsvalue option list \<Rightarrow> nat" where
  "holeCount obj = length (List.filter (\<lambda>x. x = None) obj)"

text \<open>
  The array after a sort that put its elements in the order \<open>ys\<close>, when it was \<open>now\<close> before the stores: undefined
  values and holes go last, and what scripts put behind its old end stays.
\<close>

definition sortedArray :: "jsvalue option list \<Rightarrow> jsvalue option list \<Rightarrow> jsvalue list \<Rightarrow> jsvalue option list" where
  "sortedArray obj now ys =
     map Some ys @ replicate (undefinedCount obj) (Some UndefinedValue) @
     replicate (min (length obj) (length now) - (length ys + undefinedCount obj)) None @ drop (length obj) now"

text \<open>The array before the stores: scripts run only if there is an object to convert.\<close>

definition arrayLeft :: "sortHooks \<Rightarrow> env \<Rightarrow> jsvalue option list \<Rightarrow> jsvalue option list \<Rightarrow> bool" where
  "arrayLeft H v obj now \<longleftrightarrow>
     (if \<exists>x \<in> set (definedElements obj). isObject x then mayReturn (arrayAfterScripts H obj) v now else now = obj)"

lemma counts: "length obj = length (definedElements obj) + undefinedCount obj + holeCount obj"
proof (induction obj)
  case (Cons x obj)
  then show ?case
    by (cases x) (auto simp: definedElements_def undefinedCount_def holeCount_def)
qed (simp add: definedElements_def undefinedCount_def holeCount_def)

definition collected :: "jsvalue option list \<Rightarrow> jsvalue list \<times> nat \<times> bool \<times> bool \<Rightarrow> bool" where
  "collected obj = (\<lambda>(vec, undefs, allStrings, allInts). vec = definedElements obj \<and> undefs = undefinedCount obj
     \<and> (allStrings \<longrightarrow> (\<forall>x \<in> set vec. isString x)) \<and> (allInts \<longrightarrow> (\<forall>x \<in> set vec. isInt32 x)))"

lemma collected_snoc:
  assumes "collected obj (vec, undefs, allStrings, allInts)"
  shows "collected (obj @ [None]) (vec, undefs, allStrings, allInts)"
    and "collected (obj @ [Some UndefinedValue]) (vec, undefs + 1, allStrings, allInts)"
    and "x \<noteq> UndefinedValue \<Longrightarrow>
      collected (obj @ [Some x]) (vec @ [x], undefs, allStrings \<and> isString x, allInts \<and> isInt32 x)"
  using assms by (auto simp: collected_def definedElements_def undefinedCount_def)

lemma runs_collectElements:
  assumes H: "hooksOk H v E"
  shows "runs (collectElements H obj) v (sortError v E) (collected obj)"
  unfolding collectElements_def
proof (rule runs_forUpI [where I = "\<lambda>i. collected (take i obj)"])
  fix i st assume i: "i < length obj" and inv: "collected (take i obj) st"
  obtain vec undefs allStrings allInts where st: "st = (vec, undefs, allStrings, allInts)" by (cases st)
  have take: "take (Suc i) obj = take i obj @ [obj ! i]" using i by (rule take_Suc_conv_app_nth)
  show "runs (case st of (vec, undefs, allStrings, allInts) \<Rightarrow> bindM (CheckForInterrupt H) (\<lambda>u.
       case obj ! i of
         None \<Rightarrow> returnM (vec, undefs, allStrings, allInts)
       | Some v \<Rightarrow>
           if v = UndefinedValue then returnM (vec, undefs + 1, allStrings, allInts)
           else returnM (vec @ [v], undefs, allStrings \<and> isString v, allInts \<and> isInt32 v))) v (sortError v E)
     (collected (take (Suc i) obj))"
    unfolding st prod.case take
    by (rule runs_bindM [OF runs_hook(1) [OF H]])
      (use collected_snoc [OF inv [unfolded st]] in \<open>auto split: option.split\<close>)
qed (simp_all add: collected_def definedElements_def undefinedCount_def)

lemma SetArrayElement_patch:
  assumes "start \<le> length obj"
  shows "SetArrayElement (patch obj start (map Some xs)) (start + length xs) x = patch obj start (map Some (xs @ [x]))"
proof (cases "start + length xs < length obj")
  case True
  then have "drop (start + length xs) obj = obj ! (start + length xs) # drop (Suc (start + length xs)) obj"
    by (simp add: Cons_nth_drop_Suc)
  then show ?thesis using True by (simp add: SetArrayElement_def patch_def list_update_append)
next
  case False
  then show ?thesis using assms by (simp add: SetArrayElement_def patch_def)
qed

lemma runs_storeLoop:
  assumes H: "hooksOk H v E" and "start \<le> length obj"
  shows "runs (forUp 0 n (\<lambda>i obj. bindM (CheckForInterrupt H) (\<lambda>u. returnM (SetArrayElement obj (start + i) (f i)))) obj) v
    (sortError v E) (\<lambda>obj'. obj' = patch obj start (map Some (map f [0..<n])))"
proof (rule runs_forUpI [where I = "\<lambda>i obj'. obj' = patch obj start (map Some (map f [0..<i]))"], goal_cases)
  case (3 i obj')
  have "SetArrayElement obj' (start + i) (f i) = patch obj start (map Some (map f [0..<Suc i]))"
    using SetArrayElement_patch [OF assms(2), of "map f [0..<i]" "f i"] 3 by simp
  then show ?case by (intro runs_bindM [OF runs_hook(1) [OF H]]) simp
qed (simp_all add: patch_def)

lemma runs_SetArrayElements:
  assumes H: "hooksOk H v E" and "start \<le> length obj"
  shows "runs (SetArrayElements H obj start vec) v (sortError v E) (\<lambda>obj'. obj' = patch obj start (map Some vec))"
proof (cases "vec = []")
  case True
  then show ?thesis by (simp add: SetArrayElements_def patch_def)
next
  case False
  then show ?thesis
    using runs_storeLoop [OF assms, of "length vec" "(!) vec"]
    by (auto simp: SetArrayElements_def storeElements_def map_nth intro!: runs_bindM [OF runs_hook(4) [OF H]])
qed

lemma runs_FillWithUndefined:
  assumes H: "hooksOk H v E" and "start \<le> length obj" and "0 < cnt"
  shows "runs (FillWithUndefined H obj start cnt) v (sortError v E)
    (\<lambda>obj'. obj' = patch obj start (replicate cnt (Some UndefinedValue)))"
  using assms(3) runs_storeLoop [OF assms(1,2), of cnt "\<lambda>i. UndefinedValue"]
  by (auto simp: FillWithUndefined_def storeElements_def map_replicate_const intro!: runs_mozAssert runs_bindM [OF runs_hook(4) [OF H]])

lemma runs_deleteRest:
  assumes H: "hooksOk H v E" and "k \<le> length obj" and "k \<le> len"
  shows "runs (forUp k len (\<lambda>i obj. bindM (CheckForInterrupt H) (\<lambda>u. returnM (obj[i := None]))) obj) v
    (sortError v E) (\<lambda>obj'. obj' = take k obj @ replicate (min len (length obj) - k) None @ drop len obj)"
proof (rule runs_forUpI [where I = "\<lambda>i obj'. obj' = take k obj @ replicate (min i (length obj) - k) None @ drop i obj"], goal_cases)
  case (3 i obj')
  have "obj'[i := None] = take k obj @ replicate (min (Suc i) (length obj) - k) None @ drop (Suc i) obj"
  proof (cases "i < length obj")
    case True
    then show ?thesis
      using 3 assms(2) by (simp add: list_update_append Suc_diff_le flip: Cons_nth_drop_Suc replicate_append_same)
  qed (use 3 assms(2) in \<open>simp add: list_update_beyond\<close>)
  then show ?case by (intro runs_bindM [OF runs_hook(1) [OF H]]) simp
qed (use assms(2,3) in simp_all)

lemma all_holes: "definedElements obj = [] \<Longrightarrow> undefinedCount obj = 0 \<Longrightarrow> obj = replicate (holeCount obj) None"
  by (induction obj) (auto simp: definedElements_def undefinedCount_def holeCount_def split: if_splits)

lemma runs_storeSorted:
  assumes H: "hooksOk H v E" and n: "length ys + undefinedCount obj \<le> length obj"
  shows "runs (bindM (SetArrayElements H now 0 ys) (\<lambda>now.
      bindM (if undefinedCount obj > 0 then FillWithUndefined H now (length ys) (undefinedCount obj) else returnM now) (\<lambda>now.
      bindM (forUp (length ys + undefinedCount obj) (length obj) (\<lambda>i obj.
          bindM (CheckForInterrupt H) (\<lambda>u. returnM (obj[i := None]))) now) (\<lambda>obj.
      returnM (obj, True))))) v (sortError v E) (\<lambda>(obj', done'). done' \<and> obj' = sortedArray obj now ys)"
proof (rule runs_bindM [OF runs_SetArrayElements [OF H]], simp, goal_cases)
  case (1 now1)
  let ?u = "undefinedCount obj"
  define now2 where "now2 = patch now1 (length ys) (replicate ?u (Some UndefinedValue))"
  have fill: "runs (if ?u > 0 then FillWithUndefined H now1 (length ys) ?u else returnM now1) v (sortError v E) (\<lambda>now'. now' = now2)"
    using 1 by (auto simp: now2_def patch_def intro!: runs_weakenQ [OF runs_FillWithUndefined [OF H]])
  have now2: "now2 = map Some ys @ replicate ?u (Some UndefinedValue) @ drop (length ys + ?u) now"
    using 1 by (simp add: now2_def patch_def add.commute)
  have "take (length ys + ?u) now2 @ replicate (min (length obj) (length now2) - (length ys + ?u)) None @ drop (length obj) now2
      = sortedArray obj now ys"
    using n by (auto simp: now2 sortedArray_def min_def)
  then have "runs (bindM (forUp (length ys + ?u) (length obj) (\<lambda>i obj.
          bindM (CheckForInterrupt H) (\<lambda>u. returnM (obj[i := None]))) now2) (\<lambda>obj. returnM (obj, True))) v (sortError v E)
      (\<lambda>(obj', done'). done' \<and> obj' = sortedArray obj now ys)"
    using n by (intro runs_bindM [OF runs_deleteRest [OF H]]) (simp_all add: now2)
  then show ?case by (intro runs_bindM [OF fill]) simp
qed

lemma runs_sortWith:
  assumes H: "hooksOk H v E"
    and sort: "\<And>allStrings allInts. (allStrings \<longrightarrow> (\<forall>x \<in> set (definedElements obj). isString x)) \<Longrightarrow>
      (allInts \<longrightarrow> (\<forall>x \<in> set (definedElements obj). isInt32 x)) \<Longrightarrow>
      runs (sortElements S H cmp (definedElements obj) allStrings allInts) v (sortError v E)
        (\<lambda>ys. mset ys = mset (definedElements obj) \<and> R ys)"
    and none: "definedElements obj = [] \<Longrightarrow> R []"
  shows "runs (sortWith S H cmp obj) v (sortError v E) (\<lambda>(obj', done').
    done' \<and> (if length obj < 2 then obj' = obj
      else \<exists>ys now. R ys \<and> arrayLeft H v obj now \<and> obj' = sortedArray obj now ys))"
proof (cases "length obj < 2")
  case True
  then show ?thesis by (simp add: sortWith_def)
next
  case False
  let ?Q = "\<lambda>(obj', done'). done' \<and> (\<exists>ys now. R ys \<and> arrayLeft H v obj now \<and> obj' = sortedArray obj now ys)"
  let ?vec = "definedElements obj" and ?u = "undefinedCount obj"
  note c = counts [of obj]
  have left: "runs (if list_ex isObject ?vec then arrayAfterScripts H obj else returnM obj) v (sortError v E) (arrayLeft H v obj)"
    using runs_hook(5) [OF H, of obj] by (auto simp: arrayLeft_def [abs_def] list_ex_iff)
  have finish: "runs (bindM (if list_ex isObject ?vec then arrayAfterScripts H obj else returnM obj) (\<lambda>now.
      bindM (SetArrayElements H now 0 ys) (\<lambda>now.
      bindM (if ?u > 0 then FillWithUndefined H now (length ?vec) ?u else returnM now) (\<lambda>now.
      bindM (forUp (length ?vec + ?u) (length obj) (\<lambda>i obj.
          bindM (CheckForInterrupt H) (\<lambda>u. returnM (obj[i := None]))) now) (\<lambda>obj.
      returnM (obj, True)))))) v (sortError v E) ?Q"
    if "mset ys = mset ?vec" "R ys" for ys
  proof (rule runs_bindM [OF left], goal_cases)
    case (1 now)
    have len: "length ?vec = length ys" using that(1) by (rule mset_eq_length [symmetric])
    show ?case
      unfolding len using c len 1 that(2) by (intro runs_weakenQ [OF runs_storeSorted [OF H]]) auto
  qed
  have main: "runs (let n = length vec in if n = 0 \<and> undefs = 0 then returnM (obj, True)
        else
          bindM (sortElements S H cmp vec allStrings allInts) (\<lambda>sorted.
          bindM (if list_ex isObject vec then arrayAfterScripts H obj else returnM obj) (\<lambda>obj'.
          bindM (SetArrayElements H obj' 0 sorted) (\<lambda>obj'.
          bindM (if undefs > 0 then FillWithUndefined H obj' n undefs else returnM obj') (\<lambda>obj'.
          let n = n + undefs in
          bindM (forUp n (length obj) (\<lambda>i obj.
              bindM (CheckForInterrupt H) (\<lambda>u. returnM (obj[i := None]))) obj') (\<lambda>obj.
          returnM (obj, True))))))) v (sortError v E) ?Q"
    if "collected obj (vec, undefs, allStrings, allInts)" for vec undefs allStrings allInts
  proof (cases "length vec = 0 \<and> undefs = 0")
    case True
    then have z: "?vec = []" "?u = 0" using that by (auto simp: collected_def)
    then have "sortedArray obj obj [] = obj" "arrayLeft H v obj obj"
      using all_holes [of obj] c by (simp_all add: sortedArray_def arrayLeft_def)
    then show ?thesis using True none z(1) by (auto intro!: exI [of _ "[]"] exI [of _ obj])
  next
    case nonempty: False
    have v: "vec = ?vec" "undefs = ?u" using that by (auto simp: collected_def)
    show ?thesis
      using nonempty that unfolding Let_def if_not_P [OF nonempty] unfolding v
      by (intro runs_bindM [OF sort] finish) (auto simp: collected_def)
  qed
  show ?thesis
    using False main
    by (auto simp: sortWith_def sortError_def [of v E AllocationOverflow] Let_def
        intro!: runs_bindI runs_allocM sortError_simps(1) runs_weakenQ [OF runs_collectElements [OF H]])
qed


lemma list_all2_strOf:
  "\<forall>x \<in> set xs. isString x \<or> isInt32 x \<Longrightarrow> list_all2 (textFor S H v) xs (map strOf xs)"
  by (induction xs) (auto simp: strOf_def textFor_def elim!: isString_E isInt32_E)

lemma list_all2_intOf: "\<forall>x \<in> set xs. isInt32 x \<Longrightarrow> list_all2 (numberFor S H v) xs (map intOf xs)"
  by (induction xs) (auto simp: intOf_def numberFor_def elim!: isInt32_E)

lemma sortElements_default:
  assumes S: "validScripts S v E" and H: "hooksOk H v E" and vec: "\<forall>x \<in> set vec. validValue x"
    and flags: "allStrings \<longrightarrow> (\<forall>x \<in> set vec. isString x)" "allInts \<longrightarrow> (\<forall>x \<in> set vec. isInt32 x)"
  shows "runs (sortElements S H Match_None vec allStrings allInts) v (sortError v E)
    (\<lambda>ys. mset ys = mset vec \<and> (\<exists>ks. list_all2 (textFor S H v) vec ks \<and> sortedByKeys textLE ks vec ys))"
proof -
  have strs: "runs (sortInVector vec (CompareStringValues H)) v (sortError v E)
      (\<lambda>ys. \<exists>ks. list_all2 (textFor S H v) vec ks \<and> sortedByKeys textLE ks vec ys)" if allStrings
    using that vec flags(1) list_all2_strOf [of vec] by (intro runs_weakenQ [OF sort_strings [OF H]]) blast+
  have ints: "runs (sortInVector vec CompareLexicographicInt32) v (sortError v E)
      (\<lambda>ys. \<exists>ks. list_all2 (textFor S H v) vec ks \<and> sortedByKeys textLE ks vec ys)" if allInts
    using that flags(2) list_all2_strOf [of vec] by (intro runs_weakenQ [OF sort_int32_text]) blast+
  have "runs (sortElements S H Match_None vec allStrings allInts) v (sortError v E)
      (\<lambda>ys. \<exists>ks. list_all2 (textFor S H v) vec ks \<and> sortedByKeys textLE ks vec ys)"
    using strs ints runs_SortLexicographically [OF S H vec] by (simp add: sortElements_def)
  then show ?thesis by (rule runs_weakenQ) (auto dest: sortedByKeys_mset)
qed

definition numericOrder :: "ComparatorMatchResult \<Rightarrow> double \<Rightarrow> double \<Rightarrow> bool" where
  "numericOrder cmp a b = (if cmp = Match_LeftMinusRight then doubleLE a b else doubleLE b a)"

lemma sortElements_numeric:
  assumes S: "validScripts S v E" and H: "hooksOk H v E" and vec: "\<forall>x \<in> set vec. validValue x"
    and flags: "allInts \<longrightarrow> (\<forall>x \<in> set vec. isInt32 x)" and cmp: "cmp \<noteq> Match_None"
  shows "runs (sortElements S H cmp vec allStrings allInts) v (sortError v E)
    (\<lambda>ys. mset ys = mset vec \<and> (\<exists>ks. list_all2 (numberFor S H v) vec ks \<and> sortedByNumbers (numericOrder cmp) ks vec ys))"
proof -
  have by_keys: "sortedByNumbers le (map intOf vec) vec ys" if "sortedByKeys le (map intOf vec) vec ys" for le ys
    using that sortedByKeys_mset [OF that] by (simp add: sortedByNumbers_def)
  have "runs (sortElements S H cmp vec allStrings allInts) v (sortError v E)
      (\<lambda>ys. \<exists>ks. list_all2 (numberFor S H v) vec ks \<and> sortedByNumbers (numericOrder cmp) ks vec ys)"
  proof (cases cmp)
    case Match_LeftMinusRight
    have le: "numericOrder cmp = doubleLE" using Match_LeftMinusRight by (simp add: numericOrder_def fun_eq_iff)
    have "runs (sortInVector vec ComparatorInt32LeftMinusRight) v (sortError v E)
        (\<lambda>ys. \<exists>ks. list_all2 (numberFor S H v) vec ks \<and> sortedByNumbers doubleLE ks vec ys)" if allInts
      using that flags list_all2_intOf [of vec] by_keys
      by (intro runs_weakenQ [OF sort_int32_numeric(1)]) blast+
    moreover have "runs (SortNumerically S H vec (length vec) ComparatorNumericLeftMinusRight) v (sortError v E)
        (\<lambda>ys. \<exists>ks. list_all2 (numberFor S H v) vec ks \<and> sortedByNumbers doubleLE ks vec ys)"
      by (rule runs_SortNumerically [OF S H vec]) (simp_all add: ComparatorNumericLeftMinusRight_def totalPreorder_double)
    ultimately show ?thesis unfolding le using Match_LeftMinusRight by (simp add: sortElements_def)
  next
    case Match_RightMinusLeft
    have le: "numericOrder cmp = (\<lambda>a b. doubleLE b a)" using Match_RightMinusLeft by (simp add: numericOrder_def fun_eq_iff)
    have "runs (sortInVector vec ComparatorInt32RightMinusLeft) v (sortError v E)
        (\<lambda>ys. \<exists>ks. list_all2 (numberFor S H v) vec ks \<and> sortedByNumbers (\<lambda>a b. doubleLE b a) ks vec ys)" if allInts
      using that flags list_all2_intOf [of vec] by_keys
      by (intro runs_weakenQ [OF sort_int32_numeric(2)]) blast+
    moreover have "runs (SortNumerically S H vec (length vec) ComparatorNumericRightMinusLeft) v (sortError v E)
        (\<lambda>ys. \<exists>ks. list_all2 (numberFor S H v) vec ks \<and> sortedByNumbers (\<lambda>a b. doubleLE b a) ks vec ys)"
      by (rule runs_SortNumerically [OF S H vec])
        (simp_all add: ComparatorNumericRightMinusLeft_def totalPreorder_flip totalPreorder_double)
    ultimately show ?thesis unfolding le using Match_RightMinusLeft by (simp add: sortElements_def)
  qed (use cmp in simp)
  then show ?thesis by (rule runs_weakenQ) (auto simp: sortedByNumbers_def)
qed

lemma definedElements_valid: "\<forall>x. Some x \<in> set obj \<longrightarrow> validValue x \<Longrightarrow> \<forall>x \<in> set (definedElements obj). validValue x"
  by (auto simp: definedElements_def)

subsection \<open>The comparison function\<close>

text \<open>
  The bytecode of a function by its first four operations, and the order that a function stands for which subtracts
  its arguments: the first minus the second is not positive, or the other way round.
\<close>

definition bytecodeIs :: "callable \<Rightarrow> env \<Rightarrow> (err \<Rightarrow> bool) \<Rightarrow> JSOp list \<Rightarrow> bool" where
  "bytecodeIs f v E ops \<longleftrightarrow>
     (case f of
        Interpreted getScript \<Rightarrow> runs getScript v E (\<lambda>code. take 4 code = ops)
      | NotInterpreted \<Rightarrow> ops = [])"

definition comparatorOrder :: "JSOp list \<Rightarrow> (double \<Rightarrow> double \<Rightarrow> bool) option" where
  "comparatorOrder ops =
     (if ops = [GetArg 0, GetArg 1, Sub, Return] then Some (\<lambda>a b. doubleLE a b)
      else if ops = [GetArg 1, GetArg 0, Sub, Return] then Some (\<lambda>a b. doubleLE b a)
      else None)"

lemma runs_MatchNumericComparator:
  assumes "bytecodeIs f v E ops"
  shows "runs (MatchNumericComparator f) v E
    (\<lambda>cmp. comparatorOrder ops = (if cmp = Match_None then None else Some (numericOrder cmp)))"
proof (cases f)
  case (Interpreted getScript)
  then have "runs getScript v E (\<lambda>code. take 4 code = ops)" using assms by (simp add: bytecodeIs_def)
  then show ?thesis
    unfolding MatchNumericComparator_def Interpreted callable.case
  proof (rule runs_bindM, goal_cases)
    case (1 code)
    then show ?case
      by (auto simp: comparatorOrder_def numericOrder_def fun_eq_iff numeral_eq_Suc split: list.split JSOp.split)
  qed
next
  case NotInterpreted
  then show ?thesis using assms by (simp add: MatchNumericComparator_def bytecodeIs_def comparatorOrder_def)
qed

text \<open>
  C3. \<open>Array.prototype.sort\<close> without a comparison function: the sort ends, and unless an error stops it,
  the array then holds its elements in the order of their strings, elements with equal strings in
  their old order, then its undefined values, then its holes.  The string of a primitive value is the one
  ECMAScript gives it (of a double, what the conversion library gives), that of an object the string of a
  primitive value its conversion gives.  An array of one element or none is left as it is.  Only with objects
  among its elements can the array have been changed before the stores; then what is behind its old length stays.
\<close>

theorem array_sort_default:
  assumes "validScripts S v E" and "hooksOk H v E" and "\<forall>x. Some x \<in> set obj \<longrightarrow> validValue x"
  shows "runs (intrinsic_ArrayNativeSort S H None obj) v (sortError v E) (\<lambda>(obj', done').
    done' \<and> (if length obj < 2 then obj' = obj
      else \<exists>ys now.
        (\<exists>ks. list_all2 (textFor S H v) (definedElements obj) ks \<and> sortedByKeys textLE ks (definedElements obj) ys)
        \<and> arrayLeft H v obj now \<and> obj' = sortedArray obj now ys))"
proof -
  have "sortedByKeys textLE [] [] []"
    by (auto simp: sortedByKeys_def stableSorted_def)
  then have none: "definedElements obj = [] \<Longrightarrow>
      \<exists>ks. list_all2 (textFor S H v) (definedElements obj) ks \<and> sortedByKeys textLE ks (definedElements obj) []" by auto
  show ?thesis
    unfolding intrinsic_ArrayNativeSort_def option.case
    by (rule runs_sortWith [OF assms(2) sortElements_default [OF assms(1,2) definedElements_valid [OF assms(3)]] none])
qed

text \<open>
  C8. \<open>Array.prototype.sort\<close> with a comparison function whose bytecode begins with \<open>return x - y\<close> or
  \<open>return y - x\<close>: no call is made to it.  The elements are ordered by their numbers, ascending or
  descending and stably, if none of them is NaN, and are in any case the same elements, followed by the undefined
  values and the holes.  Any other bytecode leaves the array to the self-hosted code.  The number of a string is
  what the conversion library reads, that of an object the number of a primitive value its conversion gives.
\<close>

theorem array_sort_numeric:
  assumes "validScripts S v E" and "hooksOk H v E" and "\<forall>x. Some x \<in> set obj \<longrightarrow> validValue x"
    and "bytecodeIs f v E ops"
  shows "runs (intrinsic_ArrayNativeSort S H (Some f) obj) v (sortError v E) (\<lambda>(obj', done').
    case comparatorOrder ops of
      None \<Rightarrow> \<not> done' \<and> obj' = obj
    | Some le \<Rightarrow> done' \<and> (if length obj < 2 then obj' = obj
        else \<exists>ys now.
          (\<exists>ks. list_all2 (numberFor S H v) (definedElements obj) ks \<and> sortedByNumbers le ks (definedElements obj) ys)
          \<and> arrayLeft H v obj now \<and> obj' = sortedArray obj now ys))"
proof -
  let ?R = "\<lambda>le ys. \<exists>ks. list_all2 (numberFor S H v) (definedElements obj) ks
      \<and> sortedByNumbers le ks (definedElements obj) ys"
  have "sortedByNumbers le [] [] []" for le
    by (auto simp: sortedByNumbers_def sortedByKeys_def stableSorted_def)
  then have none: "definedElements obj = [] \<Longrightarrow> ?R le []" for le by auto
  have "runs (sortWith S H cmp obj) v (sortError v E) (\<lambda>(obj', done').
      done' \<and> (if length obj < 2 then obj' = obj
        else \<exists>ys now. ?R (numericOrder cmp) ys \<and> arrayLeft H v obj now \<and> obj' = sortedArray obj now ys))"
    if "cmp \<noteq> Match_None" for cmp
    by (rule runs_sortWith [where R = "?R (numericOrder cmp)", OF assms(2) _ none], rule sortElements_numeric [OF assms(1,2)])
      (use that definedElements_valid [OF assms(3)] in auto)
  moreover have "runs (MatchNumericComparator f) v (sortError v E)
      (\<lambda>cmp. comparatorOrder ops = (if cmp = Match_None then None else Some (numericOrder cmp)))"
    by (rule runs_weaken [OF runs_MatchNumericComparator [OF assms(4)]]) (simp_all add: sortError_simps(2))
  ultimately show ?thesis
    unfolding intrinsic_ArrayNativeSort_def option.case by (elim runs_bindM) (auto split: if_splits)
qed

section \<open>Instances\<close>

text \<open>Every object is a \<open>String\<close> object of \<open>10\<close>, whose conversion cuts the array; every double prints as \<open>1.5\<close>.\<close>

definition stringObjects :: scripts where
  "stringObjects = emptyScripts\<lparr>
     stringObject := \<lambda>obj. Some \<lparr>chars = map of_char ''10'', isRope = False, needsCopy = False\<rparr>,
     hasNativeMethod := \<lambda>obj key. True\<rparr>"

definition sampleHooks :: sortHooks where
  "sampleHooks = \<lparr>CheckForInterrupt = returnM (), sameString = (\<lambda>s t. False),
     CharsToNumber = (\<lambda>s. returnM (doubleFromUint64 10)), NumberToCString = (\<lambda>d. returnM (map of_char ''1.5'')),
     denseElements = (\<lambda>start n. returnM (start = 0)), arrayAfterScripts = (\<lambda>obj. returnM (take 3 obj))\<rparr>"

lemma hooksOk_sample: "hooksOk sampleHooks v E"
  by (simp add: hooksOk_def sampleHooks_def MAX_LENGTH_def)

lemma validScripts_stringObjects: "validScripts stringObjects v (\<lambda>e. e = UserException)"
  by (simp add: validScripts_def stringObjects_def emptyScripts_def MAX_LENGTH_def)

definition mixedArray :: "jsvalue option list" where
  "mixedArray = [Some (Int32Value 10), Some UndefinedValue, None, Some (DoubleValue 0x3ff8000000000000),
     Some (ObjectValue 7), Some (BooleanValue True), Some (StringValue \<lparr>chars = [], isRope = True, needsCopy = False\<rparr>)]"

lemma array_sort_default_witness:
  "runs (intrinsic_ArrayNativeSort stringObjects sampleHooks None mixedArray) plenty (sortError plenty (\<lambda>e. e = UserException))
    (\<lambda>(obj', done'). done' \<and> (if length mixedArray < 2 then obj' = mixedArray
      else \<exists>ys now.
        (\<exists>ks. list_all2 (textFor stringObjects sampleHooks plenty) (definedElements mixedArray) ks
          \<and> sortedByKeys textLE ks (definedElements mixedArray) ys)
        \<and> arrayLeft sampleHooks plenty mixedArray now \<and> obj' = sortedArray mixedArray now ys))"
  by (rule array_sort_default [OF validScripts_stringObjects hooksOk_sample]) (auto simp: mixedArray_def MAX_LENGTH_def)

definition ascending :: callable where
  "ascending = Interpreted (returnM [GetArg 0, GetArg 1, Sub, Return, OtherOp])"

lemma array_sort_numeric_witness:
  "runs (intrinsic_ArrayNativeSort stringObjects sampleHooks (Some ascending) mixedArray) plenty
      (sortError plenty (\<lambda>e. e = UserException)) (\<lambda>(obj', done').
    done' \<and> (\<exists>ys now.
      (\<exists>ks. list_all2 (numberFor stringObjects sampleHooks plenty) (definedElements mixedArray) ks
        \<and> sortedByNumbers doubleLE ks (definedElements mixedArray) ys)
      \<and> arrayLeft sampleHooks plenty mixedArray now \<and> obj' = sortedArray mixedArray now ys))"
proof -
  have code: "bytecodeIs ascending plenty (\<lambda>e. e = UserException) [GetArg 0, GetArg 1, Sub, Return]"
    by (simp add: bytecodeIs_def ascending_def)
  have valid: "\<forall>x. Some x \<in> set mixedArray \<longrightarrow> validValue x" and len: "\<not> length mixedArray < 2"
    by (auto simp: mixedArray_def MAX_LENGTH_def)
  show ?thesis
    by (rule runs_weakenQ [OF array_sort_numeric [OF validScripts_stringObjects hooksOk_sample valid code]])
      (simp add: comparatorOrder_def len split: prod.split_asm)
qed

text \<open>The comparators of the native sort meet the interface of \<open>MergeSort\<close>.\<close>

interpretation int32Text: comparator CompareLexicographicInt32 v F "range Int32Value" True "\<lambda>a b. textLE (strOf a) (strOf b)"
  for v F
  by unfold_locales (auto simp: CompareLexicographicInt32_eq strOf_def totalPreorder_text)


end
