(* ===== verification/HashTable.thy ===== *)
theory HashTable
  imports MathAlgorithms
begin

text \<open>
  \<open>mfbt/HashTable.h\<close>: the open-addressing hash table behind \<open>HashMap\<close> and \<open>HashSet\<close>, with double hashing,
  collision bits and removed-entry sentinels.  The entry store is a list of slots; a \<open>Slot\<close> or \<open>Ptr\<close> into it
  is an index, and an index outside it is \<open>UndefinedBehavior\<close>.  The generation and the mutation count, which
  only assertions read, are kept.  Hashing does not fail (the default \<open>FallibleHashMethods\<close>), and an allocation
  policy only succeeds or fails: \<open>pod_malloc\<close> and \<open>checkSimulatedOOM\<close> are \<open>tryAlloc\<close>.
  Counts and capacities are naturals, since they stay below \<open>2 ^ 30\<close>; hashes are 32-bit words.
\<close>

section \<open>Slots\<close>

type_synonym HashNumber = u32

definition sFreeKey :: HashNumber where
  "sFreeKey = 0"

definition sRemovedKey :: HashNumber where
  "sRemovedKey = 1"

definition sCollisionBit :: HashNumber where
  "sCollisionBit = 1"

definition isLiveHash :: "HashNumber \<Rightarrow> bool" where
  "isLiveHash hash \<longleftrightarrow> hash > sRemovedKey"

text \<open>A cached hash and the entry, which is absent where nothing was constructed or it was destroyed.\<close>

record 't Slot =
  mKeyHash :: HashNumber
  mEntry :: "'t option"

definition isFree :: "'t Slot \<Rightarrow> bool" where
  "isFree s \<longleftrightarrow> mKeyHash s = sFreeKey"

definition isRemoved :: "'t Slot \<Rightarrow> bool" where
  "isRemoved s \<longleftrightarrow> mKeyHash s = sRemovedKey"

definition isLive :: "'t Slot \<Rightarrow> bool" where
  "isLive s \<longleftrightarrow> isLiveHash (mKeyHash s)"

definition hasCollision :: "'t Slot \<Rightarrow> bool" where
  "hasCollision s \<longleftrightarrow> mKeyHash s AND sCollisionBit \<noteq> 0"

definition getKeyHash :: "'t Slot \<Rightarrow> HashNumber" where
  "getKeyHash s = mKeyHash s AND NOT sCollisionBit"

definition matchHash :: "'t Slot \<Rightarrow> HashNumber \<Rightarrow> bool" where
  "matchHash s hn \<longleftrightarrow> mKeyHash s AND NOT sCollisionBit = hn"

definition clearLive :: "'t Slot \<Rightarrow> 't Slot eng" where
  "clearLive s = mozAssert (isLive s) (returnM \<lparr>mKeyHash = sFreeKey, mEntry = None\<rparr>)"

definition clearSlot :: "'t Slot \<Rightarrow> 't Slot" where
  "clearSlot s = \<lparr>mKeyHash = sFreeKey, mEntry = None\<rparr>"

definition removeLive :: "'t Slot \<Rightarrow> 't Slot eng" where
  "removeLive s = mozAssert (isLive s) (returnM \<lparr>mKeyHash = sRemovedKey, mEntry = None\<rparr>)"

definition setCollision :: "'t Slot \<Rightarrow> 't Slot eng" where
  "setCollision s = mozAssert (isLive s) (returnM (s\<lparr>mKeyHash := mKeyHash s OR sCollisionBit\<rparr>))"

definition unsetCollision :: "'t Slot \<Rightarrow> 't Slot" where
  "unsetCollision s = s\<lparr>mKeyHash := mKeyHash s AND NOT sCollisionBit\<rparr>"

definition setLive :: "'t Slot \<Rightarrow> HashNumber \<Rightarrow> 't \<Rightarrow> 't Slot eng" where
  "setLive s aHashNumber x =
     mozAssert (\<not> isLive s)
     (let s = \<lparr>mKeyHash = aHashNumber, mEntry = Some x\<rparr> in mozAssert (isLive s) (returnM s))"

definition getEntry :: "'t Slot \<Rightarrow> 't eng" where
  "getEntry s = (case mEntry s of None \<Rightarrow> throwM UndefinedBehavior | Some x \<Rightarrow> returnM x)"

section \<open>The table\<close>

record ('t, 'k) HashPolicy =
  hash :: "'k \<Rightarrow> HashNumber"
  match :: "'k \<Rightarrow> 'k \<Rightarrow> bool"
  getKey :: "'t \<Rightarrow> 'k"
  setKey :: "'t \<Rightarrow> 'k \<Rightarrow> 't"

record 't HashTable =
  mGen :: "56 word"
  mHashShift :: nat
  mTable :: "'t Slot list option"
  mEntryCount :: nat
  mRemovedCount :: nat
  mMutationCount :: u64

definition kHashNumberBits :: nat where
  "kHashNumberBits = 32"

definition sMinCapacity :: nat where
  "sMinCapacity = 4"

definition sMaxInit :: nat where
  "sMaxInit = 2 ^ 29"

definition sMaxCapacity :: nat where
  "sMaxCapacity = 2 ^ 30"

definition sAlphaDenominator :: nat where
  "sAlphaDenominator = 4"

definition sMinAlphaNumerator :: nat where
  "sMinAlphaNumerator = 1"

definition sMaxAlphaNumerator :: nat where
  "sMaxAlphaNumerator = 3"

definition sDefaultLen :: nat where
  "sDefaultLen = 16"

definition bestCapacity :: "nat \<Rightarrow> nat eng" where
  "bestCapacity aLen =
     mozAssert (aLen \<le> sMaxInit)
     (let capacity = (aLen * sAlphaDenominator + sMaxAlphaNumerator - 1) div sMaxAlphaNumerator in
      bindM (if capacity < sMinCapacity then returnM sMinCapacity
             else bindM (RoundUpPow2 (of_nat capacity)) (\<lambda>c. returnM (unat c))) (\<lambda>capacity.
      mozAssert (capacity \<ge> aLen) (mozAssert (capacity \<le> sMaxCapacity) (returnM capacity))))"

definition hashShift :: "nat \<Rightarrow> nat eng" where
  "hashShift aLen =
     (if aLen > sMaxInit then throwM AssertFail
      else bindM (bestCapacity aLen) (\<lambda>c. returnM (kHashNumberBits - CeilingLog2 (of_nat c :: u32))))"

definition ScrambleHashCode :: "HashNumber \<Rightarrow> HashNumber" where
  "ScrambleHashCode h = h * 0x9E3779B9"

definition prepareHash :: "('t, 'k) HashPolicy \<Rightarrow> 'k \<Rightarrow> HashNumber" where
  "prepareHash P aLookup =
     (let keyHash = ScrambleHashCode (hash P aLookup);
          keyHash = (if \<not> isLiveHash keyHash then keyHash - (sRemovedKey + 1) else keyHash)
      in keyHash AND NOT sCollisionBit)"

definition newHashTable :: "nat \<Rightarrow> 't HashTable eng" where
  "newHashTable aLen = bindM (hashShift aLen) (\<lambda>shift.
     returnM \<lparr>mGen = 0, mHashShift = shift, mTable = None, mEntryCount = 0, mRemovedCount = 0, mMutationCount = 0\<rparr>)"

definition rawCapacity :: "'t HashTable \<Rightarrow> nat" where
  "rawCapacity t = 2 ^ (kHashNumberBits - mHashShift t)"

definition capacity :: "'t HashTable \<Rightarrow> nat" where
  "capacity t = (if mTable t = None then 0 else rawCapacity t)"

definition tableEmpty :: "'t HashTable \<Rightarrow> bool" where
  "tableEmpty t \<longleftrightarrow> mEntryCount t = 0"

section \<open>Probing\<close>

definition hash1 :: "'t HashTable \<Rightarrow> HashNumber \<Rightarrow> HashNumber" where
  "hash1 t aHash0 = drop_bit (mHashShift t) aHash0"

record DoubleHash =
  mHash2 :: HashNumber
  mSizeMask :: HashNumber

definition hash2 :: "'t HashTable \<Rightarrow> HashNumber \<Rightarrow> DoubleHash" where
  "hash2 t aCurKeyHash =
     (let sizeLog2 = kHashNumberBits - mHashShift t in
      \<lparr>mHash2 = drop_bit (mHashShift t) (push_bit sizeLog2 aCurKeyHash) OR 1,
       mSizeMask = push_bit sizeLog2 1 - 1\<rparr>)"

definition applyDoubleHash :: "HashNumber \<Rightarrow> DoubleHash \<Rightarrow> HashNumber" where
  "applyDoubleHash aHash1 aDoubleHash = (aHash1 - mHash2 aDoubleHash) AND mSizeMask aDoubleHash"

definition slots :: "'t HashTable \<Rightarrow> 't Slot list" where
  "slots t = (case mTable t of None \<Rightarrow> [] | Some ss \<Rightarrow> ss)"

definition slotForIndex :: "'t HashTable \<Rightarrow> HashNumber \<Rightarrow> 't Slot eng" where
  "slotForIndex t aIndex = ptrGet (slots t) (unat aIndex)"

definition setSlot :: "'t HashTable \<Rightarrow> HashNumber \<Rightarrow> 't Slot \<Rightarrow> 't HashTable eng" where
  "setSlot t aIndex s = bindM (ptrSet (slots t) (unat aIndex) s) (\<lambda>ss. returnM (t\<lparr>mTable := Some ss\<rparr>))"

definition matchSlot :: "('t, 'k) HashPolicy \<Rightarrow> 't Slot \<Rightarrow> HashNumber \<Rightarrow> 'k \<Rightarrow> bool eng" where
  "matchSlot P s aKeyHash aLookup =
     (if matchHash s aKeyHash then bindM (getEntry s) (\<lambda>x. returnM (match P (getKey P x) aLookup))
      else returnM False)"

text \<open>What a turn of the loop of \<open>lookup\<close> does with the slot before it goes on.\<close>

definition markSlot ::
  "bool \<Rightarrow> 't HashTable \<Rightarrow> HashNumber \<Rightarrow> HashNumber option \<Rightarrow> ('t HashTable \<times> HashNumber option) eng" where
  "markSlot forAdd t h1 firstRemoved =
     bindM (slotForIndex t h1) (\<lambda>slot.
     if forAdd \<and> firstRemoved = None then
       if isRemoved slot then returnM (t, Some h1)
       else bindM (setCollision slot) (\<lambda>s. bindM (setSlot t h1 s) (\<lambda>t. returnM (t, firstRemoved)))
     else returnM (t, firstRemoved))"

text \<open>
  One turn of the loop of \<open>lookup\<close>: the state is the table, \<open>h1\<close>, \<open>firstRemoved\<close>, and the slot returned.
\<close>

type_synonym 't probing = "'t HashTable \<times> HashNumber \<times> HashNumber option \<times> HashNumber option"

definition lookupStep ::
  "bool \<Rightarrow> ('t, 'k) HashPolicy \<Rightarrow> 'k \<Rightarrow> HashNumber \<Rightarrow> DoubleHash \<Rightarrow> 't probing \<Rightarrow> 't probing eng" where
  "lookupStep forAdd P aLookup aKeyHash dh = (\<lambda>(t, h1, firstRemoved, _).
     bindM (markSlot forAdd t h1 firstRemoved) (\<lambda>(t, firstRemoved).
     let h1 = applyDoubleHash h1 dh in
     bindM (slotForIndex t h1) (\<lambda>slot.
     if isFree slot then
       returnM (t, h1, firstRemoved, Some (case firstRemoved of Some r \<Rightarrow> r | None \<Rightarrow> h1))
     else
       bindM (matchSlot P slot aKeyHash aLookup) (\<lambda>b.
       returnM (t, h1, firstRemoved, if b then Some h1 else None)))))"

definition lookupSlot ::
  "bool \<Rightarrow> ('t, 'k) HashPolicy \<Rightarrow> 't HashTable \<Rightarrow> 'k \<Rightarrow> HashNumber \<Rightarrow> ('t HashTable \<times> HashNumber) eng" where
  "lookupSlot forAdd P t aLookup aKeyHash =
     mozAssert (isLiveHash aKeyHash) (mozAssert (aKeyHash AND sCollisionBit = 0) (mozAssert (mTable t \<noteq> None)
     (let h1 = hash1 t aKeyHash in
      bindM (slotForIndex t h1) (\<lambda>slot.
      if isFree slot then returnM (t, h1)
      else bindM (matchSlot P slot aKeyHash aLookup) (\<lambda>b.
        if b then returnM (t, h1)
        else
          let dh = hash2 t aKeyHash in
          bindM (whileE (\<lambda>(t, h1, firstRemoved, result). result = None) (lookupStep forAdd P aLookup aKeyHash dh)
              (t, h1, None, None))
            (\<lambda>(t, h1, firstRemoved, result). returnM (t, the result)))))))"

definition findStep :: "DoubleHash \<Rightarrow> 't HashTable \<times> HashNumber \<times> bool \<Rightarrow> ('t HashTable \<times> HashNumber \<times> bool) eng" where
  "findStep dh = (\<lambda>(t, h1, _).
     bindM (slotForIndex t h1) (\<lambda>slot. bindM (setCollision slot) (\<lambda>s. bindM (setSlot t h1 s) (\<lambda>t.
     let h1 = applyDoubleHash h1 dh in
     bindM (slotForIndex t h1) (\<lambda>slot. returnM (t, h1, \<not> isLive slot))))))"

definition findNonLiveSlot :: "'t HashTable \<Rightarrow> HashNumber \<Rightarrow> ('t HashTable \<times> HashNumber) eng" where
  "findNonLiveSlot t aKeyHash =
     mozAssert (aKeyHash AND sCollisionBit = 0) (mozAssert (mTable t \<noteq> None)
     (let h1 = hash1 t aKeyHash in
      bindM (slotForIndex t h1) (\<lambda>slot.
      if \<not> isLive slot then returnM (t, h1)
      else
        let dh = hash2 t aKeyHash in
        bindM (whileE (\<lambda>(t, h1, found). \<not> found) (findStep dh) (t, h1, False))
          (\<lambda>(t, h1, found). returnM (t, h1)))))"

section \<open>Resizing\<close>

datatype RebuildStatus = NotOverloaded | Rehashed | RehashFailed

definition createTable :: "nat \<Rightarrow> 't Slot list option eng" where
  "createTable aCapacity = bindM tryAlloc (\<lambda>ok.
     returnM (if ok then Some (replicate aCapacity \<lparr>mKeyHash = sFreeKey, mEntry = None\<rparr>) else None))"

definition moveLiveSlot :: "'t HashTable \<Rightarrow> 't Slot \<Rightarrow> 't HashTable eng" where
  "moveLiveSlot t slot =
     (if isLive slot then
        let hn = getKeyHash slot in
        bindM (findNonLiveSlot t hn) (\<lambda>(t, i).
        bindM (getEntry slot) (\<lambda>x.
        bindM (slotForIndex t i) (\<lambda>s. bindM (setLive s hn x) (\<lambda>s. setSlot t i s))))
      else returnM t)"

definition changeTableSize :: "'t HashTable \<Rightarrow> nat \<Rightarrow> ('t HashTable \<times> RebuildStatus) eng" where
  "changeTableSize t newCapacity =
     mozAssert (IsPowerOfTwo (of_nat newCapacity :: u32))
     (mozAssert ((mTable t \<noteq> None) = (capacity t \<noteq> 0))
     (let oldTable = slots t; newLog2 = CeilingLog2 (of_nat newCapacity :: u32) in
      if newCapacity > sMaxCapacity then returnM (t, RehashFailed)
      else
        bindM (createTable newCapacity) (\<lambda>newTable.
        if newTable = None then returnM (t, RehashFailed)
        else
          let t = t\<lparr>mHashShift := kHashNumberBits - newLog2, mRemovedCount := 0, mGen := mGen t + 1, mTable := newTable\<rparr> in
          bindM (forUp 0 (length oldTable) (\<lambda>i t. bindM (ptrGet oldTable i) (moveLiveSlot t)) t) (\<lambda>t.
          returnM (t, Rehashed)))))"

definition isOverloaded :: "'t HashTable \<Rightarrow> bool" where
  "isOverloaded t \<longleftrightarrow> mEntryCount t + mRemovedCount t \<ge> capacity t * sMaxAlphaNumerator div sAlphaDenominator"

definition rehashIfOverloaded :: "'t HashTable \<Rightarrow> ('t HashTable \<times> RebuildStatus) eng" where
  "rehashIfOverloaded t =
     (if \<not> isOverloaded t then returnM (t, NotOverloaded)
      else
        let manyRemoved = (mRemovedCount t \<ge> capacity t div 4);
            newCapacity = (if manyRemoved then rawCapacity t else rawCapacity t * 2)
        in changeTableSize t newCapacity)"

definition swapSlots :: "'t HashTable \<Rightarrow> nat \<Rightarrow> nat \<Rightarrow> 't HashTable eng" where
  "swapSlots t i j =
     bindM (ptrGet (slots t) i) (\<lambda>src. bindM (ptrGet (slots t) j) (\<lambda>tgt.
     bindM (ptrSet (slots t) i tgt) (\<lambda>ss. bindM (ptrSet ss j src) (\<lambda>ss.
     returnM (t\<lparr>mTable := Some ss\<rparr>)))))"

text \<open>One turn of the loop over \<open>i\<close>, with the search for a target that has no collision bit.\<close>

definition rehashStep :: "'t HashTable \<times> nat \<Rightarrow> ('t HashTable \<times> nat) eng" where
  "rehashStep = (\<lambda>(t, i).
     bindM (ptrGet (slots t) i) (\<lambda>src.
     if \<not> isLive src \<or> hasCollision src then returnM (t, Suc i)
     else
       let keyHash = getKeyHash src; h1 = hash1 t keyHash; dh = hash2 t keyHash in
       bindM (slotForIndex t h1) (\<lambda>tgt.
       bindM (whileE (\<lambda>(h1, tgt). hasCollision tgt)
           (\<lambda>(h1, tgt). let h1 = applyDoubleHash h1 dh in bindM (slotForIndex t h1) (\<lambda>tgt. returnM (h1, tgt)))
           (h1, tgt)) (\<lambda>(h1, tgt).
       bindM (swapSlots t i (unat h1)) (\<lambda>t.
       bindM (slotForIndex t h1) (\<lambda>s. bindM (setCollision s) (\<lambda>s. bindM (setSlot t h1 s) (\<lambda>t.
       returnM (t, i)))))))))"

definition rehashTableInPlace :: "'t HashTable \<Rightarrow> 't HashTable eng" where
  "rehashTableInPlace t =
     (let t = t\<lparr>mRemovedCount := 0, mGen := mGen t + 1, mTable := map_option (map unsetCollision) (mTable t)\<rparr> in
      bindM (whileE (\<lambda>(t, i). i < capacity t) rehashStep (t, 0)) (\<lambda>(t, i). returnM t))"

definition infallibleRehashIfOverloaded :: "'t HashTable \<Rightarrow> 't HashTable eng" where
  "infallibleRehashIfOverloaded t =
     bindM (rehashIfOverloaded t) (\<lambda>(t, status).
     if status = RehashFailed then rehashTableInPlace t else returnM t)"

definition shrinkIfUnderloaded :: "'t HashTable \<Rightarrow> 't HashTable eng" where
  "shrinkIfUnderloaded t =
     (let underloaded = (capacity t > sMinCapacity \<and>
            mEntryCount t \<le> capacity t * sMinAlphaNumerator div sAlphaDenominator) in
      if underloaded then bindM (changeTableSize t (capacity t div 2)) (\<lambda>(t, status). returnM t)
      else returnM t)"


section \<open>Lookups, insertions and removals\<close>

text \<open>
  A \<open>Ptr\<close> holds its slot, null when it is not valid, and the generation of its table when it was made; an
  \<open>AddPtr\<close> also holds the prepared hash and the mutation count.  The table a pointer belongs to is the table it is
  used with.
\<close>

record Ptr =
  mSlot :: "HashNumber option"
  mGeneration :: "56 word"

record AddPtr = Ptr +
  mPtrKeyHash :: HashNumber
  mPtrMutationCount :: u64

definition isValid :: "'z Ptr_scheme \<Rightarrow> bool" where
  "isValid p \<longleftrightarrow> mSlot p \<noteq> None"

definition found :: "'t HashTable \<Rightarrow> 'z Ptr_scheme \<Rightarrow> bool eng" where
  "found t p =
     (case mSlot p of None \<Rightarrow> returnM False
      | Some i \<Rightarrow> mozAssert (mGeneration p = mGen t) (bindM (slotForIndex t i) (\<lambda>s. returnM (isLive s))))"

definition derefPtr :: "'t HashTable \<Rightarrow> 'z Ptr_scheme \<Rightarrow> 't eng" where
  "derefPtr t p =
     bindM (found t p) (\<lambda>b. mozAssert b (mozAssert (mGeneration p = mGen t)
     (case mSlot p of None \<Rightarrow> throwM UndefinedBehavior | Some i \<Rightarrow> bindM (slotForIndex t i) getEntry)))"

definition isLivePtr :: "'z AddPtr_scheme \<Rightarrow> bool" where
  "isLivePtr p \<longleftrightarrow> isLiveHash (mPtrKeyHash p)"

definition removeSlot :: "'t HashTable \<Rightarrow> HashNumber \<Rightarrow> 't HashTable eng" where
  "removeSlot t i =
     mozAssert (mTable t \<noteq> None)
     (bindM (slotForIndex t i) (\<lambda>s.
      bindM (if hasCollision s then
               bindM (removeLive s) (\<lambda>s. bindM (setSlot t i s) (\<lambda>t.
               returnM (t\<lparr>mRemovedCount := mRemovedCount t + 1\<rparr>)))
             else bindM (clearLive s) (setSlot t i)) (\<lambda>t.
      returnM (t\<lparr>mEntryCount := mEntryCount t - 1, mMutationCount := mMutationCount t + 1\<rparr>))))"

text \<open>\<open>setLive\<close> on the slot at an index, with the two counters that every caller increments.\<close>

definition fillSlot :: "'t HashTable \<Rightarrow> HashNumber \<Rightarrow> HashNumber \<Rightarrow> 't \<Rightarrow> 't HashTable eng" where
  "fillSlot t i keyHash x =
     bindM (slotForIndex t i) (\<lambda>s. bindM (setLive s keyHash x) (\<lambda>s. bindM (setSlot t i s) (\<lambda>t.
     returnM (t\<lparr>mEntryCount := mEntryCount t + 1, mMutationCount := mMutationCount t + 1\<rparr>))))"

definition putNewInfallibleInternal :: "('t, 'k) HashPolicy \<Rightarrow> 't HashTable \<Rightarrow> 'k \<Rightarrow> 't \<Rightarrow> 't HashTable eng" where
  "putNewInfallibleInternal P t aLookup x =
     mozAssert (mTable t \<noteq> None)
     (let keyHash = prepareHash P aLookup in
      bindM (findNonLiveSlot t keyHash) (\<lambda>(t, i).
      bindM (slotForIndex t i) (\<lambda>s.
      if isRemoved s then fillSlot (t\<lparr>mRemovedCount := mRemovedCount t - 1\<rparr>) i (keyHash OR sCollisionBit) x
      else fillSlot t i keyHash x)))"

definition clear :: "'t HashTable \<Rightarrow> 't HashTable" where
  "clear t = t\<lparr>mTable := map_option (map clearSlot) (mTable t), mRemovedCount := 0, mEntryCount := 0,
               mMutationCount := mMutationCount t + 1\<rparr>"

definition compact :: "'t HashTable \<Rightarrow> 't HashTable eng" where
  "compact t =
     (if tableEmpty t then
        bindM (hashShift 0) (\<lambda>shift.
        returnM (t\<lparr>mGen := mGen t + 1, mHashShift := shift, mTable := None, mRemovedCount := 0\<rparr>))
      else
        bindM (bestCapacity (mEntryCount t)) (\<lambda>best.
        mozAssert (best \<le> capacity t)
        (if best < capacity t then bindM (changeTableSize t best) (\<lambda>(t, status). returnM t) else returnM t)))"

definition clearAndCompact :: "'t HashTable \<Rightarrow> 't HashTable eng" where
  "clearAndCompact t = compact (clear t)"

definition reserve :: "'t HashTable \<Rightarrow> nat \<Rightarrow> ('t HashTable \<times> bool) eng" where
  "reserve t aLen =
     (if aLen = 0 then returnM (t, True)
      else if aLen > sMaxInit then returnM (t, False)
      else
        bindM (bestCapacity aLen) (\<lambda>best.
        if best \<le> capacity t then returnM (t, True)
        else bindM (changeTableSize t best) (\<lambda>(t, status).
          mozAssert (status \<noteq> NotOverloaded) (returnM (t, status \<noteq> RehashFailed)))))"

definition tableLookup :: "('t, 'k) HashPolicy \<Rightarrow> 't HashTable \<Rightarrow> 'k \<Rightarrow> Ptr eng" where
  "tableLookup P t aLookup =
     (if tableEmpty t then returnM \<lparr>mSlot = None, mGeneration = 0\<rparr>
      else bindM (lookupSlot False P t aLookup (prepareHash P aLookup)) (\<lambda>(t, i).
        returnM \<lparr>mSlot = Some i, mGeneration = mGen t\<rparr>))"

definition lookupForAdd :: "('t, 'k) HashPolicy \<Rightarrow> 't HashTable \<Rightarrow> 'k \<Rightarrow> ('t HashTable \<times> AddPtr) eng" where
  "lookupForAdd P t aLookup =
     (let keyHash = prepareHash P aLookup in
      if mTable t = None then
        mozAssert (isLiveHash keyHash)
        (returnM (t, \<lparr>mSlot = None, mGeneration = mGen t, mPtrKeyHash = keyHash, mPtrMutationCount = mMutationCount t\<rparr>))
      else bindM (lookupSlot True P t aLookup keyHash) (\<lambda>(t, i).
        returnM (t, \<lparr>mSlot = Some i, mGeneration = mGen t, mPtrKeyHash = keyHash, mPtrMutationCount = mMutationCount t\<rparr>)))"

text \<open>The three ways in which \<open>add\<close> makes the slot ready: \<open>None\<close> where it returns \<open>false\<close>.\<close>

definition addSlot :: "'t HashTable \<Rightarrow> AddPtr \<Rightarrow> ('t HashTable \<times> (HashNumber \<times> HashNumber) option) eng" where
  "addSlot t p =
     (case mSlot p of
        None \<Rightarrow>
          mozAssert (mTable t = None \<and> mEntryCount t = 0)
          (bindM (changeTableSize t (rawCapacity t)) (\<lambda>(t, status).
           mozAssert (status \<noteq> NotOverloaded)
           (if status = RehashFailed then returnM (t, None)
            else bindM (findNonLiveSlot t (mPtrKeyHash p)) (\<lambda>(t, i). returnM (t, Some (i, mPtrKeyHash p))))))
      | Some i \<Rightarrow>
          bindM (slotForIndex t i) (\<lambda>s.
          if isRemoved s then
            bindM tryAlloc (\<lambda>ok.
            if \<not> ok then returnM (t, None)
            else returnM (t\<lparr>mRemovedCount := mRemovedCount t - 1\<rparr>, Some (i, mPtrKeyHash p OR sCollisionBit)))
          else
            bindM (rehashIfOverloaded t) (\<lambda>(t, status).
            if status = RehashFailed then returnM (t, None)
            else if status = Rehashed then
              bindM (findNonLiveSlot t (mPtrKeyHash p)) (\<lambda>(t, i). returnM (t, Some (i, mPtrKeyHash p)))
            else
              bindM tryAlloc (\<lambda>ok. returnM (t, if ok then Some (i, mPtrKeyHash p) else None)))))"

definition add :: "'t HashTable \<Rightarrow> AddPtr \<Rightarrow> 't \<Rightarrow> ('t HashTable \<times> AddPtr \<times> bool) eng" where
  "add t p x =
     mozAssert (isValid p \<longrightarrow> mTable t \<noteq> None)
     (bindM (found t p) (\<lambda>b.
      mozAssert (\<not> b) (mozAssert (mPtrKeyHash p AND sCollisionBit = 0)
      (if \<not> isLivePtr p then returnM (t, p, False)
       else
         mozAssert (mGeneration p = mGen t) (mozAssert (mPtrMutationCount p = mMutationCount t)
         (bindM (addSlot t p) (\<lambda>(t, ready).
          case ready of None \<Rightarrow> returnM (t, p, False)
          | Some (i, keyHash) \<Rightarrow>
              bindM (fillSlot t i keyHash x) (\<lambda>t.
              returnM (t, p\<lparr>mSlot := Some i, mPtrKeyHash := keyHash, mGeneration := mGen t,
                           mPtrMutationCount := mMutationCount t\<rparr>, True)))))))))"

definition putNewInfallible :: "('t, 'k) HashPolicy \<Rightarrow> 't HashTable \<Rightarrow> 'k \<Rightarrow> 't \<Rightarrow> 't HashTable eng" where
  "putNewInfallible P t aLookup x =
     bindM (tableLookup P t aLookup) (\<lambda>p. bindM (found t p) (\<lambda>b.
     mozAssert (\<not> b) (putNewInfallibleInternal P t aLookup x)))"

definition putNew :: "('t, 'k) HashPolicy \<Rightarrow> 't HashTable \<Rightarrow> 'k \<Rightarrow> 't \<Rightarrow> ('t HashTable \<times> bool) eng" where
  "putNew P t aLookup x =
     bindM tryAlloc (\<lambda>ok.
     if \<not> ok then returnM (t, False)
     else bindM (rehashIfOverloaded t) (\<lambda>(t, status).
       if status = RehashFailed then returnM (t, False)
       else bindM (putNewInfallible P t aLookup x) (\<lambda>t. returnM (t, True))))"

definition relookupOrAdd ::
  "('t, 'k) HashPolicy \<Rightarrow> 't HashTable \<Rightarrow> AddPtr \<Rightarrow> 'k \<Rightarrow> 't \<Rightarrow> ('t HashTable \<times> AddPtr \<times> bool) eng" where
  "relookupOrAdd P t p aLookup x =
     (if \<not> isLivePtr p then returnM (t, p, False)
      else
        let p = p\<lparr>mGeneration := mGen t, mPtrMutationCount := mMutationCount t\<rparr> in
        if mTable t \<noteq> None then
          mozAssert (prepareHash P aLookup = mPtrKeyHash p)
          (bindM (lookupSlot True P t aLookup (mPtrKeyHash p)) (\<lambda>(t, i).
           let p = p\<lparr>mSlot := Some i\<rparr> in
           bindM (found t p) (\<lambda>b. if b then returnM (t, p, True) else add t p x)))
        else add t (p\<lparr>mSlot := None\<rparr>) x)"

definition removePtr :: "'t HashTable \<Rightarrow> Ptr \<Rightarrow> 't HashTable eng" where
  "removePtr t p =
     mozAssert (mTable t \<noteq> None)
     (bindM (found t p) (\<lambda>b.
      mozAssert b (mozAssert (mGeneration p = mGen t)
      (case mSlot p of None \<Rightarrow> throwM UndefinedBehavior
       | Some i \<Rightarrow> bindM (removeSlot t i) shrinkIfUnderloaded))))"

definition rekeyWithoutRehash :: "('t, 'k) HashPolicy \<Rightarrow> 't HashTable \<Rightarrow> Ptr \<Rightarrow> 'k \<Rightarrow> 'k \<Rightarrow> 't HashTable eng" where
  "rekeyWithoutRehash P t p aLookup aKey =
     mozAssert (mTable t \<noteq> None)
     (bindM (found t p) (\<lambda>b.
      mozAssert b (mozAssert (mGeneration p = mGen t)
      (bindM (derefPtr t p) (\<lambda>x.
       case mSlot p of None \<Rightarrow> throwM UndefinedBehavior
       | Some i \<Rightarrow> bindM (removeSlot t i) (\<lambda>t. putNewInfallibleInternal P t aLookup (setKey P x aKey)))))))"

definition rekeyAndMaybeRehash :: "('t, 'k) HashPolicy \<Rightarrow> 't HashTable \<Rightarrow> Ptr \<Rightarrow> 'k \<Rightarrow> 'k \<Rightarrow> 't HashTable eng" where
  "rekeyAndMaybeRehash P t p aLookup aKey =
     bindM (rekeyWithoutRehash P t p aLookup aKey) infallibleRehashIfOverloaded"


end
