(* ===== verification/HashTable_Probe.thy ===== *)
theory HashTable_Probe
  imports HashTable "HOL-Library.Multiset"
begin

text \<open>
  Slots and probing: the collision bit and the live states, the probe sequence of a hash, which visits every slot
  because its stride is odd, and what \<open>lookup\<close> and \<open>findNonLiveSlot\<close> find.
\<close>

section \<open>Slot states\<close>

lemma bit_minus_two: "bit (- 2 :: HashNumber) n \<longleftrightarrow> n \<noteq> 0 \<and> n < 32"
proof -
  have "bit (NOT 1 :: HashNumber) n \<longleftrightarrow> n \<noteq> 0 \<and> n < 32" unfolding bit_simps by (auto simp: bit_1_iff)
  then show ?thesis by simp
qed

lemmas bit_one_facts = bit_and_iff bit_or_iff bit_minus_two bit_1_iff

lemma hash_split: "h = (h AND - 2) OR (h AND (1 :: HashNumber))"
  by (rule bit_word_eqI) (auto simp: bit_one_facts)

lemma or_one_and [simp]: "(h OR 1) AND - 2 = h AND (- 2 :: HashNumber)"
  by (rule bit_word_eqI) (auto simp: bit_one_facts)

lemma or_one_and_one [simp]: "(h OR 1) AND 1 = (1 :: HashNumber)"
  by (rule bit_word_eqI) (auto simp: bit_one_facts)

lemma and_and_one [simp]: "(h AND - 2) AND 1 = (0 :: HashNumber)"
  by (rule bit_word_eqI) (auto simp: bit_one_facts)

lemma and_and_twice [simp]: "(h AND - 2) AND - 2 = h AND (- 2 :: HashNumber)"
  by (simp add: and.assoc)

lemma hash_cases: "h AND - 2 = 0 \<longleftrightarrow> h = 0 \<or> h = (1 :: HashNumber)"
proof
  assume "h AND - 2 = 0"
  then have "h = h AND 1" using hash_split [of h] by simp
  moreover have "h AND 1 = 0 \<or> h AND 1 = 1" by (simp add: and_one_eq mod2_eq_if)
  ultimately show "h = 0 \<or> h = 1" by metis
qed auto

lemma isLiveHash_iff: "isLiveHash h \<longleftrightarrow> h AND - 2 \<noteq> 0"
proof -
  have "unat h \<le> 1 \<longleftrightarrow> unat h = 0 \<or> unat h = unat (1 :: HashNumber)" by auto
  then have "h \<le> 1 \<longleftrightarrow> h = 0 \<or> h = 1" unfolding word_unat_eq_iff word_le_nat_alt by simp
  then show ?thesis by (simp add: hash_cases isLiveHash_def sRemovedKey_def flip: not_le)
qed

lemma isLiveHash_or_one [simp]: "isLiveHash (h OR 1) \<longleftrightarrow> isLiveHash h"
  by (simp add: isLiveHash_iff)

lemma isLiveHash_and [simp]: "isLiveHash (h AND - 2) \<longleftrightarrow> isLiveHash h"
  by (simp add: isLiveHash_iff)

lemma isFree_not_live: "isFree s \<Longrightarrow> \<not> isLive s"
  by (simp add: isFree_def isLive_def isLiveHash_def sFreeKey_def sRemovedKey_def)

lemma isRemoved_not_live: "isRemoved s \<Longrightarrow> \<not> isLive s"
  by (simp add: isRemoved_def isLive_def isLiveHash_def sRemovedKey_def)

lemma isFree_not_removed: "isFree s \<Longrightarrow> \<not> isRemoved s"
  by (simp add: isFree_def isRemoved_def sFreeKey_def sRemovedKey_def)

lemma slot_states: "isFree s \<or> isRemoved s \<or> isLive s"
  using hash_cases [of "mKeyHash s"]
  by (auto simp: isFree_def isRemoved_def isLive_def isLiveHash_iff sFreeKey_def sRemovedKey_def)

lemma isRemoved_iff: "isRemoved s \<longleftrightarrow> \<not> isLive s \<and> hasCollision s"
  using slot_states [of s] isRemoved_not_live [of s]
  by (auto simp: isRemoved_def isFree_def hasCollision_def sFreeKey_def sRemovedKey_def sCollisionBit_def)

lemma isFree_iff: "isFree s \<longleftrightarrow> \<not> isLive s \<and> \<not> hasCollision s"
  using slot_states [of s] isFree_not_live [of s] isRemoved_iff [of s] isFree_not_removed [of s] by blast

lemma isLive_iff: "isLive s \<longleftrightarrow> isLiveHash (getKeyHash s)"
  by (simp add: isLive_def getKeyHash_def sCollisionBit_def)

text \<open>A slot whose collision bit was set.\<close>

definition raised :: "'t Slot \<Rightarrow> 't Slot" where
  "raised s = s\<lparr>mKeyHash := mKeyHash s OR sCollisionBit\<rparr>"

lemma raised_simps [simp]:
  "isLive (raised s) \<longleftrightarrow> isLive s" "getKeyHash (raised s) = getKeyHash s" "mEntry (raised s) = mEntry s"
  "hasCollision (raised s)"
  by (simp_all add: raised_def isLive_def getKeyHash_def hasCollision_def sCollisionBit_def)

lemma setCollision_live: "isLive s \<Longrightarrow> setCollision s = returnM (raised s)"
  by (simp add: setCollision_def raised_def)

lemma unsetCollision_simps [simp]:
  "isLive (unsetCollision s) \<longleftrightarrow> isLive s" "getKeyHash (unsetCollision s) = getKeyHash s"
  "mEntry (unsetCollision s) = mEntry s" "\<not> hasCollision (unsetCollision s)"
  by (simp_all add: unsetCollision_def isLive_def getKeyHash_def hasCollision_def sCollisionBit_def and.assoc)

lemma matchHash_iff: "matchHash s h \<longleftrightarrow> getKeyHash s = h"
  by (simp add: matchHash_def getKeyHash_def)

text \<open>A prepared hash is live and has no collision bit.\<close>

lemma prepareHash_live: "isLiveHash (prepareHash P k)"
proof -
  let ?h = "ScrambleHashCode (hash P k)"
  have eq: "prepareHash P k = (if isLiveHash ?h then ?h else ?h - 2) AND - 2"
    by (simp add: prepareHash_def Let_def sRemovedKey_def sCollisionBit_def)
  have "isLiveHash (?h - 2)" if "\<not> isLiveHash ?h"
    using that hash_cases [of ?h] by (auto simp: isLiveHash_iff)
  then show ?thesis by (simp add: eq)
qed

lemma prepareHash_and [simp]: "prepareHash P k AND - 2 = prepareHash P k"
  by (simp add: prepareHash_def Let_def sCollisionBit_def and.assoc)

lemma and_one_zero_iff: "h AND 1 = 0 \<longleftrightarrow> h AND - 2 = (h :: HashNumber)"
  by (metis and_and_one hash_split or.right_neutral)

lemma prepareHash_and_one [simp]: "prepareHash P k AND 1 = 0"
  by (simp add: and_one_zero_iff)

section \<open>The probe sequence\<close>

definition probe :: "nat \<Rightarrow> HashNumber \<Rightarrow> nat \<Rightarrow> HashNumber" where
  "probe sh h k = take_bit (32 - sh) (drop_bit sh h - of_nat k * (drop_bit sh (push_bit (32 - sh) h) OR 1))"

lemma probe_0: "mHashShift t = sh \<Longrightarrow> hash1 t h = probe sh h 0"
  by (rule bit_word_eqI) (auto simp: hash1_def probe_def bit_take_bit_iff bit_drop_bit_eq dest: bit_imp_le_length)

lemma mask_eq: "push_bit n 1 - 1 = (mask n :: HashNumber)"
  by (simp add: mask_eq_exp_minus_1 push_bit_eq_mult)

lemma uint_take_diff:
  "uint (take_bit (32 - sh) (a - of_nat k * d)) = (uint a - int k * uint (d :: HashNumber)) mod 2 ^ (32 - sh)"
proof -
  have dvd: "(2 :: int) ^ (32 - sh) dvd 2 ^ 32" by (rule le_imp_power_dvd) simp
  have "a - of_nat k * d = word_of_int (uint a - int k * uint d)" by simp
  then have "uint (a - of_nat k * d) = (uint a - int k * uint d) mod 2 ^ 32"
    by (simp only: uint_word_of_int len_bit0 len_num1 mult_1_right mult_2_right) simp
  then have "uint (a - of_nat k * d) mod 2 ^ (32 - sh) = (uint a - int k * uint d) mod 2 ^ (32 - sh)"
    by (simp only: mod_mod_cancel [OF dvd])
  then show ?thesis by (simp only: unsigned_take_bit_eq) (simp add: take_bit_eq_mod)
qed

lemma uint_probe:
  "uint (probe sh h k) =
     (uint (drop_bit sh h) - int k * uint (drop_bit sh (push_bit (32 - sh) h) OR 1)) mod 2 ^ (32 - sh)"
  by (simp only: probe_def uint_take_diff)

lemma probe_Suc:
  assumes "mHashShift t = sh"
  shows "applyDoubleHash (probe sh h k) (hash2 t h) = probe sh h (Suc k)"
proof (rule word_uint_eqI)
  let ?d = "drop_bit sh (push_bit (32 - sh) h) OR 1"
  have "applyDoubleHash (probe sh h k) (hash2 t h) = take_bit (32 - sh) (probe sh h k - of_nat 1 * ?d)"
    by (simp only: applyDoubleHash_def hash2_def Let_def kHashNumberBits_def mask_eq assms DoubleHash.select_convs
        take_bit_eq_mask of_nat_1 mult_1_left)
  then have "uint (applyDoubleHash (probe sh h k) (hash2 t h)) = (uint (probe sh h k) - int 1 * uint ?d) mod 2 ^ (32 - sh)"
    by (simp only: uint_take_diff)
  also have "\<dots> = uint (probe sh h (Suc k))"
    unfolding uint_probe by (simp add: mod_diff_left_eq algebra_simps)
  finally show "uint (applyDoubleHash (probe sh h k) (hash2 t h)) = uint (probe sh h (Suc k))" .
qed

lemma probe_bound: "unat (probe sh h k) < 2 ^ (32 - sh)"
  by (simp add: probe_def unsigned_take_bit_eq)

lemma probe_inj: "inj_on (\<lambda>k. unat (probe sh h k)) {..< 2 ^ (32 - sh)}"
proof (rule inj_onI)
  fix j k :: nat
  assume jk: "j \<in> {..< 2 ^ (32 - sh)}" "k \<in> {..< 2 ^ (32 - sh)}"
    and eq: "unat (probe sh h j) = unat (probe sh h k)"
  let ?n = "32 - sh"
  let ?d = "uint (drop_bit sh (push_bit ?n h) OR 1)" and ?a = "uint (drop_bit sh h)"
  have "odd ?d" by (metis bit_0 bit_1_0 bit_or_iff bit_uint_iff even_or_iff odd_one uint_or uint_1)
  then have co: "coprime (2 ^ ?n) ?d" by (simp add: coprime_left_2_iff_odd)
  have "(?a - int j * ?d) mod 2 ^ ?n = (?a - int k * ?d) mod 2 ^ ?n"
    using eq by (metis uint_probe uint_nat)
  then have "2 ^ ?n dvd (?a - int j * ?d) - (?a - int k * ?d)" by (simp add: mod_eq_dvd_iff)
  then have "2 ^ ?n dvd (int k - int j) * ?d" by (simp add: algebra_simps)
  then have dvd: "2 ^ ?n dvd int k - int j" by (simp only: coprime_dvd_mult_left_iff [OF co])
  have "j < 2 ^ ?n" "k < 2 ^ ?n" using jk by auto
  then have "int j < int (2 ^ ?n)" "int k < int (2 ^ ?n)" by (simp_all only: of_nat_less_iff)
  then have "\<bar>int k - int j\<bar> < int (2 ^ ?n)" by linarith
  moreover have "int k - int j \<noteq> 0 \<Longrightarrow> 2 ^ ?n \<le> \<bar>int k - int j\<bar>"
    using dvd_imp_le_int [OF _ dvd] by simp
  ultimately have "int k - int j = 0" by (cases "int k - int j = 0") simp_all
  then show "j = k" by simp
qed

lemma probe_surj: "i < 2 ^ (32 - sh) \<Longrightarrow> \<exists>k < 2 ^ (32 - sh). unat (probe sh h k) = i"
proof -
  assume i: "i < 2 ^ (32 - sh)"
  have "(\<lambda>k. unat (probe sh h k)) ` {..< 2 ^ (32 - sh)} = {..< 2 ^ (32 - sh)}"
    by (rule endo_inj_surj) (auto simp: probe_inj probe_bound)
  then show ?thesis using i by (metis (mono_tags, lifting) imageE lessThan_iff)
qed


section \<open>Stores of slots\<close>

definition liveEntries :: "'t Slot list \<Rightarrow> 't multiset" where
  "liveEntries ss = image_mset (the \<circ> mEntry) (filter_mset isLive (mset ss))"

definition removedSlots :: "'t Slot list \<Rightarrow> nat" where
  "removedSlots ss = size (filter_mset isRemoved (mset ss))"

text \<open>A probe for the hash gets to the slot over collision bits.\<close>

definition reached :: "nat \<Rightarrow> 't Slot list \<Rightarrow> HashNumber \<Rightarrow> nat \<Rightarrow> bool" where
  "reached sh ss h i \<longleftrightarrow> (\<exists>k. unat (probe sh h k) = i \<and> (\<forall>j < k. hasCollision (ss ! unat (probe sh h j))))"

definition holds :: "('t, 'k) HashPolicy \<Rightarrow> 't Slot \<Rightarrow> bool" where
  "holds P s \<longleftrightarrow> (\<exists>x. mEntry s = Some x \<and> getKeyHash s = prepareHash P (getKey P x))"

definition slotsOk :: "('t, 'k) HashPolicy \<Rightarrow> nat \<Rightarrow> 't Slot list \<Rightarrow> bool" where
  "slotsOk P sh ss \<longleftrightarrow>
     length ss = 2 ^ (32 - sh) \<and>
     (\<forall>i < length ss. isLive (ss ! i) \<longrightarrow> holds P (ss ! i) \<and> reached sh ss (getKeyHash (ss ! i)) i)"

text \<open>A search for an insertion only sets collision bits of live slots.\<close>

definition raises :: "'t Slot list \<Rightarrow> 't Slot list \<Rightarrow> bool" where
  "raises ss ss' \<longleftrightarrow>
     length ss' = length ss \<and> (\<forall>i < length ss. ss' ! i = ss ! i \<or> isLive (ss ! i) \<and> ss' ! i = raised (ss ! i))"

lemma reached_mono:
  assumes "\<And>i. i < length ss \<Longrightarrow> hasCollision (ss ! i) \<Longrightarrow> hasCollision (ss' ! i)" and "length ss = 2 ^ (32 - sh)"
    and "reached sh ss h i"
  shows "reached sh ss' h i"
  using assms probe_bound unfolding reached_def by metis

lemma slotsOkD: "slotsOk P sh ss \<Longrightarrow> i < length ss \<Longrightarrow> isLive (ss ! i) \<Longrightarrow> holds P (ss ! i) \<and> reached sh ss (getKeyHash (ss ! i)) i"
  by (simp add: slotsOk_def)

lemma probe_inside: "slotsOk P sh ss \<Longrightarrow> unat (probe sh h k) < length ss"
  by (simp add: slotsOk_def probe_bound)

lemma mset_update_split: "i < length xs \<Longrightarrow> mset xs = add_mset (xs ! i) (mset xs - {#xs ! i#})"
  by simp

lemma liveEntries_update:
  assumes "i < length ss"
  shows "liveEntries (ss[i := s]) + (if isLive (ss ! i) then {#the (mEntry (ss ! i))#} else {#}) =
         liveEntries ss + (if isLive s then {#the (mEntry s)#} else {#})"
proof -
  obtain M where "mset ss = add_mset (ss ! i) M" using mset_update_split [OF assms] by blast
  then show ?thesis using assms by (simp add: liveEntries_def mset_update)
qed

lemma removedSlots_update:
  assumes "i < length ss"
  shows "removedSlots (ss[i := s]) + of_bool (isRemoved (ss ! i)) = removedSlots ss + of_bool (isRemoved s)"
proof -
  obtain M where "mset ss = add_mset (ss ! i) M" using mset_update_split [OF assms] by blast
  then show ?thesis using assms by (simp add: removedSlots_def mset_update)
qed

lemma liveEntries_iff: "x \<in># liveEntries ss \<longleftrightarrow> (\<exists>i < length ss. isLive (ss ! i) \<and> the (mEntry (ss ! i)) = x)"
  by (auto simp: liveEntries_def in_set_conv_nth)

lemma size_live_removed: "size (liveEntries ss) + removedSlots ss + size (filter_mset isFree (mset ss)) = length ss"
proof (induction ss)
  case (Cons s ss)
  show ?case using Cons slot_states [of s] isFree_not_live [of s] isRemoved_not_live [of s] isFree_not_removed [of s]
    by (auto simp: liveEntries_def removedSlots_def)
qed (simp add: liveEntries_def removedSlots_def)

lemma free_exists: "size (liveEntries ss) + removedSlots ss < length ss \<Longrightarrow> \<exists>i < length ss. isFree (ss ! i)"
proof -
  assume "size (liveEntries ss) + removedSlots ss < length ss"
  then have "filter_mset isFree (mset ss) \<noteq> {#}" using size_live_removed [of ss] by (metis add.right_neutral less_irrefl size_empty)
  then obtain s where "s \<in># filter_mset isFree (mset ss)" by (metis multiset_nonemptyE)
  then show ?thesis by (auto simp: in_set_conv_nth)
qed

lemma nonlive_exists: "size (liveEntries ss) < length ss \<Longrightarrow> \<exists>i < length ss. \<not> isLive (ss ! i)"
proof (rule ccontr)
  assume "size (liveEntries ss) < length ss" and "\<not> (\<exists>i < length ss. \<not> isLive (ss ! i))"
  then have "filter_mset isLive (mset ss) = mset ss" by (auto simp: filter_mset_eq_conv in_set_conv_nth)
  then show False using \<open>size (liveEntries ss) < length ss\<close> by (simp add: liveEntries_def)
qed

lemma raises_refl [simp]: "raises ss ss"
  by (simp add: raises_def)

lemma raised_raised [simp]: "raised (raised s) = raised s"
  by (simp add: raised_def or.assoc)

lemma raises_set: "raises ss ss' \<Longrightarrow> i < length ss \<Longrightarrow> isLive (ss ! i) \<Longrightarrow> raises ss (ss'[i := raised (ss' ! i)])"
  unfolding raises_def by (auto simp: nth_list_update)

lemma raisesD:
  assumes "raises ss ss'" and "i < length ss"
  shows "isLive (ss' ! i) \<longleftrightarrow> isLive (ss ! i)" "getKeyHash (ss' ! i) = getKeyHash (ss ! i)" "mEntry (ss' ! i) = mEntry (ss ! i)"
    "hasCollision (ss ! i) \<Longrightarrow> hasCollision (ss' ! i)" "\<not> isLive (ss ! i) \<Longrightarrow> ss' ! i = ss ! i"
  using assms unfolding raises_def by (metis raised_simps)+

lemma raises_length: "raises ss ss' \<Longrightarrow> length ss' = length ss"
  by (simp add: raises_def)

lemma raises_mset:
  assumes "raises ss ss'"
  shows "liveEntries ss' = liveEntries ss" "removedSlots ss' = removedSlots ss"
proof -
  have "map (\<lambda>s. (isLive s, mEntry s)) ss' = map (\<lambda>s. (isLive s, mEntry s)) ss"
    using assms by (intro nth_equalityI) (auto simp: raises_length raisesD)
  then have "image_mset (\<lambda>s. (isLive s, mEntry s)) (mset ss') = image_mset (\<lambda>s. (isLive s, mEntry s)) (mset ss)"
    by (metis mset_map)
  then have "image_mset (the \<circ> snd) (filter_mset fst (image_mset (\<lambda>s. (isLive s, mEntry s)) (mset ss'))) =
    image_mset (the \<circ> snd) (filter_mset fst (image_mset (\<lambda>s. (isLive s, mEntry s)) (mset ss)))" by simp
  then show "liveEntries ss' = liveEntries ss"
    by (simp add: liveEntries_def filter_mset_image_mset multiset.map_comp comp_def)
  have "map isRemoved ss' = map isRemoved ss"
    using assms by (intro nth_equalityI) (auto simp: raises_length raisesD isRemoved_not_live isRemoved_iff)
  then have "image_mset isRemoved (mset ss') = image_mset isRemoved (mset ss)" by (metis mset_map)
  then have "size (filter_mset id (image_mset isRemoved (mset ss'))) = size (filter_mset id (image_mset isRemoved (mset ss)))"
    by simp
  then show "removedSlots ss' = removedSlots ss"
    by (simp add: removedSlots_def filter_mset_image_mset)
qed

lemma raises_slotsOk:
  assumes "raises ss ss'" and "slotsOk P sh ss"
  shows "slotsOk P sh ss'"
  using assms reached_mono [of ss ss' sh]
  by (auto simp: slotsOk_def holds_def raises_length raisesD)


section \<open>Searching\<close>

abbreviation never :: "err \<Rightarrow> bool" where
  "never \<equiv> \<lambda>e. False"

lemma slotForIndex_Some [simp]: "mTable t = Some ss \<Longrightarrow> unat i < length ss \<Longrightarrow> slotForIndex t i = returnM (ss ! unat i)"
  by (simp add: slotForIndex_def slots_def)

lemma setSlot_Some [simp]:
  "mTable t = Some ss \<Longrightarrow> unat i < length ss \<Longrightarrow> setSlot t i s = returnM (t\<lparr>mTable := Some (ss[unat i := s])\<rparr>)"
  by (simp add: setSlot_def slots_def)

lemma mTable_update_inj [simp]: "t\<lparr>mTable := a\<rparr> = t\<lparr>mTable := b\<rparr> \<longleftrightarrow> a = (b :: 't Slot list option)"
  by (cases t) simp

lemma hash_update [simp]: "hash2 (t\<lparr>mTable := tb\<rparr>) = hash2 t"
  by (simp add: hash2_def fun_eq_iff)

lemma findNonLiveSlot_runs:
  assumes t: "mTable t = Some ss" "mHashShift t = sh" and len: "length ss = 2 ^ (32 - sh)"
    and free: "\<exists>i < length ss. \<not> isLive (ss ! i)" and h: "h AND 1 = 0"
  shows "runs (findNonLiveSlot t h) v never (\<lambda>(t', i). \<exists>ss'. t' = t\<lparr>mTable := Some ss'\<rparr> \<and> raises ss ss' \<and>
    unat i < length ss \<and> \<not> isLive (ss' ! unat i) \<and> reached sh ss' h (unat i))"
proof -
  let ?p = "\<lambda>k. unat (probe sh h k)"
  have inside: "?p k < length ss" for k by (simp add: len probe_bound)
  obtain k0 where k0: "k0 < 2 ^ (32 - sh)" "\<not> isLive (ss ! ?p k0)" using free len probe_surj by metis
  define I where "I k = (\<lambda>(t' :: 'a HashTable, h1, found :: bool). \<exists>ss'. t' = t\<lparr>mTable := Some ss'\<rparr> \<and> raises ss ss' \<and> h1 = probe sh h k \<and>
    (\<forall>j < k. isLive (ss ! ?p j) \<and> hasCollision (ss' ! ?p j)) \<and> (found \<longleftrightarrow> \<not> isLive (ss ! ?p k)))" for k
  have loop: "runs (whileE (\<lambda>(t, h1, found). \<not> found) (findStep (hash2 t h)) (t, probe sh h 0, False)) v never
      (\<lambda>(t', i, found). \<exists>ss'. t' = t\<lparr>mTable := Some ss'\<rparr> \<and> raises ss ss' \<and>
    unat i < length ss \<and> \<not> isLive (ss' ! unat i) \<and> reached sh ss' h (unat i))" if live: "isLive (ss ! ?p 0)"
  proof (rule runs_whileE_count [where P = I and k = 0 and N = "2 ^ (32 - sh)"])
    show "I 0 (t, probe sh h 0, False)" using t live by (auto simp: I_def intro!: exI [of _ ss])
  next
    fix k and s :: "'a HashTable \<times> HashNumber \<times> bool"
    assume "I k s" and "case s of (t, h1, b) \<Rightarrow> \<not> b"
    then obtain ss' where s: "s = (t\<lparr>mTable := Some ss'\<rparr>, probe sh h k, False)" and r: "raises ss ss'"
      and vis: "\<forall>j < k. isLive (ss ! ?p j) \<and> hasCollision (ss' ! ?p j)" and lk: "isLive (ss ! ?p k)"
      by (auto simp: I_def)
    have in': "?p j < length ss'" for j using r inside by (simp add: raises_length)
    have lk': "isLive (ss' ! ?p k)" using r inside lk by (simp add: raisesD)
    let ?s1 = "ss'[?p k := raised (ss' ! ?p k)]"
    have r': "raises ss ?s1" using r inside lk by (rule raises_set)
    have "k < 2 ^ (32 - sh)" using k0 vis lk by (metis linorder_neqE_nat order.strict_trans)
    moreover have "\<forall>j < Suc k. isLive (ss ! ?p j) \<and> hasCollision (?s1 ! ?p j)"
      using vis lk in' by (auto simp: less_Suc_eq nth_list_update)
    then have "I (Suc k) (t\<lparr>mTable := Some ?s1\<rparr>, probe sh h (Suc k), \<not> isLive (?s1 ! ?p (Suc k)))"
      using raisesD(1) [OF r' inside] r' by (simp only: I_def prod.case) (intro exI [of _ ?s1] conjI; simp)
    ultimately show "k < 2 ^ (32 - sh) \<and> runs (findStep (hash2 t h) s) v never (I (Suc k))"
      using s in' lk' t by (simp add: findStep_def setCollision_live probe_Suc Let_def)
  next
    fix k and s :: "'a HashTable \<times> HashNumber \<times> bool"
    assume "I k s" and "\<not> (case s of (t, h1, b) \<Rightarrow> \<not> b)"
    then show "case s of (t', i, b) \<Rightarrow> \<exists>ss'. t' = t\<lparr>mTable := Some ss'\<rparr> \<and> raises ss ss' \<and>
      unat i < length ss \<and> \<not> isLive (ss' ! unat i) \<and> reached sh ss' h (unat i)"
      using inside by (fastforce simp: I_def reached_def raisesD)
  qed
  have r0: "reached sh ss h (?p 0)" unfolding reached_def by auto
  show ?thesis
  proof (cases "isLive (ss ! ?p 0)")
    case True
    then have "findNonLiveSlot t h = bindM (whileE (\<lambda>(t, h1, found). \<not> found) (findStep (hash2 t h)) (t, probe sh h 0, False))
        (\<lambda>(t, h1, found). returnM (t, h1))"
      using t h inside by (simp add: findNonLiveSlot_def Let_def sCollisionBit_def probe_0)
    then show ?thesis by (simp only:) (rule runs_bindM [OF loop [OF True]], auto)
  next
    case False
    have t_eq: "t = t\<lparr>mTable := Some ss\<rparr>" using t(1) by simp
    have "findNonLiveSlot t h = returnM (t, probe sh h 0)"
      using False t h inside by (simp add: findNonLiveSlot_def Let_def sCollisionBit_def probe_0)
    then show ?thesis using False r0 inside t_eq by (auto intro!: exI [of _ ss])
  qed
qed

text \<open>What the comments at the top of \<open>HashTable.h\<close> ask of a hash policy.\<close>

locale open_policy =
  fixes P :: "('t, 'k) HashPolicy"
  assumes match_refl: "match P k k"
    and match_sym: "match P k l \<Longrightarrow> match P l k"
    and match_trans: "match P k l \<Longrightarrow> match P l m \<Longrightarrow> match P k m"
    and match_hash: "match P k l \<Longrightarrow> hash P k = hash P l"
    and getKey_setKey: "match P (getKey P (setKey P x k)) k"
begin

lemma match_prepareHash: "match P k l \<Longrightarrow> prepareHash P k = prepareHash P l"
  by (drule match_hash) (simp add: prepareHash_def)

end

definition hits :: "('t, 'k) HashPolicy \<Rightarrow> HashNumber \<Rightarrow> 'k \<Rightarrow> 't Slot \<Rightarrow> bool" where
  "hits P h l s \<longleftrightarrow> getKeyHash s = h \<and> (\<exists>x. mEntry s = Some x \<and> match P (getKey P x) l)"

lemma hits_live: "hits P h l s \<Longrightarrow> isLiveHash h \<Longrightarrow> isLive s"
  by (simp add: hits_def isLive_iff)

lemma matchSlot_eq: "(isLive s \<Longrightarrow> holds P s) \<Longrightarrow> isLiveHash h \<Longrightarrow> matchSlot P s h l = returnM (hits P h l s)"
  by (auto simp: matchSlot_def matchHash_iff hits_def holds_def isLive_iff getEntry_def)

text \<open>What a search for \<open>l\<close> ends with: the live slot of the key, or a slot to put it in, and then no key matches.\<close>

definition searched :: "bool \<Rightarrow> ('t, 'k) HashPolicy \<Rightarrow> nat \<Rightarrow> 't Slot list \<Rightarrow> 'k \<Rightarrow> nat \<Rightarrow> bool" where
  "searched forAdd P sh ss l i \<longleftrightarrow> i < length ss \<and>
     (if isLive (ss ! i) then hits P (prepareHash P l) l (ss ! i)
      else (\<forall>x \<in># liveEntries ss. \<not> match P (getKey P x) l) \<and> (forAdd \<longrightarrow> reached sh ss (prepareHash P l) i))"

definition opened :: "bool \<Rightarrow> ('t, 'k) HashPolicy \<Rightarrow> nat \<Rightarrow> 't Slot list \<Rightarrow> 't Slot list \<Rightarrow> 'k \<Rightarrow> nat \<Rightarrow> HashNumber option \<Rightarrow> bool" where
  "opened forAdd P sh ss ss' l k fr \<longleftrightarrow>
     (let h = prepareHash P l; p = (\<lambda>j. unat (probe sh h j)) in
      if forAdd then (case fr of None \<Rightarrow> \<forall>j < k. hasCollision (ss' ! p j)
                      | Some r \<Rightarrow> unat r < length ss \<and> \<not> isLive (ss ! unat r) \<and> reached sh ss' h (unat r))
      else fr = None)"

context open_policy
begin

lemma no_match:
  assumes ok: "slotsOk P sh ss" and vis: "\<forall>j < k. \<not> hits P (prepareHash P l) l (ss ! unat (probe sh (prepareHash P l) j))"
    and free: "isFree (ss ! unat (probe sh (prepareHash P l) k))" and x: "x \<in># liveEntries ss"
  shows "\<not> match P (getKey P x) l"
proof
  let ?h = "prepareHash P l"
  let ?p = "\<lambda>k. unat (probe sh ?h k)"
  assume m: "match P (getKey P x) l"
  obtain i where i: "i < length ss" "isLive (ss ! i)" "the (mEntry (ss ! i)) = x" using x by (auto simp: liveEntries_iff)
  then have "holds P (ss ! i)" and re: "reached sh ss (getKeyHash (ss ! i)) i" using slotsOkD [OF ok] by auto
  then have e: "mEntry (ss ! i) = Some x" "getKeyHash (ss ! i) = ?h"
    using i m match_prepareHash by (auto simp: holds_def)
  then have hit: "hits P ?h l (ss ! i)" using m by (simp add: hits_def)
  obtain q where q: "?p q = i" "\<forall>j < q. hasCollision (ss ! ?p j)" using re e by (auto simp: reached_def)
  have "\<not> q < k" using vis hit q by auto
  moreover have "q \<noteq> k" using free i q isFree_not_live by auto
  moreover have "\<not> k < q" using free q isFree_iff by auto
  ultimately show False by simp
qed

lemma opened_Suc:
  assumes ss: "slotsOk P sh ss" "mTable t' = Some ss'" and r: "raises ss ss'" and same: "\<not> forAdd \<longrightarrow> ss' = ss"
    and op: "opened forAdd P sh ss ss' l k fr" and i: "i = probe sh (prepareHash P l) k" and nf: "\<not> isFree (ss ! unat i)"
  shows "\<exists>ss1 fr1.
    markSlot forAdd t' i fr = returnM (t'\<lparr>mTable := Some ss1\<rparr>, fr1) \<and>
    raises ss ss1 \<and> (\<not> forAdd \<longrightarrow> ss1 = ss) \<and> opened forAdd P sh ss ss1 l (Suc k) fr1"
proof -
  let ?h = "prepareHash P l"
  let ?p = "\<lambda>k. unat (probe sh ?h k)"
  have in': "unat i < length ss'" "unat i < length ss" using r i probe_inside [OF ss(1)] by (simp_all add: raises_length)
  have t': "t'\<lparr>mTable := Some ss'\<rparr> = t'" using ss(2) by simp
  have m: "markSlot forAdd t' i fr = (if forAdd \<and> fr = None then
       if isRemoved (ss' ! unat i) then returnM (t', Some i)
       else bindM (setCollision (ss' ! unat i)) (\<lambda>s. bindM (setSlot t' i s) (\<lambda>t. returnM (t, fr)))
     else returnM (t', fr))"
    using in' ss by (simp add: markSlot_def)
  consider (other) "\<not> (forAdd \<and> fr = None)" | (removed) "forAdd" "fr = None" "isRemoved (ss' ! unat i)"
    | (live) "forAdd" "fr = None" "\<not> isRemoved (ss' ! unat i)" by blast
  then show ?thesis
  proof cases
    case other
    then show ?thesis using op same r t' m
      by (intro exI [of _ ss'] exI [of _ fr]) (auto simp: opened_def Let_def split: option.splits)
  next
    case removed
    then have "reached sh ss' ?h (unat i)" using op i by (auto simp: opened_def Let_def reached_def)
    moreover have "\<not> isLive (ss ! unat i)" using removed(3) r in' isRemoved_not_live raisesD(1) by blast
    ultimately show ?thesis using removed r t' in' m
      by (intro exI [of _ ss'] exI [of _ "Some i"]) (auto simp: opened_def Let_def)
  next
    case live
    then have lk: "isLive (ss' ! unat i)" "isLive (ss ! unat i)"
      using slot_states [of "ss ! unat i"] nf r in' raisesD isRemoved_not_live by metis+
    let ?s1 = "ss'[unat i := raised (ss' ! unat i)]"
    have "\<forall>j < Suc k. hasCollision (?s1 ! ?p j)"
      using op live in' i by (auto simp: opened_def Let_def less_Suc_eq nth_list_update)
    moreover have "raises ss ?s1" using r in'(2) lk(2) by (rule raises_set)
    ultimately show ?thesis using live lk in' ss m
      by (intro exI [of _ ?s1] exI [of _ fr]) (simp add: m opened_def Let_def setCollision_live)
  qed
qed

lemma lookupSlot_runs:
  assumes t: "mTable t = Some ss" "mHashShift t = sh" and ok: "slotsOk P sh ss" and free: "\<exists>i < length ss. isFree (ss ! i)"
  shows "runs (lookupSlot forAdd P t l (prepareHash P l)) v never (\<lambda>(t', i). \<exists>ss'. t' = t\<lparr>mTable := Some ss'\<rparr> \<and>
    raises ss ss' \<and> (\<not> forAdd \<longrightarrow> ss' = ss) \<and> searched forAdd P sh ss' l (unat i))"
proof -
  let ?h = "prepareHash P l"
  let ?p = "\<lambda>k. unat (probe sh ?h k)"
  let ?Q = "\<lambda>(t', i :: HashNumber). \<exists>ss'. t' = t\<lparr>mTable := Some ss'\<rparr> \<and> raises ss ss' \<and> (\<not> forAdd \<longrightarrow> ss' = ss) \<and> searched forAdd P sh ss' l (unat i)"
  let ?vis = "\<lambda>k. \<forall>j < k. \<not> isFree (ss ! ?p j) \<and> \<not> hits P ?h l (ss ! ?p j)"
  have len: "length ss = 2 ^ (32 - sh)" using ok by (simp add: slotsOk_def)
  have inside: "?p k < length ss" for k by (simp add: len probe_bound)
  obtain k0 where k0: "k0 < 2 ^ (32 - sh)" "isFree (ss ! ?p k0)" using free len probe_surj by metis
  define I where "I k = (\<lambda>(t' :: 't HashTable, h1, fr :: HashNumber option, res :: HashNumber option). \<exists>ss'. t' = t\<lparr>mTable := Some ss'\<rparr> \<and>
    raises ss ss' \<and> (\<not> forAdd \<longrightarrow> ss' = ss) \<and> h1 = probe sh ?h k \<and>
    (case res of None \<Rightarrow> ?vis (Suc k) \<and> opened forAdd P sh ss ss' l k fr | Some i \<Rightarrow> searched forAdd P sh ss' l (unat i)))" for k
  have loop: "runs (whileE (\<lambda>(t, h1, fr, res). res = None) (lookupStep forAdd P l ?h (hash2 t ?h)) (t, probe sh ?h 0, None, None)) v never
      (\<lambda>(t', h1, fr, res). ?Q (t', the res))" if nofree: "\<not> isFree (ss ! ?p 0)" and nohit: "\<not> hits P ?h l (ss ! ?p 0)"
  proof (rule runs_whileE_count [where P = I and k = 0 and N = "2 ^ (32 - sh)"])
    show "I 0 (t, probe sh ?h 0, None, None)"
      using t nofree nohit by (auto simp: I_def opened_def Let_def intro!: exI [of _ ss])
  next
    fix k and s :: "'t probing"
    assume "I k s" and "case s of (t, h1, fr, res) \<Rightarrow> res = None"
    then obtain ss' fr where s: "s = (t\<lparr>mTable := Some ss'\<rparr>, probe sh ?h k, fr, None)" and r: "raises ss ss'"
      and same: "\<not> forAdd \<longrightarrow> ss' = ss" and vis: "?vis (Suc k)" and op: "opened forAdd P sh ss ss' l k fr" by (auto simp: I_def)
    have nf: "\<not> isFree (ss ! ?p k)" using vis by blast
    obtain ss1 fr1 where one: "markSlot forAdd (t\<lparr>mTable := Some ss'\<rparr>) (probe sh ?h k) fr = returnM (t\<lparr>mTable := Some ss1\<rparr>, fr1)"
      and r1: "raises ss ss1" "\<not> forAdd \<longrightarrow> ss1 = ss" "opened forAdd P sh ss ss1 l (Suc k) fr1"
    proof -
      note * = opened_Suc [OF ok _ r same op refl nf, of "t\<lparr>mTable := Some ss'\<rparr>"]
      have "\<exists>ss1 fr1. markSlot forAdd (t\<lparr>mTable := Some ss'\<rparr>) (probe sh ?h k) fr = returnM (t\<lparr>mTable := Some ss1\<rparr>, fr1) \<and>
          raises ss ss1 \<and> (\<not> forAdd \<longrightarrow> ss1 = ss) \<and> opened forAdd P sh ss ss1 l (Suc k) fr1"
        using * by simp
      then show thesis using that by (elim exE conjE)
    qed
    let ?i = "probe sh ?h (Suc k)"
    have k: "k < 2 ^ (32 - sh)" 
    proof (rule ccontr)
      assume "\<not> k < 2 ^ (32 - sh)"
      then have "k0 < Suc k" using k0(1) by simp
      with vis have "\<not> isFree (ss ! ?p k0)" by blast
      then show False using k0(2) by simp
    qed
    have ok1: "slotsOk P sh ss1" using r1(1) ok by (rule raises_slotsOk)
    have in1: "unat ?i < length ss1" "unat (probe sh ?h k) < length ss'" using inside r r1 by (simp_all add: raises_length)
    have "isLive (ss1 ! unat ?i) \<Longrightarrow> holds P (ss1 ! unat ?i)" using slotsOkD [OF ok1 in1(1)] by simp
    then have m: "matchSlot P (ss1 ! unat ?i) ?h l = returnM (hits P ?h l (ss1 ! unat ?i))"
      using prepareHash_live by (rule matchSlot_eq)
    have eq: "lookupStep forAdd P l ?h (hash2 t ?h) s = returnM (t\<lparr>mTable := Some ss1\<rparr>, ?i, fr1,
        if isFree (ss1 ! unat ?i) then Some (case fr1 of Some r \<Rightarrow> r | None \<Rightarrow> ?i)
        else if hits P ?h l (ss1 ! unat ?i) then Some ?i else None)"
      by (simp add: lookupStep_def s one in1 m probe_Suc [OF t(2)] Let_def split: option.split)
    have sim: "isFree (ss1 ! unat ?i) \<longleftrightarrow> isFree (ss ! unat ?i)" "hits P ?h l (ss1 ! unat ?i) \<longleftrightarrow> hits P ?h l (ss ! unat ?i)"
      using raisesD [OF r1(1) inside, of "Suc k"] isFree_not_live by (auto simp: hits_def isFree_iff)
    have "I (Suc k) (t\<lparr>mTable := Some ss1\<rparr>, ?i, fr1,
        if isFree (ss1 ! unat ?i) then Some (case fr1 of Some r \<Rightarrow> r | None \<Rightarrow> ?i)
        else if hits P ?h l (ss1 ! unat ?i) then Some ?i else None)"
      unfolding I_def prod.case
    proof (intro exI [of _ ss1] conjI)
      let ?r = "case fr1 of Some r \<Rightarrow> r | None \<Rightarrow> ?i"
      have nm: "\<forall>x \<in># liveEntries ss1. \<not> match P (getKey P x) l" if "isFree (ss ! unat ?i)"
        using that no_match [OF ok] vis raises_mset(1) [OF r1(1)] by auto
      have free: "searched forAdd P sh ss1 l (unat ?r)" if "isFree (ss ! unat ?i)"
        using nm [OF that] that r1 inside isFree_not_live raises_length [OF r1(1)] raisesD(1) [OF r1(1)] sim(1)
        by (cases fr1; cases forAdd) (auto simp: opened_def searched_def Let_def reached_def)
      have hit: "searched forAdd P sh ss1 l (unat ?i)" if "hits P ?h l (ss1 ! unat ?i)"
        using that in1(1) hits_live [OF that prepareHash_live] by (simp add: searched_def)
      show "case if isFree (ss1 ! unat ?i) then Some ?r else if hits P ?h l (ss1 ! unat ?i) then Some ?i else None of
          None \<Rightarrow> ?vis (Suc (Suc k)) \<and> opened forAdd P sh ss ss1 l (Suc k) fr1
        | Some i \<Rightarrow> searched forAdd P sh ss1 l (unat i)"
        using free hit sim vis r1(3) by (simp add: less_Suc_eq split: option.splits)
    qed (use r1 in simp_all)
    then show "k < 2 ^ (32 - sh) \<and> runs (lookupStep forAdd P l ?h (hash2 t ?h) s) v never (I (Suc k))"
      using k by (simp only: eq runs_returnM simp_thms)
  next
    fix k and s :: "'t probing"
    assume I: "I k s" and "\<not> (case s of (t, h1, fr, res) \<Rightarrow> res = None)"
    then obtain t' h1 fr i where "s = (t', h1, fr, Some i)" by (cases s) auto
    with I show "case s of (t', h1, fr, res) \<Rightarrow> ?Q (t', the res)" by (auto simp: I_def)
  qed
  show ?thesis
  proof (cases "isFree (ss ! ?p 0) \<or> hits P ?h l (ss ! ?p 0)")
    case True
    have t_eq: "t = t\<lparr>mTable := Some ss\<rparr>" using t(1) by simp
    have "searched forAdd P sh ss l (?p 0)"
    proof (cases "isFree (ss ! ?p 0)")
      case True
      then show ?thesis using inside no_match [OF ok, of 0 l] isFree_not_live [OF True]
        by (auto simp: searched_def reached_def)
    next
      case False
      with True have hit: "hits P ?h l (ss ! ?p 0)" by simp
      then show ?thesis using inside hits_live [OF hit prepareHash_live] by (simp add: searched_def)
    qed
    moreover have "lookupSlot forAdd P t l ?h = returnM (t, probe sh ?h 0)"
      using True t inside slotsOkD [OF ok inside]
      by (auto simp: lookupSlot_def sCollisionBit_def prepareHash_live Let_def probe_0 matchSlot_eq)
    ultimately show ?thesis using t_eq by (auto intro!: exI [of _ ss])
  next
    case False
    then have "lookupSlot forAdd P t l ?h = bindM (whileE (\<lambda>(t, h1, fr, res). res = None) (lookupStep forAdd P l ?h (hash2 t ?h))
        (t, probe sh ?h 0, None, None)) (\<lambda>(t, h1, fr, res). returnM (t, the res))"
      using t inside slotsOkD [OF ok inside]
      by (simp add: lookupSlot_def sCollisionBit_def prepareHash_live Let_def probe_0 matchSlot_eq)
    with False show ?thesis by (simp only:) (rule runs_bindM [OF loop], auto)
  qed
qed

end


end
