(* ===== verification/HashTable_Resize.thy ===== *)
theory HashTable_Resize
  imports HashTable_Probe
begin

text \<open>
  The invariant of the hash table, the capacities it takes, and that rebuilding the entry store, in a new one or in
  place, keeps the entries and restores the invariant.
\<close>

section \<open>Capacities\<close>

lemma unat_push_one: "k < LENGTH('w) \<Longrightarrow> unat (push_bit k 1 :: 'w::len word) = 2 ^ k"
  by (simp only: unsigned_push_bit_eq unsigned_1) (simp add: push_bit_eq_mult take_bit_eq_mod)

lemma IsPowerOfTwo_power: "k < 32 \<Longrightarrow> IsPowerOfTwo (of_nat (2 ^ k) :: u32)"
proof -
  assume k: "k < 32"
  have "(2 ^ k :: u32) AND mask k = take_bit k (2 ^ k)" by (simp add: take_bit_eq_mask)
  also have "\<dots> = 0" by (rule bit_word_eqI) (simp add: bit_take_bit_iff bit_exp_iff)
  finally show ?thesis using k by (simp add: IsPowerOfTwo_def mask_eq_exp_minus_1 exp_eq_zero_iff)
qed

lemma CeilingLog2_of_power: "k < 32 \<Longrightarrow> CeilingLog2 (of_nat (2 ^ k) :: u32) = k"
proof (rule CeilingLog2_power)
  assume "k < 32"
  then have "(2 :: nat) ^ k < 2 ^ 32" by (rule power_strict_increasing) simp
  moreover have "LENGTH(32) = 32" by simp
  ultimately show "unat (of_nat (2 ^ k) :: u32) = 2 ^ k"
    by (simp only: unat_of_nat mod_less)
qed

text \<open>The capacity for a number of entries is the least power of two, at least 4, that they fill to three quarters.\<close>

lemma bestCapacity_spec:
  assumes "aLen \<le> sMaxInit"
  obtains s where "bestCapacity aLen = returnM (2 ^ s)" and "2 \<le> s" and "s \<le> 30" and "4 * aLen \<le> 3 * 2 ^ s"
    and "s = 2 \<or> 3 * 2 ^ (s - 1) < 4 * aLen"
proof -
  let ?c = "(aLen * 4 + 2) div 3"
  have aLen: "aLen \<le> 2 ^ 29" using assms by (simp add: sMaxInit_def)
  have c: "?c \<le> 2 ^ 30" "4 * aLen \<le> 3 * ?c" "3 * ?c < 4 * aLen + 3" using aLen by simp_all
  show thesis
  proof (cases "?c < 4")
    case True
    then have "bestCapacity aLen = returnM (2 ^ 2)"
      using c by (simp add: bestCapacity_def sMaxInit_def sAlphaDenominator_def sMaxAlphaNumerator_def sMinCapacity_def
          sMaxCapacity_def Let_def)
    with True c show thesis by (intro that [of 2]) auto
  next
    case False
    let ?w = "of_nat ?c :: u64"
    have u: "unat ?w = ?c" using c(1) by (simp add: unat_of_nat take_bit_eq_mod)
    then have "1 < unat ?w" using False by simp
    then obtain k where k: "CeilingLog2 ?w = Suc k" "2 ^ k < unat ?w" "unat ?w \<le> 2 ^ Suc k" by (rule CeilingLog2_spec)
    have "(2 :: nat) ^ k < 2 ^ 30" using k(2) u c(1) by linarith
    then have k30: "k < 30" by (rule power_less_imp_less_exp [rotated]) simp
    have "(2 :: nat) ^ 1 < 2 ^ Suc k" using k(3) u False by simp
    then have "1 < Suc k" by (rule power_less_imp_less_exp [rotated]) simp
    have pow: "unat (push_bit (Suc k) (1 :: u64)) = 2 ^ Suc k"
      using k30 by (intro unat_push_one) simp
    have "RoundUpPow2 ?w = returnM (push_bit (Suc k) 1)"
      using RoundUpPow2_eq [of ?w 30] u c(1) k(1) by simp
    moreover have "(2 :: nat) ^ Suc k \<le> 2 ^ 30" using k30 by (intro power_increasing) auto
    ultimately have "bestCapacity aLen = returnM (2 ^ Suc k)"
      using assms False pow k(3) u c by (simp add: bestCapacity_def sAlphaDenominator_def sMaxAlphaNumerator_def sMinCapacity_def
          sMaxCapacity_def Let_def)
    moreover have "3 * 2 ^ k < 4 * aLen" using k(2) u c(3) by linarith
    moreover have "4 * aLen \<le> 3 * 2 ^ Suc k" using k(3) u c(2) by linarith
    ultimately show thesis using k30 \<open>1 < Suc k\<close> by (intro that [of "Suc k"]) simp_all
  qed
qed

lemma hashShift_spec:
  assumes "aLen \<le> sMaxInit"
  obtains sh where "hashShift aLen = returnM sh" and "2 \<le> sh" and "sh \<le> 30"
proof -
  obtain s where "bestCapacity aLen = returnM (2 ^ s)" "2 \<le> s" "s \<le> 30" by (rule bestCapacity_spec [OF assms])
  then show thesis
    using assms CeilingLog2_of_power [of s] by (intro that [of "32 - s"]) (auto simp: hashShift_def kHashNumberBits_def)
qed

section \<open>The invariant\<close>

definition keysDiffer :: "('t, 'k) HashPolicy \<Rightarrow> 't multiset \<Rightarrow> bool" where
  "keysDiffer P M \<longleftrightarrow> (\<forall>x \<in># M. \<forall>y \<in># M - {#x#}. \<not> match P (getKey P x) (getKey P y))"

definition entries :: "'t HashTable \<Rightarrow> 't multiset" where
  "entries t = liveEntries (slots t)"

definition tableOk :: "('t, 'k) HashPolicy \<Rightarrow> 't HashTable \<Rightarrow> bool" where
  "tableOk P t \<longleftrightarrow> 2 \<le> mHashShift t \<and> mHashShift t \<le> 30 \<and> mEntryCount t = size (entries t) \<and>
     mRemovedCount t = removedSlots (slots t) \<and> keysDiffer P (entries t) \<and>
     (\<forall>ss. mTable t = Some ss \<longrightarrow> slotsOk P (mHashShift t) ss)"

text \<open>At most three quarters of the slots are taken, by entries or by the marks of removed ones.\<close>

definition roomy :: "'t HashTable \<Rightarrow> bool" where
  "roomy t \<longleftrightarrow> 4 * (mEntryCount t + mRemovedCount t) \<le> 3 * rawCapacity t"

lemma slots_simps [simp]: "mTable t = Some ss \<Longrightarrow> slots t = ss" "mTable t = None \<Longrightarrow> slots t = []"
  by (simp_all add: slots_def)

lemma entries_None [simp]: "mTable t = None \<Longrightarrow> entries t = {#}"
  by (simp add: entries_def liveEntries_def)

lemma rawCapacity_eq: "rawCapacity t = 2 ^ (32 - mHashShift t)"
  by (simp add: rawCapacity_def kHashNumberBits_def)

lemma capacity_eq: "tableOk P t \<Longrightarrow> capacity t = length (slots t)"
  by (cases "mTable t") (auto simp: capacity_def rawCapacity_eq tableOk_def slotsOk_def)

lemma removedSlots_Nil [simp]: "removedSlots [] = 0"
  by (simp add: removedSlots_def)

lemma slotsOk_update:
  assumes ok: "slotsOk P sh ss" and i: "i < length ss" and c: "hasCollision (ss ! i) \<Longrightarrow> hasCollision s"
    and live: "isLive s \<Longrightarrow> holds P s \<and> reached sh ss (getKeyHash s) i"
  shows "slotsOk P sh (ss[i := s])"
  unfolding slotsOk_def
proof (intro conjI allI impI)
  show "length (ss[i := s]) = 2 ^ (32 - sh)" using ok by (simp add: slotsOk_def)
  fix j assume j: "j < length (ss[i := s])" "isLive (ss[i := s] ! j)"
  show "holds P (ss[i := s] ! j)" using j i live slotsOkD [OF ok] by (cases "j = i") auto
  have "reached sh ss (getKeyHash (ss[i := s] ! j)) j" using j i live slotsOkD [OF ok] by (cases "j = i") auto
  then show "reached sh (ss[i := s]) (getKeyHash (ss[i := s] ! j)) j"
    by (rule reached_mono [rotated 2]) (use ok i c in \<open>auto simp: nth_list_update slotsOk_def\<close>)
qed

lemma fillSlot_eq:
  assumes "mTable t = Some ss" and "unat i < length ss" and "\<not> isLive (ss ! unat i)" and "isLiveHash h"
  shows "fillSlot t i h x = returnM (t\<lparr>mTable := Some (ss[unat i := \<lparr>mKeyHash = h, mEntry = Some x\<rparr>]),
    mEntryCount := mEntryCount t + 1, mMutationCount := mMutationCount t + 1\<rparr>)"
  using assms by (simp add: fillSlot_def setLive_def isLive_def Let_def)

lemma removedSlots_zero: "removedSlots ss = 0 \<longleftrightarrow> (\<forall>i < length ss. \<not> isRemoved (ss ! i))"
proof -
  have "removedSlots ss = 0 \<longleftrightarrow> set_mset (filter_mset isRemoved (mset ss)) = {}"
    by (simp only: removedSlots_def size_eq_0_iff_empty set_mset_eq_empty_iff)
  also have "\<dots> \<longleftrightarrow> (\<forall>i < length ss. \<not> isRemoved (ss ! i))"
    by (auto simp: in_set_conv_nth)
  finally show ?thesis .
qed

text \<open>Putting an entry into the slot that a search found.\<close>

lemma insert_slot:
  assumes ok: "slotsOk P sh ss" and i: "i < length ss" and free: "\<not> isLive (ss ! i)"
    and re: "reached sh ss (prepareHash P (getKey P x)) i"
    and h: "h = (if isRemoved (ss ! i) then prepareHash P (getKey P x) OR sCollisionBit else prepareHash P (getKey P x))"
  shows "slotsOk P sh (ss[i := \<lparr>mKeyHash = h, mEntry = Some x\<rparr>])"
    "liveEntries (ss[i := \<lparr>mKeyHash = h, mEntry = Some x\<rparr>]) = add_mset x (liveEntries ss)"
    "removedSlots (ss[i := \<lparr>mKeyHash = h, mEntry = Some x\<rparr>]) = removedSlots ss - of_bool (isRemoved (ss ! i))"
    "isRemoved (ss ! i) \<Longrightarrow> 0 < removedSlots ss" "isLiveHash h"
proof -
  let ?s = "\<lparr>mKeyHash = h, mEntry = Some x\<rparr>"
  have s: "isLive ?s" "getKeyHash ?s = prepareHash P (getKey P x)" "holds P ?s" "isRemoved (ss ! i) \<Longrightarrow> hasCollision ?s"
    using prepareHash_live [of P "getKey P x"]
    by (auto simp: h isLive_def getKeyHash_def holds_def hasCollision_def sCollisionBit_def)
  then show "slotsOk P sh (ss[i := ?s])" "isLiveHash h"
    using ok i free re by (auto simp: isRemoved_iff isLive_def intro!: slotsOk_update)
  have nr: "\<not> isRemoved ?s" using s(1) isRemoved_not_live by blast
  show "liveEntries (ss[i := ?s]) = add_mset x (liveEntries ss)"
    using liveEntries_update [OF i, of ?s] free s by simp
  show "removedSlots (ss[i := ?s]) = removedSlots ss - of_bool (isRemoved (ss ! i))" "isRemoved (ss ! i) \<Longrightarrow> 0 < removedSlots ss"
    using removedSlots_update [OF i, of ?s] nr by (cases "isRemoved (ss ! i)"; simp)+
qed

section \<open>A new entry store\<close>

lemma liveEntries_take_Suc:
  "i < length ss \<Longrightarrow> liveEntries (take (Suc i) ss) =
     (if isLive (ss ! i) then add_mset (the (mEntry (ss ! i))) (liveEntries (take i ss)) else liveEntries (take i ss))"
  by (simp add: take_Suc_conv_app_nth liveEntries_def)

lemma liveEntries_take_le: "size (liveEntries (take i ss)) \<le> size (liveEntries ss)"
  by (metis append_take_drop_id image_mset_union filter_union_mset liveEntries_def mset_append size_union le_add1)

definition moved :: "('t, 'k) HashPolicy \<Rightarrow> nat \<Rightarrow> 't HashTable \<Rightarrow> 't multiset \<Rightarrow> 't HashTable \<Rightarrow> bool" where
  "moved P sh t M t' \<longleftrightarrow> (\<exists>ss. t' = t\<lparr>mTable := Some ss\<rparr> \<and> slotsOk P sh ss \<and> removedSlots ss = 0 \<and> liveEntries ss = M)"

lemma moveLiveSlot_runs:
  assumes m: "moved P sh t M t'" and sh: "mHashShift t = sh" and room: "size M < 2 ^ (32 - sh)"
    and s: "isLive s \<Longrightarrow> holds P s"
  shows "runs (moveLiveSlot t' s) v never (moved P sh t (if isLive s then add_mset (the (mEntry s)) M else M))"
proof (cases "isLive s")
  case False
  then show ?thesis using m by (simp add: moveLiveSlot_def)
next
  case True
  obtain ss where t': "t' = t\<lparr>mTable := Some ss\<rparr>" and ss: "slotsOk P sh ss" "removedSlots ss = 0" "liveEntries ss = M"
    using m by (auto simp: moved_def)
  obtain x where x: "mEntry s = Some x" "getKeyHash s = prepareHash P (getKey P x)"
    using s True by (auto simp: holds_def)
  have len: "length ss = 2 ^ (32 - sh)" using ss(1) by (simp add: slotsOk_def)
  have free: "\<exists>i < length ss. \<not> isLive (ss ! i)" using room ss len by (intro nonlive_exists) simp
  show ?thesis
    unfolding moveLiveSlot_def Let_def x if_P [OF True]
  proof (rule runs_bindM [OF findNonLiveSlot_runs [of t' ss sh]], goal_cases)
    case (6 r)
    then obtain ss' i where r: "r = (t'\<lparr>mTable := Some ss'\<rparr>, i)" and ss': "raises ss ss'" "unat i < length ss" "\<not> isLive (ss' ! unat i)"
      "reached sh ss' (prepareHash P (getKey P x)) (unat i)" by auto
    have in': "unat i < length ss'" using ss' by (simp add: raises_length)
    have nr: "\<not> isRemoved (ss' ! unat i)"
      using raises_mset(2) [OF ss'(1)] ss(2) in' by (simp add: removedSlots_zero)
    note ins = insert_slot [OF raises_slotsOk [OF ss'(1) ss(1)] in' ss'(3,4) refl, unfolded if_not_P [OF nr]]
    have "moved P sh t (add_mset x M) (t\<lparr>mTable := Some (ss'[unat i := \<lparr>mKeyHash = prepareHash P (getKey P x), mEntry = Some x\<rparr>])\<rparr>)"
      using ins(1-3) nr ss raises_mset [OF ss'(1)] by (auto simp: moved_def)
    then show ?case
      using r t' ss'(3) in' ins(5) by (simp add: getEntry_def x setLive_def isLive_def Let_def)
  qed (use t' sh len free in simp_all)
qed

text \<open>How \<open>changeTableSize\<close> ends: as before, or with the same entries in the new store.\<close>

definition resized :: "('t, 'k) HashPolicy \<Rightarrow> 't HashTable \<Rightarrow> nat \<Rightarrow> 't HashTable \<times> RebuildStatus \<Rightarrow> bool" where
  "resized P t s = (\<lambda>(t', status).
     status = RehashFailed \<and> t' = t \<or>
     status = Rehashed \<and> s \<le> 30 \<and> tableOk P t' \<and> entries t' = entries t \<and> mTable t' \<noteq> None \<and> rawCapacity t' = 2 ^ s \<and>
     mRemovedCount t' = 0 \<and> mEntryCount t' = mEntryCount t \<and> mGen t' = mGen t + 1 \<and> mMutationCount t' = mMutationCount t)"

lemma moved_tableOk:
  assumes "moved P sh t0 (entries t) t'" and "tableOk P t" and "2 \<le> sh" and "sh \<le> 30"
    and "mHashShift t0 = sh" and "mRemovedCount t0 = 0" and "mEntryCount t0 = mEntryCount t"
  shows "tableOk P t'" "entries t' = entries t"
  using assms by (auto simp: moved_def tableOk_def entries_def)

lemma changeTableSize_runs:
  assumes ok: "tableOk P t" and s: "2 \<le> s" "s < 32" and room: "mEntryCount t < 2 ^ s"
  shows "runs (changeTableSize t (2 ^ s)) v never (\<lambda>r. resized P t s r \<and>
    ((\<forall>k. allocOk v k) \<and> s \<le> 30 \<longrightarrow> snd r = Rehashed))"
proof -
  have cap: "(mTable t \<noteq> None) = (capacity t \<noteq> 0)" by (simp add: capacity_def rawCapacity_eq)
  have big: "2 ^ s > sMaxCapacity \<longleftrightarrow> \<not> s \<le> 30"
    unfolding sMaxCapacity_def by (metis not_le one_less_numeral_iff power_increasing_iff semiring_norm(76))
  let ?t0 = "t\<lparr>mHashShift := kHashNumberBits - s, mRemovedCount := 0, mGen := mGen t + 1,
    mTable := Some (replicate (2 ^ s) \<lparr>mKeyHash = sFreeKey, mEntry = None\<rparr>)\<rparr>"
  have olds: "isLive (slots t ! i) \<Longrightarrow> holds P (slots t ! i)" if "i < length (slots t)" for i
    using ok slotsOkD that by (cases "mTable t") (auto simp: tableOk_def)
  have n: "mEntryCount t = size (liveEntries (slots t))" using ok by (simp add: tableOk_def entries_def)
  show ?thesis
  proof (cases "s \<le> 30")
    case False
    then show ?thesis using cap big IsPowerOfTwo_power [OF s(2)] by (simp add: changeTableSize_def Let_def resized_def)
  next
    case True
    let ?I = "\<lambda>i. moved P (32 - s) ?t0 (liveEntries (take i (slots t)))"
    have "slotsOk P (32 - s) (replicate (2 ^ s) \<lparr>mKeyHash = sFreeKey, mEntry = None\<rparr>)"
      using True by (auto simp: slotsOk_def isLive_def isLiveHash_def sFreeKey_def)
    then have init: "?I 0 ?t0"
      by (simp add: moved_def removedSlots_zero liveEntries_def isRemoved_def sFreeKey_def sRemovedKey_def isLive_def isLiveHash_def)
    have loop: "runs (forUp 0 (length (slots t)) (\<lambda>i t'. bindM (ptrGet (slots t) i) (moveLiveSlot t')) ?t0) v never
        (?I (length (slots t)))"
    proof (rule runs_forUp)
      fix j t' assume j: "j < length (slots t)" "?I j t'"
      have "size (liveEntries (take j (slots t))) < 2 ^ (32 - (32 - s))"
        using liveEntries_take_le [of j "slots t"] room n True by simp
      then show "runs (bindM (ptrGet (slots t) j) (moveLiveSlot t')) v never (?I (Suc j))"
        using moveLiveSlot_runs [OF j(2), of "slots t ! j"] olds j(1)
        by (simp add: liveEntries_take_Suc kHashNumberBits_def)
    qed (use init in simp_all)
    have fin: "resized P t s (t', Rehashed)" if "?I (length (slots t)) t'" for t'
      using that True s ok moved_tableOk [of P "32 - s" ?t0 t t']
      by (auto simp: resized_def entries_def kHashNumberBits_def rawCapacity_eq) (auto simp: moved_def)
    have eq: "changeTableSize t (2 ^ s) = bindM tryAlloc (\<lambda>ok. if ok then
        bindM (forUp 0 (length (slots t)) (\<lambda>i t'. bindM (ptrGet (slots t) i) (moveLiveSlot t')) ?t0) (\<lambda>t. returnM (t, Rehashed))
      else returnM (t, RehashFailed))"
      using cap big True IsPowerOfTwo_power [OF s(2)] CeilingLog2_of_power [OF s(2)]
      by (auto simp: changeTableSize_def Let_def createTable_def bindM_assoc intro!: arg_cong [where f = "bindM tryAlloc"])
    show ?thesis
      unfolding eq
      by (rule runs_bindI, rule runs_tryAlloc, split if_split, intro conjI impI)
        (rule runs_bindM [OF loop], use fin in \<open>auto simp: resized_def\<close>)
  qed
qed


section \<open>Rehashing in place\<close>

text \<open>
  While the table is rehashed in place, a collision bit says that the entry of the slot has been placed; all entries in
  front of the index have been.
\<close>

definition placing :: "('t, 'k) HashPolicy \<Rightarrow> nat \<Rightarrow> 't Slot list \<Rightarrow> nat \<Rightarrow> bool" where
  "placing P sh ss i \<longleftrightarrow> length ss = 2 ^ (32 - sh) \<and> removedSlots ss = 0 \<and>
     (\<forall>j < length ss. isLive (ss ! j) \<longrightarrow> holds P (ss ! j) \<and>
        (if hasCollision (ss ! j) then reached sh ss (getKeyHash (ss ! j)) j else i \<le> j))"

definition unplaced :: "'t Slot list \<Rightarrow> nat" where
  "unplaced ss = size (filter_mset (\<lambda>s. \<not> hasCollision s) (mset ss))"

lemma mset_swap_eq: "i < length xs \<Longrightarrow> j < length xs \<Longrightarrow> mset (xs[i := xs ! j, j := xs ! i]) = mset xs"
  by (rule mset_swap)

lemma place_slot:
  assumes pl: "placing P sh ss i" and i: "i < length ss" "isLive (ss ! i)" "\<not> hasCollision (ss ! i)"
    and q: "q < length ss" "\<not> hasCollision (ss ! q)" "reached sh ss (getKeyHash (ss ! i)) q"
  shows "placing P sh (ss[i := ss ! q, q := raised (ss ! i)]) i" (is "placing P sh ?s2 i")
    "liveEntries (ss[i := ss ! q, q := raised (ss ! i)]) = liveEntries ss"
    "unplaced (ss[i := ss ! q, q := raised (ss ! i)]) < unplaced ss"
proof -
  let ?s1 = "ss[i := ss ! q, q := ss ! i]"
  have m1: "mset ?s1 = mset ss" using i(1) q(1) by (rule mset_swap_eq)
  have s2: "?s2 = ?s1[q := raised (?s1 ! q)]" "?s1 ! q = ss ! i" "q < length ?s1" using i(1) q(1) by auto
  have live1: "liveEntries ?s1 = liveEntries ss" "removedSlots ?s1 = removedSlots ss" "unplaced ?s1 = unplaced ss"
    by (simp_all only: liveEntries_def removedSlots_def unplaced_def m1)
  show "liveEntries ?s2 = liveEntries ss"
    using liveEntries_update [OF s2(3), of "raised (?s1 ! q)"] i(2) unfolding s2(1) live1 s2(2) by simp
  have rem: "removedSlots ?s2 = removedSlots ss"
    using removedSlots_update [OF s2(3), of "raised (?s1 ! q)"] i(2) unfolding s2(1) live1 s2(2)
    by (simp add: isRemoved_iff)
  obtain N where "mset ?s1 = add_mset (?s1 ! q) N" using mset_update_split [OF s2(3)] by blast
  then have "mset ?s2 = add_mset (raised (ss ! i)) N" "mset ss = add_mset (ss ! i) N"
    using s2 m1 by (simp_all only: mset_update) simp
  then show "unplaced ?s2 < unplaced ss" using i(3) by (simp add: unplaced_def)
  have len: "length ss = 2 ^ (32 - sh)" using pl by (simp add: placing_def)
  have mono: "reached sh ?s2 h j" if "reached sh ss h j" for h j
    by (rule reached_mono [OF _ len that]) (use i q in \<open>auto simp: nth_list_update\<close>)
  have all: "holds P (ss ! j)" "if hasCollision (ss ! j) then reached sh ss (getKeyHash (ss ! j)) j else i \<le> j"
    if "j < length ss" "isLive (ss ! j)" for j
    using pl that by (auto simp: placing_def)
  have hi: "holds P (raised (ss ! i))" using all(1) [OF i(1,2)] by (simp add: holds_def)
  have "holds P (?s2 ! j) \<and> (if hasCollision (?s2 ! j) then reached sh ?s2 (getKeyHash (?s2 ! j)) j else i \<le> j)"
    if j: "j < length ss" "isLive (?s2 ! j)" for j
  proof (cases "j = q")
    case True
    then show ?thesis using mono [OF q(3)] hi q(1) by simp
  next
    case False
    then show ?thesis using j i q all [of j] all [of q] mono by (cases "j = i") auto
  qed
  then show "placing P sh ?s2 i" using pl rem by (simp add: placing_def)
qed

lemma rehashStep_runs:
  assumes t: "mTable t = Some ss" "mHashShift t = sh" and pl: "placing P sh ss i" and i: "i < length ss"
  shows "runs (rehashStep (t, i)) v never (\<lambda>(t', i'). \<exists>ss'. t' = t\<lparr>mTable := Some ss'\<rparr> \<and> placing P sh ss' i' \<and>
    liveEntries ss' = liveEntries ss \<and> unplaced ss' + (length ss - i') < unplaced ss + (length ss - i))"
proof (cases "isLive (ss ! i) \<and> \<not> hasCollision (ss ! i)")
  case False
  have "t = t\<lparr>mTable := Some ss\<rparr>" using t by simp
  moreover have "placing P sh ss (Suc i)"
    unfolding placing_def
  proof (intro conjI allI impI)
    fix j assume j: "j < length ss" "isLive (ss ! j)"
    then have "holds P (ss ! j)" "if hasCollision (ss ! j) then reached sh ss (getKeyHash (ss ! j)) j else i \<le> j"
      using pl by (auto simp: placing_def)
    then show "holds P (ss ! j)" "if hasCollision (ss ! j) then reached sh ss (getKeyHash (ss ! j)) j else Suc i \<le> j"
      using j False by (auto simp: Suc_le_eq le_less)
  qed (use pl in \<open>simp_all add: placing_def\<close>)
  ultimately show ?thesis using False t i by (auto simp: rehashStep_def intro!: exI [of _ ss])
next
  case True
  let ?h = "getKeyHash (ss ! i)"
  let ?p = "\<lambda>k. unat (probe sh ?h k)"
  have len: "length ss = 2 ^ (32 - sh)" using pl by (simp add: placing_def)
  have inside: "?p k < length ss" for k by (simp add: len probe_bound)
  obtain k0 where k0: "k0 < 2 ^ (32 - sh)" "?p k0 = i" using probe_surj i len by metis
  let ?c = "\<lambda>(h1, tgt). bindM (slotForIndex t (applyDoubleHash h1 (hash2 t ?h))) (\<lambda>tgt.
      returnM (applyDoubleHash h1 (hash2 t ?h), tgt))"
  have loop: "runs (whileE (\<lambda>(h1, tgt). hasCollision tgt) ?c (probe sh ?h 0, ss ! ?p 0)) v never
    (\<lambda>(h1, tgt). unat h1 < length ss \<and> tgt = ss ! unat h1 \<and> \<not> hasCollision tgt \<and> reached sh ss ?h (unat h1))"
  proof (rule runs_whileE_count [where k = 0 and N = "2 ^ (32 - sh)" and P = "\<lambda>k (h1, tgt). h1 = probe sh ?h k \<and>
      tgt = ss ! ?p k \<and> (\<forall>j < k. hasCollision (ss ! ?p j))"], goal_cases)
    case (2 k s)
    then have "\<forall>j < Suc k. hasCollision (ss ! ?p j)" by (auto simp: less_Suc_eq)
    then have "\<not> k0 < Suc k" using k0 True by auto
    then show ?case using 2 k0 t inside by (auto simp: probe_Suc [OF refl] less_Suc_eq Let_def)
  next
    case (3 k s)
    then show ?case using inside by (auto simp: reached_def)
  qed simp
  have step: "runs (bindM (swapSlots t i (unat h1)) (\<lambda>t. bindM (slotForIndex t h1) (\<lambda>s. bindM (setCollision s) (\<lambda>s.
      bindM (setSlot t h1 s) (\<lambda>t. returnM (t, i)))))) v never (\<lambda>(t', i'). \<exists>ss'. t' = t\<lparr>mTable := Some ss'\<rparr> \<and>
        placing P sh ss' i' \<and> liveEntries ss' = liveEntries ss \<and> unplaced ss' + (length ss - i') < unplaced ss + (length ss - i))"
    if "unat h1 < length ss \<and> tgt = ss ! unat h1 \<and> \<not> hasCollision tgt \<and> reached sh ss ?h (unat h1)" for h1 tgt
    using place_slot [OF pl i, of "unat h1"] True that t i
    by (auto simp: swapSlots_def slots_def setCollision_live intro!: exI [of _ "ss[i := ss ! unat h1, unat h1 := raised (ss ! i)]"])
  have eq: "rehashStep (t, i) = bindM (whileE (\<lambda>(h1, tgt). hasCollision tgt) ?c (probe sh ?h 0, ss ! ?p 0))
    (\<lambda>(h1, tgt). bindM (swapSlots t i (unat h1)) (\<lambda>t. bindM (slotForIndex t h1) (\<lambda>s. bindM (setCollision s) (\<lambda>s.
      bindM (setSlot t h1 s) (\<lambda>t. returnM (t, i))))))"
    using True t i inside by (simp add: rehashStep_def Let_def probe_0 [OF t(2)] slots_def)
  show ?thesis
    unfolding eq
  proof (rule runs_bindM [OF loop], goal_cases)
    case (1 r)
    then show ?case using step [of "fst r" "snd r"] by (cases r) simp
  qed
qed

lemma rehashTableInPlace_runs:
  assumes ok: "tableOk P t" and some: "mTable t = Some ss"
  shows "runs (rehashTableInPlace t) v never (\<lambda>t'. tableOk P t' \<and> entries t' = entries t \<and> mTable t' \<noteq> None \<and>
    mRemovedCount t' = 0 \<and> mEntryCount t' = mEntryCount t \<and> mHashShift t' = mHashShift t)"
proof -
  let ?sh = "mHashShift t"
  let ?t0 = "t\<lparr>mRemovedCount := 0, mGen := mGen t + 1, mTable := Some (map unsetCollision ss)\<rparr>"
  have sok: "slotsOk P ?sh ss" using ok some by (simp add: tableOk_def)
  have live0: "liveEntries (map unsetCollision ss) = liveEntries ss"
    by (simp add: liveEntries_def filter_mset_image_mset multiset.map_comp comp_def)
  let ?I = "\<lambda>(t', i). \<exists>ss'. t' = ?t0\<lparr>mTable := Some ss'\<rparr> \<and> placing P ?sh ss' i \<and> liveEntries ss' = liveEntries ss"
  have init: "?I (?t0, 0)"
    using sok live0 by (auto simp: placing_def slotsOk_def removedSlots_zero isRemoved_iff holds_def
        intro!: exI [of _ "map unsetCollision ss"])
  have loop: "runs (whileE (\<lambda>(t, i). i < capacity t) rehashStep (?t0, 0)) v never
    (\<lambda>(t', i). tableOk P t' \<and> entries t' = entries t \<and> mTable t' \<noteq> None \<and>
      mRemovedCount t' = 0 \<and> mEntryCount t' = mEntryCount t \<and> mHashShift t' = mHashShift t)"
  proof (rule runs_whileE [where P = ?I and f = "\<lambda>(t', i). unplaced (slots t') + (length (slots t') - i)"], goal_cases)
    case (2 s)
    then obtain ss' i where s: "s = (?t0\<lparr>mTable := Some ss'\<rparr>, i)" and pl: "placing P ?sh ss' i"
      and live: "liveEntries ss' = liveEntries ss"
      by auto
    have i: "i < length ss'" using 2(2) pl by (simp add: s capacity_def rawCapacity_eq placing_def)
    show ?case
      unfolding s prod.case
      by (rule runs_weakenQ [OF rehashStep_runs [OF _ _ pl i]]) (use pl live in \<open>auto simp: placing_def\<close>)
  next
    case (3 s)
    then obtain ss' i where s: "s = (?t0\<lparr>mTable := Some ss'\<rparr>, i)" and pl: "placing P ?sh ss' i"
      and live: "liveEntries ss' = liveEntries ss"
      by auto
    have i: "length ss' \<le> i" using 3(2) pl by (simp add: s capacity_def rawCapacity_eq placing_def)
    have "slotsOk P ?sh ss'" using pl i unfolding slotsOk_def placing_def by (metis le_trans not_le)
    then show ?case using s ok some live pl by (auto simp: tableOk_def entries_def placing_def)
  qed (use init in auto)
  show ?thesis
    unfolding rehashTableInPlace_def Let_def using some
    by simp (rule runs_bindM [OF loop], auto)
qed


end
