(* ===== verification/HashTable_Ops.thy ===== *)
theory HashTable_Ops
  imports HashTable_Resize
begin

text \<open>
  The operations of the hash table over the multiset of its entries: each keeps the invariant and the load, and none
  stops at an assertion, runs out of its store or goes on for ever.
\<close>

section \<open>Entries with different keys\<close>

lemma keysDiffer_subset:
  assumes "keysDiffer P M" and "N \<subseteq># M"
  shows "keysDiffer P N"
proof -
  have "N - {#x#} \<subseteq># M - {#x#}" for x using assms(2) by (simp add: subseteq_mset_def diff_le_mono)
  then show ?thesis using assms unfolding keysDiffer_def by (meson mset_subset_eqD)
qed

context open_policy
begin

lemma match_comm: "match P a b = match P b a"
  using match_sym by blast

lemma keysDiffer_add:
  "keysDiffer P (add_mset x M) \<longleftrightarrow> keysDiffer P M \<and> (\<forall>y \<in># M. \<not> match P (getKey P x) (getKey P y))"
proof -
  have "add_mset x M - {#y#} = (if y = x then M else add_mset x (M - {#y#}))" for y by simp
  then show ?thesis unfolding keysDiffer_def
    by (auto simp: match_comm [of _ "getKey P x"] diff_union_swap2 split: if_splits dest: in_diffD)
qed

lemma keysDiffer_unique:
  assumes "keysDiffer P (add_mset x M)" and "match P (getKey P x) l"
  shows "filter_mset (\<lambda>y. \<not> match P (getKey P y) l) (add_mset x M) = M"
  using assms by (auto simp: keysDiffer_add filter_mset_eq_conv) (metis match_sym match_trans)

end

section \<open>Keeping the load\<close>

definition tableGood :: "('t, 'k) HashPolicy \<Rightarrow> 't HashTable \<Rightarrow> bool" where
  "tableGood P t \<longleftrightarrow> tableOk P t \<and> roomy t"

lemma tableGood_ok: "tableGood P t \<Longrightarrow> tableOk P t" "tableGood P t \<Longrightarrow> roomy t"
  by (simp_all add: tableGood_def)

definition spare :: "'t HashTable \<Rightarrow> bool" where
  "spare t \<longleftrightarrow> 4 * (mEntryCount t + mRemovedCount t + 1) \<le> 3 * rawCapacity t"

lemma spare_roomy: "spare t \<Longrightarrow> roomy t"
  by (simp add: spare_def roomy_def)

lemma rawCapacity_cases:
  assumes "tableOk P t"
  obtains s where "rawCapacity t = 2 ^ s" and "2 \<le> s" and "s \<le> 30" and "mHashShift t = 32 - s" and "4 dvd rawCapacity t"
    and "4 \<le> rawCapacity t"
proof -
  let ?s = "32 - mHashShift t"
  have s: "2 \<le> ?s" "?s \<le> 30" "mHashShift t = 32 - ?s" using assms by (auto simp: tableOk_def)
  have "(2 :: nat) ^ 2 dvd 2 ^ ?s" using s(1) by (rule le_imp_power_dvd)
  then have "4 dvd (2 :: nat) ^ ?s" by simp
  moreover from this have "4 \<le> (2 :: nat) ^ ?s" by (rule dvd_imp_le) simp
  ultimately show thesis using s by (intro that [of ?s]) (simp_all add: rawCapacity_eq)
qed

lemma capacity_Some: "mTable t \<noteq> None \<Longrightarrow> capacity t = rawCapacity t"
  unfolding capacity_def by (rule if_not_P)

lemma tableOk_None: "tableOk P t \<Longrightarrow> mTable t = None \<Longrightarrow> mEntryCount t = 0 \<and> mRemovedCount t = 0"
  by (simp add: tableOk_def)

text \<open>How \<open>rehashIfOverloaded\<close> ends.\<close>

definition rebuilt :: "('t, 'k) HashPolicy \<Rightarrow> 't HashTable \<Rightarrow> 't HashTable \<times> RebuildStatus \<Rightarrow> bool" where
  "rebuilt P t = (\<lambda>(t', status).
     status = NotOverloaded \<and> t' = t \<and> mTable t \<noteq> None \<and> spare t \<or>
     status = RehashFailed \<and> t' = t \<or>
     status = Rehashed \<and> tableGood P t' \<and> entries t' = entries t \<and> mTable t' \<noteq> None \<and> mRemovedCount t' = 0 \<and>
       mEntryCount t' = mEntryCount t \<and> mMutationCount t' = mMutationCount t \<and> (roomy t \<longrightarrow> spare t'))"

lemma rehashIfOverloaded_runs:
  assumes ok: "tableOk P t" and n: "4 * mEntryCount t \<le> 3 * rawCapacity t"
  shows "runs (rehashIfOverloaded t) v never (\<lambda>r. rebuilt P t r \<and>
    ((\<forall>k. allocOk v k) \<and> mEntryCount t \<le> sMaxInit \<longrightarrow> snd r \<noteq> RehashFailed))"
proof -
  obtain s where s: "rawCapacity t = 2 ^ s" "2 \<le> s" "s \<le> 30" "4 dvd rawCapacity t" "4 \<le> rawCapacity t"
    using ok by (rule rawCapacity_cases)
  obtain c where c: "rawCapacity t = 4 * c" using s(4) by (rule dvdE)
  show ?thesis
  proof (cases "isOverloaded t")
    case False
    then have some: "mTable t \<noteq> None" by (cases "mTable t = None") (simp_all add: isOverloaded_def capacity_def)
    then have "spare t" using False c
      by (simp add: isOverloaded_def capacity_Some sMaxAlphaNumerator_def sAlphaDenominator_def spare_def)
    then show ?thesis using some False by (simp add: rehashIfOverloaded_def rebuilt_def)
  next
    case True
    define many where "many \<longleftrightarrow> mRemovedCount t \<ge> capacity t div 4"
    define s' where "s' = (if many then s else Suc s)"
    have pow: "(if many then rawCapacity t else rawCapacity t * 2) = 2 ^ s'" by (simp add: s'_def s)
    have eq: "rehashIfOverloaded t = changeTableSize t (2 ^ s')"
      using True by (simp add: rehashIfOverloaded_def Let_def flip: pow many_def)
    have room: "mEntryCount t < 2 ^ s'" using n s by (auto simp: s'_def)
    have small: "s' \<le> 30" if few: "mEntryCount t \<le> sMaxInit"
    proof (cases many)
      case False
      then have some: "mTable t \<noteq> None" by (cases "mTable t = None") (simp_all add: many_def capacity_def)
      have "3 * c \<le> mEntryCount t + mRemovedCount t" "mRemovedCount t < c"
        using True False c by (simp_all add: isOverloaded_def many_def capacity_Some [OF some] sMaxAlphaNumerator_def sAlphaDenominator_def)
      then have "(2 :: nat) ^ s < 2 ^ 30" using few c s(1) by (simp add: sMaxInit_def)
      then have "s < 30" by (rule power_less_imp_less_exp [rotated]) simp
      then show ?thesis by (simp add: s'_def)
    qed (use s in \<open>simp add: s'_def\<close>)
    have "rebuilt P t r" if r: "resized P t s' r" for r
    proof -
      obtain t' st where rt: "r = (t', st)" by (cases r)
      consider "st = RehashFailed" "t' = t" | (re) "st = Rehashed" "tableOk P t'" "entries t' = entries t" "mTable t' \<noteq> None"
        "rawCapacity t' = 2 ^ s'" "mRemovedCount t' = 0" "mEntryCount t' = mEntryCount t" "mMutationCount t' = mMutationCount t"
        using r rt by (auto simp: resized_def)
      then show ?thesis
      proof cases
        case re
        have "roomy t'" using re n s by (auto simp: roomy_def s'_def)
        moreover have "spare t'" if "roomy t"
        proof (cases many)
          case True
          have "mTable t = None \<Longrightarrow> mEntryCount t = 0" using ok tableOk_None by blast
          then have "4 * mEntryCount t \<le> 2 * rawCapacity t"
            using True that c by (cases "mTable t = None") (auto simp: many_def capacity_Some roomy_def)
          then show ?thesis using True re s by (simp add: spare_def s'_def)
        next
          case False
          then show ?thesis using re n s by (simp add: spare_def s'_def)
        qed
        ultimately show ?thesis using re rt by (auto simp: rebuilt_def tableGood_def)
      qed (simp_all add: rebuilt_def rt)
    qed
    then show ?thesis
      unfolding eq using s small
      by (intro runs_weakenQ [OF changeTableSize_runs [OF ok _ _ room]]) (auto simp: s'_def split: if_splits)
  qed
qed

lemma infallibleRehash_runs:
  assumes ok: "tableOk P t" and n: "4 * mEntryCount t \<le> 3 * rawCapacity t" and some: "mTable t \<noteq> None"
  shows "runs (infallibleRehashIfOverloaded t) v never (\<lambda>t'. tableGood P t' \<and> entries t' = entries t \<and> mTable t' \<noteq> None)"
proof -
  obtain ss where ss: "mTable t = Some ss" using some by auto
  have "runs (if st = RehashFailed then rehashTableInPlace t' else returnM t') v never
      (\<lambda>t'. tableGood P t' \<and> entries t' = entries t \<and> mTable t' \<noteq> None)" if "rebuilt P t (t', st)" for t' st
  proof (cases "st = RehashFailed")
    case True
    with that show ?thesis using n
      by (auto simp: rebuilt_def tableGood_def roomy_def rawCapacity_eq intro!: runs_weakenQ [OF rehashTableInPlace_runs [OF ok ss]])
  next
    case False
    with that ok show ?thesis by (auto simp: rebuilt_def tableGood_def spare_roomy)
  qed
  then show ?thesis
    unfolding infallibleRehashIfOverloaded_def
    by (intro runs_bindM [OF rehashIfOverloaded_runs [OF ok n]]) auto
qed

lemma shrinkIfUnderloaded_runs:
  assumes good: "tableGood P t" and some: "mTable t \<noteq> None"
  shows "runs (shrinkIfUnderloaded t) v never (\<lambda>t'. tableGood P t' \<and> entries t' = entries t)"
proof -
  have ok: "tableOk P t" using good by (simp add: tableGood_def)
  obtain s where s: "rawCapacity t = 2 ^ s" "2 \<le> s" "s \<le> 30" using ok by (rule rawCapacity_cases)
  show ?thesis
  proof (cases "capacity t > sMinCapacity \<and> mEntryCount t \<le> capacity t * sMinAlphaNumerator div sAlphaDenominator")
    case False
    then show ?thesis using good by (auto simp: shrinkIfUnderloaded_def Let_def)
  next
    case True
    have "(2 :: nat) ^ 2 < 2 ^ s" using True s capacity_Some [OF some] by (simp add: sMinCapacity_def)
    then have s2: "2 < s" by (rule power_less_imp_less_exp [rotated]) simp
    then obtain s' where s': "s = Suc s'" by (cases s) auto
    have half: "capacity t div 2 = 2 ^ s'" using s s' capacity_Some [OF some] by simp
    have "mEntryCount t \<le> 2 * 2 ^ s' div 4"
      using True s s' capacity_Some [OF some] by (simp add: sMinAlphaNumerator_def sAlphaDenominator_def)
    then have n: "4 * mEntryCount t \<le> 2 * 2 ^ s'" by linarith
    have eq: "shrinkIfUnderloaded t = bindM (changeTableSize t (2 ^ s')) (\<lambda>(t, status). returnM t)"
      using True by (simp add: shrinkIfUnderloaded_def Let_def half)
    have "tableGood P t' \<and> entries t' = entries t" if "resized P t s' (t', st)" for t' st
      using that good n by (auto simp: resized_def tableGood_def roomy_def)
    moreover have "mEntryCount t < 2 ^ s'" using n by (cases "mEntryCount t = 0") auto
    ultimately show ?thesis unfolding eq
      using s2 s s' by (intro runs_bindM [OF changeTableSize_runs [OF ok]]) auto
  qed
qed

section \<open>One entry more or less\<close>

lemma tableOk_raises:
  assumes "tableOk P t" and "mTable t = Some ss" and "raises ss ss'"
  shows "tableOk P (t\<lparr>mTable := Some ss'\<rparr>)" "entries (t\<lparr>mTable := Some ss'\<rparr>) = entries t"
  using assms raises_mset [OF assms(3)] raises_slotsOk [OF assms(3)] by (auto simp: tableOk_def entries_def)

lemma load_update [simp]: "roomy (t\<lparr>mTable := x\<rparr>) \<longleftrightarrow> roomy t" "spare (t\<lparr>mTable := x\<rparr>) \<longleftrightarrow> spare t"
  by (simp_all add: roomy_def spare_def rawCapacity_eq)

lemma room_lt: "tableOk P t \<Longrightarrow> roomy t \<Longrightarrow> mEntryCount t + mRemovedCount t < rawCapacity t"
  by (erule rawCapacity_cases) (simp add: roomy_def)

lemma removeSlot_eq:
  assumes ok: "tableOk P t" and t: "mTable t = Some ss" and i: "unat i < length ss" "isLive (ss ! unat i)"
    and x: "mEntry (ss ! unat i) = Some x"
  obtains t' s where "removeSlot t i = returnM t'" and "tableOk P t'" and "mTable t' = Some (ss[unat i := s])" and "\<not> isLive s"
    and "entries t = add_mset x (entries t')" and "mEntryCount t = Suc (mEntryCount t')"
    and "mEntryCount t' + mRemovedCount t' \<le> mEntryCount t + mRemovedCount t"
    and "mHashShift t' = mHashShift t" and "mGen t' = mGen t" and "mMutationCount t' = mMutationCount t + 1"
proof -
  let ?c = "hasCollision (ss ! unat i)"
  let ?s = "\<lparr>mKeyHash = if ?c then sRemovedKey else sFreeKey, mEntry = None :: 'a option\<rparr>"
  let ?ss = "ss[unat i := ?s]"
  let ?t' = "t\<lparr>mTable := Some ?ss, mRemovedCount := mRemovedCount t + of_bool ?c, mEntryCount := mEntryCount t - 1,
    mMutationCount := mMutationCount t + 1\<rparr>"
  have s: "\<not> isLive ?s" "hasCollision ?s \<longleftrightarrow> ?c" "isRemoved ?s \<longleftrightarrow> ?c"
    by (auto simp: isLive_def isLiveHash_def sRemovedKey_def sFreeKey_def hasCollision_def isRemoved_def sCollisionBit_def)
  have nr: "\<not> isRemoved (ss ! unat i)" using i(2) isRemoved_not_live by blast
  have live: "liveEntries ss = add_mset x (liveEntries ?ss)" using liveEntries_update [OF i(1), of ?s] s i(2) x by simp
  have rem: "removedSlots ?ss = removedSlots ss + of_bool ?c"
    using removedSlots_update [OF i(1), of ?s] s nr by (cases ?c) simp_all
  have eq: "removeSlot t i = returnM ?t'"
    using t i by (simp add: removeSlot_def removeLive_def clearLive_def)
  have sok: "slotsOk P (mHashShift t) ?ss"
    using ok t i s by (intro slotsOk_update) (auto simp: tableOk_def)
  have kd: "keysDiffer P (liveEntries ?ss)"
    using ok t live by (auto simp: tableOk_def entries_def intro: keysDiffer_subset)
  have "mEntryCount t = Suc (size (liveEntries ?ss))" using ok t live by (simp add: tableOk_def entries_def)
  then show thesis
    using eq ok t live rem sok kd s(1)
    by (intro that [of ?t' ?s]) (auto simp: tableOk_def entries_def rawCapacity_eq)
qed

definition added :: "('t, 'k) HashPolicy \<Rightarrow> 't HashTable \<Rightarrow> 't \<Rightarrow> 't HashTable \<Rightarrow> bool" where
  "added P t x t' \<longleftrightarrow> tableOk P t' \<and> mTable t' \<noteq> None \<and> entries t' = add_mset x (entries t) \<and>
     mEntryCount t' = mEntryCount t + 1 \<and> mEntryCount t' + mRemovedCount t' \<le> mEntryCount t + mRemovedCount t + 1 \<and>
     mHashShift t' = mHashShift t"

lemma added_raises: "added P (t\<lparr>mTable := Some ss'\<rparr>) x t' \<Longrightarrow> tableOk P t \<Longrightarrow> mTable t = Some ss \<Longrightarrow> raises ss ss' \<Longrightarrow> added P t x t'"
  by (auto simp: added_def tableOk_raises)

lemma added_spare: "added P t x t' \<Longrightarrow> spare t \<Longrightarrow> tableGood P t'"
  by (auto simp: added_def spare_def tableGood_def roomy_def rawCapacity_eq)

context open_policy
begin

text \<open>The entry in a slot may be replaced by one with an equal key.\<close>

lemma replace_entry:
  assumes good: "tableGood P t" and t: "mTable t = Some ss" and i: "i < length ss" "isLive (ss ! i)" "mEntry (ss ! i) = Some x"
    and m: "match P (getKey P x) (getKey P y)"
  defines "t' \<equiv> t\<lparr>mTable := Some (ss[i := (ss ! i)\<lparr>mEntry := Some y\<rparr>])\<rparr>"
  shows "tableGood P t'" and "entries t' = add_mset y (entries t - {#x#})" and "x \<in># entries t"
proof -
  let ?s = "(ss ! i)\<lparr>mEntry := Some y\<rparr>"
  note ok = tableGood_ok(1) [OF good]
  have s: "isLive ?s" "getKeyHash ?s = getKeyHash (ss ! i)" "hasCollision ?s \<longleftrightarrow> hasCollision (ss ! i)"
    using i(2) by (simp_all add: isLive_def getKeyHash_def hasCollision_def)
  have sok: "slotsOk P (mHashShift t) ss" using ok t by (simp add: tableOk_def)
  have "holds P ?s" using slotsOkD [OF sok i(1,2)] i(3) s match_prepareHash [OF m] by (simp add: holds_def)
  then have sok': "slotsOk P (mHashShift t) (ss[i := ?s])"
    using sok i s slotsOkD [OF sok i(1,2)] by (intro slotsOk_update) auto
  have nr: "\<not> isRemoved ?s" "\<not> isRemoved (ss ! i)" using s(1) i(2) isRemoved_not_live by blast+
  then have rem: "removedSlots (ss[i := ?s]) = removedSlots ss" using removedSlots_update [OF i(1), of ?s] by simp
  show x: "x \<in># entries t" using t i by (auto simp: entries_def liveEntries_iff intro!: exI [of _ i])
  then obtain M where M: "liveEntries ss = add_mset x M" using t by (auto simp: entries_def dest: multi_member_split)
  then have live: "liveEntries (ss[i := ?s]) = add_mset y M"
    using liveEntries_update [OF i(1), of ?s] i s(1) by simp
  have "keysDiffer P (add_mset x M)" using ok t M by (simp add: tableOk_def entries_def)
  then have "keysDiffer P (add_mset y M)" using m match_sym match_trans unfolding keysDiffer_add by blast
  then show "tableGood P t'" and "entries t' = add_mset y (entries t - {#x#})"
    using good t M rem live sok' by (auto simp: t'_def tableGood_def tableOk_def entries_def roomy_def rawCapacity_eq)
qed

lemma fill_found:
  assumes ok: "tableOk P t" and t: "mTable t = Some ss" and i: "unat i < length ss" "\<not> isLive (ss ! unat i)"
    and re: "reached (mHashShift t) ss (prepareHash P (getKey P x)) (unat i)"
    and h: "h = (if isRemoved (ss ! unat i) then prepareHash P (getKey P x) OR sCollisionBit else prepareHash P (getKey P x))"
    and new: "\<forall>y \<in># entries t. \<not> match P (getKey P x) (getKey P y)"
  obtains t' where
    "fillSlot (if isRemoved (ss ! unat i) then t\<lparr>mRemovedCount := mRemovedCount t - 1\<rparr> else t) i h x = returnM t'"
    and "added P t x t'" and "mGen t' = mGen t" and "mTable t' = Some (ss[unat i := \<lparr>mKeyHash = h, mEntry = Some x\<rparr>])"
    and "isRemoved (ss ! unat i) \<Longrightarrow> mEntryCount t' + mRemovedCount t' = mEntryCount t + mRemovedCount t"
proof -
  let ?ss = "ss[unat i := \<lparr>mKeyHash = h, mEntry = Some x\<rparr>]"
  let ?b = "isRemoved (ss ! unat i)"
  let ?t' = "t\<lparr>mTable := Some ?ss, mRemovedCount := mRemovedCount t - of_bool ?b, mEntryCount := mEntryCount t + 1,
    mMutationCount := mMutationCount t + 1\<rparr>"
  have sok: "slotsOk P (mHashShift t) ss" using ok t by (simp add: tableOk_def)
  note ins = insert_slot [OF sok i re h]
  have eq: "fillSlot (if ?b then t\<lparr>mRemovedCount := mRemovedCount t - 1\<rparr> else t) i h x = returnM ?t'"
    using t i ins(5) by (cases t) (auto simp: fillSlot_eq)
  have "keysDiffer P (add_mset x (liveEntries ss))"
    using ok t new by (simp add: tableOk_def entries_def keysDiffer_add)
  then show thesis
    using ok t ins eq by (intro that [of ?t']) (auto simp: added_def tableOk_def entries_def)
qed

lemma putNewInfallibleInternal_runs:
  assumes ok: "tableOk P t" and some: "mTable t \<noteq> None" and room: "mEntryCount t < rawCapacity t"
    and m: "match P (getKey P x) l" and new: "\<forall>y \<in># entries t. \<not> match P (getKey P y) l"
  shows "runs (putNewInfallibleInternal P t l x) v never (added P t x)"
proof -
  obtain ss where t: "mTable t = Some ss" using some by auto
  have sok: "slotsOk P (mHashShift t) ss" and n: "mEntryCount t = size (liveEntries ss)"
    using ok t by (simp_all add: tableOk_def entries_def)
  have h: "prepareHash P l = prepareHash P (getKey P x)" using m match_prepareHash by simp
  have len: "length ss = 2 ^ (32 - mHashShift t)" using sok by (simp add: slotsOk_def)
  have free: "\<exists>i < length ss. \<not> isLive (ss ! i)"
    using room n len by (intro nonlive_exists) (simp add: rawCapacity_eq)
  have new': "\<forall>y \<in># entries t. \<not> match P (getKey P x) (getKey P y)" using new m match_sym match_trans by blast
  have step: "runs (bindM (slotForIndex t' i) (\<lambda>s.
      if isRemoved s then fillSlot (t'\<lparr>mRemovedCount := mRemovedCount t' - 1\<rparr>) i (prepareHash P (getKey P x) OR sCollisionBit) x
      else fillSlot t' i (prepareHash P (getKey P x)) x)) v never (added P t x)"
    if t': "t' = t\<lparr>mTable := Some ss'\<rparr>" and ss': "raises ss ss'" and i: "unat i < length ss" "\<not> isLive (ss' ! unat i)"
      "reached (mHashShift t) ss' (prepareHash P (getKey P x)) (unat i)" for t' ss' i
  proof -
    have in': "unat i < length ss'" using i ss' by (simp add: raises_length)
    have ok': "tableOk P t'" "entries t' = entries t" using tableOk_raises [OF ok t ss'] t' by auto
    obtain t'' where "fillSlot (if isRemoved (ss' ! unat i) then t'\<lparr>mRemovedCount := mRemovedCount t' - 1\<rparr> else t') i
        (if isRemoved (ss' ! unat i) then prepareHash P (getKey P x) OR sCollisionBit else prepareHash P (getKey P x)) x = returnM t''"
      "added P t' x t''"
      by (rule fill_found [of t' ss' i x, OF ok'(1)]) (use t' in' i ok'(2) new' in auto)
    moreover from this(2) have "added P t x t''" unfolding t' by (rule added_raises [OF _ ok t ss'])
    ultimately show ?thesis using t' in' by (simp split: if_splits)
  qed
  show ?thesis
    unfolding putNewInfallibleInternal_def Let_def h mozAssert_holds [OF some]
  proof (rule runs_bindM [OF findNonLiveSlot_runs [OF t refl len free]], goal_cases)
    case (2 r)
    then show ?case using step by (cases r) auto
  qed simp
qed

end


section \<open>Pointers\<close>

text \<open>A pointer that a lookup of \<open>l\<close> returned and that no change of the table has made stale.\<close>

definition ptrFor :: "bool \<Rightarrow> ('t, 'k) HashPolicy \<Rightarrow> 't HashTable \<Rightarrow> 'k \<Rightarrow> 'z Ptr_scheme \<Rightarrow> bool" where
  "ptrFor forAdd P t l p \<longleftrightarrow>
     (case mSlot p of None \<Rightarrow> entries t = {#} \<and> (forAdd \<longrightarrow> mTable t = None)
      | Some i \<Rightarrow> mGeneration p = mGen t \<and> (\<exists>ss. mTable t = Some ss \<and> searched forAdd P (mHashShift t) ss l (unat i)))"

definition addPtrFor :: "('t, 'k) HashPolicy \<Rightarrow> 't HashTable \<Rightarrow> 'k \<Rightarrow> AddPtr \<Rightarrow> bool" where
  "addPtrFor P t l p \<longleftrightarrow> ptrFor True P t l p \<and> mGeneration p = mGen t \<and> mPtrKeyHash p = prepareHash P l \<and>
     mPtrMutationCount p = mMutationCount t"

definition hasKey :: "('t, 'k) HashPolicy \<Rightarrow> 't multiset \<Rightarrow> 'k \<Rightarrow> bool" where
  "hasKey P M l \<longleftrightarrow> (\<exists>x \<in># M. match P (getKey P x) l)"

lemma searched_live:
  assumes "searched forAdd P sh ss l i" and "isLive (ss ! i)"
  obtains x where "mEntry (ss ! i) = Some x" and "match P (getKey P x) l" and "x \<in># liveEntries ss"
  using assms unfolding searched_def hits_def liveEntries_iff by (metis option.sel)

lemma found_eq:
  assumes "ptrFor forAdd P t l p"
  shows "found t p = returnM (hasKey P (entries t) l)"
proof (cases "mSlot p")
  case None
  then show ?thesis using assms by (simp add: found_def ptrFor_def hasKey_def)
next
  case (Some i)
  then obtain ss where ss: "mGeneration p = mGen t" "mTable t = Some ss" and s: "searched forAdd P (mHashShift t) ss l (unat i)"
    using assms by (auto simp: ptrFor_def)
  have "isLive (ss ! unat i) \<longleftrightarrow> hasKey P (entries t) l"
    using s ss(2) by (auto simp: hasKey_def entries_def elim: searched_live) (auto simp: searched_def split: if_splits)
  then show ?thesis using Some ss s by (simp add: found_def searched_def)
qed

lemma ptrFor_entry:
  assumes "ptrFor forAdd P t l p" and "hasKey P (entries t) l"
  obtains i ss x where "mSlot p = Some i" and "mTable t = Some ss" and "unat i < length ss" and "isLive (ss ! unat i)"
    and "mEntry (ss ! unat i) = Some x" and "match P (getKey P x) l" and "x \<in># entries t" and "mGeneration p = mGen t"
proof -
  obtain i ss where *: "mSlot p = Some i" "mTable t = Some ss" "searched forAdd P (mHashShift t) ss l (unat i)" "mGeneration p = mGen t"
    using assms by (auto simp: ptrFor_def hasKey_def split: option.splits)
  then have "isLive (ss ! unat i)" using assms(2) by (auto simp: searched_def hasKey_def entries_def split: if_splits)
  moreover obtain x where "mEntry (ss ! unat i) = Some x" "match P (getKey P x) l" "x \<in># liveEntries ss"
    using searched_live [OF *(3) \<open>isLive (ss ! unat i)\<close>] .
  ultimately show thesis using * by (intro that) (auto simp: searched_def entries_def)
qed

lemma derefPtr_eq:
  assumes "ptrFor forAdd P t l p" and "hasKey P (entries t) l"
  obtains x where "derefPtr t p = returnM x" and "x \<in># entries t" and "match P (getKey P x) l"
  using ptrFor_entry [OF assms] found_eq [OF assms(1)] assms(2) that by (fastforce simp: derefPtr_def getEntry_def)

text \<open>Where an entry with the prepared hash may go: the slot, and the counts as \<open>add\<close> leaves them before \<open>setLive\<close>.\<close>

definition ready :: "('t, 'k) HashPolicy \<Rightarrow> HashNumber \<Rightarrow> 't multiset \<Rightarrow> 't HashTable \<Rightarrow> HashNumber \<Rightarrow> HashNumber \<Rightarrow> bool" where
  "ready P h0 M t' i h \<longleftrightarrow> (\<exists>t1 ss. tableOk P t1 \<and> mTable t1 = Some ss \<and> entries t1 = M \<and> unat i < length ss \<and>
     \<not> isLive (ss ! unat i) \<and> reached (mHashShift t1) ss h0 (unat i) \<and> (spare t1 \<or> roomy t1 \<and> isRemoved (ss ! unat i)) \<and>
     t' = (if isRemoved (ss ! unat i) then t1\<lparr>mRemovedCount := mRemovedCount t1 - 1\<rparr> else t1) \<and>
     h = (if isRemoved (ss ! unat i) then h0 OR sCollisionBit else h0))"

context open_policy
begin

lemma tableLookup_runs:
  assumes good: "tableGood P t"
  shows "runs (tableLookup P t l) v never (ptrFor False P t l)"
proof (cases "mEntryCount t = 0")
  case True
  then show ?thesis using good by (simp add: tableLookup_def tableEmpty_def ptrFor_def tableGood_def tableOk_def)
next
  case False
  have ok: "tableOk P t" using good by (simp add: tableGood_def)
  obtain ss where ss: "mTable t = Some ss" using False tableOk_None [OF ok] by (cases "mTable t") auto
  then have sok: "slotsOk P (mHashShift t) ss" using ok by (simp add: tableOk_def)
  have free: "\<exists>i < length ss. isFree (ss ! i)"
    using room_lt [OF ok] good ss sok ok
    by (intro free_exists) (simp add: tableGood_def tableOk_def entries_def rawCapacity_eq slotsOk_def)
  have t_eq: "t\<lparr>mTable := Some ss\<rparr> = t" using ss by simp
  show ?thesis
    using False ss t_eq by (simp add: tableLookup_def tableEmpty_def)
      (rule runs_bindM [OF lookupSlot_runs [OF ss refl sok free]], auto simp: ptrFor_def)
qed

lemma lookupForAdd_runs:
  assumes good: "tableGood P t"
  shows "runs (lookupForAdd P t l) v never (\<lambda>(t', p). tableGood P t' \<and> entries t' = entries t \<and> addPtrFor P t' l p \<and>
    rawCapacity t' = rawCapacity t \<and> mEntryCount t' = mEntryCount t)"
proof (cases "mTable t")
  case None
  then show ?thesis using good prepareHash_live [of P l]
    by (simp add: lookupForAdd_def Let_def addPtrFor_def ptrFor_def)
next
  case (Some ss)
  have ok: "tableOk P t" using good by (simp add: tableGood_def)
  then have sok: "slotsOk P (mHashShift t) ss" using Some by (simp add: tableOk_def)
  have free: "\<exists>i < length ss. isFree (ss ! i)"
    using room_lt [OF ok] good Some sok ok
    by (intro free_exists) (simp add: tableGood_def tableOk_def entries_def rawCapacity_eq slotsOk_def)
  show ?thesis
    unfolding lookupForAdd_def Let_def using Some
    by simp (rule runs_bindM [OF lookupSlot_runs [OF Some refl sok free]],
      use good tableOk_raises [OF ok Some] in \<open>auto simp: addPtrFor_def ptrFor_def tableGood_def rawCapacity_eq\<close>)
qed

lemma findNonLiveSlot_ready:
  assumes ok: "tableOk P t" and some: "mTable t \<noteq> None" and r: "mRemovedCount t = 0" and sp: "spare t" and h: "h AND 1 = 0"
  shows "runs (findNonLiveSlot t h) v never (\<lambda>(t', i). ready P h (entries t) t' i h)"
proof -
  obtain ss where t: "mTable t = Some ss" using some by auto
  have sok: "slotsOk P (mHashShift t) ss" and n: "mEntryCount t = size (liveEntries ss)" and nr: "removedSlots ss = 0"
    using ok t r by (simp_all add: tableOk_def entries_def)
  have len: "length ss = rawCapacity t" using sok by (simp add: slotsOk_def rawCapacity_eq)
  have free: "\<exists>i < length ss. \<not> isLive (ss ! i)"
    using room_lt [OF ok spare_roomy [OF sp]] n len by (intro nonlive_exists) simp
  have "ready P h (entries t) (t\<lparr>mTable := Some ss'\<rparr>) i h"
    if "raises ss ss'" "unat i < length ss" "\<not> isLive (ss' ! unat i)" "reached (mHashShift t) ss' h (unat i)" for ss' i
  proof -
    have "\<not> isRemoved (ss' ! unat i)"
      using raises_mset(2) [OF that(1)] nr that(2) raises_length [OF that(1)] by (simp add: removedSlots_zero)
    then show ?thesis using that tableOk_raises [OF ok t that(1)] sp raises_length [OF that(1)]
      unfolding ready_def by (intro exI [of _ "t\<lparr>mTable := Some ss'\<rparr>"] exI [of _ ss']) simp
  qed
  then show ?thesis
    using h len by (intro runs_weakenQ [OF findNonLiveSlot_runs [OF t refl _ free]]) (auto simp: rawCapacity_eq)
qed

end


section \<open>Additions\<close>

text \<open>Allocations succeed, and the table holds no more than \<open>2 ^ 29\<close> entries.\<close>

definition canGrow :: "env \<Rightarrow> 't HashTable \<Rightarrow> bool" where
  "canGrow v t \<longleftrightarrow> (\<forall>k. allocOk v k) \<and> mEntryCount t \<le> sMaxInit"

lemma roomy_entries: "roomy t \<Longrightarrow> 4 * mEntryCount t \<le> 3 * rawCapacity t"
  by (simp add: roomy_def)

lemma new_store:
  assumes ok: "tableOk P t" and none: "mTable t = None" and r: "resized P t s (t', st)" and s: "rawCapacity t = 2 ^ s"
  shows "st = RehashFailed \<and> t' = t \<or> st = Rehashed \<and> tableOk P t' \<and> mTable t' \<noteq> None \<and> entries t' = entries t \<and>
    mRemovedCount t' = 0 \<and> spare t'"
proof -
  have "4 \<le> rawCapacity t" using ok by (rule rawCapacity_cases)
  then show ?thesis using r s tableOk_None [OF ok none] by (auto simp: resized_def spare_def)
qed

lemma prepareHash_collision [simp]: "prepareHash P l AND sCollisionBit = 0"
  by (simp add: sCollisionBit_def)

context open_policy
begin

lemma addSlot_runs:
  assumes good: "tableGood P t" and p: "addPtrFor P t l p" and new: "\<not> hasKey P (entries t) l"
  shows "runs (addSlot t p) v never (\<lambda>(t', r).
    (case r of None \<Rightarrow> t' = t | Some (i, h) \<Rightarrow> ready P (prepareHash P l) (entries t) t' i h) \<and> (canGrow v t \<longrightarrow> r \<noteq> None))"
    (is "runs _ v never ?Q")
proof (cases "mSlot p")
  case None
  have none: "mTable t = None" using p None by (simp add: addPtrFor_def ptrFor_def)
  note ok = tableGood_ok(1) [OF good]
  obtain s where s: "rawCapacity t = 2 ^ s" "2 \<le> s" "s \<le> 30" using ok by (rule rawCapacity_cases)
  have step: "runs (mozAssert (st \<noteq> NotOverloaded)
      (if st = RehashFailed then returnM (t', None)
       else bindM (findNonLiveSlot t' (mPtrKeyHash p)) (\<lambda>(t, i). returnM (t, Some (i, mPtrKeyHash p))))) v never ?Q"
    if r: "resized P t s (t', st)" and g: "(\<forall>k. allocOk v k) \<and> s \<le> 30 \<longrightarrow> st = Rehashed" for t' st
    using new_store [OF ok none r s(1)]
  proof (elim disjE conjE)
    assume "st = RehashFailed" "t' = t"
    then show ?thesis using g s by (auto simp: canGrow_def)
  next
    assume *: "st = Rehashed" "tableOk P t'" "mTable t' \<noteq> None" "entries t' = entries t" "mRemovedCount t' = 0" "spare t'"
    then have "runs (bindM (findNonLiveSlot t' (mPtrKeyHash p)) (\<lambda>(t, i). returnM (t, Some (i, mPtrKeyHash p)))) v never ?Q"
      using p by (intro runs_bindM [OF findNonLiveSlot_ready]) (auto simp: addPtrFor_def)
    then show ?thesis using * by simp
  qed
  have n: "mEntryCount t < 2 ^ s" using tableOk_None [OF ok none] by simp
  have eq: "addSlot t p = bindM (changeTableSize t (rawCapacity t)) (\<lambda>(t, status). mozAssert (status \<noteq> NotOverloaded)
      (if status = RehashFailed then returnM (t, None)
       else bindM (findNonLiveSlot t (mPtrKeyHash p)) (\<lambda>(t, i). returnM (t, Some (i, mPtrKeyHash p)))))"
    using None none tableOk_None [OF ok none] by (simp add: addSlot_def)
  show ?thesis
    unfolding eq s(1)
  proof (rule runs_bindM [OF changeTableSize_runs [OF ok _ _ n]], goal_cases)
    case (3 r)
    obtain t' st where r: "r = (t', st)" by (cases r)
    show ?case unfolding r prod.case by (rule step) (use 3 r in auto)
  qed (use s in auto)
next
  case (Some i)
  note ok = tableGood_ok(1) [OF good] and ro = tableGood_ok(2) [OF good]
  obtain ss where ss: "mTable t = Some ss" "searched True P (mHashShift t) ss l (unat i)"
    using p Some by (auto simp: addPtrFor_def ptrFor_def)
  have i: "unat i < length ss" "\<not> isLive (ss ! unat i)" "reached (mHashShift t) ss (prepareHash P l) (unat i)"
    using ss new searched_live [OF ss(2)] by (auto simp: searched_def hasKey_def entries_def split: if_splits)
  have h: "mPtrKeyHash p = prepareHash P l" using p by (simp add: addPtrFor_def)
  show ?thesis
  proof (cases "isRemoved (ss ! unat i)")
    case True
    have "ready P (prepareHash P l) (entries t) (t\<lparr>mRemovedCount := mRemovedCount t - 1\<rparr>) i (prepareHash P l OR sCollisionBit)"
      unfolding ready_def using ok ro ss i True by (intro exI [of _ t] exI [of _ ss]) simp
    then show ?thesis using Some ss i True h
      by (auto simp: addSlot_def canGrow_def intro!: runs_intros)
  next
    case False
    have keep: "ready P (prepareHash P l) (entries t) t i (prepareHash P l)" if "spare t"
      unfolding ready_def using ok ss i False that by (intro exI [of _ t] exI [of _ ss]) simp
    have step: "runs (if st = RehashFailed then returnM (t', None)
        else if st = Rehashed then bindM (findNonLiveSlot t' (mPtrKeyHash p)) (\<lambda>(t, i). returnM (t, Some (i, mPtrKeyHash p)))
        else bindM tryAlloc (\<lambda>ok. returnM (t', if ok then Some (i, mPtrKeyHash p) else None))) v never ?Q"
      if r: "rebuilt P t (t', st)" and g: "(\<forall>k. allocOk v k) \<and> mEntryCount t \<le> sMaxInit \<longrightarrow> st \<noteq> RehashFailed" for t' st
    proof (cases st)
      case NotOverloaded
      then show ?thesis using r keep h by (auto simp: rebuilt_def canGrow_def intro!: runs_intros)
    next
      case Rehashed
      then have "tableOk P t'" "mTable t' \<noteq> None" "mRemovedCount t' = 0" "spare t'" "entries t' = entries t"
        using r ro by (auto simp: rebuilt_def tableGood_def)
      then show ?thesis using Rehashed h
        by (auto intro!: runs_bindM [OF findNonLiveSlot_ready])
    next
      case RehashFailed
      then show ?thesis using r g by (auto simp: rebuilt_def canGrow_def)
    qed
    have eq: "addSlot t p = bindM (rehashIfOverloaded t) (\<lambda>(t, status).
        if status = RehashFailed then returnM (t, None)
        else if status = Rehashed then bindM (findNonLiveSlot t (mPtrKeyHash p)) (\<lambda>(t, i). returnM (t, Some (i, mPtrKeyHash p)))
        else bindM tryAlloc (\<lambda>ok. returnM (t, if ok then Some (i, mPtrKeyHash p) else None)))"
      using Some ss i False by (simp add: addSlot_def)
    show ?thesis
      unfolding eq
    proof (rule runs_bindM [OF rehashIfOverloaded_runs [OF ok roomy_entries [OF ro]]], goal_cases)
      case (1 r)
      obtain t' st where r: "r = (t', st)" by (cases r)
      show ?case unfolding r prod.case by (rule step) (use 1 r in auto)
    qed
  qed
qed

end

text \<open>An addition, or a failure that changes nothing.\<close>

definition addedIf :: "('t, 'k) HashPolicy \<Rightarrow> 't multiset \<Rightarrow> 't \<Rightarrow> 't HashTable \<Rightarrow> bool \<Rightarrow> bool" where
  "addedIf P M x t' ok \<longleftrightarrow> tableGood P t' \<and> entries t' = (if ok then add_mset x M else M)"

context open_policy
begin

lemma add_runs:
  assumes good: "tableGood P t" and p: "addPtrFor P t l p" and new: "\<not> hasKey P (entries t) l" and m: "match P (getKey P x) l"
  shows "runs (add t p x) v never (\<lambda>(t', p', ok). addedIf P (entries t) x t' ok \<and> (canGrow v t \<longrightarrow> ok) \<and>
    (ok \<longrightarrow> derefPtr t' p' = returnM x))"
    (is "runs _ v never ?Q")
proof -
  have h: "prepareHash P l = prepareHash P (getKey P x)" using m match_prepareHash by simp
  have new': "\<forall>y \<in># entries t. \<not> match P (getKey P x) (getKey P y)"
    using new m match_sym match_trans unfolding hasKey_def by blast
  have step: "runs (case r of None \<Rightarrow> returnM (t', p, False) | Some (i, keyHash) \<Rightarrow>
      bindM (fillSlot t' i keyHash x) (\<lambda>t. returnM (t, p\<lparr>mSlot := Some i, mPtrKeyHash := keyHash, mGeneration := mGen t,
        mPtrMutationCount := mMutationCount t\<rparr>, True))) v never ?Q"
    if r: "case r of None \<Rightarrow> t' = t | Some (i, h) \<Rightarrow> ready P (prepareHash P l) (entries t) t' i h" "canGrow v t \<longrightarrow> r \<noteq> None"
    for t' and r :: "(HashNumber \<times> HashNumber) option"
  proof (cases r)
    case None
    then show ?thesis using r good by (auto simp: addedIf_def)
  next
    case (Some ih)
    obtain i h where ih: "ih = (i, h)" by (cases ih)
    then have "ready P (prepareHash P l) (entries t) t' i h" using r Some by simp
    then obtain t1 ss where t1: "tableOk P t1" "mTable t1 = Some ss" "entries t1 = entries t" "unat i < length ss"
      "\<not> isLive (ss ! unat i)" "reached (mHashShift t1) ss (prepareHash P l) (unat i)"
      and ro: "spare t1 \<or> roomy t1 \<and> isRemoved (ss ! unat i)"
      and t': "t' = (if isRemoved (ss ! unat i) then t1\<lparr>mRemovedCount := mRemovedCount t1 - 1\<rparr> else t1)"
      and hh: "h = (if isRemoved (ss ! unat i) then prepareHash P l OR sCollisionBit else prepareHash P l)"
      unfolding ready_def by blast
    obtain t'' where fs: "fillSlot t' i h x = returnM t''" and a: "added P t1 x t''" "mGen t'' = mGen t1"
      and tb: "mTable t'' = Some (ss[unat i := \<lparr>mKeyHash = h, mEntry = Some x\<rparr>])"
      and re: "isRemoved (ss ! unat i) \<Longrightarrow> mEntryCount t'' + mRemovedCount t'' = mEntryCount t1 + mRemovedCount t1"
      using fill_found [OF t1(1,2,4,5) t1(6) [unfolded h] hh [unfolded h]] new' t1(3) unfolding t' by metis
    have "tableGood P t''"
      using ro
    proof
      assume "spare t1"
      then show ?thesis by (rule added_spare [OF a(1)])
    next
      assume "roomy t1 \<and> isRemoved (ss ! unat i)"
      then show ?thesis using a(1) re by (auto simp: added_def tableGood_def roomy_def rawCapacity_eq)
    qed
    moreover have "isLiveHash h" using prepareHash_live [of P l] by (simp add: hh sCollisionBit_def)
    ultimately show ?thesis
      using Some ih fs a t1 tb by (simp add: addedIf_def added_def derefPtr_def found_def isLive_def getEntry_def)
  qed
  have f: "found t p = returnM False" using p new by (simp add: found_eq [of True P t l] addPtrFor_def)
  have eq: "add t p x = bindM (addSlot t p) (\<lambda>(t, r). case r of None \<Rightarrow> returnM (t, p, False) | Some (i, keyHash) \<Rightarrow>
      bindM (fillSlot t i keyHash x) (\<lambda>t. returnM (t, p\<lparr>mSlot := Some i, mPtrKeyHash := keyHash, mGeneration := mGen t,
        mPtrMutationCount := mMutationCount t\<rparr>, True)))"
    using p f prepareHash_live [of P l]
    by (auto simp: add_def isValid_def addPtrFor_def ptrFor_def isLivePtr_def split: option.splits)
  show ?thesis
    unfolding eq
  proof (rule runs_bindM [OF addSlot_runs [OF good p new]], goal_cases)
    case (1 r)
    obtain t' st where r: "r = (t', st)" by (cases r)
    show ?case unfolding r prod.case by (rule step) (use 1 r in auto)
  qed
qed

end


context open_policy
begin

lemma putNew_runs:
  assumes good: "tableGood P t" and new: "\<not> hasKey P (entries t) l" and m: "match P (getKey P x) l"
  shows "runs (putNew P t l x) v never (\<lambda>(t', ok). addedIf P (entries t) x t' ok \<and> (canGrow v t \<longrightarrow> ok))"
    (is "runs _ v never ?Q")
proof -
  have step: "runs (if st = RehashFailed then returnM (t', False)
      else bindM (putNewInfallible P t' l x) (\<lambda>t. returnM (t, True))) v never ?Q"
    if r: "rebuilt P t (t', st)" and g: "canGrow v t \<longrightarrow> st \<noteq> RehashFailed" for t' st
  proof (cases "st = RehashFailed")
    case True
    then show ?thesis using r g good by (auto simp: rebuilt_def addedIf_def)
  next
    case False
    then have t': "tableGood P t'" "entries t' = entries t" "mTable t' \<noteq> None" "spare t'"
      using r good by (auto simp: rebuilt_def tableGood_def)
    have room: "mEntryCount t' < rawCapacity t'" using room_lt [OF tableGood_ok [OF t'(1)]] by simp
    have new': "\<forall>y \<in># entries t'. \<not> match P (getKey P y) l" using new t'(2) by (simp add: hasKey_def)
    have "runs (putNewInfallible P t' l x) v never (\<lambda>t''. tableGood P t'' \<and> entries t'' = add_mset x (entries t))"
      unfolding putNewInfallible_def
    proof (rule runs_bindM [OF tableLookup_runs [OF t'(1)]])
      fix p assume "ptrFor False P t' l p"
      then have "found t' p = returnM False" using new t'(2) by (simp add: found_eq)
      then show "runs (bindM (found t' p) (\<lambda>b. mozAssert (\<not> b) (putNewInfallibleInternal P t' l x))) v never
          (\<lambda>t''. tableGood P t'' \<and> entries t'' = add_mset x (entries t))"
        using added_spare [OF _ t'(4)] t'(2)
        by (simp, intro runs_weakenQ [OF putNewInfallibleInternal_runs [OF tableGood_ok(1) [OF t'(1)] t'(3) room m new']])
          (simp_all only: added_def simp_thms)
    qed
    then show ?thesis using False by (auto simp: addedIf_def intro!: runs_bindM)
  qed
  show ?thesis
    unfolding putNew_def
  proof (rule runs_bindI, rule runs_tryAlloc)
    fix b assume b: "b \<or> \<not> (\<forall>k. allocOk v k)"
    have "runs (bindM (rehashIfOverloaded t) (\<lambda>(t', st). if st = RehashFailed then returnM (t', False)
      else bindM (putNewInfallible P t' l x) (\<lambda>t. returnM (t, True)))) v never ?Q"
    proof (rule runs_bindM [OF rehashIfOverloaded_runs [OF tableGood_ok(1) [OF good] roomy_entries [OF tableGood_ok(2) [OF good]]]],
        goal_cases)
      case (1 r)
      obtain t' st where r: "r = (t', st)" by (cases r)
      show ?case unfolding r prod.case by (rule step) (use 1 r in \<open>auto simp: canGrow_def\<close>)
    qed
    then show "runs (if \<not> b then returnM (t, False) else bindM (rehashIfOverloaded t) (\<lambda>(t', st).
        if st = RehashFailed then returnM (t', False)
        else bindM (putNewInfallible P t' l x) (\<lambda>t. returnM (t, True)))) v never ?Q"
      using b good by (auto simp: addedIf_def canGrow_def)
  qed
qed

lemma relookupOrAdd_runs:
  assumes good: "tableGood P t" and h: "mPtrKeyHash p = prepareHash P l" and m: "match P (getKey P x) l"
  shows "runs (relookupOrAdd P t p l x) v never (\<lambda>(t', p', ok).
    if hasKey P (entries t) l then tableGood P t' \<and> entries t' = entries t \<and> ok
    else addedIf P (entries t) x t' ok \<and> (canGrow v t \<longrightarrow> ok))"
    (is "runs _ v never ?Q")
proof -
  have live: "isLivePtr p" using prepareHash_live [of P l] by (simp add: isLivePtr_def h)
  have *: "runs (add t' q x) v never ?Q"
    if t': "tableGood P t'" "entries t' = entries t" "mEntryCount t' = mEntryCount t" "addPtrFor P t' l q" and n: "\<not> hasKey P (entries t) l" for t' q
    using n t' by (intro runs_weakenQ [OF add_runs [OF t'(1,4) _ m]]) (auto simp: canGrow_def)
  show ?thesis
  proof (cases "mTable t")
    case None
    have "addPtrFor P t l (p\<lparr>mGeneration := mGen t, mPtrMutationCount := mMutationCount t, mSlot := None\<rparr>)"
      using None h by (simp add: addPtrFor_def ptrFor_def)
    moreover have "\<not> hasKey P (entries t) l" using None by (simp add: hasKey_def)
    ultimately have "runs (add t (p\<lparr>mGeneration := mGen t, mPtrMutationCount := mMutationCount t, mSlot := None\<rparr>) x) v never ?Q"
      by (intro * [OF good refl refl])
    then show ?thesis using None live by (simp add: relookupOrAdd_def)
  next
    case (Some ss)
    note ok = tableGood_ok(1) [OF good]
    have sok: "slotsOk P (mHashShift t) ss" using ok Some by (simp add: tableOk_def)
    have free: "\<exists>i < length ss. isFree (ss ! i)"
      using room_lt [OF tableGood_ok [OF good]] Some sok ok
      by (intro free_exists) (simp add: tableOk_def entries_def rawCapacity_eq slotsOk_def)
    let ?p = "\<lambda>i. p\<lparr>mGeneration := mGen t, mPtrMutationCount := mMutationCount t, mSlot := Some i\<rparr>"
    have eq: "relookupOrAdd P t p l x = bindM (lookupSlot True P t l (prepareHash P l)) (\<lambda>(t, i).
        bindM (found t (?p i)) (\<lambda>b. if b then returnM (t, ?p i, True) else add t (?p i) x))"
      using live Some h by (simp add: relookupOrAdd_def Let_def)
    have step: "runs (bindM (found t' (?p i)) (\<lambda>b. if b then returnM (t', ?p i, True) else add t' (?p i) x)) v never ?Q"
      if t': "t' = t\<lparr>mTable := Some ss'\<rparr>" "raises ss ss'" "searched True P (mHashShift t) ss' l (unat i)" for t' i ss'
    proof -
      have p': "addPtrFor P t' l (?p i)" using t' h by (simp add: addPtrFor_def ptrFor_def)
      have e: "entries t' = entries t" "tableGood P t'" "mEntryCount t' = mEntryCount t"
        using tableOk_raises [OF ok Some t'(2)] good t'(1) by (simp_all add: tableGood_def)
      have "found t' (?p i) = returnM (hasKey P (entries t) l)"
        using p' found_eq [of True P t' l "?p i"] unfolding addPtrFor_def e(1) by blast
      then show ?thesis using * [OF e(2,1,3) p'] e by (cases "hasKey P (entries t) l") simp_all
    qed
    show ?thesis
      unfolding eq
    proof (rule runs_bindM [OF lookupSlot_runs [OF Some refl sok free]])
      fix r :: "'t HashTable \<times> HashNumber" assume r: "case r of (t', i) \<Rightarrow> \<exists>ss'. t' = t\<lparr>mTable := Some ss'\<rparr> \<and> raises ss ss' \<and> (\<not> True \<longrightarrow> ss' = ss) \<and>
        searched True P (mHashShift t) ss' l (unat i)"
      obtain t' i where ti: "r = (t', i)" by (cases r)
      with r obtain ss' where "t' = t\<lparr>mTable := Some ss'\<rparr>" "raises ss ss'" "searched True P (mHashShift t) ss' l (unat i)" by auto
      then show "runs (case r of (t', i) \<Rightarrow> bindM (found t' (?p i)) (\<lambda>b. if b then returnM (t', ?p i, True) else add t' (?p i) x)) v never ?Q"
        unfolding ti prod.case by (rule step)
    qed
  qed
qed

end

section \<open>Removals and new keys\<close>

context open_policy
begin

lemma removePtr_runs:
  assumes good: "tableGood P t" and p: "ptrFor forAdd P t l p" and has: "hasKey P (entries t) l"
  shows "runs (removePtr t p) v never (\<lambda>t'. tableGood P t' \<and>
    entries t' = filter_mset (\<lambda>x. \<not> match P (getKey P x) l) (entries t))"
proof -
  note ok = tableGood_ok(1) [OF good]
  obtain i ss x where i: "mSlot p = Some i" "mTable t = Some ss" "unat i < length ss" "isLive (ss ! unat i)"
    "mEntry (ss ! unat i) = Some x" "match P (getKey P x) l" "mGeneration p = mGen t"
    using p has by (rule ptrFor_entry)
  obtain t' where t': "removeSlot t i = returnM t'" "tableOk P t'" "mTable t' \<noteq> None" "entries t = add_mset x (entries t')"
    "mEntryCount t' + mRemovedCount t' \<le> mEntryCount t + mRemovedCount t" "mHashShift t' = mHashShift t"
    using removeSlot_eq [OF ok i(2-5)] by (metis option.distinct(1))
  have good': "tableGood P t'" using good t' by (auto simp: tableGood_def roomy_def rawCapacity_eq)
  have "keysDiffer P (entries t)" using ok by (simp add: tableOk_def)
  then have "entries t' = filter_mset (\<lambda>x. \<not> match P (getKey P x) l) (entries t)"
    using keysDiffer_unique i(6) t'(4) by simp
  then show ?thesis
    using i t' found_eq [OF p] has runs_weakenQ [OF shrinkIfUnderloaded_runs [OF good' t'(3)]]
    by (simp add: removePtr_def)
qed

lemma rekeyWithoutRehash_runs:
  assumes ok: "tableOk P t" and cap: "mEntryCount t \<le> rawCapacity t" and p: "ptrFor forAdd P t l p" and has: "hasKey P (entries t) l"
    and k: "match P k nl" and new: "\<forall>y \<in># entries t. match P (getKey P y) nl \<longrightarrow> match P (getKey P y) l"
  shows "runs (rekeyWithoutRehash P t p nl k) v never (\<lambda>t'. tableOk P t' \<and> mTable t' \<noteq> None \<and>
    mEntryCount t' = mEntryCount t \<and> mRemovedCount t' \<le> mRemovedCount t + 1 \<and> mHashShift t' = mHashShift t \<and>
    (\<exists>x \<in># entries t. match P (getKey P x) l \<and>
       entries t' = add_mset (setKey P x k) (filter_mset (\<lambda>x. \<not> match P (getKey P x) l) (entries t))))"
proof -
  obtain i ss x where i: "mSlot p = Some i" "mTable t = Some ss" "unat i < length ss" "isLive (ss ! unat i)"
    "mEntry (ss ! unat i) = Some x" "match P (getKey P x) l" "x \<in># entries t" "mGeneration p = mGen t"
    using p has by (rule ptrFor_entry)
  obtain t1 where t1: "removeSlot t i = returnM t1" "tableOk P t1" "mTable t1 \<noteq> None" "entries t = add_mset x (entries t1)"
    "mEntryCount t = Suc (mEntryCount t1)"
    "mEntryCount t1 + mRemovedCount t1 \<le> mEntryCount t + mRemovedCount t" "mHashShift t1 = mHashShift t"
    using removeSlot_eq [OF ok i(2-5)] by (metis option.distinct(1))
  have kd: "keysDiffer P (entries t)" using ok by (simp add: tableOk_def)
  then have e1: "entries t1 = filter_mset (\<lambda>x. \<not> match P (getKey P x) l) (entries t)"
    using keysDiffer_unique i(6) t1(4) by simp
  have d: "derefPtr t p = returnM x"
    using i found_eq [OF p] has by (simp add: derefPtr_def getEntry_def)
  have m: "match P (getKey P (setKey P x k)) nl" using getKey_setKey k match_trans by blast
  have none: "\<forall>y \<in># entries t1. \<not> match P (getKey P y) nl" using new e1 by auto
  have room: "mEntryCount t1 < rawCapacity t1" using cap t1 by (simp add: rawCapacity_eq)
  have eq: "rekeyWithoutRehash P t p nl k = putNewInfallibleInternal P t1 nl (setKey P x k)"
    using i found_eq [OF p] has d t1(1) by (simp add: rekeyWithoutRehash_def)
  show ?thesis
    unfolding eq
  proof (rule runs_weakenQ [OF putNewInfallibleInternal_runs [OF t1(2,3) room m none]])
    fix t' assume a: "added P t1 (setKey P x k) t'"
    then have "entries t' = add_mset (setKey P x k) (filter_mset (\<lambda>x. \<not> match P (getKey P x) l) (entries t))"
      by (simp add: added_def flip: e1)
    then show "tableOk P t' \<and> mTable t' \<noteq> None \<and> mEntryCount t' = mEntryCount t \<and> mRemovedCount t' \<le> mRemovedCount t + 1 \<and>
      mHashShift t' = mHashShift t \<and> (\<exists>x \<in># entries t. match P (getKey P x) l \<and>
       entries t' = add_mset (setKey P x k) (filter_mset (\<lambda>x. \<not> match P (getKey P x) l) (entries t)))"
      using a t1(5-7) i(6,7) unfolding added_def by (intro conjI bexI [of _ x]) simp_all
  qed
qed

lemma rekeyAndMaybeRehash_runs:
  assumes good: "tableGood P t" and p: "ptrFor forAdd P t l p" and has: "hasKey P (entries t) l"
    and k: "match P k nl" and new: "\<forall>y \<in># entries t. match P (getKey P y) nl \<longrightarrow> match P (getKey P y) l"
  shows "runs (rekeyAndMaybeRehash P t p nl k) v never (\<lambda>t'. tableGood P t' \<and>
    (\<exists>x \<in># entries t. match P (getKey P x) l \<and>
       entries t' = add_mset (setKey P x k) (filter_mset (\<lambda>x. \<not> match P (getKey P x) l) (entries t))))"
proof -
  have cap: "mEntryCount t \<le> rawCapacity t" and n: "4 * mEntryCount t \<le> 3 * rawCapacity t"
    using good by (simp_all add: tableGood_def roomy_def)
  show ?thesis
    unfolding rekeyAndMaybeRehash_def
  proof (rule runs_bindM [OF rekeyWithoutRehash_runs [OF tableGood_ok(1) [OF good] cap p has k new]], elim conjE)
    fix t1 assume t1: "tableOk P t1" "mTable t1 \<noteq> None" "mEntryCount t1 = mEntryCount t" "mHashShift t1 = mHashShift t"
      and e: "\<exists>x \<in># entries t. match P (getKey P x) l \<and>
       entries t1 = add_mset (setKey P x k) (filter_mset (\<lambda>x. \<not> match P (getKey P x) l) (entries t))"
    have "4 * mEntryCount t1 \<le> 3 * rawCapacity t1" using n t1 by (simp add: rawCapacity_eq)
    then show "runs (infallibleRehashIfOverloaded t1) v never (\<lambda>t'. tableGood P t' \<and>
      (\<exists>x \<in># entries t. match P (getKey P x) l \<and>
         entries t' = add_mset (setKey P x k) (filter_mset (\<lambda>x. \<not> match P (getKey P x) l) (entries t))))"
      using e by (intro runs_weakenQ [OF infallibleRehash_runs [OF t1(1) _ t1(2)]]) auto
  qed
qed

end

section \<open>All entries at once\<close>

lemma entries_clear [simp]: "entries (clear t) = {#}"
  by (cases "mTable t") (simp_all add: entries_def clear_def liveEntries_def slots_def filter_mset_image_mset comp_def
    clearSlot_def isLive_def isLiveHash_def sFreeKey_def)

lemma clear_good: "tableGood P t \<Longrightarrow> tableGood P (clear t)"
proof -
  assume good: "tableGood P t"
  have "slotsOk P (mHashShift t) (map clearSlot ss)" if "mTable t = Some ss" for ss
    using good that by (auto simp: tableGood_def tableOk_def slotsOk_def clearSlot_def isLive_def isLiveHash_def sFreeKey_def)
  moreover have "removedSlots (slots (clear t)) = 0"
    by (cases "mTable t") (auto simp: clear_def slots_def removedSlots_zero clearSlot_def isRemoved_def sFreeKey_def sRemovedKey_def)
  ultimately have "tableOk P (clear t)"
    using good unfolding tableGood_def tableOk_def entries_clear by (auto simp: clear_def keysDiffer_def)
  moreover have "roomy (clear t)" by (simp add: roomy_def clear_def)
  ultimately show ?thesis by (simp add: tableGood_def)
qed

lemma newHashTable_good:
  assumes "aLen \<le> sMaxInit"
  obtains t where "newHashTable aLen = returnM t" and "tableGood P t" and "entries t = {#}"
proof -
  obtain sh where sh: "hashShift aLen = returnM sh" "2 \<le> sh" "sh \<le> 30" using assms by (rule hashShift_spec)
  show thesis
    by (rule that [of "\<lparr>mGen = 0, mHashShift = sh, mTable = None, mEntryCount = 0, mRemovedCount = 0, mMutationCount = 0\<rparr>"])
      (use sh in \<open>simp_all add: newHashTable_def tableGood_def tableOk_def roomy_def keysDiffer_def\<close>)
qed

lemma compact_runs:
  assumes good: "tableGood P t" and n: "mEntryCount t \<le> sMaxInit"
  shows "runs (compact t) v never (\<lambda>t'. tableGood P t' \<and> entries t' = entries t)"
proof (cases "mEntryCount t = 0")
  case True
  obtain sh where sh: "hashShift 0 = returnM sh" "2 \<le> sh" "sh \<le> 30" by (rule hashShift_spec [of 0]) simp
  then show ?thesis using True good
    by (simp add: compact_def tableEmpty_def tableGood_def tableOk_def roomy_def keysDiffer_def)
next
  case False
  note ok = tableGood_ok(1) [OF good]
  have some: "mTable t \<noteq> None" using False tableOk_None [OF ok] by auto
  obtain s where s: "bestCapacity (mEntryCount t) = returnM (2 ^ s)" "2 \<le> s" "s \<le> 30" "4 * mEntryCount t \<le> 3 * 2 ^ s"
    "s = 2 \<or> 3 * 2 ^ (s - 1) < 4 * mEntryCount t" using n by (rule bestCapacity_spec)
  obtain s0 where s0: "rawCapacity t = 2 ^ s0" "2 \<le> s0" using ok by (rule rawCapacity_cases)
  have "s \<le> s0"
  proof (rule ccontr)
    assume "\<not> s \<le> s0"
    then have "(2 :: nat) ^ s0 \<le> 2 ^ (s - 1)" by (intro power_increasing) auto
    moreover have "s \<noteq> 2" using \<open>\<not> s \<le> s0\<close> s0 by auto
    ultimately show False using s(5) roomy_entries [OF tableGood_ok(2) [OF good]] s0 by linarith
  qed
  then have le: "2 ^ s \<le> capacity t" using s0 capacity_Some [OF some] by (simp add: power_increasing)
  have "mEntryCount t < 2 ^ s" using s(4) False by auto
  then have "runs (bindM (changeTableSize t (2 ^ s)) (\<lambda>(t, status). returnM t)) v never (\<lambda>t'. tableGood P t' \<and> entries t' = entries t)"
    using s good by (intro runs_bindM [OF changeTableSize_runs [OF ok]]) (auto simp: resized_def tableGood_def roomy_def)
  then show ?thesis using False le good s(1) by (simp add: compact_def tableEmpty_def)
qed

lemma clearAndCompact_runs:
  "tableGood P t \<Longrightarrow> runs (clearAndCompact t) v never (\<lambda>t'. tableGood P t' \<and> entries t' = {#})"
  using compact_runs [OF clear_good, of P t v] unfolding clearAndCompact_def entries_clear by (simp add: clear_def)

lemma reserve_runs:
  assumes good: "tableGood P t"
  shows "runs (reserve t aLen) v never (\<lambda>(t', ok). tableGood P t' \<and> entries t' = entries t \<and>
    (ok \<longrightarrow> aLen \<le> sMaxInit \<and> 4 * aLen \<le> 3 * capacity t') \<and> ((\<forall>k. allocOk v k) \<and> aLen \<le> sMaxInit \<longrightarrow> ok))"
proof (cases "aLen = 0 \<or> aLen > sMaxInit")
  case True
  then show ?thesis using good by (auto simp: reserve_def)
next
  case False
  note ok = tableGood_ok(1) [OF good]
  obtain s where s: "bestCapacity aLen = returnM (2 ^ s)" "2 \<le> s" "s \<le> 30" "4 * aLen \<le> 3 * 2 ^ s"
    using False bestCapacity_spec [of aLen] by (metis not_less)
  show ?thesis
  proof (cases "2 ^ s \<le> capacity t")
    case True
    then show ?thesis using False good s by (auto simp: reserve_def)
  next
    case less: False
    have n: "mEntryCount t < 2 ^ s"
    proof (cases "mTable t = None")
      case True
      then show ?thesis using tableOk_None [OF ok] by simp
    next
      case False
      then show ?thesis using less room_lt [OF tableGood_ok [OF good]] by (simp add: capacity_Some)
    qed
    have n3: "4 * mEntryCount t \<le> 3 * 2 ^ s"
    proof (cases "mTable t = None")
      case True
      then show ?thesis using tableOk_None [OF ok] by simp
    next
      case False
      then show ?thesis using less roomy_entries [OF tableGood_ok(2) [OF good]] by (simp add: capacity_Some)
    qed
    have eq: "reserve t aLen = bindM (changeTableSize t (2 ^ s)) (\<lambda>(t, status).
        mozAssert (status \<noteq> NotOverloaded) (returnM (t, status \<noteq> RehashFailed)))"
      using False less s by (simp add: reserve_def)
    show ?thesis
      unfolding eq using s good n3 \<open>\<not> (aLen = 0 \<or> aLen > sMaxInit)\<close>
      by (intro runs_bindM [OF changeTableSize_runs [OF ok _ _ n]])
        (auto simp: resized_def tableGood_def roomy_def capacity_Some)
  qed
qed


end
