(* ===== verification/HashMap.thy ===== *)
theory HashMap
  imports HashTable_Ops
begin

text \<open>
  \<open>HashMap\<close> and \<open>HashSet\<close> of \<open>mfbt/HashTable.h\<close> over the hash table, with the hash policies of the header, and a
  map as what programs over a \<open>HashMap\<close> see.  Keys and lookups have the same type, and a policy is a \<open>Hasher\<close>.
\<close>

section \<open>Hash policies\<close>

record 'k Hasher =
  hashKey :: "'k \<Rightarrow> HashNumber"
  matchKey :: "'k \<Rightarrow> 'k \<Rightarrow> bool"
  rekeyKey :: "'k \<Rightarrow> 'k \<Rightarrow> 'k"

definition MapHashPolicy :: "'k Hasher \<Rightarrow> ('k \<times> 'v, 'k) HashPolicy" where
  "MapHashPolicy H = \<lparr>hash = hashKey H, match = matchKey H, getKey = fst, setKey = (\<lambda>(k, v) k'. (rekeyKey H k k', v))\<rparr>"

definition SetHashPolicy :: "'k Hasher \<Rightarrow> ('k, 'k) HashPolicy" where
  "SetHashPolicy H = \<lparr>hash = hashKey H, match = matchKey H, getKey = (\<lambda>x. x), setKey = rekeyKey H\<rparr>"


definition DoubleHasher :: "u64 Hasher" where
  "DoubleHasher = \<lparr>hashKey = (\<lambda>u. ucast (u XOR drop_bit 32 u)), matchKey = (=), rekeyKey = (\<lambda>aKey aNewKey. aNewKey)\<rparr>"

definition FloatHasher :: "u32 Hasher" where
  "FloatHasher = \<lparr>hashKey = (\<lambda>u. u), matchKey = (=), rekeyKey = (\<lambda>aKey aNewKey. aNewKey)\<rparr>"

locale hasher =
  fixes H :: "'k Hasher"
  assumes matchKey_refl: "matchKey H k k"
    and matchKey_sym: "matchKey H k l \<Longrightarrow> matchKey H l k"
    and matchKey_trans: "matchKey H k l \<Longrightarrow> matchKey H l m \<Longrightarrow> matchKey H k m"
    and matchKey_hash: "matchKey H k l \<Longrightarrow> hashKey H k = hashKey H l"
    and matchKey_rekey: "matchKey H (rekeyKey H k l) l"
begin

lemma MapHashPolicy_laws: "open_policy (MapHashPolicy H)"
  by unfold_locales (auto simp: MapHashPolicy_def intro: matchKey_refl matchKey_sym matchKey_trans matchKey_hash matchKey_rekey)

lemma SetHashPolicy_laws: "open_policy (SetHashPolicy H)"
  by unfold_locales (auto simp: SetHashPolicy_def intro: matchKey_refl matchKey_sym matchKey_trans matchKey_hash matchKey_rekey)

end

sublocale hasher \<subseteq> map: open_policy "MapHashPolicy H :: ('k \<times> 'v, 'k) HashPolicy"
  by (rule MapHashPolicy_laws)

sublocale hasher \<subseteq> set: open_policy "SetHashPolicy H"
  by (rule SetHashPolicy_laws)


interpretation double_hasher: hasher DoubleHasher
  by unfold_locales (auto simp: DoubleHasher_def)

interpretation float_hasher: hasher FloatHasher
  by unfold_locales (auto simp: FloatHasher_def)

section \<open>HashMap\<close>

type_synonym ('k, 'v) hashmap = "('k \<times> 'v) HashTable"

definition mapHas :: "'k Hasher \<Rightarrow> ('k, 'v) hashmap \<Rightarrow> 'k \<Rightarrow> bool eng" where
  "mapHas H t aLookup = bindM (tableLookup (MapHashPolicy H) t aLookup) (found t)"

text \<open>\<open>if (Ptr p = map.lookup(k)) \<dots> p->value()\<close>, as clients read a map.\<close>

definition mapGet :: "'k Hasher \<Rightarrow> ('k, 'v) hashmap \<Rightarrow> 'k \<Rightarrow> 'v option eng" where
  "mapGet H t aLookup =
     bindM (tableLookup (MapHashPolicy H) t aLookup) (\<lambda>p. bindM (found t p) (\<lambda>b.
     if b then bindM (derefPtr t p) (\<lambda>x. returnM (Some (snd x))) else returnM None))"

text \<open>\<open>p->value() = v\<close>\<close>

definition setValue :: "('k, 'v) hashmap \<Rightarrow> 'z Ptr_scheme \<Rightarrow> 'v \<Rightarrow> ('k, 'v) hashmap eng" where
  "setValue t p v =
     bindM (derefPtr t p) (\<lambda>x. case mSlot p of None \<Rightarrow> throwM UndefinedBehavior
       | Some i \<Rightarrow> bindM (slotForIndex t i) (\<lambda>s. setSlot t i (s\<lparr>mEntry := Some (fst x, v)\<rparr>)))"

definition mapPut :: "'k Hasher \<Rightarrow> ('k, 'v) hashmap \<Rightarrow> 'k \<Rightarrow> 'v \<Rightarrow> (('k, 'v) hashmap \<times> bool) eng" where
  "mapPut H t aKey aValue =
     bindM (lookupForAdd (MapHashPolicy H) t aKey) (\<lambda>(t, p). bindM (found t p) (\<lambda>b.
     if b then bindM (setValue t p aValue) (\<lambda>t. returnM (t, True))
     else bindM (add t p (aKey, aValue)) (\<lambda>(t, p, ok). returnM (t, ok))))"

definition mapPutNew :: "'k Hasher \<Rightarrow> ('k, 'v) hashmap \<Rightarrow> 'k \<Rightarrow> 'v \<Rightarrow> (('k, 'v) hashmap \<times> bool) eng" where
  "mapPutNew H t aKey aValue = putNew (MapHashPolicy H) t aKey (aKey, aValue)"

definition mapRemove :: "'k Hasher \<Rightarrow> ('k, 'v) hashmap \<Rightarrow> 'k \<Rightarrow> ('k, 'v) hashmap eng" where
  "mapRemove H t aLookup =
     bindM (tableLookup (MapHashPolicy H) t aLookup) (\<lambda>p. bindM (found t p) (\<lambda>b.
     if b then removePtr t p else returnM t))"

definition mapRekeyAs :: "'k Hasher \<Rightarrow> ('k, 'v) hashmap \<Rightarrow> 'k \<Rightarrow> 'k \<Rightarrow> 'k \<Rightarrow> (('k, 'v) hashmap \<times> bool) eng" where
  "mapRekeyAs H t aOldLookup aNewLookup aNewKey =
     bindM (tableLookup (MapHashPolicy H) t aOldLookup) (\<lambda>p. bindM (found t p) (\<lambda>b.
     if b then bindM (rekeyAndMaybeRehash (MapHashPolicy H) t p aNewLookup aNewKey) (\<lambda>t. returnM (t, True))
     else returnM (t, False)))"

definition mapRekeyIfMoved :: "'k Hasher \<Rightarrow> ('k, 'v) hashmap \<Rightarrow> 'k \<Rightarrow> 'k \<Rightarrow> ('k, 'v) hashmap eng" where
  "mapRekeyIfMoved H t aOldKey aNewKey =
     (if aOldKey \<noteq> aNewKey then bindM (mapRekeyAs H t aOldKey aNewKey aNewKey) (\<lambda>(t, b). returnM t) else returnM t)"

section \<open>HashSet\<close>

definition setHas :: "'k Hasher \<Rightarrow> 'k HashTable \<Rightarrow> 'k \<Rightarrow> bool eng" where
  "setHas H t aLookup = bindM (tableLookup (SetHashPolicy H) t aLookup) (found t)"

definition setPut :: "'k Hasher \<Rightarrow> 'k HashTable \<Rightarrow> 'k \<Rightarrow> ('k HashTable \<times> bool) eng" where
  "setPut H t aU =
     bindM (lookupForAdd (SetHashPolicy H) t aU) (\<lambda>(t, p). bindM (found t p) (\<lambda>b.
     if b then returnM (t, True) else bindM (add t p aU) (\<lambda>(t, p, ok). returnM (t, ok))))"

definition setRemove :: "'k Hasher \<Rightarrow> 'k HashTable \<Rightarrow> 'k \<Rightarrow> 'k HashTable eng" where
  "setRemove H t aLookup =
     bindM (tableLookup (SetHashPolicy H) t aLookup) (\<lambda>p. bindM (found t p) (\<lambda>b.
     if b then removePtr t p else returnM t))"

section \<open>What a map is\<close>

definition represents :: "'k Hasher \<Rightarrow> ('k \<times> 'v) multiset \<Rightarrow> ('k \<Rightarrow> 'v option) \<Rightarrow> bool" where
  "represents H M m \<longleftrightarrow> (\<forall>l v. m l = Some v \<longleftrightarrow> (\<exists>x \<in># M. matchKey H (fst x) l \<and> snd x = v))"

definition mapIs :: "'k Hasher \<Rightarrow> ('k, 'v) hashmap \<Rightarrow> ('k \<Rightarrow> 'v option) \<Rightarrow> bool" where
  "mapIs H t m \<longleftrightarrow> tableGood (MapHashPolicy H) t \<and> represents H (entries t) m"

text \<open>The map with a key set, without a key, and with a key in place of another.\<close>

definition mapSet :: "'k Hasher \<Rightarrow> 'k \<Rightarrow> 'v \<Rightarrow> ('k \<Rightarrow> 'v option) \<Rightarrow> 'k \<Rightarrow> 'v option" where
  "mapSet H k v m = (\<lambda>l. if matchKey H k l then Some v else m l)"

definition mapUnset :: "'k Hasher \<Rightarrow> 'k \<Rightarrow> ('k \<Rightarrow> 'v option) \<Rightarrow> 'k \<Rightarrow> 'v option" where
  "mapUnset H k m = (\<lambda>l. if matchKey H k l then None else m l)"

lemma MapHashPolicy_simps [simp]:
  "match (MapHashPolicy H) = matchKey H" "getKey (MapHashPolicy H) = fst" "setKey (MapHashPolicy H) x k = (rekeyKey H (fst x) k, snd x)"
  by (simp_all add: MapHashPolicy_def split: prod.splits)

lemma SetHashPolicy_simps [simp]: "match (SetHashPolicy H) = matchKey H" "getKey (SetHashPolicy H) x = x"
  by (simp_all add: SetHashPolicy_def)

lemma representsD: "represents H M m \<Longrightarrow> x \<in># M \<Longrightarrow> matchKey H (fst x) l \<Longrightarrow> m l = Some (snd x)"
  unfolding represents_def by blast

lemma representsE:
  assumes "represents H M m" and "m l \<noteq> None"
  obtains x where "x \<in># M" and "matchKey H (fst x) l" and "m l = Some (snd x)"
  using assms unfolding represents_def by blast

lemma represents_hasKey: "represents H M m \<Longrightarrow> hasKey (MapHashPolicy H) M l \<longleftrightarrow> m l \<noteq> None"
  unfolding represents_def hasKey_def by (metis MapHashPolicy_simps(1,2) not_None_eq)

context hasher
begin

lemma matchKey_comm: "matchKey H k l \<longleftrightarrow> matchKey H l k"
  using matchKey_sym by blast

lemma represents_add:
  assumes r: "represents H M m" and new: "m k = None" and k: "matchKey H k' k"
  shows "represents H (add_mset (k', v) M) (mapSet H k v m)"
proof -
  have "matchKey H k' l \<longleftrightarrow> matchKey H k l" for l using k matchKey_sym matchKey_trans by blast
  moreover have "\<not> matchKey H (fst x) l" if "x \<in># M" "matchKey H k l" for x l
  proof
    assume "matchKey H (fst x) l"
    then have "matchKey H (fst x) k" using that(2) matchKey_sym matchKey_trans by blast
    then have "m k = Some (snd x)" using r that(1) by (auto simp: represents_def)
    then show False using new by simp
  qed
  ultimately show ?thesis using r by (auto simp: represents_def mapSet_def)
qed

lemma represents_filter:
  assumes r: "represents H M m"
  shows "represents H (filter_mset (\<lambda>x. \<not> matchKey H (fst x) k) M) (mapUnset H k m)"
proof -
  have "matchKey H (fst x) k \<longleftrightarrow> matchKey H k l" if "matchKey H (fst x) l" for x :: "'k \<times> 'v" and l
    using that matchKey_sym matchKey_trans by blast
  then show ?thesis using r by (fastforce simp: represents_def mapUnset_def)
qed

end

section \<open>Operations on the map\<close>

context hasher
begin

lemma setValue_runs:
  fixes t :: "('k, 'v) hashmap"
  assumes good: "tableGood (MapHashPolicy H) t" and p: "ptrFor forAdd (MapHashPolicy H) t l p"
    and has: "hasKey (MapHashPolicy H) (entries t) l"
  shows "runs (setValue t p v) env never (\<lambda>t'. tableGood (MapHashPolicy H) t' \<and> (\<exists>k. matchKey H k l \<and>
    entries t' = add_mset (k, v) (filter_mset (\<lambda>x. \<not> matchKey H (fst x) l) (entries t))))"
proof -
  let ?P = "MapHashPolicy H :: ('k \<times> 'v, 'k) HashPolicy"
  obtain i ss x where i: "mSlot p = Some i" "mTable t = Some ss" "unat i < length ss" "isLive (ss ! unat i)"
    "mEntry (ss ! unat i) = Some x" "match ?P (getKey ?P x) l" "x \<in># entries t" "mGeneration p = mGen t"
    using p has by (rule ptrFor_entry)
  let ?t = "t\<lparr>mTable := Some (ss[unat i := (ss ! unat i)\<lparr>mEntry := Some (fst x, v)\<rparr>])\<rparr>"
  have same: "match ?P (getKey ?P x) (getKey ?P (fst x, v))" by (simp add: matchKey_refl)
  note r = map.replace_entry [OF good i(2-5) same]
  obtain M where M: "entries t = add_mset x M" using i(7) by (auto dest: multi_member_split)
  have "keysDiffer ?P (add_mset x M)" using good M by (simp add: tableGood_def tableOk_def)
  then have "filter_mset (\<lambda>y. \<not> matchKey H (fst y) l) (entries t) = M"
    using map.keysDiffer_unique [of x M l] i(6) M by simp
  moreover have "setValue t p v = returnM ?t"
    using i found_eq [OF p] has by (simp add: setValue_def derefPtr_def getEntry_def)
  ultimately show ?thesis using r M i(6) by auto
qed

lemma addedIf_mapIs:
  fixes t' :: "('k, 'v) hashmap"
  assumes a: "addedIf (MapHashPolicy H) M (k, v) t' ok" and r: "represents H M m" and new: "m k = None"
  shows "mapIs H t' (if ok then mapSet H k v m else m) \<and> size (entries t') \<le> size M + 1"
  using a represents_add [where k' = k and k = k, OF r new matchKey_refl] r by (auto simp: addedIf_def mapIs_def)

lemma mapHas_runs:
  fixes t :: "('k, 'v) hashmap"
  assumes mi: "mapIs H t m"
  shows "runs (mapHas H t l) env never (\<lambda>b. b \<longleftrightarrow> m l \<noteq> None)"
  unfolding mapHas_def
proof (rule runs_bindM [OF map.tableLookup_runs])
  show "tableGood (MapHashPolicy H) t" using mi by (simp add: mapIs_def)
next
  fix p :: Ptr assume p: "ptrFor False (MapHashPolicy H) t l p"
  show "runs (found t p) env never (\<lambda>b. b \<longleftrightarrow> m l \<noteq> None)"
    using represents_hasKey [of H "entries t" m] mi by (simp add: found_eq [OF p] mapIs_def)
qed

lemma mapGet_runs:
  fixes t :: "('k, 'v) hashmap"
  assumes mi: "mapIs H t m"
  shows "runs (mapGet H t l) env never (\<lambda>r. r = m l)"
  unfolding mapGet_def
proof (rule runs_bindM [OF map.tableLookup_runs])
  show "tableGood (MapHashPolicy H) t" using mi by (simp add: mapIs_def)
next
  fix p :: Ptr assume p: "ptrFor False (MapHashPolicy H) t l p"
  have f: "found t p = returnM (m l \<noteq> None)" using represents_hasKey [of H "entries t" m] mi by (simp add: found_eq [OF p] mapIs_def)
  show "runs (bindM (found t p) (\<lambda>b. if b then bindM (derefPtr t p) (\<lambda>x. returnM (Some (snd x))) else returnM None)) env never
    (\<lambda>r. r = m l)"
  proof (cases "m l = None")
    case True
    then show ?thesis by (simp add: f)
  next
    case False
    then have "hasKey (MapHashPolicy H) (entries t) l" using represents_hasKey [of H "entries t" m] mi by (simp add: mapIs_def)
    then obtain x where x: "derefPtr t p = returnM x" "x \<in># entries t" "matchKey H (fst x) l"
      by (rule derefPtr_eq [OF p, unfolded MapHashPolicy_simps])
    have "represents H (entries t) m" using mi by (simp add: mapIs_def)
    then have "m l = Some (snd x)" using x(2) x(3) by (rule representsD)
    then have "found t p = returnM True" using f by simp
    then show ?thesis using \<open>m l = Some (snd x)\<close> x(1) by (simp only: bindM_returnM if_True runs_returnM)
  qed
qed

lemma mapPut_runs:
  fixes t :: "('k, 'v) hashmap"
  assumes mi: "mapIs H t m"
  shows "runs (mapPut H t k v) env never (\<lambda>(t', ok). mapIs H t' (if ok then mapSet H k v m else m) \<and>
    (m k \<noteq> None \<or> canGrow env t \<longrightarrow> ok) \<and> size (entries t') \<le> size (entries t) + 1)"
  unfolding mapPut_def
proof (rule runs_bindM [OF map.lookupForAdd_runs])
  show "tableGood (MapHashPolicy H) t" using mi by (simp add: mapIs_def)
next
  let ?Q = "\<lambda>(t', ok). mapIs H t' (if ok then mapSet H k v m else m) \<and> (m k \<noteq> None \<or> canGrow env t \<longrightarrow> ok) \<and>
    size (entries t') \<le> size (entries t) + 1"
  fix r :: "('k, 'v) hashmap \<times> AddPtr"
  assume r: "case r of (t', p) \<Rightarrow> tableGood (MapHashPolicy H) t' \<and> entries t' = entries t \<and> addPtrFor (MapHashPolicy H) t' k p \<and>
    rawCapacity t' = rawCapacity t \<and> mEntryCount t' = mEntryCount t"
  obtain t' p where tp: "r = (t', p)" by (cases r)
  have t': "tableGood (MapHashPolicy H) t'" "entries t' = entries t" "addPtrFor (MapHashPolicy H) t' k p"
    and n: "mEntryCount t' = mEntryCount t" using r tp by auto
  have p: "ptrFor True (MapHashPolicy H) t' k p" using t'(3) by (simp add: addPtrFor_def)
  have rep: "represents H (entries t) m" using mi by (simp add: mapIs_def)
  have f: "found t' p = returnM (m k \<noteq> None)" by (simp add: found_eq [OF p] t'(2) represents_hasKey [OF rep])
  have "runs (if m k \<noteq> None then bindM (setValue t' p v) (\<lambda>t. returnM (t, True))
      else bindM (add t' p (k, v)) (\<lambda>(t, p, ok). returnM (t, ok))) env never ?Q"
  proof (cases "m k = None")
    case False
    then have has: "hasKey (MapHashPolicy H) (entries t') k" using t'(2) by (simp add: represents_hasKey [OF rep])
    have "mapIs H t'' (mapSet H k v m) \<and> size (entries t'') \<le> size (entries t) + 1"
      if t'': "tableGood (MapHashPolicy H) t''" and k': "matchKey H k' k"
        "entries t'' = add_mset (k', v) (filter_mset (\<lambda>x. \<not> matchKey H (fst x) k) (entries t'))" for t'' k'
    proof -
      have "represents H (entries t'') (mapSet H k v (mapUnset H k m))"
        unfolding k'(2) t'(2) by (rule represents_add [OF represents_filter [OF rep] _ k'(1)]) (simp add: mapUnset_def matchKey_refl)
      moreover have "mapSet H k v (mapUnset H k m) = mapSet H k v m" by (auto simp: mapSet_def mapUnset_def fun_eq_iff)
      ultimately show ?thesis using t'' k'(2) t'(2) by (simp add: mapIs_def size_filter_mset_lesseq)
    qed
    then show ?thesis using False by (auto intro!: runs_bindM [OF setValue_runs [OF t'(1) p has]])
  next
    case True
    then have new: "\<not> hasKey (MapHashPolicy H) (entries t') k" using t'(2) by (simp add: represents_hasKey [OF rep])
    have "match (MapHashPolicy H) (getKey (MapHashPolicy H) (k, v)) k" by (simp add: matchKey_refl)
    note a = map.add_runs [OF t'(1,3) new this]
    have "runs (bindM (add t' p (k, v)) (\<lambda>(t, p, ok). returnM (t, ok))) env never ?Q"
    proof (rule runs_bindM [OF a], clarify)
      fix t'' p' ok
      assume "addedIf (MapHashPolicy H) (entries t') (k, v) t'' ok" and g: "canGrow env t' \<longrightarrow> ok"
      from addedIf_mapIs [OF this(1), of m] show "runs (returnM (t'', ok)) env never ?Q"
        using rep t'(2) True g n by (auto simp: canGrow_def)
    qed
    then show ?thesis using True by simp
  qed
  then show "runs (case r of (t, p) \<Rightarrow> bindM (found t p) (\<lambda>b. if b then bindM (setValue t p v) (\<lambda>t. returnM (t, True))
     else bindM (add t p (k, v)) (\<lambda>(t, p, ok). returnM (t, ok)))) env never ?Q"
    by (simp add: tp f)
qed

lemma mapPutNew_runs:
  fixes t :: "('k, 'v) hashmap"
  assumes mi: "mapIs H t m" and new: "m k = None"
  shows "runs (mapPutNew H t k v) env never (\<lambda>(t', ok). mapIs H t' (if ok then mapSet H k v m else m) \<and>
    (canGrow env t \<longrightarrow> ok) \<and> size (entries t') \<le> size (entries t) + 1)"
proof -
  have good: "tableGood (MapHashPolicy H) t" and rep: "represents H (entries t) m" using mi by (simp_all add: mapIs_def)
  have n: "\<not> hasKey (MapHashPolicy H) (entries t) k" using new by (simp add: represents_hasKey [OF rep])
  have k: "match (MapHashPolicy H) (getKey (MapHashPolicy H) (k, v)) k" by (simp add: matchKey_refl)
  show ?thesis
    unfolding mapPutNew_def
  proof (rule runs_weakenQ [OF map.putNew_runs [OF good n k]], clarify)
    fix t' ok
    assume "addedIf (MapHashPolicy H) (entries t) (k, v) t' ok" and "canGrow env t \<longrightarrow> ok"
    then show "mapIs H t' (if ok then mapSet H k v m else m) \<and> (canGrow env t \<longrightarrow> ok) \<and> size (entries t') \<le> size (entries t) + 1"
      using addedIf_mapIs [OF _ rep new, of v t' ok] by simp
  qed
qed

lemma mapRemove_runs:
  fixes t :: "('k, 'v) hashmap"
  assumes mi: "mapIs H t m"
  shows "runs (mapRemove H t k) env never (\<lambda>t'. mapIs H t' (mapUnset H k m) \<and> size (entries t') \<le> size (entries t))"
  unfolding mapRemove_def
proof (rule runs_bindM [OF map.tableLookup_runs])
  show good: "tableGood (MapHashPolicy H) t" using mi by (simp add: mapIs_def)
  have rep: "represents H (entries t) m" using mi by (simp add: mapIs_def)
  fix p :: Ptr assume p: "ptrFor False (MapHashPolicy H) t k p"
  have f: "found t p = returnM (m k \<noteq> None)" using rep by (simp add: found_eq [OF p] represents_hasKey [OF rep])
  show "runs (bindM (found t p) (\<lambda>b. if b then removePtr t p else returnM t)) env never
    (\<lambda>t'. mapIs H t' (mapUnset H k m) \<and> size (entries t') \<le> size (entries t))"
  proof (cases "m k = None")
    case True
    have "mapUnset H k m = m"
    proof
      fix l
      have "m l = None" if "matchKey H k l"
      proof (rule ccontr)
        assume "m l \<noteq> None"
        then obtain x where x: "x \<in># entries t" "matchKey H (fst x) l" using rep by (elim representsE)
        then have "matchKey H (fst x) k" using that matchKey_sym matchKey_trans by blast
        then have "m k = Some (snd x)" using representsD [OF rep x(1)] by blast
        then show False using True by simp
      qed
      then show "mapUnset H k m l = m l" by (simp add: mapUnset_def)
    qed
    then show ?thesis using True f mi by simp
  next
    case False
    then have has: "hasKey (MapHashPolicy H) (entries t) k" by (simp add: represents_hasKey [OF rep])
    show ?thesis
      using False f represents_filter [OF rep] by (auto simp: mapIs_def size_filter_mset_lesseq intro!: runs_weakenQ [OF map.removePtr_runs [OF good p has]])
  qed
qed

lemma mapRekeyAs_runs:
  fixes t :: "('k, 'v) hashmap"
  assumes mi: "mapIs H t m" and new: "m k = None \<or> matchKey H old k"
  shows "runs (mapRekeyAs H t old k k) env never (\<lambda>(t', b).
    mapIs H t' (case m old of None \<Rightarrow> m | Some v \<Rightarrow> mapSet H k v (mapUnset H old m)) \<and>
    b = (m old \<noteq> None) \<and> size (entries t') \<le> size (entries t))"
  unfolding mapRekeyAs_def
proof (rule runs_bindM [OF map.tableLookup_runs])
  show good: "tableGood (MapHashPolicy H) t" using mi by (simp add: mapIs_def)
  have rep: "represents H (entries t) m" using mi by (simp add: mapIs_def)
  fix p :: Ptr assume p: "ptrFor False (MapHashPolicy H) t old p"
  have f: "found t p = returnM (m old \<noteq> None)" using rep by (simp add: found_eq [OF p] represents_hasKey [OF rep])
  let ?Q = "\<lambda>(t', b). mapIs H t' (case m old of None \<Rightarrow> m | Some v \<Rightarrow> mapSet H k v (mapUnset H old m)) \<and>
    b = (m old \<noteq> None) \<and> size (entries t') \<le> size (entries t)"
  show "runs (bindM (found t p) (\<lambda>b. if b then bindM (rekeyAndMaybeRehash (MapHashPolicy H) t p k k) (\<lambda>t. returnM (t, True))
      else returnM (t, False))) env never ?Q"
  proof (cases "m old = None")
    case True
    then show ?thesis using f mi by simp
  next
    case False
    then have has: "hasKey (MapHashPolicy H) (entries t) old" by (simp add: represents_hasKey [OF rep])
    have new': "\<forall>y \<in># entries t. match (MapHashPolicy H) (getKey (MapHashPolicy H) y) k \<longrightarrow>
        match (MapHashPolicy H) (getKey (MapHashPolicy H) y) old"
      using new rep matchKey_sym matchKey_trans unfolding represents_def MapHashPolicy_simps by (metis option.distinct(1))
    have kk: "match (MapHashPolicy H :: ('k \<times> 'v, 'k) HashPolicy) k k" by (simp add: matchKey_refl)
    have fin: "mapIs H t' (case m old of None \<Rightarrow> m | Some v \<Rightarrow> mapSet H k v (mapUnset H old m)) \<and> size (entries t') \<le> size (entries t)"
      if g: "tableGood (MapHashPolicy H) t'" and x: "x \<in># entries t" "matchKey H (fst x) old"
        and e: "entries t' = add_mset (rekeyKey H (fst x) k, snd x) (filter_mset (\<lambda>x. \<not> matchKey H (fst x) old) (entries t))" for t' x
    proof -
      have "mapUnset H old m k = None" using new by (auto simp: mapUnset_def)
      then have "represents H (entries t') (mapSet H k (snd x) (mapUnset H old m))"
        unfolding e by (rule represents_add [OF represents_filter [OF rep] _ matchKey_rekey])
      moreover have "m old = Some (snd x)" by (rule representsD [OF rep x])
      moreover have "size (filter_mset (\<lambda>x. \<not> matchKey H (fst x) old) (entries t)) < size (entries t)"
        using x size_filter_unsat_elem [of x "entries t"] by simp
      ultimately show ?thesis using g e by (simp add: mapIs_def)
    qed
    show ?thesis
      using False f fin by (auto intro!: runs_bindM [OF map.rekeyAndMaybeRehash_runs [OF good p has kk new']])
  qed
qed

lemma clear_mapIs: "mapIs H t m \<Longrightarrow> mapIs H (clear t) (\<lambda>l. None)"
  by (auto simp: mapIs_def clear_good represents_def)

end


section \<open>Programs over a map\<close>

datatype ('k, 'v) mapOp =
    Put 'k 'v
  | PutNew 'k 'v
  | Get 'k
  | Has 'k
  | Remove 'k
  | RekeyAs 'k 'k
  | Clear
  | ClearAndCompact
  | Reserve nat

datatype 'v mapReply = Finished | Answer bool | Value "'v option"

fun runOp :: "'k Hasher \<Rightarrow> ('k, 'v) hashmap \<Rightarrow> ('k, 'v) mapOp \<Rightarrow> (('k, 'v) hashmap \<times> 'v mapReply) eng" where
  "runOp H t (Put k v) = bindM (mapPut H t k v) (\<lambda>(t, ok). returnM (t, Answer ok))"
| "runOp H t (PutNew k v) = bindM (mapPutNew H t k v) (\<lambda>(t, ok). returnM (t, Answer ok))"
| "runOp H t (Get k) = bindM (mapGet H t k) (\<lambda>r. returnM (t, Value r))"
| "runOp H t (Has k) = bindM (mapHas H t k) (\<lambda>b. returnM (t, Answer b))"
| "runOp H t (Remove k) = bindM (mapRemove H t k) (\<lambda>t. returnM (t, Finished))"
| "runOp H t (RekeyAs old k) = bindM (mapRekeyAs H t old k k) (\<lambda>(t, b). returnM (t, Answer b))"
| "runOp H t Clear = returnM (clear t, Finished)"
| "runOp H t ClearAndCompact = bindM (clearAndCompact t) (\<lambda>t. returnM (t, Finished))"
| "runOp H t (Reserve n) = bindM (reserve t n) (\<lambda>(t, ok). returnM (t, Answer ok))"

fun runOps :: "'k Hasher \<Rightarrow> ('k, 'v) hashmap \<Rightarrow> ('k, 'v) mapOp list \<Rightarrow> (('k, 'v) hashmap \<times> 'v mapReply list) eng" where
  "runOps H t [] = returnM (t, [])"
| "runOps H t (p # ps) = bindM (runOp H t p) (\<lambda>(t, r). bindM (runOps H t ps) (\<lambda>(t, rs). returnM (t, r # rs)))"

text \<open>The same operations on a map; the flag says whether an insertion or a reservation gets the memory it needs.\<close>

fun specOp :: "'k Hasher \<Rightarrow> ('k \<Rightarrow> 'v option) \<Rightarrow> bool \<Rightarrow> ('k, 'v) mapOp \<Rightarrow> ('k \<Rightarrow> 'v option) \<times> 'v mapReply" where
  "specOp H m ok (Put k v) = (if m k \<noteq> None \<or> ok then (mapSet H k v m, Answer True) else (m, Answer False))"
| "specOp H m ok (PutNew k v) = (if ok then (mapSet H k v m, Answer True) else (m, Answer False))"
| "specOp H m ok (Get k) = (m, Value (m k))"
| "specOp H m ok (Has k) = (m, Answer (m k \<noteq> None))"
| "specOp H m ok (Remove k) = (mapUnset H k m, Finished)"
| "specOp H m ok (RekeyAs old k) =
     (case m old of None \<Rightarrow> (m, Answer False) | Some v \<Rightarrow> (mapSet H k v (mapUnset H old m), Answer True))"
| "specOp H m ok Clear = ((\<lambda>l. None), Finished)"
| "specOp H m ok ClearAndCompact = ((\<lambda>l. None), Finished)"
| "specOp H m ok (Reserve n) = (m, Answer (ok \<and> n \<le> sMaxInit))"

fun specOps :: "'k Hasher \<Rightarrow> ('k \<Rightarrow> 'v option) \<Rightarrow> bool list \<Rightarrow> ('k, 'v) mapOp list \<Rightarrow> ('k \<Rightarrow> 'v option) \<times> 'v mapReply list" where
  "specOps H m (ok # oks) (p # ps) =
     (let (m, r) = specOp H m ok p; (m, rs) = specOps H m oks ps in (m, r # rs))"
| "specOps H m oks ps = (m, [])"

text \<open>
  \<open>putNew\<close> must be used with a new key, and an entry must not be given the key of another one, which \<open>rekeyAs\<close> does
  not check.
\<close>

fun legalOp :: "'k Hasher \<Rightarrow> ('k \<Rightarrow> 'v option) \<Rightarrow> ('k, 'v) mapOp \<Rightarrow> bool" where
  "legalOp H m (PutNew k v) \<longleftrightarrow> m k = None"
| "legalOp H m (RekeyAs old k) \<longleftrightarrow> m k = None \<or> matchKey H old k"
| "legalOp H m p \<longleftrightarrow> True"

fun legal :: "'k Hasher \<Rightarrow> ('k \<Rightarrow> 'v option) \<Rightarrow> ('k, 'v) mapOp list \<Rightarrow> bool" where
  "legal H m [] \<longleftrightarrow> True"
| "legal H m (p # ps) \<longleftrightarrow> legalOp H m p \<and> legal H (fst (specOp H m True p)) ps \<and> legal H (fst (specOp H m False p)) ps"

context hasher
begin

lemma runOp_runs:
  fixes t :: "('k, 'v) hashmap"
  assumes mi: "mapIs H t m" and lg: "legalOp H m p"
  shows "runs (runOp H t p) env never (\<lambda>(t', r). \<exists>ok. r = snd (specOp H m ok p) \<and> mapIs H t' (fst (specOp H m ok p)) \<and>
    size (entries t') \<le> size (entries t) + 1 \<and> (canGrow env t \<longrightarrow> ok))"
proof (cases p)
  case (Put k v)
  show ?thesis unfolding Put runOp.simps
  proof (rule runs_bindM [OF mapPut_runs [OF mi]], clarify)
    fix t' ok
    assume a: "mapIs H t' (if ok then mapSet H k v m else m)" "m k \<noteq> None \<or> canGrow env t \<longrightarrow> ok"
      "size (entries t') \<le> size (entries t) + 1"
    then show "runs (returnM (t', Answer ok)) env never (\<lambda>(t', r). \<exists>ok. r = snd (specOp H m ok (Put k v)) \<and>
        mapIs H t' (fst (specOp H m ok (Put k v))) \<and> size (entries t') \<le> size (entries t) + 1 \<and> (canGrow env t \<longrightarrow> ok))"
      by (simp, intro exI [of _ ok]) (cases ok; simp)
  qed
next
  case (PutNew k v)
  then have "m k = None" using lg by simp
  show ?thesis unfolding PutNew runOp.simps
  proof (rule runs_bindM [OF mapPutNew_runs [OF mi \<open>m k = None\<close>]], clarify)
    fix t' ok
    assume a: "mapIs H t' (if ok then mapSet H k v m else m)" "canGrow env t \<longrightarrow> ok" "size (entries t') \<le> size (entries t) + 1"
    then show "runs (returnM (t', Answer ok)) env never (\<lambda>(t', r). \<exists>ok. r = snd (specOp H m ok (PutNew k v)) \<and>
        mapIs H t' (fst (specOp H m ok (PutNew k v))) \<and> size (entries t') \<le> size (entries t) + 1 \<and> (canGrow env t \<longrightarrow> ok))"
      by (simp, intro exI [of _ ok]) (cases ok; simp)
  qed
next
  case (Get k)
  then show ?thesis using mi by (auto intro!: runs_bindM [OF mapGet_runs [OF mi]])
next
  case (Has k)
  then show ?thesis using mi by (auto intro!: runs_bindM [OF mapHas_runs [OF mi]])
next
  case (Remove k)
  then show ?thesis by (auto intro!: runs_bindM [OF mapRemove_runs [OF mi]])
next
  case (RekeyAs old k)
  have new: "m k = None \<or> matchKey H old k" using lg RekeyAs by simp
  show ?thesis unfolding RekeyAs runOp.simps
    by (rule runs_bindM [OF mapRekeyAs_runs [OF mi new]]) (auto split: option.splits)
next
  case Clear
  then show ?thesis using clear_mapIs [OF mi] by auto
next
  case ClearAndCompact
  have "tableGood (MapHashPolicy H) t" using mi by (simp add: mapIs_def)
  note c = clearAndCompact_runs [OF this]
  show ?thesis unfolding ClearAndCompact runOp.simps
    by (rule runs_bindM [OF c]) (auto simp: mapIs_def represents_def)
next
  case (Reserve n)
  have good: "tableGood (MapHashPolicy H) t" using mi by (simp add: mapIs_def)
  show ?thesis unfolding Reserve runOp.simps
  proof (rule runs_bindM [OF reserve_runs [OF good]], clarify)
    fix t' ok
    assume "tableGood (MapHashPolicy H) t'" "entries t' = entries t" "ok \<longrightarrow> n \<le> sMaxInit \<and> 4 * n \<le> 3 * capacity t'"
      "(\<forall>k. allocOk env k) \<and> n \<le> sMaxInit \<longrightarrow> ok"
    then show "runs (returnM (t', Answer ok)) env never (\<lambda>(t', r). \<exists>ok. r = snd (specOp H m ok (Reserve n)) \<and>
        mapIs H t' (fst (specOp H m ok (Reserve n))) \<and> size (entries t') \<le> size (entries t) + 1 \<and> (canGrow env t \<longrightarrow> ok))"
      using mi by (simp add: mapIs_def canGrow_def) blast
  qed
qed

lemma runOps_runs:
  fixes t :: "('k, 'v) hashmap"
  assumes "mapIs H t m" and "legal H m ps"
  shows "runs (runOps H t ps) env never (\<lambda>(t', rs). \<exists>oks. length oks = length ps \<and> rs = snd (specOps H m oks ps) \<and>
    mapIs H t' (fst (specOps H m oks ps)) \<and>
    ((\<forall>k. allocOk env k) \<and> size (entries t) + length ps \<le> sMaxInit \<longrightarrow> list_all id oks))"
  using assms
proof (induction ps arbitrary: t m)
  case Nil
  then show ?case by simp
next
  case (Cons p ps)
  have lg: "legalOp H m p" using Cons.prems by simp
  show ?case
    unfolding runOps.simps
  proof (rule runs_bindM [OF runOp_runs [OF Cons.prems(1) lg]], clarify)
    fix t1 r ok
    assume 1: "mapIs H t1 (fst (specOp H m ok p))" "size (entries t1) \<le> size (entries t) + 1" "canGrow env t \<longrightarrow> ok"
    have lg1: "legal H (fst (specOp H m ok p)) ps" using Cons.prems(2) by (cases ok) simp_all
    have n: "mEntryCount t = size (entries t)" using Cons.prems(1) by (simp add: mapIs_def tableGood_def tableOk_def)
    show "runs (bindM (runOps H t1 ps) (\<lambda>(t, rs). returnM (t, snd (specOp H m ok p) # rs))) env never
      (\<lambda>(t', rs). \<exists>oks. length oks = length (p # ps) \<and> rs = snd (specOps H m oks (p # ps)) \<and>
        mapIs H t' (fst (specOps H m oks (p # ps))) \<and>
        ((\<forall>k. allocOk env k) \<and> size (entries t) + length (p # ps) \<le> sMaxInit \<longrightarrow> list_all id oks))"
    proof (rule runs_bindM [OF Cons.IH [OF 1(1) lg1]], clarify)
      fix t2 rs oks
      assume 2: "length oks = length ps" "mapIs H t2 (fst (specOps H (fst (specOp H m ok p)) oks ps))"
        "(\<forall>k. allocOk env k) \<and> size (entries t1) + length ps \<le> sMaxInit \<longrightarrow> list_all id oks"
      show "runs (returnM (t2, snd (specOp H m ok p) # snd (specOps H (fst (specOp H m ok p)) oks ps))) env never
       (\<lambda>(t', rs). \<exists>oks. length oks = length (p # ps) \<and> rs = snd (specOps H m oks (p # ps)) \<and>
        mapIs H t' (fst (specOps H m oks (p # ps))) \<and>
        ((\<forall>k. allocOk env k) \<and> size (entries t) + length (p # ps) \<le> sMaxInit \<longrightarrow> list_all id oks))"
        using 1(2,3) 2 n by (simp, intro exI [of _ "ok # oks"]) (auto simp: canGrow_def Let_def split: prod.splits)
    qed
  qed
qed

end





end
