(* ===== verification/Spec2Isabelle.thy ===== *)
theory Spec2Isabelle
  imports BigInt_Value Xdr BigInt_TwosComplement BigInt_DigitDiv MapSet MoveEmitter ArraySort HashMap
begin

text \<open>
  The JavaScript engine of this repository (SpiderMonkey 78): a verification library for the parts of it that
  compute without a machine below them.  The engine parses a script, emits bytecode, and interprets or compiles
  it; its values are boxed doubles, integers and pointers to cells of a generational collector.  Modelled are
  the arbitrary-precision integers of the language with everything that touches them, their serialisation, the
  collections \<open>Map\<close> and \<open>Set\<close> down to the hash table and up to what a collection of garbage does to them, and
  the resolution of parallel moves by the compilers.

  \<^bold>\<open>How code becomes definitions.\<close>  \<open>Prelude\<close> has the computations: code that takes a \<open>JSContext*\<close> may allocate,
  report an error, or stop at a failed assertion or at undefined behaviour; each of these is a value, and a
  loop that does not end is the error \<open>Diverges\<close>.  Whether an allocation succeeds and what fresh memory holds
  is the parameter \<open>env\<close>.  The judgement \<open>runs m v E Q\<close> says that from every allocation count \<open>m\<close> ends,
  with a value in \<open>Q\<close> or an error in \<open>E\<close>; so a theorem whose \<open>E\<close> names neither \<open>AssertFail\<close>, \<open>UndefinedBehavior\<close> nor
  \<open>Diverges\<close> says that the code terminates, asserts nothing false and leaves no array.  Integers are words of
  their width; \<open>uint32_t\<close> sizes are naturals where the code bounds them below the width.  Names are those of the source; a
  class is a record, a method a definition over it, a debug assertion is kept.

  \<^bold>\<open>BigInt\<close> (\<open>js/src/vm/BigIntType.h\<close>, \<open>js/src/vm/BigIntType.cpp\<close>), 64-bit digits.
  \<^item> \<open>BigInt_Digits\<close>, \<open>BigInt_DigitDiv\<close>: \<open>digitAdd\<close>, \<open>digitSub\<close>, \<open>digitMul\<close>, \<open>digitDiv\<close>, in the wide and the portable version; both
    versions are exact.
  \<^item> \<open>BigInt_Base\<close>: the record \<open>bigint\<close> of a sign and digits, its value \<open>bval\<close>, the invariant \<open>wf\<close> (no leading zero
    digit, no negative zero, at most \<open>MaxDigitLength\<close> digits); creation, copying, trimming.
  \<^item> \<open>BigInt_AddSub\<close>, \<open>BigInt_Mul\<close>, \<open>BigInt_Div\<close>, \<open>BigInt_Shift\<close>, \<open>BigInt_Bitwise\<close>, \<open>BigInt_TwosComplement\<close>: each operation returns the
    canonical result of the mathematical one on every sign and length, or reports a division by zero or a negative
    exponent when it should, or \<open>BigIntTooLarge\<close> within the bounds that its theorem states.  Division is Knuth's
    algorithm D; a right shift whose result has a digit that is never written depends on fresh memory, by exactly that
    digit (\<open>rsh_depends_on_fresh_memory\<close>).  The locale
    \<open>bitwise_op\<close> is the contract of the four digit operations, \<open>multiplier\<close> that of a product that may fail.
  \<^item> \<open>BigInt_ToString\<close>, \<open>BigInt_Parse\<close>: the three printing algorithms, literals and \<open>StringToBigInt\<close>; what is printed reads back.
    A digit is specified by its place in an alphabet (\<open>digitValue\<close>).
  \<^item> \<open>FloatingPoint\<close> (\<open>mfbt/FloatingPoint.h\<close>, \<open>js/public/Conversions.h\<close>), \<open>BigInt_Double\<close>: doubles as bit patterns; conversions round
    to nearest with ties to even, comparison is exact.
  \<^item> \<open>BigInt_Value\<close> (with \<open>js/src/vm/JSObject.cpp\<close>): the operators on values, \<open>ToPrimitive\<close>, \<open>ToBigInt\<close>, loose equality and order.
    Script code that an object supplies is the parameter \<open>scripts\<close>, which may do anything a script can.
    \<open>looselyEqual\<close> recurses once per conversion; its fuel of two is enough because \<open>ToPrimitive\<close> never returns an object.
    Where a result rests on script code or another parameter, the theorems say that it comes from a value which that
    computation can return (\<open>mayReturn\<close> of \<open>Prelude\<close>).

  \<^bold>\<open>XDR\<close> (\<open>js/src/vm/Xdr.h\<close>, \<open>js/src/vm/Xdr.cpp\<close>): theory \<open>Xdr\<close>, a buffer with a cursor and the coders of scalars, bytes,
    characters, strings and BigInts.  The locale \<open>codec\<close> is the contract of an encoder and its decoder, wherever
    the bytes stand; every coder interprets it.

  \<^bold>\<open>Map and Set\<close>.
  \<^item> \<open>OrderedHashTable\<close> (\<open>js/src/ds/OrderedHashTable.h\<close>): buckets, chains through an insertion-ordered vector, removal by
    marking, rehashing, and the live ranges that the table corrects.  A pointer into the vector is an index.
  \<^item> \<open>OrderedHashTable_Spec\<close>: the invariant \<open>tableOk\<close> and the abstraction to a list of live elements, which each range splits
    in two; \<open>OrderedHashTable_Ops\<close>: the operations under the locale \<open>hash_policy\<close> (equal keys hash alike);
    \<open>OrderedHashTable_Rekey\<close>: moving an entry between chains; \<open>OrderedHashTable_Refine\<close>: the simulation of the list with holes by which
    ECMAScript specifies iteration.
  \<^item> \<open>HashFunctions\<close> (\<open>mfbt/HashFunctions.h\<close>), \<open>HashableValue\<close> (\<open>js/src/builtin/MapObject.cpp\<close>): normalisation, hash and equality of keys, which is
    \<open>SameValueZero\<close> whichever cells hold the BigInts (\<open>operatorEq\<close>); a table takes two BigInts to be different cells.  The locale \<open>key_policy\<close> gives \<open>hash_policy\<close> for both kinds of table (\<open>sublocale\<close>).
  \<^item> \<open>MapObject\<close>: the methods of both classes over a \<open>Collection\<close>, the iterator objects, the write barrier, tracing, and a
    minor or major collection as it meets one map.  Where objects move, what is reachable and where the
    allocator puts a cell are parameters of each step.
  \<^item> \<open>MapObject_Spec\<close>: ECMAScript's collections as a step relation (\<open>engineStep\<close>, \<open>engineRun\<close>) in which an operation may fail only
    if allocations can; \<open>MapObject_Refine\<close> and \<open>MapObject_Collect\<close>: the locale \<open>collection\<close> and the relation \<open>represents\<close>, kept by
    every command and every collection; \<open>MapSet\<close>: its interpretations and the theorems about whole programs.  A table must stay
    below \<open>2 ^ 30\<close> entries, since the capacity of \<open>2 ^ 31\<close> buckets does not fit \<open>uint32_t\<close>.

  \<^bold>\<open>Parallel moves\<close> of the compilers, on x86.
  \<^item> \<open>MoveResolver\<close> (\<open>js/src/jit/MoveResolver.h\<close>, \<open>js/src/jit/MoveResolver.cpp\<close>): operands, aliasing, the depth-first search that
    orders the moves and breaks cycles, the merging of moves from one memory operand, and the later sorting.  The
    meaning of an ordered list is \<open>emit\<close>, over a store of places and at most one saved value; \<open>conv\<close> is what a
    move of a type transfers.
  \<^item> \<open>MoveResolver_Correct\<close>: moves that touch nothing in common commute; adding a move to the result is appending it.
    \<open>MoveResolver_Resolve\<close>: the invariant of the search, in which each move of the stack blocks the one below it, and
    its measure.  \<open>MoveResolver_Sort\<close>: sorting changes no effect and lowers a count of inversions.
  \<^item> \<open>MoveEmitter\<close> (\<open>js/src/jit/x86-shared/MoveEmitter-x86-shared.cpp\<close>, \<open>CodeGenerator::visitMoveGroup\<close>): the emitter with its exchanges for
    short cycles of registers is the meaning of the list, and a move group is the parallel assignment.

  \<^bold>\<open>Sorting\<close>.
  \<^item> \<open>MergeSort\<close> (\<open>js/src/ds/Sort.h\<close>): insertion sort on chunks of three, then passes that merge runs between the array and its
    scratch space.  A comparator is a computation that may fail; the locale \<open>comparator\<close> is what the sort asks of it.
    With a total preorder the sort is stable, with any answers it only rearranges.
  \<^item> \<open>MathAlgorithms\<close> (\<open>mfbt/MathAlgorithms.h\<close>); \<open>LexicographicInt32\<close> (\<open>js/src/builtin/Array.cpp\<close>): the comparison of two integers by
    their decimal strings without the strings, equal to \<open>CompareChars\<close> on what \<open>Int32ToString\<close> prints.
  \<^item> \<open>ArraySort\<close> (\<open>js/src/builtin/Array.cpp\<close>): \<open>intrinsic_ArrayNativeSort\<close> with the paths for strings, integers, mixed elements
    and the comparison functions it recognises; \<open>MergeSortByKey\<close> moves every element once, along the cycles of the
    permutation (\<open>pending\<close>).  The array is a list whose holes are \<open>None\<close>.  The keys are the strings or numbers that
    script code and the numeral library can give (\<open>textFor\<close>, \<open>numberFor\<close>); the script code of a conversion may leave
    the array in any state before the sorted elements are stored (\<open>arrayLeft\<close>).  Getters, proxies and arrays whose
    elements cannot be written are not in the model.

  \<^bold>\<open>Hash tables\<close> (\<open>mfbt/HashTable.h\<close>).
  \<^item> \<open>HashTable\<close>: slots with a cached hash, double hashing, collision bits and removed-entry sentinels; lookups, insertions,
    removals, rekeying, growing, shrinking and the rehash in place.  A slot, a \<open>Ptr\<close> and an \<open>AddPtr\<close> hold an index.
  \<^item> \<open>HashTable_Probe\<close>: the probe sequence of a hash visits every slot (\<open>mHash2\<close> is odd and the capacity a power of two), so a search
    ends if a slot is free; the invariant of a search.  The locale \<open>open_policy\<close> is what a hash policy promises.
  \<^item> \<open>HashTable_Resize\<close>: the invariant \<open>tableOk\<close> (every entry is reached along its probe sequence over slots with collision
    bits or sentinels), rebuilding in new memory and in place; \<open>HashTable_Ops\<close>: every operation on the multiset of entries, and the
    load limit that leaves a free slot (\<open>roomy\<close>, \<open>spare\<close>); \<open>canGrow\<close> is when an insertion cannot fail.
  \<^item> \<open>HashMap\<close>: \<open>HashMap\<close>, \<open>HashSet\<close> and the default hashers (locale \<open>hasher\<close>), and programs over a map.
    \<open>putNew\<close> and \<open>rekeyAs\<close> ask that the new key be absent (\<open>legal\<close>); the code checks it only in debug builds, and for
    \<open>rekeyAs\<close> not at all.
  \<^bold>\<open>Fuel and bounds.\<close>  Loops are \<open>whileE\<close> and \<open>whileM\<close> over \<open>while_option\<close>, with a measure in every proof, or recursive functions
  with a termination proof; nothing but \<open>looselyEqual\<close> has fuel.

  \<^bold>\<open>Not modelled.\<close>  The collector itself (it works on raw memory and on every type of cell; a moving BigInt is
  not seen, since its content decides its hash), the front end and the interpreter (their state is the whole
  heap of shapes and environments), the optimising compilers and WebAssembly beyond the moves above, regular
  expressions, ctypes and the shell.  In the modelled files: memory accounting, tracing of single cells, debug
  dumps, class hooks, the accessors of field offsets for compiled code, the coders of XDR that walk scripts, and
  the instructions that carry out one move.
\<close>

end
